(* ===== verification/Prelude.thy ===== *)
theory Prelude
  imports Main "HOL-Library.Word"
begin

section \<open>Prelude: machine types, reachability and shared automation\<close>

text \<open>
  What every component shares: the widths of the C types the programs use, the collection
  \<open>lock_code\<close> of the definitions that translate a program file's functions (so that one
  \<open>simp add: lock_code\<close> unfolds them), and three facts on runs of a transition relation:
  an invariant holds in every reachable state, a simulation carries reachability over, and a
  well-founded measure that some step always decreases makes a goal reachable.
\<close>

subsection \<open>Types of the C programs\<close>

type_synonym tid = nat
type_synonym u8 = "8 word"
type_synonym u16 = "16 word"
type_synonym u32 = "32 word"
type_synonym u64 = "64 word"

text \<open>A C \<open>int\<close>: 32 bits, two's complement, read with \<open>sint\<close>.\<close>

type_synonym cint = "32 word"

named_theorems lock_code \<open>definitions that translate the functions of a program file\<close>

subsection \<open>Runs of a transition relation\<close>

lemma run_invariant:
  assumes run: "step\<^sup>*\<^sup>* s t" and start: "I s"
    and keep: "\<And>u v. I u \<Longrightarrow> step u v \<Longrightarrow> I v"
  shows "I t"
  using run start by (induction rule: rtranclp_induct) (auto intro: keep)

lemma run_simulation:
  assumes run: "step\<^sup>*\<^sup>* s t" and start: "I s"
    and keep: "\<And>u v. I u \<Longrightarrow> step u v \<Longrightarrow> I v"
    and sim: "\<And>u v. I u \<Longrightarrow> step u v \<Longrightarrow> view v = view u \<or> astep (view u) (view v)"
  shows "astep\<^sup>*\<^sup>* (view s) (view t)"
  using run
proof (induction rule: rtranclp_induct)
  case base
  show ?case by simp
next
  case (step u v)
  have "I u" using step.hyps(1) start keep by (rule run_invariant)
  then show ?case
    using sim [OF _ step.hyps(2)] step.IH by (auto intro: rtranclp.rtrancl_into_rtrancl)
qed

lemma run_reaches:
  assumes wf: "wf r" and start: "I s"
    and dec: "\<And>u. I u \<Longrightarrow> \<not> F u \<Longrightarrow> \<exists>v. step u v \<and> I v \<and> (v, u) \<in> r"
  shows "\<exists>t. step\<^sup>*\<^sup>* s t \<and> F t"
  using wf start
proof (induction s rule: wf_induct_rule)
  case (less u)
  show ?case
  proof (cases "F u")
    case True
    then show ?thesis by blast
  next
    case False
    then obtain v where v: "step u v" "I v" "(v, u) \<in> r"
      using dec less.prems by blast
    then obtain t where "step\<^sup>*\<^sup>* v t" "F t"
      using less.IH by blast
    then show ?thesis using v(1) by (blast intro: converse_rtranclp_into_rtranclp)
  qed
qed

subsection \<open>Sums over the threads\<close>

text \<open>A measure that adds one term per thread goes down when one thread's term does.\<close>

lemma sum_update_less:
  fixes f g :: "nat \<Rightarrow> nat"
  assumes "i < n" "g i < f i" "\<And>j. j < n \<Longrightarrow> j \<noteq> i \<Longrightarrow> g j = f j"
  shows "(\<Sum>j<n. g j) < (\<Sum>j<n. f j)"
proof (rule sum_strict_mono_ex1)
  show "\<forall>j\<in>{..<n}. g j \<le> f j" using assms by (metis lessThan_iff less_or_eq_imp_le)
  show "\<exists>j\<in>{..<n}. g j < f j" using assms by blast
qed simp

lemma sum_update_Suc:
  fixes f g :: "nat \<Rightarrow> nat"
  assumes i: "i < n" and Suc: "g i = Suc (f i)" and same: "\<And>j. j < n \<Longrightarrow> j \<noteq> i \<Longrightarrow> g j = f j"
  shows "(\<Sum>j<n. g j) = Suc (\<Sum>j<n. f j)"
proof -
  have "(\<Sum>j<n. g j) = g i + (\<Sum>j\<in>{..<n} - {i}. g j)"
    using i by (simp add: sum.remove)
  also have "(\<Sum>j\<in>{..<n} - {i}. g j) = (\<Sum>j\<in>{..<n} - {i}. f j)"
    by (rule sum.cong) (auto simp: same)
  also have "g i + \<dots> = Suc (f i + (\<Sum>j\<in>{..<n} - {i}. f j))"
    by (simp add: Suc)
  also have "f i + (\<Sum>j\<in>{..<n} - {i}. f j) = (\<Sum>j<n. f j)"
    using i by (simp add: sum.remove)
  finally show ?thesis .
qed

lemma sum_update_same:
  fixes f g :: "nat \<Rightarrow> nat"
  assumes "\<And>j. j < n \<Longrightarrow> g j = f j"
  shows "(\<Sum>j<n. g j) = (\<Sum>j<n. f j)"
  by (rule sum.cong) (auto simp: assms)

lemma sum_at:
  fixes f :: "'a \<Rightarrow> 'b::comm_monoid_add" and n :: nat
  assumes "i < n"
  shows "(\<Sum>j<n. f ((st(i := x)) j)) + f (st i) = (\<Sum>j<n. f (st j)) + f x"
proof -
  have "(\<Sum>j\<in>{..<n} - {i}. f ((st(i := x)) j)) = (\<Sum>j\<in>{..<n} - {i}. f (st j))" by (rule sum.cong) auto
  moreover have "(\<Sum>j<n. g j) = g i + (\<Sum>j\<in>{..<n} - {i}. g j)" for g :: "nat \<Rightarrow> 'b"
    using assms by (intro sum.remove) auto
  from this [of "\<lambda>j. f ((st(i := x)) j)"] this [of "\<lambda>j. f (st j)"]
  have "(\<Sum>j<n. f ((st(i := x)) j)) = f x + (\<Sum>j\<in>{..<n} - {i}. f ((st(i := x)) j))"
    "(\<Sum>j<n. f (st j)) = f (st i) + (\<Sum>j\<in>{..<n} - {i}. f (st j))" by (simp_all only: fun_upd_same)
  ultimately show ?thesis by (simp only: ac_simps)
qed

lemma sum_at_same: "f x = f (st i) \<Longrightarrow> (\<Sum>j<(n::nat). f ((st(i := x)) j)) = (\<Sum>j<n. f (st j))"
  by (rule sum.cong) auto

end
