(* ===== verification/STM_ETL.thy ===== *)
theory STM_ETL
  imports Prelude
begin

unbundle bit_operations_syntax

section \<open>The transactions of tinySTM\<close>

text \<open>
  \<open>transactional/tinySTM/src/stm_internal.h\<close> and \<open>stm_wbetl.h\<close> with the options that \<open>Makefile\<close> chooses: write-back,
  locks taken when a location is first written (\<open>WRITE_BACK_ETL\<close>), a transaction that meets a lock of another
  aborts itself (\<open>CM_SUICIDE\<close>). Memory is covered by an array of locks. A lock holds the time of the last commit that
  wrote one of its words, or points to the entry in the write set of the transaction that has it. A transaction is valid for the
  memory at some time between \<open>start\<close> and \<open>end\<close>; it moves \<open>end\<close> forward when it meets something newer, provided
  that all it has read is still the same, and does the same test when it commits.

  Each access to the memory of the program, to a lock or to the clock is a step. The descriptor \<open>stm_tx\<close> is touched by its own
  thread only (its lists, and \<open>w_size\<close>, have no bound here, where the code counts in \<open>unsigned int\<close>), and what a thread does there happens together with the access before it. A pointer to a write set
  entry is the thread and the index. Times are natural numbers; that they fit into their words, and that the
  lock words tell all locks apart, is proved in \<open>STM_Results\<close>. No thread asks to be irrevocable, so the
  branches for that are not taken; a thread that finds the clock at its end stays in \<open>Rollover\<close>.
  Auxiliary fields, which no step reads: \<open>initial\<close>, the memory at the start, \<open>seen\<close>, the read set with the reads of read-only transactions too, \<open>trace\<close>, what the
  transaction has read and written, \<open>decided\<close>, the update transactions that have passed their last
  test, under their time, and \<open>readers\<close>, the transactions that committed without a write.
\<close>

subsection \<open>Locks\<close>

type_synonym stm_word = u64

definition LOCK_SHIFT :: nat where
  "LOCK_SHIFT = 3 + 2"

definition LOCK_ARRAY_LOG_SIZE :: nat where
  "LOCK_ARRAY_LOG_SIZE = 20"

definition LOCK_IDX :: "stm_word \<Rightarrow> stm_word" where
  "LOCK_IDX a = drop_bit LOCK_SHIFT a AND (push_bit LOCK_ARRAY_LOG_SIZE 1 - 1)"

definition OWNED_BITS :: nat where "OWNED_BITS = 1"
definition INCARNATION_BITS :: nat where "INCARNATION_BITS = 3"
definition LOCK_BITS :: nat where "LOCK_BITS = OWNED_BITS + INCARNATION_BITS"
definition WRITE_MASK :: stm_word where "WRITE_MASK = 1"
definition MAX_THREADS :: nat where "MAX_THREADS = 8192"

definition VERSION_MAX :: nat where
  "VERSION_MAX = unat (drop_bit LOCK_BITS (NOT 0 :: stm_word) - of_nat MAX_THREADS)"

definition LOCK_GET_OWNED :: "stm_word \<Rightarrow> bool" where "LOCK_GET_OWNED l \<longleftrightarrow> l AND WRITE_MASK \<noteq> 0"
definition LOCK_SET_ADDR_WRITE :: "stm_word \<Rightarrow> stm_word" where "LOCK_SET_ADDR_WRITE a = a OR WRITE_MASK"
definition LOCK_GET_ADDR :: "stm_word \<Rightarrow> stm_word" where "LOCK_GET_ADDR l = l AND NOT WRITE_MASK"
definition LOCK_GET_TIMESTAMP :: "stm_word \<Rightarrow> stm_word" where "LOCK_GET_TIMESTAMP l = drop_bit LOCK_BITS l"
definition LOCK_SET_TIMESTAMP :: "stm_word \<Rightarrow> stm_word" where "LOCK_SET_TIMESTAMP t = push_bit LOCK_BITS t"

datatype lock = Version nat | Owned tid nat

text \<open>The word of a lock, with \<open>entry j k\<close> the address of entry \<open>k\<close> of the write set of \<open>j\<close>.\<close>

fun lock_word :: "(tid \<Rightarrow> nat \<Rightarrow> stm_word) \<Rightarrow> lock \<Rightarrow> stm_word" where
  "lock_word entry (Version v) = LOCK_SET_TIMESTAMP (of_nat v)"
| "lock_word entry (Owned j k) = LOCK_SET_ADDR_WRITE (entry j k)"

subsection \<open>The state\<close>

record r_entry =
  r_version :: nat
  r_lock :: stm_word

record w_entry =
  w_addr :: stm_word
  w_value :: stm_word
  w_mask :: stm_word
  w_version :: nat
  w_lock :: stm_word
  w_next :: "nat option"

record stm_tx_attr =
  read_only :: bool
  no_retry :: bool

datatype tx_status = TX_IDLE | TX_ACTIVE | TX_COMMITTED | TX_ABORTED

text \<open>Where a thread is. \<open>Idle\<close>: outside of transactions, \<open>Active\<close>: in the code of the program; \<open>Prepare\<close>: \<open>int_stm_prepare\<close>;
  \<open>R\<close>: \<open>stm_wbetl_read_invisible\<close> (with \<open>stm_wbetl_extend\<close>), \<open>W\<close>: \<open>stm_wbetl_write\<close>, \<open>C\<close>: \<open>stm_wbetl_commit\<close>, \<open>K\<close>: \<open>stm_rollback\<close>, with the reason and
  the next entry of the write set. \<open>Rollover\<close>: in \<open>stm_quiesce_barrier\<close>, \<open>Undefined\<close>: in no defined state.\<close>

datatype etl_pc = Idle | Prepare | Rollover | Undefined | Active
  | R_lock stm_word | R_own stm_word | R_value stm_word nat | R_check stm_word nat stm_word
  | R_extend stm_word nat stm_word | R_valid stm_word nat stm_word nat nat | R_again stm_word nat stm_word
  | W_lock stm_word stm_word stm_word | W_cas stm_word stm_word stm_word nat | W_fill stm_word stm_word stm_word nat
  | C_clock | C_valid nat nat | C_store nat nat | C_release nat nat
  | K_drop abort nat
and abort = RW_conflict | WW_conflict | Val_read | Val_write | Validate | Explicit bool | Extend_ws etl_pc

datatype event = Rd stm_word stm_word | Wr stm_word stm_word stm_word

record stm_tx =
  pc :: etl_pc
  attr :: stm_tx_attr
  status :: tx_status
  nesting :: nat
  start :: nat
  tx_end :: nat
  r_set :: "r_entry list"
  w_set :: "w_entry list"
  w_size :: nat
  result :: stm_word
  seen :: "(stm_word \<times> nat) list"
  trace :: "event list"

record stm_globals =
  mem :: "stm_word \<Rightarrow> stm_word"
  locks :: "stm_word \<Rightarrow> lock"
  clock :: nat
  initial :: "stm_word \<Rightarrow> stm_word"
  decided :: "nat \<Rightarrow> (nat \<times> event list) option"
  readers :: "(nat \<times> nat \<times> event list) list"

datatype stm_request = Start stm_tx_attr | Load stm_word | Store2 stm_word stm_word stm_word | Commit | Abort bool

type_synonym stm_outcome = "(stm_globals \<times> stm_tx) option"

subsection \<open>Read and write sets\<close>

definition has_read :: "stm_word \<Rightarrow> stm_tx \<Rightarrow> bool" where
  "has_read L l \<longleftrightarrow> list_ex (\<lambda>r. r_lock r = L) (r_set l)"

text \<open>The walk through the entries of one lock: the entry with the address, or the last one. That links go
  forward and stay in the set, which the recursion needs to end, always holds (\<open>ws_ok\<close>).\<close>

function walk :: "w_entry list \<Rightarrow> nat \<Rightarrow> stm_word \<Rightarrow> nat \<times> bool" where
  "walk ws k a = (if w_addr (ws ! k) = a then (k, True) else
     (case w_next (ws ! k) of None \<Rightarrow> (k, False)
      | Some j \<Rightarrow> if k < j \<and> j < length ws then walk ws j a else (k, False)))"
  by pat_completeness auto
termination by (relation "measure (\<lambda>(ws, k, a). length ws - k)") auto

declare walk.simps [simp del]

definition merge :: "stm_word \<Rightarrow> stm_word \<Rightarrow> stm_word \<Rightarrow> stm_word" where
  "merge old v m = (old AND NOT m) OR (v AND m)"

definition new_entry :: "stm_word \<Rightarrow> nat \<Rightarrow> w_entry" where
  "new_entry a ver = \<lparr>w_addr = a, w_value = 0, w_mask = 0, w_version = ver, w_lock = LOCK_IDX a, w_next = None\<rparr>"

definition resume :: "stm_tx \<Rightarrow> stm_tx" where
  "resume l = l\<lparr>pc := if nesting l = 0 then Idle else Active\<rparr>"

definition put_value :: "nat \<Rightarrow> stm_word \<Rightarrow> stm_word \<Rightarrow> stm_word \<Rightarrow> stm_word \<Rightarrow> stm_tx \<Rightarrow> stm_tx" where
  "put_value k a v m old l = resume (l\<lparr>
     w_set := (w_set l)[k := (w_set l ! k)\<lparr>w_value := merge old v m, w_mask := w_mask (w_set l ! k) OR m\<rparr>],
     trace := trace l @ [Wr a v m]\<rparr>)"

definition loaded :: "stm_word \<Rightarrow> stm_word \<Rightarrow> stm_tx \<Rightarrow> stm_tx" where
  "loaded a x l = resume (l\<lparr>result := x, trace := trace l @ [Rd a x]\<rparr>)"

definition add_read :: "stm_word \<Rightarrow> nat \<Rightarrow> stm_tx \<Rightarrow> stm_tx" where
  "add_read L v l = l\<lparr>r_set := if read_only (attr l) then r_set l else r_set l @ [\<lparr>r_version = v, r_lock = L\<rparr>],
     seen := seen l @ [(L, v)]\<rparr>"

definition rollback :: "abort \<Rightarrow> stm_tx \<Rightarrow> stm_tx" where
  "rollback r l = l\<lparr>pc := K_drop r 0\<rparr>"

definition own :: "tid \<Rightarrow> tid \<Rightarrow> nat \<Rightarrow> stm_tx \<Rightarrow> bool" where
  "own i j k l \<longleftrightarrow> j = i \<and> k < length (w_set l)"

subsection \<open>Begin\<close>

definition int_stm_prepare :: "stm_globals \<Rightarrow> stm_tx \<Rightarrow> stm_outcome" where
  "int_stm_prepare g l = Some (g, if VERSION_MAX \<le> clock g then l\<lparr>pc := Rollover\<rparr> else
     l\<lparr>r_set := [], w_set := [], start := clock g, tx_end := clock g, status := TX_ACTIVE, pc := Active, seen := [], trace := []\<rparr>)"

definition int_stm_start :: "stm_tx_attr \<Rightarrow> stm_globals \<Rightarrow> stm_tx \<Rightarrow> stm_outcome" where
  "int_stm_start at g l = Some (g, if 0 < nesting l then l\<lparr>nesting := nesting l + 1\<rparr>
     else l\<lparr>nesting := 1, attr := at, pc := Prepare\<rparr>)"

subsection \<open>Rollback\<close>

definition committed :: "stm_tx \<Rightarrow> stm_tx" where
  "committed l = l\<lparr>pc := Idle, status := TX_COMMITTED, result := 1\<rparr>"

text \<open>\<open>stm_rollback\<close> once the locks are dropped; without a retry it returns to where it was called.\<close>

definition stm_rollback :: "abort \<Rightarrow> stm_tx \<Rightarrow> stm_tx" where
  "stm_rollback r l = (let l = l\<lparr>status := TX_ABORTED, w_size := (case r of Extend_ws _ \<Rightarrow> w_size l * 2 | _ \<Rightarrow> w_size l)\<rparr> in
     if no_retry (attr l) \<or> r = Explicit True
     then (let l = l\<lparr>nesting := 0, result := 0\<rparr> in
       case r of Validate \<Rightarrow> committed l | Extend_ws p \<Rightarrow> l\<lparr>pc := p\<rparr> | _ \<Rightarrow> l\<lparr>pc := Idle\<rparr>)
     else l\<lparr>nesting := 1, pc := Prepare\<rparr>)"

definition stm_wbetl_rollback :: "stm_globals \<Rightarrow> stm_tx \<Rightarrow> stm_outcome" where
  "stm_wbetl_rollback g l = (case pc l of
     K_drop r k \<Rightarrow>
       if k < length (w_set l) then
         (let w = w_set l ! k in
          Some (if w_next w = None then g\<lparr>locks := (locks g)(w_lock w := Version (w_version w))\<rparr> else g, l\<lparr>pc := K_drop r (k + 1)\<rparr>))
       else Some (g, stm_rollback r l)
   | _ \<Rightarrow> None)"

subsection \<open>Validation\<close>

definition entry_valid :: "tid \<Rightarrow> stm_globals \<Rightarrow> stm_tx \<Rightarrow> r_entry \<Rightarrow> bool" where
  "entry_valid i g l r = (case locks g (r_lock r) of Owned j k \<Rightarrow> own i j k l | Version v \<Rightarrow> v = r_version r)"

definition stm_wbetl_extend :: "tid \<Rightarrow> stm_globals \<Rightarrow> stm_tx \<Rightarrow> stm_outcome" where
  "stm_wbetl_extend i g l = (case pc l of
     R_extend a v x \<Rightarrow> Some (g, if VERSION_MAX \<le> clock g then rollback Val_read l else l\<lparr>pc := R_valid a v x (clock g) 0\<rparr>)
   | R_valid a v x now k \<Rightarrow> Some (g,
       if length (r_set l) \<le> k then l\<lparr>tx_end := now, pc := R_again a v x\<rparr>
       else if entry_valid i g l (r_set l ! k) then l\<lparr>pc := R_valid a v x now (k + 1)\<rparr>
       else rollback Val_read l)
   | _ \<Rightarrow> None)"

subsection \<open>Loads\<close>

text \<open>What a load does with the lock it has found.\<close>

definition read_locked :: "tid \<Rightarrow> stm_word \<Rightarrow> lock \<Rightarrow> stm_tx \<Rightarrow> stm_tx" where
  "read_locked i a lw l = (case lw of
     Owned j k \<Rightarrow>
       if own i j k l then
         (let (k', found) = walk (w_set l) k a in
          if found \<and> w_mask (w_set l ! k') \<noteq> 0 then loaded a (w_value (w_set l ! k')) l else l\<lparr>pc := R_own a\<rparr>)
       else rollback RW_conflict l
   | Version v \<Rightarrow> l\<lparr>pc := R_value a v\<rparr>)"

definition stm_wbetl_read_invisible :: "tid \<Rightarrow> stm_globals \<Rightarrow> stm_tx \<Rightarrow> stm_outcome" where
  "stm_wbetl_read_invisible i g l = (case pc l of
     R_lock a \<Rightarrow> Some (g, read_locked i a (locks g (LOCK_IDX a)) l)
   | R_own a \<Rightarrow> Some (g, loaded a (mem g a) l)
   | R_value a v \<Rightarrow> Some (g, l\<lparr>pc := R_check a v (mem g a)\<rparr>)
   | R_check a v x \<Rightarrow> Some (g,
       if locks g (LOCK_IDX a) \<noteq> Version v then read_locked i a (locks g (LOCK_IDX a)) l
       else if v \<le> tx_end l then loaded a x (add_read (LOCK_IDX a) v l)
       else if read_only (attr l) then rollback Val_read l
       else l\<lparr>pc := R_extend a v x\<rparr>)
   | R_again a v x \<Rightarrow> Some (g,
       if locks g (LOCK_IDX a) \<noteq> Version v then read_locked i a (locks g (LOCK_IDX a)) l
       else loaded a x (add_read (LOCK_IDX a) v l))
   | _ \<Rightarrow> None)"

text \<open>\<open>stm_wbetl_RaW\<close>, the load for a word that the transaction has written; \<open>None\<close> is a failed \<open>assert\<close>.\<close>

definition stm_wbetl_RaW :: "tid \<Rightarrow> stm_globals \<Rightarrow> stm_tx \<Rightarrow> stm_word \<Rightarrow> stm_word option" where
  "stm_wbetl_RaW i g l a = (case locks g (LOCK_IDX a) of
     Version v \<Rightarrow> None
   | Owned j k \<Rightarrow> if own i j k l then Some (w_value (w_set l ! k)) else None)"

subsection \<open>Stores\<close>

text \<open>An entry enters the write set with an empty mask. Mask and value follow in the same step, or once the
  rest of the word is loaded, where the store is only of part of it.\<close>

definition fill :: "nat \<Rightarrow> stm_word \<Rightarrow> stm_word \<Rightarrow> stm_word \<Rightarrow> stm_tx \<Rightarrow> stm_tx" where
  "fill k a v m l = (if m = 0 then resume l
     else if m = NOT 0 \<or> w_mask (w_set l ! k) \<noteq> 0 then put_value k a v m (w_value (w_set l ! k)) l
     else l\<lparr>pc := W_fill a v m k\<rparr>)"

definition stm_wbetl_write :: "tid \<Rightarrow> stm_globals \<Rightarrow> stm_tx \<Rightarrow> stm_outcome" where
  "stm_wbetl_write i g l = (case pc l of
     W_lock a v m \<Rightarrow> Some (g,
       case locks g (LOCK_IDX a) of
         Owned j k \<Rightarrow>
           if \<not> own i j k l then rollback WW_conflict l
           else if m = 0 then resume l
           else
             (let (k', found) = walk (w_set l) k a; n = length (w_set l) in
              if found then fill k' a v m l
              else if n = w_size l then rollback (Extend_ws Undefined) l
              else fill n a v m (l\<lparr>w_set := (w_set l)[k' := (w_set l ! k')\<lparr>w_next := Some n\<rparr>] @ [new_entry a (w_version (w_set l ! k'))]\<rparr>))
       | Version ver \<Rightarrow>
           if tx_end l < ver \<and> has_read (LOCK_IDX a) l then rollback Val_write l
           else if length (w_set l) = w_size l then rollback (Extend_ws (W_cas a v m ver)) l
           else l\<lparr>pc := W_cas a v m ver\<rparr>)
   | W_cas a v m ver \<Rightarrow>
       (let n = length (w_set l) in
        if locks g (LOCK_IDX a) = Version ver
        then Some (g\<lparr>locks := (locks g)(LOCK_IDX a := Owned i n)\<rparr>, fill n a v m (l\<lparr>w_set := w_set l @ [new_entry a ver]\<rparr>))
        else Some (g, l\<lparr>pc := W_lock a v m\<rparr>))
   | W_fill a v m k \<Rightarrow> Some (g, put_value k a v m (mem g a) l)
   | _ \<Rightarrow> None)"

subsection \<open>Commit\<close>

definition int_stm_commit :: "stm_globals \<Rightarrow> stm_tx \<Rightarrow> stm_outcome" where
  "int_stm_commit g l = Some (let l' = l\<lparr>nesting := nesting l - 1\<rparr> in
     if 0 < nesting l' then (g, l'\<lparr>result := 1\<rparr>)
     else if w_set l = [] then (g\<lparr>readers := (start l, tx_end l, trace l) # readers g\<rparr>, committed l')
     else (g, l'\<lparr>pc := C_clock\<rparr>))"

definition stm_wbetl_commit :: "tid \<Rightarrow> stm_globals \<Rightarrow> stm_tx \<Rightarrow> stm_outcome" where
  "stm_wbetl_commit i g l = (case pc l of
     C_clock \<Rightarrow> (let t = clock g + 1 in
       Some (g\<lparr>clock := t\<rparr>, l\<lparr>pc := C_valid t (if start l = t - 1 then length (r_set l) else 0)\<rparr>))
   | C_valid t k \<Rightarrow> Some (
       if length (r_set l) \<le> k then (g\<lparr>decided := (decided g)(t \<mapsto> (start l, trace l))\<rparr>, l\<lparr>pc := C_store t 0\<rparr>)
       else if entry_valid i g l (r_set l ! k) then (g, l\<lparr>pc := C_valid t (k + 1)\<rparr>)
       else (g, rollback Validate l))
   | C_store t k \<Rightarrow> Some (
       if length (w_set l) \<le> k then (g, committed l)
       else (let w = w_set l ! k in
         (if w_mask w \<noteq> 0 then g\<lparr>mem := (mem g)(w_addr w := w_value w)\<rparr> else g,
          l\<lparr>pc := if w_next w = None then C_release t k else C_store t (k + 1)\<rparr>)))
   | C_release t k \<Rightarrow> Some (g\<lparr>locks := (locks g)(w_lock (w_set l ! k) := Version t)\<rparr>, l\<lparr>pc := C_store t (k + 1)\<rparr>)
   | _ \<Rightarrow> None)"

subsection \<open>Steps and runs\<close>

definition stm_request :: "stm_request \<Rightarrow> stm_globals \<Rightarrow> stm_tx \<Rightarrow> stm_outcome" where
  "stm_request r g l = (case r of
     Start at \<Rightarrow> int_stm_start at g l
   | Load a \<Rightarrow> Some (g, l\<lparr>pc := R_lock a\<rparr>)
   | Store2 a v m \<Rightarrow> Some (g, l\<lparr>pc := W_lock a v m\<rparr>)
   | Commit \<Rightarrow> int_stm_commit g l
   | Abort nr \<Rightarrow> Some (g, rollback (Explicit nr) l))"

text \<open>A step of thread \<open>i\<close>. The request counts in the code of the program; outside of a transaction it can only start one.\<close>

definition etl_step :: "tid \<Rightarrow> stm_request \<Rightarrow> stm_globals \<Rightarrow> stm_tx \<Rightarrow> stm_outcome" where
  "etl_step i r g l = (case pc l of
     Idle \<Rightarrow> (case r of Start at \<Rightarrow> int_stm_start at g l | _ \<Rightarrow> None)
   | Prepare \<Rightarrow> int_stm_prepare g l
   | Rollover \<Rightarrow> None | Undefined \<Rightarrow> None
   | Active \<Rightarrow> stm_request r g l
   | R_extend a v x \<Rightarrow> stm_wbetl_extend i g l
   | R_valid a v x now k \<Rightarrow> stm_wbetl_extend i g l
   | R_lock a \<Rightarrow> stm_wbetl_read_invisible i g l
   | R_own a \<Rightarrow> stm_wbetl_read_invisible i g l
   | R_value a v \<Rightarrow> stm_wbetl_read_invisible i g l
   | R_check a v x \<Rightarrow> stm_wbetl_read_invisible i g l
   | R_again a v x \<Rightarrow> stm_wbetl_read_invisible i g l
   | W_lock a v m \<Rightarrow> stm_wbetl_write i g l
   | W_cas a v m ver \<Rightarrow> stm_wbetl_write i g l
   | W_fill a v m k \<Rightarrow> stm_wbetl_write i g l
   | C_clock \<Rightarrow> stm_wbetl_commit i g l
   | C_valid t k \<Rightarrow> stm_wbetl_commit i g l
   | C_store t k \<Rightarrow> stm_wbetl_commit i g l
   | C_release t k \<Rightarrow> stm_wbetl_commit i g l
   | K_drop r k \<Rightarrow> stm_wbetl_rollback g l)"

text \<open>\<open>stm_init\<close> and \<open>int_stm_init_thread\<close>, with the size of the write set.\<close>

definition stm_init :: "(stm_word \<Rightarrow> stm_word) \<Rightarrow> stm_globals" where
  "stm_init m = \<lparr>mem = m, locks = \<lambda>_. Version 0, clock = 0, initial = m, decided = \<lambda>_. None, readers = []\<rparr>"

definition int_stm_init_thread :: "nat \<Rightarrow> stm_tx" where
  "int_stm_init_thread sz = \<lparr>pc = Idle, attr = \<lparr>read_only = False, no_retry = False\<rparr>, status = TX_IDLE, nesting = 0,
     start = 0, tx_end = 0, r_set = [], w_set = [], w_size = sz, result = 0, seen = [], trace = []\<rparr>"

type_synonym stm_state = "stm_globals \<times> (tid \<Rightarrow> stm_tx)"

text \<open>A run in which the next thread of the list moves, if it can.\<close>

fun stm_run :: "(tid \<times> stm_request) list \<Rightarrow> stm_state \<Rightarrow> stm_state" where
  "stm_run [] s = s"
| "stm_run ((i, r) # rs) s = (case etl_step i r (fst s) (snd s i) of None \<Rightarrow> stm_run rs s
     | Some (g, l) \<Rightarrow> stm_run rs (g, (snd s)(i := l)))"

text \<open>The programs for which the results hold: no store in a read-only transaction, and all transactions are retried. It is less than the documentation
  allows: in \<open>stm.h\<close> \<open>read_only\<close> is a hint and \<open>no_retry\<close> an option; \<open>no_retry_and_read_only_unsafe\<close> shows that they have to be left out.\<close>

definition proper :: "stm_request \<Rightarrow> stm_tx \<Rightarrow> bool" where
  "proper r l \<longleftrightarrow> (case r of Start at \<Rightarrow> \<not> no_retry at | Store2 _ _ _ \<Rightarrow> \<not> read_only (attr l) | _ \<Rightarrow> True)"

inductive stm_sys :: "nat \<Rightarrow> stm_state \<Rightarrow> stm_state \<Rightarrow> bool" for n where
  "i < n \<Longrightarrow> proper r (T i) \<Longrightarrow> etl_step i r g (T i) = Some (g', l') \<Longrightarrow> stm_sys n (g, T) (g', T(i := l'))"

definition stm_begin :: "(stm_word \<Rightarrow> stm_word) \<Rightarrow> nat \<Rightarrow> stm_state" where
  "stm_begin m sz = (stm_init m, \<lambda>_. int_stm_init_thread sz)"

lemmas stm_code = etl_step_def int_stm_start_def int_stm_prepare_def stm_request_def int_stm_commit_def stm_wbetl_read_invisible_def
  stm_wbetl_write_def stm_wbetl_commit_def stm_wbetl_rollback_def stm_wbetl_extend_def

end
