(* ===== verification/STM_Traces.thy ===== *)
theory STM_Traces
  imports STM_ETL
begin

section \<open>Traces and write sets of transactions\<close>

text \<open>
  For the proof that the transactions of \<open>STM_ETL\<close> are serializable: what a trace does to a memory (\<open>effect\<close>) and when it
  could happen in one (\<open>replays\<close>); the memory \<open>as_of g e\<close> after the update transactions decided up to time \<open>e\<close>, one after
  the other; and the well-formed write sets, in which the walk through the entries of a lock finds the entry of an address if there is one.
\<close>

subsection \<open>Traces\<close>

type_synonym memory = "stm_word \<Rightarrow> stm_word"

fun change :: "event \<Rightarrow> memory \<Rightarrow> memory" where
  "change (Rd a x) F = F"
| "change (Wr a v m) F = F(a := merge (F a) v m)"

fun happens :: "event \<Rightarrow> memory \<Rightarrow> bool" where
  "happens (Rd a x) F \<longleftrightarrow> F a = x"
| "happens (Wr a v m) F \<longleftrightarrow> True"

primrec effect :: "event list \<Rightarrow> memory \<Rightarrow> memory" where
  "effect [] F = F"
| "effect (e # es) F = effect es (change e F)"

primrec replays :: "event list \<Rightarrow> memory \<Rightarrow> bool" where
  "replays [] F \<longleftrightarrow> True"
| "replays (e # es) F \<longleftrightarrow> happens e F \<and> replays es (change e F)"

fun event_addr :: "event \<Rightarrow> stm_word" where
  "event_addr (Rd a x) = a"
| "event_addr (Wr a v m) = a"

fun writes :: "event \<Rightarrow> bool" where
  "writes (Rd a x) = False"
| "writes (Wr a v m) = True"

definition touched :: "event list \<Rightarrow> stm_word set" where
  "touched tr = event_addr ` set tr"

definition wrote :: "event list \<Rightarrow> stm_word set" where
  "wrote tr = event_addr ` {e \<in> set tr. writes e}"

lemma touched_simps [simp]:
  "touched [] = {}" "touched (e # es) = insert (event_addr e) (touched es)" "touched (es @ es') = touched es \<union> touched es'"
  by (auto simp: touched_def)

lemma wrote_simps [simp]:
  "wrote [] = {}" "wrote (Rd a x # es) = wrote es" "wrote (Wr a v m # es) = insert a (wrote es)" "wrote (es @ es') = wrote es \<union> wrote es'"
proof -
  have "{e \<in> set (Wr a v m # es). writes e} = insert (Wr a v m) {e \<in> set es. writes e}" by auto
  then show "wrote (Wr a v m # es) = insert a (wrote es)" by (simp add: wrote_def)
qed (auto simp: wrote_def)

lemma wrote_touched: "wrote tr \<subseteq> touched tr"
  by (auto simp: wrote_def touched_def)

lemma effect_append [simp]: "effect (es @ es') F = effect es' (effect es F)"
  by (induction es arbitrary: F) simp_all

lemma replays_append [simp]: "replays (es @ es') F \<longleftrightarrow> replays es F \<and> replays es' (effect es F)"
  by (induction es arbitrary: F) simp_all

lemma effect_local: "F a = G a \<Longrightarrow> effect tr F a = effect tr G a"
proof (induction tr arbitrary: F G)
  case (Cons e es)
  have "change e F a = change e G a" using Cons.prems by (cases e) auto
  then have "effect es (change e F) a = effect es (change e G) a" by (rule Cons.IH)
  then show ?case by simp
qed simp

lemma effect_other: "a \<notin> wrote tr \<Longrightarrow> effect tr F a = F a"
proof (induction tr arbitrary: F)
  case (Cons e es)
  then show ?case by (cases e) simp_all
qed simp

lemma replays_local: "(\<And>a. a \<in> touched tr \<Longrightarrow> F a = G a) \<Longrightarrow> replays tr F = replays tr G"
proof (induction tr arbitrary: F G)
  case (Cons e es)
  have e: "F (event_addr e) = G (event_addr e)" using Cons.prems by simp
  have "change e F a = change e G a" if "a \<in> touched es" for a
    using that Cons.prems [of a] e by (cases e) auto
  then have "replays es (change e F) = replays es (change e G)" by (rule Cons.IH)
  moreover have "happens e F = happens e G" using e by (cases e) simp_all
  ultimately show ?case by simp
qed simp

subsection \<open>The memory as of a time\<close>

type_synonym history = "nat \<Rightarrow> (nat \<times> event list) option"

primrec replay_until :: "memory \<Rightarrow> history \<Rightarrow> nat \<Rightarrow> memory" where
  "replay_until m D 0 = m"
| "replay_until m D (Suc t) = (case D (Suc t) of None \<Rightarrow> replay_until m D t | Some (s, tr) \<Rightarrow> effect tr (replay_until m D t))"

definition as_of :: "stm_globals \<Rightarrow> nat \<Rightarrow> memory" where
  "as_of g = replay_until (initial g) (decided g)"

definition now :: "stm_globals \<Rightarrow> memory" where
  "now g = as_of g (clock g)"

definition writers :: "stm_globals \<Rightarrow> stm_word \<Rightarrow> nat set" where
  "writers g L = {t. \<exists>s tr. decided g t = Some (s, tr) \<and> L \<in> LOCK_IDX ` wrote tr}"

lemma as_of_between:
  assumes "e \<le> e'" "\<And>t. t \<in> writers g (LOCK_IDX a) \<Longrightarrow> t \<le> e \<or> e' < t"
  shows "as_of g e' a = as_of g e a"
  using assms
proof (induction e' rule: dec_induct)
  case (step t)
  have "as_of g t a = as_of g e a" using step by fastforce
  moreover have "a \<notin> wrote tr" if "decided g (Suc t) = Some (s, tr)" for s tr
  proof -
    have "Suc t \<notin> writers g (LOCK_IDX a)" using step.prems [of "Suc t"] step.hyps by auto
    then show ?thesis using that by (auto simp: writers_def)
  qed
  ultimately show ?case by (auto simp: as_of_def effect_other split: option.splits)
qed simp

text \<open>A transaction is decided at time \<open>t\<close>: earlier memories stay, and later ones where it has not written.\<close>

lemma as_of_before:
  assumes "decided g' = (decided g)(t \<mapsto> c)" "initial g' = initial g" "e < t"
  shows "as_of g' e = as_of g e"
  using assms(3) by (induction e) (simp_all add: as_of_def assms(1,2) split: option.splits)

lemma as_of_elsewhere:
  assumes "decided g' = (decided g)(t \<mapsto> (s, tr))" "initial g' = initial g" "decided g t = None" "a \<notin> wrote tr"
  shows "as_of g' e a = as_of g e a"
proof (induction e)
  case (Suc e)
  then have "effect tr' (as_of g' e) a = effect tr' (as_of g e) a" for tr' by (rule effect_local)
  then show ?case using Suc assms by (auto simp: as_of_def effect_other split: option.splits)
qed (simp add: as_of_def assms)

lemma as_of_written:
  assumes D: "decided g' = (decided g)(t \<mapsto> (s, tr))" "initial g' = initial g"
    and t: "0 < t" "t \<le> e" and w: "\<And>u. u \<in> writers g (LOCK_IDX a) \<Longrightarrow> u < t"
  shows "as_of g' e a = effect tr (as_of g e) a"
proof -
  obtain t' where t': "t = Suc t'" using t by (cases t) auto
  have "as_of g' e a = as_of g' t a"
    using w D(1) by (intro as_of_between t) (fastforce simp: writers_def split: if_splits)
  also have "\<dots> = effect tr (as_of g' t') a" using D t' by (simp add: as_of_def)
  also have "\<dots> = effect tr (as_of g t') a" using as_of_before [OF D] t' by simp
  also have "as_of g t' a = as_of g e a"
    using w t t' by (intro as_of_between [symmetric]) force+
  then have "effect tr (as_of g t') a = effect tr (as_of g e) a" by (rule effect_local)
  finally show ?thesis .
qed

subsection \<open>Write sets\<close>

text \<open>Every address has one entry, and the entries of a lock are linked in order.\<close>

definition linked :: "w_entry list \<Rightarrow> nat \<Rightarrow> bool" where
  "linked ws k \<longleftrightarrow> (case w_next (ws ! k) of
     None \<Rightarrow> (\<forall>j. k < j \<longrightarrow> j < length ws \<longrightarrow> w_lock (ws ! j) \<noteq> w_lock (ws ! k))
   | Some j \<Rightarrow> k < j \<and> j < length ws \<and> w_lock (ws ! j) = w_lock (ws ! k) \<and>
       (\<forall>j'. k < j' \<longrightarrow> j' < j \<longrightarrow> w_lock (ws ! j') \<noteq> w_lock (ws ! k)))"

definition ws_ok :: "w_entry list \<Rightarrow> bool" where
  "ws_ok ws \<longleftrightarrow>
     (\<forall>j<length ws. \<forall>k<length ws. w_addr (ws ! j) = w_addr (ws ! k) \<longrightarrow> j = k) \<and>
     (\<forall>k<length ws. w_lock (ws ! k) = LOCK_IDX (w_addr (ws ! k))) \<and>
     (\<forall>k<length ws. linked ws k) \<and>
     (\<forall>j<length ws. \<forall>k<length ws. w_lock (ws ! j) = w_lock (ws ! k) \<longrightarrow> w_version (ws ! j) = w_version (ws ! k))"

lemma ws_okI:
  assumes "\<And>j k. j < length ws \<Longrightarrow> k < length ws \<Longrightarrow> w_addr (ws ! j) = w_addr (ws ! k) \<Longrightarrow> j = k"
    and "\<And>k. k < length ws \<Longrightarrow> w_lock (ws ! k) = LOCK_IDX (w_addr (ws ! k))"
    and "\<And>k. k < length ws \<Longrightarrow> linked ws k"
    and "\<And>j k. j < length ws \<Longrightarrow> k < length ws \<Longrightarrow> w_lock (ws ! j) = w_lock (ws ! k) \<Longrightarrow> w_version (ws ! j) = w_version (ws ! k)"
  shows "ws_ok ws"
  unfolding ws_ok_def using assms by blast

lemma ws_okD:
  assumes "ws_ok ws"
  shows "j < length ws \<Longrightarrow> k < length ws \<Longrightarrow> w_addr (ws ! j) = w_addr (ws ! k) \<Longrightarrow> j = k"
    and "k < length ws \<Longrightarrow> w_lock (ws ! k) = LOCK_IDX (w_addr (ws ! k))"
    and "k < length ws \<Longrightarrow> linked ws k"
    and "j < length ws \<Longrightarrow> k < length ws \<Longrightarrow> w_lock (ws ! j) = w_lock (ws ! k) \<Longrightarrow> w_version (ws ! j) = w_version (ws ! k)"
  using assms unfolding ws_ok_def by blast+

lemma ws_ok_Nil [simp]: "ws_ok []"
  by (simp add: ws_ok_def)

lemma ws_ok_lock: "ws_ok ws \<Longrightarrow> w \<in> set ws \<Longrightarrow> w_lock w = LOCK_IDX (w_addr w)"
  by (metis in_set_conv_nth ws_okD(2))

lemma ws_ok_same: "ws_ok ws \<Longrightarrow> w \<in> set ws \<Longrightarrow> w' \<in> set ws \<Longrightarrow> w_addr w = w_addr w' \<Longrightarrow> w = w'"
  by (metis in_set_conv_nth ws_okD(1))

lemma walk_found:
  assumes "walk ws k a = (k', found)" "ws_ok ws" "k < length ws" "w_lock (ws ! k) = LOCK_IDX a"
    "\<And>j. j < k \<Longrightarrow> w_addr (ws ! j) \<noteq> a"
  shows "k' < length ws \<and> w_lock (ws ! k') = LOCK_IDX a \<and>
    (if found then w_addr (ws ! k') = a else w_next (ws ! k') = None \<and> (\<forall>w\<in>set ws. w_addr w \<noteq> a))"
  using assms
proof (induction ws k a arbitrary: k' found rule: walk.induct)
  case (1 ws k a)
  have lk: "linked ws k" using 1(3,4) by (rule ws_okD(3))
  show ?case
  proof (cases "w_addr (ws ! k) = a \<or> w_next (ws ! k) = None")
    case True
    have "w_addr w \<noteq> a" if no: "w_next (ws ! k) = None" "w_addr (ws ! k) \<noteq> a" "w \<in> set ws" for w
    proof -
      obtain j where j: "w = ws ! j" "j < length ws" using no(3) by (metis in_set_conv_nth)
      have "w_lock (ws ! j) \<noteq> LOCK_IDX a" if "k < j" using lk that j no(1) 1(5) by (simp add: linked_def)
      then show ?thesis using 1(6) j no(2) ws_okD(2) [OF 1(3) j(2)] by (metis linorder_neqE_nat)
    qed
    then show ?thesis using True 1(2,4,5) by (auto simp: walk.simps [of ws k a] split: if_splits)
  next
    case False
    then obtain j where j: "w_next (ws ! k) = Some j" by auto
    have step: "k < j" "j < length ws" "w_lock (ws ! j) = LOCK_IDX a"
      using lk j 1(5) by (auto simp: linked_def)
    have "w_addr (ws ! i) \<noteq> a" if "i < j" for i
    proof (cases "i < k \<or> i = k")
      case False
      then have "w_lock (ws ! i) \<noteq> LOCK_IDX a" using lk j that 1(5) by (auto simp: linked_def)
      then show ?thesis using ws_okD(2) [OF 1(3), of i] that step(2) by auto
    qed (use 1(6) False in auto)
    moreover have "walk ws j a = (k', found)" using 1(2) False j step by (simp add: walk.simps [of ws k a])
    ultimately show ?thesis using 1(1) [OF _ j] False step 1(3) by blast
  qed
qed

text \<open>How a write set changes: a value, an entry under a new lock, one more entry under a lock.\<close>

lemma ws_ok_value:
  assumes "ws_ok ws" "k < length ws"
  shows "ws_ok (ws[k := (ws ! k)\<lparr>w_value := v, w_mask := m\<rparr>])" (is "ws_ok ?ws")
proof -
  have same: "w_addr (?ws ! j) = w_addr (ws ! j)" "w_lock (?ws ! j) = w_lock (ws ! j)" "w_next (?ws ! j) = w_next (ws ! j)"
    "w_version (?ws ! j) = w_version (ws ! j)" for j
    using assms(2) by (cases "j = k"; simp)+
  have l: "length ?ws = length ws" by simp
  have "linked ?ws j = linked ws j" for j unfolding linked_def same l ..
  then show ?thesis using assms(1) unfolding ws_ok_def same l by blast
qed

lemma ws_ok_new:
  assumes ok: "ws_ok ws" and a: "LOCK_IDX a \<notin> w_lock ` set ws"
  shows "ws_ok (ws @ [new_entry a ver])" (is "ws_ok ?ws")
proof -
  have old: "?ws ! j = ws ! j" if "j < length ws" for j using that by (simp add: nth_append)
  have last: "w_addr (?ws ! length ws) = a" "w_lock (?ws ! length ws) = LOCK_IDX a" "w_next (?ws ! length ws) = None"
    by (simp_all add: new_entry_def)
  have l: "length ?ws = Suc (length ws)" by simp
  have new: "w_lock (ws ! j) \<noteq> LOCK_IDX a" if "j < length ws" for j
    using that a by (metis image_eqI nth_mem)
  have new': "w_addr (ws ! j) \<noteq> a" if "j < length ws" for j
    using new [OF that] ws_okD(2) [OF ok that] by auto
  show ?thesis
  proof (rule ws_okI, goal_cases)
    case (1 j k)
    then show ?case using ws_okD(1) [OF ok] new' unfolding l less_Suc_eq by (metis old last(1))
  next
    case (2 k)
    then show ?case using ws_okD(2) [OF ok] unfolding l less_Suc_eq by (metis old last(1,2))
  next
    case (3 k)
    have "linked ?ws k" if k: "k < length ws"
    proof (cases "w_next (ws ! k)")
      case None
      then have "w_lock (ws ! j) \<noteq> w_lock (ws ! k)" if "k < j" "j < length ws" for j
        using ws_okD(3) [OF ok k] that by (simp add: linked_def)
      then show ?thesis using None k new [OF k] unfolding linked_def l less_Suc_eq
        by (simp add: old last) (metis last(2) nth_append_length)
    next
      case (Some j)
      then show ?thesis using ws_okD(3) [OF ok k] k by (auto simp: linked_def old)
    qed
    moreover have "linked ?ws (length ws)" unfolding linked_def last l by simp
    ultimately show ?case using 3 unfolding l less_Suc_eq by blast
  next
    case (4 j k)
    then show ?case using ws_okD(4) [OF ok] new unfolding l less_Suc_eq by (metis old last(2))
  qed
qed

lemma ws_ok_more:
  assumes ok: "ws_ok ws" and k: "k < length ws" "w_lock (ws ! k) = LOCK_IDX a" "w_next (ws ! k) = None"
    and a: "\<forall>w\<in>set ws. w_addr w \<noteq> a"
  shows "ws_ok (ws[k := (ws ! k)\<lparr>w_next := Some (length ws)\<rparr>] @ [new_entry a (w_version (ws ! k))])" (is "ws_ok ?ws")
proof -
  have same: "w_addr (?ws ! j) = w_addr (ws ! j)" "w_lock (?ws ! j) = w_lock (ws ! j)" "w_version (?ws ! j) = w_version (ws ! j)"
    "w_next (?ws ! j) = (if j = k then Some (length ws) else w_next (ws ! j))"
    if "j < length ws" for j
    using that k(1) by (cases "j = k"; simp add: nth_append)+
  have last: "w_addr (?ws ! length ws) = a" "w_lock (?ws ! length ws) = LOCK_IDX a" "w_next (?ws ! length ws) = None"
    "w_version (?ws ! length ws) = w_version (ws ! k)"
    by (simp_all add: nth_append new_entry_def)
  have l: "length ?ws = Suc (length ws)" by simp
  have new: "w_addr (ws ! j) \<noteq> a" if "j < length ws" for j using a that by simp
  have after: "w_lock (ws ! j) \<noteq> LOCK_IDX a" if "k < j" "j < length ws" for j
    using ws_okD(3) [OF ok k(1)] that k(2,3) by (simp add: linked_def)
  show ?thesis
  proof (rule ws_okI, goal_cases)
    case (1 i j)
    then show ?case using ws_okD(1) [OF ok] new unfolding l less_Suc_eq by (metis same(1) last(1))
  next
    case (2 j)
    then show ?case using ws_okD(2) [OF ok] unfolding l less_Suc_eq by (metis same(1,2) last(1,2))
  next
    case (3 j)
    have "linked ?ws j" if j: "j < length ws"
    proof (cases "w_next (ws ! j)")
      case None
      show ?thesis
      proof (cases "j = k")
        case True
        have "w_lock (?ws ! i) \<noteq> w_lock (ws ! k)" if "k < i" "i < length ws" for i using after that k(2) same(2) by metis
        then show ?thesis using True j k(2) unfolding linked_def l by (simp add: same last)
      next
        case False
        have alone: "w_lock (ws ! i) \<noteq> w_lock (ws ! j)" if "j < i" "i < length ws" for i
          using ws_okD(3) [OF ok j] that None by (simp add: linked_def)
        then have "w_lock (ws ! j) \<noteq> LOCK_IDX a" using False k(1,2) after [OF _ j] by (metis linorder_neqE_nat)
        then show ?thesis using alone j False None unfolding linked_def l less_Suc_eq
          by (simp add: same last)
      qed
    next
      case (Some i)
      have "j < i" "i < length ws" "w_lock (ws ! i) = w_lock (ws ! j)" "\<And>j'. j < j' \<Longrightarrow> j' < i \<Longrightarrow> w_lock (ws ! j') \<noteq> w_lock (ws ! j)"
        using ws_okD(3) [OF ok j] Some by (auto simp: linked_def)
      moreover have "j \<noteq> k" using Some k(3) by auto
      ultimately show ?thesis using j Some unfolding linked_def by (simp add: same)
    qed
    moreover have "linked ?ws (length ws)" unfolding linked_def last l by simp
    ultimately show ?case using 3 unfolding l less_Suc_eq by blast
  next
    case (4 i j)
    then show ?case using ws_okD(4) [OF ok] k(1,2) unfolding l less_Suc_eq by (metis same(2,3) last(2,4))
  qed
qed

end
