(* ===== verification/STM_Serial.thy ===== *)
theory STM_Serial
  imports STM_Traces
begin

section \<open>Transactions are serializable\<close>

text \<open>
  The transactions of \<open>STM_ETL\<close> behave as if each had run alone: an update transaction at the time it took from the
  clock, one without a write at the end of its validity. \<open>as_of g e\<close> is the memory after the update
  transactions decided up to time \<open>e\<close>, one after the other. The invariant says of every lock until when it is known (\<open>base\<close>) and that
  memory under it is \<open>now g\<close>, of every running transaction that what it has done would happen in any memory which is
  \<open>as_of g (tx_end l)\<close> where it has read and \<open>now g\<close> where it has locks. What other threads need of a step is the
  relation \<open>evolves\<close>, and \<open>kept\<close> for the locks they hold.
\<close>

subsection \<open>The invariant\<close>

text \<open>The locks a thread has, the time it has taken from the clock before it is decided, and after; the entries that are not yet in memory.\<close>

definition held :: "stm_tx \<Rightarrow> stm_word set" where
  "held l = (case pc l of Idle \<Rightarrow> {} | Prepare \<Rightarrow> {} | Rollover \<Rightarrow> {} | Undefined \<Rightarrow> {}
   | C_store t k \<Rightarrow> w_lock ` set (drop k (w_set l)) | C_release t k \<Rightarrow> w_lock ` set (drop k (w_set l))
   | K_drop r k \<Rightarrow> w_lock ` set (drop k (w_set l)) | _ \<Rightarrow> w_lock ` set (w_set l))"

definition stamp :: "stm_tx \<Rightarrow> nat option" where
  "stamp l = (case pc l of C_valid t k \<Rightarrow> Some t | _ \<Rightarrow> None)"

definition writes_at :: "stm_tx \<Rightarrow> nat option" where
  "writes_at l = (case pc l of C_store t k \<Rightarrow> Some t | C_release t k \<Rightarrow> Some t | _ \<Rightarrow> None)"

definition unsaved :: "stm_tx \<Rightarrow> w_entry set" where
  "unsaved l = (case pc l of C_store t k \<Rightarrow> set (drop k (w_set l)) | C_release t k \<Rightarrow> set (drop (k + 1) (w_set l)) | _ \<Rightarrow> {})"

text \<open>No transaction later than \<open>base\<close> has written under a lock. Memory is \<open>settled\<close> unless a commit is writing.\<close>

definition base :: "stm_globals \<Rightarrow> (tid \<Rightarrow> stm_tx) \<Rightarrow> stm_word \<Rightarrow> nat" where
  "base g T L = (case locks g L of Version v \<Rightarrow> v
   | Owned j k \<Rightarrow> (case writes_at (T j) of Some t \<Rightarrow> t | None \<Rightarrow> w_version (w_set (T j) ! k)))"

definition settled :: "(tid \<Rightarrow> stm_tx) \<Rightarrow> stm_word \<Rightarrow> bool" where
  "settled T L \<longleftrightarrow> (\<forall>j. L \<in> held (T j) \<longrightarrow> writes_at (T j) = None)"

definition owner :: "(tid \<Rightarrow> stm_tx) \<Rightarrow> stm_word \<Rightarrow> tid \<Rightarrow> nat \<Rightarrow> bool" where
  "owner T L j k \<longleftrightarrow> L \<in> held (T j) \<and> (\<forall>j'. L \<in> held (T j') \<longrightarrow> j' = j) \<and>
     k < length (w_set (T j)) \<and> w_lock (w_set (T j) ! k) = L \<and> (\<forall>k'<k. w_lock (w_set (T j) ! k') \<noteq> L)"

definition locks_ok :: "stm_globals \<Rightarrow> (tid \<Rightarrow> stm_tx) \<Rightarrow> bool" where
  "locks_ok g T \<longleftrightarrow> (\<forall>L. case locks g L of Version v \<Rightarrow> (\<forall>j. L \<notin> held (T j)) | Owned j k \<Rightarrow> owner T L j k)"

definition known :: "stm_globals \<Rightarrow> (tid \<Rightarrow> stm_tx) \<Rightarrow> bool" where
  "known g T \<longleftrightarrow> (\<forall>L. base g T L \<le> clock g \<and> (\<forall>t\<in>writers g L. t \<le> base g T L) \<and>
     (settled T L \<longrightarrow> (\<forall>a. LOCK_IDX a = L \<longrightarrow> mem g a = now g a)))"

definition stamp_ok :: "stm_globals \<Rightarrow> (tid \<Rightarrow> stm_tx) \<Rightarrow> stm_tx \<Rightarrow> bool" where
  "stamp_ok g T l \<longleftrightarrow> (\<forall>t. stamp l = Some t \<longrightarrow> t \<le> clock g \<and> decided g t = None \<and> start l < t \<and> tx_end l < t \<and>
     (\<forall>L\<in>held l. base g T L < t))"

definition stamps_ok :: "stm_globals \<Rightarrow> (tid \<Rightarrow> stm_tx) \<Rightarrow> bool" where
  "stamps_ok g T \<longleftrightarrow> (\<forall>j. stamp_ok g T (T j)) \<and>
     (\<forall>j j' t. stamp (T j) = Some t \<longrightarrow> stamp (T j') = Some t \<longrightarrow> j' = j)"

text \<open>No transaction still to be decided will write under the lock at a time up to \<open>e\<close>; a version that is right up to \<open>e\<close>;
  a trace that fits to the memory as of \<open>e\<close>, for ever; a value loaded from memory before the second look at the lock.\<close>

definition later :: "(tid \<Rightarrow> stm_tx) \<Rightarrow> stm_word \<Rightarrow> nat \<Rightarrow> bool" where
  "later T L e \<longleftrightarrow> (\<forall>j t. stamp (T j) = Some t \<longrightarrow> L \<in> held (T j) \<longrightarrow> e < t)"

definition stable :: "stm_globals \<Rightarrow> (tid \<Rightarrow> stm_tx) \<Rightarrow> stm_word \<Rightarrow> nat \<Rightarrow> nat \<Rightarrow> bool" where
  "stable g T L v e \<longleftrightarrow> v \<le> e \<and> e \<le> clock g \<and> (\<forall>t\<in>writers g L. t \<le> v \<or> e < t) \<and> later T L e"

definition consistent :: "stm_globals \<Rightarrow> (tid \<Rightarrow> stm_tx) \<Rightarrow> nat \<Rightarrow> event list \<Rightarrow> bool" where
  "consistent g T e tr \<longleftrightarrow> e \<le> clock g \<and> replays tr (as_of g e) \<and> (\<forall>a\<in>touched tr. later T (LOCK_IDX a) e)"

definition loading :: "stm_globals \<Rightarrow> (tid \<Rightarrow> stm_tx) \<Rightarrow> stm_word \<Rightarrow> nat \<Rightarrow> bool" where
  "loading g T L v \<longleftrightarrow> v \<le> base g T L \<and> (base g T L = v \<longrightarrow> settled T L)"

definition in_flight :: "stm_globals \<Rightarrow> (tid \<Rightarrow> stm_tx) \<Rightarrow> stm_word \<Rightarrow> nat \<Rightarrow> stm_word \<Rightarrow> bool" where
  "in_flight g T a v x \<longleftrightarrow> loading g T (LOCK_IDX a) v \<and> (base g T (LOCK_IDX a) = v \<longrightarrow> now g a = x)"

definition history_ok :: "stm_globals \<Rightarrow> (tid \<Rightarrow> stm_tx) \<Rightarrow> bool" where
  "history_ok g T \<longleftrightarrow>
     (\<forall>t s tr. decided g t = Some (s, tr) \<longrightarrow> s < t \<and> t \<le> clock g \<and> consistent g T (t - 1) tr) \<and>
     (\<forall>s e tr. (s, e, tr) \<in> set (readers g) \<longrightarrow> s \<le> e \<and> consistent g T e tr)"

text \<open>A running transaction, up to its decision.\<close>

definition live :: "stm_tx \<Rightarrow> bool" where
  "live l \<longleftrightarrow> (case pc l of Idle \<Rightarrow> False | Prepare \<Rightarrow> False | Rollover \<Rightarrow> False | Undefined \<Rightarrow> False
   | C_store t k \<Rightarrow> False | C_release t k \<Rightarrow> False | K_drop r k \<Rightarrow> False | _ \<Rightarrow> True)"

definition fits :: "stm_globals \<Rightarrow> stm_tx \<Rightarrow> memory \<Rightarrow> bool" where
  "fits g l F \<longleftrightarrow> (\<forall>a. LOCK_IDX a \<in> fst ` set (seen l) \<longrightarrow> F a = as_of g (tx_end l) a) \<and>
     (\<forall>a. LOCK_IDX a \<in> w_lock ` set (w_set l) \<longrightarrow> F a = now g a)"

definition reads_ok :: "stm_globals \<Rightarrow> (tid \<Rightarrow> stm_tx) \<Rightarrow> stm_tx \<Rightarrow> bool" where
  "reads_ok g T l \<longleftrightarrow> start l \<le> tx_end l \<and> tx_end l \<le> clock g \<and>
     (\<not> read_only (attr l) \<longrightarrow> map (\<lambda>r. (r_lock r, r_version r)) (r_set l) = seen l) \<and>
     (\<forall>(L, v)\<in>set (seen l). stable g T L v (tx_end l) \<and> (L \<in> w_lock ` set (w_set l) \<longrightarrow> (\<forall>t\<in>writers g L. t \<le> v)))"

definition saved :: "w_entry list \<Rightarrow> (stm_word \<times> stm_word) set" where
  "saved ws = {(w_addr (ws ! k), w_value (ws ! k)) | k. k < length ws \<and> w_mask (ws ! k) \<noteq> 0}"

definition trace_ok :: "stm_globals \<Rightarrow> stm_tx \<Rightarrow> bool" where
  "trace_ok g l \<longleftrightarrow> (\<forall>F. fits g l F \<longrightarrow> replays (trace l) F) \<and>
     (\<forall>(a, x)\<in>saved (w_set l). x = effect (trace l) (now g) a) \<and> wrote (trace l) = fst ` saved (w_set l) \<and>
     LOCK_IDX ` touched (trace l) \<subseteq> fst ` set (seen l) \<union> w_lock ` set (w_set l)"

definition writing_ok :: "stm_globals \<Rightarrow> stm_tx \<Rightarrow> bool" where
  "writing_ok g l \<longleftrightarrow> writes_at l \<noteq> None \<longrightarrow>
     (\<forall>a. LOCK_IDX a \<in> held l \<longrightarrow> mem g a = now g a \<or> (\<exists>w\<in>unsaved l. w_addr w = a \<and> w_mask w \<noteq> 0)) \<and>
     (\<forall>w\<in>unsaved l. w_mask w \<noteq> 0 \<longrightarrow> w_value w = now g (w_addr w))"

definition entries_stable :: "stm_globals \<Rightarrow> (tid \<Rightarrow> stm_tx) \<Rightarrow> stm_tx \<Rightarrow> nat \<Rightarrow> nat \<Rightarrow> bool" where
  "entries_stable g T l k e \<longleftrightarrow> (\<forall>(L, v)\<in>set (take k (seen l)). stable g T L v e)"

definition pc_ok :: "stm_globals \<Rightarrow> (tid \<Rightarrow> stm_tx) \<Rightarrow> stm_tx \<Rightarrow> bool" where
  "pc_ok g T l \<longleftrightarrow> (case pc l of
     R_own a \<Rightarrow> LOCK_IDX a \<in> held l \<and> (\<forall>w\<in>set (w_set l). w_addr w = a \<longrightarrow> w_mask w = 0)
   | R_value a v \<Rightarrow> loading g T (LOCK_IDX a) v
   | R_check a v x \<Rightarrow> in_flight g T a v x \<and> v \<le> clock g
   | R_extend a v x \<Rightarrow> in_flight g T a v x \<and> v \<le> clock g \<and> \<not> read_only (attr l)
   | R_valid a v x c k \<Rightarrow> in_flight g T a v x \<and> v \<le> c \<and> c \<le> clock g \<and> tx_end l \<le> c \<and> \<not> read_only (attr l) \<and> entries_stable g T l k c
   | R_again a v x \<Rightarrow> in_flight g T a v x \<and> v \<le> tx_end l \<and> \<not> read_only (attr l)
   | W_lock a v m \<Rightarrow> \<not> read_only (attr l)
   | W_cas a v m ver \<Rightarrow> \<not> read_only (attr l) \<and> (ver \<le> tx_end l \<or> LOCK_IDX a \<notin> fst ` set (seen l))
   | W_fill a v m k \<Rightarrow> \<not> read_only (attr l) \<and> k < length (w_set l) \<and> w_addr (w_set l ! k) = a \<and> w_mask (w_set l ! k) = 0 \<and> m \<noteq> 0
   | C_clock \<Rightarrow> \<not> read_only (attr l)
   | C_valid t k \<Rightarrow> \<not> read_only (attr l) \<and> entries_stable g T l k (t - 1)
   | C_release t k \<Rightarrow> k < length (w_set l) \<and> w_next (w_set l ! k) = None
   | _ \<Rightarrow> True)"

definition nested :: "stm_tx \<Rightarrow> bool" where
  "nested l \<longleftrightarrow> (case pc l of Prepare \<Rightarrow> 0 < nesting l | C_clock \<Rightarrow> True | C_valid t k \<Rightarrow> True | _ \<Rightarrow> live l \<longrightarrow> 0 < nesting l)"

definition tx_ok :: "stm_globals \<Rightarrow> (tid \<Rightarrow> stm_tx) \<Rightarrow> stm_tx \<Rightarrow> bool" where
  "tx_ok g T l \<longleftrightarrow> ws_ok (w_set l) \<and> \<not> no_retry (attr l) \<and> nested l \<and> writing_ok g l \<and>
     (live l \<longrightarrow> reads_ok g T l \<and> trace_ok g l \<and> (w_set l \<noteq> [] \<longrightarrow> \<not> read_only (attr l))) \<and> pc_ok g T l"

definition stm_inv :: "stm_globals \<Rightarrow> (tid \<Rightarrow> stm_tx) \<Rightarrow> bool" where
  "stm_inv g T \<longleftrightarrow> locks_ok g T \<and> known g T \<and> stamps_ok g T \<and> history_ok g T \<and> (\<forall>j. tx_ok g T (T j))"

subsection \<open>What a step leaves to the others\<close>

definition evolves :: "stm_globals \<Rightarrow> (tid \<Rightarrow> stm_tx) \<Rightarrow> stm_globals \<Rightarrow> (tid \<Rightarrow> stm_tx) \<Rightarrow> bool" where
  "evolves g T g' T' \<longleftrightarrow> clock g \<le> clock g' \<and>
     (\<forall>L. \<forall>t\<in>writers g' L. t \<in> writers g L \<or> (\<exists>j. stamp (T j) = Some t \<and> L \<in> held (T j))) \<and>
     (\<forall>L j t. stamp (T' j) = Some t \<longrightarrow> L \<in> held (T' j) \<longrightarrow> stamp (T j) = Some t \<and> L \<in> held (T j) \<or> clock g < t) \<and>
     (\<forall>L. base g T L \<le> base g' T' L) \<and>
     (\<forall>L. base g' T' L = base g T L \<longrightarrow> settled T L \<longrightarrow> settled T' L \<and> (\<forall>a. LOCK_IDX a = L \<longrightarrow> now g' a = now g a)) \<and>
     (\<forall>e a. e \<le> clock g \<longrightarrow> as_of g' e a = as_of g e a \<or> (\<exists>j t. stamp (T j) = Some t \<and> LOCK_IDX a \<in> held (T j) \<and> t \<le> e))"

definition kept :: "stm_word set \<Rightarrow> stm_globals \<Rightarrow> (tid \<Rightarrow> stm_tx) \<Rightarrow> stm_globals \<Rightarrow> (tid \<Rightarrow> stm_tx) \<Rightarrow> bool" where
  "kept H g T g' T' \<longleftrightarrow> (\<forall>L\<in>H. writers g' L = writers g L \<and> base g' T' L = base g T L) \<and>
     (\<forall>a. LOCK_IDX a \<in> H \<longrightarrow> now g' a = now g a \<and> mem g' a = mem g a)"

lemma evolvesD:
  assumes "evolves g T g' T'"
  shows "clock g \<le> clock g'"
    and "t \<in> writers g' L \<Longrightarrow> t \<in> writers g L \<or> (\<exists>j. stamp (T j) = Some t \<and> L \<in> held (T j))"
    and "stamp (T' j) = Some t \<Longrightarrow> L \<in> held (T' j) \<Longrightarrow> stamp (T j) = Some t \<and> L \<in> held (T j) \<or> clock g < t"
    and "base g T L \<le> base g' T' L"
    and "base g' T' L = base g T L \<Longrightarrow> settled T L \<Longrightarrow> settled T' L"
    and "base g' T' (LOCK_IDX a) = base g T (LOCK_IDX a) \<Longrightarrow> settled T (LOCK_IDX a) \<Longrightarrow> now g' a = now g a"
    and "e \<le> clock g \<Longrightarrow> as_of g' e a = as_of g e a \<or> (\<exists>j t. stamp (T j) = Some t \<and> LOCK_IDX a \<in> held (T j) \<and> t \<le> e)"
  using assms unfolding evolves_def by blast+

lemma later_evolves: "evolves g T g' T' \<Longrightarrow> e \<le> clock g \<Longrightarrow> later T L e \<Longrightarrow> later T' L e"
  using evolvesD(3) [of g T g' T'] unfolding later_def by (meson le_less_trans)

lemma stable_evolves:
  assumes ev: "evolves g T g' T'" and st: "stable g T L v e"
  shows "stable g' T' L v e"
proof -
  have e: "e \<le> clock g" and l: "later T L e" using st by (simp_all add: stable_def)
  have "t \<le> v \<or> e < t" if "t \<in> writers g' L" for t
    using evolvesD(2) [OF ev that] st l by (auto simp: stable_def later_def)
  then show ?thesis using st e evolvesD(1) [OF ev] later_evolves [OF ev e l] by (simp add: stable_def)
qed

lemma as_of_evolves: "evolves g T g' T' \<Longrightarrow> e \<le> clock g \<Longrightarrow> later T (LOCK_IDX a) e \<Longrightarrow> as_of g' e a = as_of g e a"
  using evolvesD(7) [of g T g' T' e a] unfolding later_def by (meson not_less)

lemma consistent_evolves:
  assumes "evolves g T g' T'" "consistent g T e tr"
  shows "consistent g' T' e tr"
proof -
  have e: "e \<le> clock g" and L: "\<forall>a\<in>touched tr. later T (LOCK_IDX a) e" using assms(2) by (auto simp: consistent_def)
  then have "replays tr (as_of g' e) = replays tr (as_of g e)"
    using as_of_evolves [OF assms(1)] by (intro replays_local) blast
  moreover have "e \<le> clock g'" using e assms(1) by (simp add: evolves_def)
  ultimately show ?thesis using assms(2) L later_evolves [OF assms(1) e] by (simp add: consistent_def)
qed

lemma loading_evolves: "evolves g T g' T' \<Longrightarrow> loading g T L v \<Longrightarrow> loading g' T' L v"
  using evolvesD(4,5) [of g T g' T' L] unfolding loading_def by (metis le_antisym le_trans)

lemma in_flight_evolves:
  assumes ev: "evolves g T g' T'" and f: "in_flight g T a v x"
  shows "in_flight g' T' a v x"
proof -
  have "now g' a = x" if v: "base g' T' (LOCK_IDX a) = v"
  proof -
    have "base g T (LOCK_IDX a) = v" using f v evolvesD(4) [OF ev, of "LOCK_IDX a"] by (simp add: in_flight_def loading_def)
    then show ?thesis using f v evolvesD(6) [OF ev, of a] by (simp add: in_flight_def loading_def)
  qed
  then show ?thesis using f loading_evolves [OF ev] by (simp add: in_flight_def)
qed

lemma history_evolves:
  assumes "evolves g T g' T'" "history_ok g T" "decided g' = decided g" "readers g' = readers g"
  shows "history_ok g' T'"
proof -
  have "clock g \<le> clock g'" using assms(1) by (simp add: evolves_def)
  then show ?thesis using assms(2) consistent_evolves [OF assms(1)] unfolding history_ok_def assms(3,4) by (meson le_trans)
qed

lemma live_pc: "stamp l = Some t \<Longrightarrow> live l"
  by (auto simp: stamp_def live_def split: etl_pc.splits)

lemma in_drop_Suc: "w \<in> set (drop (Suc k) ws) \<Longrightarrow> w \<in> set (drop k ws)"
  using set_drop_subset_set_drop [of k "Suc k" ws] by auto

lemma unsaved_held:
  assumes "ws_ok (w_set l)" "w \<in> unsaved l"
  shows "LOCK_IDX (w_addr w) \<in> held l"
proof -
  have "w \<in> set (w_set l)" using assms(2) by (auto simp: unsaved_def split: etl_pc.splits dest: in_set_dropD)
  then have "w_lock w = LOCK_IDX (w_addr w)" by (rule ws_ok_lock [OF assms(1)])
  moreover have "w_lock w \<in> held l" using assms(2) by (cases "pc l") (auto simp: unsaved_def held_def dest: in_drop_Suc)
  ultimately show ?thesis by simp
qed

lemma live_held: "live l \<Longrightarrow> held l = w_lock ` set (w_set l)"
  by (simp add: live_def held_def split: etl_pc.splits)

lemma savedI: "w \<in> set ws \<Longrightarrow> w_mask w \<noteq> 0 \<Longrightarrow> (w_addr w, w_value w) \<in> saved ws"
  unfolding saved_def in_set_conv_nth by blast

lemma savedE:
  assumes "(a, x) \<in> saved ws"
  obtains w where "w \<in> set ws" "w_mask w \<noteq> 0" "w_addr w = a" "w_value w = x"
  using assms nth_mem unfolding saved_def by blast

lemma saved_lock: "ws_ok ws \<Longrightarrow> (a, x) \<in> saved ws \<Longrightarrow> LOCK_IDX a \<in> w_lock ` set ws"
  by (metis image_eqI savedE ws_ok_lock)

lemma tx_ok_evolves:
  assumes ev: "evolves g T g' T'" and k: "kept (held l) g T g' T'" and ok: "tx_ok g T l"
  shows "tx_ok g' T' l"
proof -
  have cl: "clock g \<le> clock g'" using ev by (rule evolvesD(1))
  have now: "now g' a = now g a" "mem g' a = mem g a" if "LOCK_IDX a \<in> held l" for a using k that by (auto simp: kept_def)
  have wr: "writers g' L = writers g L" if "L \<in> held l" for L using k that by (auto simp: kept_def)
  have "reads_ok g' T' l \<and> trace_ok g' l" if live: "live l"
  proof -
    have r: "reads_ok g T l" and t: "trace_ok g l" and ws: "ws_ok (w_set l)" using ok live by (auto simp: tx_ok_def)
    have r': "reads_ok g' T' l"
      using r cl stable_evolves [OF ev] wr unfolding reads_ok_def live_held [OF live] by (force elim: le_trans)
    have "as_of g' (tx_end l) a = as_of g (tx_end l) a" if "LOCK_IDX a \<in> fst ` set (seen l)" for a
    proof (rule as_of_evolves [OF ev])
      show "tx_end l \<le> clock g" "later T (LOCK_IDX a) (tx_end l)" using r that by (auto simp: reads_ok_def stable_def)
    qed
    then have "fits g' l F \<Longrightarrow> fits g l F" for F using now(1) live_held [OF live] by (simp add: fits_def)
    moreover have "effect (trace l) (now g') a = effect (trace l) (now g) a" if "(a, x) \<in> saved (w_set l)" for a x
      using that by (intro effect_local now(1)) (simp add: live_held [OF live] saved_lock [OF ws])
    ultimately have "trace_ok g' l" using t by (auto simp: trace_ok_def)
    with r' show ?thesis ..
  qed
  moreover have "writing_ok g' l"
  proof (cases "writes_at l")
    case (Some t)
    have u: "LOCK_IDX (w_addr w) \<in> held l" if "w \<in> unsaved l" for w
      using ok that by (intro unsaved_held) (simp_all add: tx_ok_def)
    have "writing_ok g l" using ok by (simp add: tx_ok_def)
    then show ?thesis using now u unfolding writing_ok_def by auto
  qed (simp add: writing_ok_def)
  moreover have "pc_ok g' T' l"
  proof -
    have p: "pc_ok g T l" using ok by (simp add: tx_ok_def)
    have "entries_stable g T l k e \<Longrightarrow> entries_stable g' T' l k e" for k e
      using stable_evolves [OF ev] by (fastforce simp: entries_stable_def)
    then show ?thesis using p cl in_flight_evolves [OF ev] loading_evolves [OF ev]
      by (cases "pc l") (auto simp: pc_ok_def)
  qed
  ultimately show ?thesis using ok by (simp add: tx_ok_def)
qed

subsection \<open>Steps that move no lock and decide nothing\<close>

lemma inv_after:
  assumes inv: "stm_inv g T" and ev: "evolves g T g' T'" and T': "T' = T(i := l')"
    and kept: "\<And>j. j \<noteq> i \<Longrightarrow> kept (held (T j)) g T g' T'"
    and lk: "locks_ok g' T'" "known g' T'" "history_ok g' T'"
    and st: "stamp_ok g' T' l'" "\<And>j t. j \<noteq> i \<Longrightarrow> stamp l' = Some t \<Longrightarrow> stamp (T j) \<noteq> Some t"
      "\<And>j t. j \<noteq> i \<Longrightarrow> stamp (T j) = Some t \<Longrightarrow> decided g' t = decided g t"
    and tx: "tx_ok g' T' l'"
  shows "stm_inv g' T'"
proof -
  have S: "stamps_ok g T" and ok: "tx_ok g T (T j)" for j using inv by (simp_all add: stm_inv_def)
  have "stamp_ok g' T' (T j)" if j: "j \<noteq> i" for j
    unfolding stamp_ok_def
  proof (intro allI impI)
    fix t assume t: "stamp (T j) = Some t"
    have "stamp_ok g T (T j)" using S by (simp add: stamps_ok_def)
    then have "t \<le> clock g \<and> decided g t = None \<and> start (T j) < t \<and> tx_end (T j) < t \<and> (\<forall>L\<in>held (T j). base g T L < t)"
      using t by (simp add: stamp_ok_def)
    moreover have "\<forall>L\<in>held (T j). base g' T' L = base g T L" using kept [OF j] by (simp add: kept_def)
    ultimately show "t \<le> clock g' \<and> decided g' t = None \<and> start (T j) < t \<and> tx_end (T j) < t \<and> (\<forall>L\<in>held (T j). base g' T' L < t)"
      using st(3) [OF j t] evolvesD(1) [OF ev] by simp
  qed
  moreover have "stamp (T' j) = Some t \<Longrightarrow> stamp (T' j') = Some t \<Longrightarrow> j' = j" for j j' t
    using S st(2) unfolding T' stamps_ok_def by (metis fun_upd_apply)
  ultimately have "stamps_ok g' T'" using st(1) unfolding stamps_ok_def T' by (metis fun_upd_apply)
  moreover have "tx_ok g' T' (T' j)" for j
    using tx tx_ok_evolves [OF ev kept ok] unfolding T' by (cases "j = i") auto
  ultimately show ?thesis using lk by (simp add: stm_inv_def)
qed

definition quiet :: "stm_tx \<Rightarrow> stm_tx \<Rightarrow> bool" where
  "quiet l l' \<longleftrightarrow> held l' = held l \<and>
     (held l \<noteq> {} \<longrightarrow> writes_at l' = writes_at l \<and> (\<forall>k<length (w_set l). k < length (w_set l') \<and>
       w_lock (w_set l' ! k) = w_lock (w_set l ! k) \<and> w_version (w_set l' ! k) = w_version (w_set l ! k)))"

lemma still_step:
  assumes inv: "stm_inv g T" and q: "quiet (T i) l'" and T': "T' = T(i := l')"
    and g': "locks g' = locks g" "decided g' = decided g" "initial g' = initial g" "clock g \<le> clock g'"
    and st: "\<And>t. stamp l' = Some t \<Longrightarrow> stamp (T i) = Some t \<or> clock g < t"
    and mem: "\<And>a. mem g' a = mem g a \<or> LOCK_IDX a \<in> held (T i) \<and> writes_at (T i) \<noteq> None"
  shows "evolves g T g' T'" and "locks_ok g' T'" and "known g' T'" and "base g' T' = base g T"
    and "j \<noteq> i \<Longrightarrow> kept (held (T j)) g T g' T'" and "mem g' = mem g \<Longrightarrow> kept H g T g' T'"
proof -
  have lk: "locks_ok g T" and kn: "known g T" using inv by (auto simp: stm_inv_def)
  have h: "held (T' j) = held (T j)" for j using q by (simp add: T' quiet_def)
  have wr: "L \<in> held (T j) \<Longrightarrow> writes_at (T' j) = writes_at (T j)" for L j using q by (auto simp: T' quiet_def)
  have ws: "L \<in> held (T j) \<Longrightarrow> k < length (w_set (T j)) \<Longrightarrow> k < length (w_set (T' j)) \<and>
      w_lock (w_set (T' j) ! k) = w_lock (w_set (T j) ! k) \<and> w_version (w_set (T' j) ! k) = w_version (w_set (T j) ! k)" for L j k
    using q by (auto simp: T' quiet_def)
  have lkV: "locks g L = Version v \<Longrightarrow> L \<notin> held (T j)" and lkO: "locks g L = Owned j k \<Longrightarrow> owner T L j k" for L v j k
    using lk unfolding locks_ok_def by (metis lock.simps(5), metis lock.simps(6))
  show base: "base g' T' = base g T"
  proof
    fix L show "base g' T' L = base g T L"
    proof (cases "locks g L")
      case (Owned j k)
      then have "L \<in> held (T j)" "k < length (w_set (T j))" using lkO by (auto simp: owner_def)
      then show ?thesis using Owned wr [of L j] ws [of L j k] unfolding base_def g'(1) by (simp split: option.splits)
    qed (simp add: base_def g'(1))
  qed
  have set: "settled T' L \<longleftrightarrow> settled T L" for L using h wr by (auto simp: settled_def)
  have wtr: "writers g' = writers g" by (simp add: fun_eq_iff writers_def g')
  have as: "as_of g' = as_of g" by (simp add: as_of_def g')
  have now: "now g' = now g"
  proof
    fix a
    have "t \<le> clock g" if "t \<in> writers g (LOCK_IDX a)" for t using kn that unfolding known_def by (meson le_trans)
    then have "as_of g (clock g') a = as_of g (clock g) a" using g'(4) by (intro as_of_between) auto
    then show "now g' a = now g a" by (simp add: now_def as)
  qed
  have lt: "stamp (T' j) = Some t \<Longrightarrow> stamp (T j) = Some t \<or> clock g < t" for j t
    using st by (cases "j = i") (auto simp: T')
  show "evolves g T g' T'"
    unfolding evolves_def base set wtr as now h using g'(4) lt by simp
  show "locks_ok g' T'"
    unfolding locks_ok_def g'(1)
  proof
    fix L show "case locks g L of Version v \<Rightarrow> (\<forall>j. L \<notin> held (T' j)) | Owned j k \<Rightarrow> owner T' L j k"
    proof (cases "locks g L")
      case (Owned j k)
      then have o: "owner T L j k" by (rule lkO)
      then have L: "L \<in> held (T j)" and k: "k < length (w_set (T j))" by (simp_all add: owner_def)
      have "w_lock (w_set (T' j) ! k') = w_lock (w_set (T j) ! k')" if "k' \<le> k" for k' using ws [OF L, of k'] that k by simp
      then have "owner T' L j k" using o ws [OF L k] unfolding owner_def h by simp
      then show ?thesis using Owned by simp
    qed (use lkV h in simp)
  qed
  show "known g' T'"
    unfolding known_def base set wtr now
  proof (intro allI conjI impI)
    fix L a assume s: "settled T L" and a: "LOCK_IDX a = L"
    then have "\<not> (LOCK_IDX a \<in> held (T i) \<and> writes_at (T i) \<noteq> None)" by (auto simp: settled_def)
    then show "mem g' a = now g a" using mem [of a] kn s a by (auto simp: known_def)
  next
    fix L show "base g T L \<le> clock g'" using kn g'(4) unfolding known_def by (meson le_trans)
    show "\<forall>t\<in>writers g L. t \<le> base g T L" using kn by (simp add: known_def)
  qed
  show "kept (held (T j)) g T g' T'" if "j \<noteq> i"
  proof -
    have "mem g' a = mem g a" if "LOCK_IDX a \<in> held (T j)" for a
    proof -
      have "LOCK_IDX a \<notin> held (T i)" using lkV lkO that \<open>j \<noteq> i\<close> unfolding owner_def by (metis lock.exhaust)
      then show ?thesis using mem by blast
    qed
    then show ?thesis by (simp add: kept_def base wtr now)
  qed
  show "kept H g T g' T'" if "mem g' = mem g" using that by (simp add: kept_def base wtr now)
qed

lemma quiet_inv:
  assumes inv: "stm_inv g T" and q: "quiet (T i) l'"
    and g': "locks g' = locks g" "decided g' = decided g" "initial g' = initial g" "clock g' = clock g" "mem g' = mem g"
    and st: "stamp l' \<noteq> None \<Longrightarrow> stamp l' = stamp (T i) \<and> start l' = start (T i) \<and> tx_end l' = tx_end (T i)"
    and h: "history_ok g' T" and tx: "tx_ok g T l'"
  shows "stm_inv g' (T(i := l'))"
proof -
  let ?T = "T(i := l')"
  have st': "stamp l' = Some t \<Longrightarrow> stamp (T i) = Some t" for t using st by auto
  note qs = still_step [OF inv q refl g'(1-3)]
  have ev: "evolves g T g' ?T" and lk: "locks_ok g' ?T" "known g' ?T" and base: "base g' ?T = base g T"
    and kept: "kept H g T g' ?T" for H
    using st' g' by (auto intro: qs)
  have S: "stamps_ok g T" using inv by (simp add: stm_inv_def)
  have as: "as_of g' = as_of g" by (simp add: as_of_def g')
  have "consistent g T e tr \<Longrightarrow> consistent g' ?T e tr" for e tr
    by (rule consistent_evolves [OF ev])
  moreover have "consistent g' T = consistent g T" by (simp add: fun_eq_iff consistent_def as g')
  ultimately have h': "history_ok g' ?T" using h by (simp add: history_ok_def)
  show ?thesis
  proof (rule inv_after [OF inv ev refl kept lk h'])
    have "held l' = held (T i)" using q by (simp add: quiet_def)
    moreover have "stamp_ok g T (T i)" using S by (simp add: stamps_ok_def)
    ultimately show "stamp_ok g' ?T l'" using st unfolding stamp_ok_def base g' by auto
    show "\<And>j t. j \<noteq> i \<Longrightarrow> stamp l' = Some t \<Longrightarrow> stamp (T j) \<noteq> Some t"
      using S st' unfolding stamps_ok_def by metis
    show "\<And>j t. j \<noteq> i \<Longrightarrow> stamp (T j) = Some t \<Longrightarrow> decided g' t = decided g t" by (simp add: g')
    show "tx_ok g' ?T l'" by (rule tx_ok_evolves [OF ev kept tx])
  qed
qed

lemma quiet_inv_same:
  assumes "stm_inv g T" "quiet (T i) l'" "tx_ok g T l'"
    "stamp l' \<noteq> None \<Longrightarrow> stamp l' = stamp (T i) \<and> start l' = start (T i) \<and> tx_end l' = tx_end (T i)"
  shows "stm_inv g (T(i := l'))"
  using assms by (intro quiet_inv) (simp_all add: stm_inv_def)

text \<open>Fields that do not matter.\<close>

lemma irrelevant [simp]:
  "fits g (l\<lparr>pc := p\<rparr>) F = fits g l F" "fits g (l\<lparr>result := x\<rparr>) F = fits g l F" "fits g (l\<lparr>nesting := k\<rparr>) F = fits g l F"
  "fits g (l\<lparr>trace := tr\<rparr>) F = fits g l F"
  "reads_ok g T (l\<lparr>pc := p\<rparr>) = reads_ok g T l" "reads_ok g T (l\<lparr>result := x\<rparr>) = reads_ok g T l"
  "reads_ok g T (l\<lparr>nesting := k\<rparr>) = reads_ok g T l" "reads_ok g T (l\<lparr>trace := tr\<rparr>) = reads_ok g T l"
  "trace_ok g (l\<lparr>pc := p\<rparr>) = trace_ok g l" "trace_ok g (l\<lparr>result := x\<rparr>) = trace_ok g l" "trace_ok g (l\<lparr>nesting := k\<rparr>) = trace_ok g l"
  by (simp_all add: fits_def reads_ok_def trace_ok_def)

lemmas pc_simps = tx_ok_def pc_ok_def live_def nested_def writing_ok_def writes_at_def

subsection \<open>Facts about the locks\<close>

lemma version_facts:
  assumes inv: "stm_inv g T" and v: "locks g L = Version v"
  shows "base g T L = v" "settled T L" "L \<notin> held (T j)" "later T L e" "v \<le> clock g" "t \<in> writers g L \<Longrightarrow> t \<le> v"
    "LOCK_IDX a = L \<Longrightarrow> mem g a = now g a"
proof -
  have lk: "locks_ok g T" and kn: "known g T" using inv by (simp_all add: stm_inv_def)
  show b: "base g T L = v" using v by (simp add: base_def)
  show h: "L \<notin> held (T j)" for j using lk v unfolding locks_ok_def by (metis lock.simps(5))
  then show s: "settled T L" and "later T L e" by (simp_all add: settled_def later_def)
  have "base g T L \<le> clock g \<and> (\<forall>t\<in>writers g L. t \<le> base g T L) \<and> (\<forall>a. LOCK_IDX a = L \<longrightarrow> mem g a = now g a)"
    using kn s unfolding known_def by blast
  then show "v \<le> clock g" "t \<in> writers g L \<Longrightarrow> t \<le> v" "LOCK_IDX a = L \<Longrightarrow> mem g a = now g a"
    using b by auto
qed

lemma owned_facts:
  assumes "stm_inv g T" "locks g L = Owned j k"
  shows "owner T L j k"
  using assms unfolding stm_inv_def locks_ok_def by (metis lock.simps(6))

lemma held_facts:
  assumes inv: "stm_inv g T" and L: "L \<in> held (T j)"
  obtains k where "locks g L = Owned j k" "owner T L j k"
proof (cases "locks g L")
  case (Version v)
  then show ?thesis using version_facts(3) [OF inv] L by blast
next
  case (Owned j' k)
  then have "owner T L j' k" by (rule owned_facts [OF inv])
  then show ?thesis using that Owned L unfolding owner_def by metis
qed

lemma own_memory:
  assumes inv: "stm_inv g T" and L: "LOCK_IDX a \<in> held (T j)" and w: "writes_at (T j) = None"
  shows "mem g a = now g a"
proof -
  have "settled T (LOCK_IDX a)" using held_facts [OF inv L] w unfolding settled_def owner_def by metis
  then show ?thesis using inv by (simp add: stm_inv_def known_def)
qed

subsection \<open>What a running transaction does\<close>

lemma trace_read_entry:
  assumes tr: "trace_ok g l" and ws: "ws_ok (w_set l)" and w: "(a, x) \<in> saved (w_set l)"
  shows "trace_ok g (l\<lparr>trace := trace l @ [Rd a x]\<rparr>)"
proof -
  have L: "LOCK_IDX a \<in> w_lock ` set (w_set l)" using saved_lock [OF ws w] .
  have "effect (trace l) F a = x" if "fits g l F" for F
  proof -
    have "F a = now g a" using that L by (simp add: fits_def)
    then have "effect (trace l) F a = effect (trace l) (now g) a" by (rule effect_local)
    then show ?thesis using tr w by (auto simp: trace_ok_def)
  qed
  then show ?thesis using tr L by (auto simp: trace_ok_def)
qed

lemma trace_read_memory:
  assumes tr: "trace_ok g l" and L: "LOCK_IDX a \<in> w_lock ` set (w_set l)" and w: "\<And>x. (a, x) \<notin> saved (w_set l)"
  shows "trace_ok g (l\<lparr>trace := trace l @ [Rd a (now g a)]\<rparr>)"
proof -
  have "a \<notin> wrote (trace l)" using tr w by (auto simp: trace_ok_def)
  then have "effect (trace l) F a = F a" for F by (rule effect_other)
  moreover have "fits g l F \<Longrightarrow> F a = now g a" for F using L by (simp add: fits_def)
  ultimately show ?thesis using tr L by (auto simp: trace_ok_def)
qed

lemma trace_read_new:
  assumes tr: "trace_ok g l" and ws: "ws_ok (w_set l)" and L: "LOCK_IDX a \<notin> w_lock ` set (w_set l)"
  shows "trace_ok g (add_read (LOCK_IDX a) v l\<lparr>trace := trace l @ [Rd a (as_of g (tx_end l) a)]\<rparr>)"
proof -
  let ?l = "add_read (LOCK_IDX a) v l\<lparr>trace := trace l @ [Rd a (as_of g (tx_end l) a)]\<rparr>"
  have "a \<notin> wrote (trace l)" using tr L saved_lock [OF ws] by (auto simp: trace_ok_def)
  then have no: "effect (trace l) F a = F a" for F by (rule effect_other)
  have "replays (trace ?l) F" if "fits g ?l F" for F
  proof -
    have "fits g l F" "F a = as_of g (tx_end l) a" using that by (auto simp: fits_def add_read_def)
    then show ?thesis using tr no by (simp add: trace_ok_def add_read_def)
  qed
  then show ?thesis using tr by (auto simp: trace_ok_def add_read_def)
qed

lemma image_update: "k < length ws \<Longrightarrow> f e = f (ws ! k) \<Longrightarrow> f ` set (ws[k := e]) = f ` set ws"
  by (metis list.set_map list_update_id map_update nth_map)

lemma saved_next:
  assumes "k < length ws"
  shows "saved (ws[k := (ws ! k)\<lparr>w_next := x\<rparr>]) = saved ws"
proof -
  have "w_addr (ws[k := (ws ! k)\<lparr>w_next := x\<rparr>] ! j) = w_addr (ws ! j) \<and> w_value (ws[k := (ws ! k)\<lparr>w_next := x\<rparr>] ! j) = w_value (ws ! j) \<and>
    w_mask (ws[k := (ws ! k)\<lparr>w_next := x\<rparr>] ! j) = w_mask (ws ! j)" for j
    using assms by (cases "j = k") simp_all
  then show ?thesis by (simp add: saved_def)
qed

lemma saved_new: "saved (ws @ [new_entry a ver]) = saved ws"
proof -
  have "k < length (ws @ [new_entry a ver]) \<and> w_mask ((ws @ [new_entry a ver]) ! k) \<noteq> 0 \<longleftrightarrow> k < length ws \<and> w_mask (ws ! k) \<noteq> 0" for k
    by (cases k "length ws" rule: linorder_cases) (simp_all add: nth_append new_entry_def)
  moreover have "k < length ws \<Longrightarrow> (ws @ [new_entry a ver]) ! k = ws ! k" for k by (simp add: nth_append)
  ultimately show ?thesis unfolding saved_def by (metis (no_types, lifting))
qed

lemma saved_put:
  assumes ws: "ws_ok ws" and k: "k < length ws" "w_addr (ws ! k) = a" and m: "m \<noteq> 0"
  shows "saved (ws[k := (ws ! k)\<lparr>w_value := x, w_mask := m\<rparr>]) = insert (a, x) {p \<in> saved ws. fst p \<noteq> a}" (is "saved ?ws = _")
proof (rule set_eqI)
  fix p :: "stm_word \<times> stm_word"
  obtain b y where p: "p = (b, y)" by (cases p)
  have other: "w_addr (ws ! j) \<noteq> a" if "j < length ws" "j \<noteq> k" for j
    using ws_okD(1) [OF ws that(1) k(1)] that k(2) by auto
  have "p \<in> saved ?ws \<longleftrightarrow> (\<exists>j<length ws. w_addr (?ws ! j) = b \<and> w_value (?ws ! j) = y \<and> w_mask (?ws ! j) \<noteq> 0)"
    by (auto simp: saved_def p)
  also have "\<dots> \<longleftrightarrow> (b = a \<and> y = x) \<or> (\<exists>j<length ws. j \<noteq> k \<and> w_addr (ws ! j) = b \<and> w_value (ws ! j) = y \<and> w_mask (ws ! j) \<noteq> 0)"
  proof (rule iffI, elim exE conjE)
    fix j assume "j < length ws" "w_addr (?ws ! j) = b" "w_value (?ws ! j) = y" "w_mask (?ws ! j) \<noteq> 0"
    then show "(b = a \<and> y = x) \<or> (\<exists>j<length ws. j \<noteq> k \<and> w_addr (ws ! j) = b \<and> w_value (ws ! j) = y \<and> w_mask (ws ! j) \<noteq> 0)"
      using k by (cases "j = k") auto
  next
    assume "(b = a \<and> y = x) \<or> (\<exists>j<length ws. j \<noteq> k \<and> w_addr (ws ! j) = b \<and> w_value (ws ! j) = y \<and> w_mask (ws ! j) \<noteq> 0)"
    then show "\<exists>j<length ws. w_addr (?ws ! j) = b \<and> w_value (?ws ! j) = y \<and> w_mask (?ws ! j) \<noteq> 0"
    proof (elim disjE exE conjE)
      assume "b = a" "y = x"
      then show ?thesis using k m by (intro exI [of _ k]) simp
    next
      fix j assume "j < length ws" "j \<noteq> k" "w_addr (ws ! j) = b" "w_value (ws ! j) = y" "w_mask (ws ! j) \<noteq> 0"
      then show ?thesis by (intro exI [of _ j]) simp
    qed
  qed
  also have "\<dots> \<longleftrightarrow> p \<in> insert (a, x) {p \<in> saved ws. fst p \<noteq> a}"
    using other k(2) unfolding saved_def p by auto
  finally show "p \<in> saved ?ws \<longleftrightarrow> p \<in> insert (a, x) {p \<in> saved ws. fst p \<noteq> a}" .
qed

lemma trace_put:
  assumes tr: "trace_ok g l" and ws: "ws_ok (w_set l)" and k: "k < length (w_set l)" "w_addr (w_set l ! k) = a" and m: "m \<noteq> 0"
    and old: "old = (if w_mask (w_set l ! k) \<noteq> 0 then w_value (w_set l ! k) else now g a)"
  shows "trace_ok g (l\<lparr>w_set := (w_set l)[k := (w_set l ! k)\<lparr>w_value := merge old v m, w_mask := w_mask (w_set l ! k) OR m\<rparr>],
    trace := trace l @ [Wr a v m]\<rparr>)" (is "trace_ok g ?l")
proof -
  have locks: "w_lock ` set (w_set ?l) = w_lock ` set (w_set l)" using k by (simp add: image_update)
  have L: "LOCK_IDX a \<in> w_lock ` set (w_set l)" using k ws_okD(2) [OF ws k(1)] by (metis image_eqI nth_mem)
  have "w_mask (w_set l ! k) OR m \<noteq> 0" using m by (simp add: or_eq_0_iff)
  then have sv: "saved (w_set ?l) = insert (a, merge old v m) {p \<in> saved (w_set l). fst p \<noteq> a}"
    using saved_put [OF ws k] by simp
  have now: "effect (trace l) (now g) a = old"
  proof (cases "w_mask (w_set l ! k) = 0")
    case True
    have "(a, x) \<notin> saved (w_set l)" for x
    proof
      assume "(a, x) \<in> saved (w_set l)"
      then obtain w where "w \<in> set (w_set l)" "w_mask w \<noteq> 0" "w_addr w = a" by (rule savedE)
      then show False using ws_ok_same [OF ws, of w "w_set l ! k"] k True by simp
    qed
    then have "a \<notin> wrote (trace l)" using tr by (auto simp: trace_ok_def)
    then show ?thesis using True old by (simp add: effect_other)
  next
    case False
    then have "(a, old) \<in> saved (w_set l)" using savedI [of "w_set l ! k" "w_set l"] k old by simp
    then show ?thesis using tr by (auto simp: trace_ok_def)
  qed
  have "x = effect (trace ?l) (now g) b" if "(b, x) \<in> saved (w_set ?l)" for b x
    using that tr now unfolding sv by (auto simp: trace_ok_def)
  moreover have "wrote (trace ?l) = fst ` saved (w_set ?l)" using tr unfolding sv by (force simp: trace_ok_def)
  moreover have "fits g ?l F \<longleftrightarrow> fits g l F" for F unfolding fits_def locks by simp
  moreover have "LOCK_IDX ` touched (trace ?l) \<subseteq> fst ` set (seen l) \<union> w_lock ` set (w_set l)"
    using tr L by (simp add: trace_ok_def)
  ultimately show ?thesis using tr unfolding trace_ok_def locks by auto
qed

lemma trace_entry:
  assumes tr: "trace_ok g l" and locks: "w_lock ` set (w_set l) \<subseteq> w_lock ` set ws" and same: "saved ws = saved (w_set l)"
  shows "trace_ok g (l\<lparr>w_set := ws\<rparr>)"
proof -
  have f: "fits g l F" if "fits g (l\<lparr>w_set := ws\<rparr>) F" for F
  proof -
    have "\<forall>a. LOCK_IDX a \<in> w_lock ` set ws \<longrightarrow> F a = now g a" using that unfolding fits_def by simp
    then have "\<forall>a. LOCK_IDX a \<in> w_lock ` set (w_set l) \<longrightarrow> F a = now g a" using locks by blast
    then show ?thesis using that unfolding fits_def by simp
  qed
  have "LOCK_IDX ` touched (trace l) \<subseteq> fst ` set (seen l) \<union> w_lock ` set (w_set l)" using tr by (simp only: trace_ok_def)
  then have t: "LOCK_IDX ` touched (trace l) \<subseteq> fst ` set (seen l) \<union> w_lock ` set ws" using locks by (meson Un_mono order_refl subset_trans)
  have r: "\<forall>F. fits g (l\<lparr>w_set := ws\<rparr>) F \<longrightarrow> replays (trace l) F" using tr f unfolding trace_ok_def by meson
  show ?thesis using tr r t by (simp add: trace_ok_def same)
qed

subsection \<open>Steps of a running transaction\<close>

definition calm :: "stm_globals \<Rightarrow> (tid \<Rightarrow> stm_tx) \<Rightarrow> stm_tx \<Rightarrow> stm_tx \<Rightarrow> bool" where
  "calm g T l l' \<longleftrightarrow> quiet l l' \<and> tx_ok g T l' \<and>
     (stamp l' \<noteq> None \<longrightarrow> stamp l' = stamp l \<and> start l' = start l \<and> tx_end l' = tx_end l)"

lemma calm_inv: "stm_inv g T \<Longrightarrow> calm g T (T i) l' \<Longrightarrow> stm_inv g (T(i := l'))"
  unfolding calm_def by (intro quiet_inv_same) auto

lemma live_writing: "live l \<Longrightarrow> writes_at l = None"
  by (simp add: live_def writes_at_def split: etl_pc.splits)

lemma live_tx:
  assumes "tx_ok g T l" "live l"
  shows "ws_ok (w_set l)" "\<not> no_retry (attr l)" "reads_ok g T l" "trace_ok g l" "w_set l \<noteq> [] \<Longrightarrow> \<not> read_only (attr l)"
  using assms by (simp_all add: tx_ok_def)

lemma calm_live:
  assumes ok: "tx_ok g T l" "live l" and l': "live l'" "nested l'" "attr l' = attr l" "reads_ok g T l'" "trace_ok g l'" "pc_ok g T l'"
    and ws: "ws_ok (w_set l')" "w_lock ` set (w_set l') = w_lock ` set (w_set l)"
      "\<And>k. k < length (w_set l) \<Longrightarrow> k < length (w_set l') \<and> w_lock (w_set l' ! k) = w_lock (w_set l ! k) \<and> w_version (w_set l' ! k) = w_version (w_set l ! k)"
    and st: "stamp l' \<noteq> None \<Longrightarrow> stamp l' = stamp l \<and> start l' = start l \<and> tx_end l' = tx_end l"
  shows "calm g T l l'"
proof -
  have "quiet l l'" using ws l'(1) ok(2) by (simp add: quiet_def live_held live_writing)
  moreover have "w_set l' \<noteq> [] \<Longrightarrow> \<not> read_only (attr l')" using live_tx(5) [OF ok] ws(2) l'(3) by (metis image_is_empty set_empty)
  then have "tx_ok g T l'" using l' ws(1) live_tx(2) [OF ok] by (simp add: tx_ok_def writing_ok_def live_writing)
  ultimately show ?thesis using st by (simp add: calm_def)
qed

lemma calm_pc:
  assumes "tx_ok g T l" "live l" "live (l\<lparr>pc := p\<rparr>)" "nested (l\<lparr>pc := p\<rparr>)" "pc_ok g T (l\<lparr>pc := p\<rparr>)"
    "stamp (l\<lparr>pc := p\<rparr>) \<noteq> None \<Longrightarrow> stamp (l\<lparr>pc := p\<rparr>) = stamp l"
  shows "calm g T l (l\<lparr>pc := p\<rparr>)"
  using assms by (intro calm_live) (simp_all add: live_tx)

lemma calm_rollback:
  assumes "tx_ok g T l" "live l"
  shows "calm g T l (rollback r l)"
proof -
  have "held (rollback r l) = held l" using live_held [OF assms(2)] by (simp add: rollback_def held_def)
  then have "quiet l (rollback r l)" using live_writing [OF assms(2)] by (simp add: quiet_def rollback_def writes_at_def)
  then show ?thesis using assms(1) by (simp add: calm_def rollback_def pc_simps stamp_def)
qed

text \<open>Back to the program, with the result of a load.\<close>

lemma calm_loaded:
  assumes ok: "tx_ok g T l" "live l" and n: "0 < nesting l"
    and tr: "trace_ok g (l\<lparr>trace := trace l @ [Rd a x]\<rparr>)"
  shows "calm g T l (loaded a x l)"
proof -
  have "loaded a x l = l\<lparr>trace := trace l @ [Rd a x]\<rparr>\<lparr>result := x\<rparr>\<lparr>pc := Active\<rparr>" using n by (simp add: loaded_def resume_def)
  then show ?thesis using ok n tr live_tx [OF ok]
    by (intro calm_live) (simp_all add: live_def nested_def pc_ok_def stamp_def)
qed

lemma add_read_simps [simp]:
  "pc (add_read L v l) = pc l" "attr (add_read L v l) = attr l" "nesting (add_read L v l) = nesting l" "start (add_read L v l) = start l"
  "tx_end (add_read L v l) = tx_end l" "w_set (add_read L v l) = w_set l" "trace (add_read L v l) = trace l"
  "seen (add_read L v l) = seen l @ [(L, v)]" "live (add_read L v l) = live l"
  by (simp_all add: add_read_def live_def)

lemma calm_read_new:
  assumes inv: "stm_inv g T" and ok: "tx_ok g T l" "live l" and n: "0 < nesting l" and h: "held l = held (T i)"
    and v: "locks g (LOCK_IDX a) = Version v" "v \<le> tx_end l" and x: "in_flight g T a v x"
  shows "calm g T l (loaded a x (add_read (LOCK_IDX a) v l))"
proof -
  note L = version_facts [OF inv v(1)]
  have r: "reads_ok g T l" using live_tx [OF ok] by simp
  have no: "LOCK_IDX a \<notin> w_lock ` set (w_set l)" using L(3) [of i] h live_held [OF ok(2)] by simp
  have "as_of g (tx_end l) a = now g a"
    unfolding now_def using r L(6) v(2) by (intro as_of_between [symmetric]) (force simp: reads_ok_def)+
  then have x': "x = as_of g (tx_end l) a" using x L(1) by (simp add: in_flight_def)
  have "stable g T (LOCK_IDX a) v (tx_end l)" using L(4) [of "tx_end l"] L(6) v(2) r by (simp add: stable_def reads_ok_def)
  then have r': "reads_ok g T (add_read (LOCK_IDX a) v l)" using r no by (simp add: reads_ok_def) (simp add: add_read_def)
  have "loaded a x (add_read (LOCK_IDX a) v l) =
      add_read (LOCK_IDX a) v l\<lparr>trace := trace l @ [Rd a x]\<rparr>\<lparr>result := x\<rparr>\<lparr>pc := Active\<rparr>" using n by (simp add: loaded_def resume_def)
  then show ?thesis using ok n live_tx [OF ok] r' trace_read_new [OF _ _ no, of g v] x'
    by (intro calm_live) (simp_all add: live_def nested_def pc_ok_def stamp_def)
qed

lemma calm_read_locked:
  assumes inv: "stm_inv g T" and l: "T i = l" and ok: "live l" and n: "0 < nesting l"
  shows "calm g T l (read_locked i a (locks g (LOCK_IDX a)) l)"
proof (cases "locks g (LOCK_IDX a)")
  case (Version v)
  have tx: "tx_ok g T l" using inv l by (auto simp: stm_inv_def)
  have "calm g T l (l\<lparr>pc := R_value a v\<rparr>)"
    using version_facts [OF inv Version] n
    by (intro calm_pc tx ok) (simp_all add: live_def nested_def pc_ok_def loading_def stamp_def)
  then show ?thesis by (simp add: read_locked_def Version)
next
  case (Owned j k)
  have tx: "tx_ok g T l" using inv l by (auto simp: stm_inv_def)
  show ?thesis
  proof (cases "own i j k l")
    case True
    have o: "owner T (LOCK_IDX a) j k" by (rule owned_facts [OF inv Owned])
    have j: "j = i" "k < length (w_set l)" using True by (simp_all add: own_def)
    have L: "LOCK_IDX a \<in> held l" "w_lock (w_set l ! k) = LOCK_IDX a" "\<And>k'. k' < k \<Longrightarrow> w_lock (w_set l ! k') \<noteq> LOCK_IDX a"
      using o j l by (auto simp: owner_def)
    have ws: "ws_ok (w_set l)" using live_tx [OF tx ok] by simp
    have first: "w_addr (w_set l ! k') \<noteq> a" if "k' < k" for k' using L(3) [OF that] ws_okD(2) [OF ws, of k'] that j(2) by auto
    obtain k' found where w: "walk (w_set l) k a = (k', found)" by (cases "walk (w_set l) k a")
    have f: "k' < length (w_set l)" "found \<Longrightarrow> w_addr (w_set l ! k') = a" "\<not> found \<Longrightarrow> \<forall>w\<in>set (w_set l). w_addr w \<noteq> a"
      using walk_found [OF w ws j(2) L(2) first] by (auto split: if_splits)
    show ?thesis
    proof (cases "found \<and> w_mask (w_set l ! k') \<noteq> 0")
      case True
      have "(a, w_value (w_set l ! k')) \<in> saved (w_set l)" using savedI [of "w_set l ! k'" "w_set l"] f True by simp
      then have "calm g T l (loaded a (w_value (w_set l ! k')) l)"
        using live_tx [OF tx ok] by (intro calm_loaded tx ok n trace_read_entry) simp_all
      then show ?thesis using Owned \<open>own i j k l\<close> w True by (simp add: read_locked_def)
    next
      case False
      have "w_mask w = 0" if "w \<in> set (w_set l)" "w_addr w = a" for w
      proof -
        have found: "found" using f(3) that by blast
        then have "w = w_set l ! k'" using ws_ok_same [OF ws that(1), of "w_set l ! k'"] f(1,2) that(2) by simp
        then show ?thesis using False found by simp
      qed
      then have "calm g T l (l\<lparr>pc := R_own a\<rparr>)"
        using L(1) n live_held [OF ok] by (intro calm_pc tx ok) (auto simp: live_def nested_def pc_ok_def stamp_def held_def)
      then show ?thesis using Owned \<open>own i j k l\<close> w False by (auto simp: read_locked_def)
    qed
  next
    case False
    then show ?thesis using Owned calm_rollback [OF tx ok] by (simp add: read_locked_def)
  qed
qed

lemma read_inv:
  assumes inv: "stm_inv g T" and step: "stm_wbetl_read_invisible i g (T i) = Some (g', l')"
  shows "stm_inv g' (T(i := l'))"
proof -
  define l where "l = T i"
  have tx: "tx_ok g T l" using inv by (auto simp: stm_inv_def l_def)
  note step = step [folded l_def]
  have pc: "\<exists>a v x. pc l \<in> {R_lock a, R_own a, R_value a v, R_check a v x, R_again a v x}"
    using step by (cases "pc l") (auto simp: stm_wbetl_read_invisible_def)
  then have live: "live l" and n: "0 < nesting l" using tx by (auto simp: live_def tx_ok_def nested_def)
  note locked = calm_read_locked [OF inv l_def [symmetric] live n]
  have "g' = g \<and> calm g T l l'"
  proof (cases "pc l")
    case (R_lock a)
    then show ?thesis using step locked [of a] by (auto simp: stm_wbetl_read_invisible_def)
  next
    case (R_own a)
    have L: "LOCK_IDX a \<in> held l" and w: "\<forall>w\<in>set (w_set l). w_addr w = a \<longrightarrow> w_mask w = 0" using tx R_own by (auto simp: tx_ok_def pc_ok_def)
    have "mem g a = now g a" using own_memory [OF inv, of a i] L live_writing [OF live] by (simp add: l_def)
    moreover have "(a, x) \<notin> saved (w_set l)" for x using w savedE by metis
    ultimately have "calm g T l (loaded a (mem g a) l)"
      using live_tx [OF tx live] L live_held [OF live] by (intro calm_loaded tx live n) (simp add: trace_read_memory)
    then show ?thesis using step R_own by (auto simp: stm_wbetl_read_invisible_def)
  next
    case (R_value a v)
    have lo: "loading g T (LOCK_IDX a) v" using tx R_value by (simp add: tx_ok_def pc_ok_def)
    have "settled T (LOCK_IDX a) \<Longrightarrow> now g a = mem g a" "base g T (LOCK_IDX a) \<le> clock g" using inv by (simp_all add: stm_inv_def known_def)
    then have "in_flight g T a v (mem g a) \<and> v \<le> clock g" using lo unfolding in_flight_def loading_def by (metis le_trans)
    then have "calm g T l (l\<lparr>pc := R_check a v (mem g a)\<rparr>)"
      using n by (intro calm_pc tx live) (simp_all add: live_def nested_def pc_ok_def stamp_def)
    then show ?thesis using step R_value by (auto simp: stm_wbetl_read_invisible_def)
  next
    case (R_check a v x)
    have x: "in_flight g T a v x" "v \<le> clock g" using tx R_check by (simp_all add: tx_ok_def pc_ok_def)
    have new: "calm g T l (loaded a x (add_read (LOCK_IDX a) v l))" if "locks g (LOCK_IDX a) = Version v" "v \<le> tx_end l"
      using calm_read_new [OF inv tx live n _ that x(1), of i] by (simp add: l_def)
    have ext: "calm g T l (l\<lparr>pc := R_extend a v x\<rparr>)" if "\<not> read_only (attr l)"
      using n x that by (intro calm_pc tx live) (simp_all add: live_def nested_def pc_ok_def stamp_def)
    show ?thesis using step R_check locked [of a] new ext calm_rollback [OF tx live] by (auto simp: stm_wbetl_read_invisible_def split: if_splits)
  next
    case (R_again a v x)
    have x: "in_flight g T a v x" "v \<le> tx_end l" using tx R_again by (simp_all add: tx_ok_def pc_ok_def)
    have new: "calm g T l (loaded a x (add_read (LOCK_IDX a) v l))" if "locks g (LOCK_IDX a) = Version v"
      using calm_read_new [OF inv tx live n _ that x(2,1), of i] by (simp add: l_def)
    show ?thesis using step R_again locked [of a] new by (auto simp: stm_wbetl_read_invisible_def split: if_splits)
  qed (use step in \<open>simp_all add: stm_wbetl_read_invisible_def\<close>)
  then show ?thesis using calm_inv [OF inv] by (simp add: l_def)
qed

text \<open>Validation.\<close>

lemma seen_nth:
  assumes "reads_ok g T l" "\<not> read_only (attr l)"
  shows "length (r_set l) = length (seen l)"
    and "k < length (r_set l) \<Longrightarrow> seen l ! k = (r_lock (r_set l ! k), r_version (r_set l ! k))"
proof -
  have e: "map (\<lambda>r. (r_lock r, r_version r)) (r_set l) = seen l" using assms by (simp add: reads_ok_def)
  from arg_cong [OF e, of length] show "length (r_set l) = length (seen l)" by simp
  show "k < length (r_set l) \<Longrightarrow> seen l ! k = (r_lock (r_set l ! k), r_version (r_set l ! k))" by (simp flip: e)
qed

lemma entry_stable:
  assumes inv: "stm_inv g T" and l: "T i = l" and live: "live l" and ro: "\<not> read_only (attr l)"
    and k: "k < length (r_set l)" "entry_valid i g l (r_set l ! k)"
    and c: "tx_end l \<le> c" "c \<le> clock g" "\<And>t. stamp l = Some t \<Longrightarrow> c < t"
    and before: "entries_stable g T l k c"
  shows "entries_stable g T l (k + 1) c"
proof -
  have tx: "tx_ok g T l" using inv l by (auto simp: stm_inv_def)
  have r: "reads_ok g T l" by (rule live_tx(3) [OF tx live])
  let ?r = "r_set l ! k"
  have sk: "seen l ! k = (r_lock ?r, r_version ?r)" "k < length (seen l)" using seen_nth [OF r ro] k(1) by simp_all
  then have "(r_lock ?r, r_version ?r) \<in> set (seen l)" by (metis nth_mem)
  then have s: "r_version ?r \<le> tx_end l" "r_lock ?r \<in> w_lock ` set (w_set l) \<Longrightarrow> \<forall>t\<in>writers g (r_lock ?r). t \<le> r_version ?r"
    using r by (auto simp: reads_ok_def stable_def)
  have "stable g T (r_lock ?r) (r_version ?r) c"
  proof (cases "locks g (r_lock ?r)")
    case (Version v)
    then have "v = r_version ?r" using k(2) by (simp add: entry_valid_def)
    then show ?thesis using version_facts(4,6) [OF inv Version] s(1) c by (auto simp: stable_def)
  next
    case (Owned j k')
    then have j: "j = i" using k(2) by (simp add: entry_valid_def own_def)
    have o: "owner T (r_lock ?r) i k'" using owned_facts [OF inv Owned] j by simp
    then have "later T (r_lock ?r) c" using c(3) l unfolding owner_def later_def by metis
    moreover have "r_lock ?r \<in> w_lock ` set (w_set l)" using o l live_held [OF live] by (simp add: owner_def)
    ultimately show ?thesis using s c by (auto simp: stable_def)
  qed
  moreover have "take (k + 1) (seen l) = take k (seen l) @ [(r_lock ?r, r_version ?r)]" using sk by (simp add: take_Suc_conv_app_nth)
  ultimately show ?thesis using before by (simp add: entries_stable_def)
qed

lemma extend_inv:
  assumes inv: "stm_inv g T" and step: "stm_wbetl_extend i g (T i) = Some (g', l')"
  shows "stm_inv g' (T(i := l'))"
proof -
  define l where "l = T i"
  have tx: "tx_ok g T l" using inv by (auto simp: stm_inv_def l_def)
  note step = step [folded l_def]
  have pc: "\<exists>a v x c k. pc l \<in> {R_extend a v x, R_valid a v x c k}"
    using step by (cases "pc l") (auto simp: stm_wbetl_extend_def)
  then have live: "live l" and n: "0 < nesting l" and st: "stamp l = None" using tx by (auto simp: live_def tx_ok_def nested_def stamp_def)
  have r: "reads_ok g T l" and tr: "trace_ok g l" and ws: "ws_ok (w_set l)" using live_tx [OF tx live] by simp_all
  have "g' = g \<and> calm g T l l'"
  proof (cases "pc l")
    case (R_extend a v x)
    have "calm g T l (l\<lparr>pc := R_valid a v x (clock g) 0\<rparr>)"
      using tx R_extend n r by (intro calm_pc tx live)
        (simp_all add: live_def nested_def pc_ok_def stamp_def tx_ok_def reads_ok_def entries_stable_def)
    then show ?thesis using step R_extend calm_rollback [OF tx live] by (auto simp: stm_wbetl_extend_def split: if_splits)
  next
    case (R_valid a v x c k)
    have p: "in_flight g T a v x" "v \<le> c" "c \<le> clock g" "tx_end l \<le> c" "\<not> read_only (attr l)" "entries_stable g T l k c"
      using tx R_valid by (simp_all add: tx_ok_def pc_ok_def)
    have more: "calm g T l (l\<lparr>pc := R_valid a v x c (k + 1)\<rparr>)" if "k < length (r_set l)" "entry_valid i g l (r_set l ! k)"
    proof -
      have "entries_stable g T l (k + 1) c" using entry_stable [OF inv _ live p(5) that p(4,3) _ p(6)] st by (simp add: l_def)
      then show ?thesis using n p by (intro calm_pc tx live) (simp_all add: live_def nested_def pc_ok_def stamp_def entries_stable_def)
    qed
    have extended: "calm g T l (l\<lparr>tx_end := c, pc := R_again a v x\<rparr>)" if "length (r_set l) \<le> k"
    proof -
      have s: "stable g T L w c" if "(L, w) \<in> set (seen l)" for L w
        using p(6) that seen_nth(1) [OF r p(5)] \<open>length (r_set l) \<le> k\<close> by (auto simp: entries_stable_def)
      have r': "reads_ok g T (l\<lparr>tx_end := c\<rparr>)" using r s p by (auto simp: reads_ok_def)
      have "as_of g c b = as_of g (tx_end l) b" if b: "LOCK_IDX b \<in> fst ` set (seen l)" for b
      proof -
        obtain w where w: "(LOCK_IDX b, w) \<in> set (seen l)" using b by auto
        have "stable g T (LOCK_IDX b) w (tx_end l)" using r w by (auto simp: reads_ok_def)
        then have "\<And>t. t \<in> writers g (LOCK_IDX b) \<Longrightarrow> t \<le> tx_end l \<or> c < t" using s [OF w] by (fastforce simp: stable_def)
        then show ?thesis by (rule as_of_between [OF p(4)])
      qed
      then have "fits g (l\<lparr>tx_end := c\<rparr>) F \<Longrightarrow> fits g l F" for F by (simp add: fits_def)
      then have "trace_ok g (l\<lparr>tx_end := c\<rparr>)" using tr by (simp add: trace_ok_def)
      then show ?thesis using r' ws n p tx
        by (intro calm_live tx live) (simp_all add: live_def nested_def pc_ok_def stamp_def)
    qed
    show ?thesis using step R_valid more extended calm_rollback [OF tx live] by (auto simp: stm_wbetl_extend_def split: if_splits)
  qed (use step in \<open>simp_all add: stm_wbetl_extend_def\<close>)
  then show ?thesis using calm_inv [OF inv] by (simp add: l_def)
qed

text \<open>Stores.\<close>

lemma merge_full: "merge x v (NOT 0) = v"
  by (simp add: merge_def)

lemma reads_ok_locks: "w_lock ` set ws = w_lock ` set (w_set l) \<Longrightarrow> reads_ok g T (l\<lparr>w_set := ws\<rparr>) = reads_ok g T l"
  by (simp add: reads_ok_def)

definition storing :: "stm_globals \<Rightarrow> (tid \<Rightarrow> stm_tx) \<Rightarrow> stm_tx \<Rightarrow> bool" where
  "storing g T l \<longleftrightarrow> ws_ok (w_set l) \<and> \<not> no_retry (attr l) \<and> \<not> read_only (attr l) \<and> 0 < nesting l \<and> reads_ok g T l \<and> trace_ok g l"

lemma storing_pc: "storing g T (l\<lparr>pc := p\<rparr>) = storing g T l"
  by (simp add: storing_def)

lemma storing_tx:
  assumes "storing g T l" "live l" "pc_ok g T l" "stamp l = None" "pc l \<noteq> C_clock"
  shows "tx_ok g T l"
proof -
  have "nested l" using assms by (cases "pc l") (simp_all add: storing_def nested_def stamp_def)
  then show ?thesis using assms by (simp add: storing_def tx_ok_def writing_ok_def live_writing)
qed

definition ran :: "stm_globals \<Rightarrow> (tid \<Rightarrow> stm_tx) \<Rightarrow> stm_tx \<Rightarrow> stm_tx \<Rightarrow> bool" where
  "ran g T l l' \<longleftrightarrow> tx_ok g T l' \<and> live l' \<and> stamp l' = None \<and> attr l' = attr l \<and>
     map w_lock (w_set l') = map w_lock (w_set l) \<and> map w_version (w_set l') = map w_version (w_set l)"

lemma ran_put:
  assumes st: "storing g T l" and k: "k < length (w_set l)" "w_addr (w_set l ! k) = a" and m: "m \<noteq> 0"
    and old: "merge old v m = merge (if w_mask (w_set l ! k) \<noteq> 0 then w_value (w_set l ! k) else now g a) v m"
  shows "ran g T l (put_value k a v m old l)"
proof -
  let ?w = "(w_set l ! k)\<lparr>w_value := merge old v m, w_mask := w_mask (w_set l ! k) OR m\<rparr>"
  let ?l = "l\<lparr>w_set := (w_set l)[k := ?w], trace := trace l @ [Wr a v m]\<rparr>"
  have p: "put_value k a v m old l = ?l\<lparr>pc := Active\<rparr>" using st by (simp add: put_value_def resume_def storing_def)
  have ws: "ws_ok (w_set l)" and tr: "trace_ok g l" and r: "reads_ok g T l" using st by (simp_all add: storing_def)
  have same: "map w_lock (w_set ?l) = map w_lock (w_set l)" "map w_version (w_set ?l) = map w_version (w_set l)"
    using k(1) by (simp_all add: map_update list_update_same_conv)
  have "trace_ok g ?l" using trace_put [OF tr ws k m refl, of v] old by simp
  moreover have "ws_ok (w_set ?l)" using ws_ok_value [OF ws k(1)] by simp
  moreover have "reads_ok g T ?l" using r reads_ok_locks [of "(w_set l)[k := ?w]" l] arg_cong [OF same(1), of set] by (simp add: reads_ok_def)
  ultimately have s: "storing g T ?l" using st by (simp add: storing_def)
  then have "storing g T (?l\<lparr>pc := Active\<rparr>)" by (simp only: storing_pc)
  then have "tx_ok g T (?l\<lparr>pc := Active\<rparr>)" by (rule storing_tx) (simp_all add: live_def pc_ok_def stamp_def)
  then show ?thesis unfolding p ran_def using same by (simp add: live_def stamp_def)
qed

lemma ran_fill:
  assumes st: "storing g T l" and k: "k < length (w_set l)" "w_addr (w_set l ! k) = a"
  shows "ran g T l (fill k a v m l)"
proof -
  consider "m = 0" | "m \<noteq> 0" "m = NOT 0 \<or> w_mask (w_set l ! k) \<noteq> 0" | "m \<noteq> 0" "m \<noteq> NOT 0" "w_mask (w_set l ! k) = 0" by blast
  then show ?thesis
  proof cases
    case 1
    have "storing g T (l\<lparr>pc := Active\<rparr>)" using st by (simp only: storing_pc)
    then have "tx_ok g T (l\<lparr>pc := Active\<rparr>)" by (rule storing_tx) (simp_all add: live_def pc_ok_def stamp_def)
    then show ?thesis using 1 st by (simp add: fill_def resume_def storing_def ran_def live_def stamp_def)
  next
    case 2
    have "merge (w_value (w_set l ! k)) v m = merge (if w_mask (w_set l ! k) \<noteq> 0 then w_value (w_set l ! k) else now g a) v m"
      using 2(2) by (cases "m = NOT 0") (simp_all add: merge_full del: bit.compl_zero)
    then have "ran g T l (put_value k a v m (w_value (w_set l ! k)) l)" by (rule ran_put [OF st k 2(1)])
    then show ?thesis using 2 by (simp add: fill_def)
  next
    case 3
    have "storing g T (l\<lparr>pc := W_fill a v m k\<rparr>)" using st by (simp only: storing_pc)
    then have "tx_ok g T (l\<lparr>pc := W_fill a v m k\<rparr>)"
      using 3 k st by (intro storing_tx) (simp_all add: live_def pc_ok_def stamp_def storing_def)
    then show ?thesis using 3 by (simp add: fill_def ran_def live_def stamp_def)
  qed
qed

lemma calm_ran:
  assumes ok: "tx_ok g T l" "live l" and ran: "ran g T l1 l'" and same: "attr l1 = attr l"
    and ws: "w_lock ` set (w_set l1) = w_lock ` set (w_set l)"
      "\<And>k. k < length (w_set l) \<Longrightarrow> k < length (w_set l1) \<and> w_lock (w_set l1 ! k) = w_lock (w_set l ! k) \<and> w_version (w_set l1 ! k) = w_version (w_set l ! k)"
  shows "calm g T l l'"
proof -
  have l': "tx_ok g T l'" "live l'" "stamp l' = None" "attr l' = attr l"
    and m: "map w_lock (w_set l') = map w_lock (w_set l1)" "map w_version (w_set l') = map w_version (w_set l1)"
    using ran same by (simp_all add: ran_def)
  have len: "length (w_set l') = length (w_set l1)" using arg_cong [OF m(1), of length] by simp
  have nth: "w_lock (w_set l' ! k) = w_lock (w_set l1 ! k)" "w_version (w_set l' ! k) = w_version (w_set l1 ! k)"
    if "k < length (w_set l1)" for k
    using that arg_cong [OF m(1), of "\<lambda>x. x ! k"] arg_cong [OF m(2), of "\<lambda>x. x ! k"] len by simp_all
  have "w_lock ` set (w_set l') = w_lock ` set (w_set l)" using arg_cong [OF m(1), of set] ws(1) by simp
  moreover have "nested l'" "reads_ok g T l'" "trace_ok g l'" "pc_ok g T l'" "ws_ok (w_set l')"
    using l'(1) live_tx [OF l'(1,2)] by (simp_all add: tx_ok_def)
  ultimately show ?thesis using l' ws(2) len nth by (intro calm_live ok) simp_all
qed

text \<open>A lock is taken.\<close>

lemma as_of_same: "decided g' = decided g \<Longrightarrow> initial g' = initial g \<Longrightarrow> as_of g' = as_of g"
  by (simp add: as_of_def)

lemma writers_same: "decided g' = decided g \<Longrightarrow> writers g' = writers g"
  by (simp add: fun_eq_iff writers_def)

lemma owner_mono:
  assumes o: "owner T L j k" and h: "\<And>j. L \<in> held (T' j) \<longleftrightarrow> L \<in> held (T j)"
    and ws: "\<And>k'. k' < length (w_set (T j)) \<Longrightarrow> k' < length (w_set (T' j)) \<and> w_lock (w_set (T' j) ! k') = w_lock (w_set (T j) ! k')"
  shows "owner T' L j k"
proof -
  have k: "k < length (w_set (T j))" using o by (simp add: owner_def)
  have "w_lock (w_set (T' j) ! k') \<noteq> L" if "k' < k" for k'
    using ws [of k'] k that o by (simp add: owner_def)
  then show ?thesis using o ws [OF k] by (simp add: owner_def h)
qed

lemma acquire_inv:
  assumes inv: "stm_inv g T" and l: "T i = l" "live l" "stamp l = None" and L: "locks g L = Version ver"
    and l': "tx_ok g T l'" "live l'" "stamp l' = None"
    and ws: "map w_lock (w_set l') = map w_lock (w_set l) @ [L]" "map w_version (w_set l') = map w_version (w_set l) @ [ver]"
  shows "stm_inv (g\<lparr>locks := (locks g)(L := Owned i (length (w_set l)))\<rparr>) (T(i := l'))" (is "stm_inv ?g ?T")
proof -
  let ?n = "length (w_set l)"
  note V = version_facts [OF inv L]
  have len: "length (w_set l') = ?n + 1" using arg_cong [OF ws(1), of length] by simp
  have nth: "w_lock (w_set l' ! k) = w_lock (w_set l ! k)" "w_version (w_set l' ! k) = w_version (w_set l ! k)" if "k < ?n" for k
    using that arg_cong [OF ws(1), of "\<lambda>x. x ! k"] arg_cong [OF ws(2), of "\<lambda>x. x ! k"] len by (simp_all add: nth_append)
  have last: "w_lock (w_set l' ! ?n) = L" "w_version (w_set l' ! ?n) = ver"
    using arg_cong [OF ws(1), of "\<lambda>x. x ! ?n"] arg_cong [OF ws(2), of "\<lambda>x. x ! ?n"] len by (simp_all add: nth_append)
  have h': "held l' = insert L (held l)"
    using arg_cong [OF ws(1), of set] by (simp add: live_held [OF l'(2)] live_held [OF l(2)])
  have held: "M \<in> held (?T j) \<longleftrightarrow> M \<in> held (T j) \<or> M = L \<and> j = i" for M j using h' l(1) by auto
  have wr: "writes_at (?T j) = writes_at (T j)" for j using live_writing l l'(2) by simp
  have wr_i: "writes_at (T i) = None" using live_writing l by simp
  have more: "k < length (w_set (T j)) \<Longrightarrow> k < length (w_set (?T j)) \<and> w_lock (w_set (?T j) ! k) = w_lock (w_set (T j) ! k) \<and>
      w_version (w_set (?T j) ! k) = w_version (w_set (T j) ! k)" for j k
    using nth [of k] len l(1) by auto
  have base: "base ?g ?T M = base g T M" for M
  proof (cases "M = L")
    case True
    then show ?thesis using V(1) wr [of i] wr_i last by (simp add: base_def)
  next
    case False
    show ?thesis
    proof (cases "locks g M")
      case (Owned j k)
      then have "k < length (w_set (T j))" using owned_facts [OF inv Owned] by (simp add: owner_def)
      then show ?thesis using Owned False wr [of j] more by (simp add: base_def split: option.splits)
    qed (simp add: base_def False)
  qed
  have set: "settled ?T M \<longleftrightarrow> settled T M" for M using wr wr_i unfolding settled_def held by metis
  have lk: "locks_ok g T" and kn: "known g T" and h: "history_ok g T" using inv by (simp_all add: stm_inv_def)
  have as: "as_of ?g = as_of g" "writers ?g = writers g" by (rule as_of_same, simp_all) (rule writers_same, simp)
  then have now: "now ?g = now g" by (simp add: now_def)
  have st: "stamp (?T j) = stamp (T j)" for j using l l' by simp
  have sth: "stamp (?T j) = Some t \<Longrightarrow> M \<in> held (?T j) \<Longrightarrow> stamp (T j) = Some t \<and> M \<in> held (T j)" for j t M
  proof (cases "j = i")
    case True
    then show "stamp (?T j) = Some t \<Longrightarrow> M \<in> held (?T j) \<Longrightarrow> stamp (T j) = Some t \<and> M \<in> held (T j)" using l'(3) by simp
  next
    case False
    then show "stamp (?T j) = Some t \<Longrightarrow> M \<in> held (?T j) \<Longrightarrow> stamp (T j) = Some t \<and> M \<in> held (T j)" by simp
  qed
  have ev: "evolves g T ?g ?T" unfolding evolves_def base set as now using sth by (simp del: fun_upd_apply)
  have kept: "kept H g T ?g ?T" for H by (simp add: kept_def base as now)
  have lk': "locks_ok ?g ?T"
    unfolding locks_ok_def
  proof
    fix M show "case locks ?g M of Version v \<Rightarrow> \<forall>j. M \<notin> held (?T j) | Owned j k \<Rightarrow> owner ?T M j k"
    proof (cases "M = L")
      case True
      have "w_lock (w_set l' ! k) \<noteq> L" if "k < ?n" for k
        using V(3) [of i] that l live_held [OF l(2)] nth(1) by (metis image_eqI nth_mem)
      then have "owner ?T L i ?n" unfolding owner_def held using V(3) last len by simp
      then show ?thesis using True by simp
    next
      case False
      show ?thesis
      proof (cases "locks g M")
        case (Version v)
        then show ?thesis using False version_facts(3) [OF inv Version] held by simp
      next
        case (Owned j k)
        have "owner ?T M j k"
          by (rule owner_mono [OF owned_facts [OF inv Owned]]) (use held False more in blast)+
        then show ?thesis using Owned False by simp
      qed
    qed
  qed
  have kn': "known ?g ?T" using kn unfolding known_def base set as now by simp
  have hi': "history_ok ?g ?T" by (rule history_evolves [OF ev h]) simp_all
  have tx': "tx_ok ?g ?T l'" by (rule tx_ok_evolves [OF ev kept l'(1)])
  have st': "stamp_ok ?g ?T l'" by (simp add: stamp_ok_def l'(3))
  show ?thesis by (rule inv_after [OF inv ev refl kept lk' kn' hi' st' _ _ tx']) (simp_all add: l'(3))
qed

lemma write_inv:
  assumes inv: "stm_inv g T" and step: "stm_wbetl_write i g (T i) = Some (g', l')"
  shows "stm_inv g' (T(i := l'))"
proof -
  define l where "l = T i"
  have tx: "tx_ok g T l" using inv by (auto simp: stm_inv_def l_def)
  note step = step [folded l_def]
  have pc: "\<exists>a v m x. pc l \<in> {W_lock a v m, W_cas a v m x, W_fill a v m x}"
    using step by (cases "pc l") (auto simp: stm_wbetl_write_def)
  then have live: "live l" and n: "0 < nesting l" and st: "stamp l = None" and ro: "\<not> read_only (attr l)"
    using tx by (auto simp: live_def tx_ok_def nested_def stamp_def pc_ok_def)
  note ok = live_tx [OF tx live]
  have sto: "storing g T l" using ok n ro by (simp add: storing_def)
  show ?thesis
  proof (cases "pc l")
    case (W_lock a v m)
    have "g' = g \<and> calm g T l l'"
    proof (cases "locks g (LOCK_IDX a)")
      case (Version ver)
      have "calm g T l (l\<lparr>pc := W_cas a v m ver\<rparr>)" if "\<not> (tx_end l < ver \<and> has_read (LOCK_IDX a) l)"
      proof -
        have "has_read (LOCK_IDX a) l \<longleftrightarrow> LOCK_IDX a \<in> fst ` set (seen l)"
        proof -
          have "map (\<lambda>r. (r_lock r, r_version r)) (r_set l) = seen l" using ok(3) ro by (simp add: reads_ok_def)
          then have "fst ` set (seen l) = r_lock ` set (r_set l)" by (metis (no_types, lifting) fst_conv image_cong image_image list.set_map)
          then show ?thesis by (force simp: has_read_def list_ex_iff)
        qed
        then show ?thesis using n ro that by (intro calm_pc tx live) (auto simp: live_def nested_def pc_ok_def stamp_def)
      qed
      then show ?thesis using step W_lock Version calm_rollback [OF tx live] by (auto simp: stm_wbetl_write_def split: if_splits)
    next
      case (Owned j k)
      show ?thesis
      proof (cases "own i j k l \<and> m \<noteq> 0")
        case False
        have "calm g T l (resume l)"
          using n unfolding resume_def by (intro calm_pc tx live) (simp_all add: live_def nested_def pc_ok_def stamp_def)
        then show ?thesis using False step W_lock Owned calm_rollback [OF tx live]
          by (auto simp: stm_wbetl_write_def split: if_splits)
      next
        case True
        have o: "owner T (LOCK_IDX a) j k" by (rule owned_facts [OF inv Owned])
        have j: "j = i" "k < length (w_set l)" using True by (simp_all add: own_def)
        have L: "w_lock (w_set l ! k) = LOCK_IDX a" "\<And>k'. k' < k \<Longrightarrow> w_lock (w_set l ! k') \<noteq> LOCK_IDX a"
          using o j by (auto simp: owner_def l_def)
        have first: "w_addr (w_set l ! k') \<noteq> a" if "k' < k" for k' using L(2) [OF that] ws_okD(2) [OF ok(1), of k'] that j(2) by auto
        obtain k' found where w: "walk (w_set l) k a = (k', found)" by (cases "walk (w_set l) k a")
        have f: "k' < length (w_set l)" "w_lock (w_set l ! k') = LOCK_IDX a" "found \<Longrightarrow> w_addr (w_set l ! k') = a"
            "\<not> found \<Longrightarrow> w_next (w_set l ! k') = None" "\<not> found \<Longrightarrow> \<forall>w\<in>set (w_set l). w_addr w \<noteq> a"
          using walk_found [OF w ok(1) j(2) L(1) first] by (auto split: if_splits)
        show ?thesis
        proof (cases found)
          case True
          have "calm g T l (fill k' a v m l)" by (rule calm_ran [OF tx live ran_fill [OF sto f(1) f(3) [OF True]]]) simp_all
          then show ?thesis using step W_lock Owned \<open>own i j k l \<and> m \<noteq> 0\<close> w True by (auto simp: stm_wbetl_write_def)
        next
          case False
          let ?ws = "(w_set l)[k' := (w_set l ! k')\<lparr>w_next := Some (length (w_set l))\<rparr>] @ [new_entry a (w_version (w_set l ! k'))]"
          let ?l = "l\<lparr>w_set := ?ws\<rparr>"
          have ws: "ws_ok ?ws" by (rule ws_ok_more [OF ok(1) f(1,2) f(4,5) [OF False]])
          have "LOCK_IDX a \<in> w_lock ` set (w_set l)" using f(1,2) by (metis image_eqI nth_mem)
          then have locks: "w_lock ` set ?ws = w_lock ` set (w_set l)" using f(1) by (auto simp: image_update new_entry_def)
          have "trace_ok g ?l" by (rule trace_entry [OF ok(4) equalityD2 [OF locks]]) (simp add: saved_new saved_next f(1))
          then have sto': "storing g T ?l" using sto ws reads_ok_locks [OF locks] by (simp add: storing_def)
          have e: "?ws ! length (w_set l) = new_entry a (w_version (w_set l ! k'))" by (simp add: nth_append)
          have r: "ran g T ?l (fill (length (w_set l)) a v m ?l)" by (rule ran_fill [OF sto']) (simp_all add: e, simp add: new_entry_def)
          have "calm g T l (fill (length (w_set l)) a v m ?l)"
          proof (rule calm_ran [OF tx live r])
            show "w_lock ` set (w_set ?l) = w_lock ` set (w_set l)" using locks by simp
          qed (use f(1) in \<open>auto simp: nth_append nth_list_update\<close>)
          then show ?thesis using step W_lock Owned \<open>own i j k l \<and> m \<noteq> 0\<close> w False calm_rollback [OF tx live]
            by (auto simp: stm_wbetl_write_def Let_def split: if_splits)
        qed
      qed
    qed
    then show ?thesis using calm_inv [OF inv] by (simp add: l_def)
  next
    case (W_cas a v m ver)
    show ?thesis
    proof (cases "locks g (LOCK_IDX a) = Version ver")
      case True
      let ?l = "l\<lparr>w_set := w_set l @ [new_entry a ver]\<rparr>"
      note V = version_facts [OF inv True]
      have no: "LOCK_IDX a \<notin> w_lock ` set (w_set l)" using V(3) [of i] live_held [OF live] by (simp add: l_def)
      have "trace_ok g ?l" using trace_entry [OF ok(4), of "w_set l @ [new_entry a ver]"] by (auto simp: saved_new)
      moreover have "ws_ok (w_set ?l)" using ws_ok_new [OF ok(1) no] by simp
      moreover have "reads_ok g T ?l"
      proof -
        have "t \<le> w" if "(LOCK_IDX a, w) \<in> set (seen l)" "t \<in> writers g (LOCK_IDX a)" for w t
        proof -
          have "LOCK_IDX a \<in> fst ` set (seen l)" using that(1) by (metis fst_conv image_eqI)
          then have "ver \<le> tx_end l" using tx W_cas by (simp add: tx_ok_def pc_ok_def)
          then have "t \<le> tx_end l" using V(6) [OF that(2)] by simp
          moreover have "stable g T (LOCK_IDX a) w (tx_end l)" using ok(3) that(1) by (auto simp: reads_ok_def)
          ultimately show ?thesis using that(2) by (auto simp: stable_def)
        qed
        then show ?thesis using ok(3) by (auto simp: reads_ok_def new_entry_def)
      qed
      ultimately have sto': "storing g T ?l" using sto by (simp add: storing_def)
      have "ran g T ?l (fill (length (w_set l)) a v m ?l)" by (rule ran_fill [OF sto']) (simp_all add: new_entry_def)
      then have "stm_inv (g\<lparr>locks := (locks g)(LOCK_IDX a := Owned i (length (w_set l)))\<rparr>) (T(i := fill (length (w_set l)) a v m ?l))"
        by (intro acquire_inv [OF inv l_def [symmetric] live st True]) (simp_all add: ran_def new_entry_def)
      then show ?thesis using step W_cas True by (auto simp: stm_wbetl_write_def Let_def)
    next
      case False
      have "calm g T l (l\<lparr>pc := W_lock a v m\<rparr>)"
        using n ro by (intro calm_pc tx live) (simp_all add: live_def nested_def pc_ok_def stamp_def)
      then show ?thesis using step W_cas False calm_inv [OF inv] by (auto simp: stm_wbetl_write_def Let_def l_def)
    qed
  next
    case (W_fill a v m k)
    have p: "k < length (w_set l)" "w_addr (w_set l ! k) = a" "w_mask (w_set l ! k) = 0" "m \<noteq> 0"
      using tx W_fill by (simp_all add: tx_ok_def pc_ok_def)
    have "LOCK_IDX a \<in> held l" using p(1,2) ws_okD(2) [OF ok(1) p(1)] live_held [OF live] by (metis image_eqI nth_mem)
    then have "mem g a = now g a" using own_memory [OF inv, of a i] live_writing [OF live] by (simp add: l_def)
    then have "ran g T l (put_value k a v m (mem g a) l)" using p by (intro ran_put sto) simp_all
    then have "calm g T l (put_value k a v m (mem g a) l)" by (rule calm_ran [OF tx live]) simp_all
    then show ?thesis using step W_fill calm_inv [OF inv] by (auto simp: stm_wbetl_write_def l_def)
  qed (use step in \<open>simp_all add: stm_wbetl_write_def\<close>)
qed

subsection \<open>Locks are given back\<close>

lemma drop_entry: "k < length ws \<Longrightarrow> set (drop k ws) = insert (ws ! k) (set (drop (Suc k) ws))"
  by (metis Cons_nth_drop_Suc list.simps(15))

lemma last_entry:
  assumes ws: "ws_ok ws" and k: "k < length ws" "w_next (ws ! k) = None"
  shows "w_lock (ws ! k) \<notin> w_lock ` set (drop (Suc k) ws)"
proof
  assume "w_lock (ws ! k) \<in> w_lock ` set (drop (Suc k) ws)"
  then obtain w where w: "w \<in> set (drop (Suc k) ws)" "w_lock (ws ! k) = w_lock w" by blast
  then obtain j where j: "j < length ws - Suc k" "w = ws ! (Suc k + j)" by (auto simp: in_set_conv_nth)
  have "w_lock (ws ! (Suc k + j)) \<noteq> w_lock (ws ! k)" using ws_okD(3) [OF ws k(1)] k(2) j(1) by (simp add: linked_def)
  then show False using w(2) j(2) by simp
qed

lemma more_entry:
  assumes ws: "ws_ok ws" and k: "k < length ws" "w_next (ws ! k) \<noteq> None"
  shows "w_lock (ws ! k) \<in> w_lock ` set (drop (Suc k) ws)"
proof -
  obtain j where j: "k < j" "j < length ws" "w_lock (ws ! j) = w_lock (ws ! k)"
    using ws_okD(3) [OF ws k(1)] k(2) by (auto simp: linked_def)
  then have "ws ! j = drop (Suc k) ws ! (j - Suc k)" "j - Suc k < length (drop (Suc k) ws)" by simp_all
  then have "ws ! j \<in> set (drop (Suc k) ws)" by (metis nth_mem)
  then show ?thesis using j(3) by (metis image_eqI)
qed

lemma release_inv:
  assumes inv: "stm_inv g T" and l: "T i = l" "stamp l = None" and L: "L \<in> held l"
    and u: "base g T L = u" and m: "writes_at l \<noteq> None \<Longrightarrow> \<forall>a. LOCK_IDX a = L \<longrightarrow> mem g a = now g a"
    and l': "tx_ok g T l'" "stamp l' = None" "held l' = held l - {L}" "writes_at l' = writes_at l" "w_set l' = w_set l"
  shows "stm_inv (g\<lparr>locks := (locks g)(L := Version u)\<rparr>) (T(i := l'))" (is "stm_inv ?g ?T")
proof -
  obtain k where k: "locks g L = Owned i k" "owner T L i k" using held_facts [OF inv] L l by metis
  have held: "M \<in> held (?T j) \<longleftrightarrow> M \<in> held (T j) \<and> M \<noteq> L" for M j
    using l' l k(2) by (cases "j = i") (auto simp: owner_def)
  have wr: "writes_at (?T j) = writes_at (T j)" and ws: "w_set (?T j) = w_set (T j)" and st: "stamp (?T j) = stamp (T j)" for j
    using l' l by (cases "j = i"; simp)+
  have base: "base ?g ?T M = base g T M" for M
  proof (cases "M = L")
    case True
    then show ?thesis using u by (simp add: base_def)
  next
    case False
    then have "locks ?g M = locks g M" by simp
    then show ?thesis unfolding base_def wr ws by simp
  qed
  have set: "settled ?T M \<longleftrightarrow> settled T M \<or> M = L" for M unfolding settled_def held wr by auto
  have lk: "locks_ok g T" and kn: "known g T" and h: "history_ok g T" using inv by (simp_all add: stm_inv_def)
  have as: "as_of ?g = as_of g" "writers ?g = writers g" by (rule as_of_same, simp_all) (rule writers_same, simp)
  then have now: "now ?g = now g" by (simp add: now_def)
  have ev: "evolves g T ?g ?T" unfolding evolves_def base set as now held st by simp
  have kept: "kept H g T ?g ?T" for H by (simp add: kept_def base as now)
  have lk': "locks_ok ?g ?T"
    unfolding locks_ok_def
  proof
    fix M show "case locks ?g M of Version v \<Rightarrow> \<forall>j. M \<notin> held (?T j) | Owned j k \<Rightarrow> owner ?T M j k"
    proof (cases "M = L")
      case True
      then show ?thesis unfolding held by simp
    next
      case False
      show ?thesis
      proof (cases "locks g M")
        case (Version v)
        then show ?thesis using False version_facts(3) [OF inv Version] held by simp
      next
        case (Owned j k)
        have "owner ?T M j k" using owned_facts [OF inv Owned] False unfolding owner_def held ws by simp
        then show ?thesis using Owned False by simp
      qed
    qed
  qed
  have "mem g a = now g a" if "LOCK_IDX a = L" for a
  proof (cases "writes_at l")
    case None
    then show ?thesis using own_memory [OF inv, of a i] L l that by simp
  qed (use m that in simp)
  then have kn': "known ?g ?T" using kn unfolding known_def base set as now by simp
  have hi': "history_ok ?g ?T" by (rule history_evolves [OF ev h]) simp_all
  have tx': "tx_ok ?g ?T l'" by (rule tx_ok_evolves [OF ev kept l'(1)])
  have st': "stamp_ok ?g ?T l'" by (simp add: stamp_ok_def l'(2))
  show ?thesis by (rule inv_after [OF inv ev refl kept lk' kn' hi' st' _ _ tx']) (simp_all add: l'(2))
qed

lemma rollback_inv:
  assumes inv: "stm_inv g T" and step: "stm_wbetl_rollback g (T i) = Some (g', l')"
  shows "stm_inv g' (T(i := l'))"
proof -
  define l where "l = T i"
  have tx: "tx_ok g T l" using inv by (auto simp: stm_inv_def l_def)
  note step = step [folded l_def]
  obtain r k where pc: "pc l = K_drop r k" using step by (auto simp: stm_wbetl_rollback_def split: etl_pc.splits)
  have ws: "ws_ok (w_set l)" and nr: "\<not> no_retry (attr l)" using tx by (simp_all add: tx_ok_def)
  have held: "held l = w_lock ` set (drop k (w_set l))" and wr: "writes_at l = None" "stamp l = None" by (simp_all add: held_def writes_at_def stamp_def pc)
  show ?thesis
  proof (cases "k < length (w_set l)")
    case True
    let ?w = "w_set l ! k" and ?l = "l\<lparr>pc := K_drop r (k + 1)\<rparr>"
    have drop: "held l = insert (w_lock ?w) (held ?l)" using drop_entry [OF True] held by (simp add: held_def)
    have tx': "tx_ok g T ?l" using ws nr by (simp add: pc_simps)
    have st: "stamp ?l = None" "writes_at ?l = None" "w_set ?l = w_set l" by (simp_all add: stamp_def writes_at_def)
    show ?thesis
    proof (cases "w_next ?w")
      case None
      have "w_lock ?w \<notin> held ?l" using last_entry [OF ws True None] by (simp add: held_def)
      then have h: "held ?l = held l - {w_lock ?w}" using drop by auto
      have L: "w_lock ?w \<in> held l" using drop by simp
      then obtain k0 where k0: "locks g (w_lock ?w) = Owned i k0" "owner T (w_lock ?w) i k0" using held_facts [OF inv] l_def by metis
      then have "w_version (w_set l ! k0) = w_version ?w" using ws_okD(4) [OF ws _ True, of k0] by (simp add: owner_def l_def)
      then have "base g T (w_lock ?w) = w_version ?w" using k0(1) wr(1) by (simp add: base_def l_def)
      from release_inv [OF inv l_def [symmetric] wr(2) L this _ tx' st(1) h _ st(3)] wr(1) st(2)
      have "stm_inv (g\<lparr>locks := (locks g)(w_lock ?w := Version (w_version ?w))\<rparr>) (T(i := ?l))" by simp
      moreover have "g' = g\<lparr>locks := (locks g)(w_lock ?w := Version (w_version ?w))\<rparr>" "l' = ?l"
        using step True None by (auto simp: stm_wbetl_rollback_def pc Let_def)
      ultimately show ?thesis by simp
    next
      case (Some j)
      have "held ?l = held l" using drop more_entry [OF ws True] Some by (auto simp: held_def)
      then have "calm g T l ?l" using tx' st wr by (simp add: calm_def quiet_def)
      moreover have "g' = g" "l' = ?l" using step True Some by (auto simp: stm_wbetl_rollback_def pc Let_def)
      ultimately show ?thesis using calm_inv [OF inv] by (simp add: l_def)
    qed
  next
    case False
    have "held l = {}" using held False by simp
    moreover have "held (stm_rollback r l) = {} \<and> stamp (stm_rollback r l) = None \<and> tx_ok g T (stm_rollback r l)"
      using ws nr by (cases r) (auto simp: stm_rollback_def Let_def held_def stamp_def pc_simps)
    ultimately have "calm g T l (stm_rollback r l)" by (simp add: calm_def quiet_def)
    moreover have "g' = g" "l' = stm_rollback r l" using step False by (auto simp: stm_wbetl_rollback_def pc)
    ultimately show ?thesis using calm_inv [OF inv] by (simp add: l_def)
  qed
qed

subsection \<open>Begin, and a commit without a write\<close>

lemma start_inv:
  assumes inv: "stm_inv g T" and pc: "pc (T i) = Idle \<or> pc (T i) = Active" and at: "\<not> no_retry at"
    and step: "int_stm_start at g (T i) = Some (g', l')"
  shows "stm_inv g' (T(i := l'))"
proof -
  define l where "l = T i"
  have tx: "tx_ok g T l" using inv by (auto simp: stm_inv_def l_def)
  have "calm g T l l' \<and> g' = g"
  proof (cases "pc l = Active")
    case True
    have live: "live l" and n: "0 < nesting l" using True tx by (auto simp: live_def tx_ok_def nested_def)
    have "calm g T l (l\<lparr>nesting := nesting l + 1\<rparr>)" using True live_tx [OF tx live]
      by (intro calm_live tx live) (simp_all add: live_def nested_def pc_ok_def stamp_def)
    then show ?thesis using step n by (auto simp: int_stm_start_def l_def)
  next
    case False
    then have "pc l = Idle" using pc by (simp add: l_def)
    then show ?thesis using tx step at by (auto simp: int_stm_start_def calm_def quiet_def held_def stamp_def pc_simps l_def split: if_splits)
  qed
  then show ?thesis using calm_inv [OF inv] by (simp add: l_def)
qed

lemma prepare_inv:
  assumes inv: "stm_inv g T" and pc: "pc (T i) = Prepare" and step: "int_stm_prepare g (T i) = Some (g', l')"
  shows "stm_inv g' (T(i := l'))"
proof -
  define l where "l = T i"
  have tx: "tx_ok g T l" using inv by (auto simp: stm_inv_def l_def)
  have pc: "pc l = Prepare" using pc by (simp add: l_def)
  then have h: "held l = {}" and n: "0 < nesting l" using tx by (simp_all add: held_def tx_ok_def nested_def)
  let ?l = "l\<lparr>r_set := [], w_set := [], start := clock g, tx_end := clock g, status := TX_ACTIVE, pc := Active, seen := [], trace := []\<rparr>"
  have "reads_ok g T ?l" "trace_ok g ?l" by (simp_all add: reads_ok_def trace_ok_def saved_def)
  then have "calm g T l ?l" using tx n h by (simp add: calm_def quiet_def held_def stamp_def pc_simps)
  moreover have "calm g T l (l\<lparr>pc := Rollover\<rparr>)" using tx h by (simp add: calm_def quiet_def held_def stamp_def pc_simps)
  ultimately show ?thesis using step calm_inv [OF inv] by (auto simp: int_stm_prepare_def l_def split: if_splits)
qed

lemma commit_inv:
  assumes inv: "stm_inv g T" and pc: "pc (T i) = Active" and step: "int_stm_commit g (T i) = Some (g', l')"
  shows "stm_inv g' (T(i := l'))"
proof -
  define l where "l = T i"
  have tx: "tx_ok g T l" using inv by (auto simp: stm_inv_def l_def)
  have pc: "pc l = Active" using pc by (simp add: l_def)
  then have live: "live l" by (simp add: live_def)
  note ok = live_tx [OF tx live]
  let ?l = "l\<lparr>nesting := nesting l - 1\<rparr>"
  consider "0 < nesting l - 1" | "\<not> 0 < nesting l - 1" "w_set l = []" | "\<not> 0 < nesting l - 1" "w_set l \<noteq> []" by blast
  then show ?thesis
  proof cases
    case 1
    then have "calm g T l (?l\<lparr>result := 1\<rparr>)" using pc ok
      by (intro calm_live tx live) (simp_all add: live_def nested_def pc_ok_def stamp_def)
    then show ?thesis using step 1 calm_inv [OF inv] by (auto simp: int_stm_commit_def Let_def l_def)
  next
    case 3
    then have "calm g T l (?l\<lparr>pc := C_clock\<rparr>)" using pc ok
      by (intro calm_live tx live) (simp_all add: live_def nested_def pc_ok_def stamp_def)
    then show ?thesis using step 3 calm_inv [OF inv] by (auto simp: int_stm_commit_def Let_def l_def)
  next
    case 2
    have h: "held l = {}" using live_held [OF live] 2 by simp
    have q: "quiet l (committed ?l)" using h by (simp add: quiet_def held_def committed_def)
    have fit: "fits g l (as_of g (tx_end l))" using 2 by (simp add: fits_def)
    have "later T (LOCK_IDX a) (tx_end l)" if a: "a \<in> touched (trace l)" for a
    proof -
      have "LOCK_IDX a \<in> fst ` set (seen l)" using a ok(4) 2 by (auto simp: trace_ok_def)
      then show ?thesis using ok(3) by (auto simp: reads_ok_def stable_def)
    qed
    then have "consistent g T (tx_end l) (trace l)" using ok(3,4) fit by (simp add: consistent_def reads_ok_def trace_ok_def)
    moreover have "start l \<le> tx_end l" using ok(3) by (simp add: reads_ok_def)
    moreover have "history_ok g T" using inv by (simp add: stm_inv_def)
    moreover let ?g = "g\<lparr>readers := (start l, tx_end l, trace l) # readers g\<rparr>"
    have "consistent ?g T = consistent g T" by (simp add: fun_eq_iff consistent_def as_of_def)
    ultimately have hi: "history_ok ?g T" by (simp add: history_ok_def)
    have "tx_ok g T (committed ?l)" using ok by (simp add: committed_def pc_simps)
    then have "stm_inv ?g (T(i := committed ?l))"
      using q hi by (intro quiet_inv [OF inv]) (simp_all add: committed_def stamp_def l_def)
    then show ?thesis using step 2 by (auto simp: int_stm_commit_def Let_def l_def)
  qed
qed

subsection \<open>Commit\<close>

lemma clock_inv:
  assumes inv: "stm_inv g T" and pc: "pc (T i) = C_clock" and step: "stm_wbetl_commit i g (T i) = Some (g', l')"
  shows "stm_inv g' (T(i := l'))"
proof -
  define l where "l = T i"
  have tx: "tx_ok g T l" using inv by (auto simp: stm_inv_def l_def)
  have pc: "pc l = C_clock" using pc by (simp add: l_def)
  then have live: "live l" by (simp add: live_def)
  note ok = live_tx [OF tx live]
  let ?t = "clock g + 1"
  let ?g = "g\<lparr>clock := ?t\<rparr>" and ?l = "l\<lparr>pc := C_valid ?t (if start l = ?t - 1 then length (r_set l) else 0)\<rparr>"
  let ?T = "T(i := ?l)"
  have e: "g' = ?g" "l' = ?l" using step pc by (auto simp: stm_wbetl_commit_def Let_def l_def)
  have q: "quiet (T i) ?l" using live by (simp add: quiet_def live_held live_def writes_at_def held_def pc flip: l_def)
  have st: "stamp ?l = Some ?t" by (simp add: stamp_def)
  have g': "locks ?g = locks g" "decided ?g = decided g" "initial ?g = initial g" "clock g \<le> clock ?g" "mem ?g = mem g" by simp_all
  have side: "stamp ?l = Some u \<Longrightarrow> stamp (T i) = Some u \<or> clock g < u" "mem ?g a = mem g a \<or> LOCK_IDX a \<in> held (T i) \<and> writes_at (T i) \<noteq> None" for u a
    using st by auto
  have ev: "evolves g T ?g ?T" by (rule still_step(1) [OF inv q refl g'(1-4)]) (use side in blast)+
  have lk: "locks_ok ?g ?T" by (rule still_step(2) [OF inv q refl g'(1-4)]) (use side in blast)+
  have lk2: "known ?g ?T" by (rule still_step(3) [OF inv q refl g'(1-4)]) (use side in blast)+
  have base: "base ?g ?T = base g T" by (rule still_step(4) [OF inv q refl g'(1-4)]) (use side in blast)+
  have kept: "kept H g T ?g ?T" for H by (rule still_step(6) [OF inv q refl g'(1-4)]) (use side g'(5) in blast)+
  have S: "stamps_ok g T" and kn: "known g T" and hi: "history_ok g T" using inv by (simp_all add: stm_inv_def)
  have tx': "tx_ok ?g ?T l" by (rule tx_ok_evolves [OF ev kept tx])
  note ok' = live_tx [OF tx' live]
  have ro: "\<not> read_only (attr l)" using tx pc by (simp add: tx_ok_def pc_ok_def)
  have "entries_stable ?g ?T l k (?t - 1)" if "start l = ?t - 1" for k
  proof -
    have "tx_end l = ?t - 1" using ok(3) that by (simp add: reads_ok_def)
    then have "stable ?g ?T L v (?t - 1)" if "(L, v) \<in> set (seen l)" for L v using ok'(3) that by (auto simp: reads_ok_def)
    then show ?thesis by (auto simp: entries_stable_def dest: in_set_takeD)
  qed
  then have "pc_ok ?g ?T ?l" using ro by (simp add: pc_ok_def entries_stable_def)
  then have "tx_ok ?g ?T ?l" using ok' ro by (simp add: tx_ok_def writing_ok_def writes_at_def live_def nested_def)
  moreover have "stamp_ok ?g ?T ?l"
  proof -
    have "decided g ?t = None"
    proof (rule ccontr)
      assume "decided g ?t \<noteq> None"
      then obtain c tr where "decided g ?t = Some (c, tr)" by auto
      then have "?t \<le> clock g" using hi unfolding history_ok_def by metis
      then show False by simp
    qed
    moreover have "base g T L < ?t" for L using kn by (simp add: known_def less_Suc_eq_le)
    ultimately show ?thesis using ok(3) st unfolding stamp_ok_def base by (simp add: reads_ok_def)
  qed
  moreover have "history_ok ?g ?T" by (rule history_evolves [OF ev hi]) simp_all
  moreover have "stamp (T j) \<noteq> Some ?t" for j
  proof
    assume "stamp (T j) = Some ?t"
    then have "?t \<le> clock g" using S unfolding stamps_ok_def stamp_ok_def by metis
    then show False by simp
  qed
  ultimately have "stm_inv ?g ?T" using st by (intro inv_after [OF inv ev refl kept lk lk2]) simp_all
  then show ?thesis using e by simp
qed

lemma decide_inv:
  assumes inv: "stm_inv g T" and l: "T i = l" and pc: "pc l = C_valid t k" and k: "length (r_set l) \<le> k"
  shows "stm_inv (g\<lparr>decided := (decided g)(t \<mapsto> (start l, trace l))\<rparr>) (T(i := l\<lparr>pc := C_store t 0\<rparr>))" (is "stm_inv ?g (T(i := ?l))")
proof -
  let ?T = "T(i := ?l)"
  have tx: "tx_ok g T l" using inv l by (auto simp: stm_inv_def)
  have live: "live l" and st: "stamp l = Some t" using pc by (simp_all add: live_def stamp_def)
  note ok = live_tx [OF tx live]
  have lk: "locks_ok g T" and kn: "known g T" and S: "stamps_ok g T" and hi: "history_ok g T" using inv by (simp_all add: stm_inv_def)
  have so: "t \<le> clock g" "decided g t = None" "start l < t" "tx_end l < t" "\<And>L. L \<in> held l \<Longrightarrow> base g T L < t"
    using S st l unfolding stamps_ok_def stamp_ok_def by metis+
  have only: "L \<in> held (T j) \<Longrightarrow> L \<in> held l \<Longrightarrow> j = i" for L j using held_facts [OF inv] l unfolding owner_def by metis
  have ro: "\<not> read_only (attr l)" and es: "entries_stable g T l k (t - 1)" using tx pc by (simp_all add: tx_ok_def pc_ok_def)
  have seen: "stable g T L v (t - 1)" if "(L, v) \<in> set (seen l)" for L v
    using es that seen_nth(1) [OF ok(3) ro] k by (auto simp: entries_stable_def)
  have wb: "u \<le> base g T L" if "u \<in> writers g L" for u L using kn that by (simp add: known_def)
  have wrote: "LOCK_IDX a \<in> held l" if "a \<in> wrote (trace l)" for a
    using that ok(4) saved_lock [OF ok(1)] live_held [OF live] by (auto simp: trace_ok_def)
  have D: "decided ?g = (decided g)(t \<mapsto> (start l, trace l))" "initial ?g = initial g" by simp_all
  have writers: "u \<in> writers ?g L \<longleftrightarrow> u \<in> writers g L \<or> u = t \<and> L \<in> LOCK_IDX ` wrote (trace l)" for u L
    using so(2) by (auto simp: writers_def)
  have held: "held (?T j) = held (T j)" for j using l live_held [OF live] by (simp add: held_def [of ?l])
  have ws: "w_set (?T j) = w_set (T j)" for j using l by simp
  have wr: "writes_at (?T j) = (if j = i then Some t else writes_at (T j))" for j by (simp add: writes_at_def)
  have base: "base ?g ?T L = (if L \<in> held l then t else base g T L)" for L
  proof (cases "L \<in> held l")
    case True
    then obtain k' where "locks g L = Owned i k'" using held_facts [OF inv, of L i] l by metis
    then show ?thesis using True by (simp add: base_def writes_at_def)
  next
    case False
    have "j \<noteq> i" if "locks g L = Owned j k'" for j k' using owned_facts [OF inv that] False l by (auto simp: owner_def)
    then show ?thesis using False unfolding base_def wr ws by (auto split: lock.splits)
  qed
  have set: "settled ?T L \<longleftrightarrow> settled T L \<and> L \<notin> held l" for L
    using live_writing [OF live] l unfolding settled_def held wr by (metis option.distinct(1))
  have else_: "as_of ?g e a = as_of g e a" if "a \<notin> wrote (trace l)" for e a by (rule as_of_elsewhere [OF D so(2) that])
  have now_wrote: "now ?g a = effect (trace l) (now g) a" if "LOCK_IDX a \<in> held l" for a
  proof -
    have "u < t" if "u \<in> writers g (LOCK_IDX a)" for u using wb [OF that] so(5) [OF \<open>LOCK_IDX a \<in> held l\<close>] by simp
    then have "as_of ?g (clock g) a = effect (trace l) (as_of g (clock g)) a" using so(1,3) by (intro as_of_written [OF D]) simp_all
    then show ?thesis by (simp add: now_def)
  qed
  have now_else: "now ?g a = now g a" if "a \<notin> wrote (trace l)" for a using else_ [OF that] by (simp add: now_def)
  have ev: "evolves g T ?g ?T"
    unfolding evolves_def held
  proof (intro conjI allI ballI impI)
    fix L u assume "u \<in> writers ?g L"
    then show "u \<in> writers g L \<or> (\<exists>j. stamp (T j) = Some u \<and> L \<in> held (T j))" using writers wrote st l by auto
  next
    fix L j u assume "stamp (?T j) = Some u" "L \<in> held (T j)"
    then show "stamp (T j) = Some u \<and> L \<in> held (T j) \<or> clock g < u" by (cases "j = i") (simp_all add: stamp_def)
  next
    fix L show "base g T L \<le> base ?g ?T L" using so(5) [of L] by (simp add: base less_imp_le)
  next
    fix L assume b: "base ?g ?T L = base g T L" "settled T L"
    then have L: "L \<notin> held l" using so(5) [of L] by (auto simp: base)
    then show "settled ?T L" using b by (simp add: set)
    fix a assume "LOCK_IDX a = L"
    then show "now ?g a = now g a" using L wrote by (intro now_else) auto
  next
    fix e a assume "e \<le> clock g"
    show "as_of ?g e a = as_of g e a \<or> (\<exists>j u. stamp (T j) = Some u \<and> LOCK_IDX a \<in> held (T j) \<and> u \<le> e)"
    proof (cases "a \<in> wrote (trace l) \<and> t \<le> e")
      case True
      then show ?thesis using st l wrote by blast
    next
      case False
      then show ?thesis using else_ as_of_before [OF D] by (cases "a \<in> wrote (trace l)") simp_all
    qed
  qed simp
  have kept: "kept (held (T j)) g T ?g ?T" if "j \<noteq> i" for j
  proof -
    have no: "L \<notin> held l" if "L \<in> held (T j)" for L using only that \<open>j \<noteq> i\<close> by blast
    then have "writers ?g L = writers g L" if "L \<in> held (T j)" for L using that writers wrote by blast
    moreover have "now ?g a = now g a" if "LOCK_IDX a \<in> held (T j)" for a using no [OF that] wrote by (intro now_else) blast
    ultimately show ?thesis using no unfolding kept_def base by simp
  qed
  have lk': "locks_ok ?g ?T" using lk unfolding locks_ok_def owner_def held ws by simp
  have kn': "known ?g ?T"
    unfolding known_def
  proof (intro allI conjI ballI impI)
    fix L show "base ?g ?T L \<le> clock ?g" using kn so(1) by (simp add: base known_def)
    fix u assume "u \<in> writers ?g L"
    then show "u \<le> base ?g ?T L" using writers wb wrote so(5) [of L] by (fastforce simp: base)
  next
    fix L a assume "settled ?T L" "LOCK_IDX a = L"
    then have a: "settled T L" "L \<notin> held l" "LOCK_IDX a = L" by (simp_all add: set)
    then have "mem g a = now g a" using kn by (simp add: known_def)
    moreover have "now ?g a = now g a" using a wrote by (intro now_else) blast
    ultimately show "mem ?g a = now ?g a" by simp
  qed
  have fit: "fits g l (as_of g (t - 1))"
    unfolding fits_def
  proof (intro conjI allI impI)
    fix a assume "LOCK_IDX a \<in> fst ` set (seen l)"
    then obtain v where v: "(LOCK_IDX a, v) \<in> set (seen l)" by auto
    then have "stable g T (LOCK_IDX a) v (tx_end l)" using ok(3) by (auto simp: reads_ok_def)
    then have "\<And>u. u \<in> writers g (LOCK_IDX a) \<Longrightarrow> u \<le> tx_end l \<or> t - 1 < u" using seen [OF v] by (fastforce simp: stable_def)
    then show "as_of g (t - 1) a = as_of g (tx_end l) a" using so(4) by (intro as_of_between) simp_all
  next
    fix a assume "LOCK_IDX a \<in> w_lock ` set (w_set l)"
    then have "base g T (LOCK_IDX a) < t" using so(5) live_held [OF live] by simp
    then have "\<And>u. u \<in> writers g (LOCK_IDX a) \<Longrightarrow> u \<le> t - 1 \<or> clock g < u" using wb by fastforce
    then have "as_of g (clock g) a = as_of g (t - 1) a" using so(1) by (intro as_of_between) simp_all
    then show "as_of g (t - 1) a = now g a" by (simp add: now_def)
  qed
  have con: "consistent g T (t - 1) (trace l)"
    unfolding consistent_def
  proof (intro conjI ballI)
    show "t - 1 \<le> clock g" using so(1) by simp
    show "replays (trace l) (as_of g (t - 1))" using ok(4) fit by (simp add: trace_ok_def)
    fix a assume "a \<in> touched (trace l)"
    then consider v where "(LOCK_IDX a, v) \<in> set (seen l)" | "LOCK_IDX a \<in> held l"
      using ok(4) live_held [OF live] by (auto simp: trace_ok_def)
    then show "later T (LOCK_IDX a) (t - 1)"
    proof cases
      case 1
      then show ?thesis using seen by (simp add: stable_def)
    next
      case 2
      show ?thesis unfolding later_def
      proof (intro allI impI)
        fix j u assume u: "stamp (T j) = Some u" "LOCK_IDX a \<in> held (T j)"
        have "j = i" by (rule only [OF u(2) 2])
        then show "t - 1 < u" using u(1) st l so(3) by simp
      qed
    qed
  qed
  have hi': "history_ok ?g ?T"
    unfolding history_ok_def
  proof (intro conjI allI impI)
    fix u c tr assume d: "decided ?g u = Some (c, tr)"
    have "c < u \<and> u \<le> clock g \<and> consistent g T (u - 1) tr"
    proof (cases "u = t")
      case True
      then show ?thesis using d so con by simp
    next
      case False
      then show ?thesis using d hi by (simp add: history_ok_def)
    qed
    then show "c < u" "u \<le> clock ?g" "consistent ?g ?T (u - 1) tr" using consistent_evolves [OF ev] by simp_all
  next
    fix c e tr assume "(c, e, tr) \<in> set (readers ?g)"
    then have "c \<le> e \<and> consistent g T e tr" using hi by (simp add: history_ok_def)
    then show "c \<le> e" "consistent ?g ?T e tr" using consistent_evolves [OF ev] by simp_all
  qed
  have tx': "tx_ok ?g ?T ?l"
  proof -
    have un: "unsaved ?l = set (w_set l)" and h': "held ?l = held l" using live_held [OF live] by (simp_all add: unsaved_def held_def)
    have val: "w_value w = now ?g (w_addr w)" if "w \<in> set (w_set l)" "w_mask w \<noteq> 0" for w
    proof -
      have "LOCK_IDX (w_addr w) \<in> held l" using saved_lock [OF ok(1) savedI [OF that]] live_held [OF live] by simp
      then show ?thesis using now_wrote savedI [OF that] ok(4) by (auto simp: trace_ok_def)
    qed
    have "mem g a = now ?g a \<or> (\<exists>w\<in>set (w_set l). w_addr w = a \<and> w_mask w \<noteq> 0)" if "LOCK_IDX a \<in> held l" for a
    proof (cases "a \<in> wrote (trace l)")
      case True
      then obtain x where "(a, x) \<in> saved (w_set l)" using ok(4) by (auto simp: trace_ok_def)
      then show ?thesis by (rule savedE) blast
    next
      case False
      have "mem g a = now g a" using own_memory [OF inv, of a i] that live_writing [OF live] l by simp
      then show ?thesis using now_else [OF False] by simp
    qed
    then have "writing_ok ?g ?l" using val unfolding writing_ok_def un h' by simp
    then show ?thesis using ok by (simp add: tx_ok_def nested_def live_def pc_ok_def)
  qed
  have stn: "stamp ?l = None" by (simp add: stamp_def)
  have "decided ?g u = decided g u" if "j \<noteq> i" "stamp (T j) = Some u" for j u
  proof -
    have "u \<noteq> t" using S st l that unfolding stamps_ok_def by metis
    then show ?thesis by simp
  qed
  then show ?thesis
    by (intro inv_after [OF inv ev refl kept lk' kn' hi' _ _ _ tx']) (simp_all add: stn stamp_ok_def)
qed

lemma store_inv:
  assumes inv: "stm_inv g T" and pc: "pc (T i) = C_store t k" and step: "stm_wbetl_commit i g (T i) = Some (g', l')"
  shows "stm_inv g' (T(i := l'))"
proof -
  define l where "l = T i"
  have tx: "tx_ok g T l" using inv by (auto simp: stm_inv_def l_def)
  have pc: "pc l = C_store t k" using pc by (simp add: l_def)
  have ws: "ws_ok (w_set l)" and nr: "\<not> no_retry (attr l)" and wo: "writing_ok g l" using tx by (simp_all add: tx_ok_def)
  have held: "held l = w_lock ` set (drop k (w_set l))" and wr: "writes_at l = Some t" and st: "stamp l = None"
    and un: "unsaved l = set (drop k (w_set l))" by (simp_all add: held_def writes_at_def stamp_def unsaved_def pc)
  show ?thesis
  proof (cases "k < length (w_set l)")
    case False
    have "held l = {}" using held False by simp
    then have "calm g T l (committed l)" using ws nr by (simp add: calm_def quiet_def committed_def held_def stamp_def pc_simps)
    then show ?thesis using step pc False calm_inv [OF inv] by (auto simp: stm_wbetl_commit_def l_def)
  next
    case True
    let ?w = "w_set l ! k"
    have set: "set (drop k (w_set l)) = insert ?w (set (drop (Suc k) (w_set l)))" by (rule drop_entry [OF True])
    have wL: "LOCK_IDX (w_addr ?w) = w_lock ?w" using ws_okD(2) [OF ws True] by simp
    then have L: "LOCK_IDX (w_addr ?w) \<in> held l" using held set by simp
    have e: "l' = l\<lparr>pc := if w_next ?w = None then C_release t k else C_store t (k + 1)\<rparr>"
      "g' = (if w_mask ?w \<noteq> 0 then g\<lparr>mem := (mem g)(w_addr ?w := w_value ?w)\<rparr> else g)"
      using step pc True by (auto simp: stm_wbetl_commit_def Let_def l_def)
    have h': "held l' = held l" using e(1) held set more_entry [OF ws True] by (auto simp: held_def)
    have un': "unsaved l' = set (drop (Suc k) (w_set l))" by (simp add: e(1) unsaved_def)
    have st': "stamp l' = None" "writes_at l' = Some t" "w_set l' = w_set l" using e(1) by (simp_all add: stamp_def writes_at_def)
    have q: "quiet (T i) l'" using h' wr st' by (simp add: quiet_def flip: l_def)
    have g': "locks g' = locks g" "decided g' = decided g" "initial g' = initial g" "clock g' = clock g" "readers g' = readers g"
      and mem: "mem g' a = (if w_mask ?w \<noteq> 0 \<and> a = w_addr ?w then w_value ?w else mem g a)" for a using e(2) by auto
    have "mem g' a = mem g a \<or> LOCK_IDX a \<in> held (T i) \<and> writes_at (T i) \<noteq> None" for a
      using mem [of a] L wr by (auto simp: l_def)
    note qs = still_step [OF inv q refl g'(1-3) _ _ this]
    have ev: "evolves g T g' (T(i := l'))" and lk: "locks_ok g' (T(i := l'))" "known g' (T(i := l'))"
      and kept: "j \<noteq> i \<Longrightarrow> kept (held (T j)) g T g' (T(i := l'))" for j
      using st' g' by (auto intro: qs)
    have now: "now g' = now g" using g' as_of_same [OF g'(2,3)] by (simp add: now_def)
    have old: "mem g a = now g a \<or> (\<exists>w\<in>set (drop k (w_set l)). w_addr w = a \<and> w_mask w \<noteq> 0)" if "LOCK_IDX a \<in> held l" for a
      using wo wr that un by (simp add: writing_ok_def)
    have val: "w_mask w \<noteq> 0 \<Longrightarrow> w_value w = now g (w_addr w)" if "w \<in> set (drop k (w_set l))" for w
      using wo wr that un by (simp add: writing_ok_def)
    have "mem g' a = now g a \<or> (\<exists>w\<in>set (drop (Suc k) (w_set l)). w_addr w = a \<and> w_mask w \<noteq> 0)" if "LOCK_IDX a \<in> held l" for a
      using old [OF that] mem [of a] val [of ?w] unfolding set by auto
    then have "writing_ok g' l'" using val unfolding writing_ok_def un' now h' set by simp
    moreover have "pc_ok g' (T(i := l')) l'" "nested l'" "\<not> live l'" using True by (auto simp: e(1) pc_ok_def nested_def live_def)
    ultimately have tx': "tx_ok g' (T(i := l')) l'" using ws nr by (simp add: tx_ok_def e(1))
    have "history_ok g T" using inv by (simp add: stm_inv_def)
    then have "history_ok g' (T(i := l'))" by (rule history_evolves [OF ev]) (simp_all add: g')
    then show ?thesis by (intro inv_after [OF inv ev refl kept lk _ _ _ _ tx']) (simp_all add: st' stamp_ok_def g')
  qed
qed

lemma release_store_inv:
  assumes inv: "stm_inv g T" and pc: "pc (T i) = C_release t k" and step: "stm_wbetl_commit i g (T i) = Some (g', l')"
  shows "stm_inv g' (T(i := l'))"
proof -
  define l where "l = T i"
  have tx: "tx_ok g T l" using inv by (auto simp: stm_inv_def l_def)
  have pc: "pc l = C_release t k" using pc by (simp add: l_def)
  have ws: "ws_ok (w_set l)" and nr: "\<not> no_retry (attr l)" and wo: "writing_ok g l" using tx by (simp_all add: tx_ok_def)
  have k: "k < length (w_set l)" "w_next (w_set l ! k) = None" using tx pc by (simp_all add: tx_ok_def pc_ok_def)
  let ?w = "w_set l ! k" and ?l = "l\<lparr>pc := C_store t (k + 1)\<rparr>"
  have held: "held l = w_lock ` set (drop k (w_set l))" and wr: "writes_at l = Some t" and st: "stamp l = None"
    and un: "unsaved l = set (drop (Suc k) (w_set l))" by (simp_all add: held_def writes_at_def stamp_def unsaved_def pc)
  have st': "stamp ?l = None" "writes_at ?l = Some t" "w_set ?l = w_set l" "unsaved ?l = unsaved l"
    using un by (simp_all add: stamp_def writes_at_def unsaved_def)
  have no: "w_lock ?w \<notin> w_lock ` set (drop (Suc k) (w_set l))" by (rule last_entry [OF ws k])
  then have h': "held ?l = held l - {w_lock ?w}" using held drop_entry [OF k(1)] by (auto simp: held_def)
  have L: "w_lock ?w \<in> held l" using held drop_entry [OF k(1)] by simp
  then obtain k0 where "locks g (w_lock ?w) = Owned i k0" using held_facts [OF inv] l_def by metis
  then have base: "base g T (w_lock ?w) = t" using wr by (simp add: base_def l_def)
  have m: "mem g a = now g a" if "LOCK_IDX a = w_lock ?w" for a
  proof -
    have "mem g a = now g a \<or> (\<exists>w\<in>unsaved l. w_addr w = a \<and> w_mask w \<noteq> 0)" using wo wr that L by (simp add: writing_ok_def)
    moreover have "w_addr w \<noteq> a" if "w \<in> unsaved l" for w
    proof -
      have "w_lock w = LOCK_IDX (w_addr w)" using that un by (intro ws_ok_lock [OF ws]) (auto dest: in_set_dropD)
      moreover have "w_lock w \<noteq> w_lock ?w" using no that un by (metis image_eqI)
      ultimately show ?thesis using \<open>LOCK_IDX a = w_lock ?w\<close> by auto
    qed
    ultimately show ?thesis by blast
  qed
  have "writing_ok g ?l" using wo wr st' h' unfolding writing_ok_def by auto
  then have tx': "tx_ok g T ?l" using ws nr by (simp add: tx_ok_def nested_def live_def pc_ok_def)
  have "stm_inv (g\<lparr>locks := (locks g)(w_lock ?w := Version t)\<rparr>) (T(i := ?l))"
    using m st' wr by (intro release_inv [OF inv l_def [symmetric] st L base _ tx' st'(1) h' _ st'(3)]) simp_all
  moreover have "g' = g\<lparr>locks := (locks g)(w_lock ?w := Version t)\<rparr>" "l' = ?l"
    using step pc by (auto simp: stm_wbetl_commit_def l_def)
  ultimately show ?thesis by simp
qed

lemma wbetl_commit_inv:
  assumes inv: "stm_inv g T" and step: "stm_wbetl_commit i g (T i) = Some (g', l')"
  shows "stm_inv g' (T(i := l'))"
proof (cases "pc (T i)")
  case C_clock
  then show ?thesis using clock_inv [OF inv _ step] by simp
next
  case (C_store t k)
  then show ?thesis using store_inv [OF inv _ step] by simp
next
  case (C_release t k)
  then show ?thesis using release_store_inv [OF inv _ step] by simp
next
  case (C_valid t k)
  define l where "l = T i"
  have tx: "tx_ok g T l" using inv by (auto simp: stm_inv_def l_def)
  have pc: "pc l = C_valid t k" using C_valid by (simp add: l_def)
  have live: "live l" and st: "stamp l = Some t" using pc by (simp_all add: live_def stamp_def)
  have so: "t \<le> clock g" "start l < t" "tx_end l < t" using inv st unfolding stm_inv_def stamps_ok_def stamp_ok_def l_def by metis+
  have ro: "\<not> read_only (attr l)" "entries_stable g T l k (t - 1)" using tx pc by (simp_all add: tx_ok_def pc_ok_def)
  show ?thesis
  proof (cases "length (r_set l) \<le> k")
    case True
    then have "g' = g\<lparr>decided := (decided g)(t \<mapsto> (start l, trace l))\<rparr>" "l' = l\<lparr>pc := C_store t 0\<rparr>"
      using step pc by (auto simp: stm_wbetl_commit_def l_def)
    then show ?thesis using decide_inv [OF inv l_def [symmetric] pc True] by simp
  next
    case False
    have "calm g T l (l\<lparr>pc := C_valid t (k + 1)\<rparr>)" if "entry_valid i g l (r_set l ! k)"
    proof -
      have "entries_stable g T l (k + 1) (t - 1)"
        using False so st by (intro entry_stable [OF inv l_def [symmetric] live ro(1) _ that _ _ _ ro(2)]) simp_all
      then show ?thesis using ro st pc
        by (intro calm_pc tx live) (simp_all add: live_def nested_def pc_ok_def stamp_def entries_stable_def)
    qed
    then have "g' = g \<and> calm g T l l'" using step pc False calm_rollback [OF tx live]
      by (auto simp: stm_wbetl_commit_def simp flip: l_def split: if_splits)
    then show ?thesis using calm_inv [OF inv] by (simp add: l_def)
  qed
qed (use step in \<open>simp_all add: stm_wbetl_commit_def\<close>)

subsection \<open>Every reachable state\<close>

lemma step_inv:
  assumes inv: "stm_inv g T" and p: "proper r (T i)" and step: "etl_step i r g (T i) = Some (g', l')"
  shows "stm_inv g' (T(i := l'))"
proof -
  define l where "l = T i"
  have tx: "tx_ok g T l" using inv by (auto simp: stm_inv_def l_def)
  show ?thesis
  proof (cases "pc l = Idle \<or> pc l = Active")
    case False
    then consider "int_stm_prepare g l = Some (g', l')" "pc l = Prepare" | "stm_wbetl_extend i g l = Some (g', l')"
      | "stm_wbetl_read_invisible i g l = Some (g', l')" | "stm_wbetl_write i g l = Some (g', l')"
      | "stm_wbetl_commit i g l = Some (g', l')" | "stm_wbetl_rollback g l = Some (g', l')"
      using step by (cases "pc l") (auto simp: etl_step_def simp flip: l_def)
    then show ?thesis unfolding l_def
      by cases (auto intro: prepare_inv [OF inv] extend_inv [OF inv] read_inv [OF inv] write_inv [OF inv] wbetl_commit_inv [OF inv] rollback_inv [OF inv])
  next
    case True
    show ?thesis
    proof (cases "\<exists>at. r = Start at")
      case True
      then obtain at where r: "r = Start at" by blast
      then have "int_stm_start at g (T i) = Some (g', l')" "\<not> no_retry at"
        using step p \<open>pc l = Idle \<or> pc l = Active\<close> by (auto simp: etl_step_def stm_request_def proper_def l_def)
      then show ?thesis using True start_inv [OF inv _ _ ] \<open>pc l = Idle \<or> pc l = Active\<close> by (auto simp: l_def)
    next
      case False
      then have pc: "pc l = Active" using step True by (auto simp: etl_step_def l_def split: stm_request.splits)
      then have req: "stm_request r g l = Some (g', l')" using step by (simp add: etl_step_def l_def)
      have live: "live l" and n: "0 < nesting l" using pc tx by (auto simp: live_def tx_ok_def nested_def)
      show ?thesis
      proof (cases "r = Commit")
        case True
        then show ?thesis using req pc commit_inv [OF inv, of i] by (simp add: stm_request_def l_def)
      next
        case noC: False
        have "calm g T l (l\<lparr>pc := R_lock a\<rparr>)" for a
          using n by (intro calm_pc tx live) (simp_all add: live_def nested_def pc_ok_def stamp_def)
        moreover have "calm g T l (l\<lparr>pc := W_lock a v m\<rparr>)" if "\<not> read_only (attr l)" for a v m
          using n that by (intro calm_pc tx live) (simp_all add: live_def nested_def pc_ok_def stamp_def)
        ultimately have "g' = g \<and> calm g T l l'"
          using req p False noC calm_rollback [OF tx live] by (cases r) (auto simp: stm_request_def proper_def l_def)
        then show ?thesis using calm_inv [OF inv] by (simp add: l_def)
      qed
    qed
  qed
qed

lemma begin_inv: "stm_inv (stm_init m) (\<lambda>_. int_stm_init_thread sz)"
  by (simp add: stm_inv_def stm_init_def int_stm_init_thread_def locks_ok_def known_def stamps_ok_def stamp_ok_def history_ok_def pc_simps
    held_def stamp_def base_def writers_def settled_def now_def as_of_def)

lemma reach_inv:
  assumes "(stm_sys n)\<^sup>*\<^sup>* (stm_begin m sz) s"
  shows "stm_inv (fst s) (snd s)"
proof (rule run_invariant [OF assms])
  show "stm_inv (fst (stm_begin m sz)) (snd (stm_begin m sz))" by (simp add: stm_begin_def begin_inv)
  show "stm_inv (fst v) (snd v)" if "stm_inv (fst u) (snd u)" "stm_sys n u v" for u v
    using that(2,1) by cases (auto intro: step_inv)
qed

end
