(* ===== verification/STM_Runs.thy ===== *)
theory STM_Runs
  imports STM_Serial
begin

section \<open>Runs of transactions\<close>

text \<open>
  Runs of \<open>STM_ETL\<close> with two threads, evaluated step by step. Where a thread is not in the code of the program, the request is not
  looked at, and \<open>Commit\<close> stands for any. The words at 0, 32 and 40 are called x, y and z; y and z
  have the same lock.
\<close>

lemma VERSION_MAX: "VERSION_MAX = 2 ^ 60 - 8193"
  by (simp add: VERSION_MAX_def LOCK_BITS_def OWNED_BITS_def INCARNATION_BITS_def MAX_THREADS_def mask_eq_exp_minus_1)

lemma LOCK_IDX_values [simp]: "LOCK_IDX 0 = 0" "LOCK_IDX 32 = 1" "LOCK_IDX 40 = 1"
  by (simp_all add: LOCK_IDX_def LOCK_SHIFT_def LOCK_ARRAY_LOG_SIZE_def)

definition rw :: stm_tx_attr where
  "rw = \<lparr>read_only = False, no_retry = False\<rparr>"

lemmas run_simps = stm_code stm_begin_def stm_init_def int_stm_init_thread_def VERSION_MAX rw_def
  loaded_def add_read_def resume_def rollback_def put_value_def fill_def read_locked_def new_entry_def own_def walk.simps committed_def
  entry_valid_def has_read_def merge_def stm_rollback_def Let_def

subsection \<open>Runs are reachable\<close>

lemma attr_parts:
  "attr (resume l) = attr l" "attr (put_value k a v m old l) = attr l" "attr (loaded a x l) = attr l" "attr (add_read L ver l) = attr l"
  "attr (rollback r l) = attr l" "attr (fill k a v m l) = attr l" "attr (read_locked i a lw l) = attr l" "attr (committed l) = attr l"
  "attr (stm_rollback r l) = attr l"
  by (simp_all add: resume_def put_value_def loaded_def add_read_def rollback_def fill_def read_locked_def committed_def stm_rollback_def
      Let_def split: lock.splits prod.splits abort.splits)

lemma step_attr:
  assumes "etl_step i r g l = Some (g', l')"
  shows "attr l' = attr l \<or> r = Start (attr l')"
  using assms by (cases "pc l") (auto simp: stm_code Let_def attr_parts split: stm_request.splits if_splits lock.splits prod.splits)

definition plain :: "nat \<Rightarrow> tid \<times> stm_request \<Rightarrow> bool" where
  "plain n x \<longleftrightarrow> fst x < n \<and> (case snd x of Start at \<Rightarrow> \<not> no_retry at \<and> \<not> read_only at | _ \<Rightarrow> True)"

lemma run_reach:
  assumes "list_all (plain n) rs" "\<forall>j. \<not> read_only (attr (snd s j))"
  shows "(stm_sys n)\<^sup>*\<^sup>* s (stm_run rs s)"
  using assms
proof (induction rs arbitrary: s)
  case (Cons x rs)
  obtain i r where x: "x = (i, r)" by (cases x)
  have i: "i < n" and r: "\<And>at. r = Start at \<Longrightarrow> \<not> no_retry at \<and> \<not> read_only at" using Cons.prems(1) by (auto simp: plain_def x)
  show ?case
  proof (cases "etl_step i r (fst s) (snd s i)")
    case None
    then show ?thesis using Cons by (simp add: x)
  next
    case (Some p)
    obtain g l where p: "p = (g, l)" by (cases p)
    have "proper r (snd s i)" using r Cons.prems(2) by (auto simp: proper_def split: stm_request.splits)
    then have "stm_sys n (fst s, snd s) (g, (snd s)(i := l))" using i Some p by (intro stm_sys.intros) simp_all
    moreover have "\<not> read_only (attr l)" using step_attr [of i r "fst s" "snd s i" g l] Some p r Cons.prems(2) by metis
    then have "(stm_sys n)\<^sup>*\<^sup>* (g, (snd s)(i := l)) (stm_run rs (g, (snd s)(i := l)))" using Cons.prems by (intro Cons.IH) simp_all
    ultimately show ?thesis using Some p by (simp add: x converse_rtranclp_into_rtranclp)
  qed
qed simp

lemma run_begin: "list_all (plain n) rs \<Longrightarrow> (stm_sys n)\<^sup>*\<^sup>* (stm_begin m sz) (stm_run rs (stm_begin m sz))"
  by (rule run_reach) (simp_all add: stm_begin_def int_stm_init_thread_def)

subsection \<open>A load that fits to nothing read before\<close>

text \<open>Thread 0 reads x, thread 1 writes x and z and commits, thread 0 writes y, whose lock is new to it, and reads z.\<close>

definition read_x :: "(tid \<times> stm_request) list" where
  "read_x = [(0, Start rw), (0, Commit), (0, Load 0), (0, Commit), (0, Commit), (0, Commit)]"

definition zombie_run :: "(tid \<times> stm_request) list" where
  "zombie_run = read_x @
     [(1, Start rw), (1, Commit), (1, Store2 0 1 (NOT 0)), (1, Commit), (1, Commit), (1, Store2 40 1 (NOT 0)), (1, Commit), (1, Commit)] @
     [(1, Commit), (1, Commit), (1, Commit), (1, Commit), (1, Commit), (1, Commit), (1, Commit), (1, Commit)] @
     [(0, Store2 32 5 (NOT 0)), (0, Commit), (0, Commit), (0, Load 40), (0, Commit), (0, Commit)]"

lemma run_read_x:
  "let s = stm_run read_x (stm_begin (\<lambda>_. 0) 4096) in pc (snd s 0) = Active \<and> trace (snd s 0) = [Rd 0 0] \<and> w_set (snd s 0) = []"
  by (simp add: read_x_def run_simps)

lemma run_zombie:
  "let s = stm_run zombie_run (stm_begin (\<lambda>_. 0) 4096) in pc (snd s 0) = Active \<and> trace (snd s 0) = [Rd 0 0, Wr 32 5 (NOT 0), Rd 40 1] \<and>
    decided (fst s) = [1 \<mapsto> (0, [Wr 0 1 (NOT 0), Wr 40 1 (NOT 0)])] \<and> initial (fst s) = (\<lambda>_. 0)"
  by (simp add: zombie_run_def read_x_def run_simps)

text \<open>Thread 0 writes y and z.\<close>

definition write_y_z :: "(tid \<times> stm_request) list" where
  "write_y_z = [(0, Start rw), (0, Commit), (0, Store2 32 5 (NOT 0)), (0, Commit), (0, Commit), (0, Store2 40 6 (NOT 0)), (0, Commit)]"

lemma run_write_y_z:
  "let s = stm_run write_y_z (stm_begin (\<lambda>_. 0) 4096) in trace (snd s 0) = [Wr 32 5 (NOT 0), Wr 40 6 (NOT 0)] \<and>
    stm_wbetl_RaW 0 (fst s) (snd s 0) 40 = Some 5"
  by (simp add: write_y_z_def run_simps stm_wbetl_RaW_def)

subsection \<open>Transactions that are not retried, and stores in a read-only transaction\<close>

definition nr :: stm_tx_attr where
  "nr = \<lparr>read_only = False, no_retry = True\<rparr>"

definition ro :: stm_tx_attr where
  "ro = \<lparr>read_only = True, no_retry = False\<rparr>"

text \<open>Thread 0 reads x, thread 1 writes x and commits, thread 0 writes y and commits.\<close>

definition lost_run :: "(tid \<times> stm_request) list" where
  "lost_run = [(0, Start nr), (0, Commit), (0, Load 0), (0, Commit), (0, Commit), (0, Commit),
     (1, Start rw), (1, Commit), (1, Store2 0 1 (NOT 0)), (1, Commit), (1, Commit), (1, Commit), (1, Commit), (1, Commit), (1, Commit), (1, Commit), (1, Commit),
     (0, Store2 32 5 (NOT 0)), (0, Commit), (0, Commit), (0, Commit), (0, Commit), (0, Commit), (0, Commit), (0, Commit)]"

lemma run_lost:
  "let s = stm_run lost_run (stm_begin (\<lambda>_. 0) 4096); l = snd s 0 in
    pc l = Idle \<and> status l = TX_COMMITTED \<and> result l = 1 \<and> trace l = [Rd 0 0, Wr 32 5 (NOT 0)] \<and>
    mem (fst s) 32 = 0 \<and> locks (fst s) 1 = Version 0 \<and> decided (fst s) = [1 \<mapsto> (0, [Wr 0 1 (NOT 0)])] \<and> readers (fst s) = []"
  by (simp add: lost_run_def run_simps nr_def)

text \<open>Thread 0 writes x and y with room for one entry.\<close>

definition leak_run :: "(tid \<times> stm_request) list" where
  "leak_run = [(0, Start nr), (0, Commit), (0, Store2 0 1 (NOT 0)), (0, Commit), (0, Commit), (0, Store2 32 5 (NOT 0)), (0, Commit), (0, Commit), (0, Commit), (0, Commit)]"

lemma run_leak:
  "let s = stm_run leak_run (stm_begin (\<lambda>_. 0) 1) in
    pc (snd s 0) = Idle \<and> status (snd s 0) = TX_ABORTED \<and> locks (fst s) 1 = Owned 0 1"
  by (simp add: leak_run_def run_simps nr_def)

text \<open>Thread 0, read-only, reads x; thread 1 reads y, writes x and commits; thread 0 writes y and commits.\<close>

definition skew_run :: "(tid \<times> stm_request) list" where
  "skew_run = [(0, Start ro), (0, Commit), (0, Load 0), (0, Commit), (0, Commit), (0, Commit),
     (1, Start rw), (1, Commit), (1, Load 32), (1, Commit), (1, Commit), (1, Commit), (1, Store2 0 1 (NOT 0)), (1, Commit), (1, Commit), (1, Commit), (1, Commit), (1, Commit), (1, Commit), (1, Commit), (1, Commit), (1, Commit),
     (0, Store2 32 1 (NOT 0)), (0, Commit), (0, Commit), (0, Commit), (0, Commit), (0, Commit), (0, Commit), (0, Commit), (0, Commit), (0, Commit)]"

lemma run_skew:
  "let s = stm_run skew_run (stm_begin (\<lambda>_. 0) 4096) in
    status (snd s 0) = TX_COMMITTED \<and> trace (snd s 0) = [Rd 0 0, Wr 32 1 (NOT 0)] \<and>
    status (snd s 1) = TX_COMMITTED \<and> trace (snd s 1) = [Rd 32 0, Wr 0 1 (NOT 0)] \<and>
    decided (fst s) 1 = Some (0, trace (snd s 1)) \<and> decided (fst s) 2 = Some (0, trace (snd s 0))"
  by (simp add: skew_run_def run_simps ro_def)

end
