(* ===== verification/STM_Results.thy ===== *)
theory STM_Results
  imports STM_Runs
begin

section \<open>What tinySTM guarantees, and what it does not\<close>

text \<open>
  The theorems on the transactions of \<open>STM_ETL\<close>, from the invariant of \<open>STM_Serial\<close>: committed
  transactions are serializable, what a running transaction has read is a snapshot until it takes its first lock, times fit into the words of the locks; and
  runs in which promises of \<open>stm.h\<close> are broken, evaluated step by step.
\<close>

subsection \<open>Every committed transaction is in the history\<close>

definition recorded :: "stm_globals \<Rightarrow> stm_tx \<Rightarrow> bool" where
  "recorded g l \<longleftrightarrow> (\<exists>t. decided g t = Some (start l, trace l)) \<or> (start l, tx_end l, trace l) \<in> set (readers g)"

definition outside :: "stm_tx \<Rightarrow> bool" where
  "outside l \<longleftrightarrow> pc l = Idle \<or> pc l = Prepare \<or> pc l = Rollover"

definition status_ok :: "stm_globals \<Rightarrow> stm_tx \<Rightarrow> bool" where
  "status_ok g l \<longleftrightarrow> (if outside l then status l = TX_COMMITTED \<longrightarrow> recorded g l else status l = TX_ACTIVE) \<and>
     (\<forall>t. writes_at l = Some t \<longrightarrow> decided g t = Some (start l, trace l))"

lemma status_mono:
  assumes "status_ok g l" "\<And>t c. decided g t = Some c \<Longrightarrow> decided g' t = Some c" "set (readers g) \<subseteq> set (readers g')"
  shows "status_ok g' l"
  using assms unfolding status_ok_def recorded_def by (metis subsetD)

lemma step_history:
  assumes inv: "stm_inv g T" and step: "etl_step i r g (T i) = Some (g', l')"
  shows "decided g t = Some c \<Longrightarrow> decided g' t = Some c" and "set (readers g) \<subseteq> set (readers g')"
proof -
  have "decided g' u = decided g u \<or> stamp (T i) = Some u" for u
    using step by (cases "pc (T i)") (auto simp: stm_code Let_def stamp_def split: stm_request.splits if_splits)
  moreover have "stamp (T i) = Some u \<Longrightarrow> decided g u = None" for u
    using inv unfolding stm_inv_def stamps_ok_def stamp_ok_def by metis
  ultimately show "decided g t = Some c \<Longrightarrow> decided g' t = Some c" by (metis option.distinct(1))
  show "set (readers g) \<subseteq> set (readers g')"
    using step by (cases "pc (T i)") (auto simp: stm_code Let_def split: stm_request.splits if_splits)
qed

definition busy :: "stm_tx \<Rightarrow> bool" where
  "busy l \<longleftrightarrow> status l = TX_ACTIVE \<and> \<not> outside l \<and> writes_at l = None"

lemma busy_status: "busy l \<Longrightarrow> status_ok g l"
  by (simp add: busy_def status_ok_def)

lemma busy_steps:
  assumes "status l = TX_ACTIVE"
  shows "busy (rollback r l)" and "0 < nesting l \<Longrightarrow> busy (resume l)" and "0 < nesting l \<Longrightarrow> busy (loaded a x l)"
    and "0 < nesting l \<Longrightarrow> busy (put_value k a v m old l)" and "0 < nesting l \<Longrightarrow> busy (fill k a v m l)"
    and "0 < nesting l \<Longrightarrow> busy (read_locked i a lw l)"
proof -
  show "busy (rollback r l)" using assms by (simp add: rollback_def busy_def outside_def writes_at_def)
  show "0 < nesting l \<Longrightarrow> busy (resume l)" using assms by (simp add: resume_def busy_def outside_def writes_at_def)
  show l: "0 < nesting l \<Longrightarrow> busy (loaded a x l)" for x using assms by (simp add: loaded_def resume_def busy_def outside_def writes_at_def)
  show "0 < nesting l \<Longrightarrow> busy (put_value k a v m old l)" using assms by (simp add: put_value_def resume_def busy_def outside_def writes_at_def)
  then show "0 < nesting l \<Longrightarrow> busy (fill k a v m l)" using assms
    by (auto simp: fill_def put_value_def resume_def busy_def outside_def writes_at_def)
  show "0 < nesting l \<Longrightarrow> busy (read_locked i a lw l)" using assms l
    by (auto simp: read_locked_def rollback_def loaded_def resume_def busy_def outside_def writes_at_def split: lock.splits prod.splits)
qed

lemma step_status:
  assumes inv: "stm_inv g T" and step: "etl_step i r g (T i) = Some (g', l')" and ok: "status_ok g (T i)"
  shows "status_ok g' l'"
proof -
  define l where "l = T i"
  have tx: "tx_ok g T l" using inv by (auto simp: stm_inv_def l_def)
  then have n: "nested l" "\<not> no_retry (attr l)" by (simp_all add: tx_ok_def)
  note step = step [folded l_def] and ok = ok [folded l_def]
  have act: "status l = TX_ACTIVE" if "\<not> outside l" using ok that by (simp add: status_ok_def)
  note b = busy_steps [THEN busy_status]
  have simple: "status_ok g (l\<lparr>pc := p\<rparr>)" if "\<not> outside l" "\<not> outside (l\<lparr>pc := p\<rparr>)" "writes_at (l\<lparr>pc := p\<rparr>) = None" for p
    using act that by (intro busy_status) (simp add: busy_def)
  consider "outside l" | "pc l = Active" | "\<exists>a v x. pc l \<in> {R_lock a, R_own a, R_value a v, R_check a v x, R_again a v x}"
    | "\<exists>a v x c k. pc l \<in> {R_extend a v x, R_valid a v x c k}" | "\<exists>a v m k. pc l \<in> {W_lock a v m, W_cas a v m k, W_fill a v m k}"
    | "\<exists>t k. pc l \<in> {C_clock, C_valid t k, C_store t k, C_release t k}" | "\<exists>r k. pc l = K_drop r k" | "pc l = Undefined"
    by (cases "pc l") (auto simp: outside_def)
  then show ?thesis
  proof cases
    case 1
    let ?l = "l\<lparr>r_set := [], w_set := [], start := clock g, tx_end := clock g, status := TX_ACTIVE, pc := Active, seen := [], trace := []\<rparr>"
    have "g' = g \<and> (\<exists>at. l' \<in> {l\<lparr>nesting := nesting l + 1\<rparr>, l\<lparr>nesting := 1, attr := at, pc := Prepare\<rparr>, l\<lparr>pc := Rollover\<rparr>, ?l})"
      using step 1 by (cases r) (auto simp: outside_def etl_step_def int_stm_start_def int_stm_prepare_def split: if_splits)
    moreover have "status l = TX_COMMITTED \<Longrightarrow> recorded g l" using ok 1 by (simp add: status_ok_def)
    moreover have "writes_at l = None" using 1 by (auto simp: outside_def writes_at_def)
    ultimately show ?thesis using 1 by (auto simp: status_ok_def recorded_def outside_def writes_at_def)
  next
    case 2
    then have a: "status l = TX_ACTIVE" using act by (simp add: outside_def)
    show ?thesis using step 2 a by (auto simp: etl_step_def stm_request_def int_stm_start_def int_stm_commit_def Let_def status_ok_def outside_def
        recorded_def writes_at_def rollback_def committed_def split: stm_request.splits if_splits)
  next
    case 3
    then have "\<not> outside l" "0 < nesting l" using n by (auto simp: outside_def nested_def live_def)
    moreover then have "status_ok g (loaded a x (add_read L v l))" for a x L v using act by (intro b(3)) (simp_all add: add_read_def)
    ultimately show ?thesis using step 3 act b [of l] simple
      by (auto simp: etl_step_def stm_wbetl_read_invisible_def outside_def writes_at_def split: if_splits)
  next
    case 4
    then have "\<not> outside l" by (auto simp: outside_def)
    moreover then have "status_ok g (l\<lparr>tx_end := c, pc := R_again a v x\<rparr>)" for c a v x
      using act by (intro busy_status) (simp add: busy_def outside_def writes_at_def)
    ultimately show ?thesis using step 4 act b(1) [of l] simple
      by (auto simp: etl_step_def stm_wbetl_extend_def outside_def writes_at_def split: if_splits)
  next
    case 5
    then have o: "\<not> outside l" "0 < nesting l" using n by (auto simp: outside_def nested_def live_def)
    then have "status_ok g (fill k a v m (l\<lparr>w_set := ws\<rparr>))" "status_ok g (fill k a v m l)" for k a v m ws
      using act by (intro b(5); simp)+
    moreover have "status_ok g (put_value k a v m old l)" "status_ok g (resume l)" "status_ok g (rollback r l)" for k a v m old r
      using act o by (auto intro: b)
    moreover have "status_ok (g\<lparr>locks := x\<rparr>) l = status_ok g l" for x l by (simp add: status_ok_def recorded_def)
    ultimately show ?thesis using step 5 simple [OF o(1)]
      by (auto simp: etl_step_def stm_wbetl_write_def Let_def outside_def writes_at_def split: if_splits lock.splits prod.splits)
  next
    case 6
    then have a: "status l = TX_ACTIVE" using act by (auto simp: outside_def)
    show ?thesis using step 6 a ok by (auto simp: etl_step_def stm_wbetl_commit_def Let_def status_ok_def outside_def
        recorded_def writes_at_def rollback_def committed_def split: if_splits) blast
  next
    case 7
    then have a: "status l = TX_ACTIVE" using act by (auto simp: outside_def)
    show ?thesis using step 7 a n(2) by (auto simp: etl_step_def stm_wbetl_rollback_def Let_def status_ok_def outside_def
        recorded_def writes_at_def stm_rollback_def split: if_splits abort.splits)
  next
    case 8
    then show ?thesis using step by (simp add: etl_step_def)
  qed
qed

lemma reach_status:
  assumes "(stm_sys n)\<^sup>*\<^sup>* (stm_begin m sz) s"
  shows "stm_inv (fst s) (snd s) \<and> (\<forall>j. status_ok (fst s) (snd s j))"
proof (rule run_invariant [OF assms])
  show "stm_inv (fst (stm_begin m sz)) (snd (stm_begin m sz)) \<and> (\<forall>j. status_ok (fst (stm_begin m sz)) (snd (stm_begin m sz) j))"
    by (simp add: stm_begin_def begin_inv) (simp add: int_stm_init_thread_def status_ok_def outside_def writes_at_def)
  fix u v assume inv: "stm_inv (fst u) (snd u) \<and> (\<forall>j. status_ok (fst u) (snd u j))" and "stm_sys n u v"
  from this(2) show "stm_inv (fst v) (snd v) \<and> (\<forall>j. status_ok (fst v) (snd v j))"
  proof cases
    case (1 i r T g g' l')
    have I: "stm_inv g T" "\<And>j. status_ok g (T j)" using inv 1 by simp_all
    have "status_ok g' ((T(i := l')) j)" for j
      using step_status [OF I(1) 1(5) I(2)] status_mono [OF I(2) step_history [OF I(1) 1(5)]] by (cases "j = i") auto
    then show ?thesis using step_inv [OF I(1) 1(4,5)] 1(2) by simp
  qed
qed

subsection \<open>The guarantees\<close>

text \<open>C26: whatever transactions any number of threads run and however their steps interleave, they are serializable, as long
  as the program keeps to the documentation (\<open>proper\<close>). In the order of the times that they took from the clock,
  every update transaction has read what the ones before it left in memory, followed by what it has written itself, and leaves its
  writes; \<open>as_of g t\<close> is the memory after those up to time \<open>t\<close>, beginning with the initial one. A
  transaction that committed without a write has read the memory as of one time. Both times are not earlier than the begin of
  the transaction, and not later than its end. Every transaction whose \<open>stm_commit\<close> has returned is one of these, and
  every word whose lock is free holds the value of the last of them.\<close>

theorem stm_serializable:
  assumes "(stm_sys n)\<^sup>*\<^sup>* (stm_begin m sz) (g, T)"
  shows "as_of g 0 = m \<and>
    (\<forall>t s tr. decided g t = Some (s, tr) \<longrightarrow> s < t \<and> t \<le> clock g \<and> replays tr (as_of g (t - 1)) \<and> as_of g t = effect tr (as_of g (t - 1))) \<and>
    (\<forall>t. decided g (t + 1) = None \<longrightarrow> as_of g (t + 1) = as_of g t) \<and>
    (\<forall>s e tr. (s, e, tr) \<in> set (readers g) \<longrightarrow> s \<le> e \<and> e \<le> clock g \<and> replays tr (as_of g e)) \<and>
    (\<forall>j. pc (T j) = Idle \<and> status (T j) = TX_COMMITTED \<longrightarrow> recorded g (T j)) \<and>
    (\<forall>a v. locks g (LOCK_IDX a) = Version v \<longrightarrow> mem g a = as_of g (clock g) a)"
proof -
  have inv: "stm_inv g T" and st: "status_ok g (T j)" for j using reach_status [OF assms] by simp_all
  have ini: "initial g = m"
  proof -
    have "initial (fst s') = m" if "(stm_sys n)\<^sup>*\<^sup>* (stm_begin m sz) s'" for s'
    proof (rule run_invariant [OF that])
      show "initial (fst (stm_begin m sz)) = m" by (simp add: stm_begin_def stm_init_def)
      fix u v assume "initial (fst u) = m" "stm_sys n u v"
      from this(2,1) show "initial (fst v) = m"
      proof cases
        case (1 i r T g g' l')
        have "initial g' = initial g" using 1(5)
          by (cases "pc (T i)") (auto simp: stm_code Let_def split: stm_request.splits if_splits)
        then show ?thesis using 1 \<open>initial (fst u) = m\<close> by simp
      qed
    qed
    from this [OF assms] show ?thesis by simp
  qed
  have h: "history_ok g T" using inv by (simp add: stm_inv_def)
  have dec: "s < t \<and> t \<le> clock g \<and> replays tr (as_of g (t - 1)) \<and> as_of g t = effect tr (as_of g (t - 1))"
    if d: "decided g t = Some (s, tr)" for t s tr
  proof -
    have "s < t" "t \<le> clock g" "replays tr (as_of g (t - 1))" using h d by (simp_all add: history_ok_def consistent_def)
    moreover obtain t' where "t = Suc t'" using \<open>s < t\<close> by (cases t) auto
    ultimately show ?thesis using d by (simp add: as_of_def)
  qed
  have rd: "s \<le> e \<and> e \<le> clock g \<and> replays tr (as_of g e)" if "(s, e, tr) \<in> set (readers g)" for s e tr
    using h that by (simp add: history_ok_def consistent_def)
  have rc: "recorded g (T j)" if "pc (T j) = Idle" "status (T j) = TX_COMMITTED" for j
    using st [of j] that by (simp add: status_ok_def outside_def)
  have me: "mem g a = as_of g (clock g) a" if "locks g (LOCK_IDX a) = Version v" for a v
    using version_facts(7) [OF inv that] by (simp add: now_def)
  have "as_of g 0 = m" "decided g (t + 1) = None \<Longrightarrow> as_of g (t + 1) = as_of g t" for t using ini by (simp_all add: as_of_def)
  then show ?thesis using dec rd rc me by blast
qed

theorem stm_serializable_witness:
  "\<exists>g T. (stm_sys 2)\<^sup>*\<^sup>* (stm_begin (\<lambda>_. 0) 4096) (g, T) \<and> decided g 1 = Some (0, [Wr 0 1 (NOT 0), Wr 40 1 (NOT 0)]) \<and>
    as_of g 1 = effect [Wr 0 1 (NOT 0), Wr 40 1 (NOT 0)] (as_of g 0) \<and> as_of g 0 = (\<lambda>_. 0)"
proof -
  obtain g T where s: "stm_run zombie_run (stm_begin (\<lambda>_. 0) 4096) = (g, T)" by (cases "stm_run zombie_run (stm_begin (\<lambda>_. 0) 4096)")
  have "list_all (plain 2) zombie_run" by (simp add: zombie_run_def read_x_def plain_def rw_def)
  then have r: "(stm_sys 2)\<^sup>*\<^sup>* (stm_begin (\<lambda>_. 0) 4096) (g, T)" using run_begin [of 2 zombie_run "\<lambda>_. 0" 4096] s by simp
  have d: "decided g 1 = Some (0, [Wr 0 1 (NOT 0), Wr 40 1 (NOT 0)])" using run_zombie s by (simp add: Let_def)
  have e: "as_of g 1 = effect [Wr 0 1 (NOT 0), Wr 40 1 (NOT 0)] (as_of g (1 - 1))" "as_of g 0 = (\<lambda>_. 0)"
    using stm_serializable [OF r] d by blast+
  show ?thesis by (intro exI [of _ g] exI [of _ T] conjI r d) (use e in simp_all)
qed

text \<open>C27: as long as a running transaction has taken no lock, all it has read is the memory as of the end of its
  validity, a time between its begin and now: what \<open>stm.h\<close> promises of \<open>stm_load\<close> holds up to the first
  write. The words under its locks are those of the latest memory, and its write set has for each of its words the
  value that its stores, made one after the other, give there.\<close>

theorem stm_snapshot:
  assumes "(stm_sys n)\<^sup>*\<^sup>* (stm_begin m sz) (g, T)" and "live (T j)"
  shows "start (T j) \<le> tx_end (T j) \<and> tx_end (T j) \<le> clock g \<and>
    (w_set (T j) = [] \<longrightarrow> replays (trace (T j)) (as_of g (tx_end (T j)))) \<and>
    (\<forall>w\<in>set (w_set (T j)). w_mask w \<noteq> 0 \<longrightarrow> w_value w = effect (trace (T j)) (as_of g (clock g)) (w_addr w)) \<and>
    (\<forall>a. LOCK_IDX a \<in> w_lock ` set (w_set (T j)) \<longrightarrow> mem g a = as_of g (clock g) a)"
proof -
  have inv: "stm_inv g T" using reach_inv [OF assms(1)] by simp
  then have tx: "tx_ok g T (T j)" by (simp add: stm_inv_def)
  note ok = live_tx [OF tx assms(2)]
  have "replays (trace (T j)) (as_of g (tx_end (T j)))" if "w_set (T j) = []"
  proof -
    have "fits g (T j) (as_of g (tx_end (T j)))" using that by (simp add: fits_def)
    then show ?thesis using ok(4) by (simp add: trace_ok_def)
  qed
  moreover have "w_value w = effect (trace (T j)) (as_of g (clock g)) (w_addr w)" if "w \<in> set (w_set (T j))" "w_mask w \<noteq> 0" for w
    using savedI [OF that] ok(4) by (auto simp: trace_ok_def now_def)
  moreover have "mem g a = as_of g (clock g) a" if "LOCK_IDX a \<in> w_lock ` set (w_set (T j))" for a
    using own_memory [OF inv, of a j] that live_held [OF assms(2)] live_writing [OF assms(2)] by (simp add: now_def)
  ultimately show ?thesis using ok(3) by (simp add: reads_ok_def)
qed

theorem stm_snapshot_witness:
  "\<exists>g T. (stm_sys 1)\<^sup>*\<^sup>* (stm_begin (\<lambda>_. 0) 4096) (g, T) \<and> trace (T 0) = [Rd 0 0] \<and> as_of g (tx_end (T 0)) 0 = 0"
proof -
  obtain g T where s: "stm_run read_x (stm_begin (\<lambda>_. 0) 4096) = (g, T)" by (cases "stm_run read_x (stm_begin (\<lambda>_. 0) 4096)")
  have "list_all (plain 1) read_x" by (simp add: read_x_def plain_def rw_def)
  then have r: "(stm_sys 1)\<^sup>*\<^sup>* (stm_begin (\<lambda>_. 0) 4096) (g, T)" using run_begin [of 1 read_x "\<lambda>_. 0" 4096] s by simp
  have t: "pc (T 0) = Active" "trace (T 0) = [Rd 0 0]" "w_set (T 0) = []" using run_read_x s by (simp_all add: Let_def)
  then have "live (T 0)" by (simp add: live_def)
  from stm_snapshot [OF r this] t show ?thesis using r by auto
qed

subsection \<open>Times and lock words\<close>

text \<open>A transaction that has not yet taken its time from the clock may still move it by one.\<close>

definition pending :: "stm_tx \<Rightarrow> nat" where
  "pending l = (if live l \<and> stamp l = None then 1 else 0)"

lemma pending_le: "pending l \<le> 1"
  by (simp add: pending_def)

lemma step_pending:
  assumes inv: "stm_inv g T" and step: "etl_step i r g (T i) = Some (g', l')"
  shows "clock g' + pending l' \<le> clock g + pending (T i) \<or> (clock g < VERSION_MAX \<and> clock g' = clock g)"
proof -
  define l where "l = T i"
  have tx: "tx_ok g T l" using inv by (auto simp: stm_inv_def l_def)
  note step = step [folded l_def]
  have one: "?thesis" if "clock g' = clock g" "pending l = 1" using that pending_le [of l'] by (simp add: l_def)
  consider "outside l" | "live l" "stamp l = None" "pc l \<noteq> C_clock" | "\<exists>t k. pc l \<in> {C_clock, C_valid t k, C_store t k, C_release t k}"
    | "\<exists>r k. pc l = K_drop r k" | "pc l = Undefined"
    by (cases "pc l") (auto simp: outside_def live_def stamp_def)
  then show ?thesis
  proof cases
    case 1
    then show ?thesis using step by (cases r) (auto simp: outside_def etl_step_def int_stm_start_def int_stm_prepare_def pending_def live_def
        simp flip: l_def split: if_splits)
  next
    case 2
    have "clock g' = clock g" using step 2(2,3)
      by (cases "pc l") (auto simp: stm_code Let_def stamp_def split: stm_request.splits if_splits)
    then show ?thesis using 2 by (intro one) (simp_all add: pending_def)
  next
    case 3
    then show ?thesis using step by (auto simp: etl_step_def stm_wbetl_commit_def Let_def pending_def live_def stamp_def rollback_def committed_def
        simp flip: l_def split: if_splits)
  next
    case 4
    have "\<not> no_retry (attr l)" using tx by (simp add: tx_ok_def)
    then show ?thesis using step 4 by (auto simp: etl_step_def stm_wbetl_rollback_def Let_def pending_def live_def stm_rollback_def
        simp flip: l_def split: if_splits abort.splits)
  next
    case 5
    then show ?thesis using step by (simp add: etl_step_def)
  qed
qed

lemma clock_bound:
  assumes "(stm_sys n)\<^sup>*\<^sup>* (stm_begin m sz) s"
  shows "stm_inv (fst s) (snd s) \<and> clock (fst s) + (\<Sum>j<n. pending (snd s j)) \<le> VERSION_MAX - 1 + n"
proof (rule run_invariant [OF assms])
  show "stm_inv (fst (stm_begin m sz)) (snd (stm_begin m sz)) \<and>
      clock (fst (stm_begin m sz)) + (\<Sum>j<n. pending (snd (stm_begin m sz) j)) \<le> VERSION_MAX - 1 + n"
    by (simp add: stm_begin_def begin_inv) (simp add: stm_init_def int_stm_init_thread_def pending_def live_def)
  fix u v assume inv: "stm_inv (fst u) (snd u) \<and> clock (fst u) + (\<Sum>j<n. pending (snd u j)) \<le> VERSION_MAX - 1 + n" and "stm_sys n u v"
  from this(2) show "stm_inv (fst v) (snd v) \<and> clock (fst v) + (\<Sum>j<n. pending (snd v j)) \<le> VERSION_MAX - 1 + n"
  proof cases
    case (1 i r T g g' l')
    have I: "stm_inv g T" and b: "clock g + (\<Sum>j<n. pending (T j)) \<le> VERSION_MAX - 1 + n" using inv 1 by simp_all
    have s: "(\<Sum>j<n. pending ((T(i := l')) j)) + pending (T i) = (\<Sum>j<n. pending (T j)) + pending l'" using 1(3) by (rule sum_at)
    have n: "(\<Sum>j<n. pending ((T(i := l')) j)) \<le> n" using sum_bounded_above [of "{..<n}" "\<lambda>j. pending ((T(i := l')) j)" 1] pending_le by simp
    have "clock g' + (\<Sum>j<n. pending ((T(i := l')) j)) \<le> VERSION_MAX - 1 + n"
      using step_pending [OF I 1(5)] s n b by linarith
    then show ?thesis using step_inv [OF I 1(4,5)] 1(2) by simp
  qed
qed

lemma LOCK_BITS: "LOCK_BITS = 4"
  by (simp add: LOCK_BITS_def OWNED_BITS_def INCARNATION_BITS_def)

lemma timestamp_word:
  assumes "v < 2 ^ 60"
  shows "\<not> LOCK_GET_OWNED (LOCK_SET_TIMESTAMP (of_nat v))" and "unat (LOCK_GET_TIMESTAMP (LOCK_SET_TIMESTAMP (of_nat v))) = v"
proof -
  have "\<not> bit (push_bit 4 (of_nat v :: stm_word)) 0" by (simp add: bit_simps)
  then show "\<not> LOCK_GET_OWNED (LOCK_SET_TIMESTAMP (of_nat v))"
    by (simp add: LOCK_GET_OWNED_def LOCK_SET_TIMESTAMP_def WRITE_MASK_def LOCK_BITS and_one_eq even_iff_mod_2_eq_zero [symmetric])
  have v: "unat (of_nat v :: stm_word) = v" using assms by (simp add: unsigned_of_nat take_bit_nat_eq_self)
  then have "unat (of_nat v :: stm_word) * unat (16 :: stm_word) < 2 ^ LENGTH(64)" using assms by simp
  then have "unat ((of_nat v :: stm_word) * 16) = v * 16" using v by (simp only: unat_mult_lem [THEN iffD1]) simp
  then have "unat (push_bit 4 (of_nat v :: stm_word)) = v * 16" by (simp add: push_bit_eq_mult)
  then show "unat (LOCK_GET_TIMESTAMP (LOCK_SET_TIMESTAMP (of_nat v))) = v"
    by (simp add: LOCK_GET_TIMESTAMP_def LOCK_SET_TIMESTAMP_def LOCK_BITS unsigned_drop_bit_eq drop_bit_eq_div unat_div)
qed

lemma address_word:
  assumes "a AND WRITE_MASK = 0"
  shows "LOCK_GET_OWNED (LOCK_SET_ADDR_WRITE a)" and "LOCK_GET_ADDR (LOCK_SET_ADDR_WRITE a) = a"
proof -
  have a0: "\<not> bit a 0" using assms by (simp add: WRITE_MASK_def and_one_eq bit_0 odd_iff_mod_2_eq_one)
  have "(a OR 1) AND 1 = 1" by (rule bit_eqI) (auto simp: bit_simps bit_1_iff)
  then show "LOCK_GET_OWNED (LOCK_SET_ADDR_WRITE a)" by (simp add: LOCK_GET_OWNED_def LOCK_SET_ADDR_WRITE_def WRITE_MASK_def)
  show "LOCK_GET_ADDR (LOCK_SET_ADDR_WRITE a) = a"
    unfolding LOCK_GET_ADDR_def LOCK_SET_ADDR_WRITE_def WRITE_MASK_def
    by (rule bit_eqI) (use a0 in \<open>auto simp: bit_simps bit_1_iff intro!: gr0I\<close>)
qed

text \<open>C37: the words of the locks. With at most \<open>MAX_THREADS\<close> threads the clock stays below \<open>2 ^ 60\<close>, although it can pass
  \<open>VERSION_MAX\<close>, so that a time fits beside the four low bits of a lock. Provided the entries of write sets have
  even addresses and different threads have different entries, a lock word says whether the lock is owned and its time if not; its
  address is one of the entries of a thread exactly if that thread has the lock; and a comparison with a word loaded
  before, unowned, is one of the locks.\<close>

theorem stm_lock_words:
  assumes "(stm_sys n)\<^sup>*\<^sup>* (stm_begin m sz) (g, T)" and "n \<le> MAX_THREADS"
    and "\<And>j k. entry j k AND WRITE_MASK = 0"
    and "\<And>j k j' k'. k < length (w_set (T j)) \<Longrightarrow> k' < length (w_set (T j')) \<Longrightarrow> entry j k = entry j' k' \<Longrightarrow> j = j'"
  shows "clock g < 2 ^ 60 \<and>
    (\<forall>L v. locks g L = Version v \<longrightarrow> v \<le> clock g \<and> \<not> LOCK_GET_OWNED (lock_word entry (locks g L)) \<and>
      unat (LOCK_GET_TIMESTAMP (lock_word entry (locks g L))) = v) \<and>
    (\<forall>L j k. locks g L = Owned j k \<longrightarrow> LOCK_GET_OWNED (lock_word entry (locks g L)) \<and>
      (\<forall>i. (\<exists>k'<length (w_set (T i)). LOCK_GET_ADDR (lock_word entry (locks g L)) = entry i k') \<longleftrightarrow> i = j)) \<and>
    (\<forall>L v. v \<le> clock g \<longrightarrow> (lock_word entry (locks g L) = lock_word entry (Version v) \<longleftrightarrow> locks g L = Version v))"
proof -
  have inv: "stm_inv g T" and b: "clock g + (\<Sum>j<n. pending (T j)) \<le> VERSION_MAX - 1 + n" using clock_bound [OF assms(1)] by simp_all
  then have c: "clock g < 2 ^ 60" using assms(2) by (simp add: VERSION_MAX MAX_THREADS_def)
  have v: "v \<le> clock g" if "locks g L = Version v" for L v by (rule version_facts(5) [OF inv that])
  have same: "v = u" if "lock_word entry (Version v) = lock_word entry (Version u)" "v \<le> clock g" "u \<le> clock g" for v u
  proof -
    have "LOCK_SET_TIMESTAMP (of_nat v) = LOCK_SET_TIMESTAMP (of_nat u)" using that(1) by (simp only: lock_word.simps)
    moreover have "v < 2 ^ 60" "u < 2 ^ 60" using that(2,3) c by (meson le_less_trans)+
    ultimately show ?thesis using timestamp_word(2) by metis
  qed
  have other: "lock_word entry (Owned j k) \<noteq> lock_word entry (Version u)" if "u \<le> clock g" for j k u
  proof
    assume e: "lock_word entry (Owned j k) = lock_word entry (Version u)"
    have "LOCK_GET_OWNED (lock_word entry (Owned j k))" using address_word(1) [OF assms(3)] by simp
    moreover have "\<not> LOCK_GET_OWNED (lock_word entry (Version u))" using timestamp_word(1) [of u] le_less_trans [OF that c] by simp
    ultimately show False unfolding e by simp
  qed
  have cmp: "lock_word entry (locks g L) = lock_word entry (Version u) \<longleftrightarrow> locks g L = Version u" if u: "u \<le> clock g" for L u
  proof (cases "locks g L")
    case (Version w)
    then show ?thesis using same [of w u] v [OF Version] u by auto
  next
    case (Owned j k)
    then show ?thesis using other [OF u, of j k] by simp
  qed
  have ver: "\<not> LOCK_GET_OWNED (lock_word entry (locks g L)) \<and> unat (LOCK_GET_TIMESTAMP (lock_word entry (locks g L))) = u"
    if "locks g L = Version u" for L u
    using timestamp_word [of u] le_less_trans [OF v [OF that] c] that by simp
  have own: "LOCK_GET_OWNED (lock_word entry (locks g L)) \<and>
      (\<forall>i. (\<exists>k'<length (w_set (T i)). LOCK_GET_ADDR (lock_word entry (locks g L)) = entry i k') \<longleftrightarrow> i = j)" if o: "locks g L = Owned j k" for L j k
  proof -
    have k: "k < length (w_set (T j))" using owned_facts [OF inv o] by (simp add: owner_def)
    have w: "LOCK_GET_OWNED (lock_word entry (locks g L))" "LOCK_GET_ADDR (lock_word entry (locks g L)) = entry j k"
      using address_word [OF assms(3)] o by simp_all
    then show ?thesis using assms(4) k by metis
  qed
  show ?thesis using c v cmp ver own by blast
qed

theorem stm_lock_words_witness:
  "clock (stm_init (\<lambda>_. 7)) < 2 ^ 60 \<and> unat (LOCK_GET_TIMESTAMP (lock_word (\<lambda>j k. push_bit 6 (of_nat k)) (locks (stm_init (\<lambda>_. 7)) 3))) = 0"
proof -
  have even: "push_bit 6 (of_nat k) AND WRITE_MASK = 0" for k
    by (rule bit_eqI) (auto simp: bit_simps bit_1_iff WRITE_MASK_def)
  have start: "(stm_sys 2)\<^sup>*\<^sup>* (stm_begin (\<lambda>_. 7) 4096) (stm_init (\<lambda>_. 7), \<lambda>_. int_stm_init_thread 4096)" by (simp add: stm_begin_def)
  have "(2::nat) \<le> MAX_THREADS" by (simp add: MAX_THREADS_def)
  from stm_lock_words [OF start this, of "\<lambda>j k. push_bit 6 (of_nat k)", OF even] show ?thesis
    by (auto simp: int_stm_init_thread_def stm_init_def)
qed

subsection \<open>Where the documentation is not kept\<close>

lemma one_commit:
  assumes "decided g = [1 \<mapsto> (s, tr)]" "initial g = m"
  shows "as_of g e = (if e = 0 then m else effect tr m)"
  by (induction e) (auto simp: as_of_def assms)

text \<open>C38: \<open>stm.h\<close> says of \<open>stm_load\<close> that the value returned is consistent with respect to previous reads
  from the same transaction. It is not, once the transaction has a lock that it took at a later version than the end of its
  validity: \<open>stm_wbetl_write\<close> accepts the lock if nothing under it was read, and loads of other words under
  it skip the test of the version. Here the transaction is still running after it has read x before and z after the one
  transaction that wrote both; no memory ever held these values. And the load for a word already written,
  \<open>stm_wbetl_RaW\<close>, returns the value of the first entry under the lock, which may be that of another word.\<close>

theorem stm_load_not_consistent:
  "(\<exists>g T. (stm_sys 2)\<^sup>*\<^sup>* (stm_begin (\<lambda>_. 0) 4096) (g, T) \<and> pc (T 0) = Active \<and>
      trace (T 0) = [Rd 0 0, Wr 32 5 (NOT 0), Rd 40 1] \<and> (\<forall>e. \<not> (as_of g e 0 = 0 \<and> as_of g e 40 = 1))) \<and>
   (\<exists>g T. (stm_sys 2)\<^sup>*\<^sup>* (stm_begin (\<lambda>_. 0) 4096) (g, T) \<and>
      trace (T 0) = [Wr 32 5 (NOT 0), Wr 40 6 (NOT 0)] \<and> stm_wbetl_RaW 0 g (T 0) 40 = Some 5)"
proof (intro conjI)
  obtain g T where s: "stm_run zombie_run (stm_begin (\<lambda>_. 0) 4096) = (g, T)" by (cases "stm_run zombie_run (stm_begin (\<lambda>_. 0) 4096)")
  have "list_all (plain 2) zombie_run" by (simp add: zombie_run_def read_x_def plain_def rw_def)
  then have r: "(stm_sys 2)\<^sup>*\<^sup>* (stm_begin (\<lambda>_. 0) 4096) (g, T)" using run_begin [of 2 zombie_run "\<lambda>_. 0" 4096] s by simp
  have z: "pc (T 0) = Active" "trace (T 0) = [Rd 0 0, Wr 32 5 (NOT 0), Rd 40 1]"
      "decided g = [1 \<mapsto> (0, [Wr 0 1 (NOT 0), Wr 40 1 (NOT 0)])]" "initial g = (\<lambda>_. 0)"
    using run_zombie s by (simp_all add: Let_def)
  have "\<not> (as_of g e 0 = 0 \<and> as_of g e 40 = 1)" for e using one_commit [OF z(3,4), of e] by (auto simp: merge_def)
  then show "\<exists>g T. (stm_sys 2)\<^sup>*\<^sup>* (stm_begin (\<lambda>_. 0) 4096) (g, T) \<and> pc (T 0) = Active \<and>
      trace (T 0) = [Rd 0 0, Wr 32 5 (NOT 0), Rd 40 1] \<and> (\<forall>e. \<not> (as_of g e 0 = 0 \<and> as_of g e 40 = 1))"
    using r z(1,2) by blast
next
  obtain g T where s: "stm_run write_y_z (stm_begin (\<lambda>_. 0) 4096) = (g, T)" by (cases "stm_run write_y_z (stm_begin (\<lambda>_. 0) 4096)")
  have "list_all (plain 2) write_y_z" by (simp add: write_y_z_def plain_def rw_def)
  then have "(stm_sys 2)\<^sup>*\<^sup>* (stm_begin (\<lambda>_. 0) 4096) (g, T)" using run_begin [of 2 write_y_z "\<lambda>_. 0" 4096] s by simp
  then show "\<exists>g T. (stm_sys 2)\<^sup>*\<^sup>* (stm_begin (\<lambda>_. 0) 4096) (g, T) \<and>
      trace (T 0) = [Wr 32 5 (NOT 0), Wr 40 6 (NOT 0)] \<and> stm_wbetl_RaW 0 g (T 0) 40 = Some 5"
    using run_write_y_z s by (auto simp: Let_def)
qed

text \<open>C39: three uses that \<open>proper\<close> excludes, the first two of which \<open>stm.h\<close> allows. With \<open>no_retry\<close>, a commit whose validation fails
  drops the transaction, and \<open>stm_commit\<close> returns 1 as if it were committed, since \<open>int_stm_commit\<close> does not look at
  what \<open>stm_wbetl_commit\<close> returns: the store is lost. With \<open>no_retry\<close>, a store for which the write set has no room rolls back and then
  goes on: it takes a lock that the aborted transaction never gives back. And a store in a transaction with the attribute
  \<open>read_only\<close>, which \<open>stm.h\<close> says restarts it as an update transaction, is simply made: the commit has no
  reads to validate, and two transactions commit neither of which can have come before the other.\<close>

theorem no_retry_and_read_only_unsafe:
  "(let s = stm_run lost_run (stm_begin (\<lambda>_. 0) 4096); l = snd s 0 in
     pc l = Idle \<and> status l = TX_COMMITTED \<and> result l = 1 \<and> trace l = [Rd 0 0, Wr 32 5 (NOT 0)] \<and>
     mem (fst s) 32 = 0 \<and> locks (fst s) 1 = Version 0 \<and> \<not> recorded (fst s) l) \<and>
   (let s = stm_run leak_run (stm_begin (\<lambda>_. 0) 1) in
     pc (snd s 0) = Idle \<and> status (snd s 0) = TX_ABORTED \<and> locks (fst s) 1 = Owned 0 1) \<and>
   (let s = stm_run skew_run (stm_begin (\<lambda>_. 0) 4096); tr = trace (snd s 0); tr' = trace (snd s 1) in
     status (snd s 0) = TX_COMMITTED \<and> status (snd s 1) = TX_COMMITTED \<and>
     \<not> replays (tr @ tr') (\<lambda>_. 0) \<and> \<not> replays (tr' @ tr) (\<lambda>_. 0))"
proof (intro conjI)
  show "let s = stm_run lost_run (stm_begin (\<lambda>_. 0) 4096); l = snd s 0 in
     pc l = Idle \<and> status l = TX_COMMITTED \<and> result l = 1 \<and> trace l = [Rd 0 0, Wr 32 5 (NOT 0)] \<and>
     mem (fst s) 32 = 0 \<and> locks (fst s) 1 = Version 0 \<and> \<not> recorded (fst s) l"
    using run_lost by (auto simp: Let_def recorded_def)
  show "let s = stm_run leak_run (stm_begin (\<lambda>_. 0) 1) in
     pc (snd s 0) = Idle \<and> status (snd s 0) = TX_ABORTED \<and> locks (fst s) 1 = Owned 0 1" by (rule run_leak)
  show "let s = stm_run skew_run (stm_begin (\<lambda>_. 0) 4096); tr = trace (snd s 0); tr' = trace (snd s 1) in
     status (snd s 0) = TX_COMMITTED \<and> status (snd s 1) = TX_COMMITTED \<and>
     \<not> replays (tr @ tr') (\<lambda>_. 0) \<and> \<not> replays (tr' @ tr) (\<lambda>_. 0)"
    using run_skew by (simp add: Let_def merge_def)
qed

end
