(* ===== verification/Lock_System.thy ===== *)
theory Lock_System
  imports Prelude
begin

section \<open>The interface of a lock: implementations, their system, the contract\<close>

text \<open>
  A lock of the repository is a pair of C functions \<open>lock\<close> and \<open>unlock\<close> over some global
  variables. An implementation here is the two functions cut into atomic steps, one step per
  access to shared memory (sequential consistency): a step of thread \<open>i\<close> takes the globals
  and the thread's locals (its program counter among them) and gives every possible outcome,
  a list because a weak compare-and-swap, a wake-up or a random wait leave a choice. An empty
  list is a blocked thread. \<open>Returned\<close> is the return of the function. A call of \<open>lock\<close> says
  whether the critical section will write; only the readers-writer locks, which have two
  functions to choose from, look at it.

  \<open>lock_sys\<close> is the most general client: threads call \<open>lock\<close>, and after it returns
  \<open>unlock\<close>, in any interleaving, with at most \<open>b\<close> calls in all. The locale
  \<open>lock_invariant\<close> is an inductive invariant of it. On this rest two contracts: \<open>rw_contract\<close>
  rules out a second thread between the return of \<open>lock\<close> and the call of \<open>unlock\<close> while one
  is there with an exclusive lock, and a call to write gives an exclusive lock; in
  \<open>lock_contract\<close> every lock is exclusive. \<open>live_lock\<close> says that the
  lock never gets stuck: from every state it allows, the threads inside can all leave.
\<close>

datatype phase = Out | Try | Crit | Rel

datatype ('s, 'l) outcome = Running 's 'l | Returned 's 'l

record ('s, 'l) lock_impl =
  lock_call :: "bool \<Rightarrow> tid \<Rightarrow> 'l \<Rightarrow> 'l"
  lock_step :: "tid \<Rightarrow> 's \<Rightarrow> 'l \<Rightarrow> ('s, 'l) outcome list"
  unlock_call :: "tid \<Rightarrow> 'l \<Rightarrow> 'l"
  unlock_step :: "tid \<Rightarrow> 's \<Rightarrow> 'l \<Rightarrow> ('s, 'l) outcome list"

record ('s, 'l) lock_state =
  shared :: 's
  phase_of :: "tid \<Rightarrow> phase"
  local_of :: "tid \<Rightarrow> 'l"
  calls :: nat

definition lock_init :: "'s \<Rightarrow> (tid \<Rightarrow> 'l) \<Rightarrow> ('s, 'l) lock_state" where
  "lock_init s0 l0 = \<lparr>shared = s0, phase_of = (\<lambda>_. Out), local_of = l0, calls = 0\<rparr>"

text \<open>One thread moves to a new phase with new globals and locals.\<close>

definition move :: "tid \<Rightarrow> phase \<Rightarrow> 's \<Rightarrow> 'l \<Rightarrow> ('s, 'l) lock_state \<Rightarrow> ('s, 'l) lock_state" where
  "move i p s' l' s = s\<lparr>shared := s', phase_of := (phase_of s)(i := p),
     local_of := (local_of s)(i := l')\<rparr>"

lemma move_simps [simp]:
  "shared (move i p s' l' s) = s'"
  "phase_of (move i p s' l' s) = (phase_of s)(i := p)"
  "local_of (move i p s' l' s) = (local_of s)(i := l')"
  "calls (move i p s' l' s) = calls s"
  by (simp_all add: move_def)

inductive lock_act ::
  "('s, 'l) lock_impl \<Rightarrow> nat \<Rightarrow> ('s, 'l) lock_state \<Rightarrow> ('s, 'l) lock_state \<Rightarrow> bool"
  for L n
where
  lock_runs: "i < n \<Longrightarrow> phase_of s i = Try \<Longrightarrow>
    Running s' l' \<in> set (lock_step L i (shared s) (local_of s i)) \<Longrightarrow>
    lock_act L n s (move i Try s' l' s)"
| lock_returns: "i < n \<Longrightarrow> phase_of s i = Try \<Longrightarrow>
    Returned s' l' \<in> set (lock_step L i (shared s) (local_of s i)) \<Longrightarrow>
    lock_act L n s (move i Crit s' l' s)"
| unlock_called: "i < n \<Longrightarrow> phase_of s i = Crit \<Longrightarrow>
    lock_act L n s (move i Rel (shared s) (unlock_call L i (local_of s i)) s)"
| unlock_runs: "i < n \<Longrightarrow> phase_of s i = Rel \<Longrightarrow>
    Running s' l' \<in> set (unlock_step L i (shared s) (local_of s i)) \<Longrightarrow>
    lock_act L n s (move i Rel s' l' s)"
| unlock_returns: "i < n \<Longrightarrow> phase_of s i = Rel \<Longrightarrow>
    Returned s' l' \<in> set (unlock_step L i (shared s) (local_of s i)) \<Longrightarrow>
    lock_act L n s (move i Out s' l' s)"

inductive lock_sys ::
  "('s, 'l) lock_impl \<Rightarrow> nat \<Rightarrow> nat \<Rightarrow> ('s, 'l) lock_state \<Rightarrow> ('s, 'l) lock_state \<Rightarrow> bool"
  for L n b
where
  lock_called: "i < n \<Longrightarrow> phase_of s i = Out \<Longrightarrow> calls s < b \<Longrightarrow>
    lock_sys L n b s
      ((move i Try (shared s) (lock_call L w i (local_of s i)) s)\<lparr>calls := Suc (calls s)\<rparr>)"
| lock_acts: "lock_act L n s t \<Longrightarrow> lock_sys L n b s t"

inductive_cases lock_sysE: "lock_sys L n b s t"

subsection \<open>The contract\<close>

locale lock_invariant =
  fixes L :: "('s, 'l) lock_impl" and n b :: nat and s0 :: 's and l0 :: "tid \<Rightarrow> 'l"
    and inv :: "('s, 'l) lock_state \<Rightarrow> bool"
  assumes inv_init: "inv (lock_init s0 l0)"
    and inv_call: "inv s \<Longrightarrow> i < n \<Longrightarrow> phase_of s i = Out \<Longrightarrow> calls s < b \<Longrightarrow>
      inv ((move i Try (shared s) (lock_call L w i (local_of s i)) s)\<lparr>calls := Suc (calls s)\<rparr>)"
    and inv_act: "inv s \<Longrightarrow> lock_act L n s t \<Longrightarrow> inv t"
begin

lemma inv_sys: "inv s \<Longrightarrow> lock_sys L n b s t \<Longrightarrow> inv t"
  by (erule lock_sysE) (auto intro: inv_call inv_act)

lemma inv_reachable: "(lock_sys L n b)\<^sup>*\<^sup>* (lock_init s0 l0) s \<Longrightarrow> inv s"
  by (erule run_invariant) (auto intro: inv_init inv_sys)

end

locale rw_contract = lock_invariant L n b s0 l0 inv
  for L :: "('s, 'l) lock_impl" and n b :: nat and s0 :: 's and l0 :: "tid \<Rightarrow> 'l"
    and inv :: "('s, 'l) lock_state \<Rightarrow> bool" +
  fixes excl :: "'l \<Rightarrow> bool"
  assumes excl_call: "excl (lock_call L True i l)"
    and excl_run: "excl l \<Longrightarrow> Running g' l' \<in> set (lock_step L i g l) \<Longrightarrow> excl l'"
    and excl_return: "excl l \<Longrightarrow> Returned g' l' \<in> set (lock_step L i g l) \<Longrightarrow> excl l'"
    and inv_excl: "inv s \<Longrightarrow> i < n \<Longrightarrow> j < n \<Longrightarrow> phase_of s i = Crit \<Longrightarrow> phase_of s j = Crit \<Longrightarrow>
      excl (local_of s i) \<Longrightarrow> i = j"

locale lock_contract = lock_invariant L n b s0 l0 inv
  for L :: "('s, 'l) lock_impl" and n b :: nat and s0 :: 's and l0 :: "tid \<Rightarrow> 'l"
    and inv :: "('s, 'l) lock_state \<Rightarrow> bool" +
  assumes inv_mutex: "inv s \<Longrightarrow> i < n \<Longrightarrow> j < n \<Longrightarrow> phase_of s i = Crit \<Longrightarrow> phase_of s j = Crit \<Longrightarrow> i = j"
begin

lemma mutex_reachable:
  "(lock_sys L n b)\<^sup>*\<^sup>* (lock_init s0 l0) s \<Longrightarrow> i < n \<Longrightarrow> j < n \<Longrightarrow>
    phase_of s i = Crit \<Longrightarrow> phase_of s j = Crit \<Longrightarrow> i = j"
  by (blast dest: inv_reachable intro: inv_mutex)

end

sublocale lock_contract \<subseteq> rw_contract L n b s0 l0 inv "\<lambda>_. True"
  by unfold_locales (blast intro: inv_mutex)+

locale live_lock = lock_invariant L n b s0 l0 inv
  for L :: "('s, 'l) lock_impl" and n b :: nat and s0 :: 's and l0 :: "tid \<Rightarrow> 'l"
    and inv :: "('s, 'l) lock_state \<Rightarrow> bool" +
  fixes mu :: "('s, 'l) lock_state \<Rightarrow> nat"
  assumes progress: "inv s \<Longrightarrow> i < n \<Longrightarrow> phase_of s i \<noteq> Out \<Longrightarrow>
      \<exists>t. lock_act L n s t \<and> mu t < mu s"
begin

lemma all_leave:
  assumes "inv s"
  shows "\<exists>t. (lock_act L n)\<^sup>*\<^sup>* s t \<and> (\<forall>i. i < n \<longrightarrow> phase_of t i = Out)"
proof (rule run_reaches [where r = "measure mu" and I = inv])
  fix u
  assume "inv u" "\<not> (\<forall>i. i < n \<longrightarrow> phase_of u i = Out)"
  then show "\<exists>v. lock_act L n u v \<and> inv v \<and> (v, u) \<in> measure mu"
    using progress inv_act by (metis in_measure)
qed (use assms in auto)

end

locale live_contract = lock_contract L n b s0 l0 inv + live_lock L n b s0 l0 inv mu
  for L :: "('s, 'l) lock_impl" and n b :: nat and s0 :: 's and l0 :: "tid \<Rightarrow> 'l"
    and inv :: "('s, 'l) lock_state \<Rightarrow> bool" and mu :: "('s, 'l) lock_state \<Rightarrow> nat"

text \<open>The phases in which a thread owns the lock.\<close>

fun owning :: "phase \<Rightarrow> bool" where
  "owning Crit = True"
| "owning Rel = True"
| "owning _ = False"

text \<open>The threads whose phase and locals satisfy a predicate, after one thread has moved.\<close>

definition those :: "nat \<Rightarrow> (phase \<Rightarrow> 'l \<Rightarrow> bool) \<Rightarrow> ('s, 'l) lock_state \<Rightarrow> tid set" where
  "those n Q s = {i. i < n \<and> Q (phase_of s i) (local_of s i)}"

lemma those_mem: "i \<in> those n Q s \<longleftrightarrow> i < n \<and> Q (phase_of s i) (local_of s i)"
  by (simp add: those_def)

lemma those_finite [simp]: "finite (those n Q s)"
  by (simp add: those_def)

lemma those_calls [simp]: "those n Q (s\<lparr>calls := c\<rparr>) = those n Q s"
  by (simp add: those_def)

lemma those_init: "those n Q (lock_init g l) = {i. i < n \<and> Q Out (l i)}"
  by (simp add: those_def lock_init_def)

lemma those_move:
  "i < n \<Longrightarrow> those n Q (move i p g l s) = (if Q p l then insert i (those n Q s) else those n Q s - {i})"
  by (auto simp: those_def)

lemma those_same:
  "i < n \<Longrightarrow> Q p l = Q (phase_of s i) (local_of s i) \<Longrightarrow> those n Q (move i p g l s) = those n Q s"
  by (auto simp: those_def)

lemma card_those_le: "card (those n Q s) \<le> n"
proof -
  have "card (those n Q s) \<le> card {..<n}" by (rule card_mono) (auto simp: those_def)
  then show ?thesis by simp
qed

lemma card_those_in:
  "i < n \<Longrightarrow> Q p l \<Longrightarrow> \<not> Q (phase_of s i) (local_of s i) \<Longrightarrow>
    card (those n Q (move i p g l s)) = Suc (card (those n Q s))"
  by (simp add: those_move those_mem)

lemma card_those_out:
  "i < n \<Longrightarrow> \<not> Q p l \<Longrightarrow> Q (phase_of s i) (local_of s i) \<Longrightarrow>
    card (those n Q s) = Suc (card (those n Q (move i p g l s)))"
  by (simp add: those_move those_mem card_Suc_Diff1 del: card_Diff_insert)

text \<open>One owner exactly when something is held.\<close>

definition owned :: "bool \<Rightarrow> tid set \<Rightarrow> bool" where
  "owned h A \<longleftrightarrow> (if h then \<exists>k. A = {k} else A = {})"

lemma owned_move:
  assumes "owned h (those n Q s)" "i < n"
    and "Q p l = Q (phase_of s i) (local_of s i) \<and> h' = h \<or> Q p l \<and> \<not> h \<and> h' \<or>
      \<not> Q p l \<and> Q (phase_of s i) (local_of s i) \<and> \<not> h'"
  shows "owned h' (those n Q (move i p g l s))"
proof -
  have "i \<in> those n Q s \<longleftrightarrow> Q (phase_of s i) (local_of s i)" using assms(2) by (simp add: those_mem)
  then show ?thesis
    using assms by (auto simp: owned_def those_move those_same insert_absorb split: if_splits)
qed

lemma owned_unique: "owned h A \<Longrightarrow> i \<in> A \<Longrightarrow> j \<in> A \<Longrightarrow> i = j"
  by (auto simp: owned_def split: if_splits)

lemma owned_holds: "owned h A \<Longrightarrow> i \<in> A \<Longrightarrow> h"
  by (auto simp: owned_def split: if_splits)

text \<open>Changes of the owner when the owners are not given by the locals alone.\<close>

lemma owned_change:
  assumes "owned h A" "A' - {i} = A - {i}"
    and "(i \<in> A') = (i \<in> A) \<and> h' = h \<or> i \<in> A' \<and> \<not> h \<and> h' \<or> i \<notin> A' \<and> i \<in> A \<and> \<not> h'"
  shows "owned h' A'"
proof -
  from assms(3) consider "(i \<in> A') = (i \<in> A)" "h' = h" | "i \<in> A'" "\<not> h" "h'" | "i \<notin> A'" "i \<in> A" "\<not> h'" by blast
  then show ?thesis
  proof cases
    case 1
    then have "A' = A" using assms(2) by blast
    then show ?thesis using assms(1) 1 by simp
  next
    case 2
    then have "A = {}" using assms(1) by (simp add: owned_def)
    then have "A' = {i}" using assms(2) 2(1) by blast
    then show ?thesis using 2 by (simp add: owned_def)
  next
    case 3
    then have "A - {i} = {}" using owned_unique [OF assms(1)] by blast
    then have "A' = {}" using assms(2) 3(1) by blast
    then show ?thesis using 3 by (simp add: owned_def)
  qed
qed

text \<open>Somebody is past \<open>lock\<close>, or nobody is.\<close>

lemma owner_cases:
  obtains k where "k < n" "phase_of s k = Crit" | k where "k < n" "phase_of s k = Rel"
    | "\<And>k. k < n \<Longrightarrow> phase_of s k = Out \<or> phase_of s k = Try"
proof (cases "\<exists>k<n. phase_of s k = Crit \<or> phase_of s k = Rel")
  case True
  then show ?thesis using that(1,2) by blast
next
  case False
  have "phase_of s k = Out \<or> phase_of s k = Try" if "k < n" for k
    using False that by (cases "phase_of s k") auto
  then show ?thesis by (rule that(3))
qed

subsection \<open>A measure for drains\<close>

text \<open>
  Most locks drain by the same measure: each thread weighs more the further it is from leaving,
  \<open>rank\<close> counting the steps left inside a call and \<open>r\<close> bounding the rank at the call of
  \<open>unlock\<close>.
\<close>

fun phase_weight :: "nat \<Rightarrow> ('l \<Rightarrow> nat) \<Rightarrow> phase \<Rightarrow> 'l \<Rightarrow> nat" where
  "phase_weight r rank Out l = 0"
| "phase_weight r rank Rel l = Suc (rank l)"
| "phase_weight r rank Crit l = Suc r"
| "phase_weight r rank Try l = Suc (Suc (r + rank l))"

definition drain_weight :: "nat \<Rightarrow> ('l \<Rightarrow> nat) \<Rightarrow> nat \<Rightarrow> ('s, 'l) lock_state \<Rightarrow> nat" where
  "drain_weight r rank n s = (\<Sum>i<n. phase_weight r rank (phase_of s i) (local_of s i))"

lemma drain_weight_move:
  assumes "i < n" "phase_weight r rank p l' < phase_weight r rank (phase_of s i) (local_of s i)"
  shows "drain_weight r rank n (move i p s' l' s) < drain_weight r rank n s"
  unfolding drain_weight_def using assms by (intro sum_update_less [of i]) auto

text \<open>The ways one thread's step makes the weight smaller.\<close>

lemma drain_steps:
  assumes i: "i < n"
  shows "phase_of s i = Try \<Longrightarrow>
      Running s' l' \<in> set (lock_step L i (shared s) (local_of s i)) \<Longrightarrow>
      rank l' < rank (local_of s i) \<Longrightarrow>
      \<exists>t. lock_act L n s t \<and> drain_weight r rank n t < drain_weight r rank n s"
    and "phase_of s i = Try \<Longrightarrow>
      Returned s' l' \<in> set (lock_step L i (shared s) (local_of s i)) \<Longrightarrow>
      \<exists>t. lock_act L n s t \<and> drain_weight r rank n t < drain_weight r rank n s"
    and "phase_of s i = Crit \<Longrightarrow> rank (unlock_call L i (local_of s i)) < r \<Longrightarrow>
      \<exists>t. lock_act L n s t \<and> drain_weight r rank n t < drain_weight r rank n s"
    and "phase_of s i = Rel \<Longrightarrow>
      Running s' l' \<in> set (unlock_step L i (shared s) (local_of s i)) \<Longrightarrow>
      rank l' < rank (local_of s i) \<Longrightarrow>
      \<exists>t. lock_act L n s t \<and> drain_weight r rank n t < drain_weight r rank n s"
    and "phase_of s i = Rel \<Longrightarrow>
      Returned s' l' \<in> set (unlock_step L i (shared s) (local_of s i)) \<Longrightarrow>
      \<exists>t. lock_act L n s t \<and> drain_weight r rank n t < drain_weight r rank n s"
  using i by (force intro!: exI [of _ "move i p q l'" for p q l'] drain_weight_move intro: lock_act.intros)+

end
