(* ===== verification/Harness.thy ===== *)
theory Harness
  imports Lock_System
begin

section \<open>The test program around a lock: \<open>main\<close> and \<open>count\<close>\<close>

text \<open>
  Every program that tests a lock has the same frame: \<open>main\<close> creates \<open>NUM_THREADS\<close> threads
  that run \<open>count\<close>, joins them and prints the shared \<open>counter\<close> next to the value expected;
  \<open>count\<close> does \<open>MAX_COUNT/NUM_THREADS\<close> rounds of \<open>lock\<close>, \<open>counter += 1\<close>,
  \<open>unlock\<close> and prints the counter. The increment is two steps, a load into a register and a
  store, so a lost update is a behaviour of the model. In some files the counter is an array of
  which round \<open>i\<close> increments element \<open>i % ARRAY_SIZE\<close> and the lines printed give the sum of
  the elements; in others most rounds only read the counter. A \<open>program\<close> packs what differs
  between the files: the lock, the two macros, the value expected, the number of elements, the
  element each round increments (\<open>None\<close> for a round that only reads), the initial globals and
  each thread's initial locals.

  The theorems here are for every lock: the program refines the most general client of
  \<open>lock_sys\<close>; with a lock that meets its contract the value printed at the end is the
  number of increments; with a lock that never gets stuck every state can still finish.
\<close>

datatype cpc = NotCreated | LoopHead | InLock | LoadCounter | StoreCounter | InUnlock
  | PrintEnd nat | Exited

datatype mpc = Create nat | Join nat | PrintValue | MainDone

text \<open>The two \<open>printf\<close> formats: ``End tid counter: c'' and ``Counter value: c Expected: m''.\<close>

datatype message = EndMsg tid cint | ValueMsg cint nat

record 'l thread =
  cpc :: cpc
  iter :: nat
  reg :: cint
  tlocal :: 'l

record ('s, 'l) prog_state =
  mpc :: mpc
  globals :: 's
  counter :: "nat \<Rightarrow> cint"
  threads :: "tid \<Rightarrow> 'l thread"
  printed :: "message list"

record ('s, 'l) program =
  impl :: "('s, 'l) lock_impl"
  num_threads :: nat
  max_count :: nat
  expected_count :: nat
  cells :: nat
  target :: "nat \<Rightarrow> nat option"
  globals0 :: 's
  locals0 :: "tid \<Rightarrow> 'l"

text \<open>The macros, with the values all the lock tests but the two-thread ones give them.\<close>

definition NUM_THREADS :: nat where "NUM_THREADS = 4"

definition MAX_COUNT :: nat where "MAX_COUNT = 10000000"

text \<open>The rounds that all increment the one \<open>counter\<close>.\<close>

definition one_counter :: "nat \<Rightarrow> nat option" where [simp]: "one_counter r = Some 0"

text \<open>\<open>long max = MAX_COUNT/NUM_THREADS\<close>\<close>

definition rounds :: "('s, 'l) program \<Rightarrow> nat" where
  "rounds P = max_count P div num_threads P"

definition prog_init :: "('s, 'l) program \<Rightarrow> ('s, 'l) prog_state" where
  "prog_init P = \<lparr>mpc = Create 0, globals = globals0 P, counter = (\<lambda>_. 0),
     threads = (\<lambda>i. \<lparr>cpc = NotCreated, iter = 0, reg = 0, tlocal = locals0 P i\<rparr>), printed = []\<rparr>"

definition set_thread ::
  "tid \<Rightarrow> 'l thread \<Rightarrow> ('s, 'l) prog_state \<Rightarrow> ('s, 'l) prog_state" where
  "set_thread i t s = s\<lparr>threads := (threads s)(i := t)\<rparr>"

lemma set_thread_simps [simp]:
  "mpc (set_thread i t s) = mpc s" "globals (set_thread i t s) = globals s"
  "counter (set_thread i t s) = counter s" "printed (set_thread i t s) = printed s"
  "threads (set_thread i t s) = (threads s)(i := t)"
  by (simp_all add: set_thread_def)

text \<open>
  One atomic step of \<open>count\<close> in thread \<open>i\<close>. The last line is printed when the sum over the
  elements has been read, one element in a step.
\<close>

definition count_step ::
  "('s, 'l) program \<Rightarrow> tid \<Rightarrow> ('s, 'l) prog_state \<Rightarrow> ('s, 'l) prog_state list" where
  "count_step P i s = (let t = threads s i in
     case cpc t of
       NotCreated \<Rightarrow> []
     | LoopHead \<Rightarrow>
         [if iter t < rounds P
          then set_thread i (t\<lparr>cpc := InLock, tlocal := lock_call (impl P) (target P (iter t) \<noteq> None) i (tlocal t)\<rparr>) s
          else set_thread i (t\<lparr>cpc := PrintEnd 0, reg := 0\<rparr>) s]
     | InLock \<Rightarrow>
         map (\<lambda>x. case x of
             Running g l \<Rightarrow> set_thread i (t\<lparr>tlocal := l\<rparr>) (s\<lparr>globals := g\<rparr>)
           | Returned g l \<Rightarrow> set_thread i (t\<lparr>cpc := LoadCounter, tlocal := l\<rparr>) (s\<lparr>globals := g\<rparr>))
           (lock_step (impl P) i (globals s) (tlocal t))
     | LoadCounter \<Rightarrow> (case target P (iter t) of
           Some c \<Rightarrow> [set_thread i (t\<lparr>cpc := StoreCounter, reg := counter s c\<rparr>) s]
         | None \<Rightarrow>
             [set_thread i (t\<lparr>cpc := InUnlock, reg := counter s 0,
                tlocal := unlock_call (impl P) i (tlocal t)\<rparr>) s])
     | StoreCounter \<Rightarrow>
         [set_thread i (t\<lparr>cpc := InUnlock, tlocal := unlock_call (impl P) i (tlocal t)\<rparr>)
            (s\<lparr>counter := (counter s)(the (target P (iter t)) := reg t + 1)\<rparr>)]
     | InUnlock \<Rightarrow>
         map (\<lambda>x. case x of
             Running g l \<Rightarrow> set_thread i (t\<lparr>tlocal := l\<rparr>) (s\<lparr>globals := g\<rparr>)
           | Returned g l \<Rightarrow>
               set_thread i (t\<lparr>cpc := LoopHead, iter := Suc (iter t), tlocal := l\<rparr>) (s\<lparr>globals := g\<rparr>))
           (unlock_step (impl P) i (globals s) (tlocal t))
     | PrintEnd k \<Rightarrow>
         [if k < cells P then set_thread i (t\<lparr>cpc := PrintEnd (Suc k), reg := reg t + counter s k\<rparr>) s
          else set_thread i (t\<lparr>cpc := Exited\<rparr>) (s\<lparr>printed := printed s @ [EndMsg i (reg t)]\<rparr>)]
     | Exited \<Rightarrow> [])"

text \<open>The sum the printed lines give.\<close>

definition total :: "('s, 'l) program \<Rightarrow> (nat \<Rightarrow> cint) \<Rightarrow> cint" where
  "total P v = sum_list (map v [0..<cells P])"

text \<open>
  One step of \<open>main\<close>; \<open>pthread_join\<close> blocks until its thread has returned. When \<open>main\<close>
  prints, no other thread is left and the sum is one step.
\<close>

definition main_step :: "('s, 'l) program \<Rightarrow> ('s, 'l) prog_state \<Rightarrow> ('s, 'l) prog_state list" where
  "main_step P s = (case mpc s of
       Create i \<Rightarrow>
         [if i < num_threads P
          then set_thread i ((threads s i)\<lparr>cpc := LoopHead\<rparr>) (s\<lparr>mpc := Create (Suc i)\<rparr>)
          else s\<lparr>mpc := Join 0\<rparr>]
     | Join i \<Rightarrow>
         (if i < num_threads P
          then (if cpc (threads s i) = Exited then [s\<lparr>mpc := Join (Suc i)\<rparr>] else [])
          else [s\<lparr>mpc := PrintValue\<rparr>])
     | PrintValue \<Rightarrow>
         [s\<lparr>mpc := MainDone, printed := printed s @ [ValueMsg (total P (counter s)) (expected_count P)]\<rparr>]
     | MainDone \<Rightarrow> [])"

text \<open>The interleavings: any created thread or \<open>main\<close> may move next.\<close>

inductive prog_step ::
  "('s, 'l) program \<Rightarrow> ('s, 'l) prog_state \<Rightarrow> ('s, 'l) prog_state \<Rightarrow> bool" for P where
  main_moves: "t \<in> set (main_step P s) \<Longrightarrow> prog_step P s t"
| thread_moves: "i < num_threads P \<Longrightarrow> t \<in> set (count_step P i s) \<Longrightarrow> prog_step P s t"

abbreviation prog_reach :: "('s, 'l) program \<Rightarrow> ('s, 'l) prog_state \<Rightarrow> bool" where
  "prog_reach P s \<equiv> (prog_step P)\<^sup>*\<^sup>* (prog_init P) s"

text \<open>
  A run that can be computed: a schedule says which thread moves (\<open>None\<close> is \<open>main\<close>) and which
  of its outcomes it takes. Witnesses are runs of this function.
\<close>

fun run_schedule ::
  "('s, 'l) program \<Rightarrow> (tid option \<times> nat) list \<Rightarrow> ('s, 'l) prog_state \<Rightarrow> ('s, 'l) prog_state option" where
  "run_schedule P [] s = Some s"
| "run_schedule P ((w, k) # ws) s =
     (let ts = (case w of None \<Rightarrow> main_step P s
                | Some i \<Rightarrow> (if i < num_threads P then count_step P i s else []))
      in if k < length ts then run_schedule P ws (ts ! k) else None)"

lemma run_schedule_reaches: "run_schedule P ws s = Some t \<Longrightarrow> (prog_step P)\<^sup>*\<^sup>* s t"
proof (induction P ws s rule: run_schedule.induct)
  case (1 P s)
  then show ?case by simp
next
  case (2 P w k ws s)
  let ?ts = "case w of None \<Rightarrow> main_step P s
    | Some i \<Rightarrow> (if i < num_threads P then count_step P i s else [])"
  have k: "k < length ?ts" and rest: "run_schedule P ws (?ts ! k) = Some t"
    using "2.prems" by (auto simp: Let_def split: if_splits)
  have "?ts ! k \<in> set ?ts" using k by (rule nth_mem)
  then have "prog_step P s (?ts ! k)"
    by (auto intro: prog_step.intros split: option.splits if_splits)
  then show ?case using "2.IH" k rest by (auto intro: converse_rtranclp_into_rtranclp)
qed

subsection \<open>Case analysis on steps\<close>

lemma count_step_cases [consumes 1, case_names enter finish lock_run lock_ret load read store
    unlock_run unlock_ret print_sum print_end]:
  assumes "t \<in> set (count_step P i s)"
  obtains
    (enter) "cpc (threads s i) = LoopHead" "iter (threads s i) < rounds P"
      "t = set_thread i ((threads s i)\<lparr>cpc := InLock,
             tlocal := lock_call (impl P) (target P (iter (threads s i)) \<noteq> None) i (tlocal (threads s i))\<rparr>) s"
  | (finish) "cpc (threads s i) = LoopHead" "\<not> iter (threads s i) < rounds P"
      "t = set_thread i ((threads s i)\<lparr>cpc := PrintEnd 0, reg := 0\<rparr>) s"
  | (lock_run) g l where "cpc (threads s i) = InLock"
      "Running g l \<in> set (lock_step (impl P) i (globals s) (tlocal (threads s i)))"
      "t = set_thread i ((threads s i)\<lparr>tlocal := l\<rparr>) (s\<lparr>globals := g\<rparr>)"
  | (lock_ret) g l where "cpc (threads s i) = InLock"
      "Returned g l \<in> set (lock_step (impl P) i (globals s) (tlocal (threads s i)))"
      "t = set_thread i ((threads s i)\<lparr>cpc := LoadCounter, tlocal := l\<rparr>) (s\<lparr>globals := g\<rparr>)"
  | (load) c where "cpc (threads s i) = LoadCounter" "target P (iter (threads s i)) = Some c"
      "t = set_thread i ((threads s i)\<lparr>cpc := StoreCounter, reg := counter s c\<rparr>) s"
  | (read) "cpc (threads s i) = LoadCounter" "target P (iter (threads s i)) = None"
      "t = set_thread i ((threads s i)\<lparr>cpc := InUnlock, reg := counter s 0,
             tlocal := unlock_call (impl P) i (tlocal (threads s i))\<rparr>) s"
  | (store) "cpc (threads s i) = StoreCounter"
      "t = set_thread i ((threads s i)\<lparr>cpc := InUnlock,
             tlocal := unlock_call (impl P) i (tlocal (threads s i))\<rparr>)
             (s\<lparr>counter := (counter s)(the (target P (iter (threads s i))) := reg (threads s i) + 1)\<rparr>)"
  | (unlock_run) g l where "cpc (threads s i) = InUnlock"
      "Running g l \<in> set (unlock_step (impl P) i (globals s) (tlocal (threads s i)))"
      "t = set_thread i ((threads s i)\<lparr>tlocal := l\<rparr>) (s\<lparr>globals := g\<rparr>)"
  | (unlock_ret) g l where "cpc (threads s i) = InUnlock"
      "Returned g l \<in> set (unlock_step (impl P) i (globals s) (tlocal (threads s i)))"
      "t = set_thread i ((threads s i)\<lparr>cpc := LoopHead, iter := Suc (iter (threads s i)),
             tlocal := l\<rparr>) (s\<lparr>globals := g\<rparr>)"
  | (print_sum) k where "cpc (threads s i) = PrintEnd k" "k < cells P"
      "t = set_thread i ((threads s i)\<lparr>cpc := PrintEnd (Suc k), reg := reg (threads s i) + counter s k\<rparr>) s"
  | (print_end) k where "cpc (threads s i) = PrintEnd k" "\<not> k < cells P"
      "t = set_thread i ((threads s i)\<lparr>cpc := Exited\<rparr>)
             (s\<lparr>printed := printed s @ [EndMsg i (reg (threads s i))]\<rparr>)"
  using assms unfolding count_step_def Let_def
  by (cases "cpc (threads s i)") (auto split: if_splits outcome.splits option.splits)

lemma main_step_cases [consumes 1, case_names create created join joined print]:
  assumes "t \<in> set (main_step P s)"
  obtains
    (create) i where "mpc s = Create i" "i < num_threads P"
      "t = set_thread i ((threads s i)\<lparr>cpc := LoopHead\<rparr>) (s\<lparr>mpc := Create (Suc i)\<rparr>)"
  | (created) i where "mpc s = Create i" "\<not> i < num_threads P" "t = s\<lparr>mpc := Join 0\<rparr>"
  | (join) i where "mpc s = Join i" "i < num_threads P" "cpc (threads s i) = Exited"
      "t = s\<lparr>mpc := Join (Suc i)\<rparr>"
  | (joined) i where "mpc s = Join i" "\<not> i < num_threads P" "t = s\<lparr>mpc := PrintValue\<rparr>"
  | (print) "mpc s = PrintValue"
      "t = s\<lparr>mpc := MainDone, printed := printed s @ [ValueMsg (total P (counter s)) (expected_count P)]\<rparr>"
  using assms unfolding main_step_def
  by (cases "mpc s") (auto split: if_splits)

subsection \<open>The well-formed states of a program\<close>

fun phase_at :: "cpc \<Rightarrow> phase" where
  "phase_at InLock = Try"
| "phase_at LoadCounter = Crit"
| "phase_at StoreCounter = Crit"
| "phase_at InUnlock = Rel"
| "phase_at _ = Out"

definition thread_ok :: "nat \<Rightarrow> 'l thread \<Rightarrow> bool" where
  "thread_ok r t \<longleftrightarrow> iter t \<le> r \<and> (phase_at (cpc t) \<noteq> Out \<longrightarrow> iter t < r) \<and>
     (cpc t = NotCreated \<longrightarrow> iter t = 0) \<and> (\<forall>k. cpc t = PrintEnd k \<or> cpc t = Exited \<longrightarrow> iter t = r)"

fun main_ok :: "mpc \<Rightarrow> nat \<Rightarrow> (tid \<Rightarrow> cpc) \<Rightarrow> bool" where
  "main_ok (Create k) n c = (k \<le> n \<and> (\<forall>i<n. c i = NotCreated \<longleftrightarrow> k \<le> i))"
| "main_ok (Join k) n c = (k \<le> n \<and> (\<forall>i<n. c i \<noteq> NotCreated) \<and> (\<forall>i<k. c i = Exited))"
| "main_ok PrintValue n c = (\<forall>i<n. c i = Exited)"
| "main_ok MainDone n c = (\<forall>i<n. c i = Exited)"

definition prog_ok :: "('s, 'l) program \<Rightarrow> ('s, 'l) prog_state \<Rightarrow> bool" where
  "prog_ok P s \<longleftrightarrow> (\<forall>i<num_threads P. thread_ok (rounds P) (threads s i)) \<and>
     main_ok (mpc s) (num_threads P) (\<lambda>i. cpc (threads s i))"

lemma prog_ok_init: "prog_ok P (prog_init P)"
  by (simp add: prog_ok_def prog_init_def thread_ok_def)

text \<open>A thread that is neither created nor ended by the step keeps \<open>main\<close>'s bookkeeping.\<close>

lemma main_ok_update:
  assumes "main_ok m n c" "i < n" "c i \<noteq> NotCreated" "c i \<noteq> Exited" "x \<noteq> NotCreated"
  shows "main_ok m n (\<lambda>j. if j = i then x else c j)"
  using assms by (cases m) (auto simp: less_le_trans)

lemma prog_ok_thread:
  assumes ok: "prog_ok P s" and i: "i < num_threads P" and st: "t \<in> set (count_step P i s)"
  shows "prog_ok P t"
proof -
  have T: "thread_ok (rounds P) (threads s i)" using ok i by (simp add: prog_ok_def)
  have M: "main_ok (mpc s) (num_threads P) (\<lambda>i. cpc (threads s i))" using ok by (simp add: prog_ok_def)
  have key: "prog_ok P (set_thread i x u)"
    if "mpc u = mpc s" "threads u = threads s" "thread_ok (rounds P) x"
      "cpc (threads s i) \<noteq> NotCreated" "cpc (threads s i) \<noteq> Exited" "cpc x \<noteq> NotCreated" for x u
    using that ok main_ok_update [OF M i, of "cpc x"]
    by (auto simp: prog_ok_def if_distrib [of cpc] fun_upd_def)
  show ?thesis
    using st T by (cases rule: count_step_cases) (auto intro!: key simp: thread_ok_def)
qed

lemma prog_ok_main:
  assumes ok: "prog_ok P s" and st: "t \<in> set (main_step P s)"
  shows "prog_ok P t"
  using st ok
  by (cases rule: main_step_cases)
    (auto simp: prog_ok_def thread_ok_def less_Suc_eq fun_upd_def)

lemma prog_ok_step: "prog_ok P s \<Longrightarrow> prog_step P s t \<Longrightarrow> prog_ok P t"
  by (erule prog_step.cases) (auto intro: prog_ok_main prog_ok_thread)

lemma prog_ok_reach: "prog_reach P s \<Longrightarrow> prog_ok P s"
  by (erule run_invariant) (auto intro: prog_ok_init prog_ok_step)

subsection \<open>The program refines the most general client of its lock\<close>

definition thread_calls :: "'l thread \<Rightarrow> nat" where
  "thread_calls t = iter t + (if phase_at (cpc t) = Out then 0 else 1)"

text \<open>What the lock sees of a program state.\<close>

definition lock_view :: "('s, 'l) program \<Rightarrow> ('s, 'l) prog_state \<Rightarrow> ('s, 'l) lock_state" where
  "lock_view P s = \<lparr>shared = globals s, phase_of = (\<lambda>i. phase_at (cpc (threads s i))),
     local_of = (\<lambda>i. tlocal (threads s i)),
     calls = (\<Sum>i<num_threads P. thread_calls (threads s i))\<rparr>"

lemma lock_view_simps [simp]:
  "shared (lock_view P s) = globals s"
  "phase_of (lock_view P s) i = phase_at (cpc (threads s i))"
  "local_of (lock_view P s) i = tlocal (threads s i)"
  by (simp_all add: lock_view_def)

lemma lock_view_init: "lock_view P (prog_init P) = lock_init (globals0 P) (locals0 P)"
  by (simp add: lock_view_def prog_init_def lock_init_def thread_calls_def)

lemma lock_view_cong:
  "globals t = globals s \<Longrightarrow> threads t = threads s \<Longrightarrow> lock_view P t = lock_view P s"
  by (simp add: lock_view_def)

lemma lock_view_move:
  assumes "i < num_threads P" "threads u = threads s" "thread_calls x = thread_calls (threads s i)"
  shows "lock_view P (set_thread i x u)
    = move i (phase_at (cpc x)) (globals u) (tlocal x) (lock_view P s)"
proof -
  have "(\<Sum>j<num_threads P. thread_calls (((threads s)(i := x)) j))
      = (\<Sum>j<num_threads P. thread_calls (threads s j))"
    by (rule sum_update_same) (simp add: assms(3))
  then show ?thesis using assms(2) by (auto simp: lock_view_def move_def)
qed

lemma lock_view_stutter:
  assumes "i < num_threads P" "threads u = threads s" "globals u = globals s"
    "thread_calls x = thread_calls (threads s i)"
    "phase_at (cpc x) = phase_at (cpc (threads s i))" "tlocal x = tlocal (threads s i)"
  shows "lock_view P (set_thread i x u) = lock_view P s"
  unfolding lock_view_move [OF assms(1,2,4)] by (simp add: move_def lock_view_def assms fun_upd_idem)

lemma lock_view_call:
  assumes "i < num_threads P" "thread_calls x = Suc (thread_calls (threads s i))"
  shows "lock_view P (set_thread i x s) =
    (move i (phase_at (cpc x)) (globals s) (tlocal x) (lock_view P s))
      \<lparr>calls := Suc (calls (lock_view P s))\<rparr>"
proof -
  have "(\<Sum>j<num_threads P. thread_calls (((threads s)(i := x)) j))
      = Suc (\<Sum>j<num_threads P. thread_calls (threads s j))"
    by (rule sum_update_Suc [OF assms(1)]) (simp_all add: assms(2))
  then show ?thesis by (auto simp: lock_view_def move_def)
qed

lemma calls_bound:
  assumes ok: "prog_ok P s" and i: "i < num_threads P"
    and head: "cpc (threads s i) = LoopHead" "iter (threads s i) < rounds P"
  shows "calls (lock_view P s) < num_threads P * rounds P"
proof -
  have le: "thread_calls (threads s j) \<le> rounds P" if "j < num_threads P" for j
    using ok that by (auto simp: prog_ok_def thread_ok_def thread_calls_def Suc_le_eq)
  have "thread_calls (threads s i) < rounds P" using head by (simp add: thread_calls_def)
  then have "(\<Sum>j<num_threads P. thread_calls (threads s j)) < (\<Sum>j<num_threads P. rounds P)"
    using i le by (intro sum_strict_mono_ex1) auto
  then show ?thesis by (simp add: lock_view_def)
qed

lemma thread_step_refines:
  assumes ok: "prog_ok P s" and i: "i < num_threads P" and st: "t \<in> set (count_step P i s)"
  shows "lock_view P t = lock_view P s \<or>
    lock_sys (impl P) (num_threads P) (num_threads P * rounds P) (lock_view P s) (lock_view P t)"
  using st
proof (cases rule: count_step_cases)
  case enter
  then show ?thesis
    using lock_called [of i "num_threads P" "lock_view P s" "num_threads P * rounds P" "impl P"]
      calls_bound [OF ok i] lock_view_call [OF i, of _ s] i
    by (simp add: thread_calls_def)
next
  case (lock_run g l)
  then show ?thesis
    using lock_runs [of i "num_threads P" "lock_view P s" g l "impl P"] i
      lock_view_move [OF i, of "s\<lparr>globals := g\<rparr>" s]
    by (simp add: thread_calls_def lock_acts)
next
  case (lock_ret g l)
  then show ?thesis
    using lock_returns [of i "num_threads P" "lock_view P s" g l "impl P"] i
      lock_view_move [OF i, of "s\<lparr>globals := g\<rparr>" s]
    by (simp add: thread_calls_def lock_acts)
next
  case store
  then show ?thesis
    using unlock_called [of i "num_threads P" "lock_view P s" "impl P"] i
      lock_view_move [OF i, of "s\<lparr>counter := (counter s)(the (target P (iter (threads s i)))
        := reg (threads s i) + 1)\<rparr>" s]
    by (simp add: thread_calls_def lock_acts)
next
  case read
  then show ?thesis
    using unlock_called [of i "num_threads P" "lock_view P s" "impl P"] i lock_view_move [OF i, of s s]
    by (simp add: thread_calls_def lock_acts)
next
  case (unlock_run g l)
  then show ?thesis
    using unlock_runs [of i "num_threads P" "lock_view P s" g l "impl P"] i
      lock_view_move [OF i, of "s\<lparr>globals := g\<rparr>" s]
    by (simp add: thread_calls_def lock_acts)
next
  case (unlock_ret g l)
  then show ?thesis
    using unlock_returns [of i "num_threads P" "lock_view P s" g l "impl P"] i
      lock_view_move [OF i, of "s\<lparr>globals := g\<rparr>" s]
    by (simp add: thread_calls_def lock_acts)
qed (auto intro!: lock_view_stutter [OF i] simp: thread_calls_def)

lemma main_step_refines:
  assumes st: "t \<in> set (main_step P s)" and ok: "prog_ok P s"
  shows "lock_view P t = lock_view P s"
  using st
proof (cases rule: main_step_cases)
  case (create i)
  then show ?thesis
    using ok by (auto simp: thread_calls_def prog_ok_def intro!: lock_view_stutter)
qed (simp_all add: lock_view_def)

lemma prog_step_refines:
  "prog_ok P s \<Longrightarrow> prog_step P s t \<Longrightarrow> lock_view P t = lock_view P s \<or>
    lock_sys (impl P) (num_threads P) (num_threads P * rounds P) (lock_view P s) (lock_view P t)"
  by (erule prog_step.cases) (auto dest: thread_step_refines main_step_refines)

subsection \<open>What is promised of a program\<close>

definition critical :: "('s, 'l) prog_state \<Rightarrow> tid \<Rightarrow> bool" where
  "critical s i \<longleftrightarrow> cpc (threads s i) = LoadCounter \<or> cpc (threads s i) = StoreCounter"

definition writing :: "('s, 'l) program \<Rightarrow> ('s, 'l) prog_state \<Rightarrow> tid \<Rightarrow> bool" where
  "writing P s i \<longleftrightarrow> critical s i \<and> target P (iter (threads s i)) \<noteq> None"

text \<open>The increments a thread makes in its first \<open>k\<close> rounds.\<close>

definition increments :: "('s, 'l) program \<Rightarrow> nat \<Rightarrow> nat" where
  "increments P k = length (filter (\<lambda>r. target P r \<noteq> None) [0..<k])"

definition mutual_exclusion :: "('s, 'l) program \<Rightarrow> bool" where
  "mutual_exclusion P \<longleftrightarrow> (\<forall>s i j. prog_reach P s \<longrightarrow> i < num_threads P \<longrightarrow> j < num_threads P \<longrightarrow>
     critical s i \<longrightarrow> critical s j \<longrightarrow> i = j)"

definition writer_exclusion :: "('s, 'l) program \<Rightarrow> bool" where
  "writer_exclusion P \<longleftrightarrow> (\<forall>s i j. prog_reach P s \<longrightarrow> i < num_threads P \<longrightarrow> j < num_threads P \<longrightarrow>
     writing P s i \<longrightarrow> critical s j \<longrightarrow> i = j)"

definition prints_total :: "('s, 'l) program \<Rightarrow> bool" where
  "prints_total P \<longleftrightarrow> (\<forall>s. prog_reach P s \<longrightarrow> mpc s = MainDone \<longrightarrow>
     (\<exists>ms. printed s =
        ms @ [ValueMsg (of_nat (num_threads P * increments P (rounds P))) (expected_count P)]))"

definition can_finish :: "('s, 'l) program \<Rightarrow> bool" where
  "can_finish P \<longleftrightarrow> (\<forall>s. prog_reach P s \<longrightarrow> (\<exists>t. (prog_step P)\<^sup>*\<^sup>* s t \<and> mpc t = MainDone))"

definition program_correct :: "('s, 'l) program \<Rightarrow> bool" where
  "program_correct P \<longleftrightarrow> mutual_exclusion P \<and> prints_total P \<and> can_finish P"

definition rw_correct :: "('s, 'l) program \<Rightarrow> bool" where
  "rw_correct P \<longleftrightarrow> writer_exclusion P \<and> prints_total P \<and> can_finish P"

lemma critical_phase: "critical s i \<longleftrightarrow> phase_at (cpc (threads s i)) = Crit"
  by (cases "cpc (threads s i)") (auto simp: critical_def)

lemma increments_Suc [simp]:
  "increments P (Suc k) = increments P k + (if target P k = None then 0 else 1)"
  by (auto simp: increments_def)

lemma increments_0 [simp]: "increments P 0 = 0"
  by (simp add: increments_def)

lemma increments_one_counter: "target P = one_counter \<Longrightarrow> increments P k = k"
  by (induction k) simp_all

lemma total_update:
  assumes "c < cells P"
  shows "total P (v(c := x + 1)) = total P (v(c := x)) + 1"
  using assms unfolding total_def interv_sum_list_conv_sum_set_nat
  by (simp add: sum.remove [of _ c])

subsection \<open>Programs whose lock meets its contract count every increment\<close>

definition stored :: "('s, 'l) program \<Rightarrow> 'l thread \<Rightarrow> nat" where
  "stored P t = increments P (iter t) +
     (if cpc t = InUnlock \<and> target P (iter t) \<noteq> None then 1 else 0)"

definition counter_ok :: "('s, 'l) program \<Rightarrow> ('s, 'l) prog_state \<Rightarrow> bool" where
  "counter_ok P s \<longleftrightarrow>
     total P (counter s) = of_nat (\<Sum>i<num_threads P. stored P (threads s i)) \<and>
     (\<forall>i<num_threads P. cpc (threads s i) = StoreCounter \<longrightarrow>
        (\<exists>c. target P (iter (threads s i)) = Some c \<and> reg (threads s i) = counter s c)) \<and>
     (mpc s = MainDone \<longrightarrow> (\<exists>ms. printed s = ms @ [ValueMsg (total P (counter s)) (expected_count P)]))"

lemma counter_ok_init: "counter_ok P (prog_init P)"
  by (simp add: counter_ok_def prog_init_def stored_def total_def)

lemma counter_ok_keep:
  assumes ok: "counter_ok P s" and "i < num_threads P"
    and u: "threads u = threads s" "counter u = counter s" "mpc u \<noteq> MainDone"
    and x: "stored P x = stored P (threads s i)"
      "cpc x = StoreCounter \<longrightarrow> (\<exists>c. target P (iter x) = Some c \<and> reg x = counter s c)"
  shows "counter_ok P (set_thread i x u)"
proof -
  have "(\<Sum>j<num_threads P. stored P (((threads s)(i := x)) j))
      = (\<Sum>j<num_threads P. stored P (threads s j))"
    by (rule sum_update_same) (simp add: x)
  then show ?thesis using assms by (auto simp: counter_ok_def simp del: of_nat_sum)
qed

lemma counter_ok_store:
  assumes ok: "counter_ok P s" and i: "i < num_threads P" and st: "cpc (threads s i) = StoreCounter"
    and c: "target P (iter (threads s i)) = Some c" "c < cells P"
    and alone: "\<And>j. j < num_threads P \<Longrightarrow> cpc (threads s j) = StoreCounter \<Longrightarrow> j = i"
    and run: "mpc s \<noteq> MainDone" and x: "stored P x = Suc (stored P (threads s i))" "cpc x = InUnlock"
  shows "counter_ok P (set_thread i x (s\<lparr>counter := (counter s)(c := reg (threads s i) + 1)\<rparr>))"
proof -
  have "(\<Sum>j<num_threads P. stored P (((threads s)(i := x)) j))
      = Suc (\<Sum>j<num_threads P. stored P (threads s j))"
    by (rule sum_update_Suc [OF i]) (simp_all add: x)
  moreover have "reg (threads s i) = counter s c"
    using ok i st c by (auto simp: counter_ok_def)
  ultimately show ?thesis
    using ok alone run x(2) total_update [OF c(2), of "counter s" "counter s c"]
    by (auto simp: counter_ok_def simp del: of_nat_sum)
qed

lemma counter_ok_thread:
  assumes ok: "counter_ok P s" "prog_ok P s" and i: "i < num_threads P"
    and st: "t \<in> set (count_step P i s)"
    and cell: "\<And>r c. target P r = Some c \<Longrightarrow> c < cells P"
    and alone: "\<And>j. j < num_threads P \<Longrightarrow> writing P s i \<Longrightarrow> critical s j \<Longrightarrow> i = j"
  shows "counter_ok P t"
proof -
  have run: "mpc s \<noteq> MainDone"
    using ok(2) i st by (auto simp: prog_ok_def count_step_def)
  show ?thesis
    using st
  proof (cases rule: count_step_cases)
    case store
    then obtain c where c: "target P (iter (threads s i)) = Some c"
      using ok(1) i by (auto simp: counter_ok_def)
    have "writing P s i" using store c by (simp add: writing_def critical_def)
    then have one: "j = i" if "j < num_threads P" "cpc (threads s j) = StoreCounter" for j
      using alone [OF that(1)] that(2) by (simp add: critical_def)
    show ?thesis
      unfolding store(2) c option.sel
      by (rule counter_ok_store [OF ok(1) i store(1) c cell [OF c] one run])
        (simp_all add: stored_def c store(1))
  qed (simp_all add: counter_ok_keep [OF ok(1) i] run stored_def)
qed

lemma counter_ok_main:
  assumes ok: "counter_ok P s" "prog_ok P s" and st: "t \<in> set (main_step P s)"
  shows "counter_ok P t"
  using st
proof (cases rule: main_step_cases)
  case (create i)
  then have "cpc (threads s i) = NotCreated" using ok(2) by (simp add: prog_ok_def)
  with create show ?thesis by (simp add: counter_ok_keep [OF ok(1)] stored_def)
qed (use ok(1) in \<open>simp_all add: counter_ok_def\<close>)

lemma counter_ok_done:
  assumes ok: "counter_ok P s" "prog_ok P s" and fin: "mpc s = MainDone"
  shows "\<exists>ms. printed s =
    ms @ [ValueMsg (of_nat (num_threads P * increments P (rounds P))) (expected_count P)]"
proof -
  have "(\<Sum>i<num_threads P. stored P (threads s i)) = (\<Sum>i<num_threads P. increments P (rounds P))"
    using ok(2) fin by (intro sum_update_same) (simp add: prog_ok_def thread_ok_def stored_def)
  then have "total P (counter s) = of_nat (num_threads P * increments P (rounds P))"
    using ok(1) by (simp add: counter_ok_def del: of_nat_sum of_nat_mult)
  then show ?thesis using ok(1) fin by (auto simp: counter_ok_def simp del: of_nat_sum of_nat_mult)
qed

text \<open>A round that writes holds an exclusive lock from the call of \<open>lock\<close> on.\<close>

definition modes_ok :: "('l \<Rightarrow> bool) \<Rightarrow> ('s, 'l) program \<Rightarrow> ('s, 'l) prog_state \<Rightarrow> bool" where
  "modes_ok excl P s \<longleftrightarrow> (\<forall>i<num_threads P. cpc (threads s i) = InLock \<or> critical s i \<longrightarrow>
     target P (iter (threads s i)) \<noteq> None \<longrightarrow> excl (tlocal (threads s i)))"

text \<open>A program around a lock with an invariant.\<close>

locale run_program =
  lock_invariant "impl P" "num_threads P" "num_threads P * rounds P" "globals0 P" "locals0 P" inv
  for P :: "('s, 'l) program" and inv :: "('s, 'l) lock_state \<Rightarrow> bool"
begin

definition good :: "('s, 'l) prog_state \<Rightarrow> bool" where
  "good s \<longleftrightarrow> prog_ok P s \<and> inv (lock_view P s)"

lemma good_init: "good (prog_init P)"
  by (simp add: good_def prog_ok_init lock_view_init inv_init)

lemma good_step: "good s \<Longrightarrow> prog_step P s t \<Longrightarrow> good t"
  using prog_step_refines [of P s t] inv_sys by (auto simp: good_def intro: prog_ok_step)

lemma good_reach: "prog_reach P s \<Longrightarrow> good s"
  by (erule run_invariant) (auto intro: good_init good_step)

end

locale rw_program = run_program P inv +
  rw_contract "impl P" "num_threads P" "num_threads P * rounds P" "globals0 P" "locals0 P" inv excl
  for P :: "('s, 'l) program" and inv :: "('s, 'l) lock_state \<Rightarrow> bool" and excl :: "'l \<Rightarrow> bool" +
  assumes target_cell: "target P r = Some c \<Longrightarrow> c < cells P"
begin

lemma modes_ok_step: "modes_ok excl P s \<Longrightarrow> prog_step P s t \<Longrightarrow> modes_ok excl P t"
proof (erule prog_step.cases)
  fix v u
  assume "modes_ok excl P s" "s = u" "t = v" "v \<in> set (main_step P u)"
  then show "modes_ok excl P t"
    by (elim main_step_cases) (auto simp: modes_ok_def critical_def)
next
  fix i v u
  assume s: "modes_ok excl P s" and "s = u" "t = v" and i: "i < num_threads P"
    and st: "v \<in> set (count_step P i u)"
  then have "v \<in> set (count_step P i s)" by simp
  then have "modes_ok excl P v"
  proof (cases rule: count_step_cases)
    case enter
    then show ?thesis using s excl_call by (auto simp: modes_ok_def critical_def)
  next
    case (lock_run g l)
    then show ?thesis
      using s i excl_run [of "tlocal (threads s i)" g l i "globals s"]
      by (auto simp: modes_ok_def critical_def)
  next
    case (lock_ret g l)
    then show ?thesis
      using s i excl_return [of "tlocal (threads s i)" g l i "globals s"]
      by (auto simp: modes_ok_def critical_def)
  qed (use s i in \<open>auto simp: modes_ok_def critical_def\<close>)
  then show "modes_ok excl P t" using \<open>t = v\<close> by simp
qed

definition counted :: "('s, 'l) prog_state \<Rightarrow> bool" where
  "counted s \<longleftrightarrow> good s \<and> modes_ok excl P s \<and> counter_ok P s"

lemma counted_exclusion:
  assumes "counted s" "i < num_threads P" "j < num_threads P" "writing P s i" "critical s j"
  shows "i = j"
  using inv_excl [of "lock_view P s" i j] assms
  unfolding counted_def good_def modes_ok_def writing_def critical_phase by auto

lemma counted_step: "counted s \<Longrightarrow> prog_step P s t \<Longrightarrow> counted t"
proof -
  assume s: "counted s" and st: "prog_step P s t"
  have "counter_ok P t"
    using st
  proof cases
    case main_moves
    then show ?thesis using s by (auto simp: counted_def good_def intro: counter_ok_main)
  next
    case (thread_moves i)
    then show ?thesis
      using s counted_exclusion [OF s] target_cell
      by (intro counter_ok_thread [of P s i t]) (auto simp: counted_def good_def)
  qed
  then show ?thesis
    using s good_step [OF _ st] modes_ok_step [OF _ st] by (simp add: counted_def)
qed

lemma counted_reach: "prog_reach P s \<Longrightarrow> counted s"
proof (erule run_invariant)
  show "counted (prog_init P)"
    using good_init counter_ok_init [of P]
    by (simp add: counted_def modes_ok_def critical_def prog_init_def)
qed (rule counted_step)

lemma excludes_writers: "writer_exclusion P"
  unfolding writer_exclusion_def using counted_reach counted_exclusion by blast

lemma counts: "prints_total P"
  unfolding prints_total_def using counted_reach counter_ok_done unfolding counted_def good_def by blast

end

locale locked_program = run_program P inv +
  lock_contract "impl P" "num_threads P" "num_threads P * rounds P" "globals0 P" "locals0 P" inv
  for P :: "('s, 'l) program" and inv :: "('s, 'l) lock_state \<Rightarrow> bool" +
  assumes cell_bound: "target P r = Some c \<Longrightarrow> c < cells P"
begin

lemma excludes: "mutual_exclusion P"
  unfolding mutual_exclusion_def critical_phase
  using good_reach inv_mutex [of "lock_view P s" for s] by (auto simp: good_def)

end

sublocale locked_program \<subseteq> rw_program P inv "\<lambda>_. True"
  by unfold_locales (rule cell_bound)

subsection \<open>Programs whose lock never gets stuck can always finish\<close>

fun cpc_rank :: "nat \<Rightarrow> cpc \<Rightarrow> nat" where
  "cpc_rank m NotCreated = m + 3"
| "cpc_rank m LoopHead = m + 2"
| "cpc_rank m (PrintEnd k) = Suc (m - k)"
| "cpc_rank m LoadCounter = 1"
| "cpc_rank m _ = 0"

fun mpc_rank :: "nat \<Rightarrow> mpc \<Rightarrow> nat" where
  "mpc_rank n (Create k) = 2 * n + 3 - k"
| "mpc_rank n (Join k) = n + 2 - k"
| "mpc_rank n PrintValue = 1"
| "mpc_rank n MainDone = 0"

definition prog_rank :: "('s, 'l) program \<Rightarrow> ('s, 'l) prog_state \<Rightarrow> nat" where
  "prog_rank P s = mpc_rank (num_threads P) (mpc s) +
     (\<Sum>i<num_threads P. cpc_rank (cells P) (cpc (threads s i)))"

lemma prog_rank_thread:
  assumes "i < num_threads P" "mpc u = mpc s" "threads u = threads s"
    "cpc_rank (cells P) (cpc x) < cpc_rank (cells P) (cpc (threads s i))"
  shows "prog_rank P (set_thread i x u) < prog_rank P s"
  unfolding prog_rank_def using assms
  by (auto intro!: add_le_less_mono sum_update_less [of i])

lemma prog_rank_main: "t \<in> set (main_step P s) \<Longrightarrow> prog_ok P s \<Longrightarrow> prog_rank P t < prog_rank P s"
proof -
  assume st: "t \<in> set (main_step P s)" and ok: "prog_ok P s"
  show ?thesis
    using st
  proof (cases rule: main_step_cases)
    case (create i)
    then have "cpc (threads s i) = NotCreated" using ok by (simp add: prog_ok_def)
    then have "(\<Sum>j<num_threads P. cpc_rank (cells P) (cpc (threads t j)))
        < (\<Sum>j<num_threads P. cpc_rank (cells P) (cpc (threads s j)))"
      using create by (intro sum_update_less [of i]) auto
    then show ?thesis using create by (simp add: prog_rank_def)
  qed (use ok in \<open>auto simp: prog_rank_def prog_ok_def\<close>)
qed

text \<open>A step of a thread that the lock does not see.\<close>

lemma quiet_step:
  assumes "set_thread i x u \<in> set (count_step P i s)" "i < num_threads P"
    and "threads u = threads s" "globals u = globals s" "mpc u = mpc s"
    and "thread_calls x = thread_calls (threads s i)" "tlocal x = tlocal (threads s i)"
    and "phase_at (cpc x) = phase_at (cpc (threads s i))"
    and "cpc_rank (cells P) (cpc x) < cpc_rank (cells P) (cpc (threads s i))"
  shows "\<exists>t. prog_step P s t \<and> lock_view P t = lock_view P s \<and> prog_rank P t < prog_rank P s"
  using thread_moves [OF assms(2,1)] lock_view_stutter [of i P u s x] prog_rank_thread [of i P u s x]
    assms by blast

text \<open>A thread outside the lock, or \<open>main\<close>, can move while no thread is inside the lock.\<close>

lemma idle_progress:
  assumes ok: "prog_ok P s" and run: "mpc s \<noteq> MainDone"
    and idle: "\<And>i. i < num_threads P \<Longrightarrow> phase_at (cpc (threads s i)) = Out"
  shows "\<exists>t. prog_step P s t \<and>
    (calls (lock_view P t) = Suc (calls (lock_view P s)) \<or>
     lock_view P t = lock_view P s \<and> prog_rank P t < prog_rank P s)"
proof (cases "main_step P s")
  case (Cons t ts)
  then have "t \<in> set (main_step P s)" by simp
  then show ?thesis
    using main_step_refines prog_rank_main ok by (blast intro: main_moves)
next
  case Nil
  then obtain k where k: "mpc s = Join k" "k < num_threads P" "cpc (threads s k) \<noteq> Exited"
    using run by (auto simp: main_step_def split: mpc.splits if_splits)
  let ?t = "threads s k"
  have made: "cpc ?t \<noteq> NotCreated" using ok k by (simp add: prog_ok_def)
  consider "cpc ?t = LoopHead" "iter ?t < rounds P" | "cpc ?t = LoopHead" "\<not> iter ?t < rounds P"
    | m where "cpc ?t = PrintEnd m" "m < cells P" | m where "cpc ?t = PrintEnd m" "\<not> m < cells P"
    using idle [OF k(2)] made k(3) by (cases "cpc ?t") auto
  then show ?thesis
  proof cases
    case 1
    then have "set_thread k (?t\<lparr>cpc := InLock, tlocal := lock_call (impl P) (target P (iter ?t) \<noteq> None) k (tlocal ?t)\<rparr>) s
        \<in> set (count_step P k s)" by (simp add: count_step_def Let_def)
    from thread_moves [OF k(2) this] show ?thesis
      using 1 by (auto intro!: exI simp: lock_view_call [OF k(2)] thread_calls_def)
  next
    case 2
    then have "set_thread k (?t\<lparr>cpc := PrintEnd 0, reg := 0\<rparr>) s \<in> set (count_step P k s)"
      by (simp add: count_step_def Let_def)
    from quiet_step [OF this k(2)] show ?thesis using 2 by (auto simp: thread_calls_def)
  next
    case (3 m)
    then have "cells P - Suc m < cells P - m" by simp
    from 3 have "set_thread k (?t\<lparr>cpc := PrintEnd (Suc m), reg := reg ?t + counter s m\<rparr>) s
        \<in> set (count_step P k s)" by (simp add: count_step_def Let_def)
    from quiet_step [OF this k(2)] show ?thesis
      using 3 \<open>cells P - Suc m < cells P - m\<close> by (auto simp: thread_calls_def)
  next
    case (4 m)
    then have "set_thread k (?t\<lparr>cpc := Exited\<rparr>)
        (s\<lparr>printed := printed s @ [EndMsg k (reg ?t)]\<rparr>) \<in> set (count_step P k s)"
      by (simp add: count_step_def Let_def)
    from quiet_step [OF this k(2)] show ?thesis using 4 by (auto simp: thread_calls_def)
  qed
qed

text \<open>A step of the lock is a step of the program, after a load for the call of \<open>unlock\<close>.\<close>

lemma count_step_intros:
  assumes "i < num_threads P"
  shows "cpc (threads s i) = InLock \<Longrightarrow>
      Running g l \<in> set (lock_step (impl P) i (globals s) (tlocal (threads s i))) \<Longrightarrow>
      prog_step P s (set_thread i ((threads s i)\<lparr>tlocal := l\<rparr>) (s\<lparr>globals := g\<rparr>))"
    and "cpc (threads s i) = InLock \<Longrightarrow>
      Returned g l \<in> set (lock_step (impl P) i (globals s) (tlocal (threads s i))) \<Longrightarrow>
      prog_step P s
        (set_thread i ((threads s i)\<lparr>cpc := LoadCounter, tlocal := l\<rparr>) (s\<lparr>globals := g\<rparr>))"
    and "cpc (threads s i) = InUnlock \<Longrightarrow>
      Running g l \<in> set (unlock_step (impl P) i (globals s) (tlocal (threads s i))) \<Longrightarrow>
      prog_step P s (set_thread i ((threads s i)\<lparr>tlocal := l\<rparr>) (s\<lparr>globals := g\<rparr>))"
    and "cpc (threads s i) = InUnlock \<Longrightarrow>
      Returned g l \<in> set (unlock_step (impl P) i (globals s) (tlocal (threads s i))) \<Longrightarrow>
      prog_step P s (set_thread i ((threads s i)\<lparr>cpc := LoopHead,
        iter := Suc (iter (threads s i)), tlocal := l\<rparr>) (s\<lparr>globals := g\<rparr>))"
  by (rule thread_moves [OF assms], force simp: count_step_def Let_def)+

lemma phase_at_iff [simp]:
  "phase_at c = Try \<longleftrightarrow> c = InLock"
  "phase_at c = Crit \<longleftrightarrow> c = LoadCounter \<or> c = StoreCounter"
  "phase_at c = Rel \<longleftrightarrow> c = InUnlock"
  by (cases c; simp)+

lemma lock_act_lifts:
  assumes act: "lock_act (impl P) (num_threads P) (lock_view P s) v"
  shows "\<exists>t. prog_step P s t \<and>
    (lock_view P t = v \<or> lock_view P t = lock_view P s \<and> prog_rank P t < prog_rank P s)"
  using act
proof cases
  case (unlock_called i)
  then consider c where "cpc (threads s i) = LoadCounter" "target P (iter (threads s i)) = Some c"
    | "cpc (threads s i) = LoadCounter" "target P (iter (threads s i)) = None"
    | "cpc (threads s i) = StoreCounter" by auto
  then show ?thesis
  proof cases
    case (1 c)
    then have "set_thread i ((threads s i)\<lparr>cpc := StoreCounter, reg := counter s c\<rparr>) s
        \<in> set (count_step P i s)" by (simp add: count_step_def Let_def)
    from quiet_step [OF this unlock_called(2)] show ?thesis using 1 by (auto simp: thread_calls_def)
  next
    case 2
    then have "set_thread i ((threads s i)\<lparr>cpc := InUnlock, reg := counter s 0,
        tlocal := unlock_call (impl P) i (tlocal (threads s i))\<rparr>) s
        \<in> set (count_step P i s)" by (simp add: count_step_def Let_def)
    from thread_moves [OF unlock_called(2) this] show ?thesis
      using 2 unlock_called by (intro exI conjI disjI1)
        (auto simp: lock_view_move thread_calls_def)
  next
    case 3
    then have "set_thread i ((threads s i)\<lparr>cpc := InUnlock,
        tlocal := unlock_call (impl P) i (tlocal (threads s i))\<rparr>)
        (s\<lparr>counter := (counter s)(the (target P (iter (threads s i))) := reg (threads s i) + 1)\<rparr>) \<in> set (count_step P i s)"
      by (simp add: count_step_def Let_def)
    from thread_moves [OF unlock_called(2) this] show ?thesis
      using 3 unlock_called by (intro exI conjI disjI1)
        (auto simp: lock_view_move thread_calls_def)
  qed
next
  case (lock_runs i g l)
  then show ?thesis
    using count_step_intros(1) [of i P s g l] by (auto simp: lock_view_move thread_calls_def)
next
  case (lock_returns i g l)
  then show ?thesis
    using count_step_intros(2) [of i P s g l] by (auto simp: lock_view_move thread_calls_def)
next
  case (unlock_runs i g l)
  then show ?thesis
    using count_step_intros(3) [of i P s g l] by (auto simp: lock_view_move thread_calls_def)
next
  case (unlock_returns i g l)
  then show ?thesis
    using count_step_intros(4) [of i P s g l] by (auto simp: lock_view_move thread_calls_def)
qed

lemma lock_act_calls: "lock_act L n s t \<Longrightarrow> calls t = calls s"
  by (induction rule: lock_act.induct) simp_all

lemma calls_le:
  assumes "prog_ok P s"
  shows "calls (lock_view P s) \<le> num_threads P * rounds P"
proof -
  have "(\<Sum>i<num_threads P. thread_calls (threads s i)) \<le> (\<Sum>i<num_threads P. rounds P)"
    using assms by (intro sum_mono) (auto simp: prog_ok_def thread_ok_def thread_calls_def)
  then show ?thesis by (simp add: lock_view_def)
qed

locale finishing_program = run_program P inv +
  live_lock "impl P" "num_threads P" "num_threads P * rounds P" "globals0 P" "locals0 P" inv mu
  for P :: "('s, 'l) program" and inv :: "('s, 'l) lock_state \<Rightarrow> bool"
    and mu :: "('s, 'l) lock_state \<Rightarrow> nat"
begin

lemma good_progress:
  assumes s: "good s" and run: "mpc s \<noteq> MainDone"
  shows "\<exists>t. prog_step P s t \<and> (t, s) \<in> measures
    [\<lambda>s. num_threads P * rounds P - calls (lock_view P s), \<lambda>s. mu (lock_view P s), prog_rank P]"
proof (cases "\<exists>i<num_threads P. phase_at (cpc (threads s i)) \<noteq> Out")
  case True
  then obtain v where v: "lock_act (impl P) (num_threads P) (lock_view P s) v"
      "mu v < mu (lock_view P s)"
    using progress s by (fastforce simp: good_def)
  then show ?thesis
    using lock_act_lifts [OF v(1)] lock_act_calls [OF v(1)] by auto
next
  case False
  moreover have "prog_ok P s" using s by (simp add: good_def)
  ultimately obtain t where t: "prog_step P s t" "calls (lock_view P t) = Suc (calls (lock_view P s)) \<or>
      lock_view P t = lock_view P s \<and> prog_rank P t < prog_rank P s"
    using idle_progress run by blast
  have "calls (lock_view P t) \<le> num_threads P * rounds P"
    using good_step [OF s t(1)] by (intro calls_le) (simp add: good_def)
  then show ?thesis using t by (intro exI [of _ t]) auto
qed

lemma finishes: "can_finish P"
  unfolding can_finish_def
proof (intro allI impI)
  fix s
  assume "prog_reach P s"
  then have "good s" by (rule good_reach)
  with wf_measures show "\<exists>t. (prog_step P)\<^sup>*\<^sup>* s t \<and> mpc t = MainDone"
  proof (rule run_reaches)
    fix u
    assume "good u" "mpc u \<noteq> MainDone"
    then show "\<exists>v. prog_step P u v \<and> good v \<and> (v, u) \<in> measures
      [\<lambda>s. num_threads P * rounds P - calls (lock_view P s), \<lambda>s. mu (lock_view P s), prog_rank P]"
      using good_progress good_step by blast
  qed
qed

end

locale live_program = locked_program P inv + finishing_program P inv mu
  for P :: "('s, 'l) program" and inv :: "('s, 'l) lock_state \<Rightarrow> bool"
    and mu :: "('s, 'l) lock_state \<Rightarrow> nat"
begin

lemma correct: "program_correct P"
  by (simp add: program_correct_def excludes counts finishes)

end

locale live_rw_program = rw_program P inv excl + finishing_program P inv mu
  for P :: "('s, 'l) program" and inv :: "('s, 'l) lock_state \<Rightarrow> bool" and excl :: "'l \<Rightarrow> bool"
    and mu :: "('s, 'l) lock_state \<Rightarrow> nat"
begin

lemma rw_correct: "rw_correct P"
  by (simp add: rw_correct_def excludes_writers counts finishes)

end

subsection \<open>The refinement, as a property of every program\<close>

lemma lock_view_reach:
  assumes "prog_reach P s"
  shows "(lock_sys (impl P) (num_threads P) (num_threads P * rounds P))\<^sup>*\<^sup>*
    (lock_init (globals0 P) (locals0 P)) (lock_view P s)"
proof -
  have "(lock_sys (impl P) (num_threads P) (num_threads P * rounds P))\<^sup>*\<^sup>*
    (lock_view P (prog_init P)) (lock_view P s)"
  proof (rule run_simulation [where I = "prog_ok P" and view = "lock_view P", OF assms prog_ok_init])
    show "prog_ok P v" if "prog_ok P u" "prog_step P u v" for u v
      using that by (rule prog_ok_step)
    show "lock_view P v = lock_view P u \<or> lock_sys (impl P) (num_threads P)
        (num_threads P * rounds P) (lock_view P u) (lock_view P v)"
      if "prog_ok P u" "prog_step P u v" for u v
      using that by (rule prog_step_refines)
  qed
  then show ?thesis by (simp add: lock_view_init)
qed

subsection \<open>What is printed, and when\<close>

text \<open>The threads whose last line is out, in its order, and the values \<open>main\<close> has printed.\<close>

fun enders :: "message list \<Rightarrow> tid list" where
  "enders [] = []"
| "enders (EndMsg i v # ms) = i # enders ms"
| "enders (ValueMsg v e # ms) = enders ms"

fun values_of :: "message list \<Rightarrow> (cint \<times> nat) list" where
  "values_of [] = []"
| "values_of (EndMsg i v # ms) = values_of ms"
| "values_of (ValueMsg v e # ms) = (v, e) # values_of ms"

lemma enders_append [simp]: "enders (xs @ ys) = enders xs @ enders ys"
  by (induction xs rule: enders.induct) auto

lemma values_append [simp]: "values_of (xs @ ys) = values_of xs @ values_of ys"
  by (induction xs rule: values_of.induct) auto

definition output_ok :: "('s, 'l) program \<Rightarrow> ('s, 'l) prog_state \<Rightarrow> bool" where
  "output_ok P s \<longleftrightarrow> distinct (enders (printed s)) \<and>
     set (enders (printed s)) = {i. i < num_threads P \<and> cpc (threads s i) = Exited} \<and>
     values_of (printed s) = (if mpc s = MainDone then [(total P (counter s), expected_count P)] else [])"

lemma output_ok_init: "output_ok P (prog_init P)"
  by (simp add: output_ok_def prog_init_def)

lemma output_ok_quiet:
  assumes "output_ok P s" "printed t = printed s" "mpc t = MainDone \<longleftrightarrow> mpc s = MainDone"
    and "mpc s = MainDone \<Longrightarrow> counter t = counter s"
    and "\<And>i. i < num_threads P \<Longrightarrow> cpc (threads t i) = Exited \<longleftrightarrow> cpc (threads s i) = Exited"
  shows "output_ok P t"
proof -
  have "{i. i < num_threads P \<and> cpc (threads t i) = Exited} = {i. i < num_threads P \<and> cpc (threads s i) = Exited}"
    using assms(5) by blast
  then show ?thesis using assms(1-4) by (simp add: output_ok_def)
qed

lemma output_ok_thread:
  assumes ok: "prog_ok P s" "output_ok P s" and i: "i < num_threads P" and st: "t \<in> set (count_step P i s)"
  shows "output_ok P t"
proof -
  have live: "cpc (threads s i) \<noteq> Exited" using st by (auto simp: count_step_def Let_def)
  then have run: "mpc s \<noteq> MainDone" using ok(1) i by (auto simp: prog_ok_def)
  show ?thesis
    using st
  proof (cases rule: count_step_cases)
    case (print_end k)
    have "{j. j < num_threads P \<and> cpc (threads t j) = Exited} = insert i {j. j < num_threads P \<and> cpc (threads s j) = Exited}"
      using print_end i by auto
    then show ?thesis using ok(2) live run print_end by (simp add: output_ok_def)
  qed (rule output_ok_quiet [OF ok(2)]; use live run in \<open>simp\<close>)+
qed

lemma output_ok_main:
  assumes ok: "prog_ok P s" "output_ok P s" and st: "t \<in> set (main_step P s)"
  shows "output_ok P t"
  using st
proof (cases rule: main_step_cases)
  case (create i)
  then have "cpc (threads s i) = NotCreated" using ok(1) by (simp add: prog_ok_def)
  then show ?thesis by (intro output_ok_quiet [OF ok(2)]) (simp_all add: create(1,3))
qed (use ok(2) in \<open>auto simp: output_ok_def\<close>)

lemma output_ok_reach: "prog_reach P s \<Longrightarrow> prog_ok P s \<and> output_ok P s"
proof (erule run_invariant)
  show "prog_ok P (prog_init P) \<and> output_ok P (prog_init P)" using prog_ok_init output_ok_init by blast
  show "prog_ok P v \<and> output_ok P v" if "prog_ok P u \<and> output_ok P u" "prog_step P u v" for u v
  proof
    have ok: "prog_ok P u" "output_ok P u" using that(1) by blast+
    show "prog_ok P v" using ok(1) that(2) by (rule prog_ok_step)
    from that(2) show "output_ok P v"
      by cases (use output_ok_main [OF ok] output_ok_thread [OF ok] in blast)+
  qed
qed

text \<open>What the last line printed says when the macros have their values.\<close>

lemma expected_total:
  assumes "prints_total P" "num_threads P = NUM_THREADS" "max_count P = MAX_COUNT"
    and "expected_count P = max_count P" "target P = one_counter" "prog_reach P s" "mpc s = MainDone"
  shows "\<exists>ms. printed s = ms @ [ValueMsg 10000000 10000000]"
proof -
  have "num_threads P * increments P (rounds P) = MAX_COUNT"
    using assms(2,3) by (simp add: increments_one_counter [OF assms(5)] rounds_def NUM_THREADS_def MAX_COUNT_def)
  moreover obtain ms where
    "printed s = ms @ [ValueMsg (of_nat (num_threads P * increments P (rounds P))) (expected_count P)]"
    using assms(1,6,7) unfolding prints_total_def by blast
  moreover have "(of_nat MAX_COUNT :: cint) = 10000000" by (simp add: MAX_COUNT_def)
  ultimately show ?thesis by (metis MAX_COUNT_def assms(3,4))
qed

lemma finished_state:
  assumes "can_finish P"
  shows "\<exists>s. prog_reach P s \<and> mpc s = MainDone"
  using assms unfolding can_finish_def by blast

lemma correct_parts:
  "program_correct P \<Longrightarrow> mutual_exclusion P"
  "program_correct P \<Longrightarrow> prints_total P"
  "program_correct P \<Longrightarrow> can_finish P"
  by (simp_all add: program_correct_def)

end
