(* ===== verification/Flag_Lock.thy ===== *)
theory Flag_Lock
  imports Harness
begin

section \<open>Locks that are one flag\<close>

text \<open>
  The spin locks on one global \<open>mutex\<close> (test-and-set, swap, compare-and-swap and their
  variants) share one argument: a step inside a call leaves the flag as it found it, \<open>lock\<close>
  returns only in a step that turns a free flag into a held one, and the last step of
  \<open>unlock\<close> frees it. The locale \<open>token_lock\<close> states this contract on the two functions, with
  a condition on the globals every step keeps (\<open>sane\<close>), the local states each phase can be in
  (\<open>ok\<close>) and a rank that shows how a thread running alone on a free flag gets out;
  \<open>token_program\<close> and \<open>flag_program\<close> are test programs around such a lock.
\<close>

definition owners :: "nat \<Rightarrow> ('s, 'l) lock_state \<Rightarrow> tid set" where
  "owners n s = {i. i < n \<and> owning (phase_of s i)}"

lemma owners_calls [simp]: "owners n (s\<lparr>calls := c\<rparr>) = owners n s"
  by (simp add: owners_def)

lemma owners_same:
  "owning p = owning (phase_of s i) \<Longrightarrow> owners n (move i p s' l' s) = owners n s"
  by (auto simp: owners_def)

lemma owners_in: "owning p \<Longrightarrow> i < n \<Longrightarrow> owners n (move i p s' l' s) = insert i (owners n s)"
  by (auto simp: owners_def)

lemma owners_out: "\<not> owning p \<Longrightarrow> owners n (move i p s' l' s) = owners n s - {i}"
  by (auto simp: owners_def)

lemma owners_mem: "i \<in> owners n s \<longleftrightarrow> i < n \<and> owning (phase_of s i)"
  by (simp add: owners_def)

definition flag_inv ::
  "('s \<Rightarrow> bool) \<Rightarrow> ('s \<Rightarrow> bool) \<Rightarrow> (phase \<Rightarrow> 'l \<Rightarrow> bool) \<Rightarrow> nat \<Rightarrow> ('s, 'l) lock_state \<Rightarrow> bool" where
  "flag_inv sane held ok n s \<longleftrightarrow>
     sane (shared s) \<and> (\<forall>i<n. ok (phase_of s i) (local_of s i)) \<and>
     (if held (shared s) then \<exists>k. owners n s = {k} else owners n s = {})"

locale token_lock =
  fixes L :: "('s, 'l) lock_impl" and n b :: nat and s0 :: 's and l0 :: "tid \<Rightarrow> 'l"
    and sane held :: "'s \<Rightarrow> bool" and ok :: "phase \<Rightarrow> 'l \<Rightarrow> bool" and rank :: "'l \<Rightarrow> nat" and r :: nat
  assumes free0: "sane s0" "\<not> held s0"
    and ok_idle: "ok Out l" "ok Crit l"
    and ok_call: "ok Try (lock_call L w i l)" "ok Rel (unlock_call L i l)"
    and lock_running: "sane s \<Longrightarrow> ok Try l \<Longrightarrow> Running s' l' \<in> set (lock_step L i s l) \<Longrightarrow>
      sane s' \<and> held s' = held s \<and> ok Try l'"
    and lock_returned: "sane s \<Longrightarrow> ok Try l \<Longrightarrow> Returned s' l' \<in> set (lock_step L i s l) \<Longrightarrow>
      sane s' \<and> \<not> held s \<and> held s'"
    and unlock_running: "sane s \<Longrightarrow> held s \<Longrightarrow> ok Rel l \<Longrightarrow> Running s' l' \<in> set (unlock_step L i s l) \<Longrightarrow>
      sane s' \<and> held s' = held s \<and> ok Rel l'"
    and unlock_returned: "sane s \<Longrightarrow> held s \<Longrightarrow> ok Rel l \<Longrightarrow> Returned s' l' \<in> set (unlock_step L i s l) \<Longrightarrow>
      sane s' \<and> \<not> held s'"
    and lock_enters: "sane s \<Longrightarrow> ok Try l \<Longrightarrow> \<not> held s \<Longrightarrow>
      (\<exists>s' l'. Returned s' l' \<in> set (lock_step L i s l)) \<or>
      (\<exists>s' l'. Running s' l' \<in> set (lock_step L i s l) \<and> rank l' < rank l)"
    and unlock_leaves: "sane s \<Longrightarrow> ok Rel l \<Longrightarrow>
      (\<exists>s' l'. Returned s' l' \<in> set (unlock_step L i s l)) \<or>
      (\<exists>s' l'. Running s' l' \<in> set (unlock_step L i s l) \<and> rank l' < rank l)"
    and unlock_rank: "rank (unlock_call L i l) < r"
begin

abbreviation token_inv :: "('s, 'l) lock_state \<Rightarrow> bool" where
  "token_inv \<equiv> flag_inv sane held ok n"

lemma flag_init: "token_inv (lock_init s0 l0)"
  by (simp add: flag_inv_def lock_init_def owners_def free0 ok_idle)

lemma flag_call:
  "token_inv s \<Longrightarrow> i < n \<Longrightarrow> phase_of s i = Out \<Longrightarrow>
    token_inv ((move i Try (shared s) (lock_call L w i (local_of s i)) s)\<lparr>calls := Suc (calls s)\<rparr>)"
  by (simp add: flag_inv_def ok_call owners_same)

lemma flag_owned: "token_inv s \<Longrightarrow> i < n \<Longrightarrow> owning (phase_of s i) \<Longrightarrow> held (shared s)"
  using owners_mem [of i n s] by (auto simp: flag_inv_def split: if_splits)

lemma flag_act:
  assumes s: "token_inv s" and act: "lock_act L n s t"
  shows "token_inv t"
  using act
proof cases
  case (lock_runs i s' l')
  then have "sane s' \<and> held s' = held (shared s) \<and> ok Try l'"
    using s by (intro lock_running [of "shared s" "local_of s i"]) (auto simp: flag_inv_def)
  then show ?thesis using s lock_runs by (simp add: flag_inv_def owners_same)
next
  case (lock_returns i s' l')
  then have "sane s' \<and> \<not> held (shared s) \<and> held s'"
    using s by (intro lock_returned [of "shared s" "local_of s i"]) (auto simp: flag_inv_def)
  then show ?thesis using s lock_returns by (simp add: flag_inv_def ok_idle owners_in)
next
  case (unlock_called i)
  then show ?thesis using s by (simp add: flag_inv_def ok_call owners_same)
next
  case (unlock_runs i s' l')
  then have "held (shared s)" using flag_owned [OF s] by simp
  then have "sane s' \<and> held s' = held (shared s) \<and> ok Rel l'"
    using s unlock_runs by (intro unlock_running [of "shared s" "local_of s i"]) (auto simp: flag_inv_def)
  then show ?thesis using s unlock_runs by (simp add: flag_inv_def owners_same)
next
  case (unlock_returns i s' l')
  then have "held (shared s)" using flag_owned [OF s] by simp
  then have "sane s' \<and> \<not> held s'"
    using s unlock_returns by (intro unlock_returned [of "shared s" "local_of s i"]) (auto simp: flag_inv_def)
  moreover have "owners n s \<subseteq> {i}"
    using s unlock_returns owners_mem [of i n s] by (auto simp: flag_inv_def split: if_splits)
  ultimately show ?thesis
    using s unlock_returns by (auto simp: flag_inv_def ok_idle owners_out)
qed

lemma flag_mutex:
  "token_inv s \<Longrightarrow> i < n \<Longrightarrow> j < n \<Longrightarrow> phase_of s i = Crit \<Longrightarrow> phase_of s j = Crit \<Longrightarrow> i = j"
  using owners_mem [of i n s] owners_mem [of j n s] by (auto simp: flag_inv_def split: if_splits)

lemma flag_progress:
  assumes s: "token_inv s" and i: "i < n" "phase_of s i \<noteq> Out"
  shows "\<exists>t. lock_act L n s t \<and> drain_weight r rank n t < drain_weight r rank n s"
proof -
  have "\<exists>k<n. phase_of s k = Crit \<or> phase_of s k = Rel \<or> \<not> held (shared s) \<and> phase_of s k = Try"
  proof (cases "held (shared s)")
    case True
    then obtain k where "k \<in> owners n s" using s by (auto simp: flag_inv_def)
    then show ?thesis unfolding owners_mem by (cases "phase_of s k") auto
  next
    case False
    then show ?thesis using i by (cases "phase_of s i") auto
  qed
  then obtain k where k: "k < n" and
    "phase_of s k = Crit \<or> phase_of s k = Rel \<or> \<not> held (shared s) \<and> phase_of s k = Try" by blast
  moreover have "ok (phase_of s k) (local_of s k)" "sane (shared s)" using s k by (simp_all add: flag_inv_def)
  ultimately show ?thesis
    using drain_steps [OF k] lock_enters unlock_leaves unlock_rank by metis
qed

end

sublocale token_lock \<subseteq> live_contract L n b s0 l0 "flag_inv sane held ok n" "drain_weight r rank n"
  by unfold_locales (auto intro: flag_init flag_call flag_act flag_mutex flag_progress)

locale token_program =
  token_lock "impl P" "num_threads P" "num_threads P * rounds P" "globals0 P" "locals0 P"
    sane held ok rank r
  for P :: "('s, 'l) program" and sane held :: "'s \<Rightarrow> bool" and ok :: "phase \<Rightarrow> 'l \<Rightarrow> bool"
    and rank :: "'l \<Rightarrow> nat" and r :: nat +
  assumes target_bound: "target P k = Some c \<Longrightarrow> c < cells P"

sublocale token_program \<subseteq>
  live_program P "flag_inv sane held ok (num_threads P)" "drain_weight r rank (num_threads P)"
  by unfold_locales (rule target_bound)

text \<open>Most of the spin locks need no condition on the global state.\<close>

locale flag_program =
  fixes P :: "('s, 'l) program" and held :: "'s \<Rightarrow> bool" and ok :: "phase \<Rightarrow> 'l \<Rightarrow> bool"
    and rank :: "'l \<Rightarrow> nat" and r :: nat
  assumes flag_free0: "\<not> held (globals0 P)"
    and flag_ok_idle: "ok Out l" "ok Crit l"
    and flag_ok_call: "ok Try (lock_call (impl P) w i l)" "ok Rel (unlock_call (impl P) i l)"
    and flag_lock_running: "ok Try l \<Longrightarrow> Running s' l' \<in> set (lock_step (impl P) i s l) \<Longrightarrow>
      held s' = held s \<and> ok Try l'"
    and flag_lock_returned: "ok Try l \<Longrightarrow> Returned s' l' \<in> set (lock_step (impl P) i s l) \<Longrightarrow>
      \<not> held s \<and> held s'"
    and flag_unlock_running: "ok Rel l \<Longrightarrow> Running s' l' \<in> set (unlock_step (impl P) i s l) \<Longrightarrow>
      held s' = held s \<and> ok Rel l'"
    and flag_unlock_returned: "ok Rel l \<Longrightarrow> Returned s' l' \<in> set (unlock_step (impl P) i s l) \<Longrightarrow> \<not> held s'"
    and flag_lock_enters: "ok Try l \<Longrightarrow> \<not> held s \<Longrightarrow>
      (\<exists>s' l'. Returned s' l' \<in> set (lock_step (impl P) i s l)) \<or>
      (\<exists>s' l'. Running s' l' \<in> set (lock_step (impl P) i s l) \<and> rank l' < rank l)"
    and flag_unlock_leaves: "ok Rel l \<Longrightarrow>
      (\<exists>s' l'. Returned s' l' \<in> set (unlock_step (impl P) i s l)) \<or>
      (\<exists>s' l'. Running s' l' \<in> set (unlock_step (impl P) i s l) \<and> rank l' < rank l)"
    and flag_unlock_rank: "rank (unlock_call (impl P) i l) < r"
    and flag_target_bound: "target P k = Some c \<Longrightarrow> c < cells P"

sublocale flag_program \<subseteq> token_program P "\<lambda>_. True" held ok rank r
  by unfold_locales
    (simp_all add: flag_free0 flag_ok_idle flag_ok_call flag_unlock_rank flag_lock_enters flag_unlock_leaves
      flag_unlock_returned, (blast dest: flag_lock_running flag_lock_returned flag_unlock_running
      flag_target_bound)+)

context flag_program begin

lemma flag_correct: "program_correct P"
  by (rule correct)

end

end
