(* ===== verification/Spin_Common.thy ===== *)
theory Spin_Common
  imports Flag_Lock
begin

section \<open>What the spin locks on one word share\<close>

text \<open>
  The program counters of the spin loops (each constructor is one atomic step of a \<open>lock\<close> or
  an \<open>unlock\<close>), the predicate that says which of them a phase can be at, and the exponential
  backoff of the \<open>*_backoff.c\<close> files.
\<close>

datatype spin_pc = Idle | TestMutex | TestAndSet | Exchange | CompareSwap | ResetLocal
  | Yield | Backoff | Fence | StoreZero

fun spin_rank :: "spin_pc \<Rightarrow> nat" where
  "spin_rank Yield = 5"
| "spin_rank Backoff = 5"
| "spin_rank ResetLocal = 6"
| "spin_rank TestMutex = 3"
| "spin_rank Fence = 1"
| "spin_rank StoreZero = 0"
| "spin_rank Idle = 0"
| "spin_rank _ = 2"

fun spin_at :: "spin_pc set \<Rightarrow> spin_pc set \<Rightarrow> phase \<Rightarrow> spin_pc \<Rightarrow> bool" where
  "spin_at trying releasing Try l = (l \<in> trying)"
| "spin_at trying releasing Rel l = (l \<in> releasing)"
| "spin_at trying releasing _ l = True"

text \<open>
  \<open>backoff(failures)\<close>: the limit doubles up to 4096, \<open>FAILURES_LIMIT\<close> doublings, and the sleep
  is one nanosecond plus a random number below the limit. The comparison is of \<open>int\<close>s, the
  remainder of \<open>unsigned\<close>s. The value of \<open>rand()\<close> is an argument.
\<close>

definition backoff_limit :: "cint \<Rightarrow> u32" where
  "backoff_limit failures = (if 12 < sint failures then push_bit 12 1 else push_bit (unat failures) 1)"

definition backoff_nsec :: "cint \<Rightarrow> cint \<Rightarrow> u32" where
  "backoff_nsec rand failures = 1 + rand mod backoff_limit failures"

record backoff_local =
  bpc :: spin_pc
  failures :: u32
  nsec :: u32

lemma unat_of_positive:
  fixes f :: cint
  assumes "1 \<le> sint f"
  shows "unat f = nat (sint f)"
proof -
  have "sint f < 2 ^ 31" using sint_lt [of f] by simp
  then have "take_bit 32 (sint f) = sint f" using assms by (intro take_bit_int_eq_self) auto
  moreover have "uint f = take_bit 32 (sint f)" using uint_sint [of f] by simp
  ultimately have "uint f = sint f" by simp
  then show ?thesis unfolding unat_eq_nat_uint by (rule arg_cong)
qed

lemma unat_power_two: "k \<le> 12 \<Longrightarrow> unat (2 ^ k :: u32) = 2 ^ k"
proof -
  assume k: "k \<le> 12"
  then have "(2::nat) ^ k \<le> 2 ^ 12" by (intro power_increasing) auto
  then have "(2::nat) ^ k < 2 ^ 32" by simp
  moreover have "(2 ^ k :: u32) = of_nat (2 ^ k)" by simp
  ultimately show ?thesis using k
    by (simp add: unsigned_of_nat take_bit_nat_eq_self del: of_nat_power)
qed

text \<open>For every number of failures a loop can count up to in an \<open>int\<close>, whatever \<open>rand()\<close>
  returns, the sleep is between 1 and 4096 nanoseconds, and at most \<open>2 ^ failures\<close>.\<close>

lemma backoff_nsec_bounds:
  assumes "1 \<le> sint f"
  shows "1 \<le> unat (backoff_nsec r f) \<and> unat (backoff_nsec r f) \<le> 4096 \<and>
    unat (backoff_nsec r f) \<le> 2 ^ unat f"
proof -
  have nat_f: "unat f = nat (sint f)"
    using assms by (rule unat_of_positive)
  have lim: "0 < unat (backoff_limit f)" "unat (backoff_limit f) \<le> 4096"
    "unat (backoff_limit f) \<le> 2 ^ unat f"
    using assms nat_f power_increasing [of 12 "unat f" "2::nat"] power_increasing [of "unat f" 12 "2::nat"]
    by (auto simp: backoff_limit_def unat_power_two push_bit_eq_mult)
  have "unat (r mod backoff_limit f) < unat (backoff_limit f)"
    using lim(1) by (simp add: unat_mod)
  moreover from this have "unat (backoff_nsec r f) = Suc (unat (r mod backoff_limit f))"
    using lim(2) unfolding backoff_nsec_def by (simp add: unat_word_ariths)
  ultimately show ?thesis using lim by simp
qed

end
