(* ===== verification/Spin_TAS.thy ===== *)
theory Spin_TAS
  imports Spin_Common
begin

section \<open>Test-and-set spin locks\<close>

text \<open>
  \<open>hardware/counter_test_and_set.c\<close> and, under \<open>spinlocks/\<close>, \<open>simple_spinlock.c\<close>,
  \<open>test_test_and_set.c\<close>, \<open>test_and_set_yield.c\<close> and \<open>test_and_set_backoff.c\<close>.
  Each lock spins on one byte. \<open>__atomic_test_and_set\<close> stores 1 and tells whether the byte
  was set; the test-and-test-and-set variants read the byte before they try. A
  \<open>sched_yield\<close> or a fence is a step that changes no memory; the exponential backoff is the
  computation of the nanoseconds to sleep from the number of failures and \<open>rand()\<close>.
\<close>

subsection \<open>\<open>hardware/counter_test_and_set.c\<close>\<close>

fun counter_tas_lock :: "tid \<Rightarrow> u8 \<Rightarrow> spin_pc \<Rightarrow> (u8, spin_pc) outcome list" where
  "counter_tas_lock i mutex TestAndSet =
     [if mutex \<noteq> 0 then Running 1 TestAndSet else Returned 1 Idle]"
| "counter_tas_lock i mutex _ = []"

fun counter_tas_unlock :: "tid \<Rightarrow> u8 \<Rightarrow> spin_pc \<Rightarrow> (u8, spin_pc) outcome list" where
  "counter_tas_unlock i mutex Fence = [Running mutex StoreZero]"
| "counter_tas_unlock i mutex StoreZero = [Returned 0 Idle]"
| "counter_tas_unlock i mutex _ = []"

definition counter_tas_prog :: "nat \<Rightarrow> nat \<Rightarrow> (u8, spin_pc) program" where
  "counter_tas_prog num_thr max_cnt = \<lparr>impl = \<lparr>
       lock_call = (\<lambda>w i l. TestAndSet), lock_step = counter_tas_lock,
       unlock_call = (\<lambda>i l. Fence), unlock_step = counter_tas_unlock\<rparr>,
     num_threads = num_thr, max_count = max_cnt, expected_count = max_cnt, cells = 1, target = one_counter, globals0 = 0, locals0 = (\<lambda>_. Idle)\<rparr>"

interpretation counter_tas:
  flag_program "counter_tas_prog n m" "\<lambda>g. g \<noteq> 0" "spin_at {TestAndSet} {Fence, StoreZero}"
    spin_rank 2 for n m
  by unfold_locales (auto simp: counter_tas_prog_def split: if_splits)

subsection \<open>\<open>spinlocks/simple_spinlock.c\<close>\<close>

fun simple_spinlock_lock :: "tid \<Rightarrow> u8 \<Rightarrow> spin_pc \<Rightarrow> (u8, spin_pc) outcome list" where
  "simple_spinlock_lock i mutex TestMutex =
     [Running mutex (if mutex \<noteq> 0 then TestMutex else TestAndSet)]"
| "simple_spinlock_lock i mutex TestAndSet =
     [if mutex \<noteq> 0 then Running 1 TestMutex else Returned 1 Idle]"
| "simple_spinlock_lock i mutex _ = []"

fun simple_spinlock_unlock :: "tid \<Rightarrow> u8 \<Rightarrow> spin_pc \<Rightarrow> (u8, spin_pc) outcome list" where
  "simple_spinlock_unlock i mutex StoreZero = [Returned 0 Idle]"
| "simple_spinlock_unlock i mutex _ = []"

definition simple_spinlock_prog :: "nat \<Rightarrow> nat \<Rightarrow> (u8, spin_pc) program" where
  "simple_spinlock_prog num_thr max_cnt = \<lparr>impl = \<lparr>
       lock_call = (\<lambda>w i l. TestMutex), lock_step = simple_spinlock_lock,
       unlock_call = (\<lambda>i l. StoreZero), unlock_step = simple_spinlock_unlock\<rparr>,
     num_threads = num_thr, max_count = max_cnt, expected_count = max_cnt, cells = 1, target = one_counter, globals0 = 0, locals0 = (\<lambda>_. Idle)\<rparr>"

interpretation simple_spinlock:
  flag_program "simple_spinlock_prog n m" "\<lambda>g. g \<noteq> 0"
    "spin_at {TestMutex, TestAndSet} {StoreZero}" spin_rank 2 for n m
  by unfold_locales (auto simp: simple_spinlock_prog_def split: if_splits)

subsection \<open>\<open>spinlocks/test_test_and_set.c\<close>\<close>

fun ttas_lock :: "tid \<Rightarrow> u8 \<Rightarrow> spin_pc \<Rightarrow> (u8, spin_pc) outcome list" where
  "ttas_lock i mutex TestMutex = [Running mutex (if mutex \<noteq> 0 then TestMutex else TestAndSet)]"
| "ttas_lock i mutex TestAndSet = [if mutex \<noteq> 0 then Running 1 TestMutex else Returned 1 Idle]"
| "ttas_lock i mutex _ = []"

fun ttas_unlock :: "tid \<Rightarrow> u8 \<Rightarrow> spin_pc \<Rightarrow> (u8, spin_pc) outcome list" where
  "ttas_unlock i mutex Fence = [Running mutex StoreZero]"
| "ttas_unlock i mutex StoreZero = [Returned 0 Idle]"
| "ttas_unlock i mutex _ = []"

definition ttas_prog :: "nat \<Rightarrow> nat \<Rightarrow> (u8, spin_pc) program" where
  "ttas_prog num_thr max_cnt = \<lparr>impl = \<lparr>
       lock_call = (\<lambda>w i l. TestMutex), lock_step = ttas_lock,
       unlock_call = (\<lambda>i l. Fence), unlock_step = ttas_unlock\<rparr>,
     num_threads = num_thr, max_count = max_cnt, expected_count = max_cnt, cells = 1, target = one_counter, globals0 = 0, locals0 = (\<lambda>_. Idle)\<rparr>"

interpretation ttas:
  flag_program "ttas_prog n m" "\<lambda>g. g \<noteq> 0"
    "spin_at {TestMutex, TestAndSet} {Fence, StoreZero}" spin_rank 2 for n m
  by unfold_locales (auto simp: ttas_prog_def split: if_splits)

subsection \<open>\<open>spinlocks/test_and_set_yield.c\<close>\<close>

fun tas_yield_lock :: "tid \<Rightarrow> u8 \<Rightarrow> spin_pc \<Rightarrow> (u8, spin_pc) outcome list" where
  "tas_yield_lock i mutex TestMutex = [Running mutex (if mutex \<noteq> 0 then Yield else TestAndSet)]"
| "tas_yield_lock i mutex TestAndSet = [if mutex \<noteq> 0 then Running 1 Yield else Returned 1 Idle]"
| "tas_yield_lock i mutex Yield = [Running mutex TestMutex]"
| "tas_yield_lock i mutex _ = []"

fun tas_yield_unlock :: "tid \<Rightarrow> u8 \<Rightarrow> spin_pc \<Rightarrow> (u8, spin_pc) outcome list" where
  "tas_yield_unlock i mutex Fence = [Running mutex StoreZero]"
| "tas_yield_unlock i mutex StoreZero = [Returned 0 Idle]"
| "tas_yield_unlock i mutex _ = []"

definition tas_yield_prog :: "nat \<Rightarrow> nat \<Rightarrow> (u8, spin_pc) program" where
  "tas_yield_prog num_thr max_cnt = \<lparr>impl = \<lparr>
       lock_call = (\<lambda>w i l. TestMutex), lock_step = tas_yield_lock,
       unlock_call = (\<lambda>i l. Fence), unlock_step = tas_yield_unlock\<rparr>,
     num_threads = num_thr, max_count = max_cnt, expected_count = max_cnt, cells = 1, target = one_counter, globals0 = 0, locals0 = (\<lambda>_. Idle)\<rparr>"

interpretation tas_yield:
  flag_program "tas_yield_prog n m" "\<lambda>g. g \<noteq> 0"
    "spin_at {TestMutex, TestAndSet, Yield} {Fence, StoreZero}" spin_rank 2 for n m
  by unfold_locales (auto simp: tas_yield_prog_def split: if_splits)

subsection \<open>\<open>spinlocks/test_and_set_backoff.c\<close>\<close>

definition tas_backoff_lock ::
  "(tid \<Rightarrow> u32 \<Rightarrow> cint) \<Rightarrow> tid \<Rightarrow> u8 \<Rightarrow> backoff_local \<Rightarrow> (u8, backoff_local) outcome list" where
  "tas_backoff_lock rand i mutex l = (case bpc l of
       TestMutex \<Rightarrow> [Running mutex (l\<lparr>bpc := if mutex \<noteq> 0 then Backoff else TestAndSet\<rparr>)]
     | TestAndSet \<Rightarrow>
         [if mutex \<noteq> 0 then Running 1 (l\<lparr>bpc := Backoff\<rparr>) else Returned 1 (l\<lparr>bpc := Idle\<rparr>)]
     | Backoff \<Rightarrow>
         (let f = failures l + 1
          in [Running mutex (l\<lparr>bpc := TestMutex, failures := f, nsec := backoff_nsec (rand i f) f\<rparr>)])
     | _ \<Rightarrow> [])"

definition tas_backoff_unlock :: "tid \<Rightarrow> u8 \<Rightarrow> backoff_local \<Rightarrow> (u8, backoff_local) outcome list" where
  "tas_backoff_unlock i mutex l = (case bpc l of
       Fence \<Rightarrow> [Running mutex (l\<lparr>bpc := StoreZero\<rparr>)]
     | StoreZero \<Rightarrow> [Returned 0 (l\<lparr>bpc := Idle\<rparr>)]
     | _ \<Rightarrow> [])"

definition tas_backoff_prog ::
  "(tid \<Rightarrow> u32 \<Rightarrow> cint) \<Rightarrow> nat \<Rightarrow> nat \<Rightarrow> (u8, backoff_local) program" where
  "tas_backoff_prog rand num_thr max_cnt = \<lparr>impl = \<lparr>
       lock_call = (\<lambda>w i l. l\<lparr>bpc := TestMutex, failures := 0\<rparr>), lock_step = tas_backoff_lock rand,
       unlock_call = (\<lambda>i l. l\<lparr>bpc := Fence\<rparr>), unlock_step = tas_backoff_unlock\<rparr>,
     num_threads = num_thr, max_count = max_cnt, expected_count = max_cnt, cells = 1, target = one_counter, globals0 = 0,
     locals0 = (\<lambda>_. \<lparr>bpc = Idle, failures = 0, nsec = 0\<rparr>)\<rparr>"

interpretation tas_backoff:
  flag_program "tas_backoff_prog rand n m" "\<lambda>g. g \<noteq> 0"
    "\<lambda>p l. spin_at {TestMutex, TestAndSet, Backoff} {Fence, StoreZero} p (bpc l)"
    "\<lambda>l. spin_rank (bpc l)" 2 for rand n m
  by unfold_locales
    (auto simp: tas_backoff_prog_def tas_backoff_lock_def tas_backoff_unlock_def Let_def
      split: if_splits)

subsection \<open>Properties\<close>

text \<open>The five test-and-set programs are correct for any number of threads and any
  \<open>MAX_COUNT\<close>: no two threads are ever between \<open>lock\<close> and \<open>unlock\<close>, the value printed at the
  end counts every increment, and every reachable state can still finish. For the backoff lock
  this is so whatever \<open>rand()\<close> returns.\<close>

lemma test_and_set_programs_correct:
  "program_correct (counter_tas_prog n m) \<and> program_correct (simple_spinlock_prog n m) \<and>
   program_correct (ttas_prog n m) \<and> program_correct (tas_yield_prog n m) \<and>
   program_correct (tas_backoff_prog rand n m)"
  by (intro conjI counter_tas.correct simple_spinlock.correct ttas.correct tas_yield.correct
      tas_backoff.correct)

text \<open>With the macros of the file, \<open>simple_spinlock.c\<close> ends by printing
  ``Counter value: 10000000 Expected: 10000000''.\<close>

theorem simple_spinlock_prints_expected:
  assumes "prog_reach (simple_spinlock_prog NUM_THREADS MAX_COUNT) s" and "mpc s = MainDone"
  shows "\<exists>ms. printed s = ms @ [ValueMsg 10000000 10000000]"
  by (rule expected_total [OF simple_spinlock.counts _ _ _ _ assms]) (simp_all add: simple_spinlock_prog_def)

theorem simple_spinlock_prints_expected_witness:
  "\<exists>s. prog_reach (simple_spinlock_prog NUM_THREADS MAX_COUNT) s \<and> mpc s = MainDone \<and>
    (\<exists>ms. printed s = ms @ [ValueMsg 10000000 10000000])"
  using finished_state [OF simple_spinlock.finishes] simple_spinlock_prints_expected by blast

end
