(* ===== verification/Spin_Swap.thy ===== *)
theory Spin_Swap
  imports Spin_Common
begin

section \<open>Swap and get-and-set spin locks\<close>

text \<open>
  \<open>hardware/counter_get_and_set.c\<close> and \<open>hardware/counter_swap.c\<close>, and under
  \<open>spinlocks/\<close> \<open>test_swap.c\<close>, \<open>swap_yield.c\<close> and \<open>swap_backoff.c\<close>. The swap locks
  exchange \<open>mutex\<close> with a local variable that starts at 1: the lock is theirs when the local
  comes back 0. The local is part of the model, since the next exchange writes it.
\<close>

record swap_local =
  spc :: spin_pc
  slocal :: cint
  sfailures :: u32
  snsec :: u32

definition swap_local0 :: swap_local where
  "swap_local0 = \<lparr>spc = Idle, slocal = 0, sfailures = 0, snsec = 0\<rparr>"

text \<open>While trying, the local is never 0: the loop ends as soon as it is.\<close>

definition swap_ok :: "spin_pc set \<Rightarrow> spin_pc set \<Rightarrow> phase \<Rightarrow> swap_local \<Rightarrow> bool" where
  "swap_ok trying releasing p l \<longleftrightarrow> spin_at trying releasing p (spc l) \<and> (p = Try \<longrightarrow> slocal l \<noteq> 0)"

subsection \<open>\<open>hardware/counter_get_and_set.c\<close>\<close>

fun get_and_set_lock :: "tid \<Rightarrow> cint \<Rightarrow> spin_pc \<Rightarrow> (cint, spin_pc) outcome list" where
  "get_and_set_lock i mutex Exchange = [if mutex \<noteq> 0 then Running 1 Exchange else Returned 1 Idle]"
| "get_and_set_lock i mutex _ = []"

fun get_and_set_unlock :: "tid \<Rightarrow> cint \<Rightarrow> spin_pc \<Rightarrow> (cint, spin_pc) outcome list" where
  "get_and_set_unlock i mutex Fence = [Running mutex StoreZero]"
| "get_and_set_unlock i mutex StoreZero = [Returned 0 Idle]"
| "get_and_set_unlock i mutex _ = []"

definition get_and_set_prog :: "nat \<Rightarrow> nat \<Rightarrow> (cint, spin_pc) program" where
  "get_and_set_prog num_thr max_cnt = \<lparr>impl = \<lparr>
       lock_call = (\<lambda>w i l. Exchange), lock_step = get_and_set_lock,
       unlock_call = (\<lambda>i l. Fence), unlock_step = get_and_set_unlock\<rparr>,
     num_threads = num_thr, max_count = max_cnt, expected_count = max_cnt, cells = 1, target = one_counter, globals0 = 0, locals0 = (\<lambda>_. Idle)\<rparr>"

interpretation get_and_set:
  flag_program "get_and_set_prog n m" "\<lambda>g. g \<noteq> 0" "spin_at {Exchange} {Fence, StoreZero}"
    spin_rank 2 for n m
  by unfold_locales (auto simp: get_and_set_prog_def split: if_splits)

subsection \<open>\<open>hardware/counter_swap.c\<close>\<close>

definition counter_swap_lock :: "tid \<Rightarrow> cint \<Rightarrow> swap_local \<Rightarrow> (cint, swap_local) outcome list" where
  "counter_swap_lock i mutex l = (case spc l of
       Exchange \<Rightarrow>
         (if mutex \<noteq> 0 then [Running (slocal l) (l\<lparr>slocal := mutex\<rparr>)]
          else [Returned (slocal l) (l\<lparr>slocal := mutex, spc := Idle\<rparr>)])
     | _ \<Rightarrow> [])"

definition swap_unlock :: "tid \<Rightarrow> cint \<Rightarrow> swap_local \<Rightarrow> (cint, swap_local) outcome list" where
  "swap_unlock i mutex l = (case spc l of
       Fence \<Rightarrow> [Running mutex (l\<lparr>spc := StoreZero\<rparr>)]
     | StoreZero \<Rightarrow> [Returned 0 (l\<lparr>spc := Idle\<rparr>)]
     | _ \<Rightarrow> [])"

definition counter_swap_prog :: "nat \<Rightarrow> nat \<Rightarrow> (cint, swap_local) program" where
  "counter_swap_prog num_thr max_cnt = \<lparr>impl = \<lparr>
       lock_call = (\<lambda>w i l. l\<lparr>spc := Exchange, slocal := 1\<rparr>), lock_step = counter_swap_lock,
       unlock_call = (\<lambda>i l. l\<lparr>spc := Fence\<rparr>), unlock_step = swap_unlock\<rparr>,
     num_threads = num_thr, max_count = max_cnt, expected_count = max_cnt, cells = 1, target = one_counter, globals0 = 0, locals0 = (\<lambda>_. swap_local0)\<rparr>"

interpretation counter_swap:
  flag_program "counter_swap_prog n m" "\<lambda>g. g \<noteq> 0" "swap_ok {Exchange} {Fence, StoreZero}"
    "\<lambda>l. spin_rank (spc l)" 2 for n m
  by unfold_locales
    (auto simp: counter_swap_prog_def counter_swap_lock_def swap_unlock_def swap_ok_def split: if_splits)

subsection \<open>\<open>spinlocks/test_swap.c\<close>\<close>

definition test_swap_lock :: "tid \<Rightarrow> cint \<Rightarrow> swap_local \<Rightarrow> (cint, swap_local) outcome list" where
  "test_swap_lock i mutex l = (case spc l of
       TestMutex \<Rightarrow> [Running mutex (l\<lparr>spc := if mutex = 0 then Exchange else TestMutex\<rparr>)]
     | Exchange \<Rightarrow>
         (if mutex \<noteq> 0 then [Running (slocal l) (l\<lparr>slocal := mutex, spc := TestMutex\<rparr>)]
          else [Returned (slocal l) (l\<lparr>slocal := mutex, spc := Idle\<rparr>)])
     | _ \<Rightarrow> [])"

definition test_swap_prog :: "nat \<Rightarrow> nat \<Rightarrow> (cint, swap_local) program" where
  "test_swap_prog num_thr max_cnt = \<lparr>impl = \<lparr>
       lock_call = (\<lambda>w i l. l\<lparr>spc := TestMutex, slocal := 1\<rparr>), lock_step = test_swap_lock,
       unlock_call = (\<lambda>i l. l\<lparr>spc := Fence\<rparr>), unlock_step = swap_unlock\<rparr>,
     num_threads = num_thr, max_count = max_cnt, expected_count = max_cnt, cells = 1, target = one_counter, globals0 = 0, locals0 = (\<lambda>_. swap_local0)\<rparr>"

interpretation test_swap:
  flag_program "test_swap_prog n m" "\<lambda>g. g \<noteq> 0" "swap_ok {TestMutex, Exchange} {Fence, StoreZero}"
    "\<lambda>l. spin_rank (spc l)" 2 for n m
  by unfold_locales
    (auto simp: test_swap_prog_def test_swap_lock_def swap_unlock_def swap_ok_def split: if_splits)

subsection \<open>\<open>spinlocks/swap_yield.c\<close>\<close>

definition swap_yield_lock :: "tid \<Rightarrow> cint \<Rightarrow> swap_local \<Rightarrow> (cint, swap_local) outcome list" where
  "swap_yield_lock i mutex l = (case spc l of
       TestMutex \<Rightarrow> [Running mutex (l\<lparr>spc := if mutex = 0 then Exchange else Yield\<rparr>)]
     | Exchange \<Rightarrow>
         (if mutex \<noteq> 0 then [Running (slocal l) (l\<lparr>slocal := mutex, spc := Yield\<rparr>)]
          else [Returned (slocal l) (l\<lparr>slocal := mutex, spc := Idle\<rparr>)])
     | Yield \<Rightarrow> [Running mutex (l\<lparr>spc := TestMutex\<rparr>)]
     | _ \<Rightarrow> [])"

definition swap_yield_prog :: "nat \<Rightarrow> nat \<Rightarrow> (cint, swap_local) program" where
  "swap_yield_prog num_thr max_cnt = \<lparr>impl = \<lparr>
       lock_call = (\<lambda>w i l. l\<lparr>spc := TestMutex, slocal := 1\<rparr>), lock_step = swap_yield_lock,
       unlock_call = (\<lambda>i l. l\<lparr>spc := Fence\<rparr>), unlock_step = swap_unlock\<rparr>,
     num_threads = num_thr, max_count = max_cnt, expected_count = max_cnt, cells = 1, target = one_counter, globals0 = 0, locals0 = (\<lambda>_. swap_local0)\<rparr>"

interpretation swap_yield:
  flag_program "swap_yield_prog n m" "\<lambda>g. g \<noteq> 0"
    "swap_ok {TestMutex, Exchange, Yield} {Fence, StoreZero}"
    "\<lambda>l. spin_rank (spc l)" 2 for n m
  by unfold_locales
    (auto simp: swap_yield_prog_def swap_yield_lock_def swap_unlock_def swap_ok_def split: if_splits)

subsection \<open>\<open>spinlocks/swap_backoff.c\<close>\<close>

definition swap_backoff_lock ::
  "(tid \<Rightarrow> u32 \<Rightarrow> cint) \<Rightarrow> tid \<Rightarrow> cint \<Rightarrow> swap_local \<Rightarrow> (cint, swap_local) outcome list" where
  "swap_backoff_lock rand i mutex l = (case spc l of
       TestMutex \<Rightarrow> [Running mutex (l\<lparr>spc := if mutex = 0 then Exchange else Backoff\<rparr>)]
     | Exchange \<Rightarrow>
         (if mutex \<noteq> 0 then [Running (slocal l) (l\<lparr>slocal := mutex, spc := Backoff\<rparr>)]
          else [Returned (slocal l) (l\<lparr>slocal := mutex, spc := Idle\<rparr>)])
     | Backoff \<Rightarrow>
         (let f = sfailures l + 1
          in [Running mutex (l\<lparr>spc := TestMutex, sfailures := f, snsec := backoff_nsec (rand i f) f\<rparr>)])
     | _ \<Rightarrow> [])"

definition swap_backoff_prog ::
  "(tid \<Rightarrow> u32 \<Rightarrow> cint) \<Rightarrow> nat \<Rightarrow> nat \<Rightarrow> (cint, swap_local) program" where
  "swap_backoff_prog rand num_thr max_cnt = \<lparr>impl = \<lparr>
       lock_call = (\<lambda>w i l. l\<lparr>spc := TestMutex, slocal := 1, sfailures := 0\<rparr>),
       lock_step = swap_backoff_lock rand,
       unlock_call = (\<lambda>i l. l\<lparr>spc := Fence\<rparr>), unlock_step = swap_unlock\<rparr>,
     num_threads = num_thr, max_count = max_cnt, expected_count = max_cnt, cells = 1, target = one_counter, globals0 = 0, locals0 = (\<lambda>_. swap_local0)\<rparr>"

interpretation swap_backoff:
  flag_program "swap_backoff_prog rand n m" "\<lambda>g. g \<noteq> 0"
    "swap_ok {TestMutex, Exchange, Backoff} {Fence, StoreZero}"
    "\<lambda>l. spin_rank (spc l)" 2 for rand n m
  by unfold_locales
    (auto simp: swap_backoff_prog_def swap_backoff_lock_def swap_unlock_def swap_ok_def Let_def
      split: if_splits)

subsection \<open>Properties\<close>

text \<open>The five programs that lock by an atomic exchange are correct for any number of threads
  and any \<open>MAX_COUNT\<close>: mutual exclusion, every increment counted in the value printed, every
  reachable state can finish. In the swap locks a failed exchange leaves in the mutex the
  non-zero value the local brought, so a held lock is never seen free.\<close>

lemma swap_programs_correct:
  "program_correct (get_and_set_prog n m) \<and> program_correct (counter_swap_prog n m) \<and>
   program_correct (test_swap_prog n m) \<and> program_correct (swap_yield_prog n m) \<and>
   program_correct (swap_backoff_prog rand n m)"
  by (intro conjI get_and_set.correct counter_swap.correct test_swap.correct swap_yield.correct
      swap_backoff.correct)

end
