(* ===== verification/Spin_CAS.thy ===== *)
theory Spin_CAS
  imports Spin_Common
begin

section \<open>Compare-and-swap spin locks\<close>

text \<open>
  \<open>hardware/counter_compare_and_swap.c\<close> and, under \<open>spinlocks/\<close>,
  \<open>test_compare_and_swap.c\<close>, \<open>compare_and_swap_yield.c\<close> and
  \<open>compare_and_swap_backoff.c\<close>. \<open>__atomic_compare_exchange_n(&mutex, &local, 1, weak, ...)\<close>
  stores 1 when \<open>mutex\<close> equals the expected value in \<open>local\<close> and otherwise writes what it found
  into \<open>local\<close>, so the loops must set it back to 0 before they try again. The weak form may
  also fail when the values are equal: two outcomes.
\<close>

text \<open>The builtin: success with the new memory, or failure with the new expected value.\<close>

definition cas_outcomes ::
  "bool \<Rightarrow> 'a \<Rightarrow> 'a \<Rightarrow> 'a \<Rightarrow> ('a + 'a) list" where
  "cas_outcomes weak mem expected desired =
     (if mem = expected then Inl desired # (if weak then [Inr mem] else []) else [Inr mem])"

record 'w cas_local =
  kpc :: spin_pc
  klocal :: 'w
  kfailures :: u32
  knsec :: u32

definition cas_local0 :: "'w::zero cas_local" where
  "cas_local0 = \<lparr>kpc = Idle, klocal = 0, kfailures = 0, knsec = 0\<rparr>"

text \<open>The expected value is 0 whenever the compare-and-swap is about to run.\<close>

definition cas_ok :: "spin_pc set \<Rightarrow> spin_pc set \<Rightarrow> phase \<Rightarrow> 'w::zero cas_local \<Rightarrow> bool" where
  "cas_ok trying releasing p l \<longleftrightarrow> spin_at trying releasing p (kpc l) \<and>
     (p = Try \<longrightarrow> kpc l = ResetLocal \<or> klocal l = 0)"

definition cas_unlock :: "tid \<Rightarrow> 'w::zero \<Rightarrow> 'w cas_local \<Rightarrow> ('w, 'w cas_local) outcome list" where
  "cas_unlock i mutex l = (case kpc l of
       Fence \<Rightarrow> [Running mutex (l\<lparr>kpc := StoreZero\<rparr>)]
     | StoreZero \<Rightarrow> [Returned 0 (l\<lparr>kpc := Idle\<rparr>)]
     | _ \<Rightarrow> [])"

subsection \<open>\<open>hardware/counter_compare_and_swap.c\<close>\<close>

definition counter_cas_lock ::
  "tid \<Rightarrow> cint \<Rightarrow> cint cas_local \<Rightarrow> (cint, cint cas_local) outcome list" where
  "counter_cas_lock i mutex l = (case kpc l of
       ResetLocal \<Rightarrow> [Running mutex (l\<lparr>klocal := 0, kpc := CompareSwap\<rparr>)]
     | CompareSwap \<Rightarrow>
         map (\<lambda>x. case x of
             Inl v \<Rightarrow> Returned v (l\<lparr>kpc := Idle\<rparr>)
           | Inr e \<Rightarrow> Running mutex (l\<lparr>klocal := e, kpc := ResetLocal\<rparr>))
           (cas_outcomes False mutex (klocal l) 1)
     | _ \<Rightarrow> [])"

definition counter_cas_prog :: "nat \<Rightarrow> nat \<Rightarrow> (cint, cint cas_local) program" where
  "counter_cas_prog num_thr max_cnt = \<lparr>impl = \<lparr>
       lock_call = (\<lambda>w i l. l\<lparr>kpc := ResetLocal\<rparr>), lock_step = counter_cas_lock,
       unlock_call = (\<lambda>i l. l\<lparr>kpc := Fence\<rparr>), unlock_step = cas_unlock\<rparr>,
     num_threads = num_thr, max_count = max_cnt, expected_count = max_cnt, cells = 1, target = one_counter, globals0 = 0, locals0 = (\<lambda>_. cas_local0)\<rparr>"

interpretation counter_cas:
  flag_program "counter_cas_prog n m" "\<lambda>g. g \<noteq> 0"
    "cas_ok {ResetLocal, CompareSwap} {Fence, StoreZero}" "\<lambda>l. spin_rank (kpc l)" 2 for n m
  by unfold_locales
    (auto simp: counter_cas_prog_def counter_cas_lock_def cas_unlock_def cas_outcomes_def cas_ok_def
      split: if_splits)

subsection \<open>\<open>spinlocks/test_compare_and_swap.c\<close>\<close>

definition test_cas_lock ::
  "tid \<Rightarrow> cint \<Rightarrow> cint cas_local \<Rightarrow> (cint, cint cas_local) outcome list" where
  "test_cas_lock i mutex l = (case kpc l of
       TestMutex \<Rightarrow> [Running mutex (l\<lparr>kpc := if mutex \<noteq> 0 then ResetLocal else CompareSwap\<rparr>)]
     | CompareSwap \<Rightarrow>
         map (\<lambda>x. case x of
             Inl v \<Rightarrow> Returned v (l\<lparr>kpc := Idle\<rparr>)
           | Inr e \<Rightarrow> Running mutex (l\<lparr>klocal := e, kpc := ResetLocal\<rparr>))
           (cas_outcomes False mutex (klocal l) 1)
     | ResetLocal \<Rightarrow> [Running mutex (l\<lparr>klocal := 0, kpc := TestMutex\<rparr>)]
     | _ \<Rightarrow> [])"

definition test_cas_prog :: "nat \<Rightarrow> nat \<Rightarrow> (cint, cint cas_local) program" where
  "test_cas_prog num_thr max_cnt = \<lparr>impl = \<lparr>
       lock_call = (\<lambda>w i l. l\<lparr>kpc := TestMutex, klocal := 0\<rparr>), lock_step = test_cas_lock,
       unlock_call = (\<lambda>i l. l\<lparr>kpc := Fence\<rparr>), unlock_step = cas_unlock\<rparr>,
     num_threads = num_thr, max_count = max_cnt, expected_count = max_cnt, cells = 1, target = one_counter, globals0 = 0, locals0 = (\<lambda>_. cas_local0)\<rparr>"

interpretation test_cas:
  flag_program "test_cas_prog n m" "\<lambda>g. g \<noteq> 0"
    "cas_ok {TestMutex, CompareSwap, ResetLocal} {Fence, StoreZero}" "\<lambda>l. spin_rank (kpc l)" 2
    for n m
  by unfold_locales
    (auto simp: test_cas_prog_def test_cas_lock_def cas_unlock_def cas_outcomes_def cas_ok_def
      split: if_splits)

subsection \<open>\<open>spinlocks/compare_and_swap_yield.c\<close>\<close>

definition cas_yield_lock :: "tid \<Rightarrow> u8 \<Rightarrow> u8 cas_local \<Rightarrow> (u8, u8 cas_local) outcome list" where
  "cas_yield_lock i mutex l = (case kpc l of
       TestMutex \<Rightarrow> [Running mutex (l\<lparr>kpc := if mutex \<noteq> 0 then ResetLocal else CompareSwap\<rparr>)]
     | CompareSwap \<Rightarrow>
         map (\<lambda>x. case x of
             Inl v \<Rightarrow> Returned v (l\<lparr>kpc := Idle\<rparr>)
           | Inr e \<Rightarrow> Running mutex (l\<lparr>klocal := e, kpc := ResetLocal\<rparr>))
           (cas_outcomes True mutex (klocal l) 1)
     | ResetLocal \<Rightarrow> [Running mutex (l\<lparr>klocal := 0, kpc := Yield\<rparr>)]
     | Yield \<Rightarrow> [Running mutex (l\<lparr>kpc := TestMutex\<rparr>)]
     | _ \<Rightarrow> [])"

definition cas_yield_prog :: "nat \<Rightarrow> nat \<Rightarrow> (u8, u8 cas_local) program" where
  "cas_yield_prog num_thr max_cnt = \<lparr>impl = \<lparr>
       lock_call = (\<lambda>w i l. l\<lparr>kpc := TestMutex, klocal := 0\<rparr>), lock_step = cas_yield_lock,
       unlock_call = (\<lambda>i l. l\<lparr>kpc := Fence\<rparr>), unlock_step = cas_unlock\<rparr>,
     num_threads = num_thr, max_count = max_cnt, expected_count = max_cnt, cells = 1, target = one_counter, globals0 = 0, locals0 = (\<lambda>_. cas_local0)\<rparr>"

interpretation cas_yield:
  flag_program "cas_yield_prog n m" "\<lambda>g. g \<noteq> 0"
    "cas_ok {TestMutex, CompareSwap, ResetLocal, Yield} {Fence, StoreZero}" "\<lambda>l. spin_rank (kpc l)" 2 for n m
  by unfold_locales
    (auto simp: cas_yield_prog_def cas_yield_lock_def cas_unlock_def cas_outcomes_def cas_ok_def
      split: if_splits)

subsection \<open>\<open>spinlocks/compare_and_swap_backoff.c\<close>\<close>

definition cas_backoff_lock ::
  "(tid \<Rightarrow> u32 \<Rightarrow> cint) \<Rightarrow> tid \<Rightarrow> u8 \<Rightarrow> u8 cas_local \<Rightarrow> (u8, u8 cas_local) outcome list" where
  "cas_backoff_lock rand i mutex l = (case kpc l of
       TestMutex \<Rightarrow> [Running mutex (l\<lparr>kpc := if mutex \<noteq> 0 then ResetLocal else CompareSwap\<rparr>)]
     | CompareSwap \<Rightarrow>
         map (\<lambda>x. case x of
             Inl v \<Rightarrow> Returned v (l\<lparr>kpc := Idle\<rparr>)
           | Inr e \<Rightarrow> Running mutex (l\<lparr>klocal := e, kpc := ResetLocal\<rparr>))
           (cas_outcomes False mutex (klocal l) 1)
     | ResetLocal \<Rightarrow> [Running mutex (l\<lparr>klocal := 0, kpc := Backoff\<rparr>)]
     | Backoff \<Rightarrow>
         (let f = kfailures l + 1
          in [Running mutex (l\<lparr>kpc := TestMutex, kfailures := f, knsec := backoff_nsec (rand i f) f\<rparr>)])
     | _ \<Rightarrow> [])"

definition cas_backoff_prog ::
  "(tid \<Rightarrow> u32 \<Rightarrow> cint) \<Rightarrow> nat \<Rightarrow> nat \<Rightarrow> (u8, u8 cas_local) program" where
  "cas_backoff_prog rand num_thr max_cnt = \<lparr>impl = \<lparr>
       lock_call = (\<lambda>w i l. l\<lparr>kpc := TestMutex, klocal := 0, kfailures := 0\<rparr>),
       lock_step = cas_backoff_lock rand,
       unlock_call = (\<lambda>i l. l\<lparr>kpc := Fence\<rparr>), unlock_step = cas_unlock\<rparr>,
     num_threads = num_thr, max_count = max_cnt, expected_count = max_cnt, cells = 1, target = one_counter, globals0 = 0, locals0 = (\<lambda>_. cas_local0)\<rparr>"

interpretation cas_backoff:
  flag_program "cas_backoff_prog rand n m" "\<lambda>g. g \<noteq> 0"
    "cas_ok {TestMutex, CompareSwap, ResetLocal, Backoff} {Fence, StoreZero}" "\<lambda>l. spin_rank (kpc l)" 2
    for rand n m
  by unfold_locales
    (auto simp: cas_backoff_prog_def cas_backoff_lock_def cas_unlock_def cas_outcomes_def cas_ok_def
      Let_def split: if_splits)

subsection \<open>Properties\<close>

text \<open>The four compare-and-swap programs are correct for any number of threads and any
  \<open>MAX_COUNT\<close>, the weak compare-and-swap of \<open>compare_and_swap_yield.c\<close> with every spurious
  failure included: mutual exclusion, every increment counted, every reachable state can finish.
  It rests on the expected value being reset to 0 after every failure.\<close>

lemma cas_programs_correct:
  "program_correct (counter_cas_prog n m) \<and> program_correct (test_cas_prog n m) \<and>
   program_correct (cas_yield_prog n m) \<and> program_correct (cas_backoff_prog rand n m)"
  by (intro conjI counter_cas.correct test_cas.correct cas_yield.correct cas_backoff.correct)

end
