(* ===== verification/Queue_Lock.thy ===== *)
theory Queue_Lock
  imports Harness
begin

section \<open>Queue locks: first come, first served\<close>

text \<open>
  The ticket, array, CLH and MCS locks all keep the waiting threads in a queue that no variable
  of the code holds as such. The abstract lock is that queue: threads enter it at the end and
  leave it from the head. The locale \<open>fifo_lock\<close> is the promise of such a lock: a relation
  between queues and states that every step keeps, up to one step of the abstract queue, and in
  which only the head of the queue can be past \<open>lock\<close>. From it follow mutual exclusion and, in \<open>ordered_program\<close>, that a
  program refines the abstract queue step by step and that no thread overtakes one that has joined before it.
\<close>

inductive fifo_step :: "tid list \<Rightarrow> tid list \<Rightarrow> bool" where
  enqueue: "i \<notin> set q \<Longrightarrow> fifo_step q (q @ [i])"
| dequeue: "fifo_step (i # q) q"

locale fifo_lock =
  fixes L :: "('s, 'l) lock_impl" and n b :: nat and s0 :: 's and l0 :: "tid \<Rightarrow> 'l"
    and line :: "tid list \<Rightarrow> ('s, 'l) lock_state \<Rightarrow> bool"
  assumes line_init: "line [] (lock_init s0 l0)"
    and line_call: "line q s \<Longrightarrow> i < n \<Longrightarrow> phase_of s i = Out \<Longrightarrow> calls s < b \<Longrightarrow>
      line q ((move i Try (shared s) (lock_call L w i (local_of s i)) s)\<lparr>calls := Suc (calls s)\<rparr>)"
    and line_act: "line q s \<Longrightarrow> lock_act L n s t \<Longrightarrow> \<exists>q'. (q' = q \<or> fifo_step q q') \<and> line q' t"
    and line_head: "line q s \<Longrightarrow> i < n \<Longrightarrow> phase_of s i = Crit \<Longrightarrow> q \<noteq> [] \<and> hd q = i"
begin

lemma some_line_init: "\<exists>q. line q (lock_init s0 l0)"
  using line_init by blast

lemma some_line_call:
  "\<exists>q. line q s \<Longrightarrow> i < n \<Longrightarrow> phase_of s i = Out \<Longrightarrow> calls s < b \<Longrightarrow>
    \<exists>q. line q ((move i Try (shared s) (lock_call L w i (local_of s i)) s)\<lparr>calls := Suc (calls s)\<rparr>)"
  using line_call by blast

lemma some_line_act: "\<exists>q. line q s \<Longrightarrow> lock_act L n s t \<Longrightarrow> \<exists>q. line q t"
  using line_act by blast

lemma some_line_mutex:
  "\<exists>q. line q s \<Longrightarrow> i < n \<Longrightarrow> j < n \<Longrightarrow> phase_of s i = Crit \<Longrightarrow> phase_of s j = Crit \<Longrightarrow> i = j"
  using line_head by blast

end

sublocale fifo_lock \<subseteq> lock_contract L n b s0 l0 "\<lambda>s. \<exists>q. line q s"
  by unfold_locales (fact some_line_init some_line_call some_line_act some_line_mutex)+

text \<open>A queue lock that drains, and the programs that use one.\<close>

locale live_fifo_lock = fifo_lock L n b s0 l0 line
  for L :: "('s, 'l) lock_impl" and n b :: nat and s0 :: 's and l0 :: "tid \<Rightarrow> 'l"
    and line :: "tid list \<Rightarrow> ('s, 'l) lock_state \<Rightarrow> bool" +
  fixes mu :: "('s, 'l) lock_state \<Rightarrow> nat"
  assumes line_progress: "line q s \<Longrightarrow> i < n \<Longrightarrow> phase_of s i \<noteq> Out \<Longrightarrow>
      \<exists>t. lock_act L n s t \<and> mu t < mu s"

context live_fifo_lock begin

lemma some_line_progress:
  "\<exists>q. line q s \<Longrightarrow> i < n \<Longrightarrow> phase_of s i \<noteq> Out \<Longrightarrow> \<exists>t. lock_act L n s t \<and> mu t < mu s"
  using line_progress by blast

end

sublocale live_fifo_lock \<subseteq> live_contract L n b s0 l0 "\<lambda>s. \<exists>q. line q s" mu
  by unfold_locales (fact some_line_progress)

locale fifo_program =
  live_fifo_lock "impl P" "num_threads P" "num_threads P * rounds P" "globals0 P" "locals0 P" line mu
  for P :: "('s, 'l) program" and line :: "tid list \<Rightarrow> ('s, 'l) lock_state \<Rightarrow> bool"
    and mu :: "('s, 'l) lock_state \<Rightarrow> nat" +
  assumes target_bound: "target P k = Some c \<Longrightarrow> c < cells P"

sublocale fifo_program \<subseteq> live_program P "\<lambda>s. \<exists>q. line q s" mu
  by unfold_locales (rule target_bound)

context fifo_program begin

lemma fifo_correct: "program_correct P"
  by (rule correct)

lemma some_line: "prog_reach P s \<Longrightarrow> \<exists>q. line q (lock_view P s)"
  by (rule inv_reachable [OF lock_view_reach])

end

text \<open>
  What is promised of a program whose lock is a queue, for a predicate \<open>W\<close> on a thread's phase and locals that
  says that it has joined the queue: the states have queues, of the threads that have joined, with the one in
  the critical section at the head, which every step of the program leaves alone, or changes as the abstract queue does
  (\<open>follows_queue\<close>); and a thread that has joined is not overtaken: while it waits, no thread that had not joined at some moment
  before gets into the critical section (\<open>no_overtaking\<close>). The second does not mention queues.
\<close>

definition joined_in :: "(phase \<Rightarrow> 'l \<Rightarrow> bool) \<Rightarrow> ('s, 'l) prog_state \<Rightarrow> tid \<Rightarrow> bool" where
  "joined_in W s i \<longleftrightarrow> W (phase_at (cpc (threads s i))) (tlocal (threads s i))"

definition follows_queue ::
  "('s, 'l) program \<Rightarrow> (tid list \<Rightarrow> ('s, 'l) lock_state \<Rightarrow> bool) \<Rightarrow> (phase \<Rightarrow> 'l \<Rightarrow> bool) \<Rightarrow> bool" where
  "follows_queue P line W \<longleftrightarrow> (\<exists>R. R [] (prog_init P) \<and>
     (\<forall>q s. R q s \<longrightarrow> line q (lock_view P s) \<and> distinct q \<and> set q = {i. i < num_threads P \<and> joined_in W s i} \<and>
       (\<forall>i<num_threads P. critical s i \<longrightarrow> q \<noteq> [] \<and> hd q = i)) \<and>
     (\<forall>q s t. R q s \<and> prog_step P s t \<longrightarrow> (\<exists>q'. (q' = q \<or> fifo_step q q') \<and> R q' t)))"

definition no_overtaking :: "('s, 'l) program \<Rightarrow> (phase \<Rightarrow> 'l \<Rightarrow> bool) \<Rightarrow> bool" where
  "no_overtaking P W \<longleftrightarrow> (\<forall>u v. \<forall>i<num_threads P. \<forall>j<num_threads P. prog_reach P u \<and>
     cpc (threads u i) = InLock \<and> joined_in W u i \<and> \<not> joined_in W u j \<and>
     (\<lambda>s t. prog_step P s t \<and> cpc (threads t i) = InLock)\<^sup>*\<^sup>* u v \<longrightarrow> \<not> critical v j)"

definition serves_in_order ::
  "('s, 'l) program \<Rightarrow> (tid list \<Rightarrow> ('s, 'l) lock_state \<Rightarrow> bool) \<Rightarrow> (phase \<Rightarrow> 'l \<Rightarrow> bool) \<Rightarrow> bool" where
  "serves_in_order P line W \<longleftrightarrow> follows_queue P line W \<and> no_overtaking P W"

lemma serves_mono:
  assumes "serves_in_order P line W" "\<And>q s. line q s \<Longrightarrow> line' q s"
  shows "serves_in_order P line' W"
proof -
  obtain R where "R [] (prog_init P)"
    "\<And>q s. R q s \<Longrightarrow> line q (lock_view P s) \<and> distinct q \<and> set q = {i. i < num_threads P \<and> joined_in W s i} \<and>
       (\<forall>i<num_threads P. critical s i \<longrightarrow> q \<noteq> [] \<and> hd q = i)"
    "\<And>q s t. R q s \<and> prog_step P s t \<Longrightarrow> \<exists>q'. (q' = q \<or> fifo_step q q') \<and> R q' t"
    using assms(1) unfolding serves_in_order_def follows_queue_def by blast
  then have "follows_queue P line' W"
    unfolding follows_queue_def using assms(2) by (intro exI [of _ R]) simp
  then show ?thesis using assms(1) by (simp add: serves_in_order_def)
qed

locale ordered_program = fifo_program P line mu
  for P :: "('s, 'l) program" and line :: "tid list \<Rightarrow> ('s, 'l) lock_state \<Rightarrow> bool"
    and mu :: "('s, 'l) lock_state \<Rightarrow> nat" +
  fixes W :: "phase \<Rightarrow> 'l \<Rightarrow> bool"
  assumes line_distinct: "line q s \<Longrightarrow> distinct q"
    and line_members: "line q s \<Longrightarrow> set q = {i. i < num_threads P \<and> W (phase_of s i) (local_of s i)}"
    and joined_stays: "line q s \<Longrightarrow> i < num_threads P \<Longrightarrow> phase_of s i = Try \<Longrightarrow> W Try (local_of s i) \<Longrightarrow>
      Running g l \<in> set (lock_step (impl P) i (shared s) (local_of s i)) \<Longrightarrow> W Try l"
begin

definition queued :: "tid list \<Rightarrow> ('s, 'l) prog_state \<Rightarrow> bool" where
  "queued q s \<longleftrightarrow> prog_reach P s \<and> line q (lock_view P s)"

lemma queued_members: "queued q s \<Longrightarrow> set q = {i. i < num_threads P \<and> joined_in W s i}"
  using line_members by (fastforce simp: queued_def joined_in_def)

lemma queued_head: "queued q s \<Longrightarrow> i < num_threads P \<Longrightarrow> critical s i \<Longrightarrow> q \<noteq> [] \<and> hd q = i"
  using line_head [of q "lock_view P s" i] by (simp add: queued_def critical_phase)

lemma queued_init: "queued [] (prog_init P)"
  using line_init by (simp add: queued_def lock_view_init)

lemma queued_step:
  assumes s: "queued q s" and st: "prog_step P s t"
  shows "\<exists>q'. (q' = q \<or> fifo_step q q') \<and> queued q' t"
proof -
  have r: "prog_reach P s" "prog_reach P t" and l: "line q (lock_view P s)"
    using s st by (auto simp: queued_def intro: rtranclp.rtrancl_into_rtrancl)
  from prog_step_refines [OF prog_ok_reach [OF r(1)] st]
  have "\<exists>q'. (q' = q \<or> fifo_step q q') \<and> line q' (lock_view P t)"
  proof (elim disjE lock_sysE, goal_cases)
    case 1
    then show ?case using l by auto
  next
    case (2 i w)
    then show ?case using line_call [OF l, of i w] by auto
  next
    case 3
    then show ?case using line_act [OF l] by auto
  qed
  then show ?thesis using r(2) by (auto simp: queued_def)
qed

lemma follows: "follows_queue P line W"
  unfolding follows_queue_def
proof (intro exI [of _ queued] conjI allI impI)
  show "queued [] (prog_init P)" by (rule queued_init)
  show "line q (lock_view P s)" "distinct q" if "queued q s" for q s
    using that line_distinct by (auto simp: queued_def)
  show "set q = {i. i < num_threads P \<and> joined_in W s i}" if "queued q s" for q s
    using that by (rule queued_members)
  show "q \<noteq> []" "hd q = i" if "queued q s" "i < num_threads P" "critical s i" for q s i
    using queued_head [OF that] by auto
  show "\<exists>q'. (q' = q \<or> fifo_step q q') \<and> queued q' t" if "queued q s \<and> prog_step P s t" for q s t
    using that queued_step by blast
qed

text \<open>A thread that has joined stays so until \<open>lock\<close> returns.\<close>

lemma joined_step:
  assumes s: "queued q s" and st: "prog_step P s t" and i: "i < num_threads P"
    and at: "cpc (threads s i) = InLock" "joined_in W s i" "cpc (threads t i) = InLock"
  shows "joined_in W t i"
  using st
proof cases
  case main_moves
  then show ?thesis using at by (cases rule: main_step_cases) (auto simp: joined_in_def split: if_splits)
next
  case (thread_moves k)
  show ?thesis
  proof (cases "k = i")
    case True
    with thread_moves(2) have "t \<in> set (count_step P i s)" by simp
    then show ?thesis
    proof (cases rule: count_step_cases)
      case (lock_run g l)
      then show ?thesis using joined_stays [of q "lock_view P s" i g l] s i at by (simp add: queued_def joined_in_def)
    qed (use at in \<open>auto simp: joined_in_def\<close>)
  next
    case False
    from thread_moves(2) show ?thesis
      by (cases rule: count_step_cases) (use at(2) False in \<open>auto simp: joined_in_def\<close>)
  qed
qed

definition ahead :: "tid \<Rightarrow> tid \<Rightarrow> tid list \<Rightarrow> bool" where
  "ahead i j q \<longleftrightarrow> (\<exists>xs ys. q = xs @ i # ys \<and> j \<notin> set xs \<and> j \<noteq> i)"

lemma ahead_step:
  assumes a: "ahead i j q" and q: "fifo_step q q'" and d: "distinct q" and i: "i \<in> set q'"
  shows "ahead i j q'"
proof -
  obtain xs ys where x: "q = xs @ i # ys" "j \<notin> set xs" "j \<noteq> i" using a by (auto simp: ahead_def)
  from q show ?thesis
  proof cases
    case (enqueue k)
    then have "q' = xs @ i # (ys @ [k])" using x(1) by simp
    then show ?thesis using x(2,3) unfolding ahead_def by blast
  next
    case (dequeue k)
    then obtain zs where "xs = k # zs" using x(1) d i by (cases xs) auto
    then have "q' = zs @ i # ys" "j \<notin> set zs" using x dequeue by auto
    then show ?thesis using x(3) unfolding ahead_def by blast
  qed
qed

lemma ahead_head: "ahead i j q \<Longrightarrow> q \<noteq> [] \<and> hd q \<noteq> j"
  by (auto simp: ahead_def hd_append split: if_splits list.splits)

lemma overtaken_by_none: "no_overtaking P W"
  unfolding no_overtaking_def
proof (intro allI impI, elim conjE)
  fix u v i j
  assume n: "i < num_threads P" "j < num_threads P" and u: "prog_reach P u"
    and at: "cpc (threads u i) = InLock" "joined_in W u i" "\<not> joined_in W u j"
    and run: "(\<lambda>s t. prog_step P s t \<and> cpc (threads t i) = InLock)\<^sup>*\<^sup>* u v"
  have "\<exists>q. line q (lock_view P u)" using some_line [OF u] by blast
  then obtain q where q: "queued q u" using u by (auto simp: queued_def)
  then have "i \<in> set q" "j \<notin> set q" using queued_members [OF q] n at by auto
  then have a: "ahead i j q" using split_list [of i q] by (fastforce simp: ahead_def)
  have "\<exists>q. queued q v \<and> ahead i j q \<and> cpc (threads v i) = InLock \<and> joined_in W v i"
  proof (rule run_invariant [OF run])
    show "\<exists>q. queued q u \<and> ahead i j q \<and> cpc (threads u i) = InLock \<and> joined_in W u i" using q a at by blast
    fix s t
    assume "\<exists>q. queued q s \<and> ahead i j q \<and> cpc (threads s i) = InLock \<and> joined_in W s i"
      and st: "prog_step P s t \<and> cpc (threads t i) = InLock"
    then obtain q where s: "queued q s" "ahead i j q" "cpc (threads s i) = InLock" "joined_in W s i" by blast
    have t: "joined_in W t i" using joined_step [OF s(1) _ n(1) s(3,4)] st by blast
    obtain q' where q': "q' = q \<or> fifo_step q q'" "queued q' t" using queued_step [OF s(1)] st by blast
    moreover have "distinct q" using s(1) line_distinct by (auto simp: queued_def)
    moreover have "i \<in> set q'" using queued_members [OF q'(2)] t n by simp
    ultimately have "ahead i j q'" using ahead_step [OF s(2)] s(2) by blast
    then show "\<exists>q. queued q t \<and> ahead i j q \<and> cpc (threads t i) = InLock \<and> joined_in W t i"
      using q'(2) t st by blast
  qed
  then show "\<not> critical v j" using queued_head [OF _ n(2)] ahead_head by blast
qed

lemma in_order: "serves_in_order P line W"
  using follows overtaken_by_none by (simp add: serves_in_order_def)

end

end
