(* ===== verification/Queue_Ticket.thy ===== *)
theory Queue_Ticket
  imports Queue_Lock
begin

section \<open>Ticket locks: a queue in two counters\<close>

text \<open>
  A ticket lock hands out numbers with an atomic fetch-and-add and serves them in order. The
  counters are machine words that wrap, so the argument is about distances: the waiting threads
  form a queue whose \<open>k\<close>-th member holds the ticket \<open>turn + k\<close>, which is unambiguous while
  fewer than \<open>2 ^ LENGTH('w)\<close> threads compete. A step is quiet, takes a ticket (enqueue) or
  advances the turn (dequeue); \<open>stage\<close> says what a thread's locals mean: no ticket, a ticket
  not served yet, or a ticket seen equal to the turn.
\<close>

datatype stage = NoTicket | Queued | Granted

definition stage_of ::
  "(phase \<Rightarrow> 'l \<Rightarrow> stage) \<Rightarrow> ('s, 'l) lock_state \<Rightarrow> tid \<Rightarrow> stage" where
  "stage_of stage s i = stage (phase_of s i) (local_of s i)"

definition ticket_queue ::
  "('s \<Rightarrow> 'w::len word) \<Rightarrow> ('s \<Rightarrow> 'w word) \<Rightarrow> ('l \<Rightarrow> 'w word) \<Rightarrow> (phase \<Rightarrow> 'l \<Rightarrow> stage) \<Rightarrow> nat \<Rightarrow>
    tid list \<Rightarrow> ('s, 'l) lock_state \<Rightarrow> bool" where
  "ticket_queue number turn ticket stage n q s \<longleftrightarrow>
     distinct q \<and> set q = {i. i < n \<and> stage_of stage s i \<noteq> NoTicket} \<and>
     number (shared s) = turn (shared s) + of_nat (length q) \<and>
     (\<forall>k<length q. ticket (local_of s (q ! k)) = turn (shared s) + of_nat k) \<and>
     (\<forall>i<n. stage_of stage s i = Granted \<longrightarrow> q \<noteq> [] \<and> hd q = i)"

text \<open>The three kinds of steps, on one thread's phase and locals and the globals.\<close>

definition quiet ::
  "('s \<Rightarrow> 'w::len word) \<Rightarrow> ('s \<Rightarrow> 'w word) \<Rightarrow> ('l \<Rightarrow> 'w word) \<Rightarrow> (phase \<Rightarrow> 'l \<Rightarrow> stage) \<Rightarrow>
    phase \<Rightarrow> 's \<Rightarrow> 'l \<Rightarrow> phase \<Rightarrow> 's \<Rightarrow> 'l \<Rightarrow> bool" where
  "quiet number turn ticket stage p s l p' s' l' \<longleftrightarrow>
     number s' = number s \<and> turn s' = turn s \<and> (stage p l \<noteq> NoTicket \<longrightarrow> ticket l' = ticket l) \<and>
     (stage p' l' = stage p l \<or> stage p l = Queued \<and> stage p' l' = Granted \<and> ticket l = turn s)"

definition takes ::
  "('s \<Rightarrow> 'w::len word) \<Rightarrow> ('s \<Rightarrow> 'w word) \<Rightarrow> ('l \<Rightarrow> 'w word) \<Rightarrow> (phase \<Rightarrow> 'l \<Rightarrow> stage) \<Rightarrow>
    phase \<Rightarrow> 's \<Rightarrow> 'l \<Rightarrow> phase \<Rightarrow> 's \<Rightarrow> 'l \<Rightarrow> bool" where
  "takes number turn ticket stage p s l p' s' l' \<longleftrightarrow>
     number s' = number s + 1 \<and> turn s' = turn s \<and> stage p l = NoTicket \<and> stage p' l' = Queued \<and>
     ticket l' = number s"

definition serves ::
  "('s \<Rightarrow> 'w::len word) \<Rightarrow> ('s \<Rightarrow> 'w word) \<Rightarrow> (phase \<Rightarrow> 'l \<Rightarrow> stage) \<Rightarrow>
    phase \<Rightarrow> 's \<Rightarrow> 'l \<Rightarrow> phase \<Rightarrow> 's \<Rightarrow> 'l \<Rightarrow> bool" where
  "serves number turn stage p s l p' s' l' \<longleftrightarrow>
     number s' = number s \<and> turn s' = turn s + 1 \<and> stage p l = Granted \<and> stage p' l' = NoTicket"

lemma stage_of_move [simp]:
  "stage_of stage (move i p s' l' s) = (stage_of stage s)(i := stage p l')"
  by (auto simp: stage_of_def)

lemma stage_of_calls [simp]: "stage_of stage (s\<lparr>calls := c\<rparr>) = stage_of stage s"
  by (auto simp: stage_of_def)

lemma ticket_queue_calls [simp]:
  "ticket_queue number turn ticket stage n q (s\<lparr>calls := c\<rparr>)
    = ticket_queue number turn ticket stage n q s"
  by (simp add: ticket_queue_def)

lemma of_nat_word_eq_0:
  assumes "k < 2 ^ LENGTH('w::len)" "(of_nat k :: 'w word) = 0"
  shows "k = 0"
  using assms by (auto simp: word_of_nat_eq_0_iff dest: dvd_imp_le)

lemma queue_length:
  assumes "ticket_queue number turn ticket stage n q s"
  shows "length q \<le> n"
proof -
  have "card (set q) \<le> card {..<n}"
    using assms by (intro card_mono) (auto simp: ticket_queue_def)
  moreover have "card (set q) = length q"
    using assms by (intro distinct_card) (simp add: ticket_queue_def)
  ultimately show ?thesis by simp
qed

lemma queue_quiet:
  assumes q: "ticket_queue number turn ticket stage n q s" and i: "i < n"
    and small: "n < 2 ^ LENGTH('w::len)"
    and step: "quiet number (turn :: 's \<Rightarrow> 'w word) ticket stage
      (phase_of s i) (shared s) (local_of s i) p s' l'"
  shows "ticket_queue number turn ticket stage n q (move i p s' l' s)"
proof -
  have head: "q \<noteq> [] \<and> hd q = i"
    if "stage_of stage s i = Queued" "ticket (local_of s i) = turn (shared s)"
  proof -
    have "i \<in> set q" using q i that(1) by (simp add: ticket_queue_def)
    then obtain k where k: "k < length q" "q ! k = i" by (auto simp: in_set_conv_nth)
    then have "(of_nat k :: 'w word) = 0" using q that(2) by (auto simp: ticket_queue_def)
    then have "k = 0" using k(1) queue_length [OF q] small by (intro of_nat_word_eq_0) auto
    then show ?thesis using k by (auto simp: hd_conv_nth)
  qed
  have "i \<in> set q \<longleftrightarrow> stage_of stage s i \<noteq> NoTicket" using q i by (simp add: ticket_queue_def)
  then have "k < length q \<Longrightarrow> q ! k = i \<Longrightarrow> ticket l' = ticket (local_of s i)" for k
    using step by (auto simp: quiet_def stage_of_def dest: nth_mem)
  moreover have "{j. j < n \<and> ((stage_of stage s)(i := stage p l')) j \<noteq> NoTicket}
      = {j. j < n \<and> stage_of stage s j \<noteq> NoTicket}"
    using step i by (auto simp: quiet_def stage_of_def)
  moreover have "stage p l' = Granted \<Longrightarrow> q \<noteq> [] \<and> hd q = i"
    using step q i head by (auto simp: quiet_def ticket_queue_def stage_of_def)
  ultimately show ?thesis
    using q step by (auto simp: ticket_queue_def quiet_def)
qed

lemma queue_takes:
  assumes q: "ticket_queue number turn ticket stage n q s" and i: "i < n"
    and step: "takes number turn ticket stage
      (phase_of s i) (shared s) (local_of s i) p s' l'"
  shows "ticket_queue number turn ticket stage n (q @ [i]) (move i p s' l' s)" "i \<notin> set q"
proof -
  show new: "i \<notin> set q" using q step by (simp add: ticket_queue_def takes_def stage_of_def)
  have "{j. j < n \<and> ((stage_of stage s)(i := stage p l')) j \<noteq> NoTicket}
      = insert i {j. j < n \<and> stage_of stage s j \<noteq> NoTicket}"
    using step i by (auto simp: takes_def)
  moreover have "k < length q \<Longrightarrow> q ! k \<noteq> i" for k using new by auto
  ultimately show "ticket_queue number turn ticket stage n (q @ [i]) (move i p s' l' s)"
    using q step new by (auto simp: ticket_queue_def takes_def nth_append less_Suc_eq)
qed

lemma queue_serves:
  assumes q: "ticket_queue number turn ticket stage n q s" and i: "i < n"
    and step: "serves number turn stage (phase_of s i) (shared s) (local_of s i) p s' l'"
  shows "\<exists>r. q = i # r \<and> ticket_queue number turn ticket stage n r (move i p s' l' s)"
proof -
  obtain r where r: "q = i # r"
    using q i step by (cases q) (auto simp: ticket_queue_def serves_def stage_of_def)
  have "{j. j < n \<and> ((stage_of stage s)(i := stage p l')) j \<noteq> NoTicket}
      = {j. j < n \<and> stage_of stage s j \<noteq> NoTicket} - {i}"
  proof -
    have "stage p l' = NoTicket" using step by (simp add: serves_def)
    then show ?thesis by auto
  qed
  moreover have "r ! k \<noteq> i" if "k < length r" for k
  proof -
    have "distinct (i # r)" using q r by (simp add: ticket_queue_def)
    then show ?thesis using nth_mem [OF that] by auto
  qed
  moreover have "ticket (local_of s (r ! k)) = turn (shared s) + of_nat (Suc k)" if "k < length r" for k
  proof -
    have "\<forall>j<length q. ticket (local_of s (q ! j)) = turn (shared s) + of_nat j"
      using q by (simp add: ticket_queue_def)
    from spec [OF this, of "Suc k"] show ?thesis using that r by (simp del: of_nat_Suc)
  qed
  moreover have "j = i" if "j < n" "stage_of stage s j = Granted" for j
    using q that r by (auto simp: ticket_queue_def)
  ultimately show ?thesis
    using q step r by (auto simp: ticket_queue_def serves_def)
qed

locale ticket_contract =
  fixes L :: "('s, 'l) lock_impl" and n b :: nat and s0 :: 's and l0 :: "tid \<Rightarrow> 'l"
    and number turn :: "'s \<Rightarrow> 'w::len word" and ticket :: "'l \<Rightarrow> 'w word"
    and stage :: "phase \<Rightarrow> 'l \<Rightarrow> stage" and ok :: "phase \<Rightarrow> 'l \<Rightarrow> bool"
  assumes few: "n < 2 ^ LENGTH('w)"
    and start: "number s0 = turn s0"
    and stage_idle: "stage Out l = NoTicket" "stage Crit l = Granted"
    and ok_idle: "ok Out l"
    and lock_called_ok: "stage Try (lock_call L w i l) = NoTicket" "ok Try (lock_call L w i l)"
    and unlock_called_ok: "ok Crit l \<Longrightarrow> stage Rel (unlock_call L i l) = Granted \<and>
      ticket (unlock_call L i l) = ticket l \<and> ok Rel (unlock_call L i l)"
    and lock_running: "ok Try l \<Longrightarrow> Running s' l' \<in> set (lock_step L i s l) \<Longrightarrow> ok Try l' \<and>
      (quiet number turn ticket stage Try s l Try s' l' \<or> takes number turn ticket stage Try s l Try s' l')"
    and lock_returned: "ok Try l \<Longrightarrow> Returned s' l' \<in> set (lock_step L i s l) \<Longrightarrow>
      ok Crit l' \<and> quiet number turn ticket stage Try s l Crit s' l'"
    and unlock_running: "ok Rel l \<Longrightarrow> Running s' l' \<in> set (unlock_step L i s l) \<Longrightarrow> ok Rel l' \<and>
      (quiet number turn ticket stage Rel s l Rel s' l' \<or> serves number turn stage Rel s l Rel s' l')"
    and unlock_returned: "ok Rel l \<Longrightarrow> Returned s' l' \<in> set (unlock_step L i s l) \<Longrightarrow>
      quiet number turn ticket stage Rel s l Out s' l' \<or> serves number turn stage Rel s l Out s' l'"
begin

definition matches :: "tid list \<Rightarrow> ('s, 'l) lock_state \<Rightarrow> bool" where
  "matches q s \<longleftrightarrow> (\<forall>i<n. ok (phase_of s i) (local_of s i)) \<and> ticket_queue number turn ticket stage n q s"

lemma matches_init: "matches [] (lock_init s0 l0)"
  by (auto simp: matches_def ticket_queue_def lock_init_def stage_of_def start stage_idle ok_idle)

lemma matches_call:
  "matches q s \<Longrightarrow> i < n \<Longrightarrow> phase_of s i = Out \<Longrightarrow>
    matches q ((move i Try (shared s) (lock_call L w i (local_of s i)) s)\<lparr>calls := Suc (calls s)\<rparr>)"
  by (auto simp: matches_def lock_called_ok stage_idle quiet_def intro!: queue_quiet few)

text \<open>Every step is quiet, takes a ticket or serves, and changes the queue accordingly.\<close>

lemma matches_step:
  assumes m: "matches q s" and act: "lock_act L n s t"
  shows "\<exists>i p g l. i < n \<and> t = move i p g l s \<and> (p = Try \<longrightarrow> phase_of s i = Try) \<and>
    (quiet number turn ticket stage (phase_of s i) (shared s) (local_of s i) p g l \<and> matches q t \<or>
     takes number turn ticket stage (phase_of s i) (shared s) (local_of s i) p g l \<and>
       phase_of s i = Try \<and> p = Try \<and> i \<notin> set q \<and> matches (q @ [i]) t \<or>
     serves number turn stage (phase_of s i) (shared s) (local_of s i) p g l \<and> phase_of s i = Rel \<and>
       p \<noteq> Try \<and> (\<exists>r. q = i # r \<and> matches r t))"
  using act
proof cases
  case (lock_runs i g l)
  then have "ok Try l \<and> (quiet number turn ticket stage Try (shared s) (local_of s i) Try g l \<or>
      takes number turn ticket stage Try (shared s) (local_of s i) Try g l)"
    using m by (intro lock_running [of "local_of s i"]) (auto simp: matches_def)
  then show ?thesis
    using lock_runs m queue_takes [of number turn ticket stage n q s i Try g l]
      queue_quiet [of number turn ticket stage n q s i Try g l] few
    by (intro exI [of _ i] exI [of _ Try] exI [of _ g] exI [of _ l]) (auto simp: matches_def)
next
  case (lock_returns i g l)
  then have "ok Crit l \<and> quiet number turn ticket stage Try (shared s) (local_of s i) Crit g l"
    using m by (intro lock_returned [of "local_of s i"]) (auto simp: matches_def)
  then show ?thesis
    using lock_returns m queue_quiet [of number turn ticket stage n q s i Crit g l] few
    by (intro exI [of _ i] exI [of _ Crit] exI [of _ g] exI [of _ l]) (auto simp: matches_def)
next
  case (unlock_called i)
  then have "ok Crit (local_of s i)" using m by (auto simp: matches_def)
  then show ?thesis
    using unlock_called m unlock_called_ok [of "local_of s i" i] few
      queue_quiet [of number turn ticket stage n q s i Rel "shared s" "unlock_call L i (local_of s i)"]
    by (intro exI [of _ i] exI [of _ Rel] exI [of _ "shared s"] exI [of _ "unlock_call L i (local_of s i)"])
      (auto simp: matches_def quiet_def stage_idle)
next
  case (unlock_runs i g l)
  then have "ok Rel l \<and> (quiet number turn ticket stage Rel (shared s) (local_of s i) Rel g l \<or>
      serves number turn stage Rel (shared s) (local_of s i) Rel g l)"
    using m by (intro unlock_running [of "local_of s i"]) (auto simp: matches_def)
  then show ?thesis
    using unlock_runs m queue_serves [of number turn ticket stage n q s i Rel g l]
      queue_quiet [of number turn ticket stage n q s i Rel g l] few
    by (intro exI [of _ i] exI [of _ Rel] exI [of _ g] exI [of _ l]) (auto simp: matches_def)
next
  case (unlock_returns i g l)
  then have "quiet number turn ticket stage Rel (shared s) (local_of s i) Out g l \<or>
      serves number turn stage Rel (shared s) (local_of s i) Out g l"
    using m by (intro unlock_returned [of "local_of s i"]) (auto simp: matches_def)
  then show ?thesis
    using unlock_returns m queue_serves [of number turn ticket stage n q s i Out g l]
      queue_quiet [of number turn ticket stage n q s i Out g l] few
    by (intro exI [of _ i] exI [of _ Out] exI [of _ g] exI [of _ l]) (auto simp: matches_def ok_idle)
qed

lemma matches_act:
  assumes m: "matches q s" and act: "lock_act L n s t"
  shows "\<exists>q'. (q' = q \<or> fifo_step q q') \<and> matches q' t"
  using matches_step [OF assms] by (auto intro: fifo_step.intros)

lemma matches_members:
  "matches q s \<Longrightarrow> distinct q" "matches q s \<Longrightarrow> set q = {i. i < n \<and> stage (phase_of s i) (local_of s i) \<noteq> NoTicket}"
  by (simp_all add: matches_def ticket_queue_def stage_of_def)

lemma matches_stays:
  assumes "matches q s" "i < n" "phase_of s i = Try" "stage Try (local_of s i) \<noteq> NoTicket"
    and "Running g l \<in> set (lock_step L i (shared s) (local_of s i))"
  shows "stage Try l \<noteq> NoTicket"
proof -
  have "ok Try (local_of s i)" using assms(1,2,3) by (auto simp: matches_def)
  from lock_running [OF this assms(5)] show ?thesis using assms(4) by (auto simp: quiet_def takes_def)
qed

lemma matches_head:
  "matches q s \<Longrightarrow> i < n \<Longrightarrow> phase_of s i = Crit \<Longrightarrow> q \<noteq> [] \<and> hd q = i"
  by (simp add: matches_def ticket_queue_def stage_of_def stage_idle)

end

sublocale ticket_contract \<subseteq> fifo_lock L n b s0 l0 matches
  by unfold_locales (auto intro: matches_init matches_call matches_act dest: matches_head)

text \<open>
  With fewer calls than numbers the counters never wrap, and tickets are ordered as numbers: a
  thread that has one holds the turn or a later number, and only the head of the queue the turn.
\<close>

locale bounded_ticket = ticket_contract L n b s0 l0 number turn ticket stage ok
  for L :: "('s, 'l) lock_impl" and n b :: nat and s0 :: 's and l0 :: "tid \<Rightarrow> 'l"
    and number turn :: "'s \<Rightarrow> 'w::len word" and ticket :: "'l \<Rightarrow> 'w word"
    and stage :: "phase \<Rightarrow> 'l \<Rightarrow> stage" and ok :: "phase \<Rightarrow> 'l \<Rightarrow> bool" +
  assumes few_calls: "b < 2 ^ LENGTH('w)" and zero: "number s0 = 0"
begin

definition drawing :: "phase \<Rightarrow> 'l \<Rightarrow> bool" where
  "drawing p l \<longleftrightarrow> p = Try \<and> stage Try l = NoTicket"

definition numbered :: "tid list \<Rightarrow> ('s, 'l) lock_state \<Rightarrow> bool" where
  "numbered q s \<longleftrightarrow> matches q s \<and> unat (turn (shared s)) + length q = unat (number (shared s)) \<and>
     unat (number (shared s)) + card (those n drawing s) \<le> calls s \<and> calls s \<le> b"

lemma numbered_init: "numbered [] (lock_init s0 l0)"
  using start zero matches_init by (simp add: numbered_def those_init drawing_def) (simp add: lock_init_def)

lemma numbered_call:
  assumes s: "numbered q s" and i: "i < n" and out: "phase_of s i = Out" and c: "calls s < b"
  shows "numbered q ((move i Try (shared s) (lock_call L w i (local_of s i)) s)\<lparr>calls := Suc (calls s)\<rparr>)"
  using s c matches_call [OF _ i out, of q w]
    card_those_in [of i n drawing Try "lock_call L w i (local_of s i)" s "shared s", OF i] out
  by (simp add: numbered_def drawing_def lock_called_ok)

lemma numbered_quiet:
  assumes s: "numbered q s" and i: "i < n" and p: "p = Try \<longrightarrow> phase_of s i = Try"
    and k: "quiet number turn ticket stage (phase_of s i) (shared s) (local_of s i) p g l"
    and m: "matches q (move i p g l s)"
  shows "numbered q (move i p g l s)"
proof -
  have "drawing p l \<Longrightarrow> drawing (phase_of s i) (local_of s i)"
    using p k by (auto simp: drawing_def quiet_def)
  then have "card (those n drawing (move i p g l s)) \<le> card (those n drawing s)"
    using i by (intro card_mono) (auto simp: those_move those_mem)
  then show ?thesis using s k m by (simp add: numbered_def quiet_def)
qed

lemma numbered_takes:
  assumes s: "numbered q s" and i: "i < n" and p: "phase_of s i = Try" "p = Try"
    and k: "takes number turn ticket stage (phase_of s i) (shared s) (local_of s i) p g l"
    and m: "matches (q @ [i]) (move i p g l s)"
  shows "numbered (q @ [i]) (move i p g l s)"
proof -
  have "card (those n drawing s) = Suc (card (those n drawing (move i p g l s)))"
    using i p k by (intro card_those_out) (auto simp: drawing_def takes_def)
  moreover from this have "Suc (unat (number (shared s))) < 2 ^ LENGTH('w)"
    using s few_calls by (simp add: numbered_def)
  then have "unat (number (shared s) + 1) = Suc (unat (number (shared s)))"
    by (simp add: unat_word_ariths)
  ultimately show ?thesis using s k m by (simp add: numbered_def takes_def)
qed

lemma numbered_serves:
  assumes s: "numbered (i # r) s" and i: "i < n" and p: "p \<noteq> Try" "phase_of s i = Rel"
    and k: "serves number turn stage (phase_of s i) (shared s) (local_of s i) p g l"
    and m: "matches r (move i p g l s)"
  shows "numbered r (move i p g l s)"
proof -
  have "Suc (unat (turn (shared s))) < 2 ^ LENGTH('w)"
    using s few_calls by (simp add: numbered_def)
  then have "unat (turn (shared s) + 1) = Suc (unat (turn (shared s)))"
    by (simp add: unat_word_ariths)
  moreover have "those n drawing (move i p g l s) = those n drawing s"
    using i p by (intro those_same) (auto simp: drawing_def)
  ultimately show ?thesis using s k m by (simp add: numbered_def serves_def)
qed

lemma numbered_act:
  assumes s: "numbered q s" and act: "lock_act L n s t"
  shows "\<exists>q'. (q' = q \<or> fifo_step q q') \<and> numbered q' t"
proof -
  from s have "matches q s" by (simp add: numbered_def)
  from matches_step [OF this act] show ?thesis
    using s numbered_quiet numbered_takes numbered_serves
    by (auto intro: fifo_step.intros)
qed

lemma turn_Suc:
  assumes "numbered q s" "q \<noteq> []"
  shows "turn (shared s) < turn (shared s) + 1"
proof -
  have "Suc (unat (turn (shared s))) < 2 ^ LENGTH('w)"
    using assms few_calls by (cases q) (simp_all add: numbered_def)
  then show ?thesis by (simp add: word_less_nat_alt unat_word_ariths)
qed

lemma turn_le_number:
  assumes "numbered q s"
  shows "turn (shared s) \<le> number (shared s)"
  using assms by (simp add: numbered_def word_le_nat_alt)

lemma granted_turn:
  assumes s: "numbered q s" and i: "i < n" and g: "stage (phase_of s i) (local_of s i) = Granted"
  shows "ticket (local_of s i) = turn (shared s) \<and> q \<noteq> [] \<and> hd q = i"
proof -
  have "q \<noteq> [] \<and> hd q = i" using assms by (simp add: numbered_def matches_def ticket_queue_def stage_of_def)
  then show ?thesis using s by (cases q) (auto simp: numbered_def matches_def ticket_queue_def)
qed

lemma ticket_after_turn:
  assumes s: "numbered q s" and i: "i < n" and "stage (phase_of s i) (local_of s i) \<noteq> NoTicket"
  shows "turn (shared s) < ticket (local_of s i) \<or> ticket (local_of s i) = turn (shared s) \<and> q \<noteq> [] \<and> hd q = i"
proof -
  have "i \<in> set q" using assms by (simp add: numbered_def matches_def ticket_queue_def stage_of_def)
  then obtain k where k: "k < length q" "q ! k = i" by (auto simp: in_set_conv_nth)
  then have t: "ticket (local_of s i) = turn (shared s) + of_nat k"
    using s by (auto simp: numbered_def matches_def ticket_queue_def)
  have "unat (turn (shared s)) + k < 2 ^ LENGTH('w)" using s k few_calls by (simp add: numbered_def)
  then have "unat (ticket (local_of s i)) = unat (turn (shared s)) + k"
    unfolding t by (simp add: unat_word_ariths unat_of_nat)
  then show ?thesis using k by (cases k) (auto simp: word_less_nat_alt t hd_conv_nth)
qed

end

text \<open>
  A spinning ticket lock drains: whoever waits for nothing, or holds the ticket being served,
  gets closer to the exit of its call.
\<close>

locale spinning_ticket = ticket_contract +
  fixes rank :: "'b \<Rightarrow> nat" and r :: nat
  assumes lock_goes: "ok Try l \<Longrightarrow> stage Try l \<noteq> Queued \<or> ticket l = turn s \<Longrightarrow>
      (\<exists>s' l'. Returned s' l' \<in> set (lock_step L i s l)) \<or>
      (\<exists>s' l'. Running s' l' \<in> set (lock_step L i s l) \<and> rank l' < rank l)"
    and unlock_goes: "ok Rel l \<Longrightarrow>
      (\<exists>s' l'. Returned s' l' \<in> set (unlock_step L i s l)) \<or>
      (\<exists>s' l'. Running s' l' \<in> set (unlock_step L i s l) \<and> rank l' < rank l)"
    and unlock_rank: "rank (unlock_call L i l) < r"
begin

lemma ticket_progress:
  assumes m: "matches q s" and i: "i < n" "phase_of s i \<noteq> Out"
  shows "\<exists>t. lock_act L n s t \<and> drain_weight r rank n t < drain_weight r rank n s"
proof -
  have "\<exists>k<n. phase_of s k = Crit \<or> phase_of s k = Rel \<or> (phase_of s k = Try \<and>
    (stage Try (local_of s k) \<noteq> Queued \<or> ticket (local_of s k) = turn (shared s)))"
  proof (cases q)
    case Nil
    then have "stage_of stage s i = NoTicket" using m i by (auto simp: matches_def ticket_queue_def)
    then show ?thesis using i by (cases "phase_of s i") (auto simp: stage_of_def)
  next
    case (Cons k r)
    then have "k < n" "stage_of stage s k \<noteq> NoTicket" "ticket (local_of s k) = turn (shared s)"
      using m by (auto simp: matches_def ticket_queue_def)
    then show ?thesis by (cases "phase_of s k") (auto simp: stage_of_def stage_idle)
  qed
  then obtain k where k: "k < n" and at: "phase_of s k = Crit \<or> phase_of s k = Rel \<or>
    (phase_of s k = Try \<and>
      (stage Try (local_of s k) \<noteq> Queued \<or> ticket (local_of s k) = turn (shared s)))" by blast
  moreover have "ok (phase_of s k) (local_of s k)" using m k by (simp add: matches_def)
  ultimately show ?thesis
    using drain_steps [OF k] lock_goes unlock_goes unlock_rank by metis
qed

end

sublocale spinning_ticket \<subseteq> live_fifo_lock L n b s0 l0 matches "drain_weight r rank n"
  by unfold_locales (auto intro: ticket_progress)

locale ticket_program =
  spinning_ticket "impl P" "num_threads P" "num_threads P * rounds P" "globals0 P" "locals0 P"
    number turn ticket stage ok rank r
  for P :: "('s, 'l) program" and number turn :: "'s \<Rightarrow> 'w::len word" and ticket :: "'l \<Rightarrow> 'w word"
    and stage :: "phase \<Rightarrow> 'l \<Rightarrow> stage" and ok :: "phase \<Rightarrow> 'l \<Rightarrow> bool"
    and rank :: "'l \<Rightarrow> nat" and r :: nat +
  assumes cell_target: "target P k = Some c \<Longrightarrow> c < cells P"

sublocale ticket_program \<subseteq> fifo_program P matches "drain_weight r rank (num_threads P)"
  by unfold_locales (rule cell_target)

sublocale ticket_program \<subseteq> ordered: ordered_program P matches "drain_weight r rank (num_threads P)" "\<lambda>p l. stage p l \<noteq> NoTicket"
  by unfold_locales (fact matches_members matches_stays)+

context ticket_program begin

lemma ticket_correct: "program_correct P"
  by (rule correct)

lemma ticket_in_order:
  "serves_in_order P (ticket_queue number turn ticket stage (num_threads P)) (\<lambda>p l. stage p l \<noteq> NoTicket)"
  by (rule serves_mono [OF ordered.in_order]) (simp add: matches_def)

end

end
