(* ===== verification/Ticket_Locks.thy ===== *)
theory Ticket_Locks
  imports Queue_Ticket
begin

section \<open>The ticket locks\<close>

text \<open>
  \<open>hardware/counter_get_and_add.c\<close> (two \<open>int\<close> counters), \<open>spinlocks/ticket_lock.c\<close> and
  \<open>spinlocks/ticket_lock_yield.c\<close> (two \<open>uint16_t\<close> in one struct). \<open>lock\<close> fetches and
  increments the number and spins until the turn equals it; \<open>unlock\<close> increments the turn.
\<close>

text \<open>\<open>struct tickets\<close>, and the two globals of \<open>counter_get_and_add.c\<close>.\<close>

record 'w tickets =
  turn :: 'w
  number :: 'w

datatype ticket_pc = TIdle | TakeNumber | SpinTurn | SpinYield | AddTurn

record 'w ticket_local =
  tkpc :: ticket_pc
  my_number :: 'w

fun ticket_stage :: "phase \<Rightarrow> 'w ticket_local \<Rightarrow> stage" where
  "ticket_stage Out l = NoTicket"
| "ticket_stage Try l = (if tkpc l = TakeNumber then NoTicket else Queued)"
| "ticket_stage Crit l = Granted"
| "ticket_stage Rel l = Granted"

fun ticket_ok :: "ticket_pc set \<Rightarrow> phase \<Rightarrow> 'w ticket_local \<Rightarrow> bool" where
  "ticket_ok pcs Try l = (tkpc l \<in> pcs)"
| "ticket_ok pcs Rel l = (tkpc l = AddTurn)"
| "ticket_ok pcs _ l = True"

fun ticket_rank :: "ticket_pc \<Rightarrow> nat" where
  "ticket_rank TakeNumber = 3"
| "ticket_rank SpinYield = 2"
| "ticket_rank SpinTurn = 1"
| "ticket_rank _ = 0"

subsection \<open>\<open>hardware/counter_get_and_add.c\<close>\<close>

definition get_and_add_lock ::
  "tid \<Rightarrow> cint tickets \<Rightarrow> cint ticket_local \<Rightarrow> (cint tickets, cint ticket_local) outcome list" where
  "get_and_add_lock i g l = (case tkpc l of
       TakeNumber \<Rightarrow> [Running (g\<lparr>number := number g + 1\<rparr>) (l\<lparr>my_number := number g, tkpc := SpinTurn\<rparr>)]
     | SpinTurn \<Rightarrow> [if my_number l \<noteq> turn g then Running g l else Returned g (l\<lparr>tkpc := TIdle\<rparr>)]
     | _ \<Rightarrow> [])"

definition get_and_add_unlock ::
  "tid \<Rightarrow> cint tickets \<Rightarrow> cint ticket_local \<Rightarrow> (cint tickets, cint ticket_local) outcome list" where
  "get_and_add_unlock i g l = (case tkpc l of
       AddTurn \<Rightarrow> [Returned (g\<lparr>turn := turn g + 1\<rparr>) (l\<lparr>tkpc := TIdle\<rparr>)]
     | _ \<Rightarrow> [])"

definition get_and_add_prog :: "nat \<Rightarrow> nat \<Rightarrow> (cint tickets, cint ticket_local) program" where
  "get_and_add_prog num_thr max_cnt = \<lparr>impl = \<lparr>
       lock_call = (\<lambda>w i l. l\<lparr>tkpc := TakeNumber\<rparr>), lock_step = get_and_add_lock,
       unlock_call = (\<lambda>i l. l\<lparr>tkpc := AddTurn\<rparr>), unlock_step = get_and_add_unlock\<rparr>,
     num_threads = num_thr, max_count = max_cnt, expected_count = max_cnt, cells = 1, target = one_counter, globals0 = \<lparr>turn = 0, number = 0\<rparr>,
     locals0 = (\<lambda>_. \<lparr>tkpc = TIdle, my_number = 0\<rparr>)\<rparr>"

lemma get_and_add_ticket:
  "n < 2 ^ 32 \<Longrightarrow> ticket_program (get_and_add_prog n m) number turn my_number ticket_stage
    (ticket_ok {TakeNumber, SpinTurn}) (\<lambda>l. ticket_rank (tkpc l)) 1"
  by unfold_locales
    (auto simp: get_and_add_prog_def get_and_add_lock_def get_and_add_unlock_def
      quiet_def takes_def serves_def split: if_splits)

interpretation get_and_add:
  ticket_program "get_and_add_prog NUM_THREADS m" number turn my_number ticket_stage
    "ticket_ok {TakeNumber, SpinTurn}" "\<lambda>l. ticket_rank (tkpc l)" 1 for m
  by (rule get_and_add_ticket) (simp add: NUM_THREADS_def)

subsection \<open>\<open>spinlocks/ticket_lock.c\<close>\<close>

definition ticket_lock_lock ::
  "tid \<Rightarrow> u16 tickets \<Rightarrow> u16 ticket_local \<Rightarrow> (u16 tickets, u16 ticket_local) outcome list" where
  "ticket_lock_lock i g l = (case tkpc l of
       TakeNumber \<Rightarrow> [Running (g\<lparr>number := number g + 1\<rparr>) (l\<lparr>my_number := number g, tkpc := SpinTurn\<rparr>)]
     | SpinTurn \<Rightarrow> [if my_number l \<noteq> turn g then Running g l else Returned g (l\<lparr>tkpc := TIdle\<rparr>)]
     | _ \<Rightarrow> [])"

definition ticket_lock_unlock ::
  "tid \<Rightarrow> u16 tickets \<Rightarrow> u16 ticket_local \<Rightarrow> (u16 tickets, u16 ticket_local) outcome list" where
  "ticket_lock_unlock i g l = (case tkpc l of
       AddTurn \<Rightarrow> [Returned (g\<lparr>turn := turn g + 1\<rparr>) (l\<lparr>tkpc := TIdle\<rparr>)]
     | _ \<Rightarrow> [])"

definition ticket_lock_prog :: "nat \<Rightarrow> nat \<Rightarrow> (u16 tickets, u16 ticket_local) program" where
  "ticket_lock_prog num_thr max_cnt = \<lparr>impl = \<lparr>
       lock_call = (\<lambda>w i l. l\<lparr>tkpc := TakeNumber\<rparr>), lock_step = ticket_lock_lock,
       unlock_call = (\<lambda>i l. l\<lparr>tkpc := AddTurn\<rparr>), unlock_step = ticket_lock_unlock\<rparr>,
     num_threads = num_thr, max_count = max_cnt, expected_count = max_cnt, cells = 1, target = one_counter, globals0 = \<lparr>turn = 0, number = 0\<rparr>,
     locals0 = (\<lambda>_. \<lparr>tkpc = TIdle, my_number = 0\<rparr>)\<rparr>"

lemma ticket_lock_ticket:
  "n < 2 ^ 16 \<Longrightarrow> ticket_program (ticket_lock_prog n m) number turn my_number ticket_stage
    (ticket_ok {TakeNumber, SpinTurn}) (\<lambda>l. ticket_rank (tkpc l)) 1"
  by unfold_locales
    (auto simp: ticket_lock_prog_def ticket_lock_lock_def ticket_lock_unlock_def
      quiet_def takes_def serves_def split: if_splits)

interpretation ticket_lock:
  ticket_program "ticket_lock_prog NUM_THREADS m" number turn my_number ticket_stage
    "ticket_ok {TakeNumber, SpinTurn}" "\<lambda>l. ticket_rank (tkpc l)" 1 for m
  by (rule ticket_lock_ticket) (simp add: NUM_THREADS_def)

subsection \<open>\<open>spinlocks/ticket_lock_yield.c\<close>\<close>

definition ticket_yield_lock ::
  "tid \<Rightarrow> u16 tickets \<Rightarrow> u16 ticket_local \<Rightarrow> (u16 tickets, u16 ticket_local) outcome list" where
  "ticket_yield_lock i g l = (case tkpc l of
       TakeNumber \<Rightarrow> [Running (g\<lparr>number := number g + 1\<rparr>) (l\<lparr>my_number := number g, tkpc := SpinTurn\<rparr>)]
     | SpinTurn \<Rightarrow>
         [if my_number l \<noteq> turn g then Running g (l\<lparr>tkpc := SpinYield\<rparr>)
          else Returned g (l\<lparr>tkpc := TIdle\<rparr>)]
     | SpinYield \<Rightarrow> [Running g (l\<lparr>tkpc := SpinTurn\<rparr>)]
     | _ \<Rightarrow> [])"

definition ticket_yield_unlock ::
  "tid \<Rightarrow> u16 tickets \<Rightarrow> u16 ticket_local \<Rightarrow> (u16 tickets, u16 ticket_local) outcome list" where
  "ticket_yield_unlock i g l = (case tkpc l of
       AddTurn \<Rightarrow> [Returned (g\<lparr>turn := turn g + 1\<rparr>) (l\<lparr>tkpc := TIdle\<rparr>)]
     | _ \<Rightarrow> [])"

definition ticket_yield_prog :: "nat \<Rightarrow> nat \<Rightarrow> (u16 tickets, u16 ticket_local) program" where
  "ticket_yield_prog num_thr max_cnt = \<lparr>impl = \<lparr>
       lock_call = (\<lambda>w i l. l\<lparr>tkpc := TakeNumber\<rparr>), lock_step = ticket_yield_lock,
       unlock_call = (\<lambda>i l. l\<lparr>tkpc := AddTurn\<rparr>), unlock_step = ticket_yield_unlock\<rparr>,
     num_threads = num_thr, max_count = max_cnt, expected_count = max_cnt, cells = 1, target = one_counter, globals0 = \<lparr>turn = 0, number = 0\<rparr>,
     locals0 = (\<lambda>_. \<lparr>tkpc = TIdle, my_number = 0\<rparr>)\<rparr>"

lemma ticket_yield_ticket:
  "n < 2 ^ 16 \<Longrightarrow> ticket_program (ticket_yield_prog n m) number turn my_number ticket_stage
    (ticket_ok {TakeNumber, SpinTurn, SpinYield}) (\<lambda>l. ticket_rank (tkpc l)) 1"
  by unfold_locales
    (auto simp: ticket_yield_prog_def ticket_yield_lock_def ticket_yield_unlock_def
      quiet_def takes_def serves_def split: if_splits)

interpretation ticket_yield:
  ticket_program "ticket_yield_prog NUM_THREADS m" number turn my_number ticket_stage
    "ticket_ok {TakeNumber, SpinTurn, SpinYield}" "\<lambda>l. ticket_rank (tkpc l)" 1 for m
  by (rule ticket_yield_ticket) (simp add: NUM_THREADS_def)

subsection \<open>Properties\<close>

text \<open>C2: the ticket locks are correct, although their counters wrap, for any \<open>MAX_COUNT\<close>: the two on
  16-bit counters for every number of threads below 65536, \<open>hardware/counter_get_and_add.c\<close>, on two
  \<open>int\<close> counters, for every number below \<open>2 ^ 32\<close>. No two threads ever hold equal tickets, so
  there is mutual exclusion, every increment is counted and every reachable state can finish.\<close>

theorem ticket_programs_correct:
  assumes "n < 2 ^ 16" and "k < 2 ^ 32"
  shows "program_correct (ticket_lock_prog n m) \<and> program_correct (ticket_yield_prog n m) \<and>
    program_correct (get_and_add_prog k m)"
  using ticket_program.ticket_correct [OF ticket_lock_ticket [OF assms(1)]]
    ticket_program.ticket_correct [OF ticket_yield_ticket [OF assms(1)]]
    ticket_program.ticket_correct [OF get_and_add_ticket [OF assms(2)]] by blast

theorem ticket_programs_correct_witness:
  "(4 :: nat) < 2 ^ 16 \<and> program_correct (ticket_lock_prog 4 10000000) \<and>
    program_correct (ticket_yield_prog 4 10000000) \<and> program_correct (get_and_add_prog 4 10000000)"
  using ticket_programs_correct [of 4 4 10000000] by simp

text \<open>The threads are served in the order in which they draw their numbers; the \<open>k\<close>-th thread of the queue holds
  the ticket \<open>turn + k\<close>.\<close>

definition holds_ticket :: "phase \<Rightarrow> 'w ticket_local \<Rightarrow> bool" where
  "holds_ticket p l \<longleftrightarrow> ticket_stage p l \<noteq> NoTicket"

lemma holds_ticket: "holds_ticket = (\<lambda>p l. ticket_stage p l \<noteq> NoTicket)"
  by (simp add: holds_ticket_def fun_eq_iff)

lemma ticket_locks_in_order:
  "n < 2 ^ 16 \<Longrightarrow> serves_in_order (ticket_lock_prog n m) (ticket_queue number turn my_number ticket_stage n) holds_ticket"
  "n < 2 ^ 16 \<Longrightarrow> serves_in_order (ticket_yield_prog n m) (ticket_queue number turn my_number ticket_stage n) holds_ticket"
  "n < 2 ^ 32 \<Longrightarrow> serves_in_order (get_and_add_prog n m) (ticket_queue number turn my_number ticket_stage n) holds_ticket"
  using ticket_program.ticket_in_order [OF ticket_lock_ticket, of n m] ticket_program.ticket_in_order [OF ticket_yield_ticket, of n m]
    ticket_program.ticket_in_order [OF get_and_add_ticket, of n m]
  by (simp_all add: holds_ticket ticket_lock_prog_def ticket_yield_prog_def get_and_add_prog_def)

end
