(* ===== verification/Array_Lock.thy ===== *)
theory Array_Lock
  imports Queue_Lock
begin

section \<open>Array locks\<close>

text \<open>
  \<open>spinlocks/array_lock.c\<close> and \<open>spinlocks/array_lock_variable_size.c\<close>: a fetch-and-add on
  \<open>tail\<close> gives a thread its slot, the slot its own flag to spin on, \<open>PADDING\<close> bytes from the
  next; \<open>unlock\<close> raises the flag of the next slot. The counter is a \<open>uint16_t\<close> that wraps, so
  consecutive slots stay distinct modulo \<open>NUM_THREADS\<close> only when that number divides 65536,
  and the index \<open>(slot % NUM_THREADS) * PADDING\<close> is truncated to 16 bits.

  The two files have the same code over a constant and a run-time \<open>PADDING\<close>; the array is a
  list of bytes, so that staying inside it is something to prove.
\<close>

record array_globals =
  tail :: u16
  flag :: "u8 list"

datatype array_pc = AIdle | TakeSlot | SpinFlag | ClearFlag | RaiseNext

record array_local =
  apc :: array_pc
  my_index :: u16

text \<open>
  The steps over \<open>NUM_THREADS\<close>, \<open>PADDING\<close> and \<open>SIZE\<close>. An access outside the array blocks
  the thread (no outcome); \<open>*my_index + PADDING\<close> is computed in 32 bits.
\<close>

definition slot_index :: "nat \<Rightarrow> nat \<Rightarrow> u16 \<Rightarrow> u16" where
  "slot_index n pad slot = of_nat (unat slot mod n * pad)"

definition next_index :: "nat \<Rightarrow> nat \<Rightarrow> u16 \<Rightarrow> nat" where
  "next_index pad sz k = (unat k + pad) mod 2 ^ 32 mod sz"

definition array_lock_step ::
  "nat \<Rightarrow> nat \<Rightarrow> tid \<Rightarrow> array_globals \<Rightarrow> array_local \<Rightarrow> (array_globals, array_local) outcome list" where
  "array_lock_step n pad i g l = (case apc l of
       TakeSlot \<Rightarrow>
         [Running (g\<lparr>tail := tail g + 1\<rparr>) (l\<lparr>my_index := slot_index n pad (tail g), apc := SpinFlag\<rparr>)]
     | SpinFlag \<Rightarrow>
         (if unat (my_index l) < length (flag g)
          then [Running g (l\<lparr>apc := if flag g ! unat (my_index l) = 0 then SpinFlag else ClearFlag\<rparr>)]
          else [])
     | ClearFlag \<Rightarrow>
         (if unat (my_index l) < length (flag g)
          then [Returned (g\<lparr>flag := (flag g)[unat (my_index l) := 0]\<rparr>) (l\<lparr>apc := AIdle\<rparr>)]
          else [])
     | _ \<Rightarrow> [])"

definition array_unlock_step ::
  "nat \<Rightarrow> nat \<Rightarrow> tid \<Rightarrow> array_globals \<Rightarrow> array_local \<Rightarrow> (array_globals, array_local) outcome list" where
  "array_unlock_step pad sz i g l = (case apc l of
       RaiseNext \<Rightarrow>
         (if next_index pad sz (my_index l) < length (flag g)
          then [Returned (g\<lparr>flag := (flag g)[next_index pad sz (my_index l) := 1]\<rparr>) (l\<lparr>apc := AIdle\<rparr>)]
          else [])
     | _ \<Rightarrow> [])"

definition array_impl :: "nat \<Rightarrow> nat \<Rightarrow> nat \<Rightarrow> (array_globals, array_local) lock_impl" where
  "array_impl n pad sz = \<lparr>lock_call = (\<lambda>w i l. l\<lparr>apc := TakeSlot\<rparr>), lock_step = array_lock_step n pad,
     unlock_call = (\<lambda>i l. l\<lparr>apc := RaiseNext\<rparr>), unlock_step = array_unlock_step pad sz\<rparr>"

subsection \<open>The invariant: slots in a queue, one raised flag\<close>

fun in_queue :: "phase \<Rightarrow> array_local \<Rightarrow> bool" where
  "in_queue Out l = False"
| "in_queue Try l = (apc l \<noteq> TakeSlot)"
| "in_queue _ l = True"

fun past_flag :: "phase \<Rightarrow> array_local \<Rightarrow> bool" where
  "past_flag Out l = False"
| "past_flag Try l = (apc l = ClearFlag)"
| "past_flag _ l = True"

fun array_ok :: "phase \<Rightarrow> array_local \<Rightarrow> bool" where
  "array_ok Try l = (apc l \<in> {TakeSlot, SpinFlag, ClearFlag})"
| "array_ok Rel l = (apc l = RaiseNext)"
| "array_ok _ l = True"

definition array_queue ::
  "nat \<Rightarrow> nat \<Rightarrow> tid list \<Rightarrow> u16 \<Rightarrow> (array_globals, array_local) lock_state \<Rightarrow> bool" where
  "array_queue n pad q h s \<longleftrightarrow>
     distinct q \<and> set q = {i. i < n \<and> in_queue (phase_of s i) (local_of s i)} \<and>
     tail (shared s) = h + of_nat (length q) \<and>
     (\<forall>k<length q. my_index (local_of s (q ! k)) = slot_index n pad (h + of_nat k)) \<and>
     (\<forall>i<n. past_flag (phase_of s i) (local_of s i) \<longrightarrow> q \<noteq> [] \<and> hd q = i) \<and>
     length (flag (shared s)) = n * pad \<and>
     (\<forall>j<n. flag (shared s) ! (j * pad) \<noteq> 0 \<longleftrightarrow>
        j = unat h mod n \<and> \<not> (q \<noteq> [] \<and> owning (phase_of s (hd q))))"

lemma array_queueI:
  assumes "distinct q" "\<And>i. i \<in> set q \<longleftrightarrow> i < n \<and> in_queue (phase_of s i) (local_of s i)"
    and "tail (shared s) = h + of_nat (length q)"
    and "\<And>k. k < length q \<Longrightarrow> my_index (local_of s (q ! k)) = slot_index n pad (h + of_nat k)"
    and "\<And>i. i < n \<Longrightarrow> past_flag (phase_of s i) (local_of s i) \<Longrightarrow> q \<noteq> [] \<and> hd q = i"
    and "length (flag (shared s)) = n * pad"
    and "\<And>j. j < n \<Longrightarrow> flag (shared s) ! (j * pad) \<noteq> 0 \<longleftrightarrow>
        j = unat h mod n \<and> \<not> (q \<noteq> [] \<and> owning (phase_of s (hd q)))"
  shows "array_queue n pad q h s"
  unfolding array_queue_def using assms by blast

lemma array_queueD:
  assumes "array_queue n pad q h s"
  shows "distinct q" "i \<in> set q \<longleftrightarrow> i < n \<and> in_queue (phase_of s i) (local_of s i)"
    and "tail (shared s) = h + of_nat (length q)"
    and "k < length q \<Longrightarrow> my_index (local_of s (q ! k)) = slot_index n pad (h + of_nat k)"
    and "i < n \<Longrightarrow> past_flag (phase_of s i) (local_of s i) \<Longrightarrow> q \<noteq> [] \<and> hd q = i"
    and "length (flag (shared s)) = n * pad"
    and "j < n \<Longrightarrow> flag (shared s) ! (j * pad) \<noteq> 0 \<longleftrightarrow>
        j = unat h mod n \<and> \<not> (q \<noteq> [] \<and> owning (phase_of s (hd q)))"
  using assms unfolding array_queue_def by auto

lemma array_queue_calls [simp]: "array_queue n pad q h (s\<lparr>calls := c\<rparr>) = array_queue n pad q h s"
  by (simp add: array_queue_def)

lemma in_queue_owning: "owning p \<Longrightarrow> in_queue p l" "owning p \<Longrightarrow> past_flag p l"
  by (cases p; simp)+

lemma past_flag_in_queue: "past_flag p l \<Longrightarrow> in_queue p l"
  by (cases p) auto

definition array_line ::
  "nat \<Rightarrow> nat \<Rightarrow> tid list \<Rightarrow> (array_globals, array_local) lock_state \<Rightarrow> bool" where
  "array_line n pad q s \<longleftrightarrow> (\<forall>i<n. array_ok (phase_of s i) (local_of s i)) \<and>
     (\<exists>h. array_queue n pad q h s)"

text \<open>The parameters under which the slots work: the checked facts on the two macros.\<close>

definition array_params :: "nat \<Rightarrow> nat \<Rightarrow> bool" where
  "array_params n pad \<longleftrightarrow> n dvd 2 ^ 16 \<and> 0 < pad \<and> n * pad \<le> 2 ^ 16"

lemma slot_mod:
  assumes "n dvd 2 ^ 16"
  shows "unat (h + of_nat k :: u16) mod n = (unat h + k) mod n"
proof -
  have "unat (h + of_nat k :: u16) = (unat h + k) mod 2 ^ 16"
    by (simp add: unat_word_ariths unsigned_of_nat take_bit_eq_mod mod_simps)
  then show ?thesis using assms by (simp add: mod_mod_cancel)
qed

lemma mod_mult_bound: "0 < n \<Longrightarrow> x mod n * pad + pad \<le> n * (pad :: nat)"
  by (metis Suc_leI add.commute mod_less_divisor mult_Suc mult_le_mono1)

lemma unat_slot_index:
  assumes "array_params n pad" "0 < n"
  shows "unat (slot_index n pad x) = unat x mod n * pad"
proof -
  have "unat x mod n * pad < 2 ^ 16"
    using assms mod_mult_bound [of n "unat x" pad] by (simp add: array_params_def)
  then show ?thesis by (simp add: slot_index_def unsigned_of_nat take_bit_nat_eq_self del: of_nat_mult)
qed

lemma next_slot_index:
  assumes p: "array_params n pad" "0 < n"
  shows "next_index pad (n * pad) (slot_index n pad h) = unat (h + 1) mod n * pad"
proof -
  have "unat h mod n * pad + pad \<le> 2 ^ 16"
    using p mod_mult_bound [of n "unat h" pad] by (simp add: array_params_def)
  then have "next_index pad (n * pad) (slot_index n pad h) = (unat h mod n * pad + pad) mod (n * pad)"
    by (simp add: next_index_def unat_slot_index [OF p])
  also have "\<dots> = (unat h mod n + 1) * pad mod (n * pad)" by (simp add: algebra_simps)
  also have "\<dots> = (unat h mod n + 1) mod n * pad" by (rule mod_mult_mult2)
  also have "(unat h mod n + 1) mod n = (unat h + 1) mod n" by (simp add: mod_simps)
  also have "(unat h + 1) mod n = unat (h + 1) mod n"
    using slot_mod [of n h 1] p by (simp add: array_params_def)
  finally show ?thesis .
qed

lemma mod_add_inj: "(a + k) mod n = a mod n \<Longrightarrow> k < n \<Longrightarrow> k = (0::nat)"
  using mod_eq_dvd_iff_nat [of a "a + k" n] by (auto dest: dvd_imp_le)

lemma array_queue_length:
  assumes "array_queue n pad q h s"
  shows "length q \<le> n"
proof -
  have "card (set q) \<le> card {..<n}"
    using assms by (intro card_mono) (auto simp: array_queue_def)
  moreover have "card (set q) = length q"
    using assms by (intro distinct_card) (simp add: array_queue_def)
  ultimately show ?thesis by simp
qed

text \<open>Only the head of the queue can find its flag raised.\<close>

lemma array_flag_head:
  assumes q: "array_queue n pad q h s" and p: "array_params n pad"
    and k: "k < length q"
  shows "unat (my_index (local_of s (q ! k))) = (unat h + k) mod n * pad"
    and "flag (shared s) ! unat (my_index (local_of s (q ! k))) \<noteq> 0 \<longleftrightarrow>
      k = 0 \<and> \<not> owning (phase_of s (hd q))"
proof -
  have n: "0 < n" using array_queue_length [OF q] k by simp
  have "my_index (local_of s (q ! k)) = slot_index n pad (h + of_nat k)"
    using q k by (simp add: array_queue_def)
  then show idx: "unat (my_index (local_of s (q ! k))) = (unat h + k) mod n * pad"
    using p n slot_mod [of n h k] by (simp add: unat_slot_index array_params_def)
  have "(unat h + k) mod n = unat h mod n \<longleftrightarrow> k = 0"
    using mod_add_inj [of "unat h" k n] array_queue_length [OF q] k by auto
  then show "flag (shared s) ! unat (my_index (local_of s (q ! k))) \<noteq> 0 \<longleftrightarrow>
      k = 0 \<and> \<not> owning (phase_of s (hd q))"
    unfolding idx using q k n by (auto simp: array_queue_def)
qed

lemma array_index_in_bounds:
  assumes p: "array_params n pad" and n: "0 < n"
  shows "x mod n * pad < n * pad"
  using p n by (simp add: array_params_def)

lemma array_member:
  assumes "array_queue n pad q h s" "i < n" "in_queue (phase_of s i) (local_of s i)"
  obtains k where "k < length q" "q ! k = i"
  using assms unfolding array_queue_def by (metis (mono_tags, lifting) in_set_conv_nth mem_Collect_eq)

lemma array_keep:
  assumes q: "array_queue n pad q h s" and i: "i < n"
    and x: "in_queue p l' = in_queue (phase_of s i) (local_of s i)"
      "in_queue p l' \<Longrightarrow> my_index l' = my_index (local_of s i)"
      "owning p = owning (phase_of s i)"
      "past_flag p l' \<Longrightarrow> past_flag (phase_of s i) (local_of s i) \<or> q \<noteq> [] \<and> hd q = i"
  shows "array_queue n pad q h (move i p (shared s) l' s)"
proof (rule array_queueI)
  note D = array_queueD [OF q]
  show "distinct q" by (rule D)
  show "j \<in> set q \<longleftrightarrow> j < n \<and> in_queue (phase_of (move i p (shared s) l' s) j)
      (local_of (move i p (shared s) l' s) j)" for j
    using D(2) [of j] x(1) by simp
  show "my_index (local_of (move i p (shared s) l' s) (q ! k)) = slot_index n pad (h + of_nat k)"
    if "k < length q" for k
    using D(4) [OF that] D(2) [of "q ! k"] that x(1,2) by auto
  show "q \<noteq> [] \<and> hd q = j" if "j < n"
    "past_flag (phase_of (move i p (shared s) l' s) j) (local_of (move i p (shared s) l' s) j)" for j
    using that D(5) [of j] x(4) by (cases "j = i") auto
  show "flag (shared (move i p (shared s) l' s)) ! (j * pad) \<noteq> 0 \<longleftrightarrow>
      j = unat h mod n \<and> \<not> (q \<noteq> [] \<and> owning (phase_of (move i p (shared s) l' s) (hd q)))"
    if "j < n" for j
    using D(7) [OF that] x(3) by simp
qed (use array_queueD [OF q] in simp_all)

lemma array_take:
  assumes q: "array_queue n pad q h s" and i: "i < n"
    and x: "\<not> in_queue (phase_of s i) (local_of s i)" "in_queue Try l'" "\<not> past_flag Try l'"
      "my_index l' = slot_index n pad (tail (shared s))"
  shows "array_queue n pad (q @ [i]) h (move i Try ((shared s)\<lparr>tail := tail (shared s) + 1\<rparr>) l' s)"
    (is "array_queue n pad _ h ?t")
proof (rule array_queueI)
  note D = array_queueD [OF q]
  have new: "i \<notin> set q" using D(2) x(1) by simp
  show "distinct (q @ [i])" using D(1) new by simp
  show "j \<in> set (q @ [i]) \<longleftrightarrow> j < n \<and> in_queue (phase_of ?t j) (local_of ?t j)" for j
    using D(2) [of j] x(2) i by auto
  show "tail (shared ?t) = h + of_nat (length (q @ [i]))" using D(3) by simp
  show "my_index (local_of ?t ((q @ [i]) ! k)) = slot_index n pad (h + of_nat k)"
    if "k < length (q @ [i])" for k
  proof (cases "k < length q")
    case True
    then have "q ! k \<noteq> i" using new by auto
    then show ?thesis using True D(4) by (simp add: nth_append)
  next
    case False
    then show ?thesis using that x(4) D(3) by (simp add: nth_append less_Suc_eq)
  qed
  show "q @ [i] \<noteq> [] \<and> hd (q @ [i]) = j"
    if "j < n" "past_flag (phase_of ?t j) (local_of ?t j)" for j
    using that D(5) [of j] x(3) by (cases "j = i") auto
  show "length (flag (shared ?t)) = n * pad" using D(6) by simp
  show "flag (shared ?t) ! (j * pad) \<noteq> 0 \<longleftrightarrow>
      j = unat h mod n \<and> \<not> (q @ [i] \<noteq> [] \<and> owning (phase_of ?t (hd (q @ [i]))))"
    if "j < n" for j
    using D(7) [OF that] new by (cases q) auto
qed

lemma array_clear:
  assumes q: "array_queue n pad q h s" and p: "array_params n pad" and i: "i < n"
    and x: "phase_of s i = Try" "past_flag Try (local_of s i)" "my_index l' = my_index (local_of s i)"
  shows "array_queue n pad q h (move i Crit
    ((shared s)\<lparr>flag := (flag (shared s))[unat (my_index (local_of s i)) := 0]\<rparr>) l' s)"
    (is "array_queue n pad _ h ?t")
proof (rule array_queueI)
  note D = array_queueD [OF q]
  obtain r where r: "q = i # r" using D(5) [OF i] x by (cases q) auto
  have idx: "unat (my_index (local_of s i)) = unat h mod n * pad"
    using array_flag_head(1) [OF q p, of 0] r by simp
  show "distinct q" by (rule D)
  show "j \<in> set q \<longleftrightarrow> j < n \<and> in_queue (phase_of ?t j) (local_of ?t j)" for j
    using D(2) [of j] x by auto
  show "my_index (local_of ?t (q ! k)) = slot_index n pad (h + of_nat k)" if "k < length q" for k
    using D(4) [OF that] x(3) by auto
  show "q \<noteq> [] \<and> hd q = j" if "j < n" "past_flag (phase_of ?t j) (local_of ?t j)" for j
    using that D(5) [of j] r by (cases "j = i") auto
  have "unat h mod n * pad < n * pad" using array_index_in_bounds p i by simp
  moreover have "j * pad = unat h mod n * pad \<longleftrightarrow> j = unat h mod n" for j
    using p by (simp add: array_params_def)
  ultimately have "(flag (shared s))[unat h mod n * pad := 0] ! (j * pad) = 0" if "j < n" for j
    using D(6) D(7) [OF that] by (cases "unat h mod n = j") simp_all
  then show "flag (shared ?t) ! (j * pad) \<noteq> 0 \<longleftrightarrow>
      j = unat h mod n \<and> \<not> (q \<noteq> [] \<and> owning (phase_of ?t (hd q)))" if "j < n" for j
    using that r idx by simp
qed (use array_queueD [OF q] in simp_all)

lemma array_raise:
  assumes q: "array_queue n pad q h s" and p: "array_params n pad" and i: "i < n"
    and x: "phase_of s i = Rel"
  shows "\<exists>r. q = i # r \<and> array_queue n pad r (h + 1) (move i Out ((shared s)\<lparr>flag :=
    (flag (shared s))[next_index pad (n * pad) (my_index (local_of s i)) := 1]\<rparr>) l' s)"
    (is "\<exists>r. _ \<and> array_queue n pad r _ ?t")
    and "next_index pad (n * pad) (my_index (local_of s i)) < length (flag (shared s))"
proof -
  note D = array_queueD [OF q]
  obtain r where r: "q = i # r" using D(5) [OF i] x by (cases q) auto
  have "my_index (local_of s i) = slot_index n pad h" using D(4) [of 0] r by simp
  then have idx: "next_index pad (n * pad) (my_index (local_of s i)) = unat (h + 1) mod n * pad"
    using next_slot_index [OF p] i by simp
  have bound: "unat (h + 1) mod n * pad < n * pad" using array_index_in_bounds p i by simp
  then show "next_index pad (n * pad) (my_index (local_of s i)) < length (flag (shared s))"
    using D(6) idx by simp
  have "array_queue n pad r (h + 1) ?t"
  proof (rule array_queueI)
    show "distinct r" using D(1) r by simp
    show "j \<in> set r \<longleftrightarrow> j < n \<and> in_queue (phase_of ?t j) (local_of ?t j)" for j
      using D(1) D(2) [of j] r by (cases "j = i") auto
    show "tail (shared ?t) = h + 1 + of_nat (length r)" using D(3) r by simp
    show "my_index (local_of ?t (r ! k)) = slot_index n pad (h + 1 + of_nat k)"
      if k: "k < length r" for k
    proof -
      have "r ! k \<noteq> i" using D(1) r k by auto
      then show ?thesis using D(4) [of "Suc k"] r k by (simp add: add.assoc)
    qed
    show "r \<noteq> [] \<and> hd r = j" if "j < n" "past_flag (phase_of ?t j) (local_of ?t j)" for j
      using that D(5) [of j] r by (cases "j = i") auto
    show "length (flag (shared ?t)) = n * pad" using D(6) by simp
    have "\<not> owning (phase_of ?t (hd r))" if "r \<noteq> []"
    proof
      assume own: "owning (phase_of ?t (hd r))"
      then have "hd r \<noteq> i" by auto
      moreover have "hd r < n" using D(2) [of "hd r"] r that by simp
      ultimately show False using D(5) [of "hd r"] own r in_queue_owning(2) by auto
    qed
    moreover have "j * pad = unat (h + 1) mod n * pad \<longleftrightarrow> j = unat (h + 1) mod n" for j
      using p by (simp add: array_params_def)
    ultimately show "flag (shared ?t) ! (j * pad) \<noteq> 0 \<longleftrightarrow>
      j = unat (h + 1) mod n \<and> \<not> (r \<noteq> [] \<and> owning (phase_of ?t (hd r)))" if "j < n" for j
      using D(6) D(7) [OF that] idx bound r x by (auto simp: nth_list_update)
  qed
  then show "\<exists>r. q = i # r \<and> array_queue n pad r (h + 1) ?t" using r by blast
qed

subsection \<open>The contract\<close>

fun array_rank :: "array_pc \<Rightarrow> nat" where
  "array_rank TakeSlot = 3"
| "array_rank SpinFlag = 2"
| "array_rank ClearFlag = 1"
| "array_rank _ = 0"

lemma array_line_call:
  assumes s: "array_line n pad q s" and i: "i < n" "phase_of s i = Out"
  shows "array_line n pad q
    ((move i Try (shared s) (lock_call (array_impl n pad sz) w i (local_of s i)) s)\<lparr>calls := c\<rparr>)"
proof -
  obtain h where q: "array_queue n pad q h s" using s by (auto simp: array_line_def)
  have "array_queue n pad q h (move i Try (shared s) ((local_of s i)\<lparr>apc := TakeSlot\<rparr>) s)"
    using i by (intro array_keep [OF q]) auto
  then have "\<exists>h. array_queue n pad q h (move i Try (shared s) ((local_of s i)\<lparr>apc := TakeSlot\<rparr>) s)"
    by blast
  then show ?thesis using s by (simp add: array_line_def array_impl_def)
qed

lemma array_line_act:
  assumes s: "array_line n pad q s" and p: "array_params n pad"
    and act: "lock_act (array_impl n pad (n * pad)) n s t"
  shows "\<exists>q'. (q' = q \<or> fifo_step q q') \<and> array_line n pad q' t"
proof -
  obtain h where q: "array_queue n pad q h s" using s by (auto simp: array_line_def)
  have ok: "i < n \<Longrightarrow> array_ok (phase_of s i) (local_of s i)" for i
    using s by (simp add: array_line_def)
  have conc: "\<exists>q'. (q' = q \<or> fifo_step q q') \<and> array_line n pad q' (move i p g l s)"
    if "array_queue n pad q' h' (move i p g l s)" "array_ok p l" "q' = q \<or> fifo_step q q'"
    for i p g l q' h'
    using that ok by (auto simp: array_line_def intro!: exI [of _ q'])
  show ?thesis
    using act
  proof cases
    case (lock_runs i g l)
    then consider "apc (local_of s i) = TakeSlot" | "apc (local_of s i) = SpinFlag"
      using ok [of i] by (auto simp: array_impl_def array_lock_step_def split: if_splits)
    then show ?thesis
    proof cases
      case 1
      then show ?thesis
        using lock_runs array_take [OF q, of i l] array_queueD(2) [OF q, of i]
        by (auto intro!: conc fifo_step.intros simp: array_impl_def array_lock_step_def)
    next
      case 2
      then obtain k where k: "k < length q" "q ! k = i"
        using array_member [OF q lock_runs(2)] lock_runs(3) by auto
      have "apc l = ClearFlag \<Longrightarrow> q \<noteq> [] \<and> hd q = i"
        using 2 lock_runs array_flag_head(2) [OF q p k(1)] k
        by (cases q) (auto simp: array_impl_def array_lock_step_def split: if_splits)
      then show ?thesis
        using 2 lock_runs array_keep [OF q lock_runs(2), of Try l]
        by (auto intro!: conc simp: array_impl_def array_lock_step_def split: if_splits)
    qed
  next
    case (lock_returns i g l)
    then have "apc (local_of s i) = ClearFlag"
      using ok [of i] by (auto simp: array_impl_def array_lock_step_def split: if_splits)
    then show ?thesis
      using lock_returns array_clear [OF q p lock_returns(2), of l]
      by (auto intro!: conc simp: array_impl_def array_lock_step_def split: if_splits)
  next
    case (unlock_called i)
    then show ?thesis
      using array_keep [OF q unlock_called(2), of Rel "(local_of s i)\<lparr>apc := RaiseNext\<rparr>"]
      by (auto intro!: conc simp: array_impl_def)
  next
    case (unlock_runs i g l)
    then show ?thesis
      by (auto simp: array_impl_def array_unlock_step_def split: array_pc.splits if_splits)
  next
    case (unlock_returns i g l)
    then have at: "apc (local_of s i) = RaiseNext"
      "t = move i Out ((shared s)\<lparr>flag :=
        (flag (shared s))[next_index pad (n * pad) (my_index (local_of s i)) := 1]\<rparr>) l s"
      using ok [of i] by (auto simp: array_impl_def array_unlock_step_def split: if_splits)
    obtain r where "q = i # r" "array_queue n pad r (h + 1) t"
      using array_raise(1) [OF q p unlock_returns(2,3)] at(2) by blast
    then show ?thesis using conc [of r] fifo_step.dequeue [of i r] at(2) by simp
  qed
qed

lemma array_line_head:
  "array_line n pad q s \<Longrightarrow> i < n \<Longrightarrow> phase_of s i = Crit \<Longrightarrow> q \<noteq> [] \<and> hd q = i"
  by (auto simp: array_line_def dest: array_queueD(5))

lemma array_progress:
  assumes s: "array_line n pad q s" and p: "array_params n pad" and i: "i < n" "phase_of s i \<noteq> Out"
  shows "\<exists>t. lock_act (array_impl n pad (n * pad)) n s t \<and>
    drain_weight 1 (\<lambda>l. array_rank (apc l)) n t < drain_weight 1 (\<lambda>l. array_rank (apc l)) n s"
proof -
  obtain h where q: "array_queue n pad q h s" using s by (auto simp: array_line_def)
  note D = array_queueD [OF q]
  obtain k where k: "k < n" and at: "phase_of s k = Crit \<or> phase_of s k = Rel \<or>
      phase_of s k = Try \<and> (apc (local_of s k) = TakeSlot \<or> q \<noteq> [] \<and> hd q = k)"
  proof (cases q)
    case Nil
    then show ?thesis using that [of i] D(2) [of i] i by (cases "phase_of s i") auto
  next
    case (Cons k r)
    then show ?thesis using that [of k] D(2) [of k] by (cases "phase_of s k") auto
  qed
  have ok: "array_ok (phase_of s k) (local_of s k)" using s k by (simp add: array_line_def)
  have here: "flag (shared s) ! unat (my_index (local_of s k)) \<noteq> 0 \<or> owning (phase_of s k)"
    and inside: "unat (my_index (local_of s k)) < length (flag (shared s))"
    if "q \<noteq> []" "hd q = k"
    using array_flag_head [OF q p, of 0] that D(6) array_index_in_bounds [OF p, of "unat h"] k
    by (auto simp: hd_conv_nth)
  consider "phase_of s k = Crit" | "phase_of s k = Rel"
    | "phase_of s k = Try" "apc (local_of s k) = TakeSlot"
    | "phase_of s k = Try" "apc (local_of s k) = SpinFlag" "q \<noteq> []" "hd q = k"
    | "phase_of s k = Try" "apc (local_of s k) = ClearFlag" "q \<noteq> []" "hd q = k"
    using at ok by fastforce
  then show ?thesis
  proof cases
    case 1
    then show ?thesis by (rule drain_steps(3) [OF k]) (simp add: array_impl_def)
  next
    case 2
    then show ?thesis
      using ok array_raise(2) [OF q p k]
      by (intro drain_steps(5) [OF k]) (auto simp: array_impl_def array_unlock_step_def)
  next
    case 3
    then show ?thesis
      by (intro drain_steps(1) [OF k]) (auto simp: array_impl_def array_lock_step_def)
  next
    case 4
    then show ?thesis
      using here inside by (intro drain_steps(1) [OF k]) (auto simp: array_impl_def array_lock_step_def)
  next
    case 5
    then show ?thesis
      using inside by (intro drain_steps(2) [OF k]) (auto simp: array_impl_def array_lock_step_def)
  qed
qed

text \<open>The array before the threads start: the flag of slot 0 raised, the other slots' flags not.\<close>

definition array_start :: "nat \<Rightarrow> nat \<Rightarrow> u8 list \<Rightarrow> bool" where
  "array_start n pad fs \<longleftrightarrow> length fs = n * pad \<and> (\<forall>j<n. fs ! (j * pad) \<noteq> 0 \<longleftrightarrow> j = 0)"

lemma array_live:
  assumes p: "array_params n pad" and f: "array_start n pad fs"
  shows "live_fifo_lock (array_impl n pad (n * pad)) n b \<lparr>tail = 0, flag = fs\<rparr> l0 (array_line n pad)
    (drain_weight 1 (\<lambda>l. array_rank (apc l)) n)"
proof unfold_locales
  have "array_queue n pad [] 0 (lock_init \<lparr>tail = 0, flag = fs\<rparr> l0)"
    using f by (intro array_queueI) (auto simp: lock_init_def array_start_def)
  then show "array_line n pad [] (lock_init \<lparr>tail = 0, flag = fs\<rparr> l0)"
    by (auto simp: array_line_def lock_init_def)
next
  show "\<exists>q'. (q' = q \<or> fifo_step q q') \<and> array_line n pad q' t"
    if "array_line n pad q s" "lock_act (array_impl n pad (n * pad)) n s t" for q s t
    using that(1) p that(2) by (rule array_line_act)
next
  show "q \<noteq> [] \<and> hd q = i" if "array_line n pad q s" "i < n" "phase_of s i = Crit" for q s i
    using that by (rule array_line_head)
next
  show "\<exists>t. lock_act (array_impl n pad (n * pad)) n s t \<and>
      drain_weight 1 (\<lambda>l. array_rank (apc l)) n t < drain_weight 1 (\<lambda>l. array_rank (apc l)) n s"
    if "array_line n pad q s" "i < n" "phase_of s i \<noteq> Out" for q s i
    using that(1) p that(2,3) by (rule array_progress)
qed (rule array_line_call)

subsection \<open>The two programs\<close>

text \<open>\<open>spinlocks/array_lock.c\<close>: \<open>PADDING\<close> is 32 and \<open>flag[0] = 1\<close> is stored before the threads start.\<close>

definition array_lock_prog :: "nat \<Rightarrow> nat \<Rightarrow> (array_globals, array_local) program" where
  "array_lock_prog num_thr max_cnt = \<lparr>impl = array_impl num_thr 32 (num_thr * 32),
     num_threads = num_thr, max_count = max_cnt, expected_count = max_cnt, cells = 1, target = one_counter,
     globals0 = \<lparr>tail = 0, flag = (replicate (num_thr * 32) 0)[0 := 1]\<rparr>,
     locals0 = (\<lambda>_. \<lparr>apc = AIdle, my_index = 0\<rparr>)\<rparr>"

lemma array_lock_live:
  assumes "n dvd 2 ^ 16" "n \<le> 2 ^ 11"
  shows "fifo_program (array_lock_prog n m) (array_line n 32)
    (drain_weight 1 (\<lambda>l. array_rank (apc l)) n)"
proof -
  have "array_params n 32" using assms by (simp add: array_params_def)
  moreover have "array_start n 32 ((replicate (n * 32) 0)[0 := 1])"
    by (auto simp: array_start_def nth_list_update)
  ultimately have "live_fifo_lock (array_impl n 32 (n * 32)) n (n * rounds (array_lock_prog n m))
    \<lparr>tail = 0, flag = (replicate (n * 32) 0)[0 := 1]\<rparr> (\<lambda>_. \<lparr>apc = AIdle, my_index = 0\<rparr>)
    (array_line n 32) (drain_weight 1 (\<lambda>l. array_rank (apc l)) n)" by (rule array_live)
  then show ?thesis
    by (simp add: array_lock_prog_def fifo_program_def fifo_program_axioms_def)
qed

interpretation array_lock: fifo_program "array_lock_prog NUM_THREADS m" "array_line NUM_THREADS 32"
    "drain_weight 1 (\<lambda>l. array_rank (apc l)) NUM_THREADS" for m
  by (rule array_lock_live) (simp_all add: NUM_THREADS_def)

text \<open>Threads are served in the order in which they take their slots.\<close>

lemma array_lock_ordered:
  assumes "n dvd 2 ^ 16" "n \<le> 2 ^ 11"
  shows "ordered_program (array_lock_prog n m) (array_line n 32) (drain_weight 1 (\<lambda>l. array_rank (apc l)) n) in_queue"
  unfolding ordered_program_def
proof (intro conjI array_lock_live [OF assms], unfold_locales)
  fix q s i g l
  assume s: "array_line n 32 q s"
  then show "distinct q" "set q = {i. i < num_threads (array_lock_prog n m) \<and> in_queue (phase_of s i) (local_of s i)}"
    by (auto simp: array_line_def array_lock_prog_def dest: array_queueD(1,2))
  show "in_queue Try l"
    if "in_queue Try (local_of s i)" "Running g l \<in> set (lock_step (impl (array_lock_prog n m)) i (shared s) (local_of s i))"
    using that by (auto simp: array_lock_prog_def array_impl_def array_lock_step_def split: array_pc.splits if_splits)
qed

lemma array_lock_in_order:
  "n dvd 2 ^ 16 \<Longrightarrow> n \<le> 2 ^ 11 \<Longrightarrow> serves_in_order (array_lock_prog n m) (array_line n 32) in_queue"
  by (rule ordered_program.in_order [OF array_lock_ordered])

text \<open>
  \<open>spinlocks/array_lock_variable_size.c\<close>: \<open>PADDING\<close> is the \<open>unsigned\<close> value of the argument,
  \<open>SIZE\<close> an \<open>unsigned\<close> product and the array is what \<open>malloc\<close> returned, whatever its bytes
  are, with \<open>flag[0] = 1\<close>. Without an argument, or with one that converts to 0, \<open>main\<close> stops
  with a message.
\<close>

definition array_variable_prog ::
  "nat \<Rightarrow> nat \<Rightarrow> u32 \<Rightarrow> u8 list \<Rightarrow> (array_globals, array_local) program" where
  "array_variable_prog num_thr max_cnt PADDING bytes =
     (let sz = unat (of_nat num_thr * PADDING) in
      \<lparr>impl = array_impl num_thr (unat PADDING) sz,
       num_threads = num_thr, max_count = max_cnt, expected_count = max_cnt, cells = 1, target = one_counter,
       globals0 = \<lparr>tail = 0, flag = (take sz bytes)[0 := 1]\<rparr>,
       locals0 = (\<lambda>_. \<lparr>apc = AIdle, my_index = 0\<rparr>)\<rparr>)"

definition array_variable_main ::
  "int \<Rightarrow> int \<Rightarrow> nat \<Rightarrow> nat \<Rightarrow> u8 list \<Rightarrow> (array_globals, array_local) program option" where
  "array_variable_main argc atol_arg num_thr max_cnt bytes =
     (let PADDING = word_of_int atol_arg :: u32 in
      if argc \<noteq> 2 \<or> PADDING = 0 then None else Some (array_variable_prog num_thr max_cnt PADDING bytes))"

lemma array_variable_live:
  assumes p: "array_params n (unat PADDING)" and len: "length bytes \<ge> n * unat PADDING"
    and zero: "\<And>j. 0 < j \<Longrightarrow> j < n \<Longrightarrow> bytes ! (j * unat PADDING) = 0"
  shows "fifo_program (array_variable_prog n m PADDING bytes) (array_line n (unat PADDING))
    (drain_weight 1 (\<lambda>l. array_rank (apc l)) n)"
proof -
  have sz: "unat (of_nat n * PADDING) = n * unat PADDING"
  proof -
    have "n * unat PADDING < 2 ^ 32" using p by (simp add: array_params_def)
    then have "unat (of_nat (n * unat PADDING) :: u32) = n * unat PADDING"
      by (simp add: unsigned_of_nat take_bit_nat_eq_self del: of_nat_mult)
    then show ?thesis by simp
  qed
  let ?fs = "(take (n * unat PADDING) bytes)[0 := 1]"
  have "array_start n (unat PADDING) ?fs"
    using p len zero array_index_in_bounds [OF p]
    by (auto simp: array_start_def nth_list_update array_params_def)
  with p have "live_fifo_lock (array_impl n (unat PADDING) (n * unat PADDING)) n
    (n * rounds (array_variable_prog n m PADDING bytes))
    \<lparr>tail = 0, flag = ?fs\<rparr> (\<lambda>_. \<lparr>apc = AIdle, my_index = 0\<rparr>)
    (array_line n (unat PADDING)) (drain_weight 1 (\<lambda>l. array_rank (apc l)) n)" by (rule array_live)
  then show ?thesis
    by (simp add: array_variable_prog_def sz Let_def fifo_program_def fifo_program_axioms_def)
qed

interpretation array_variable: fifo_program "array_variable_prog NUM_THREADS m 32 (replicate 128 0)"
    "array_line NUM_THREADS (unat (32 :: u32))" "drain_weight 1 (\<lambda>l. array_rank (apc l)) NUM_THREADS" for m
  by (rule array_variable_live) (simp_all add: NUM_THREADS_def array_params_def)

subsection \<open>Properties\<close>

text \<open>C4: \<open>array_lock.c\<close> is correct for every number of threads that divides 65536 and is at
  most 2048, the 4 of the file among them, and any \<open>MAX_COUNT\<close>: although \<open>tail\<close> wraps, the slots in
  use stay distinct, every access to \<open>flag\<close> is inside the array, there is mutual exclusion,
  every increment is counted and every reachable state can finish.\<close>

theorem array_lock_correct:
  assumes "n dvd 2 ^ 16" "n \<le> 2 ^ 11"
  shows "program_correct (array_lock_prog n m)"
  using fifo_program.fifo_correct [OF array_lock_live [OF assms]] .

theorem array_lock_correct_witness:
  "(4 :: nat) dvd 2 ^ 16 \<and> (4 :: nat) \<le> 2 ^ 11 \<and> program_correct (array_lock_prog 4 10000000)"
  using array_lock_correct [of 4 10000000] by simp

text \<open>The run that breaks it: two threads find their own flags raised.\<close>

definition array_race :: "(tid option \<times> nat) list" where
  "array_race = map (\<lambda>w. (w, 0)) [None, None, Some 0, Some 0, Some 0, Some 0, Some 1, Some 1, Some 1, Some 1]"

text \<open>Without that assumption it is not correct: \<open>malloc\<close> promises nothing about the bytes,
  and with a padding of 1 and four bytes that are 1, a reachable state has two threads
  between \<open>lock\<close> and \<open>unlock\<close>.\<close>

lemma array_variable_malloc_race:
  "\<exists>P. array_variable_main 2 1 NUM_THREADS MAX_COUNT [1, 1, 1, 1] = Some P \<and> \<not> mutual_exclusion P"
proof -
  let ?P = "array_variable_prog NUM_THREADS MAX_COUNT 1 [1, 1, 1, 1]"
  have "\<exists>s. run_schedule ?P array_race (prog_init ?P) = Some s \<and> critical s 0 \<and> critical s 1"
    by (simp add: array_race_def array_variable_prog_def prog_init_def main_step_def count_step_def
        array_impl_def array_lock_step_def slot_index_def critical_def rounds_def NUM_THREADS_def
        MAX_COUNT_def Let_def)
  then obtain s where "prog_reach ?P s" "critical s 0" "critical s 1"
    using run_schedule_reaches by blast
  moreover have "0 < num_threads ?P" "1 < num_threads ?P"
    by (simp_all add: array_variable_prog_def NUM_THREADS_def Let_def)
  ultimately have "\<not> mutual_exclusion ?P"
    unfolding mutual_exclusion_def by (metis zero_neq_one)
  then show ?thesis by (simp add: array_variable_main_def)
qed

text \<open>With a padding of 32768 the index, kept in a \<open>uint16_t\<close>, is truncated: slots 0 and 2 spin on the
  same flag, and the flag \<open>unlock\<close> raises after slot 1 is none that a slot spins on.\<close>

lemma array_variable_index_truncated:
  "slot_index NUM_THREADS 32768 0 = slot_index NUM_THREADS 32768 2 \<and>
   next_index 32768 (NUM_THREADS * 32768) (slot_index NUM_THREADS 32768 1) = 65536 \<and>
   unat (slot_index NUM_THREADS 32768 k) \<noteq> 65536"
proof -
  have "unat (slot_index NUM_THREADS 32768 k) < 2 ^ 16"
    using unsigned_less [of "slot_index NUM_THREADS 32768 k"] by simp
  then show ?thesis by (simp add: slot_index_def next_index_def NUM_THREADS_def)
qed

text \<open>C14: \<open>array_lock_variable_size.c\<close> is correct for every padding with
  \<open>NUM_THREADS * PADDING\<close> at most 65536 if the memory \<open>malloc\<close> returned happens to be 0 at the flags
  of the slots other than the first. \<open>malloc\<close> does not promise it: with a padding of 1 and four
  bytes that are 1, a reachable state has two threads between \<open>lock\<close> and \<open>unlock\<close>. With a
  padding of 32768 the index, kept in a \<open>uint16_t\<close>, is truncated: slots 0 and 2 spin on the same
  flag, and the flag \<open>unlock\<close> raises after slot 1 is none that a slot spins on.\<close>

theorem array_variable_correct:
  assumes "n dvd 2 ^ 16" "0 < PADDING" "n * unat PADDING \<le> 2 ^ 16"
    and "length bytes \<ge> n * unat PADDING"
    and "list_all (\<lambda>j. bytes ! (j * unat PADDING) = 0) [1..<n]"
  shows "program_correct (array_variable_prog n m PADDING bytes) \<and>
    (\<exists>P. array_variable_main 2 1 NUM_THREADS MAX_COUNT [1, 1, 1, 1] = Some P \<and> \<not> mutual_exclusion P) \<and>
    slot_index NUM_THREADS 32768 0 = slot_index NUM_THREADS 32768 2 \<and>
    next_index 32768 (NUM_THREADS * 32768) (slot_index NUM_THREADS 32768 1) = 65536 \<and>
    unat (slot_index NUM_THREADS 32768 k) \<noteq> 65536"
proof -
  have "array_params n (unat PADDING)"
    using assms by (simp add: array_params_def unat_gt_0 word_gt_0)
  moreover have "\<And>j. 0 < j \<Longrightarrow> j < n \<Longrightarrow> bytes ! (j * unat PADDING) = 0"
    using assms(5) by (simp add: list_all_iff)
  ultimately show ?thesis
    using assms(4) fifo_program.fifo_correct [OF array_variable_live] array_variable_malloc_race
      array_variable_index_truncated [of k] by blast
qed

theorem array_variable_correct_witness:
  "program_correct (array_variable_prog 4 10000000 32 (replicate 128 0))"
  by (rule conjunct1 [OF array_variable_correct]) (simp_all add: upt_rec)

end
