(* ===== verification/CLH_Lock.thy ===== *)
theory CLH_Lock
  imports Queue_Lock
begin

section \<open>CLH locks\<close>

text \<open>
  \<open>spinlocks/clh_spinlock.c\<close> and \<open>spinlocks/clh_spinlock_yield.c\<close>: an implicit list of nodes.
  A thread marks its node locked, exchanges it with \<open>tail\<close> and spins on the node it got, its
  predecessor's; \<open>unlock\<close> clears the thread's own node and takes the predecessor's node over for
  the next call. Nodes are shared by address and change hands, so memory is a map from addresses
  to nodes: address 0 is the global \<open>lock_node\<close>, address \<open>i + 1\<close> the node thread \<open>i\<close>
  got from \<open>malloc\<close> (whose contents are a parameter).

  The invariant: the free node and the nodes the threads hold are pairwise distinct; the
  threads that exchanged form a queue in which each spins on the node of the one before, the
  first on the free node, whose \<open>locked\<close> is 0.
\<close>

type_synonym addr = nat

record clh_node =
  locked :: u8
  prev :: addr

record clh_globals =
  tail :: addr
  nodes :: "addr \<Rightarrow> clh_node"

datatype clh_pc = CIdle | SetLocked | ExchangeTail | SetPrev | SpinLocked | SpinYield
  | GetPrev | ClearLocked

record clh_local =
  hpc :: clh_pc
  node :: addr
  predecessor :: addr
  tmp :: addr

abbreviation set_node :: "addr \<Rightarrow> clh_node \<Rightarrow> clh_globals \<Rightarrow> clh_globals" where
  "set_node a x g \<equiv> g\<lparr>nodes := (nodes g)(a := x)\<rparr>"

subsection \<open>The code\<close>

text \<open>The value of the chained assignment is written to \<open>node->prev\<close> after the exchange.\<close>

definition clh_lock_step ::
  "tid \<Rightarrow> clh_globals \<Rightarrow> clh_local \<Rightarrow> (clh_globals, clh_local) outcome list" where
  "clh_lock_step i g l = (case hpc l of
       SetLocked \<Rightarrow>
         [Running (set_node (node l) ((nodes g (node l))\<lparr>locked := 1\<rparr>) g) (l\<lparr>hpc := ExchangeTail\<rparr>)]
     | ExchangeTail \<Rightarrow> [Running (g\<lparr>tail := node l\<rparr>) (l\<lparr>predecessor := tail g, hpc := SetPrev\<rparr>)]
     | SetPrev \<Rightarrow>
         [Running (set_node (node l) ((nodes g (node l))\<lparr>prev := predecessor l\<rparr>) g) (l\<lparr>hpc := SpinLocked\<rparr>)]
     | SpinLocked \<Rightarrow>
         [if locked (nodes g (predecessor l)) \<noteq> 0 then Running g l else Returned g (l\<lparr>hpc := CIdle\<rparr>)]
     | _ \<Rightarrow> [])"

definition clh_unlock_step ::
  "tid \<Rightarrow> clh_globals \<Rightarrow> clh_local \<Rightarrow> (clh_globals, clh_local) outcome list" where
  "clh_unlock_step i g l = (case hpc l of
       GetPrev \<Rightarrow>
         [Running g (l\<lparr>tmp := node l, node := prev (nodes g (node l)), hpc := ClearLocked\<rparr>)]
     | ClearLocked \<Rightarrow>
         [Returned (set_node (tmp l) ((nodes g (tmp l))\<lparr>locked := 0\<rparr>) g) (l\<lparr>hpc := CIdle\<rparr>)]
     | _ \<Rightarrow> [])"

text \<open>\<open>clh_spinlock_yield.c\<close> calls \<open>sched_yield\<close> between two reads of the predecessor.\<close>

definition clh_yield_lock_step ::
  "tid \<Rightarrow> clh_globals \<Rightarrow> clh_local \<Rightarrow> (clh_globals, clh_local) outcome list" where
  "clh_yield_lock_step i g l = (case hpc l of
       SpinLocked \<Rightarrow>
         [if locked (nodes g (predecessor l)) \<noteq> 0 then Running g (l\<lparr>hpc := SpinYield\<rparr>)
          else Returned g (l\<lparr>hpc := CIdle\<rparr>)]
     | SpinYield \<Rightarrow> [Running g (l\<lparr>hpc := SpinLocked\<rparr>)]
     | _ \<Rightarrow> clh_lock_step i g l)"

definition clh_init :: "(addr \<Rightarrow> clh_node) \<Rightarrow> clh_globals" where
  "clh_init heap = \<lparr>tail = 0, nodes = heap(0 := \<lparr>locked = 0, prev = 0\<rparr>)\<rparr>"

definition clh_local0 :: "tid \<Rightarrow> clh_local" where
  "clh_local0 i = \<lparr>hpc = CIdle, node = Suc i, predecessor = 0, tmp = 0\<rparr>"

definition clh_impl ::
  "(tid \<Rightarrow> clh_globals \<Rightarrow> clh_local \<Rightarrow> (clh_globals, clh_local) outcome list) \<Rightarrow>
    (clh_globals, clh_local) lock_impl" where
  "clh_impl lock = \<lparr>lock_call = (\<lambda>w i l. l\<lparr>hpc := SetLocked\<rparr>), lock_step = lock,
     unlock_call = (\<lambda>i l. l\<lparr>hpc := GetPrev\<rparr>), unlock_step = clh_unlock_step\<rparr>"

definition clh_prog ::
  "(addr \<Rightarrow> clh_node) \<Rightarrow> nat \<Rightarrow> nat \<Rightarrow> (clh_globals, clh_local) program" where
  "clh_prog heap num_thr max_cnt = \<lparr>impl = clh_impl clh_lock_step,
     num_threads = num_thr, max_count = max_cnt, expected_count = max_cnt, cells = 1, target = one_counter, globals0 = clh_init heap, locals0 = clh_local0\<rparr>"

definition clh_yield_prog ::
  "(addr \<Rightarrow> clh_node) \<Rightarrow> nat \<Rightarrow> nat \<Rightarrow> (clh_globals, clh_local) program" where
  "clh_yield_prog heap num_thr max_cnt = \<lparr>impl = clh_impl clh_yield_lock_step,
     num_threads = num_thr, max_count = max_cnt, expected_count = max_cnt, cells = 1, target = one_counter, globals0 = clh_init heap, locals0 = clh_local0\<rparr>"

subsection \<open>The queue of nodes\<close>

text \<open>The node a thread holds: its own, until the node it clears has changed hands.\<close>

definition held :: "clh_local \<Rightarrow> addr" where
  "held l = (if hpc l = ClearLocked then tmp l else node l)"

fun clh_ok :: "phase \<Rightarrow> clh_pc \<Rightarrow> bool" where
  "clh_ok Try c = (c \<in> {SetLocked, ExchangeTail, SetPrev, SpinLocked, SpinYield})"
| "clh_ok Rel c = (c \<in> {GetPrev, ClearLocked})"
| "clh_ok _ c = (c = CIdle)"

fun joined :: "phase \<Rightarrow> clh_pc \<Rightarrow> bool" where
  "joined Out c = False"
| "joined Try c = (c \<noteq> SetLocked \<and> c \<noteq> ExchangeTail)"
| "joined _ c = True"

text \<open>What holds of the member of the queue whose predecessor's node is \<open>p\<close>.\<close>

definition waits_on :: "(addr \<Rightarrow> clh_node) \<Rightarrow> clh_local \<Rightarrow> addr \<Rightarrow> bool" where
  "waits_on h l p \<longleftrightarrow> (hpc l = ClearLocked \<longrightarrow> node l = p) \<and> (hpc l \<noteq> ClearLocked \<longrightarrow>
     predecessor l = p \<and> (hpc l \<noteq> SetPrev \<longrightarrow> prev (h (held l)) = p))"

text \<open>The node of the member at position \<open>k - 1\<close>; at the front, the free node \<open>f\<close>.\<close>

fun node_before :: "addr \<Rightarrow> (tid \<Rightarrow> clh_local) \<Rightarrow> tid list \<Rightarrow> nat \<Rightarrow> addr" where
  "node_before f ls q 0 = f"
| "node_before f ls q (Suc k) = held (ls (q ! k))"

definition clh_queue ::
  "nat \<Rightarrow> tid list \<Rightarrow> addr \<Rightarrow> (clh_globals, clh_local) lock_state \<Rightarrow> bool" where
  "clh_queue n q f s \<longleftrightarrow>
     (\<forall>i<n. clh_ok (phase_of s i) (hpc (local_of s i))) \<and>
     distinct q \<and> set q = {i. i < n \<and> joined (phase_of s i) (hpc (local_of s i))} \<and>
     inj_on (\<lambda>i. held (local_of s i)) {..<n} \<and> f \<notin> (\<lambda>i. held (local_of s i)) ` {..<n} \<and>
     tail (shared s) = node_before f (local_of s) q (length q) \<and>
     (\<forall>k<length q. waits_on (nodes (shared s)) (local_of s (q ! k)) (node_before f (local_of s) q k)) \<and>
     locked (nodes (shared s) f) = 0 \<and>
     (\<forall>i<n. joined (phase_of s i) (hpc (local_of s i)) \<or> hpc (local_of s i) = ExchangeTail \<longrightarrow>
        locked (nodes (shared s) (held (local_of s i))) \<noteq> 0) \<and>
     (\<forall>i<n. owning (phase_of s i) \<longrightarrow> q \<noteq> [] \<and> hd q = i)"

definition clh_line ::
  "nat \<Rightarrow> bool \<Rightarrow> tid list \<Rightarrow> (clh_globals, clh_local) lock_state \<Rightarrow> bool" where
  "clh_line n y q s \<longleftrightarrow> (\<exists>f. clh_queue n q f s) \<and> (\<forall>i<n. hpc (local_of s i) = SpinYield \<longrightarrow> y)"

lemma clh_queueI:
  assumes "\<And>i. i < n \<Longrightarrow> clh_ok (phase_of s i) (hpc (local_of s i))"
    and "distinct q" "\<And>i. i \<in> set q \<longleftrightarrow> i < n \<and> joined (phase_of s i) (hpc (local_of s i))"
    and "\<And>i j. i < n \<Longrightarrow> j < n \<Longrightarrow> held (local_of s i) = held (local_of s j) \<Longrightarrow> i = j"
    and "\<And>i. i < n \<Longrightarrow> held (local_of s i) \<noteq> f"
    and "tail (shared s) = node_before f (local_of s) q (length q)"
    and "\<And>k. k < length q \<Longrightarrow>
      waits_on (nodes (shared s)) (local_of s (q ! k)) (node_before f (local_of s) q k)"
    and "locked (nodes (shared s) f) = 0"
    and "\<And>i. i < n \<Longrightarrow> joined (phase_of s i) (hpc (local_of s i)) \<or> hpc (local_of s i) = ExchangeTail \<Longrightarrow>
      locked (nodes (shared s) (held (local_of s i))) \<noteq> 0"
    and "\<And>i. i < n \<Longrightarrow> owning (phase_of s i) \<Longrightarrow> q \<noteq> [] \<and> hd q = i"
  shows "clh_queue n q f s"
  unfolding clh_queue_def inj_on_def image_iff using assms by (intro conjI) blast+

lemma clh_queueD:
  assumes "clh_queue n q f s"
  shows "i < n \<Longrightarrow> clh_ok (phase_of s i) (hpc (local_of s i))"
    and "distinct q" "i \<in> set q \<longleftrightarrow> i < n \<and> joined (phase_of s i) (hpc (local_of s i))"
    and "i < n \<Longrightarrow> j < n \<Longrightarrow> held (local_of s i) = held (local_of s j) \<longleftrightarrow> i = j"
    and "i < n \<Longrightarrow> held (local_of s i) \<noteq> f"
    and "tail (shared s) = node_before f (local_of s) q (length q)"
    and "k < length q \<Longrightarrow>
      waits_on (nodes (shared s)) (local_of s (q ! k)) (node_before f (local_of s) q k)"
    and "locked (nodes (shared s) f) = 0"
    and "i < n \<Longrightarrow> joined (phase_of s i) (hpc (local_of s i)) \<or> hpc (local_of s i) = ExchangeTail \<Longrightarrow>
      locked (nodes (shared s) (held (local_of s i))) \<noteq> 0"
    and "i < n \<Longrightarrow> owning (phase_of s i) \<Longrightarrow> q \<noteq> [] \<and> hd q = i"
  using assms unfolding clh_queue_def inj_on_def by auto

lemma clh_queue_calls [simp]: "clh_queue n q f (s\<lparr>calls := c\<rparr>) = clh_queue n q f s"
  by (simp add: clh_queue_def)

lemma node_before_cong:
  assumes "\<And>j. j \<in> set q \<Longrightarrow> held (ls' j) = held (ls j)" "k \<le> length q"
  shows "node_before f ls' q k = node_before f ls q k"
  using assms by (cases k) auto

subsection \<open>The steps on the queue\<close>

text \<open>A step that only touches the thread's own node and locals.\<close>

lemma clh_own:
  assumes q: "clh_queue n q f s" and i: "i < n"
    and x: "clh_ok p (hpc l)" "held l = held (local_of s i)"
      "joined p (hpc l) = joined (phase_of s i) (hpc (local_of s i))"
      "tail g = tail (shared s)"
      "\<And>a. a \<noteq> held (local_of s i) \<Longrightarrow> nodes g a = nodes (shared s) a"
      "\<And>r. i \<in> set q \<Longrightarrow> waits_on (nodes (shared s)) (local_of s i) r \<Longrightarrow> waits_on (nodes g) l r"
      "joined p (hpc l) \<or> hpc l = ExchangeTail \<Longrightarrow> locked (nodes g (held l)) \<noteq> 0"
      "owning p \<Longrightarrow> q \<noteq> [] \<and> hd q = i"
  shows "clh_queue n q f (move i p g l s)"
proof -
  note D = clh_queueD [OF q]
  let ?ls = "(local_of s)(i := l)"
  have held_same: "held (?ls j) = held (local_of s j)" for j using x(2) by simp
  have before: "k \<le> length q \<Longrightarrow> node_before f ?ls q k = node_before f (local_of s) q k" for k
    using held_same by (intro node_before_cong)
  have mem: "j \<in> set q \<Longrightarrow> j < n" for j using D(3) by blast
  show ?thesis
  proof (rule clh_queueI)
    show "waits_on (nodes (shared (move i p g l s))) (local_of (move i p g l s) (q ! k))
        (node_before f (local_of (move i p g l s)) q k)" if k: "k < length q" for k
    proof (cases "q ! k = i")
      case True
      then show ?thesis using x(6) D(7) [OF k] k before [of k] nth_mem [OF k] by simp
    next
      case False
      then have "held (local_of s (q ! k)) \<noteq> held (local_of s i)"
        using D(4) [of "q ! k" i] mem [OF nth_mem [OF k]] i by blast
      then show ?thesis using False D(7) [OF k] k before [of k] x(5) by (simp add: waits_on_def)
    qed
    show "locked (nodes (shared (move i p g l s)) (held (local_of (move i p g l s) j))) \<noteq> 0"
      if "j < n" "joined (phase_of (move i p g l s) j) (hpc (local_of (move i p g l s) j)) \<or>
        hpc (local_of (move i p g l s) j) = ExchangeTail" for j
    proof (cases "j = i")
      case True
      then show ?thesis using that x(7) by simp
    next
      case False
      then show ?thesis using that D(4) [of j i] D(9) [of j] i x(5) by simp
    qed
    show "tail (shared (move i p g l s)) = node_before f (local_of (move i p g l s)) q (length q)"
      using D(6) x(4) before [of "length q"] by simp
    show "locked (nodes (shared (move i p g l s)) f) = 0"
      using D(8) x(5) [of f] D(5) [OF i] by simp
    show "q \<noteq> [] \<and> hd q = j" if "j < n" "owning (phase_of (move i p g l s) j)" for j
      using that D(10) [of j] x(8) by (cases "j = i") auto
  qed (use D(1,2,3,4,5) x(1,3) held_same i in auto)
qed

text \<open>The exchange on \<open>tail\<close> enters the queue.\<close>

lemma clh_enter:
  assumes q: "clh_queue n q f s" and i: "i < n"
    and x: "phase_of s i = Try" "hpc (local_of s i) = ExchangeTail" "hpc l = SetPrev"
      "node l = node (local_of s i)" "predecessor l = tail (shared s)"
  shows "clh_queue n (q @ [i]) f (move i Try ((shared s)\<lparr>tail := node (local_of s i)\<rparr>) l s)"
    (is "clh_queue n _ f ?t")
proof -
  note D = clh_queueD [OF q]
  have held_same: "held (local_of ?t j) = held (local_of s j)" for j
    using x by (simp add: held_def)
  have before: "k \<le> length q \<Longrightarrow> node_before f (local_of ?t) (q @ [i]) k = node_before f (local_of s) q k" for k
    using held_same by (cases k) (simp_all add: nth_append)
  have new: "i \<notin> set q" using D(3) x by simp
  show ?thesis
  proof (rule clh_queueI)
    show "waits_on (nodes (shared ?t)) (local_of ?t ((q @ [i]) ! k))
        (node_before f (local_of ?t) (q @ [i]) k)" if "k < length (q @ [i])" for k
    proof (cases "k < length q")
      case True
      then have "q ! k \<noteq> i" using new by auto
      then show ?thesis using True D(7) [OF True] before [of k] by (simp add: nth_append)
    next
      case False
      then have "k = length q" using that by simp
      then show ?thesis using before [of k] D(6) x by (simp add: waits_on_def)
    qed
    show "tail (shared ?t) = node_before f (local_of ?t) (q @ [i]) (length (q @ [i]))"
      using x by (simp add: nth_append held_def)
    show "j \<in> set (q @ [i]) \<longleftrightarrow> j < n \<and> joined (phase_of ?t j) (hpc (local_of ?t j))" for j
      using D(3) [of j] i x(3) by (cases "j = i") auto
    show "locked (nodes (shared ?t) (held (local_of ?t j))) \<noteq> 0"
      if "j < n" "joined (phase_of ?t j) (hpc (local_of ?t j)) \<or> hpc (local_of ?t j) = ExchangeTail" for j
      unfolding held_same using that D(9) [of j] x by (cases "j = i") simp_all
    show "q @ [i] \<noteq> [] \<and> hd (q @ [i]) = j" if "j < n" "owning (phase_of ?t j)" for j
      using that D(10) [of j] by (cases "j = i") auto
  qed (use D held_same new x(3) in auto)
qed

text \<open>Clearing its node, a thread leaves the queue with the node it had spun on.\<close>

lemma clh_leave:
  assumes q: "clh_queue n q f s" and i: "i < n"
    and x: "phase_of s i = Rel" "hpc (local_of s i) = ClearLocked" "hpc l = CIdle"
      "node l = node (local_of s i)"
    and g: "g = set_node (tmp (local_of s i)) ((nodes (shared s) (tmp (local_of s i)))\<lparr>locked := 0\<rparr>) (shared s)"
  shows "\<exists>r. q = i # r \<and> clh_queue n r (tmp (local_of s i)) (move i Out g l s)"
proof -
  note D = clh_queueD [OF q]
  let ?t = "move i Out g l s"
  obtain r where r: "q = i # r" using D(10) [OF i] x by (cases q) auto
  have old: "held (local_of s i) = tmp (local_of s i)" using x by (simp add: held_def)
  have new: "held l = f" using D(7) [of 0] r x by (simp add: waits_on_def held_def)
  have mem: "j \<in> set r \<Longrightarrow> j < n \<and> j \<noteq> i" for j using D(2) D(3) [of j] r by auto
  have before: "k \<le> length r \<Longrightarrow>
      node_before (tmp (local_of s i)) (local_of ?t) r k = node_before f (local_of s) q (Suc k)" for k
    using r old mem nth_mem [of "k - 1" r] by (cases k) auto
  have "clh_queue n r (tmp (local_of s i)) ?t"
  proof (rule clh_queueI)
    show "waits_on (nodes (shared ?t)) (local_of ?t (r ! k))
        (node_before (tmp (local_of s i)) (local_of ?t) r k)" if k: "k < length r" for k
    proof -
      have m: "r ! k < n" "r ! k \<noteq> i" using mem [OF nth_mem [OF k]] by auto
      then have "held (local_of s (r ! k)) \<noteq> tmp (local_of s i)"
        using D(4) [of "r ! k" i] i old by auto
      then show ?thesis
        using D(7) [of "Suc k"] k r m before [of k] g by (simp add: waits_on_def)
    qed
    show "tail (shared ?t) = node_before (tmp (local_of s i)) (local_of ?t) r (length r)"
      using D(6) before [of "length r"] r g by simp
    show "j \<in> set r \<longleftrightarrow> j < n \<and> joined (phase_of ?t j) (hpc (local_of ?t j))" for j
      using D(2) D(3) [of j] r by (cases "j = i") auto
    show "j = k" if "j < n" "k < n" "held (local_of ?t j) = held (local_of ?t k)" for j k
      using that D(4) [of j k] D(5) [of j] D(5) [of k] new by (auto split: if_splits)
    show "held (local_of ?t j) \<noteq> tmp (local_of s i)" if "j < n" for j
      using that D(4) [of j i] D(5) [OF i] i old new by (cases "j = i") auto
    show "locked (nodes (shared ?t) (held (local_of ?t j))) \<noteq> 0"
      if "j < n" "joined (phase_of ?t j) (hpc (local_of ?t j)) \<or> hpc (local_of ?t j) = ExchangeTail" for j
      using that D(4) [of j i] D(9) [of j] i old x g by (cases "j = i") auto
    show "r \<noteq> [] \<and> hd r = j" if "j < n" "owning (phase_of ?t j)" for j
      using that D(10) [of j] r by (cases "j = i") auto
  qed (use D(1,2) r x g in auto)
  then show ?thesis using r by blast
qed

text \<open>A member that sees its predecessor's node unlocked is the head.\<close>

lemma clh_spin:
  assumes q: "clh_queue n q f s" and i: "i < n" and x: "phase_of s i = Try"
    "hpc (local_of s i) = SpinLocked \<or> hpc (local_of s i) = SpinYield"
  shows "locked (nodes (shared s) (predecessor (local_of s i))) = 0 \<longleftrightarrow> hd q = i" "q \<noteq> []"
proof -
  note D = clh_queueD [OF q]
  have "i \<in> set q" using D(3) [of i] i x by auto
  then obtain k where k: "k < length q" "q ! k = i" by (auto simp: in_set_conv_nth)
  then show "q \<noteq> []" by auto
  have pred: "predecessor (local_of s i) = node_before f (local_of s) q k"
    using D(7) [OF k(1)] k(2) x by (auto simp: waits_on_def)
  show "locked (nodes (shared s) (predecessor (local_of s i))) = 0 \<longleftrightarrow> hd q = i"
  proof (cases k)
    case 0
    then show ?thesis using pred D(8) k by (auto simp: hd_conv_nth)
  next
    case (Suc m)
    then have "q ! m \<in> set q" "m < length q" using k(1) by auto
    then have "locked (nodes (shared s) (predecessor (local_of s i))) \<noteq> 0"
      using pred Suc D(3) [of "q ! m"] D(9) [of "q ! m"] by auto
    moreover have "0 < length q" using k(1) by linarith
    then have "q ! 0 \<noteq> q ! k" using nth_eq_iff_index_eq [OF D(2) _ k(1), of 0] Suc by simp
    ultimately show ?thesis using k hd_conv_nth [OF \<open>q \<noteq> []\<close>] by auto
  qed
qed

subsection \<open>The contract\<close>

fun clh_rank :: "clh_pc \<Rightarrow> nat" where
  "clh_rank SetLocked = 5"
| "clh_rank ExchangeTail = 4"
| "clh_rank SetPrev = 3"
| "clh_rank SpinYield = 2"
| "clh_rank SpinLocked = 1"
| "clh_rank GetPrev = 1"
| "clh_rank _ = 0"

definition clh_locks ::
  "bool \<Rightarrow> (tid \<Rightarrow> clh_globals \<Rightarrow> clh_local \<Rightarrow> (clh_globals, clh_local) outcome list) \<Rightarrow> bool" where
  "clh_locks y lock \<longleftrightarrow> lock = (if y then clh_yield_lock_step else clh_lock_step)"

lemma clh_line_init: "clh_line n y [] (lock_init (clh_init heap) clh_local0)"
proof -
  have "clh_queue n [] 0 (lock_init (clh_init heap) clh_local0)"
    by (rule clh_queueI) (auto simp: lock_init_def clh_init_def clh_local0_def held_def)
  then show ?thesis by (auto simp: clh_line_def lock_init_def clh_local0_def)
qed

lemma clh_line_call:
  assumes "clh_line n y q s" "i < n" "phase_of s i = Out"
  shows "clh_line n y q
    ((move i Try (shared s) (lock_call (clh_impl lock) w i (local_of s i)) s)\<lparr>calls := c\<rparr>)"
proof -
  obtain f where q: "clh_queue n q f s" using assms(1) by (auto simp: clh_line_def)
  have "hpc (local_of s i) = CIdle" using clh_queueD(1) [OF q assms(2)] assms(3) by simp
  then have "clh_queue n q f (move i Try (shared s) ((local_of s i)\<lparr>hpc := SetLocked\<rparr>) s)"
    using assms(2,3) clh_queueD(3) [OF q, of i] by (intro clh_own [OF q]) (auto simp: held_def)
  then show ?thesis using assms(1) by (auto simp: clh_line_def clh_impl_def)
qed

lemma clh_lock_running:
  assumes q: "clh_queue n q f s" and L: "clh_locks y lock" and i: "i < n" "phase_of s i = Try"
    and st: "Running g l \<in> set (lock i (shared s) (local_of s i))"
  shows "\<exists>q'. (q' = q \<or> fifo_step q q') \<and> clh_queue n q' f (move i Try g l s)"
proof -
  note D = clh_queueD [OF q]
  consider "hpc (local_of s i) = SetLocked" | "hpc (local_of s i) = ExchangeTail"
    | "hpc (local_of s i) = SetPrev" | "hpc (local_of s i) = SpinLocked"
    | "hpc (local_of s i) = SpinYield"
    using D(1) [OF i(1)] i(2) by auto
  then show ?thesis
  proof cases
    case 2
    then have "clh_queue n (q @ [i]) f (move i Try g l s)"
      using st L i clh_enter [OF q i(1), of l]
      by (auto simp: clh_locks_def clh_lock_step_def clh_yield_lock_step_def split: if_splits)
    moreover have "i \<notin> set q" using D(3) [of i] i 2 by simp
    ultimately show ?thesis by (blast intro: fifo_step.intros)
  next
    case 1
    then have "clh_queue n q f (move i Try g l s)"
      using st L i D(3) [of i]
      by (intro clh_own [OF q i(1)])
        (auto simp: clh_locks_def clh_lock_step_def clh_yield_lock_step_def held_def
          split: if_splits)
    then show ?thesis by blast
  next
    case 3
    then have "clh_queue n q f (move i Try g l s)"
      using st L i D(9) [OF i(1)]
      by (intro clh_own [OF q i(1)])
        (auto simp: clh_locks_def clh_lock_step_def clh_yield_lock_step_def held_def waits_on_def
          split: if_splits)
    then show ?thesis by blast
  next
    case 4
    then have "clh_queue n q f (move i Try g l s)"
      using st L i D(9) [OF i(1)]
      by (intro clh_own [OF q i(1)])
        (auto simp: clh_locks_def clh_lock_step_def clh_yield_lock_step_def held_def waits_on_def
          split: if_splits)
    then show ?thesis by blast
  next
    case 5
    then have "clh_queue n q f (move i Try g l s)"
      using st L i D(9) [OF i(1)]
      by (intro clh_own [OF q i(1)])
        (auto simp: clh_locks_def clh_lock_step_def clh_yield_lock_step_def held_def waits_on_def
          split: if_splits)
    then show ?thesis by blast
  qed
qed

lemma clh_running_yields:
  "clh_locks y lock \<Longrightarrow> Running g l \<in> set (lock i (shared s) (local_of s i)) \<Longrightarrow>
    hpc l = SpinYield \<Longrightarrow> y"
  by (cases y) (auto simp: clh_locks_def clh_lock_step_def split: clh_pc.splits if_splits)

lemma clh_lock_returned:
  assumes q: "clh_queue n q f s" and L: "clh_locks y lock" and i: "i < n" "phase_of s i = Try"
    and st: "Returned g l \<in> set (lock i (shared s) (local_of s i))"
  shows "clh_queue n q f (move i Crit g l s) \<and> hpc l = CIdle"
proof -
  have at: "hpc (local_of s i) = SpinLocked"
    "locked (nodes (shared s) (predecessor (local_of s i))) = 0"
    "g = shared s" "l = (local_of s i)\<lparr>hpc := CIdle\<rparr>"
    using st L by (auto simp: clh_locks_def clh_lock_step_def clh_yield_lock_step_def
        split: clh_pc.splits if_splits)
  have "hd q = i" "q \<noteq> []" using clh_spin [OF q i(1)] i(2) at(1,2) by auto
  then have "clh_queue n q f (move i Crit g l s)"
    using at i clh_queueD(9) [OF q i(1)]
    by (intro clh_own [OF q i(1)]) (auto simp: held_def waits_on_def)
  then show ?thesis using at(4) by simp
qed

lemma clh_line_act:
  assumes s: "clh_line n y q s" and L: "clh_locks y lock" and act: "lock_act (clh_impl lock) n s t"
  shows "\<exists>q'. (q' = q \<or> fifo_step q q') \<and> clh_line n y q' t"
proof -
  obtain f where q: "clh_queue n q f s" using s by (auto simp: clh_line_def)
  note D = clh_queueD [OF q]
  have y: "i < n \<Longrightarrow> hpc (local_of s i) = SpinYield \<Longrightarrow> y" for i using s by (auto simp: clh_line_def)
  have conc: "\<exists>q'. (q' = q \<or> fifo_step q q') \<and> clh_line n y q' (move i p g l s)"
    if "clh_queue n q' f' (move i p g l s)" "hpc l = SpinYield \<longrightarrow> y" "q' = q \<or> fifo_step q q'"
    for i p g l q' f'
    using that y by (auto simp: clh_line_def intro!: exI [of _ q'])
  show ?thesis
    using act
  proof cases
    case (lock_runs i g l)
    then have st: "Running g l \<in> set (lock i (shared s) (local_of s i))" by (simp add: clh_impl_def)
    obtain q' where "q' = q \<or> fifo_step q q'" "clh_queue n q' f (move i Try g l s)"
      using clh_lock_running [OF q L lock_runs(2,3) st] by blast
    then show ?thesis
      using clh_running_yields [OF L st] conc [of q' f i Try g l] lock_runs(1) by simp
  next
    case (lock_returns i g l)
    then show ?thesis
      using clh_lock_returned [OF q L, of i g l] conc [of q f i] by (auto simp: clh_impl_def)
  next
    case (unlock_called i)
    then have "clh_queue n q f t"
      using D(1,9,10) [of i]
      by (auto simp: clh_impl_def held_def waits_on_def intro!: clh_own [OF q])
    then show ?thesis using unlock_called conc [of q f i] by (auto simp: clh_impl_def)
  next
    case (unlock_runs i g l)
    then have "clh_queue n q f t"
      using D(1,9,10) [of i]
      by (auto simp: clh_impl_def clh_unlock_step_def held_def waits_on_def
          intro!: clh_own [OF q] split: clh_pc.splits)
    then show ?thesis
      using unlock_runs conc [of q f i]
      by (auto simp: clh_impl_def clh_unlock_step_def split: clh_pc.splits)
  next
    case (unlock_returns i g l)
    then have at: "hpc (local_of s i) = ClearLocked" "l = (local_of s i)\<lparr>hpc := CIdle\<rparr>"
      "g = set_node (tmp (local_of s i)) ((nodes (shared s) (tmp (local_of s i)))\<lparr>locked := 0\<rparr>) (shared s)"
      by (auto simp: clh_impl_def clh_unlock_step_def split: clh_pc.splits)
    from at obtain r where "q = i # r" "clh_queue n r (tmp (local_of s i)) t"
      using clh_leave [OF q unlock_returns(2,3), of l g] unlock_returns(1) by auto
    then show ?thesis
      using fifo_step.dequeue [of i r] conc [of r _ i Out g l] at(2) unlock_returns(1) by simp
  qed
qed

lemma clh_line_progress:
  assumes s: "clh_line n y q s" and L: "clh_locks y lock" and i: "i < n" "phase_of s i \<noteq> Out"
  shows "\<exists>t. lock_act (clh_impl lock) n s t \<and>
    drain_weight 2 (\<lambda>l. clh_rank (hpc l)) n t < drain_weight 2 (\<lambda>l. clh_rank (hpc l)) n s"
proof -
  obtain f where q: "clh_queue n q f s" using s by (auto simp: clh_line_def)
  note D = clh_queueD [OF q]
  define k where "k = (if q = [] then i else hd q)"
  have k: "k < n" "phase_of s k \<noteq> Out" "q \<noteq> [] \<longrightarrow> hd q = k"
    using i D(3) [of "hd q"] by (cases "q = []"; cases "phase_of s (hd q)"; simp add: k_def)+
  have "clh_ok (phase_of s k) (hpc (local_of s k))" by (rule D(1) [OF k(1)])
  then consider "phase_of s k = Crit"
    | "phase_of s k = Try" "hpc (local_of s k) = SetLocked"
    | "phase_of s k = Try" "hpc (local_of s k) = SpinLocked"
    | "phase_of s k = Rel" "hpc (local_of s k) = GetPrev"
    | "phase_of s k = Rel" "hpc (local_of s k) = ClearLocked"
    | "phase_of s k = Try" "hpc (local_of s k) = ExchangeTail"
    | "phase_of s k = Try" "hpc (local_of s k) = SetPrev"
    | "phase_of s k = Try" "hpc (local_of s k) = SpinYield" y
    using k s by (cases "phase_of s k") (auto simp: clh_line_def)
  then show ?thesis
  proof cases
    case 1
    then show ?thesis by (rule drain_steps(3) [OF k(1)]) (simp add: clh_impl_def)
  next
    case 2
    then show ?thesis
      using L by (intro drain_steps(1) [OF k(1)])
        (auto simp: clh_impl_def clh_locks_def clh_lock_step_def clh_yield_lock_step_def)
  next
    case 6
    then show ?thesis
      using L by (intro drain_steps(1) [OF k(1)])
        (auto simp: clh_impl_def clh_locks_def clh_lock_step_def clh_yield_lock_step_def)
  next
    case 7
    then show ?thesis
      using L by (intro drain_steps(1) [OF k(1)])
        (auto simp: clh_impl_def clh_locks_def clh_lock_step_def clh_yield_lock_step_def)
  next
    case 8
    then show ?thesis
      using L by (intro drain_steps(1) [OF k(1)])
        (auto simp: clh_impl_def clh_locks_def clh_yield_lock_step_def)
  next
    case 3
    then have "locked (nodes (shared s) (predecessor (local_of s k))) = 0"
      using clh_spin [OF q k(1)] k(3) by simp
    then show ?thesis
      using 3 L
      by (intro drain_steps(2) [OF k(1)])
        (auto simp: clh_impl_def clh_locks_def clh_lock_step_def clh_yield_lock_step_def)
  next
    case 4
    then show ?thesis
      by (intro drain_steps(4) [OF k(1)]) (auto simp: clh_impl_def clh_unlock_step_def)
  next
    case 5
    then show ?thesis
      by (intro drain_steps(5) [OF k(1)]) (auto simp: clh_impl_def clh_unlock_step_def)
  qed
qed

lemma clh_fifo:
  assumes L: "clh_locks y lock"
  shows "live_fifo_lock (clh_impl lock) n b (clh_init heap) clh_local0 (clh_line n y)
    (drain_weight 2 (\<lambda>l. clh_rank (hpc l)) n)"
proof unfold_locales
  show "\<exists>q'. (q' = q \<or> fifo_step q q') \<and> clh_line n y q' t"
    if "clh_line n y q s" "lock_act (clh_impl lock) n s t" for q s t
    using that(1) L that(2) by (rule clh_line_act)
  show "\<exists>t. lock_act (clh_impl lock) n s t \<and>
      drain_weight 2 (\<lambda>l. clh_rank (hpc l)) n t < drain_weight 2 (\<lambda>l. clh_rank (hpc l)) n s"
    if "clh_line n y q s" "i < n" "phase_of s i \<noteq> Out" for q s i
    using that(1) L that(2,3) by (rule clh_line_progress)
  show "q \<noteq> [] \<and> hd q = i" if "clh_line n y q s" "i < n" "phase_of s i = Crit" for q s i
    using that clh_queueD(10) by (fastforce simp: clh_line_def)
qed (rule clh_line_init, rule clh_line_call)

text \<open>A thread has joined once it has exchanged \<open>tail\<close>.\<close>

definition clh_joined :: "phase \<Rightarrow> clh_local \<Rightarrow> bool" where
  "clh_joined p l = joined p (hpc l)"

lemma clh_line_joined:
  "clh_line n y q s \<Longrightarrow> distinct q" "clh_line n y q s \<Longrightarrow> set q = {i. i < n \<and> clh_joined (phase_of s i) (local_of s i)}"
  by (auto simp: clh_line_def clh_queue_def clh_joined_def)

lemma clh_joined_stays:
  "clh_locks y lock \<Longrightarrow> clh_joined Try l \<Longrightarrow> Running g' l' \<in> set (lock i g l) \<Longrightarrow> clh_joined Try l'"
  by (auto simp: clh_locks_def clh_joined_def clh_lock_step_def clh_yield_lock_step_def split: clh_pc.splits if_splits)

interpretation clh: ordered_program "clh_prog heap n m" "clh_line n False"
    "drain_weight 2 (\<lambda>l. clh_rank (hpc l)) n" clh_joined for heap n m
  using clh_fifo [of False clh_lock_step n "n * rounds (clh_prog heap n m)" heap] clh_joined_stays [of False clh_lock_step]
  by (auto simp: clh_prog_def ordered_program_def ordered_program_axioms_def fifo_program_def fifo_program_axioms_def
      clh_locks_def clh_impl_def clh_line_joined(1)) (auto dest: clh_line_joined(2))

interpretation clh_yield: ordered_program "clh_yield_prog heap n m" "clh_line n True"
    "drain_weight 2 (\<lambda>l. clh_rank (hpc l)) n" clh_joined for heap n m
  using clh_fifo [of True clh_yield_lock_step n "n * rounds (clh_yield_prog heap n m)" heap] clh_joined_stays [of True clh_yield_lock_step]
  by (auto simp: clh_yield_prog_def ordered_program_def ordered_program_axioms_def fifo_program_def fifo_program_axioms_def
      clh_locks_def clh_impl_def clh_line_joined(1)) (auto dest: clh_line_joined(2))

subsection \<open>Properties\<close>

text \<open>The two CLH programs are correct for any number of threads, any \<open>MAX_COUNT\<close> and any
  contents of the memory \<open>malloc\<close> returned, although nodes change hands at every \<open>unlock\<close>:
  mutual exclusion, every increment counted, every reachable state can finish.\<close>

theorem clh_programs_correct:
  "program_correct (clh_prog heap n m) \<and> program_correct (clh_yield_prog heap n m)"
  by (intro conjI clh.correct clh_yield.correct)

text \<open>Each thread of the queue spins on the node of the one before it and the head on the free node, and the nodes
  held by the threads and the free node are all distinct.\<close>

definition clh_list :: "nat \<Rightarrow> tid list \<Rightarrow> (clh_globals, clh_local) lock_state \<Rightarrow> bool" where
  "clh_list n q s \<longleftrightarrow> (\<exists>f. clh_queue n q f s)"

lemma clh_in_order:
  "serves_in_order (clh_prog heap n m) (clh_list n) clh_joined" "serves_in_order (clh_yield_prog heap n m) (clh_list n) clh_joined"
  by (rule serves_mono [OF clh.in_order], simp add: clh_line_def clh_list_def)
    (rule serves_mono [OF clh_yield.in_order], simp add: clh_line_def clh_list_def)

end
