(* ===== verification/MCS_Lock.thy ===== *)
theory MCS_Lock
  imports Queue_Lock
begin

section \<open>MCS locks\<close>

text \<open>
  \<open>spinlocks/mcs_spinlock.c\<close> and \<open>spinlocks/mcs_spinlock_yield.c\<close>: an explicit list of nodes, one
  on the stack of each thread, so a pointer to a node is \<open>None\<close> for \<open>NULL\<close> or \<open>Some\<close> of its
  thread. \<open>lock\<close> exchanges the node with \<open>tail\<close>, links itself behind the node it got and
  spins on its own flag; \<open>unlock\<close> takes the list apart: with no successor it swings \<open>tail\<close>
  back to \<open>NULL\<close>, and when that fails it waits for the successor to link itself, then clears
  the successor's flag. The delicate window is between the exchange and the link. Dereferencing
  \<open>NULL\<close> has no outcome in the model, and none is ever reached.
\<close>

type_synonym node_ptr = "tid option"

record mcs_node =
  nextp :: node_ptr
  waiting :: u8

record mcs_globals =
  tail :: node_ptr
  nodes :: "tid \<Rightarrow> mcs_node"

datatype mcs_pc = MIdle | SetNext | SetWaiting | ExchangeTail | LinkPred | SpinOwn | SpinYield
  | ClearOwn | TestNext | TryTail | WaitNext | ReadNext | ClearNext

record mcs_local =
  mpcs :: mcs_pc
  pred :: node_ptr
  succ :: node_ptr

abbreviation set_mcs :: "tid \<Rightarrow> mcs_node \<Rightarrow> mcs_globals \<Rightarrow> mcs_globals" where
  "set_mcs a x g \<equiv> g\<lparr>nodes := (nodes g)(a := x)\<rparr>"

subsection \<open>The code\<close>

definition mcs_lock_step ::
  "tid \<Rightarrow> mcs_globals \<Rightarrow> mcs_local \<Rightarrow> (mcs_globals, mcs_local) outcome list" where
  "mcs_lock_step i g l = (case mpcs l of
       SetNext \<Rightarrow> [Running (set_mcs i ((nodes g i)\<lparr>nextp := None\<rparr>) g) (l\<lparr>mpcs := SetWaiting\<rparr>)]
     | SetWaiting \<Rightarrow> [Running (set_mcs i ((nodes g i)\<lparr>waiting := 1\<rparr>) g) (l\<lparr>mpcs := ExchangeTail\<rparr>)]
     | ExchangeTail \<Rightarrow>
         [Running (g\<lparr>tail := Some i\<rparr>)
            (l\<lparr>pred := tail g, mpcs := if tail g \<noteq> None then LinkPred else ClearOwn\<rparr>)]
     | LinkPred \<Rightarrow>
         (case pred l of
            Some p \<Rightarrow> [Running (set_mcs p ((nodes g p)\<lparr>nextp := Some i\<rparr>) g) (l\<lparr>mpcs := SpinOwn\<rparr>)]
          | None \<Rightarrow> [])
     | SpinOwn \<Rightarrow> [Running g (l\<lparr>mpcs := if waiting (nodes g i) \<noteq> 0 then SpinOwn else ClearOwn\<rparr>)]
     | ClearOwn \<Rightarrow> [Returned (set_mcs i ((nodes g i)\<lparr>waiting := 0\<rparr>) g) (l\<lparr>mpcs := MIdle\<rparr>)]
     | _ \<Rightarrow> [])"

definition mcs_yield_lock_step ::
  "tid \<Rightarrow> mcs_globals \<Rightarrow> mcs_local \<Rightarrow> (mcs_globals, mcs_local) outcome list" where
  "mcs_yield_lock_step i g l = (case mpcs l of
       SpinOwn \<Rightarrow> [Running g (l\<lparr>mpcs := if waiting (nodes g i) \<noteq> 0 then SpinYield else ClearOwn\<rparr>)]
     | SpinYield \<Rightarrow> [Running g (l\<lparr>mpcs := SpinOwn\<rparr>)]
     | _ \<Rightarrow> mcs_lock_step i g l)"

text \<open>The compare-and-swap writes \<open>last\<close> when it fails; nothing reads it afterwards.\<close>

definition mcs_unlock_step ::
  "tid \<Rightarrow> mcs_globals \<Rightarrow> mcs_local \<Rightarrow> (mcs_globals, mcs_local) outcome list" where
  "mcs_unlock_step i g l = (case mpcs l of
       TestNext \<Rightarrow> [Running g (l\<lparr>mpcs := if nextp (nodes g i) = None then TryTail else ReadNext\<rparr>)]
     | TryTail \<Rightarrow>
         [if tail g = Some i then Returned (g\<lparr>tail := None\<rparr>) (l\<lparr>mpcs := MIdle\<rparr>)
          else Running g (l\<lparr>mpcs := WaitNext\<rparr>)]
     | WaitNext \<Rightarrow> [Running g (l\<lparr>mpcs := if nextp (nodes g i) = None then WaitNext else ReadNext\<rparr>)]
     | ReadNext \<Rightarrow> [Running g (l\<lparr>succ := nextp (nodes g i), mpcs := ClearNext\<rparr>)]
     | ClearNext \<Rightarrow>
         (case succ l of
            Some k \<Rightarrow> [Returned (set_mcs k ((nodes g k)\<lparr>waiting := 0\<rparr>) g) (l\<lparr>mpcs := MIdle\<rparr>)]
          | None \<Rightarrow> [])
     | _ \<Rightarrow> [])"

definition mcs_impl ::
  "(tid \<Rightarrow> mcs_globals \<Rightarrow> mcs_local \<Rightarrow> (mcs_globals, mcs_local) outcome list) \<Rightarrow>
    (mcs_globals, mcs_local) lock_impl" where
  "mcs_impl lock = \<lparr>lock_call = (\<lambda>w i l. l\<lparr>mpcs := SetNext\<rparr>), lock_step = lock,
     unlock_call = (\<lambda>i l. l\<lparr>mpcs := TestNext\<rparr>), unlock_step = mcs_unlock_step\<rparr>"

text \<open>The nodes are uninitialised variables of \<open>count\<close>: their contents are a parameter.\<close>

definition mcs_init :: "(tid \<Rightarrow> mcs_node) \<Rightarrow> mcs_globals" where
  "mcs_init stack = \<lparr>tail = None, nodes = stack\<rparr>"

definition mcs_local0 :: "tid \<Rightarrow> mcs_local" where
  "mcs_local0 i = \<lparr>mpcs = MIdle, pred = None, succ = None\<rparr>"

definition mcs_prog ::
  "(tid \<Rightarrow> mcs_node) \<Rightarrow> nat \<Rightarrow> nat \<Rightarrow> (mcs_globals, mcs_local) program" where
  "mcs_prog stack num_thr max_cnt = \<lparr>impl = mcs_impl mcs_lock_step,
     num_threads = num_thr, max_count = max_cnt, expected_count = max_cnt, cells = 1, target = one_counter, globals0 = mcs_init stack, locals0 = mcs_local0\<rparr>"

definition mcs_yield_prog ::
  "(tid \<Rightarrow> mcs_node) \<Rightarrow> nat \<Rightarrow> nat \<Rightarrow> (mcs_globals, mcs_local) program" where
  "mcs_yield_prog stack num_thr max_cnt = \<lparr>impl = mcs_impl mcs_yield_lock_step,
     num_threads = num_thr, max_count = max_cnt, expected_count = max_cnt, cells = 1, target = one_counter, globals0 = mcs_init stack, locals0 = mcs_local0\<rparr>"

subsection \<open>The queue\<close>

fun mcs_ok :: "bool \<Rightarrow> phase \<Rightarrow> mcs_pc \<Rightarrow> bool" where
  "mcs_ok y Try c = (c \<in> {SetNext, SetWaiting, ExchangeTail, LinkPred, SpinOwn, ClearOwn} \<or>
     c = SpinYield \<and> y)"
| "mcs_ok y Rel c = (c \<in> {TestNext, TryTail, WaitNext, ReadNext, ClearNext})"
| "mcs_ok y _ c = (c = MIdle)"

fun in_list :: "phase \<Rightarrow> mcs_pc \<Rightarrow> bool" where
  "in_list Out c = False"
| "in_list Try c = (c \<notin> {SetNext, SetWaiting, ExchangeTail})"
| "in_list _ c = True"

text \<open>What holds of a thread by itself, of the first in the queue, and of one behind \<open>a\<close>.\<close>

definition mcs_thread :: "bool \<Rightarrow> phase \<Rightarrow> mcs_local \<Rightarrow> mcs_node \<Rightarrow> tid list \<Rightarrow> tid \<Rightarrow> bool" where
  "mcs_thread y p l x q i \<longleftrightarrow> mcs_ok y p (mpcs l) \<and>
     (mpcs l = SetWaiting \<or> mpcs l = ExchangeTail \<longrightarrow> nextp x = None) \<and>
     (mpcs l = ExchangeTail \<longrightarrow> waiting x \<noteq> 0) \<and>
     (owning p \<or> mpcs l = ClearOwn \<longrightarrow> q \<noteq> [] \<and> hd q = i) \<and>
     (mpcs l = ReadNext \<longrightarrow> nextp x \<noteq> None) \<and>
     (mpcs l = WaitNext \<longrightarrow> last q \<noteq> i) \<and>
     (mpcs l = ClearNext \<longrightarrow> nextp x \<noteq> None \<and> succ l = nextp x)"

definition in_front :: "mcs_local \<Rightarrow> mcs_node \<Rightarrow> bool" where
  "in_front l x \<longleftrightarrow> mpcs l \<noteq> LinkPred \<and> (mpcs l = SpinOwn \<or> mpcs l = SpinYield \<longrightarrow> waiting x = 0)"

definition behind :: "tid \<Rightarrow> node_ptr \<Rightarrow> tid \<Rightarrow> mcs_local \<Rightarrow> mcs_node \<Rightarrow> bool" where
  "behind a nx b l x \<longleftrightarrow> waiting x \<noteq> 0 \<and> (mpcs l = LinkPred \<and> pred l = Some a \<and> nx = None \<or>
     (mpcs l = SpinOwn \<or> mpcs l = SpinYield) \<and> nx = Some b)"

definition mcs_line ::
  "nat \<Rightarrow> bool \<Rightarrow> tid list \<Rightarrow> (mcs_globals, mcs_local) lock_state \<Rightarrow> bool" where
  "mcs_line n y q s \<longleftrightarrow>
     (\<forall>i<n. mcs_thread y (phase_of s i) (local_of s i) (nodes (shared s) i) q i) \<and>
     distinct q \<and> set q = {i. i < n \<and> in_list (phase_of s i) (mpcs (local_of s i))} \<and>
     tail (shared s) = (if q = [] then None else Some (last q)) \<and>
     (q \<noteq> [] \<longrightarrow> nextp (nodes (shared s) (last q)) = None \<and>
        in_front (local_of s (hd q)) (nodes (shared s) (hd q))) \<and>
     (\<forall>k. Suc k < length q \<longrightarrow> behind (q ! k) (nextp (nodes (shared s) (q ! k))) (q ! Suc k)
        (local_of s (q ! Suc k)) (nodes (shared s) (q ! Suc k)))"

lemma mcs_lineI:
  assumes "\<And>i. i < n \<Longrightarrow> mcs_thread y (phase_of s i) (local_of s i) (nodes (shared s) i) q i"
    and "distinct q" "\<And>i. i \<in> set q \<longleftrightarrow> i < n \<and> in_list (phase_of s i) (mpcs (local_of s i))"
    and "tail (shared s) = (if q = [] then None else Some (last q))"
    and "q \<noteq> [] \<Longrightarrow> nextp (nodes (shared s) (last q)) = None"
    and "q \<noteq> [] \<Longrightarrow> in_front (local_of s (hd q)) (nodes (shared s) (hd q))"
    and "\<And>k. Suc k < length q \<Longrightarrow> behind (q ! k) (nextp (nodes (shared s) (q ! k))) (q ! Suc k)
        (local_of s (q ! Suc k)) (nodes (shared s) (q ! Suc k))"
  shows "mcs_line n y q s"
  unfolding mcs_line_def using assms by (intro conjI) blast+

lemma mcs_lineD:
  assumes "mcs_line n y q s"
  shows "i < n \<Longrightarrow> mcs_thread y (phase_of s i) (local_of s i) (nodes (shared s) i) q i"
    and "distinct q" "i \<in> set q \<longleftrightarrow> i < n \<and> in_list (phase_of s i) (mpcs (local_of s i))"
    and "tail (shared s) = (if q = [] then None else Some (last q))"
    and "q \<noteq> [] \<Longrightarrow> nextp (nodes (shared s) (last q)) = None"
    and "q \<noteq> [] \<Longrightarrow> in_front (local_of s (hd q)) (nodes (shared s) (hd q))"
    and "Suc k < length q \<Longrightarrow> behind (q ! k) (nextp (nodes (shared s) (q ! k))) (q ! Suc k)
        (local_of s (q ! Suc k)) (nodes (shared s) (q ! Suc k))"
  using assms unfolding mcs_line_def by auto

lemma mcs_line_calls [simp]: "mcs_line n y q (s\<lparr>calls := c\<rparr>) = mcs_line n y q s"
  by (simp add: mcs_line_def)

lemma mcs_line_member: "mcs_line n y q s \<Longrightarrow> k < length q \<Longrightarrow> q ! k < n"
  using mcs_lineD(3) [of n y q s "q ! k"] by auto

lemma nth_eq_hd: "distinct q \<Longrightarrow> k < length q \<Longrightarrow> q ! k = hd q \<longleftrightarrow> k = 0"
  by (cases q) (auto simp: nth_Cons split: nat.splits)

lemma nth_last: "Suc k = length q \<Longrightarrow> q ! k = last q"
  by (cases q rule: rev_cases) auto

lemma nth_not_last: "distinct q \<Longrightarrow> Suc k < length q \<Longrightarrow> q ! k \<noteq> last q"
  by (cases q rule: rev_cases) (auto simp: nth_append)

text \<open>Outside the queue, a thread's own condition does not depend on it.\<close>

lemma mcs_thread_outside:
  "\<not> in_list p (mpcs l) \<Longrightarrow> mcs_thread y p l x q i \<Longrightarrow> mcs_thread y p l x q' i"
  by (cases p; cases "mpcs l"; simp add: mcs_thread_def)

lemma mcs_thread_linked:
  "in_list p (mpcs l) \<Longrightarrow> nextp x = None \<Longrightarrow> mcs_thread y p l x q i \<Longrightarrow>
    mcs_thread y p l (x\<lparr>nextp := Some k\<rparr>) q i"
  by (cases p; cases "mpcs l"; simp add: mcs_thread_def)

text \<open>A step on the thread's own node and locals.\<close>

lemma mcs_own:
  assumes q: "mcs_line n y q s" and i: "i < n"
    and x: "mcs_thread y p l (nodes g i) q i"
      "in_list p (mpcs l) = in_list (phase_of s i) (mpcs (local_of s i))"
      "tail g = tail (shared s)" "\<And>a. a \<noteq> i \<Longrightarrow> nodes g a = nodes (shared s) a"
      "i \<in> set q \<Longrightarrow> nextp (nodes g i) = nextp (nodes (shared s) i)"
      "q \<noteq> [] \<Longrightarrow> hd q = i \<Longrightarrow> in_front l (nodes g i)"
      "\<And>a nx. i \<in> set q \<Longrightarrow> hd q \<noteq> i \<Longrightarrow> behind a nx i (local_of s i) (nodes (shared s) i) \<Longrightarrow>
        behind a nx i l (nodes g i)"
  shows "mcs_line n y q (move i p g l s)"
proof -
  note D = mcs_lineD [OF q]
  have nx: "j \<in> set q \<Longrightarrow> nextp (nodes g j) = nextp (nodes (shared s) j)" for j
    using x(4) [of j] x(5) by (cases "j = i") auto
  show ?thesis
  proof (rule mcs_lineI)
    show "mcs_thread y (phase_of (move i p g l s) j) (local_of (move i p g l s) j)
        (nodes (shared (move i p g l s)) j) q j" if "j < n" for j
      using D(1) [OF that] x(1,4) by (cases "j = i") auto
    show "in_front (local_of (move i p g l s) (hd q)) (nodes (shared (move i p g l s)) (hd q))"
      if "q \<noteq> []"
      using D(6) [OF that] x(4) [of "hd q"] x(6) that by (cases "hd q = i") auto
    show "behind (q ! k) (nextp (nodes (shared (move i p g l s)) (q ! k))) (q ! Suc k)
        (local_of (move i p g l s) (q ! Suc k)) (nodes (shared (move i p g l s)) (q ! Suc k))"
      if k: "Suc k < length q" for k
    proof (cases "q ! Suc k = i")
      case True
      then have "hd q \<noteq> i" "i \<in> set q" using nth_eq_hd [OF D(2) k] nth_mem [OF k] by auto
      then show ?thesis using D(7) [OF k] True x(7) nx [of "q ! k"] k by simp
    next
      case False
      then show ?thesis using D(7) [OF k] x(4) nx [of "q ! k"] k by simp
    qed
    show "nextp (nodes (shared (move i p g l s)) (last q)) = None" if "q \<noteq> []"
      using D(5) nx [of "last q"] that by simp
    show "j \<in> set q \<longleftrightarrow> j < n \<and> in_list (phase_of (move i p g l s) j) (mpcs (local_of (move i p g l s) j))"
      for j
      using D(3) [of j] x(2) by (cases "j = i") auto
  qed (use D(2,4) x(3) in auto)
qed

text \<open>The exchange on \<open>tail\<close>.\<close>

lemma mcs_enter:
  assumes q: "mcs_line n y q s" and i: "i < n"
    and x: "phase_of s i = Try" "mpcs (local_of s i) = ExchangeTail"
      "l = (local_of s i)\<lparr>pred := tail (shared s),
         mpcs := if tail (shared s) \<noteq> None then LinkPred else ClearOwn\<rparr>"
  shows "mcs_line n y (q @ [i]) (move i Try ((shared s)\<lparr>tail := Some i\<rparr>) l s)" "i \<notin> set q"
proof -
  note D = mcs_lineD [OF q]
  let ?t = "move i Try ((shared s)\<lparr>tail := Some i\<rparr>) l s"
  show new: "i \<notin> set q" using D(3) [of i] x by simp
  have own: "nextp (nodes (shared s) i) = None" "waiting (nodes (shared s) i) \<noteq> 0"
    using D(1) [OF i] x(2) by (simp_all add: mcs_thread_def)
  show "mcs_line n y (q @ [i]) ?t"
  proof (rule mcs_lineI)
    show "mcs_thread y (phase_of ?t j) (local_of ?t j) (nodes (shared ?t) j) (q @ [i]) j"
      if "j < n" for j
      using D(1) [OF that] D(4) x own that by (cases "j = i") (auto simp: mcs_thread_def)
    show "in_front (local_of ?t (hd (q @ [i]))) (nodes (shared ?t) (hd (q @ [i])))"
      using D(6) D(4) x new by (cases q) (auto simp: in_front_def)
    show "behind ((q @ [i]) ! k) (nextp (nodes (shared ?t) ((q @ [i]) ! k))) ((q @ [i]) ! Suc k)
        (local_of ?t ((q @ [i]) ! Suc k)) (nodes (shared ?t) ((q @ [i]) ! Suc k))"
      if k: "Suc k < length (q @ [i])" for k
    proof (cases "Suc k < length q")
      case True
      then have "q ! k \<noteq> i" "q ! Suc k \<noteq> i" using new nth_mem [of k q] nth_mem [of "Suc k" q] by auto
      then show ?thesis using True D(7) [OF True] by (simp add: nth_append)
    next
      case False
      then have len: "Suc k = length q" using k by simp
      then have "q \<noteq> []" by auto
      then have "q ! k = last q" "k < length q" using len by (auto simp: nth_last)
      then show ?thesis
        using len \<open>q \<noteq> []\<close> new nth_mem [of k q] D(4,5) own x
        by (simp add: nth_append behind_def)
    qed
    show "j \<in> set (q @ [i]) \<longleftrightarrow> j < n \<and> in_list (phase_of ?t j) (mpcs (local_of ?t j))" for j
      using D(3) [of j] x i by (cases "j = i") auto
  qed (use D(2) new own in auto)
qed

text \<open>Where a thread that has not linked itself yet stands.\<close>

lemma mcs_not_front:
  assumes q: "mcs_line n y q s" and i: "i < n" "phase_of s i = Try" "mpcs (local_of s i) = LinkPred"
  obtains k where "Suc k < length q" "q ! Suc k = i" "pred (local_of s i) = Some (q ! k)"
    "nextp (nodes (shared s) (q ! k)) = None"
proof -
  note D = mcs_lineD [OF q]
  have "i \<in> set q" using D(3) [of i] i by simp
  then obtain j where j: "j < length q" "q ! j = i" by (auto simp: in_set_conv_nth)
  have "j \<noteq> 0"
  proof
    assume "j = 0"
    then have "q \<noteq> []" "hd q = i" using j by (auto simp: hd_conv_nth)
    then show False using D(6) i(3) by (simp add: in_front_def)
  qed
  then obtain k where "j = Suc k" by (cases j) auto
  then show ?thesis using that [of k] j D(7) [of k] i(3) by (simp add: behind_def)
qed

lemma mcs_link:
  assumes q: "mcs_line n y q s" and i: "i < n" "phase_of s i = Try" "mpcs (local_of s i) = LinkPred"
    and p: "pred (local_of s i) = Some p"
  shows "mcs_line n y q (move i Try (set_mcs p ((nodes (shared s) p)\<lparr>nextp := Some i\<rparr>) (shared s))
    ((local_of s i)\<lparr>mpcs := SpinOwn\<rparr>) s)" (is "mcs_line n y q ?t")
proof -
  note D = mcs_lineD [OF q]
  obtain k where k: "Suc k < length q" "q ! Suc k = i" "q ! k = p"
      "nextp (nodes (shared s) p) = None"
    using mcs_not_front [OF q i] p by (metis option.inject)
  have pi: "p \<noteq> i" using k D(2) nth_eq_iff_index_eq [OF D(2), of k "Suc k"] by auto
  have pq: "p \<in> set q" using k nth_mem [of k q] by auto
  have pl: "p \<noteq> last q"
    using k(3) nth_not_last [OF D(2) k(1)] by simp
  show ?thesis
  proof (rule mcs_lineI)
    show "mcs_thread y (phase_of ?t j) (local_of ?t j) (nodes (shared ?t) j) q j" if j: "j < n" for j
    proof -
      consider "j = i" | "j = p" | "j \<noteq> i" "j \<noteq> p" by blast
      then show ?thesis
      proof cases
        case 1
        then show ?thesis using D(1) [OF j] i pi by (simp add: mcs_thread_def)
      next
        case 2
        then show ?thesis using D(1) [OF j] D(3) [of p] pq k(4) pi by (simp add: mcs_thread_linked)
      next
        case 3
        then show ?thesis using D(1) [OF j] by simp
      qed
    qed
    show "nextp (nodes (shared ?t) (last q)) = None" if "q \<noteq> []" using D(5) that pl by simp
    show "in_front (local_of ?t (hd q)) (nodes (shared ?t) (hd q))" if "q \<noteq> []"
      using D(6) [OF that] k(2) nth_eq_hd [OF D(2) k(1)] pi by (auto simp: in_front_def)
    show "behind (q ! m) (nextp (nodes (shared ?t) (q ! m))) (q ! Suc m)
        (local_of ?t (q ! Suc m)) (nodes (shared ?t) (q ! Suc m))" if m: "Suc m < length q" for m
    proof (cases "m = k")
      case True
      then show ?thesis using D(7) [OF m] k i(3) pi by (simp add: behind_def)
    next
      case False
      then have "q ! m \<noteq> p" "q ! Suc m \<noteq> i"
        using m k nth_eq_iff_index_eq [OF D(2), of m k] nth_eq_iff_index_eq [OF D(2), of "Suc m" "Suc k"]
        by auto
      then show ?thesis using D(7) [OF m] by (auto simp: behind_def)
    qed
    show "j \<in> set q \<longleftrightarrow> j < n \<and> in_list (phase_of ?t j) (mpcs (local_of ?t j))" for j
      using D(3) [of j] i by (cases "j = i") auto
  qed (use D(2,4) in simp_all)
qed

text \<open>The two ways out of the queue.\<close>

lemma mcs_empty:
  assumes q: "mcs_line n y q s" and i: "i < n" "phase_of s i = Rel" and t: "tail (shared s) = Some i"
    and l: "mpcs l = MIdle"
  shows "q = [i] \<and> mcs_line n y [] (move i Out ((shared s)\<lparr>tail := None\<rparr>) l s)"
proof -
  note D = mcs_lineD [OF q]
  have "q \<noteq> []" "hd q = i" "last q = i"
    using D(1) [OF i(1)] i(2) D(4) t by (auto simp: mcs_thread_def split: if_splits)
  then have one: "q = [i]" using D(2) by (cases q) (auto split: if_splits)
  have "mcs_line n y [] (move i Out ((shared s)\<lparr>tail := None\<rparr>) l s)"
  proof (rule mcs_lineI)
    show "mcs_thread y (phase_of (move i Out ((shared s)\<lparr>tail := None\<rparr>) l s) j)
        (local_of (move i Out ((shared s)\<lparr>tail := None\<rparr>) l s) j)
        (nodes (shared (move i Out ((shared s)\<lparr>tail := None\<rparr>) l s)) j) [] j" if "j < n" for j
      using D(1) [OF that] D(3) [of j] l that one mcs_thread_outside [of "phase_of s j" "local_of s j" y _ q j "[]"]
      by (cases "j = i") (auto simp: mcs_thread_def)
    show "j \<in> set [] \<longleftrightarrow> j < n \<and> in_list (phase_of (move i Out ((shared s)\<lparr>tail := None\<rparr>) l s) j)
        (mpcs (local_of (move i Out ((shared s)\<lparr>tail := None\<rparr>) l s) j))" for j
      using D(3) [of j] one by (cases "j = i") auto
  qed simp_all
  with one show ?thesis by blast
qed

lemma mcs_pass:
  assumes q: "mcs_line n y q s" and i: "i < n" "phase_of s i = Rel"
    "mpcs (local_of s i) = ClearNext" and l: "mpcs l = MIdle"
  shows "\<exists>k r. succ (local_of s i) = Some k \<and> q = i # k # r \<and>
    mcs_line n y (k # r) (move i Out (set_mcs k ((nodes (shared s) k)\<lparr>waiting := 0\<rparr>) (shared s)) l s)"
proof -
  note D = mcs_lineD [OF q]
  have T: "q \<noteq> []" "hd q = i" "nextp (nodes (shared s) i) \<noteq> None"
      "succ (local_of s i) = nextp (nodes (shared s) i)"
    using D(1) [OF i(1)] i(2,3) by (auto simp: mcs_thread_def)
  have "q \<noteq> [i]"
  proof
    assume "q = [i]"
    then show False using D(5) T(3) by simp
  qed
  then obtain k r where kr: "q = i # k # r" using T(1,2) by (metis list.collapse)
  have b: "mpcs (local_of s k) = SpinOwn \<or> mpcs (local_of s k) = SpinYield"
      "nextp (nodes (shared s) i) = Some k"
    using D(7) [of 0] T(3) kr by (auto simp: behind_def)
  have ik: "i \<noteq> k" "k \<notin> set r" "i \<notin> set r" using D(2) kr by auto
  have kin: "k < n" "in_list (phase_of s k) (mpcs (local_of s k))" using D(3) [of k] kr by auto
  let ?t = "move i Out (set_mcs k ((nodes (shared s) k)\<lparr>waiting := 0\<rparr>) (shared s)) l s"
  have "mcs_line n y (k # r) ?t"
  proof (rule mcs_lineI)
    show "mcs_thread y (phase_of ?t j) (local_of ?t j) (nodes (shared ?t) j) (k # r) j"
      if j: "j < n" for j
    proof -
      consider "j = i" | "j = k" | "j \<noteq> i" "j \<noteq> k" by blast
      then show ?thesis
      proof cases
        case 1
        then show ?thesis using l ik by (simp add: mcs_thread_def)
      next
        case 2
        then show ?thesis using D(1) [OF kin(1)] b(1) ik kr by (auto simp: mcs_thread_def)
      next
        case 3
        then show ?thesis using D(1) [OF j] kr by (auto simp: mcs_thread_def)
      qed
    qed
    show "nextp (nodes (shared ?t) (last (k # r))) = None" using D(5) kr by (auto split: if_splits)
    show "in_front (local_of ?t (hd (k # r))) (nodes (shared ?t) (hd (k # r)))"
      using b ik by (auto simp: in_front_def)
    show "behind ((k # r) ! m) (nextp (nodes (shared ?t) ((k # r) ! m))) ((k # r) ! Suc m)
        (local_of ?t ((k # r) ! Suc m)) (nodes (shared ?t) ((k # r) ! Suc m))"
      if m: "Suc m < length (k # r)" for m
    proof -
      have "r ! m \<in> set r" using m by simp
      then have "r ! m \<noteq> i" "r ! m \<noteq> k" using ik by auto
      then show ?thesis using D(7) [of "Suc m"] kr m by (auto simp: behind_def)
    qed
    show "j \<in> set (k # r) \<longleftrightarrow> j < n \<and> in_list (phase_of ?t j) (mpcs (local_of ?t j))" for j
      using D(3) [of j] kr ik by (cases "j = i") auto
  qed (use D(2,4) kr in auto)
  with kr b(2) T(4) show ?thesis by auto
qed

subsection \<open>The contract\<close>

fun mcs_rank :: "mcs_pc \<Rightarrow> nat" where
  "mcs_rank SetNext = 7"
| "mcs_rank SetWaiting = 6"
| "mcs_rank ExchangeTail = 5"
| "mcs_rank LinkPred = 4"
| "mcs_rank SpinYield = 3"
| "mcs_rank SpinOwn = 2"
| "mcs_rank ClearOwn = 1"
| "mcs_rank TestNext = 4"
| "mcs_rank TryTail = 3"
| "mcs_rank WaitNext = 2"
| "mcs_rank ReadNext = 1"
| "mcs_rank _ = 0"

definition mcs_locks ::
  "bool \<Rightarrow> (tid \<Rightarrow> mcs_globals \<Rightarrow> mcs_local \<Rightarrow> (mcs_globals, mcs_local) outcome list) \<Rightarrow> bool" where
  "mcs_locks y lock \<longleftrightarrow> lock = (if y then mcs_yield_lock_step else mcs_lock_step)"

lemma mcs_line_init: "mcs_line n y [] (lock_init (mcs_init stack) mcs_local0)"
  by (rule mcs_lineI) (simp_all add: lock_init_def mcs_init_def mcs_local0_def mcs_thread_def)

lemma mcs_line_call:
  assumes q: "mcs_line n y q s" and i: "i < n" "phase_of s i = Out"
  shows "mcs_line n y q
    ((move i Try (shared s) (lock_call (mcs_impl lock) w i (local_of s i)) s)\<lparr>calls := c\<rparr>)"
proof -
  have "mcs_line n y q (move i Try (shared s) ((local_of s i)\<lparr>mpcs := SetNext\<rparr>) s)"
    using mcs_lineD(3) [OF q, of i] i by (intro mcs_own [OF q]) (auto simp: mcs_thread_def)
  then show ?thesis by (simp add: mcs_impl_def)
qed

text \<open>The first of the queue reads its flag as 0, any other as 1.\<close>

lemma mcs_spin:
  assumes q: "mcs_line n y q s" and i: "i < n" "phase_of s i = Try"
    "mpcs (local_of s i) = SpinOwn \<or> mpcs (local_of s i) = SpinYield"
  shows "waiting (nodes (shared s) i) = 0 \<longleftrightarrow> hd q = i" "i \<in> set q"
proof -
  note D = mcs_lineD [OF q]
  show "i \<in> set q" using D(3) [of i] i by auto
  then obtain k where k: "k < length q" "q ! k = i" by (auto simp: in_set_conv_nth)
  show "waiting (nodes (shared s) i) = 0 \<longleftrightarrow> hd q = i"
  proof (cases k)
    case 0
    then have "q \<noteq> []" "hd q = i" using k by (auto simp: hd_conv_nth)
    then show ?thesis using D(6) i(3) by (auto simp: in_front_def)
  next
    case (Suc m)
    then show ?thesis
      using D(7) [of m] k nth_eq_hd [OF D(2) k(1)] by (auto simp: behind_def)
  qed
qed

lemmas mcs_steps = mcs_locks_def mcs_lock_step_def mcs_yield_lock_step_def

lemma mcs_lock_running:
  assumes q: "mcs_line n y q s" and L: "mcs_locks y lock" and i: "i < n" "phase_of s i = Try"
    and st: "Running g l \<in> set (lock i (shared s) (local_of s i))"
  shows "\<exists>q'. (q' = q \<or> fifo_step q q') \<and> mcs_line n y q' (move i Try g l s)"
proof -
  note D = mcs_lineD [OF q]
  have at: "mcs_thread y Try (local_of s i) (nodes (shared s) i) q i" using D(1) [OF i(1)] i(2) by simp
  then have "mcs_ok y Try (mpcs (local_of s i))" by (simp add: mcs_thread_def)
  then consider "mpcs (local_of s i) = SetNext" | "mpcs (local_of s i) = SetWaiting"
    | "mpcs (local_of s i) = ExchangeTail" | "mpcs (local_of s i) = LinkPred"
    | "mpcs (local_of s i) = SpinOwn" | "mpcs (local_of s i) = SpinYield" y
    | "mpcs (local_of s i) = ClearOwn"
    by auto
  then show ?thesis
  proof cases
    case 1
    then have "mcs_line n y q (move i Try g l s)"
      using st L at i D(3) [of i]
      by (intro mcs_own [OF q i(1)]) (auto simp: mcs_steps mcs_thread_def split: if_splits)
    then show ?thesis by blast
  next
    case 2
    then have "mcs_line n y q (move i Try g l s)"
      using st L at i D(3) [of i]
      by (intro mcs_own [OF q i(1)]) (auto simp: mcs_steps mcs_thread_def split: if_splits)
    then show ?thesis by blast
  next
    case 3
    then have "g = (shared s)\<lparr>tail := Some i\<rparr>" "l = (local_of s i)\<lparr>pred := tail (shared s),
         mpcs := if tail (shared s) \<noteq> None then LinkPred else ClearOwn\<rparr>"
      using st L by (auto simp: mcs_steps split: if_splits)
    then show ?thesis using mcs_enter [OF q i 3, of l] fifo_step.enqueue by blast
  next
    case 4
    obtain p where p: "pred (local_of s i) = Some p" using mcs_not_front [OF q i 4] by blast
    then have "g = set_mcs p ((nodes (shared s) p)\<lparr>nextp := Some i\<rparr>) (shared s)"
        "l = (local_of s i)\<lparr>mpcs := SpinOwn\<rparr>"
      using st L 4 by (auto simp: mcs_steps simp del: fun_upd_apply split: if_splits)
    then show ?thesis using mcs_link [OF q i 4 p] by blast
  next
    case 5
    then have "mcs_line n y q (move i Try g l s)"
      using st L at i mcs_spin [OF q i]
      by (intro mcs_own [OF q i(1)])
        (auto simp: mcs_steps mcs_thread_def in_front_def behind_def split: if_splits)
    then show ?thesis by blast
  next
    case 6
    then have "mcs_line n y q (move i Try g l s)"
      using st L at i mcs_spin [OF q i]
      by (intro mcs_own [OF q i(1)])
        (auto simp: mcs_steps mcs_thread_def in_front_def behind_def split: if_splits)
    then show ?thesis by blast
  next
    case 7
    then show ?thesis using st L by (auto simp: mcs_steps split: if_splits)
  qed
qed

lemma mcs_lock_returned:
  assumes q: "mcs_line n y q s" and L: "mcs_locks y lock" and i: "i < n" "phase_of s i = Try"
    and st: "Returned g l \<in> set (lock i (shared s) (local_of s i))"
  shows "mcs_line n y q (move i Crit g l s)"
proof -
  note D = mcs_lineD [OF q]
  have at: "mpcs (local_of s i) = ClearOwn" "l = (local_of s i)\<lparr>mpcs := MIdle\<rparr>"
    "g = set_mcs i ((nodes (shared s) i)\<lparr>waiting := 0\<rparr>) (shared s)"
    using st L by (auto simp: mcs_locks_def mcs_lock_step_def mcs_yield_lock_step_def
        split: mcs_pc.splits option.splits if_splits)
  have "mcs_thread y Try (local_of s i) (nodes (shared s) i) q i" using D(1) [OF i(1)] i(2) by simp
  then show ?thesis
    using at i by (intro mcs_own [OF q i(1)]) (auto simp: mcs_thread_def in_front_def)
qed

lemma mcs_unlock_running:
  assumes q: "mcs_line n y q s" and i: "i < n" "phase_of s i = Rel"
    and st: "Running g l \<in> set (mcs_unlock_step i (shared s) (local_of s i))"
  shows "mcs_line n y q (move i Rel g l s)"
proof -
  note D = mcs_lineD [OF q]
  have at: "mcs_thread y Rel (local_of s i) (nodes (shared s) i) q i" using D(1) [OF i(1)] i(2) by simp
  then have "q \<noteq> []" "hd q = i" by (simp_all add: mcs_thread_def)
  then show ?thesis
    using st at i D(4)
    by (intro mcs_own [OF q i(1)])
      (auto simp: mcs_unlock_step_def mcs_thread_def in_front_def
        split: mcs_pc.splits option.splits if_splits)
qed

lemma mcs_unlock_returned:
  assumes q: "mcs_line n y q s" and i: "i < n" "phase_of s i = Rel"
    and st: "Returned g l \<in> set (mcs_unlock_step i (shared s) (local_of s i))"
  shows "\<exists>q'. fifo_step q q' \<and> mcs_line n y q' (move i Out g l s)"
proof -
  have at: "mcs_thread y Rel (local_of s i) (nodes (shared s) i) q i"
    using mcs_lineD(1) [OF q i(1)] i(2) by simp
  have "mpcs (local_of s i) = TryTail \<or> mpcs (local_of s i) = ClearNext"
    using st by (auto simp: mcs_unlock_step_def split: mcs_pc.splits)
  then consider "mpcs (local_of s i) = TryTail" "tail (shared s) = Some i"
      "g = (shared s)\<lparr>tail := None\<rparr>" "mpcs l = MIdle"
    | k where "mpcs (local_of s i) = ClearNext" "succ (local_of s i) = Some k"
      "g = set_mcs k ((nodes (shared s) k)\<lparr>waiting := 0\<rparr>) (shared s)" "mpcs l = MIdle"
  proof
    assume "mpcs (local_of s i) = TryTail"
    then show thesis using st that(1) by (auto simp: mcs_unlock_step_def split: if_splits)
  next
    assume c: "mpcs (local_of s i) = ClearNext"
    then obtain k where "succ (local_of s i) = Some k" using at by (auto simp: mcs_thread_def)
    then show thesis using c st that(2) [of k] by (simp add: mcs_unlock_step_def)
  qed
  then show ?thesis
  proof cases
    case 1
    then show ?thesis using mcs_empty [OF q i] fifo_step.dequeue by blast
  next
    case (2 k)
    then show ?thesis using mcs_pass [OF q i 2(1,4)] fifo_step.dequeue by force
  qed
qed

lemma mcs_line_act:
  assumes q: "mcs_line n y q s" and L: "mcs_locks y lock" and act: "lock_act (mcs_impl lock) n s t"
  shows "\<exists>q'. (q' = q \<or> fifo_step q q') \<and> mcs_line n y q' t"
  using act
proof cases
  case (lock_runs i g l)
  then show ?thesis using mcs_lock_running [OF q L lock_runs(2,3), of g l] by (simp add: mcs_impl_def)
next
  case (lock_returns i g l)
  then show ?thesis
    using mcs_lock_returned [OF q L lock_returns(2,3), of g l] by (auto simp: mcs_impl_def)
next
  case (unlock_called i)
  then have at: "mcs_thread y Crit (local_of s i) (nodes (shared s) i) q i"
    using mcs_lineD(1) [OF q, of i] by simp
  have "mcs_line n y q (move i Rel (shared s) ((local_of s i)\<lparr>mpcs := TestNext\<rparr>) s)"
    using at unlock_called(2,3)
    by (intro mcs_own [OF q]) (simp_all add: mcs_thread_def in_front_def)
  then show ?thesis using unlock_called(1) by (auto simp: mcs_impl_def)
next
  case (unlock_runs i g l)
  then show ?thesis
    using mcs_unlock_running [OF q unlock_runs(2,3), of g l] by (auto simp: mcs_impl_def)
next
  case (unlock_returns i g l)
  then show ?thesis
    using mcs_unlock_returned [OF q unlock_returns(2,3), of g l] by (auto simp: mcs_impl_def)
qed

text \<open>
  Who can move: the first of the queue, unless it waits in \<open>unlock\<close> for its successor to link
  itself; then the successor.
\<close>

lemma mcs_mover:
  assumes q: "mcs_line n y q s" and i: "i < n" "phase_of s i \<noteq> Out"
  obtains k where "k < n" "phase_of s k \<noteq> Out"
    "mpcs (local_of s k) = SpinOwn \<Longrightarrow> waiting (nodes (shared s) k) = 0"
    "mpcs (local_of s k) = WaitNext \<Longrightarrow> nextp (nodes (shared s) k) \<noteq> None"
proof -
  note D = mcs_lineD [OF q]
  have inside: "k \<in> set q \<Longrightarrow> k < n \<and> phase_of s k \<noteq> Out" for k
    using D(3) [of k] by (cases "phase_of s k") auto
  consider "q = []" | "q \<noteq> []" "mpcs (local_of s (hd q)) \<noteq> WaitNext"
    | "q \<noteq> []" "mpcs (local_of s (hd q)) = WaitNext" by blast
  then show ?thesis
  proof cases
    case 1
    then have "\<not> in_list (phase_of s i) (mpcs (local_of s i))" using D(3) [of i] i by simp
    then show ?thesis using that [of i] i by (cases "phase_of s i") auto
  next
    case 2
    then have "hd q < n" "phase_of s (hd q) \<noteq> Out" using inside [of "hd q"] by auto
    then show ?thesis using that [of "hd q"] D(6) [OF 2(1)] 2 by (auto simp: in_front_def)
  next
    case 3
    have h: "hd q < n" "phase_of s (hd q) \<noteq> Out" using inside [of "hd q"] 3 by auto
    have "last q \<noteq> hd q" using D(1) [OF h(1)] 3(2) by (simp add: mcs_thread_def)
    then obtain k r where r: "q = hd q # k # r" using 3(1) by (metis last.simps list.collapse)
    then have b: "behind (hd q) (nextp (nodes (shared s) (hd q))) k (local_of s k) (nodes (shared s) k)"
      using D(7) [of 0] by (metis Suc_less_eq length_Cons nth_Cons_0 nth_Cons_Suc zero_less_Suc)
    show ?thesis
    proof (cases "nextp (nodes (shared s) (hd q)) = None")
      case True
      have "k \<in> set q" using r by (metis list.set_intros)
      then show ?thesis using that [of k] inside [of k] b True by (auto simp: behind_def)
    next
      case False
      then show ?thesis using that [of "hd q"] h 3(2) by simp
    qed
  qed
qed

lemma mcs_line_progress:
  assumes q: "mcs_line n y q s" and L: "mcs_locks y lock" and i: "i < n" "phase_of s i \<noteq> Out"
  shows "\<exists>t. lock_act (mcs_impl lock) n s t \<and>
    drain_weight 5 (\<lambda>l. mcs_rank (mpcs l)) n t < drain_weight 5 (\<lambda>l. mcs_rank (mpcs l)) n s"
proof -
  obtain k where k: "k < n" "phase_of s k \<noteq> Out"
    "mpcs (local_of s k) = SpinOwn \<Longrightarrow> waiting (nodes (shared s) k) = 0"
    "mpcs (local_of s k) = WaitNext \<Longrightarrow> nextp (nodes (shared s) k) \<noteq> None"
    using mcs_mover [OF q i] by blast
  have at: "mcs_thread y (phase_of s k) (local_of s k) (nodes (shared s) k) q k"
    by (rule mcs_lineD(1) [OF q k(1)])
  consider "phase_of s k = Try" | "phase_of s k = Crit" | "phase_of s k = Rel"
    using k(2) by (cases "phase_of s k") auto
  then show ?thesis
  proof cases
    case 1
    have "mpcs (local_of s k) = LinkPred \<Longrightarrow> pred (local_of s k) \<noteq> None"
      using mcs_not_front [OF q k(1) 1] by auto
    then have "mpcs (local_of s k) = ClearOwn \<or>
      (\<exists>g l. Running g l \<in> set (lock k (shared s) (local_of s k)) \<and> mcs_rank (mpcs l) < mcs_rank (mpcs (local_of s k)))"
      using at L k(3) 1
      by (cases "mpcs (local_of s k)") (auto simp: mcs_steps mcs_thread_def)
    then show ?thesis
    proof
      assume "mpcs (local_of s k) = ClearOwn"
      then show ?thesis
        using 1 L by (intro drain_steps(2) [OF k(1)]) (auto simp: mcs_impl_def mcs_steps)
    next
      assume "\<exists>g l. Running g l \<in> set (lock k (shared s) (local_of s k)) \<and>
        mcs_rank (mpcs l) < mcs_rank (mpcs (local_of s k))"
      then show ?thesis
        using drain_steps(1) [OF k(1) 1] by (fastforce simp: mcs_impl_def)
    qed
  next
    case 2
    then show ?thesis by (rule drain_steps(3) [OF k(1)]) (simp add: mcs_impl_def)
  next
    case 3
    have "(\<exists>g l. Returned g l \<in> set (mcs_unlock_step k (shared s) (local_of s k))) \<or>
      (\<exists>g l. Running g l \<in> set (mcs_unlock_step k (shared s) (local_of s k)) \<and>
        mcs_rank (mpcs l) < mcs_rank (mpcs (local_of s k)))"
      using at k(4) 3 by (cases "mpcs (local_of s k)") (auto simp: mcs_unlock_step_def mcs_thread_def)
    then show ?thesis
      using drain_steps(4,5) [OF k(1) 3] by (fastforce simp: mcs_impl_def)
  qed
qed

lemma mcs_fifo:
  assumes L: "mcs_locks y lock"
  shows "live_fifo_lock (mcs_impl lock) n b (mcs_init stack) mcs_local0 (mcs_line n y)
    (drain_weight 5 (\<lambda>l. mcs_rank (mpcs l)) n)"
proof unfold_locales
  show "\<exists>q'. (q' = q \<or> fifo_step q q') \<and> mcs_line n y q' t"
    if "mcs_line n y q s" "lock_act (mcs_impl lock) n s t" for q s t
    using that(1) L that(2) by (rule mcs_line_act)
  show "\<exists>t. lock_act (mcs_impl lock) n s t \<and>
      drain_weight 5 (\<lambda>l. mcs_rank (mpcs l)) n t < drain_weight 5 (\<lambda>l. mcs_rank (mpcs l)) n s"
    if "mcs_line n y q s" "i < n" "phase_of s i \<noteq> Out" for q s i
    using that(1) L that(2,3) by (rule mcs_line_progress)
  show "q \<noteq> [] \<and> hd q = i" if "mcs_line n y q s" "i < n" "phase_of s i = Crit" for q s i
    using mcs_lineD(1) [OF that(1,2)] that(3) by (simp add: mcs_thread_def)
qed (rule mcs_line_init, rule mcs_line_call)

text \<open>A thread has joined once it has exchanged \<open>tail\<close>.\<close>

definition mcs_joined :: "phase \<Rightarrow> mcs_local \<Rightarrow> bool" where
  "mcs_joined p l = in_list p (mpcs l)"

lemma mcs_line_joined:
  "mcs_line n y q s \<Longrightarrow> distinct q" "mcs_line n y q s \<Longrightarrow> set q = {i. i < n \<and> mcs_joined (phase_of s i) (local_of s i)}"
  by (simp_all add: mcs_line_def mcs_joined_def)

lemma mcs_joined_stays:
  "mcs_locks y lock \<Longrightarrow> mcs_joined Try l \<Longrightarrow> Running g' l' \<in> set (lock i g l) \<Longrightarrow> mcs_joined Try l'"
  by (auto simp: mcs_locks_def mcs_joined_def mcs_lock_step_def mcs_yield_lock_step_def split: mcs_pc.splits option.splits if_splits)

interpretation mcs: ordered_program "mcs_prog stack n m" "mcs_line n False"
    "drain_weight 5 (\<lambda>l. mcs_rank (mpcs l)) n" mcs_joined for stack n m
  using mcs_fifo [of False mcs_lock_step n "n * rounds (mcs_prog stack n m)" stack] mcs_joined_stays [of False mcs_lock_step]
  by (auto simp: mcs_prog_def ordered_program_def ordered_program_axioms_def fifo_program_def fifo_program_axioms_def
      mcs_locks_def mcs_impl_def mcs_line_joined)

interpretation mcs_yield: ordered_program "mcs_yield_prog stack n m" "mcs_line n True"
    "drain_weight 5 (\<lambda>l. mcs_rank (mpcs l)) n" mcs_joined for stack n m
  using mcs_fifo [of True mcs_yield_lock_step n "n * rounds (mcs_yield_prog stack n m)" stack] mcs_joined_stays [of True mcs_yield_lock_step]
  by (auto simp: mcs_yield_prog_def ordered_program_def ordered_program_axioms_def fifo_program_def fifo_program_axioms_def
      mcs_locks_def mcs_impl_def mcs_line_joined)

subsection \<open>Properties\<close>

text \<open>The two MCS programs are correct for any number of threads, any \<open>MAX_COUNT\<close> and any
  initial contents of the nodes on the stacks: mutual exclusion, every increment counted, every
  reachable state can finish, also when \<open>unlock\<close> finds that a successor has exchanged \<open>tail\<close>
  but not linked itself yet.\<close>

theorem mcs_programs_correct:
  "program_correct (mcs_prog stack n m) \<and> program_correct (mcs_yield_prog stack n m)"
  by (intro conjI mcs.correct mcs_yield.correct)

end
