(* ===== verification/Peterson_Lock.thy ===== *)
theory Peterson_Lock
  imports Harness
begin

section \<open>Peterson's algorithm\<close>

text \<open>
  \<open>intro/peterson.c\<close>: two threads, a flag each in \<open>states\<close> and a shared \<open>turn\<close>. A thread
  raises its flag, gives the turn to the other and waits while the other's flag is up and the turn
  is the other's. The two reads of the condition are separate steps. The arrays are maps from
  indices, of which only 0 and 1 occur.
\<close>

record peterson_globals =
  states :: "nat \<Rightarrow> cint"
  turn :: cint

datatype peterson_pc = PIdle | SetState | SetTurn | ReadState | ReadTurn | ClearState

text \<open>\<open>int j = (i + 1) % 2\<close>\<close>

definition other :: "tid \<Rightarrow> nat" where
  "other i = (i + 1) mod 2"

definition peterson_lock_step ::
  "tid \<Rightarrow> peterson_globals \<Rightarrow> peterson_pc \<Rightarrow> (peterson_globals, peterson_pc) outcome list" where
  "peterson_lock_step i g l = (let j = other i in case l of
       SetState \<Rightarrow> [Running (g\<lparr>states := (states g)(i := 1)\<rparr>) SetTurn]
     | SetTurn \<Rightarrow> [Running (g\<lparr>turn := of_nat j\<rparr>) ReadState]
     | ReadState \<Rightarrow> [if states g j \<noteq> 0 then Running g ReadTurn else Returned g PIdle]
     | ReadTurn \<Rightarrow> [if turn g = of_nat j then Running g ReadState else Returned g PIdle]
     | _ \<Rightarrow> [])"

definition peterson_unlock_step ::
  "tid \<Rightarrow> peterson_globals \<Rightarrow> peterson_pc \<Rightarrow> (peterson_globals, peterson_pc) outcome list" where
  "peterson_unlock_step i g l = (case l of
       ClearState \<Rightarrow> [Returned (g\<lparr>states := (states g)(i := 0)\<rparr>) PIdle]
     | _ \<Rightarrow> [])"

definition peterson_impl :: "(peterson_globals, peterson_pc) lock_impl" where
  "peterson_impl = \<lparr>lock_call = (\<lambda>w i l. SetState), lock_step = peterson_lock_step,
     unlock_call = (\<lambda>i l. ClearState), unlock_step = peterson_unlock_step\<rparr>"

definition PETERSON_THREADS :: nat where "PETERSON_THREADS = 2"

definition peterson_prog :: "nat \<Rightarrow> (peterson_globals, peterson_pc) program" where
  "peterson_prog max_cnt = \<lparr>impl = peterson_impl, num_threads = PETERSON_THREADS,
     max_count = max_cnt, expected_count = max_cnt, cells = 1, target = one_counter,
     globals0 = \<lparr>states = (\<lambda>_. 0), turn = 0\<rparr>, locals0 = (\<lambda>_. PIdle)\<rparr>"

subsection \<open>The invariant\<close>

fun peterson_ok :: "phase \<Rightarrow> peterson_pc \<Rightarrow> bool" where
  "peterson_ok Try l = (l \<in> {SetState, SetTurn, ReadState, ReadTurn})"
| "peterson_ok Rel l = (l = ClearState)"
| "peterson_ok _ l = (l = PIdle)"

fun raised :: "phase \<Rightarrow> peterson_pc \<Rightarrow> bool" where
  "raised Out l = False"
| "raised Try l = (l \<noteq> SetState)"
| "raised _ l = True"

definition spins :: "peterson_pc \<Rightarrow> bool" where
  "spins l \<longleftrightarrow> l = ReadState \<or> l = ReadTurn"

text \<open>A waiting thread gave the turn to the owner, so the turn is the owner's.\<close>

definition peterson_inv :: "(peterson_globals, peterson_pc) lock_state \<Rightarrow> bool" where
  "peterson_inv s \<longleftrightarrow>
     (\<forall>i<2. peterson_ok (phase_of s i) (local_of s i) \<and>
        (states (shared s) i \<noteq> 0 \<longleftrightarrow> raised (phase_of s i) (local_of s i)) \<and>
        (owning (phase_of s i) \<longrightarrow> \<not> owning (phase_of s (other i)) \<and>
           (spins (local_of s (other i)) \<longrightarrow> turn (shared s) = of_nat i))) \<and>
     (turn (shared s) = 0 \<or> turn (shared s) = 1)"

lemma other_simps [simp]: "other 0 = Suc 0" "other (Suc 0) = 0"
  by (simp_all add: other_def)

lemma all_two: "(\<forall>i<2. P i) \<longleftrightarrow> P 0 \<and> P (Suc (0::nat))"
  by (auto simp: less_2_cases_iff)

lemmas peterson_defs = peterson_inv_def all_two peterson_impl_def peterson_lock_step_def
  peterson_unlock_step_def spins_def Let_def

lemma peterson_lock_running:
  assumes s: "peterson_inv s" and i: "i = 0 \<or> i = Suc 0" "phase_of s i = Try"
    and st: "Running g l \<in> set (peterson_lock_step i (shared s) (local_of s i))"
  shows "peterson_inv (move i Try g l s)"
  using i(1)
proof
  assume "i = 0"
  then show ?thesis
    using s i(2) st by (cases "local_of s i") (simp_all add: peterson_defs split: if_splits)
next
  assume "i = Suc 0"
  then show ?thesis
    using s i(2) st by (cases "local_of s i") (simp_all add: peterson_defs split: if_splits)
qed

lemma peterson_lock_returned:
  assumes s: "peterson_inv s" and i: "i = 0 \<or> i = Suc 0" "phase_of s i = Try"
    and st: "Returned g l \<in> set (peterson_lock_step i (shared s) (local_of s i))"
  shows "peterson_inv (move i Crit g l s)"
  using i(1)
proof
  assume "i = 0"
  then show ?thesis
    using s i(2) st
    by (cases "phase_of s (Suc 0)"; cases "local_of s i") (auto simp: peterson_defs split: if_splits)
next
  assume "i = Suc 0"
  then show ?thesis
    using s i(2) st
    by (cases "phase_of s 0"; cases "local_of s i") (auto simp: peterson_defs split: if_splits)
qed

lemma peterson_unlock_called:
  assumes s: "peterson_inv s" and i: "i = 0 \<or> i = Suc 0" "phase_of s i = Crit"
  shows "peterson_inv (move i Rel (shared s) ClearState s)"
  using i(1) by (rule disjE) (use s i(2) in \<open>simp_all add: peterson_defs\<close>)

lemma peterson_unlock_returned:
  assumes s: "peterson_inv s" and i: "i = 0 \<or> i = Suc 0" "phase_of s i = Rel"
  shows "peterson_inv (move i Out ((shared s)\<lparr>states := (states (shared s))(i := 0)\<rparr>) PIdle s)"
  using i(1) by (rule disjE) (use s i(2) in \<open>simp_all add: peterson_defs\<close>)

lemma peterson_inv_act:
  assumes s: "peterson_inv s" and act: "lock_act peterson_impl 2 s t"
  shows "peterson_inv t"
  using act
proof cases
  case (lock_runs i g l)
  then show ?thesis
    using peterson_lock_running [OF s, of i g l] by (simp add: peterson_impl_def less_2_cases_iff)
next
  case (lock_returns i g l)
  then show ?thesis
    using peterson_lock_returned [OF s, of i g l] by (simp add: peterson_impl_def less_2_cases_iff)
next
  case (unlock_called i)
  then show ?thesis
    using peterson_unlock_called [OF s, of i] by (simp add: peterson_impl_def less_2_cases_iff)
next
  case (unlock_runs i g l)
  then show ?thesis by (simp add: peterson_impl_def peterson_unlock_step_def split: peterson_pc.splits)
next
  case (unlock_returns i g l)
  then have "g = (shared s)\<lparr>states := (states (shared s))(i := 0)\<rparr>" "l = PIdle"
    by (auto simp: peterson_impl_def peterson_unlock_step_def simp del: fun_upd_apply
        split: peterson_pc.splits)
  then show ?thesis
    using peterson_unlock_returned [OF s, of i] unlock_returns less_2_cases by simp
qed

lemma peterson_inv_call:
  assumes s: "peterson_inv s" and i: "i < 2" "phase_of s i = Out"
  shows "peterson_inv
    ((move i Try (shared s) (lock_call peterson_impl w i (local_of s i)) s)\<lparr>calls := c\<rparr>)"
  using i unfolding less_2_cases_iff
  by (elim conjE disjE) (use s in \<open>simp_all add: peterson_defs\<close>)

lemma peterson_inv_init:
  "peterson_inv (lock_init \<lparr>states = (\<lambda>_. 0), turn = 0\<rparr> (\<lambda>_. PIdle))"
  by (simp add: peterson_defs lock_init_def)

lemma peterson_mutex:
  assumes "peterson_inv s" "i < 2" "j < 2" "phase_of s i = Crit" "phase_of s j = Crit"
  shows "i = j"
  using assms(2,3) unfolding less_2_cases_iff
  by (elim disjE) (use assms in \<open>simp_all add: peterson_defs\<close>)

subsection \<open>Progress\<close>

text \<open>
  A thread that spins is on its way out when the turn is its own, or when the other's flag is down;
  the weight of the two reads depends on which of the two lets it pass.
\<close>

fun peterson_weight :: "tid \<Rightarrow> cint \<Rightarrow> phase \<Rightarrow> peterson_pc \<Rightarrow> nat" where
  "peterson_weight i w Out l = 0"
| "peterson_weight i w Rel l = 1"
| "peterson_weight i w Crit l = 2"
| "peterson_weight i w Try SetState = 7"
| "peterson_weight i w Try SetTurn = 6"
| "peterson_weight i w Try ReadState = (if w = of_nat i then 4 else 3)"
| "peterson_weight i w Try l = (if w = of_nat i then 3 else 4)"

definition peterson_mu :: "(peterson_globals, peterson_pc) lock_state \<Rightarrow> nat" where
  "peterson_mu s = peterson_weight 0 (turn (shared s)) (phase_of s 0) (local_of s 0) +
     peterson_weight (Suc 0) (turn (shared s)) (phase_of s (Suc 0)) (local_of s (Suc 0))"

definition lets_pass :: "(peterson_globals, peterson_pc) lock_state \<Rightarrow> tid \<Rightarrow> bool" where
  "lets_pass s k \<longleftrightarrow> phase_of s k \<noteq> Out \<and> (phase_of s k = Try \<longrightarrow> spins (local_of s k) \<longrightarrow>
     turn (shared s) = of_nat k \<or> states (shared s) (other k) = 0)"

lemma weight_turn: "peterson_weight i w p l \<le> Suc (peterson_weight i w' p l)"
  by (cases p; cases l) auto

lemma peterson_mu_move:
  assumes "i = 0 \<or> i = Suc 0"
    and "peterson_weight i (turn g) p l + (if turn g = turn (shared s) then 0 else 1)
      < peterson_weight i (turn (shared s)) (phase_of s i) (local_of s i)"
  shows "peterson_mu (move i p g l s) < peterson_mu s"
proof -
  have w: "peterson_weight j (turn g) (phase_of s j) (local_of s j)
      \<le> peterson_weight j (turn (shared s)) (phase_of s j) (local_of s j)
        + (if turn g = turn (shared s) then 0 else 1)" for j
    using weight_turn [of j "turn g" "phase_of s j" "local_of s j" "turn (shared s)"] by simp
  show ?thesis
    using assms w [of 0] w [of "Suc 0"] by (elim disjE) (simp_all add: peterson_mu_def)
qed

lemma peterson_moves:
  assumes s: "peterson_inv s" and k: "k = 0 \<or> k = Suc 0" and pass: "lets_pass s k"
  shows "\<exists>t. lock_act peterson_impl 2 s t \<and> peterson_mu t < peterson_mu s"
proof -
  have k2: "k < 2" using k by auto
  have ok: "peterson_ok (phase_of s k) (local_of s k)"
    and turn: "turn (shared s) \<noteq> of_nat (other k) \<longleftrightarrow> turn (shared s) = of_nat k"
    using s k by (auto simp: peterson_inv_def)
  consider "phase_of s k = Crit" | "phase_of s k = Rel" | "phase_of s k = Try"
    using pass by (cases "phase_of s k") (auto simp: lets_pass_def)
  then show ?thesis
  proof cases
    case 1
    then have "lock_act peterson_impl 2 s (move k Rel (shared s) ClearState s)"
      using unlock_called [of k 2 s peterson_impl] k2 by (simp add: peterson_impl_def)
    moreover have "peterson_mu (move k Rel (shared s) ClearState s) < peterson_mu s"
      using 1 by (intro peterson_mu_move [OF k]) simp
    ultimately show ?thesis by blast
  next
    case 2
    let ?g = "(shared s)\<lparr>states := (states (shared s))(k := 0)\<rparr>"
    have "lock_act peterson_impl 2 s (move k Out ?g PIdle s)"
      using ok 2 k2 by (intro unlock_returns) (simp_all add: peterson_impl_def peterson_unlock_step_def)
    moreover have "peterson_mu (move k Out ?g PIdle s) < peterson_mu s"
      using 2 by (intro peterson_mu_move [OF k]) simp
    ultimately show ?thesis by blast
  next
    case 3
    let ?w = "peterson_weight k (turn (shared s)) Try (local_of s k)"
    have "(\<exists>g l. Running g l \<in> set (peterson_lock_step k (shared s) (local_of s k)) \<and>
        peterson_weight k (turn g) Try l + (if turn g = turn (shared s) then 0 else 1) < ?w) \<or>
      (\<exists>l. Returned (shared s) l \<in> set (peterson_lock_step k (shared s) (local_of s k)))"
      using ok 3 pass turn
      by (cases "local_of s k") (auto simp: peterson_lock_step_def Let_def lets_pass_def spins_def)
    then show ?thesis
    proof (elim disjE exE conjE)
      fix g l
      assume "Running g l \<in> set (peterson_lock_step k (shared s) (local_of s k))"
        "peterson_weight k (turn g) Try l + (if turn g = turn (shared s) then 0 else 1) < ?w"
      then show ?thesis
        using lock_runs [of k 2 s g l peterson_impl] peterson_mu_move [OF k, of g Try l s] k2 3
        by (auto simp: peterson_impl_def)
    next
      fix l
      assume "Returned (shared s) l \<in> set (peterson_lock_step k (shared s) (local_of s k))"
      moreover have "2 < ?w" using ok 3 by (cases "local_of s k") auto
      ultimately show ?thesis
        using lock_returns [of k 2 s "shared s" l peterson_impl]
          peterson_mu_move [OF k, of "shared s" Crit l s] k2 3
        by (auto simp: peterson_impl_def)
    qed
  qed
qed

lemma peterson_progress:
  assumes s: "peterson_inv s" and i: "i < 2" "phase_of s i \<noteq> Out"
  shows "\<exists>t. lock_act peterson_impl 2 s t \<and> peterson_mu t < peterson_mu s"
proof -
  have i': "i = 0 \<or> i = Suc 0" using i(1) by auto
  have "lets_pass s i \<or> lets_pass s (other i)"
    using i' i(2) s
    by (elim disjE; cases "phase_of s 0"; cases "phase_of s (Suc 0)")
      (simp_all add: lets_pass_def peterson_inv_def all_two, auto simp: spins_def)
  moreover have "other i = 0 \<or> other i = Suc 0" using i' by auto
  ultimately show ?thesis using peterson_moves [OF s] i' by blast
qed

interpretation peterson: live_program "peterson_prog m" peterson_inv peterson_mu for m
proof unfold_locales
  show "peterson_inv (lock_init (globals0 (peterson_prog m)) (locals0 (peterson_prog m)))"
    using peterson_inv_init by (simp add: peterson_prog_def)
qed (simp_all add: peterson_prog_def PETERSON_THREADS_def peterson_inv_call peterson_inv_act
    peterson_mutex peterson_progress)

subsection \<open>Properties\<close>

text \<open>Peterson's algorithm is correct for its two threads and any \<open>MAX_COUNT\<close>, with the two reads of
  the waiting condition separate steps: mutual exclusion, every increment counted, every
  reachable state can finish.\<close>

theorem peterson_correct: "program_correct (peterson_prog m)"
  by (rule peterson.correct)

end
