(* ===== verification/Fast_Lock.thy ===== *)
theory Fast_Lock
  imports Harness
begin

section \<open>Lamport's fast mutual exclusion\<close>

text \<open>
  \<open>intro/fast.c\<close>: without contention a thread enters after seven accesses to memory. It raises
  its flag \<open>b[i]\<close>, writes \<open>x\<close>, and if nobody holds \<open>y\<close> writes \<open>y\<close>; when \<open>x\<close> is still its own it
  enters (the fast path), else it lowers its flag, waits for every other flag to be down and enters
  if \<open>y\<close> is still its own (the slow path), else it starts again. \<open>x\<close> and \<open>y\<close> are \<open>int\<close>s that start
  at -1; the array \<open>b\<close> is a map from thread numbers.
\<close>

record fast_globals =
  b :: "nat \<Rightarrow> u32"
  x :: cint
  y :: cint

datatype fast_pc = FIdle | SetB | SetX | TestY | ClearB1 | AwaitY1 | SetY | TestX | ClearB2
  | AwaitB nat | TestYi | AwaitY2 | ClearY | ClearB3

definition fast_lock_step ::
  "nat \<Rightarrow> tid \<Rightarrow> fast_globals \<Rightarrow> fast_pc \<Rightarrow> (fast_globals, fast_pc) outcome list" where
  "fast_lock_step n i g l = (case l of
       SetB \<Rightarrow> [Running (g\<lparr>b := (b g)(i := 1)\<rparr>) SetX]
     | SetX \<Rightarrow> [Running (g\<lparr>x := of_nat i\<rparr>) TestY]
     | TestY \<Rightarrow> [Running g (if 0 \<le> sint (y g) then ClearB1 else SetY)]
     | ClearB1 \<Rightarrow> [Running (g\<lparr>b := (b g)(i := 0)\<rparr>) AwaitY1]
     | AwaitY1 \<Rightarrow> [Running g (if 0 \<le> sint (y g) then AwaitY1 else SetB)]
     | SetY \<Rightarrow> [Running (g\<lparr>y := of_nat i\<rparr>) TestX]
     | TestX \<Rightarrow> [if x g \<noteq> of_nat i then Running g ClearB2 else Returned g FIdle]
     | ClearB2 \<Rightarrow> [Running (g\<lparr>b := (b g)(i := 0)\<rparr>) (AwaitB 0)]
     | AwaitB j \<Rightarrow>
         [Running g (if j < n then (if b g j \<noteq> 0 then AwaitB j else AwaitB (Suc j)) else TestYi)]
     | TestYi \<Rightarrow> [if y g \<noteq> of_nat i then Running g AwaitY2 else Returned g FIdle]
     | AwaitY2 \<Rightarrow> [Running g (if 0 \<le> sint (y g) then AwaitY2 else SetB)]
     | _ \<Rightarrow> [])"

definition fast_unlock_step ::
  "tid \<Rightarrow> fast_globals \<Rightarrow> fast_pc \<Rightarrow> (fast_globals, fast_pc) outcome list" where
  "fast_unlock_step i g l = (case l of
       ClearY \<Rightarrow> [Running (g\<lparr>y := -1\<rparr>) ClearB3]
     | ClearB3 \<Rightarrow> [Returned (g\<lparr>b := (b g)(i := 0)\<rparr>) FIdle]
     | _ \<Rightarrow> [])"

definition fast_impl :: "nat \<Rightarrow> (fast_globals, fast_pc) lock_impl" where
  "fast_impl n = \<lparr>lock_call = (\<lambda>w i l. SetB), lock_step = fast_lock_step n,
     unlock_call = (\<lambda>i l. ClearY), unlock_step = fast_unlock_step\<rparr>"

definition fast_prog :: "nat \<Rightarrow> nat \<Rightarrow> (fast_globals, fast_pc) program" where
  "fast_prog num_thr max_cnt = \<lparr>impl = fast_impl num_thr, num_threads = num_thr,
     max_count = max_cnt, expected_count = max_cnt, cells = 1, target = one_counter,
     globals0 = \<lparr>b = (\<lambda>_. 0), x = -1, y = -1\<rparr>, locals0 = (\<lambda>_. FIdle)\<rparr>"

subsection \<open>The invariant\<close>

type_synonym fast_state = "(fast_globals, fast_pc) lock_state"

text \<open>
  Inside up to the release of \<open>y\<close>, by the fast or the slow path (the flag tells which); on the
  fast path from the test of \<open>y\<close>; past the test of \<open>b[i]\<close> on the slow path; and the places at which
  a thread's number can be in \<open>y\<close>.
\<close>

definition inside :: "fast_state \<Rightarrow> tid \<Rightarrow> bool" where
  "inside s i \<longleftrightarrow> phase_of s i = Crit \<or> phase_of s i = Rel \<and> local_of s i = ClearY"

definition by_fast :: "fast_state \<Rightarrow> tid \<Rightarrow> bool" where
  "by_fast s i \<longleftrightarrow> inside s i \<and> b (shared s) i \<noteq> 0"

definition by_slow :: "fast_state \<Rightarrow> tid \<Rightarrow> bool" where
  "by_slow s i \<longleftrightarrow> inside s i \<and> b (shared s) i = 0"

definition racing :: "fast_state \<Rightarrow> tid \<Rightarrow> bool" where
  "racing s i \<longleftrightarrow> phase_of s i = Try \<and> (local_of s i = SetY \<or> local_of s i = TestX)"

definition checked :: "fast_state \<Rightarrow> tid \<Rightarrow> tid \<Rightarrow> bool" where
  "checked s j i \<longleftrightarrow> phase_of s j = Try \<and>
     (local_of s j = TestYi \<or> (\<exists>k. local_of s j = AwaitB k \<and> i < k))"

fun claims :: "phase \<Rightarrow> fast_pc \<Rightarrow> bool" where
  "claims Out l = False"
| "claims Try l = (case l of TestX \<Rightarrow> True | ClearB2 \<Rightarrow> True | AwaitB k \<Rightarrow> True | TestYi \<Rightarrow> True | _ \<Rightarrow> False)"
| "claims Crit l = True"
| "claims Rel l = (l = ClearY)"

fun fast_ok :: "phase \<Rightarrow> fast_pc \<Rightarrow> u32 \<Rightarrow> bool" where
  "fast_ok Out l f = (f = 0)"
| "fast_ok Try l f = (case l of SetX \<Rightarrow> f \<noteq> 0 | TestY \<Rightarrow> f \<noteq> 0 | ClearB1 \<Rightarrow> f \<noteq> 0 | SetY \<Rightarrow> f \<noteq> 0
     | TestX \<Rightarrow> f \<noteq> 0 | ClearB2 \<Rightarrow> f \<noteq> 0 | FIdle \<Rightarrow> False | ClearY \<Rightarrow> False | ClearB3 \<Rightarrow> False
     | _ \<Rightarrow> f = 0)"
| "fast_ok Crit l f = True"
| "fast_ok Rel l f = (l = ClearY \<or> l = ClearB3)"

definition held :: "fast_state \<Rightarrow> bool" where
  "held s \<longleftrightarrow> 0 \<le> sint (y (shared s))"

definition fast_inv :: "nat \<Rightarrow> fast_state \<Rightarrow> bool" where
  "fast_inv n s \<longleftrightarrow>
     (\<forall>i<n. fast_ok (phase_of s i) (local_of s i) (b (shared s) i)) \<and>
     (\<forall>i<n. \<forall>j<n. i \<noteq> j \<longrightarrow> racing s i \<or> by_fast s i \<longrightarrow> checked s j i \<longrightarrow>
        y (shared s) \<noteq> of_nat j) \<and>
     (\<forall>j<n. by_slow s j \<longrightarrow> y (shared s) = of_nat j) \<and>
     (\<forall>j<n. by_slow s j \<longrightarrow> (\<forall>i<n. i \<noteq> j \<longrightarrow> \<not> (racing s i \<or> by_fast s i))) \<and>
     (\<forall>i<n. \<forall>j<n. racing s i \<longrightarrow> x (shared s) = of_nat i \<longrightarrow> \<not> by_fast s j) \<and>
     (\<forall>i<n. racing s i \<longrightarrow> local_of s i = TestX \<longrightarrow> x (shared s) = of_nat i \<longrightarrow> held s) \<and>
     (\<forall>i<n. by_fast s i \<longrightarrow> held s) \<and>
     (\<forall>i<n. \<forall>j<n. by_fast s i \<longrightarrow> by_fast s j \<longrightarrow> i = j) \<and>
     (held s \<longrightarrow> (\<exists>k<n. y (shared s) = of_nat k \<and> claims (phase_of s k) (local_of s k)))"

lemma fast_invI:
  assumes "\<And>i. i < n \<Longrightarrow> fast_ok (phase_of s i) (local_of s i) (b (shared s) i)"
    and "\<And>i j. i < n \<Longrightarrow> j < n \<Longrightarrow> i \<noteq> j \<Longrightarrow> racing s i \<or> by_fast s i \<Longrightarrow> checked s j i \<Longrightarrow>
      y (shared s) \<noteq> of_nat j"
    and "\<And>j. j < n \<Longrightarrow> by_slow s j \<Longrightarrow> y (shared s) = of_nat j"
    and "\<And>i j. j < n \<Longrightarrow> by_slow s j \<Longrightarrow> i < n \<Longrightarrow> i \<noteq> j \<Longrightarrow> racing s i \<or> by_fast s i \<Longrightarrow> False"
    and "\<And>i j. i < n \<Longrightarrow> j < n \<Longrightarrow> racing s i \<Longrightarrow> x (shared s) = of_nat i \<Longrightarrow> by_fast s j \<Longrightarrow> False"
    and "\<And>i. i < n \<Longrightarrow> racing s i \<Longrightarrow> local_of s i = TestX \<Longrightarrow> x (shared s) = of_nat i \<Longrightarrow> held s"
    and "\<And>i. i < n \<Longrightarrow> by_fast s i \<Longrightarrow> held s"
    and "\<And>i j. i < n \<Longrightarrow> j < n \<Longrightarrow> by_fast s i \<Longrightarrow> by_fast s j \<Longrightarrow> i = j"
    and "held s \<Longrightarrow> \<exists>k<n. y (shared s) = of_nat k \<and> claims (phase_of s k) (local_of s k)"
  shows "fast_inv n s"
  unfolding fast_inv_def
  apply (intro conjI)
  subgoal using assms(1) by blast
  subgoal using assms(2) by blast
  subgoal using assms(3) by blast
  subgoal using assms(4) by blast
  subgoal using assms(5) by blast
  subgoal using assms(6) by blast
  subgoal using assms(7) by blast
  subgoal using assms(8) by blast
  subgoal using assms(9) by blast
  done

lemma fast_invD:
  assumes "fast_inv n s"
  shows "i < n \<Longrightarrow> fast_ok (phase_of s i) (local_of s i) (b (shared s) i)"
    and "i < n \<Longrightarrow> j < n \<Longrightarrow> i \<noteq> j \<Longrightarrow> racing s i \<or> by_fast s i \<Longrightarrow> checked s j i \<Longrightarrow>
      y (shared s) \<noteq> of_nat j"
    and "j < n \<Longrightarrow> by_slow s j \<Longrightarrow> y (shared s) = of_nat j"
    and "j < n \<Longrightarrow> by_slow s j \<Longrightarrow> i < n \<Longrightarrow> i \<noteq> j \<Longrightarrow> racing s i \<or> by_fast s i \<Longrightarrow> False"
    and "i < n \<Longrightarrow> j < n \<Longrightarrow> racing s i \<Longrightarrow> x (shared s) = of_nat i \<Longrightarrow> by_fast s j \<Longrightarrow> False"
    and "i < n \<Longrightarrow> racing s i \<Longrightarrow> local_of s i = TestX \<Longrightarrow> x (shared s) = of_nat i \<Longrightarrow> held s"
    and "i < n \<Longrightarrow> by_fast s i \<Longrightarrow> held s"
    and "i < n \<Longrightarrow> j < n \<Longrightarrow> by_fast s i \<Longrightarrow> by_fast s j \<Longrightarrow> i = j"
    and "held s \<Longrightarrow> \<exists>k<n. y (shared s) = of_nat k \<and> claims (phase_of s k) (local_of s k)"
  subgoal using assms[unfolded fast_inv_def, THEN conjunct1] by blast
  subgoal using assms[unfolded fast_inv_def, THEN conjunct2, THEN conjunct1] by blast
  subgoal using assms[unfolded fast_inv_def, THEN conjunct2, THEN conjunct2, THEN conjunct1] by blast
  subgoal using assms[unfolded fast_inv_def, THEN conjunct2, THEN conjunct2, THEN conjunct2, THEN conjunct1] by blast
  subgoal using assms[unfolded fast_inv_def, THEN conjunct2, THEN conjunct2, THEN conjunct2, THEN conjunct2, THEN conjunct1] by blast
  subgoal using assms[unfolded fast_inv_def, THEN conjunct2, THEN conjunct2, THEN conjunct2, THEN conjunct2, THEN conjunct2, THEN conjunct1] by blast
  subgoal using assms[unfolded fast_inv_def, THEN conjunct2, THEN conjunct2, THEN conjunct2, THEN conjunct2, THEN conjunct2, THEN conjunct2, THEN conjunct1] by blast
  subgoal using assms[unfolded fast_inv_def, THEN conjunct2, THEN conjunct2, THEN conjunct2, THEN conjunct2, THEN conjunct2, THEN conjunct2, THEN conjunct2, THEN conjunct1] by blast
  subgoal using assms[unfolded fast_inv_def, THEN conjunct2, THEN conjunct2, THEN conjunct2, THEN conjunct2, THEN conjunct2, THEN conjunct2, THEN conjunct2, THEN conjunct2] by blast
  done

text \<open>Thread numbers as \<open>int\<close>s.\<close>

definition few_threads :: "nat \<Rightarrow> bool" where
  "few_threads n \<longleftrightarrow> n \<le> 2 ^ 31"

lemma tid_word:
  assumes "few_threads n" "i < n"
  shows "sint (of_nat i :: cint) = int i"
  using assms by (simp add: few_threads_def sint_uint signed_take_bit_int_eq_self unsigned_of_nat
      take_bit_nat_eq_self signed_of_nat)

lemma tid_word_inj:
  "few_threads n \<Longrightarrow> i < n \<Longrightarrow> j < n \<Longrightarrow> (of_nat i :: cint) = of_nat j \<longleftrightarrow> i = j"
  using tid_word [of n i] tid_word [of n j] by (metis of_nat_eq_iff)

subsection \<open>The steps\<close>

text \<open>What another thread is doing does not change, as long as its flag does not.\<close>

lemma frame:
  assumes "j \<noteq> i"
  shows "inside (move i p g l s) j = inside s j" "racing (move i p g l s) j = racing s j"
    "checked (move i p g l s) j k = checked s j k"
    and "b g j = b (shared s) j \<Longrightarrow> by_fast (move i p g l s) j = by_fast s j"
    "b g j = b (shared s) j \<Longrightarrow> by_slow (move i p g l s) j = by_slow s j"
  using assms by (simp_all add: inside_def racing_def checked_def by_fast_def by_slow_def)

lemma racing_simps [simp]:
  "racing (move i p g l s) i \<longleftrightarrow> p = Try \<and> (l = SetY \<or> l = TestX)"
  "inside (move i p g l s) i \<longleftrightarrow> p = Crit \<or> p = Rel \<and> l = ClearY"
  "by_fast (move i p g l s) i \<longleftrightarrow> (p = Crit \<or> p = Rel \<and> l = ClearY) \<and> b g i \<noteq> 0"
  "by_slow (move i p g l s) i \<longleftrightarrow> (p = Crit \<or> p = Rel \<and> l = ClearY) \<and> b g i = 0"
  "checked (move i p g l s) i k \<longleftrightarrow> p = Try \<and> (l = TestYi \<or> (\<exists>m. l = AwaitB m \<and> k < m))"
  by (auto simp: racing_def inside_def by_fast_def by_slow_def checked_def)

lemma held_move [simp]: "held (move i p g l s) \<longleftrightarrow> 0 \<le> sint (y g)"
  by (simp add: held_def)

text \<open>
  What a thread does less, it can do: the invariant but its first and last parts is kept when
  threads stop racing, being inside or having passed flags, and \<open>y\<close> stays.
\<close>

lemma fast_mono:
  assumes s: "fast_inv n s" and y: "y (shared t) = y (shared s)"
    and R: "\<And>j. j < n \<Longrightarrow> racing t j \<Longrightarrow> racing s j \<and> local_of t j = local_of s j \<and>
      (x (shared t) = of_nat j \<longrightarrow> x (shared s) = of_nat j)"
    and F: "\<And>j. by_fast t j \<Longrightarrow> by_fast s j" and S: "\<And>j. by_slow t j \<Longrightarrow> by_slow s j"
    and C: "\<And>j k. k < n \<Longrightarrow> racing s k \<or> by_fast s k \<Longrightarrow> checked t j k \<Longrightarrow> checked s j k"
    and ok: "\<And>j. j < n \<Longrightarrow> fast_ok (phase_of t j) (local_of t j) (b (shared t) j)"
    and cl: "\<And>j. j < n \<Longrightarrow> y (shared s) = of_nat j \<Longrightarrow> claims (phase_of s j) (local_of s j) \<Longrightarrow>
      claims (phase_of t j) (local_of t j)"
  shows "fast_inv n t"
proof (rule fast_invI)
  note D = fast_invD [OF s]
  show "y (shared t) \<noteq> of_nat j"
    if "i < n" "j < n" "i \<noteq> j" "racing t i \<or> by_fast t i" "checked t j i" for i j
  proof -
    have "racing s i \<or> by_fast s i" using that(4) R [OF that(1)] F by blast
    then show ?thesis unfolding y using D(2) [OF that(1-3)] C [OF that(1) _ that(5)] by blast
  qed
  show "y (shared t) = of_nat j" if "j < n" "by_slow t j" for j
    unfolding y using that(1) S [OF that(2)] by (rule D(3))
  show False if "j < n" "by_slow t j" "i < n" "i \<noteq> j" "racing t i \<or> by_fast t i" for i j
    using that(1) S [OF that(2)] that(3,4) by (rule D(4)) (use that(5) R [OF that(3)] F in auto)
  show False if "i < n" "j < n" "racing t i" "x (shared t) = of_nat i" "by_fast t j" for i j
    using that(1,2) by (rule D(5)) (use that R [OF that(1)] F in auto)
  show "held t" if "i < n" "racing t i" "local_of t i = TestX" "x (shared t) = of_nat i" for i
    using D(6) [of i] that R [OF that(1)] y by (simp add: held_def)
  show "held t" if "i < n" "by_fast t i" for i
    using D(7) [OF that(1) F [OF that(2)]] y by (simp add: held_def)
  show "i = j" if "i < n" "j < n" "by_fast t i" "by_fast t j" for i j
    using that(1,2) F [OF that(3)] F [OF that(4)] by (rule D(8))
  show "\<exists>k<n. y (shared t) = of_nat k \<and> claims (phase_of t k) (local_of t k)" if "held t"
    using D(9) that cl y by (auto simp: held_def)
qed (rule ok)

text \<open>A step that neither enters the race nor the inside, nor passes a flag.\<close>

lemma fast_quiet:
  assumes s: "fast_inv n s" and i: "i < n"
    and g: "x g = x (shared s)" "y g = y (shared s)" "\<And>j. j \<noteq> i \<Longrightarrow> b g j = b (shared s) j"
    and t: "fast_ok p l (b g i)" "\<not> racing (move i p g l s) i"
      "by_fast (move i p g l s) i \<Longrightarrow> by_fast s i" "by_slow (move i p g l s) i \<Longrightarrow> by_slow s i"
      "\<And>k. checked (move i p g l s) i k \<Longrightarrow> checked s i k"
      "y g = of_nat i \<Longrightarrow> claims (phase_of s i) (local_of s i) \<Longrightarrow> claims p l"
  shows "fast_inv n (move i p g l s)"
proof (rule fast_mono [OF s])
  let ?t = "move i p g l s"
  show "racing s j \<and> local_of ?t j = local_of s j \<and> (x (shared ?t) = of_nat j \<longrightarrow> x (shared s) = of_nat j)"
    if "racing ?t j" for j
    using that t(2) g(1) frame(2) [of j i p g l s] by (cases "j = i") simp_all
  show "by_fast s j" if "by_fast ?t j" for j
    using that t(3) frame(4) [of j i g s p l] g(3) by (cases "j = i") simp_all
  show "by_slow s j" if "by_slow ?t j" for j
    using that t(4) frame(5) [of j i g s p l] g(3) by (cases "j = i") simp_all
  show "checked s j k" if "checked ?t j k" for j k
    using that t(5) frame(3) [of j i p g l s k] by (cases "j = i") simp_all
  show "fast_ok (phase_of ?t j) (local_of ?t j) (b (shared ?t) j)" if "j < n" for j
    using fast_invD(1) [OF s that] t(1) g(3) by (cases "j = i") simp_all
qed (use g(2) t(6) in auto)

text \<open>Writing \<open>x\<close>.\<close>

lemma fast_set_x:
  assumes s: "fast_inv n s" and f: "few_threads n" and i: "i < n"
    and at: "phase_of s i = Try" "local_of s i = SetX"
  shows "fast_inv n (move i Try ((shared s)\<lparr>x := of_nat i\<rparr>) TestY s)" (is "fast_inv n ?t")
proof (rule fast_mono [OF s])
  show "racing s j \<and> local_of ?t j = local_of s j \<and> (x (shared ?t) = of_nat j \<longrightarrow> x (shared s) = of_nat j)"
    if "j < n" "racing ?t j" for j
    using that tid_word_inj [OF f i, of j] frame(2) [of j i Try _ TestY s] by (cases "j = i") simp_all
  show "by_fast s j" if "by_fast ?t j" for j
    using that frame(4) [of j i _ s Try TestY] by (cases "j = i") simp_all
  show "by_slow s j" if "by_slow ?t j" for j
    using that frame(5) [of j i _ s Try TestY] by (cases "j = i") simp_all
  show "checked s j k" if "checked ?t j k" for j k
    using that frame(3) [of j i Try _ TestY s k] by (cases "j = i") simp_all
  show "fast_ok (phase_of ?t j) (local_of ?t j) (b (shared ?t) j)" if "j < n" for j
    using fast_invD(1) [OF s that] at by (cases "j = i") simp_all
qed (use at in auto)

lemma not_held:
  assumes "\<not> held s" "few_threads n" "j < n"
  shows "y (shared s) \<noteq> of_nat j"
proof
  assume "y (shared s) = of_nat j"
  then show False using assms tid_word [OF assms(2,3)] by (simp add: held_def)
qed

text \<open>Finding \<open>y\<close> free, a thread enters the race: then nobody is inside.\<close>

lemma fast_enter_race:
  assumes s: "fast_inv n s" and f: "few_threads n" and i: "i < n"
    and at: "phase_of s i = Try" "local_of s i = TestY" and free: "\<not> held s"
  shows "fast_inv n (move i Try (shared s) SetY s)" (is "fast_inv n ?t")
proof -
  note D = fast_invD [OF s]
  have ne: "j < n \<Longrightarrow> y (shared s) \<noteq> of_nat j" for j using not_held [OF free f] .
  have noF: "\<not> by_fast ?t j" if "j < n" for j
    using D(7) [OF that] free frame(4) [of j i "shared s" s Try SetY] by (cases "j = i") auto
  have noS: "\<not> by_slow ?t j" if "j < n" for j
    using D(3) [OF that] ne [OF that] frame(5) [of j i "shared s" s Try SetY] by (cases "j = i") auto
  show ?thesis
  proof (rule fast_invI)
    show "fast_ok (phase_of ?t j) (local_of ?t j) (b (shared ?t) j)" if "j < n" for j
      using D(1) [OF that] at by (cases "j = i") simp_all
    show "held ?t" if "j < n" "racing ?t j" "local_of ?t j = TestX" "x (shared ?t) = of_nat j" for j
      using that D(6) [of j] free frame(2) [of j i Try "shared s" SetY s] by (cases "j = i") simp_all
    show "\<exists>k<n. y (shared ?t) = of_nat k \<and> claims (phase_of ?t k) (local_of ?t k)" if "held ?t"
      using that free by (simp add: held_def)
  qed (use ne noF noS in auto)
qed

text \<open>Writing \<open>y\<close> in the race.\<close>

lemma fast_set_y:
  assumes s: "fast_inv n s" and f: "few_threads n" and i: "i < n"
    and at: "phase_of s i = Try" "local_of s i = SetY"
  shows "fast_inv n (move i Try ((shared s)\<lparr>y := of_nat i\<rparr>) TestX s)"
    (is "fast_inv n (move i Try ?g TestX s)")
proof -
  note D = fast_invD [OF s]
  let ?t = "move i Try ?g TestX s"
  have r: "racing s i" using at by (simp add: racing_def)
  have R: "racing ?t j \<Longrightarrow> racing s j" for j
    using r frame(2) [of j i Try ?g TestX s] by (cases "j = i") simp_all
  have F: "by_fast ?t j \<Longrightarrow> by_fast s j" for j
    using frame(4) [of j i ?g s Try TestX] by (cases "j = i") simp_all
  have noS: "\<not> by_slow ?t j" if "j < n" for j
    using D(4) [OF that _ i] r frame(5) [of j i ?g s Try TestX] by (cases "j = i") auto
  have H: "held ?t" using tid_word [OF f i] by simp
  show ?thesis
  proof (rule fast_invI)
    show "fast_ok (phase_of ?t j) (local_of ?t j) (b (shared ?t) j)" if "j < n" for j
      using D(1) [OF that] D(1) [OF i] at by (cases "j = i") simp_all
    show "y (shared ?t) \<noteq> of_nat k" if "k < n" "checked ?t k j" for j k
      using that tid_word_inj [OF f i, of k] by (cases "k = i") auto
    show False if "j < n" "k < n" "racing ?t j" "x (shared ?t) = of_nat j" "by_fast ?t k" for j k
      using D(5) [OF that(1,2) R [OF that(3)] _ F [OF that(5)]] that(4) by simp
    show "j = k" if "j < n" "k < n" "by_fast ?t j" "by_fast ?t k" for j k
      using D(8) [OF that(1,2) F [OF that(3)] F [OF that(4)]] .
    show "\<exists>k<n. y (shared ?t) = of_nat k \<and> claims (phase_of ?t k) (local_of ?t k)"
      using i by (intro exI [of _ i]) simp
  qed (use noS H in auto)
qed

text \<open>The fast path.\<close>

lemma fast_enter_fast:
  assumes s: "fast_inv n s" and f: "few_threads n" and i: "i < n"
    and at: "phase_of s i = Try" "local_of s i = TestX" "x (shared s) = of_nat i"
  shows "fast_inv n (move i Crit (shared s) FIdle s)" (is "fast_inv n ?t")
proof -
  note D = fast_invD [OF s]
  have r: "racing s i" using at by (simp add: racing_def)
  have up: "b (shared s) i \<noteq> 0" using D(1) [OF i] at by simp
  have R: "racing ?t j \<Longrightarrow> racing s j \<and> j \<noteq> i" for j
    using frame(2) [of j i Crit "shared s" FIdle s] by (cases "j = i") simp_all
  have F: "by_fast ?t j \<Longrightarrow> by_fast s j \<or> j = i" for j
    using frame(4) [of j i "shared s" s Crit FIdle] by (cases "j = i") simp_all
  have C: "checked ?t j k \<Longrightarrow> checked s j k" for j k
    using frame(3) [of j i Crit "shared s" FIdle s k] by (cases "j = i") simp_all
  have noS: "\<not> by_slow ?t j" if "j < n" for j
    using D(4) [OF that _ i] r up frame(5) [of j i "shared s" s Crit FIdle] by (cases "j = i") auto
  have noF: "\<not> by_fast s j" if "j < n" for j using D(5) [OF i that r at(3)] by blast
  have mine: "x (shared s) = of_nat j \<Longrightarrow> j < n \<Longrightarrow> j = i" for j
    using tid_word_inj [OF f i, of j] at(3) by simp
  have H: "held s" using D(6) [OF i r at(2,3)] .
  show ?thesis
  proof (rule fast_invI)
    show "fast_ok (phase_of ?t j) (local_of ?t j) (b (shared ?t) j)" if "j < n" for j
      using D(1) [OF that] by (cases "j = i") simp_all
    show "y (shared ?t) \<noteq> of_nat k"
      if "j < n" "k < n" "j \<noteq> k" "racing ?t j \<or> by_fast ?t j" "checked ?t k j" for j k
    proof -
      have "racing s j \<or> by_fast s j" using that(4) R F r by blast
      then show ?thesis using D(2) [OF that(1-3) _ C [OF that(5)]] by simp
    qed
    show False if "j < n" "racing ?t j" "x (shared ?t) = of_nat j" for j
      using R [OF that(2)] mine [of j] that(1,3) by simp
    show "held ?t" if "j < n" "racing ?t j" "x (shared ?t) = of_nat j" for j
      using R [OF that(2)] mine [of j] that(1,3) by simp
    show "held ?t" if "by_fast ?t j" for j using H by (simp add: held_def)
    show "j = k" if "j < n" "k < n" "by_fast ?t j" "by_fast ?t k" for j k
      using F [OF that(3)] F [OF that(4)] noF [OF that(1)] noF [OF that(2)] by simp
    show "\<exists>k<n. y (shared ?t) = of_nat k \<and> claims (phase_of ?t k) (local_of ?t k)" if "held ?t"
    proof -
      obtain k where "k < n" "y (shared s) = of_nat k" "claims (phase_of s k) (local_of s k)"
        using D(9) [OF H] by blast
      then show ?thesis by (intro exI [of _ k]) simp
    qed
  qed (use noS in auto)
qed

text \<open>Passing a flag that is down: its thread is not in the race.\<close>

lemma fast_pass:
  assumes s: "fast_inv n s" and i: "i < n" and at: "phase_of s i = Try" "local_of s i = AwaitB k"
    and l: "l = TestYi \<and> n \<le> k \<or> l = AwaitB (Suc k) \<and> b (shared s) k = 0"
  shows "fast_inv n (move i Try (shared s) l s)" (is "fast_inv n ?t")
proof (rule fast_mono [OF s])
  note D = fast_invD [OF s]
  show "racing s j \<and> local_of ?t j = local_of s j \<and> (x (shared ?t) = of_nat j \<longrightarrow> x (shared s) = of_nat j)"
    if "racing ?t j" for j
    using that l frame(2) [of j i Try "shared s" l s] by (cases "j = i") auto
  show "by_fast s j" if "by_fast ?t j" for j
    using that frame(4) [of j i "shared s" s Try l] by (cases "j = i") simp_all
  show "by_slow s j" if "by_slow ?t j" for j
    using that frame(5) [of j i "shared s" s Try l] by (cases "j = i") simp_all
  show "fast_ok (phase_of ?t j) (local_of ?t j) (b (shared ?t) j)" if "j < n" for j
    using D(1) [OF that] D(1) [OF i] at l by (cases "j = i") auto
  show "checked s j m" if m: "m < n" "racing s m \<or> by_fast s m" and c: "checked ?t j m" for j m
  proof (cases "j = i")
    case True
    have up: "b (shared s) m \<noteq> 0"
      using D(1) [OF m(1)] m(2) by (auto simp: racing_def by_fast_def)
    have "m < k"
    proof (cases "l = TestYi")
      case True
      then show ?thesis using l m(1) by auto
    next
      case False
      then have "m < Suc k" "m \<noteq> k" using l c up \<open>j = i\<close> by auto
      then show ?thesis by simp
    qed
    then show ?thesis using at True by (simp add: checked_def)
  next
    case False
    then show ?thesis using c frame(3) [of j i Try "shared s" l s m] by simp
  qed
qed (use at l in auto)

text \<open>The slow path.\<close>

lemma fast_enter_slow:
  assumes s: "fast_inv n s" and f: "few_threads n" and i: "i < n"
    and at: "phase_of s i = Try" "local_of s i = TestYi" "y (shared s) = of_nat i"
  shows "fast_inv n (move i Crit (shared s) FIdle s)" (is "fast_inv n ?t")
proof -
  note D = fast_invD [OF s]
  have down: "b (shared s) i = 0" using D(1) [OF i] at by simp
  have R: "racing ?t j \<Longrightarrow> racing s j \<and> j \<noteq> i \<and> local_of ?t j = local_of s j" for j
    using frame(2) [of j i Crit "shared s" FIdle s] by (cases "j = i") simp_all
  have F: "by_fast ?t j \<Longrightarrow> by_fast s j \<and> j \<noteq> i" for j
    using down frame(4) [of j i "shared s" s Crit FIdle] by (cases "j = i") simp_all
  have S: "by_slow ?t j \<Longrightarrow> by_slow s j \<or> j = i" for j
    using frame(5) [of j i "shared s" s Crit FIdle] by (cases "j = i") simp_all
  have C: "checked ?t j k \<Longrightarrow> checked s j k" for j k
    using frame(3) [of j i Crit "shared s" FIdle s k] by (cases "j = i") simp_all
  have alone: "\<not> (racing s j \<or> by_fast s j)" if "j < n" "j \<noteq> i" for j
    using D(2) [OF that(1) i that(2)] at by (auto simp: checked_def)
  have noR: "\<not> racing ?t j" and noF: "\<not> by_fast ?t j" if "j < n" for j
    using alone [OF that] R [of j] F [of j] by blast+
  have H: "held s" using at(3) tid_word [OF f i] by (simp add: held_def)
  show ?thesis
  proof (rule fast_invI)
    show "fast_ok (phase_of ?t j) (local_of ?t j) (b (shared ?t) j)" if "j < n" for j
      using D(1) [OF that] by (cases "j = i") simp_all
    show "y (shared ?t) = of_nat j" if "j < n" "by_slow ?t j" for j
      using S [OF that(2)] D(3) [OF that(1)] at(3) by auto
    show "\<exists>k<n. y (shared ?t) = of_nat k \<and> claims (phase_of ?t k) (local_of ?t k)"
      using i at by (intro exI [of _ i]) simp
  qed (use noR noF in auto)
qed

text \<open>Releasing \<open>y\<close>.\<close>

lemma fast_release:
  assumes s: "fast_inv n s" and f: "few_threads n" and i: "i < n"
    and at: "phase_of s i = Rel" "local_of s i = ClearY"
  shows "fast_inv n (move i Rel ((shared s)\<lparr>y := -1\<rparr>) ClearB3 s)"
    (is "fast_inv n (move i Rel ?g ClearB3 s)")
proof -
  note D = fast_invD [OF s]
  let ?t = "move i Rel ?g ClearB3 s"
  have R: "racing ?t j \<Longrightarrow> racing s j \<and> j \<noteq> i \<and> local_of ?t j = local_of s j" for j
    using frame(2) [of j i Rel ?g ClearB3 s] by (cases "j = i") simp_all
  have F: "by_fast ?t j \<Longrightarrow> by_fast s j \<and> j \<noteq> i" for j
    using frame(4) [of j i ?g s Rel ClearB3] by (cases "j = i") simp_all
  have S: "by_slow ?t j \<Longrightarrow> by_slow s j \<and> j \<noteq> i" for j
    using frame(5) [of j i ?g s Rel ClearB3] by (cases "j = i") simp_all
  have mine: "by_fast s i \<or> by_slow s i" using at by (auto simp: by_fast_def by_slow_def inside_def)
  have H: "\<not> held ?t" by simp
  have noS: "\<not> by_slow ?t j" if "j < n" for j
  proof
    assume t: "by_slow ?t j"
    then have j: "by_slow s j" "j \<noteq> i" using S by blast+
    then have "by_slow s i" using mine D(4) [OF that j(1) i] by blast
    then have "(of_nat j :: cint) = of_nat i" using D(3) [OF that j(1)] D(3) [OF i] by simp
    then show False using tid_word_inj [OF f that i] j(2) by simp
  qed
  have noF: "\<not> by_fast ?t j" if "j < n" for j
    using F [of j] mine D(8) [OF i that] D(4) [OF i _ that] by blast
  have noX: "\<not> (racing ?t j \<and> x (shared s) = of_nat j \<and> by_fast s i)" if "j < n" for j
    using R [of j] D(5) [OF that i] by blast
  have noR: "by_slow s i \<Longrightarrow> \<not> racing ?t j" if "j < n" for j
    using R [of j] D(4) [OF i _ that] by blast
  show ?thesis
  proof (rule fast_invI)
    show "fast_ok (phase_of ?t j) (local_of ?t j) (b (shared ?t) j)" if "j < n" for j
      using D(1) [OF that] by (cases "j = i") simp_all
    show "y (shared ?t) \<noteq> of_nat j" if "j < n" for j using not_held [OF H f that] .
    show "held ?t" if "j < n" "racing ?t j" "x (shared ?t) = of_nat j" for j
      using noX [OF that(1)] noR [OF that(1)] that(2,3) mine by auto
  qed (use noS noF H in auto)
qed

lemma fast_lock_running:
  assumes s: "fast_inv n s" and f: "few_threads n" and i: "i < n" "phase_of s i = Try"
    and st: "Running g l \<in> set (fast_lock_step n i (shared s) (local_of s i))"
  shows "fast_inv n (move i Try g l s)"
proof -
  have ok: "fast_ok Try (local_of s i) (b (shared s) i)" using fast_invD(1) [OF s i(1)] i(2) by simp
  note at = i ok st
  consider "local_of s i = SetX" | "local_of s i = TestY" "\<not> held s" | "local_of s i = SetY"
    | k where "local_of s i = AwaitB k" "n \<le> k \<or> b (shared s) k = 0"
    | "racing (move i Try g l s) i = False" "\<And>k. checked (move i Try g l s) i k \<Longrightarrow> checked s i k"
      "x g = x (shared s)" "y g = y (shared s)" "\<And>j. j \<noteq> i \<Longrightarrow> b g j = b (shared s) j"
      "fast_ok Try l (b g i)" "y g = of_nat i \<Longrightarrow> claims Try (local_of s i) \<Longrightarrow> claims Try l"
    using at by (cases "local_of s i")
      (auto simp: fast_lock_step_def checked_def held_def split: if_splits)
  then show ?thesis
  proof cases
    case 1
    then show ?thesis using fast_set_x [OF s f i] st by (simp add: fast_lock_step_def)
  next
    case 2
    then show ?thesis
      using fast_enter_race [OF s f i] st by (auto simp: fast_lock_step_def held_def)
  next
    case 3
    then show ?thesis using fast_set_y [OF s f i] st by (simp add: fast_lock_step_def)
  next
    case (4 k)
    then show ?thesis
      using fast_pass [OF s i 4(1), of l] st by (auto simp: fast_lock_step_def split: if_splits)
  next
    case 5
    then show ?thesis using i by (intro fast_quiet [OF s i(1)]) simp_all
  qed
qed

lemma fast_inv_act:
  assumes s: "fast_inv n s" and f: "few_threads n" and act: "lock_act (fast_impl n) n s t"
  shows "fast_inv n t"
  using act
proof cases
  case (lock_runs i g l)
  then show ?thesis using fast_lock_running [OF s f, of i g l] by (simp add: fast_impl_def)
next
  case (lock_returns i g l)
  then have "local_of s i = TestX \<and> x (shared s) = of_nat i \<or> local_of s i = TestYi \<and> y (shared s) = of_nat i"
    "g = shared s" "l = FIdle"
    by (auto simp: fast_impl_def fast_lock_step_def split: fast_pc.splits if_splits)
  then show ?thesis
    using lock_returns fast_enter_fast [OF s f, of i] fast_enter_slow [OF s f, of i] by auto
next
  case (unlock_called i)
  then show ?thesis
    by (auto simp: fast_impl_def by_fast_def by_slow_def inside_def intro!: fast_quiet [OF s])
next
  case (unlock_runs i g l)
  then have "local_of s i = ClearY" "g = (shared s)\<lparr>y := -1\<rparr>" "l = ClearB3"
    by (auto simp: fast_impl_def fast_unlock_step_def split: fast_pc.splits)
  then show ?thesis using unlock_runs fast_release [OF s f, of i] by simp
next
  case (unlock_returns i g l)
  then have "local_of s i = ClearB3" "g = (shared s)\<lparr>b := (b (shared s))(i := 0)\<rparr>" "l = FIdle"
    by (auto simp: fast_impl_def fast_unlock_step_def simp del: fun_upd_apply split: fast_pc.splits)
  then show ?thesis using unlock_returns by (auto intro!: fast_quiet [OF s])
qed

lemma fast_inv_call:
  assumes s: "fast_inv n s" and i: "i < n" "phase_of s i = Out"
  shows "fast_inv n ((move i Try (shared s) (lock_call (fast_impl n) w i (local_of s i)) s)\<lparr>calls := c\<rparr>)"
proof -
  have "fast_inv n (move i Try (shared s) SetB s)"
    using fast_invD(1) [OF s i(1)] i by (intro fast_quiet [OF s i(1)]) simp_all
  then show ?thesis
    by (simp add: fast_inv_def fast_impl_def inside_def racing_def checked_def by_fast_def by_slow_def held_def)
qed

lemma fast_inv_init: "fast_inv n (lock_init \<lparr>b = (\<lambda>_. 0), x = -1, y = -1\<rparr> (\<lambda>_. FIdle))"
  by (rule fast_invI)
    (simp_all add: lock_init_def inside_def racing_def checked_def by_fast_def by_slow_def held_def)

lemma fast_mutex:
  assumes s: "fast_inv n s" and f: "few_threads n" and i: "i < n" "phase_of s i = Crit"
    and j: "j < n" "phase_of s j = Crit"
  shows "i = j"
proof -
  note D = fast_invD [OF s]
  have in_i: "by_fast s i \<or> by_slow s i" and in_j: "by_fast s j \<or> by_slow s j"
    using i j by (auto simp: by_fast_def by_slow_def inside_def)
  show ?thesis
    using in_i in_j D(8) [OF i(1) j(1)] D(4) [OF i(1) _ j(1)] D(4) [OF j(1) _ i(1)]
      D(3) [OF i(1)] D(3) [OF j(1)] tid_word_inj [OF f i(1) j(1)] by metis
qed

subsection \<open>Progress\<close>

text \<open>
  A thread that waits for \<open>y\<close> starts all over, so steps alone do not bring it nearer. The way out:
  every thread that can move does, until it waits or has left; when all that are inside wait,
  nobody holds \<open>y\<close>, and one of them runs alone through the fast path. \<open>solo\<close> says that such a run
  is on; the measure counts the threads inside, without the soloist, and then the steps
  left before waiting or leaving.
\<close>

definition waiting :: "fast_pc \<Rightarrow> bool" where
  "waiting l \<longleftrightarrow> l = AwaitY1 \<or> l = AwaitY2"

fun fast_rank :: "nat \<Rightarrow> phase \<Rightarrow> fast_pc \<Rightarrow> nat" where
  "fast_rank n Out l = 0"
| "fast_rank n Rel l = (if l = ClearY then 3 else 2)"
| "fast_rank n Crit l = 4"
| "fast_rank n Try l = (case l of SetB \<Rightarrow> n + 16 | SetX \<Rightarrow> n + 15 | TestY \<Rightarrow> n + 14 | SetY \<Rightarrow> n + 13
     | TestX \<Rightarrow> n + 12 | ClearB2 \<Rightarrow> n + 11 | AwaitB k \<Rightarrow> (n - k) + 6 | TestYi \<Rightarrow> 5 | ClearB1 \<Rightarrow> 5
     | _ \<Rightarrow> 0)"

definition solo :: "nat \<Rightarrow> fast_state \<Rightarrow> tid \<Rightarrow> bool" where
  "solo n s i \<longleftrightarrow> i < n \<and> (\<forall>j<n. j \<noteq> i \<longrightarrow> phase_of s j = Out \<or> phase_of s j = Try \<and> waiting (local_of s j)) \<and>
     (phase_of s i = Crit \<or> phase_of s i = Rel \<or> phase_of s i = Try \<and>
       (local_of s i = SetB \<or> local_of s i = SetX \<or>
        (local_of s i = TestY \<or> local_of s i = SetY \<or> local_of s i = TestX) \<and> x (shared s) = of_nat i))"

definition n_inside :: "nat \<Rightarrow> fast_state \<Rightarrow> nat" where
  "n_inside n s = (\<Sum>i<n. if phase_of s i = Out then 0 else 1)"

definition n_steps :: "nat \<Rightarrow> fast_state \<Rightarrow> nat" where
  "n_steps n s = (\<Sum>i<n. fast_rank n (phase_of s i) (local_of s i))"

definition fast_mu :: "nat \<Rightarrow> fast_state \<Rightarrow> nat" where
  "fast_mu n s = (n_inside n s - (if \<exists>i. solo n s i then 1 else 0)) * (n + 17) + n_steps n s"

lemma n_steps_move:
  assumes "i < n" "fast_rank n p l < fast_rank n (phase_of s i) (local_of s i)"
  shows "n_steps n (move i p g l s) < n_steps n s"
  unfolding n_steps_def using assms by (intro sum_update_less [of i]) auto

lemma n_inside_move:
  assumes "phase_of s i \<noteq> Out"
  shows "p \<noteq> Out \<Longrightarrow> n_inside n (move i p g l s) = n_inside n s"
    and "i < n \<Longrightarrow> n_inside n s = Suc (n_inside n (move i Out g l s))"
    and "n_inside n (move i p g l s) \<le> n_inside n s"
proof -
  show "p \<noteq> Out \<Longrightarrow> n_inside n (move i p g l s) = n_inside n s"
    unfolding n_inside_def using assms by (intro sum_update_same) auto
  show "i < n \<Longrightarrow> n_inside n s = Suc (n_inside n (move i Out g l s))"
    unfolding n_inside_def using assms by (intro sum_update_Suc [of i]) auto
  show "n_inside n (move i p g l s) \<le> n_inside n s"
    unfolding n_inside_def using assms by (intro sum_mono) auto
qed

text \<open>Steps that make the measure smaller, inside and outside a solo.\<close>

lemma fast_mu_step:
  assumes i: "i < n" "phase_of s i \<noteq> Out"
    and rank: "fast_rank n p l < fast_rank n (phase_of s i) (local_of s i)"
    and solo: "(\<exists>j. solo n s j) \<Longrightarrow> p = Out \<or> (\<exists>j. solo n (move i p g l s) j)"
  shows "fast_mu n (move i p g l s) < fast_mu n s"
proof -
  have "n_inside n (move i p g l s) - (if \<exists>j. solo n (move i p g l s) j then 1 else 0)
      \<le> n_inside n s - (if \<exists>j. solo n s j then 1 else 0)"
    using solo n_inside_move(2) [OF i(2,1), of g l] n_inside_move(3) [OF i(2), of n p g l] by auto
  then have "(n_inside n (move i p g l s) - (if \<exists>j. solo n (move i p g l s) j then 1 else 0)) * (n + 17)
      \<le> (n_inside n s - (if \<exists>j. solo n s j then 1 else 0)) * (n + 17)" by (rule mult_right_mono) simp
  then show ?thesis
    using n_steps_move [OF i(1) rank, of g] unfolding fast_mu_def by linarith
qed

definition stuck :: "nat \<Rightarrow> fast_state \<Rightarrow> tid \<Rightarrow> bool" where
  "stuck n s i \<longleftrightarrow> phase_of s i = Try \<and> (waiting (local_of s i) \<or>
     (\<exists>k<n. local_of s i = AwaitB k \<and> b (shared s) k \<noteq> 0))"

lemma fast_moves:
  assumes s: "fast_inv n s" and i: "i < n" "phase_of s i \<noteq> Out" "\<not> stuck n s i"
  shows "\<exists>p g l. lock_act (fast_impl n) n s (move i p g l s) \<and>
    fast_rank n p l < fast_rank n (phase_of s i) (local_of s i)"
proof -
  have ok: "fast_ok (phase_of s i) (local_of s i) (b (shared s) i)" by (rule fast_invD(1) [OF s i(1)])
  consider "phase_of s i = Crit" | "phase_of s i = Rel" | "phase_of s i = Try"
    using i(2) by (cases "phase_of s i") auto
  then show ?thesis
  proof cases
    case 1
    then show ?thesis using unlock_called [of i n s "fast_impl n"] i(1)
      by (intro exI conjI, assumption?) (auto simp: fast_impl_def)
  next
    case 2
    then have "(\<exists>g. Running g ClearB3 \<in> set (unlock_step (fast_impl n) i (shared s) (local_of s i)) \<and>
        local_of s i = ClearY) \<or>
      (\<exists>g l. Returned g l \<in> set (unlock_step (fast_impl n) i (shared s) (local_of s i)))"
      using ok by (auto simp: fast_impl_def fast_unlock_step_def)
    then show ?thesis
      using unlock_runs [OF i(1) 2] unlock_returns [OF i(1) 2] 2 by fastforce
  next
    case 3
    then have "(\<exists>g l. Running g l \<in> set (lock_step (fast_impl n) i (shared s) (local_of s i)) \<and>
        fast_rank n Try l < fast_rank n Try (local_of s i)) \<or>
      (\<exists>g l. Returned g l \<in> set (lock_step (fast_impl n) i (shared s) (local_of s i)) \<and>
        4 < fast_rank n Try (local_of s i))"
      using ok i(3)
      by (cases "local_of s i") (auto simp: fast_impl_def fast_lock_step_def stuck_def waiting_def)
    then show ?thesis
      using lock_runs [OF i(1) 3] lock_returns [OF i(1) 3] 3 by fastforce
  qed
qed

text \<open>The soloist moves on, and stays alone.\<close>

lemma fast_solo_free:
  assumes s: "fast_inv n s" and i: "solo n s i" "phase_of s i = Try" "local_of s i \<noteq> TestX"
  shows "\<not> held s"
proof
  assume "held s"
  then obtain k where k: "k < n" "claims (phase_of s k) (local_of s k)"
    using fast_invD(9) [OF s] by blast
  then show False using i by (cases "k = i") (auto simp: solo_def waiting_def)
qed

lemma fast_solo_step:
  assumes s: "fast_inv n s" and i: "solo n s i"
  shows "\<exists>t. lock_act (fast_impl n) n s t \<and> fast_mu n t < fast_mu n s"
proof -
  have less: "i < n" and inn: "phase_of s i \<noteq> Out" using i by (auto simp: solo_def)
  have step: ?thesis
    if "lock_act (fast_impl n) n s (move i p g l s)"
      "fast_rank n p l < fast_rank n (phase_of s i) (local_of s i)"
      "p = Out \<or> solo n (move i p g l s) i" for p g l
    using that fast_mu_step [OF less inn that(2), of g] by blast
  have ok: "fast_ok (phase_of s i) (local_of s i) (b (shared s) i)" by (rule fast_invD(1) [OF s less])
  have keep: "solo n (move i p g l s) i"
    if "p = Crit \<or> p = Rel \<or> p = Try \<and> (l = SetX \<or> (l = TestY \<or> l = SetY \<or> l = TestX) \<and> x g = of_nat i)"
    for p g l
    using i that by (auto simp: solo_def)
  consider "phase_of s i = Crit" | "phase_of s i = Rel" "local_of s i = ClearY"
    | "phase_of s i = Rel" "local_of s i = ClearB3"
    | "phase_of s i = Try" "local_of s i = SetB" | "phase_of s i = Try" "local_of s i = SetX"
    | "phase_of s i = Try" "local_of s i = TestY" "x (shared s) = of_nat i"
    | "phase_of s i = Try" "local_of s i = SetY" "x (shared s) = of_nat i"
    | "phase_of s i = Try" "local_of s i = TestX" "x (shared s) = of_nat i"
    using i ok by (auto simp: solo_def)
  then show ?thesis
  proof cases
    case 1
    show ?thesis
      by (rule step [of Rel "shared s" ClearY])
        (use 1 less unlock_called [of i n s "fast_impl n"] in \<open>auto simp: fast_impl_def intro!: keep\<close>)
  next
    case 2
    show ?thesis
      by (rule step [of Rel "(shared s)\<lparr>y := -1\<rparr>" ClearB3])
        (use 2 less in \<open>auto simp: fast_impl_def fast_unlock_step_def intro!: keep unlock_runs\<close>)
  next
    case 3
    show ?thesis
      by (rule step [of Out "(shared s)\<lparr>b := (b (shared s))(i := 0)\<rparr>" FIdle])
        (use 3 less in \<open>auto simp: fast_impl_def fast_unlock_step_def intro!: unlock_returns\<close>)
  next
    case 4
    show ?thesis
      by (rule step [of Try "(shared s)\<lparr>b := (b (shared s))(i := 1)\<rparr>" SetX])
        (use 4 less in \<open>auto simp: fast_impl_def fast_lock_step_def intro!: keep lock_runs\<close>)
  next
    case 5
    show ?thesis
      by (rule step [of Try "(shared s)\<lparr>x := of_nat i\<rparr>" TestY])
        (use 5 less in \<open>auto simp: fast_impl_def fast_lock_step_def intro!: keep lock_runs\<close>)
  next
    case 6
    then have "\<not> held s" using fast_solo_free [OF s i] by simp
    then show ?thesis
      by (intro step [of Try "shared s" SetY])
        (use 6 less in \<open>auto simp: fast_impl_def fast_lock_step_def held_def intro!: keep lock_runs\<close>)
  next
    case 7
    show ?thesis
      by (rule step [of Try "(shared s)\<lparr>y := of_nat i\<rparr>" TestX])
        (use 7 less in \<open>auto simp: fast_impl_def fast_lock_step_def intro!: keep lock_runs\<close>)
  next
    case 8
    show ?thesis
      by (rule step [of Crit "shared s" FIdle])
        (use 8 less in \<open>auto simp: fast_impl_def fast_lock_step_def intro!: keep lock_returns\<close>)
  qed
qed

text \<open>When everyone waits, one starts a solo.\<close>

lemma fast_solo_start:
  assumes s: "fast_inv n s" and i: "i < n" "phase_of s i \<noteq> Out"
    and all: "\<And>j. j < n \<Longrightarrow> phase_of s j \<noteq> Out \<Longrightarrow> phase_of s j = Try \<and> waiting (local_of s j)"
  shows "\<exists>t. lock_act (fast_impl n) n s t \<and> fast_mu n t < fast_mu n s"
proof -
  have at: "phase_of s i = Try" "local_of s i = AwaitY1 \<or> local_of s i = AwaitY2"
    using all [OF i] by (auto simp: waiting_def)
  have "\<not> held s"
  proof
    assume "held s"
    then obtain k where k: "k < n" "claims (phase_of s k) (local_of s k)"
      using fast_invD(9) [OF s] by blast
    then show False using all [of k] by (cases "phase_of s k") (auto simp: waiting_def)
  qed
  then have act: "lock_act (fast_impl n) n s (move i Try (shared s) SetB s)"
    using at i(1) by (intro lock_runs) (auto simp: fast_impl_def fast_lock_step_def held_def)
  let ?t = "move i Try (shared s) SetB s"
  have no: "\<not> solo n s j" for j
    using all [of j] by (auto simp: solo_def waiting_def)
  have yes: "solo n ?t i" using all i(1) by (auto simp: solo_def)
  have "n_steps n s = 0"
    unfolding n_steps_def
  proof (rule sum.neutral, rule ballI)
    fix j
    assume "j \<in> {..<n}"
    then show "fast_rank n (phase_of s j) (local_of s j) = 0"
      using all [of j] by (cases "phase_of s j = Out") (auto simp: waiting_def)
  qed
  moreover have "n_steps n ?t = n + 16"
  proof -
    have "n_steps n ?t = (\<Sum>j<n. if j = i then n + 16 else fast_rank n (phase_of s j) (local_of s j))"
      unfolding n_steps_def by (rule sum.cong) auto
    also have "\<dots> = (n + 16) + (\<Sum>j\<in>{..<n} - {i}. fast_rank n (phase_of s j) (local_of s j))"
      using i(1) by (subst sum.remove [of _ i]) (auto intro: sum.cong)
    also have "(\<Sum>j\<in>{..<n} - {i}. fast_rank n (phase_of s j) (local_of s j)) = 0"
      using \<open>n_steps n s = 0\<close> unfolding n_steps_def by simp
    finally show ?thesis by simp
  qed
  moreover have "n_inside n ?t = n_inside n s" by (rule n_inside_move(1) [OF i(2)]) simp
  moreover have "0 < n_inside n s" using n_inside_move(2) [OF i(2,1), of "shared s" SetB] by simp
  ultimately have "fast_mu n ?t < fast_mu n s"
    using no yes by (cases "n_inside n s") (auto simp: fast_mu_def)
  then show ?thesis using act by blast
qed

lemma fast_progress:
  assumes s: "fast_inv n s" and i: "i < n" "phase_of s i \<noteq> Out"
  shows "\<exists>t. lock_act (fast_impl n) n s t \<and> fast_mu n t < fast_mu n s"
proof (cases "\<exists>j. solo n s j")
  case True
  then show ?thesis using fast_solo_step [OF s] by blast
next
  case no: False
  show ?thesis
  proof (cases "\<exists>j<n. phase_of s j \<noteq> Out \<and> \<not> stuck n s j")
    case True
    then obtain j where j: "j < n" "phase_of s j \<noteq> Out" "\<not> stuck n s j" by blast
    show ?thesis
      using fast_moves [OF s j] fast_mu_step [OF j(1,2)] no by blast
  next
    case False
    have "phase_of s j = Try \<and> waiting (local_of s j)" if j: "j < n" "phase_of s j \<noteq> Out" for j
    proof (rule ccontr)
      assume c: "\<not> (phase_of s j = Try \<and> waiting (local_of s j))"
      have "stuck n s j" using False j by blast
      then obtain k where k: "k < n" "b (shared s) k \<noteq> 0" using c by (auto simp: stuck_def)
      have ok: "fast_ok (phase_of s k) (local_of s k) (b (shared s) k)" by (rule fast_invD(1) [OF s k(1)])
      then have "phase_of s k \<noteq> Out" "\<not> stuck n s k"
        using k(2) by (auto simp: stuck_def waiting_def)
      then show False using False k(1) by blast
    qed
    then show ?thesis by (rule fast_solo_start [OF s i])
  qed
qed

lemma fast_live:
  assumes f: "few_threads n"
  shows "live_program (fast_prog n m) (fast_inv n) (fast_mu n)"
proof unfold_locales
  show "fast_inv n (lock_init (globals0 (fast_prog n m)) (locals0 (fast_prog n m)))"
    using fast_inv_init by (simp add: fast_prog_def)
  show "fast_inv n t" if "fast_inv n s" "lock_act (impl (fast_prog n m)) (num_threads (fast_prog n m)) s t"
    for s t
    using that fast_inv_act [OF _ f] by (simp add: fast_prog_def)
  show "i = j" if "fast_inv n s" "i < num_threads (fast_prog n m)" "j < num_threads (fast_prog n m)"
    "phase_of s i = Crit" "phase_of s j = Crit" for s i j
    using that fast_mutex [OF _ f, of s i j] by (simp add: fast_prog_def)
qed (simp_all add: fast_prog_def fast_inv_call fast_progress)

interpretation fast: live_program "fast_prog NUM_THREADS m" "fast_inv NUM_THREADS" "fast_mu NUM_THREADS" for m
  by (rule fast_live) (simp add: few_threads_def NUM_THREADS_def)

subsection \<open>Properties\<close>

text \<open>Lamport's fast algorithm is correct for every number of threads whose numbers fit an
  \<open>int\<close> and any \<open>MAX_COUNT\<close>: mutual exclusion on the fast and on the slow path, every increment
  counted, and although a thread may have to start again any number of times, every reachable
  state can finish.\<close>

theorem fast_correct:
  assumes "n \<le> 2 ^ 31"
  shows "program_correct (fast_prog n m)"
  using live_program.correct [OF fast_live [of n m]] assms by (simp add: few_threads_def)

end
