(* ===== verification/Bakery_Lock.thy ===== *)
theory Bakery_Lock
  imports Harness
begin

section \<open>Lamport's bakery algorithm\<close>

text \<open>
  \<open>intro/bakery.c\<close>: a thread draws a number one greater than the greatest it sees and waits for
  every thread with a smaller one. Nothing in it is atomic, and the model keeps it so: \<open>max\<close> reads
  an element to compare it and once more to take it, and the three comparisons of the waiting
  loop read \<open>number[j]\<close> separately. The numbers are \<open>unsigned\<close>: while threads always contend
  they grow by one with every call of \<open>lock\<close>, so they stay below \<open>2 ^ 32\<close> as long as
  there are fewer calls than that. The arrays are maps from thread numbers.
\<close>

record bakery_globals =
  choosing :: "nat \<Rightarrow> u32"
  number :: "nat \<Rightarrow> u32"

datatype bakery_pc = BIdle | SetChoosing | MaxTest nat u32 | MaxRead nat u32 | SetNumber u32
  | ClearChoosing | AwaitChoosing nat | TestPositive nat | TestLess nat | TestEqual nat | ClearNumber

definition bakery_lock_step ::
  "nat \<Rightarrow> tid \<Rightarrow> bakery_globals \<Rightarrow> bakery_pc \<Rightarrow> (bakery_globals, bakery_pc) outcome list" where
  "bakery_lock_step n i g l = (case l of
       SetChoosing \<Rightarrow> [Running (g\<lparr>choosing := (choosing g)(i := 1)\<rparr>) (MaxTest 0 0)]
     | MaxTest k m \<Rightarrow>
         [Running g (if k < n then (if number g k > m then MaxRead k m else MaxTest (Suc k) m)
                     else SetNumber m)]
     | MaxRead k m \<Rightarrow> [Running g (MaxTest (Suc k) (number g k))]
     | SetNumber m \<Rightarrow> [Running (g\<lparr>number := (number g)(i := m + 1)\<rparr>) ClearChoosing]
     | ClearChoosing \<Rightarrow> [Running (g\<lparr>choosing := (choosing g)(i := 0)\<rparr>) (AwaitChoosing 0)]
     | AwaitChoosing j \<Rightarrow>
         [if j < n then Running g (if choosing g j \<noteq> 0 then AwaitChoosing j else TestPositive j)
          else Returned g BIdle]
     | TestPositive j \<Rightarrow> [Running g (if number g j > 0 then TestLess j else AwaitChoosing (Suc j))]
     | TestLess j \<Rightarrow> [Running g (if number g j < number g i then TestPositive j else TestEqual j)]
     | TestEqual j \<Rightarrow>
         [Running g (if number g j = number g i \<and> j < i then TestPositive j else AwaitChoosing (Suc j))]
     | _ \<Rightarrow> [])"

definition bakery_unlock_step ::
  "tid \<Rightarrow> bakery_globals \<Rightarrow> bakery_pc \<Rightarrow> (bakery_globals, bakery_pc) outcome list" where
  "bakery_unlock_step i g l = (case l of
       ClearNumber \<Rightarrow> [Returned (g\<lparr>number := (number g)(i := 0)\<rparr>) BIdle]
     | _ \<Rightarrow> [])"

definition bakery_impl :: "nat \<Rightarrow> (bakery_globals, bakery_pc) lock_impl" where
  "bakery_impl n = \<lparr>lock_call = (\<lambda>w i l. SetChoosing), lock_step = bakery_lock_step n,
     unlock_call = (\<lambda>i l. ClearNumber), unlock_step = bakery_unlock_step\<rparr>"

definition bakery_prog :: "nat \<Rightarrow> nat \<Rightarrow> (bakery_globals, bakery_pc) program" where
  "bakery_prog num_thr max_cnt = \<lparr>impl = bakery_impl num_thr, num_threads = num_thr,
     max_count = max_cnt, expected_count = max_cnt, cells = 1, target = one_counter,
     globals0 = \<lparr>choosing = (\<lambda>_. 0), number = (\<lambda>_. 0)\<rparr>, locals0 = (\<lambda>_. BIdle)\<rparr>"

subsection \<open>The invariant\<close>

type_synonym bakery_state = "(bakery_globals, bakery_pc) lock_state"

fun bakery_ok :: "nat \<Rightarrow> phase \<Rightarrow> bakery_pc \<Rightarrow> u32 \<Rightarrow> u32 \<Rightarrow> bool" where
  "bakery_ok n Out l c m = (c = 0 \<and> m = 0 \<and> l = BIdle)"
| "bakery_ok n Try l c m = (case l of SetChoosing \<Rightarrow> c = 0 \<and> m = 0 | MaxTest k v \<Rightarrow> c \<noteq> 0 \<and> m = 0
     | MaxRead k v \<Rightarrow> c \<noteq> 0 \<and> m = 0 \<and> k < n | SetNumber v \<Rightarrow> c \<noteq> 0 \<and> m = 0
     | ClearChoosing \<Rightarrow> c \<noteq> 0 \<and> m \<noteq> 0 | AwaitChoosing j \<Rightarrow> c = 0 \<and> m \<noteq> 0
     | TestPositive j \<Rightarrow> c = 0 \<and> m \<noteq> 0 \<and> j < n | TestLess j \<Rightarrow> c = 0 \<and> m \<noteq> 0 \<and> j < n
     | TestEqual j \<Rightarrow> c = 0 \<and> m \<noteq> 0 \<and> j < n | _ \<Rightarrow> False)"
| "bakery_ok n Crit l c m = (c = 0 \<and> m \<noteq> 0 \<and> l = BIdle)"
| "bakery_ok n Rel l c m = (c = 0 \<and> m \<noteq> 0 \<and> l = ClearNumber)"

text \<open>
  A thread has seen that \<open>j\<close> is not choosing, or is done waiting for \<open>j\<close>; a choosing thread
  covers a number when the maximum it will have found is at least that number, and stays so
  between the two reads of an element.
\<close>

fun seen :: "phase \<Rightarrow> bakery_pc \<Rightarrow> nat \<Rightarrow> bool" where
  "seen Out l j = False"
| "seen Try l j = (case l of AwaitChoosing k \<Rightarrow> j < k | TestPositive k \<Rightarrow> j \<le> k | TestLess k \<Rightarrow> j \<le> k
     | TestEqual k \<Rightarrow> j \<le> k | _ \<Rightarrow> False)"
| "seen _ l j = True"

fun waited :: "phase \<Rightarrow> bakery_pc \<Rightarrow> nat \<Rightarrow> bool" where
  "waited Out l j = False"
| "waited Try l j = (case l of AwaitChoosing k \<Rightarrow> j < k | TestPositive k \<Rightarrow> j < k | TestLess k \<Rightarrow> j < k
     | TestEqual k \<Rightarrow> j < k | _ \<Rightarrow> False)"
| "waited _ l j = True"

fun covers :: "(nat \<Rightarrow> u32) \<Rightarrow> nat \<Rightarrow> bakery_pc \<Rightarrow> bool" where
  "covers num i (MaxTest k m) = (i < k \<longrightarrow> num i \<le> m)"
| "covers num i (MaxRead k m) = (i < k \<longrightarrow> num i \<le> m \<and> m < num k)"
| "covers num i (SetNumber m) = (num i \<le> m)"
| "covers num i _ = True"

definition before :: "(nat \<Rightarrow> u32) \<Rightarrow> nat \<Rightarrow> nat \<Rightarrow> bool" where
  "before num i j \<longleftrightarrow> num i < num j \<or> num i = num j \<and> i < j"

fun draws :: "bakery_pc \<Rightarrow> bool" where
  "draws SetChoosing = True"
| "draws (MaxTest k m) = True"
| "draws (MaxRead k m) = True"
| "draws (SetNumber m) = True"
| "draws _ = False"

fun found :: "bakery_pc \<Rightarrow> u32" where
  "found (MaxTest k m) = m"
| "found (MaxRead k m) = m"
| "found (SetNumber m) = m"
| "found _ = 0"

definition drawing :: "nat \<Rightarrow> bakery_state \<Rightarrow> nat" where
  "drawing n s = (\<Sum>i<n. if draws (local_of s i) then 1 else 0)"

abbreviation num :: "bakery_state \<Rightarrow> nat \<Rightarrow> u32" where
  "num s \<equiv> number (shared s)"

definition bakery_inv :: "nat \<Rightarrow> nat \<Rightarrow> bakery_state \<Rightarrow> bool" where
  "bakery_inv n c s \<longleftrightarrow>
     (\<forall>i<n. bakery_ok n (phase_of s i) (local_of s i) (choosing (shared s) i) (num s i)) \<and>
     (\<forall>i<n. \<forall>j<n. i \<noteq> j \<longrightarrow> seen (phase_of s i) (local_of s i) j \<longrightarrow> covers (num s) i (local_of s j)) \<and>
     (\<forall>i<n. \<forall>j<n. i \<noteq> j \<longrightarrow> waited (phase_of s i) (local_of s i) j \<longrightarrow> num s j \<noteq> 0 \<longrightarrow> before (num s) i j) \<and>
     (\<forall>i<n. \<forall>j<n. local_of s i = TestEqual j \<longrightarrow> num s j \<noteq> 0 \<longrightarrow> num s i \<le> num s j) \<and>
     (\<forall>i<n. unat (num s i) + drawing n s \<le> calls s \<and> unat (found (local_of s i)) + drawing n s \<le> calls s) \<and>
     calls s \<le> c"

lemma bakery_invI:
  assumes "\<And>i. i < n \<Longrightarrow> bakery_ok n (phase_of s i) (local_of s i) (choosing (shared s) i) (num s i)"
    and "\<And>i j. i < n \<Longrightarrow> j < n \<Longrightarrow> i \<noteq> j \<Longrightarrow> seen (phase_of s i) (local_of s i) j \<Longrightarrow>
      covers (num s) i (local_of s j)"
    and "\<And>i j. i < n \<Longrightarrow> j < n \<Longrightarrow> i \<noteq> j \<Longrightarrow> waited (phase_of s i) (local_of s i) j \<Longrightarrow> num s j \<noteq> 0 \<Longrightarrow>
      before (num s) i j"
    and "\<And>i j. i < n \<Longrightarrow> j < n \<Longrightarrow> local_of s i = TestEqual j \<Longrightarrow> num s j \<noteq> 0 \<Longrightarrow> num s i \<le> num s j"
    and "\<And>i. i < n \<Longrightarrow> unat (num s i) + drawing n s \<le> calls s \<and>
      unat (found (local_of s i)) + drawing n s \<le> calls s"
    and "calls s \<le> c"
  shows "bakery_inv n c s"
  unfolding bakery_inv_def
  apply (intro conjI)
  subgoal using assms(1) by blast
  subgoal using assms(2) by blast
  subgoal using assms(3) by blast
  subgoal using assms(4) by blast
  subgoal using assms(5) by blast
  subgoal by (rule assms(6))
  done

lemma bakery_invD:
  assumes "bakery_inv n c s"
  shows "i < n \<Longrightarrow> bakery_ok n (phase_of s i) (local_of s i) (choosing (shared s) i) (num s i)"
    and "i < n \<Longrightarrow> j < n \<Longrightarrow> i \<noteq> j \<Longrightarrow> seen (phase_of s i) (local_of s i) j \<Longrightarrow>
      covers (num s) i (local_of s j)"
    and "i < n \<Longrightarrow> j < n \<Longrightarrow> i \<noteq> j \<Longrightarrow> waited (phase_of s i) (local_of s i) j \<Longrightarrow> num s j \<noteq> 0 \<Longrightarrow>
      before (num s) i j"
    and "i < n \<Longrightarrow> j < n \<Longrightarrow> local_of s i = TestEqual j \<Longrightarrow> num s j \<noteq> 0 \<Longrightarrow> num s i \<le> num s j"
    and "i < n \<Longrightarrow> unat (num s i) + drawing n s \<le> calls s"
    and "i < n \<Longrightarrow> unat (found (local_of s i)) + drawing n s \<le> calls s"
    and "calls s \<le> c"
  subgoal using assms[unfolded bakery_inv_def, THEN conjunct1] by blast
  subgoal using assms[unfolded bakery_inv_def, THEN conjunct2, THEN conjunct1] by blast
  subgoal using assms[unfolded bakery_inv_def, THEN conjunct2, THEN conjunct2, THEN conjunct1] by blast
  subgoal using assms[unfolded bakery_inv_def, THEN conjunct2, THEN conjunct2, THEN conjunct2,
        THEN conjunct1] by blast
  subgoal using assms[unfolded bakery_inv_def, THEN conjunct2, THEN conjunct2, THEN conjunct2,
        THEN conjunct2, THEN conjunct1] by blast
  subgoal using assms[unfolded bakery_inv_def, THEN conjunct2, THEN conjunct2, THEN conjunct2,
        THEN conjunct2, THEN conjunct1] by blast
  subgoal using assms[unfolded bakery_inv_def, THEN conjunct2, THEN conjunct2, THEN conjunct2,
        THEN conjunct2, THEN conjunct2] by blast
  done

lemma drawing_move:
  assumes "i < n"
  shows "draws l = draws (local_of s i) \<Longrightarrow> drawing n (move i p g l s) = drawing n s"
    and "draws l \<Longrightarrow> \<not> draws (local_of s i) \<Longrightarrow> drawing n (move i p g l s) = Suc (drawing n s)"
    and "\<not> draws l \<Longrightarrow> draws (local_of s i) \<Longrightarrow> drawing n s = Suc (drawing n (move i p g l s))"
  unfolding drawing_def using assms
  by (auto intro!: sum_update_same sum_update_Suc [of i])

text \<open>A step that leaves the numbers alone.\<close>

lemma bakery_quiet:
  assumes s: "bakery_inv n c s" and i: "i < n" and g: "number g = num s"
      "\<And>j. j \<noteq> i \<Longrightarrow> choosing g j = choosing (shared s) j"
    and ok: "bakery_ok n p l (choosing g i) (num s i)"
    and see: "\<And>j. j < n \<Longrightarrow> j \<noteq> i \<Longrightarrow> seen p l j \<Longrightarrow> covers (num s) i (local_of s j)"
    and cov: "\<And>j. j < n \<Longrightarrow> j \<noteq> i \<Longrightarrow> seen (phase_of s j) (local_of s j) i \<Longrightarrow>
      covers (num s) j (local_of s i) \<Longrightarrow> covers (num s) j l"
    and wait: "\<And>j. j < n \<Longrightarrow> j \<noteq> i \<Longrightarrow> waited p l j \<Longrightarrow> num s j \<noteq> 0 \<Longrightarrow> before (num s) i j"
    and eq: "\<And>j. j < n \<Longrightarrow> l = TestEqual j \<Longrightarrow> num s j \<noteq> 0 \<Longrightarrow> num s i \<le> num s j"
    and draw: "draws l = draws (local_of s i)"
    and max: "found l = found (local_of s i) \<or> (\<exists>j<n. found l = num s j)"
  shows "bakery_inv n c (move i p g l s)"
proof (rule bakery_invI)
  note D = bakery_invD [OF s]
  let ?t = "move i p g l s"
  show "bakery_ok n (phase_of ?t j) (local_of ?t j) (choosing (shared ?t) j) (num ?t j)" if "j < n" for j
    using D(1) [OF that] ok g by (cases "j = i") simp_all
  show "covers (num ?t) j (local_of ?t k)"
    if "j < n" "k < n" "j \<noteq> k" "seen (phase_of ?t j) (local_of ?t j) k" for j k
  proof (cases "j = i")
    case True
    then show ?thesis using see [of k] that g by simp
  next
    case False
    then have "covers (num s) j (local_of s k)" using D(2) [OF that(1-3)] that(4) by simp
    then show ?thesis using cov [of j] that False g by (cases "k = i") simp_all
  qed
  show "before (num ?t) j k"
    if "j < n" "k < n" "j \<noteq> k" "waited (phase_of ?t j) (local_of ?t j) k" "num ?t k \<noteq> 0" for j k
    using D(3) [OF that(1-3)] wait [of k] that g by (cases "j = i") simp_all
  show "num ?t j \<le> num ?t k"
    if "j < n" "k < n" "local_of ?t j = TestEqual k" "num ?t k \<noteq> 0" for j k
    using D(4) [OF that(1,2)] eq [of k] that g by (cases "j = i") simp_all
  show "unat (num ?t j) + drawing n ?t \<le> calls ?t \<and>
      unat (found (local_of ?t j)) + drawing n ?t \<le> calls ?t" if "j < n" for j
    using D(5,6) [OF that] D(5) max g drawing_move(1) [OF i draw, of p g] by (cases "j = i") auto
qed (use bakery_invD(7) [OF s] in simp)

text \<open>Taking a number: it is greater than every number that is covered, and no word overflows.\<close>

lemma bakery_set_number:
  assumes s: "bakery_inv n c s" and c: "c < 2 ^ 32" and i: "i < n"
    and at: "phase_of s i = Try" "local_of s i = SetNumber m"
  shows "bakery_inv n c (move i Try ((shared s)\<lparr>number := (num s)(i := m + 1)\<rparr>) ClearChoosing s)"
    (is "bakery_inv n c (move i Try ?g ClearChoosing s)")
proof -
  note D = bakery_invD [OF s]
  let ?t = "move i Try ?g ClearChoosing s"
  have zero: "num s i = 0" using D(1) [OF i] at by simp
  have draw: "drawing n s = Suc (drawing n ?t)" using at by (intro drawing_move(3) [OF i]) simp_all
  have small: "Suc (unat m) < 2 ^ 32" and bound: "Suc (unat m) + drawing n ?t \<le> calls s"
    using D(6) [OF i] D(7) c draw at by simp_all
  have succ: "unat (m + 1) = Suc (unat m)" using small by (simp add: unat_word_ariths)
  then have pos: "m < m + 1" and nz: "m + 1 \<noteq> 0" by (simp_all add: word_less_nat_alt unat_eq_zero [symmetric])
  have new: "num s j < m + 1" if "j < n" "j \<noteq> i" "seen (phase_of s j) (local_of s j) i" for j
    using D(2) [OF that(1) i that(2,3)] at pos by (simp add: le_less_trans)
  have waits: "waited p l k \<Longrightarrow> seen p l k" for p l k by (cases p; cases l; simp)
  show ?thesis
  proof (rule bakery_invI)
    show "bakery_ok n (phase_of ?t j) (local_of ?t j) (choosing (shared ?t) j) (num ?t j)" if "j < n" for j
      using D(1) [OF that] D(1) [OF i] at nz by (cases "j = i") simp_all
    show "covers (num ?t) j (local_of ?t k)"
      if "j < n" "k < n" "j \<noteq> k" "seen (phase_of ?t j) (local_of ?t j) k" for j k
    proof -
      have "j \<noteq> i" using that(4) by auto
      then show ?thesis
        using D(2) [OF that(1-3)] that(4) zero at by (cases "k = i"; cases "local_of s k") auto
    qed
    show "before (num ?t) j k"
      if "j < n" "k < n" "j \<noteq> k" "waited (phase_of ?t j) (local_of ?t j) k" "num ?t k \<noteq> 0" for j k
    proof -
      have "j \<noteq> i" using that(4) by auto
      then show ?thesis
        using D(3) [OF that(1-3)] new [OF that(1)] waits that(4,5)
        by (cases "k = i") (auto simp: before_def)
    qed
    show "num ?t j \<le> num ?t k"
      if "j < n" "k < n" "local_of ?t j = TestEqual k" "num ?t k \<noteq> 0" for j k
    proof (cases "k = i")
      case True
      have ji: "j \<noteq> i" using that(3) by auto
      have "bakery_ok n (phase_of s j) (TestEqual k) (choosing (shared s) j) (num s j)"
        using D(1) [OF that(1)] that(3) ji by simp
      then have "phase_of s j = Try" by (cases "phase_of s j") auto
      then have "seen (phase_of s j) (local_of s j) i" using that(3) ji True by simp
      then have "num s j < m + 1" using new [OF that(1) ji] by simp
      then show ?thesis using True ji by simp
    next
      case False
      then show ?thesis using D(4) [OF that(1,2)] that by (cases "j = i") simp_all
    qed
    show "unat (num ?t j) + drawing n ?t \<le> calls ?t \<and>
        unat (found (local_of ?t j)) + drawing n ?t \<le> calls ?t" if "j < n" for j
      using D(5,6) [OF that] draw bound succ by (cases "j = i") simp_all
  qed (use D(7) in simp)
qed

text \<open>Giving the number back.\<close>

lemma bakery_clear_number:
  assumes s: "bakery_inv n c s" and i: "i < n" and at: "phase_of s i = Rel"
  shows "bakery_inv n c (move i Out ((shared s)\<lparr>number := (num s)(i := 0)\<rparr>) BIdle s)"
    (is "bakery_inv n c (move i Out ?g BIdle s)")
proof -
  note D = bakery_invD [OF s]
  let ?t = "move i Out ?g BIdle s"
  have li: "local_of s i = ClearNumber" "num s i \<noteq> 0" using D(1) [OF i] at by simp_all
  have draw: "drawing n ?t = drawing n s" using li by (intro drawing_move(1) [OF i]) simp
  show ?thesis
  proof (rule bakery_invI)
    show "bakery_ok n (phase_of ?t j) (local_of ?t j) (choosing (shared ?t) j) (num ?t j)" if "j < n" for j
      using D(1) [OF that] D(1) [OF i] at by (cases "j = i") simp_all
    show "covers (num ?t) j (local_of ?t k)"
      if "j < n" "k < n" "j \<noteq> k" "seen (phase_of ?t j) (local_of ?t j) k" for j k
    proof -
      have ji: "j \<noteq> i" using that(4) by auto
      then have cov: "covers (num s) j (local_of s k)" using D(2) [OF that(1-3)] that(4) by simp
      have nj: "num s j \<noteq> 0" using D(1) [OF that(1)] that(4) ji
        by (cases "phase_of s j"; cases "local_of s j") simp_all
      have "num s i \<le> num s j"
        using D(3) [OF i that(1)] ji at nj by (auto simp: before_def)
      then show ?thesis
        using cov ji by (cases "k = i"; cases "local_of s k") auto
    qed
    show "before (num ?t) j k"
      if "j < n" "k < n" "j \<noteq> k" "waited (phase_of ?t j) (local_of ?t j) k" "num ?t k \<noteq> 0" for j k
    proof -
      have "j \<noteq> i" "k \<noteq> i" using that(4,5) by auto
      then show ?thesis using D(3) [OF that(1-3)] that(4,5) by (simp add: before_def)
    qed
    show "num ?t j \<le> num ?t k"
      if "j < n" "k < n" "local_of ?t j = TestEqual k" "num ?t k \<noteq> 0" for j k
      using D(4) [OF that(1,2)] that by (cases "j = i"; cases "k = i") simp_all
    show "unat (num ?t j) + drawing n ?t \<le> calls ?t \<and>
        unat (found (local_of ?t j)) + drawing n ?t \<le> calls ?t" if "j < n" for j
      using D(5,6) [OF that] D(5) [OF i] draw by (cases "j = i") simp_all
  qed (use D(7) in simp)
qed

lemma bakery_lock_running:
  assumes s: "bakery_inv n c s" and c: "c < 2 ^ 32" and i: "i < n" "phase_of s i = Try"
    and st: "Running g l \<in> set (bakery_lock_step n i (shared s) (local_of s i))"
  shows "bakery_inv n c (move i Try g l s)"
proof -
  note D = bakery_invD [OF s]
  have ok: "bakery_ok n Try (local_of s i) (choosing (shared s) i) (num s i)"
    using D(1) [OF i(1)] i(2) by simp
  have quiet: "bakery_inv n c (move i Try g l s)"
    if g: "number g = num s" "\<And>j. j \<noteq> i \<Longrightarrow> choosing g j = choosing (shared s) j"
      and ok': "bakery_ok n Try l (choosing g i) (num s i)"
      and see: "\<And>j. seen Try l j \<Longrightarrow> \<not> seen Try (local_of s i) j \<Longrightarrow> choosing (shared s) j = 0"
      and cov: "\<And>j. j < n \<Longrightarrow> j \<noteq> i \<Longrightarrow> covers (num s) j (local_of s i) \<Longrightarrow> covers (num s) j l"
      and wait: "\<And>j. j \<noteq> i \<Longrightarrow> waited Try l j \<Longrightarrow> \<not> waited Try (local_of s i) j \<Longrightarrow> num s j \<noteq> 0 \<Longrightarrow>
        before (num s) i j"
      and eq: "\<And>j. l = TestEqual j \<Longrightarrow> num s i \<le> num s j"
      and draw: "draws l = draws (local_of s i)"
      and max: "found l = found (local_of s i) \<or> (\<exists>j<n. found l = num s j)"
  proof (rule bakery_quiet [OF s i(1) g ok' _ cov _ eq draw max])
    show "covers (num s) i (local_of s j)" if j: "j < n" "j \<noteq> i" "seen Try l j" for j
    proof (cases "seen Try (local_of s i) j")
      case True
      then show ?thesis using D(2) [OF i(1) j(1)] i(2) j(2) by simp
    next
      case False
      then have "choosing (shared s) j = 0" using see j(3) by simp
      then show ?thesis
        using D(1) [OF j(1)] by (cases "phase_of s j"; cases "local_of s j") simp_all
    qed
    show "before (num s) i j" if j: "j < n" "j \<noteq> i" "waited Try l j" "num s j \<noteq> 0" for j
      using wait D(3) [OF i(1) j(1)] i(2) j(2-4) by (cases "waited Try (local_of s i) j") auto
  qed
  show ?thesis
  proof (cases "local_of s i")
    case (SetNumber m)
    then show ?thesis
      using bakery_set_number [OF s c i(1,2) SetNumber] st by (simp add: bakery_lock_step_def)
  next
    case SetChoosing
    then show ?thesis using ok st by (intro quiet) (auto simp: bakery_lock_step_def)
  next
    case (MaxTest k m)
    then show ?thesis
      using ok st by (intro quiet) (auto simp: bakery_lock_step_def less_Suc_eq split: if_splits)
  next
    case (MaxRead k m)
    then show ?thesis
      using ok st by (intro quiet) (auto simp: bakery_lock_step_def less_Suc_eq)
  next
    case ClearChoosing
    then show ?thesis using ok st by (intro quiet) (auto simp: bakery_lock_step_def)
  next
    case (AwaitChoosing j)
    then show ?thesis
      using ok st by (intro quiet) (auto simp: bakery_lock_step_def le_less split: if_splits)
  next
    case (TestPositive j)
    then show ?thesis
      using ok st by (intro quiet) (auto simp: bakery_lock_step_def less_Suc_eq_le le_less word_gt_0 split: if_splits)
  next
    case (TestLess j)
    then show ?thesis
      using ok st by (intro quiet) (auto simp: bakery_lock_step_def split: if_splits)
  next
    case (TestEqual j)
    then have "num s j \<noteq> 0 \<Longrightarrow> num s i \<le> num s j" using D(4) [OF i(1), of j] ok by simp
    then show ?thesis
      using TestEqual ok st
      by (intro quiet) (auto simp: bakery_lock_step_def before_def less_Suc_eq_le le_less split: if_splits)
  qed (use st in \<open>auto simp: bakery_lock_step_def\<close>)
qed

lemma bakery_inv_act:
  assumes s: "bakery_inv n c s" and c: "c < 2 ^ 32" and act: "lock_act (bakery_impl n) n s t"
  shows "bakery_inv n c t"
  using act
proof cases
  case (lock_runs i g l)
  then show ?thesis using bakery_lock_running [OF s c, of i g l] by (simp add: bakery_impl_def)
next
  case (lock_returns i g l)
  then obtain k where l: "local_of s i = AwaitChoosing k" "n \<le> k" "g = shared s" "l = BIdle"
    by (auto simp: bakery_impl_def bakery_lock_step_def split: bakery_pc.splits if_splits)
  note D = bakery_invD [OF s]
  have "bakery_inv n c (move i Crit (shared s) BIdle s)"
    using D(1) [OF lock_returns(2)] D(2,3) [OF lock_returns(2)] lock_returns(2,3) l
    by (intro bakery_quiet [OF s lock_returns(2)]) auto
  then show ?thesis using l lock_returns(1) by simp
next
  case (unlock_called i)
  note D = bakery_invD [OF s]
  have "local_of s i = BIdle" using D(1) [OF unlock_called(2)] unlock_called(3) by simp
  then have "bakery_inv n c (move i Rel (shared s) ClearNumber s)"
    using D(1) [OF unlock_called(2)] D(2,3) [OF unlock_called(2)] unlock_called(3)
    by (intro bakery_quiet [OF s unlock_called(2)]) auto
  then show ?thesis using unlock_called(1) by (simp add: bakery_impl_def)
next
  case (unlock_runs i g l)
  then show ?thesis by (auto simp: bakery_impl_def bakery_unlock_step_def split: bakery_pc.splits)
next
  case (unlock_returns i g l)
  then have "g = (shared s)\<lparr>number := (num s)(i := 0)\<rparr>" "l = BIdle"
    by (auto simp: bakery_impl_def bakery_unlock_step_def simp del: fun_upd_apply split: bakery_pc.splits)
  then show ?thesis using bakery_clear_number [OF s unlock_returns(2,3)] unlock_returns(1) by simp
qed

lemma bakery_inv_call:
  assumes s: "bakery_inv n c s" and i: "i < n" "phase_of s i = Out" and b: "calls s < c"
  shows "bakery_inv n c
    ((move i Try (shared s) (lock_call (bakery_impl n) w i (local_of s i)) s)\<lparr>calls := Suc (calls s)\<rparr>)"
    (is "bakery_inv n c ?t")
proof (rule bakery_invI)
  note D = bakery_invD [OF s]
  have li: "local_of s i = BIdle" using D(1) [OF i(1)] i(2) by simp
  have draw: "drawing n ?t = Suc (drawing n s)"
    using drawing_move(2) [OF i(1), of SetChoosing s Try "shared s"] li
    by (simp add: drawing_def bakery_impl_def)
  show "bakery_ok n (phase_of ?t j) (local_of ?t j) (choosing (shared ?t) j) (num ?t j)" if "j < n" for j
    using D(1) [OF that] i by (cases "j = i") (simp_all add: bakery_impl_def)
  show "covers (num ?t) j (local_of ?t k)"
    if "j < n" "k < n" "j \<noteq> k" "seen (phase_of ?t j) (local_of ?t j) k" for j k
    using D(2) [OF that(1-3)] that(4) by (cases "j = i"; cases "k = i") (simp_all add: bakery_impl_def)
  show "before (num ?t) j k"
    if "j < n" "k < n" "j \<noteq> k" "waited (phase_of ?t j) (local_of ?t j) k" "num ?t k \<noteq> 0" for j k
    using D(3) [OF that(1-3)] that(4,5) by (cases "j = i") (simp_all add: bakery_impl_def)
  show "num ?t j \<le> num ?t k"
    if "j < n" "k < n" "local_of ?t j = TestEqual k" "num ?t k \<noteq> 0" for j k
    using D(4) [OF that(1,2)] that(3,4) by (cases "j = i") (simp_all add: bakery_impl_def)
  show "unat (num ?t j) + drawing n ?t \<le> calls ?t \<and>
      unat (found (local_of ?t j)) + drawing n ?t \<le> calls ?t" if "j < n" for j
    using D(5,6) [OF that] draw by (cases "j = i") (simp_all add: bakery_impl_def)
  show "calls ?t \<le> c" using b by simp
qed

lemma bakery_inv_init:
  "bakery_inv n c (lock_init \<lparr>choosing = (\<lambda>_. 0), number = (\<lambda>_. 0)\<rparr> (\<lambda>_. BIdle))"
  by (rule bakery_invI) (simp_all add: lock_init_def drawing_def)

lemma bakery_mutex:
  assumes s: "bakery_inv n c s" and i: "i < n" "phase_of s i = Crit" and j: "j < n" "phase_of s j = Crit"
  shows "i = j"
proof (rule ccontr)
  note D = bakery_invD [OF s]
  assume ne: "i \<noteq> j"
  have "num s i \<noteq> 0" "num s j \<noteq> 0" using D(1) [OF i(1)] D(1) [OF j(1)] i(2) j(2) by simp_all
  then have "before (num s) i j" "before (num s) j i"
    using D(3) [OF i(1) j(1) ne] D(3) [OF j(1) i(1)] ne i(2) j(2) by auto
  then show False by (auto simp: before_def)
qed

subsection \<open>Progress\<close>

text \<open>
  The weight of a thread counts its steps to the exit when nobody is in its way. A number given back
  between two reads of the waiting loop costs one more round, so that read weighs more when the
  number is 0.
\<close>

fun bakery_rank :: "nat \<Rightarrow> (nat \<Rightarrow> u32) \<Rightarrow> bakery_pc \<Rightarrow> nat" where
  "bakery_rank n v SetChoosing = 8 * n + 15"
| "bakery_rank n v (MaxTest k m) = 6 * n + 14 + 2 * (n - k)"
| "bakery_rank n v (MaxRead k m) = 6 * n + 13 + 2 * (n - k)"
| "bakery_rank n v (SetNumber m) = 6 * n + 8"
| "bakery_rank n v ClearChoosing = 6 * n + 7"
| "bakery_rank n v (AwaitChoosing j) = 6 * (n - j) + 4"
| "bakery_rank n v (TestPositive j) = 6 * (n - j) + 2"
| "bakery_rank n v (TestLess j) = 6 * (n - j) + (if v j = 0 then 3 else 1)"
| "bakery_rank n v (TestEqual j) = 6 * (n - j)"
| "bakery_rank n v _ = 0"

fun bakery_weight :: "nat \<Rightarrow> (nat \<Rightarrow> u32) \<Rightarrow> phase \<Rightarrow> bakery_pc \<Rightarrow> nat" where
  "bakery_weight n v Out l = 0"
| "bakery_weight n v Rel l = 2 * n + 1"
| "bakery_weight n v Crit l = 2 * n + 2"
| "bakery_weight n v Try l = 2 * n + 3 + bakery_rank n v l"

definition bakery_mu :: "nat \<Rightarrow> bakery_state \<Rightarrow> nat" where
  "bakery_mu n s = (\<Sum>i<n. bakery_weight n (num s) (phase_of s i) (local_of s i))"

lemma bakery_mu_move:
  assumes i: "i < n" and less: "bakery_weight n (number g) p l
      < bakery_weight n (num s) (phase_of s i) (local_of s i)"
    and up: "\<And>j. num s j \<noteq> 0 \<Longrightarrow> number g j \<noteq> 0"
  shows "bakery_mu n (move i p g l s) < bakery_mu n s"
  unfolding bakery_mu_def
proof (rule sum_strict_mono_ex1)
  have other: "bakery_weight n (number g) q k \<le> bakery_weight n (num s) q k" for q k
    using up by (cases q; cases k) auto
  show "\<forall>j\<in>{..<n}. bakery_weight n (num (move i p g l s)) (phase_of (move i p g l s) j)
      (local_of (move i p g l s) j) \<le> bakery_weight n (num s) (phase_of s j) (local_of s j)"
    using less other by auto
  show "\<exists>j\<in>{..<n}. bakery_weight n (num (move i p g l s)) (phase_of (move i p g l s) j)
      (local_of (move i p g l s) j) < bakery_weight n (num s) (phase_of s j) (local_of s j)"
    using i less by (intro bexI [of _ i]) auto
qed simp

lemma bakery_mu_leave:
  assumes i: "i < n" "phase_of s i = Rel"
  shows "bakery_mu n (move i Out ((shared s)\<lparr>number := (num s)(i := 0)\<rparr>) l s) < bakery_mu n s"
proof -
  let ?f = "\<lambda>j. bakery_weight n (num s) (phase_of s j) (local_of s j)"
  let ?g = "\<lambda>j. bakery_weight n ((num s)(i := 0)) (phase_of s j) (local_of s j)"
  have other: "bakery_weight n ((num s)(i := 0)) q k \<le> bakery_weight n (num s) q k + 2" for q k
    by (cases q; cases k) auto
  have "bakery_mu n (move i Out ((shared s)\<lparr>number := (num s)(i := 0)\<rparr>) l s)
      = (\<Sum>j\<in>{..<n} - {i}. ?g j)"
    unfolding bakery_mu_def using i(1) by (subst sum.remove [of _ i]) (auto intro: sum.cong)
  also have "\<dots> \<le> (\<Sum>j\<in>{..<n} - {i}. ?f j + 2)" using other by (intro sum_mono) simp
  also have "\<dots> = (\<Sum>j\<in>{..<n} - {i}. ?f j) + 2 * (n - 1)"
    using i(1) by (simp add: sum.distrib card_Diff_singleton del: add_2_eq_Suc')
  also have "\<dots> < ?f i + (\<Sum>j\<in>{..<n} - {i}. ?f j)" using i by simp
  also have "\<dots> = bakery_mu n s" unfolding bakery_mu_def using i(1) by (subst sum.remove [of _ i]) auto
  finally show ?thesis .
qed

text \<open>A thread can move when it waits for nobody who is choosing or has a smaller number.\<close>

definition goes :: "nat \<Rightarrow> bakery_state \<Rightarrow> tid \<Rightarrow> bool" where
  "goes n s i \<longleftrightarrow> phase_of s i \<noteq> Out \<and> (phase_of s i = Try \<longrightarrow> (\<forall>j<n.
     (local_of s i = AwaitChoosing j \<longrightarrow> choosing (shared s) j = 0) \<and>
     (local_of s i = TestLess j \<or> local_of s i = TestEqual j \<longrightarrow> num s j \<noteq> 0 \<longrightarrow>
        \<not> num s j < num s i \<and> \<not> (num s j = num s i \<and> j < i))))"

lemma bakery_moves:
  assumes s: "bakery_inv n c s" and c: "c < 2 ^ 32" and i: "i < n" and goes: "goes n s i"
  shows "\<exists>t. lock_act (bakery_impl n) n s t \<and> bakery_mu n t < bakery_mu n s"
proof -
  have ok: "bakery_ok n (phase_of s i) (local_of s i) (choosing (shared s) i) (num s i)"
    by (rule bakery_invD(1) [OF s i])
  consider "phase_of s i = Try" | "phase_of s i = Crit" | "phase_of s i = Rel"
    using goes by (cases "phase_of s i") (auto simp: goes_def)
  then show ?thesis
  proof cases
    case 1
    have "(\<exists>g l. Running g l \<in> set (bakery_lock_step n i (shared s) (local_of s i)) \<and>
        bakery_rank n (number g) l < bakery_rank n (num s) (local_of s i) \<and>
        (\<forall>j. num s j \<noteq> 0 \<longrightarrow> number g j \<noteq> 0)) \<or>
      (\<exists>l. Returned (shared s) l \<in> set (bakery_lock_step n i (shared s) (local_of s i)))"
      using ok goes 1
      by (cases "local_of s i") (auto simp: bakery_lock_step_def goes_def word_gt_0)
    then show ?thesis
    proof (elim disjE exE conjE)
      fix g l
      assume st: "Running g l \<in> set (bakery_lock_step n i (shared s) (local_of s i))"
        "bakery_rank n (number g) l < bakery_rank n (num s) (local_of s i)"
        "\<forall>j. num s j \<noteq> 0 \<longrightarrow> number g j \<noteq> 0"
      have "lock_act (bakery_impl n) n s (move i Try g l s)"
        using st(1) by (intro lock_runs [OF i 1]) (simp add: bakery_impl_def)
      moreover have "bakery_mu n (move i Try g l s) < bakery_mu n s"
        using st(2,3) 1 by (intro bakery_mu_move [OF i]) simp_all
      ultimately show ?thesis by blast
    next
      fix l
      assume st: "Returned (shared s) l \<in> set (bakery_lock_step n i (shared s) (local_of s i))"
      have "lock_act (bakery_impl n) n s (move i Crit (shared s) l s)"
        using st by (intro lock_returns [OF i 1]) (simp add: bakery_impl_def)
      moreover have "bakery_mu n (move i Crit (shared s) l s) < bakery_mu n s"
        using 1 by (intro bakery_mu_move [OF i]) simp_all
      ultimately show ?thesis by blast
    qed
  next
    case 2
    have "bakery_mu n (move i Rel (shared s) (unlock_call (bakery_impl n) i (local_of s i)) s) < bakery_mu n s"
      using 2 by (intro bakery_mu_move [OF i]) simp_all
    then show ?thesis using unlock_called [OF i 2, of "bakery_impl n"] by blast
  next
    case 3
    have "lock_act (bakery_impl n) n s (move i Out ((shared s)\<lparr>number := (num s)(i := 0)\<rparr>) BIdle s)"
      using ok 3 by (intro unlock_returns [OF i 3]) (simp add: bakery_impl_def bakery_unlock_step_def)
    then show ?thesis using bakery_mu_leave [OF i 3, of BIdle] by blast
  qed
qed

text \<open>When nobody is choosing, the thread with the smallest number can move.\<close>

lemma bakery_smallest:
  assumes s: "bakery_inv n c s" and i: "i < n" "phase_of s i \<noteq> Out"
  shows "\<exists>k<n. phase_of s k \<noteq> Out \<and>
    (\<forall>j<n. num s j \<noteq> 0 \<longrightarrow> \<not> num s j < num s k \<and> \<not> (num s j = num s k \<and> j < k))"
proof -
  obtain k where k: "k < n" "phase_of s k \<noteq> Out"
    and least: "\<And>j. j < n \<Longrightarrow> phase_of s j \<noteq> Out \<Longrightarrow> unat (num s k) * n + k \<le> unat (num s j) * n + j"
    using ex_has_least_nat [of "\<lambda>k. k < n \<and> phase_of s k \<noteq> Out" i "\<lambda>k. unat (num s k) * n + k"] i
    by blast
  have "\<not> num s j < num s k \<and> \<not> (num s j = num s k \<and> j < k)" if j: "j < n" "num s j \<noteq> 0" for j
  proof -
    have "phase_of s j \<noteq> Out" using bakery_invD(1) [OF s j(1)] j(2) by auto
    then have le: "unat (num s k) * n + k \<le> unat (num s j) * n + j" using least [OF j(1)] by blast
    have "unat (num s j) * n + n \<le> unat (num s k) * n" if "num s j < num s k"
      using that mult_le_mono1 [of "Suc (unat (num s j))" "unat (num s k)" n]
      by (simp add: word_less_nat_alt)
    then show ?thesis using le j(1) by fastforce
  qed
  then show ?thesis using k by blast
qed

lemma bakery_progress:
  assumes s: "bakery_inv n c s" and c: "c < 2 ^ 32" and i: "i < n" "phase_of s i \<noteq> Out"
  shows "\<exists>t. lock_act (bakery_impl n) n s t \<and> bakery_mu n t < bakery_mu n s"
proof -
  note D = bakery_invD [OF s]
  have "\<exists>k<n. goes n s k"
  proof (cases "\<exists>k<n. choosing (shared s) k \<noteq> 0")
    case True
    then obtain k where k: "k < n" "choosing (shared s) k \<noteq> 0" by blast
    then have "goes n s k"
      using D(1) [OF k(1)] by (cases "phase_of s k"; cases "local_of s k") (simp_all add: goes_def)
    then show ?thesis using k by blast
  next
    case False
    then show ?thesis using bakery_smallest [OF s i] unfolding goes_def by blast
  qed
  then show ?thesis using bakery_moves [OF s c] by blast
qed

lemma bakery_live:
  assumes "n * (m div n) < 2 ^ 32"
  shows "live_program (bakery_prog n m) (bakery_inv n (n * (m div n))) (bakery_mu n)"
proof unfold_locales
  let ?c = "n * (m div n)"
  show "bakery_inv n ?c (lock_init (globals0 (bakery_prog n m)) (locals0 (bakery_prog n m)))"
    using bakery_inv_init by (simp add: bakery_prog_def)
  show "bakery_inv n ?c t"
    if "bakery_inv n ?c s" "lock_act (impl (bakery_prog n m)) (num_threads (bakery_prog n m)) s t" for s t
    using that bakery_inv_act [OF _ assms] by (simp add: bakery_prog_def)
  show "\<exists>t. lock_act (impl (bakery_prog n m)) (num_threads (bakery_prog n m)) s t \<and>
      bakery_mu n t < bakery_mu n s"
    if "bakery_inv n ?c s" "i < num_threads (bakery_prog n m)" "phase_of s i \<noteq> Out" for s i
    using that bakery_progress [OF _ assms] by (simp add: bakery_prog_def)
qed (simp_all add: bakery_prog_def rounds_def bakery_inv_call bakery_mutex)

interpretation bakery: live_program "bakery_prog NUM_THREADS MAX_COUNT"
    "bakery_inv NUM_THREADS (NUM_THREADS * (MAX_COUNT div NUM_THREADS))" "bakery_mu NUM_THREADS"
  by (rule bakery_live) (simp add: NUM_THREADS_def MAX_COUNT_def)

subsection \<open>Properties\<close>

text \<open>The bakery algorithm is correct, with every read of the arrays a step of its own, for every
  number of threads and every \<open>MAX_COUNT\<close> below \<open>2 ^ 32\<close>, the bound that keeps the \<open>unsigned\<close>
  numbers from wrapping: mutual exclusion, every increment counted, every reachable state can
  finish.\<close>

theorem bakery_correct:
  assumes "m < 2 ^ 32"
  shows "program_correct (bakery_prog n m)"
proof -
  have "n * (m div n) \<le> m" by simp
  then have "n * (m div n) < 2 ^ 32" using assms by (rule le_less_trans)
  then show ?thesis by (rule live_program.correct [OF bakery_live])
qed

end
