(* ===== verification/RW_Lock.thy ===== *)
theory RW_Lock
  imports Harness
begin

unbundle bit_operations_syntax

section \<open>Readers-writer locks: a count and a writer bit\<close>

text \<open>
  \<open>spinlocks/rw_lock.c\<close>: a round calls \<open>reader_lock\<close> or \<open>writer_lock\<close>, so the call of \<open>lock\<close>
  depends on whether the round writes. Only one round in ten does; the others read the counter.
  The model has one local state type for both kinds of calls; \<open>rw_excl\<close> picks the states of a
  writer. The word counts the readers inside and has a bit for a writer.
\<close>

text \<open>\<open>if (i % 10)\<close> is the reader's branch.\<close>

definition one_in_ten :: "nat \<Rightarrow> nat option" where
  "one_in_ten r = (if r mod 10 \<noteq> 0 then None else Some 0)"

lemma one_in_ten_cell [simp]: "one_in_ten r = Some c \<Longrightarrow> c < Suc 0"
  by (simp add: one_in_ten_def split: if_splits)

lemma increments_one_in_ten: "target P = one_in_ten \<Longrightarrow> increments P k = (k + 9) div 10"
proof (induction k)
  case (Suc k)
  have "(k + 10) mod 10 = k mod 10" by (rule mod_add_self2)
  then have "(Suc k + 9) div 10 = (k + 9) div 10 + (if k mod 10 \<noteq> 0 then 0 else 1)"
    using div_Suc [of "k + 9" 10] by (simp split: if_splits)
  then show ?case using Suc by (simp add: one_in_ten_def)
qed simp

subsection \<open>The lock\<close>

datatype rw_pc = RwIdle | RTest | RLoad | RCas u32 | RIn | RSub
  | WTest | WLoad | WCas u32 | WWait | WIn | WStore

definition rw_lock_step :: "tid \<Rightarrow> u32 \<Rightarrow> rw_pc \<Rightarrow> (u32, rw_pc) outcome list" where
  "rw_lock_step i g l = (case l of
       RTest \<Rightarrow> [Running g (if g AND 0x80000000 \<noteq> 0 then RTest else RLoad)]
     | RLoad \<Rightarrow> [Running g (RCas (g AND 0x7fffffff))]
     | RCas old \<Rightarrow> [if g = old then Returned (old + 1) RIn else Running g RTest]
     | WTest \<Rightarrow> [Running g (if g AND 0x80000000 \<noteq> 0 then WTest else WLoad)]
     | WLoad \<Rightarrow> [Running g (WCas (g AND 0x7fffffff))]
     | WCas old \<Rightarrow> [if g = old then Running (old OR 0x80000000) WWait else Running g WTest]
     | WWait \<Rightarrow> [if g AND 0x7fffffff \<noteq> 0 then Running g WWait else Returned g WIn]
     | _ \<Rightarrow> [])"

definition rw_unlock_step :: "tid \<Rightarrow> u32 \<Rightarrow> rw_pc \<Rightarrow> (u32, rw_pc) outcome list" where
  "rw_unlock_step i g l = (case l of
       RSub \<Rightarrow> [Returned (g + (- 1)) RwIdle]
     | WStore \<Rightarrow> [Returned 0 RwIdle]
     | _ \<Rightarrow> [])"

definition rw_lock_impl :: "(u32, rw_pc) lock_impl" where
  "rw_lock_impl = \<lparr>lock_call = (\<lambda>w i l. if w then WTest else RTest), lock_step = rw_lock_step,
     unlock_call = (\<lambda>i l. if l = WIn then WStore else RSub), unlock_step = rw_unlock_step\<rparr>"

definition rw_lock_prog :: "nat \<Rightarrow> nat \<Rightarrow> (u32, rw_pc) program" where
  "rw_lock_prog num_thr max_cnt = \<lparr>impl = rw_lock_impl, num_threads = num_thr,
     max_count = max_cnt, expected_count = max_cnt div 10, cells = 1, target = one_in_ten,
     globals0 = 0, locals0 = (\<lambda>_. RwIdle)\<rparr>"

text \<open>The masks of the word, as arithmetic.\<close>

lemma writer_bit: "(w :: u32) AND 0x80000000 = 0 \<longleftrightarrow> unat w < 2 ^ 31"
proof -
  have "w AND 2 ^ 31 = 0 \<longleftrightarrow> \<not> bit w 31" by (rule and_exp_eq_0_iff_not_bit)
  then have "w AND 0x80000000 = 0 \<longleftrightarrow> \<not> bit w 31" by simp
  also have "\<dots> \<longleftrightarrow> even (unat w div 2 ^ 31)"
    using bit_unsigned_iff [of w 31, where 'a = nat] by (auto simp: bit_iff_odd [of "unat w"])
  also have "\<dots> \<longleftrightarrow> unat w < 2 ^ 31"
  proof -
    have "unat w < 2 ^ 32" using unsigned_less [of w, where 'a = nat] by simp
    then have "unat w div 2 ^ 31 < 2" by (simp add: less_mult_imp_div_less)
    then have "unat w div 2 ^ 31 = 0 \<or> unat w div 2 ^ 31 = 1" by linarith
    then show ?thesis by (auto simp: div_eq_0_iff)
  qed
  finally show ?thesis .
qed

lemma reader_bits: "unat ((w :: u32) AND 0x7fffffff) = unat w mod 2 ^ 31"
proof -
  have "(0x7fffffff :: u32) = mask 31" by (simp add: mask_eq_exp_minus_1)
  then have "w AND 0x7fffffff = take_bit 31 w" by (simp add: take_bit_eq_mask)
  then show ?thesis by (simp only: unsigned_take_bit_eq) (simp add: take_bit_eq_mod)
qed

lemma set_writer_bit: "unat (w :: u32) < 2 ^ 31 \<Longrightarrow> unat (w OR 0x80000000) = unat w + 2 ^ 31"
proof -
  assume w: "unat w < 2 ^ 31"
  then have "w AND 0x80000000 = 0" by (simp add: writer_bit)
  then have "w OR 0x80000000 = w + 0x80000000" by (simp add: disjunctive_add_eq_or)
  then show ?thesis using w by (simp add: unat_word_ariths)
qed

type_synonym rw_state = "(u32, rw_pc) lock_state"

definition reading :: "nat \<Rightarrow> rw_state \<Rightarrow> tid set" where
  "reading n s = {i. i < n \<and> local_of s i \<in> {RIn, RSub}}"

definition claiming :: "nat \<Rightarrow> rw_state \<Rightarrow> tid set" where
  "claiming n s = {i. i < n \<and> local_of s i \<in> {WWait, WIn, WStore}}"

fun rw_ok :: "phase \<Rightarrow> rw_pc \<Rightarrow> bool" where
  "rw_ok Out l = (l = RwIdle)"
| "rw_ok Try l = (case l of RCas old \<Rightarrow> unat old < 2 ^ 31 | WCas old \<Rightarrow> unat old < 2 ^ 31
     | RTest \<Rightarrow> True | RLoad \<Rightarrow> True | WTest \<Rightarrow> True | WLoad \<Rightarrow> True | WWait \<Rightarrow> True | _ \<Rightarrow> False)"
| "rw_ok Crit l = (l = RIn \<or> l = WIn)"
| "rw_ok Rel l = (l = RSub \<or> l = WStore)"

text \<open>
  The word is the number of readers inside plus the writer bit, there is one claiming writer at
  most, and none is inside with a reader.
\<close>

definition rw_inv :: "nat \<Rightarrow> rw_state \<Rightarrow> bool" where
  "rw_inv n s \<longleftrightarrow>
     (\<forall>i<n. rw_ok (phase_of s i) (local_of s i)) \<and>
     unat (shared s) = card (reading n s) + (if claiming n s = {} then 0 else 2 ^ 31) \<and>
     (\<exists>k. claiming n s \<subseteq> {k}) \<and>
     (\<forall>i<n. local_of s i = WIn \<or> local_of s i = WStore \<longrightarrow> reading n s = {})"

lemma rw_invI:
  assumes "\<And>i. i < n \<Longrightarrow> rw_ok (phase_of s i) (local_of s i)"
    and "unat (shared s) = card (reading n s) + (if claiming n s = {} then 0 else 2 ^ 31)"
    and "\<exists>k. claiming n s \<subseteq> {k}"
    and "\<And>i. i < n \<Longrightarrow> local_of s i = WIn \<or> local_of s i = WStore \<Longrightarrow> reading n s = {}"
  shows "rw_inv n s"
  using assms unfolding rw_inv_def by blast

lemma rw_invD:
  assumes "rw_inv n s"
  shows "i < n \<Longrightarrow> rw_ok (phase_of s i) (local_of s i)"
    and "unat (shared s) = card (reading n s) + (if claiming n s = {} then 0 else 2 ^ 31)"
    and "\<exists>k. claiming n s \<subseteq> {k}"
    and "i < n \<Longrightarrow> local_of s i = WIn \<or> local_of s i = WStore \<Longrightarrow> reading n s = {}"
  using assms unfolding rw_inv_def by blast+

lemma rw_inv_calls: "rw_inv n (s\<lparr>calls := c\<rparr>) = rw_inv n s"
  by (simp add: rw_inv_def reading_def claiming_def)

lemma reading_move:
  "i < n \<Longrightarrow> l \<in> {RIn, RSub} \<Longrightarrow> reading n (move i p g l s) = insert i (reading n s)"
  "l \<notin> {RIn, RSub} \<Longrightarrow> reading n (move i p g l s) = reading n s - {i}"
  by (auto simp: reading_def)

lemma claiming_move:
  "i < n \<Longrightarrow> l \<in> {WWait, WIn, WStore} \<Longrightarrow> claiming n (move i p g l s) = insert i (claiming n s)"
  "l \<notin> {WWait, WIn, WStore} \<Longrightarrow> claiming n (move i p g l s) = claiming n s - {i}"
  by (auto simp: claiming_def)

lemma reading_mem: "i \<in> reading n s \<longleftrightarrow> i < n \<and> (local_of s i = RIn \<or> local_of s i = RSub)"
  by (auto simp: reading_def)

lemma claiming_mem:
  "i \<in> claiming n s \<longleftrightarrow> i < n \<and> (local_of s i = WWait \<or> local_of s i = WIn \<or> local_of s i = WStore)"
  by (auto simp: claiming_def)

lemma reading_finite [simp]: "finite (reading n s)"
  by (simp add: reading_def)

lemma reading_less: "i < n \<Longrightarrow> i \<notin> reading n s \<Longrightarrow> card (reading n s) < n"
proof -
  assume i: "i < n" "i \<notin> reading n s"
  then have "reading n s \<subset> {..<n}" by (auto simp: reading_def)
  then have "card (reading n s) < card {..<n}" by (rule psubset_card_mono [rotated]) simp
  then show ?thesis by simp
qed

text \<open>The word, for a state of the invariant.\<close>

lemma rw_word:
  assumes s: "rw_inv n s" and n: "n < 2 ^ 31"
  shows "shared s AND 0x80000000 = 0 \<longleftrightarrow> claiming n s = {}"
    and "shared s AND 0x7fffffff = 0 \<longleftrightarrow> reading n s = {}"
    and "claiming n s = {} \<Longrightarrow> unat (shared s AND 0x7fffffff) = card (reading n s)"
proof -
  have "card (reading n s) \<le> card {..<n}" by (rule card_mono) (auto simp: reading_def)
  then have c: "card (reading n s) < 2 ^ 31" using n by simp
  show "shared s AND 0x80000000 = 0 \<longleftrightarrow> claiming n s = {}"
    using rw_invD(2) [OF s] c by (simp add: writer_bit)
  have m: "unat (shared s AND 0x7fffffff) = card (reading n s)"
    using rw_invD(2) [OF s] c unfolding reader_bits by simp
  then show "unat (shared s AND 0x7fffffff) = card (reading n s)" .
  show "shared s AND 0x7fffffff = 0 \<longleftrightarrow> reading n s = {}"
    using m by (metis card_eq_0_iff reading_finite unat_eq_zero)
qed

text \<open>A step that keeps the word and does not enter or leave.\<close>

lemma rw_quiet:
  assumes s: "rw_inv n s" and i: "i < n" and ok: "rw_ok p l"
    and r: "l \<in> {RIn, RSub} \<longleftrightarrow> local_of s i \<in> {RIn, RSub}"
    and w: "l \<in> {WWait, WIn, WStore} \<longleftrightarrow> local_of s i \<in> {WWait, WIn, WStore}"
    and alone: "l \<in> {WIn, WStore} \<Longrightarrow> reading n s = {}"
  shows "rw_inv n (move i p (shared s) l s)"
proof -
  have "reading n (move i p (shared s) l s) = reading n s"
    using r i by (auto simp: reading_def)
  moreover have "claiming n (move i p (shared s) l s) = claiming n s"
    using w i by (auto simp: claiming_def)
  ultimately show ?thesis
    by (intro rw_invI) (use rw_invD [OF s] ok alone in \<open>auto split: if_splits\<close>)
qed

lemma rw_inv_act:
  assumes s: "rw_inv n s" and n: "n < 2 ^ 31" and act: "lock_act rw_lock_impl n s t"
  shows "rw_inv n t"
proof -
  note W = rw_word [OF s n]
  have bounds: "unat (x AND 0x7fffffff) < 2 ^ 31" for x :: u32
    unfolding reader_bits by simp
  have ok: "rw_ok (phase_of s i) (local_of s i)" if "i < n" for i using rw_invD(1) [OF s that] .
  show ?thesis
    using act
  proof cases
    case (lock_runs i g' l')
    note i = lock_runs(2)
    show ?thesis
    proof (cases "\<exists>old. local_of s i = WCas old \<and> shared s = old")
      case True
      then have at: "local_of s i = WCas (shared s)" by blast
      then have small: "unat (shared s) < 2 ^ 31" using ok [OF i] lock_runs(3) by simp
      then have none: "claiming n s = {}" using W(1) by (simp add: writer_bit)
      have g: "g' = shared s OR 0x80000000" "l' = WWait"
        using lock_runs(4) at by (simp_all add: rw_lock_impl_def rw_lock_step_def)
      have r: "reading n (move i Try g' l' s) = reading n s" "claiming n (move i Try g' l' s) = {i}"
        using at i none by (auto simp: g reading_move claiming_move reading_mem)
      have "\<not> (local_of s j = WIn \<or> local_of s j = WStore)" if "j < n" for j
        using none that by (auto simp: claiming_mem)
      then show ?thesis
        unfolding lock_runs(1)
        by (intro rw_invI) (use rw_invD(1,2) [OF s] set_writer_bit [OF small] none g in \<open>auto simp: r [unfolded g] split: if_splits\<close>)
    next
      case False
      then have "g' = shared s"
        using lock_runs(4) by (auto simp: rw_lock_impl_def rw_lock_step_def split: rw_pc.splits if_splits)
      moreover have "rw_inv n (move i Try (shared s) l' s)"
        using lock_runs(3,4) False bounds
        by (intro rw_quiet [OF s i])
          (auto simp: rw_lock_impl_def rw_lock_step_def split: rw_pc.splits if_splits)
      ultimately show ?thesis using lock_runs(1) by simp
    qed
  next
    case (lock_returns i g' l')
    note i = lock_returns(2)
    consider old where "local_of s i = RCas old" "shared s = old" "g' = old + 1" "l' = RIn"
      | "local_of s i = WWait" "shared s AND 0x7fffffff = 0" "g' = shared s" "l' = WIn"
      using lock_returns(4) by (auto simp: rw_lock_impl_def rw_lock_step_def split: rw_pc.splits if_splits)
    then show ?thesis
    proof cases
      case (1 old)
      have small: "unat (shared s) < 2 ^ 31" using ok [OF i] lock_returns(3) 1 by simp
      then have none: "claiming n s = {}" using W(1) by (simp add: writer_bit)
      have out: "i \<notin> reading n s" using 1 by (simp add: reading_mem)
      have r: "reading n (move i Crit g' l' s) = insert i (reading n s)"
          "claiming n (move i Crit g' l' s) = {}" for g'
        using 1 i none by (auto simp: reading_move claiming_move)
      have "\<not> (local_of s j = WIn \<or> local_of s j = WStore)" if "j < n" for j
        using none that by (auto simp: claiming_mem)
      moreover have "unat g' = Suc (card (reading n s))"
        using rw_invD(2) [OF s] none 1 reading_less [OF i out] n by (simp add: unat_word_ariths)
      ultimately show ?thesis
        unfolding lock_returns(1)
        by (intro rw_invI) (use rw_invD(1) [OF s] out 1 in \<open>auto simp: r [unfolded \<open>l' = _\<close>] split: if_splits\<close>)
    next
      case 2
      then have "reading n s = {}" using W(2) by simp
      then have "rw_inv n (move i Crit (shared s) l' s)"
        using 2 by (intro rw_quiet [OF s i]) auto
      then show ?thesis using 2 lock_returns(1) by simp
    qed
  next
    case (unlock_called i)
    then show ?thesis
      using ok [of i] rw_invD(4) [OF s, of i] by (auto simp: rw_lock_impl_def intro!: rw_quiet [OF s])
  next
    case (unlock_runs i g' l')
    then show ?thesis
      by (auto simp: rw_lock_impl_def rw_unlock_step_def split: rw_pc.splits)
  next
    case (unlock_returns i g' l')
    note i = unlock_returns(2)
    consider "local_of s i = RSub" "g' = shared s + (- 1)" "l' = RwIdle"
      | "local_of s i = WStore" "g' = 0" "l' = RwIdle"
      using unlock_returns(4) by (auto simp: rw_lock_impl_def rw_unlock_step_def split: rw_pc.splits)
    then show ?thesis
    proof cases
      case 1
      then have "i \<in> reading n s" using i by (simp add: reading_mem)
      then have c: "card (reading n s) = Suc (card (reading n s - {i}))" by (metis card_Suc_Diff1 reading_finite)
      have r: "reading n (move i Out g' l' s) = reading n s - {i}"
          "claiming n (move i Out g' l' s) = claiming n s" for g'
        using 1 by (auto simp: reading_move claiming_move claiming_mem)
      have word: "unat (shared s) = card (reading n s) + (if claiming n s = {} then 0 else 2 ^ 31)"
        by (rule rw_invD(2) [OF s])
      then have "shared s \<noteq> 0" using c by auto
      then have minus: "unat g' = unat (shared s) - 1" using 1 by (simp add: unat_minus_one)
      show ?thesis
        unfolding unlock_returns(1)
      proof (rule rw_invI)
        show "unat (shared (move i Out g' l' s)) = card (reading n (move i Out g' l' s)) +
            (if claiming n (move i Out g' l' s) = {} then 0 else 2 ^ 31)"
          unfolding r using minus word c by simp
        show "reading n (move i Out g' l' s) = {}"
          if "j < n" "local_of (move i Out g' l' s) j = WIn \<or> local_of (move i Out g' l' s) j = WStore" for j
          unfolding r using rw_invD(4) [OF s that(1)] that(2) 1(3) by (simp split: if_splits)
        show "\<exists>k. claiming n (move i Out g' l' s) \<subseteq> {k}"
          unfolding r by (rule rw_invD(3) [OF s])
      qed (use rw_invD(1) [OF s] 1(3) in auto)
    next
      case 2
      then have "i \<in> claiming n s" "reading n s = {}"
        using rw_invD(4) [OF s i] i by (simp_all add: claiming_mem)
      moreover from this have "claiming n s = {i}" using rw_invD(3) [OF s] by blast
      ultimately have r: "reading n (move i Out g' l' s) = {}" "claiming n (move i Out g' l' s) = {}" for g'
        using 2 by (auto simp: reading_move claiming_move)
      show ?thesis
        unfolding unlock_returns(1)
        by (intro rw_invI) (use rw_invD(1) [OF s] 2 in \<open>auto simp: r [unfolded \<open>l' = _\<close>] split: if_splits\<close>)
    qed
  qed
qed

lemma rw_inv_call:
  assumes s: "rw_inv n s" and i: "i < n" and out: "phase_of s i = Out"
  shows "rw_inv n ((move i Try (shared s) (lock_call rw_lock_impl w i (local_of s i)) s)\<lparr>calls := c\<rparr>)"
proof -
  have "local_of s i = RwIdle" using rw_invD(1) [OF s i] out by simp
  then have "rw_inv n (move i Try (shared s) (lock_call rw_lock_impl w i (local_of s i)) s)"
    by (intro rw_quiet [OF s i]) (simp_all add: rw_lock_impl_def split: if_splits)
  then show ?thesis by (simp only: rw_inv_calls)
qed

lemma rw_inv_init: "rw_inv n (lock_init 0 (\<lambda>_. RwIdle))"
  by (simp add: rw_inv_def lock_init_def reading_def claiming_def)

fun rw_excl :: "rw_pc \<Rightarrow> bool" where
  "rw_excl l = (case l of WTest \<Rightarrow> True | WLoad \<Rightarrow> True | WCas old \<Rightarrow> True | WWait \<Rightarrow> True
     | WIn \<Rightarrow> True | _ \<Rightarrow> False)"

lemma rw_inv_excl:
  assumes s: "rw_inv n s" and ij: "i < n" "j < n" "phase_of s i = Crit" "phase_of s j = Crit"
    and w: "rw_excl (local_of s i)"
  shows "i = j"
proof -
  have ok: "rw_ok Crit (local_of s i)" "rw_ok Crit (local_of s j)"
    using rw_invD(1) [OF s ij(1)] rw_invD(1) [OF s ij(2)] unfolding ij(3,4) by blast+
  then have at: "local_of s i = WIn" using w by auto
  then have "reading n s = {}" using rw_invD(4) [OF s ij(1)] by simp
  then have "j \<notin> reading n s" by simp
  then have "local_of s j = WIn" using ok(2) ij(2) by (auto simp: reading_mem)
  with at have "i \<in> claiming n s" "j \<in> claiming n s" using ij by (auto simp: claiming_mem)
  then show ?thesis using rw_invD(3) [OF s] by blast
qed

text \<open>A stale compare-and-swap weighs more than starting over.\<close>

fun rw_rank :: "rw_pc \<Rightarrow> nat" where
  "rw_rank WWait = 0"
| "rw_rank RTest = 4"
| "rw_rank RLoad = 3"
| "rw_rank (RCas old) = (if old = 0 then 2 else 5)"
| "rw_rank WTest = 4"
| "rw_rank WLoad = 3"
| "rw_rank (WCas old) = (if old = 0 then 2 else 5)"
| "rw_rank _ = 0"

lemma rw_progress:
  assumes s: "rw_inv n s" and n: "n < 2 ^ 31" and i: "i < n" "phase_of s i \<noteq> Out"
  shows "\<exists>t. lock_act rw_lock_impl n s t \<and> drain_weight 1 rw_rank n t < drain_weight 1 rw_rank n s"
proof -
  note W = rw_word [OF s n]
  have ok: "rw_ok (phase_of s k) (local_of s k)" if "k < n" for k using rw_invD(1) [OF s that] .
  show ?thesis
  proof (cases rule: owner_cases [of n s])
    case (1 k)
    then show ?thesis by (intro drain_steps(3) [of k]) (auto simp: rw_lock_impl_def)
  next
    case (2 k)
    then have "\<exists>g. Returned g RwIdle \<in> set (unlock_step rw_lock_impl k (shared s) (local_of s k))"
      using ok [of k] by (auto simp: rw_lock_impl_def rw_unlock_step_def)
    then show ?thesis using drain_steps(5) [OF 2(1,2)] by blast
  next
    case 3
    have none: "reading n s = {}"
    proof -
      have "k \<notin> reading n s" for k using 3 [of k] ok [of k] by (auto simp: reading_mem)
      then show ?thesis by blast
    qed
    show ?thesis
    proof (cases "claiming n s = {}")
      case False
      then obtain k where "k \<in> claiming n s" by blast
      then have k: "k < n" "phase_of s k = Try" "local_of s k = WWait"
        using 3 [of k] ok [of k] by (auto simp: claiming_mem)
      have "Returned (shared s) WIn \<in> set (lock_step rw_lock_impl k (shared s) (local_of s k))"
        using W(2) none k by (simp add: rw_lock_impl_def rw_lock_step_def)
      then show ?thesis by (rule drain_steps(2) [OF k(1,2)])
    next
      case True
      then have zero: "shared s = 0" using rw_invD(2) [OF s] none by (simp add: unat_eq_zero)
      have try': "phase_of s i = Try" using 3 [OF i(1)] i(2) by simp
      have notw: "local_of s i \<noteq> WWait" using True i by (auto simp: claiming_mem)
      have "(\<exists>g l. Returned g l \<in> set (lock_step rw_lock_impl i (shared s) (local_of s i))) \<or>
          (\<exists>g l. Running g l \<in> set (lock_step rw_lock_impl i (shared s) (local_of s i)) \<and>
             rw_rank l < rw_rank (local_of s i))"
        using ok [OF i(1)] try' notw
        by (auto simp: rw_lock_impl_def rw_lock_step_def zero split: rw_pc.splits)
      then show ?thesis using drain_steps(1,2) [OF i(1) try'] by blast
    qed
  qed
qed

lemma rw_lock_live:
  assumes "n < 2 ^ 31"
  shows "live_rw_program (rw_lock_prog n m) (rw_inv n) rw_excl (drain_weight 1 rw_rank n)"
proof unfold_locales
  show "rw_inv n (lock_init (globals0 (rw_lock_prog n m)) (locals0 (rw_lock_prog n m)))"
    using rw_inv_init by (simp add: rw_lock_prog_def)
  show "rw_inv n t"
    if "rw_inv n s" "lock_act (impl (rw_lock_prog n m)) (num_threads (rw_lock_prog n m)) s t" for s t
    using that rw_inv_act [OF _ assms] by (simp add: rw_lock_prog_def)
  show "\<exists>t. lock_act (impl (rw_lock_prog n m)) (num_threads (rw_lock_prog n m)) s t \<and>
      drain_weight 1 rw_rank n t < drain_weight 1 rw_rank n s"
    if "rw_inv n s" "i < num_threads (rw_lock_prog n m)" "phase_of s i \<noteq> Out" for s i
    using that rw_progress [OF _ assms] by (simp add: rw_lock_prog_def)
  show "i = j"
    if "rw_inv n s" "i < num_threads (rw_lock_prog n m)" "j < num_threads (rw_lock_prog n m)"
      "phase_of s i = Crit" "phase_of s j = Crit" "rw_excl (local_of s i)" for s i j
    using that rw_inv_excl by (simp add: rw_lock_prog_def)
qed (use rw_inv_call in \<open>auto simp: rw_lock_prog_def rw_lock_step_def one_in_ten_def rw_lock_impl_def
  split: rw_pc.splits if_splits\<close>)

interpretation rw_lock: live_rw_program "rw_lock_prog NUM_THREADS m" "rw_inv NUM_THREADS" rw_excl
    "drain_weight 1 rw_rank NUM_THREADS" for m
  by (rule rw_lock_live) (simp add: NUM_THREADS_def)

subsection \<open>Properties\<close>

text \<open>Each thread does a round that writes, then both take their reader locks.\<close>

definition two_readers :: "(tid option \<times> nat) list" where
  "two_readers = map (\<lambda>w. (w, 0)) [None, None,
     Some 0, Some 0, Some 0, Some 0, Some 0, Some 0, Some 0, Some 0,
     Some 1, Some 1, Some 1, Some 1, Some 1, Some 1, Some 1, Some 1,
     Some 0, Some 0, Some 0, Some 0, Some 1, Some 1, Some 1, Some 1]"

text \<open>Readers do share \<open>rw_lock.c\<close>: with two threads there is a run to a state in which both are
  between \<open>reader_lock\<close> and \<open>reader_unlock\<close>.\<close>

lemma rw_lock_readers_share:
  "\<exists>s. prog_reach (rw_lock_prog 2 4) s \<and> critical s 0 \<and> critical s 1 \<and>
    \<not> writing (rw_lock_prog 2 4) s 0 \<and> \<not> writing (rw_lock_prog 2 4) s 1"
proof -
  let ?P = "rw_lock_prog 2 4"
  have "\<exists>s. run_schedule ?P two_readers (prog_init ?P) = Some s \<and> critical s 0 \<and> critical s 1 \<and>
      \<not> writing ?P s 0 \<and> \<not> writing ?P s 1"
    by (simp add: two_readers_def rw_lock_prog_def prog_init_def main_step_def count_step_def
        rw_lock_impl_def rw_lock_step_def rw_unlock_step_def one_in_ten_def critical_def writing_def
        rounds_def Let_def)
  then show ?thesis using run_schedule_reaches by blast
qed

text \<open>The readers-writer lock on one word is correct for every number of threads below
  \<open>2 ^ 31\<close>, the room the reader count has below the writer bit: a thread inside \<open>writer_lock\<close>
  and \<open>writer_unlock\<close> is alone, every increment is counted, and every reachable state can finish.
  Readers do share it: two of them can be between \<open>reader_lock\<close> and \<open>reader_unlock\<close>.\<close>

theorem rw_lock_correct:
  assumes "n < 2 ^ 31"
  shows "rw_correct (rw_lock_prog n m) \<and>
    (\<exists>s. prog_reach (rw_lock_prog 2 4) s \<and> critical s 0 \<and> critical s 1 \<and>
      \<not> writing (rw_lock_prog 2 4) s 0 \<and> \<not> writing (rw_lock_prog 2 4) s 1)"
  using live_rw_program.rw_correct [OF rw_lock_live [OF assms]] rw_lock_readers_share by blast

end
