(* ===== verification/Ticket_RW_Lock.thy ===== *)
theory Ticket_RW_Lock
  imports Queue_Ticket RW_Lock
begin

section \<open>Readers-writer locks: one ticket, two turns\<close>

text \<open>
  \<open>spinlocks/ticket_rw_lock.c\<close>: readers and writers draw from one \<open>number\<close>. A reader enters at its \<open>reader_turn\<close>, which it
  then advances, without an atomic instruction, to let the next reader in; a writer enters at its
  \<open>writer_turn\<close>. A reader that leaves advances the \<open>writer_turn\<close>, a writer both, in one store of
  the union \<open>combined\<close>. The queue of the ticket locks is that of \<open>reader_turn\<close>: a reader leaves
  it as it enters the critical section, and \<open>reader_turn - writer_turn\<close> counts the readers inside.
\<close>

record ticket_rw =
  number :: u16
  writer_turn :: u16
  reader_turn :: u16

datatype trw_pc = TrIdle | RTake | RSpin | RGetTurn | RSetTurn u16 | RInside | RAdd
  | WTake | WSpin | WInside | WGetW | WGetR u16 | WSetBoth u16 u16

record trw_local =
  trpc :: trw_pc
  my_number :: u16

definition trw_lock_step :: "tid \<Rightarrow> ticket_rw \<Rightarrow> trw_local \<Rightarrow> (ticket_rw, trw_local) outcome list" where
  "trw_lock_step i g l = (case trpc l of
       RTake \<Rightarrow> [Running (g\<lparr>number := number g + 1\<rparr>) (l\<lparr>trpc := RSpin, my_number := number g\<rparr>)]
     | RSpin \<Rightarrow> [Running g (if my_number l \<noteq> reader_turn g then l else l\<lparr>trpc := RGetTurn\<rparr>)]
     | RGetTurn \<Rightarrow> [Running g (l\<lparr>trpc := RSetTurn (reader_turn g)\<rparr>)]
     | RSetTurn v \<Rightarrow> [Returned (g\<lparr>reader_turn := v + 1\<rparr>) (l\<lparr>trpc := RInside\<rparr>)]
     | WTake \<Rightarrow> [Running (g\<lparr>number := number g + 1\<rparr>) (l\<lparr>trpc := WSpin, my_number := number g\<rparr>)]
     | WSpin \<Rightarrow> [if my_number l \<noteq> writer_turn g then Running g l else Returned g (l\<lparr>trpc := WInside\<rparr>)]
     | _ \<Rightarrow> [])"

definition trw_unlock_step :: "tid \<Rightarrow> ticket_rw \<Rightarrow> trw_local \<Rightarrow> (ticket_rw, trw_local) outcome list" where
  "trw_unlock_step i g l = (case trpc l of
       RAdd \<Rightarrow> [Returned (g\<lparr>writer_turn := writer_turn g + 1\<rparr>) (l\<lparr>trpc := TrIdle\<rparr>)]
     | WGetW \<Rightarrow> [Running g (l\<lparr>trpc := WGetR (writer_turn g + 1)\<rparr>)]
     | WGetR w \<Rightarrow> [Running g (l\<lparr>trpc := WSetBoth w (reader_turn g + 1)\<rparr>)]
     | WSetBoth w r \<Rightarrow> [Returned (g\<lparr>writer_turn := w, reader_turn := r\<rparr>) (l\<lparr>trpc := TrIdle\<rparr>)]
     | _ \<Rightarrow> [])"

definition trw_impl :: "(ticket_rw, trw_local) lock_impl" where
  "trw_impl = \<lparr>lock_call = (\<lambda>w i l. l\<lparr>trpc := if w then WTake else RTake\<rparr>),
     lock_step = trw_lock_step,
     unlock_call = (\<lambda>i l. l\<lparr>trpc := if trpc l = WInside then WGetW else RAdd\<rparr>),
     unlock_step = trw_unlock_step\<rparr>"

definition ticket_rw_prog :: "nat \<Rightarrow> nat \<Rightarrow> (ticket_rw, trw_local) program" where
  "ticket_rw_prog num_thr max_cnt = \<lparr>impl = trw_impl, num_threads = num_thr,
     max_count = max_cnt, expected_count = max_cnt div 10, cells = 1, target = one_in_ten,
     globals0 = \<lparr>number = 0, writer_turn = 0, reader_turn = 0\<rparr>,
     locals0 = (\<lambda>_. \<lparr>trpc = TrIdle, my_number = 0\<rparr>)\<rparr>"

type_synonym trw_state = "(ticket_rw, trw_local) lock_state"

fun trw_mark :: "trw_pc \<Rightarrow> stage" where
  "trw_mark RSpin = Queued"
| "trw_mark WSpin = Queued"
| "trw_mark RGetTurn = Granted"
| "trw_mark (RSetTurn v) = Granted"
| "trw_mark WInside = Granted"
| "trw_mark WGetW = Granted"
| "trw_mark (WGetR w) = Granted"
| "trw_mark (WSetBoth w r) = Granted"
| "trw_mark _ = NoTicket"

definition trw_stage :: "phase \<Rightarrow> trw_local \<Rightarrow> stage" where
  [simp]: "trw_stage p l = trw_mark (trpc l)"

fun trw_ok :: "phase \<Rightarrow> trw_pc \<Rightarrow> bool" where
  "trw_ok Out l = (l = TrIdle)"
| "trw_ok Try l = (case l of RTake \<Rightarrow> True | RSpin \<Rightarrow> True | RGetTurn \<Rightarrow> True | RSetTurn v \<Rightarrow> True
     | WTake \<Rightarrow> True | WSpin \<Rightarrow> True | _ \<Rightarrow> False)"
| "trw_ok Crit l = (l = RInside \<or> l = WInside)"
| "trw_ok Rel l = (case l of RAdd \<Rightarrow> True | WGetW \<Rightarrow> True | WGetR w \<Rightarrow> True | WSetBoth w r \<Rightarrow> True | _ \<Rightarrow> False)"

text \<open>The registers hold what they read: nobody else moves the turns meanwhile.\<close>

fun trw_reg :: "ticket_rw \<Rightarrow> trw_pc \<Rightarrow> bool" where
  "trw_reg g (RSetTurn v) = (v = reader_turn g)"
| "trw_reg g (WGetR w) = (w = writer_turn g + 1)"
| "trw_reg g (WSetBoth w r) = (w = writer_turn g + 1 \<and> r = reader_turn g + 1)"
| "trw_reg g _ = True"

definition trw_inside :: "nat \<Rightarrow> trw_state \<Rightarrow> tid set" where
  "trw_inside n s = {i. i < n \<and> trpc (local_of s i) \<in> {RInside, RAdd}}"

fun trw_writer :: "trw_pc \<Rightarrow> bool" where
  "trw_writer WInside = True"
| "trw_writer WGetW = True"
| "trw_writer (WGetR w) = True"
| "trw_writer (WSetBoth w r) = True"
| "trw_writer _ = False"

abbreviation trw_queue :: "nat \<Rightarrow> tid list \<Rightarrow> trw_state \<Rightarrow> bool" where
  "trw_queue \<equiv> ticket_queue number reader_turn my_number trw_stage"

definition trw_line :: "nat \<Rightarrow> tid list \<Rightarrow> trw_state \<Rightarrow> bool" where
  "trw_line n q s \<longleftrightarrow> trw_queue n q s \<and>
     (\<forall>i<n. trw_ok (phase_of s i) (trpc (local_of s i)) \<and> trw_reg (shared s) (trpc (local_of s i)) \<and>
        (trw_writer (trpc (local_of s i)) \<longrightarrow> trw_inside n s = {})) \<and>
     reader_turn (shared s) = writer_turn (shared s) + of_nat (card (trw_inside n s))"

lemma trw_inside_move:
  "i < n \<Longrightarrow> trpc l \<in> {RInside, RAdd} \<Longrightarrow> trw_inside n (move i p g l s) = insert i (trw_inside n s)"
  "trpc l \<notin> {RInside, RAdd} \<Longrightarrow> trw_inside n (move i p g l s) = trw_inside n s - {i}"
  by (auto simp: trw_inside_def)

lemma trw_inside_mem:
  "i \<in> trw_inside n s \<longleftrightarrow> i < n \<and> (trpc (local_of s i) = RInside \<or> trpc (local_of s i) = RAdd)"
  by (auto simp: trw_inside_def)

lemma trw_inside_finite [simp]: "finite (trw_inside n s)"
  by (simp add: trw_inside_def)

lemma trw_line_calls: "trw_line n q (s\<lparr>calls := c\<rparr>) = trw_line n q s"
  by (simp add: trw_line_def trw_inside_def)

lemma trw_lineI:
  assumes "trw_queue n q s"
    and "\<And>i. i < n \<Longrightarrow> trw_ok (phase_of s i) (trpc (local_of s i))"
    and "\<And>i. i < n \<Longrightarrow> trw_reg (shared s) (trpc (local_of s i))"
    and "\<And>i. i < n \<Longrightarrow> trw_writer (trpc (local_of s i)) \<Longrightarrow> trw_inside n s = {}"
    and "reader_turn (shared s) = writer_turn (shared s) + of_nat (card (trw_inside n s))"
  shows "trw_line n q s"
  using assms unfolding trw_line_def by blast

lemma trw_lineD:
  assumes "trw_line n q s"
  shows "trw_queue n q s"
    and "i < n \<Longrightarrow> trw_ok (phase_of s i) (trpc (local_of s i))"
    and "i < n \<Longrightarrow> trw_reg (shared s) (trpc (local_of s i))"
    and "i < n \<Longrightarrow> trw_writer (trpc (local_of s i)) \<Longrightarrow> trw_inside n s = {}"
    and "reader_turn (shared s) = writer_turn (shared s) + of_nat (card (trw_inside n s))"
  using assms unfolding trw_line_def by blast+

text \<open>Only the head of the queue is granted.\<close>

lemma trw_granted_unique:
  assumes "trw_queue n q s" "i < n" "j < n"
    and "trw_mark (trpc (local_of s i)) = Granted" "trw_mark (trpc (local_of s j)) = Granted"
  shows "i = j"
proof -
  have "hd q = k" if "k < n" "trw_mark (trpc (local_of s k)) = Granted" for k
    using assms(1) that by (simp add: ticket_queue_def stage_of_def)
  then show ?thesis using assms(2-5) by metis
qed

text \<open>A step that leaves both turns and the readers inside alone.\<close>

lemma trw_same:
  assumes s: "trw_line n q s" and q: "trw_queue n q' (move i p g l s)" and i: "i < n"
    and turns: "reader_turn g = reader_turn (shared s)" "writer_turn g = writer_turn (shared s)"
    and ok: "trw_ok p (trpc l)" "trw_reg g (trpc l)"
    and ins: "trpc l \<in> {RInside, RAdd} \<longleftrightarrow> trpc (local_of s i) \<in> {RInside, RAdd}"
    and alone: "trw_writer (trpc l) \<Longrightarrow> trw_inside n s = {}"
  shows "trw_line n q' (move i p g l s)"
proof -
  have same: "trw_inside n (move i p g l s) = trw_inside n s"
    using ins i by (auto simp: trw_inside_def)
  have "trw_reg g x = trw_reg (shared s) x" for x using turns by (cases x) simp_all
  then show ?thesis
    using q ok alone trw_lineD(2-5) [OF s] turns
    by (intro trw_lineI) (auto simp: same split: if_splits)
qed

text \<open>A writer's turn is a reader's turn with no reader inside.\<close>

lemma trw_turn:
  assumes s: "trw_line n q s" and n: "n < 2 ^ 16" and i: "i < n"
    and at: "trpc (local_of s i) = WSpin" and turn: "my_number (local_of s i) = writer_turn (shared s)"
  shows "trw_inside n s = {}" and "my_number (local_of s i) = reader_turn (shared s)"
proof -
  have q: "distinct q" "set q = {j. j < n \<and> stage_of trw_stage s j \<noteq> NoTicket}"
    "\<And>k. k < length q \<Longrightarrow> my_number (local_of s (q ! k)) = reader_turn (shared s) + of_nat k"
    using trw_lineD(1) [OF s] by (simp_all add: ticket_queue_def)
  have "i \<in> set q" using q(2) i at by (simp add: stage_of_def)
  then obtain k where k: "k < length q" "q ! k = i" by (auto simp: in_set_conv_nth)
  have "trw_inside n s \<inter> set q = {}" by (auto simp: trw_inside_mem q(2) stage_of_def)
  then have "card (trw_inside n s) + length q = card (trw_inside n s \<union> set q)"
    by (simp add: card_Un_disjoint distinct_card [OF q(1)])
  also have "\<dots> \<le> card {..<n}" by (rule card_mono) (auto simp: trw_inside_mem q(2))
  finally have small: "card (trw_inside n s) + k < 2 ^ 16" using k(1) n by simp
  have "(of_nat (card (trw_inside n s) + k) :: u16) = 0"
    using q(3) [OF k(1)] turn trw_lineD(5) [OF s] k(2) by (simp add: algebra_simps)
  then have zero: "card (trw_inside n s) + k = 0" using small by (intro of_nat_word_eq_0) simp_all
  then show "trw_inside n s = {}" by simp
  show "my_number (local_of s i) = reader_turn (shared s)" using q(3) [OF k(1)] k zero by simp
qed

text \<open>The two steps that move a turn.\<close>

lemma trw_enter:
  assumes s: "trw_line n q s" and i: "i < n" and at: "trpc (local_of s i) = RSetTurn v"
  shows "\<exists>q'. trw_line n q' (move i Crit ((shared s)\<lparr>reader_turn := v + 1\<rparr>) ((local_of s i)\<lparr>trpc := RInside\<rparr>) s)"
    (is "\<exists>q'. trw_line n q' (move i Crit ?g ?l s)")
proof -
  note D = trw_lineD [OF s]
  have v: "v = reader_turn (shared s)" using D(3) [OF i] at by simp
  obtain q' where q': "trw_queue n q' (move i Crit ?g ?l s)"
    using queue_serves [OF D(1) i, of Crit ?g ?l] at v
    by (auto simp: serves_def)
  have only: "trw_mark (trpc (local_of s j)) \<noteq> Granted" if "j < n" "j \<noteq> i" for j
    using trw_granted_unique [OF D(1) that(1) i] that(2) at by auto
  have ins: "trw_inside n (move i Crit ?g ?l s) = insert i (trw_inside n s)" "i \<notin> trw_inside n s"
    using i at by (auto simp: trw_inside_move trw_inside_mem)
  have "trw_line n q' (move i Crit ?g ?l s)"
  proof (rule trw_lineI [OF q'])
    show "trw_reg (shared (move i Crit ?g ?l s)) (trpc (local_of (move i Crit ?g ?l s) j))" if "j < n" for j
      using D(3) [OF that] only [OF that] by (cases "trpc (local_of s j)") auto
    show "trw_inside n (move i Crit ?g ?l s) = {}"
      if "j < n" "trw_writer (trpc (local_of (move i Crit ?g ?l s) j))" for j
      using only [OF that(1)] that(2) by (cases "trpc (local_of s j)") (auto split: if_splits)
  qed (use D(2,5) ins v in auto)
  then show ?thesis by blast
qed

lemma trw_reader_leaves:
  assumes s: "trw_line n q s" and i: "i < n" and at: "trpc (local_of s i) = RAdd" and n: "n < 2 ^ 16"
  shows "trw_line n q (move i Out ((shared s)\<lparr>writer_turn := writer_turn (shared s) + 1\<rparr>)
    ((local_of s i)\<lparr>trpc := TrIdle\<rparr>) s)" (is "trw_line n q (move i Out ?g ?l s)")
proof -
  note D = trw_lineD [OF s]
  have ins: "i \<in> trw_inside n s" using i at by (simp add: trw_inside_mem)
  then have card: "card (trw_inside n s) = Suc (card (trw_inside n s - {i}))"
    by (metis card_Suc_Diff1 trw_inside_finite)
  have none: "\<not> trw_writer (trpc (local_of s j))" if "j < n" for j using D(4) [OF that] ins by blast
  show ?thesis
  proof (rule trw_lineI)
    show "trw_queue n q (move i Out ?g ?l s)"
      using at n by (intro queue_quiet [OF D(1) i]) (simp_all add: quiet_def)
    show "trw_reg (shared (move i Out ?g ?l s)) (trpc (local_of (move i Out ?g ?l s) j))" if "j < n" for j
      using D(3) [OF that] none [OF that] by (cases "trpc (local_of s j)") auto
    show "trw_inside n (move i Out ?g ?l s) = {}"
      if "j < n" "trw_writer (trpc (local_of (move i Out ?g ?l s) j))" for j
      using none [OF that(1)] that(2) by (auto split: if_splits)
    show "reader_turn (shared (move i Out ?g ?l s)) =
        writer_turn (shared (move i Out ?g ?l s)) + of_nat (card (trw_inside n (move i Out ?g ?l s)))"
      using D(5) card by (simp add: trw_inside_move)
  qed (use D(2) in auto)
qed

lemma trw_writer_leaves:
  assumes s: "trw_line n q s" and i: "i < n" and at: "trpc (local_of s i) = WSetBoth w r"
  shows "\<exists>q'. trw_line n q' (move i Out ((shared s)\<lparr>writer_turn := w, reader_turn := r\<rparr>)
    ((local_of s i)\<lparr>trpc := TrIdle\<rparr>) s)" (is "\<exists>q'. trw_line n q' (move i Out ?g ?l s)")
proof -
  note D = trw_lineD [OF s]
  have v: "w = writer_turn (shared s) + 1" "r = reader_turn (shared s) + 1" using D(3) [OF i] at by simp_all
  have empty: "trw_inside n s = {}" using D(4) [OF i] at by simp
  obtain q' where q': "trw_queue n q' (move i Out ?g ?l s)"
    using queue_serves [OF D(1) i, of Out ?g ?l] at v by (auto simp: serves_def)
  have only: "trw_mark (trpc (local_of s j)) \<noteq> Granted" if "j < n" "j \<noteq> i" for j
    using trw_granted_unique [OF D(1) that(1) i] that(2) at by auto
  have ins: "trw_inside n (move i Out ?g ?l s) = {}" using empty by (simp add: trw_inside_move)
  have "trw_line n q' (move i Out ?g ?l s)"
  proof (rule trw_lineI [OF q'])
    show "trw_reg (shared (move i Out ?g ?l s)) (trpc (local_of (move i Out ?g ?l s) j))" if "j < n" for j
      using D(3) [OF that] only [OF that] by (cases "trpc (local_of s j)") auto
  qed (use D(2,5) ins v empty in auto)
  then show ?thesis by blast
qed

lemma trw_line_act:
  assumes s: "trw_line n q s" and n: "n < 2 ^ 16" and act: "lock_act trw_impl n s t"
  shows "\<exists>q'. trw_line n q' t"
  using act
proof cases
  case (lock_runs i g' l')
  note i = lock_runs(2) and D = trw_lineD [OF s]
  have ok: "trw_ok Try (trpc (local_of s i))" using D(2) [OF i] lock_runs(3) by simp
  show ?thesis
  proof (cases "trpc (local_of s i) = RTake \<or> trpc (local_of s i) = WTake")
    case True
    then have "takes number reader_turn my_number trw_stage (phase_of s i) (shared s) (local_of s i) Try g' l'"
      using lock_runs(4) by (auto simp: trw_impl_def trw_lock_step_def takes_def)
    from queue_takes(1) [OF D(1) i this] have "trw_line n (q @ [i]) (move i Try g' l' s)"
      using True lock_runs(4)
      by (intro trw_same [OF s _ i]) (auto simp: trw_impl_def trw_lock_step_def)
    then show ?thesis using lock_runs(1) by blast
  next
    case False
    then have "quiet number reader_turn my_number trw_stage (phase_of s i) (shared s) (local_of s i) Try g' l'"
      using lock_runs(4)
      by (auto simp: trw_impl_def trw_lock_step_def quiet_def split: trw_pc.splits if_splits)
    then have "trw_queue n q (move i Try g' l' s)" using n by (intro queue_quiet [OF D(1) i]) simp_all
    then have "trw_line n q (move i Try g' l' s)"
      using False lock_runs(4) ok
      by (intro trw_same [OF s _ i]) (auto simp: trw_impl_def trw_lock_step_def split: trw_pc.splits if_splits)
    then show ?thesis using lock_runs(1) by blast
  qed
next
  case (lock_returns i g' l')
  note i = lock_returns(2) and D = trw_lineD [OF s]
  consider v where "trpc (local_of s i) = RSetTurn v" "g' = (shared s)\<lparr>reader_turn := v + 1\<rparr>"
      "l' = (local_of s i)\<lparr>trpc := RInside\<rparr>"
    | "trpc (local_of s i) = WSpin" "my_number (local_of s i) = writer_turn (shared s)" "g' = shared s"
      "l' = (local_of s i)\<lparr>trpc := WInside\<rparr>"
    using lock_returns(4) by (auto simp: trw_impl_def trw_lock_step_def split: trw_pc.splits if_splits)
  then show ?thesis
  proof cases
    case (1 v)
    then show ?thesis using trw_enter [OF s i 1(1)] lock_returns(1) by simp
  next
    case 2
    note turn = trw_turn [OF s n i 2(1,2)]
    have "trw_queue n q (move i Crit g' l' s)"
      using 2 turn n by (intro queue_quiet [OF D(1) i]) (simp_all add: quiet_def)
    then have "trw_line n q (move i Crit g' l' s)"
      using 2 turn by (intro trw_same [OF s _ i]) simp_all
    then show ?thesis using lock_returns(1) by blast
  qed
next
  case (unlock_called i)
  note i = unlock_called(2) and D = trw_lineD [OF s]
  let ?l = "unlock_call trw_impl i (local_of s i)"
  have ok: "trw_ok Crit (trpc (local_of s i))" using D(2) [OF i] unlock_called(3) by simp
  have "trw_queue n q (move i Rel (shared s) ?l s)"
    using ok n by (intro queue_quiet [OF D(1) i]) (auto simp: quiet_def trw_impl_def)
  then have "trw_line n q (move i Rel (shared s) ?l s)"
    using ok D(4) [OF i] by (intro trw_same [OF s _ i]) (auto simp: trw_impl_def)
  then show ?thesis using unlock_called(1) by blast
next
  case (unlock_runs i g' l')
  note i = unlock_runs(2) and D = trw_lineD [OF s]
  have "quiet number reader_turn my_number trw_stage (phase_of s i) (shared s) (local_of s i) Rel g' l'"
    using unlock_runs(4)
    by (auto simp: trw_impl_def trw_unlock_step_def quiet_def split: trw_pc.splits)
  then have "trw_queue n q (move i Rel g' l' s)" using n by (intro queue_quiet [OF D(1) i]) simp_all
  then have "trw_line n q (move i Rel g' l' s)"
    using unlock_runs(4) D(3,4) [OF i]
    by (intro trw_same [OF s _ i]) (auto simp: trw_impl_def trw_unlock_step_def split: trw_pc.splits)
  then show ?thesis using unlock_runs(1) by blast
next
  case (unlock_returns i g' l')
  note i = unlock_returns(2)
  consider "trpc (local_of s i) = RAdd" "g' = (shared s)\<lparr>writer_turn := writer_turn (shared s) + 1\<rparr>"
      "l' = (local_of s i)\<lparr>trpc := TrIdle\<rparr>"
    | w r where "trpc (local_of s i) = WSetBoth w r" "g' = (shared s)\<lparr>writer_turn := w, reader_turn := r\<rparr>"
      "l' = (local_of s i)\<lparr>trpc := TrIdle\<rparr>"
    using unlock_returns(4) by (auto simp: trw_impl_def trw_unlock_step_def split: trw_pc.splits)
  then show ?thesis
  proof cases
    case 1
    then show ?thesis using trw_reader_leaves [OF s i 1(1) n] unlock_returns(1) by auto
  next
    case (2 w r)
    then show ?thesis using trw_writer_leaves [OF s i 2(1)] unlock_returns(1) by simp
  qed
qed

lemma trw_line_init: "trw_line n [] (lock_init (globals0 (ticket_rw_prog n m)) (locals0 (ticket_rw_prog n m)))"
  by (auto simp: trw_line_def ticket_queue_def lock_init_def stage_of_def trw_inside_def ticket_rw_prog_def)

lemma trw_line_call:
  assumes s: "trw_line n q s" and i: "i < n" and out: "phase_of s i = Out" and n: "n < 2 ^ 16"
  shows "trw_line n q ((move i Try (shared s) (lock_call trw_impl w i (local_of s i)) s)\<lparr>calls := c\<rparr>)"
proof -
  note D = trw_lineD [OF s]
  let ?l = "lock_call trw_impl w i (local_of s i)"
  have at: "trpc (local_of s i) = TrIdle" using D(2) [OF i] out by simp
  then have "trw_queue n q (move i Try (shared s) ?l s)"
    using n by (intro queue_quiet [OF D(1) i]) (auto simp: quiet_def trw_impl_def)
  then have "trw_line n q (move i Try (shared s) ?l s)"
    using at by (intro trw_same [OF s _ i]) (auto simp: trw_impl_def split: if_splits)
  then show ?thesis by (simp only: trw_line_calls)
qed

fun trw_excl :: "trw_local \<Rightarrow> bool" where
  "trw_excl l = (trpc l = WTake \<or> trpc l = WSpin \<or> trpc l = WInside)"

lemma trw_line_excl:
  assumes s: "trw_line n q s" and ij: "i < n" "j < n" "phase_of s i = Crit" "phase_of s j = Crit"
    and w: "trw_excl (local_of s i)"
  shows "i = j"
proof -
  note D = trw_lineD [OF s]
  have at: "trpc (local_of s i) = WInside" using D(2) [OF ij(1)] ij(3) w by auto
  then have "trw_inside n s = {}" using D(4) [OF ij(1)] by simp
  then have "j \<notin> trw_inside n s" by simp
  then have "trpc (local_of s j) = WInside" using D(2) [OF ij(2)] ij(2,4) by (auto simp: trw_inside_mem)
  then show ?thesis using trw_granted_unique [OF D(1) ij(1,2)] at by simp
qed

fun trw_pc_rank :: "trw_pc \<Rightarrow> nat" where
  "trw_pc_rank RTake = 4"
| "trw_pc_rank RSpin = 3"
| "trw_pc_rank RGetTurn = 2"
| "trw_pc_rank WTake = 4"
| "trw_pc_rank WSpin = 3"
| "trw_pc_rank WGetW = 2"
| "trw_pc_rank (WGetR w) = 1"
| "trw_pc_rank _ = 0"

abbreviation trw_rank :: "trw_local \<Rightarrow> nat" where
  "trw_rank l \<equiv> trw_pc_rank (trpc l)"

lemma trw_goes:
  assumes s: "trw_line n q s" and i: "i < n" and try': "phase_of s i = Try"
    and go: "trw_mark (trpc (local_of s i)) = Queued \<Longrightarrow>
      my_number (local_of s i) = reader_turn (shared s) \<and> my_number (local_of s i) = writer_turn (shared s)"
  shows "\<exists>t. lock_act trw_impl n s t \<and> drain_weight 3 trw_rank n t < drain_weight 3 trw_rank n s"
proof -
  have ok: "trw_ok Try (trpc (local_of s i))" using trw_lineD(2) [OF s i] try' by simp
  then have "(\<exists>g l. Returned g l \<in> set (lock_step trw_impl i (shared s) (local_of s i))) \<or>
      (\<exists>g l. Running g l \<in> set (lock_step trw_impl i (shared s) (local_of s i)) \<and>
         trw_rank l < trw_rank (local_of s i))"
    using go by (cases "trpc (local_of s i)") (auto simp: trw_impl_def trw_lock_step_def)
  then show ?thesis using drain_steps(1,2) [OF i try', where rank = trw_rank and r = 3] by blast
qed

lemma trw_progress:
  assumes s: "trw_line n q s" and i: "i < n" "phase_of s i \<noteq> Out"
  shows "\<exists>t. lock_act trw_impl n s t \<and> drain_weight 3 trw_rank n t < drain_weight 3 trw_rank n s"
proof -
  note D = trw_lineD [OF s]
  show ?thesis
  proof (cases rule: owner_cases [of n s])
    case (1 k)
    then show ?thesis by (intro drain_steps(3) [of k]) (auto simp: trw_impl_def)
  next
    case (2 k)
    then have "trw_ok Rel (trpc (local_of s k))" using D(2) [OF 2(1)] by simp
    then have "(\<exists>g l. Returned g l \<in> set (unlock_step trw_impl k (shared s) (local_of s k))) \<or>
        (\<exists>g l. Running g l \<in> set (unlock_step trw_impl k (shared s) (local_of s k)) \<and>
           trw_rank l < trw_rank (local_of s k))"
      by (cases "trpc (local_of s k)") (simp_all add: trw_impl_def trw_unlock_step_def)
    then show ?thesis using drain_steps(4,5) [OF 2, where rank = trw_rank and r = 3] by blast
  next
    case 3
    have "k \<notin> trw_inside n s" for k using 3 [of k] D(2) [of k] by (auto simp: trw_inside_mem)
    then have "trw_inside n s = {}" by blast
    then have turns: "reader_turn (shared s) = writer_turn (shared s)" using D(5) by simp
    show ?thesis
    proof (cases q)
      case Nil
      then have "trw_mark (trpc (local_of s i)) = NoTicket"
        using D(1) i(1) by (simp add: ticket_queue_def stage_of_def)
      then show ?thesis using 3 [OF i(1)] i(2) by (intro trw_goes [OF s i(1)]) simp_all
    next
      case (Cons k r)
      then have k: "k < n" "trw_mark (trpc (local_of s k)) \<noteq> NoTicket"
          "my_number (local_of s k) = reader_turn (shared s)"
        using D(1) by (auto simp: ticket_queue_def stage_of_def)
      then have "phase_of s k = Try" using 3 [OF k(1)] D(2) [OF k(1)] by auto
      then show ?thesis using k turns by (intro trw_goes [OF s k(1)]) simp_all
    qed
  qed
qed

lemma ticket_rw_live:
  assumes n: "n < 2 ^ 16"
  shows "live_rw_program (ticket_rw_prog n m) (\<lambda>s. \<exists>q. trw_line n q s) trw_excl (drain_weight 3 trw_rank n)"
proof unfold_locales
  let ?P = "ticket_rw_prog n m"
  have P: "impl ?P = trw_impl" "num_threads ?P = n" by (simp_all add: ticket_rw_prog_def)
  show "\<exists>q. trw_line n q (lock_init (globals0 ?P) (locals0 ?P))" using trw_line_init by blast
  show "\<exists>q. trw_line n q
      ((move i Try (shared s) (lock_call (impl ?P) w i (local_of s i)) s)\<lparr>calls := Suc (calls s)\<rparr>)"
    if "\<exists>q. trw_line n q s" "i < num_threads ?P" "phase_of s i = Out" for s i w
    using that trw_line_call [OF _ _ _ n] unfolding P by blast
  show "\<exists>q. trw_line n q t" if "\<exists>q. trw_line n q s" "lock_act (impl ?P) (num_threads ?P) s t" for s t
    using that trw_line_act [OF _ n] unfolding P by blast
  show "\<exists>t. lock_act (impl ?P) (num_threads ?P) s t \<and> drain_weight 3 trw_rank n t < drain_weight 3 trw_rank n s"
    if "\<exists>q. trw_line n q s" "i < num_threads ?P" "phase_of s i \<noteq> Out" for s i
    using that trw_progress unfolding P by blast
  show "i = j" if "\<exists>q. trw_line n q s" "i < num_threads ?P" "j < num_threads ?P"
    "phase_of s i = Crit" "phase_of s j = Crit" "trw_excl (local_of s i)" for s i j
    using that trw_line_excl unfolding P by blast
qed (auto simp: ticket_rw_prog_def trw_impl_def trw_lock_step_def one_in_ten_def split: trw_pc.splits if_splits)

interpretation ticket_rw: live_rw_program "ticket_rw_prog NUM_THREADS m"
    "\<lambda>s. \<exists>q. trw_line NUM_THREADS q s" trw_excl "drain_weight 3 trw_rank NUM_THREADS" for m
  by (rule ticket_rw_live) (simp add: NUM_THREADS_def)

subsection \<open>Properties\<close>

text \<open>The ticket readers-writer lock is correct for every number of threads below 65536,
  although its three 16-bit counters wrap and \<open>reader_lock\<close> advances \<open>reader_turn\<close> with a load
  and a store: writers are alone, every increment is counted, every reachable state can finish.\<close>

theorem ticket_rw_correct:
  assumes "n < 2 ^ 16"
  shows "rw_correct (ticket_rw_prog n m)"
  by (rule live_rw_program.rw_correct [OF ticket_rw_live [OF assms]])

end
