(* ===== verification/Section_Locks.thy ===== *)
theory Section_Locks
  imports Spin_Common RW_Lock
begin

section \<open>Mutexes, semaphores, elided locks and transactions around the critical section\<close>

text \<open>
  The programs that leave mutual exclusion to the library, the compiler or the processor:
  \<open>semaphores/mutex.c\<close> and \<open>transactional/array_mutex.c\<close> (a POSIX mutex),
  \<open>semaphores/semaphore.c\<close> (a POSIX semaphore), the \<open>*_transaction.c\<close> files
  (\<open>__transaction_atomic\<close>), and those that spin on an exchange, plain
  (\<open>transactional/array_spinlock.c\<close>, \<open>rw_spinlock.c\<close>) or with the lock elision hints
  (\<open>transactional/intel/*_hle.c\<close>).

  \<open>pthread_mutex_lock\<close> blocks until the mutex has no owner and makes the caller its owner;
  \<open>sem_wait\<close> blocks until the value is positive and takes one; a transaction runs as if alone:
  it begins when no other one is open. A blocked thread has no step. The elision
  hints change how fast the exchange is, not what it does: a processor that elides the lock must
  show the effects of an execution that took it.
\<close>

text \<open>\<open>counter[i % ARRAY_SIZE]++\<close>\<close>

definition array_target :: "nat \<Rightarrow> nat \<Rightarrow> nat option" where
  "array_target sz r = Some (r mod sz)"

lemma increments_array_target: "target P = array_target sz \<Longrightarrow> increments P k = k"
  by (induction k) (simp_all add: array_target_def)

subsection \<open>The locks\<close>

datatype section_pc = SIdle | SEnter | SLeave

fun section_ok :: "phase \<Rightarrow> section_pc \<Rightarrow> bool" where
  "section_ok Try l = (l = SEnter)"
| "section_ok Rel l = (l = SLeave)"
| "section_ok _ l = True"

definition pthread_lock :: "tid \<Rightarrow> tid option \<Rightarrow> section_pc \<Rightarrow> (tid option, section_pc) outcome list" where
  "pthread_lock i mutex l = (if l = SEnter \<and> mutex = None then [Returned (Some i) SIdle] else [])"

definition pthread_unlock :: "tid \<Rightarrow> tid option \<Rightarrow> section_pc \<Rightarrow> (tid option, section_pc) outcome list" where
  "pthread_unlock i mutex l = (if l = SLeave then [Returned None SIdle] else [])"

definition pthread_impl :: "(tid option, section_pc) lock_impl" where
  "pthread_impl = \<lparr>lock_call = (\<lambda>w i l. SEnter), lock_step = pthread_lock,
     unlock_call = (\<lambda>i l. SLeave), unlock_step = pthread_unlock\<rparr>"

definition sem_wait :: "tid \<Rightarrow> nat \<Rightarrow> section_pc \<Rightarrow> (nat, section_pc) outcome list" where
  "sem_wait i v l = (if l = SEnter \<and> v > 0 then [Returned (v - 1) SIdle] else [])"

definition sem_post :: "tid \<Rightarrow> nat \<Rightarrow> section_pc \<Rightarrow> (nat, section_pc) outcome list" where
  "sem_post i v l = (if l = SLeave then [Returned (v + 1) SIdle] else [])"

definition sem_impl :: "(nat, section_pc) lock_impl" where
  "sem_impl = \<lparr>lock_call = (\<lambda>w i l. SEnter), lock_step = sem_wait,
     unlock_call = (\<lambda>i l. SLeave), unlock_step = sem_post\<rparr>"

text \<open>The open transaction, if there is one.\<close>

definition transaction_begin :: "tid \<Rightarrow> tid option \<Rightarrow> section_pc \<Rightarrow> (tid option, section_pc) outcome list" where
  "transaction_begin i open l = (if l = SEnter \<and> open = None then [Returned (Some i) SIdle] else [])"

definition transaction_commit :: "tid \<Rightarrow> tid option \<Rightarrow> section_pc \<Rightarrow> (tid option, section_pc) outcome list" where
  "transaction_commit i open l = (if l = SLeave then [Returned None SIdle] else [])"

definition transaction_impl :: "(tid option, section_pc) lock_impl" where
  "transaction_impl = \<lparr>lock_call = (\<lambda>w i l. SEnter), lock_step = transaction_begin,
     unlock_call = (\<lambda>i l. SLeave), unlock_step = transaction_commit\<rparr>"

definition exchange_lock :: "tid \<Rightarrow> cint \<Rightarrow> section_pc \<Rightarrow> (cint, section_pc) outcome list" where
  "exchange_lock i mutex l = (if l = SEnter
     then [if mutex \<noteq> 0 then Running 1 SEnter else Returned 1 SIdle] else [])"

definition exchange_unlock :: "tid \<Rightarrow> cint \<Rightarrow> section_pc \<Rightarrow> (cint, section_pc) outcome list" where
  "exchange_unlock i mutex l = (if l = SLeave then [Returned 0 SIdle] else [])"

definition exchange_impl :: "(cint, section_pc) lock_impl" where
  "exchange_impl = \<lparr>lock_call = (\<lambda>w i l. SEnter), lock_step = exchange_lock,
     unlock_call = (\<lambda>i l. SLeave), unlock_step = exchange_unlock\<rparr>"

text \<open>A program with one of these locks.\<close>

definition counter_frame ::
  "('s, section_pc) lock_impl \<Rightarrow> 's \<Rightarrow> nat \<Rightarrow> nat \<Rightarrow> ('s, section_pc) program" where
  "counter_frame L g num_thr max_cnt = \<lparr>impl = L, num_threads = num_thr, max_count = max_cnt,
     expected_count = max_cnt, cells = 1, target = one_counter, globals0 = g, locals0 = (\<lambda>_. SIdle)\<rparr>"

definition array_frame ::
  "('s, section_pc) lock_impl \<Rightarrow> 's \<Rightarrow> nat \<Rightarrow> nat \<Rightarrow> nat \<Rightarrow> ('s, section_pc) program" where
  "array_frame L g sz num_thr max_cnt = \<lparr>impl = L, num_threads = num_thr, max_count = max_cnt,
     expected_count = max_cnt, cells = sz, target = array_target sz, globals0 = g,
     locals0 = (\<lambda>_. SIdle)\<rparr>"

definition rw_frame ::
  "('s, section_pc) lock_impl \<Rightarrow> 's \<Rightarrow> nat \<Rightarrow> nat \<Rightarrow> ('s, section_pc) program" where
  "rw_frame L g num_thr max_cnt = \<lparr>impl = L, num_threads = num_thr, max_count = max_cnt,
     expected_count = max_cnt div 10, cells = 1, target = one_in_ten, globals0 = g,
     locals0 = (\<lambda>_. SIdle)\<rparr>"

lemmas frame_defs = counter_frame_def array_frame_def rw_frame_def array_target_def

subsection \<open>The programs\<close>

definition posix_mutex_prog :: "nat \<Rightarrow> nat \<Rightarrow> (tid option, section_pc) program" where
  "posix_mutex_prog = counter_frame pthread_impl None"

definition posix_semaphore_prog :: "nat \<Rightarrow> nat \<Rightarrow> (nat, section_pc) program" where
  "posix_semaphore_prog = counter_frame sem_impl 1"

definition array_mutex_prog :: "nat \<Rightarrow> nat \<Rightarrow> nat \<Rightarrow> (tid option, section_pc) program" where
  "array_mutex_prog = array_frame pthread_impl None"

definition array_transaction_prog :: "nat \<Rightarrow> nat \<Rightarrow> nat \<Rightarrow> (tid option, section_pc) program" where
  "array_transaction_prog = array_frame transaction_impl None"

definition mutex_transaction_prog :: "nat \<Rightarrow> nat \<Rightarrow> (tid option, section_pc) program" where
  "mutex_transaction_prog = counter_frame transaction_impl None"

definition rw_transaction_prog :: "nat \<Rightarrow> nat \<Rightarrow> (tid option, section_pc) program" where
  "rw_transaction_prog = rw_frame transaction_impl None"

definition array_spinlock_prog :: "nat \<Rightarrow> nat \<Rightarrow> nat \<Rightarrow> (cint, section_pc) program" where
  "array_spinlock_prog = array_frame exchange_impl 0"

definition rw_spinlock_prog :: "nat \<Rightarrow> nat \<Rightarrow> (cint, section_pc) program" where
  "rw_spinlock_prog = rw_frame exchange_impl 0"

definition array_hle_prog :: "nat \<Rightarrow> nat \<Rightarrow> nat \<Rightarrow> (cint, section_pc) program" where
  "array_hle_prog = array_frame exchange_impl 0"

definition mutex_hle_prog :: "nat \<Rightarrow> nat \<Rightarrow> (cint, section_pc) program" where
  "mutex_hle_prog = counter_frame exchange_impl 0"

definition rw_hle_prog :: "nat \<Rightarrow> nat \<Rightarrow> (cint, section_pc) program" where
  "rw_hle_prog = rw_frame exchange_impl 0"

lemma section_target:
  "target (counter_frame L g n m) k = Some c \<Longrightarrow> c < cells (counter_frame L g n m)"
  "0 < sz \<Longrightarrow> target (array_frame L g sz n m) k = Some c \<Longrightarrow> c < cells (array_frame L g sz n m)"
  "target (rw_frame L g n m) k = Some c \<Longrightarrow> c < cells (rw_frame L g n m)"
  by (auto simp: frame_defs one_in_ten_def split: if_splits)

text \<open>Each lock keeps the contract; \<open>P\<close> is any program that uses it.\<close>

lemma pthread_program:
  assumes "impl P = pthread_impl" "globals0 P = None" "\<And>k c. target P k = Some c \<Longrightarrow> c < cells P"
  shows "flag_program P (\<lambda>g. g \<noteq> None) section_ok (\<lambda>_. 0) 1"
  by unfold_locales (use assms in
    \<open>auto simp: pthread_impl_def pthread_lock_def pthread_unlock_def split: if_splits\<close>)

lemma transaction_program:
  assumes "impl P = transaction_impl" "globals0 P = None" "\<And>k c. target P k = Some c \<Longrightarrow> c < cells P"
  shows "flag_program P (\<lambda>g. g \<noteq> None) section_ok (\<lambda>_. 0) 1"
  by unfold_locales (use assms in
    \<open>auto simp: transaction_impl_def transaction_begin_def transaction_commit_def split: if_splits\<close>)

lemma exchange_program:
  assumes "impl P = exchange_impl" "globals0 P = 0" "\<And>k c. target P k = Some c \<Longrightarrow> c < cells P"
  shows "flag_program P (\<lambda>g. g \<noteq> 0) section_ok (\<lambda>_. 0) 1"
  by unfold_locales (use assms in
    \<open>auto simp: exchange_impl_def exchange_lock_def exchange_unlock_def split: if_splits\<close>)

text \<open>The semaphore starts at 1 and stays at most 1.\<close>

lemma sem_program:
  assumes "impl P = sem_impl" "globals0 P = 1" "\<And>k c. target P k = Some c \<Longrightarrow> c < cells P"
  shows "token_program P (\<lambda>v. v \<le> 1) (\<lambda>v. v = 0) section_ok (\<lambda>_. 0) 1"
  by unfold_locales (use assms in
    \<open>auto simp: sem_impl_def sem_wait_def sem_post_def split: if_splits\<close>)

interpretation posix_mutex: flag_program "posix_mutex_prog n m" "\<lambda>g. g \<noteq> None" section_ok "\<lambda>_. 0" 1 for n m
  by (rule pthread_program) (auto simp: posix_mutex_prog_def frame_defs)

interpretation posix_semaphore:
  token_program "posix_semaphore_prog n m" "\<lambda>v. v \<le> 1" "\<lambda>v. v = 0" section_ok "\<lambda>_. 0" 1 for n m
  by (rule sem_program) (auto simp: posix_semaphore_prog_def frame_defs)

interpretation mutex_transaction:
  flag_program "mutex_transaction_prog n m" "\<lambda>g. g \<noteq> None" section_ok "\<lambda>_. 0" 1 for n m
  by (rule transaction_program) (auto simp: mutex_transaction_prog_def frame_defs)

interpretation rw_transaction:
  flag_program "rw_transaction_prog n m" "\<lambda>g. g \<noteq> None" section_ok "\<lambda>_. 0" 1 for n m
  by (rule transaction_program) (auto simp: rw_transaction_prog_def frame_defs one_in_ten_def split: if_splits)

interpretation rw_spinlock: flag_program "rw_spinlock_prog n m" "\<lambda>g. g \<noteq> 0" section_ok "\<lambda>_. 0" 1 for n m
  by (rule exchange_program) (auto simp: rw_spinlock_prog_def frame_defs one_in_ten_def split: if_splits)

interpretation mutex_hle: flag_program "mutex_hle_prog n m" "\<lambda>g. g \<noteq> 0" section_ok "\<lambda>_. 0" 1 for n m
  by (rule exchange_program) (auto simp: mutex_hle_prog_def frame_defs)

interpretation rw_hle: flag_program "rw_hle_prog n m" "\<lambda>g. g \<noteq> 0" section_ok "\<lambda>_. 0" 1 for n m
  by (rule exchange_program) (auto simp: rw_hle_prog_def frame_defs one_in_ten_def split: if_splits)

text \<open>The arrays need at least one element.\<close>

lemma array_program_correct:
  assumes "0 < sz"
  shows "program_correct (array_mutex_prog sz n m)" "program_correct (array_transaction_prog sz n m)"
    "program_correct (array_spinlock_prog sz n m)" "program_correct (array_hle_prog sz n m)"
proof -
  have "flag_program (array_frame pthread_impl None sz n m) (\<lambda>g. g \<noteq> None) section_ok (\<lambda>_. 0) 1"
    by (rule pthread_program) (use assms in \<open>auto simp: frame_defs\<close>)
  then show "program_correct (array_mutex_prog sz n m)"
    unfolding array_mutex_prog_def by (rule flag_program.flag_correct)
  have "flag_program (array_frame transaction_impl None sz n m) (\<lambda>g. g \<noteq> None) section_ok (\<lambda>_. 0) 1"
    by (rule transaction_program) (use assms in \<open>auto simp: frame_defs\<close>)
  then show "program_correct (array_transaction_prog sz n m)"
    unfolding array_transaction_prog_def by (rule flag_program.flag_correct)
  have x: "flag_program (array_frame exchange_impl 0 sz n m) (\<lambda>g. g \<noteq> 0) section_ok (\<lambda>_. 0) 1"
    by (rule exchange_program) (use assms in \<open>auto simp: frame_defs\<close>)
  show "program_correct (array_spinlock_prog sz n m)"
    unfolding array_spinlock_prog_def by (rule flag_program.flag_correct [OF x])
  show "program_correct (array_hle_prog sz n m)"
    unfolding array_hle_prog_def by (rule flag_program.flag_correct [OF x])
qed

subsection \<open>Properties\<close>

text \<open>C8: the programs on a POSIX mutex and on a POSIX semaphore, and the elided and transactional
  programs with one counter or with one round in ten that writes, are correct for any number of
  threads and any \<open>MAX_COUNT\<close>: mutual exclusion, every increment counted, no deadlock in any
  reachable state. So are the array programs, with a POSIX mutex, a spin lock, an elided lock and a transaction, for every
  positive \<open>ARRAY_SIZE\<close>: the sum of the elements that \<open>main\<close> prints is the number of increments of all threads.\<close>

theorem section_programs_correct:
  assumes "0 < sz"
  shows "program_correct (posix_mutex_prog n m) \<and> program_correct (posix_semaphore_prog n m) \<and>
    program_correct (mutex_transaction_prog n m) \<and> program_correct (rw_transaction_prog n m) \<and>
    program_correct (rw_spinlock_prog n m) \<and> program_correct (mutex_hle_prog n m) \<and>
    program_correct (rw_hle_prog n m) \<and>
    program_correct (array_mutex_prog sz n m) \<and> program_correct (array_transaction_prog sz n m) \<and>
    program_correct (array_spinlock_prog sz n m) \<and> program_correct (array_hle_prog sz n m)"
  by (intro conjI posix_mutex.correct posix_semaphore.correct mutex_transaction.correct rw_transaction.correct
      rw_spinlock.correct mutex_hle.correct rw_hle.correct) (simp_all add: array_program_correct [OF assms])

theorem section_programs_correct_witness:
  "program_correct (posix_mutex_prog 4 10000000) \<and> program_correct (array_mutex_prog 1024 4 10000000) \<and>
    program_correct (array_transaction_prog 1024 4 10000000) \<and> program_correct (array_hle_prog 1024 4 10000000)"
  using section_programs_correct [of 1024 4 10000000] by simp

text \<open>With the macros of \<open>defs.h\<close> the last line of \<open>rw_spinlock.c\<close>, in which every thread writes
  in the rounds 0, 10, 20 and so on, is ``Counter value: 10000000 Expected: 10000000''.\<close>

theorem rw_spinlock_prints_expected:
  assumes "prog_reach (rw_spinlock_prog 4 100000000) s" and "mpc s = MainDone"
  shows "\<exists>ms. printed s = ms @ [ValueMsg 10000000 10000000]"
proof -
  have inc: "increments (rw_spinlock_prog 4 100000000) k = (k + 9) div 10" for k
    by (rule increments_one_in_ten) (simp add: rw_spinlock_prog_def frame_defs)
  have vals: "num_threads (rw_spinlock_prog 4 100000000) = 4" "rounds (rw_spinlock_prog 4 100000000) = 25000000"
    "expected_count (rw_spinlock_prog 4 100000000) = 10000000"
    by (simp_all add: rw_spinlock_prog_def frame_defs rounds_def)
  show ?thesis
    using rw_spinlock.counts [of 4 100000000] assms unfolding prints_total_def inc vals by simp
qed

theorem rw_spinlock_prints_expected_witness:
  "\<exists>s. prog_reach (rw_spinlock_prog 4 100000000) s \<and> mpc s = MainDone \<and>
    (\<exists>ms. printed s = ms @ [ValueMsg 10000000 10000000])"
  using finished_state [OF rw_spinlock.finishes [of 4 100000000]] rw_spinlock_prints_expected by blast

end
