(* ===== verification/Fork_Join.thy ===== *)
theory Fork_Join
  imports Harness
begin

section \<open>Programs that create threads and join them\<close>

text \<open>
  The frame of the programs whose threads are not rounds of \<open>lock\<close> and \<open>unlock\<close>: \<open>main\<close>
  creates \<open>NUM_THREADS\<close> threads, joins them in order and does what it has left, a last line to
  print at most. A program gives the atomic steps of the thread function on the shared state (the
  world, the lines printed among it) and the thread's locals; \<open>Exit\<close> is the return of the
  function. No step is a blocked thread, several are a choice of the scheduler or the kernel.

  The locale \<open>fj_invariant\<close> reduces an invariant of the program to one over the world and the
  threads; \<open>fj_live\<close> adds that some created thread can always move closer to its end, and gives
  that every reachable state can finish.
\<close>

datatype ('g, 'l) act = Go 'g 'l | Exit 'g

datatype 'l status = Unborn | Live 'l | Dead

record ('g, 'l) fj_prog =
  fj_threads :: nat
  body :: "tid \<Rightarrow> 'g \<Rightarrow> 'l \<Rightarrow> ('g, 'l) act list"
  entry :: "tid \<Rightarrow> 'l"
  world0 :: 'g
  finale :: "'g \<Rightarrow> 'g"

record ('g, 'l) fj_state =
  main_at :: mpc
  world :: 'g
  status :: "tid \<Rightarrow> 'l status"

definition fj_init :: "('g, 'l) fj_prog \<Rightarrow> ('g, 'l) fj_state" where
  "fj_init P = \<lparr>main_at = Create 0, world = world0 P, status = (\<lambda>_. Unborn)\<rparr>"

definition fj_main :: "('g, 'l) fj_prog \<Rightarrow> ('g, 'l) fj_state \<Rightarrow> ('g, 'l) fj_state list" where
  "fj_main P s = (case main_at s of
       Create i \<Rightarrow>
         [if i < fj_threads P
          then s\<lparr>main_at := Create (Suc i), status := (status s)(i := Live (entry P i))\<rparr>
          else s\<lparr>main_at := Join 0\<rparr>]
     | Join i \<Rightarrow>
         (if i < fj_threads P
          then (case status s i of Dead \<Rightarrow> [s\<lparr>main_at := Join (Suc i)\<rparr>] | _ \<Rightarrow> [])
          else [s\<lparr>main_at := PrintValue\<rparr>])
     | PrintValue \<Rightarrow> [s\<lparr>main_at := MainDone, world := finale P (world s)\<rparr>]
     | MainDone \<Rightarrow> [])"

fun act_world :: "('g, 'l) act \<Rightarrow> 'g" where
  "act_world (Go g l) = g"
| "act_world (Exit g) = g"

fun act_status :: "('g, 'l) act \<Rightarrow> 'l status" where
  "act_status (Go g l) = Live l"
| "act_status (Exit g) = Dead"

definition after_act :: "tid \<Rightarrow> ('g, 'l) fj_state \<Rightarrow> ('g, 'l) act \<Rightarrow> ('g, 'l) fj_state" where
  "after_act i s x = s\<lparr>world := act_world x, status := (status s)(i := act_status x)\<rparr>"

lemma after_act_simps [simp]:
  "world (after_act i s x) = act_world x" "main_at (after_act i s x) = main_at s"
  "status (after_act i s x) = (status s)(i := act_status x)"
  by (simp_all add: after_act_def)

definition fj_thread :: "('g, 'l) fj_prog \<Rightarrow> tid \<Rightarrow> ('g, 'l) fj_state \<Rightarrow> ('g, 'l) fj_state list" where
  "fj_thread P i s = (case status s i of
       Live l \<Rightarrow> map (after_act i s) (body P i (world s) l)
     | _ \<Rightarrow> [])"

inductive fj_step :: "('g, 'l) fj_prog \<Rightarrow> ('g, 'l) fj_state \<Rightarrow> ('g, 'l) fj_state \<Rightarrow> bool" for P where
  fj_main_moves: "t \<in> set (fj_main P s) \<Longrightarrow> fj_step P s t"
| fj_thread_moves: "i < fj_threads P \<Longrightarrow> t \<in> set (fj_thread P i s) \<Longrightarrow> fj_step P s t"

abbreviation fj_reach :: "('g, 'l) fj_prog \<Rightarrow> ('g, 'l) fj_state \<Rightarrow> bool" where
  "fj_reach P s \<equiv> (fj_step P)\<^sup>*\<^sup>* (fj_init P) s"

definition fj_can_finish :: "('g, 'l) fj_prog \<Rightarrow> bool" where
  "fj_can_finish P \<longleftrightarrow> (\<forall>s. fj_reach P s \<longrightarrow> (\<exists>t. (fj_step P)\<^sup>*\<^sup>* s t \<and> main_at t = MainDone))"

text \<open>A run by a schedule, as for the lock tests: \<open>None\<close> is \<open>main\<close>.\<close>

fun fj_run ::
  "('g, 'l) fj_prog \<Rightarrow> (tid option \<times> nat) list \<Rightarrow> ('g, 'l) fj_state \<Rightarrow> ('g, 'l) fj_state option" where
  "fj_run P [] s = Some s"
| "fj_run P ((w, k) # ws) s =
     (let ts = (case w of None \<Rightarrow> fj_main P s
                | Some i \<Rightarrow> (if i < fj_threads P then fj_thread P i s else []))
      in if k < length ts then fj_run P ws (ts ! k) else None)"

lemma fj_run_reaches: "fj_run P ws s = Some t \<Longrightarrow> (fj_step P)\<^sup>*\<^sup>* s t"
proof (induction P ws s rule: fj_run.induct)
  case (1 P s)
  then show ?case by simp
next
  case (2 P w k ws s)
  let ?ts = "case w of None \<Rightarrow> fj_main P s
    | Some i \<Rightarrow> (if i < fj_threads P then fj_thread P i s else [])"
  have k: "k < length ?ts" and rest: "fj_run P ws (?ts ! k) = Some t"
    using "2.prems" by (auto simp: Let_def split: if_splits)
  have "?ts ! k \<in> set ?ts" using k by (rule nth_mem)
  then have "fj_step P s (?ts ! k)"
    by (auto intro: fj_step.intros split: option.splits if_splits)
  then show ?case using "2.IH" k rest by (auto intro: converse_rtranclp_into_rtranclp)
qed

lemma fj_run_append:
  "fj_run P (us @ vs) s = (case fj_run P us s of None \<Rightarrow> None | Some t \<Rightarrow> fj_run P vs t)"
  by (induction P us s rule: fj_run.induct) (auto simp: Let_def)

subsection \<open>Case analysis on steps\<close>

lemma fj_thread_cases [consumes 1, case_names go exit]:
  assumes "t \<in> set (fj_thread P i s)"
  obtains
    (go) l g l' where "status s i = Live l" "Go g l' \<in> set (body P i (world s) l)"
      "t = s\<lparr>world := g, status := (status s)(i := Live l')\<rparr>"
  | (exit) l g where "status s i = Live l" "Exit g \<in> set (body P i (world s) l)"
      "t = s\<lparr>world := g, status := (status s)(i := Dead)\<rparr>"
proof (cases "status s i")
  case (Live l)
  then obtain x where x: "x \<in> set (body P i (world s) l)" "t = after_act i s x"
    using assms by (auto simp: fj_thread_def)
  show ?thesis
  proof (cases x)
    case (Go g l')
    then show ?thesis using x go [OF Live] by (simp add: after_act_def)
  next
    case (Exit g)
    then show ?thesis using x exit [OF Live] by (simp add: after_act_def)
  qed
qed (use assms in \<open>simp_all add: fj_thread_def\<close>)

lemma fj_main_cases [consumes 1, case_names create created join joined last]:
  assumes "t \<in> set (fj_main P s)"
  obtains
    (create) i where "main_at s = Create i" "i < fj_threads P"
      "t = s\<lparr>main_at := Create (Suc i), status := (status s)(i := Live (entry P i))\<rparr>"
  | (created) i where "main_at s = Create i" "\<not> i < fj_threads P" "t = s\<lparr>main_at := Join 0\<rparr>"
  | (join) i where "main_at s = Join i" "i < fj_threads P" "status s i = Dead"
      "t = s\<lparr>main_at := Join (Suc i)\<rparr>"
  | (joined) i where "main_at s = Join i" "\<not> i < fj_threads P" "t = s\<lparr>main_at := PrintValue\<rparr>"
  | (last) "main_at s = PrintValue" "t = s\<lparr>main_at := MainDone, world := finale P (world s)\<rparr>"
  using assms unfolding fj_main_def
  by (cases "main_at s") (auto split: if_splits status.splits)

fun fj_main_ok :: "mpc \<Rightarrow> nat \<Rightarrow> (tid \<Rightarrow> 'l status) \<Rightarrow> bool" where
  "fj_main_ok (Create k) n st = (k \<le> n \<and> (\<forall>i<n. st i = Unborn \<longleftrightarrow> k \<le> i))"
| "fj_main_ok (Join k) n st = (k \<le> n \<and> (\<forall>i<n. st i \<noteq> Unborn) \<and> (\<forall>i<k. st i = Dead))"
| "fj_main_ok PrintValue n st = (\<forall>i<n. st i = Dead)"
| "fj_main_ok MainDone n st = (\<forall>i<n. st i = Dead)"

lemma fj_main_ok_update:
  "fj_main_ok m n st \<Longrightarrow> st i = Live l \<Longrightarrow> x \<noteq> Unborn \<Longrightarrow> fj_main_ok m n (st(i := x))"
  by (cases m) auto

lemma fj_main_ok_step:
  assumes ok: "fj_main_ok (main_at s) (fj_threads P) (status s)" and st: "fj_step P s t"
  shows "fj_main_ok (main_at t) (fj_threads P) (status t)"
  using st
proof cases
  case fj_main_moves
  then show ?thesis
  proof (cases rule: fj_main_cases)
    case (create i)
    then show ?thesis using ok by (auto simp: le_less Suc_le_eq)
  qed (use ok in \<open>auto simp: less_Suc_eq\<close>)
next
  case (fj_thread_moves i)
  from fj_thread_moves(2) show ?thesis
    using ok by (cases rule: fj_thread_cases) (auto intro!: fj_main_ok_update)
qed


locale fj_invariant =
  fixes P :: "('g, 'l) fj_prog" and J :: "'g \<Rightarrow> (tid \<Rightarrow> 'l status) \<Rightarrow> bool"
  assumes J_init: "J (world0 P) (\<lambda>_. Unborn)"
    and J_create: "J g st \<Longrightarrow> i < fj_threads P \<Longrightarrow> st i = Unborn \<Longrightarrow> J g (st(i := Live (entry P i)))"
    and J_go: "J g st \<Longrightarrow> i < fj_threads P \<Longrightarrow> st i = Live l \<Longrightarrow> Go g' l' \<in> set (body P i g l) \<Longrightarrow>
      J g' (st(i := Live l'))"
    and J_exit: "J g st \<Longrightarrow> i < fj_threads P \<Longrightarrow> st i = Live l \<Longrightarrow> Exit g' \<in> set (body P i g l) \<Longrightarrow>
      J g' (st(i := Dead))"
begin

definition fj_good :: "('g, 'l) fj_state \<Rightarrow> bool" where
  "fj_good s \<longleftrightarrow> fj_main_ok (main_at s) (fj_threads P) (status s) \<and>
     (if main_at s = MainDone then \<exists>g. J g (status s) \<and> world s = finale P g else J (world s) (status s))"

lemma fj_good_init: "fj_good (fj_init P)"
  by (simp add: fj_good_def fj_init_def J_init)

lemma fj_good_step: "fj_good s \<Longrightarrow> fj_step P s t \<Longrightarrow> fj_good t"
proof -
  assume s: "fj_good s" and st: "fj_step P s t"
  have main: "fj_main_ok (main_at t) (fj_threads P) (status t)"
    using s st by (auto simp: fj_good_def intro: fj_main_ok_step)
  from st show ?thesis
  proof cases
    case fj_main_moves
    then show ?thesis
      using s main by (cases rule: fj_main_cases) (auto simp: fj_good_def intro: J_create)
  next
    case (fj_thread_moves i)
    then have run: "main_at s \<noteq> MainDone"
      using s by (auto simp: fj_good_def fj_thread_def)
    from fj_thread_moves(2) show ?thesis
      using s main run fj_thread_moves(1)
      by (cases rule: fj_thread_cases) (auto simp: fj_good_def intro: J_go J_exit)
  qed
qed

lemma fj_good_reach: "fj_reach P s \<Longrightarrow> fj_good s"
  by (erule run_invariant) (auto intro: fj_good_init fj_good_step)

lemma fj_running: "fj_reach P s \<Longrightarrow> main_at s \<noteq> MainDone \<Longrightarrow> J (world s) (status s)"
  using fj_good_reach by (auto simp: fj_good_def)

lemma fj_always: "fj_reach P s \<Longrightarrow> \<exists>g. J g (status s)"
  using fj_good_reach [of s] by (auto simp: fj_good_def split: if_splits)

lemma fj_finished:
  assumes "fj_reach P s" "main_at s = MainDone"
  shows "\<exists>g st. J g st \<and> (\<forall>i<fj_threads P. st i = Dead) \<and> world s = finale P g"
  using fj_good_reach [OF assms(1)] assms(2) by (auto simp: fj_good_def)

end

locale fj_drains = fj_invariant P J
  for P :: "('g, 'l) fj_prog" and J :: "'g \<Rightarrow> (tid \<Rightarrow> 'l status) \<Rightarrow> bool" +
  fixes big small :: "'g \<Rightarrow> (tid \<Rightarrow> 'l status) \<Rightarrow> nat"
  assumes fj_moves: "J g st \<Longrightarrow> \<forall>i<fj_threads P. st i \<noteq> Unborn \<Longrightarrow> i < fj_threads P \<Longrightarrow> st i \<noteq> Dead \<Longrightarrow>
      \<exists>k<fj_threads P. \<exists>l x. st k = Live l \<and> x \<in> set (body P k g l) \<and>
        (let g' = act_world x; st' = st(k := act_status x)
         in big g' st' < big g st \<or> big g' st' = big g st \<and> small g' st' < small g st)"
begin

lemma fj_good_progress:
  assumes s: "fj_good s" and run: "main_at s \<noteq> MainDone"
  shows "\<exists>t. fj_step P s t \<and> fj_good t \<and>
    (t, s) \<in> measures [\<lambda>s. mpc_rank (fj_threads P) (main_at s), \<lambda>s. big (world s) (status s),
      \<lambda>s. small (world s) (status s)]"
proof (cases "fj_main P s")
  case (Cons t ts)
  then have "t \<in> set (fj_main P s)" by simp
  moreover from this have "mpc_rank (fj_threads P) (main_at t) < mpc_rank (fj_threads P) (main_at s)"
    using s by (cases rule: fj_main_cases) (auto simp: fj_good_def)
  ultimately show ?thesis using fj_good_step [OF s] by (intro exI [of _ t]) (auto intro: fj_main_moves)
next
  case Nil
  then obtain i where i: "main_at s = Join i" "i < fj_threads P" "status s i \<noteq> Dead"
    using run by (auto simp: fj_main_def split: mpc.splits if_splits status.splits)
  have J: "J (world s) (status s)" and born: "\<forall>i<fj_threads P. status s i \<noteq> Unborn"
    using s i by (auto simp: fj_good_def)
  then obtain k l x where k: "k < fj_threads P" "status s k = Live l" and x: "x \<in> set (body P k (world s) l)"
    and less: "let g' = act_world x; st' = (status s)(k := act_status x)
      in big g' st' < big (world s) (status s) \<or>
        big g' st' = big (world s) (status s) \<and> small g' st' < small (world s) (status s)"
    using fj_moves [OF J born i(2,3)] by blast
  have "after_act k s x \<in> set (fj_thread P k s)" using x k(2) by (simp add: fj_thread_def)
  then have "fj_step P s (after_act k s x)" by (rule fj_thread_moves [OF k(1)])
  then show ?thesis using less fj_good_step [OF s] by (intro exI [of _ "after_act k s x"]) (auto simp: Let_def)
qed

lemma fj_finishes: "fj_can_finish P"
  unfolding fj_can_finish_def
proof (intro allI impI)
  fix s
  assume "fj_reach P s"
  then have "fj_good s" by (rule fj_good_reach)
  with wf_measures show "\<exists>t. (fj_step P)\<^sup>*\<^sup>* s t \<and> main_at t = MainDone"
    by (rule run_reaches) (use fj_good_progress in blast)
qed

end

text \<open>One measure is often enough.\<close>

locale fj_live = fj_invariant P J
  for P :: "('g, 'l) fj_prog" and J :: "'g \<Rightarrow> (tid \<Rightarrow> 'l status) \<Rightarrow> bool" +
  fixes togo :: "'g \<Rightarrow> (tid \<Rightarrow> 'l status) \<Rightarrow> nat"
  assumes fj_progress: "J g st \<Longrightarrow> \<forall>i<fj_threads P. st i \<noteq> Unborn \<Longrightarrow> i < fj_threads P \<Longrightarrow> st i \<noteq> Dead \<Longrightarrow>
      \<exists>k<fj_threads P. \<exists>l. st k = Live l \<and>
        ((\<exists>g' l'. Go g' l' \<in> set (body P k g l) \<and> togo g' (st(k := Live l')) < togo g st) \<or>
         (\<exists>g'. Exit g' \<in> set (body P k g l) \<and> togo g' (st(k := Dead)) < togo g st))"

sublocale fj_live \<subseteq> fj_drains P J togo "\<lambda>_ _. 0"
proof
  fix g st i
  assume "J g st" "\<forall>i<fj_threads P. st i \<noteq> Unborn" "i < fj_threads P" "st i \<noteq> Dead"
  from fj_progress [OF this] show "\<exists>k<fj_threads P. \<exists>l x. st k = Live l \<and> x \<in> set (body P k g l) \<and>
      (let g' = act_world x; st' = st(k := act_status x)
       in togo g' st' < togo g st \<or> togo g' st' = togo g st \<and> (0 :: nat) < 0)"
    by (metis act_world.simps act_status.simps)
qed

context fj_live begin

lemma live_finishes: "fj_can_finish P"
  by (rule fj_finishes)

end

subsection \<open>Programs all of whose runs end\<close>

text \<open>
  Where no thread ever waits for another, \<open>steps_left\<close> bounds what a thread may still do, and
  there is nothing to schedule: every run is short, and only the end has no next step.
\<close>

locale fj_total =
  fixes P :: "('g, 'l) fj_prog" and steps_left :: "'l \<Rightarrow> nat" and most :: nat
  assumes steps_go: "Go g' l' \<in> set (body P i g l) \<Longrightarrow> steps_left l' < steps_left l"
    and steps_entry: "steps_left (entry P i) \<le> most"
    and never_waits: "body P i g l \<noteq> []"
begin

definition run_left :: "('g, 'l) fj_state \<Rightarrow> nat" where
  "run_left s = mpc_rank (fj_threads P) (main_at s) +
     (\<Sum>i<fj_threads P. case status s i of Unborn \<Rightarrow> Suc most | Live l \<Rightarrow> Suc (steps_left l) | Dead \<Rightarrow> 0)"

definition run_ok :: "('g, 'l) fj_state \<Rightarrow> bool" where
  "run_ok s \<longleftrightarrow> fj_main_ok (main_at s) (fj_threads P) (status s)"

lemma run_left_thread:
  assumes "i < fj_threads P" "main_at t = main_at s" "status t = (status s)(i := x)"
    and "(case x of Unborn \<Rightarrow> Suc most | Live l \<Rightarrow> Suc (steps_left l) | Dead \<Rightarrow> 0) <
      (case status s i of Unborn \<Rightarrow> Suc most | Live l \<Rightarrow> Suc (steps_left l) | Dead \<Rightarrow> 0)"
  shows "run_left t < run_left s"
  unfolding run_left_def assms(2) using assms(1,3,4)
  by (intro add_strict_left_mono sum_update_less [of i]) auto

lemma run_left_step: "run_ok s \<Longrightarrow> fj_step P s t \<Longrightarrow> run_left t < run_left s"
proof -
  assume ok: "run_ok s" and st: "fj_step P s t"
  from st show ?thesis
  proof cases
    case fj_main_moves
    then show ?thesis
    proof (cases rule: fj_main_cases)
      case (create i)
      have "status s i = Unborn" using ok create by (simp add: run_ok_def)
      then have "(\<Sum>j<fj_threads P. case status t j of Unborn \<Rightarrow> Suc most | Live l \<Rightarrow> Suc (steps_left l) | Dead \<Rightarrow> 0) \<le>
          (\<Sum>j<fj_threads P. case status s j of Unborn \<Rightarrow> Suc most | Live l \<Rightarrow> Suc (steps_left l) | Dead \<Rightarrow> 0)"
        using create steps_entry [of i] by (intro sum_mono) auto
      moreover have "mpc_rank (fj_threads P) (main_at t) < mpc_rank (fj_threads P) (main_at s)" using create by simp
      ultimately show ?thesis unfolding run_left_def by (intro add_less_le_mono)
    qed (use ok in \<open>auto simp: run_left_def run_ok_def\<close>)
  next
    case (fj_thread_moves i)
    from fj_thread_moves(2) show ?thesis
      using fj_thread_moves(1)
      by (cases rule: fj_thread_cases) (auto intro!: run_left_thread [of i] simp: steps_go)
  qed
qed

lemma run_ok_runs: "(fj_step P ^^ k) (fj_init P) s \<Longrightarrow> run_ok s \<and> k + run_left s \<le> run_left (fj_init P)"
proof (induction k arbitrary: s)
  case 0
  then show ?case by (auto simp: run_ok_def fj_init_def)
next
  case (Suc k)
  then obtain u where u: "(fj_step P ^^ k) (fj_init P) u" "fj_step P u s" by auto
  then show ?case
    using Suc.IH [OF u(1)] run_left_step [OF _ u(2)] fj_main_ok_step [OF _ u(2)] by (fastforce simp: run_ok_def)
qed

lemma goes_on: "run_ok s \<Longrightarrow> main_at s \<noteq> MainDone \<Longrightarrow> \<exists>t. fj_step P s t"
proof (cases "fj_main P s")
  case Nil
  assume ok: "run_ok s" and run: "main_at s \<noteq> MainDone"
  then obtain i where i: "main_at s = Join i" "i < fj_threads P" "status s i \<noteq> Dead"
    using Nil by (auto simp: fj_main_def split: mpc.splits if_splits status.splits)
  then obtain l where l: "status s i = Live l" using ok by (cases "status s i") (auto simp: run_ok_def)
  obtain x xs where "body P i (world s) l = x # xs" using never_waits by (meson neq_Nil_conv)
  then have "after_act i s x \<in> set (fj_thread P i s)" using l by (simp add: fj_thread_def)
  then show ?thesis using fj_thread_moves [OF i(2)] by blast
next
  case (Cons t ts)
  then show ?thesis using fj_main_moves [of t P s] by auto
qed

lemma all_runs_end:
  assumes "(fj_step P ^^ k) (fj_init P) s"
  shows "k \<le> fj_threads P * (most + 3) + 3 \<and> (main_at s \<noteq> MainDone \<longrightarrow> (\<exists>t. fj_step P s t))"
proof -
  have "run_left (fj_init P) = fj_threads P * (most + 3) + 3" by (simp add: run_left_def fj_init_def algebra_simps)
  then show ?thesis using run_ok_runs [OF assms] goes_on [of s] by auto
qed

end

end
