(* ===== verification/Counters.thy ===== *)
theory Counters
  imports Fork_Join
begin

section \<open>Counters without a lock\<close>

text \<open>
  \<open>intro/counter.c\<close> increments a shared counter with nothing around the increment,
  \<open>intro/counter_local.c\<close> counts in a local variable and adds it to the shared one at the end,
  \<open>hardware/counter_ultimate.c\<close> uses an atomic addition, and \<open>intro/threads.c\<close> has its threads
  only say hello. The theorems say exactly what the programs can print: the first any value from
  2 to the number of increments, the extremes among them reached; the second a multiple of one
  thread's share; the third the number of increments.
\<close>

record counter_world =
  cval :: cint
  lines :: "message list"

definition report :: "nat \<Rightarrow> counter_world \<Rightarrow> counter_world" where
  "report m g = g\<lparr>lines := lines g @ [ValueMsg (cval g) m]\<rparr>"

subsection \<open>\<open>intro/counter.c\<close>\<close>

datatype counter_pc = Loop nat | Load nat | Store nat cint | LastLoad | LastPrint cint

fun counter_body :: "nat \<Rightarrow> tid \<Rightarrow> counter_world \<Rightarrow> counter_pc \<Rightarrow> (counter_world, counter_pc) act list" where
  "counter_body r i g (Loop k) = [Go g (if k < r then Load k else LastLoad)]"
| "counter_body r i g (Load k) = [Go g (Store k (cval g))]"
| "counter_body r i g (Store k v) = [Go (g\<lparr>cval := v + 1\<rparr>) (Loop (Suc k))]"
| "counter_body r i g LastLoad = [Go g (LastPrint (cval g))]"
| "counter_body r i g (LastPrint v) = [Exit (g\<lparr>lines := lines g @ [EndMsg i v]\<rparr>)]"

definition counter_prog :: "nat \<Rightarrow> nat \<Rightarrow> (counter_world, counter_pc) fj_prog" where
  "counter_prog n m = \<lparr>fj_threads = n, body = counter_body (m div n), entry = (\<lambda>_. Loop 0),
     world0 = \<lparr>cval = 0, lines = []\<rparr>, finale = report m\<rparr>"

lemma counter_prog_simps [simp]:
  "fj_threads (counter_prog n m) = n" "body (counter_prog n m) = counter_body (m div n)"
  "entry (counter_prog n m) = (\<lambda>_. Loop 0)" "world0 (counter_prog n m) = \<lparr>cval = 0, lines = []\<rparr>"
  "finale (counter_prog n m) = report m"
  by (simp_all add: counter_prog_def)

text \<open>The stores a thread has made.\<close>

fun stores :: "nat \<Rightarrow> counter_pc status \<Rightarrow> nat" where
  "stores r Unborn = 0"
| "stores r (Live (Loop k)) = k"
| "stores r (Live (Load k)) = k"
| "stores r (Live (Store k v)) = k"
| "stores r _ = r"

definition all_stores :: "nat \<Rightarrow> nat \<Rightarrow> (tid \<Rightarrow> counter_pc status) \<Rightarrow> nat" where
  "all_stores n r st = (\<Sum>i<n. stores r (st i))"

fun counter_reg :: "nat \<Rightarrow> nat \<Rightarrow> counter_pc status \<Rightarrow> bool" where
  "counter_reg r all (Live (Loop k)) = (k \<le> r)"
| "counter_reg r all (Live (Load k)) = (k < r)"
| "counter_reg r all (Live (Store k v)) = (k < r \<and> unat v \<le> all \<and> (0 < k \<longrightarrow> 0 < unat v))"
| "counter_reg r all _ = True"

definition counter_J :: "nat \<Rightarrow> nat \<Rightarrow> counter_world \<Rightarrow> (tid \<Rightarrow> counter_pc status) \<Rightarrow> bool" where
  "counter_J n r g st \<longleftrightarrow> unat (cval g) \<le> all_stores n r st \<and>
     (\<forall>i<n. counter_reg r (all_stores n r st) (st i) \<and> (0 < stores r (st i) \<longrightarrow> 0 < unat (cval g))) \<and>
     (2 \<le> unat (cval g) \<or> (\<exists>i<n. stores r (st i) < r))"

lemma all_stores_same:
  "stores r x = stores r (st i) \<Longrightarrow> all_stores n r (st(i := x)) = all_stores n r st"
  unfolding all_stores_def by (intro sum_update_same) auto

lemma all_stores_Suc:
  "i < n \<Longrightarrow> stores r x = Suc (stores r (st i)) \<Longrightarrow> all_stores n r (st(i := x)) = Suc (all_stores n r st)"
  unfolding all_stores_def by (intro sum_update_Suc [of i]) auto

lemma counter_reg_le: "counter_reg r all x \<Longrightarrow> stores r x \<le> r"
  by (cases "(r, x)" rule: stores.cases) auto

lemma all_stores_le:
  assumes "\<And>i. i < n \<Longrightarrow> stores r (st i) \<le> r"
  shows "all_stores n r st \<le> n * r"
proof -
  have "all_stores n r st \<le> (\<Sum>i<n. r)" unfolding all_stores_def by (rule sum_mono) (use assms in auto)
  then show ?thesis by simp
qed

lemma counter_reg_mono: "counter_reg r a x \<Longrightarrow> a \<le> b \<Longrightarrow> counter_reg r b x"
  by (cases "(r, a, x)" rule: counter_reg.cases) auto

text \<open>A step of a thread that stores nothing.\<close>

lemma counter_J_same:
  assumes J: "counter_J n r g st" and "stores r x = stores r (st i)"
    and "counter_reg r (all_stores n r st) x" "cval g' = cval g" "i < n"
  shows "counter_J n r g' (st(i := x))"
proof -
  have same: "stores r ((st(i := x)) j) = stores r (st j)" for j using assms(2) by simp
  have "counter_reg r (all_stores n r st) ((st(i := x)) j)" if "j < n" for j
    using J assms(3) that by (simp add: counter_J_def)
  then show ?thesis
    using J assms(4) unfolding counter_J_def same all_stores_same [of r x st i, OF assms(2)] by simp
qed

lemma counter_J_store:
  assumes J: "counter_J n r g st" and i: "i < n" and at: "st i = Live (Store k v)"
    and small: "n * r < 2 ^ 32" and two: "2 \<le> r"
  shows "counter_J n r (g\<lparr>cval := v + 1\<rparr>) (st(i := Live (Loop (Suc k))))"
    (is "counter_J n r ?g ?st")
proof -
  have reg: "k < r" "unat v \<le> all_stores n r st" "0 < k \<longrightarrow> 0 < unat v"
    using J i at by (auto simp: counter_J_def)
  have suc: "all_stores n r ?st = Suc (all_stores n r st)" using i at by (intro all_stores_Suc) simp_all
  have "stores r (?st j) \<le> r" if "j < n" for j
    using J that reg(1) by (auto simp: counter_J_def intro: counter_reg_le)
  then have "Suc (unat v) < 2 ^ 32" using all_stores_le [of n r ?st] suc reg(2) small by simp
  then have val: "unat (cval ?g) = Suc (unat v)" by (simp add: unat_word_ariths)
  have "2 \<le> unat (cval ?g) \<or> stores r (?st i) < r" using val reg(3) two by (cases "k = 0") auto
  moreover have "counter_reg r (all_stores n r ?st) (?st j)" if "j < n" for j
    using J that reg(1) suc by (auto simp: counter_J_def intro: counter_reg_mono [of _ "all_stores n r st"])
  ultimately show ?thesis using val suc reg i by (auto simp: counter_J_def)
qed

lemma counter_live:
  assumes small: "n * (m div n) < 2 ^ 32" and two: "2 \<le> m div n"
  shows "fj_invariant (counter_prog n m) (counter_J n (m div n))"
proof
  let ?r = "m div n"
  show "counter_J n ?r (world0 (counter_prog n m)) (\<lambda>_. Unborn)"
  proof -
    have "0 < n" using two by (cases n) auto
    then show ?thesis using two by (auto simp: counter_J_def all_stores_def)
  qed
  show "counter_J n ?r g (st(i := Live (entry (counter_prog n m) i)))"
    if "counter_J n ?r g st" "i < fj_threads (counter_prog n m)" "st i = Unborn" for g st i
    using that by (intro counter_J_same [OF that(1)]) simp_all
  show "counter_J n ?r g' (st(i := Live l'))"
    if J: "counter_J n ?r g st" and i: "i < fj_threads (counter_prog n m)" and at: "st i = Live l"
      and go: "Go g' l' \<in> set (body (counter_prog n m) i g l)" for g st i l g' l'
  proof (cases "\<exists>k v. l = Store k v")
    case True
    then show ?thesis using counter_J_store [OF J _ _ small two] i at go by auto
  next
    case False
    have reg: "counter_reg ?r (all_stores n ?r st) (st i)"
        "0 < stores ?r (st i) \<longrightarrow> 0 < unat (cval g)" "unat (cval g) \<le> all_stores n ?r st"
      using J i by (auto simp: counter_J_def)
    show ?thesis
      using False go at reg i by (cases l; intro counter_J_same [OF J]) (auto split: if_splits)
  qed
  show "counter_J n ?r g' (st(i := Dead))"
    if J: "counter_J n ?r g st" and i: "i < fj_threads (counter_prog n m)" and at: "st i = Live l"
      and go: "Exit g' \<in> set (body (counter_prog n m) i g l)" for g st i l g'
    using go at i by (cases l; intro counter_J_same [OF J]) auto
qed

lemma counter_final:
  assumes small: "n * (m div n) < 2 ^ 32" and two: "2 \<le> m div n"
    and s: "fj_reach (counter_prog n m) s" "main_at s = MainDone"
  shows "\<exists>ms c. lines (world s) = ms @ [ValueMsg c m] \<and> 2 \<le> unat c \<and> unat c \<le> n * (m div n)"
proof -
  let ?r = "m div n"
  obtain g st where J: "counter_J n ?r g st" and dead: "\<forall>i<n. st i = Dead" and w: "world s = report m g"
    using fj_invariant.fj_finished [OF counter_live [OF small two] s] by auto
  have "all_stores n ?r st = n * ?r" using dead by (simp add: all_stores_def)
  then have "2 \<le> unat (cval g) \<and> unat (cval g) \<le> n * ?r" using J dead by (auto simp: counter_J_def)
  then show ?thesis using w by (auto simp: report_def)
qed

text \<open>One thread alone runs \<open>j\<close> rounds.\<close>

lemma counter_alone:
  assumes "i < n" "status s i = Live (Loop k)" "k + j \<le> m div n"
  shows "(fj_step (counter_prog n m))\<^sup>*\<^sup>* s (s\<lparr>world := (world s)\<lparr>cval := cval (world s) + of_nat j\<rparr>,
    status := (status s)(i := Live (Loop (k + j)))\<rparr>)"
  using assms
proof (induction j)
  case 0
  have "(status s)(i := Live (Loop k)) = status s" using 0 by auto
  then show ?case by simp
next
  case (Suc j)
  let ?P = "counter_prog n m"
  let ?s = "s\<lparr>world := (world s)\<lparr>cval := cval (world s) + of_nat j\<rparr>,
    status := (status s)(i := Live (Loop (k + j)))\<rparr>"
  have "(fj_step ?P)\<^sup>*\<^sup>* s ?s" by (rule Suc.IH) (use Suc.prems in simp_all)
  moreover have "fj_run ?P [(Some i, 0), (Some i, 0), (Some i, 0)] ?s =
    Some (s\<lparr>world := (world s)\<lparr>cval := cval (world s) + of_nat (Suc j)\<rparr>,
      status := (status s)(i := Live (Loop (k + Suc j)))\<rparr>)"
    using Suc.prems by (simp add: fj_thread_def after_act_def)
  ultimately show ?case using fj_run_reaches by (meson rtranclp_trans)
qed

text \<open>Two threads: the states the runs below pass through.\<close>

definition duo ::
  "mpc \<Rightarrow> counter_pc status \<Rightarrow> counter_pc status \<Rightarrow> cint \<Rightarrow> message list \<Rightarrow> (counter_world, counter_pc) fj_state" where
  "duo p a b c out = \<lparr>main_at = p, world = \<lparr>cval = c, lines = out\<rparr>,
     status = (\<lambda>_. Unborn)(0 := a, Suc 0 := b)\<rparr>"

lemma duo_simps: "main_at (duo p a b c out) = p" "lines (world (duo p a b c out)) = out"
  by (simp_all add: duo_def)

lemma duo_alone:
  assumes "k + j \<le> m div 2"
  shows "(fj_step (counter_prog 2 m))\<^sup>*\<^sup>* (duo p (Live (Loop k)) b c out)
      (duo p (Live (Loop (k + j))) b (c + of_nat j) out)"
    and "(fj_step (counter_prog 2 m))\<^sup>*\<^sup>* (duo p a (Live (Loop k)) c out)
      (duo p a (Live (Loop (k + j))) (c + of_nat j) out)"
  using counter_alone [of 0 2 "duo p (Live (Loop k)) b c out" k j m]
    counter_alone [of 1 2 "duo p a (Live (Loop k)) c out" k j m] assms
  by (simp_all add: duo_def fun_upd_twist)

text \<open>Both threads have made their rounds: they print, and so does \<open>main\<close>.\<close>

definition wind_up :: "(tid option \<times> nat) list" where
  "wind_up = map (\<lambda>w. (w, 0)) [Some 0, Some 0, Some 0, Some 1, Some 1, Some 1, None, None, None, None, None]"

lemma duo_wind_up:
  "(fj_step (counter_prog 2 m))\<^sup>*\<^sup>*
    (duo (Create 2) (Live (Loop (m div 2))) (Live (Loop (m div 2))) c [])
    (duo MainDone Dead Dead c [EndMsg 0 c, EndMsg 1 c, ValueMsg c m])"
proof (rule fj_run_reaches)
  show "fj_run (counter_prog 2 m) wind_up (duo (Create 2) (Live (Loop (m div 2))) (Live (Loop (m div 2))) c [])
    = Some (duo MainDone Dead Dead c [EndMsg 0 c, EndMsg 1 c, ValueMsg c m])"
    by (simp add: wind_up_def duo_def fj_main_def fj_thread_def after_act_def report_def
        counter_prog_def Let_def fun_upd_twist)
qed

lemma duo_created:
  "(fj_step (counter_prog 2 m))\<^sup>*\<^sup>* (fj_init (counter_prog 2 m)) (duo (Create 2) (Live (Loop 0)) (Live (Loop 0)) 0 [])"
proof (rule fj_run_reaches)
  show "fj_run (counter_prog 2 m) [(None, 0), (None, 0)] (fj_init (counter_prog 2 m))
    = Some (duo (Create 2) (Live (Loop 0)) (Live (Loop 0)) 0 [])"
    by (simp add: duo_def fj_init_def fj_main_def counter_prog_def Let_def numeral_2_eq_2)
qed

text \<open>Nobody interferes.\<close>

lemma duo_full:
  "fj_reach (counter_prog 2 m) (duo MainDone Dead Dead (of_nat (m div 2) + of_nat (m div 2))
    [EndMsg 0 (of_nat (m div 2) + of_nat (m div 2)), EndMsg 1 (of_nat (m div 2) + of_nat (m div 2)),
     ValueMsg (of_nat (m div 2) + of_nat (m div 2)) m])"
proof -
  let ?P = "counter_prog 2 m" and ?r = "m div 2"
  have "fj_reach ?P (duo (Create 2) (Live (Loop 0)) (Live (Loop 0)) 0 [])" by (rule duo_created)
  also have "(fj_step ?P)\<^sup>*\<^sup>* \<dots> (duo (Create 2) (Live (Loop ?r)) (Live (Loop 0)) (of_nat ?r) [])"
    using duo_alone(1) [of 0 ?r m "Create 2" "Live (Loop 0)" 0 "[]"] by simp
  also have "(fj_step ?P)\<^sup>*\<^sup>* \<dots> (duo (Create 2) (Live (Loop ?r)) (Live (Loop ?r)) (of_nat ?r + of_nat ?r) [])"
    using duo_alone(2) [of 0 ?r m "Create 2" "Live (Loop ?r)" "of_nat ?r" "[]"] by simp
  finally show ?thesis using duo_wind_up by (rule rtranclp_trans)
qed

text \<open>
  The lost updates: thread 0 loads 0 and sleeps through all but one round of thread 1; its store
  of 1 undoes them; thread 1 loads this 1 and sleeps through the rest of thread 0's rounds.
\<close>

lemma duo_lost:
  assumes "2 \<le> m div 2"
  shows "fj_reach (counter_prog 2 m) (duo MainDone Dead Dead 2 [EndMsg 0 2, EndMsg 1 2, ValueMsg 2 m])"
proof -
  let ?P = "counter_prog 2 m" and ?r = "m div 2" and ?h = "m div 2 - 1"
  have h: "?h < ?r" "Suc ?h = ?r" "1 + ?h = ?r" using assms by simp_all
  have run: "(fj_step ?P)\<^sup>*\<^sup>* s t" if "fj_run ?P ws s = Some t" for ws s t
    using that by (rule fj_run_reaches)
  have "fj_reach ?P (duo (Create 2) (Live (Loop 0)) (Live (Loop 0)) 0 [])" by (rule duo_created)
  also have "(fj_step ?P)\<^sup>*\<^sup>* \<dots> (duo (Create 2) (Live (Store 0 0)) (Live (Loop 0)) 0 [])"
    by (rule run [of "[(Some 0, 0), (Some 0, 0)]"])
      (use h in \<open>simp add: duo_def fj_thread_def after_act_def Let_def fun_upd_twist\<close>)
  also have "(fj_step ?P)\<^sup>*\<^sup>* \<dots> (duo (Create 2) (Live (Store 0 0)) (Live (Loop ?h)) (of_nat ?h) [])"
    using duo_alone(2) [of 0 ?h m "Create 2" "Live (Store 0 0)" 0 "[]"] h by simp
  also have "(fj_step ?P)\<^sup>*\<^sup>* \<dots> (duo (Create 2) (Live (Loop 1)) (Live (Store ?h 1)) 1 [])"
    by (rule run [of "[(Some 0, 0), (Some 1, 0), (Some 1, 0)]"])
      (use h in \<open>simp add: duo_def fj_thread_def after_act_def Let_def fun_upd_twist\<close>)
  also have "(fj_step ?P)\<^sup>*\<^sup>* \<dots> (duo (Create 2) (Live (Loop ?r)) (Live (Store ?h 1)) (1 + of_nat ?h) [])"
    using duo_alone(1) [of 1 ?h m "Create 2" "Live (Store ?h 1)" 1 "[]"] h by simp
  also have "(fj_step ?P)\<^sup>*\<^sup>* \<dots> (duo (Create 2) (Live (Loop ?r)) (Live (Loop ?r)) 2 [])"
    by (rule run [of "[(Some 1, 0)]"])
      (use h in \<open>simp add: duo_def fj_thread_def after_act_def Let_def fun_upd_twist\<close>)
  finally show ?thesis using duo_wind_up by (rule rtranclp_trans)
qed

subsection \<open>\<open>intro/counter_local.c\<close>\<close>

datatype local_pc = LLoop nat cint | LAdd cint | LStore cint cint

fun local_body :: "nat \<Rightarrow> tid \<Rightarrow> counter_world \<Rightarrow> local_pc \<Rightarrow> (counter_world, local_pc) act list" where
  "local_body r i g (LLoop k v) =
     (if k < r then [Go g (LLoop (Suc k) (v + 1))]
      else [Go (g\<lparr>lines := lines g @ [EndMsg i v]\<rparr>) (LAdd v)])"
| "local_body r i g (LAdd v) = [Go g (LStore v (cval g))]"
| "local_body r i g (LStore v c) = [Exit (g\<lparr>cval := c + v\<rparr>)]"

definition counter_local_prog :: "nat \<Rightarrow> nat \<Rightarrow> (counter_world, local_pc) fj_prog" where
  "counter_local_prog n m = \<lparr>fj_threads = n, body = local_body (m div n), entry = (\<lambda>_. LLoop 0 0),
     world0 = \<lparr>cval = 0, lines = []\<rparr>, finale = report m\<rparr>"

definition ended :: "nat \<Rightarrow> (tid \<Rightarrow> 'l status) \<Rightarrow> nat" where
  "ended n st = (\<Sum>i<n. if st i = Dead then 1 else 0)"

lemma ended_same: "x \<noteq> Dead \<Longrightarrow> st i \<noteq> Dead \<Longrightarrow> ended n (st(i := x)) = ended n st"
  unfolding ended_def by (intro sum_update_same) auto

lemma ended_Suc: "i < n \<Longrightarrow> st i \<noteq> Dead \<Longrightarrow> ended n (st(i := Dead)) = Suc (ended n st)"
  unfolding ended_def by (intro sum_update_Suc [of i]) auto

text \<open>The shared counter holds the share of one thread some number of times.\<close>

definition shares :: "nat \<Rightarrow> nat \<Rightarrow> cint \<Rightarrow> bool" where
  "shares r d c \<longleftrightarrow> (\<exists>j\<le>d. c = of_nat (j * r))"

fun local_ok :: "nat \<Rightarrow> nat \<Rightarrow> local_pc status \<Rightarrow> bool" where
  "local_ok r d (Live (LLoop k v)) = (k \<le> r \<and> v = of_nat k)"
| "local_ok r d (Live (LAdd v)) = (v = of_nat r)"
| "local_ok r d (Live (LStore v c)) = (v = of_nat r \<and> shares r d c)"
| "local_ok r d _ = True"

definition local_J :: "nat \<Rightarrow> nat \<Rightarrow> counter_world \<Rightarrow> (tid \<Rightarrow> local_pc status) \<Rightarrow> bool" where
  "local_J n r g st \<longleftrightarrow> (\<forall>i<n. local_ok r (ended n st) (st i)) \<and>
     (\<exists>j\<le>ended n st. cval g = of_nat (j * r) \<and> (0 < ended n st \<longrightarrow> 0 < j))"

lemma shares_mono: "shares r d c \<Longrightarrow> d \<le> e \<Longrightarrow> shares r e c"
  unfolding shares_def by (elim exE conjE, rule exI, rule conjI, erule (1) order_trans)

lemma local_ok_mono: "local_ok r d x \<Longrightarrow> d \<le> e \<Longrightarrow> local_ok r e x"
  by (cases "(r, d, x)" rule: local_ok.cases) (auto intro: shares_mono)

lemma local_invariant: "fj_invariant (counter_local_prog n m) (local_J n (m div n))"
proof
  let ?r = "m div n"
  show "local_J n ?r (world0 (counter_local_prog n m)) (\<lambda>_. Unborn)"
    by (simp add: local_J_def ended_def counter_local_prog_def)
  show "local_J n ?r g (st(i := Live (entry (counter_local_prog n m) i)))"
    if "local_J n ?r g st" "st i = Unborn" for g st i
    using that by (auto simp: local_J_def ended_same counter_local_prog_def)
  show "local_J n ?r g' (st(i := Live l'))"
    if J: "local_J n ?r g st" and i: "i < fj_threads (counter_local_prog n m)" and at: "st i = Live l"
      and go: "Go g' l' \<in> set (body (counter_local_prog n m) i g l)" for g st i l g' l'
  proof -
    have "local_ok ?r (ended n st) (Live l)" and sh: "shares ?r (ended n st) (cval g)"
      using J i at unfolding local_J_def shares_def
      by (auto simp: counter_local_prog_def dest: spec [of _ i])
    then have "local_ok ?r (ended n st) (Live l')" "cval g' = cval g"
      using go by (cases l; force simp: counter_local_prog_def split: if_splits)+
    then show ?thesis using J at by (auto simp: local_J_def ended_same)
  qed
  show "local_J n ?r g' (st(i := Dead))"
    if J: "local_J n ?r g st" and i: "i < fj_threads (counter_local_prog n m)" and at: "st i = Live l"
      and go: "Exit g' \<in> set (body (counter_local_prog n m) i g l)" for g st i l g'
  proof -
    obtain v c where l: "l = LStore v c" "cval g' = c + v"
      using go by (cases l) (auto simp: counter_local_prog_def split: if_splits)
    have n: "i < n" using i by (simp add: counter_local_prog_def)
    then have "local_ok ?r (ended n st) (Live l)" using J at by (auto simp: local_J_def dest: spec [of _ i])
    then obtain j where "j \<le> ended n st" "c = of_nat (j * ?r)" "v = of_nat ?r"
      using l by (auto simp: shares_def)
    then have "Suc j \<le> ended n (st(i := Dead))" "cval g' = of_nat (Suc j * ?r)"
      using n at l by (simp_all add: ended_Suc algebra_simps)
    moreover have "local_ok ?r (ended n (st(i := Dead))) ((st(i := Dead)) k)" if "k < n" for k
      using J that n at by (auto simp: local_J_def ended_Suc intro: local_ok_mono)
    ultimately show ?thesis unfolding local_J_def by blast
  qed
qed

lemma counter_local_final:
  assumes "0 < n" "fj_reach (counter_local_prog n m) s" "main_at s = MainDone"
  shows "\<exists>ms j. lines (world s) = ms @ [ValueMsg (of_nat (j * (m div n))) m] \<and> 1 \<le> j \<and> j \<le> n"
proof -
  obtain g st where J: "local_J n (m div n) g st" and dead: "\<forall>i<n. st i = Dead"
      and w: "world s = report m g"
    using fj_invariant.fj_finished [OF local_invariant assms(2,3)] by (auto simp: counter_local_prog_def)
  have "ended n st = n" using dead by (simp add: ended_def)
  then obtain j where "j \<le> n" "cval g = of_nat (j * (m div n))" "0 < j"
    using J assms(1) unfolding local_J_def by auto
  then show ?thesis using w by (auto simp: report_def intro!: exI [of _ j])
qed

text \<open>Two threads that both load 0 before either stores.\<close>

definition local_race :: "(tid option \<times> nat) list" where
  "local_race = map (\<lambda>w. (w, 0)) [None, None, Some 0, Some 0, Some 0, Some 0, Some 1, Some 1, Some 1, Some 1,
     Some 0, Some 1, None, None, None, None, None]"

lemma local_lost:
  "\<exists>s. fj_reach (counter_local_prog 2 4) s \<and> main_at s = MainDone \<and>
    lines (world s) = [EndMsg 0 2, EndMsg 1 2, ValueMsg 2 4]"
proof -
  have "\<exists>s. fj_run (counter_local_prog 2 4) local_race (fj_init (counter_local_prog 2 4)) = Some s \<and>
      main_at s = MainDone \<and> lines (world s) = [EndMsg 0 2, EndMsg 1 2, ValueMsg 2 4]"
    by (simp add: local_race_def counter_local_prog_def fj_init_def fj_main_def fj_thread_def after_act_def
        report_def Let_def)
  then show ?thesis using fj_run_reaches by blast
qed

subsection \<open>\<open>hardware/counter_ultimate.c\<close>\<close>

text \<open>\<open>int c\<close> is printed at the end and has no value before the first round.\<close>

datatype ultimate_pc = ULoop nat cint

fun ultimate_body :: "nat \<Rightarrow> tid \<Rightarrow> counter_world \<Rightarrow> ultimate_pc \<Rightarrow> (counter_world, ultimate_pc) act list" where
  "ultimate_body r i g (ULoop k c) =
     (if k < r then [Go (g\<lparr>cval := cval g + 1\<rparr>) (ULoop (Suc k) (cval g + 1))]
      else [Exit (g\<lparr>lines := lines g @ [EndMsg i c]\<rparr>)])"

definition counter_ultimate_prog :: "(tid \<Rightarrow> cint) \<Rightarrow> nat \<Rightarrow> nat \<Rightarrow> (counter_world, ultimate_pc) fj_prog" where
  "counter_ultimate_prog c0 n m = \<lparr>fj_threads = n, body = ultimate_body (m div n),
     entry = (\<lambda>i. ULoop 0 (c0 i)), world0 = \<lparr>cval = 0, lines = []\<rparr>, finale = report m\<rparr>"

fun added :: "nat \<Rightarrow> ultimate_pc status \<Rightarrow> nat" where
  "added r Unborn = 0"
| "added r (Live (ULoop k c)) = k"
| "added r Dead = r"

definition all_added :: "nat \<Rightarrow> nat \<Rightarrow> (tid \<Rightarrow> ultimate_pc status) \<Rightarrow> nat" where
  "all_added n r st = (\<Sum>i<n. added r (st i))"

definition ultimate_J :: "nat \<Rightarrow> nat \<Rightarrow> counter_world \<Rightarrow> (tid \<Rightarrow> ultimate_pc status) \<Rightarrow> bool" where
  "ultimate_J n r g st \<longleftrightarrow> (\<forall>i<n. added r (st i) \<le> r) \<and> cval g = of_nat (all_added n r st)"

lemma added_same: "added r x = added r (st i) \<Longrightarrow> all_added n r (st(i := x)) = all_added n r st"
  unfolding all_added_def by (intro sum_update_same) auto

lemma added_Suc:
  "i < n \<Longrightarrow> added r x = Suc (added r (st i)) \<Longrightarrow> all_added n r (st(i := x)) = Suc (all_added n r st)"
  unfolding all_added_def by (intro sum_update_Suc [of i]) auto

definition ultimate_left :: "nat \<Rightarrow> nat \<Rightarrow> counter_world \<Rightarrow> (tid \<Rightarrow> ultimate_pc status) \<Rightarrow> nat" where
  "ultimate_left n r g st = (\<Sum>i<n. case st i of Live (ULoop k c) \<Rightarrow> Suc (r - k) | _ \<Rightarrow> 0)"

lemma ultimate_left_less:
  "i < n \<Longrightarrow> (case x of Live (ULoop k c) \<Rightarrow> Suc (r - k) | _ \<Rightarrow> 0) <
      (case st i of Live (ULoop k c) \<Rightarrow> Suc (r - k) | _ \<Rightarrow> 0) \<Longrightarrow>
    ultimate_left n r g' (st(i := x)) < ultimate_left n r g st"
  unfolding ultimate_left_def by (rule sum_update_less [of i]) auto

interpretation counter_ultimate:
  fj_live "counter_ultimate_prog c0 n m" "ultimate_J n (m div n)" "ultimate_left n (m div n)" for c0 n m
proof
  let ?P = "counter_ultimate_prog c0 n m" and ?r = "m div n"
  show "ultimate_J n ?r (world0 ?P) (\<lambda>_. Unborn)"
    by (simp add: ultimate_J_def all_added_def counter_ultimate_prog_def)
  show "ultimate_J n ?r g (st(i := Live (entry ?P i)))" if "ultimate_J n ?r g st" "st i = Unborn" for g st i
    using that added_same [of ?r "Live (ULoop 0 (c0 i))" st i n]
    by (auto simp: ultimate_J_def counter_ultimate_prog_def)
  show "ultimate_J n ?r g' (st(i := Live l'))"
    if "ultimate_J n ?r g st" "i < fj_threads ?P" "st i = Live l" "Go g' l' \<in> set (body ?P i g l)" for g st i l g' l'
    using that by (cases l)
      (auto simp: ultimate_J_def counter_ultimate_prog_def added_Suc split: if_splits)
  show "ultimate_J n ?r g' (st(i := Dead))"
    if "ultimate_J n ?r g st" "i < fj_threads ?P" "st i = Live l" "Exit g' \<in> set (body ?P i g l)" for g st i l g'
  proof -
    obtain k c where l: "l = ULoop k c" by (cases l)
    then have "k \<le> ?r" using that by (force simp: ultimate_J_def counter_ultimate_prog_def)
    then have "added ?r Dead = added ?r (st i)" and "cval g' = cval g"
      using that l by (auto simp: counter_ultimate_prog_def split: if_splits)
    then show ?thesis using that added_same [of ?r Dead st i n]
      by (auto simp: ultimate_J_def)
  qed
  show "\<exists>k<fj_threads ?P. \<exists>l. st k = Live l \<and>
      ((\<exists>g' l'. Go g' l' \<in> set (body ?P k g l) \<and> ultimate_left n ?r g' (st(k := Live l')) < ultimate_left n ?r g st) \<or>
       (\<exists>g'. Exit g' \<in> set (body ?P k g l) \<and> ultimate_left n ?r g' (st(k := Dead)) < ultimate_left n ?r g st))"
    if "\<forall>i<fj_threads ?P. st i \<noteq> Unborn" "i < fj_threads ?P" "st i \<noteq> Dead" for g st i
  proof -
    have i: "i < n" using that(2) by (simp add: counter_ultimate_prog_def)
    have "\<exists>l. st i = Live l" using that by (cases "st i") auto
    then obtain l where l: "st i = Live l" by blast
    obtain k c where k: "l = ULoop k c" by (cases l)
    show ?thesis
      using ultimate_left_less [OF i, where x = "Live (ULoop (Suc k) (cval g + 1))" and r = ?r and st = st]
        ultimate_left_less [OF i, where x = Dead and r = ?r and st = st] l k i
      by (intro exI [of _ i] conjI exI [of _ l]) (auto simp: counter_ultimate_prog_def)
  qed
qed

subsection \<open>\<open>intro/threads.c\<close>\<close>

text \<open>The world is the list of the threads that said hello.\<close>

fun hello_body :: "tid \<Rightarrow> tid list \<Rightarrow> unit \<Rightarrow> (tid list, unit) act list" where
  "hello_body i out u = [Exit (out @ [i])]"

definition threads_prog :: "nat \<Rightarrow> (tid list, unit) fj_prog" where
  "threads_prog n = \<lparr>fj_threads = n, body = hello_body, entry = (\<lambda>_. ()), world0 = [], finale = (\<lambda>g. g)\<rparr>"

definition hello_J :: "nat \<Rightarrow> tid list \<Rightarrow> (tid \<Rightarrow> unit status) \<Rightarrow> bool" where
  "hello_J n out st \<longleftrightarrow> distinct out \<and> set out = {i. i < n \<and> st i = Dead}"

interpretation threads: fj_live "threads_prog n" "hello_J n" "\<lambda>g st. n - length g" for n
proof
  show "hello_J n (world0 (threads_prog n)) (\<lambda>_. Unborn)" by (simp add: hello_J_def threads_prog_def)
  show "hello_J n g (st(i := Live (entry (threads_prog n) i)))" if "hello_J n g st" "st i = Unborn" for g st i
  proof -
    have "{j. j < n \<and> (st(i := Live x)) j = Dead} = {j. j < n \<and> st j = Dead}" for x
      using that(2) by auto
    then show ?thesis using that(1) by (simp only: hello_J_def)
  qed
  show "hello_J n g' (st(i := Live l'))"
    if "hello_J n g st" "Go g' l' \<in> set (body (threads_prog n) i g l)" for g st i l g' l'
    using that by (simp add: threads_prog_def)
  show "hello_J n g' (st(i := Dead))"
    if "hello_J n g st" "i < fj_threads (threads_prog n)" "st i = Live l"
      "Exit g' \<in> set (body (threads_prog n) i g l)" for g st i l g'
    using that by (auto simp: hello_J_def threads_prog_def)
  show "\<exists>k<fj_threads (threads_prog n). \<exists>l. st k = Live l \<and>
      ((\<exists>g' l'. Go g' l' \<in> set (body (threads_prog n) k g l) \<and> n - length g' < n - length g) \<or>
       (\<exists>g'. Exit g' \<in> set (body (threads_prog n) k g l) \<and> n - length g' < n - length g))"
    if J: "hello_J n g st" and born: "\<forall>i<fj_threads (threads_prog n). st i \<noteq> Unborn"
      and i: "i < fj_threads (threads_prog n)" "st i \<noteq> Dead" for g st i
  proof -
    have "i < n" using i(1) by (simp add: threads_prog_def)
    then have "set g \<subset> {..<n}" using J i(2) by (auto simp: hello_J_def)
    then have "card (set g) < card {..<n}" by (intro psubset_card_mono) auto
    moreover have "card (set g) = length g" using J by (intro distinct_card) (simp add: hello_J_def)
    ultimately have "length g < n" by simp
    moreover have "\<exists>l. st i = Live l" using born i by (cases "st i") auto
    ultimately show ?thesis using i by (intro exI [of _ i]) (auto simp: threads_prog_def)
  qed
qed

subsection \<open>Termination\<close>

text \<open>What each thread may still do: three steps a round for a load and a store, one otherwise.\<close>

fun counter_left :: "nat \<Rightarrow> counter_pc \<Rightarrow> nat" where
  "counter_left r (Loop k) = 3 * (r - k) + 3"
| "counter_left r (Load k) = 3 * (r - Suc k) + 5"
| "counter_left r (Store k v) = 3 * (r - Suc k) + 4"
| "counter_left r LastLoad = 2"
| "counter_left r (LastPrint v) = 1"

fun local_left :: "nat \<Rightarrow> local_pc \<Rightarrow> nat" where
  "local_left r (LLoop k v) = r - k + 3"
| "local_left r (LAdd v) = 2"
| "local_left r (LStore v c) = 1"

fun hellos_left :: "unit \<Rightarrow> nat" where "hellos_left u = 1"

fun rounds_left :: "nat \<Rightarrow> ultimate_pc \<Rightarrow> nat" where
  "rounds_left r (ULoop k c) = r - k + 1"

lemma counter_total: "fj_total (counter_prog n m) (counter_left (m div n)) (3 * (m div n) + 3)"
proof
  show "Go g' l' \<in> set (body (counter_prog n m) i g l) \<Longrightarrow> counter_left (m div n) l' < counter_left (m div n) l" for g' l' i g l
    by (cases l) (auto split: if_splits)
  show "body (counter_prog n m) i g l \<noteq> []" for i g l by (cases l) auto
qed simp

lemma local_total: "fj_total (counter_local_prog n m) (local_left (m div n)) (m div n + 3)"
proof
  show "Go g' l' \<in> set (body (counter_local_prog n m) i g l) \<Longrightarrow> local_left (m div n) l' < local_left (m div n) l" for g' l' i g l
    by (cases l) (auto simp: counter_local_prog_def split: if_splits)
  show "body (counter_local_prog n m) i g l \<noteq> []" for i g l by (cases l) (auto simp: counter_local_prog_def)
qed (simp add: counter_local_prog_def)

lemma ultimate_total: "fj_total (counter_ultimate_prog c0 n m) (rounds_left (m div n)) (m div n + 1)"
proof
  show "Go g' l' \<in> set (body (counter_ultimate_prog c0 n m) i g l) \<Longrightarrow> rounds_left (m div n) l' < rounds_left (m div n) l" for g' l' i g l
    by (cases l) (auto simp: counter_ultimate_prog_def split: if_splits)
  show "body (counter_ultimate_prog c0 n m) i g l \<noteq> []" for i g l by (cases l) (auto simp: counter_ultimate_prog_def)
qed (simp add: counter_ultimate_prog_def)

interpretation hello_total: fj_total "threads_prog n" hellos_left 1 for n
  by unfold_locales (auto simp: threads_prog_def)

interpretation counter_total: fj_total "counter_prog n m" "counter_left (m div n)" "3 * (m div n) + 3" for n m
  by (rule counter_total)

interpretation local_total: fj_total "counter_local_prog n m" "local_left (m div n)" "m div n + 3" for n m
  by (rule local_total)

interpretation ultimate_total: fj_total "counter_ultimate_prog c0 n m" "rounds_left (m div n)" "m div n + 1" for c0 n m
  by (rule ultimate_total)

text \<open>Every run of \<open>P\<close> has at most \<open>k\<close> steps and can only stop when \<open>main\<close> has returned.\<close>

definition runs_end :: "('g, 'l) fj_prog \<Rightarrow> nat \<Rightarrow> bool" where
  "runs_end P k \<longleftrightarrow> (\<forall>j s. (fj_step P ^^ j) (fj_init P) s \<longrightarrow>
     j \<le> k \<and> (main_at s \<noteq> MainDone \<longrightarrow> (\<exists>t. fj_step P s t)))"

subsection \<open>Properties\<close>

text \<open>Both ends of that range are reached with two threads: the program can print that 2
  increments were counted however many rounds the threads make, and it can print them all.\<close>

lemma counter_extremes:
  assumes "2 \<le> m div 2"
  shows "(\<exists>s. fj_reach (counter_prog 2 m) s \<and> main_at s = MainDone \<and>
      lines (world s) = [EndMsg 0 2, EndMsg 1 2, ValueMsg 2 m]) \<and>
    (\<exists>s ms. fj_reach (counter_prog 2 m) s \<and> main_at s = MainDone \<and>
      lines (world s) = ms @ [ValueMsg (of_nat (2 * (m div 2))) m])"
proof -
  let ?c = "of_nat (m div 2) + of_nat (m div 2) :: cint"
  have "?c = of_nat (2 * (m div 2))" by (simp only: mult_2 of_nat_add)
  then have "lines (world (duo MainDone Dead Dead ?c [EndMsg 0 ?c, EndMsg 1 ?c, ValueMsg ?c m])) =
      [EndMsg 0 ?c, EndMsg 1 ?c] @ [ValueMsg (of_nat (2 * (m div 2))) m]"
    by (simp only: duo_simps append.simps)
  then have "\<exists>s ms. fj_reach (counter_prog 2 m) s \<and> main_at s = MainDone \<and>
      lines (world s) = ms @ [ValueMsg (of_nat (2 * (m div 2))) m]"
    using duo_full [of m] duo_simps(1) by blast
  moreover have "\<exists>s. fj_reach (counter_prog 2 m) s \<and> main_at s = MainDone \<and>
      lines (world s) = [EndMsg 0 2, EndMsg 1 2, ValueMsg 2 m]"
    using duo_lost [OF assms] duo_simps by blast
  ultimately show ?thesis by blast
qed

text \<open>C9: whatever the interleaving, the unprotected counter ends between 2 and the number of
  increments, if each thread makes at least two and their number fits 32 bits; with two threads
  both ends of that range are reached, however many rounds the threads make.\<close>

theorem counter_range:
  assumes "n * (m div n) < 2 ^ 32" "2 \<le> m div n" and "2 \<le> k div 2"
    and "fj_reach (counter_prog n m) s" "main_at s = MainDone"
  shows "(\<exists>ms c. lines (world s) = ms @ [ValueMsg c m] \<and> 2 \<le> unat c \<and> unat c \<le> n * (m div n)) \<and>
    (\<exists>s. fj_reach (counter_prog 2 k) s \<and> main_at s = MainDone \<and>
      lines (world s) = [EndMsg 0 2, EndMsg 1 2, ValueMsg 2 k]) \<and>
    (\<exists>s ms. fj_reach (counter_prog 2 k) s \<and> main_at s = MainDone \<and>
      lines (world s) = ms @ [ValueMsg (of_nat (2 * (k div 2))) k])"
  using counter_final [OF assms(1,2,4,5)] counter_extremes [OF assms(3)] by blast

theorem counter_range_witness:
  "(\<exists>s ms c. fj_reach (counter_prog 2 10000000) s \<and> lines (world s) = ms @ [ValueMsg c 10000000] \<and>
    2 \<le> unat c \<and> unat c \<le> 10000000) \<and>
   (\<exists>s. fj_reach (counter_prog 2 10000000) s \<and> main_at s = MainDone \<and>
      lines (world s) = [EndMsg 0 2, EndMsg 1 2, ValueMsg 2 10000000])"
proof -
  obtain s where s: "fj_reach (counter_prog 2 10000000) s" "main_at s = MainDone"
    using duo_full [of 10000000] by (force simp: duo_def)
  then show ?thesis using counter_range [of 2 10000000 10000000 s] by auto
qed

lemma counter_ultimate_correct:
  assumes "fj_reach (counter_ultimate_prog c0 n m) s"
  shows "(main_at s = MainDone \<longrightarrow>
      (\<exists>ms. lines (world s) = ms @ [ValueMsg (of_nat (n * (m div n))) m])) \<and>
    (\<exists>t. (fj_step (counter_ultimate_prog c0 n m))\<^sup>*\<^sup>* s t \<and> main_at t = MainDone)"
proof (intro conjI impI)
  assume "main_at s = MainDone"
  from counter_ultimate.fj_finished [OF assms this] obtain g st where
    "ultimate_J n (m div n) g st" "\<forall>i<n. st i = Dead" "world s = report m g"
    by (auto simp: counter_ultimate_prog_def)
  then show "\<exists>ms. lines (world s) = ms @ [ValueMsg (of_nat (n * (m div n))) m]"
    by (auto simp: ultimate_J_def all_added_def report_def)
next
  show "\<exists>t. (fj_step (counter_ultimate_prog c0 n m))\<^sup>*\<^sup>* s t \<and> main_at t = MainDone"
    using counter_ultimate.fj_finishes assms unfolding fj_can_finish_def by blast
qed

text \<open>C10: counting in a local variable leaves one addition per thread unprotected: what
  \<open>counter_local.c\<close> prints is the share of one thread times a number from 1 to the number of
  threads. With the atomic addition of \<open>counter_ultimate.c\<close> nothing is lost: whenever \<open>main\<close> ends it has printed
  the number of increments, and from every reachable state it can end.\<close>

theorem local_and_atomic_counters_correct:
  "(0 < n \<and> fj_reach (counter_local_prog n m) s \<and> main_at s = MainDone \<longrightarrow>
     (\<exists>ms j. lines (world s) = ms @ [ValueMsg (of_nat (j * (m div n))) m] \<and> 1 \<le> j \<and> j \<le> n)) \<and>
   (fj_reach (counter_ultimate_prog c0 n m) t \<longrightarrow>
     (main_at t = MainDone \<longrightarrow> (\<exists>ms. lines (world t) = ms @ [ValueMsg (of_nat (n * (m div n))) m])) \<and>
     (\<exists>u. (fj_step (counter_ultimate_prog c0 n m))\<^sup>*\<^sup>* t u \<and> main_at u = MainDone))"
  using counter_local_final counter_ultimate_correct by blast

text \<open>The addition of one thread can be lost: the witness has a run of two threads that ends with
  the share of one.\<close>

theorem local_and_atomic_counters_correct_witness:
  "(\<exists>s. fj_reach (counter_local_prog 2 4) s \<and> lines (world s) = [EndMsg 0 2, EndMsg 1 2, ValueMsg 2 4] \<and>
     (\<exists>ms j. lines (world s) = ms @ [ValueMsg (of_nat (j * (4 div 2))) 4] \<and> 1 \<le> j \<and> j \<le> 2)) \<and>
   (\<exists>s ms. fj_reach (counter_ultimate_prog (\<lambda>_. 0) 4 10000000) s \<and> main_at s = MainDone \<and>
     lines (world s) = ms @ [ValueMsg 10000000 10000000])"
proof
  note local = local_and_atomic_counters_correct [THEN conjunct1, THEN mp, of 2 4]
  show "\<exists>s. fj_reach (counter_local_prog 2 4) s \<and> lines (world s) = [EndMsg 0 2, EndMsg 1 2, ValueMsg 2 4] \<and>
     (\<exists>ms j. lines (world s) = ms @ [ValueMsg (of_nat (j * (4 div 2))) 4] \<and> 1 \<le> j \<and> j \<le> 2)"
    using local_lost local by (metis zero_less_numeral)
  note atomic = local_and_atomic_counters_correct [THEN conjunct2, THEN mp, of "\<lambda>_. 0" 4 10000000]
  obtain t where t: "fj_reach (counter_ultimate_prog (\<lambda>_. 0) 4 10000000) t" "main_at t = MainDone"
    using atomic [of "fj_init (counter_ultimate_prog (\<lambda>_. 0) 4 10000000)"] by blast
  then show "\<exists>s ms. fj_reach (counter_ultimate_prog (\<lambda>_. 0) 4 10000000) s \<and> main_at s = MainDone \<and>
     lines (world s) = ms @ [ValueMsg 10000000 10000000]"
    using atomic [of t] by auto
qed

text \<open>C11: the programs that do not wait for each other's threads end whatever the scheduler does: no
  run of the four is longer than the bound, linear in the rounds, and a run only stops when
  \<open>main\<close> has returned.\<close>

theorem counters_terminate:
  "runs_end (threads_prog n) (4 * n + 3) \<and>
   runs_end (counter_prog n m) (n * (3 * (m div n) + 6) + 3) \<and>
   runs_end (counter_local_prog n m) (n * (m div n + 6) + 3) \<and>
   runs_end (counter_ultimate_prog c0 n m) (n * (m div n + 4) + 3)"
proof (intro conjI)
  show "runs_end (threads_prog n) (4 * n + 3)"
    using hello_total.all_runs_end [of _ n] by (simp add: runs_end_def threads_prog_def algebra_simps)
  show "runs_end (counter_prog n m) (n * (3 * (m div n) + 6) + 3)"
    using counter_total.all_runs_end [of _ n m] by (simp add: runs_end_def algebra_simps)
  show "runs_end (counter_local_prog n m) (n * (m div n + 6) + 3)"
    using local_total.all_runs_end [of _ n m] by (simp add: runs_end_def counter_local_prog_def algebra_simps)
  show "runs_end (counter_ultimate_prog c0 n m) (n * (m div n + 4) + 3)"
    using ultimate_total.all_runs_end [of _ c0 n m] by (simp add: runs_end_def counter_ultimate_prog_def algebra_simps)
qed

text \<open>Every thread of \<open>threads.c\<close> says hello exactly once before \<open>main\<close> ends, in some order.\<close>

theorem threads_all_say_hello:
  assumes "fj_reach (threads_prog n) s" "main_at s = MainDone"
  shows "distinct (world s) \<and> set (world s) = {..<n}"
proof -
  obtain st where "hello_J n (world s) st" "\<forall>i<n. st i = Dead"
    using threads.fj_finished [OF assms] by (auto simp: threads_prog_def)
  then show ?thesis by (auto simp: hello_J_def)
qed

theorem threads_all_say_hello_witness:
  "\<exists>s. fj_reach (threads_prog 2) s \<and> distinct (world s) \<and> set (world s) = {..<2}"
proof -
  have "fj_reach (threads_prog 2) (fj_init (threads_prog 2))" by simp
  then obtain t where t: "fj_reach (threads_prog 2) t" "main_at t = MainDone"
    using threads.fj_finishes [of 2] unfolding fj_can_finish_def by blast
  then show ?thesis using threads_all_say_hello [of 2 t] by blast
qed

end
