(* ===== verification/Futex.thy ===== *)
theory Futex
  imports Harness
begin

section \<open>Futexes: the kernel's wait queues\<close>

text \<open>
  The calls the programs under \<open>futex/\<close> make of the kernel, by its documentation. \<open>FUTEX_WAIT\<close>
  compares the word with the value given and, if they are equal, puts the caller to sleep, both in
  one step; otherwise it returns at once. \<open>FUTEX_WAKE\<close> wakes up to a number of the sleepers, any of
  them, and returns how many. The sleepers of a word are a list in the globals; a sleeping
  thread is at a control point it cannot leave while it is in the list. A wait may also return
  without a wake-up (a signal, a spurious wake-up): a parameter \<open>spurious\<close> of the programs says
  whether the model has those returns. Safety is proved with them; that nothing gets
  stuck is proved without, since they would hide a lost wake-up.
\<close>

text \<open>Every outcome of waking one: the number woken and the sleepers left.\<close>

definition wake_one :: "tid list \<Rightarrow> (nat \<times> tid list) list" where
  "wake_one ws = (if ws = [] then [(0, [])] else map (\<lambda>w. (1, removeAll w ws)) ws)"

text \<open>The return of a wait: the sleepers left, if the thread can return.\<close>

definition wait_returns :: "bool \<Rightarrow> tid \<Rightarrow> tid list \<Rightarrow> tid list list" where
  "wait_returns spurious i ws =
     (if i \<in> set ws then (if spurious then [removeAll i ws] else []) else [ws])"

lemma wake_one_nonempty: "ws \<noteq> [] \<Longrightarrow> \<exists>w \<in> set ws. (1, removeAll w ws) \<in> set (wake_one ws)"
  by (cases ws) (auto simp: wake_one_def)

lemma wake_one_some: "\<exists>k vs. (k, vs) \<in> set (wake_one ws)"
  by (cases ws) (auto simp: wake_one_def)

lemma wake_one_cases:
  assumes "(k, vs) \<in> set (wake_one ws)"
  obtains "ws = []" "k = 0" "vs = []" | w where "w \<in> set ws" "k = 1" "vs = removeAll w ws"
  using assms by (auto simp: wake_one_def split: if_splits)

lemma wait_returns_cases:
  assumes "vs \<in> set (wait_returns spurious i ws)"
  shows "vs = removeAll i ws"
  using assms by (auto simp: wait_returns_def split: if_splits)

lemma wait_returns_awake: "i \<notin> set ws \<Longrightarrow> ws \<in> set (wait_returns spurious i ws)"
  by (simp add: wait_returns_def)

text \<open>
  The sleepers are threads that wait, and when there are any, somebody will see to them: a
  condition on the word holds, or a thread is about to help, or a waiting thread is awake.
\<close>

definition sleeping ::
  "nat \<Rightarrow> (phase \<Rightarrow> 'l \<Rightarrow> bool) \<Rightarrow> (phase \<Rightarrow> 'l \<Rightarrow> bool) \<Rightarrow> bool \<Rightarrow> tid list \<Rightarrow> ('s, 'l) lock_state \<Rightarrow> bool" where
  "sleeping n waits helps c ws s \<longleftrightarrow> set ws \<subseteq> those n waits s \<and>
     (ws = [] \<or> c \<or> those n helps s \<noteq> {} \<or> \<not> those n waits s \<subseteq> set ws)"

lemma sleeping_init: "sleeping n waits helps c [] s"
  by (simp add: sleeping_def)

lemma sleeping_calls [simp]: "sleeping n waits helps c ws (s\<lparr>calls := k\<rparr>) = sleeping n waits helps c ws s"
  by (simp add: sleeping_def)

lemma sleeping_same:
  assumes s: "sleeping n waits helps c ws s" and i: "i < n"
    and w: "waits p l = waits (phase_of s i) (local_of s i)"
    and h: "c \<or> helps (phase_of s i) (local_of s i) \<Longrightarrow> c' \<or> helps p l"
  shows "sleeping n waits helps c' ws (move i p g l s)"
proof -
  have "those n helps (move i p g l s) \<noteq> {} \<or> c'" if "those n helps s \<noteq> {} \<or> c"
    using that h i by (auto simp: those_move those_mem)
  then show ?thesis using s unfolding sleeping_def those_same [of i n waits p l s g, OF i w] by blast
qed

lemma sleeping_sleep:
  assumes "sleeping n waits helps c ws s" "i < n" "waits p l" "c'"
  shows "sleeping n waits helps c' (ws @ [i]) (move i p g l s)"
  using assms by (auto simp: sleeping_def those_move)

lemma sleeping_return:
  assumes "sleeping n waits helps c ws s" "i < n" "\<not> waits p l" "helps p l"
  shows "sleeping n waits helps c' (removeAll i ws) (move i p g l s)"
  using assms by (auto simp: sleeping_def those_move)

lemma sleeping_wake:
  assumes s: "sleeping n waits helps c ws s" and i: "i < n" and wake: "(k, ws') \<in> set (wake_one ws)"
    and "\<not> waits p l" "\<not> waits (phase_of s i) (local_of s i)"
  shows "sleeping n waits helps c' ws' (move i p g l s)"
proof -
  have same: "those n waits (move i p g l s) = those n waits s" using i assms(4,5) by (simp add: those_same)
  from wake show ?thesis
    by (cases rule: wake_one_cases) (use s in \<open>auto simp: sleeping_def same\<close>)
qed

lemma sleeping_wake_all: "i < n \<Longrightarrow> sleeping n waits helps c [] s"
  by (simp add: sleeping_def)

text \<open>With nobody else to see to it, a waiting thread is awake.\<close>

lemma sleeping_awake:
  assumes "sleeping n waits helps c ws s" "\<not> c" "those n helps s = {}" "i < n"
    "waits (phase_of s i) (local_of s i)"
  obtains k where "k < n" "waits (phase_of s k) (local_of s k)" "k \<notin> set ws"
proof -
  have "i \<in> those n waits s" using assms(4,5) by (simp add: those_mem)
  then have "\<exists>k \<in> those n waits s. k \<notin> set ws" using assms(1-3) by (auto simp: sleeping_def)
  then show ?thesis using that by (auto simp: those_mem)
qed

lemma owned_pass:
  assumes "owned h A" "i \<in> A" "A' - {i, j} = A - {i, j}" "i \<notin> A'" "j \<in> A'" "h'"
  shows "owned h' A'"
proof -
  have "A - {i, j} = {}" using owned_unique [OF assms(1,2)] by blast
  then have "A' - {i, j} = {}" unfolding assms(3) .
  then have "A' = {j}" using assms(4,5) by blast
  then show ?thesis using assms(6) by (simp add: owned_def)
qed

text \<open>A counter that follows the size of a set one thread enters or leaves.\<close>

lemma count_change:
  fixes w w' :: "'a::ring_1"
  assumes others: "\<And>j. j \<noteq> i \<Longrightarrow> j \<in> A' \<longleftrightarrow> j \<in> A" and fin: "finite A" and w: "w = of_nat (card A)"
    and "(i \<in> A') = (i \<in> A) \<and> w' = w \<or> i \<in> A' \<and> i \<notin> A \<and> w' = w + 1 \<or> i \<notin> A' \<and> i \<in> A \<and> w' = w - 1"
  shows "w' = of_nat (card A')"
  using assms(4)
proof (elim disjE conjE)
  assume a: "(i \<in> A') = (i \<in> A)" "w' = w"
  have "j \<in> A' \<longleftrightarrow> j \<in> A" for j using others [of j] a(1) by (cases "j = i") auto
  then have "A' = A" by blast
  then show ?thesis using a(2) w by simp
next
  assume a: "i \<in> A'" "i \<notin> A" "w' = w + 1"
  have "j \<in> A' \<longleftrightarrow> j \<in> insert i A" for j using others [of j] a(1) by (cases "j = i") auto
  then have "A' = insert i A" by blast
  then show ?thesis using a w fin by simp
next
  assume a: "i \<notin> A'" "i \<in> A" "w' = w - 1"
  have "j \<in> A' \<longleftrightarrow> j \<in> A - {i}" for j using others [of j] a(1) by (cases "j = i") auto
  then have "A' = A - {i}" by blast
  moreover have "card A = Suc (card (A - {i}))" by (rule card_Suc_Diff1 [OF fin a(2), symmetric])
  ultimately show ?thesis using a(3) w by simp
qed

text \<open>A run that puts two threads between \<open>lock\<close> and \<open>unlock\<close>.\<close>

lemma run_breaks_exclusion:
  assumes "run_schedule P ws (prog_init P) = Some s" "critical s i" "critical s j"
    "i < num_threads P" "j < num_threads P" "i \<noteq> j"
  shows "\<not> mutual_exclusion P"
  using assms run_schedule_reaches unfolding mutual_exclusion_def by blast

end
