(* ===== verification/Drepper_Mutex.thy ===== *)
theory Drepper_Mutex
  imports Futex
begin

section \<open>Drepper's futex mutex\<close>

text \<open>
  \<open>futex/mutex_drepper.c\<close>. The word is 0 for free, 1 for locked, 2 for locked with waiters. A contender sets it to 2 before
  it sleeps, so that \<open>unlock\<close> of a word that was 2 wakes one sleeper; the one that wakes sets it to
  2 again, since it cannot know whether there are more.
\<close>

record drepper_globals =
  dword :: cint
  dsleepers :: "tid list"

datatype drepper_pc = DIdle | DCas | DXchg | DCallWait | DAsleep | DFetchSub | DStoreZero | DWake

definition drepper_lock ::
  "bool \<Rightarrow> tid \<Rightarrow> drepper_globals \<Rightarrow> drepper_pc \<Rightarrow> (drepper_globals, drepper_pc) outcome list" where
  "drepper_lock spurious i g l = (case l of
       DCas \<Rightarrow> [if dword g = 0 then Returned (g\<lparr>dword := 1\<rparr>) DIdle
               else Running g (if dword g \<noteq> 2 then DXchg else DCallWait)]
     | DXchg \<Rightarrow> [if dword g \<noteq> 0 then Running (g\<lparr>dword := 2\<rparr>) DCallWait
                else Returned (g\<lparr>dword := 2\<rparr>) DIdle]
     | DCallWait \<Rightarrow> [if dword g = 2 then Running (g\<lparr>dsleepers := dsleepers g @ [i]\<rparr>) DAsleep
                    else Running g DXchg]
     | DAsleep \<Rightarrow> map (\<lambda>ws. Running (g\<lparr>dsleepers := ws\<rparr>) DXchg) (wait_returns spurious i (dsleepers g))
     | _ \<Rightarrow> [])"

definition drepper_unlock ::
  "tid \<Rightarrow> drepper_globals \<Rightarrow> drepper_pc \<Rightarrow> (drepper_globals, drepper_pc) outcome list" where
  "drepper_unlock i g l = (case l of
       DFetchSub \<Rightarrow> [if dword g \<noteq> 1 then Running (g\<lparr>dword := dword g - 1\<rparr>) DStoreZero
                    else Returned (g\<lparr>dword := dword g - 1\<rparr>) DIdle]
     | DStoreZero \<Rightarrow> [Running (g\<lparr>dword := 0\<rparr>) DWake]
     | DWake \<Rightarrow> map (\<lambda>(k, ws). Returned (g\<lparr>dsleepers := ws\<rparr>) DIdle) (wake_one (dsleepers g))
     | _ \<Rightarrow> [])"

definition drepper_impl :: "bool \<Rightarrow> (drepper_globals, drepper_pc) lock_impl" where
  "drepper_impl spurious = \<lparr>lock_call = (\<lambda>w i l. DCas), lock_step = drepper_lock spurious,
     unlock_call = (\<lambda>i l. DFetchSub), unlock_step = drepper_unlock\<rparr>"

definition drepper_prog :: "bool \<Rightarrow> nat \<Rightarrow> nat \<Rightarrow> (drepper_globals, drepper_pc) program" where
  "drepper_prog spurious num_thr max_cnt = \<lparr>impl = drepper_impl spurious, num_threads = num_thr,
     max_count = max_cnt, expected_count = max_cnt, cells = 1, target = one_counter,
     globals0 = \<lparr>dword = 0, dsleepers = []\<rparr>, locals0 = (\<lambda>_. DIdle)\<rparr>"

type_synonym drepper_state = "(drepper_globals, drepper_pc) lock_state"

fun drepper_ok :: "phase \<Rightarrow> drepper_pc \<Rightarrow> bool" where
  "drepper_ok Try l = (l \<in> {DCas, DXchg, DCallWait, DAsleep})"
| "drepper_ok Rel l = (l \<in> {DFetchSub, DStoreZero, DWake})"
| "drepper_ok _ l = (l = DIdle)"

text \<open>Who owns the word, and who will set it to 2 or wake a sleeper.\<close>

fun drepper_owns :: "phase \<Rightarrow> drepper_pc \<Rightarrow> bool" where
  "drepper_owns Crit l = True"
| "drepper_owns Rel l = (l \<noteq> DWake)"
| "drepper_owns _ l = False"

fun drepper_helps :: "phase \<Rightarrow> drepper_pc \<Rightarrow> bool" where
  "drepper_helps Try l = (l = DXchg \<or> l = DCallWait)"
| "drepper_helps Rel l = (l = DStoreZero \<or> l = DWake)"
| "drepper_helps _ l = False"

fun drepper_waits :: "phase \<Rightarrow> drepper_pc \<Rightarrow> bool" where
  "drepper_waits p l = (p = Try \<and> l = DAsleep)"

definition drepper_inv :: "nat \<Rightarrow> drepper_state \<Rightarrow> bool" where
  "drepper_inv n s \<longleftrightarrow>
     (\<forall>i<n. drepper_ok (phase_of s i) (local_of s i)) \<and>
     owned (dword (shared s) \<noteq> 0) (those n drepper_owns s) \<and> dword (shared s) \<in> {0, 1, 2} \<and>
     sleeping n drepper_waits drepper_helps (dword (shared s) = 2) (dsleepers (shared s)) s"

lemma drepper_move:
  assumes s: "drepper_inv n s" and i: "i < n" and ok: "drepper_ok p l" and val: "dword g \<in> {0, 1, 2}"
    and own: "drepper_owns p l = drepper_owns (phase_of s i) (local_of s i) \<and> (dword g = 0) = (dword (shared s) = 0) \<or>
      drepper_owns p l \<and> dword (shared s) = 0 \<and> dword g \<noteq> 0 \<or>
      \<not> drepper_owns p l \<and> drepper_owns (phase_of s i) (local_of s i) \<and> dword g = 0"
    and sleep: "sleeping n drepper_waits drepper_helps (dword g = 2) (dsleepers g) (move i p g l s)"
  shows "drepper_inv n (move i p g l s)"
proof -
  have "owned (dword g \<noteq> 0) (those n drepper_owns (move i p g l s))"
    by (rule owned_move [of "dword (shared s) \<noteq> 0"]) (use s i own in \<open>auto simp: drepper_inv_def\<close>)
  then show ?thesis using s ok val sleep by (simp add: drepper_inv_def)
qed

text \<open>A step that leaves the sleepers alone.\<close>

lemma drepper_plain:
  assumes s: "drepper_inv n s" and i: "i < n" and "drepper_ok p l" "dword g \<in> {0, 1, 2}"
    and "drepper_owns p l = drepper_owns (phase_of s i) (local_of s i) \<and> (dword g = 0) = (dword (shared s) = 0) \<or>
      drepper_owns p l \<and> dword (shared s) = 0 \<and> dword g \<noteq> 0 \<or>
      \<not> drepper_owns p l \<and> drepper_owns (phase_of s i) (local_of s i) \<and> dword g = 0"
    and "dsleepers g = dsleepers (shared s)" "drepper_waits p l = drepper_waits (phase_of s i) (local_of s i)"
    and "dword (shared s) = 2 \<or> drepper_helps (phase_of s i) (local_of s i) \<Longrightarrow> dword g = 2 \<or> drepper_helps p l"
  shows "drepper_inv n (move i p g l s)"
proof (rule drepper_move [OF assms(1-5)])
  have "sleeping n drepper_waits drepper_helps (dword (shared s) = 2) (dsleepers (shared s)) s"
    using s by (simp add: drepper_inv_def)
  from sleeping_same [OF this i assms(7), of "dword g = 2"] assms(8)
  show "sleeping n drepper_waits drepper_helps (dword g = 2) (dsleepers g) (move i p g l s)"
    unfolding assms(6) by blast
qed

lemma drepper_act:
  assumes s: "drepper_inv n s" and act: "lock_act (drepper_impl spurious) n s t"
  shows "drepper_inv n t"
proof -
  have ok: "drepper_ok (phase_of s i) (local_of s i)" if "i < n" for i using s that by (simp add: drepper_inv_def)
  have val: "dword (shared s) \<in> {0, 1, 2}" using s by (simp add: drepper_inv_def)
  have sl: "sleeping n drepper_waits drepper_helps (dword (shared s) = 2) (dsleepers (shared s)) s"
    using s by (simp add: drepper_inv_def)
  have own: "dword (shared s) \<noteq> 0" if "i < n" "drepper_owns (phase_of s i) (local_of s i)" for i
    using s that owned_holds [of "dword (shared s) \<noteq> 0" "those n drepper_owns s" i]
    by (simp add: drepper_inv_def those_mem)
  note move = drepper_move [OF s] and plain = drepper_plain [OF s]
  show ?thesis
    using act
  proof cases
    case (lock_runs i g l)
    note i = lock_runs(2) and at = lock_runs(3)
    have "drepper_inv n (move i Try g l s)"
    proof (cases "local_of s i")
      case DCas
      then have "dword (shared s) \<noteq> 0" "g = shared s" "l = DXchg \<or> l = DCallWait"
        using lock_runs(4) by (auto simp: drepper_impl_def drepper_lock_def split: if_splits)
      then show ?thesis using i at DCas val by (intro plain) auto
    next
      case DXchg
      then have "dword (shared s) \<noteq> 0" "g = (shared s)\<lparr>dword := 2\<rparr>" "l = DCallWait"
        using lock_runs(4) by (auto simp: drepper_impl_def drepper_lock_def split: if_splits)
      then show ?thesis using i at DXchg by (intro plain) auto
    next
      case DCallWait
      then consider "dword (shared s) = 2" "g = (shared s)\<lparr>dsleepers := dsleepers (shared s) @ [i]\<rparr>" "l = DAsleep"
        | "g = shared s" "l = DXchg"
        using lock_runs(4) by (auto simp: drepper_impl_def drepper_lock_def split: if_splits)
      then show ?thesis
      proof cases
        case 1
        have "sleeping n drepper_waits drepper_helps (dword g = 2) (dsleepers (shared s) @ [i]) (move i Try g l s)"
          by (rule sleeping_sleep [OF sl i]) (use 1 in simp_all)
        then show ?thesis using i at DCallWait 1 by (intro move) auto
      next
        case 2
        then show ?thesis using i at DCallWait val by (intro plain) auto
      qed
    next
      case DAsleep
      then obtain ws where "g = (shared s)\<lparr>dsleepers := ws\<rparr>" "l = DXchg" "ws = removeAll i (dsleepers (shared s))"
        using lock_runs(4) by (auto simp: drepper_impl_def drepper_lock_def dest: wait_returns_cases)
      moreover have "sleeping n drepper_waits drepper_helps (dword g = 2) (removeAll i (dsleepers (shared s)))
          (move i Try g l s)"
        by (rule sleeping_return [OF sl i]) (use calculation in simp_all)
      ultimately show ?thesis using i at DAsleep val by (intro move) auto
    qed (use lock_runs(4) in \<open>simp_all add: drepper_impl_def drepper_lock_def\<close>)
    then show ?thesis using lock_runs(1) by simp
  next
    case (lock_returns i g l)
    note i = lock_returns(2) and at = lock_returns(3)
    have "dword (shared s) = 0 \<and> l = DIdle \<and>
        (local_of s i = DCas \<and> g = (shared s)\<lparr>dword := 1\<rparr> \<or> local_of s i = DXchg \<and> g = (shared s)\<lparr>dword := 2\<rparr>)"
      using lock_returns(4) by (auto simp: drepper_impl_def drepper_lock_def split: drepper_pc.splits if_splits)
    then have "drepper_inv n (move i Crit g l s)"
      using i at by (elim conjE disjE; intro plain) auto
    then show ?thesis using lock_returns(1) by simp
  next
    case (unlock_called i)
    then have "drepper_inv n (move i Rel (shared s) DFetchSub s)"
      using ok val by (intro plain) auto
    then show ?thesis using unlock_called(1) by (simp add: drepper_impl_def)
  next
    case (unlock_runs i g l)
    note i = unlock_runs(2) and at = unlock_runs(3)
    consider "local_of s i = DFetchSub" "dword (shared s) \<noteq> 1" "g = (shared s)\<lparr>dword := dword (shared s) - 1\<rparr>" "l = DStoreZero"
      | "local_of s i = DStoreZero" "g = (shared s)\<lparr>dword := 0\<rparr>" "l = DWake"
      using unlock_runs(4) by (auto simp: drepper_impl_def drepper_unlock_def split: drepper_pc.splits if_splits)
    then have "drepper_inv n (move i Rel g l s)"
    proof cases
      case 1
      then have "dword (shared s) = 2" using own [OF i] at val by auto
      then show ?thesis using 1 i at by (intro plain) auto
    next
      case 2
      then show ?thesis using own [OF i] i at by (intro plain) auto
    qed
    then show ?thesis using unlock_runs(1) by simp
  next
    case (unlock_returns i g l)
    note i = unlock_returns(2) and at = unlock_returns(3)
    consider "local_of s i = DFetchSub" "dword (shared s) = 1" "g = (shared s)\<lparr>dword := 0\<rparr>" "l = DIdle"
      | k ws where "local_of s i = DWake" "(k, ws) \<in> set (wake_one (dsleepers (shared s)))"
        "g = (shared s)\<lparr>dsleepers := ws\<rparr>" "l = DIdle"
      using unlock_returns(4) by (auto simp: drepper_impl_def drepper_unlock_def split: drepper_pc.splits if_splits)
    then have "drepper_inv n (move i Out g l s)"
    proof cases
      case 1
      then show ?thesis using i at by (intro plain) auto
    next
      case (2 k ws)
      have "sleeping n drepper_waits drepper_helps (dword g = 2) ws (move i Out g l s)"
        by (rule sleeping_wake [OF sl i 2(2)]) (use at 2 in simp_all)
      then show ?thesis using i at 2 val by (intro move) auto
    qed
    then show ?thesis using unlock_returns(1) by simp
  qed
qed

lemma drepper_init: "drepper_inv n (lock_init \<lparr>dword = 0, dsleepers = []\<rparr> (\<lambda>_. DIdle))"
  by (simp add: drepper_inv_def owned_def those_def lock_init_def sleeping_init)

lemma drepper_call:
  assumes s: "drepper_inv n s" and i: "i < n" and out: "phase_of s i = Out"
  shows "drepper_inv n ((move i Try (shared s) (lock_call (drepper_impl spurious) w i (local_of s i)) s)\<lparr>calls := c\<rparr>)"
proof -
  have "drepper_inv n (move i Try (shared s) DCas s)"
    using s i out by (intro drepper_plain [OF s i]) (auto simp: drepper_inv_def)
  then show ?thesis by (simp add: drepper_impl_def drepper_inv_def)
qed

lemma drepper_mutex:
  "drepper_inv n s \<Longrightarrow> i < n \<Longrightarrow> j < n \<Longrightarrow> phase_of s i = Crit \<Longrightarrow> phase_of s j = Crit \<Longrightarrow> i = j"
  by (auto simp: drepper_inv_def those_mem elim!: owned_unique)

fun drepper_rank :: "drepper_pc \<Rightarrow> nat" where
  "drepper_rank DCas = 1"
| "drepper_rank DXchg = 1"
| "drepper_rank DCallWait = 2"
| "drepper_rank DAsleep = 3"
| "drepper_rank DFetchSub = 2"
| "drepper_rank DStoreZero = 1"
| "drepper_rank _ = 0"

text \<open>
  With a thread past \<open>lock\<close>, that thread moves. Otherwise the word is 0 and nobody is left to help,
  so a thread in \<open>lock\<close> is awake, and takes the word.
\<close>

lemma drepper_mover:
  assumes s: "drepper_inv n s" and i: "i < n" "phase_of s i \<noteq> Out"
  obtains (past) k where "k < n" "phase_of s k = Crit"
  | (leaving) k where "k < n" "phase_of s k = Rel"
      "(\<exists>g l. Returned g l \<in> set (drepper_unlock k (shared s) (local_of s k))) \<or>
       (\<exists>g l. Running g l \<in> set (drepper_unlock k (shared s) (local_of s k)) \<and>
          drepper_rank l < drepper_rank (local_of s k))"
  | (entering) k where "k < n" "phase_of s k = Try"
      "(\<exists>g l. Returned g l \<in> set (drepper_lock spurious k (shared s) (local_of s k))) \<or>
       (\<exists>g l. Running g l \<in> set (drepper_lock spurious k (shared s) (local_of s k)) \<and>
          drepper_rank l < drepper_rank (local_of s k))"
proof -
  have ok: "drepper_ok (phase_of s k) (local_of s k)" if "k < n" for k using s that by (simp add: drepper_inv_def)
  show ?thesis
  proof (cases rule: owner_cases [of n s])
    case (1 k)
    then show ?thesis by (rule past)
  next
    case (2 k)
    show ?thesis
      by (rule leaving [OF 2]) (use ok [OF 2(1)] 2(2) wake_one_some [of "dsleepers (shared s)"] in
        \<open>auto simp: drepper_unlock_def image_iff Bex_def\<close>)
  next
    case 3
    have none: "those n drepper_owns s = {}" "those n drepper_helps s = {} \<or> (\<exists>k<n. phase_of s k = Try \<and> drepper_helps Try (local_of s k))"
      using 3 by (fastforce simp: those_def)+
    then have free: "dword (shared s) = 0" using s by (auto simp: drepper_inv_def owned_def split: if_splits)
    have sl: "sleeping n drepper_waits drepper_helps (dword (shared s) = 2) (dsleepers (shared s)) s"
      using s by (simp add: drepper_inv_def)
    have "\<exists>k<n. phase_of s k = Try \<and> (local_of s k = DAsleep \<longrightarrow> k \<notin> set (dsleepers (shared s)))"
    proof (cases "\<exists>k<n. phase_of s k = Try \<and> drepper_helps Try (local_of s k)")
      case True
      then show ?thesis by fastforce
    next
      case False
      then have helpless: "those n drepper_helps s = {}" using none by blast
      have try': "phase_of s i = Try" using 3 [OF i(1)] i(2) by simp
      show ?thesis
      proof (cases "local_of s i = DAsleep")
        case True
        then obtain k where "k < n" "drepper_waits (phase_of s k) (local_of s k)" "k \<notin> set (dsleepers (shared s))"
          using sleeping_awake [OF sl _ helpless i(1)] free try' by auto
        then show ?thesis by auto
      qed (use i(1) try' in blast)
    qed
    then obtain k where k: "k < n" "phase_of s k = Try" "local_of s k = DAsleep \<longrightarrow> k \<notin> set (dsleepers (shared s))"
      by blast
    show ?thesis
      by (rule entering [OF k(1,2)]) (use ok [OF k(1)] k(2,3) free wait_returns_awake [of k "dsleepers (shared s)" spurious] in
        \<open>auto simp: drepper_lock_def image_iff Bex_def\<close>)
  qed
qed

lemma drepper_progress:
  assumes s: "drepper_inv n s" and i: "i < n" "phase_of s i \<noteq> Out"
  shows "\<exists>t. lock_act (drepper_impl spurious) n s t \<and> drain_weight 3 drepper_rank n t < drain_weight 3 drepper_rank n s"
proof -
  note drain = drain_steps [where L = "drepper_impl spurious" and rank = drepper_rank and r = 3]
  show ?thesis
  proof (cases rule: drepper_mover [OF s i, where spurious = spurious])
    case (1 k)
    then show ?thesis by (intro drain(3) [of k]) (auto simp: drepper_impl_def)
  next
    case (2 k)
    show ?thesis using 2(3) drain(4,5) [OF 2(1,2)] by (auto simp: drepper_impl_def)
  next
    case (3 k)
    show ?thesis using 3(3) drain(1,2) [OF 3(1,2)] by (auto simp: drepper_impl_def)
  qed
qed

interpretation drepper: live_program "drepper_prog spurious n m" "drepper_inv n" "drain_weight 3 drepper_rank n"
  for spurious n m
  by unfold_locales (use drepper_init drepper_call drepper_act drepper_mutex drepper_progress in
    \<open>auto simp: drepper_prog_def\<close>)

subsection \<open>Properties\<close>

text \<open>C16: in every reachable state the futex word tells the truth: it is 0 exactly when no thread
  is from the return of \<open>lock\<close> up to the store of 0 or the subtraction in \<open>unlock\<close>, it is never
  more than 2, one thread owns it at most, and when threads sleep in the kernel it is 2 or
  some thread is about to set it to 2 or to wake one.\<close>

theorem drepper_invariant:
  assumes "prog_reach (drepper_prog spurious n m) s"
  shows "drepper_inv n (lock_view (drepper_prog spurious n m) s)"
  using drepper.good_reach [OF assms] by (simp add: drepper.good_def)

theorem drepper_invariant_witness:
  "\<exists>s. prog_reach (drepper_prog False 4 10000000) s \<and> mpc s = MainDone \<and>
    drepper_inv 4 (lock_view (drepper_prog False 4 10000000) s)"
  using finished_state [OF drepper.finishes [of False 4 10000000]] drepper_invariant [of False 4 10000000] by blast

end
