(* ===== verification/Simple_Mutex.thy ===== *)
theory Simple_Mutex
  imports Futex
begin

section \<open>The simple futex mutex\<close>

text \<open>
  \<open>futex/simple_mutex.c\<close>: a flag and a count of the threads that wait or are about to. A contender
  adds itself to the count before it waits; \<open>unlock\<close> clears the flag first and reads the
  count then. The count is an \<open>int\<close>, so there must be fewer than \<open>2 ^ 31\<close> threads.
\<close>

record simple_futex =
  locked :: cint
  waiters :: cint
  fsleepers :: "tid list"

datatype sf_pc = FIdle | FXchg | FAddWaiter | FCallWait | FAsleep | FSubWaiter | FClear | FTest | FWake

definition sf_lock :: "bool \<Rightarrow> tid \<Rightarrow> simple_futex \<Rightarrow> sf_pc \<Rightarrow> (simple_futex, sf_pc) outcome list" where
  "sf_lock spurious i g l = (case l of
       FXchg \<Rightarrow> [if locked g = 0 then Returned (g\<lparr>locked := 1\<rparr>) FIdle else Running (g\<lparr>locked := 1\<rparr>) FAddWaiter]
     | FAddWaiter \<Rightarrow> [Running (g\<lparr>waiters := waiters g + 1\<rparr>) FCallWait]
     | FCallWait \<Rightarrow> [if locked g = 1 then Running (g\<lparr>fsleepers := fsleepers g @ [i]\<rparr>) FAsleep
                    else Running g FSubWaiter]
     | FAsleep \<Rightarrow> map (\<lambda>ws. Running (g\<lparr>fsleepers := ws\<rparr>) FSubWaiter) (wait_returns spurious i (fsleepers g))
     | FSubWaiter \<Rightarrow> [Running (g\<lparr>waiters := waiters g - 1\<rparr>) FXchg]
     | _ \<Rightarrow> [])"

definition sf_unlock :: "tid \<Rightarrow> simple_futex \<Rightarrow> sf_pc \<Rightarrow> (simple_futex, sf_pc) outcome list" where
  "sf_unlock i g l = (case l of
       FClear \<Rightarrow> [Running (g\<lparr>locked := 0\<rparr>) FTest]
     | FTest \<Rightarrow> [if sint (waiters g) > 0 then Running g FWake else Returned g FIdle]
     | FWake \<Rightarrow> map (\<lambda>(k, ws). Returned (g\<lparr>fsleepers := ws\<rparr>) FIdle) (wake_one (fsleepers g))
     | _ \<Rightarrow> [])"

definition sf_impl :: "bool \<Rightarrow> (simple_futex, sf_pc) lock_impl" where
  "sf_impl spurious = \<lparr>lock_call = (\<lambda>w i l. FXchg), lock_step = sf_lock spurious,
     unlock_call = (\<lambda>i l. FClear), unlock_step = sf_unlock\<rparr>"

definition simple_mutex_prog :: "bool \<Rightarrow> nat \<Rightarrow> nat \<Rightarrow> (simple_futex, sf_pc) program" where
  "simple_mutex_prog spurious num_thr max_cnt = \<lparr>impl = sf_impl spurious, num_threads = num_thr,
     max_count = max_cnt, expected_count = max_cnt, cells = 1, target = one_counter,
     globals0 = \<lparr>locked = 0, waiters = 0, fsleepers = []\<rparr>, locals0 = (\<lambda>_. FIdle)\<rparr>"

type_synonym sf_state = "(simple_futex, sf_pc) lock_state"

fun sf_ok :: "phase \<Rightarrow> sf_pc \<Rightarrow> bool" where
  "sf_ok Try l = (l \<in> {FXchg, FAddWaiter, FCallWait, FAsleep, FSubWaiter})"
| "sf_ok Rel l = (l \<in> {FClear, FTest, FWake})"
| "sf_ok _ l = (l = FIdle)"

fun sf_owns :: "phase \<Rightarrow> sf_pc \<Rightarrow> bool" where
  "sf_owns Crit l = True"
| "sf_owns Rel l = (l = FClear)"
| "sf_owns _ l = False"

fun sf_helps :: "phase \<Rightarrow> sf_pc \<Rightarrow> bool" where
  "sf_helps Try l = (l \<noteq> FAsleep)"
| "sf_helps Rel l = (l \<noteq> FClear)"
| "sf_helps _ l = False"

fun sf_waits :: "phase \<Rightarrow> sf_pc \<Rightarrow> bool" where
  "sf_waits p l = (p = Try \<and> l = FAsleep)"

fun sf_counted :: "phase \<Rightarrow> sf_pc \<Rightarrow> bool" where
  "sf_counted p l = (p = Try \<and> l \<in> {FCallWait, FAsleep, FSubWaiter})"

definition sf_inv :: "nat \<Rightarrow> sf_state \<Rightarrow> bool" where
  "sf_inv n s \<longleftrightarrow>
     (\<forall>i<n. sf_ok (phase_of s i) (local_of s i)) \<and>
     owned (locked (shared s) \<noteq> 0) (those n sf_owns s) \<and> locked (shared s) \<in> {0, 1} \<and>
     waiters (shared s) = of_nat (card (those n sf_counted s)) \<and>
     sleeping n sf_waits sf_helps (locked (shared s) = 1) (fsleepers (shared s)) s"

text \<open>One step: the owner, the count and the sleepers.\<close>

lemma sf_move:
  assumes s: "sf_inv n s" and i: "i < n" and ok: "sf_ok p l" and val: "locked g \<in> {0, 1}"
    and own: "sf_owns p l = sf_owns (phase_of s i) (local_of s i) \<and> (locked g = 0) = (locked (shared s) = 0) \<or>
      sf_owns p l \<and> locked (shared s) = 0 \<and> locked g \<noteq> 0 \<or>
      \<not> sf_owns p l \<and> sf_owns (phase_of s i) (local_of s i) \<and> locked g = 0"
    and count: "sf_counted p l = sf_counted (phase_of s i) (local_of s i) \<and> waiters g = waiters (shared s) \<or>
      sf_counted p l \<and> \<not> sf_counted (phase_of s i) (local_of s i) \<and> waiters g = waiters (shared s) + 1 \<or>
      \<not> sf_counted p l \<and> sf_counted (phase_of s i) (local_of s i) \<and> waiters g = waiters (shared s) - 1"
    and sleep: "sleeping n sf_waits sf_helps (locked g = 1) (fsleepers g) (move i p g l s)"
  shows "sf_inv n (move i p g l s)"
proof -
  have "owned (locked g \<noteq> 0) (those n sf_owns (move i p g l s))"
    by (rule owned_move [of "locked (shared s) \<noteq> 0"]) (use s i own in \<open>auto simp: sf_inv_def\<close>)
  moreover have "waiters g = of_nat (card (those n sf_counted (move i p g l s)))"
  proof -
    have w: "waiters (shared s) = of_nat (card (those n sf_counted s))" using s by (simp add: sf_inv_def)
    show ?thesis
      using count
    proof (elim disjE conjE)
      assume a: "sf_counted p l" "\<not> sf_counted (phase_of s i) (local_of s i)" "waiters g = waiters (shared s) + 1"
      show ?thesis using card_those_in [of i n sf_counted p l s g, OF i a(1,2)] a(3) w by simp
    next
      assume a: "\<not> sf_counted p l" "sf_counted (phase_of s i) (local_of s i)" "waiters g = waiters (shared s) - 1"
      show ?thesis using card_those_out [of i n sf_counted p l s g, OF i a(1,2)] a(3) w by simp
    qed (simp add: w those_same [OF i])
  qed
  ultimately show ?thesis using s ok val sleep by (simp add: sf_inv_def)
qed

lemma sf_plain:
  assumes s: "sf_inv n s" and i: "i < n" and "sf_ok p l" "locked g \<in> {0, 1}"
    and "sf_owns p l = sf_owns (phase_of s i) (local_of s i) \<and> (locked g = 0) = (locked (shared s) = 0) \<or>
      sf_owns p l \<and> locked (shared s) = 0 \<and> locked g \<noteq> 0 \<or>
      \<not> sf_owns p l \<and> sf_owns (phase_of s i) (local_of s i) \<and> locked g = 0"
    and "sf_counted p l = sf_counted (phase_of s i) (local_of s i) \<and> waiters g = waiters (shared s) \<or>
      sf_counted p l \<and> \<not> sf_counted (phase_of s i) (local_of s i) \<and> waiters g = waiters (shared s) + 1 \<or>
      \<not> sf_counted p l \<and> sf_counted (phase_of s i) (local_of s i) \<and> waiters g = waiters (shared s) - 1"
    and "fsleepers g = fsleepers (shared s)" "sf_waits p l = sf_waits (phase_of s i) (local_of s i)"
    and "locked (shared s) = 1 \<or> sf_helps (phase_of s i) (local_of s i) \<Longrightarrow> locked g = 1 \<or> sf_helps p l"
  shows "sf_inv n (move i p g l s)"
proof (rule sf_move [OF assms(1-6)])
  have "sleeping n sf_waits sf_helps (locked (shared s) = 1) (fsleepers (shared s)) s"
    using s by (simp add: sf_inv_def)
  from sleeping_same [OF this i assms(8), of "locked g = 1"] assms(9)
  show "sleeping n sf_waits sf_helps (locked g = 1) (fsleepers g) (move i p g l s)"
    unfolding assms(7) by blast
qed

text \<open>While a thread sleeps, the count is positive.\<close>

lemma sf_waiters_positive:
  assumes s: "sf_inv n s" and n: "n < 2 ^ 31" and some: "fsleepers (shared s) \<noteq> []"
  shows "sint (waiters (shared s)) > 0"
proof -
  let ?c = "card (those n sf_counted s)"
  obtain k where "k \<in> set (fsleepers (shared s))" using some by (cases "fsleepers (shared s)") auto
  then have "k \<in> those n sf_waits s" using s by (auto simp: sf_inv_def sleeping_def)
  then have "k \<in> those n sf_counted s" by (auto simp: those_mem)
  then have pos: "0 < ?c" by (metis card_gt_0_iff empty_iff those_finite)
  have "?c < 2 ^ 31" using card_those_le [of n sf_counted s] n by simp
  then have "sint (of_nat ?c :: cint) = int ?c" by (simp add: signed_of_nat signed_take_bit_int_eq_self)
  then show ?thesis using s pos by (simp add: sf_inv_def)
qed

lemma sf_act:
  assumes s: "sf_inv n s" and n: "n < 2 ^ 31" and act: "lock_act (sf_impl spurious) n s t"
  shows "sf_inv n t"
proof -
  have ok: "sf_ok (phase_of s i) (local_of s i)" if "i < n" for i using s that by (simp add: sf_inv_def)
  have val: "locked (shared s) \<in> {0, 1}" using s by (simp add: sf_inv_def)
  have sl: "sleeping n sf_waits sf_helps (locked (shared s) = 1) (fsleepers (shared s)) s"
    using s by (simp add: sf_inv_def)
  note move = sf_move [OF s] and plain = sf_plain [OF s]
  show ?thesis
    using act
  proof cases
    case (lock_runs i g l)
    note i = lock_runs(2) and at = lock_runs(3)
    have "sf_inv n (move i Try g l s)"
    proof (cases "local_of s i")
      case FXchg
      then have "locked (shared s) \<noteq> 0" "g = (shared s)\<lparr>locked := 1\<rparr>" "l = FAddWaiter"
        using lock_runs(4) by (auto simp: sf_impl_def sf_lock_def split: if_splits)
      then show ?thesis using i at FXchg val by (intro plain) auto
    next
      case FAddWaiter
      then have "g = (shared s)\<lparr>waiters := waiters (shared s) + 1\<rparr>" "l = FCallWait"
        using lock_runs(4) by (auto simp: sf_impl_def sf_lock_def)
      then show ?thesis using i at FAddWaiter val by (intro plain) auto
    next
      case FCallWait
      then consider "locked (shared s) = 1" "g = (shared s)\<lparr>fsleepers := fsleepers (shared s) @ [i]\<rparr>" "l = FAsleep"
        | "g = shared s" "l = FSubWaiter"
        using lock_runs(4) by (auto simp: sf_impl_def sf_lock_def split: if_splits)
      then show ?thesis
      proof cases
        case 1
        have "sleeping n sf_waits sf_helps (locked g = 1) (fsleepers (shared s) @ [i]) (move i Try g l s)"
          by (rule sleeping_sleep [OF sl i]) (use 1 in simp_all)
        then show ?thesis using i at FCallWait 1 by (intro move) auto
      next
        case 2
        then show ?thesis using i at FCallWait val by (intro plain) auto
      qed
    next
      case FAsleep
      then obtain ws where "g = (shared s)\<lparr>fsleepers := ws\<rparr>" "l = FSubWaiter" "ws = removeAll i (fsleepers (shared s))"
        using lock_runs(4) by (auto simp: sf_impl_def sf_lock_def dest: wait_returns_cases)
      moreover have "sleeping n sf_waits sf_helps (locked g = 1) (removeAll i (fsleepers (shared s)))
          (move i Try g l s)"
        by (rule sleeping_return [OF sl i]) (use calculation in simp_all)
      ultimately show ?thesis using i at FAsleep val by (intro move) auto
    next
      case FSubWaiter
      then have "g = (shared s)\<lparr>waiters := waiters (shared s) - 1\<rparr>" "l = FXchg"
        using lock_runs(4) by (auto simp: sf_impl_def sf_lock_def)
      then show ?thesis using i at FSubWaiter val by (intro plain) auto
    qed (use lock_runs(4) in \<open>simp_all add: sf_impl_def sf_lock_def\<close>)
    then show ?thesis using lock_runs(1) by simp
  next
    case (lock_returns i g l)
    note i = lock_returns(2) and at = lock_returns(3)
    have "locked (shared s) = 0 \<and> l = FIdle \<and> local_of s i = FXchg \<and> g = (shared s)\<lparr>locked := 1\<rparr>"
      using lock_returns(4) by (auto simp: sf_impl_def sf_lock_def split: sf_pc.splits if_splits)
    then have "sf_inv n (move i Crit g l s)" using i at by (intro plain) auto
    then show ?thesis using lock_returns(1) by simp
  next
    case (unlock_called i)
    then have "sf_inv n (move i Rel (shared s) FClear s)"
      using ok val by (intro plain) auto
    then show ?thesis using unlock_called(1) by (simp add: sf_impl_def)
  next
    case (unlock_runs i g l)
    note i = unlock_runs(2) and at = unlock_runs(3)
    consider "local_of s i = FClear" "g = (shared s)\<lparr>locked := 0\<rparr>" "l = FTest"
      | "local_of s i = FTest" "g = shared s" "l = FWake"
      using unlock_runs(4) by (auto simp: sf_impl_def sf_unlock_def split: sf_pc.splits if_splits)
    then have "sf_inv n (move i Rel g l s)"
      by cases (use i at val in \<open>(intro plain; auto)+\<close>)
    then show ?thesis using unlock_runs(1) by simp
  next
    case (unlock_returns i g l)
    note i = unlock_returns(2) and at = unlock_returns(3)
    consider "local_of s i = FTest" "\<not> sint (waiters (shared s)) > 0" "g = shared s" "l = FIdle"
      | k ws where "local_of s i = FWake" "(k, ws) \<in> set (wake_one (fsleepers (shared s)))"
        "g = (shared s)\<lparr>fsleepers := ws\<rparr>" "l = FIdle"
      using unlock_returns(4) by (auto simp: sf_impl_def sf_unlock_def split: sf_pc.splits if_splits)
    then have "sf_inv n (move i Out g l s)"
    proof cases
      case 1
      then have "fsleepers g = []" using sf_waiters_positive [OF s n] by auto
      then have "sleeping n sf_waits sf_helps (locked g = 1) (fsleepers g) (move i Out g l s)"
        by (simp add: sleeping_init)
      then show ?thesis using i at 1 val by (intro move) auto
    next
      case (2 k ws)
      have "sleeping n sf_waits sf_helps (locked g = 1) ws (move i Out g l s)"
        by (rule sleeping_wake [OF sl i 2(2)]) (use at 2 in simp_all)
      then show ?thesis using i at 2 val by (intro move) auto
    qed
    then show ?thesis using unlock_returns(1) by simp
  qed
qed

lemma sf_init: "sf_inv n (lock_init \<lparr>locked = 0, waiters = 0, fsleepers = []\<rparr> (\<lambda>_. FIdle))"
  by (simp add: sf_inv_def owned_def those_def lock_init_def sleeping_init)

lemma sf_call:
  assumes s: "sf_inv n s" and i: "i < n" and out: "phase_of s i = Out"
  shows "sf_inv n ((move i Try (shared s) (lock_call (sf_impl spurious) w i (local_of s i)) s)\<lparr>calls := c\<rparr>)"
proof -
  have "sf_inv n (move i Try (shared s) FXchg s)"
    using s i out by (intro sf_plain [OF s i]) (auto simp: sf_inv_def)
  then show ?thesis by (simp add: sf_impl_def sf_inv_def)
qed

lemma sf_mutex:
  "sf_inv n s \<Longrightarrow> i < n \<Longrightarrow> j < n \<Longrightarrow> phase_of s i = Crit \<Longrightarrow> phase_of s j = Crit \<Longrightarrow> i = j"
  by (auto simp: sf_inv_def those_mem elim!: owned_unique)

fun sf_rank :: "sf_pc \<Rightarrow> nat" where
  "sf_rank FXchg = 1"
| "sf_rank FSubWaiter = 2"
| "sf_rank FAsleep = 3"
| "sf_rank FCallWait = 3"
| "sf_rank FAddWaiter = 4"
| "sf_rank FClear = 2"
| "sf_rank FTest = 1"
| "sf_rank _ = 0"

lemma sf_progress:
  assumes s: "sf_inv n s" and i: "i < n" "phase_of s i \<noteq> Out"
  shows "\<exists>t. lock_act (sf_impl spurious) n s t \<and> drain_weight 3 sf_rank n t < drain_weight 3 sf_rank n s"
proof -
  have ok: "sf_ok (phase_of s k) (local_of s k)" if "k < n" for k using s that by (simp add: sf_inv_def)
  note drain = drain_steps [where rank = sf_rank and r = 3]
  show ?thesis
  proof (cases rule: owner_cases [of n s])
    case (1 k)
    then show ?thesis by (intro drain(3) [of k]) (auto simp: sf_impl_def)
  next
    case (2 k)
    have "(\<exists>g l. Returned g l \<in> set (unlock_step (sf_impl spurious) k (shared s) (local_of s k))) \<or>
        (\<exists>g l. Running g l \<in> set (unlock_step (sf_impl spurious) k (shared s) (local_of s k)) \<and>
           sf_rank l < sf_rank (local_of s k))"
      using ok [OF 2(1)] 2(2) wake_one_some [of "fsleepers (shared s)"]
      by (auto simp: sf_impl_def sf_unlock_def image_iff Bex_def)
    then show ?thesis using drain(4,5) [OF 2] by blast
  next
    case 3
    have none: "those n sf_owns s = {}" using 3 by (fastforce simp: those_def)
    then have free: "locked (shared s) = 0" using s by (auto simp: sf_inv_def owned_def split: if_splits)
    have sl: "sleeping n sf_waits sf_helps (locked (shared s) = 1) (fsleepers (shared s)) s"
      using s by (simp add: sf_inv_def)
    have "\<exists>k<n. phase_of s k = Try \<and> (local_of s k = FAsleep \<longrightarrow> k \<notin> set (fsleepers (shared s)))"
    proof (cases "\<exists>k<n. phase_of s k = Try \<and> local_of s k \<noteq> FAsleep")
      case False
      then have helpless: "those n sf_helps s = {}" using 3 by (fastforce simp: those_def)
      have "phase_of s i = Try" using 3 [OF i(1)] i(2) by simp
      moreover from this have "local_of s i = FAsleep" using False i(1) by blast
      ultimately show ?thesis using sleeping_awake [OF sl _ helpless i(1)] free by (metis sf_waits.simps zero_neq_one)
    qed blast
    then obtain k where k: "k < n" "phase_of s k = Try" "local_of s k = FAsleep \<longrightarrow> k \<notin> set (fsleepers (shared s))"
      by blast
    have "(\<exists>g l. Returned g l \<in> set (lock_step (sf_impl spurious) k (shared s) (local_of s k))) \<or>
        (\<exists>g l. Running g l \<in> set (lock_step (sf_impl spurious) k (shared s) (local_of s k)) \<and>
           sf_rank l < sf_rank (local_of s k))"
      using ok [OF k(1)] k(2,3) free wait_returns_awake [of k "fsleepers (shared s)" spurious]
      by (auto simp: sf_impl_def sf_lock_def image_iff Bex_def)
    then show ?thesis using drain(1,2) [OF k(1,2)] by blast
  qed
qed

lemma simple_mutex_live:
  assumes "n < 2 ^ 31"
  shows "live_program (simple_mutex_prog spurious n m) (sf_inv n) (drain_weight 3 sf_rank n)"
  by unfold_locales (use sf_init sf_call sf_act [OF _ assms] sf_mutex sf_progress in
    \<open>auto simp: simple_mutex_prog_def\<close>)

interpretation simple_mutex:
  live_program "simple_mutex_prog spurious NUM_THREADS m" "sf_inv NUM_THREADS" "drain_weight 3 sf_rank NUM_THREADS"
  for spurious m
  by (rule simple_mutex_live) (simp add: NUM_THREADS_def)

end
