(* ===== verification/Monitors.thy ===== *)
theory Monitors
  imports Futex
begin

section \<open>Monitors: a mutex and a semaphore from a condition variable\<close>

text \<open>
  \<open>monitors/mutex.c\<close>, \<open>monitors/semaphore.c\<close> and \<open>monitors/mutex_relaxed.c\<close>. A POSIX mutex
  protects one variable; a thread that finds it taken waits on a condition variable, which
  releases the mutex and puts it to sleep in one step and takes the mutex again when it returns;
  the thread that gives the variable back signals. The first two differ only in what the
  variable is: \<open>locked\<close> is 1 when taken and \<open>sem_value\<close> is 0. \<open>monitor_lock\<close> and
  \<open>monitor_unlock\<close> have the test, the taking and the giving back as arguments.

  The third file gives the variable back and signals without the mutex. A thread that has
  found the variable taken, but does not sleep yet, misses that signal.
\<close>

record monitor_globals =
  mowner :: "tid option"
  mvalue :: u32
  msleepers :: "tid list"

datatype monitor_pc = MIdle | MEnter | MTest | MWait | MAsleep | MRelock | MTake | MExit
  | MEnterV | MGive | MSignal | MExitV

definition monitor_lock ::
  "bool \<Rightarrow> (u32 \<Rightarrow> bool) \<Rightarrow> (u32 \<Rightarrow> u32) \<Rightarrow> tid \<Rightarrow> monitor_globals \<Rightarrow> monitor_pc \<Rightarrow>
    (monitor_globals, monitor_pc) outcome list" where
  "monitor_lock spurious busy taking i g l = (case l of
       MEnter \<Rightarrow> (if mowner g = None then [Running (g\<lparr>mowner := Some i\<rparr>) MTest] else [])
     | MTest \<Rightarrow> [Running g (if busy (mvalue g) then MWait else MTake)]
     | MWait \<Rightarrow> [Running (g\<lparr>mowner := None, msleepers := msleepers g @ [i]\<rparr>) MAsleep]
     | MAsleep \<Rightarrow> map (\<lambda>ws. Running (g\<lparr>msleepers := ws\<rparr>) MRelock) (wait_returns spurious i (msleepers g))
     | MRelock \<Rightarrow> (if mowner g = None then [Running (g\<lparr>mowner := Some i\<rparr>) MTest] else [])
     | MTake \<Rightarrow> [Running (g\<lparr>mvalue := taking (mvalue g)\<rparr>) MExit]
     | MExit \<Rightarrow> [Returned (g\<lparr>mowner := None\<rparr>) MIdle]
     | _ \<Rightarrow> [])"

definition monitor_unlock ::
  "(u32 \<Rightarrow> u32) \<Rightarrow> tid \<Rightarrow> monitor_globals \<Rightarrow> monitor_pc \<Rightarrow> (monitor_globals, monitor_pc) outcome list" where
  "monitor_unlock giving i g l = (case l of
       MEnterV \<Rightarrow> (if mowner g = None then [Running (g\<lparr>mowner := Some i\<rparr>) MGive] else [])
     | MGive \<Rightarrow> [Running (g\<lparr>mvalue := giving (mvalue g)\<rparr>) MSignal]
     | MSignal \<Rightarrow> map (\<lambda>(k, ws). Running (g\<lparr>msleepers := ws\<rparr>) MExitV) (wake_one (msleepers g))
     | MExitV \<Rightarrow> [Returned (g\<lparr>mowner := None\<rparr>) MIdle]
     | _ \<Rightarrow> [])"

definition monitor_impl ::
  "bool \<Rightarrow> (u32 \<Rightarrow> bool) \<Rightarrow> (u32 \<Rightarrow> u32) \<Rightarrow> (u32 \<Rightarrow> u32) \<Rightarrow> (monitor_globals, monitor_pc) lock_impl" where
  "monitor_impl spurious busy taking giving = \<lparr>lock_call = (\<lambda>w i l. MEnter),
     lock_step = monitor_lock spurious busy taking, unlock_call = (\<lambda>i l. MEnterV),
     unlock_step = monitor_unlock giving\<rparr>"

definition monitor_mutex_prog :: "bool \<Rightarrow> nat \<Rightarrow> nat \<Rightarrow> (monitor_globals, monitor_pc) program" where
  "monitor_mutex_prog spurious num_thr max_cnt = \<lparr>
     impl = monitor_impl spurious (\<lambda>locked. locked \<noteq> 0) (\<lambda>_. 1) (\<lambda>_. 0), num_threads = num_thr,
     max_count = max_cnt, expected_count = max_cnt, cells = 1, target = one_counter,
     globals0 = \<lparr>mowner = None, mvalue = 0, msleepers = []\<rparr>, locals0 = (\<lambda>_. MIdle)\<rparr>"

definition monitor_semaphore_prog :: "bool \<Rightarrow> nat \<Rightarrow> nat \<Rightarrow> (monitor_globals, monitor_pc) program" where
  "monitor_semaphore_prog spurious num_thr max_cnt = \<lparr>
     impl = monitor_impl spurious (\<lambda>sem_value. sem_value = 0) (\<lambda>v. v - 1) (\<lambda>v. v + 1), num_threads = num_thr,
     max_count = max_cnt, expected_count = max_cnt, cells = 1, target = one_counter,
     globals0 = \<lparr>mowner = None, mvalue = 1, msleepers = []\<rparr>, locals0 = (\<lambda>_. MIdle)\<rparr>"

type_synonym monitor_state = "(monitor_globals, monitor_pc) lock_state"

fun monitor_ok :: "phase \<Rightarrow> monitor_pc \<Rightarrow> bool" where
  "monitor_ok Try l = (l \<in> {MEnter, MTest, MWait, MAsleep, MRelock, MTake, MExit})"
| "monitor_ok Rel l = (l \<in> {MEnterV, MGive, MSignal, MExitV})"
| "monitor_ok _ l = (l = MIdle)"

fun monitor_in :: "phase \<Rightarrow> monitor_pc \<Rightarrow> bool" where
  "monitor_in p l = (l \<in> {MTest, MWait, MTake, MExit, MGive, MSignal, MExitV})"

fun monitor_owns :: "phase \<Rightarrow> monitor_pc \<Rightarrow> bool" where
  "monitor_owns Try l = (l = MExit)"
| "monitor_owns Crit l = True"
| "monitor_owns Rel l = (l = MEnterV \<or> l = MGive)"
| "monitor_owns Out l = False"

fun monitor_helps :: "phase \<Rightarrow> monitor_pc \<Rightarrow> bool" where
  "monitor_helps Try l = (l \<noteq> MAsleep)"
| "monitor_helps Rel l = (l = MSignal)"
| "monitor_helps _ l = False"

fun monitor_waits :: "phase \<Rightarrow> monitor_pc \<Rightarrow> bool" where
  "monitor_waits p l = (p = Try \<and> l = MAsleep)"

text \<open>
  Two measures, the first of more weight: how far the threads are from the exit of their calls,
  and, for those that do not own the variable yet, how far from it; while the variable is taken,
  a thread that finds it so gets out of the way by falling asleep.
\<close>

fun monitor_stage :: "phase \<Rightarrow> monitor_pc \<Rightarrow> nat" where
  "monitor_stage Out l = 0"
| "monitor_stage Try l = (if l = MExit then 6 else 7)"
| "monitor_stage Crit l = 5"
| "monitor_stage Rel l = (case l of MEnterV \<Rightarrow> 4 | MGive \<Rightarrow> 3 | MSignal \<Rightarrow> 2 | _ \<Rightarrow> 1)"

fun monitor_fine :: "bool \<Rightarrow> phase \<Rightarrow> monitor_pc \<Rightarrow> nat" where
  "monitor_fine b Try l = (if b then (case l of MTest \<Rightarrow> 2 | MWait \<Rightarrow> 1 | _ \<Rightarrow> 0)
     else (case l of MAsleep \<Rightarrow> 4 | MRelock \<Rightarrow> 3 | MEnter \<Rightarrow> 3 | MTest \<Rightarrow> 2 | MTake \<Rightarrow> 1 | _ \<Rightarrow> 0))"
| "monitor_fine b p l = 0"

definition monitor_mu :: "(u32 \<Rightarrow> bool) \<Rightarrow> nat \<Rightarrow> monitor_state \<Rightarrow> nat" where
  "monitor_mu busy n s = (\<Sum>i<n. monitor_stage (phase_of s i) (local_of s i)) * (4 * n + 1) +
     (\<Sum>i<n. monitor_fine (busy (mvalue (shared s))) (phase_of s i) (local_of s i))"

lemma monitor_fine_le: "(\<Sum>i<n. monitor_fine b (phase_of s i) (local_of s i)) \<le> 4 * n"
proof -
  have "monitor_fine b p l \<le> 4" for p l by (cases p) (auto split: monitor_pc.splits)
  then have "(\<Sum>i<n. monitor_fine b (phase_of s i) (local_of s i)) \<le> (\<Sum>i<n. 4)" by (intro sum_mono) auto
  then show ?thesis by simp
qed

lemma lex_less: "a < a' \<Longrightarrow> f < k \<Longrightarrow> a * k + f < a' * k + (f' :: nat)"
proof -
  assume "a < a'" "f < k"
  then have "a * k + f < Suc a * k" by simp
  also have "\<dots> \<le> a' * k" using \<open>a < a'\<close> by (intro mult_le_mono1) simp
  finally show ?thesis by simp
qed

lemma monitor_mu_stage:
  assumes "i < n" "monitor_stage p l < monitor_stage (phase_of s i) (local_of s i)"
  shows "monitor_mu busy n (move i p g l s) < monitor_mu busy n s"
  unfolding monitor_mu_def
proof (rule lex_less)
  show "(\<Sum>j<n. monitor_stage (phase_of (move i p g l s) j) (local_of (move i p g l s) j))
      < (\<Sum>j<n. monitor_stage (phase_of s j) (local_of s j))"
    using assms by (intro sum_update_less [of i]) auto
  show "(\<Sum>j<n. monitor_fine (busy (mvalue (shared (move i p g l s)))) (phase_of (move i p g l s) j)
      (local_of (move i p g l s) j)) < 4 * n + 1"
    using monitor_fine_le [of _ "move i p g l s" n] by (simp only: less_Suc_eq_le Suc_eq_plus1 [symmetric])
qed

lemma monitor_mu_fine:
  assumes i: "i < n" and "monitor_stage p l = monitor_stage (phase_of s i) (local_of s i)"
    and "busy (mvalue g) = busy (mvalue (shared s))"
    and "monitor_fine (busy (mvalue g)) p l < monitor_fine (busy (mvalue g)) (phase_of s i) (local_of s i)"
  shows "monitor_mu busy n (move i p g l s) < monitor_mu busy n s"
proof -
  have "(\<Sum>j<n. monitor_stage (phase_of (move i p g l s) j) (local_of (move i p g l s) j))
      = (\<Sum>j<n. monitor_stage (phase_of s j) (local_of s j))"
    using assms(2) by (intro sum_update_same) auto
  moreover have "(\<Sum>j<n. monitor_fine (busy (mvalue g)) (phase_of (move i p g l s) j) (local_of (move i p g l s) j))
      < (\<Sum>j<n. monitor_fine (busy (mvalue g)) (phase_of s j) (local_of s j))"
    using assms(4) i by (intro sum_update_less [of i]) auto
  ultimately show ?thesis using assms(3) by (simp add: monitor_mu_def)
qed

text \<open>The variable has one value when it is free and one when it is taken.\<close>

locale monitor =
  fixes spurious :: bool and busy :: "u32 \<Rightarrow> bool" and taking giving :: "u32 \<Rightarrow> u32" and free taken :: u32
  assumes two_values: "\<not> busy free" "busy taken" "taking free = taken" "giving taken = free"
begin

definition monitor_inv :: "nat \<Rightarrow> monitor_state \<Rightarrow> bool" where
  "monitor_inv n s \<longleftrightarrow>
     (\<forall>i<n. monitor_ok (phase_of s i) (local_of s i) \<and>
        (local_of s i = MTake \<longrightarrow> \<not> busy (mvalue (shared s))) \<and>
        (local_of s i = MWait \<longrightarrow> busy (mvalue (shared s)))) \<and>
     owned (mowner (shared s) \<noteq> None) (those n monitor_in s) \<and>
     owned (busy (mvalue (shared s))) (those n monitor_owns s) \<and> mvalue (shared s) \<in> {free, taken} \<and>
     sleeping n monitor_waits monitor_helps (busy (mvalue (shared s))) (msleepers (shared s)) s"

lemma monitor_alone:
  assumes "monitor_inv n s" "i < n" "j < n" "monitor_in (phase_of s i) (local_of s i)"
    "monitor_in (phase_of s j) (local_of s j)"
  shows "i = j"
  using assms owned_unique [of "mowner (shared s) \<noteq> None" "those n monitor_in s" i j]
  by (simp add: monitor_inv_def those_mem)

lemma monitor_move:
  assumes s: "monitor_inv n s" and i: "i < n" and ok: "monitor_ok p l"
    and test: "l = MTake \<Longrightarrow> \<not> busy (mvalue g)" "l = MWait \<Longrightarrow> busy (mvalue g)"
    and ins: "monitor_in p l = monitor_in (phase_of s i) (local_of s i) \<and> (mowner g = None) = (mowner (shared s) = None) \<or>
      monitor_in p l \<and> mowner (shared s) = None \<and> mowner g \<noteq> None \<or>
      \<not> monitor_in p l \<and> monitor_in (phase_of s i) (local_of s i) \<and> mowner g = None"
    and val: "mvalue g = mvalue (shared s) \<or> monitor_in (phase_of s i) (local_of s i) \<and> mvalue g \<in> {free, taken}"
    and own: "monitor_owns p l = monitor_owns (phase_of s i) (local_of s i) \<and> busy (mvalue g) = busy (mvalue (shared s)) \<or>
      monitor_owns p l \<and> \<not> busy (mvalue (shared s)) \<and> busy (mvalue g) \<or>
      \<not> monitor_owns p l \<and> monitor_owns (phase_of s i) (local_of s i) \<and> \<not> busy (mvalue g)"
    and sleep: "sleeping n monitor_waits monitor_helps (busy (mvalue g)) (msleepers g) (move i p g l s)"
  shows "monitor_inv n (move i p g l s)"
proof -
  have "owned (mowner g \<noteq> None) (those n monitor_in (move i p g l s))"
    by (rule owned_move [of "mowner (shared s) \<noteq> None"]) (use s i ins in \<open>auto simp: monitor_inv_def\<close>)
  moreover have "owned (busy (mvalue g)) (those n monitor_owns (move i p g l s))"
    by (rule owned_move [of "busy (mvalue (shared s))"]) (use s i own in \<open>auto simp: monitor_inv_def\<close>)
  moreover have "monitor_ok (phase_of s j) (local_of s j) \<and> (local_of s j = MTake \<longrightarrow> \<not> busy (mvalue g)) \<and>
      (local_of s j = MWait \<longrightarrow> busy (mvalue g))" if "j < n" "j \<noteq> i" for j
    using s val that monitor_alone [OF s that(1) i] by (auto simp: monitor_inv_def)
  moreover have "mvalue g \<in> {free, taken}" using s val by (auto simp: monitor_inv_def)
  ultimately show ?thesis using ok test sleep by (simp add: monitor_inv_def)
qed

lemma monitor_plain:
  assumes s: "monitor_inv n s" and i: "i < n" and "monitor_ok p l"
    and "l = MTake \<Longrightarrow> \<not> busy (mvalue g)" "l = MWait \<Longrightarrow> busy (mvalue g)"
    and "monitor_in p l = monitor_in (phase_of s i) (local_of s i) \<and> (mowner g = None) = (mowner (shared s) = None) \<or>
      monitor_in p l \<and> mowner (shared s) = None \<and> mowner g \<noteq> None \<or>
      \<not> monitor_in p l \<and> monitor_in (phase_of s i) (local_of s i) \<and> mowner g = None"
    and "mvalue g = mvalue (shared s) \<or> monitor_in (phase_of s i) (local_of s i) \<and> mvalue g \<in> {free, taken}"
    and "monitor_owns p l = monitor_owns (phase_of s i) (local_of s i) \<and> busy (mvalue g) = busy (mvalue (shared s)) \<or>
      monitor_owns p l \<and> \<not> busy (mvalue (shared s)) \<and> busy (mvalue g) \<or>
      \<not> monitor_owns p l \<and> monitor_owns (phase_of s i) (local_of s i) \<and> \<not> busy (mvalue g)"
    and "msleepers g = msleepers (shared s)"
    and "monitor_waits p l = monitor_waits (phase_of s i) (local_of s i)"
    and "busy (mvalue (shared s)) \<or> monitor_helps (phase_of s i) (local_of s i) \<Longrightarrow>
      busy (mvalue g) \<or> monitor_helps p l"
  shows "monitor_inv n (move i p g l s)"
proof (rule monitor_move [OF assms(1-8)])
  have "sleeping n monitor_waits monitor_helps (busy (mvalue (shared s))) (msleepers (shared s)) s"
    using s by (simp add: monitor_inv_def)
  from sleeping_same [OF this i assms(10), of "busy (mvalue g)"] assms(11)
  show "sleeping n monitor_waits monitor_helps (busy (mvalue g)) (msleepers g) (move i p g l s)"
    unfolding assms(9) by blast
qed

lemma monitor_act:
  assumes s: "monitor_inv n s" and act: "lock_act (monitor_impl spurious busy taking giving) n s t"
  shows "monitor_inv n t"
proof -
  have ok: "monitor_ok (phase_of s i) (local_of s i)" "local_of s i = MTake \<Longrightarrow> \<not> busy (mvalue (shared s))"
    "local_of s i = MWait \<Longrightarrow> busy (mvalue (shared s))" if "i < n" for i
    using s that by (simp_all add: monitor_inv_def)
  have val: "mvalue (shared s) = free \<or> mvalue (shared s) = taken" using s by (simp add: monitor_inv_def)
  have sl: "sleeping n monitor_waits monitor_helps (busy (mvalue (shared s))) (msleepers (shared s)) s"
    using s by (simp add: monitor_inv_def)
  have own: "busy (mvalue (shared s))" if "i < n" "monitor_owns (phase_of s i) (local_of s i)" for i
    using s that owned_holds [of "busy (mvalue (shared s))" "those n monitor_owns s" i]
    by (simp add: monitor_inv_def those_mem)
  note plain = monitor_plain [OF s] and move = monitor_move [OF s]
  show ?thesis
    using act
  proof cases
    case (lock_runs i g l)
    note i = lock_runs(2) and at = lock_runs(3)
    have step: "Running g l \<in> set (monitor_lock spurious busy taking i (shared s) (local_of s i))"
      using lock_runs(4) by (simp add: monitor_impl_def)
    have "monitor_inv n (move i Try g l s)"
    proof (cases "local_of s i")
      case MEnter
      with step i at show ?thesis by (intro plain) (auto simp: monitor_lock_def split: if_splits)
    next
      case MTest
      with step i at show ?thesis by (intro plain) (auto simp: monitor_lock_def split: if_splits)
    next
      case MWait
      then have g: "g = (shared s)\<lparr>mowner := None, msleepers := msleepers (shared s) @ [i]\<rparr>" "l = MAsleep"
        using step by (auto simp: monitor_lock_def)
      have "sleeping n monitor_waits monitor_helps (busy (mvalue g)) (msleepers (shared s) @ [i]) (move i Try g l s)"
        by (rule sleeping_sleep [OF sl i]) (use g ok(3) [OF i MWait] in simp_all)
      then show ?thesis using i at MWait g by (intro move) auto
    next
      case MAsleep
      then have g: "g = (shared s)\<lparr>msleepers := removeAll i (msleepers (shared s))\<rparr>" "l = MRelock"
        using step by (auto simp: monitor_lock_def dest: wait_returns_cases)
      have "sleeping n monitor_waits monitor_helps (busy (mvalue g)) (removeAll i (msleepers (shared s))) (move i Try g l s)"
        by (rule sleeping_return [OF sl i]) (use g in simp_all)
      then show ?thesis using i at MAsleep g by (intro move) auto
    next
      case MRelock
      with step i at show ?thesis by (intro plain) (auto simp: monitor_lock_def split: if_splits)
    next
      case MTake
      then have "mvalue (shared s) = free" using ok(2) [OF i] val two_values by auto
      with MTake step i at two_values show ?thesis by (intro plain) (auto simp: monitor_lock_def)
    qed (use step in \<open>simp_all add: monitor_lock_def\<close>)
    then show ?thesis using lock_runs(1) by simp
  next
    case (lock_returns i g l)
    note i = lock_returns(2) and at = lock_returns(3)
    have "local_of s i = MExit \<and> l = MIdle \<and> g = (shared s)\<lparr>mowner := None\<rparr>"
      using lock_returns(4) by (auto simp: monitor_impl_def monitor_lock_def split: monitor_pc.splits if_splits)
    then have "monitor_inv n (move i Crit g l s)" using i at own [OF i] by (intro plain) auto
    then show ?thesis using lock_returns(1) by simp
  next
    case (unlock_called i)
    then have "monitor_inv n (move i Rel (shared s) MEnterV s)"
      using ok [of i] own [of i] by (intro plain) auto
    then show ?thesis using unlock_called(1) by (simp add: monitor_impl_def)
  next
    case (unlock_runs i g l)
    note i = unlock_runs(2) and at = unlock_runs(3)
    have step: "Running g l \<in> set (monitor_unlock giving i (shared s) (local_of s i))"
      using unlock_runs(4) by (simp add: monitor_impl_def)
    have "monitor_inv n (move i Rel g l s)"
    proof (cases "local_of s i")
      case MEnterV
      with step i at own [OF i] show ?thesis by (intro plain) (auto simp: monitor_unlock_def split: if_splits)
    next
      case MGive
      then have "mvalue (shared s) = taken" using own [OF i] at val two_values by auto
      with MGive step i at two_values show ?thesis by (intro plain) (auto simp: monitor_unlock_def)
    next
      case MSignal
      then obtain k ws where g: "(k, ws) \<in> set (wake_one (msleepers (shared s)))"
          "g = (shared s)\<lparr>msleepers := ws\<rparr>" "l = MExitV"
        using step by (auto simp: monitor_unlock_def)
      have "sleeping n monitor_waits monitor_helps (busy (mvalue g)) ws (move i Rel g l s)"
        by (rule sleeping_wake [OF sl i g(1)]) (use at g in simp_all)
      then show ?thesis using i at MSignal g by (intro move) auto
    qed (use step in \<open>simp_all add: monitor_unlock_def\<close>)
    then show ?thesis using unlock_runs(1) by simp
  next
    case (unlock_returns i g l)
    note i = unlock_returns(2) and at = unlock_returns(3)
    have "local_of s i = MExitV \<and> l = MIdle \<and> g = (shared s)\<lparr>mowner := None\<rparr>"
      using unlock_returns(4) by (auto simp: monitor_impl_def monitor_unlock_def split: monitor_pc.splits if_splits)
    then have "monitor_inv n (move i Out g l s)" using i at by (intro plain) auto
    then show ?thesis using unlock_returns(1) by simp
  qed
qed

lemma monitor_init: "monitor_inv n (lock_init \<lparr>mowner = None, mvalue = free, msleepers = []\<rparr> (\<lambda>_. MIdle))"
  by (simp add: monitor_inv_def owned_def those_def lock_init_def sleeping_init two_values)

lemma monitor_call:
  assumes s: "monitor_inv n s" and i: "i < n" and out: "phase_of s i = Out"
  shows "monitor_inv n ((move i Try (shared s) (lock_call (monitor_impl spurious busy taking giving) w i (local_of s i)) s)
    \<lparr>calls := c\<rparr>)"
proof -
  have "monitor_inv n (move i Try (shared s) MEnter s)"
    using s i out by (intro monitor_plain [OF s i]) (auto simp: monitor_inv_def)
  then show ?thesis by (simp add: monitor_impl_def monitor_inv_def)
qed

lemma monitor_mutex:
  "monitor_inv n s \<Longrightarrow> i < n \<Longrightarrow> j < n \<Longrightarrow> phase_of s i = Crit \<Longrightarrow> phase_of s j = Crit \<Longrightarrow> i = j"
  using owned_unique [of "busy (mvalue (shared s))" "those n monitor_owns s" i j]
  by (simp add: monitor_inv_def those_mem)

text \<open>
  If a thread is inside the monitor it moves. If none is, one past \<open>lock\<close> enters, and if there is
  none of these either, the variable is free and some thread in \<open>lock\<close> is awake and moves.
\<close>

lemma monitor_try:
  assumes k: "k < n" "phase_of s k = Try" and ok: "monitor_ok Try (local_of s k)"
    and wait: "local_of s k = MWait \<Longrightarrow> busy (mvalue (shared s))"
    and go: "monitor_in Try (local_of s k) \<or> mowner (shared s) = None \<and> \<not> busy (mvalue (shared s)) \<and>
      (local_of s k = MAsleep \<longrightarrow> k \<notin> set (msleepers (shared s)))"
  shows "\<exists>t. lock_act (monitor_impl spurious busy taking giving) n s t \<and> monitor_mu busy n t < monitor_mu busy n s"
proof -
  let ?L = "monitor_impl spurious busy taking giving"
  have run: "\<exists>t. lock_act ?L n s t \<and> monitor_mu busy n t < monitor_mu busy n s"
    if "Running g l \<in> set (monitor_lock spurious busy taking k (shared s) (local_of s k))"
      "monitor_mu busy n (move k Try g l s) < monitor_mu busy n s" for g l
    using lock_runs [OF k, of g l ?L] that by (auto simp: monitor_impl_def)
  have ret: "\<exists>t. lock_act ?L n s t \<and> monitor_mu busy n t < monitor_mu busy n s"
    if "Returned g l \<in> set (monitor_lock spurious busy taking k (shared s) (local_of s k))"
      "monitor_mu busy n (move k Crit g l s) < monitor_mu busy n s" for g l
    using lock_returns [OF k, of g l ?L] that by (auto simp: monitor_impl_def)
  note fine = monitor_mu_fine [OF k(1)] and stage = monitor_mu_stage [OF k(1)]
  show ?thesis
  proof (cases "local_of s k")
    case MEnter
    then show ?thesis
      using go k(2) by (intro run [of "(shared s)\<lparr>mowner := Some k\<rparr>" MTest] fine) (auto simp: monitor_lock_def)
  next
    case MTest
    then show ?thesis using k(2)
      by (intro run [of "shared s" "if busy (mvalue (shared s)) then MWait else MTake"] fine)
        (auto simp: monitor_lock_def)
  next
    case MWait
    then show ?thesis using wait k(2)
      by (intro run [of "(shared s)\<lparr>mowner := None, msleepers := msleepers (shared s) @ [k]\<rparr>" MAsleep] fine)
        (auto simp: monitor_lock_def)
  next
    case MAsleep
    then show ?thesis using go k(2) wait_returns_awake [of k "msleepers (shared s)" spurious]
      by (intro run [of "shared s" MRelock] fine) (auto simp: monitor_lock_def image_iff intro!: bexI)
  next
    case MRelock
    then show ?thesis
      using go k(2) by (intro run [of "(shared s)\<lparr>mowner := Some k\<rparr>" MTest] fine) (auto simp: monitor_lock_def)
  next
    case MTake
    then show ?thesis using k(2)
      by (intro run [of "(shared s)\<lparr>mvalue := taking (mvalue (shared s))\<rparr>" MExit] stage) (auto simp: monitor_lock_def)
  next
    case MExit
    then show ?thesis using k(2)
      by (intro ret [of "(shared s)\<lparr>mowner := None\<rparr>" MIdle] stage) (auto simp: monitor_lock_def)
  qed (use ok in simp_all)
qed

lemma monitor_rel:
  assumes k: "k < n" "phase_of s k = Rel" and ok: "monitor_ok Rel (local_of s k)"
    and go: "monitor_in Rel (local_of s k) \<or> mowner (shared s) = None"
  shows "\<exists>t. lock_act (monitor_impl spurious busy taking giving) n s t \<and> monitor_mu busy n t < monitor_mu busy n s"
proof -
  let ?L = "monitor_impl spurious busy taking giving"
  have run: "\<exists>t. lock_act ?L n s t \<and> monitor_mu busy n t < monitor_mu busy n s"
    if "Running g l \<in> set (monitor_unlock giving k (shared s) (local_of s k))"
      "monitor_mu busy n (move k Rel g l s) < monitor_mu busy n s" for g l
    using unlock_runs [OF k, of g l ?L] that by (auto simp: monitor_impl_def)
  have ret: "\<exists>t. lock_act ?L n s t \<and> monitor_mu busy n t < monitor_mu busy n s"
    if "Returned g l \<in> set (monitor_unlock giving k (shared s) (local_of s k))"
      "monitor_mu busy n (move k Out g l s) < monitor_mu busy n s" for g l
    using unlock_returns [OF k, of g l ?L] that by (auto simp: monitor_impl_def)
  note stage = monitor_mu_stage [OF k(1)]
  show ?thesis
  proof (cases "local_of s k")
    case MEnterV
    then show ?thesis
      using go k(2) by (intro run [of "(shared s)\<lparr>mowner := Some k\<rparr>" MGive] stage) (auto simp: monitor_unlock_def)
  next
    case MGive
    then show ?thesis using k(2)
      by (intro run [of "(shared s)\<lparr>mvalue := giving (mvalue (shared s))\<rparr>" MSignal] stage)
        (auto simp: monitor_unlock_def)
  next
    case MSignal
    obtain j ws where "(j, ws) \<in> set (wake_one (msleepers (shared s)))" using wake_one_some by blast
    then show ?thesis using MSignal k(2)
      by (intro run [of "(shared s)\<lparr>msleepers := ws\<rparr>" MExitV] stage) (force simp: monitor_unlock_def)+
  next
    case MExitV
    then show ?thesis using k(2)
      by (intro ret [of "(shared s)\<lparr>mowner := None\<rparr>" MIdle] stage) (auto simp: monitor_unlock_def)
  qed (use ok in simp_all)
qed

lemma monitor_progress:
  assumes s: "monitor_inv n s" and i: "i < n" "phase_of s i \<noteq> Out"
  shows "\<exists>t. lock_act (monitor_impl spurious busy taking giving) n s t \<and> monitor_mu busy n t < monitor_mu busy n s"
proof -
  have ok: "monitor_ok (phase_of s k) (local_of s k)" "local_of s k = MWait \<Longrightarrow> busy (mvalue (shared s))"
    if "k < n" for k using s that by (simp_all add: monitor_inv_def)
  have sl: "sleeping n monitor_waits monitor_helps (busy (mvalue (shared s))) (msleepers (shared s)) s"
    using s by (simp add: monitor_inv_def)
  show ?thesis
  proof (cases "\<exists>k<n. monitor_in (phase_of s k) (local_of s k)")
    case True
    then obtain k where k: "k < n" "monitor_in (phase_of s k) (local_of s k)" by blast
    then have "phase_of s k = Try \<or> phase_of s k = Rel" using ok [OF k(1)] by (cases "phase_of s k") auto
    then show ?thesis using monitor_try [OF k(1)] monitor_rel [OF k(1)] ok [OF k(1)] k(2) by auto
  next
    case False
    then have "those n monitor_in s = {}" by (auto simp: those_def)
    then have empty: "mowner (shared s) = None" using s by (auto simp: monitor_inv_def owned_def split: if_splits)
    show ?thesis
    proof (cases rule: owner_cases [of n s])
      case (1 k)
      have "lock_act (monitor_impl spurious busy taking giving) n s (move k Rel (shared s) MEnterV s)"
        using unlock_called [OF 1, of "monitor_impl spurious busy taking giving"] by (simp add: monitor_impl_def)
      moreover have "monitor_mu busy n (move k Rel (shared s) MEnterV s) < monitor_mu busy n s"
        using 1 by (intro monitor_mu_stage) simp_all
      ultimately show ?thesis by blast
    next
      case (2 k)
      then show ?thesis using monitor_rel [OF 2] ok [OF 2(1)] empty by simp
    next
      case 3
      have "those n monitor_owns s = {}"
      proof -
        have "\<not> monitor_owns (phase_of s k) (local_of s k)" if "k < n" for k
          using 3 [OF that] False that by (auto split: if_splits)
        then show ?thesis by (auto simp: those_def)
      qed
      then have free: "\<not> busy (mvalue (shared s))" using s by (auto simp: monitor_inv_def owned_def split: if_splits)
      have "\<exists>k<n. phase_of s k = Try \<and> (local_of s k = MAsleep \<longrightarrow> k \<notin> set (msleepers (shared s)))"
      proof (cases "\<exists>k<n. phase_of s k = Try \<and> local_of s k \<noteq> MAsleep")
        case awake: False
        have helpless: "those n monitor_helps s = {}"
        proof -
          have "\<not> monitor_helps (phase_of s k) (local_of s k)" if "k < n" for k
            using 3 [OF that] awake that by auto
          then show ?thesis by (auto simp: those_def)
        qed
        have "phase_of s i = Try" using 3 [OF i(1)] i(2) by simp
        moreover from this have "local_of s i = MAsleep" using awake i(1) by blast
        ultimately show ?thesis using sleeping_awake [OF sl free helpless i(1)] by (metis monitor_waits.simps)
      qed blast
      then obtain k where k: "k < n" "phase_of s k = Try" "local_of s k = MAsleep \<longrightarrow> k \<notin> set (msleepers (shared s))"
        by blast
      moreover from k(1,2) have "monitor_ok Try (local_of s k)" using ok(1) [of k] by simp
      ultimately show ?thesis using ok(2) [OF k(1)] empty free by (intro monitor_try) auto
    qed
  qed
qed

end

subsection \<open>The two programs\<close>

interpretation monitor_mutex: monitor spurious "\<lambda>locked. locked \<noteq> 0" "\<lambda>_. 1" "\<lambda>_. 0" 0 1 for spurious
  by unfold_locales simp_all

interpretation monitor_semaphore: monitor spurious "\<lambda>v. v = 0" "\<lambda>v. v - 1" "\<lambda>v. v + 1" 1 0 for spurious
  by unfold_locales simp_all

interpretation monitor_mutex: live_program "monitor_mutex_prog spurious n m"
    "monitor.monitor_inv (\<lambda>locked. locked \<noteq> 0) 0 1 n" "monitor_mu (\<lambda>locked. locked \<noteq> 0) n" for spurious n m
  by unfold_locales (use monitor_mutex.monitor_init monitor_mutex.monitor_call monitor_mutex.monitor_act
    monitor_mutex.monitor_mutex monitor_mutex.monitor_progress in \<open>auto simp: monitor_mutex_prog_def\<close>)

interpretation monitor_semaphore: live_program "monitor_semaphore_prog spurious n m"
    "monitor.monitor_inv (\<lambda>v. v = 0) 1 0 n" "monitor_mu (\<lambda>v. v = 0) n" for spurious n m
  by unfold_locales (use monitor_semaphore.monitor_init monitor_semaphore.monitor_call monitor_semaphore.monitor_act
    monitor_semaphore.monitor_mutex monitor_semaphore.monitor_progress in \<open>auto simp: monitor_semaphore_prog_def\<close>)

subsection \<open>\<open>mutex_relaxed.c\<close>\<close>

definition relaxed_unlock :: "tid \<Rightarrow> monitor_globals \<Rightarrow> monitor_pc \<Rightarrow> (monitor_globals, monitor_pc) outcome list" where
  "relaxed_unlock i g l = (case l of
       MGive \<Rightarrow> [Running (g\<lparr>mvalue := 0\<rparr>) MSignal]
     | MSignal \<Rightarrow> map (\<lambda>(k, ws). Returned (g\<lparr>msleepers := ws\<rparr>) MIdle) (wake_one (msleepers g))
     | _ \<Rightarrow> [])"

definition monitor_relaxed_prog :: "bool \<Rightarrow> nat \<Rightarrow> nat \<Rightarrow> (monitor_globals, monitor_pc) program" where
  "monitor_relaxed_prog spurious num_thr max_cnt = \<lparr>impl = \<lparr>
       lock_call = (\<lambda>w i l. MEnter), lock_step = monitor_lock spurious (\<lambda>locked. locked \<noteq> 0) (\<lambda>_. 1),
       unlock_call = (\<lambda>i l. MGive), unlock_step = relaxed_unlock\<rparr>, num_threads = num_thr,
     max_count = max_cnt, expected_count = max_cnt, cells = 1, target = one_counter,
     globals0 = \<lparr>mowner = None, mvalue = 0, msleepers = []\<rparr>, locals0 = (\<lambda>_. MIdle)\<rparr>"

text \<open>Mutual exclusion needs less than the invariant above: nobody else clears the variable.\<close>

fun relaxed_in :: "phase \<Rightarrow> monitor_pc \<Rightarrow> bool" where
  "relaxed_in Try l = (l \<in> {MTest, MWait, MTake, MExit})"
| "relaxed_in _ l = False"

fun relaxed_owns :: "phase \<Rightarrow> monitor_pc \<Rightarrow> bool" where
  "relaxed_owns Try l = (l = MExit)"
| "relaxed_owns Crit l = True"
| "relaxed_owns Rel l = (l = MGive)"
| "relaxed_owns Out l = False"

definition relaxed_inv :: "nat \<Rightarrow> monitor_state \<Rightarrow> bool" where
  "relaxed_inv n s \<longleftrightarrow>
     (\<forall>i<n. phase_of s i = Try \<longrightarrow> local_of s i = MTake \<longrightarrow> mvalue (shared s) = 0) \<and>
     owned (mowner (shared s) \<noteq> None) (those n relaxed_in s) \<and>
     owned (mvalue (shared s) \<noteq> 0) (those n relaxed_owns s)"

lemma relaxed_move:
  assumes s: "relaxed_inv n s" and i: "i < n" and test: "p = Try \<Longrightarrow> l = MTake \<Longrightarrow> mvalue g = 0"
    and ins: "relaxed_in p l = relaxed_in (phase_of s i) (local_of s i) \<and> (mowner g = None) = (mowner (shared s) = None) \<or>
      relaxed_in p l \<and> mowner (shared s) = None \<and> mowner g \<noteq> None \<or>
      \<not> relaxed_in p l \<and> relaxed_in (phase_of s i) (local_of s i) \<and> mowner g = None"
    and val: "mvalue g = mvalue (shared s) \<or> relaxed_in (phase_of s i) (local_of s i) \<or> mvalue g = 0"
    and own: "relaxed_owns p l = relaxed_owns (phase_of s i) (local_of s i) \<and> (mvalue g = 0) = (mvalue (shared s) = 0) \<or>
      relaxed_owns p l \<and> mvalue (shared s) = 0 \<and> mvalue g \<noteq> 0 \<or>
      \<not> relaxed_owns p l \<and> relaxed_owns (phase_of s i) (local_of s i) \<and> mvalue g = 0"
  shows "relaxed_inv n (move i p g l s)"
proof -
  have "owned (mowner g \<noteq> None) (those n relaxed_in (move i p g l s))"
    by (rule owned_move [of "mowner (shared s) \<noteq> None"]) (use s i ins in \<open>auto simp: relaxed_inv_def\<close>)
  moreover have "owned (mvalue g \<noteq> 0) (those n relaxed_owns (move i p g l s))"
    by (rule owned_move [of "mvalue (shared s) \<noteq> 0"]) (use s i own in \<open>auto simp: relaxed_inv_def\<close>)
  moreover have "mvalue g = 0" if "j < n" "j \<noteq> i" "phase_of s j = Try" "local_of s j = MTake" for j
  proof -
    have "mvalue (shared s) = 0" using s that by (simp add: relaxed_inv_def)
    moreover have "\<not> relaxed_in (phase_of s i) (local_of s i)"
      using owned_unique [of "mowner (shared s) \<noteq> None" "those n relaxed_in s" i j] s that i
      by (auto simp: relaxed_inv_def those_mem)
    ultimately show ?thesis using val by auto
  qed
  ultimately show ?thesis using test by (simp add: relaxed_inv_def)
qed

lemma relaxed_act:
  assumes s: "relaxed_inv n s" and act: "lock_act (impl (monitor_relaxed_prog spurious n' m)) n s t"
  shows "relaxed_inv n t"
  using act
proof cases
  case (lock_runs i g l)
  have "mvalue (shared s) = 0" if "local_of s i = MTake"
    using s that lock_runs(2,3) by (simp add: relaxed_inv_def)
  then have "relaxed_inv n (move i Try g l s)"
    using lock_runs
    by (intro relaxed_move [OF s])
      (auto simp: monitor_relaxed_prog_def monitor_lock_def split: monitor_pc.splits if_splits)
  then show ?thesis using lock_runs(1) by simp
next
  case (lock_returns i g l)
  then have "relaxed_inv n (move i Crit g l s)"
    by (intro relaxed_move [OF s])
      (auto simp: monitor_relaxed_prog_def monitor_lock_def split: monitor_pc.splits if_splits)
  then show ?thesis using lock_returns(1) by simp
next
  case (unlock_called i)
  then have "relaxed_inv n (move i Rel (shared s) MGive s)" by (intro relaxed_move [OF s]) auto
  then show ?thesis using unlock_called(1) by (simp add: monitor_relaxed_prog_def)
next
  case (unlock_runs i g l)
  then have "relaxed_inv n (move i Rel g l s)"
    by (intro relaxed_move [OF s])
      (auto simp: monitor_relaxed_prog_def relaxed_unlock_def split: monitor_pc.splits if_splits)
  then show ?thesis using unlock_runs(1) by simp
next
  case (unlock_returns i g l)
  then have "relaxed_inv n (move i Out g l s)"
    by (intro relaxed_move [OF s])
      (auto simp: monitor_relaxed_prog_def relaxed_unlock_def split: monitor_pc.splits if_splits)
  then show ?thesis using unlock_returns(1) by simp
qed

lemma relaxed_call:
  assumes s: "relaxed_inv n s" and "i < n" "phase_of s i = Out"
  shows "relaxed_inv n ((move i Try (shared s) MEnter s)\<lparr>calls := c\<rparr>)"
proof -
  have "relaxed_inv n (move i Try (shared s) MEnter s)" using assms by (intro relaxed_move [OF s]) auto
  then show ?thesis by (simp add: relaxed_inv_def)
qed

lemma relaxed_mutex:
  "relaxed_inv n s \<Longrightarrow> i < n \<Longrightarrow> j < n \<Longrightarrow> phase_of s i = Crit \<Longrightarrow> phase_of s j = Crit \<Longrightarrow> i = j"
  using owned_unique [of "mvalue (shared s) \<noteq> 0" "those n relaxed_owns s" i j]
  by (simp add: relaxed_inv_def those_mem)

lemma relaxed_init: "relaxed_inv n (lock_init \<lparr>mowner = None, mvalue = 0, msleepers = []\<rparr> (\<lambda>_. MIdle))"
  by (simp add: relaxed_inv_def owned_def those_def lock_init_def)

interpretation monitor_relaxed: locked_program "monitor_relaxed_prog spurious n m" "relaxed_inv n" for spurious n m
proof unfold_locales
  let ?P = "monitor_relaxed_prog spurious n m"
  show "relaxed_inv n t" if "relaxed_inv n s" "lock_act (impl ?P) (num_threads ?P) s t" for s t
    using relaxed_act [OF that(1)] that(2) by (simp add: monitor_relaxed_prog_def)
qed (use relaxed_init relaxed_call relaxed_mutex in \<open>auto simp: monitor_relaxed_prog_def\<close>)

text \<open>
  Two threads of one round each. Thread 1 finds the variable taken and is about to wait; thread 0
  gives the variable back and signals to nobody, prints and ends; thread 1 falls asleep.
\<close>

definition missed_signal :: "(tid option \<times> nat) list" where
  "missed_signal = map (\<lambda>w. (w, 0)) [None, None, None,
     Some 0, Some 0, Some 0, Some 0, Some 0, Some 1, Some 1, Some 1,
     Some 0, Some 0, Some 0, Some 0, Some 0, Some 0, Some 0, Some 1, None]"

lemma stuck_step:
  "main_step P s = [] \<Longrightarrow> (\<And>i. i < num_threads P \<Longrightarrow> count_step P i s = []) \<Longrightarrow> \<not> prog_step P s t"
  by (auto elim!: prog_step.cases)

subsection \<open>Properties\<close>

text \<open>C17: the mutex and the semaphore made of a condition variable are correct for any number of
  threads, with or without spurious wake-ups: mutual exclusion, every increment counted, no
  signal lost: from every reachable state the program can finish.\<close>

theorem monitor_programs_correct:
  "program_correct (monitor_mutex_prog spurious n m) \<and> program_correct (monitor_semaphore_prog spurious n m)"
  by (intro conjI monitor_mutex.correct monitor_semaphore.correct)

lemma monitor_relaxed_deadlock:
  "\<exists>s. prog_reach (monitor_relaxed_prog False 2 2) s \<and> mpc s \<noteq> MainDone \<and>
    \<not> (\<exists>t. prog_step (monitor_relaxed_prog False 2 2) s t)"
proof -
  let ?P = "monitor_relaxed_prog False 2 2"
  have "\<exists>s. run_schedule ?P missed_signal (prog_init ?P) = Some s \<and> mpc s \<noteq> MainDone \<and>
      main_step ?P s = [] \<and> count_step ?P 0 s = [] \<and> count_step ?P 1 s = []"
    by (simp add: missed_signal_def monitor_relaxed_prog_def prog_init_def main_step_def count_step_def
        monitor_lock_def relaxed_unlock_def wake_one_def wait_returns_def rounds_def Let_def)
  then obtain s where s: "run_schedule ?P missed_signal (prog_init ?P) = Some s" "mpc s \<noteq> MainDone"
    "main_step ?P s = []" "count_step ?P 0 s = []" "count_step ?P 1 s = []" by blast
  have "count_step ?P i s = []" if "i < num_threads ?P" for i
    using that s(4,5) by (cases "i = 0") (auto simp: monitor_relaxed_prog_def less_2_cases_iff)
  then have "\<not> prog_step ?P s t" for t using s(3) by (intro stuck_step) auto
  then show ?thesis using run_schedule_reaches [OF s(1)] s(2) by blast
qed

text \<open>C18: without the mutex in \<open>unlock\<close> mutual exclusion and the count remain, for any number of
  threads, but a signal can be lost: two threads of one round each reach a state from which no step
  is possible and \<open>main\<close> has not finished.\<close>

theorem monitor_relaxed_safe_but_stuck:
  "mutual_exclusion (monitor_relaxed_prog spurious n m) \<and> prints_total (monitor_relaxed_prog spurious n m) \<and>
    (\<exists>s. prog_reach (monitor_relaxed_prog False 2 2) s \<and> mpc s \<noteq> MainDone \<and>
      \<not> (\<exists>t. prog_step (monitor_relaxed_prog False 2 2) s t))"
  by (intro conjI monitor_relaxed.excludes monitor_relaxed.counts monitor_relaxed_deadlock)

end
