(* ===== verification/Fair_Mutex.thy ===== *)
theory Fair_Mutex
  imports Queue_Ticket Futex
begin

section \<open>Fair futex mutexes\<close>

text \<open>
  \<open>futex/fair_mutex.c\<close>, \<open>futex/fair_mutex_bitset.c\<close> and \<open>futex/fair_mutex_spin.c\<close>: ticket
  locks whose waiting threads sleep on the word \<open>turn\<close>. The first wakes every sleeper at each
  \<open>unlock\<close>; the second only those whose bit, the ticket modulo 32, is the one of the new turn; the
  third spins a hundred times on both sides before it sleeps or wakes, and does not wake when
  the next thread has already stored its ticket in \<open>current\<close>. The test before the wake-up
  compares counters that wrap: the theorems ask for fewer calls of \<open>lock\<close> than numbers.
\<close>

text \<open>The kernel keeps a bit set per sleeper; a wake-up wakes those it has a bit in common with.
  Plain \<open>FUTEX_WAIT\<close> and \<open>FUTEX_WAKE\<close> have all the bits.\<close>

type_synonym sleeper = "tid \<times> u32"

definition match_any :: u32 where "match_any = - 1"

definition wake_bits :: "u32 \<Rightarrow> sleeper list \<Rightarrow> sleeper list" where
  "wake_bits bits ws = filter (\<lambda>w. and (snd w) bits = 0) ws"

definition bits_returns :: "bool \<Rightarrow> tid \<Rightarrow> sleeper list \<Rightarrow> sleeper list list" where
  "bits_returns spurious i ws =
     (if i \<in> fst ` set ws then (if spurious then [filter (\<lambda>w. fst w \<noteq> i) ws] else []) else [ws])"

lemma bits_returns_cases: "vs \<in> set (bits_returns spurious i ws) \<Longrightarrow> vs = filter (\<lambda>w. fst w \<noteq> i) ws"
  by (force simp: bits_returns_def split: if_splits intro: sym [OF filter_True])

lemma bits_returns_awake: "i \<notin> fst ` set ws \<Longrightarrow> ws \<in> set (bits_returns spurious i ws)"
  by (simp add: bits_returns_def)

text \<open>\<open>struct simple_futex\<close> of the first program; the other two have a field more.\<close>

record fair_futex =
  number :: u32
  turn :: u32
  sleepers :: "sleeper list"

record current_futex = fair_futex +
  current :: u32

datatype fair_pc = VIdle | VTake | VSpin | VYield | VRead | VCallWait | VAsleep | VStore
  | VAdd | VSpinCurrent | VTest | VWake

record fair_local =
  vpc :: fair_pc
  my_number :: u32
  my_turn :: u32
  my_current :: u32
  tries :: nat

text \<open>\<open>MASK(N)\<close>: \<open>N\<close> is unsigned in \<open>lock\<close> and an \<open>int\<close> in \<open>unlock\<close>. For a negative \<open>N\<close> the C
  expression shifts by a negative amount; the theorems keep away from it.\<close>

definition MASK :: "int \<Rightarrow> u32" where
  "MASK N = push_bit (nat (N mod 32)) 1"

subsection \<open>\<open>fair_mutex.c\<close>\<close>

definition fair_lock :: "bool \<Rightarrow> tid \<Rightarrow> fair_futex \<Rightarrow> fair_local \<Rightarrow> (fair_futex, fair_local) outcome list" where
  "fair_lock spurious i g l = (case vpc l of
       VTake \<Rightarrow> [Running (g\<lparr>number := number g + 1\<rparr>) (l\<lparr>my_number := number g, vpc := VRead\<rparr>)]
     | VRead \<Rightarrow> [if my_number l \<noteq> turn g then Running g (l\<lparr>my_turn := turn g, vpc := VCallWait\<rparr>)
                else Returned g (l\<lparr>vpc := VIdle\<rparr>)]
     | VCallWait \<Rightarrow>
         [if turn g = my_turn l then Running (g\<lparr>sleepers := sleepers g @ [(i, match_any)]\<rparr>) (l\<lparr>vpc := VAsleep\<rparr>)
          else Running g (l\<lparr>vpc := VRead\<rparr>)]
     | VAsleep \<Rightarrow> map (\<lambda>ws. Running (g\<lparr>sleepers := ws\<rparr>) (l\<lparr>vpc := VRead\<rparr>)) (bits_returns spurious i (sleepers g))
     | _ \<Rightarrow> [])"

definition fair_unlock :: "tid \<Rightarrow> fair_futex \<Rightarrow> fair_local \<Rightarrow> (fair_futex, fair_local) outcome list" where
  "fair_unlock i g l = (case vpc l of
       VAdd \<Rightarrow> [Running (g\<lparr>turn := turn g + 1\<rparr>) (l\<lparr>my_current := turn g + 1, vpc := VTest\<rparr>)]
     | VTest \<Rightarrow> [if number g \<ge> my_current l then Running g (l\<lparr>vpc := VWake\<rparr>)
                else Returned g (l\<lparr>vpc := VIdle\<rparr>)]
     | VWake \<Rightarrow> [Returned (g\<lparr>sleepers := wake_bits match_any (sleepers g)\<rparr>) (l\<lparr>vpc := VIdle\<rparr>)]
     | _ \<Rightarrow> [])"

definition fair_local0 :: "tid \<Rightarrow> fair_local" where
  "fair_local0 _ = \<lparr>vpc = VIdle, my_number = 0, my_turn = 0, my_current = 0, tries = 0\<rparr>"

definition fair_mutex_prog :: "bool \<Rightarrow> nat \<Rightarrow> nat \<Rightarrow> (fair_futex, fair_local) program" where
  "fair_mutex_prog spurious num_thr max_cnt = \<lparr>impl = \<lparr>
       lock_call = (\<lambda>w i l. l\<lparr>vpc := VTake\<rparr>), lock_step = fair_lock spurious,
       unlock_call = (\<lambda>i l. l\<lparr>vpc := VAdd\<rparr>), unlock_step = fair_unlock\<rparr>,
     num_threads = num_thr, max_count = max_cnt, expected_count = max_cnt, cells = 1, target = one_counter,
     globals0 = \<lparr>number = 0, turn = 0, sleepers = []\<rparr>, locals0 = fair_local0\<rparr>"

subsection \<open>\<open>fair_mutex_bitset.c\<close>\<close>

definition bitset_lock ::
  "bool \<Rightarrow> tid \<Rightarrow> current_futex \<Rightarrow> fair_local \<Rightarrow> (current_futex, fair_local) outcome list" where
  "bitset_lock spurious i g l = (case vpc l of
       VTake \<Rightarrow> [Running (g\<lparr>number := number g + 1\<rparr>) (l\<lparr>my_number := number g, vpc := VRead\<rparr>)]
     | VRead \<Rightarrow> [Running g (if my_number l \<noteq> turn g then l\<lparr>my_turn := turn g, vpc := VCallWait\<rparr>
                else l\<lparr>vpc := VStore\<rparr>)]
     | VCallWait \<Rightarrow>
         [if turn g = my_turn l
          then Running (g\<lparr>sleepers := sleepers g @ [(i, MASK (uint (my_number l)))]\<rparr>) (l\<lparr>vpc := VAsleep\<rparr>)
          else Running g (l\<lparr>vpc := VRead\<rparr>)]
     | VAsleep \<Rightarrow> map (\<lambda>ws. Running (g\<lparr>sleepers := ws\<rparr>) (l\<lparr>vpc := VRead\<rparr>)) (bits_returns spurious i (sleepers g))
     | VStore \<Rightarrow> [Returned (g\<lparr>current := my_number l\<rparr>) (l\<lparr>vpc := VIdle\<rparr>)]
     | _ \<Rightarrow> [])"

definition bitset_unlock :: "tid \<Rightarrow> current_futex \<Rightarrow> fair_local \<Rightarrow> (current_futex, fair_local) outcome list" where
  "bitset_unlock i g l = (case vpc l of
       VAdd \<Rightarrow> [Running (g\<lparr>turn := turn g + 1\<rparr>) (l\<lparr>my_current := turn g + 1, vpc := VTest\<rparr>)]
     | VTest \<Rightarrow> [if number g \<ge> my_current l then Running g (l\<lparr>vpc := VWake\<rparr>)
                else Returned g (l\<lparr>vpc := VIdle\<rparr>)]
     | VWake \<Rightarrow> [Returned (g\<lparr>sleepers := wake_bits (MASK (sint (my_current l))) (sleepers g)\<rparr>) (l\<lparr>vpc := VIdle\<rparr>)]
     | _ \<Rightarrow> [])"

definition fair_bitset_prog :: "bool \<Rightarrow> nat \<Rightarrow> nat \<Rightarrow> (current_futex, fair_local) program" where
  "fair_bitset_prog spurious num_thr max_cnt = \<lparr>impl = \<lparr>
       lock_call = (\<lambda>w i l. l\<lparr>vpc := VTake\<rparr>), lock_step = bitset_lock spurious,
       unlock_call = (\<lambda>i l. l\<lparr>vpc := VAdd\<rparr>), unlock_step = bitset_unlock\<rparr>,
     num_threads = num_thr, max_count = max_cnt, expected_count = max_cnt, cells = 1, target = one_counter,
     globals0 = \<lparr>number = 0, turn = 0, sleepers = [], current = 0\<rparr>, locals0 = fair_local0\<rparr>"

subsection \<open>\<open>fair_mutex_spin.c\<close>\<close>

definition fair_spin_lock ::
  "bool \<Rightarrow> tid \<Rightarrow> current_futex \<Rightarrow> fair_local \<Rightarrow> (current_futex, fair_local) outcome list" where
  "fair_spin_lock spurious i g l = (case vpc l of
       VTake \<Rightarrow> [Running (g\<lparr>number := number g + 1\<rparr>) (l\<lparr>my_number := number g, tries := 0, vpc := VSpin\<rparr>)]
     | VSpin \<Rightarrow> [Running g (if my_number l \<noteq> turn g \<and> tries l < 100 then l\<lparr>tries := tries l + 1, vpc := VYield\<rparr>
                else l\<lparr>vpc := VRead\<rparr>)]
     | VYield \<Rightarrow> [Running g (l\<lparr>vpc := VSpin\<rparr>)]
     | VRead \<Rightarrow> [Running g (if my_number l \<noteq> turn g then l\<lparr>my_turn := turn g, vpc := VCallWait\<rparr>
                else l\<lparr>vpc := VStore\<rparr>)]
     | VCallWait \<Rightarrow>
         [if turn g = my_turn l then Running (g\<lparr>sleepers := sleepers g @ [(i, match_any)]\<rparr>) (l\<lparr>vpc := VAsleep\<rparr>)
          else Running g (l\<lparr>vpc := VRead\<rparr>)]
     | VAsleep \<Rightarrow> map (\<lambda>ws. Running (g\<lparr>sleepers := ws\<rparr>) (l\<lparr>vpc := VRead\<rparr>)) (bits_returns spurious i (sleepers g))
     | VStore \<Rightarrow> [Returned (g\<lparr>current := my_number l\<rparr>) (l\<lparr>vpc := VIdle\<rparr>)]
     | _ \<Rightarrow> [])"

definition fair_spin_unlock :: "tid \<Rightarrow> current_futex \<Rightarrow> fair_local \<Rightarrow> (current_futex, fair_local) outcome list" where
  "fair_spin_unlock i g l = (case vpc l of
       VAdd \<Rightarrow> [Running (g\<lparr>turn := turn g + 1\<rparr>) (l\<lparr>my_current := turn g + 1, tries := 0, vpc := VSpinCurrent\<rparr>)]
     | VSpinCurrent \<Rightarrow> [Running g (if my_current l \<noteq> current g \<and> tries l < 100 then l\<lparr>tries := tries l + 1\<rparr>
                else l\<lparr>vpc := VTest\<rparr>)]
     | VTest \<Rightarrow> [if my_current l > current g then Running g (l\<lparr>vpc := VWake\<rparr>)
                else Returned g (l\<lparr>vpc := VIdle\<rparr>)]
     | VWake \<Rightarrow> [Returned (g\<lparr>sleepers := wake_bits match_any (sleepers g)\<rparr>) (l\<lparr>vpc := VIdle\<rparr>)]
     | _ \<Rightarrow> [])"

definition fair_spin_prog :: "bool \<Rightarrow> nat \<Rightarrow> nat \<Rightarrow> (current_futex, fair_local) program" where
  "fair_spin_prog spurious num_thr max_cnt = \<lparr>impl = \<lparr>
       lock_call = (\<lambda>w i l. l\<lparr>vpc := VTake\<rparr>), lock_step = fair_spin_lock spurious,
       unlock_call = (\<lambda>i l. l\<lparr>vpc := VAdd\<rparr>), unlock_step = fair_spin_unlock\<rparr>,
     num_threads = num_thr, max_count = max_cnt, expected_count = max_cnt, cells = 1, target = one_counter,
     globals0 = \<lparr>number = 0, turn = 0, sleepers = [], current = 0\<rparr>, locals0 = fair_local0\<rparr>"

subsection \<open>The sleepers of a ticket lock\<close>

fun fair_stage :: "phase \<Rightarrow> fair_local \<Rightarrow> stage" where
  "fair_stage Out l = NoTicket"
| "fair_stage Try l = (if vpc l = VTake then NoTicket else if vpc l = VStore then Granted else Queued)"
| "fair_stage Crit l = Granted"
| "fair_stage Rel l = (if vpc l = VAdd then Granted else NoTicket)"

text \<open>The control points of \<open>lock\<close> and of \<open>unlock\<close> are a parameter: the programs differ in them.\<close>

fun fair_ok :: "fair_pc set \<Rightarrow> phase \<Rightarrow> fair_local \<Rightarrow> bool" where
  "fair_ok pcs Try l = (vpc l \<in> pcs - {VAdd, VSpinCurrent, VTest, VWake} \<and>
     (vpc l = VCallWait \<longrightarrow> my_turn l \<noteq> my_number l))"
| "fair_ok pcs Rel l = (vpc l \<in> pcs \<inter> {VAdd, VSpinCurrent, VTest, VWake})"
| "fair_ok pcs _ l = True"

fun fair_helps :: "phase \<Rightarrow> fair_local \<Rightarrow> bool" where
  "fair_helps Rel l = (vpc l \<in> {VSpinCurrent, VTest, VWake})"
| "fair_helps _ l = False"

fun fair_rank :: "fair_local \<Rightarrow> nat" where
  "fair_rank l = (case vpc l of
     VTake \<Rightarrow> 6 | VYield \<Rightarrow> 5 | VSpin \<Rightarrow> 4 | VAsleep \<Rightarrow> 4 | VCallWait \<Rightarrow> 4 | VRead \<Rightarrow> 3 | VStore \<Rightarrow> 2
   | VAdd \<Rightarrow> 103 | VSpinCurrent \<Rightarrow> 2 + (100 - tries l) | VTest \<Rightarrow> 1 | _ \<Rightarrow> 0)"

text \<open>What the steps of \<open>lock\<close> and of \<open>unlock\<close> do to the sleepers and to \<open>current\<close>.\<close>

definition lock_rests ::
  "('s fair_futex_scheme \<Rightarrow> u32) \<Rightarrow> (u32 \<Rightarrow> u32) \<Rightarrow> tid \<Rightarrow>
    's fair_futex_scheme \<Rightarrow> fair_local \<Rightarrow> 's fair_futex_scheme \<Rightarrow> fair_local \<Rightarrow> bool" where
  "lock_rests seen bits i g l g' l' \<longleftrightarrow>
     sleepers g' = sleepers g \<and> vpc l' \<noteq> VAsleep \<and> vpc l \<noteq> VAsleep \<and>
       (seen g' = seen g \<or> vpc l = VStore \<and> seen g' = my_number l) \<or>
     sleepers g' = sleepers g @ [(i, bits (my_number l))] \<and> vpc l' = VAsleep \<and> vpc l = VCallWait \<and>
       turn g \<noteq> my_number l \<and> seen g' = seen g \<or>
     sleepers g' = filter (\<lambda>w. fst w \<noteq> i) (sleepers g) \<and> vpc l = VAsleep \<and> vpc l' \<noteq> VAsleep \<and> seen g' = seen g"

definition unlock_rests ::
  "('s fair_futex_scheme \<Rightarrow> u32) \<Rightarrow> (u32 \<Rightarrow> u32) \<Rightarrow>
    's fair_futex_scheme \<Rightarrow> fair_local \<Rightarrow> phase \<Rightarrow> 's fair_futex_scheme \<Rightarrow> fair_local \<Rightarrow> bool" where
  "unlock_rests seen bits g l p g' l' \<longleftrightarrow> seen g' = seen g \<and>
     (sleepers g' = sleepers g \<and> turn g' = turn g + 1 \<and> vpc l = VAdd \<and> fair_helps p l' \<and> my_current l' = turn g' \<or>
      sleepers g' = sleepers g \<and> turn g' = turn g \<and> fair_helps Rel l \<and> fair_helps p l' \<and> my_current l' = my_current l \<or>
      sleepers g' = sleepers g \<and> turn g' = turn g \<and> fair_helps Rel l \<and> (my_current l \<le> seen g \<or> number g < my_current l) \<or>
      sleepers g' = wake_bits (bits (my_current l)) (sleepers g) \<and> turn g' = turn g \<and> fair_helps Rel l)"

text \<open>The invariant: every sleeper is a thread of \<open>lock\<close> that has not got \<open>current\<close>'s ticket or an
  earlier one, and when its ticket is served some thread of \<open>unlock\<close> is about to wake it.\<close>

definition rests ::
  "('s fair_futex_scheme \<Rightarrow> u32) \<Rightarrow> (u32 \<Rightarrow> u32) \<Rightarrow> nat \<Rightarrow> ('s fair_futex_scheme, fair_local) lock_state \<Rightarrow>
    sleeper \<Rightarrow> bool" where
  "rests seen bits n s w \<longleftrightarrow>
     fst w < n \<and> phase_of s (fst w) = Try \<and> vpc (local_of s (fst w)) = VAsleep \<and>
     snd w = bits (my_number (local_of s (fst w))) \<and>
     seen (shared s) < my_number (local_of s (fst w)) \<and>
     (my_number (local_of s (fst w)) = turn (shared s) \<longrightarrow>
       (\<exists>j<n. fair_helps (phase_of s j) (local_of s j) \<and> my_current (local_of s j) = turn (shared s)))"

locale sleeping_ticket =
  bounded_ticket L n b s0 l0 number turn my_number fair_stage "fair_ok pcs"
  for L :: "('s fair_futex_scheme, fair_local) lock_impl" and n b :: nat
    and s0 :: "'s fair_futex_scheme" and l0 :: "tid \<Rightarrow> fair_local" and pcs :: "fair_pc set" +
  fixes seen :: "'s fair_futex_scheme \<Rightarrow> u32" and bits :: "u32 \<Rightarrow> u32"
  assumes asleep0: "sleepers s0 = []" and seen0: "seen s0 = 0"
    and bits: "and (bits t) (bits t) \<noteq> 0"
    and lock_running_rests: "fair_ok pcs Try l \<Longrightarrow> Running g' l' \<in> set (lock_step L i g l) \<Longrightarrow>
      lock_rests seen bits i g l g' l'"
    and lock_returned_rests: "fair_ok pcs Try l \<Longrightarrow> Returned g' l' \<in> set (lock_step L i g l) \<Longrightarrow>
      lock_rests seen bits i g l g' l'"
    and unlock_called_rests: "vpc (unlock_call L i l) = VAdd"
    and unlock_running_rests: "fair_ok pcs Rel l \<Longrightarrow> Running g' l' \<in> set (unlock_step L i g l) \<Longrightarrow>
      unlock_rests seen bits g l Rel g' l'"
    and unlock_returned_rests: "fair_ok pcs Rel l \<Longrightarrow> Returned g' l' \<in> set (unlock_step L i g l) \<Longrightarrow>
      unlock_rests seen bits g l Out g' l'"
    and lock_goes: "fair_ok pcs Try l \<Longrightarrow> fair_stage Try l \<noteq> Queued \<or> my_number l = turn g \<Longrightarrow>
      vpc l = VAsleep \<longrightarrow> i \<notin> fst ` set (sleepers g) \<Longrightarrow>
      (\<exists>g' l'. Returned g' l' \<in> set (lock_step L i g l)) \<or>
      (\<exists>g' l'. Running g' l' \<in> set (lock_step L i g l) \<and> fair_rank l' < fair_rank l)"
    and unlock_goes: "fair_ok pcs Rel l \<Longrightarrow>
      (\<exists>g' l'. Returned g' l' \<in> set (unlock_step L i g l)) \<or>
      (\<exists>g' l'. Running g' l' \<in> set (unlock_step L i g l) \<and> fair_rank l' < fair_rank l)"
begin

definition fair_line :: "tid list \<Rightarrow> ('s fair_futex_scheme, fair_local) lock_state \<Rightarrow> bool" where
  "fair_line q s \<longleftrightarrow> numbered q s \<and> seen (shared s) \<le> turn (shared s) \<and>
     (\<forall>w \<in> set (sleepers (shared s)). rests seen bits n s w)"

lemma rests_move:
  assumes w: "rests seen bits n s w" and "i < n" "fst w \<noteq> i" "turn g = turn (shared s)" "seen g = seen (shared s)"
    and helper: "my_number (local_of s (fst w)) = turn (shared s) \<Longrightarrow> fair_helps (phase_of s i) (local_of s i) \<Longrightarrow>
      my_current (local_of s i) = turn (shared s) \<Longrightarrow> fair_helps p l \<and> my_current l = turn (shared s)"
  shows "rests seen bits n (move i p g l s) w"
proof -
  have "\<exists>j<n. fair_helps (((phase_of s)(i := p)) j) (((local_of s)(i := l)) j) \<and>
      my_current (((local_of s)(i := l)) j) = turn (shared s)"
    if at: "my_number (local_of s (fst w)) = turn (shared s)"
  proof -
    obtain j where j: "j < n" "fair_helps (phase_of s j) (local_of s j)" "my_current (local_of s j) = turn (shared s)"
      using w at by (auto simp: rests_def)
    show ?thesis using j helper [OF at] by (cases "j = i") auto
  qed
  then show ?thesis using assms(1-5) by (simp add: rests_def)
qed

lemma rests_stage: "rests seen bits n s w \<Longrightarrow> fair_stage (phase_of s (fst w)) (local_of s (fst w)) = Queued"
  by (simp add: rests_def)

lemma fair_lock_act:
  assumes s: "fair_line q s" and i: "i < n" and at: "phase_of s i = Try" and p: "p \<noteq> Rel"
    and turn: "turn g = turn (shared s)"
    and number: "fair_stage Try (local_of s i) \<noteq> NoTicket \<Longrightarrow> my_number l = my_number (local_of s i)"
    and asleep: "vpc l = VAsleep \<Longrightarrow> p = Try"
    and step: "lock_rests seen bits i (shared s) (local_of s i) g l"
  shows "seen g \<le> turn g \<and> (\<forall>w \<in> set (sleepers g). rests seen bits n (move i p g l s) w)"
proof -
  have w: "rests seen bits n s w" if "w \<in> set (sleepers (shared s))" for w
    using s that by (simp_all add: fair_line_def)
  have num: "numbered q s" and le: "seen (shared s) \<le> turn (shared s)" using s by (simp_all add: fair_line_def)
  have keep: "rests seen bits n (move i p g l s) w"
    if "w \<in> set (sleepers (shared s))" "fst w \<noteq> i" "seen g = seen (shared s)" for w
    by (rule rests_move [OF w]) (use that i at turn in auto)
  show ?thesis
    using step unfolding lock_rests_def
  proof (elim disjE conjE)
    assume a: "sleepers g = sleepers (shared s)" "vpc (local_of s i) \<noteq> VAsleep" "seen g = seen (shared s)"
    have "fst w \<noteq> i" if "w \<in> set (sleepers (shared s))" for w using w [OF that] a(2) by (auto simp: rests_def)
    then show ?thesis using a keep le turn by simp
  next
    assume a: "sleepers g = sleepers (shared s)" "vpc (local_of s i) \<noteq> VAsleep"
      "vpc (local_of s i) = VStore" "seen g = my_number (local_of s i)"
    have head: "my_number (local_of s i) = turn (shared s) \<and> q \<noteq> [] \<and> hd q = i"
      using granted_turn [OF num i] at a(3) by simp
    have "rests seen bits n (move i p g l s) w" if "w \<in> set (sleepers (shared s))" for w
    proof -
      have ne: "fst w \<noteq> i" using w [OF that] a(2) by (auto simp: rests_def)
      have "fst w < n" using w [OF that] by (simp add: rests_def)
      from ticket_after_turn [OF num this] have "turn (shared s) < my_number (local_of s (fst w))"
        using rests_stage [OF w [OF that]] head ne by auto
      moreover from this have "my_number (local_of s (fst w)) \<noteq> turn (shared s)" by auto
      ultimately show ?thesis using w [OF that] head a(4) turn ne by (simp add: rests_def)
    qed
    then show ?thesis using a head turn by simp
  next
    assume a: "sleepers g = sleepers (shared s) @ [(i, bits (my_number (local_of s i)))]" "vpc l = VAsleep"
      "vpc (local_of s i) = VCallWait" "turn (shared s) \<noteq> my_number (local_of s i)" "seen g = seen (shared s)"
    have "turn (shared s) < my_number (local_of s i)"
      using ticket_after_turn [OF num i] at a(3,4) by auto
    then have "rests seen bits n (move i p g l s) (i, bits (my_number (local_of s i)))"
      using a i at number turn le asleep by (auto simp: rests_def)
    moreover have "fst w \<noteq> i" if "w \<in> set (sleepers (shared s))" for w using w [OF that] a(3) by (auto simp: rests_def)
    ultimately show ?thesis using a keep le turn by auto
  next
    assume "sleepers g = filter (\<lambda>w. fst w \<noteq> i) (sleepers (shared s))" "seen g = seen (shared s)"
    then show ?thesis using keep le turn by auto
  qed
qed

lemma fair_unlock_act:
  assumes s: "fair_line q s" and i: "i < n" and at: "phase_of s i = Rel"
    and step: "unlock_rests seen bits (shared s) (local_of s i) p g l"
  shows "seen g \<le> turn g \<and> (\<forall>w \<in> set (sleepers g). rests seen bits n (move i p g l s) w)"
proof -
  have w: "rests seen bits n s w" "fst w \<noteq> i" if "w \<in> set (sleepers (shared s))" for w
    using s that at by (auto simp: fair_line_def rests_def)
  have num: "numbered q s" and le: "seen (shared s) \<le> turn (shared s)" using s by (simp_all add: fair_line_def)
  have seen: "seen g = seen (shared s)" using step by (simp add: unlock_rests_def)
  have other: "rests seen bits n (move i p g l s) w"
    if "w \<in> set (sleepers (shared s))" "turn g = turn (shared s)"
      "my_number (local_of s (fst w)) = turn (shared s) \<Longrightarrow> my_current (local_of s i) \<noteq> turn (shared s)" for w
    by (rule rests_move [OF w(1)]) (use that i w seen in auto)
  show ?thesis
    using step unfolding unlock_rests_def
  proof (elim disjE conjE)
    assume a: "sleepers g = sleepers (shared s)" "turn g = turn (shared s) + 1" "vpc (local_of s i) = VAdd"
      "fair_helps p l" "my_current l = turn g"
    have "q \<noteq> []" using granted_turn [OF num i] at a(3) by simp
    from turn_Suc [OF num this] have "seen g \<le> turn g" using le a(2) seen by simp
    moreover have "rests seen bits n (move i p g l s) w" if "w \<in> set (sleepers (shared s))" for w
      using w [OF that] a i seen by (auto simp: rests_def intro!: exI [of _ i])
    ultimately show ?thesis using a by simp
  next
    assume a: "sleepers g = sleepers (shared s)" "turn g = turn (shared s)" "fair_helps Rel (local_of s i)"
      "fair_helps p l" "my_current l = my_current (local_of s i)"
    have "rests seen bits n (move i p g l s) w" if "w \<in> set (sleepers (shared s))" for w
      by (rule rests_move [OF w(1)]) (use that a i w seen in auto)
    then show ?thesis using a le seen by simp
  next
    assume a: "sleepers g = sleepers (shared s)" "turn g = turn (shared s)" "my_current (local_of s i) \<le> seen (shared s)"
    have "rests seen bits n (move i p g l s) w" if "w \<in> set (sleepers (shared s))" for w
      using a(3) w [OF that] by (intro other that a) (auto simp: rests_def)
    then show ?thesis using a le seen by simp
  next
    assume a: "sleepers g = sleepers (shared s)" "turn g = turn (shared s)" "number (shared s) < my_current (local_of s i)"
    have "rests seen bits n (move i p g l s) w" if "w \<in> set (sleepers (shared s))" for w
      using a(3) turn_le_number [OF num] by (intro other that a) auto
    then show ?thesis using a le seen by simp
  next
    assume a: "sleepers g = wake_bits (bits (my_current (local_of s i))) (sleepers (shared s))" "turn g = turn (shared s)"
    have "rests seen bits n (move i p g l s) w" if "w \<in> set (sleepers g)" for w
      using that a w [of w] bits [of "turn (shared s)"]
      by (intro other) (auto simp: wake_bits_def rests_def)
    then show ?thesis using a le seen by simp
  qed
qed

lemma fair_line_init: "fair_line [] (lock_init s0 l0)"
  using numbered_init by (simp add: fair_line_def) (simp add: lock_init_def asleep0 seen0)

lemma fair_line_call:
  assumes s: "fair_line q s" and i: "i < n" and out: "phase_of s i = Out" and c: "calls s < b"
  shows "fair_line q ((move i Try (shared s) (lock_call L w i (local_of s i)) s)\<lparr>calls := Suc (calls s)\<rparr>)"
proof -
  have "rests seen bits n (move i Try (shared s) (lock_call L w i (local_of s i)) s) v"
    if "v \<in> set (sleepers (shared s))" for v
    by (rule rests_move) (use s i out that in \<open>auto simp: fair_line_def rests_def\<close>)
  then have "rests seen bits n ((move i Try (shared s) (lock_call L w i (local_of s i)) s)\<lparr>calls := c\<rparr>) v"
    if "v \<in> set (sleepers (shared s))" for v c using that by (simp add: rests_def)
  then show ?thesis using s numbered_call [OF _ i out c, of q w] by (simp add: fair_line_def)
qed

lemma fair_line_ok: "fair_line q s \<Longrightarrow> i < n \<Longrightarrow> fair_ok pcs (phase_of s i) (local_of s i)"
  by (simp add: fair_line_def numbered_def matches_def)

lemma fair_line_act:
  assumes s: "fair_line q s" and act: "lock_act L n s t"
  shows "\<exists>q'. (q' = q \<or> fifo_step q q') \<and> fair_line q' t"
proof -
  have num: "numbered q s" using s by (simp add: fair_line_def)
  have "seen (shared t) \<le> turn (shared t) \<and> (\<forall>w \<in> set (sleepers (shared t)). rests seen bits n t w)"
    using act
  proof cases
    case (lock_runs i g l)
    have ok: "fair_ok pcs Try (local_of s i)" using fair_line_ok [OF s lock_runs(2)] lock_runs(3) by simp
    show ?thesis
      using fair_lock_act [OF s lock_runs(2,3) _ _ _ _ lock_running_rests [OF ok lock_runs(4)], of Try]
        lock_running [OF ok lock_runs(4)] lock_runs(1)
      by (auto simp: quiet_def takes_def)
  next
    case (lock_returns i g l)
    have ok: "fair_ok pcs Try (local_of s i)" using fair_line_ok [OF s lock_returns(2)] lock_returns(3) by simp
    have sl: "lock_rests seen bits i (shared s) (local_of s i) g l" by (rule lock_returned_rests [OF ok lock_returns(4)])
    have q: "quiet number turn my_number fair_stage Try (shared s) (local_of s i) Crit g l"
      using lock_returned [OF ok lock_returns(4)] by simp
    then have "vpc l \<noteq> VAsleep" using sl by (auto simp: lock_rests_def quiet_def)
    then show ?thesis
      using fair_lock_act [OF s lock_returns(2,3) _ _ _ _ sl, of Crit] q lock_returns(1)
      by (auto simp: quiet_def)
  next
    case (unlock_called i)
    let ?t = "move i Rel (shared s) (unlock_call L i (local_of s i)) s"
    have "rests seen bits n ?t v" if "v \<in> set (sleepers (shared s))" for v
      by (rule rests_move) (use s unlock_called(2,3) that in \<open>auto simp: fair_line_def rests_def\<close>)
    then show ?thesis using s unlock_called(1) by (simp add: fair_line_def)
  next
    case (unlock_runs i g l)
    have ok: "fair_ok pcs Rel (local_of s i)" using fair_line_ok [OF s unlock_runs(2)] unlock_runs(3) by simp
    show ?thesis
      using fair_unlock_act [OF s unlock_runs(2,3) unlock_running_rests [OF ok unlock_runs(4)]] unlock_runs(1) by simp
  next
    case (unlock_returns i g l)
    have ok: "fair_ok pcs Rel (local_of s i)" using fair_line_ok [OF s unlock_returns(2)] unlock_returns(3) by simp
    show ?thesis
      using fair_unlock_act [OF s unlock_returns(2,3) unlock_returned_rests [OF ok unlock_returns(4)]]
        unlock_returns(1) by simp
  qed
  then show ?thesis using numbered_act [OF num act] by (auto simp: fair_line_def)
qed

lemma fair_line_head: "fair_line q s \<Longrightarrow> i < n \<Longrightarrow> phase_of s i = Crit \<Longrightarrow> q \<noteq> [] \<and> hd q = i"
  using matches_head [of q s i] by (simp add: fair_line_def numbered_def)

lemma fair_try:
  assumes s: "fair_line q s" and k: "k < n" "phase_of s k = Try"
    and goes: "fair_stage Try (local_of s k) \<noteq> Queued \<or> my_number (local_of s k) = turn (shared s)"
    and awake: "vpc (local_of s k) = VAsleep \<longrightarrow> k \<notin> fst ` set (sleepers (shared s))"
  shows "\<exists>t. lock_act L n s t \<and> drain_weight 104 fair_rank n t < drain_weight 104 fair_rank n s"
  using lock_goes [OF _ goes awake] fair_line_ok [OF s k(1)] k(2) drain_steps(1,2) [OF k] by metis

lemma fair_rel:
  assumes s: "fair_line q s" and k: "k < n" "phase_of s k = Rel"
  shows "\<exists>t. lock_act L n s t \<and> drain_weight 104 fair_rank n t < drain_weight 104 fair_rank n s"
  using unlock_goes fair_line_ok [OF s k(1)] k(2) drain_steps(4,5) [OF k] by metis

lemma fair_progress:
  assumes s: "fair_line q s" and i: "i < n" "phase_of s i \<noteq> Out"
  shows "\<exists>t. lock_act L n s t \<and> drain_weight 104 fair_rank n t < drain_weight 104 fair_rank n s"
proof (cases rule: owner_cases [of n s])
  case (1 k)
  then show ?thesis using unlock_called_rests by (intro drain_steps(3) [OF 1]) simp
next
  case (2 k)
  then show ?thesis by (rule fair_rel [OF s])
next
  case 3
  have num: "numbered q s" using s by (simp add: fair_line_def)
  have "\<exists>k<n. phase_of s k = Try \<and> (fair_stage Try (local_of s k) \<noteq> Queued \<or> my_number (local_of s k) = turn (shared s))"
  proof (cases q)
    case Nil
    then have "fair_stage (phase_of s i) (local_of s i) = NoTicket"
      using num i by (auto simp: numbered_def matches_def ticket_queue_def stage_of_def)
    then show ?thesis using i 3 [OF i(1)] by (intro exI [of _ i]) auto
  next
    case (Cons k r)
    then have k: "k < n" "fair_stage (phase_of s k) (local_of s k) \<noteq> NoTicket"
      "my_number (local_of s k) = turn (shared s)"
      using num by (auto simp: numbered_def matches_def ticket_queue_def stage_of_def)
    then show ?thesis using 3 [OF k(1)] by (intro exI [of _ k]) auto
  qed
  then obtain k where k: "k < n" "phase_of s k = Try"
    and goes: "fair_stage Try (local_of s k) \<noteq> Queued \<or> my_number (local_of s k) = turn (shared s)" by blast
  show ?thesis
  proof (cases "vpc (local_of s k) = VAsleep \<longrightarrow> k \<notin> fst ` set (sleepers (shared s))")
    case True
    then show ?thesis by (rule fair_try [OF s k goes])
  next
    case False
    then obtain b where "(k, b) \<in> set (sleepers (shared s))" "vpc (local_of s k) = VAsleep" by auto
    then obtain j where "j < n" "fair_helps (phase_of s j) (local_of s j)"
      using s goes by (fastforce simp: fair_line_def rests_def)
    then show ?thesis using 3 [of j] by auto
  qed
qed

end

sublocale sleeping_ticket \<subseteq> fair: live_fifo_lock L n b s0 l0 fair_line "drain_weight 104 fair_rank n"
  by unfold_locales (fact fair_line_init fair_line_call fair_line_act fair_line_head fair_progress)+

locale fair_program =
  sleeping_ticket "impl P" "num_threads P" "num_threads P * rounds P" "globals0 P" "locals0 P" pcs seen bits
  for P :: "('s fair_futex_scheme, fair_local) program" and pcs :: "fair_pc set" and seen :: "'s fair_futex_scheme \<Rightarrow> u32" and bits :: "u32 \<Rightarrow> u32" +
  assumes target_cell: "target P k = Some c \<Longrightarrow> c < cells P"

sublocale fair_program \<subseteq> prog: fifo_program P fair_line "drain_weight 104 fair_rank (num_threads P)"
  by unfold_locales (rule target_cell)

sublocale fair_program \<subseteq> ordered: ordered_program P fair_line "drain_weight 104 fair_rank (num_threads P)" "\<lambda>p l. fair_stage p l \<noteq> NoTicket"
proof
  fix q s i g l
  assume s: "fair_line q s"
  then have m: "matches q s" by (simp add: fair_line_def numbered_def)
  show "distinct q" "set q = {i. i < num_threads P \<and> fair_stage (phase_of s i) (local_of s i) \<noteq> NoTicket}"
    using matches_members [OF m] by simp_all
  show "fair_stage Try l \<noteq> NoTicket"
    if "i < num_threads P" "phase_of s i = Try" "fair_stage Try (local_of s i) \<noteq> NoTicket"
      "Running g l \<in> set (lock_step (impl P) i (shared s) (local_of s i))"
    using m that by (rule matches_stays)
qed

context fair_program begin

lemma fair_correct: "program_correct P"
  by (rule prog.fifo_correct)

lemma fair_in_order:
  "serves_in_order P (ticket_queue number turn my_number fair_stage (num_threads P)) (\<lambda>p l. fair_stage p l \<noteq> NoTicket)"
  by (rule serves_mono [OF ordered.in_order]) (simp add: fair_line_def numbered_def matches_def)

end

subsection \<open>The three programs\<close>

lemma calls_small: "m < k \<Longrightarrow> n * (m div n) < (k :: nat)"
  by (metis le_less_trans times_div_less_eq_dividend)

lemma MASK_sint: "MASK (sint w) = MASK (uint (w :: u32))"
proof -
  have "uint w mod 32 = (sint w mod 2 ^ 32) mod 32" by (simp add: uint_sint take_bit_eq_mod)
  also have "\<dots> = sint w mod 32" by (rule mod_mod_cancel) simp
  finally show ?thesis by (simp add: MASK_def)
qed

lemmas fair_steps = rounds_def quiet_def takes_def serves_def lock_rests_def unlock_rests_def fair_local0_def match_any_def

lemma MASK_bit: "MASK k \<noteq> 0"
proof -
  have "nat (k mod 32) < 32" by simp
  then have "bit (MASK k) (nat (k mod 32))" by (simp add: MASK_def bit_simps)
  then show ?thesis by auto
qed

lemma fair_lock_goes:
  assumes ok: "fair_ok {VTake, VRead, VCallWait, VAsleep, VAdd, VTest, VWake} Try l" and goes: "fair_stage Try l \<noteq> Queued \<or> my_number l = turn g"
    and awake: "vpc l = VAsleep \<longrightarrow> i \<notin> fst ` set (sleepers g)"
  shows "(\<exists>g' l'. Returned g' l' \<in> set (fair_lock spurious i g l)) \<or>
    (\<exists>g' l'. Running g' l' \<in> set (fair_lock spurious i g l) \<and> fair_rank l' < fair_rank l)"
proof (cases "vpc l = VAsleep")
  case True
  then have "sleepers g \<in> set (bits_returns spurious i (sleepers g))"
    using awake by (intro bits_returns_awake) simp
  then have "Running (g\<lparr>sleepers := sleepers g\<rparr>) (l\<lparr>vpc := VRead\<rparr>) \<in>
      (\<lambda>ws. Running (g\<lparr>sleepers := ws\<rparr>) (l\<lparr>vpc := VRead\<rparr>)) ` set (bits_returns spurious i (sleepers g))"
    by (rule imageI)
  then have "Running (g\<lparr>sleepers := sleepers g\<rparr>) (l\<lparr>vpc := VRead\<rparr>) \<in> set (fair_lock spurious i g l)"
    using True by (simp add: fair_lock_def)
  moreover have "fair_rank (l\<lparr>vpc := VRead\<rparr>) < fair_rank l" using True by simp
  ultimately show ?thesis by blast
next
  case False
  then show ?thesis using ok goes by (auto simp: fair_lock_def)
qed

lemma fair_mutex_fair:
  assumes "n < 2 ^ 32" "m < 2 ^ 32"
  shows "fair_program (fair_mutex_prog spurious n m) {VTake, VRead, VCallWait, VAsleep, VAdd, VTest, VWake} (\<lambda>_. 0) (\<lambda>_. match_any)"
proof unfold_locales
  show "\<And>l g i. fair_ok {VTake, VRead, VCallWait, VAsleep, VAdd, VTest, VWake} Try l \<Longrightarrow> fair_stage Try l \<noteq> Queued \<or> my_number l = turn g \<Longrightarrow>
      vpc l = VAsleep \<longrightarrow> i \<notin> fst ` set (sleepers g) \<Longrightarrow>
      (\<exists>g' l'. Returned g' l' \<in> set (lock_step (impl (fair_mutex_prog spurious n m)) i g l)) \<or>
      (\<exists>g' l'. Running g' l' \<in> set (lock_step (impl (fair_mutex_prog spurious n m)) i g l) \<and> fair_rank l' < fair_rank l)"
    using fair_lock_goes by (simp add: fair_mutex_prog_def)
  show "num_threads (fair_mutex_prog spurious n m) < 2 ^ LENGTH(32)"
    and "num_threads (fair_mutex_prog spurious n m) * rounds (fair_mutex_prog spurious n m) < 2 ^ LENGTH(32)"
    using assms calls_small [of m "2 ^ 32" n] by (simp_all add: fair_mutex_prog_def rounds_def)
qed ((auto simp: fair_mutex_prog_def fair_lock_def
    fair_unlock_def fair_steps not_le not_less image_iff MASK_bit MASK_sint split: if_splits fair_pc.splits dest!: bits_returns_cases)[1])+

lemma bitset_lock_goes:
  assumes ok: "fair_ok {VTake, VRead, VCallWait, VAsleep, VStore, VAdd, VTest, VWake} Try l" and goes: "fair_stage Try l \<noteq> Queued \<or> my_number l = turn g"
    and awake: "vpc l = VAsleep \<longrightarrow> i \<notin> fst ` set (sleepers g)"
  shows "(\<exists>g' l'. Returned g' l' \<in> set (bitset_lock spurious i g l)) \<or>
    (\<exists>g' l'. Running g' l' \<in> set (bitset_lock spurious i g l) \<and> fair_rank l' < fair_rank l)"
proof (cases "vpc l = VAsleep")
  case True
  then have "sleepers g \<in> set (bits_returns spurious i (sleepers g))"
    using awake by (intro bits_returns_awake) simp
  then have "Running (g\<lparr>sleepers := sleepers g\<rparr>) (l\<lparr>vpc := VRead\<rparr>) \<in>
      (\<lambda>ws. Running (g\<lparr>sleepers := ws\<rparr>) (l\<lparr>vpc := VRead\<rparr>)) ` set (bits_returns spurious i (sleepers g))"
    by (rule imageI)
  then have "Running (g\<lparr>sleepers := sleepers g\<rparr>) (l\<lparr>vpc := VRead\<rparr>) \<in> set (bitset_lock spurious i g l)"
    using True by (simp add: bitset_lock_def)
  moreover have "fair_rank (l\<lparr>vpc := VRead\<rparr>) < fair_rank l" using True by simp
  ultimately show ?thesis by blast
next
  case False
  then show ?thesis using ok goes by (auto simp: bitset_lock_def)
qed

lemma fair_bitset_fair:
  assumes "n < 2 ^ 32" "m < 2 ^ 32"
  shows "fair_program (fair_bitset_prog spurious n m) {VTake, VRead, VCallWait, VAsleep, VStore, VAdd, VTest, VWake} (current) (\<lambda>t. MASK (uint t))"
proof unfold_locales
  show "\<And>l g i. fair_ok {VTake, VRead, VCallWait, VAsleep, VStore, VAdd, VTest, VWake} Try l \<Longrightarrow> fair_stage Try l \<noteq> Queued \<or> my_number l = turn g \<Longrightarrow>
      vpc l = VAsleep \<longrightarrow> i \<notin> fst ` set (sleepers g) \<Longrightarrow>
      (\<exists>g' l'. Returned g' l' \<in> set (lock_step (impl (fair_bitset_prog spurious n m)) i g l)) \<or>
      (\<exists>g' l'. Running g' l' \<in> set (lock_step (impl (fair_bitset_prog spurious n m)) i g l) \<and> fair_rank l' < fair_rank l)"
    using bitset_lock_goes by (simp add: fair_bitset_prog_def)
  show "num_threads (fair_bitset_prog spurious n m) < 2 ^ LENGTH(32)"
    and "num_threads (fair_bitset_prog spurious n m) * rounds (fair_bitset_prog spurious n m) < 2 ^ LENGTH(32)"
    using assms calls_small [of m "2 ^ 32" n] by (simp_all add: fair_bitset_prog_def rounds_def)
qed ((auto simp: fair_bitset_prog_def bitset_lock_def
    bitset_unlock_def fair_steps not_le not_less image_iff MASK_bit MASK_sint split: if_splits fair_pc.splits dest!: bits_returns_cases)[1])+

lemma fair_spin_lock_goes:
  assumes ok: "fair_ok {VTake, VSpin, VYield, VRead, VCallWait, VAsleep, VStore, VAdd, VSpinCurrent, VTest, VWake} Try l" and goes: "fair_stage Try l \<noteq> Queued \<or> my_number l = turn g"
    and awake: "vpc l = VAsleep \<longrightarrow> i \<notin> fst ` set (sleepers g)"
  shows "(\<exists>g' l'. Returned g' l' \<in> set (fair_spin_lock spurious i g l)) \<or>
    (\<exists>g' l'. Running g' l' \<in> set (fair_spin_lock spurious i g l) \<and> fair_rank l' < fair_rank l)"
proof (cases "vpc l = VAsleep")
  case True
  then have "sleepers g \<in> set (bits_returns spurious i (sleepers g))"
    using awake by (intro bits_returns_awake) simp
  then have "Running (g\<lparr>sleepers := sleepers g\<rparr>) (l\<lparr>vpc := VRead\<rparr>) \<in>
      (\<lambda>ws. Running (g\<lparr>sleepers := ws\<rparr>) (l\<lparr>vpc := VRead\<rparr>)) ` set (bits_returns spurious i (sleepers g))"
    by (rule imageI)
  then have "Running (g\<lparr>sleepers := sleepers g\<rparr>) (l\<lparr>vpc := VRead\<rparr>) \<in> set (fair_spin_lock spurious i g l)"
    using True by (simp add: fair_spin_lock_def)
  moreover have "fair_rank (l\<lparr>vpc := VRead\<rparr>) < fair_rank l" using True by simp
  ultimately show ?thesis by blast
next
  case False
  then show ?thesis using ok goes by (auto simp: fair_spin_lock_def)
qed

lemma fair_spin_fair:
  assumes "n < 2 ^ 32" "m < 2 ^ 32"
  shows "fair_program (fair_spin_prog spurious n m) {VTake, VSpin, VYield, VRead, VCallWait, VAsleep, VStore, VAdd, VSpinCurrent, VTest, VWake} (current) (\<lambda>_. match_any)"
proof unfold_locales
  show "\<And>l g i. fair_ok {VTake, VSpin, VYield, VRead, VCallWait, VAsleep, VStore, VAdd, VSpinCurrent, VTest, VWake} Try l \<Longrightarrow> fair_stage Try l \<noteq> Queued \<or> my_number l = turn g \<Longrightarrow>
      vpc l = VAsleep \<longrightarrow> i \<notin> fst ` set (sleepers g) \<Longrightarrow>
      (\<exists>g' l'. Returned g' l' \<in> set (lock_step (impl (fair_spin_prog spurious n m)) i g l)) \<or>
      (\<exists>g' l'. Running g' l' \<in> set (lock_step (impl (fair_spin_prog spurious n m)) i g l) \<and> fair_rank l' < fair_rank l)"
    using fair_spin_lock_goes by (simp add: fair_spin_prog_def)
  show "num_threads (fair_spin_prog spurious n m) < 2 ^ LENGTH(32)"
    and "num_threads (fair_spin_prog spurious n m) * rounds (fair_spin_prog spurious n m) < 2 ^ LENGTH(32)"
    using assms calls_small [of m "2 ^ 32" n] by (simp_all add: fair_spin_prog_def rounds_def)
qed ((auto simp: fair_spin_prog_def fair_spin_lock_def
    fair_spin_unlock_def fair_steps not_le not_less image_iff MASK_bit MASK_sint split: if_splits fair_pc.splits dest!: bits_returns_cases)[1])+

interpretation fair_mutex: fair_program "fair_mutex_prog spurious NUM_THREADS MAX_COUNT"
    "{VTake, VRead, VCallWait, VAsleep, VAdd, VTest, VWake}" "\<lambda>_. 0" "\<lambda>_. match_any" for spurious
  by (rule fair_mutex_fair) (simp_all add: NUM_THREADS_def MAX_COUNT_def)

interpretation fair_bitset: fair_program "fair_bitset_prog spurious NUM_THREADS MAX_COUNT"
    "{VTake, VRead, VCallWait, VAsleep, VStore, VAdd, VTest, VWake}" current "\<lambda>t. MASK (uint t)" for spurious
  by (rule fair_bitset_fair) (simp_all add: NUM_THREADS_def MAX_COUNT_def)

interpretation fair_spin: fair_program "fair_spin_prog spurious NUM_THREADS MAX_COUNT"
    "{VTake, VSpin, VYield, VRead, VCallWait, VAsleep, VStore, VAdd, VSpinCurrent, VTest, VWake}"
    current "\<lambda>_. match_any" for spurious
  by (rule fair_spin_fair) (simp_all add: NUM_THREADS_def MAX_COUNT_def)

subsection \<open>Properties\<close>

text \<open>C19: the three fair futex mutexes are correct for fewer than \<open>2 ^ 32\<close> threads, with or without spurious wake-ups:
  mutual exclusion, every increment counted, and every reachable state can finish, so that no sleeper is
  forgotten, although the second wakes only the sleepers with the bit of the new turn and the
  third does not wake when it has seen the next thread come in. The counters must not wrap, so \<open>MAX_COUNT\<close>, which bounds
  the calls of \<open>lock\<close>, is below \<open>2 ^ 32\<close>; for the second, which shifts by an \<open>int\<close>, below \<open>2 ^ 31\<close>.\<close>

theorem fair_mutexes_correct:
  assumes "n < 2 ^ 32" "m < 2 ^ 32" "k < 2 ^ 31"
  shows "program_correct (fair_mutex_prog spurious n m) \<and> program_correct (fair_bitset_prog spurious n k) \<and>
    program_correct (fair_spin_prog spurious n m)"
  using assms fair_program.fair_correct [OF fair_mutex_fair] fair_program.fair_correct [OF fair_bitset_fair]
    fair_program.fair_correct [OF fair_spin_fair] by simp

theorem fair_mutexes_correct_witness:
  "(4 :: nat) < 2 ^ 32 \<and> (3000000000 :: nat) < 2 ^ 32 \<and> (10000000 :: nat) < 2 ^ 31 \<and>
    program_correct (fair_mutex_prog False 4 3000000000) \<and> program_correct (fair_bitset_prog False 4 10000000) \<and>
    program_correct (fair_spin_prog True 4 3000000000)"
  using fair_mutexes_correct [of 4 3000000000 10000000 False] fair_mutexes_correct [of 4 3000000000 10000000 True] by simp

text \<open>The three mutexes are fair: threads are served in the order in which they draw their numbers, whether they spin or sleep.\<close>

definition has_number :: "phase \<Rightarrow> fair_local \<Rightarrow> bool" where
  "has_number p l \<longleftrightarrow> fair_stage p l \<noteq> NoTicket"

lemma has_number: "has_number = (\<lambda>p l. fair_stage p l \<noteq> NoTicket)"
  by (simp add: has_number_def fun_eq_iff)

lemma fair_mutexes_in_order:
  assumes "n < 2 ^ 32" "m < 2 ^ 32"
  shows "serves_in_order (fair_mutex_prog spurious n m) (ticket_queue number turn my_number fair_stage n) has_number"
    and "serves_in_order (fair_bitset_prog spurious n m) (ticket_queue number turn my_number fair_stage n) has_number"
    and "serves_in_order (fair_spin_prog spurious n m) (ticket_queue number turn my_number fair_stage n) has_number"
  using fair_program.fair_in_order [OF fair_mutex_fair [OF assms]] fair_program.fair_in_order [OF fair_bitset_fair [OF assms]]
    fair_program.fair_in_order [OF fair_spin_fair [OF assms]]
  by (simp_all add: has_number fair_mutex_prog_def fair_bitset_prog_def fair_spin_prog_def)

end
