(* ===== verification/Futex_Semaphore.thy ===== *)
theory Futex_Semaphore
  imports Futex
begin

section \<open>The futex semaphore\<close>

text \<open>
  \<open>futex/semaphore.c\<close>. \<open>wait\<close> subtracts one and sleeps when the result is negative; \<open>signal\<close> adds
  one and, when the result is not positive, wakes until it has woken somebody. The word the
  threads sleep on never changes, so the call always sleeps; a thread that returns from it is
  inside without another test. The semaphore is therefore correct only if the kernel
  never returns without a wake-up, which it may.
\<close>

record futex_sem =
  futex :: cint
  sem_value :: cint
  sem_sleepers :: "tid list"

datatype sem_pc = PIdle | PSub | PRead | PCall | PAsleep | VAddOne | VWakeOne | VYieldCpu

record sem_local =
  spc :: sem_pc
  futex_val :: cint

definition fsem_wait ::
  "bool \<Rightarrow> tid \<Rightarrow> futex_sem \<Rightarrow> sem_local \<Rightarrow> (futex_sem, sem_local) outcome list" where
  "fsem_wait spurious i g l = (case spc l of
       PSub \<Rightarrow> (let v = sem_value g - 1 in
         [if sint v < 0 then Running (g\<lparr>sem_value := v\<rparr>) (l\<lparr>spc := PRead\<rparr>)
          else Returned (g\<lparr>sem_value := v\<rparr>) (l\<lparr>spc := PIdle\<rparr>)])
     | PRead \<Rightarrow> [Running g (l\<lparr>futex_val := futex g, spc := PCall\<rparr>)]
     | PCall \<Rightarrow>
         [if futex g = futex_val l then Running (g\<lparr>sem_sleepers := sem_sleepers g @ [i]\<rparr>) (l\<lparr>spc := PAsleep\<rparr>)
          else Returned g (l\<lparr>spc := PIdle\<rparr>)]
     | PAsleep \<Rightarrow> map (\<lambda>ws. Returned (g\<lparr>sem_sleepers := ws\<rparr>) (l\<lparr>spc := PIdle\<rparr>))
         (wait_returns spurious i (sem_sleepers g))
     | _ \<Rightarrow> [])"

definition fsem_signal :: "tid \<Rightarrow> futex_sem \<Rightarrow> sem_local \<Rightarrow> (futex_sem, sem_local) outcome list" where
  "fsem_signal i g l = (case spc l of
       VAddOne \<Rightarrow> (let v = sem_value g + 1 in
         [if sint v \<le> 0 then Running (g\<lparr>sem_value := v\<rparr>) (l\<lparr>spc := VWakeOne\<rparr>)
          else Returned (g\<lparr>sem_value := v\<rparr>) (l\<lparr>spc := PIdle\<rparr>)])
     | VWakeOne \<Rightarrow> map (\<lambda>(k, ws).
         if k < 1 then Running (g\<lparr>sem_sleepers := ws\<rparr>) (l\<lparr>spc := VYieldCpu\<rparr>)
         else Returned (g\<lparr>sem_sleepers := ws\<rparr>) (l\<lparr>spc := PIdle\<rparr>)) (wake_one (sem_sleepers g))
     | VYieldCpu \<Rightarrow> [Running g (l\<lparr>spc := VWakeOne\<rparr>)]
     | _ \<Rightarrow> [])"

definition fsem_impl :: "bool \<Rightarrow> (futex_sem, sem_local) lock_impl" where
  "fsem_impl spurious = \<lparr>lock_call = (\<lambda>w i l. l\<lparr>spc := PSub\<rparr>), lock_step = fsem_wait spurious,
     unlock_call = (\<lambda>i l. l\<lparr>spc := VAddOne\<rparr>), unlock_step = fsem_signal\<rparr>"

definition futex_semaphore_prog :: "bool \<Rightarrow> nat \<Rightarrow> nat \<Rightarrow> (futex_sem, sem_local) program" where
  "futex_semaphore_prog spurious num_thr max_cnt = \<lparr>impl = fsem_impl spurious, num_threads = num_thr,
     max_count = max_cnt, expected_count = max_cnt, cells = 1, target = one_counter,
     globals0 = \<lparr>futex = 0, sem_value = 1, sem_sleepers = []\<rparr>, locals0 = (\<lambda>_. \<lparr>spc = PIdle, futex_val = 0\<rparr>)\<rparr>"

type_synonym sem_state = "(futex_sem, sem_local) lock_state"

fun sem_ok :: "phase \<Rightarrow> sem_local \<Rightarrow> bool" where
  "sem_ok Try l = (spc l \<in> {PSub, PRead, PCall, PAsleep} \<and> (spc l = PCall \<longrightarrow> futex_val l = 0))"
| "sem_ok Rel l = (spc l \<in> {VAddOne, VWakeOne, VYieldCpu})"
| "sem_ok _ l = True"

text \<open>The threads counted in the value; those that hold the token for sure, or are about to hand it
  over; and the sleepers that have been woken, which hold it too.\<close>

fun sem_counted :: "phase \<Rightarrow> sem_local \<Rightarrow> bool" where
  "sem_counted Try l = (spc l \<noteq> PSub)"
| "sem_counted Crit l = True"
| "sem_counted Rel l = (spc l = VAddOne)"
| "sem_counted Out l = False"

fun sem_holds :: "phase \<Rightarrow> sem_local \<Rightarrow> bool" where
  "sem_holds Crit l = True"
| "sem_holds Rel l = True"
| "sem_holds _ l = False"

definition sem_hold :: "nat \<Rightarrow> sem_state \<Rightarrow> tid set" where
  "sem_hold n s = {i. i < n \<and> (sem_holds (phase_of s i) (local_of s i) \<or>
     phase_of s i = Try \<and> spc (local_of s i) = PAsleep \<and> i \<notin> set (sem_sleepers (shared s)))}"

definition sem_inv :: "nat \<Rightarrow> sem_state \<Rightarrow> bool" where
  "sem_inv n s \<longleftrightarrow>
     (\<forall>i<n. sem_ok (phase_of s i) (local_of s i)) \<and> futex (shared s) = 0 \<and>
     (\<forall>i \<in> set (sem_sleepers (shared s)). i < n \<and> phase_of s i = Try \<and> spc (local_of s i) = PAsleep) \<and>
     sint (sem_value (shared s)) = 1 - int (card (those n sem_counted s)) \<and>
     owned (those n sem_counted s \<noteq> {}) (sem_hold n s)"

lemma sem_hold_mem: "i \<in> sem_hold n s \<longleftrightarrow> i < n \<and> (sem_holds (phase_of s i) (local_of s i) \<or>
     phase_of s i = Try \<and> spc (local_of s i) = PAsleep \<and> i \<notin> set (sem_sleepers (shared s)))"
  by (simp add: sem_hold_def)

lemma sem_hold_calls [simp]: "sem_hold n (s\<lparr>calls := c\<rparr>) = sem_hold n s"
  by (simp add: sem_hold_def)

text \<open>The value after one more or one less, for fewer than \<open>2 ^ 31\<close> threads.\<close>

lemma sem_arith:
  assumes v: "sint (v :: cint) = 1 - int c" and n: "n < 2 ^ 31" "c \<le> n"
  shows "c < n \<Longrightarrow> sint (v - 1) = - int c" "0 < c \<Longrightarrow> sint (v + 1) = 2 - int c"
proof -
  have "sint (v - 1) = signed_take_bit 31 (sint v - 1)" by (simp add: sint_word_ariths(2) [of v 1, simplified])
  then show "sint (v - 1) = - int c" if "c < n" using v n that by (simp add: signed_take_bit_int_eq_self)
  have "sint (v + 1) = signed_take_bit 31 (sint v + 1)" by (simp add: sint_word_ariths(1) [of v 1, simplified])
  then show "sint (v + 1) = 2 - int c" if "0 < c" using v n that by (simp add: signed_take_bit_int_eq_self)
qed

text \<open>A step of thread \<open>i\<close> that touches no other thread's sleep.\<close>

lemma sem_move:
  assumes s: "sem_inv n s" and i: "i < n" and ok: "sem_ok p l" and "futex g = futex (shared s)"
    and others: "\<And>j. j \<noteq> i \<Longrightarrow> j \<in> set (sem_sleepers g) \<longleftrightarrow> j \<in> set (sem_sleepers (shared s))"
    and me: "i \<in> set (sem_sleepers g) \<Longrightarrow> p = Try \<and> spc l = PAsleep"
    and val: "sint (sem_value g) = 1 - int (card (those n sem_counted (move i p g l s)))"
    and own: "(i \<in> sem_hold n (move i p g l s)) = (i \<in> sem_hold n s) \<and>
        (those n sem_counted (move i p g l s) \<noteq> {}) = (those n sem_counted s \<noteq> {}) \<or>
      i \<in> sem_hold n (move i p g l s) \<and> those n sem_counted s = {} \<and> those n sem_counted (move i p g l s) \<noteq> {} \<or>
      i \<notin> sem_hold n (move i p g l s) \<and> i \<in> sem_hold n s \<and> those n sem_counted (move i p g l s) = {}"
  shows "sem_inv n (move i p g l s)"
proof -
  have old: "owned (those n sem_counted s \<noteq> {}) (sem_hold n s)" using s by (simp add: sem_inv_def)
  have same: "sem_hold n (move i p g l s) - {i} = sem_hold n s - {i}"
    using others by (auto simp: sem_hold_mem)
  have "owned (those n sem_counted (move i p g l s) \<noteq> {}) (sem_hold n (move i p g l s))"
    by (rule owned_change [OF old same]) (use own in blast)
  moreover have "j < n \<and> ((phase_of s)(i := p)) j = Try \<and> spc (((local_of s)(i := l)) j) = PAsleep"
    if "j \<in> set (sem_sleepers g)" for j
    using that me i others [of j] s by (cases "j = i") (auto simp: sem_inv_def)
  ultimately show ?thesis using s ok val assms(4) by (simp add: sem_inv_def)
qed

lemma sem_act:
  assumes s: "sem_inv n s" and n: "n < 2 ^ 31" and act: "lock_act (fsem_impl False) n s t"
  shows "sem_inv n t"
proof -
  let ?c = "card (those n sem_counted s)"
  have ok: "sem_ok (phase_of s i) (local_of s i)" if "i < n" for i using s that by (simp add: sem_inv_def)
  have val: "sint (sem_value (shared s)) = 1 - int ?c" using s by (simp add: sem_inv_def)
  have cn: "?c \<le> n" by (rule card_those_le)
  have sl: "j < n \<and> phase_of s j = Try \<and> spc (local_of s j) = PAsleep" if "j \<in> set (sem_sleepers (shared s))" for j
    using s that by (simp add: sem_inv_def)
  have c0: "those n sem_counted s = {} \<longleftrightarrow> ?c = 0" by simp
  have hold: "those n sem_counted s \<noteq> {}" if "i \<in> sem_hold n s" for i
    using s that owned_holds by (fastforce simp: sem_inv_def)
  note move = sem_move [OF s]
  have keep: "sem_inv n (move i p g l s)"
    if "i < n" "sem_ok p l" "sem_counted p l = sem_counted (phase_of s i) (local_of s i)"
      "futex g = futex (shared s)" "sem_value g = sem_value (shared s)"
      "\<And>j. j \<noteq> i \<Longrightarrow> j \<in> set (sem_sleepers g) \<longleftrightarrow> j \<in> set (sem_sleepers (shared s))"
      "i \<in> set (sem_sleepers g) \<Longrightarrow> p = Try \<and> spc l = PAsleep"
      "(i \<in> sem_hold n (move i p g l s)) = (i \<in> sem_hold n s)" for i p g l
    by (rule move) (use that val those_same [of i n sem_counted p l s g] in auto)
  show ?thesis
    using act
  proof cases
    case (lock_runs i g l)
    note i = lock_runs(2) and at = lock_runs(3)
    have out: "spc (local_of s i) \<noteq> PAsleep \<Longrightarrow> i \<notin> set (sem_sleepers (shared s))" using sl by blast
    consider (sub) "spc (local_of s i) = PSub" "g = (shared s)\<lparr>sem_value := sem_value (shared s) - 1\<rparr>"
        "l = local_of s i\<lparr>spc := PRead\<rparr>" "sint (sem_value (shared s) - 1) < 0"
      | (read) "spc (local_of s i) = PRead" "g = shared s" "l = local_of s i\<lparr>futex_val := futex g, spc := PCall\<rparr>"
      | (sleep) "spc (local_of s i) = PCall" "g = (shared s)\<lparr>sem_sleepers := sem_sleepers (shared s) @ [i]\<rparr>"
        "l = local_of s i\<lparr>spc := PAsleep\<rparr>"
      using lock_runs(4) by (auto simp: fsem_impl_def fsem_wait_def Let_def split: sem_pc.splits if_splits)
    then have "sem_inv n (move i Try g l s)"
    proof cases
      case sub
      have card: "card (those n sem_counted (move i Try g l s)) = Suc ?c"
        using i at sub by (intro card_those_in) auto
      then have "?c < n" using card_those_le [of n sem_counted "move i Try g l s"] by simp
      then have v: "sint (sem_value (shared s) - 1) = - int ?c" by (rule sem_arith(1) [OF val n cn])
      have ne: "those n sem_counted s \<noteq> {}" using v sub(4) by auto
      moreover have "those n sem_counted (move i Try g l s) \<noteq> {}" using card by auto
      ultimately show ?thesis using i at sub out v card by (intro move) (auto simp: sem_hold_mem)
    next
      case read
      then show ?thesis using i at s out by (intro keep) (auto simp: sem_hold_mem sem_inv_def)
    next
      case sleep
      then show ?thesis using i at out by (intro keep) (auto simp: sem_hold_mem)
    qed
    then show ?thesis using lock_runs(1) by simp
  next
    case (lock_returns i g l)
    note i = lock_returns(2) and at = lock_returns(3)
    have out: "spc (local_of s i) \<noteq> PAsleep \<Longrightarrow> i \<notin> set (sem_sleepers (shared s))" using sl by blast
    have futex: "spc (local_of s i) = PCall \<Longrightarrow> futex (shared s) = futex_val (local_of s i)"
      using ok [OF i] at s by (simp add: sem_inv_def)
    consider (sub) "spc (local_of s i) = PSub" "g = (shared s)\<lparr>sem_value := sem_value (shared s) - 1\<rparr>"
        "l = local_of s i\<lparr>spc := PIdle\<rparr>" "\<not> sint (sem_value (shared s) - 1) < 0"
      | (woken) "spc (local_of s i) = PAsleep" "i \<notin> set (sem_sleepers (shared s))" "g = shared s"
        "l = local_of s i\<lparr>spc := PIdle\<rparr>"
      using lock_returns(4) futex
      by (auto simp: fsem_impl_def fsem_wait_def Let_def wait_returns_def split: sem_pc.splits if_splits)
    then have "sem_inv n (move i Crit g l s)"
    proof cases
      case sub
      have card: "card (those n sem_counted (move i Crit g l s)) = Suc ?c"
        using i at sub by (intro card_those_in) auto
      then have "?c < n" using card_those_le [of n sem_counted "move i Crit g l s"] by simp
      then have v: "sint (sem_value (shared s) - 1) = - int ?c" by (rule sem_arith(1) [OF val n cn])
      have none: "those n sem_counted s = {}" using v sub(4) by simp
      moreover have "those n sem_counted (move i Crit g l s) \<noteq> {}" using card by auto
      ultimately show ?thesis using i at sub out v card by (intro move) (auto simp: sem_hold_mem)
    next
      case woken
      then show ?thesis using i at by (intro keep) (auto simp: sem_hold_mem)
    qed
    then show ?thesis using lock_returns(1) by simp
  next
    case (unlock_called i)
    then have "i \<notin> set (sem_sleepers (shared s))" using sl by force
    then have "sem_inv n (move i Rel (shared s) (local_of s i\<lparr>spc := VAddOne\<rparr>) s)"
      using unlock_called(2,3) by (intro keep) (auto simp: sem_hold_mem)
    then show ?thesis using unlock_called(1) by (simp add: fsem_impl_def)
  next
    case (unlock_runs i g l)
    note i = unlock_runs(2) and at = unlock_runs(3)
    have out: "i \<notin> set (sem_sleepers (shared s))" using sl at by force
    consider (add) "spc (local_of s i) = VAddOne" "g = (shared s)\<lparr>sem_value := sem_value (shared s) + 1\<rparr>"
        "l = local_of s i\<lparr>spc := VWakeOne\<rparr>" "sint (sem_value (shared s) + 1) \<le> 0"
      | (none) "spc (local_of s i) = VWakeOne" "g = shared s" "l = local_of s i\<lparr>spc := VYieldCpu\<rparr>"
      | (yield) "spc (local_of s i) = VYieldCpu" "g = shared s" "l = local_of s i\<lparr>spc := VWakeOne\<rparr>"
      using unlock_runs(4)
      by (auto simp: fsem_impl_def fsem_signal_def Let_def wake_one_def split: sem_pc.splits if_splits)
    then have "sem_inv n (move i Rel g l s)"
    proof cases
      case add
      have card: "?c = Suc (card (those n sem_counted (move i Rel g l s)))"
        using i at add by (intro card_those_out) auto
      then have v: "sint (sem_value (shared s) + 1) = 2 - int ?c" by (intro sem_arith(2) [OF val n cn]) simp
      have "those n sem_counted s \<noteq> {}" using card by auto
      moreover have "card (those n sem_counted (move i Rel g l s)) \<noteq> 0" using card v add(4) by linarith
      then have "those n sem_counted (move i Rel g l s) \<noteq> {}" by auto
      ultimately show ?thesis using i at add out v card by (intro move) (auto simp: sem_hold_mem)
    next
      case none
      then show ?thesis using i at out by (intro keep) (auto simp: sem_hold_mem)
    next
      case yield
      then show ?thesis using i at out by (intro keep) (auto simp: sem_hold_mem)
    qed
    then show ?thesis using unlock_runs(1) by simp
  next
    case (unlock_returns i g l)
    note i = unlock_returns(2) and at = unlock_returns(3)
    have out: "i \<notin> set (sem_sleepers (shared s))" using sl at by force
    have mine: "i \<in> sem_hold n s" using i at by (simp add: sem_hold_mem)
    consider (add) "spc (local_of s i) = VAddOne" "g = (shared s)\<lparr>sem_value := sem_value (shared s) + 1\<rparr>"
        "l = local_of s i\<lparr>spc := PIdle\<rparr>" "\<not> sint (sem_value (shared s) + 1) \<le> 0"
      | (wake) w where "spc (local_of s i) = VWakeOne" "w \<in> set (sem_sleepers (shared s))"
        "g = (shared s)\<lparr>sem_sleepers := removeAll w (sem_sleepers (shared s))\<rparr>" "l = local_of s i\<lparr>spc := PIdle\<rparr>"
      using unlock_returns(4)
      by (auto simp: fsem_impl_def fsem_signal_def Let_def wake_one_def split: sem_pc.splits if_splits)
    then have "sem_inv n (move i Out g l s)"
    proof cases
      case add
      have card: "?c = Suc (card (those n sem_counted (move i Out g l s)))"
        using i at add by (intro card_those_out) auto
      then have v: "sint (sem_value (shared s) + 1) = 2 - int ?c" by (intro sem_arith(2) [OF val n cn]) simp
      have "card (those n sem_counted (move i Out g l s)) = 0" using card v add(4) by linarith
      then have "those n sem_counted (move i Out g l s) = {}" by simp
      then show ?thesis using i at add out v card mine by (intro move) (auto simp: sem_hold_mem)
    next
      case (wake w)
      have w: "w < n" "phase_of s w = Try" "spc (local_of s w) = PAsleep" "w \<noteq> i" using sl [OF wake(2)] at by auto
      have same: "those n sem_counted (move i Out g l s) = those n sem_counted s"
        using i at wake by (intro those_same) auto
      have "x \<in> sem_hold n (move i Out g l s) \<longleftrightarrow> x \<in> sem_hold n s" if "x \<noteq> i" "x \<noteq> w" for x
        using that wake(3) by (simp add: sem_hold_mem)
      then have other: "sem_hold n (move i Out g l s) - {i, w} = sem_hold n s - {i, w}" by blast
      have "owned (those n sem_counted (move i Out g l s) \<noteq> {}) (sem_hold n (move i Out g l s))"
      proof (rule owned_pass [OF _ mine other])
        show "owned (those n sem_counted s \<noteq> {}) (sem_hold n s)" using s by (simp add: sem_inv_def)
        show "those n sem_counted (move i Out g l s) \<noteq> {}" using hold [OF mine] same by simp
      qed (use w wake in \<open>auto simp: sem_hold_mem\<close>)
      then show ?thesis using s at wake same out by (auto simp: sem_inv_def)
    qed
    then show ?thesis using unlock_returns(1) by simp
  qed
qed

lemma sem_init: "sem_inv n (lock_init \<lparr>futex = 0, sem_value = 1, sem_sleepers = []\<rparr> (\<lambda>_. \<lparr>spc = PIdle, futex_val = 0\<rparr>))"
  by (simp add: sem_inv_def those_def owned_def sem_hold_def lock_init_def)

lemma sem_call:
  assumes s: "sem_inv n s" and i: "i < n" and out: "phase_of s i = Out"
  shows "sem_inv n ((move i Try (shared s) (lock_call (fsem_impl spurious) w i (local_of s i)) s)\<lparr>calls := c\<rparr>)"
proof -
  have "i \<notin> set (sem_sleepers (shared s))" using s out by (force simp: sem_inv_def)
  moreover have "those n sem_counted (move i Try (shared s) (local_of s i\<lparr>spc := PSub\<rparr>) s) = those n sem_counted s"
    using i out by (intro those_same) auto
  ultimately have "sem_inv n (move i Try (shared s) (local_of s i\<lparr>spc := PSub\<rparr>) s)"
    using s i out by (intro sem_move [OF s i]) (auto simp: sem_hold_mem sem_inv_def)
  then show ?thesis by (simp add: fsem_impl_def sem_inv_def)
qed

lemma sem_mutex:
  assumes s: "sem_inv n s" and "i < n" "j < n" "phase_of s i = Crit" "phase_of s j = Crit"
  shows "i = j"
proof (rule owned_unique)
  show "owned (those n sem_counted s \<noteq> {}) (sem_hold n s)" using s by (simp add: sem_inv_def)
qed (use assms in \<open>simp_all add: sem_hold_mem\<close>)

fun sem_rank :: "sem_pc \<Rightarrow> nat" where
  "sem_rank PSub = 4"
| "sem_rank PRead = 3"
| "sem_rank PCall = 2"
| "sem_rank PAsleep = 1"
| "sem_rank VAddOne = 3"
| "sem_rank VYieldCpu = 2"
| "sem_rank VWakeOne = 1"
| "sem_rank PIdle = 0"

text \<open>A thread that holds the token, or is still on its way to sleep, can move; when nobody does the
  value is 1 and a thread in \<open>wait\<close> can take it.\<close>

lemma sem_progress:
  assumes s: "sem_inv n s" and n: "n < 2 ^ 31" and i: "i < n" "phase_of s i \<noteq> Out"
  shows "\<exists>t. lock_act (fsem_impl False) n s t \<and>
    drain_weight 4 (\<lambda>l. sem_rank (spc l)) n t < drain_weight 4 (\<lambda>l. sem_rank (spc l)) n s"
proof -
  have ok: "sem_ok (phase_of s k) (local_of s k)" if "k < n" for k using s that by (simp add: sem_inv_def)
  note drain = drain_steps [where rank = "\<lambda>l. sem_rank (spc l)" and r = 4]
  have own: "owned (those n sem_counted s \<noteq> {}) (sem_hold n s)" using s by (simp add: sem_inv_def)
  have enters: ?thesis if k: "k < n" "phase_of s k = Try" and can: "spc (local_of s k) \<noteq> PAsleep \<or> k \<in> sem_hold n s" for k
  proof -
    have "(\<exists>g l. Returned g l \<in> set (lock_step (fsem_impl False) k (shared s) (local_of s k))) \<or>
        (\<exists>g l. Running g l \<in> set (lock_step (fsem_impl False) k (shared s) (local_of s k)) \<and>
           sem_rank (spc l) < sem_rank (spc (local_of s k)))"
      using ok [OF k(1)] k(2) can
      by (auto simp: fsem_impl_def fsem_wait_def Let_def wait_returns_def sem_hold_mem)
    then show ?thesis using drain(1,2) [OF k] by blast
  qed
  have hold: ?thesis if k: "k \<in> sem_hold n s" for k
  proof (cases "phase_of s k")
    case Try
    then show ?thesis using k by (intro enters [of k]) (auto simp: sem_hold_mem)
  next
    case Crit
    then show ?thesis using k by (intro drain(3) [of k]) (auto simp: fsem_impl_def sem_hold_mem)
  next
    case Rel
    have k': "k < n" using k by (simp add: sem_hold_mem)
    show ?thesis
    proof (cases "spc (local_of s k) = VWakeOne \<and> sem_sleepers (shared s) = []")
      case False
      then have "(\<exists>g l. Returned g l \<in> set (unlock_step (fsem_impl False) k (shared s) (local_of s k))) \<or>
          (\<exists>g l. Running g l \<in> set (unlock_step (fsem_impl False) k (shared s) (local_of s k)) \<and>
             sem_rank (spc l) < sem_rank (spc (local_of s k)))"
        using ok [OF k'] Rel wake_one_nonempty [of "sem_sleepers (shared s)"]
        by (auto simp: fsem_impl_def fsem_signal_def Let_def wake_one_def image_iff Bex_def)
      then show ?thesis using drain(4,5) [OF k' Rel] by blast
    next
      case True
      obtain j where j: "j \<in> those n sem_counted s" using owned_holds [OF own k] by blast
      have "j \<noteq> k" using j True Rel by (auto simp: those_mem)
      then have "j \<notin> sem_hold n s" using owned_unique [OF own k] by auto
      then have "phase_of s j = Try" "spc (local_of s j) \<noteq> PAsleep"
        using j True by (cases "phase_of s j"; auto simp: those_mem sem_hold_mem)+
      then show ?thesis using j by (intro enters [of j]) (auto simp: those_mem)
    qed
  qed (use k in \<open>simp add: sem_hold_mem\<close>)
  show ?thesis
  proof (cases "sem_hold n s = {}")
    case True
    then have none: "those n sem_counted s = {}" using own by (auto simp: owned_def split: if_splits)
    have "phase_of s i = Try" using True i by (cases "phase_of s i") (auto simp: sem_hold_def)
    moreover have "i \<notin> those n sem_counted s" using none by simp
    ultimately show ?thesis using i by (intro enters [of i]) (auto simp: those_mem)
  qed (use hold in blast)
qed

lemma futex_semaphore_live:
  assumes "n < 2 ^ 31"
  shows "live_program (futex_semaphore_prog False n m) (sem_inv n) (drain_weight 4 (\<lambda>l. sem_rank (spc l)) n)"
  by unfold_locales (use sem_init sem_call sem_act [OF _ assms] sem_mutex sem_progress [OF _ assms] in
    \<open>auto simp: futex_semaphore_prog_def\<close>)

interpretation futex_semaphore:
  live_program "futex_semaphore_prog False NUM_THREADS m" "sem_inv NUM_THREADS"
    "drain_weight 4 (\<lambda>l. sem_rank (spc l)) NUM_THREADS" for m
  by (rule futex_semaphore_live) (simp add: NUM_THREADS_def)

text \<open>Thread 1 goes to sleep while thread 0 is inside, and its call returns by itself.\<close>

definition spurious_entry :: "(tid option \<times> nat) list" where
  "spurious_entry = map (\<lambda>w. (w, 0)) [None, None, None, Some 0, Some 0, Some 1, Some 1, Some 1, Some 1, Some 1]"

lemma futex_semaphore_spurious: "\<not> mutual_exclusion (futex_semaphore_prog True 2 2)"
proof -
  let ?P = "futex_semaphore_prog True 2 2"
  have "\<exists>s. run_schedule ?P spurious_entry (prog_init ?P) = Some s \<and> critical s 0 \<and> critical s 1"
    by (simp add: spurious_entry_def futex_semaphore_prog_def prog_init_def main_step_def count_step_def
        fsem_impl_def fsem_wait_def wait_returns_def critical_def rounds_def Let_def)
  then show ?thesis using run_breaks_exclusion [of ?P _ _ 0 1] by (auto simp: futex_semaphore_prog_def)
qed

end
