(* ===== verification/Futex_Semaphore_Spin.thy ===== *)
theory Futex_Semaphore_Spin
  imports Futex_Semaphore
begin

section \<open>The futex semaphore with a spin lock\<close>

text \<open>
  \<open>futex/semaphore_spinlock.c\<close>: the value and the number of waiters are read and written between
  \<open>spin_lock\<close> and \<open>spin_unlock\<close>, one access at a time. A thread that finds no unit counts itself as a
  waiter, leaves the spin lock and sleeps; \<open>signal\<close>, when there are waiters, keeps the spin lock
  until it has woken one.
\<close>

record spin_sem =
  spinlock :: u8
  ss_futex :: cint
  ss_waiters :: u32
  ss_value :: u32
  ss_sleepers :: "tid list"

datatype ss_pc = SIdle | WLock | WYield | WTestWaiters | WTestValue | WLoadWaiters | WStoreWaiters
  | WUnlockSleep | WRead | WCall | WAsleep | WLoadValue | WStoreValue | WUnlockEnter
  | SLock | SYield | STestWaiters | SWake | SWakeYield | SLoadWaiters | SStoreWaiters | SLoadValue
  | SStoreValue | SUnlock

record ss_local =
  sspc :: ss_pc
  ss_reg :: u32
  ss_futex_val :: cint

text \<open>One turn of the loop of \<open>spin_lock\<close>: the weak compare-and-swap may fail on a free lock.\<close>

definition spin_lock_turn :: "ss_pc \<Rightarrow> ss_pc \<Rightarrow> spin_sem \<Rightarrow> ss_local \<Rightarrow> (spin_sem, ss_local) outcome list" where
  "spin_lock_turn got failed g l = (if spinlock g = 0
     then [Running (g\<lparr>spinlock := 1\<rparr>) (l\<lparr>sspc := got\<rparr>), Running g (l\<lparr>sspc := failed\<rparr>)]
     else [Running g (l\<lparr>sspc := failed\<rparr>)])"

definition ss_wait ::
  "bool \<Rightarrow> tid \<Rightarrow> spin_sem \<Rightarrow> ss_local \<Rightarrow> (spin_sem, ss_local) outcome list" where
  "ss_wait spurious i g l = (case sspc l of
       WLock \<Rightarrow> spin_lock_turn WTestWaiters WYield g l
     | WYield \<Rightarrow> [Running g (l\<lparr>sspc := WLock\<rparr>)]
     | WTestWaiters \<Rightarrow> [Running g (l\<lparr>sspc := if ss_waiters g > 0 then WLoadWaiters else WTestValue\<rparr>)]
     | WTestValue \<Rightarrow> [Running g (l\<lparr>sspc := if ss_value g \<le> 0 then WLoadWaiters else WLoadValue\<rparr>)]
     | WLoadWaiters \<Rightarrow> [Running g (l\<lparr>ss_reg := ss_waiters g, sspc := WStoreWaiters\<rparr>)]
     | WStoreWaiters \<Rightarrow> [Running (g\<lparr>ss_waiters := ss_reg l + 1\<rparr>) (l\<lparr>sspc := WUnlockSleep\<rparr>)]
     | WUnlockSleep \<Rightarrow> [Running (g\<lparr>spinlock := 0\<rparr>) (l\<lparr>sspc := WRead\<rparr>)]
     | WRead \<Rightarrow> [Running g (l\<lparr>ss_futex_val := ss_futex g, sspc := WCall\<rparr>)]
     | WCall \<Rightarrow>
         [if ss_futex g = ss_futex_val l then Running (g\<lparr>ss_sleepers := ss_sleepers g @ [i]\<rparr>) (l\<lparr>sspc := WAsleep\<rparr>)
          else Returned g (l\<lparr>sspc := SIdle\<rparr>)]
     | WAsleep \<Rightarrow> map (\<lambda>ws. Returned (g\<lparr>ss_sleepers := ws\<rparr>) (l\<lparr>sspc := SIdle\<rparr>))
         (wait_returns spurious i (ss_sleepers g))
     | WLoadValue \<Rightarrow> [Running g (l\<lparr>ss_reg := ss_value g, sspc := WStoreValue\<rparr>)]
     | WStoreValue \<Rightarrow> [Running (g\<lparr>ss_value := ss_reg l - 1\<rparr>) (l\<lparr>sspc := WUnlockEnter\<rparr>)]
     | WUnlockEnter \<Rightarrow> [Returned (g\<lparr>spinlock := 0\<rparr>) (l\<lparr>sspc := SIdle\<rparr>)]
     | _ \<Rightarrow> [])"

definition ss_signal :: "tid \<Rightarrow> spin_sem \<Rightarrow> ss_local \<Rightarrow> (spin_sem, ss_local) outcome list" where
  "ss_signal i g l = (case sspc l of
       SLock \<Rightarrow> spin_lock_turn STestWaiters SYield g l
     | SYield \<Rightarrow> [Running g (l\<lparr>sspc := SLock\<rparr>)]
     | STestWaiters \<Rightarrow> [Running g (l\<lparr>sspc := if ss_waiters g > 0 then SWake else SLoadValue\<rparr>)]
     | SWake \<Rightarrow> map (\<lambda>(k, ws). Running (g\<lparr>ss_sleepers := ws\<rparr>)
         (l\<lparr>sspc := if k < 1 then SWakeYield else SLoadWaiters\<rparr>)) (wake_one (ss_sleepers g))
     | SWakeYield \<Rightarrow> [Running g (l\<lparr>sspc := SWake\<rparr>)]
     | SLoadWaiters \<Rightarrow> [Running g (l\<lparr>ss_reg := ss_waiters g, sspc := SStoreWaiters\<rparr>)]
     | SStoreWaiters \<Rightarrow> [Running (g\<lparr>ss_waiters := ss_reg l - 1\<rparr>) (l\<lparr>sspc := SUnlock\<rparr>)]
     | SLoadValue \<Rightarrow> [Running g (l\<lparr>ss_reg := ss_value g, sspc := SStoreValue\<rparr>)]
     | SStoreValue \<Rightarrow> [Running (g\<lparr>ss_value := ss_reg l + 1\<rparr>) (l\<lparr>sspc := SUnlock\<rparr>)]
     | SUnlock \<Rightarrow> [Returned (g\<lparr>spinlock := 0\<rparr>) (l\<lparr>sspc := SIdle\<rparr>)]
     | _ \<Rightarrow> [])"

definition ss_impl :: "bool \<Rightarrow> (spin_sem, ss_local) lock_impl" where
  "ss_impl spurious = \<lparr>lock_call = (\<lambda>w i l. l\<lparr>sspc := WLock\<rparr>), lock_step = ss_wait spurious,
     unlock_call = (\<lambda>i l. l\<lparr>sspc := SLock\<rparr>), unlock_step = ss_signal\<rparr>"

definition semaphore_spin_prog :: "bool \<Rightarrow> nat \<Rightarrow> nat \<Rightarrow> (spin_sem, ss_local) program" where
  "semaphore_spin_prog spurious num_thr max_cnt = \<lparr>impl = ss_impl spurious, num_threads = num_thr,
     max_count = max_cnt, expected_count = max_cnt, cells = 1, target = one_counter,
     globals0 = \<lparr>spinlock = 0, ss_futex = 0, ss_waiters = 0, ss_value = 1, ss_sleepers = []\<rparr>,
     locals0 = (\<lambda>_. \<lparr>sspc = SIdle, ss_reg = 0, ss_futex_val = 0\<rparr>)\<rparr>"

subsection \<open>The invariant\<close>

type_synonym ss_state = "(spin_sem, ss_local) lock_state"

text \<open>Between \<open>spin_lock\<close> and \<open>spin_unlock\<close>.\<close>

fun ss_in :: "phase \<Rightarrow> ss_local \<Rightarrow> bool" where
  "ss_in Try l = (sspc l \<in> {WTestWaiters, WTestValue, WLoadWaiters, WStoreWaiters, WUnlockSleep,
     WLoadValue, WStoreValue, WUnlockEnter})"
| "ss_in Rel l = (sspc l \<in> {STestWaiters, SWake, SWakeYield, SLoadWaiters, SStoreWaiters, SLoadValue,
     SStoreValue, SUnlock})"
| "ss_in _ l = False"

fun ss_ok :: "phase \<Rightarrow> ss_local \<Rightarrow> bool" where
  "ss_ok Try l = (sspc l \<in> {WLock, WYield, WTestWaiters, WTestValue, WLoadWaiters, WStoreWaiters,
     WUnlockSleep, WRead, WCall, WAsleep, WLoadValue, WStoreValue, WUnlockEnter} \<and>
     (sspc l = WCall \<longrightarrow> ss_futex_val l = 0))"
| "ss_ok Rel l = (sspc l \<in> {SLock, SYield, STestWaiters, SWake, SWakeYield, SLoadWaiters, SStoreWaiters,
     SLoadValue, SStoreValue, SUnlock})"
| "ss_ok _ l = True"

text \<open>What a thread in the spin lock knows of the value and the waiters.\<close>

definition ss_knows :: "spin_sem \<Rightarrow> ss_local \<Rightarrow> bool" where
  "ss_knows g l = (case sspc l of
       WLoadWaiters \<Rightarrow> ss_value g = 0
     | WStoreWaiters \<Rightarrow> ss_value g = 0 \<and> ss_reg l = ss_waiters g
     | WLoadValue \<Rightarrow> ss_value g = 1
     | WStoreValue \<Rightarrow> ss_value g = 1 \<and> ss_reg l = 1
     | SWake \<Rightarrow> ss_waiters g \<noteq> 0
     | SWakeYield \<Rightarrow> ss_waiters g \<noteq> 0
     | SStoreWaiters \<Rightarrow> ss_reg l = ss_waiters g
     | SLoadValue \<Rightarrow> ss_waiters g = 0
     | SStoreValue \<Rightarrow> ss_waiters g = 0 \<and> ss_reg l = ss_value g
     | _ \<Rightarrow> True)"

text \<open>The unit is with a thread that is inside or on its way in or out, or with a woken sleeper.\<close>

fun ss_holds :: "phase \<Rightarrow> ss_local \<Rightarrow> bool" where
  "ss_holds Try l = (sspc l = WUnlockEnter)"
| "ss_holds Crit l = True"
| "ss_holds Rel l = (sspc l \<notin> {SLoadWaiters, SStoreWaiters, SUnlock})"
| "ss_holds Out l = False"

fun ss_counted :: "phase \<Rightarrow> ss_local \<Rightarrow> bool" where
  "ss_counted Try l = (sspc l \<in> {WUnlockSleep, WRead, WCall})"
| "ss_counted Rel l = (sspc l \<in> {SLoadWaiters, SStoreWaiters})"
| "ss_counted _ l = False"

definition ss_hold :: "nat \<Rightarrow> ss_state \<Rightarrow> tid set" where
  "ss_hold n s = {i. i < n \<and> (ss_holds (phase_of s i) (local_of s i) \<or>
     phase_of s i = Try \<and> sspc (local_of s i) = WAsleep \<and> i \<notin> set (ss_sleepers (shared s)))}"

definition ss_waiting :: "nat \<Rightarrow> ss_state \<Rightarrow> tid set" where
  "ss_waiting n s = {i. i < n \<and> (ss_counted (phase_of s i) (local_of s i) \<or>
     phase_of s i = Try \<and> sspc (local_of s i) = WAsleep \<and> i \<in> set (ss_sleepers (shared s)))}"

definition ss_inv :: "nat \<Rightarrow> ss_state \<Rightarrow> bool" where
  "ss_inv n s \<longleftrightarrow>
     (\<forall>i<n. ss_ok (phase_of s i) (local_of s i)) \<and> ss_futex (shared s) = 0 \<and>
     (\<forall>i<n. ss_in (phase_of s i) (local_of s i) \<longrightarrow> ss_knows (shared s) (local_of s i)) \<and>
     (\<forall>i \<in> set (ss_sleepers (shared s)). i < n \<and> phase_of s i = Try \<and> sspc (local_of s i) = WAsleep) \<and>
     owned (spinlock (shared s) \<noteq> 0) (those n ss_in s) \<and>
     owned (ss_value (shared s) = 0) (ss_hold n s) \<and> ss_value (shared s) \<in> {0, 1} \<and>
     ss_waiters (shared s) = of_nat (card (ss_waiting n s)) \<and>
     (ss_waiting n s \<noteq> {} \<longrightarrow> ss_value (shared s) = 0)"

lemma ss_hold_mem: "i \<in> ss_hold n s \<longleftrightarrow> i < n \<and> (ss_holds (phase_of s i) (local_of s i) \<or>
     phase_of s i = Try \<and> sspc (local_of s i) = WAsleep \<and> i \<notin> set (ss_sleepers (shared s)))"
  by (simp add: ss_hold_def)

lemma ss_waiting_mem: "i \<in> ss_waiting n s \<longleftrightarrow> i < n \<and> (ss_counted (phase_of s i) (local_of s i) \<or>
     phase_of s i = Try \<and> sspc (local_of s i) = WAsleep \<and> i \<in> set (ss_sleepers (shared s)))"
  by (simp add: ss_waiting_def)

lemma ss_hold_calls [simp]: "ss_hold n (s\<lparr>calls := c\<rparr>) = ss_hold n s"
  by (simp add: ss_hold_def)

lemma ss_waiting_calls [simp]: "ss_waiting n (s\<lparr>calls := c\<rparr>) = ss_waiting n s"
  by (simp add: ss_waiting_def)

lemma ss_waiting_finite [simp]: "finite (ss_waiting n s)"
  by (simp add: ss_waiting_def)

lemma ss_waiters_0:
  assumes s: "ss_inv n s" and n: "n < 2 ^ 32"
  shows "ss_waiters (shared s) = 0 \<longleftrightarrow> ss_waiting n s = {}"
proof -
  have "card (ss_waiting n s) \<le> card {..<n}" by (rule card_mono) (auto simp: ss_waiting_def)
  then have "unat (of_nat (card (ss_waiting n s)) :: u32) = card (ss_waiting n s)"
    using n by (simp add: unat_of_nat)
  moreover have "ss_waiters (shared s) = of_nat (card (ss_waiting n s))" using s by (simp add: ss_inv_def)
  ultimately have "ss_waiters (shared s) = 0 \<longleftrightarrow> card (ss_waiting n s) = 0"
    using unat_eq_zero [of "ss_waiters (shared s)"] by metis
  then show ?thesis by simp
qed

text \<open>One step of thread \<open>i\<close> that leaves the other threads' sleep alone.\<close>

lemma ss_move:
  assumes s: "ss_inv n s" and i: "i < n" and ok: "ss_ok p l" and "ss_futex g = ss_futex (shared s)"
    and knows: "ss_in p l \<Longrightarrow> ss_knows g l"
    and lockd: "ss_in p l = ss_in (phase_of s i) (local_of s i) \<and> (spinlock g = 0) = (spinlock (shared s) = 0) \<or>
      ss_in p l \<and> spinlock (shared s) = 0 \<and> spinlock g \<noteq> 0 \<or>
      \<not> ss_in p l \<and> ss_in (phase_of s i) (local_of s i) \<and> spinlock g = 0"
    and same: "ss_value g = ss_value (shared s) \<and> ss_waiters g = ss_waiters (shared s) \<or>
      ss_in (phase_of s i) (local_of s i)"
    and sleep: "\<And>j. j \<noteq> i \<Longrightarrow> j \<in> set (ss_sleepers g) \<longleftrightarrow> j \<in> set (ss_sleepers (shared s))"
    and me: "i \<in> set (ss_sleepers g) \<Longrightarrow> p = Try \<and> sspc l = WAsleep"
    and hold: "(i \<in> ss_hold n (move i p g l s)) = (i \<in> ss_hold n s) \<and> (ss_value g = 0) = (ss_value (shared s) = 0) \<or>
      i \<in> ss_hold n (move i p g l s) \<and> ss_value (shared s) \<noteq> 0 \<and> ss_value g = 0 \<or>
      i \<notin> ss_hold n (move i p g l s) \<and> i \<in> ss_hold n s \<and> ss_value g \<noteq> 0"
    and bit: "ss_value g \<in> {0, 1}"
    and count: "(i \<in> ss_waiting n (move i p g l s)) = (i \<in> ss_waiting n s) \<and> ss_waiters g = ss_waiters (shared s) \<and>
        (ss_waiting n s \<noteq> {} \<longrightarrow> ss_value g = 0) \<or>
      i \<in> ss_waiting n (move i p g l s) \<and> i \<notin> ss_waiting n s \<and> ss_waiters g = ss_waiters (shared s) + 1 \<and> ss_value g = 0 \<or>
      i \<notin> ss_waiting n (move i p g l s) \<and> i \<in> ss_waiting n s \<and> ss_waiters g = ss_waiters (shared s) - 1 \<and> ss_value g = 0"
  shows "ss_inv n (move i p g l s)"
proof -
  let ?t = "move i p g l s"
  have "owned (spinlock g \<noteq> 0) (those n ss_in ?t)"
    by (rule owned_move [of "spinlock (shared s) \<noteq> 0"]) (use s i lockd in \<open>auto simp: ss_inv_def\<close>)
  moreover have "ss_knows g (local_of s j)" if "j < n" "j \<noteq> i" "ss_in (phase_of s j) (local_of s j)" for j
  proof -
    have "\<not> ss_in (phase_of s i) (local_of s i)"
      using s that i owned_unique [of "spinlock (shared s) \<noteq> 0" "those n ss_in s" i j]
      by (auto simp: ss_inv_def those_mem)
    then have "ss_knows g (local_of s j) = ss_knows (shared s) (local_of s j)"
      using same by (simp add: ss_knows_def split: ss_pc.splits)
    then show ?thesis using s that by (simp add: ss_inv_def)
  qed
  moreover have "owned (ss_value g = 0) (ss_hold n ?t)"
  proof (rule owned_change)
    show "owned (ss_value (shared s) = 0) (ss_hold n s)" using s by (simp add: ss_inv_def)
    have "j \<in> ss_hold n ?t \<longleftrightarrow> j \<in> ss_hold n s" if "j \<noteq> i" for j
      using sleep that by (simp add: ss_hold_mem)
    then show "ss_hold n ?t - {i} = ss_hold n s - {i}" by blast
  qed (use hold in blast)
  moreover have others: "j \<in> ss_waiting n ?t \<longleftrightarrow> j \<in> ss_waiting n s" if "j \<noteq> i" for j
    using sleep that by (simp add: ss_waiting_mem)
  have "ss_waiters g = of_nat (card (ss_waiting n ?t))"
  proof (rule count_change [OF others ss_waiting_finite])
    show "ss_waiters (shared s) = of_nat (card (ss_waiting n s))" using s by (simp add: ss_inv_def)
  qed (use count in blast)+
  moreover have "ss_value g = 0" if ne: "ss_waiting n ?t \<noteq> {}"
  proof -
    obtain j where "j \<in> ss_waiting n ?t" using ne by blast
    then have "j \<in> ss_waiting n s \<or> (i \<in> ss_waiting n ?t) \<noteq> (i \<in> ss_waiting n s)"
      using others [of j] by (cases "j = i") auto
    then show ?thesis using count by blast
  qed
  moreover have "j < n \<and> ((phase_of s)(i := p)) j = Try \<and> sspc (((local_of s)(i := l)) j) = WAsleep"
    if "j \<in> set (ss_sleepers g)" for j
    using that me i sleep [of j] s by (cases "j = i") (auto simp: ss_inv_def)
  ultimately show ?thesis using s ok knows bit assms(4) by (simp add: ss_inv_def)
qed

text \<open>What a thread knows of the state before its step.\<close>

lemma ss_facts:
  assumes s: "ss_inv n s" and n: "n < 2 ^ 32" and i: "i < n"
  shows "ss_ok (phase_of s i) (local_of s i)"
    and "ss_in (phase_of s i) (local_of s i) \<Longrightarrow> ss_knows (shared s) (local_of s i)"
    and "phase_of s i \<noteq> Try \<or> sspc (local_of s i) \<noteq> WAsleep \<Longrightarrow> i \<notin> set (ss_sleepers (shared s))"
    and "ss_holds (phase_of s i) (local_of s i) \<Longrightarrow> ss_value (shared s) = 0"
    and "ss_counted (phase_of s i) (local_of s i) \<Longrightarrow> ss_value (shared s) = 0"
    and "ss_in (phase_of s i) (local_of s i) \<Longrightarrow> spinlock (shared s) \<noteq> 0"
    and "ss_waiters (shared s) \<noteq> 0 \<Longrightarrow> ss_value (shared s) = 0"
    and "ss_value (shared s) = 0 \<or> ss_value (shared s) = 1"
    and "ss_waiting n s \<noteq> {} \<Longrightarrow> ss_value (shared s) = 0"
    and "ss_waiters (shared s) = 0 \<longleftrightarrow> ss_waiting n s = {}"
proof -
  show "ss_ok (phase_of s i) (local_of s i)"
    "ss_in (phase_of s i) (local_of s i) \<Longrightarrow> ss_knows (shared s) (local_of s i)"
    "ss_value (shared s) = 0 \<or> ss_value (shared s) = 1"
    "ss_waiting n s \<noteq> {} \<Longrightarrow> ss_value (shared s) = 0"
    using s i by (auto simp: ss_inv_def)
  show "phase_of s i \<noteq> Try \<or> sspc (local_of s i) \<noteq> WAsleep \<Longrightarrow> i \<notin> set (ss_sleepers (shared s))"
    using s by (auto simp: ss_inv_def)
  show "ss_holds (phase_of s i) (local_of s i) \<Longrightarrow> ss_value (shared s) = 0"
    using s i owned_holds [of "ss_value (shared s) = 0" "ss_hold n s" i] by (simp add: ss_inv_def ss_hold_mem)
  show "ss_in (phase_of s i) (local_of s i) \<Longrightarrow> spinlock (shared s) \<noteq> 0"
    using s i owned_holds [of "spinlock (shared s) \<noteq> 0" "those n ss_in s" i] by (simp add: ss_inv_def those_mem)
  show w: "ss_waiters (shared s) = 0 \<longleftrightarrow> ss_waiting n s = {}" by (rule ss_waiters_0 [OF s n])
  show "ss_waiters (shared s) \<noteq> 0 \<Longrightarrow> ss_value (shared s) = 0" using s w by (simp add: ss_inv_def)
  show "ss_counted (phase_of s i) (local_of s i) \<Longrightarrow> ss_value (shared s) = 0"
    using s i ss_waiting_mem [of i n s] by (auto simp: ss_inv_def)
qed

text \<open>A step that changes at most the spin lock.\<close>

lemma ss_keep:
  assumes s: "ss_inv n s" and n: "n < 2 ^ 32" and i: "i < n" and ok: "ss_ok p l"
    and knows: "ss_in p l \<Longrightarrow> ss_knows g l"
    and lockd: "ss_in p l = ss_in (phase_of s i) (local_of s i) \<and> (spinlock g = 0) = (spinlock (shared s) = 0) \<or>
      ss_in p l \<and> spinlock (shared s) = 0 \<and> spinlock g \<noteq> 0 \<or>
      \<not> ss_in p l \<and> ss_in (phase_of s i) (local_of s i) \<and> spinlock g = 0"
    and same: "ss_futex g = ss_futex (shared s)" "ss_value g = ss_value (shared s)"
      "ss_waiters g = ss_waiters (shared s)" "ss_sleepers g = ss_sleepers (shared s)"
    and flags: "ss_holds p l = ss_holds (phase_of s i) (local_of s i)"
      "ss_counted p l = ss_counted (phase_of s i) (local_of s i)"
    and awake: "\<not> (p = Try \<and> sspc l = WAsleep)" "\<not> (phase_of s i = Try \<and> sspc (local_of s i) = WAsleep)"
  shows "ss_inv n (move i p g l s)"
proof -
  have out: "i \<notin> set (ss_sleepers (shared s))" using ss_facts(3) [OF s n i] awake(2) by blast
  have bit: "ss_value (shared s) \<in> {0, 1}" and free: "ss_waiting n s \<noteq> {} \<longrightarrow> ss_value (shared s) = 0"
    using s by (simp_all add: ss_inv_def)
  have "(i \<in> ss_hold n (move i p g l s)) = (i \<in> ss_hold n s)"
    "(i \<in> ss_waiting n (move i p g l s)) = (i \<in> ss_waiting n s)"
    using flags awake by (auto simp: ss_hold_mem ss_waiting_mem)
  then show ?thesis using ok knows lockd same out bit free by (intro ss_move [OF s i]) simp_all
qed

lemma ss_lock_runs:
  assumes s: "ss_inv n s" and n: "n < 2 ^ 32" and i: "i < n" and at: "phase_of s i = Try"
    and step: "Running g l \<in> set (ss_wait False i (shared s) (local_of s i))"
  shows "ss_inv n (move i Try g l s)"
proof -
  note move = ss_move [OF s i] and keep = ss_keep [OF s n i] and facts = ss_facts [OF s n i]
  note defs = ss_wait_def spin_lock_turn_def
  show ?thesis
  proof (cases "sspc (local_of s i)")
    case WLock
    then consider "spinlock (shared s) = 0" "g = (shared s)\<lparr>spinlock := 1\<rparr>" "l = local_of s i\<lparr>sspc := WTestWaiters\<rparr>"
      | "g = shared s" "l = local_of s i\<lparr>sspc := WYield\<rparr>"
      using step by (auto simp: defs split: if_splits)
    then show ?thesis using WLock at by cases (intro keep; simp add: ss_knows_def)+
  next
    case WYield
    then have "g = shared s" "l = local_of s i\<lparr>sspc := WLock\<rparr>" using step by (auto simp: defs)
    then show ?thesis using WYield at by (intro keep) simp_all
  next
    case WTestWaiters
    then have "g = shared s" "l = local_of s i\<lparr>sspc := if ss_waiters g > 0 then WLoadWaiters else WTestValue\<rparr>"
      using step by (auto simp: defs)
    then show ?thesis using WTestWaiters at facts(7) by (intro keep) (simp_all add: ss_knows_def word_gt_0)
  next
    case WTestValue
    then have "g = shared s" "l = local_of s i\<lparr>sspc := if ss_value g = 0 then WLoadWaiters else WLoadValue\<rparr>"
      using step by (auto simp: defs)
    then show ?thesis using WTestValue at facts(8) by (intro keep) (auto simp: ss_knows_def)
  next
    case WLoadWaiters
    then have "g = shared s" "l = local_of s i\<lparr>ss_reg := ss_waiters g, sspc := WStoreWaiters\<rparr>"
      using step by (auto simp: defs)
    then show ?thesis using WLoadWaiters at facts(2) by (intro keep) (simp_all add: ss_knows_def)
  next
    case WStoreWaiters
    then have "g = (shared s)\<lparr>ss_waiters := ss_waiters (shared s) + 1\<rparr>" "l = local_of s i\<lparr>sspc := WUnlockSleep\<rparr>"
      "ss_value (shared s) = 0"
      using step facts(2) at by (auto simp: defs ss_knows_def)
    then show ?thesis using WStoreWaiters i at facts(3)
      by (intro move) (simp_all add: ss_knows_def ss_hold_mem ss_waiting_mem)
  next
    case WUnlockSleep
    then have "g = (shared s)\<lparr>spinlock := 0\<rparr>" "l = local_of s i\<lparr>sspc := WRead\<rparr>" using step by (auto simp: defs)
    then show ?thesis using WUnlockSleep at by (intro keep) simp_all
  next
    case WRead
    then have "g = shared s" "l = local_of s i\<lparr>ss_futex_val := ss_futex g, sspc := WCall\<rparr>" using step by (auto simp: defs)
    then show ?thesis using WRead at s by (intro keep) (simp_all add: ss_inv_def)
  next
    case WCall
    then have "g = (shared s)\<lparr>ss_sleepers := ss_sleepers (shared s) @ [i]\<rparr>" "l = local_of s i\<lparr>sspc := WAsleep\<rparr>"
      using step by (auto simp: defs split: if_splits)
    then show ?thesis using WCall i at facts(3,5,8)
      by (intro move) (auto simp add: ss_hold_mem ss_waiting_mem)
  next
    case WLoadValue
    then have "g = shared s" "l = local_of s i\<lparr>ss_reg := ss_value g, sspc := WStoreValue\<rparr>" using step by (auto simp: defs)
    then show ?thesis using WLoadValue at facts(2) by (intro keep) (simp_all add: ss_knows_def)
  next
    case WStoreValue
    then have g: "g = (shared s)\<lparr>ss_value := 0\<rparr>" "l = local_of s i\<lparr>sspc := WUnlockEnter\<rparr>"
      and "ss_value (shared s) = 1"
      using step facts(2) at by (auto simp: defs ss_knows_def)
    then show ?thesis using WStoreValue i at facts(3)
      by (intro move) (simp_all add: ss_knows_def ss_hold_mem ss_waiting_mem)
  qed (use step in \<open>auto simp: defs\<close>)
qed

lemma ss_lock_returns:
  assumes s: "ss_inv n s" and n: "n < 2 ^ 32" and i: "i < n" and at: "phase_of s i = Try"
    and step: "Returned g l \<in> set (ss_wait False i (shared s) (local_of s i))"
  shows "ss_inv n (move i Crit g l s)"
proof -
  note move = ss_move [OF s i] and keep = ss_keep [OF s n i] and facts = ss_facts [OF s n i]
  have "sspc (local_of s i) = WCall \<Longrightarrow> ss_futex (shared s) = ss_futex_val (local_of s i)"
    using facts(1) at s by (simp add: ss_inv_def)
  then consider "sspc (local_of s i) = WAsleep" "i \<notin> set (ss_sleepers (shared s))" "g = shared s"
    | "sspc (local_of s i) = WUnlockEnter" "g = (shared s)\<lparr>spinlock := 0\<rparr>"
    using step by (auto simp: ss_wait_def spin_lock_turn_def wait_returns_def split: ss_pc.splits if_splits)
  then show ?thesis
  proof cases
    case 1
    then show ?thesis using i at facts(8,9) by (intro move) (auto simp: ss_hold_mem ss_waiting_mem)
  next
    case 2
    then show ?thesis using at by (intro keep) simp_all
  qed
qed

text \<open>\<open>signal\<close> wakes: the unit goes to the sleeper, the place among the waiters to the caller.\<close>

lemma ss_wakes:
  assumes s: "ss_inv n s" and n: "n < 2 ^ 32" and i: "i < n" and at: "phase_of s i = Rel" "sspc (local_of s i) = SWake"
    and w: "w \<in> set (ss_sleepers (shared s))"
    and g: "g = (shared s)\<lparr>ss_sleepers := removeAll w (ss_sleepers (shared s))\<rparr>"
    and l: "l = local_of s i\<lparr>sspc := SLoadWaiters\<rparr>"
  shows "ss_inv n (move i Rel g l s)"
proof -
  let ?t = "move i Rel g l s"
  note facts = ss_facts [OF s n i]
  have w': "w < n" "phase_of s w = Try" "sspc (local_of s w) = WAsleep" "w \<noteq> i"
    using s w at by (auto simp: ss_inv_def)
  have v: "ss_value (shared s) = 0" using facts(4) at by simp
  have ne: "ss_waiters (shared s) \<noteq> 0" using facts(2) at by (simp add: ss_knows_def)
  have mine: "i \<in> ss_hold n s" using i at by (simp add: ss_hold_mem)
  have "x \<in> ss_hold n ?t \<longleftrightarrow> x \<in> ss_hold n s" if "x \<noteq> i" "x \<noteq> w" for x
    using that g by (simp add: ss_hold_mem)
  then have other: "ss_hold n ?t - {i, w} = ss_hold n s - {i, w}" by blast
  have "owned (ss_value g = 0) (ss_hold n ?t)"
  proof (rule owned_pass [OF _ mine other])
    show "owned (ss_value (shared s) = 0) (ss_hold n s)" using s by (simp add: ss_inv_def)
  qed (use w' g l v in \<open>auto simp: ss_hold_mem\<close>)
  moreover have "card (ss_waiting n ?t) = card (ss_waiting n s)"
  proof -
    have "x \<in> ss_waiting n ?t \<longleftrightarrow> x \<in> insert i (ss_waiting n s - {w})" for x
      using w' g l i by (auto simp: ss_waiting_mem)
    then have "ss_waiting n ?t = insert i (ss_waiting n s - {w})" by blast
    moreover have "i \<notin> ss_waiting n s" "w \<in> ss_waiting n s" using w w' at by (auto simp: ss_waiting_mem)
    ultimately show ?thesis by (simp add: card.insert_remove card_Suc_Diff1 del: card_Diff_insert)
  qed
  moreover have "those n ss_in ?t = those n ss_in s" using i at l by (intro those_same) auto
  moreover have "ss_in (phase_of s j) (local_of s j) \<longrightarrow> ss_knows g (local_of s j)" if "j < n" for j
    using s that g by (auto simp: ss_inv_def ss_knows_def split: ss_pc.splits)
  ultimately show ?thesis
    using s at l g v facts(3) by (auto simp: ss_inv_def ss_knows_def)
qed

lemma ss_unlock_runs:
  assumes s: "ss_inv n s" and n: "n < 2 ^ 32" and i: "i < n" and at: "phase_of s i = Rel"
    and step: "Running g l \<in> set (ss_signal i (shared s) (local_of s i))"
  shows "ss_inv n (move i Rel g l s)"
proof -
  note move = ss_move [OF s i] and keep = ss_keep [OF s n i] and facts = ss_facts [OF s n i]
  note defs = ss_signal_def spin_lock_turn_def
  show ?thesis
  proof (cases "sspc (local_of s i)")
    case SLock
    then consider "spinlock (shared s) = 0" "g = (shared s)\<lparr>spinlock := 1\<rparr>" "l = local_of s i\<lparr>sspc := STestWaiters\<rparr>"
      | "g = shared s" "l = local_of s i\<lparr>sspc := SYield\<rparr>"
      using step by (auto simp: defs split: if_splits)
    then show ?thesis using SLock at by cases (intro keep; simp add: ss_knows_def)+
  next
    case SYield
    then have "g = shared s" "l = local_of s i\<lparr>sspc := SLock\<rparr>" using step by (auto simp: defs)
    then show ?thesis using SYield at by (intro keep) simp_all
  next
    case STestWaiters
    then have "g = shared s" "l = local_of s i\<lparr>sspc := if ss_waiters g > 0 then SWake else SLoadValue\<rparr>"
      using step by (auto simp: defs)
    then show ?thesis using STestWaiters at by (intro keep) (simp_all add: ss_knows_def word_gt_0)
  next
    case SWake
    then consider "ss_sleepers (shared s) = []" "g = shared s" "l = local_of s i\<lparr>sspc := SWakeYield\<rparr>"
      | w where "w \<in> set (ss_sleepers (shared s))"
        "g = (shared s)\<lparr>ss_sleepers := removeAll w (ss_sleepers (shared s))\<rparr>" "l = local_of s i\<lparr>sspc := SLoadWaiters\<rparr>"
      using step by (auto simp: defs wake_one_def split: if_splits)
    then show ?thesis
    proof cases
      case 1
      then show ?thesis using SWake at facts(2) by (intro keep) (simp_all add: ss_knows_def)
    next
      case 2
      then show ?thesis using ss_wakes [OF s n i at SWake] by blast
    qed
  next
    case SWakeYield
    then have "g = shared s" "l = local_of s i\<lparr>sspc := SWake\<rparr>" using step by (auto simp: defs)
    then show ?thesis using SWakeYield at facts(2) by (intro keep) (simp_all add: ss_knows_def)
  next
    case SLoadWaiters
    then have "g = shared s" "l = local_of s i\<lparr>ss_reg := ss_waiters g, sspc := SStoreWaiters\<rparr>"
      using step by (auto simp: defs)
    then show ?thesis using SLoadWaiters at by (intro keep) (simp_all add: ss_knows_def)
  next
    case SStoreWaiters
    then have "g = (shared s)\<lparr>ss_waiters := ss_waiters (shared s) - 1\<rparr>" "l = local_of s i\<lparr>sspc := SUnlock\<rparr>"
      using step facts(2) at by (auto simp: defs ss_knows_def)
    then show ?thesis using SStoreWaiters i at facts(3,5)
      by (intro move) (simp_all add: ss_knows_def ss_hold_mem ss_waiting_mem)
  next
    case SLoadValue
    then have "g = shared s" "l = local_of s i\<lparr>ss_reg := ss_value g, sspc := SStoreValue\<rparr>" using step by (auto simp: defs)
    then show ?thesis using SLoadValue at facts(2) by (intro keep) (simp_all add: ss_knows_def)
  next
    case SStoreValue
    then have "ss_value (shared s) = 0" using facts(4) at by simp
    then have "g = (shared s)\<lparr>ss_value := 1\<rparr>" "l = local_of s i\<lparr>sspc := SUnlock\<rparr>" "ss_waiting n s = {}"
      using step facts(2,10) at SStoreValue by (auto simp: defs ss_knows_def)
    then show ?thesis using SStoreValue i at facts(3)
      by (intro move) (simp_all add: ss_knows_def ss_hold_mem ss_waiting_mem)
  qed (use step in \<open>auto simp: defs\<close>)
qed

lemma ss_act:
  assumes s: "ss_inv n s" and n: "n < 2 ^ 32" and act: "lock_act (ss_impl False) n s t"
  shows "ss_inv n t"
  using act
proof cases
  case (lock_runs i g l)
  then show ?thesis using ss_lock_runs [OF s n] by (simp add: ss_impl_def)
next
  case (lock_returns i g l)
  then show ?thesis using ss_lock_returns [OF s n] by (simp add: ss_impl_def)
next
  case (unlock_called i)
  then have "ss_inv n (move i Rel (shared s) (local_of s i\<lparr>sspc := SLock\<rparr>) s)"
    by (intro ss_keep [OF s n]) simp_all
  then show ?thesis using unlock_called(1) by (simp add: ss_impl_def)
next
  case (unlock_runs i g l)
  then show ?thesis using ss_unlock_runs [OF s n] by (simp add: ss_impl_def)
next
  case (unlock_returns i g l)
  then have "sspc (local_of s i) = SUnlock" "g = (shared s)\<lparr>spinlock := 0\<rparr>"
    by (auto simp: ss_impl_def ss_signal_def spin_lock_turn_def split: ss_pc.splits if_splits)
  then have "ss_inv n (move i Out g l s)"
    using unlock_returns(2,3) by (intro ss_keep [OF s n]) simp_all
  then show ?thesis using unlock_returns(1) by simp
qed

lemma ss_init:
  "ss_inv n (lock_init \<lparr>spinlock = 0, ss_futex = 0, ss_waiters = 0, ss_value = 1, ss_sleepers = []\<rparr>
    (\<lambda>_. \<lparr>sspc = SIdle, ss_reg = 0, ss_futex_val = 0\<rparr>))"
  by (simp add: ss_inv_def those_def owned_def ss_hold_def ss_waiting_def lock_init_def)

lemma ss_call:
  assumes s: "ss_inv n s" and n: "n < 2 ^ 32" and i: "i < n" and out: "phase_of s i = Out"
  shows "ss_inv n ((move i Try (shared s) (lock_call (ss_impl spurious) w i (local_of s i)) s)\<lparr>calls := c\<rparr>)"
proof -
  have "ss_inv n (move i Try (shared s) (local_of s i\<lparr>sspc := WLock\<rparr>) s)"
    using out by (intro ss_keep [OF s n i]) simp_all
  then show ?thesis by (simp add: ss_impl_def ss_inv_def)
qed

lemma ss_mutex:
  assumes s: "ss_inv n s" and "i < n" "j < n" "phase_of s i = Crit" "phase_of s j = Crit"
  shows "i = j"
proof (rule owned_unique)
  show "owned (ss_value (shared s) = 0) (ss_hold n s)" using s by (simp add: ss_inv_def)
qed (use assms in \<open>simp_all add: ss_hold_mem\<close>)

subsection \<open>Progress\<close>

fun ss_rank :: "ss_pc \<Rightarrow> nat" where
  "ss_rank WYield = 13"
| "ss_rank WLock = 12"
| "ss_rank WTestWaiters = 11"
| "ss_rank WTestValue = 10"
| "ss_rank WLoadWaiters = 9"
| "ss_rank WStoreWaiters = 8"
| "ss_rank WUnlockSleep = 7"
| "ss_rank WRead = 6"
| "ss_rank WCall = 5"
| "ss_rank WAsleep = 4"
| "ss_rank WLoadValue = 3"
| "ss_rank WStoreValue = 2"
| "ss_rank WUnlockEnter = 1"
| "ss_rank SYield = 9"
| "ss_rank SLock = 8"
| "ss_rank STestWaiters = 7"
| "ss_rank SWakeYield = 6"
| "ss_rank SWake = 5"
| "ss_rank SLoadWaiters = 4"
| "ss_rank SStoreWaiters = 3"
| "ss_rank SLoadValue = 4"
| "ss_rank SStoreValue = 3"
| "ss_rank SUnlock = 2"
| "ss_rank SIdle = 0"

abbreviation ss_weight :: "nat \<Rightarrow> ss_state \<Rightarrow> nat" where
  "ss_weight \<equiv> drain_weight 9 (\<lambda>l. ss_rank (sspc l))"

lemma ss_enters:
  assumes s: "ss_inv n s" and k: "k < n" "phase_of s k = Try"
    and can: "sspc (local_of s k) = WLock \<Longrightarrow> spinlock (shared s) = 0"
      "sspc (local_of s k) = WAsleep \<Longrightarrow> k \<notin> set (ss_sleepers (shared s))"
  shows "\<exists>t. lock_act (ss_impl False) n s t \<and> ss_weight n t < ss_weight n s"
proof -
  have ok: "ss_ok Try (local_of s k)" "ss_futex (shared s) = 0" using s k by (auto simp: ss_inv_def)
  have "(\<exists>g l. Returned g l \<in> set (ss_wait False k (shared s) (local_of s k))) \<or>
      (\<exists>g l. Running g l \<in> set (ss_wait False k (shared s) (local_of s k)) \<and>
         ss_rank (sspc l) < ss_rank (sspc (local_of s k)))"
  proof (cases "sspc (local_of s k) = WLock")
    case True
    then have "Running ((shared s)\<lparr>spinlock := 1\<rparr>) (local_of s k\<lparr>sspc := WTestWaiters\<rparr>) \<in>
        set (ss_wait False k (shared s) (local_of s k))" using can(1) by (simp add: ss_wait_def spin_lock_turn_def)
    moreover have "ss_rank (sspc (local_of s k\<lparr>sspc := WTestWaiters\<rparr>)) < ss_rank (sspc (local_of s k))"
      using True by simp
    ultimately show ?thesis by blast
  next
    case False
    then show ?thesis
      using ok can(2) by (cases "sspc (local_of s k)") (simp_all add: ss_wait_def wait_returns_def)
  qed
  then show ?thesis
    using drain_steps(1,2) [where rank = "\<lambda>l. ss_rank (sspc l)" and r = 9 and L = "ss_impl False", OF k]
    by (auto simp: ss_impl_def)
qed

lemma ss_leaves:
  assumes s: "ss_inv n s" and k: "k < n" "phase_of s k = Rel"
    and can: "sspc (local_of s k) = SLock \<Longrightarrow> spinlock (shared s) = 0"
      "sspc (local_of s k) = SWake \<Longrightarrow> ss_sleepers (shared s) \<noteq> []"
  shows "\<exists>t. lock_act (ss_impl False) n s t \<and> ss_weight n t < ss_weight n s"
proof -
  have ok: "ss_ok Rel (local_of s k)" using s k by (auto simp: ss_inv_def)
  have "(\<exists>g l. Returned g l \<in> set (ss_signal k (shared s) (local_of s k))) \<or>
      (\<exists>g l. Running g l \<in> set (ss_signal k (shared s) (local_of s k)) \<and>
         ss_rank (sspc l) < ss_rank (sspc (local_of s k)))"
  proof (cases "sspc (local_of s k) = SWake \<or> sspc (local_of s k) = SLock")
    case True
    have "\<exists>g l. Running g l \<in> set (ss_signal k (shared s) (local_of s k)) \<and>
        ss_rank (sspc l) < ss_rank (sspc (local_of s k))"
    proof (cases "sspc (local_of s k) = SWake")
      case wake: True
      then obtain w where "w \<in> set (ss_sleepers (shared s))" using can(2) by (cases "ss_sleepers (shared s)") auto
      then have "Running ((shared s)\<lparr>ss_sleepers := removeAll w (ss_sleepers (shared s))\<rparr>)
          (local_of s k\<lparr>sspc := SLoadWaiters\<rparr>) \<in> set (ss_signal k (shared s) (local_of s k))"
        using wake by (auto simp: ss_signal_def wake_one_def image_iff)
      moreover have "ss_rank (sspc (local_of s k\<lparr>sspc := SLoadWaiters\<rparr>)) < ss_rank (sspc (local_of s k))"
        using wake by simp
      ultimately show ?thesis by blast
    next
      case False
      then have "Running ((shared s)\<lparr>spinlock := 1\<rparr>) (local_of s k\<lparr>sspc := STestWaiters\<rparr>) \<in>
          set (ss_signal k (shared s) (local_of s k))"
        using True can(1) by (simp add: ss_signal_def spin_lock_turn_def)
      moreover have "ss_rank (sspc (local_of s k\<lparr>sspc := STestWaiters\<rparr>)) < ss_rank (sspc (local_of s k))"
        using True False by simp
      ultimately show ?thesis by blast
    qed
    then show ?thesis ..
  next
    case False
    then show ?thesis using ok by (cases "sspc (local_of s k)") (simp_all add: ss_signal_def)
  qed
  then show ?thesis
    using drain_steps(4,5) [where rank = "\<lambda>l. ss_rank (sspc l)" and r = 9 and L = "ss_impl False", OF k]
    by (auto simp: ss_impl_def)
qed

lemma ss_progress:
  assumes s: "ss_inv n s" and n: "n < 2 ^ 32" and i: "i < n" "phase_of s i \<noteq> Out"
  shows "\<exists>t. lock_act (ss_impl False) n s t \<and> ss_weight n t < ss_weight n s"
proof -
  have inside: "owned (spinlock (shared s) \<noteq> 0) (those n ss_in s)" and unit: "owned (ss_value (shared s) = 0) (ss_hold n s)"
    using s by (simp_all add: ss_inv_def)
  show ?thesis
  proof (cases "\<exists>k<n. ss_in (phase_of s k) (local_of s k)")
    case True
    then obtain k where k: "k < n" "ss_in (phase_of s k) (local_of s k)" by blast
    show ?thesis
    proof (cases "sspc (local_of s k) = SWake \<and> ss_sleepers (shared s) = []")
      case False
      consider "phase_of s k = Try" | "phase_of s k = Rel" using k(2) by (cases "phase_of s k") auto
      then show ?thesis
      proof cases
        case 1
        then show ?thesis using k(2) by (intro ss_enters [OF s k(1)]) auto
      next
        case 2
        then show ?thesis using k(2) False by (intro ss_leaves [OF s k(1)]) auto
      qed
    next
      case True
      then have "ss_waiters (shared s) \<noteq> 0" using ss_facts(2) [OF s n k] by (simp add: ss_knows_def)
      then obtain j where j: "j \<in> ss_waiting n s" using ss_facts(10) [OF s n k(1)] by blast
      then have c: "j < n" "ss_counted (phase_of s j) (local_of s j)" using True by (auto simp: ss_waiting_mem)
      have "j \<noteq> k" using c(2) True k(2) by (cases "phase_of s k") auto
      then have "\<not> ss_in (phase_of s j) (local_of s j)"
        using owned_unique [OF inside, of j k] c(1) k by (auto simp: those_mem)
      then have "phase_of s j = Try" "sspc (local_of s j) = WRead \<or> sspc (local_of s j) = WCall"
        using c(2) by (cases "phase_of s j"; auto)+
      then show ?thesis using c(1) by (intro ss_enters [OF s, of j]) auto
    qed
  next
    case False
    then have "those n ss_in s = {}" by (auto simp: those_def)
    then have free: "spinlock (shared s) = 0" using inside by (auto simp: owned_def split: if_splits)
    show ?thesis
    proof (cases rule: owner_cases [of n s])
      case (1 k)
      then show ?thesis by (intro drain_steps(3) [of k]) (auto simp: ss_impl_def)
    next
      case (2 k)
      have "\<not> ss_in Rel (local_of s k)" using False 2 by force
      then show ?thesis using free by (intro ss_leaves [OF s 2]) auto
    next
      case 3
      have "phase_of s i = Try" using 3 [OF i(1)] i(2) by simp
      show ?thesis
      proof (cases "sspc (local_of s i) = WAsleep \<and> i \<in> set (ss_sleepers (shared s))")
        case asleep: True
        then have "i \<in> ss_waiting n s" using i \<open>phase_of s i = Try\<close> by (simp add: ss_waiting_mem)
        then have "ss_value (shared s) = 0" using s by (auto simp: ss_inv_def)
        then obtain h where h: "h \<in> ss_hold n s" using unit by (auto simp: owned_def)
        then have "h < n" by (simp add: ss_hold_mem)
        then have "phase_of s h = Try \<and> sspc (local_of s h) = WAsleep \<and> h \<notin> set (ss_sleepers (shared s))"
          using h 3 [of h] False by (auto simp: ss_hold_mem)
        then show ?thesis using \<open>h < n\<close> by (intro ss_enters [OF s, of h]) auto
      next
        case False
        then show ?thesis using free i(1) \<open>phase_of s i = Try\<close> by (intro ss_enters [OF s, of i]) auto
      qed
    qed
  qed
qed

lemma semaphore_spin_live:
  assumes "n < 2 ^ 32"
  shows "live_program (semaphore_spin_prog False n m) (ss_inv n) (ss_weight n)"
  by unfold_locales (use ss_init ss_call [OF _ assms] ss_act [OF _ assms] ss_mutex ss_progress [OF _ assms] in
    \<open>auto simp: semaphore_spin_prog_def\<close>)

interpretation semaphore_spin:
  live_program "semaphore_spin_prog False NUM_THREADS m" "ss_inv NUM_THREADS" "ss_weight NUM_THREADS" for m
  by (rule semaphore_spin_live) (simp add: NUM_THREADS_def)

text \<open>The run of the first semaphore, with the steps of this one.\<close>

definition spurious_entry_spin :: "(tid option \<times> nat) list" where
  "spurious_entry_spin = map (\<lambda>w. (w, 0)) ([None, None, None] @ replicate 7 (Some 0) @ replicate 10 (Some 1))"

subsection \<open>Properties\<close>

text \<open>When \<open>FUTEX_WAIT\<close> may return without a wake-up, as its documentation says, neither semaphore
  excludes: \<open>wait\<close> returns without looking at the value again.\<close>

lemma futex_semaphores_spurious:
  "\<not> mutual_exclusion (futex_semaphore_prog True 2 2) \<and> \<not> mutual_exclusion (semaphore_spin_prog True 2 2)"
proof
  show "\<not> mutual_exclusion (futex_semaphore_prog True 2 2)" by (rule futex_semaphore_spurious)
  let ?P = "semaphore_spin_prog True 2 2"
  have "\<exists>s. run_schedule ?P spurious_entry_spin (prog_init ?P) = Some s \<and> critical s 0 \<and> critical s 1"
    by (simp add: spurious_entry_spin_def semaphore_spin_prog_def prog_init_def main_step_def count_step_def
        ss_impl_def ss_wait_def spin_lock_turn_def wait_returns_def critical_def rounds_def Let_def numeral_eq_Suc)
  then show "\<not> mutual_exclusion ?P" using run_breaks_exclusion [of ?P _ _ 0 1] by (auto simp: semaphore_spin_prog_def)
qed

text \<open>C20: when the kernel returns from \<open>FUTEX_WAIT\<close> only for a wake-up, both futex semaphores are correct
  for every number of threads below \<open>2 ^ 31\<close>: at most one thread holds the unit, every increment
  is counted, and the unit is always handed over in the end, although the sleepers do not test
  anything when they wake. When it may return without one, as its documentation says, neither
  excludes: \<open>wait\<close> returns without looking at the value again.\<close>

theorem futex_semaphores_correct:
  assumes "n < 2 ^ 31"
  shows "program_correct (futex_semaphore_prog False n m) \<and> program_correct (semaphore_spin_prog False n m) \<and>
    \<not> mutual_exclusion (futex_semaphore_prog True 2 2) \<and> \<not> mutual_exclusion (semaphore_spin_prog True 2 2)"
  using live_program.correct [OF futex_semaphore_live [OF assms]]
    live_program.correct [OF semaphore_spin_live] assms futex_semaphores_spurious by simp

theorem futex_semaphores_correct_witness:
  "(4 :: nat) < 2 ^ 31 \<and> program_correct (futex_semaphore_prog False 4 10000000) \<and>
    program_correct (semaphore_spin_prog False 4 10000000)"
  using futex_semaphores_correct [of 4] by simp

end
