(* ===== verification/Barriers.thy ===== *)
theory Barriers
  imports Fork_Join Futex
begin

section \<open>Barriers and the programs that test them\<close>

text \<open>
  \<open>semaphores/barrier.c\<close>, \<open>monitors/barrier.c\<close> and \<open>futex/barrier.c\<close> share their \<open>run\<close>: \<open>PHASES\<close>
  times a thread sleeps a while, calls the barrier and prints a line, then calls it once more
  and prints its last line. A barrier is given here by the atomic steps of one call.

  The contract is over the globals and, for each thread, where it is: outside after \<open>c\<close> calls, or
  inside its call \<open>c\<close>. \<open>barrier_safe\<close> promises what a barrier is for: nobody has returned from
  more calls than each of the others has begun. \<open>barrier_live\<close> adds that while everybody is
  inside, or has made all its calls, those inside get out.
\<close>

datatype 'l spot = Outside nat | Inside nat 'l

fun returned :: "'l spot \<Rightarrow> nat" where
  "returned (Outside c) = c"
| "returned (Inside c l) = c"

fun entered :: "'l spot \<Rightarrow> nat" where
  "entered (Outside c) = c"
| "entered (Inside c l) = Suc c"

locale barrier_safe =
  fixes step :: "tid \<Rightarrow> 's \<Rightarrow> 'l \<Rightarrow> ('s, 'l) outcome list" and start :: 'l and n T :: nat and g0 :: 's
    and inv :: "'s \<Rightarrow> (tid \<Rightarrow> 'l spot) \<Rightarrow> bool"
  assumes inv_start: "inv g0 (\<lambda>_. Outside 0)"
    and inv_enter: "inv g at \<Longrightarrow> i < n \<Longrightarrow> at i = Outside c \<Longrightarrow> c < T \<Longrightarrow> inv g (at(i := Inside c start))"
    and inv_run: "inv g at \<Longrightarrow> i < n \<Longrightarrow> at i = Inside c l \<Longrightarrow> c < T \<Longrightarrow> Running g' l' \<in> set (step i g l) \<Longrightarrow>
      inv g' (at(i := Inside c l'))"
    and inv_leave: "inv g at \<Longrightarrow> i < n \<Longrightarrow> at i = Inside c l \<Longrightarrow> c < T \<Longrightarrow> Returned g' l' \<in> set (step i g l) \<Longrightarrow>
      inv g' (at(i := Outside (Suc c)))"
    and apart: "inv g at \<Longrightarrow> i < n \<Longrightarrow> j < n \<Longrightarrow> returned (at i) \<le> entered (at j)"

locale barrier_live = barrier_safe step start n T g0 inv
  for step :: "tid \<Rightarrow> 's \<Rightarrow> 'l \<Rightarrow> ('s, 'l) outcome list" and start :: 'l and n T :: nat and g0 :: 's
    and inv :: "'s \<Rightarrow> (tid \<Rightarrow> 'l spot) \<Rightarrow> bool" +
  fixes mu :: "'s \<Rightarrow> (tid \<Rightarrow> 'l spot) \<Rightarrow> nat"
  assumes goes: "inv g at \<Longrightarrow> \<forall>j<n. (\<exists>c l. at j = Inside c l \<and> c < T) \<or> at j = Outside T \<Longrightarrow> i < n \<Longrightarrow>
      at i \<noteq> Outside T \<Longrightarrow> \<exists>k<n. \<exists>c l. at k = Inside c l \<and>
        ((\<exists>g' l'. Returned g' l' \<in> set (step k g l)) \<or>
         (\<exists>g' l'. Running g' l' \<in> set (step k g l) \<and> mu g' (at(k := Inside c l')) < mu g at))"

text \<open>The threads whose spot satisfies a predicate, after one thread has moved.\<close>

definition where_at :: "nat \<Rightarrow> ('l spot \<Rightarrow> bool) \<Rightarrow> (tid \<Rightarrow> 'l spot) \<Rightarrow> tid set" where
  "where_at n Q at = {i. i < n \<and> Q (at i)}"

lemma where_at_mem: "i \<in> where_at n Q at \<longleftrightarrow> i < n \<and> Q (at i)"
  by (simp add: where_at_def)

lemma where_at_finite [simp]: "finite (where_at n Q at)"
  by (simp add: where_at_def)

lemma where_at_card: "card (where_at n Q at) \<le> n"
proof -
  have "card (where_at n Q at) \<le> card {..<n}" by (rule card_mono) (auto simp: where_at_def)
  then show ?thesis by simp
qed

lemma where_at_full: "card (where_at n Q at) = n \<Longrightarrow> i < n \<Longrightarrow> Q (at i)"
proof -
  assume c: "card (where_at n Q at) = n" and i: "i < n"
  have "where_at n Q at \<subseteq> {..<n}" by (auto simp: where_at_def)
  from card_subset_eq [OF finite_lessThan this] have "where_at n Q at = {..<n}" using c by simp
  then show "Q (at i)" using i by (auto simp: where_at_def)
qed

lemma where_at_same: "Q x = Q (at i) \<Longrightarrow> where_at n Q (at(i := x)) = where_at n Q at"
  by (auto simp: where_at_def)

lemma owned_at:
  assumes "owned h (where_at n Q at)" "i < n"
    and "Q x = Q (at i) \<and> h' = h \<or> Q x \<and> \<not> h \<and> h' \<or> \<not> Q x \<and> Q (at i) \<and> \<not> h'"
  shows "owned h' (where_at n Q (at(i := x)))"
  by (rule owned_change [OF assms(1), of _ i]) (use assms(2,3) in \<open>auto simp: where_at_def\<close>)

lemma count_at:
  fixes w w' :: "'a::ring_1"
  assumes "w = of_nat (card (where_at n Q at))" "i < n"
    and "Q x = Q (at i) \<and> w' = w \<or> Q x \<and> \<not> Q (at i) \<and> w' = w + 1 \<or> \<not> Q x \<and> Q (at i) \<and> w' = w - 1"
  shows "w' = of_nat (card (where_at n Q (at(i := x))))"
  by (rule count_change [OF _ where_at_finite assms(1), of i]) (use assms(2,3) in \<open>auto simp: where_at_mem\<close>)

subsection \<open>The test program\<close>

datatype run_line = PhaseLine tid nat | FinishedLine tid

record 's run_world =
  bglobals :: 's
  blines :: "run_line list"

datatype 'l run_pc = RLoop nat | RSleep nat | RBarrier nat 'l | RPrint nat

fun run_body ::
  "(tid \<Rightarrow> 's \<Rightarrow> 'l \<Rightarrow> ('s, 'l) outcome list) \<Rightarrow> 'l \<Rightarrow> nat \<Rightarrow> tid \<Rightarrow> 's run_world \<Rightarrow> 'l run_pc \<Rightarrow>
    ('s run_world, 'l run_pc) act list" where
  "run_body step start phases i w (RLoop k) = [Go w (if k < phases then RSleep k else RBarrier k start)]"
| "run_body step start phases i w (RSleep k) = [Go w (RBarrier k start)]"
| "run_body step start phases i w (RBarrier k l) = map (\<lambda>x. case x of
       Running g l' \<Rightarrow> Go (w\<lparr>bglobals := g\<rparr>) (RBarrier k l')
     | Returned g l' \<Rightarrow> Go (w\<lparr>bglobals := g\<rparr>) (RPrint k)) (step i (bglobals w) l)"
| "run_body step start phases i w (RPrint k) =
     [if k < phases then Go (w\<lparr>blines := blines w @ [PhaseLine i k]\<rparr>) (RLoop (Suc k))
      else Exit (w\<lparr>blines := blines w @ [FinishedLine i]\<rparr>)]"

definition run_prog ::
  "(tid \<Rightarrow> 's \<Rightarrow> 'l \<Rightarrow> ('s, 'l) outcome list) \<Rightarrow> 'l \<Rightarrow> 's \<Rightarrow> nat \<Rightarrow> nat \<Rightarrow> ('s run_world, 'l run_pc) fj_prog" where
  "run_prog step start g0 n phases = \<lparr>fj_threads = n, body = run_body step start phases,
     entry = (\<lambda>_. RLoop 0), world0 = \<lparr>bglobals = g0, blines = []\<rparr>, finale = (\<lambda>w. w)\<rparr>"

lemma run_prog_simps [simp]:
  "fj_threads (run_prog step start g0 n phases) = n"
  "body (run_prog step start g0 n phases) = run_body step start phases"
  "entry (run_prog step start g0 n phases) = (\<lambda>_. RLoop 0)"
  "world0 (run_prog step start g0 n phases) = \<lparr>bglobals = g0, blines = []\<rparr>"
  "finale (run_prog step start g0 n phases) = (\<lambda>w. w)"
  by (simp_all add: run_prog_def)

text \<open>Where a thread of the program is with respect to the barrier.\<close>

fun spot_of :: "nat \<Rightarrow> 'l run_pc status \<Rightarrow> 'l spot" where
  "spot_of phases Unborn = Outside 0"
| "spot_of phases (Live (RLoop k)) = Outside k"
| "spot_of phases (Live (RSleep k)) = Outside k"
| "spot_of phases (Live (RBarrier k l)) = Inside k l"
| "spot_of phases (Live (RPrint k)) = Outside (Suc k)"
| "spot_of phases Dead = Outside (Suc phases)"

fun run_ok :: "nat \<Rightarrow> 'l run_pc status \<Rightarrow> bool" where
  "run_ok phases (Live (RLoop k)) = (k \<le> phases)"
| "run_ok phases (Live (RSleep k)) = (k < phases)"
| "run_ok phases (Live (RBarrier k l)) = (k \<le> phases)"
| "run_ok phases (Live (RPrint k)) = (k \<le> phases)"
| "run_ok phases _ = True"

text \<open>No thread has returned from its \<open>k\<close>-th call of the barrier while another has not begun its \<open>k\<close>-th.\<close>

definition separates :: "nat \<Rightarrow> ('s run_world, 'l run_pc) fj_prog \<Rightarrow> bool" where
  "separates phases P \<longleftrightarrow> (\<forall>s i j. fj_reach P s \<longrightarrow> i < fj_threads P \<longrightarrow> j < fj_threads P \<longrightarrow>
     returned (spot_of phases (status s i)) \<le> entered (spot_of phases (status s j)))"

definition barrier_correct :: "nat \<Rightarrow> ('s run_world, 'l run_pc) fj_prog \<Rightarrow> bool" where
  "barrier_correct phases P \<longleftrightarrow> separates phases P \<and> fj_can_finish P"

text \<open>The steps a thread has left outside the barrier: the first measure of a run.\<close>

fun run_left :: "nat \<Rightarrow> 'l run_pc status \<Rightarrow> nat" where
  "run_left phases Unborn = 0"
| "run_left phases (Live (RLoop k)) = 4 * (Suc phases - k) + 4"
| "run_left phases (Live (RSleep k)) = 4 * (Suc phases - k) + 3"
| "run_left phases (Live (RBarrier k l)) = 4 * (Suc phases - k) + 2"
| "run_left phases (Live (RPrint k)) = 4 * (Suc phases - k) + 1"
| "run_left phases Dead = 0"

definition all_left :: "nat \<Rightarrow> nat \<Rightarrow> (tid \<Rightarrow> 'l run_pc status) \<Rightarrow> nat" where
  "all_left n phases st = (\<Sum>i<n. run_left phases (st i))"

lemma all_left_less:
  "i < n \<Longrightarrow> run_left phases x < run_left phases (st i) \<Longrightarrow> all_left n phases (st(i := x)) < all_left n phases st"
  unfolding all_left_def by (intro sum_update_less [of i]) auto

lemma all_left_same:
  "run_left phases x = run_left phases (st i) \<Longrightarrow> all_left n phases (st(i := x)) = all_left n phases st"
  unfolding all_left_def by (intro sum_update_same) simp

definition spots :: "nat \<Rightarrow> (tid \<Rightarrow> 'l run_pc status) \<Rightarrow> tid \<Rightarrow> 'l spot" where
  "spots phases st i = spot_of phases (st i)"

lemma spots_update: "spots phases (st(i := x)) = (spots phases st)(i := spot_of phases x)"
  by (auto simp: spots_def)

lemma spots_unborn: "spots phases (\<lambda>_. Unborn) = (\<lambda>_. Outside 0)"
  by (auto simp: spots_def)

context barrier_safe begin

definition run_J :: "nat \<Rightarrow> 's run_world \<Rightarrow> (tid \<Rightarrow> 'l run_pc status) \<Rightarrow> bool" where
  "run_J phases w st \<longleftrightarrow> inv (bglobals w) (spots phases st) \<and> (\<forall>i<n. run_ok phases (st i))"

lemma run_J_same:
  assumes "run_J phases w st" "spot_of phases x = spot_of phases (st i)" "run_ok phases x" "bglobals w' = bglobals w"
  shows "run_J phases w' (st(i := x))"
proof -
  have "spots phases (st(i := x)) = spots phases st" using assms(2) by (auto simp: spots_def)
  then show ?thesis using assms by (simp add: run_J_def)
qed

lemma run_J_go:
  assumes T: "T = Suc phases" and J: "run_J phases w st" and i: "i < n" "st i = Live l"
    and go: "Go w' l' \<in> set (run_body step start phases i w l)"
  shows "run_J phases w' (st(i := Live l'))"
proof -
  let ?at = "spots phases st"
  have inv: "inv (bglobals w) ?at" and ok: "run_ok phases (st i)" using J i by (auto simp: run_J_def)
  show ?thesis
  proof (cases l)
    case (RLoop k)
    then have "inv (bglobals w) (?at(i := Inside k start))" using ok i T by (intro inv_enter [OF inv]) (simp_all add: spots_def)
    then show ?thesis
      using RLoop go i ok J run_J_same [OF J, of "Live (RSleep k)" i w]
      by (auto simp: run_J_def spots_update split: if_splits)
  next
    case (RSleep k)
    then have "inv (bglobals w) (?at(i := Inside k start))" using ok i T by (intro inv_enter [OF inv]) (simp_all add: spots_def)
    then show ?thesis using RSleep go i ok J by (auto simp: run_J_def spots_update)
  next
    case (RBarrier k m)
    then have k: "?at i = Inside k m" "k < T" using ok i T by (simp_all add: spots_def)
    from RBarrier go consider g m' where "Running g m' \<in> set (step i (bglobals w) m)" "w' = w\<lparr>bglobals := g\<rparr>" "l' = RBarrier k m'"
      | g m' where "Returned g m' \<in> set (step i (bglobals w) m)" "w' = w\<lparr>bglobals := g\<rparr>" "l' = RPrint k"
      by (auto split: outcome.splits)
    then show ?thesis
    proof cases
      case (1 g m')
      then have "inv g (?at(i := Inside k m'))" by (intro inv_run [OF inv i(1) k])
      then show ?thesis using 1 RBarrier i ok J by (simp add: run_J_def spots_update)
    next
      case (2 g m')
      then have "inv g (?at(i := Outside (Suc k)))" by (intro inv_leave [OF inv i(1) k])
      then show ?thesis using 2 RBarrier i ok J by (simp add: run_J_def spots_update)
    qed
  next
    case (RPrint k)
    then show ?thesis using go i ok by (intro run_J_same [OF J]) (auto split: if_splits)
  qed
qed

lemma run_J_exit:
  assumes J: "run_J phases w st" and i: "i < n" "st i = Live l"
    and exit: "Exit w' \<in> set (run_body step start phases i w l)"
  shows "run_J phases w' (st(i := Dead))"
proof -
  have ok: "run_ok phases (st i)" using J i by (auto simp: run_J_def)
  have "\<exists>k. l = RPrint k \<and> \<not> k < phases \<and> bglobals w' = bglobals w"
    using exit by (cases l) (auto split: if_splits outcome.splits)
  then obtain k where "l = RPrint k" "\<not> k < phases" "bglobals w' = bglobals w" by blast
  then show ?thesis using ok i by (intro run_J_same [OF J]) auto
qed

lemma run_invariant_holds: "T = Suc phases \<Longrightarrow> fj_invariant (run_prog step start g0 n phases) (run_J phases)"
proof unfold_locales
  show "run_J phases (world0 (run_prog step start g0 n phases)) (\<lambda>_. Unborn)"
    using inv_start by (simp add: run_J_def spots_unborn)
  show "run_J phases g (st(i := Live (entry (run_prog step start g0 n phases) i)))"
    if "run_J phases g st" "st i = Unborn" for g st i
    using that by (intro run_J_same) simp_all
qed (use run_J_go run_J_exit in auto)

lemma run_separates:
  assumes T: "T = Suc phases"
  shows "separates phases (run_prog step start g0 n phases)"
  unfolding separates_def
proof (intro allI impI)
  let ?P = "run_prog step start g0 n phases"
  fix s i j
  assume r: "fj_reach ?P s" and ij: "i < fj_threads ?P" "j < fj_threads ?P"
  from fj_invariant.fj_always [OF run_invariant_holds [OF T] r]
  obtain g where "inv g (spots phases (status s))" by (auto simp: run_J_def)
  then show "returned (spot_of phases (status s i)) \<le> entered (spot_of phases (status s j))"
    using ij apart [of g "spots phases (status s)" i j] by (simp add: spots_def)
qed

end

context barrier_live begin

lemma run_goes:
  assumes T: "T = Suc phases" and J: "run_J phases w st" and born: "\<forall>j<n. st j \<noteq> Unborn"
    and i: "i < n" "st i \<noteq> Dead"
  shows "\<exists>k<n. \<exists>l x. st k = Live l \<and> x \<in> set (run_body step start phases k w l) \<and>
    (let w' = act_world x; st' = st(k := act_status x)
     in all_left n phases st' < all_left n phases st \<or>
       all_left n phases st' = all_left n phases st \<and>
       mu (bglobals w') (spots phases st') < mu (bglobals w) (spots phases st))"
proof (cases "\<exists>k<n. \<exists>l x. st k = Live l \<and> x \<in> set (run_body step start phases k w l) \<and>
    run_left phases (act_status x) < run_left phases (st k)")
  case True
  then obtain k l x where k: "k < n" "st k = Live l" "x \<in> set (run_body step start phases k w l)"
    and "run_left phases (act_status x) < run_left phases (st k)" by blast
  then have "all_left n phases (st(k := act_status x)) < all_left n phases st" by (intro all_left_less)
  then show ?thesis using k unfolding Let_def by blast
next
  case stuck: False
  have ok: "run_ok phases (st k)" if "k < n" for k using J that by (simp add: run_J_def)
  have inside: "(\<exists>c l. st k = Live (RBarrier c l) \<and> c < T) \<or> st k = Dead" if k: "k < n" for k
  proof (cases "st k")
    case (Live l)
    have no: "\<not> run_left phases (act_status x) < run_left phases (st k)"
      if "x \<in> set (run_body step start phases k w l)" for x using stuck k Live that by blast
    show ?thesis
    proof (cases l)
      case (RLoop c)
      then show ?thesis using no ok [OF k] Live by (auto split: if_splits)
    next
      case (RSleep c)
      then show ?thesis using no ok [OF k] Live by auto
    next
      case (RBarrier c m)
      then show ?thesis using ok [OF k] Live T by auto
    next
      case (RPrint c)
      then show ?thesis using no ok [OF k] Live by (auto split: if_splits)
    qed
  qed (use born k in auto)
  have "\<forall>j<n. (\<exists>c l. spots phases st j = Inside c l \<and> c < T) \<or> spots phases st j = Outside T"
  proof (intro allI impI)
    fix j
    assume "j < n"
    from inside [OF this] show "(\<exists>c l. spots phases st j = Inside c l \<and> c < T) \<or> spots phases st j = Outside T"
      using T by (auto simp: spots_def)
  qed
  moreover have "spots phases st i \<noteq> Outside T" using inside [OF i(1)] i(2) by (auto simp: spots_def)
  moreover have "inv (bglobals w) (spots phases st)" using J by (simp add: run_J_def)
  ultimately obtain k c l where k: "k < n" "spots phases st k = Inside c l" and
    step: "(\<exists>g' l'. Returned g' l' \<in> set (step k (bglobals w) l)) \<or>
      (\<exists>g' l'. Running g' l' \<in> set (step k (bglobals w) l) \<and>
        mu g' ((spots phases st)(k := Inside c l')) < mu (bglobals w) (spots phases st))"
    using goes i(1) by blast
  have st: "st k = Live (RBarrier c l)" using inside [OF k(1)] k(2) by (auto simp: spots_def)
  show ?thesis
    using step
  proof (elim disjE exE conjE)
    fix g' l'
    assume "Returned g' l' \<in> set (step k (bglobals w) l)"
    then have "Go (w\<lparr>bglobals := g'\<rparr>) (RPrint c) \<in> set (run_body step start phases k w (RBarrier c l))"
      by (force simp: image_iff)
    moreover have "run_left phases (act_status (Go (w\<lparr>bglobals := g'\<rparr>) (RPrint c))) < run_left phases (st k)"
      using st by simp
    ultimately show ?thesis using stuck k(1) st by blast
  next
    fix g' l'
    assume r: "Running g' l' \<in> set (step k (bglobals w) l)"
      "mu g' ((spots phases st)(k := Inside c l')) < mu (bglobals w) (spots phases st)"
    let ?x = "Go (w\<lparr>bglobals := g'\<rparr>) (RBarrier c l')"
    have "?x \<in> set (run_body step start phases k w (RBarrier c l))" using r(1) by (force simp: image_iff)
    moreover have "all_left n phases (st(k := act_status ?x)) = all_left n phases st"
      using st by (intro all_left_same) simp
    ultimately show ?thesis
      using k(1) st r(2) by (intro exI [of _ k] conjI exI [of _ "RBarrier c l"] exI [of _ ?x])
        (simp_all add: Let_def spots_update)
  qed
qed

lemma run_finishes:
  assumes T: "T = Suc phases"
  shows "fj_can_finish (run_prog step start g0 n phases)"
proof -
  have "fj_drains (run_prog step start g0 n phases) (run_J phases) (\<lambda>_. all_left n phases)
      (\<lambda>w st. mu (bglobals w) (spots phases st))"
    using run_invariant_holds [OF T] run_goes [OF T]
    by (intro fj_drains.intro fj_drains_axioms.intro) auto
  then show ?thesis by (rule fj_drains.fj_finishes)
qed

lemma run_correct: "T = Suc phases \<Longrightarrow> barrier_correct phases (run_prog step start g0 n phases)"
  by (simp add: barrier_correct_def run_separates run_finishes)

end

end
