(* ===== verification/Barrier_Semaphore.thy ===== *)
theory Barrier_Semaphore
  imports Barriers
begin

section \<open>The barrier of two semaphores\<close>

text \<open>
  \<open>semaphores/barrier.c\<close>. One token goes from thread to thread: through \<open>arrival\<close> while the
  threads come in, each counting itself, and when the last has come through \<open>departure\<close> while they
  leave, each counting itself out; the last to leave opens \<open>arrival\<close> again. The test of
  \<open>counter\<close> after the mutex is released is safe because the thread has the token.
\<close>

record sem_barrier =
  arrival :: nat
  departure :: nat
  mutex_owner :: "tid option"
  counter :: cint

datatype sb_pc = AWait | ALock | ALoad | AStore cint | AUnlock | ATest | APostA | APostD
  | DWait | DLock | DLoad | DStore cint | DUnlock | DTest | DPostD | DPostA

text \<open>One step of \<open>barrier(n)\<close>.\<close>

fun sb_step :: "cint \<Rightarrow> tid \<Rightarrow> sem_barrier \<Rightarrow> sb_pc \<Rightarrow> (sem_barrier, sb_pc) outcome list" where
  "sb_step n i g AWait = (if arrival g > 0 then [Running (g\<lparr>arrival := arrival g - 1\<rparr>) ALock] else [])"
| "sb_step n i g ALock = (if mutex_owner g = None then [Running (g\<lparr>mutex_owner := Some i\<rparr>) ALoad] else [])"
| "sb_step n i g ALoad = [Running g (AStore (counter g))]"
| "sb_step n i g (AStore v) = [Running (g\<lparr>counter := v + 1\<rparr>) AUnlock]"
| "sb_step n i g AUnlock = [Running (g\<lparr>mutex_owner := None\<rparr>) ATest]"
| "sb_step n i g ATest = [Running g (if sint (counter g) < sint n then APostA else APostD)]"
| "sb_step n i g APostA = [Running (g\<lparr>arrival := arrival g + 1\<rparr>) DWait]"
| "sb_step n i g APostD = [Running (g\<lparr>departure := departure g + 1\<rparr>) DWait]"
| "sb_step n i g DWait = (if departure g > 0 then [Running (g\<lparr>departure := departure g - 1\<rparr>) DLock] else [])"
| "sb_step n i g DLock = (if mutex_owner g = None then [Running (g\<lparr>mutex_owner := Some i\<rparr>) DLoad] else [])"
| "sb_step n i g DLoad = [Running g (DStore (counter g))]"
| "sb_step n i g (DStore v) = [Running (g\<lparr>counter := v - 1\<rparr>) DUnlock]"
| "sb_step n i g DUnlock = [Running (g\<lparr>mutex_owner := None\<rparr>) DTest]"
| "sb_step n i g DTest = [Running g (if sint (counter g) > 0 then DPostD else DPostA)]"
| "sb_step n i g DPostD = [Returned (g\<lparr>departure := departure g + 1\<rparr>) AWait]"
| "sb_step n i g DPostA = [Returned (g\<lparr>arrival := arrival g + 1\<rparr>) AWait]"

definition sem_barrier_init :: sem_barrier where
  "sem_barrier_init = \<lparr>arrival = 1, departure = 0, mutex_owner = None, counter = 0\<rparr>"

definition sem_barrier_prog :: "nat \<Rightarrow> nat \<Rightarrow> (sem_barrier run_world, sb_pc run_pc) fj_prog" where
  "sem_barrier_prog n phases = run_prog (sb_step (of_nat n)) AWait sem_barrier_init n phases"

subsection \<open>The invariant\<close>

fun sb_mutex :: "sb_pc spot \<Rightarrow> bool" where
  "sb_mutex (Inside c (AStore v)) = True"
| "sb_mutex (Inside c (DStore v)) = True"
| "sb_mutex (Inside c l) = (l \<in> {ALoad, AUnlock, DLoad, DUnlock})"
| "sb_mutex (Outside c) = False"

fun sb_token :: "sb_pc spot \<Rightarrow> bool" where
  "sb_token (Inside c l) = (l \<noteq> AWait \<and> l \<noteq> DWait)"
| "sb_token (Outside c) = False"

text \<open>Counted in: from the store of the increment to the store of the decrement.\<close>

fun sb_arrived :: "sb_pc spot \<Rightarrow> bool" where
  "sb_arrived (Inside c (AStore v)) = False"
| "sb_arrived (Inside c (DStore v)) = True"
| "sb_arrived (Inside c l) = (l \<in> {AUnlock, ATest, APostA, APostD, DWait, DLock, DLoad})"
| "sb_arrived (Outside c) = False"

text \<open>The calls a thread is through with: counted out of the one it is in.\<close>

fun sb_through :: "sb_pc spot \<Rightarrow> nat" where
  "sb_through (Inside c l) = (if l \<in> {DUnlock, DTest, DPostD, DPostA} then Suc c else c)"
| "sb_through (Outside c) = c"

text \<open>What a thread with the token knows: the register, whether the threads are leaving (\<open>D\<close>), and the
  number of those counted in.\<close>

fun sb_knows :: "nat \<Rightarrow> bool \<Rightarrow> nat \<Rightarrow> cint \<Rightarrow> sb_pc spot \<Rightarrow> bool" where
  "sb_knows n D a v (Outside c) = True"
| "sb_knows n D a v (Inside c (AStore r)) = (\<not> D \<and> r = v)"
| "sb_knows n D a v (Inside c (DStore r)) = (D \<and> r = v)"
| "sb_knows n D a v (Inside c APostA) = (\<not> D \<and> a < n)"
| "sb_knows n D a v (Inside c APostD) = D"
| "sb_knows n D a v (Inside c DPostA) = (\<not> D \<and> a = 0)"
| "sb_knows n D a v (Inside c DPostD) = (D \<and> 0 < a)"
| "sb_knows n D a v (Inside c l) = (if l \<in> {ALock, ALoad, AUnlock, ATest} then \<not> D
     else l \<in> {DLock, DLoad, DUnlock, DTest} \<longrightarrow> D)"

definition sb_at :: "nat \<Rightarrow> nat \<Rightarrow> bool \<Rightarrow> sem_barrier \<Rightarrow> (tid \<Rightarrow> sb_pc spot) \<Rightarrow> bool" where
  "sb_at n G D g at \<longleftrightarrow>
     owned (mutex_owner g \<noteq> None) (where_at n sb_mutex at) \<and>
     owned (arrival g + departure g = 0) (where_at n sb_token at) \<and> arrival g + departure g \<le> 1 \<and>
     counter g = of_nat (card (where_at n sb_arrived at)) \<and>
     (arrival g = 1 \<longrightarrow> \<not> D \<and> (0 < n \<longrightarrow> card (where_at n sb_arrived at) < n)) \<and>
     (departure g = 1 \<longrightarrow> D \<and> 0 < card (where_at n sb_arrived at)) \<and>
     (\<forall>i<n. sb_knows n D (card (where_at n sb_arrived at)) (counter g) (at i)) \<and>
     (\<forall>i<n. sb_through (at i) = (if sb_arrived (at i) \<or> \<not> D then G else Suc G))"

definition sb_inv :: "nat \<Rightarrow> sem_barrier \<Rightarrow> (tid \<Rightarrow> sb_pc spot) \<Rightarrow> bool" where
  "sb_inv n g at \<longleftrightarrow> (\<exists>G D. sb_at n G D g at)"

lemma sb_tokens: "sb_mutex x \<Longrightarrow> sb_token x"
  by (cases x rule: sb_mutex.cases) auto

text \<open>Nobody but the thread with the token knows anything that a step can change.\<close>

lemma sb_knows_idle: "\<not> sb_token x \<Longrightarrow> sb_knows n D a v x"
  by (cases "(n, D, a, v, x)" rule: sb_knows.cases) auto

lemma sb_move:
  assumes s: "sb_at n G D g at" and i: "i < n"
    and mutex: "sb_mutex x = sb_mutex (at i) \<and> (mutex_owner g' = None) = (mutex_owner g = None) \<or>
      sb_mutex x \<and> mutex_owner g = None \<and> mutex_owner g' \<noteq> None \<or>
      \<not> sb_mutex x \<and> sb_mutex (at i) \<and> mutex_owner g' = None"
    and token: "sb_token x = sb_token (at i) \<and> arrival g' = arrival g \<and> departure g' = departure g \<or>
      sb_token x \<and> 0 < arrival g + departure g \<and> arrival g' + departure g' = 0 \<or>
      \<not> sb_token x \<and> sb_token (at i) \<and> arrival g' + departure g' = 1"
    and mine: "sb_token (at i) \<or> sb_token x"
    and count: "sb_arrived x = sb_arrived (at i) \<and> counter g' = counter g \<or>
      sb_arrived x \<and> \<not> sb_arrived (at i) \<and> counter g' = counter g + 1 \<or>
      \<not> sb_arrived x \<and> sb_arrived (at i) \<and> counter g' = counter g - 1"
    and a: "a = card (where_at n sb_arrived (at(i := x)))"
    and arr: "arrival g' = 1 \<Longrightarrow> \<not> D' \<and> a < n" and dep: "departure g' = 1 \<Longrightarrow> D' \<and> 0 < a"
    and knows: "sb_knows n D' a (counter g') x"
    and through: "sb_through x = (if sb_arrived x \<or> \<not> D' then G' else Suc G')"
    and others: "\<And>j. j < n \<Longrightarrow> j \<noteq> i \<Longrightarrow> sb_through (at j) = (if sb_arrived (at j) \<or> \<not> D' then G' else Suc G')"
  shows "sb_at n G' D' g' (at(i := x))"
proof -
  have tok: "owned (arrival g + departure g = 0) (where_at n sb_token at)" using s by (simp add: sb_at_def)
  have "owned (mutex_owner g' \<noteq> None) (where_at n sb_mutex (at(i := x)))"
    by (rule owned_at [of "mutex_owner g \<noteq> None"]) (use s i mutex in \<open>auto simp: sb_at_def\<close>)
  moreover have tok': "owned (arrival g' + departure g' = 0) (where_at n sb_token (at(i := x)))"
    by (rule owned_at [OF tok i]) (use token in auto)
  moreover have "counter g' = of_nat a"
    unfolding a by (rule count_at [of "counter g"]) (use s i count in \<open>auto simp: sb_at_def\<close>)
  moreover have "sb_knows n D' a (counter g') (at j)" if "j < n" "j \<noteq> i" for j
  proof (rule sb_knows_idle)
    show "\<not> sb_token (at j)"
      using mine owned_unique [OF tok, of i j] owned_unique [OF tok', of i j] that i by (auto simp: where_at_mem)
  qed
  moreover have "arrival g' + departure g' \<le> 1" using s token by (auto simp: sb_at_def)
  ultimately show ?thesis using arr dep knows through others a by (simp add: sb_at_def)
qed

lemma sb_keep:
  assumes s: "sb_at n G D g at" and i: "i < n" and "counter g' = counter g" "sb_arrived x = sb_arrived (at i)"
    and through: "sb_through x = sb_through (at i)"
    and "sb_mutex x = sb_mutex (at i) \<and> (mutex_owner g' = None) = (mutex_owner g = None) \<or>
      sb_mutex x \<and> mutex_owner g = None \<and> mutex_owner g' \<noteq> None \<or>
      \<not> sb_mutex x \<and> sb_mutex (at i) \<and> mutex_owner g' = None"
    and "sb_token x = sb_token (at i) \<and> arrival g' = arrival g \<and> departure g' = departure g \<or>
      sb_token x \<and> 0 < arrival g + departure g \<and> arrival g' + departure g' = 0 \<or>
      \<not> sb_token x \<and> sb_token (at i) \<and> arrival g' + departure g' = 1"
    and "sb_token (at i) \<or> sb_token x"
    and "arrival g' = 1 \<Longrightarrow> \<not> D \<and> card (where_at n sb_arrived at) < n"
    and "departure g' = 1 \<Longrightarrow> D \<and> 0 < card (where_at n sb_arrived at)"
    and "sb_knows n D (card (where_at n sb_arrived at)) (counter g) x"
  shows "sb_at n G D g' (at(i := x))"
proof (rule sb_move [OF s i assms(6-8) _ _ assms(9,10)])
  have th: "sb_through (at j) = (if sb_arrived (at j) \<or> \<not> D then G else Suc G)" if "j < n" for j
    using s that by (simp add: sb_at_def)
  then show "sb_through x = (if sb_arrived x \<or> \<not> D then G else Suc G)"
    "\<And>j. j < n \<Longrightarrow> j \<noteq> i \<Longrightarrow> sb_through (at j) = (if sb_arrived (at j) \<or> \<not> D then G else Suc G)"
    using assms(4) through i by simp_all
  show "card (where_at n sb_arrived at) = card (where_at n sb_arrived (at(i := x)))"
    using where_at_same [of sb_arrived x at i n, OF assms(4)] by simp
qed (use assms in auto)

lemma sint_small: "a < 2 ^ 31 \<Longrightarrow> sint (of_nat a :: cint) = int a"
  by (simp add: signed_of_nat signed_take_bit_int_eq_self)

lemma sb_facts:
  assumes s: "sb_at n G D g at" and i: "i < n" and n: "n < 2 ^ 31"
  shows "sb_token (at i) \<Longrightarrow> arrival g = 0 \<and> departure g = 0"
    and "sb_mutex (at i) \<Longrightarrow> mutex_owner g \<noteq> None"
    and "sb_knows n D (card (where_at n sb_arrived at)) (counter g) (at i)"
    and "arrival g > 0 \<Longrightarrow> arrival g = 1 \<and> departure g = 0 \<and> \<not> D \<and> card (where_at n sb_arrived at) < n"
    and "departure g > 0 \<Longrightarrow> departure g = 1 \<and> arrival g = 0 \<and> D \<and> 0 < card (where_at n sb_arrived at)"
    and "sint (counter g) = int (card (where_at n sb_arrived at))"
    and "sb_through (at i) = (if sb_arrived (at i) \<or> \<not> D then G else Suc G)"
    and "sb_arrived (at i) \<Longrightarrow> 0 < card (where_at n sb_arrived at)"
proof -
  show "sb_token (at i) \<Longrightarrow> arrival g = 0 \<and> departure g = 0"
    using s i owned_holds [of "arrival g + departure g = 0" "where_at n sb_token at" i] by (simp add: sb_at_def where_at_mem)
  show "sb_mutex (at i) \<Longrightarrow> mutex_owner g \<noteq> None"
    using s i owned_holds [of "mutex_owner g \<noteq> None" "where_at n sb_mutex at" i] by (simp add: sb_at_def where_at_mem)
  show "sb_knows n D (card (where_at n sb_arrived at)) (counter g) (at i)"
    "sb_through (at i) = (if sb_arrived (at i) \<or> \<not> D then G else Suc G)"
    using s i unfolding sb_at_def by blast+
  have le: "arrival g + departure g \<le> 1" using s by (simp add: sb_at_def)
  show "arrival g > 0 \<Longrightarrow> arrival g = 1 \<and> departure g = 0 \<and> \<not> D \<and> card (where_at n sb_arrived at) < n"
    using s i le by (cases "arrival g") (simp_all add: sb_at_def)
  show "departure g > 0 \<Longrightarrow> departure g = 1 \<and> arrival g = 0 \<and> D \<and> 0 < card (where_at n sb_arrived at)"
    using s i le by (cases "departure g") (simp_all add: sb_at_def)
  have "counter g = of_nat (card (where_at n sb_arrived at))" using s by (simp add: sb_at_def)
  then show "sint (counter g) = int (card (where_at n sb_arrived at))"
    using sint_small [of "card (where_at n sb_arrived at)"] where_at_card [of n sb_arrived at] n by simp
  show "0 < card (where_at n sb_arrived at)" if "sb_arrived (at i)"
  proof -
    have "i \<in> where_at n sb_arrived at" using that i by (simp add: where_at_mem)
    then show ?thesis by (metis card_gt_0_iff empty_iff where_at_finite)
  qed
qed

lemma sb_run:
  assumes s: "sb_inv n g at" and i: "i < n" and at: "at i = Inside c l" and n: "n < 2 ^ 31"
    and step: "Running g' l' \<in> set (sb_step (of_nat n) i g l)"
  shows "sb_inv n g' (at(i := Inside c l'))"
proof -
  from s obtain G D where s: "sb_at n G D g at" by (auto simp: sb_inv_def)
  let ?a = "card (where_at n sb_arrived at)"
  note facts = sb_facts [OF s i n]
  note keep = sb_keep [OF s i] and move = sb_move [OF s i]
  have th: "sb_through (at j) = (if sb_arrived (at j) \<or> \<not> D then G else Suc G)" if "j < n" for j
    using s that by (simp add: sb_at_def)
  have ok: "\<exists>G D. sb_at n G D g' (at(i := Inside c l'))"
  proof (cases l)
    case AWait
    then show ?thesis using step at facts(4) by (intro exI [of _ G] exI [of _ D] keep) (auto split: if_splits)
  next
    case ALock
    then show ?thesis using step at facts(1,3) by (intro exI [of _ G] exI [of _ D] keep) (auto split: if_splits)
  next
    case ALoad
    then show ?thesis using step at facts(1,3) by (intro exI [of _ G] exI [of _ D] keep) auto
  next
    case (AStore v)
    then show ?thesis using step at facts(1,3,7) th by (intro exI [of _ G] exI [of _ D] move [OF _ _ _ _ refl]) auto
  next
    case AUnlock
    then show ?thesis using step at facts(1-3) by (intro exI [of _ G] exI [of _ D] keep) auto
  next
    case ATest
    have lt: "sint (counter g) < sint (of_nat n :: cint) \<longleftrightarrow> ?a < n" using facts(6) sint_small [OF n] by simp
    show ?thesis
    proof (cases "?a < n")
      case True
      then show ?thesis using ATest step at facts(1,3) lt by (intro exI [of _ G] exI [of _ D] keep) auto
    next
      case False
      then have "?a = n" using where_at_card [of n sb_arrived at] by linarith
      then have "sb_arrived (at j)" if "j < n" for j using where_at_full that by blast
      then show ?thesis
        using ATest step at facts(1,3,7) lt th False
        by (intro exI [of _ G] exI [of _ True] move [OF _ _ _ _ refl]) auto
    qed
  next
    case APostA
    then show ?thesis using step at facts(1,3) by (intro exI [of _ G] exI [of _ D] keep) auto
  next
    case APostD
    then show ?thesis using step at facts(1,3,8) by (intro exI [of _ G] exI [of _ D] keep) auto
  next
    case DWait
    then show ?thesis using step at facts(5) by (intro exI [of _ G] exI [of _ D] keep) (auto split: if_splits)
  next
    case DLock
    then show ?thesis using step at facts(1,3) by (intro exI [of _ G] exI [of _ D] keep) (auto split: if_splits)
  next
    case DLoad
    then show ?thesis using step at facts(1,3) by (intro exI [of _ G] exI [of _ D] keep) auto
  next
    case (DStore v)
    then show ?thesis using step at facts(1,3,7) th by (intro exI [of _ G] exI [of _ D] move [OF _ _ _ _ refl]) auto
  next
    case DUnlock
    then show ?thesis using step at facts(1-3) by (intro exI [of _ G] exI [of _ D] keep) auto
  next
    case DTest
    have pos: "sint (counter g) > 0 \<longleftrightarrow> ?a > 0" using facts(6) by simp
    show ?thesis
    proof (cases "?a > 0")
      case True
      then show ?thesis using DTest step at facts(1,3) pos by (intro exI [of _ G] exI [of _ D] keep) auto
    next
      case False
      then have "where_at n sb_arrived at = {}" by simp
      then have "\<not> sb_arrived (at j)" if "j < n" for j using that by (auto simp: where_at_def)
      then show ?thesis
        using DTest step at facts(1,3,7) pos th False where_at_same [of sb_arrived "Inside c DPostA" at i n] i
        by (intro exI [of _ "Suc G"] exI [of _ False] move [OF _ _ _ _ refl]) auto
    qed
  qed (use step in auto)
  then show ?thesis by (simp add: sb_inv_def)
qed

lemma sb_leave:
  assumes s: "sb_inv n g at" and i: "i < n" and at: "at i = Inside c l" and n: "n < 2 ^ 31"
    and step: "Returned g' l' \<in> set (sb_step (of_nat n) i g l)"
  shows "sb_inv n g' (at(i := Outside (Suc c)))"
proof -
  from s obtain G D where s: "sb_at n G D g at" by (auto simp: sb_inv_def)
  note facts = sb_facts [OF s i n]
  have "l = DPostD \<and> g' = g\<lparr>departure := departure g + 1\<rparr> \<or> l = DPostA \<and> g' = g\<lparr>arrival := arrival g + 1\<rparr>"
    using step by (cases l) (auto split: if_splits)
  then have "sb_at n G D g' (at(i := Outside (Suc c)))"
    using at i facts(1,3) by (intro sb_keep [OF s i]) auto
  then show ?thesis by (auto simp: sb_inv_def)
qed

lemma sb_enter:
  assumes s: "sb_inv n g at" and at: "at i = Outside c"
  shows "sb_inv n g (at(i := Inside c AWait))"
proof -
  from s obtain G D where s: "sb_at n G D g at" by (auto simp: sb_inv_def)
  have "where_at n Q (at(i := Inside c AWait)) = where_at n Q at" if "\<not> Q (Inside c AWait)" "\<not> Q (Outside c)" for Q
    using that at by (intro where_at_same) simp
  then have "sb_at n G D g (at(i := Inside c AWait))" using s at by (fastforce simp: sb_at_def)
  then show ?thesis by (auto simp: sb_inv_def)
qed

lemma sb_start: "sb_inv n sem_barrier_init (\<lambda>_. Outside 0)"
proof -
  have "sb_at n 0 False sem_barrier_init (\<lambda>_. Outside 0)"
    by (simp add: sb_at_def where_at_def owned_def sem_barrier_init_def)
  then show ?thesis by (auto simp: sb_inv_def)
qed

lemma sb_apart:
  assumes s: "sb_inv n g at" and "i < n" "j < n"
  shows "returned (at i) \<le> entered (at j)"
proof -
  from s obtain G D where s: "sb_at n G D g at" by (auto simp: sb_inv_def)
  have "returned (at i) \<le> sb_through (at i)" by (cases "at i") auto
  moreover have "sb_through (at j) \<le> entered (at j)" "sb_arrived (at j) \<Longrightarrow> Suc (sb_through (at j)) = entered (at j)"
    by (cases "at j" rule: sb_arrived.cases; auto)+
  moreover have "sb_through (at i) = (if sb_arrived (at i) \<or> \<not> D then G else Suc G)"
    "sb_through (at j) = (if sb_arrived (at j) \<or> \<not> D then G else Suc G)"
    using s assms(2,3) unfolding sb_at_def by blast+
  ultimately show ?thesis by (auto split: if_splits)
qed

subsection \<open>Progress\<close>

fun sb_rank :: "sb_pc \<Rightarrow> nat" where
  "sb_rank AWait = 16" | "sb_rank ALock = 15" | "sb_rank ALoad = 14" | "sb_rank (AStore v) = 13"
| "sb_rank AUnlock = 12" | "sb_rank ATest = 11" | "sb_rank APostA = 10" | "sb_rank APostD = 10"
| "sb_rank DWait = 9" | "sb_rank DLock = 8" | "sb_rank DLoad = 7" | "sb_rank (DStore v) = 6"
| "sb_rank DUnlock = 5" | "sb_rank DTest = 4" | "sb_rank DPostD = 3" | "sb_rank DPostA = 3"

lemma sb_can:
  assumes "l = AWait \<Longrightarrow> 0 < arrival g" "l = DWait \<Longrightarrow> 0 < departure g" "l = ALock \<or> l = DLock \<Longrightarrow> mutex_owner g = None"
  shows "(\<exists>g' l'. Returned g' l' \<in> set (sb_step m k g l)) \<or>
    (\<exists>g' l'. Running g' l' \<in> set (sb_step m k g l) \<and> sb_rank l' < sb_rank l)"
  using assms by (cases l) auto

lemma sb_someone:
  assumes s: "sb_inv n g at" and all: "\<forall>j<n. (\<exists>c l. at j = Inside c l \<and> c < T) \<or> at j = Outside T"
    and i: "i < n" "at i \<noteq> Outside T"
  shows "\<exists>k<n. \<exists>c l. at k = Inside c l \<and> (l = AWait \<longrightarrow> 0 < arrival g) \<and> (l = DWait \<longrightarrow> 0 < departure g) \<and>
    (l = ALock \<or> l = DLock \<longrightarrow> mutex_owner g = None)"
proof -
  from s obtain G D where s: "sb_at n G D g at" by (auto simp: sb_inv_def)
  have mutex: "owned (mutex_owner g \<noteq> None) (where_at n sb_mutex at)"
    and token: "owned (arrival g + departure g = 0) (where_at n sb_token at)" using s by (simp_all add: sb_at_def)
  show ?thesis
  proof (cases "where_at n sb_token at = {}")
    case False
    then obtain k where k: "k < n" "sb_token (at k)" by (auto simp: where_at_def)
    then obtain c l where at: "at k = Inside c l" "l \<noteq> AWait" "l \<noteq> DWait" by (cases "at k") auto
    have "mutex_owner g = None" if l: "l = ALock \<or> l = DLock"
    proof (rule ccontr)
      assume "mutex_owner g \<noteq> None"
      then obtain h where "h \<in> where_at n sb_mutex at" using mutex by (auto simp: owned_def)
      then have h: "h < n" "sb_mutex (at h)" by (simp_all add: where_at_mem)
      then have "h = k" using owned_unique [OF token, of h k] sb_tokens k by (simp add: where_at_mem)
      then show False using h(2) at(1) l by auto
    qed
    then show ?thesis using k(1) at by blast
  next
    case True
    then have one: "0 < arrival g + departure g" using token by (auto simp: owned_def split: if_splits)
    have waits: "at j = Inside c l \<Longrightarrow> l = AWait \<or> l = DWait" if "j < n" for j c l
      using True that by (auto simp: where_at_def)
    show ?thesis
    proof (cases "0 < departure g")
      case True
      have "arrival g + departure g \<le> 1" using s by (simp add: sb_at_def)
      then have "departure g = 1" using True by linarith
      then have "0 < card (where_at n sb_arrived at)" using s unfolding sb_at_def by blast
      then have "where_at n sb_arrived at \<noteq> {}" by auto
      then obtain k where k: "k < n" "sb_arrived (at k)" by (auto simp: where_at_def)
      then obtain c l where at: "at k = Inside c l" by (cases "at k") auto
      then have "l = DWait" using waits [OF k(1) at] k(2) by auto
      then show ?thesis using k(1) at True by blast
    next
      case False
      have "arrival g + departure g \<le> 1" using s by (simp add: sb_at_def)
      then have "arrival g = 1" using one False by linarith
      then have D: "\<not> D" and few: "card (where_at n sb_arrived at) < n"
        using s i(1) unfolding sb_at_def by (blast, force)
      have "\<exists>k<n. \<not> sb_arrived (at k)"
      proof (rule ccontr)
        assume "\<not> (\<exists>k<n. \<not> sb_arrived (at k))"
        then have "where_at n sb_arrived at = {..<n}" by (auto simp: where_at_def)
        then show False using few by simp
      qed
      then obtain k where k: "k < n" "\<not> sb_arrived (at k)" by blast
      have th: "sb_through (at j) = G" if "j < n" for j using s D that by (simp add: sb_at_def)
      have "at k \<noteq> Outside T"
      proof
        assume out: "at k = Outside T"
        obtain c l where ci: "at i = Inside c l" "c < T" using all i by blast
        then have "sb_through (at i) = c" using waits [OF i(1) ci(1)] by auto
        then show False using th [OF i(1)] th [OF k(1)] out ci(2) by simp
      qed
      then obtain c l where at: "at k = Inside c l" using all k(1) by blast
      then have "l = AWait" using waits [OF k(1) at] k(2) by auto
      then show ?thesis using k(1) at one False by auto
    qed
  qed
qed

lemma sem_barrier_live:
  assumes n: "n < 2 ^ 31"
  shows "barrier_live (sb_step (of_nat n)) AWait n T sem_barrier_init (sb_inv n)
    (\<lambda>g at. \<Sum>i<n. case at i of Inside c l \<Rightarrow> sb_rank l | Outside c \<Rightarrow> 0)"
proof unfold_locales
  fix g at i
  assume "sb_inv n g at" "\<forall>j<n. (\<exists>c l. at j = Inside c l \<and> c < T) \<or> at j = Outside T" "i < n" "at i \<noteq> Outside T"
  from sb_someone [OF this] obtain k c l where k: "k < n" "at k = Inside c l" and
    can: "l = AWait \<Longrightarrow> 0 < arrival g" "l = DWait \<Longrightarrow> 0 < departure g" "l = ALock \<or> l = DLock \<Longrightarrow> mutex_owner g = None"
    by blast
  have "(\<Sum>j<n. case (at(k := Inside c l')) j of Inside c l \<Rightarrow> sb_rank l | Outside c \<Rightarrow> 0)
      < (\<Sum>j<n. case at j of Inside c l \<Rightarrow> sb_rank l | Outside c \<Rightarrow> 0)" if "sb_rank l' < sb_rank l" for l'
    using k that by (intro sum_update_less [of k]) auto
  with sb_can [OF can] show "\<exists>k<n. \<exists>c l. at k = Inside c l \<and>
      ((\<exists>g' l'. Returned g' l' \<in> set (sb_step (of_nat n) k g l)) \<or>
       (\<exists>g' l'. Running g' l' \<in> set (sb_step (of_nat n) k g l) \<and>
         (\<Sum>j<n. case (at(k := Inside c l')) j of Inside c l \<Rightarrow> sb_rank l | Outside c \<Rightarrow> 0)
           < (\<Sum>j<n. case at j of Inside c l \<Rightarrow> sb_rank l | Outside c \<Rightarrow> 0)))"
    using k by blast
next
  show "sb_inv n sem_barrier_init (\<lambda>_. Outside 0)" by (rule sb_start)
  show "sb_inv n g (at(i := Inside c AWait))" if "sb_inv n g at" "at i = Outside c" for g at i c
    using that by (rule sb_enter)
  show "sb_inv n g' (at(i := Inside c l'))"
    if "sb_inv n g at" "i < n" "at i = Inside c l" "Running g' l' \<in> set (sb_step (of_nat n) i g l)" for g at i c l g' l'
    by (rule sb_run [OF that(1-3) n that(4)])
  show "sb_inv n g' (at(i := Outside (Suc c)))"
    if "sb_inv n g at" "i < n" "at i = Inside c l" "Returned g' l' \<in> set (sb_step (of_nat n) i g l)" for g at i c l g' l'
    by (rule sb_leave [OF that(1-3) n that(4)])
  show "returned (at i) \<le> entered (at j)" if "sb_inv n g at" "i < n" "j < n" for g at i j
    using that by (rule sb_apart)
qed

interpretation sem_barrier: barrier_live "sb_step (of_nat 10)" AWait 10 T sem_barrier_init "sb_inv 10"
    "\<lambda>g at. \<Sum>i<10. case at i of Inside c l \<Rightarrow> sb_rank l | Outside c \<Rightarrow> 0" for T
  using sem_barrier_live [of 10] by simp

subsection \<open>Properties\<close>

text \<open>The barrier of two semaphores is correct for every number of threads below \<open>2 ^ 31\<close> and of phases:
  nobody has returned from its \<open>k\<close>-th call while another has not begun its \<open>k\<close>-th, also when
  a thread comes back to the barrier before the others have left it, and every reachable
  state can finish. The reads of \<open>counter\<close> outside the mutex do no harm.\<close>

theorem sem_barrier_correct:
  assumes "n < 2 ^ 31"
  shows "barrier_correct phases (sem_barrier_prog n phases)"
  using barrier_live.run_correct [OF sem_barrier_live [OF assms, of "Suc phases"] refl]
  by (simp add: sem_barrier_prog_def)

end
