(* ===== verification/Barrier_Monitor.thy ===== *)
theory Barrier_Monitor
  imports Barriers
begin

section \<open>The barrier of a monitor\<close>

text \<open>
  \<open>monitors/barrier.c\<close>: under a mutex each thread counts itself; the last resets the count and
  broadcasts, the others wait on the condition variable, with an \<open>if\<close> and no loop around the
  wait. As long as the wait returns only for the broadcast the barrier is correct; POSIX lets it
  return without, and then it is not.
\<close>

record mon_barrier =
  mb_owner :: "tid option"
  arrived :: cint
  mb_sleepers :: "tid list"

datatype mb_pc = BEnter | BLoad | BStore cint | BTest | BReset | BBroadcast | BWaitCall | BAsleep
  | BRelock | BExit

text \<open>One step of \<open>barrier(n)\<close>.\<close>

fun mb_step :: "bool \<Rightarrow> cint \<Rightarrow> tid \<Rightarrow> mon_barrier \<Rightarrow> mb_pc \<Rightarrow> (mon_barrier, mb_pc) outcome list" where
  "mb_step spurious n i g BEnter = (if mb_owner g = None then [Running (g\<lparr>mb_owner := Some i\<rparr>) BLoad] else [])"
| "mb_step spurious n i g BLoad = [Running g (BStore (arrived g))]"
| "mb_step spurious n i g (BStore v) = [Running (g\<lparr>arrived := v + 1\<rparr>) BTest]"
| "mb_step spurious n i g BTest = [Running g (if arrived g = n then BReset else BWaitCall)]"
| "mb_step spurious n i g BReset = [Running (g\<lparr>arrived := 0\<rparr>) BBroadcast]"
| "mb_step spurious n i g BBroadcast = [Running (g\<lparr>mb_sleepers := []\<rparr>) BExit]"
| "mb_step spurious n i g BWaitCall =
     [Running (g\<lparr>mb_owner := None, mb_sleepers := mb_sleepers g @ [i]\<rparr>) BAsleep]"
| "mb_step spurious n i g BAsleep =
     map (\<lambda>ws. Running (g\<lparr>mb_sleepers := ws\<rparr>) BRelock) (wait_returns spurious i (mb_sleepers g))"
| "mb_step spurious n i g BRelock = (if mb_owner g = None then [Running (g\<lparr>mb_owner := Some i\<rparr>) BExit] else [])"
| "mb_step spurious n i g BExit = [Returned (g\<lparr>mb_owner := None\<rparr>) BEnter]"

definition mon_barrier_init :: mon_barrier where
  "mon_barrier_init = \<lparr>mb_owner = None, arrived = 0, mb_sleepers = []\<rparr>"

definition mon_barrier_prog :: "bool \<Rightarrow> nat \<Rightarrow> nat \<Rightarrow> (mon_barrier run_world, mb_pc run_pc) fj_prog" where
  "mon_barrier_prog spurious n phases =
     run_prog (mb_step spurious (of_nat n)) BEnter mon_barrier_init n phases"

subsection \<open>The invariant\<close>

fun mb_in :: "mb_pc spot \<Rightarrow> bool" where
  "mb_in (Inside c (BStore v)) = True"
| "mb_in (Inside c l) = (l \<in> {BLoad, BTest, BReset, BBroadcast, BWaitCall, BExit})"
| "mb_in (Outside c) = False"

text \<open>Counted: on the way to sleep, or asleep. From the reset to the broadcast (\<open>D\<close>) the sleepers are
  not counted any more, and are as good as woken.\<close>

fun mb_counted :: "bool \<Rightarrow> mb_pc spot \<Rightarrow> bool" where
  "mb_counted asleep (Inside c l) = (l \<in> {BTest, BReset, BWaitCall} \<or> l = BAsleep \<and> asleep)"
| "mb_counted asleep (Outside c) = False"

fun mb_through :: "bool \<Rightarrow> mb_pc spot \<Rightarrow> nat" where
  "mb_through asleep (Inside c l) =
     (if l \<in> {BBroadcast, BRelock, BExit} \<or> l = BAsleep \<and> \<not> asleep then Suc c else c)"
| "mb_through asleep (Outside c) = c"

fun mb_knows :: "nat \<Rightarrow> bool \<Rightarrow> nat \<Rightarrow> cint \<Rightarrow> mb_pc spot \<Rightarrow> bool" where
  "mb_knows n D a v (Outside c) = True"
| "mb_knows n D a v (Inside c (BStore r)) = (\<not> D \<and> r = v \<and> a < n)"
| "mb_knows n D a v (Inside c BTest) = (\<not> D)"
| "mb_knows n D a v (Inside c BReset) = (\<not> D \<and> a = n)"
| "mb_knows n D a v (Inside c BBroadcast) = (D \<and> a < n)"
| "mb_knows n D a v (Inside c l) = (l \<in> {BLoad, BWaitCall, BExit} \<longrightarrow> \<not> D \<and> a < n)"

definition mb_set :: "nat \<Rightarrow> bool \<Rightarrow> mon_barrier \<Rightarrow> (tid \<Rightarrow> mb_pc spot) \<Rightarrow> tid set" where
  "mb_set n D g at = {i. i < n \<and> mb_counted (\<not> D \<and> i \<in> set (mb_sleepers g)) (at i)}"

definition mb_at :: "nat \<Rightarrow> nat \<Rightarrow> bool \<Rightarrow> mon_barrier \<Rightarrow> (tid \<Rightarrow> mb_pc spot) \<Rightarrow> bool" where
  "mb_at n G D g at \<longleftrightarrow>
     owned (mb_owner g \<noteq> None) (where_at n mb_in at) \<and>
     arrived g = of_nat (card (mb_set n D g at)) \<and>
     (mb_owner g = None \<and> 0 < n \<longrightarrow> \<not> D \<and> card (mb_set n D g at) < n) \<and>
     (\<forall>i \<in> set (mb_sleepers g). i < n \<and> (\<exists>c. at i = Inside c BAsleep)) \<and>
     (\<forall>i<n. mb_knows n D (card (mb_set n D g at)) (arrived g) (at i)) \<and>
     (\<forall>i<n. mb_through (\<not> D \<and> i \<in> set (mb_sleepers g)) (at i) = G)"

definition mb_inv :: "nat \<Rightarrow> mon_barrier \<Rightarrow> (tid \<Rightarrow> mb_pc spot) \<Rightarrow> bool" where
  "mb_inv n g at \<longleftrightarrow> (\<exists>G D. mb_at n G D g at)"

lemma mb_knows_idle: "\<not> mb_in x \<Longrightarrow> mb_knows n D a v x"
  by (cases "(n, D, a, v, x)" rule: mb_knows.cases) auto

lemma mb_set_mem: "i \<in> mb_set n D g at \<longleftrightarrow> i < n \<and> mb_counted (\<not> D \<and> i \<in> set (mb_sleepers g)) (at i)"
  by (simp add: mb_set_def)

lemma mb_set_finite [simp]: "finite (mb_set n D g at)"
  by (simp add: mb_set_def)

lemma mb_set_card: "card (mb_set n D g at) \<le> n"
proof -
  have "card (mb_set n D g at) \<le> card {..<n}" by (rule card_mono) (auto simp: mb_set_def)
  then show ?thesis by simp
qed

lemma mb_set_full:
  assumes "card (mb_set n D g at) = n" "i < n"
  shows "mb_counted (\<not> D \<and> i \<in> set (mb_sleepers g)) (at i)"
proof -
  have "mb_set n D g at \<subseteq> {..<n}" by (auto simp: mb_set_def)
  from card_subset_eq [OF finite_lessThan this] have "mb_set n D g at = {..<n}" using assms(1) by simp
  then show ?thesis using assms(2) by (auto simp: mb_set_def)
qed

text \<open>A step of one thread that leaves the sleepers and \<open>D\<close> alone.\<close>

lemma mb_move:
  assumes s: "mb_at n G D g at" and i: "i < n"
    and mutex: "mb_in x = mb_in (at i) \<and> (mb_owner g' = None) = (mb_owner g = None) \<or>
      mb_in x \<and> mb_owner g = None \<and> mb_owner g' \<noteq> None \<or>
      \<not> mb_in x \<and> mb_in (at i) \<and> mb_owner g' = None"
    and mine: "mb_in (at i) \<or> mb_in x \<or> a = card (mb_set n D g at) \<and> arrived g' = arrived g"
    and sleep: "\<And>j. j \<noteq> i \<Longrightarrow> j \<in> set (mb_sleepers g') \<longleftrightarrow> j \<in> set (mb_sleepers g)"
    and me: "i \<in> set (mb_sleepers g') \<Longrightarrow> \<exists>c. x = Inside c BAsleep"
    and count: "(i \<in> mb_set n D g' (at(i := x))) = (i \<in> mb_set n D g at) \<and> arrived g' = arrived g \<or>
      i \<in> mb_set n D g' (at(i := x)) \<and> i \<notin> mb_set n D g at \<and> arrived g' = arrived g + 1"
    and a: "a = card (mb_set n D g' (at(i := x)))"
    and free: "mb_owner g' = None \<Longrightarrow> \<not> D \<and> a < n"
    and knows: "mb_knows n D a (arrived g') x"
    and through: "mb_through (\<not> D \<and> i \<in> set (mb_sleepers g')) x = G"
  shows "mb_at n G D g' (at(i := x))"
proof -
  have mut: "owned (mb_owner g \<noteq> None) (where_at n mb_in at)" using s by (simp add: mb_at_def)
  have mut': "owned (mb_owner g' \<noteq> None) (where_at n mb_in (at(i := x)))"
    by (rule owned_at [OF mut i]) (use mutex in auto)
  have "j \<in> mb_set n D g' (at(i := x)) \<longleftrightarrow> j \<in> mb_set n D g at" if "j \<noteq> i" for j
    using sleep that by (simp add: mb_set_mem)
  then have cnt: "arrived g' = of_nat a"
    unfolding a by (rule count_change [of i _ _ "arrived g"]) (use s count in \<open>auto simp: mb_at_def\<close>)
  have kn: "mb_knows n D (card (mb_set n D g at)) (arrived g) (at j)" if "j < n" for j
    using s that unfolding mb_at_def by blast
  have "mb_knows n D a (arrived g') (at j)" if j: "j < n" "j \<noteq> i" for j
  proof (cases "mb_in (at j)")
    case True
    then have "\<not> mb_in (at i)" "\<not> mb_in x"
      using owned_unique [OF mut, of i j] owned_unique [OF mut', of i j] j i by (auto simp: where_at_mem)
    then show ?thesis using mine kn [OF j(1)] by simp
  qed (rule mb_knows_idle)
  moreover have "mb_through (\<not> D \<and> j \<in> set (mb_sleepers g')) (at j) = G" if "j < n" "j \<noteq> i" for j
    using s sleep [of j] that by (simp add: mb_at_def)
  moreover have "j < n \<and> (\<exists>c. (at(i := x)) j = Inside c BAsleep)" if "j \<in> set (mb_sleepers g')" for j
    using that me i sleep [of j] s by (cases "j = i") (auto simp: mb_at_def)
  moreover have "mb_owner g' = None \<and> 0 < n \<longrightarrow> \<not> D \<and> a < n" using free by blast
  ultimately show ?thesis using mut' knows through unfolding mb_at_def a [symmetric] cnt [symmetric] by simp
qed

lemma mb_keep:
  assumes s: "mb_at n G D g at" and i: "i < n"
    and mutex: "mb_in x = mb_in (at i) \<and> (mb_owner g' = None) = (mb_owner g = None) \<or>
      mb_in x \<and> mb_owner g = None \<and> mb_owner g' \<noteq> None \<or>
      \<not> mb_in x \<and> mb_in (at i) \<and> mb_owner g' = None"
    and same: "mb_sleepers g' = mb_sleepers g" "arrived g' = arrived g"
    and flags: "i \<notin> set (mb_sleepers g)" "mb_counted False x = mb_counted False (at i)"
      "mb_through False x = mb_through False (at i)"
    and free: "mb_owner g' = None \<Longrightarrow> \<not> D \<and> card (mb_set n D g at) < n"
    and knows: "mb_knows n D (card (mb_set n D g at)) (arrived g) x"
  shows "mb_at n G D g' (at(i := x))"
proof (rule mb_move [OF s i mutex])
  have "mb_set n D g' (at(i := x)) = mb_set n D g at"
    using same(1) flags(1,2) by (auto simp: mb_set_def)
  then show "card (mb_set n D g at) = card (mb_set n D g' (at(i := x)))" by simp
  have "mb_through (\<not> D \<and> i \<in> set (mb_sleepers g)) (at i) = G" using s i by (simp add: mb_at_def)
  then show "mb_through (\<not> D \<and> i \<in> set (mb_sleepers g')) x = G" using same flags by simp
qed (use assms in \<open>auto simp: mb_set_mem\<close>)

lemma mb_facts:
  assumes s: "mb_at n G D g at" and i: "i < n"
  shows "mb_in (at i) \<Longrightarrow> mb_owner g \<noteq> None"
    and "mb_knows n D (card (mb_set n D g at)) (arrived g) (at i)"
    and "mb_owner g = None \<Longrightarrow> \<not> D \<and> card (mb_set n D g at) < n"
    and "at i = Inside c l \<Longrightarrow> l \<noteq> BAsleep \<Longrightarrow> i \<notin> set (mb_sleepers g)"
    and "at i = Outside c \<Longrightarrow> i \<notin> set (mb_sleepers g)"
    and "mb_through (\<not> D \<and> i \<in> set (mb_sleepers g)) (at i) = G"
proof -
  show "mb_in (at i) \<Longrightarrow> mb_owner g \<noteq> None"
    using s i owned_holds [of "mb_owner g \<noteq> None" "where_at n mb_in at" i] by (simp add: mb_at_def where_at_mem)
  show "mb_knows n D (card (mb_set n D g at)) (arrived g) (at i)"
    "mb_through (\<not> D \<and> i \<in> set (mb_sleepers g)) (at i) = G"
    using s i unfolding mb_at_def by blast+
  have "0 < n" using i by simp
  then show "mb_owner g = None \<Longrightarrow> \<not> D \<and> card (mb_set n D g at) < n" using s unfolding mb_at_def by blast
  show "at i = Inside c l \<Longrightarrow> l \<noteq> BAsleep \<Longrightarrow> i \<notin> set (mb_sleepers g)"
    "at i = Outside c \<Longrightarrow> i \<notin> set (mb_sleepers g)"
    using s by (force simp: mb_at_def)+
qed

lemma mb_resets:
  assumes s: "mb_at n G D g at" and i: "i < n" and at: "at i = Inside c BReset"
  shows "mb_at n (Suc G) True (g\<lparr>arrived := 0\<rparr>) (at(i := Inside c BBroadcast))"
proof -
  have "mb_knows n D (card (mb_set n D g at)) (arrived g) (Inside c BReset)" using mb_facts(2) [OF s i] at by metis
  then have full: "card (mb_set n D g at) = n" and D: "\<not> D" unfolding mb_knows.simps by blast+
  have mut: "owned (mb_owner g \<noteq> None) (where_at n mb_in at)" using s by (simp add: mb_at_def)
  have others: "j \<in> set (mb_sleepers g) \<and> \<not> mb_in (at j)" if "j < n" "j \<noteq> i" for j
  proof -
    have "\<not> mb_in (at j)" using owned_unique [OF mut, of i j] that i at by (auto simp: where_at_mem)
    moreover from this have "j \<in> set (mb_sleepers g)"
      using mb_set_full [OF full that(1)] D by (cases "at j" rule: mb_in.cases) auto
    ultimately show ?thesis by blast
  qed
  have thr: "mb_through (j \<in> set (mb_sleepers g)) (at j) = G" if "j < n" for j
    using mb_facts(6) [OF s that] D by simp
  have at': "\<exists>c. at j = Inside c BAsleep" if "j < n" "j \<noteq> i" for j
    using s others [OF that] unfolding mb_at_def by blast
  have nobody: "\<not> mb_counted False ((at(i := Inside c BBroadcast)) j)" if "j < n" for j
    using at' [of j] that by auto
  then have none: "mb_set n True (g\<lparr>arrived := 0\<rparr>) (at(i := Inside c BBroadcast)) = {}" by (simp add: mb_set_def)
  have "mb_knows n True 0 0 ((at(i := Inside c BBroadcast)) j)" if "j < n" for j
    using at' [of j] that i by (cases "j = i") auto
  moreover have "mb_through False ((at(i := Inside c BBroadcast)) j) = Suc G" if "j < n" for j
    using at' [of j] thr [OF that] others [of j] that at thr [OF i] by (cases "j = i") auto
  moreover have "where_at n mb_in (at(i := Inside c BBroadcast)) = where_at n mb_in at"
    using at by (intro where_at_same) simp
  moreover have "mb_owner g \<noteq> None" using mb_facts(1) [OF s i] at by simp
  moreover have "j < n \<and> (\<exists>d. (at(i := Inside c BBroadcast)) j = Inside d BAsleep)" if "j \<in> set (mb_sleepers g)" for j
    using s that at' [of j] mb_facts(4) [OF s i at] by (cases "j = i") (auto simp: mb_at_def)
  ultimately show ?thesis using mut none unfolding mb_at_def by simp
qed

lemma mb_broadcasts:
  assumes s: "mb_at n G D g at" and i: "i < n" and at: "at i = Inside c BBroadcast"
  shows "mb_at n G False (g\<lparr>mb_sleepers := []\<rparr>) (at(i := Inside c BExit))"
proof -
  have "mb_knows n D (card (mb_set n D g at)) (arrived g) (Inside c BBroadcast)"
    using mb_facts(2) [OF s i] at by metis
  then have few: "card (mb_set n D g at) < n" and D: "D" unfolding mb_knows.simps by blast+
  have mut: "owned (mb_owner g \<noteq> None) (where_at n mb_in at)" using s by (simp add: mb_at_def)
  have same: "mb_set n False (g\<lparr>mb_sleepers := []\<rparr>) (at(i := Inside c BExit)) = mb_set n D g at"
    using D at by (auto simp: mb_set_def)
  have "mb_knows n False (card (mb_set n D g at)) (arrived g) ((at(i := Inside c BExit)) j)" if "j < n" for j
  proof (cases "j = i")
    case False
    then have "\<not> mb_in (at j)" using owned_unique [OF mut, of i j] that i at by (auto simp: where_at_mem)
    then show ?thesis using False mb_knows_idle by simp
  qed (use few in simp)
  moreover have "mb_through False ((at(i := Inside c BExit)) j) = G" if "j < n" for j
    using mb_facts(6) [OF s that] D at mb_facts(6) [OF s i] by (cases "j = i") auto
  moreover have "where_at n mb_in (at(i := Inside c BExit)) = where_at n mb_in at"
    using at by (intro where_at_same) simp
  moreover have "mb_owner g \<noteq> None" using mb_facts(1) [OF s i] at by simp
  moreover have "arrived g = of_nat (card (mb_set n D g at))" using s by (simp add: mb_at_def)
  ultimately show ?thesis using mut same few unfolding mb_at_def by simp
qed

lemma mb_run:
  assumes s: "mb_inv n g at" and i: "i < n" and at: "at i = Inside c l" and n: "n < 2 ^ 32"
    and step: "Running g' l' \<in> set (mb_step False (of_nat n) i g l)"
  shows "mb_inv n g' (at(i := Inside c l'))"
proof -
  from s obtain G D where s: "mb_at n G D g at" by (auto simp: mb_inv_def)
  let ?a = "card (mb_set n D g at)"
  note facts = mb_facts [OF s i]
  note keep = mb_keep [OF s i] and move = mb_move [OF s i]
  have "\<exists>G D. mb_at n G D g' (at(i := Inside c l'))"
  proof (cases l)
    case BEnter
    then show ?thesis using step at facts(3,4) by (intro exI [of _ G] exI [of _ D] keep) (auto split: if_splits)
  next
    case BLoad
    then show ?thesis using step at facts(1-4) by (intro exI [of _ G] exI [of _ D] keep) auto
  next
    case (BStore v)
    then show ?thesis
      using step at i facts(1,2,4,6) by (intro exI [of _ G] exI [of _ D] move [OF _ _ _ _ _ refl]) (auto simp: mb_set_mem)
  next
    case BTest
    have "unat (of_nat k :: cint) = k" if "k \<le> n" for k using that n by (simp add: unat_of_nat)
    then have "(of_nat ?a :: cint) = of_nat n \<longleftrightarrow> ?a = n" using mb_set_card [of n D g at] by (metis le_refl)
    then have "arrived g = of_nat n \<longleftrightarrow> ?a = n" using s by (simp add: mb_at_def)
    moreover have "?a \<noteq> n \<Longrightarrow> ?a < n" using mb_set_card [of n D g at] by simp
    ultimately show ?thesis
      using BTest step at facts(1,2,4) by (intro exI [of _ G] exI [of _ D] keep) (auto split: if_splits)
  next
    case BReset
    then show ?thesis using step mb_resets [OF s i] at by auto
  next
    case BBroadcast
    then show ?thesis using step mb_broadcasts [OF s i] at by auto
  next
    case BWaitCall
    then have same: "mb_set n D g' (at(i := Inside c l')) = mb_set n D g at"
      using step at facts(2) i by (auto simp: mb_set_def)
    then show ?thesis
      using BWaitCall step at i facts(1,2,4,6)
      by (intro exI [of _ G] exI [of _ D] move [where a = ?a]) (auto simp: mb_set_mem)
  next
    case BAsleep
    then have "i \<notin> set (mb_sleepers g)" "g' = g" "l' = BRelock"
      using step by (auto simp: wait_returns_def split: if_splits)
    then show ?thesis using BAsleep at facts(3) by (intro exI [of _ G] exI [of _ D] keep) auto
  next
    case BRelock
    then show ?thesis using step at facts(3,4) by (intro exI [of _ G] exI [of _ D] keep) (auto split: if_splits)
  qed (use step in auto)
  then show ?thesis by (simp add: mb_inv_def)
qed

lemma mb_leave:
  assumes s: "mb_inv n g at" and i: "i < n" and at: "at i = Inside c l"
    and step: "Returned g' l' \<in> set (mb_step False (of_nat n) i g l)"
  shows "mb_inv n g' (at(i := Outside (Suc c)))"
proof -
  from s obtain G D where s: "mb_at n G D g at" by (auto simp: mb_inv_def)
  have "l = BExit \<and> g' = g\<lparr>mb_owner := None\<rparr>" using step by (cases l) (auto split: if_splits)
  then have "mb_at n G D g' (at(i := Outside (Suc c)))"
    using at i mb_facts(1,2,4) [OF s i] by (intro mb_keep [OF s i]) auto
  then show ?thesis by (auto simp: mb_inv_def)
qed

lemma mb_enter:
  assumes s: "mb_inv n g at" and i: "i < n" and at: "at i = Outside c"
  shows "mb_inv n g (at(i := Inside c BEnter))"
proof -
  from s obtain G D where s: "mb_at n G D g at" by (auto simp: mb_inv_def)
  have "mb_at n G D g (at(i := Inside c BEnter))"
    using at mb_facts(3,5) [OF s i] by (intro mb_keep [OF s i]) auto
  then show ?thesis by (auto simp: mb_inv_def)
qed

lemma mb_start: "mb_inv n mon_barrier_init (\<lambda>_. Outside 0)"
proof -
  have "mb_at n 0 False mon_barrier_init (\<lambda>_. Outside 0)"
    by (simp add: mb_at_def where_at_def owned_def mb_set_def mon_barrier_init_def)
  then show ?thesis by (auto simp: mb_inv_def)
qed

lemma mb_apart:
  assumes s: "mb_inv n g at" and "i < n" "j < n"
  shows "returned (at i) \<le> entered (at j)"
proof -
  from s obtain G D where s: "mb_at n G D g at" by (auto simp: mb_inv_def)
  have "returned x \<le> mb_through b x" "mb_through b x \<le> entered x" for b x by (cases x; simp)+
  then show ?thesis using mb_facts(6) [OF s assms(2)] mb_facts(6) [OF s assms(3)] by (metis le_trans)
qed

subsection \<open>Progress\<close>

fun mb_rank :: "mb_pc \<Rightarrow> nat" where
  "mb_rank BEnter = 10" | "mb_rank BLoad = 9" | "mb_rank (BStore v) = 8" | "mb_rank BTest = 7"
| "mb_rank BReset = 6" | "mb_rank BBroadcast = 5" | "mb_rank BWaitCall = 4" | "mb_rank BAsleep = 3"
| "mb_rank BRelock = 2" | "mb_rank BExit = 1"

lemma mb_can:
  assumes "l = BEnter \<or> l = BRelock \<Longrightarrow> mb_owner g = None" "l = BAsleep \<Longrightarrow> k \<notin> set (mb_sleepers g)"
  shows "(\<exists>g' l'. Returned g' l' \<in> set (mb_step False m k g l)) \<or>
    (\<exists>g' l'. Running g' l' \<in> set (mb_step False m k g l) \<and> mb_rank l' < mb_rank l)"
  using assms by (cases l) (auto simp: wait_returns_def)

lemma mb_someone:
  assumes s: "mb_inv n g at" and all: "\<forall>j<n. (\<exists>c l. at j = Inside c l \<and> c < T) \<or> at j = Outside T"
    and i: "i < n" "at i \<noteq> Outside T"
  shows "\<exists>k<n. \<exists>c l. at k = Inside c l \<and> (l = BEnter \<or> l = BRelock \<longrightarrow> mb_owner g = None) \<and>
    (l = BAsleep \<longrightarrow> k \<notin> set (mb_sleepers g))"
proof -
  from s obtain G D where s: "mb_at n G D g at" by (auto simp: mb_inv_def)
  have mutex: "owned (mb_owner g \<noteq> None) (where_at n mb_in at)" using s by (simp add: mb_at_def)
  show ?thesis
  proof (cases "mb_owner g = None")
    case False
    then obtain k where "k \<in> where_at n mb_in at" using mutex by (auto simp: owned_def)
    then have k: "k < n" "mb_in (at k)" by (simp_all add: where_at_mem)
    then obtain c l where at: "at k = Inside c l" by (cases "at k") auto
    have "l \<noteq> BEnter \<and> l \<noteq> BRelock \<and> l \<noteq> BAsleep" using k(2) at by (cases l) auto
    then show ?thesis using k(1) at by blast
  next
    case True
    then have free: "\<not> D" "card (mb_set n D g at) < n" using mb_facts(3) [OF s i(1)] by blast+
    have out: "\<not> mb_in (at j)" if "j < n" for j
      using True mutex that by (auto simp: owned_def where_at_def split: if_splits)
    obtain k where k: "k < n" "\<not> (\<exists>c. at k = Inside c BAsleep \<and> k \<in> set (mb_sleepers g))"
    proof -
      have "\<exists>k<n. \<not> mb_counted (\<not> D \<and> k \<in> set (mb_sleepers g)) (at k)"
      proof (rule ccontr)
        assume "\<not> ?thesis"
        then have "mb_set n D g at = {..<n}" by (auto simp: mb_set_def)
        then show False using free(2) by simp
      qed
      then obtain k where k: "k < n" "\<not> mb_counted (\<not> D \<and> k \<in> set (mb_sleepers g)) (at k)" by blast
      then have "\<not> (\<exists>c. at k = Inside c BAsleep \<and> k \<in> set (mb_sleepers g))" using free(1) by auto
      then show ?thesis using that k(1) by blast
    qed
    show ?thesis
    proof (cases "at k = Outside T")
      case False
      then obtain c l where "at k = Inside c l" using all k(1) by blast
      then show ?thesis using k True by blast
    next
      case outside: True
      then have G: "G = T" using mb_facts(6) [OF s k(1)] by simp
      obtain c l where ci: "at i = Inside c l" "c < T" using all i by blast
      have "mb_through (\<not> D \<and> i \<in> set (mb_sleepers g)) (Inside c l) = T" using mb_facts(6) [OF s i(1)] G ci(1) by simp
      then have "l = BAsleep \<longrightarrow> i \<notin> set (mb_sleepers g)" using ci(2) free(1) by auto
      then show ?thesis using i(1) ci(1) True by blast
    qed
  qed
qed

lemma mon_barrier_live:
  assumes n: "n < 2 ^ 32"
  shows "barrier_live (mb_step False (of_nat n)) BEnter n T mon_barrier_init (mb_inv n)
    (\<lambda>g at. \<Sum>i<n. case at i of Inside c l \<Rightarrow> mb_rank l | Outside c \<Rightarrow> 0)"
proof unfold_locales
  fix g at i
  assume "mb_inv n g at" "\<forall>j<n. (\<exists>c l. at j = Inside c l \<and> c < T) \<or> at j = Outside T" "i < n" "at i \<noteq> Outside T"
  from mb_someone [OF this] obtain k c l where k: "k < n" "at k = Inside c l" and
    can: "l = BEnter \<or> l = BRelock \<Longrightarrow> mb_owner g = None" "l = BAsleep \<Longrightarrow> k \<notin> set (mb_sleepers g)" by blast
  have "(\<Sum>j<n. case (at(k := Inside c l')) j of Inside c l \<Rightarrow> mb_rank l | Outside c \<Rightarrow> 0)
      < (\<Sum>j<n. case at j of Inside c l \<Rightarrow> mb_rank l | Outside c \<Rightarrow> 0)" if "mb_rank l' < mb_rank l" for l'
    using k that by (intro sum_update_less [of k]) auto
  with mb_can [OF can] show "\<exists>k<n. \<exists>c l. at k = Inside c l \<and>
      ((\<exists>g' l'. Returned g' l' \<in> set (mb_step False (of_nat n) k g l)) \<or>
       (\<exists>g' l'. Running g' l' \<in> set (mb_step False (of_nat n) k g l) \<and>
         (\<Sum>j<n. case (at(k := Inside c l')) j of Inside c l \<Rightarrow> mb_rank l | Outside c \<Rightarrow> 0)
           < (\<Sum>j<n. case at j of Inside c l \<Rightarrow> mb_rank l | Outside c \<Rightarrow> 0)))"
    using k by blast
next
  show "mb_inv n mon_barrier_init (\<lambda>_. Outside 0)" by (rule mb_start)
  show "mb_inv n g (at(i := Inside c BEnter))" if "mb_inv n g at" "i < n" "at i = Outside c" for g at i c
    using that by (rule mb_enter)
  show "mb_inv n g' (at(i := Inside c l'))"
    if "mb_inv n g at" "i < n" "at i = Inside c l" "Running g' l' \<in> set (mb_step False (of_nat n) i g l)"
    for g at i c l g' l'
    by (rule mb_run [OF that(1-3) n that(4)])
  show "mb_inv n g' (at(i := Outside (Suc c)))"
    if "mb_inv n g at" "i < n" "at i = Inside c l" "Returned g' l' \<in> set (mb_step False (of_nat n) i g l)"
    for g at i c l g' l'
    by (rule mb_leave [OF that])
  show "returned (at i) \<le> entered (at j)" if "mb_inv n g at" "i < n" "j < n" for g at i j
    using that by (rule mb_apart)
qed

interpretation mon_barrier: barrier_live "mb_step False (of_nat 10)" BEnter 10 T mon_barrier_init "mb_inv 10"
    "\<lambda>g at. \<Sum>i<10. case at i of Inside c l \<Rightarrow> mb_rank l | Outside c \<Rightarrow> 0" for T
  using mon_barrier_live [of 10] by simp

text \<open>Thread 0 waits and its wait returns by itself, while thread 1 has not begun.\<close>

definition spurious_pass :: "(tid option \<times> nat) list" where
  "spurious_pass = map (\<lambda>w. (w, 0)) ([None, None, None] @ replicate 10 (Some 0))"

subsection \<open>Properties\<close>

text \<open>The barrier of the monitor, when its wait returns only for the broadcast, is correct for every
  number of threads below \<open>2 ^ 32\<close> and of phases; when the wait may return by itself, as POSIX
  allows, it is not: with two threads one passes the barrier before the other has reached it,
  because the wait is under an \<open>if\<close> and not in a loop.\<close>

theorem mon_barrier_correct:
  assumes "n < 2 ^ 32"
  shows "barrier_correct phases (mon_barrier_prog False n phases) \<and> \<not> separates 20 (mon_barrier_prog True 2 20)"
proof
  show "barrier_correct phases (mon_barrier_prog False n phases)"
    using barrier_live.run_correct [OF mon_barrier_live [OF assms, of "Suc phases"] refl]
    by (simp add: mon_barrier_prog_def)
  let ?P = "mon_barrier_prog True 2 20"
  have "\<exists>s. fj_run ?P spurious_pass (fj_init ?P) = Some s \<and>
      returned (spot_of 20 (status s 0)) = 1 \<and> entered (spot_of 20 (status s 1)) = 0"
    by (simp add: spurious_pass_def mon_barrier_prog_def run_prog_def fj_init_def fj_main_def fj_thread_def
        after_act_def mon_barrier_init_def wait_returns_def numeral_eq_Suc)
  then obtain s where "fj_reach ?P s" "\<not> returned (spot_of 20 (status s 0)) \<le> entered (spot_of 20 (status s 1))"
    using fj_run_reaches by fastforce
  moreover have "fj_threads ?P = 2" by (simp add: mon_barrier_prog_def)
  ultimately show "\<not> separates 20 ?P" unfolding separates_def by fastforce
qed

end
