(* ===== verification/Barrier_Futex.thy ===== *)
theory Barrier_Futex
  imports Barriers Drepper_Mutex
begin

section \<open>Drepper's futex barrier\<close>

text \<open>
  \<open>futex/barrier.c\<close>. The arrivals are counted down under Drepper's mutex, whose steps, \<open>_barrier_lock\<close>
  and \<open>_barrier_unlock\<close>, are those of \<open>futex/mutex_drepper.c\<close>. Whoever is not the last notes the
  phase, leaves the mutex and sleeps on the phase until it has changed; the last advances the
  phase, counts the arrivals from the start again and wakes everybody.

  The barrier uses the mutex through what is proved of it: seen through \<open>lock_part\<close>, a state of
  the barrier is a state of the lock system, in which the threads of the barrier are in
  \<open>lock\<close>, past it, in \<open>unlock\<close> or outside.
\<close>

record fut_barrier =
  block :: drepper_globals
  bphase :: u32
  processes :: u32
  to_arrive :: u32
  ph_sleepers :: "tid list"

datatype fb_pc = FLock drepper_pc | FLoad | FStore u32 | FTest | FReadPhase | FUnlockW u32 drepper_pc
  | FCallWait u32 | FAsleep u32 | FCheck u32 | FPhLoad | FPhStore u32 | FReadProc | FToArrive u32 | FWakeAll
  | FUnlockL drepper_pc

text \<open>One step of \<open>barrier_wait\<close>.\<close>

fun fb_step :: "bool \<Rightarrow> tid \<Rightarrow> fut_barrier \<Rightarrow> fb_pc \<Rightarrow> (fut_barrier, fb_pc) outcome list" where
  "fb_step sp i g (FLock d) = map (\<lambda>x. case x of
       Running b d' \<Rightarrow> Running (g\<lparr>block := b\<rparr>) (FLock d')
     | Returned b d' \<Rightarrow> Running (g\<lparr>block := b\<rparr>) FLoad) (drepper_lock sp i (block g) d)"
| "fb_step sp i g FLoad = [Running g (FStore (to_arrive g - 1))]"
| "fb_step sp i g (FStore v) = [Running (g\<lparr>to_arrive := v\<rparr>) FTest]"
| "fb_step sp i g FTest = [Running g (if to_arrive g > 0 then FReadPhase else FPhLoad)]"
| "fb_step sp i g FReadPhase = [Running g (FUnlockW (bphase g) DFetchSub)]"
| "fb_step sp i g (FUnlockW p d) = map (\<lambda>x. case x of
       Running b d' \<Rightarrow> Running (g\<lparr>block := b\<rparr>) (FUnlockW p d')
     | Returned b d' \<Rightarrow> Running (g\<lparr>block := b\<rparr>) (FCallWait p)) (drepper_unlock i (block g) d)"
| "fb_step sp i g (FCallWait p) =
     [if bphase g = p then Running (g\<lparr>ph_sleepers := ph_sleepers g @ [i]\<rparr>) (FAsleep p) else Running g (FCheck p)]"
| "fb_step sp i g (FAsleep p) =
     map (\<lambda>ws. Running (g\<lparr>ph_sleepers := ws\<rparr>) (FCheck p)) (wait_returns sp i (ph_sleepers g))"
| "fb_step sp i g (FCheck p) = [if bphase g = p then Running g (FCallWait p) else Returned g (FLock DCas)]"
| "fb_step sp i g FPhLoad = [Running g (FPhStore (bphase g + 1))]"
| "fb_step sp i g (FPhStore v) = [Running (g\<lparr>bphase := v\<rparr>) FReadProc]"
| "fb_step sp i g FReadProc = [Running g (FToArrive (processes g))]"
| "fb_step sp i g (FToArrive v) = [Running (g\<lparr>to_arrive := v\<rparr>) FWakeAll]"
| "fb_step sp i g FWakeAll = [Running (g\<lparr>ph_sleepers := []\<rparr>) (FUnlockL DFetchSub)]"
| "fb_step sp i g (FUnlockL d) = map (\<lambda>x. case x of
       Running b d' \<Rightarrow> Running (g\<lparr>block := b\<rparr>) (FUnlockL d')
     | Returned b d' \<Rightarrow> Returned (g\<lparr>block := b\<rparr>) (FLock DCas)) (drepper_unlock i (block g) d)"

definition fut_barrier_init :: "nat \<Rightarrow> fut_barrier" where
  "fut_barrier_init n = \<lparr>block = \<lparr>dword = 0, dsleepers = []\<rparr>, bphase = 0, processes = of_nat n,
     to_arrive = of_nat n, ph_sleepers = []\<rparr>"

definition fut_barrier_prog :: "bool \<Rightarrow> nat \<Rightarrow> nat \<Rightarrow> (fut_barrier run_world, fb_pc run_pc) fj_prog" where
  "fut_barrier_prog spurious n phases = run_prog (fb_step spurious) (FLock DCas) (fut_barrier_init n) n phases"

subsection \<open>The mutex inside the barrier\<close>

fun fb_phase :: "fb_pc spot \<Rightarrow> phase" where
  "fb_phase (Inside c (FLock d)) = Try"
| "fb_phase (Inside c (FUnlockW p d)) = Rel"
| "fb_phase (Inside c (FUnlockL d)) = Rel"
| "fb_phase (Inside c (FCallWait p)) = Out"
| "fb_phase (Inside c (FAsleep p)) = Out"
| "fb_phase (Inside c (FCheck p)) = Out"
| "fb_phase (Inside c l) = Crit"
| "fb_phase (Outside c) = Out"

fun fb_lock_pc :: "fb_pc spot \<Rightarrow> drepper_pc" where
  "fb_lock_pc (Inside c (FLock d)) = d"
| "fb_lock_pc (Inside c (FUnlockW p d)) = d"
| "fb_lock_pc (Inside c (FUnlockL d)) = d"
| "fb_lock_pc x = DIdle"

definition lock_part :: "fut_barrier \<Rightarrow> (tid \<Rightarrow> fb_pc spot) \<Rightarrow> drepper_state" where
  "lock_part g at = \<lparr>shared = block g, phase_of = (\<lambda>i. fb_phase (at i)), local_of = (\<lambda>i. fb_lock_pc (at i)), calls = 0\<rparr>"

lemma lock_part_simps [simp]:
  "shared (lock_part g at) = block g" "phase_of (lock_part g at) i = fb_phase (at i)"
  "local_of (lock_part g at) i = fb_lock_pc (at i)"
  by (simp_all add: lock_part_def)

lemma lock_part_move: "lock_part g' (at(i := x)) = move i (fb_phase x) (block g') (fb_lock_pc x) (lock_part g at)"
  by (auto simp: lock_part_def move_def)

lemma lock_part_same:
  "block g' = block g \<Longrightarrow> fb_phase x = fb_phase (at i) \<Longrightarrow> fb_lock_pc x = fb_lock_pc (at i) \<Longrightarrow>
    lock_part g' (at(i := x)) = lock_part g at"
  by (auto simp: lock_part_def)

lemma drepper_lock_returned: "Returned b d \<in> set (drepper_lock sp i g l) \<Longrightarrow> d = DIdle"
  by (auto simp: drepper_lock_def split: drepper_pc.splits if_splits)

lemma drepper_unlock_returned: "Returned b d \<in> set (drepper_unlock i g l) \<Longrightarrow> d = DIdle"
  by (auto simp: drepper_unlock_def split: drepper_pc.splits if_splits)

text \<open>The steps of the mutex inside the barrier's.\<close>

lemma fb_lock_cases [consumes 1, case_names runs returns]:
  assumes "Running g' l' \<in> set (fb_step sp i g (FLock d))"
  obtains b d' where "Running b d' \<in> set (drepper_lock sp i (block g) d)" "g' = g\<lparr>block := b\<rparr>" "l' = FLock d'"
    | b where "Returned b DIdle \<in> set (drepper_lock sp i (block g) d)" "g' = g\<lparr>block := b\<rparr>" "l' = FLoad"
  using assms drepper_lock_returned by (auto split: outcome.splits) metis+

lemma fb_unlock_cases [consumes 1, case_names runs returns]:
  assumes "Running g' l' \<in> set (fb_step sp i g (FUnlockW p d))"
  obtains b d' where "Running b d' \<in> set (drepper_unlock i (block g) d)" "g' = g\<lparr>block := b\<rparr>" "l' = FUnlockW p d'"
    | b where "Returned b DIdle \<in> set (drepper_unlock i (block g) d)" "g' = g\<lparr>block := b\<rparr>" "l' = FCallWait p"
  using assms drepper_unlock_returned by (auto split: outcome.splits) metis+

lemma fb_unlock_last_cases:
  assumes "Running g' l' \<in> set (fb_step sp i g (FUnlockL d))"
  obtains b d' where "Running b d' \<in> set (drepper_unlock i (block g) d)" "g' = g\<lparr>block := b\<rparr>" "l' = FUnlockL d'"
  using assms by (auto split: outcome.splits)

lemma fb_returns:
  assumes "Returned g' l' \<in> set (fb_step sp i g l)"
  obtains p where "l = FCheck p" "bphase g \<noteq> p" "g' = g"
    | b d where "l = FUnlockL d" "Returned b DIdle \<in> set (drepper_unlock i (block g) d)" "g' = g\<lparr>block := b\<rparr>"
  using assms drepper_unlock_returned by (cases l) (auto split: outcome.splits if_splits, metis+)

text \<open>Every step of the barrier is a step of the lock system, or none.\<close>

lemma fb_lock_runs:
  assumes inv: "drepper_inv n (lock_part g at)" and i: "i < n" and at: "at i = Inside c l"
    and step: "Running g' l' \<in> set (fb_step sp i g l)"
  shows "drepper_inv n (lock_part g' (at(i := Inside c l')))"
proof -
  note act = drepper_act [OF inv, of sp] and part = lock_part_move [where at = at and i = i and g = g]
  have inner: "drepper_inv n (move i (fb_phase (at i)) b d' (lock_part g at))"
    if "fb_phase (at i) = Try \<and> Running b d' \<in> set (drepper_lock sp i (block g) (fb_lock_pc (at i))) \<or>
      fb_phase (at i) = Rel \<and> Running b d' \<in> set (drepper_unlock i (block g) (fb_lock_pc (at i)))" for b d'
    using that i lock_act.lock_runs [of i n "lock_part g at" b d' "drepper_impl sp"]
      lock_act.unlock_runs [of i n "lock_part g at" b d' "drepper_impl sp"]
    by (auto simp: drepper_impl_def intro!: act)
  show ?thesis
  proof (cases l)
    case (FLock d)
    from step [unfolded FLock] show ?thesis
    proof (cases rule: fb_lock_cases)
      case (runs b d')
      then show ?thesis using inner FLock at by (simp add: part)
    next
      case (returns b)
      have "lock_act (drepper_impl sp) n (lock_part g at) (move i Crit b DIdle (lock_part g at))"
        by (rule lock_act.lock_returns) (use i at FLock returns in \<open>simp_all add: drepper_impl_def\<close>)
      then show ?thesis using returns act by (simp add: part)
    qed
  next
    case (FUnlockW p d)
    from step [unfolded FUnlockW] show ?thesis
    proof (cases rule: fb_unlock_cases)
      case (returns b)
      have "lock_act (drepper_impl sp) n (lock_part g at) (move i Out b DIdle (lock_part g at))"
        by (rule lock_act.unlock_returns) (use i at FUnlockW returns in \<open>simp_all add: drepper_impl_def\<close>)
      then show ?thesis using returns act by (simp add: part)
    qed (use inner FUnlockW at in \<open>simp add: part\<close>)
  next
    case (FUnlockL d)
    from step [unfolded FUnlockL] show ?thesis
      by (rule fb_unlock_last_cases) (use inner FUnlockL at in \<open>simp add: part\<close>)
  next
    case FReadPhase
    have "lock_act (drepper_impl sp) n (lock_part g at) (move i Rel (block g) DFetchSub (lock_part g at))"
      using lock_act.unlock_called [of i n "lock_part g at" "drepper_impl sp"] i at FReadPhase
      by (simp add: drepper_impl_def)
    then show ?thesis using act step FReadPhase by (simp add: part)
  next
    case FWakeAll
    have "lock_act (drepper_impl sp) n (lock_part g at) (move i Rel (block g) DFetchSub (lock_part g at))"
      using lock_act.unlock_called [of i n "lock_part g at" "drepper_impl sp"] i at FWakeAll
      by (simp add: drepper_impl_def)
    then show ?thesis using act step FWakeAll by (simp add: part)
  qed (use step at inv in \<open>auto simp: lock_part_same split: if_splits\<close>)
qed

lemma fb_lock_leaves:
  assumes inv: "drepper_inv n (lock_part g at)" and i: "i < n" and at: "at i = Inside c l"
    and step: "Returned g' l' \<in> set (fb_step sp i g l)"
  shows "drepper_inv n (lock_part g' (at(i := Outside (Suc c))))"
  using step
proof (cases rule: fb_returns)
  case (1 p)
  then show ?thesis using inv at by (simp add: lock_part_same)
next
  case (2 b d)
  have "lock_act (drepper_impl sp) n (lock_part g at) (move i Out b DIdle (lock_part g at))"
    by (rule lock_act.unlock_returns) (use i at 2 in \<open>simp_all add: drepper_impl_def\<close>)
  then show ?thesis using 2 drepper_act [OF inv] by (simp add: lock_part_move [where at = at and i = i and g = g])
qed

lemma fb_lock_enters:
  assumes inv: "drepper_inv n (lock_part g at)" and i: "i < n" and at: "at i = Outside c"
  shows "drepper_inv n (lock_part g (at(i := Inside c (FLock DCas))))"
proof -
  have "(move i Try (block g) DCas (lock_part g at))\<lparr>calls := 0\<rparr> = lock_part g (at(i := Inside c (FLock DCas)))"
    by (auto simp: move_def lock_part_def)
  then show ?thesis using drepper_call [OF inv i, where c = 0] at by (simp add: drepper_impl_def)
qed

subsection \<open>The invariant\<close>

text \<open>
  A thread is counted from the store of \<open>to_arrive\<close> on, as long as the phase it has noted is the
  phase; \<open>D\<close> holds from the store of the new phase to the store that counts from the start again.
\<close>

fun fb_noted :: "fb_pc \<Rightarrow> u32 option" where
  "fb_noted (FUnlockW p d) = Some p"
| "fb_noted (FCallWait p) = Some p"
| "fb_noted (FAsleep p) = Some p"
| "fb_noted (FCheck p) = Some p"
| "fb_noted l = None"

fun fb_last :: "fb_pc \<Rightarrow> bool" where
  "fb_last (FPhStore v) = True"
| "fb_last l = (l = FTest \<or> l = FReadPhase \<or> l = FPhLoad)"

fun fb_waker :: "fb_pc \<Rightarrow> bool" where
  "fb_waker (FToArrive v) = True"
| "fb_waker l = (l = FReadProc \<or> l = FWakeAll)"

fun fb_counted :: "u32 \<Rightarrow> fb_pc spot \<Rightarrow> bool" where
  "fb_counted ph (Inside c l) = (fb_last l \<or> fb_noted l = Some ph)"
| "fb_counted ph (Outside c) = False"

fun fb_passed :: "u32 \<Rightarrow> fb_pc \<Rightarrow> bool" where
  "fb_passed ph (FUnlockL d) = True"
| "fb_passed ph l = (fb_waker l \<or> (fb_noted l \<noteq> None \<and> fb_noted l \<noteq> Some ph))"

fun fb_through :: "u32 \<Rightarrow> fb_pc spot \<Rightarrow> nat" where
  "fb_through ph (Inside c l) = (if fb_passed ph l then Suc c else c)"
| "fb_through ph (Outside c) = c"

text \<open>What the thread that has the mutex knows, \<open>a\<close> threads being counted.\<close>

fun fb_knows :: "nat \<Rightarrow> bool \<Rightarrow> nat \<Rightarrow> fut_barrier \<Rightarrow> fb_pc spot \<Rightarrow> bool" where
  "fb_knows n D a g (Outside c) = True"
| "fb_knows n D a g (Inside c (FStore v)) = (\<not> D \<and> a < n \<and> v = to_arrive g - 1)"
| "fb_knows n D a g (Inside c FTest) = (\<not> D)"
| "fb_knows n D a g (Inside c FPhLoad) = (\<not> D \<and> a = n)"
| "fb_knows n D a g (Inside c (FPhStore v)) = (\<not> D \<and> a = n \<and> v = bphase g + 1)"
| "fb_knows n D a g (Inside c FReadProc) = D"
| "fb_knows n D a g (Inside c (FToArrive v)) = (D \<and> v = processes g)"
| "fb_knows n D a g (Inside c l) = (l \<in> {FLoad, FReadPhase, FWakeAll} \<longrightarrow> \<not> D \<and> a < n)"

definition fb_set :: "nat \<Rightarrow> fut_barrier \<Rightarrow> (tid \<Rightarrow> fb_pc spot) \<Rightarrow> tid set" where
  "fb_set n g at = where_at n (fb_counted (bphase g)) at"

definition fb_at :: "nat \<Rightarrow> nat \<Rightarrow> bool \<Rightarrow> fut_barrier \<Rightarrow> (tid \<Rightarrow> fb_pc spot) \<Rightarrow> bool" where
  "fb_at n G D g at \<longleftrightarrow>
     drepper_inv n (lock_part g at) \<and> processes g = of_nat n \<and>
     (D \<longrightarrow> fb_set n g at = {}) \<and> (\<not> D \<longrightarrow> of_nat n - to_arrive g = of_nat (card (fb_set n g at))) \<and>
     (0 < n \<and> (\<forall>i<n. fb_phase (at i) \<noteq> Crit) \<longrightarrow> \<not> D \<and> card (fb_set n g at) < n) \<and>
     (\<forall>i \<in> set (ph_sleepers g). i < n \<and> (\<exists>c p. at i = Inside c (FAsleep p) \<and>
        (p = bphase g \<or> (\<exists>k<n. \<exists>c l. at k = Inside c l \<and> fb_waker l)))) \<and>
     (\<forall>i<n. fb_knows n D (card (fb_set n g at)) g (at i)) \<and>
     (\<forall>i<n. fb_through (bphase g) (at i) = G)"

definition fb_inv :: "nat \<Rightarrow> fut_barrier \<Rightarrow> (tid \<Rightarrow> fb_pc spot) \<Rightarrow> bool" where
  "fb_inv n g at \<longleftrightarrow> (\<exists>G D. fb_at n G D g at)"

lemma fb_knows_idle: "fb_phase x \<noteq> Crit \<Longrightarrow> fb_knows n D a g x"
  by (cases "(n, D, a, g, x)" rule: fb_knows.cases) auto

lemma fb_alone:
  assumes "drepper_inv n (lock_part g at)" "i < n" "j < n" "fb_phase (at i) = Crit" "fb_phase (at j) = Crit"
  shows "i = j"
  using drepper_mutex [OF assms(1-3)] assms(4,5) by simp

text \<open>A step of one thread that leaves the phase and \<open>D\<close> alone.\<close>

lemma fb_move:
  assumes s: "fb_at n G D g at" and i: "i < n" and lock: "drepper_inv n (lock_part g' (at(i := x)))"
    and same: "bphase g' = bphase g" "processes g' = processes g"
    and mine: "fb_phase (at i) = Crit \<or> fb_phase x = Crit \<or> a = card (fb_set n g at) \<and> to_arrive g' = to_arrive g"
    and sleep: "set (ph_sleepers g') \<subseteq> insert i (set (ph_sleepers g))"
    and me: "i \<in> set (ph_sleepers g') \<Longrightarrow> \<exists>c. x = Inside c (FAsleep (bphase g))"
    and wakes: "\<And>c l. at i = Inside c l \<Longrightarrow> fb_waker l \<Longrightarrow> ph_sleepers g' = [] \<or> (\<exists>c l. x = Inside c l \<and> fb_waker l)"
    and count: "fb_counted (bphase g) x = fb_counted (bphase g) (at i) \<and> to_arrive g' = to_arrive g \<or>
      fb_counted (bphase g) x \<and> \<not> fb_counted (bphase g) (at i) \<and> \<not> D \<and> to_arrive g' = to_arrive g - 1"
    and a: "a = card (fb_set n g' (at(i := x)))"
    and free: "fb_phase (at i) = Crit \<Longrightarrow> fb_phase x \<noteq> Crit \<Longrightarrow> \<not> D \<and> a < n"
    and knows: "fb_knows n D a g' x" and through: "fb_through (bphase g) x = G"
  shows "fb_at n G D g' (at(i := x))"
proof -
  have old: "drepper_inv n (lock_part g at)" using s by (simp add: fb_at_def)
  have fixed: "fb_knows n D b g' y = fb_knows n D b g y" if "to_arrive g' = to_arrive g" for b y
    using that same by (cases "(n, D, b, g, y)" rule: fb_knows.cases) auto
  have "of_nat n - to_arrive g' = of_nat a" if D: "\<not> D"
    unfolding a fb_set_def same
    by (rule count_at [where at = at and Q = "fb_counted (bphase g)" and w = "of_nat n - to_arrive g"])
      (use s i count D in \<open>auto simp: fb_at_def fb_set_def\<close>)
  moreover have "fb_set n g' (at(i := x)) = {}" if D: "D"
  proof -
    have "fb_counted (bphase g) x = fb_counted (bphase g) (at i)" using count D by blast
    then show ?thesis using s D where_at_same [of "fb_counted (bphase g)" x at i n]
      by (simp add: fb_at_def fb_set_def same)
  qed
  moreover have "fb_knows n D a g' ((at(i := x)) j)" if j: "j < n" for j
  proof (cases "j = i \<or> fb_phase (at j) \<noteq> Crit")
    case True
    then show ?thesis using knows fb_knows_idle [of "at j"] by auto
  next
    case False
    then have "fb_phase (at i) \<noteq> Crit" "fb_phase x \<noteq> Crit"
      using fb_alone [OF old i j] fb_alone [OF lock i j] by auto
    then have "a = card (fb_set n g at)" "to_arrive g' = to_arrive g" using mine by blast+
    then show ?thesis using False s j fixed by (simp add: fb_at_def)
  qed
  moreover have "j < n \<and> (\<exists>c p. (at(i := x)) j = Inside c (FAsleep p) \<and>
      (p = bphase g \<or> (\<exists>k<n. \<exists>c l. (at(i := x)) k = Inside c l \<and> fb_waker l)))"
    if j: "j \<in> set (ph_sleepers g')" for j
  proof (cases "j = i")
    case True
    then show ?thesis using me i j by auto
  next
    case False
    then have "j \<in> set (ph_sleepers g)" using j sleep by blast
    then obtain c p where cp: "j < n" "at j = Inside c (FAsleep p)"
      "p = bphase g \<or> (\<exists>k<n. \<exists>c l. at k = Inside c l \<and> fb_waker l)"
      using s unfolding fb_at_def by blast
    have w: "\<exists>k<n. \<exists>c l. (at(i := x)) k = Inside c l \<and> fb_waker l" if "k < n" "at k = Inside c l" "fb_waker l" for k c l
    proof (cases "k = i")
      case True
      then show ?thesis using wakes that j i by (metis fun_upd_same empty_iff list.set(1))
    qed (use that in auto)
    show ?thesis unfolding fun_upd_other [OF False] using cp w by blast
  qed
  moreover have "\<not> D \<and> a < n" if n: "0 < n" and none: "\<forall>j<n. fb_phase ((at(i := x)) j) \<noteq> Crit"
  proof (cases "fb_phase (at i) = Crit")
    case True
    then show ?thesis using free none i by auto
  next
    case False
    have "fb_phase x \<noteq> Crit" using none i by auto
    then have "a = card (fb_set n g at)" using mine False by blast
    moreover have "fb_phase (at j) \<noteq> Crit" if "j < n" for j using none False that by (cases "j = i") auto
    ultimately show ?thesis using s n by (simp add: fb_at_def)
  qed
  moreover have "fb_through (bphase g) ((at(i := x)) j) = G" if "j < n" for j
    using s through that by (auto simp: fb_at_def)
  ultimately show ?thesis using s lock unfolding fb_at_def a [symmetric] same by blast
qed

lemma fb_keep:
  assumes s: "fb_at n G D g at" and i: "i < n" and lock: "drepper_inv n (lock_part g' (at(i := x)))"
    and same: "bphase g' = bphase g" "processes g' = processes g" "to_arrive g' = to_arrive g"
    and sleep: "set (ph_sleepers g') \<subseteq> set (ph_sleepers g)" "i \<notin> set (ph_sleepers g')"
    and wakes: "\<And>c l. at i = Inside c l \<Longrightarrow> fb_waker l \<Longrightarrow> ph_sleepers g' = [] \<or> (\<exists>c l. x = Inside c l \<and> fb_waker l)"
    and count: "fb_counted (bphase g) x = fb_counted (bphase g) (at i)"
    and free: "fb_phase (at i) = Crit \<Longrightarrow> fb_phase x \<noteq> Crit \<Longrightarrow> \<not> D \<and> card (fb_set n g at) < n"
    and knows: "fb_knows n D (card (fb_set n g at)) g' x"
    and through: "fb_through (bphase g) x = fb_through (bphase g) (at i)"
  shows "fb_at n G D g' (at(i := x))"
proof (rule fb_move [OF s i lock same(1,2)])
  show "card (fb_set n g at) = card (fb_set n g' (at(i := x)))"
    using count same by (simp add: fb_set_def where_at_same)
  show "fb_through (bphase g) x = G" using through s i by (simp add: fb_at_def)
qed (use assms in auto)

lemma fb_facts:
  assumes s: "fb_at n G D g at" and i: "i < n"
  shows "fb_knows n D (card (fb_set n g at)) g (at i)"
    and "fb_through (bphase g) (at i) = G"
    and "\<not> D \<Longrightarrow> of_nat n - to_arrive g = of_nat (card (fb_set n g at))"
    and "at i = Inside c l \<Longrightarrow> \<forall>p. l \<noteq> FAsleep p \<Longrightarrow> i \<notin> set (ph_sleepers g)"
    and "at i = Outside c \<Longrightarrow> i \<notin> set (ph_sleepers g)"
    and "drepper_inv n (lock_part g at)"
proof -
  show "fb_knows n D (card (fb_set n g at)) g (at i)" "fb_through (bphase g) (at i) = G"
    "\<not> D \<Longrightarrow> of_nat n - to_arrive g = of_nat (card (fb_set n g at))" "drepper_inv n (lock_part g at)"
    using s i unfolding fb_at_def by blast+
  have "\<exists>c p. at i = Inside c (FAsleep p)" if "i \<in> set (ph_sleepers g)"
    using s that unfolding fb_at_def by blast
  then show "at i = Inside c l \<Longrightarrow> \<forall>p. l \<noteq> FAsleep p \<Longrightarrow> i \<notin> set (ph_sleepers g)"
    "at i = Outside c \<Longrightarrow> i \<notin> set (ph_sleepers g)"
    by auto
qed

lemma fb_free:
  assumes s: "fb_at n G D g at" and i: "i < n" and "fb_phase (at i) \<noteq> Crit" "fb_phase x = Crit"
    and lock: "drepper_inv n (lock_part g' (at(i := x)))"
  shows "\<not> D \<and> card (fb_set n g at) < n"
proof -
  have "fb_phase (at j) \<noteq> Crit" if "j < n" for j
    using fb_alone [OF lock i that] assms(3,4) by (cases "j = i") auto
  moreover have "0 < n" using i by simp
  ultimately show ?thesis using s unfolding fb_at_def by blast
qed

text \<open>The last to arrive advances the phase: everybody is counted, and nobody is from then on.\<close>

lemma fb_advances:
  assumes s: "fb_at n G D g at" and i: "i < n" and at: "at i = Inside c (FPhStore v)"
  shows "fb_at n (Suc G) True (g\<lparr>bphase := v\<rparr>) (at(i := Inside c FReadProc))"
proof -
  let ?at = "at(i := Inside c FReadProc)"
  have know: "fb_knows n D (card (fb_set n g at)) g (Inside c (FPhStore v))" using fb_facts(1) [OF s i] at by metis
  then have D: "\<not> D" and full: "card (fb_set n g at) = n" and v: "v = bphase g + 1"
    unfolding fb_knows.simps by blast+
  have lock: "drepper_inv n (lock_part g at)" by (rule fb_facts(6) [OF s i])
  have all: "fb_counted (bphase g) (at j)" if "j < n" for j
    by (rule where_at_full [OF full [unfolded fb_set_def] that])
  have others: "\<exists>d l. at j = Inside d l \<and> fb_noted l = Some (bphase g) \<and> d = G" if j: "j < n" "j \<noteq> i" for j
  proof -
    have "fb_phase (at j) \<noteq> Crit" using fb_alone [OF lock i j(1)] j(2) at by auto
    then have "\<exists>d l. at j = Inside d l \<and> fb_noted l = Some (bphase g)"
      using all [OF j(1)] by (cases "at j" rule: fb_phase.cases) auto
    then obtain d l where dl: "at j = Inside d l" "fb_noted l = Some (bphase g)" by blast
    then have "\<not> fb_passed (bphase g) l" by (cases l) auto
    then show ?thesis using dl fb_facts(2) [OF s j(1)] by simp
  qed
  have "v \<noteq> bphase g" using v by simp
  have "\<not> fb_counted v (?at j) \<and> fb_through v (?at j) = Suc G \<and> fb_knows n True 0 (g\<lparr>bphase := v\<rparr>) (?at j)" if j: "j < n" for j
  proof (cases "j = i")
    case True
    then show ?thesis using fb_facts(2) [OF s i] at by simp
  next
    case False
    obtain d l where dl: "at j = Inside d l" "fb_noted l = Some (bphase g)" "d = G" using others [OF j False] by blast
    then have "\<not> fb_last l" "fb_passed v l" "fb_phase (Inside d l) \<noteq> Crit" using \<open>v \<noteq> bphase g\<close> by (cases l; simp)+
    then show ?thesis using dl False \<open>v \<noteq> bphase g\<close> fb_knows_idle by auto
  qed note each = this
  have empty: "fb_set n (g\<lparr>bphase := v\<rparr>) ?at = {}" using each by (auto simp: fb_set_def where_at_def)
  have "j < n \<and> (\<exists>d p. ?at j = Inside d (FAsleep p))" if "j \<in> set (ph_sleepers g)" for j
    using s that at unfolding fb_at_def by (metis fb_pc.distinct fun_upd_other spot.inject(2))
  moreover have "\<exists>k<n. \<exists>c l. ?at k = Inside c l \<and> fb_waker l" using i by (intro exI [of _ i]) simp
  moreover have "lock_part (g\<lparr>bphase := v\<rparr>) ?at = lock_part g at" using at by (intro lock_part_same) auto
  moreover have "fb_phase (?at i) = Crit" by simp
  ultimately show ?thesis
    using s lock each empty i unfolding fb_at_def by (auto simp del: fun_upd_apply)
qed

lemma fb_resets:
  assumes s: "fb_at n G D g at" and i: "i < n" and at: "at i = Inside c (FToArrive v)"
  shows "fb_at n G False (g\<lparr>to_arrive := v\<rparr>) (at(i := Inside c FWakeAll))"
proof -
  let ?at = "at(i := Inside c FWakeAll)"
  have know: "fb_knows n D (card (fb_set n g at)) g (Inside c (FToArrive v))" using fb_facts(1) [OF s i] at by metis
  then have D: "D" and v: "v = processes g" unfolding fb_knows.simps by blast+
  have lock: "drepper_inv n (lock_part g at)" by (rule fb_facts(6) [OF s i])
  have "fb_set n (g\<lparr>to_arrive := v\<rparr>) ?at = fb_set n g at"
    using at by (simp add: fb_set_def where_at_same)
  then have empty: "fb_set n (g\<lparr>to_arrive := v\<rparr>) ?at = {}" using s D by (simp add: fb_at_def)
  have each: "fb_through (bphase g) (?at j) = G \<and> fb_knows n False 0 (g\<lparr>to_arrive := v\<rparr>) (?at j)" if j: "j < n" for j
  proof (cases "j = i")
    case True
    then show ?thesis using fb_facts(2) [OF s i] at i by simp
  next
    case False
    then have "fb_phase (at j) \<noteq> Crit" using fb_alone [OF lock i j] at by auto
    then show ?thesis using False fb_facts(2) [OF s j] fb_knows_idle by simp
  qed
  have "j < n \<and> (\<exists>d p. ?at j = Inside d (FAsleep p))" if "j \<in> set (ph_sleepers g)" for j
    using s that at unfolding fb_at_def by (metis fb_pc.distinct fun_upd_other spot.inject(2))
  moreover have "\<exists>k<n. \<exists>c l. ?at k = Inside c l \<and> fb_waker l" using i by (intro exI [of _ i]) simp
  moreover have "lock_part (g\<lparr>to_arrive := v\<rparr>) ?at = lock_part g at" using at by (intro lock_part_same) auto
  moreover have "processes g = of_nat n" using s by (simp add: fb_at_def)
  ultimately show ?thesis
    using v lock each empty i unfolding fb_at_def by (auto simp del: fun_upd_apply)
qed

lemma fb_run:
  assumes s: "fb_inv n g at" and i: "i < n" and at: "at i = Inside c l" and n: "n < 2 ^ 32"
    and step: "Running g' l' \<in> set (fb_step sp i g l)"
  shows "fb_inv n g' (at(i := Inside c l'))"
proof -
  from s obtain G D where s: "fb_at n G D g at" by (auto simp: fb_inv_def)
  let ?a = "card (fb_set n g at)"
  note facts = fb_facts [OF s i]
  have lock: "drepper_inv n (lock_part g' (at(i := Inside c l')))" by (rule fb_lock_runs [OF facts(6) i at step])
  note keep = fb_keep [OF s i lock] and move = fb_move [OF s i lock] and free = fb_free [OF s i _ _ lock]
  have know: "fb_knows n D ?a g (Inside c l)" using facts(1) at by metis
  have "fb_at n G D g' (at(i := Inside c l')) \<or> (\<exists>G D. fb_at n G D g' (at(i := Inside c l')))"
  proof (cases l)
    case (FLock d)
    from step [unfolded FLock] show ?thesis
      by (cases rule: fb_lock_cases) (use FLock at facts(4) free in \<open>(intro disjI1 keep; simp)+\<close>)
  next
    case FLoad
    then show ?thesis using step at facts(4) know by (intro disjI1 [OF keep]) auto
  next
    case (FStore v)
    then show ?thesis
      using step at facts(2,4) know by (intro disjI1 [OF move [OF _ _ _ _ _ _ _ refl]]) auto
  next
    case FTest
    then have D: "\<not> D" using know by simp
    have le: "?a \<le> n" unfolding fb_set_def by (rule where_at_card)
    have "to_arrive g = of_nat n - of_nat ?a" using facts(3) [OF D] by (simp add: algebra_simps)
    also have "\<dots> = of_nat (n - ?a)" using le by (simp add: of_nat_diff)
    finally have t: "to_arrive g = of_nat (n - ?a)" .
    have "unat (to_arrive g) = n - ?a" unfolding t using n by (simp add: unat_of_nat)
    then have "to_arrive g > 0 \<longleftrightarrow> ?a < n" by (simp add: word_less_nat_alt)
    then show ?thesis using FTest step at facts(4) D le by (intro disjI1 [OF keep]) (auto split: if_splits)
  next
    case FReadPhase
    then show ?thesis using step at facts(4) know by (intro disjI1 [OF keep]) auto
  next
    case (FUnlockW p d)
    from step [unfolded FUnlockW] show ?thesis
      by (cases rule: fb_unlock_cases) (use FUnlockW at facts(4) in \<open>(intro disjI1 keep; simp)+\<close>)
  next
    case (FCallWait p)
    show ?thesis
    proof (cases "bphase g = p")
      case True
      then have x: "g' = g\<lparr>ph_sleepers := ph_sleepers g @ [i]\<rparr>" "l' = FAsleep p" using FCallWait step by auto
      have "fb_set n g' (at(i := Inside c l')) = fb_set n g at"
        using x at FCallWait by (simp add: fb_set_def where_at_same)
      then show ?thesis
        using True x at FCallWait facts(2) by (intro disjI1 [OF move [where a = ?a]]) auto
    next
      case False
      then show ?thesis using FCallWait step at facts(4) by (intro disjI1 [OF keep]) auto
    qed
  next
    case (FAsleep p)
    then obtain ws where "g' = g\<lparr>ph_sleepers := ws\<rparr>" "l' = FCheck p" "ws = removeAll i (ph_sleepers g)"
      using step by (auto dest: wait_returns_cases)
    then show ?thesis using FAsleep at by (intro disjI1 [OF keep]) auto
  next
    case (FCheck p)
    then show ?thesis using step at facts(4) by (intro disjI1 [OF keep]) (auto split: if_splits)
  next
    case FPhLoad
    then show ?thesis using step at facts(4) know by (intro disjI1 [OF keep]) auto
  next
    case (FPhStore v)
    then show ?thesis using step fb_advances [OF s i] at by auto
  next
    case FReadProc
    then show ?thesis using step at facts(4) know by (intro disjI1 [OF keep]) auto
  next
    case (FToArrive v)
    then show ?thesis using step fb_resets [OF s i] at by auto
  next
    case FWakeAll
    then show ?thesis using step at facts(4) know by (intro disjI1 [OF keep]) auto
  next
    case (FUnlockL d)
    from step [unfolded FUnlockL] show ?thesis
      by (rule fb_unlock_last_cases) (use FUnlockL at facts(4) in \<open>(intro disjI1 keep; simp)\<close>)
  qed
  then show ?thesis by (auto simp: fb_inv_def)
qed

lemma fb_leave:
  assumes s: "fb_inv n g at" and i: "i < n" and at: "at i = Inside c l"
    and step: "Returned g' l' \<in> set (fb_step sp i g l)"
  shows "fb_inv n g' (at(i := Outside (Suc c)))"
proof -
  from s obtain G D where s: "fb_at n G D g at" by (auto simp: fb_inv_def)
  note facts = fb_facts [OF s i]
  have lock: "drepper_inv n (lock_part g' (at(i := Outside (Suc c))))"
    by (rule fb_lock_leaves [OF facts(6) i at step])
  from step have "fb_at n G D g' (at(i := Outside (Suc c)))"
    by (cases rule: fb_returns) (use at facts(4) in \<open>(intro fb_keep [OF s i lock]; force)+\<close>)
  then show ?thesis by (auto simp: fb_inv_def)
qed

lemma fb_enter:
  assumes s: "fb_inv n g at" and i: "i < n" and at: "at i = Outside c"
  shows "fb_inv n g (at(i := Inside c (FLock DCas)))"
proof -
  from s obtain G D where s: "fb_at n G D g at" by (auto simp: fb_inv_def)
  note facts = fb_facts [OF s i]
  have "fb_at n G D g (at(i := Inside c (FLock DCas)))"
    by (rule fb_keep [OF s i fb_lock_enters [OF facts(6) i at]]) (use at facts(5) in auto)
  then show ?thesis by (auto simp: fb_inv_def)
qed

lemma fb_start: "fb_inv n (fut_barrier_init n) (\<lambda>_. Outside 0)"
proof -
  have "lock_part (fut_barrier_init n) (\<lambda>_. Outside 0) = lock_init \<lparr>dword = 0, dsleepers = []\<rparr> (\<lambda>_. DIdle)"
    by (simp add: lock_part_def lock_init_def fut_barrier_init_def)
  then have "drepper_inv n (lock_part (fut_barrier_init n) (\<lambda>_. Outside 0))" using drepper_init by metis
  then have "fb_at n 0 False (fut_barrier_init n) (\<lambda>_. Outside 0)"
    by (simp add: fb_at_def fb_set_def where_at_def fut_barrier_init_def)
  then show ?thesis by (auto simp: fb_inv_def)
qed

lemma fb_apart:
  assumes s: "fb_inv n g at" and "i < n" "j < n"
  shows "returned (at i) \<le> entered (at j)"
proof -
  from s obtain G D where s: "fb_at n G D g at" by (auto simp: fb_inv_def)
  have "returned x \<le> fb_through p x" "fb_through p x \<le> entered x" for p x by (cases x; simp)+
  then show ?thesis using fb_facts(2) [OF s assms(2)] fb_facts(2) [OF s assms(3)] by (metis le_trans)
qed

subsection \<open>Progress\<close>

fun fb_rank :: "fb_pc \<Rightarrow> nat" where
  "fb_rank (FLock d) = 30 + drepper_rank d" | "fb_rank FLoad = 29" | "fb_rank (FStore v) = 28"
| "fb_rank FTest = 27" | "fb_rank FReadPhase = 26" | "fb_rank FPhLoad = 26" | "fb_rank (FPhStore v) = 25"
| "fb_rank FReadProc = 24" | "fb_rank (FToArrive v) = 23" | "fb_rank FWakeAll = 22"
| "fb_rank (FUnlockW p d) = 10 + drepper_rank d" | "fb_rank (FUnlockL d) = 10 + drepper_rank d"
| "fb_rank (FCallWait p) = 5" | "fb_rank (FAsleep p) = 4" | "fb_rank (FCheck p) = 3"

definition fb_can :: "tid \<Rightarrow> fut_barrier \<Rightarrow> fb_pc \<Rightarrow> bool" where
  "fb_can k g l \<longleftrightarrow> (\<exists>g' l'. Returned g' l' \<in> set (fb_step False k g l)) \<or>
     (\<exists>g' l'. Running g' l' \<in> set (fb_step False k g l) \<and> fb_rank l' < fb_rank l)"

lemma fb_can_crit: "fb_phase (Inside c l) = Crit \<Longrightarrow> fb_can k g l"
  by (cases l) (auto simp: fb_can_def)

lemma fb_can_lock:
  assumes "(\<exists>b l. Returned b l \<in> set (drepper_lock False k (block g) d)) \<or>
    (\<exists>b l. Running b l \<in> set (drepper_lock False k (block g) d) \<and> drepper_rank l < drepper_rank d)"
  shows "fb_can k g (FLock d)"
  using assms by (force simp: fb_can_def image_iff)

lemma fb_can_unlock:
  assumes "(\<exists>b l. Returned b l \<in> set (drepper_unlock k (block g) d)) \<or>
    (\<exists>b l. Running b l \<in> set (drepper_unlock k (block g) d) \<and> drepper_rank l < drepper_rank d)"
  shows "fb_can k g (FUnlockL d)" "fb_can k g (FUnlockW p d)"
  using assms by (force simp: fb_can_def image_iff)+

lemma fb_can_wait:
  "fb_noted l = Some p \<Longrightarrow> fb_phase (Inside c l) = Out \<Longrightarrow> k \<notin> set (ph_sleepers g) \<Longrightarrow> p \<noteq> bphase g \<Longrightarrow> fb_can k g l"
  by (cases l) (auto simp: fb_can_def wait_returns_def)

text \<open>
  A thread inside the mutex's \<open>lock\<close> or past it can move, or the mutex lets another move. With
  nobody there, fewer than all are counted, and one inside that is not counted goes on.
\<close>

lemma fb_someone:
  assumes s: "fb_inv n g at" and all: "\<forall>j<n. (\<exists>c l. at j = Inside c l \<and> c < T) \<or> at j = Outside T"
    and i: "i < n" "at i \<noteq> Outside T"
  shows "\<exists>k<n. \<exists>c l. at k = Inside c l \<and> fb_can k g l"
proof -
  from s obtain G D where s: "fb_at n G D g at" by (auto simp: fb_inv_def)
  have lock: "drepper_inv n (lock_part g at)" by (rule fb_facts(6) [OF s i(1)])
  show ?thesis
  proof (cases "\<exists>h<n. fb_phase (at h) \<noteq> Out")
    case True
    then obtain h where h: "h < n" "phase_of (lock_part g at) h \<noteq> Out" by auto
    show ?thesis
    proof (cases rule: drepper_mover [OF lock h, where spurious = False])
      case (1 k)
      then obtain c l where "at k = Inside c l" by (cases "at k") auto
      then show ?thesis using 1 fb_can_crit [of c l] by auto
    next
      case (2 k)
      then obtain c l where at: "at k = Inside c l" by (cases "at k") auto
      then have "(\<exists>p d. l = FUnlockW p d \<and> fb_lock_pc (at k) = d) \<or> (\<exists>d. l = FUnlockL d \<and> fb_lock_pc (at k) = d)"
        using 2(2) by (cases l) auto
      then have "fb_can k g l" using fb_can_unlock [OF 2(3) [unfolded lock_part_simps]] by auto
      then show ?thesis using 2(1) at by blast
    next
      case (3 k)
      then obtain c l where at: "at k = Inside c l" by (cases "at k") auto
      then have "\<exists>d. l = FLock d \<and> fb_lock_pc (at k) = d" using 3(2) by (cases l) auto
      then have "fb_can k g l" using fb_can_lock [OF 3(3) [unfolded lock_part_simps]] by auto
      then show ?thesis using 3(1) at by blast
    qed
  next
    case False
    have "0 < n" using i by simp
    then have few: "\<not> D" "card (fb_set n g at) < n" using s False unfolding fb_at_def by auto
    obtain k where k: "k < n" "\<not> fb_counted (bphase g) (at k)"
    proof -
      have "\<exists>k<n. \<not> fb_counted (bphase g) (at k)"
      proof (rule ccontr)
        assume "\<not> ?thesis"
        then have "fb_set n g at = {..<n}" by (auto simp: fb_set_def where_at_def)
        then show False using few(2) by simp
      qed
      then show ?thesis using that by blast
    qed
    have goes: "\<exists>c l. at j = Inside c l \<and> fb_can j g l"
      if j: "j < n" "at j = Inside c l" "\<not> fb_counted (bphase g) (at j)" for j c l
    proof -
      have out: "fb_phase (Inside c l) = Out" using False j by auto
      then obtain p where p: "fb_noted l = Some p" by (cases l) auto
      then have stale: "p \<noteq> bphase g" using j by auto
      have nobody: "\<not> (\<exists>k<n. \<exists>c l. at k = Inside c l \<and> fb_waker l)"
      proof
        assume "\<exists>k<n. \<exists>c l. at k = Inside c l \<and> fb_waker l"
        then obtain k c l where "k < n" "at k = Inside c l" "fb_waker l" by blast
        then show False using False by (cases l) force+
      qed
      have "j \<notin> set (ph_sleepers g)"
      proof
        assume "j \<in> set (ph_sleepers g)"
        then have "\<exists>c p. at j = Inside c (FAsleep p) \<and> p = bphase g" using s nobody unfolding fb_at_def by blast
        then show False using j(3) by auto
      qed
      then show ?thesis using fb_can_wait [OF p out] stale j(2) by blast
    qed
    show ?thesis
    proof (cases "at k = Outside T")
      case False
      then obtain c l where "at k = Inside c l" using all k(1) by blast
      then show ?thesis using goes k by blast
    next
      case True
      then have G: "G = T" using fb_facts(2) [OF s k(1)] by simp
      obtain c l where ci: "at i = Inside c l" "c < T" using all i by blast
      then have "fb_passed (bphase g) l" using fb_facts(2) [OF s i(1)] G by (auto split: if_splits)
      then have "\<not> fb_counted (bphase g) (at i)"
        using ci(1) False i(1) \<open>\<not> (\<exists>h<n. fb_phase (at h) \<noteq> Out)\<close> by (cases l) auto
      then show ?thesis using goes i(1) ci(1) by blast
    qed
  qed
qed

text \<open>Safety does not need the kernel to be well behaved.\<close>

lemma fut_barrier_safe:
  assumes n: "n < 2 ^ 32"
  shows "barrier_safe (fb_step sp) (FLock DCas) n T (fut_barrier_init n) (fb_inv n)"
proof unfold_locales
  show "fb_inv n (fut_barrier_init n) (\<lambda>_. Outside 0)" by (rule fb_start)
  show "fb_inv n g (at(i := Inside c (FLock DCas)))" if "fb_inv n g at" "i < n" "at i = Outside c" for g at i c
    using that by (rule fb_enter)
  show "fb_inv n g' (at(i := Inside c l'))"
    if "fb_inv n g at" "i < n" "at i = Inside c l" "Running g' l' \<in> set (fb_step sp i g l)"
    for g at i c l g' l'
    by (rule fb_run [OF that(1-3) n that(4)])
  show "fb_inv n g' (at(i := Outside (Suc c)))"
    if "fb_inv n g at" "i < n" "at i = Inside c l" "Returned g' l' \<in> set (fb_step sp i g l)"
    for g at i c l g' l'
    by (rule fb_leave [OF that])
  show "returned (at i) \<le> entered (at j)" if "fb_inv n g at" "i < n" "j < n" for g at i j
    using that by (rule fb_apart)
qed

lemma fut_barrier_live:
  assumes n: "n < 2 ^ 32"
  shows "barrier_live (fb_step False) (FLock DCas) n T (fut_barrier_init n) (fb_inv n)
    (\<lambda>g at. \<Sum>i<n. case at i of Inside c l \<Rightarrow> fb_rank l | Outside c \<Rightarrow> 0)"
proof (rule barrier_live.intro [OF fut_barrier_safe [OF n]], unfold_locales)
  fix g at i
  assume "fb_inv n g at" "\<forall>j<n. (\<exists>c l. at j = Inside c l \<and> c < T) \<or> at j = Outside T" "i < n" "at i \<noteq> Outside T"
  from fb_someone [OF this] obtain k c l where k: "k < n" "at k = Inside c l" and can: "fb_can k g l" by blast
  have "(\<Sum>j<n. case (at(k := Inside c l')) j of Inside c l \<Rightarrow> fb_rank l | Outside c \<Rightarrow> 0)
      < (\<Sum>j<n. case at j of Inside c l \<Rightarrow> fb_rank l | Outside c \<Rightarrow> 0)" if "fb_rank l' < fb_rank l" for l'
    using k that by (intro sum_update_less [of k]) auto
  with can [unfolded fb_can_def] show "\<exists>k<n. \<exists>c l. at k = Inside c l \<and>
      ((\<exists>g' l'. Returned g' l' \<in> set (fb_step False k g l)) \<or>
       (\<exists>g' l'. Running g' l' \<in> set (fb_step False k g l) \<and>
         (\<Sum>j<n. case (at(k := Inside c l')) j of Inside c l \<Rightarrow> fb_rank l | Outside c \<Rightarrow> 0)
           < (\<Sum>j<n. case at j of Inside c l \<Rightarrow> fb_rank l | Outside c \<Rightarrow> 0)))"
    using k by blast
qed

interpretation fut_barrier: barrier_live "fb_step False" "FLock DCas" 10 T "fut_barrier_init 10" "fb_inv 10"
    "\<lambda>g at. \<Sum>i<10. case at i of Inside c l \<Rightarrow> fb_rank l | Outside c \<Rightarrow> 0" for T
  using fut_barrier_live [of 10] by simp

subsection \<open>Properties\<close>

text \<open>The futex barrier is correct for every number of threads below \<open>2 ^ 32\<close> and of phases: it
  separates the phases, also when \<open>FUTEX_WAIT\<close> returns without a wake-up, since the phase is
  tested again, and without such returns every reachable state can finish: a thread that
  sleeps on a phase is woken or the phase is not over. The phase may wrap.\<close>

theorem fut_barrier_correct:
  assumes "n < 2 ^ 32"
  shows "barrier_correct phases (fut_barrier_prog False n phases) \<and> separates phases (fut_barrier_prog True n phases)"
  using barrier_live.run_correct [OF fut_barrier_live [OF assms, of "Suc phases"] refl]
    barrier_safe.run_separates [OF fut_barrier_safe [OF assms, where T = "Suc phases"] refl]
  by (simp add: fut_barrier_prog_def)

end
