(* ===== verification/Stacks.thy ===== *)
theory Stacks
  imports Fork_Join "HOL-Library.Multiset"
begin

section \<open>Concurrent stacks and the programs that test them\<close>

text \<open>
  \<open>hardware/stack_cas_freelist.c\<close>, \<open>stack_cas_tagged.c\<close> and \<open>arm/stack_llsc_freelist.c\<close> share their
  \<open>add_elements\<close>: a thread takes a node from the free list, or from \<open>malloc\<close> when it is empty,
  fills it in, pushes it on the stack, pops a node of the stack and pushes that one on the free
  list. Both lists are stacks of nodes linked through \<open>next\<close>, with the same \<open>push\<close> and \<open>pop\<close>, which
  the three programs implement each in its way.

  The memory is a map from addresses to nodes, and \<open>chain\<close> relates it to the list a head stands for.
  The locale \<open>stack_impl\<close> is the contract of an implementation: the step in which \<open>push\<close> or
  \<open>pop\<close> returns is the one that changes the head, as the operation on a list would, and the other
  steps write nothing but the \<open>next\<close> of the node being pushed. The client proves from it that no node is
  lost, shared or popped from an empty stack, and that every run can finish.
\<close>

type_synonym addr = nat

definition NULL :: addr where "NULL = 0"

record node =
  node_tid :: cint
  node_c :: cint
  next_of :: addr

datatype which = Stack | Free

lemma which_other [simp]: "h \<noteq> Free \<longleftrightarrow> h = Stack"
  by (cases h) auto

datatype stack_line = MallocLine tid | ErrorLine tid | EndLine tid

record 'h stack_world =
  heads :: 'h
  memory :: "addr \<Rightarrow> node"
  allocated :: "addr list"
  said :: "stack_line list"

text \<open>One step of a call of \<open>push\<close> or \<open>pop\<close>: it goes on or returns a result.\<close>

datatype ('w, 'l, 'r) call = Step 'w 'l | Ret 'w 'r

definition set_next :: "addr \<Rightarrow> addr \<Rightarrow> 'h stack_world \<Rightarrow> 'h stack_world" where
  "set_next e p w = w\<lparr>memory := (memory w)(e := (memory w e)\<lparr>next_of := p\<rparr>)\<rparr>"

definition links :: "'h stack_world \<Rightarrow> addr \<Rightarrow> addr" where
  "links w e = next_of (memory w e)"

lemma set_next_simps [simp]:
  "heads (set_next e p w) = heads w" "allocated (set_next e p w) = allocated w" "said (set_next e p w) = said w"
  "links (set_next e p w) = (links w)(e := p)"
  by (auto simp: set_next_def links_def)

lemma links_other [simp]:
  "links (heads_update f w) = links w" "links (said_update g w) = links w" "links (allocated_update a w) = links w"
  by (auto simp: links_def)

definition zeroed :: "addr \<Rightarrow> node" where
  "zeroed = (\<lambda>_. \<lparr>node_tid = 0, node_c = 0, next_of = NULL\<rparr>)"

definition empty_world :: "'h \<Rightarrow> 'h stack_world" where
  "empty_world h = \<lparr>heads = h, memory = zeroed, allocated = [], said = []\<rparr>"

text \<open>A call that nobody interferes with, in at most so many steps.\<close>

fun run_call :: "('w \<Rightarrow> 'l \<Rightarrow> ('w, 'l, 'r) call list) \<Rightarrow> nat \<Rightarrow> 'w \<Rightarrow> 'l \<Rightarrow> ('w \<times> 'r) option" where
  "run_call step 0 w l = None"
| "run_call step (Suc k) w l = (case step w l of
       [] \<Rightarrow> None
     | Step w' l' # _ \<Rightarrow> run_call step k w' l'
     | Ret w' r # _ \<Rightarrow> Some (w', r))"

subsection \<open>The thread function\<close>

datatype ('p, 'q) el_pc = ELoop | EPopping which 'q | EMalloc | ESayMalloc addr | ESetTid addr | ESetC addr
  | EPushing which addr 'p | EClear addr | EError | EEnd

text \<open>
  A thread is in its round \<open>k\<close>, at a control point. The parameters: the steps of \<open>push\<close> and of \<open>pop\<close>
  on one of the heads, where a call begins, the address \<open>malloc\<close> returns when some addresses are in
  use, and whether the program clears \<open>next\<close> before it pushes on the free list.
\<close>

fun el_step ::
  "(tid \<Rightarrow> which \<Rightarrow> addr \<Rightarrow> 'h stack_world \<Rightarrow> 'p \<Rightarrow> ('h stack_world, 'p, unit) call list) \<Rightarrow> 'p \<Rightarrow>
   (tid \<Rightarrow> which \<Rightarrow> 'h stack_world \<Rightarrow> 'q \<Rightarrow> ('h stack_world, 'q, addr) call list) \<Rightarrow> 'q \<Rightarrow>
   (addr list \<Rightarrow> addr) \<Rightarrow> bool \<Rightarrow> nat \<Rightarrow> tid \<Rightarrow> 'h stack_world \<Rightarrow> nat \<Rightarrow> ('p, 'q) el_pc \<Rightarrow>
   ('h stack_world, nat \<times> ('p, 'q) el_pc) act list"
where
  "el_step push p0 pop q0 mallc clears elems i w k ELoop = [Go w (k, if k < elems then EPopping Free q0 else EEnd)]"
| "el_step push p0 pop q0 mallc clears elems i w k (EPopping Free q) = map (\<lambda>x. case x of
       Step w' q' \<Rightarrow> Go w' (k, EPopping Free q')
     | Ret w' e \<Rightarrow> Go w' (k, if e = NULL then EMalloc else ESetTid e)) (pop i Free w q)"
| "el_step push p0 pop q0 mallc clears elems i w k EMalloc =
     [Go (w\<lparr>allocated := mallc (allocated w) # allocated w\<rparr>) (k, ESayMalloc (mallc (allocated w)))]"
| "el_step push p0 pop q0 mallc clears elems i w k (ESayMalloc e) =
     [Go (w\<lparr>said := said w @ [MallocLine i]\<rparr>) (k, ESetTid e)]"
| "el_step push p0 pop q0 mallc clears elems i w k (ESetTid e) =
     [Go (w\<lparr>memory := (memory w)(e := (memory w e)\<lparr>node_tid := of_nat i\<rparr>)\<rparr>) (k, ESetC e)]"
| "el_step push p0 pop q0 mallc clears elems i w k (ESetC e) =
     [Go (w\<lparr>memory := (memory w)(e := (memory w e)\<lparr>node_c := of_nat k\<rparr>)\<rparr>) (k, EPushing Stack e p0)]"
| "el_step push p0 pop q0 mallc clears elems i w k (EPushing Stack e p) = map (\<lambda>x. case x of
       Step w' p' \<Rightarrow> Go w' (k, EPushing Stack e p')
     | Ret w' u \<Rightarrow> Go w' (k, EPopping Stack q0)) (push i Stack e w p)"
| "el_step push p0 pop q0 mallc clears elems i w k (EPopping Stack q) = map (\<lambda>x. case x of
       Step w' q' \<Rightarrow> Go w' (k, EPopping Stack q')
     | Ret w' e \<Rightarrow> Go w' (k, if e = NULL then EError else if clears then EClear e else EPushing Free e p0))
         (pop i Stack w q)"
| "el_step push p0 pop q0 mallc clears elems i w k (EClear e) = [Go (set_next e NULL w) (k, EPushing Free e p0)]"
| "el_step push p0 pop q0 mallc clears elems i w k (EPushing Free e p) = map (\<lambda>x. case x of
       Step w' p' \<Rightarrow> Go w' (k, EPushing Free e p')
     | Ret w' u \<Rightarrow> Go w' (Suc k, ELoop)) (push i Free e w p)"
| "el_step push p0 pop q0 mallc clears elems i w k EError = [Go (w\<lparr>said := said w @ [ErrorLine i]\<rparr>) (Suc k, ELoop)]"
| "el_step push p0 pop q0 mallc clears elems i w k EEnd = [Exit (w\<lparr>said := said w @ [EndLine i]\<rparr>)]"

definition stack_prog ::
  "(tid \<Rightarrow> which \<Rightarrow> addr \<Rightarrow> 'h stack_world \<Rightarrow> 'p \<Rightarrow> ('h stack_world, 'p, unit) call list) \<Rightarrow> 'p \<Rightarrow>
   (tid \<Rightarrow> which \<Rightarrow> 'h stack_world \<Rightarrow> 'q \<Rightarrow> ('h stack_world, 'q, addr) call list) \<Rightarrow> 'q \<Rightarrow>
   (addr list \<Rightarrow> addr) \<Rightarrow> bool \<Rightarrow> 'h \<Rightarrow> (addr \<Rightarrow> node) \<Rightarrow> nat \<Rightarrow> nat \<Rightarrow>
   ('h stack_world, nat \<times> ('p, 'q) el_pc) fj_prog" where
  "stack_prog push p0 pop q0 mallc clears h0 mem n operations = \<lparr>fj_threads = n,
     body = (\<lambda>i w (k, pc). el_step push p0 pop q0 mallc clears (operations div n) i w k pc),
     entry = (\<lambda>_. (0, ELoop)), world0 = \<lparr>heads = h0, memory = mem, allocated = [], said = []\<rparr>,
     finale = (\<lambda>w. w)\<rparr>"

lemma stack_prog_simps [simp]:
  "fj_threads (stack_prog push p0 pop q0 mallc clears h0 mem n operations) = n"
  "body (stack_prog push p0 pop q0 mallc clears h0 mem n operations) i w (k, pc) =
     el_step push p0 pop q0 mallc clears (operations div n) i w k pc"
  "entry (stack_prog push p0 pop q0 mallc clears h0 mem n operations) = (\<lambda>_. (0, ELoop))"
  "world0 (stack_prog push p0 pop q0 mallc clears h0 mem n operations) =
     \<lparr>heads = h0, memory = mem, allocated = [], said = []\<rparr>"
  "finale (stack_prog push p0 pop q0 mallc clears h0 mem n operations) = (\<lambda>w. w)"
  by (simp_all add: stack_prog_def)

subsection \<open>Lists in the memory\<close>

fun chain :: "(addr \<Rightarrow> addr) \<Rightarrow> addr \<Rightarrow> addr list \<Rightarrow> bool" where
  "chain nx p [] = (p = NULL)"
| "chain nx p (x # xs) = (p = x \<and> x \<noteq> NULL \<and> chain nx (nx x) xs)"

lemma chain_same: "e \<notin> set xs \<Longrightarrow> chain (nx(e := v)) p xs = chain nx p xs"
  by (induction xs arbitrary: p) auto

lemma chain_NULL [simp]: "chain nx NULL xs = (xs = [])"
  by (cases xs) auto

lemma chain_top: "chain nx p xs \<Longrightarrow> p \<noteq> NULL \<Longrightarrow> \<exists>ys. xs = p # ys \<and> chain nx (nx p) ys"
  by (cases xs) auto

lemma chain_in: "chain nx p xs \<Longrightarrow> p \<noteq> NULL \<Longrightarrow> p \<in> set xs"
  by (cases xs) auto

text \<open>The abstract program: two lists, and operations on one of them.\<close>

inductive stack_op :: "(which \<Rightarrow> addr list) \<Rightarrow> (which \<Rightarrow> addr list) \<Rightarrow> bool" where
  pushed: "stack_op L (L(h := e # L h))"
| popped: "L h = e # ys \<Longrightarrow> stack_op L (L(h := ys))"

abbreviation stack_ops :: "(which \<Rightarrow> addr list) \<Rightarrow> bool" where
  "stack_ops L \<equiv> stack_op\<^sup>*\<^sup>* (\<lambda>_. []) L"

lemma stack_ops_push: "stack_ops L \<Longrightarrow> stack_ops (L(h := e # L h))"
  by (blast intro: rtranclp.rtrancl_into_rtrancl pushed)

lemma stack_ops_pop: "stack_ops L \<Longrightarrow> L h = e # ys \<Longrightarrow> stack_ops (L(h := ys))"
  by (blast intro: rtranclp.rtrancl_into_rtrancl popped)

text \<open>The list a head stands for is determined by the memory.\<close>

lemma chain_unique: "chain nx p xs \<Longrightarrow> chain nx p ys \<Longrightarrow> xs = ys"
  by (induction xs arbitrary: p ys) (auto, case_tac ys, auto)

text \<open>What \<open>malloc\<close> documents: the address is not null and not in use.\<close>

definition malloc_fresh :: "(addr list \<Rightarrow> addr) \<Rightarrow> bool" where
  "malloc_fresh mallc \<longleftrightarrow> (\<forall>used. mallc used \<noteq> NULL \<and> mallc used \<notin> set used)"

text \<open>Addresses by hand, for the instances: beyond the sum of those in use.\<close>

definition above_all :: "addr list \<Rightarrow> addr" where
  "above_all used = Suc (sum_list used)"

lemma above_all_fresh: "malloc_fresh above_all"
  using member_le_sum_list by (fastforce simp: malloc_fresh_def above_all_def NULL_def)

subsection \<open>The contract of an implementation\<close>

datatype ('p, 'q) site = NoCall | Pushing which addr 'p | Popping which 'q

fun pushes :: "('p, 'q) site \<Rightarrow> addr \<Rightarrow> bool" where
  "pushes (Pushing h e p) e' = (e = e')"
| "pushes _ e' = False"

text \<open>A node one thread may write: no other pushes it, and it is not on top.\<close>

definition apart :: "nat \<Rightarrow> ('h \<Rightarrow> which \<Rightarrow> addr) \<Rightarrow> tid \<Rightarrow> addr \<Rightarrow> 'h \<Rightarrow> (tid \<Rightarrow> ('p, 'q) site) \<Rightarrow> bool" where
  "apart n hd_of i e hds at \<longleftrightarrow> e \<noteq> NULL \<and> (\<forall>h. hd_of hds h \<noteq> e) \<and> (\<forall>j<n. j \<noteq> i \<longrightarrow> \<not> pushes (at j) e)"

locale stack_impl =
  fixes push :: "tid \<Rightarrow> which \<Rightarrow> addr \<Rightarrow> 'h stack_world \<Rightarrow> 'p \<Rightarrow> ('h stack_world, 'p, unit) call list"
    and p0 :: 'p
    and pop :: "tid \<Rightarrow> which \<Rightarrow> 'h stack_world \<Rightarrow> 'q \<Rightarrow> ('h stack_world, 'q, addr) call list"
    and q0 :: 'q
    and h0 :: 'h and n limit :: nat
    and hd_of :: "'h \<Rightarrow> which \<Rightarrow> addr" and used :: "'h \<Rightarrow> which \<Rightarrow> nat"
    and inv :: "'h \<Rightarrow> (addr \<Rightarrow> addr) \<Rightarrow> (tid \<Rightarrow> ('p, 'q) site) \<Rightarrow> bool"
    and rank :: "'h \<Rightarrow> tid \<Rightarrow> ('p, 'q) site \<Rightarrow> nat"
  assumes unused: "hd_of h0 h = NULL" "used h0 h = 0" "inv h0 nx (\<lambda>_. NoCall)"
    and calls: "inv hds nx at \<Longrightarrow> i < n \<Longrightarrow> at i = NoCall \<Longrightarrow> x = Pushing h e p0 \<or> x = Popping h q0 \<Longrightarrow>
      inv hds nx (at(i := x))"
    and writes: "inv hds nx at \<Longrightarrow> i < n \<Longrightarrow> at i = NoCall \<Longrightarrow> apart n hd_of i e hds at \<Longrightarrow> inv hds (nx(e := v)) at"
    and push_steps: "inv (heads w) (links w) at \<Longrightarrow> i < n \<Longrightarrow> at i = Pushing h e p \<Longrightarrow> apart n hd_of i e (heads w) at \<Longrightarrow>
      Step w' p' \<in> set (push i h e w p) \<Longrightarrow>
      inv (heads w') (links w') (at(i := Pushing h e p')) \<and> hd_of (heads w') = hd_of (heads w) \<and>
      used (heads w') = used (heads w) \<and> (\<exists>v. links w' = (links w)(e := v)) \<and>
      allocated w' = allocated w \<and> said w' = said w"
    and push_returns: "inv (heads w) (links w) at \<Longrightarrow> i < n \<Longrightarrow> at i = Pushing h e p \<Longrightarrow> apart n hd_of i e (heads w) at \<Longrightarrow>
      Ret w' u \<in> set (push i h e w p) \<Longrightarrow> Suc (used (heads w) h) < limit \<Longrightarrow>
      inv (heads w') (links w') (at(i := NoCall)) \<and> hd_of (heads w') = (hd_of (heads w))(h := e) \<and>
      links w' = links w \<and> links w e = hd_of (heads w) h \<and>
      (\<forall>h'. used (heads w') h' \<le> used (heads w) h' + (if h' = h then 1 else 0)) \<and>
      allocated w' = allocated w \<and> said w' = said w"
    and pop_steps: "inv (heads w) (links w) at \<Longrightarrow> i < n \<Longrightarrow> at i = Popping h q \<Longrightarrow>
      Step w' q' \<in> set (pop i h w q) \<Longrightarrow>
      inv (heads w') (links w') (at(i := Popping h q')) \<and> hd_of (heads w') = hd_of (heads w) \<and>
      used (heads w') = used (heads w) \<and> links w' = links w \<and> allocated w' = allocated w \<and> said w' = said w"
    and pop_returns: "inv (heads w) (links w) at \<Longrightarrow> i < n \<Longrightarrow> at i = Popping h q \<Longrightarrow>
      Ret w' e \<in> set (pop i h w q) \<Longrightarrow> Suc (used (heads w) h) < limit \<Longrightarrow>
      inv (heads w') (links w') (at(i := NoCall)) \<and> links w' = links w \<and> e = hd_of (heads w) h \<and>
      hd_of (heads w') = (if e = NULL then hd_of (heads w) else (hd_of (heads w))(h := links w e)) \<and>
      (\<forall>h'. used (heads w') h' \<le> used (heads w) h' + (if h' = h then 1 else 0)) \<and>
      allocated w' = allocated w \<and> said w' = said w"
    and push_goes: "inv (heads w) (links w) at \<Longrightarrow> i < n \<Longrightarrow> at i = Pushing h e p \<Longrightarrow>
      (\<exists>w' u. Ret w' u \<in> set (push i h e w p)) \<or>
      (\<exists>w' p'. Step w' p' \<in> set (push i h e w p) \<and> rank (heads w') i (Pushing h e p') < rank (heads w) i (at i) \<and>
         (\<forall>j. j \<noteq> i \<longrightarrow> rank (heads w') j (at j) = rank (heads w) j (at j)))"
    and pop_goes: "inv (heads w) (links w) at \<Longrightarrow> i < n \<Longrightarrow> at i = Popping h q \<Longrightarrow>
      (\<exists>w' e. Ret w' e \<in> set (pop i h w q)) \<or>
      (\<exists>w' q'. Step w' q' \<in> set (pop i h w q) \<and> rank (heads w') i (Popping h q') < rank (heads w) i (at i) \<and>
         (\<forall>j. j \<noteq> i \<longrightarrow> rank (heads w') j (at j) = rank (heads w) j (at j)))"

subsection \<open>Where the nodes are\<close>

fun site_at :: "(nat \<times> ('p, 'q) el_pc) status \<Rightarrow> ('p, 'q) site" where
  "site_at (Live (k, EPushing h e p)) = Pushing h e p"
| "site_at (Live (k, EPopping h q)) = Popping h q"
| "site_at _ = NoCall"

definition sites :: "(tid \<Rightarrow> (nat \<times> ('p, 'q) el_pc) status) \<Rightarrow> tid \<Rightarrow> ('p, 'q) site" where
  "sites st i = site_at (st i)"

lemma sites_unborn [simp]: "sites (\<lambda>_. Unborn) = (\<lambda>_. NoCall)"
  by (auto simp: sites_def)

lemma sites_update: "sites (st(i := x)) = (sites st)(i := site_at x)"
  by (auto simp: sites_def)

text \<open>The node a thread has in its hands.\<close>

fun held :: "(nat \<times> ('p, 'q) el_pc) status \<Rightarrow> addr multiset" where
  "held (Live (k, ESayMalloc e)) = {#e#}"
| "held (Live (k, ESetTid e)) = {#e#}"
| "held (Live (k, ESetC e)) = {#e#}"
| "held (Live (k, EPushing h e p)) = {#e#}"
| "held (Live (k, EClear e)) = {#e#}"
| "held _ = {#}"

text \<open>It has pushed on the stack and not popped yet; it is about to call \<open>malloc\<close>.\<close>

fun expects :: "(nat \<times> ('p, 'q) el_pc) status \<Rightarrow> nat" where
  "expects (Live (k, EPopping Stack q)) = 1"
| "expects _ = 0"

fun mallocs :: "(nat \<times> ('p, 'q) el_pc) status \<Rightarrow> nat" where
  "mallocs (Live (k, EMalloc)) = 1"
| "mallocs _ = 0"

text \<open>
  The lists of the two heads are chains in the memory, every allocated node is in exactly one of
  them or in the hands of exactly one thread, the stack has a node for every thread that
  is going to pop one, and there are not more nodes than threads.
\<close>

definition kept ::
  "nat \<Rightarrow> (which \<Rightarrow> addr) \<Rightarrow> 'h stack_world \<Rightarrow> (tid \<Rightarrow> (nat \<times> ('p, 'q) el_pc) status) \<Rightarrow> (which \<Rightarrow> addr list) \<Rightarrow> bool"
where
  "kept n tops w st L \<longleftrightarrow> (\<forall>h. chain (links w) (tops h) (L h)) \<and>
     distinct (allocated w) \<and> NULL \<notin> set (allocated w) \<and>
     mset (allocated w) = mset (L Stack) + mset (L Free) + (\<Sum>i<n. held (st i)) \<and>
     length (L Stack) = (\<Sum>i<n. expects (st i)) \<and>
     length (allocated w) + (\<Sum>i<n. mallocs (st i)) \<le> n"

lemma size_sum: "size (\<Sum>j<n. f j :: 'a multiset) = (\<Sum>j<(n::nat). size (f j))"
  by (induction n) auto

lemma one_place: "expects s + size (held s) + mallocs s \<le> 1"
proof (cases s)
  case (Live l)
  then show ?thesis
  proof (cases l)
    case (Pair k pc)
    have "expects (Live (k, EPopping h q)) \<le> 1" for h q by (cases h) auto
    then show ?thesis using Live Pair by (cases pc) auto
  qed
qed auto

lemma mem_sum: "i < n \<Longrightarrow> e \<in># held (st i) \<Longrightarrow> e \<in># (\<Sum>j<(n::nat). held (st j))"
  by (induction n) (auto simp: less_Suc_eq)

lemma held_twice:
  fixes n :: nat
  assumes "i < n" "j < n" "i \<noteq> j" "e \<in># held (st i)" "e \<in># held (st j)"
  shows "2 \<le> count (\<Sum>k<n. held (st k)) e"
proof -
  have "(\<Sum>k<n. held (st k)) = held (st i) + (\<Sum>k\<in>{..<n} - {i}. held (st k))" using assms(1) by (intro sum.remove) auto
  also have "(\<Sum>k\<in>{..<n} - {i}. held (st k)) = held (st j) + (\<Sum>k\<in>{..<n} - {i} - {j}. held (st k))"
    using assms(2,3) by (intro sum.remove) auto
  finally show ?thesis using assms(4,5) by (simp add: Suc_le_eq flip: count_greater_zero_iff)
qed

lemma kept_once:
  assumes k: "kept n tops w st L" and i: "i < n" and e: "e \<in># held (st i)"
  shows "e \<noteq> NULL" "e \<notin> set (L h)" "tops h \<noteq> e" "j < n \<Longrightarrow> j \<noteq> i \<Longrightarrow> e \<notin># held (st j)" "e \<in> set (allocated w)"
proof -
  have total: "mset (allocated w) = mset (L Stack) + mset (L Free) + (\<Sum>i<n. held (st i))" and
    dist: "distinct (allocated w)" and null: "NULL \<notin> set (allocated w)" and ch: "chain (links w) (tops h) (L h)"
    using k by (simp_all add: kept_def)
  have once: "count (mset (allocated w)) e \<le> 1" using dist distinct_count_atmost_1 by (metis order.refl le_zero_eq nat_le_linear zero_le_one)
  have here: "e \<in># (\<Sum>i<n. held (st i))" using mem_sum i e by blast
  then show mem: "e \<in> set (allocated w)" using total by (metis set_mset_mset union_iff)
  then show nn: "e \<noteq> NULL" using null by blast
  show out: "e \<notin> set (L h)"
  proof
    assume "e \<in> set (L h)"
    then have "1 \<le> count (mset (L h)) e" by (simp add: Suc_le_eq)
    then show False using once here total by (cases h) (simp_all add: Suc_le_eq flip: count_greater_zero_iff)
  qed
  show "tops h \<noteq> e" using chain_in [OF ch] nn out by blast
  show "e \<notin># held (st j)" if "j < n" "j \<noteq> i"
  proof
    assume "e \<in># held (st j)"
    then have "2 \<le> count (\<Sum>k<n. held (st k)) e" using held_twice [OF i that(1)] that(2) e by blast
    then show False using once total by simp
  qed
qed

lemma pushes_held: "pushes (site_at s) e \<Longrightarrow> e \<in># held s"
  by (cases s rule: site_at.cases) auto

lemma kept_apart:
  assumes "kept n (hd_of (heads w)) w st L" "i < n" "e \<in># held (st i)"
  shows "apart n hd_of i e (heads w) (sites st)"
  using kept_once [OF assms] by (auto simp: apart_def sites_def dest: pushes_held)

subsection \<open>What a step does to the nodes\<close>

lemma kept_quiet:
  assumes k: "kept n tops w st L" and i: "i < n" and same: "held x = held (st i)" "expects x = expects (st i)"
    "mallocs x \<le> mallocs (st i)" "allocated w' = allocated w"
    and links: "links w' = links w \<or> (\<exists>e v. e \<in># held (st i) \<and> links w' = (links w)(e := v))"
  shows "kept n tops w' (st(i := x)) L"
proof -
  have "chain (links w') (tops h) (L h)" for h
  proof -
    have ch: "chain (links w) (tops h) (L h)" using k by (simp add: kept_def)
    show ?thesis using links
    proof (elim disjE exE conjE)
      fix e v
      assume "e \<in># held (st i)" "links w' = (links w)(e := v)"
      then show ?thesis using ch kept_once(2) [OF k i] chain_same by metis
    qed (use ch in simp)
  qed
  moreover have "(\<Sum>j<n. mallocs ((st(i := x)) j)) \<le> (\<Sum>j<n. mallocs (st j))"
    using sum_at [OF i, of mallocs st x] same(3) by linarith
  ultimately show ?thesis
    using k same sum_at_same [of held x st i n] sum_at_same [of expects x st i n] by (simp add: kept_def)
qed

lemma kept_malloc:
  assumes k: "kept n tops w st L" and i: "i < n" and at: "st i = Live (r, EMalloc)" and "malloc_fresh mallc"
  shows "kept n tops (w\<lparr>allocated := mallc (allocated w) # allocated w\<rparr>)
    (st(i := Live (r, ESayMalloc (mallc (allocated w))))) L"
    (is "kept n tops ?w (st(i := ?x)) L")
proof -
  have "(\<Sum>j<n. held ((st(i := ?x)) j)) = add_mset (mallc (allocated w)) (\<Sum>j<n. held (st j))"
    using sum_at [OF i, of held st ?x] at by simp
  moreover have "(\<Sum>j<n. expects ((st(i := ?x)) j)) = (\<Sum>j<n. expects (st j))"
    using at by (intro sum_at_same) simp
  moreover have "Suc (\<Sum>j<n. mallocs ((st(i := ?x)) j)) = (\<Sum>j<n. mallocs (st j))"
    using sum_at [OF i, of mallocs st ?x] at by simp
  moreover have "mallc (allocated w) \<noteq> NULL" "mallc (allocated w) \<notin> set (allocated w)"
    using assms(4) by (auto simp: malloc_fresh_def)
  ultimately show ?thesis using k by (simp add: kept_def del: fun_upd_apply)
qed

lemma kept_push:
  assumes k: "kept n tops w st L" and i: "i < n" and at: "st i = Live (r, EPushing h e p)"
    and x: "held x = {#}" "expects x = (if h = Stack then 1 else 0)" "mallocs x = 0"
    and w': "links w' = links w" "allocated w' = allocated w" and top: "links w e = tops h"
  shows "kept n (tops(h := e)) w' (st(i := x)) (L(h := e # L h))"
proof -
  define st' where "st' = st(i := x)"
  have "e \<noteq> NULL" using kept_once(1) [OF k i] at by simp
  then have "chain (links w) ((tops(h := e)) h') ((L(h := e # L h)) h')" for h'
    using k top by (simp add: kept_def)
  moreover have "add_mset e (\<Sum>j<n. held (st' j)) = (\<Sum>j<n. held (st j))"
    using sum_at [OF i, of held st x, folded st'_def] at x(1) by simp
  moreover have "(\<Sum>j<n. expects (st' j)) = (\<Sum>j<n. expects (st j)) + expects x"
    using sum_at [OF i, of expects st x, folded st'_def] at by simp
  moreover have "(\<Sum>j<n. mallocs (st' j)) = (\<Sum>j<n. mallocs (st j))"
    using at x(3) unfolding st'_def by (intro sum_at_same) simp
  ultimately have "kept n (tops(h := e)) w' st' (L(h := e # L h))" using k w' x(2) by (cases h) (auto simp: kept_def)
  then show ?thesis by (simp only: st'_def)
qed

text \<open>A pop of a node, \<open>h\<close> being the head it is taken from.\<close>

lemma kept_pop:
  assumes k: "kept n tops w st L" and i: "i < n" and at: "st i = Live (r, EPopping h q)"
    and x: "held x = {#tops h#}" "expects x = 0" "mallocs x = 0"
    and w': "links w' = links w" "allocated w' = allocated w" and top: "tops h \<noteq> NULL"
  obtains ys where "L h = tops h # ys" "kept n (tops(h := links w (tops h))) w' (st(i := x)) (L(h := ys))"
proof -
  define st' where "st' = st(i := x)"
  have "chain (links w) (tops h) (L h)" using k by (simp add: kept_def)
  then obtain ys where ys: "L h = tops h # ys" "chain (links w) (links w (tops h)) ys"
    using chain_top top by blast
  have "(\<Sum>j<n. held (st' j)) = add_mset (tops h) (\<Sum>j<n. held (st j))"
    using sum_at [OF i, of held st x, folded st'_def] at x(1) by simp
  moreover have "(\<Sum>j<n. expects (st' j)) + expects (st i) = (\<Sum>j<n. expects (st j))"
    using sum_at [OF i, of expects st x, folded st'_def] x(2) by simp
  moreover have "(\<Sum>j<n. mallocs (st' j)) = (\<Sum>j<n. mallocs (st j))"
    using at x(3) unfolding st'_def by (intro sum_at_same) simp
  moreover have "expects (st i) = (if h = Stack then 1 else 0)" using at by (cases h) auto
  ultimately have "kept n (tops(h := links w (tops h))) w' st' (L(h := ys))"
    using k ys w' by (cases h) (auto simp: kept_def)
  then show ?thesis using that ys(1) unfolding st'_def by blast
qed

text \<open>The stack is never empty when a thread is to pop from it.\<close>

lemma kept_expects:
  assumes k: "kept n tops w st L" and i: "i < n" and at: "st i = Live (r, EPopping Stack q)"
  shows "tops Stack \<noteq> NULL"
proof
  assume "tops Stack = NULL"
  then have "length (L Stack) = 0" using k by (auto simp: kept_def dest: spec [of _ Stack])
  then have "(\<Sum>j<n. expects (st j)) = 0" using k by (simp add: kept_def)
  then show False using i at by force
qed

text \<open>
  When a thread finds the free list empty, every node is on the stack or in the hands of another
  thread, so there are fewer nodes than threads.
\<close>

lemma kept_no_free:
  assumes k: "kept n tops w st L" and i: "i < n" and at: "st i = Live (r, EPopping Free q)"
    and w': "links w' = links w" "allocated w' = allocated w" and top: "tops Free = NULL"
  shows "kept n tops w' (st(i := Live (r, EMalloc))) L"
proof -
  let ?x = "Live (r, EMalloc)" and ?st = "st(i := Live (r, EMalloc))"
  have free: "L Free = []" using k top by (auto simp: kept_def dest: spec [of _ Free])
  have h: "(\<Sum>j<n. held (?st j)) = (\<Sum>j<n. held (st j))" by (intro sum_at_same) (simp add: at)
  have e: "(\<Sum>j<n. expects (?st j)) = (\<Sum>j<n. expects (st j))" by (intro sum_at_same) (simp add: at)
  have "length (allocated w) = size (mset (allocated w))" by simp
  also have "\<dots> = length (L Stack) + size (\<Sum>j<n. held (st j))" using k free by (simp add: kept_def)
  also have "\<dots> = (\<Sum>j<n. expects (?st j)) + (\<Sum>j<n. size (held (?st j)))"
    using k e by (simp only: kept_def size_sum h [symmetric])
  finally have "length (allocated w) + (\<Sum>j<n. mallocs (?st j)) =
      (\<Sum>j<n. expects (?st j) + size (held (?st j)) + mallocs (?st j))"
    by (simp only: sum.distrib)
  also have "\<dots> \<le> (\<Sum>j<n. 1)" by (intro sum_mono one_place)
  finally have "length (allocated w) + (\<Sum>j<n. mallocs (?st j)) \<le> n" by simp
  then show ?thesis using k w' h e by (simp add: kept_def del: fun_upd_apply)
qed

subsection \<open>The program on an implementation\<close>

fun done_in :: "which \<Rightarrow> ('p, 'q) el_pc \<Rightarrow> nat" where
  "done_in Stack (EPopping Stack q) = 1"
| "done_in Stack (EClear e) = 2"
| "done_in Stack (EPushing Free e p) = 2"
| "done_in Stack EError = 2"
| "done_in Stack pc = 0"
| "done_in Free ELoop = 0"
| "done_in Free EEnd = 0"
| "done_in Free (EPopping Free q) = 0"
| "done_in Free pc = 1"

text \<open>How many times, at most, a thread has changed a head; no thread gets to the error.\<close>

fun changes :: "nat \<Rightarrow> which \<Rightarrow> (nat \<times> ('p, 'q) el_pc) status \<Rightarrow> nat" where
  "changes elems h Unborn = 0"
| "changes elems h (Live (k, pc)) = 2 * k + done_in h pc"
| "changes elems h Dead = 2 * elems"

fun round_ok :: "nat \<Rightarrow> (nat \<times> ('p, 'q) el_pc) status \<Rightarrow> bool" where
  "round_ok elems (Live (k, pc)) = (if pc = ELoop \<or> pc = EEnd then k \<le> elems else k < elems \<and> pc \<noteq> EError)"
| "round_ok elems _ = True"

fun el_left :: "('p, 'q) el_pc \<Rightarrow> nat" where
  "el_left (EPopping Free q) = 11" | "el_left EMalloc = 10" | "el_left (ESayMalloc e) = 9" | "el_left (ESetTid e) = 8"
| "el_left (ESetC e) = 7" | "el_left (EPushing Stack e p) = 6" | "el_left (EPopping Stack q) = 5"
| "el_left (EClear e) = 4" | "el_left EError = 4" | "el_left (EPushing Free e p) = 3" | "el_left ELoop = 12"
| "el_left EEnd = 11"

fun left_to_do :: "nat \<Rightarrow> (nat \<times> ('p, 'q) el_pc) status \<Rightarrow> nat" where
  "left_to_do elems (Live (k, pc)) = 12 * (elems - k) + el_left pc"
| "left_to_do elems _ = 0"

lemma done_in_le: "done_in h pc \<le> 2"
  by (cases "(h, pc)" rule: done_in.cases) auto

lemma done_in_calls [simp]:
  "done_in h' (EPopping h q) = (if h = Stack then 1 else 0)"
  "done_in h' (EPushing h e p) = (if h' = Free then 1 else if h = Free then 2 else 0)"
  "done_in h' ELoop = 0" "done_in h' EEnd = 0" "done_in h' (EClear e) = (if h' = Stack then 2 else 1)"
  by (cases h'; cases h; simp)+

lemma changes_le: "round_ok elems s \<Longrightarrow> changes elems h s \<le> 2 * elems"
proof (cases s)
  case (Live l)
  assume ok: "round_ok elems s"
  obtain k pc where l: "l = (k, pc)" by fastforce
  have "pc = ELoop \<or> pc = EEnd \<Longrightarrow> done_in h pc = 0" by (cases h) auto
  then show ?thesis using ok Live l done_in_le [of h pc] by (auto split: if_splits)
qed auto

lemma changes_room:
  assumes "\<forall>j<n. round_ok elems (st j)" "i < n" "changes elems h (st i) < 2 * elems"
  shows "Suc (\<Sum>j<n. changes elems h (st j)) \<le> 2 * (n * elems)"
proof -
  have "(\<Sum>j<n. changes elems h (st j)) < (\<Sum>j<n. 2 * elems)"
    using assms changes_le by (intro sum_strict_mono_ex1) auto
  then show ?thesis by (simp add: algebra_simps)
qed

locale stack_program = stack_impl push p0 pop q0 h0 n limit hd_of used inv rank
  for push :: "tid \<Rightarrow> which \<Rightarrow> addr \<Rightarrow> 'h stack_world \<Rightarrow> 'p \<Rightarrow> ('h stack_world, 'p, unit) call list"
    and p0 :: 'p
    and pop :: "tid \<Rightarrow> which \<Rightarrow> 'h stack_world \<Rightarrow> 'q \<Rightarrow> ('h stack_world, 'q, addr) call list"
    and q0 :: 'q
    and h0 :: 'h and n limit :: nat
    and hd_of :: "'h \<Rightarrow> which \<Rightarrow> addr" and used :: "'h \<Rightarrow> which \<Rightarrow> nat"
    and inv :: "'h \<Rightarrow> (addr \<Rightarrow> addr) \<Rightarrow> (tid \<Rightarrow> ('p, 'q) site) \<Rightarrow> bool"
    and rank :: "'h \<Rightarrow> tid \<Rightarrow> ('p, 'q) site \<Rightarrow> nat" +
  fixes mallc :: "addr list \<Rightarrow> addr" and clears :: bool and mem :: "addr \<Rightarrow> node" and elems :: nat
  assumes malloc: "malloc_fresh mallc" and enough: "2 * (n * elems) < limit"
begin

definition stack_J :: "'h stack_world \<Rightarrow> (tid \<Rightarrow> (nat \<times> ('p, 'q) el_pc) status) \<Rightarrow> bool" where
  "stack_J w st \<longleftrightarrow> inv (heads w) (links w) (sites st) \<and> (\<forall>i<n. round_ok elems (st i)) \<and>
     (\<forall>h. used (heads w) h \<le> (\<Sum>i<n. changes elems h (st i))) \<and> (\<forall>i. ErrorLine i \<notin> set (said w)) \<and>
     (\<exists>L. stack_ops L \<and> kept n (hd_of (heads w)) w st L)"

lemma J_move:
  assumes J: "stack_J w st" and i: "i < n"
    and "inv (heads w') (links w') ((sites st)(i := site_at x))" "round_ok elems x"
    and cnt: "\<And>h. used (heads w') h + changes elems h (st i) \<le> used (heads w) h + changes elems h x"
    and "\<And>i. ErrorLine i \<notin> set (said w')" "stack_ops L" "kept n (hd_of (heads w')) w' (st(i := x)) L"
  shows "stack_J w' (st(i := x))"
proof -
  have "used (heads w') h \<le> (\<Sum>j<n. changes elems h ((st(i := x)) j))" for h
  proof -
    have "used (heads w) h \<le> (\<Sum>j<n. changes elems h (st j))" using J by (simp add: stack_J_def)
    then show ?thesis using cnt [of h] sum_at [OF i, of "changes elems h" st x] by linarith
  qed
  moreover have "round_ok elems ((st(i := x)) j)" if "j < n" for j using J that assms(4) by (simp add: stack_J_def)
  ultimately show ?thesis using assms(3,6,7,8) unfolding stack_J_def sites_update by blast
qed

text \<open>A step that does not change a head.\<close>

lemma J_quiet:
  assumes J: "stack_J w st" and i: "i < n" and x: "site_at x = site_at (st i) \<or>
      site_at (st i) = NoCall \<and> (\<exists>h e. site_at x = Pushing h e p0 \<or> site_at x = Popping h q0)"
    and "round_ok elems x" "held x = held (st i)" "expects x = expects (st i)" "mallocs x \<le> mallocs (st i)"
    and le: "\<And>h. changes elems h (st i) \<le> changes elems h x"
    and w': "heads w' = heads w" "links w' = links w" "allocated w' = allocated w"
    and "\<And>i. ErrorLine i \<notin> set (said w')"
  shows "stack_J w' (st(i := x))"
proof -
  have inv: "inv (heads w) (links w) (sites st)" using J by (simp add: stack_J_def)
  obtain L where L: "kept n (hd_of (heads w)) w st L" "stack_ops L" using J by (auto simp: stack_J_def)
  have "inv (heads w) (links w) ((sites st)(i := site_at x))"
    using x
  proof (elim disjE conjE exE)
    assume "site_at x = site_at (st i)"
    then have "(sites st)(i := site_at x) = sites st" by (auto simp: sites_def)
    then show ?thesis using inv by simp
  qed (use calls [OF inv i] in \<open>auto simp: sites_def\<close>)
  moreover have "kept n (hd_of (heads w')) w' (st(i := x)) L"
    unfolding w'(1) by (rule kept_quiet [OF L(1) i]) (use assms in auto)
  ultimately show ?thesis using assms L(2) by (intro J_move [OF J i]) auto
qed

text \<open>The steps inside \<open>push\<close> and \<open>pop\<close> and their returns.\<close>

lemma J_room:
  assumes "stack_J w st" "i < n" "changes elems h (st i) < 2 * elems"
  shows "Suc (used (heads w) h) < limit"
proof -
  have "used (heads w) h \<le> (\<Sum>j<n. changes elems h (st j))" "\<forall>j<n. round_ok elems (st j)"
    using assms(1) by (simp_all add: stack_J_def)
  moreover from this have "Suc (\<Sum>j<n. changes elems h (st j)) \<le> 2 * (n * elems)"
    by (intro changes_room [of n elems st i h] assms(2,3))
  ultimately show ?thesis using enough by linarith
qed

lemma J_facts:
  assumes J: "stack_J w st" and i: "i < n"
  obtains L where "inv (heads w) (links w) (sites st)" "round_ok elems (st i)" "kept n (hd_of (heads w)) w st L"
    "\<And>i. ErrorLine i \<notin> set (said w)" "stack_ops L"
  using assms by (auto simp: stack_J_def)

lemma J_push_step:
  assumes J: "stack_J w st" and i: "i < n" and at: "st i = Live (k, EPushing h e p)"
    and step: "Step w' p' \<in> set (push i h e w p)"
  shows "stack_J w' (st(i := Live (k, EPushing h e p')))"
proof -
  obtain L where L: "inv (heads w) (links w) (sites st)" "round_ok elems (st i)" "kept n (hd_of (heads w)) w st L"
    "\<And>i. ErrorLine i \<notin> set (said w)" "stack_ops L" using J_facts [OF J i] by metis
  have "sites st i = Pushing h e p" "apart n hd_of i e (heads w) (sites st)"
    using kept_apart [where hd_of = hd_of and w = w, OF L(3) i] at by (simp_all add: sites_def)
  from push_steps [OF L(1) i this step]
  have w': "inv (heads w') (links w') ((sites st)(i := Pushing h e p'))" "hd_of (heads w') = hd_of (heads w)"
    "used (heads w') = used (heads w)" "\<exists>v. links w' = (links w)(e := v)" "allocated w' = allocated w" "said w' = said w"
    by blast+
  have "kept n (hd_of (heads w)) w' (st(i := Live (k, EPushing h e p'))) L"
    by (rule kept_quiet [OF L(3) i]) (use at w' in auto)
  then show ?thesis using w' at L(2,4,5) by (intro J_move [OF J i]) auto
qed

lemma J_pop_step:
  assumes J: "stack_J w st" and i: "i < n" and at: "st i = Live (k, EPopping h q)"
    and step: "Step w' q' \<in> set (pop i h w q)"
  shows "stack_J w' (st(i := Live (k, EPopping h q')))"
proof -
  obtain L where L: "inv (heads w) (links w) (sites st)" "round_ok elems (st i)" "kept n (hd_of (heads w)) w st L"
    "\<And>i. ErrorLine i \<notin> set (said w)" "stack_ops L" using J_facts [OF J i] by metis
  have "sites st i = Popping h q" using at by (simp add: sites_def)
  from pop_steps [OF L(1) i this step]
  have w': "inv (heads w') (links w') ((sites st)(i := Popping h q'))" "hd_of (heads w') = hd_of (heads w)"
    "used (heads w') = used (heads w)" "links w' = links w" "allocated w' = allocated w" "said w' = said w"
    by blast+
  have "expects (Live (k, EPopping h q') :: (nat \<times> ('p, 'q) el_pc) status) = expects (st i)"
    using at by (cases h) auto
  then have "kept n (hd_of (heads w)) w' (st(i := Live (k, EPopping h q'))) L"
    by (intro kept_quiet [OF L(3) i]) (use at w' in auto)
  then show ?thesis using w' at L(2,4,5) by (intro J_move [OF J i]) auto
qed

lemma J_push_ret:
  assumes J: "stack_J w st" and i: "i < n" and at: "st i = Live (k, EPushing h e p)"
    and step: "Ret w' u \<in> set (push i h e w p)"
    and x: "site_at x = NoCall \<or> site_at x = Popping Stack q0" "held x = {#}"
      "expects x = (if h = Stack then 1 else 0)" "mallocs x = 0" "round_ok elems x"
    and cnt: "changes elems h (st i) < 2 * elems"
      "\<And>h'. changes elems h' (st i) + (if h' = h then 1 else 0) \<le> changes elems h' x"
  shows "stack_J w' (st(i := x))"
proof -
  obtain L where L: "inv (heads w) (links w) (sites st)" "kept n (hd_of (heads w)) w st L"
    "\<And>i. ErrorLine i \<notin> set (said w)" "stack_ops L" using J_facts [OF J i] by metis
  have "sites st i = Pushing h e p" "apart n hd_of i e (heads w) (sites st)"
    using kept_apart [where hd_of = hd_of and w = w, OF L(2) i] at by (simp_all add: sites_def)
  from push_returns [OF L(1) i this step J_room [OF J i cnt(1)]]
  have w': "inv (heads w') (links w') ((sites st)(i := NoCall))" "hd_of (heads w') = (hd_of (heads w))(h := e)"
    "links w' = links w" "links w e = hd_of (heads w) h" "allocated w' = allocated w" "said w' = said w"
    "\<And>h'. used (heads w') h' \<le> used (heads w) h' + (if h' = h then 1 else 0)"
    by blast+
  have "kept n ((hd_of (heads w))(h := e)) w' (st(i := x)) (L(h := e # L h))"
    by (rule kept_push [OF L(2) i at]) (use x w' in auto)
  moreover have "inv (heads w') (links w') ((sites st)(i := site_at x))"
    using x(1) w'(1) calls [OF w'(1) i, of "Popping Stack q0"] by auto
  moreover have "used (heads w') h' + changes elems h' (st i) \<le> used (heads w) h' + changes elems h' x" for h'
    using w'(7) [of h'] cnt(2) [of h'] by linarith
  ultimately show ?thesis using w'(2,6) L(3) x(5) stack_ops_push [OF L(4)] by (intro J_move [OF J i]) auto
qed

lemma J_pop_ret:
  assumes J: "stack_J w st" and i: "i < n" and at: "st i = Live (k, EPopping h q)"
    and step: "Ret w' e \<in> set (pop i h w q)" and e: "e \<noteq> NULL"
    and x: "site_at x = NoCall \<or> site_at x = Pushing Free e p0" "held x = {#e#}" "expects x = 0" "mallocs x = 0"
      "round_ok elems x"
    and cnt: "changes elems h (st i) < 2 * elems"
      "\<And>h'. changes elems h' (st i) + (if h' = h then 1 else 0) \<le> changes elems h' x"
  shows "stack_J w' (st(i := x))"
proof -
  obtain L where L: "inv (heads w) (links w) (sites st)" "kept n (hd_of (heads w)) w st L"
    "\<And>i. ErrorLine i \<notin> set (said w)" "stack_ops L" using J_facts [OF J i] by metis
  have "sites st i = Popping h q" using at by (simp add: sites_def)
  from pop_returns [OF L(1) i this step J_room [OF J i cnt(1)], unfolded if_not_P [OF e]]
  have w': "inv (heads w') (links w') ((sites st)(i := NoCall))" "e = hd_of (heads w) h"
    "hd_of (heads w') = (hd_of (heads w))(h := links w e)"
    "links w' = links w" "allocated w' = allocated w" "said w' = said w"
    "\<And>h'. used (heads w') h' \<le> used (heads w) h' + (if h' = h then 1 else 0)"
    by blast+
  obtain ys where ys: "L h = e # ys" "kept n ((hd_of (heads w))(h := links w e)) w' (st(i := x)) (L(h := ys))"
    using kept_pop [OF L(2) i at, of x w'] x(2-4) w'(2,4,5) e by metis
  have "inv (heads w') (links w') ((sites st)(i := site_at x))"
    using x(1) w'(1) calls [OF w'(1) i, of "Pushing Free e p0"] by auto
  moreover have "used (heads w') h' + changes elems h' (st i) \<le> used (heads w) h' + changes elems h' x" for h'
    using w'(7) [of h'] cnt(2) [of h'] by linarith
  ultimately show ?thesis using w'(3,6) L(3) x(5) ys(2) stack_ops_pop [OF L(4) ys(1)] by (intro J_move [OF J i]) auto
qed

text \<open>An empty free list: \<open>malloc\<close> is next. The stack is not empty for the thread that has pushed.\<close>

lemma J_pop_null:
  assumes J: "stack_J w st" and i: "i < n" and at: "st i = Live (k, EPopping h q)"
    and step: "Ret w' NULL \<in> set (pop i h w q)" and k: "k < elems"
  shows "h = Free" "stack_J w' (st(i := Live (k, EMalloc)))"
proof -
  obtain L where L: "inv (heads w) (links w) (sites st)" "kept n (hd_of (heads w)) w st L"
    "\<And>i. ErrorLine i \<notin> set (said w)" "stack_ops L" using J_facts [OF J i] by metis
  have room: "changes elems h (st i) < 2 * elems" using at k by (cases h) auto
  have "sites st i = Popping h q" using at by (simp add: sites_def)
  from pop_returns [OF L(1) i this step J_room [OF J i room], unfolded if_P [OF refl]]
  have w': "inv (heads w') (links w') ((sites st)(i := NoCall))" "NULL = hd_of (heads w) h"
    "hd_of (heads w') = hd_of (heads w)" "links w' = links w" "allocated w' = allocated w" "said w' = said w"
    "\<And>h'. used (heads w') h' \<le> used (heads w) h' + (if h' = h then 1 else 0)"
    by blast+
  show h: "h = Free" using kept_expects [OF L(2) i, of k q] w'(2) at by (cases h) auto
  have "kept n (hd_of (heads w)) w' (st(i := Live (k, EMalloc))) L"
    by (rule kept_no_free [OF L(2) i]) (use at h w' in auto)
  moreover have "used (heads w') h' + changes elems h' (st i) \<le> used (heads w) h' + changes elems h' (Live (k, EMalloc))" for h'
    using w'(7) [of h'] h at by (cases h') auto
  ultimately show "stack_J w' (st(i := Live (k, EMalloc)))"
    using w'(1,3,6) L(3,4) k by (intro J_move [OF J i]) auto
qed

end

context stack_program begin

lemma J_step:
  assumes J: "stack_J w st" and i: "i < n" and at: "st i = Live (k, pc)"
    and step: "Go w' (k', pc') \<in> set (el_step push p0 pop q0 mallc clears elems i w k pc)"
  shows "stack_J w' (st(i := Live (k', pc')))"
proof -
  obtain L where L: "round_ok elems (st i)" "\<And>i. ErrorLine i \<notin> set (said w)" "kept n (hd_of (heads w)) w st L"
    "stack_ops L" using J_facts [OF J i] by metis
  note quiet = J_quiet [OF J i]
  have links_data [simp]: "links (w\<lparr>memory := (memory w)(e := (memory w e)\<lparr>node_tid := v\<rparr>)\<rparr>) = links w"
    "links (w\<lparr>memory := (memory w)(e := (memory w e)\<lparr>node_c := v\<rparr>)\<rparr>) = links w" for e v
    by (auto simp: links_def)
  show ?thesis
  proof (cases pc)
    case ELoop
    then show ?thesis using step at L by (intro quiet) (auto split: if_splits)
  next
    case (EPopping h q)
    from step EPopping consider q' where "Step w' q' \<in> set (pop i h w q)" "k' = k" "pc' = EPopping h q'"
      | e where "Ret w' e \<in> set (pop i h w q)" "e = NULL" "k' = k" "pc' = (if h = Free then EMalloc else EError)"
      | e where "Ret w' e \<in> set (pop i h w q)" "e \<noteq> NULL" "k' = k"
          "pc' = (if h = Free then ESetTid e else if clears then EClear e else EPushing Free e p0)"
      by (cases h) (auto split: call.splits if_splits)
    then show ?thesis
    proof cases
      case 1
      then show ?thesis using J_pop_step [OF J i] at EPopping by blast
    next
      case 2
      then show ?thesis using J_pop_null [OF J i] at EPopping L(1) by auto
    next
      case (3 e)
      then show ?thesis
        using at EPopping L(1) by (intro J_pop_ret [OF J i, of k h q w' e]) (auto split: if_splits)
    qed
  next
    case EMalloc
    let ?w = "w\<lparr>allocated := mallc (allocated w) # allocated w\<rparr>" and ?x = "Live (k, ESayMalloc (mallc (allocated w)))"
    have new: "w' = ?w" "Live (k', pc') = ?x" using EMalloc step by auto
    have "kept n (hd_of (heads ?w)) ?w (st(i := ?x)) L" using kept_malloc [OF L(3) i _ malloc] at EMalloc by simp
    moreover have "inv (heads ?w) (links ?w) ((sites st)(i := site_at ?x))"
    proof -
      have "(sites st)(i := NoCall) = sites st" using at EMalloc by (auto simp: sites_def)
      then show ?thesis using J by (simp add: stack_J_def)
    qed
    moreover have "used (heads ?w) h + changes elems h (st i) \<le> used (heads w) h + changes elems h ?x" for h
      using at EMalloc by (cases h) auto
    ultimately show ?thesis
      unfolding new using at EMalloc L(1,2,4) by (intro J_move [OF J i]) auto
  next
    case (ESayMalloc e)
    have "changes elems h (st i) \<le> changes elems h (Live (k, ESetTid e))" for h using at ESayMalloc by (cases h) auto
    then show ?thesis using step at ESayMalloc L by (intro quiet) auto
  next
    case (ESetTid e)
    have "changes elems h (st i) \<le> changes elems h (Live (k, ESetC e))" for h using at ESetTid by (cases h) auto
    then show ?thesis using step at ESetTid L by (intro quiet) auto
  next
    case (ESetC e)
    have "changes elems h (st i) \<le> changes elems h (Live (k, EPushing Stack e p0))" for h using at ESetC by (cases h) auto
    then show ?thesis using step at ESetC L by (intro quiet) auto
  next
    case (EPushing h e p)
    from step EPushing consider p' where "Step w' p' \<in> set (push i h e w p)" "k' = k" "pc' = EPushing h e p'"
      | u where "Ret w' u \<in> set (push i h e w p)" "k' = (if h = Stack then k else Suc k)"
          "pc' = (if h = Stack then EPopping Stack q0 else ELoop)"
      by (cases h) (auto split: call.splits)
    then show ?thesis
    proof cases
      case 1
      then show ?thesis using J_push_step [OF J i] at EPushing by blast
    next
      case (2 u)
      have "changes elems h' (st i) + (if h' = h then 1 else 0) \<le> changes elems h' (Live (k', pc'))" for h'
        using at EPushing 2 by (cases h'; cases h) auto
      then show ?thesis
        using 2 at EPushing L(1) by (intro J_push_ret [OF J i, of k h e p w' u]) (auto split: if_splits)
    qed
  next
    case (EClear e)
    have new: "w' = set_next e NULL w" "Live (k', pc') = Live (k, EPushing Free e p0)" using EClear step by auto
    have "inv (heads w) (links w) (sites st)" using J by (simp add: stack_J_def)
    moreover have no: "sites st i = NoCall" using at EClear by (simp add: sites_def)
    moreover have "apart n hd_of i e (heads w) (sites st)"
      using kept_apart [where hd_of = hd_of and w = w, OF L(3) i] at EClear by simp
    ultimately have "inv (heads w) ((links w)(e := NULL)) (sites st)" using i by (intro writes)
    then have "inv (heads w) ((links w)(e := NULL)) ((sites st)(i := Pushing Free e p0))"
      using calls i no by blast
    moreover have "kept n (hd_of (heads w)) (set_next e NULL w) (st(i := Live (k, EPushing Free e p0))) L"
      by (rule kept_quiet [OF L(3) i]) (use at EClear in auto)
    moreover have "changes elems h (st i) \<le> changes elems h (Live (k, EPushing Free e p0))" for h
      using at EClear by (cases h) auto
    ultimately show ?thesis unfolding new using at EClear L(1,2,4) by (intro J_move [OF J i]) auto
  next
    case EError
    then show ?thesis using L(1) at by simp
  qed (use step in auto)
qed

lemma J_exit:
  assumes J: "stack_J w st" and i: "i < n" and at: "st i = Live (k, pc)"
    and step: "Exit w' \<in> set (el_step push p0 pop q0 mallc clears elems i w k pc)"
  shows "stack_J w' (st(i := Dead))"
proof -
  obtain L where L: "round_ok elems (st i)" "\<And>i. ErrorLine i \<notin> set (said w)" using J_facts [OF J i] by metis
  have pc: "pc = EEnd \<and> w' = w\<lparr>said := said w @ [EndLine i]\<rparr>"
  proof (cases pc)
    case (EPopping h q)
    then show ?thesis using step by (cases h) (auto split: call.splits)
  next
    case (EPushing h e p)
    then show ?thesis using step by (cases h) (auto split: call.splits)
  qed (use step in auto)
  have "changes elems h (st i) \<le> changes elems h Dead" for h using at pc L(1) by (cases h) auto
  then show ?thesis using pc at L by (intro J_quiet [OF J i]) auto
qed

lemma J_start: "stack_J \<lparr>heads = h0, memory = mem, allocated = [], said = []\<rparr> (\<lambda>_. Unborn)"
proof -
  have "kept n (hd_of h0) \<lparr>heads = h0, memory = mem, allocated = [], said = []\<rparr> (\<lambda>_. Unborn) (\<lambda>_. [])"
    by (simp add: kept_def unused)
  then show ?thesis using unused by (auto simp: stack_J_def intro: exI [of _ "\<lambda>_. []"])
qed

lemma J_created:
  assumes "stack_J w st" "i < n" "st i = Unborn"
  shows "stack_J w (st(i := Live (0, ELoop)))"
  by (rule J_quiet [OF assms(1,2)]) (use assms J_facts [OF assms(1,2)] in auto)

subsection \<open>Progress\<close>

definition all_to_do :: "'h stack_world \<Rightarrow> (tid \<Rightarrow> (nat \<times> ('p, 'q) el_pc) status) \<Rightarrow> nat" where
  "all_to_do w st = (\<Sum>i<n. left_to_do elems (st i))"

definition call_ranks :: "'h stack_world \<Rightarrow> (tid \<Rightarrow> (nat \<times> ('p, 'q) el_pc) status) \<Rightarrow> nat" where
  "call_ranks w st = (\<Sum>i<n. rank (heads w) i (site_at (st i)))"

lemma to_do_less:
  "i < n \<Longrightarrow> left_to_do elems x < left_to_do elems (st i) \<Longrightarrow> all_to_do w' (st(i := x)) < all_to_do w st"
  unfolding all_to_do_def by (intro sum_update_less [of i]) auto

text \<open>A thread that runs alone gets to its next step outside a call, and a call that returns is one.\<close>

lemma J_moves:
  assumes J: "stack_J w st" and i: "i < n" and at: "st i = Live (k, pc)"
  shows "\<exists>x \<in> set (el_step push p0 pop q0 mallc clears elems i w k pc).
    all_to_do (act_world x) (st(i := act_status x)) < all_to_do w st \<or>
    all_to_do (act_world x) (st(i := act_status x)) = all_to_do w st \<and>
    call_ranks (act_world x) (st(i := act_status x)) < call_ranks w st"
    (is "\<exists>x \<in> ?steps. ?less x")
proof -
  obtain L where L: "round_ok elems (st i)" "inv (heads w) (links w) (sites st)" using J_facts [OF J i] by metis
  have go: "\<exists>x \<in> ?steps. ?less x" if "x \<in> ?steps" "left_to_do elems (act_status x) < left_to_do elems (st i)" for x
    using that to_do_less [OF i, of "act_status x" st] by blast
  then have goes: "\<exists>x \<in> ?steps. left_to_do elems (act_status x) < left_to_do elems (st i) \<Longrightarrow> \<exists>x \<in> ?steps. ?less x"
    by blast
  have inside: "\<exists>x \<in> ?steps. ?less x" if "Go w' (k, pc') \<in> ?steps" "el_left pc' = el_left pc"
      "rank (heads w') i (site_at (Live (k, pc'))) < rank (heads w) i (sites st i)"
      "\<forall>j. j \<noteq> i \<longrightarrow> rank (heads w') j (sites st j) = rank (heads w) j (sites st j)" for w' pc'
  proof -
    have "all_to_do w' (st(i := Live (k, pc'))) = all_to_do w st"
      unfolding all_to_do_def using that(2) at by (intro sum_at_same) simp
    moreover have "call_ranks w' (st(i := Live (k, pc'))) < call_ranks w st"
      unfolding call_ranks_def using that(3,4) i by (intro sum_update_less [of i]) (auto simp: sites_def)
    ultimately show ?thesis using that(1) by force
  qed
  show ?thesis
  proof (cases pc)
    case (EPopping h q)
    then have "sites st i = Popping h q" using at by (simp add: sites_def)
    from pop_goes [OF L(2) i this] show ?thesis
    proof (elim disjE exE conjE)
      fix w' e
      assume r: "Ret w' e \<in> set (pop i h w q)"
      show ?thesis
      proof (cases h)
        case Stack
        then show ?thesis using r EPopping at L(1)
          by (intro go [of "Go w' (k, if e = NULL then EError else if clears then EClear e else EPushing Free e p0)"]) force+
      next
        case Free
        then show ?thesis using r EPopping at L(1)
          by (intro go [of "Go w' (k, if e = NULL then EMalloc else ESetTid e)"]) force+
      qed
    next
      fix w' q'
      assume r: "Step w' q' \<in> set (pop i h w q)" "rank (heads w') i (Popping h q') < rank (heads w) i (sites st i)"
        "\<forall>j. j \<noteq> i \<longrightarrow> rank (heads w') j (sites st j) = rank (heads w) j (sites st j)"
      then have "Go w' (k, EPopping h q') \<in> ?steps" using EPopping by (cases h) force+
      then show ?thesis using r EPopping by (intro inside [of w' "EPopping h q'"]) (auto, cases h, auto)
    qed
  next
    case (EPushing h e p)
    then have "sites st i = Pushing h e p" using at by (simp add: sites_def)
    from push_goes [OF L(2) i this] show ?thesis
    proof (elim disjE exE conjE)
      fix w' u
      assume r: "Ret w' u \<in> set (push i h e w p)"
      show ?thesis
      proof (cases h)
        case Stack
        then show ?thesis using r EPushing at L(1) by (intro go [of "Go w' (k, EPopping Stack q0)"]) force+
      next
        case Free
        then show ?thesis using r EPushing at L(1) by (intro go [of "Go w' (Suc k, ELoop)"]) force+
      qed
    next
      fix w' p'
      assume r: "Step w' p' \<in> set (push i h e w p)" "rank (heads w') i (Pushing h e p') < rank (heads w) i (sites st i)"
        "\<forall>j. j \<noteq> i \<longrightarrow> rank (heads w') j (sites st j) = rank (heads w) j (sites st j)"
      then have "Go w' (k, EPushing h e p') \<in> ?steps" using EPushing by (cases h) force+
      then show ?thesis using r EPushing by (intro inside [of w' "EPushing h e p'"]) (auto, cases h, auto)
    qed
  qed (rule goes; use at L(1) in \<open>auto split: if_splits\<close>)+
qed

lemma drains:
  assumes "operations div n = elems"
  shows "fj_drains (stack_prog push p0 pop q0 mallc clears h0 mem n operations) stack_J all_to_do call_ranks"
proof unfold_locales
  let ?P = "stack_prog push p0 pop q0 mallc clears h0 mem n operations"
  show "stack_J (world0 ?P) (\<lambda>_. Unborn)" using J_start by simp
  show "stack_J w (st(i := Live (entry ?P i)))" if "stack_J w st" "i < fj_threads ?P" "st i = Unborn" for w st i
    using J_created that by simp
  show "stack_J w' (st(i := Live l'))" if "stack_J w st" "i < fj_threads ?P" "st i = Live l" "Go w' l' \<in> set (body ?P i w l)"
    for w st i l w' l'
    using that assms J_step by (cases l; cases l') simp
  show "stack_J w' (st(i := Dead))" if "stack_J w st" "i < fj_threads ?P" "st i = Live l" "Exit w' \<in> set (body ?P i w l)"
    for w st i l w'
    using that assms J_exit by (cases l) simp
  show "\<exists>k<fj_threads ?P. \<exists>l x. st k = Live l \<and> x \<in> set (body ?P k w l) \<and>
      (let w' = act_world x; st' = st(k := act_status x)
       in all_to_do w' st' < all_to_do w st \<or> all_to_do w' st' = all_to_do w st \<and> call_ranks w' st' < call_ranks w st)"
    if "stack_J w st" "\<forall>i<fj_threads ?P. st i \<noteq> Unborn" "i < fj_threads ?P" "st i \<noteq> Dead" for w st i
  proof -
    from that obtain k pc where at: "st i = Live (k, pc)" by (cases "st i") auto
    with J_moves [of w st i k pc] that show ?thesis
      using assms by (intro exI [of _ i]) (auto simp: Let_def)
  qed
qed

end

subsection \<open>Correctness of a test program\<close>

text \<open>
  In every reachable state the two lists are what some operations on abstract lists make of
  them and every node is where it should be, nobody has found the stack empty after a push,
  and the program can finish.
\<close>

definition stack_correct ::
  "('h \<Rightarrow> which \<Rightarrow> addr) \<Rightarrow> ('h stack_world, nat \<times> ('p, 'q) el_pc) fj_prog \<Rightarrow> bool" where
  "stack_correct hd_of P \<longleftrightarrow> fj_can_finish P \<and> (\<forall>s. fj_reach P s \<longrightarrow>
     (\<exists>L. stack_ops L \<and> kept (fj_threads P) (hd_of (heads (world s))) (world s) (status s) L) \<and>
     (\<forall>i. ErrorLine i \<notin> set (said (world s))))"

context stack_program begin

lemma program_safe:
  assumes "operations div n = elems"
  shows "stack_correct hd_of (stack_prog push p0 pop q0 mallc clears h0 mem n operations)"
proof -
  note drains = drains [OF assms]
  have "stack_J (world s) (status s)" if s: "fj_reach (stack_prog push p0 pop q0 mallc clears h0 mem n operations) s" for s
    using fj_invariant.fj_good_reach [OF fj_drains.axioms(1) [OF drains] s]
    by (auto simp: fj_invariant.fj_good_def [OF fj_drains.axioms(1) [OF drains]] split: if_splits)
  then show ?thesis
    using fj_drains.fj_finishes [OF drains] by (auto simp: stack_correct_def stack_J_def)
qed

end

end
