(* ===== verification/Stack_Tagged.thy ===== *)
theory Stack_Tagged
  imports Stacks
begin

section \<open>The stack with tagged heads\<close>

text \<open>
  \<open>hardware/stack_cas_tagged.c\<close>: a head is a pointer and a 64-bit tag, loaded and compared and swapped
  together, and every swap adds one to the tag. A thread whose tag is still the head's knows that
  the head has not changed since it loaded it, so the \<open>next\<close> it has read is still right, whatever
  nodes have come and gone in between. The tag must not come round to the same value, so the
  number of operations is bounded by the width of the tag.
\<close>

record node_head =
  hd_node :: addr
  aba :: u64

datatype tpush_pc = TLoad | TLink node_head | TCas node_head

fun tagged_push :: "tid \<Rightarrow> which \<Rightarrow> addr \<Rightarrow> (which \<Rightarrow> node_head) stack_world \<Rightarrow> tpush_pc \<Rightarrow>
    ((which \<Rightarrow> node_head) stack_world, tpush_pc, unit) call list" where
  "tagged_push i h e w TLoad = [Step w (TLink (heads w h))]"
| "tagged_push i h e w (TLink old) = [Step (set_next e (hd_node old) w) (TCas old)]"
| "tagged_push i h e w (TCas old) =
     [if heads w h = old
      then Ret (w\<lparr>heads := (heads w)(h := \<lparr>hd_node = e, aba = aba old + 1\<rparr>)\<rparr>) ()
      else Step w (TLink (heads w h))]"

datatype tpop_pc = TPLoad | TNext node_head | TPCas node_head addr

text \<open>The test for an empty stack is on the local copy, right after it is loaded.\<close>

definition tagged_test :: "node_head \<Rightarrow> (which \<Rightarrow> node_head) stack_world \<Rightarrow>
    ((which \<Rightarrow> node_head) stack_world, tpop_pc, addr) call" where
  "tagged_test old w = (if hd_node old = NULL then Ret w NULL else Step w (TNext old))"

fun tagged_pop :: "tid \<Rightarrow> which \<Rightarrow> (which \<Rightarrow> node_head) stack_world \<Rightarrow> tpop_pc \<Rightarrow>
    ((which \<Rightarrow> node_head) stack_world, tpop_pc, addr) call list" where
  "tagged_pop i h w TPLoad = [tagged_test (heads w h) w]"
| "tagged_pop i h w (TNext old) = [Step w (TPCas old (links w (hd_node old)))]"
| "tagged_pop i h w (TPCas old p) =
     [if heads w h = old
      then Ret (w\<lparr>heads := (heads w)(h := \<lparr>hd_node = p, aba = aba old + 1\<rparr>)\<rparr>) (hd_node old)
      else tagged_test (heads w h) w]"

definition no_heads :: "which \<Rightarrow> node_head" where
  "no_heads = (\<lambda>_. \<lparr>hd_node = NULL, aba = 0\<rparr>)"

definition stack_tagged_prog ::
  "(addr list \<Rightarrow> addr) \<Rightarrow> (addr \<Rightarrow> node) \<Rightarrow> nat \<Rightarrow> nat \<Rightarrow>
   ((which \<Rightarrow> node_head) stack_world, nat \<times> (tpush_pc, tpop_pc) el_pc) fj_prog" where
  "stack_tagged_prog mallc mem n operations =
     stack_prog tagged_push TLoad tagged_pop TPLoad mallc False no_heads mem n operations"

subsection \<open>The contract\<close>

text \<open>A copy of a head, older or as old as the head.\<close>

definition before :: "node_head \<Rightarrow> node_head \<Rightarrow> bool" where
  "before old cur \<longleftrightarrow> unat (aba old) \<le> unat (aba cur) \<and> (aba old = aba cur \<longrightarrow> old = cur)"

fun tagged_knows :: "(which \<Rightarrow> node_head) \<Rightarrow> (addr \<Rightarrow> addr) \<Rightarrow> (tpush_pc, tpop_pc) site \<Rightarrow> bool" where
  "tagged_knows hs nx (Pushing h e (TLink old)) = before old (hs h)"
| "tagged_knows hs nx (Pushing h e (TCas old)) = (before old (hs h) \<and> nx e = hd_node old)"
| "tagged_knows hs nx (Popping h (TNext old)) = (before old (hs h) \<and> hd_node old \<noteq> NULL)"
| "tagged_knows hs nx (Popping h (TPCas old p)) =
     (before old (hs h) \<and> hd_node old \<noteq> NULL \<and> (old = hs h \<longrightarrow> p = nx (hd_node old)))"
| "tagged_knows hs nx _ = True"

definition tagged_inv :: "nat \<Rightarrow> (which \<Rightarrow> node_head) \<Rightarrow> (addr \<Rightarrow> addr) \<Rightarrow> (tid \<Rightarrow> (tpush_pc, tpop_pc) site) \<Rightarrow> bool" where
  "tagged_inv n hs nx at \<longleftrightarrow> (\<forall>i<n. tagged_knows hs nx (at i))"

fun tagged_rank :: "(which \<Rightarrow> node_head) \<Rightarrow> tid \<Rightarrow> (tpush_pc, tpop_pc) site \<Rightarrow> nat" where
  "tagged_rank hs i (Pushing h e TLoad) = 3"
| "tagged_rank hs i (Pushing h e (TLink old)) = (if old = hs h then 2 else 5)"
| "tagged_rank hs i (Pushing h e (TCas old)) = (if old = hs h then 1 else 4)"
| "tagged_rank hs i (Popping h TPLoad) = 3"
| "tagged_rank hs i (Popping h (TNext old)) = (if old = hs h then 2 else 5)"
| "tagged_rank hs i (Popping h (TPCas old p)) = (if old = hs h then 1 else 4)"
| "tagged_rank hs i NoCall = 0"

definition tag_top :: "(which \<Rightarrow> node_head) \<Rightarrow> which \<Rightarrow> addr" where
  "tag_top hs h = hd_node (hs h)"

definition tag_used :: "(which \<Rightarrow> node_head) \<Rightarrow> which \<Rightarrow> nat" where
  "tag_used hs h = unat (aba (hs h))"

lemma before_refl [simp]: "before x x"
  by (simp add: before_def)

lemma tag_next: "Suc (unat (t :: u64)) < 2 ^ 64 \<Longrightarrow> unat (t + 1) = Suc (unat t)"
  by (simp add: unat_word_ariths)

text \<open>A swap makes every copy an old one.\<close>

lemma before_swap:
  assumes "before old cur" "Suc (unat (aba cur)) < 2 ^ 64" "aba new = aba cur + 1"
  shows "before old new" "old \<noteq> new"
proof -
  have "unat (aba new) = Suc (unat (aba cur))" using tag_next [OF assms(2)] assms(3) by simp
  then have "unat (aba old) < unat (aba new)" using assms(1) by (simp add: before_def)
  then show "before old new" "old \<noteq> new" by (auto simp: before_def)
qed

lemma knows_swap:
  assumes "tagged_knows hs nx x" "Suc (unat (aba (hs h))) < 2 ^ 64" "aba new = aba (hs h) + 1"
  shows "tagged_knows (hs(h := new)) nx x"
  using assms before_swap [OF _ assms(2,3)]
  by (cases "(hs, nx, x)" rule: tagged_knows.cases) auto

text \<open>A write to the \<open>next\<close> of a node nobody else pushes and that is not on top.\<close>

lemma knows_write:
  assumes "tagged_knows hs nx x" "\<not> pushes x e" "\<forall>h. tag_top hs h \<noteq> e"
  shows "tagged_knows hs (nx(e := v)) x"
  using assms by (cases "(hs, nx, x)" rule: tagged_knows.cases) (auto simp: tag_top_def)

lemma tagged_write:
  assumes "tagged_inv n hs nx at" "apart n tag_top i e hs at" "tagged_knows hs (nx(e := v)) x"
  shows "tagged_inv n hs (nx(e := v)) (at(i := x))"
  using assms knows_write [of hs nx _ e v] by (auto simp: tagged_inv_def apart_def)

lemma tagged_same: "tagged_inv n hs nx at \<Longrightarrow> tagged_knows hs nx x \<Longrightarrow> tagged_inv n hs nx (at(i := x))"
  by (simp add: tagged_inv_def)

lemma tagged_swap:
  assumes "tagged_inv n hs nx at" "Suc (unat (aba (hs h))) < 2 ^ 64" "aba new = aba (hs h) + 1"
  shows "tagged_inv n (hs(h := new)) nx (at(i := NoCall))"
  using assms knows_swap [of hs nx _ h new] by (auto simp: tagged_inv_def)

lemma tagged_impl: "stack_impl tagged_push TLoad tagged_pop TPLoad no_heads n (2 ^ 64) tag_top tag_used (tagged_inv n) tagged_rank"
proof unfold_locales
  fix w :: "(which \<Rightarrow> node_head) stack_world" and at i h e p w' p'
  assume s: "tagged_inv n (heads w) (links w) at" "i < n" "at i = Pushing h e p" "apart n tag_top i e (heads w) at"
    and step: "Step w' p' \<in> set (tagged_push i h e w p)"
  have "tagged_inv n (heads w') (links w') (at(i := Pushing h e p')) \<and> heads w' = heads w \<and>
      (\<exists>v. links w' = (links w)(e := v)) \<and> allocated w' = allocated w \<and> said w' = said w"
  proof (cases p)
    case (TLink old)
    moreover have "before old (heads w h)" using s(1-3) TLink by (auto simp: tagged_inv_def)
    ultimately show ?thesis using step s by (auto intro: tagged_write)
  qed (use step s in \<open>auto simp: tagged_same intro: exI [of _ "links w e"] split: if_splits\<close>)
  then show "tagged_inv n (heads w') (links w') (at(i := Pushing h e p')) \<and> tag_top (heads w') = tag_top (heads w) \<and>
      tag_used (heads w') = tag_used (heads w) \<and> (\<exists>v. links w' = (links w)(e := v)) \<and>
      allocated w' = allocated w \<and> said w' = said w" by (metis (no_types))
next
  fix w :: "(which \<Rightarrow> node_head) stack_world" and at i h e p w' u
  assume s: "tagged_inv n (heads w) (links w) at" "i < n" "at i = Pushing h e p"
    and step: "Ret w' u \<in> set (tagged_push i h e w p)" and room: "Suc (tag_used (heads w) h) < 2 ^ 64"
  from step have p: "p = TCas (heads w h)" and w': "w' = w\<lparr>heads := (heads w)(h := \<lparr>hd_node = e, aba = aba (heads w h) + 1\<rparr>)\<rparr>"
    by (cases p; simp split: if_splits)+
  have "links w e = hd_node (heads w h)" using s p by (auto simp: tagged_inv_def)
  then show "tagged_inv n (heads w') (links w') (at(i := NoCall)) \<and> tag_top (heads w') = (tag_top (heads w))(h := e) \<and>
      links w' = links w \<and> links w e = tag_top (heads w) h \<and>
      (\<forall>h'. tag_used (heads w') h' \<le> tag_used (heads w) h' + (if h' = h then 1 else 0)) \<and>
      allocated w' = allocated w \<and> said w' = said w"
    using w' room tagged_swap [OF s(1)] tag_next by (auto simp: tag_top_def tag_used_def)
next
  fix w :: "(which \<Rightarrow> node_head) stack_world" and at i h q w' q'
  assume s: "tagged_inv n (heads w) (links w) at" "i < n" "at i = Popping h q"
    and step: "Step w' q' \<in> set (tagged_pop i h w q)"
  have k: "tagged_knows (heads w) (links w) (Popping h q)" using s by (metis tagged_inv_def)
  have "w' = w \<and> tagged_knows (heads w) (links w) (Popping h q')"
    using step k by (cases q) (auto simp: tagged_test_def split: if_splits)
  then show "tagged_inv n (heads w') (links w') (at(i := Popping h q')) \<and> tag_top (heads w') = tag_top (heads w) \<and>
      tag_used (heads w') = tag_used (heads w) \<and> links w' = links w \<and> allocated w' = allocated w \<and> said w' = said w"
    using tagged_same [OF s(1)] by simp
next
  fix w :: "(which \<Rightarrow> node_head) stack_world" and at i h q w' e
  assume s: "tagged_inv n (heads w) (links w) at" "i < n" "at i = Popping h q"
    and step: "Ret w' e \<in> set (tagged_pop i h w q)" and room: "Suc (tag_used (heads w) h) < 2 ^ 64"
  have k: "tagged_knows (heads w) (links w) (Popping h q)" using s by (metis tagged_inv_def)
  from step consider "w' = w" "e = NULL" "hd_node (heads w h) = NULL"
    | p where "q = TPCas (heads w h) p" "e = hd_node (heads w h)"
      "w' = w\<lparr>heads := (heads w)(h := \<lparr>hd_node = p, aba = aba (heads w h) + 1\<rparr>)\<rparr>"
    by (cases q) (auto simp: tagged_test_def split: if_splits)
  then show "tagged_inv n (heads w') (links w') (at(i := NoCall)) \<and> links w' = links w \<and> e = tag_top (heads w) h \<and>
      tag_top (heads w') = (if e = NULL then tag_top (heads w) else (tag_top (heads w))(h := links w e)) \<and>
      (\<forall>h'. tag_used (heads w') h' \<le> tag_used (heads w) h' + (if h' = h then 1 else 0)) \<and>
      allocated w' = allocated w \<and> said w' = said w"
  proof cases
    case 1
    then show ?thesis using tagged_same [OF s(1), of NoCall] by (simp add: tag_top_def)
  next
    case (2 p)
    then have "e \<noteq> NULL" "p = links w e" using k by auto
    then show ?thesis using 2 room tagged_swap [OF s(1)] tag_next by (auto simp: tag_top_def tag_used_def)
  qed
next
  fix w :: "(which \<Rightarrow> node_head) stack_world" and at :: "tid \<Rightarrow> (tpush_pc, tpop_pc) site" and i h e p
  assume "at i = Pushing h e p"
  then show "(\<exists>w' u. Ret w' u \<in> set (tagged_push i h e w p)) \<or>
      (\<exists>w' p'. Step w' p' \<in> set (tagged_push i h e w p) \<and>
         tagged_rank (heads w') i (Pushing h e p') < tagged_rank (heads w) i (at i) \<and>
         (\<forall>j. j \<noteq> i \<longrightarrow> tagged_rank (heads w') j (at j) = tagged_rank (heads w) j (at j)))"
    by (cases p) auto
next
  fix w :: "(which \<Rightarrow> node_head) stack_world" and at :: "tid \<Rightarrow> (tpush_pc, tpop_pc) site" and i h q
  assume "at i = Popping h q"
  then show "(\<exists>w' e. Ret w' e \<in> set (tagged_pop i h w q)) \<or>
      (\<exists>w' q'. Step w' q' \<in> set (tagged_pop i h w q) \<and>
         tagged_rank (heads w') i (Popping h q') < tagged_rank (heads w) i (at i) \<and>
         (\<forall>j. j \<noteq> i \<longrightarrow> tagged_rank (heads w') j (at j) = tagged_rank (heads w) j (at j)))"
    by (cases q) (auto simp: tagged_test_def)
next
  show "tagged_inv n hs nx (at(i := x))" if "tagged_inv n hs nx at" "x = Pushing h e TLoad \<or> x = Popping h TPLoad"
    for hs nx at i x h e
    using that by (auto intro: tagged_same)
  show "tagged_inv n hs (nx(e := v)) at" if "tagged_inv n hs nx at" "at i = NoCall" "apart n tag_top i e hs at"
    for hs nx at i e v
  proof -
    have "at(i := NoCall) = at" using that(2) by auto
    then show ?thesis using tagged_write [OF that(1,3), of v NoCall] by simp
  qed
qed (simp_all add: tag_top_def tag_used_def no_heads_def tagged_inv_def)


lemma tagged_program:
  assumes "malloc_fresh mallc" "2 * (n * elems) < 2 ^ 64"
  shows "stack_program tagged_push TLoad tagged_pop TPLoad no_heads n (2 ^ 64) tag_top tag_used (tagged_inv n) tagged_rank
    mallc elems"
  by (rule stack_program.intro [OF tagged_impl]) (use assms in unfold_locales)

interpretation tagged: stack_program tagged_push TLoad tagged_pop TPLoad no_heads NUM_THREADS "2 ^ 64" tag_top tag_used
    "tagged_inv NUM_THREADS" tagged_rank above_all False mem 2500000 for mem
  by (rule tagged_program [OF above_all_fresh]) (simp add: NUM_THREADS_def)

end
