(* ===== verification/Stack_LLSC.thy ===== *)
theory Stack_LLSC
  imports Stacks
begin

section \<open>The stack with load-link and store-conditional\<close>

text \<open>
  \<open>hardware/arm/stack_llsc_freelist.c\<close> with the \<open>push\<close> and \<open>pop\<close> of \<open>arm/stack_llsc.s\<close>. A thread has one
  exclusive monitor: \<open>ldrex\<close> of a head reserves it, a store to the head by anybody clears every
  reservation of it, and \<open>strex\<close> stores only with the reservation still there. It may fail
  without a reason, as the architecture says; the memory barrier after it changes nothing here.
\<close>

record llsc_heads =
  ptr :: "which \<Rightarrow> addr"
  monitor :: "tid \<Rightarrow> which option"

definition reserve :: "tid \<Rightarrow> which \<Rightarrow> llsc_heads stack_world \<Rightarrow> llsc_heads stack_world" where
  "reserve i h w = w\<lparr>heads := (heads w)\<lparr>monitor := (monitor (heads w))(i := Some h)\<rparr>\<rparr>"

definition unreserve :: "tid \<Rightarrow> llsc_heads stack_world \<Rightarrow> llsc_heads stack_world" where
  "unreserve i w = w\<lparr>heads := (heads w)\<lparr>monitor := (monitor (heads w))(i := None)\<rparr>\<rparr>"

definition store_exclusive :: "which \<Rightarrow> addr \<Rightarrow> llsc_heads stack_world \<Rightarrow> llsc_heads stack_world" where
  "store_exclusive h p w = w\<lparr>heads := \<lparr>ptr = (ptr (heads w))(h := p),
     monitor = (\<lambda>j. if monitor (heads w) j = Some h then None else monitor (heads w) j)\<rparr>\<rparr>"

datatype lpush_pc = LLoad | LStore addr | LExcl addr | LStrex addr

fun llsc_push :: "tid \<Rightarrow> which \<Rightarrow> addr \<Rightarrow> llsc_heads stack_world \<Rightarrow> lpush_pc \<Rightarrow>
    (llsc_heads stack_world, lpush_pc, unit) call list" where
  "llsc_push i h e w LLoad = [Step w (LStore (ptr (heads w) h))]"
| "llsc_push i h e w (LStore r3) = [Step (set_next e r3 w) (LExcl r3)]"
| "llsc_push i h e w (LExcl r3) = [Step (reserve i h w) (if ptr (heads w) h = r3 then LStrex r3 else LLoad)]"
| "llsc_push i h e w (LStrex r3) =
     (if monitor (heads w) i = Some h then [Ret (store_exclusive h e w) ()] else []) @ [Step (unreserve i w) LLoad]"

datatype lpop_pc = LPExcl | LPNext addr | LPStrex addr addr

fun llsc_pop :: "tid \<Rightarrow> which \<Rightarrow> llsc_heads stack_world \<Rightarrow> lpop_pc \<Rightarrow>
    (llsc_heads stack_world, lpop_pc, addr) call list" where
  "llsc_pop i h w LPExcl =
     [if ptr (heads w) h = NULL then Ret (reserve i h w) NULL else Step (reserve i h w) (LPNext (ptr (heads w) h))]"
| "llsc_pop i h w (LPNext r1) = [Step w (LPStrex r1 (links w r1))]"
| "llsc_pop i h w (LPStrex r1 r2) =
     (if monitor (heads w) i = Some h then [Ret (store_exclusive h r2 w) r1] else []) @ [Step (unreserve i w) LPExcl]"

definition llsc_empty :: llsc_heads where
  "llsc_empty = \<lparr>ptr = (\<lambda>_. NULL), monitor = (\<lambda>_. None)\<rparr>"

definition stack_llsc_prog ::
  "(addr list \<Rightarrow> addr) \<Rightarrow> (addr \<Rightarrow> node) \<Rightarrow> nat \<Rightarrow> nat \<Rightarrow>
   (llsc_heads stack_world, nat \<times> (lpush_pc, lpop_pc) el_pc) fj_prog" where
  "stack_llsc_prog mallc mem n operations =
     stack_prog llsc_push LLoad llsc_pop LPExcl mallc True llsc_empty mem n operations"

subsection \<open>The contract\<close>

text \<open>What a thread knows of the head while it has the reservation.\<close>

fun llsc_knows :: "llsc_heads \<Rightarrow> (addr \<Rightarrow> addr) \<Rightarrow> tid \<Rightarrow> (lpush_pc, lpop_pc) site \<Rightarrow> bool" where
  "llsc_knows hs nx i (Pushing h e (LExcl r3)) = (nx e = r3)"
| "llsc_knows hs nx i (Pushing h e (LStrex r3)) = (nx e = r3 \<and> (monitor hs i = Some h \<longrightarrow> ptr hs h = r3))"
| "llsc_knows hs nx i (Popping h (LPNext r1)) = (r1 \<noteq> NULL \<and> (monitor hs i = Some h \<longrightarrow> ptr hs h = r1))"
| "llsc_knows hs nx i (Popping h (LPStrex r1 r2)) =
     (r1 \<noteq> NULL \<and> (monitor hs i = Some h \<longrightarrow> ptr hs h = r1 \<and> r2 = nx r1))"
| "llsc_knows hs nx i _ = True"

definition llsc_inv :: "nat \<Rightarrow> llsc_heads \<Rightarrow> (addr \<Rightarrow> addr) \<Rightarrow> (tid \<Rightarrow> (lpush_pc, lpop_pc) site) \<Rightarrow> bool" where
  "llsc_inv n hs nx at \<longleftrightarrow> (\<forall>i<n. llsc_knows hs nx i (at i))"

fun llsc_rank :: "llsc_heads \<Rightarrow> tid \<Rightarrow> (lpush_pc, lpop_pc) site \<Rightarrow> nat" where
  "llsc_rank hs i (Pushing h e LLoad) = 4"
| "llsc_rank hs i (Pushing h e (LStore r3)) = (if ptr hs h = r3 then 3 else 6)"
| "llsc_rank hs i (Pushing h e (LExcl r3)) = (if ptr hs h = r3 then 2 else 5)"
| "llsc_rank hs i (Pushing h e (LStrex r3)) = (if monitor hs i = Some h then 1 else 5)"
| "llsc_rank hs i (Popping h LPExcl) = 3"
| "llsc_rank hs i (Popping h (LPNext r1)) = (if monitor hs i = Some h then 2 else 5)"
| "llsc_rank hs i (Popping h (LPStrex r1 r2)) = (if monitor hs i = Some h then 1 else 4)"
| "llsc_rank hs i NoCall = 0"

lemma heads_reserve [simp]:
  "ptr (heads (reserve i h w)) = ptr (heads w)" "monitor (heads (reserve i h w)) = (monitor (heads w))(i := Some h)"
  "links (reserve i h w) = links w" "allocated (reserve i h w) = allocated w" "said (reserve i h w) = said w"
  by (auto simp: reserve_def)

lemma heads_unreserve [simp]:
  "ptr (heads (unreserve i w)) = ptr (heads w)" "monitor (heads (unreserve i w)) = (monitor (heads w))(i := None)"
  "links (unreserve i w) = links w" "allocated (unreserve i w) = allocated w" "said (unreserve i w) = said w"
  by (auto simp: unreserve_def)

lemma heads_exclusive [simp]:
  "ptr (heads (store_exclusive h p w)) = (ptr (heads w))(h := p)"
  "monitor (heads (store_exclusive h p w)) j = (if monitor (heads w) j = Some h then None else monitor (heads w) j)"
  "links (store_exclusive h p w) = links w" "allocated (store_exclusive h p w) = allocated w"
  "said (store_exclusive h p w) = said w"
  by (auto simp: store_exclusive_def)

text \<open>Only its own monitor and the head matter to a thread; a store to the head takes the monitor away.\<close>

lemma llsc_stable:
  assumes "llsc_knows hs nx j x" "monitor hs' j = monitor hs j \<and> ptr hs' = ptr hs \<or>
      (\<exists>h. monitor hs' j \<noteq> Some h \<and> (\<forall>h'. h' \<noteq> h \<longrightarrow> ptr hs' h' = ptr hs h' \<and>
         (monitor hs' j = Some h' \<longleftrightarrow> monitor hs j = Some h')))"
  shows "llsc_knows hs' nx j x"
  using assms(2)
proof (elim disjE exE conjE)
  fix h
  assume "monitor hs' j \<noteq> Some h" "\<forall>h'. h' \<noteq> h \<longrightarrow> ptr hs' h' = ptr hs h' \<and>
     (monitor hs' j = Some h' \<longleftrightarrow> monitor hs j = Some h')"
  then show ?thesis using assms(1) by (cases "(hs, nx, j, x)" rule: llsc_knows.cases) auto
qed (use assms(1) in \<open>cases "(hs, nx, j, x)" rule: llsc_knows.cases; simp\<close>)

lemma llsc_write:
  assumes "llsc_inv n hs nx at" "apart n ptr i e hs at" "llsc_knows hs (nx(e := v)) i x"
  shows "llsc_inv n hs (nx(e := v)) (at(i := x))"
proof -
  have "llsc_knows hs (nx(e := v)) j y" if "llsc_knows hs nx j y" "\<not> pushes y e" for j y
    using that assms(2) by (cases "(hs, nx, j, y)" rule: llsc_knows.cases) (auto simp: apart_def)
  then show ?thesis using assms by (auto simp: llsc_inv_def apart_def)
qed

text \<open>A step of one thread that changes its own monitor at most, or stores to the head.\<close>

lemma llsc_mine:
  assumes "llsc_inv n hs nx at" "ptr hs' = ptr hs" "\<And>j. j \<noteq> i \<Longrightarrow> monitor hs' j = monitor hs j" "llsc_knows hs' nx i x"
  shows "llsc_inv n hs' nx (at(i := x))"
  unfolding llsc_inv_def
proof (intro allI impI)
  fix j assume "j < n"
  then show "llsc_knows hs' nx j ((at(i := x)) j)"
    using assms llsc_stable [of hs nx j "at j" hs'] by (cases "j = i") (auto simp: llsc_inv_def)
qed

lemma llsc_store:
  assumes "llsc_inv n (heads w) nx at"
  shows "llsc_inv n (heads (store_exclusive h p w)) nx (at(i := NoCall))"
  unfolding llsc_inv_def
proof (intro allI impI)
  fix j assume j: "j < n"
  have "llsc_knows (heads (store_exclusive h p w)) nx j (at j)"
    by (rule llsc_stable [where hs = "heads w"]) (use assms j in \<open>auto simp: llsc_inv_def intro!: exI [of _ h]\<close>)
  then show "llsc_knows (heads (store_exclusive h p w)) nx j ((at(i := NoCall)) j)" by (cases "j = i") auto
qed

lemma llsc_ranks:
  "ptr hs' = ptr hs \<Longrightarrow> monitor hs' j = monitor hs j \<Longrightarrow> llsc_rank hs' j x = llsc_rank hs j x"
  by (cases "(hs, j, x)" rule: llsc_rank.cases) auto

lemma llsc_impl: "stack_impl llsc_push LLoad llsc_pop LPExcl llsc_empty n lim ptr (\<lambda>_ _. 0) (llsc_inv n) llsc_rank"
proof unfold_locales
  fix w :: "llsc_heads stack_world" and at :: "tid \<Rightarrow> (lpush_pc, lpop_pc) site" and i h e p w' p'
  assume s: "llsc_inv n (heads w) (links w) at" "i < n" "at i = Pushing h e p" "apart n ptr i e (heads w) at"
    and step: "Step w' p' \<in> set (llsc_push i h e w p)"
  have k: "llsc_knows (heads w) (links w) i (Pushing h e p)" using s by (metis llsc_inv_def)
  show "llsc_inv n (heads w') (links w') (at(i := Pushing h e p')) \<and> ptr (heads w') = ptr (heads w) \<and>
      (\<lambda>_. 0) = (\<lambda>_. 0 :: nat) \<and> (\<exists>v. links w' = (links w)(e := v)) \<and> allocated w' = allocated w \<and> said w' = said w"
  proof (cases p)
    case (LStore r3)
    then show ?thesis using step llsc_write [OF s(1,4)] by auto
  qed (use step k in \<open>auto intro!: llsc_mine [OF s(1)] intro: exI [of _ "links w e"] split: if_splits\<close>)
next
  fix w :: "llsc_heads stack_world" and at :: "tid \<Rightarrow> (lpush_pc, lpop_pc) site" and i h e p w' u
  assume s: "llsc_inv n (heads w) (links w) at" "i < n" "at i = Pushing h e p"
    and step: "Ret w' u \<in> set (llsc_push i h e w p)"
  have k: "llsc_knows (heads w) (links w) i (Pushing h e p)" using s by (metis llsc_inv_def)
  from step obtain r3 where "p = LStrex r3" "w' = store_exclusive h e w" "monitor (heads w) i = Some h"
    by (cases p) (auto split: if_splits)
  then show "llsc_inv n (heads w') (links w') (at(i := NoCall)) \<and> ptr (heads w') = (ptr (heads w))(h := e) \<and>
      links w' = links w \<and> links w e = ptr (heads w) h \<and>
      (\<forall>h'. (0 :: nat) \<le> 0 + (if h' = h then 1 else 0)) \<and> allocated w' = allocated w \<and> said w' = said w"
    using k llsc_store [OF s(1)] by simp
next
  fix w :: "llsc_heads stack_world" and at :: "tid \<Rightarrow> (lpush_pc, lpop_pc) site" and i h q w' q'
  assume s: "llsc_inv n (heads w) (links w) at" "i < n" "at i = Popping h q"
    and step: "Step w' q' \<in> set (llsc_pop i h w q)"
  have k: "llsc_knows (heads w) (links w) i (Popping h q)" using s by (metis llsc_inv_def)
  show "llsc_inv n (heads w') (links w') (at(i := Popping h q')) \<and> ptr (heads w') = ptr (heads w) \<and>
      (\<lambda>_. 0) = (\<lambda>_. 0 :: nat) \<and> links w' = links w \<and> allocated w' = allocated w \<and> said w' = said w"
    using step k by (cases q) (auto intro!: llsc_mine [OF s(1)] split: if_splits)
next
  fix w :: "llsc_heads stack_world" and at :: "tid \<Rightarrow> (lpush_pc, lpop_pc) site" and i h q w' e
  assume s: "llsc_inv n (heads w) (links w) at" "i < n" "at i = Popping h q"
    and step: "Ret w' e \<in> set (llsc_pop i h w q)"
  have k: "llsc_knows (heads w) (links w) i (Popping h q)" using s by (metis llsc_inv_def)
  from step consider "w' = reserve i h w" "e = NULL" "ptr (heads w) h = NULL"
    | r2 where "q = LPStrex e r2" "w' = store_exclusive h r2 w" "monitor (heads w) i = Some h"
    by (cases q) (auto split: if_splits)
  then show "llsc_inv n (heads w') (links w') (at(i := NoCall)) \<and> links w' = links w \<and> e = ptr (heads w) h \<and>
      ptr (heads w') = (if e = NULL then ptr (heads w) else (ptr (heads w))(h := links w e)) \<and>
      (\<forall>h'. (0 :: nat) \<le> 0 + (if h' = h then 1 else 0)) \<and> allocated w' = allocated w \<and> said w' = said w"
  proof cases
    case 1
    then show ?thesis by (auto intro!: llsc_mine [OF s(1)])
  next
    case (2 r2)
    then show ?thesis using k llsc_store [OF s(1)] by auto
  qed
next
  fix w :: "llsc_heads stack_world" and at :: "tid \<Rightarrow> (lpush_pc, lpop_pc) site" and i h e p
  assume "at i = Pushing h e p"
  then show "(\<exists>w' u. Ret w' u \<in> set (llsc_push i h e w p)) \<or>
      (\<exists>w' p'. Step w' p' \<in> set (llsc_push i h e w p) \<and>
         llsc_rank (heads w') i (Pushing h e p') < llsc_rank (heads w) i (at i) \<and>
         (\<forall>j. j \<noteq> i \<longrightarrow> llsc_rank (heads w') j (at j) = llsc_rank (heads w) j (at j)))"
    by (cases p) (auto intro!: llsc_ranks)
next
  fix w :: "llsc_heads stack_world" and at :: "tid \<Rightarrow> (lpush_pc, lpop_pc) site" and i h q
  assume "at i = Popping h q"
  then show "(\<exists>w' e. Ret w' e \<in> set (llsc_pop i h w q)) \<or>
      (\<exists>w' q'. Step w' q' \<in> set (llsc_pop i h w q) \<and>
         llsc_rank (heads w') i (Popping h q') < llsc_rank (heads w) i (at i) \<and>
         (\<forall>j. j \<noteq> i \<longrightarrow> llsc_rank (heads w') j (at j) = llsc_rank (heads w) j (at j)))"
    by (cases q) (auto intro!: llsc_ranks)
next
  show "llsc_inv n hs nx (at(i := x))" if "llsc_inv n hs nx at" "x = Pushing h e LLoad \<or> x = Popping h LPExcl"
    for hs nx at i x h e
    using that by (auto simp: llsc_inv_def)
  show "llsc_inv n hs (nx(e := v)) at" if "llsc_inv n hs nx at" "at i = NoCall" "apart n ptr i e hs at"
    for hs nx at i e v
  proof -
    have "at(i := NoCall) = at" using that(2) by auto
    then show ?thesis using llsc_write [OF that(1,3), of v NoCall] by simp
  qed
qed (simp_all add: llsc_empty_def llsc_inv_def)


lemma llsc_program:
  assumes "malloc_fresh mallc"
  shows "stack_program llsc_push LLoad llsc_pop LPExcl llsc_empty n (Suc (2 * (n * elems))) ptr (\<lambda>_ _. 0) (llsc_inv n) llsc_rank
    mallc elems"
  by (rule stack_program.intro [OF llsc_impl]) (use assms in \<open>unfold_locales, simp_all\<close>)

interpretation llsc: stack_program llsc_push LLoad llsc_pop LPExcl llsc_empty NUM_THREADS
    "Suc (2 * (NUM_THREADS * 2500000))" ptr "\<lambda>_ _. 0" "llsc_inv NUM_THREADS" llsc_rank above_all True mem 2500000 for mem
  by (rule llsc_program [OF above_all_fresh])

end
