(* ===== verification/Stack_CAS.thy ===== *)
theory Stack_CAS
  imports Stack_Tagged Stack_LLSC
begin

section \<open>The stacks that suffer from ABA\<close>

text \<open>
  \<open>hardware/stack_cas_freelist.c\<close> compares and swaps the pointer alone: a thread that has read \<open>head\<close> and
  the \<open>next\<close> of its node swaps successfully when the same node is on top again, although another
  is below it by then. The run \<open>aba_run\<close> ends with one node in the hands of two threads. In
  \<open>hardware/stack_cas_malloc.c\<close>, which frees the nodes and asks for new ones, the same happens when
  \<open>malloc\<close> returns an address that was freed.

  \<open>push\<close> and \<open>pop\<close> are right when nothing interferes, as those of the other two stacks are: the last
  property of this theory runs them alone.
\<close>

datatype cpush_pc = CLoad | CStore addr | CExpect | CCas addr

fun cas_push :: "tid \<Rightarrow> which \<Rightarrow> addr \<Rightarrow> (which \<Rightarrow> addr) stack_world \<Rightarrow> cpush_pc \<Rightarrow>
    ((which \<Rightarrow> addr) stack_world, cpush_pc, unit) call list" where
  "cas_push i h e w CLoad = [Step w (CStore (heads w h))]"
| "cas_push i h e w (CStore p) = [Step (set_next e p w) CExpect]"
| "cas_push i h e w CExpect = [Step w (CCas (links w e))]"
| "cas_push i h e w (CCas old) =
     [if heads w h = old then Ret (w\<lparr>heads := (heads w)(h := e)\<rparr>) () else Step w (CStore (heads w h))]"

datatype cpop_pc = CPLoad | CPNext addr | CPCas addr addr

definition cas_test :: "addr \<Rightarrow> (which \<Rightarrow> addr) stack_world \<Rightarrow> ((which \<Rightarrow> addr) stack_world, cpop_pc, addr) call" where
  "cas_test old w = (if old = NULL then Ret w NULL else Step w (CPNext old))"

fun cas_pop :: "tid \<Rightarrow> which \<Rightarrow> (which \<Rightarrow> addr) stack_world \<Rightarrow> cpop_pc \<Rightarrow>
    ((which \<Rightarrow> addr) stack_world, cpop_pc, addr) call list" where
  "cas_pop i h w CPLoad = [cas_test (heads w h) w]"
| "cas_pop i h w (CPNext old) = [Step w (CPCas old (links w old))]"
| "cas_pop i h w (CPCas old p) =
     [if heads w h = old then Ret (w\<lparr>heads := (heads w)(h := p)\<rparr>) old else cas_test (heads w h) w]"

definition stack_freelist_prog ::
  "(addr list \<Rightarrow> addr) \<Rightarrow> (addr \<Rightarrow> node) \<Rightarrow> nat \<Rightarrow> nat \<Rightarrow>
   ((which \<Rightarrow> addr) stack_world, nat \<times> (cpush_pc, cpop_pc) el_pc) fj_prog" where
  "stack_freelist_prog mallc mem n operations =
     stack_prog cas_push CLoad cas_pop CPLoad mallc True (\<lambda>_. NULL) mem n operations"

text \<open>The thread function of \<open>stack_cas_malloc.c\<close>, on the one head: every round allocates and frees.\<close>

datatype ml_pc = MLoop | MMalloc | MSetTid addr | MSetC addr | MPush addr cpush_pc | MPop cpop_pc
  | MClear addr | MFree addr | MError | MEnd

fun ml_step :: "(addr list \<Rightarrow> addr) \<Rightarrow> nat \<Rightarrow> tid \<Rightarrow> (which \<Rightarrow> addr) stack_world \<Rightarrow> nat \<Rightarrow> ml_pc \<Rightarrow>
   ((which \<Rightarrow> addr) stack_world, nat \<times> ml_pc) act list" where
  "ml_step mallc elems i w k MLoop = [Go w (k, if k < elems then MMalloc else MEnd)]"
| "ml_step mallc elems i w k MMalloc =
     [Go (w\<lparr>allocated := mallc (allocated w) # allocated w\<rparr>) (k, MSetTid (mallc (allocated w)))]"
| "ml_step mallc elems i w k (MSetTid e) =
     [Go (w\<lparr>memory := (memory w)(e := (memory w e)\<lparr>node_tid := of_nat i\<rparr>)\<rparr>) (k, MSetC e)]"
| "ml_step mallc elems i w k (MSetC e) =
     [Go (w\<lparr>memory := (memory w)(e := (memory w e)\<lparr>node_c := of_nat k\<rparr>)\<rparr>) (k, MPush e CLoad)]"
| "ml_step mallc elems i w k (MPush e p) = map (\<lambda>x. case x of
       Step w' p' \<Rightarrow> Go w' (k, MPush e p')
     | Ret w' u \<Rightarrow> Go w' (k, MPop CPLoad)) (cas_push i Stack e w p)"
| "ml_step mallc elems i w k (MPop q) = map (\<lambda>x. case x of
       Step w' q' \<Rightarrow> Go w' (k, MPop q')
     | Ret w' e \<Rightarrow> Go w' (k, if e = NULL then MError else MClear e)) (cas_pop i Stack w q)"
| "ml_step mallc elems i w k (MClear e) = [Go (set_next e NULL w) (k, MFree e)]"
| "ml_step mallc elems i w k (MFree e) = [Go (w\<lparr>allocated := removeAll e (allocated w)\<rparr>) (Suc k, MLoop)]"
| "ml_step mallc elems i w k MError = [Go (w\<lparr>said := said w @ [ErrorLine i]\<rparr>) (Suc k, MLoop)]"
| "ml_step mallc elems i w k MEnd = [Exit (w\<lparr>said := said w @ [EndLine i]\<rparr>)]"

definition stack_malloc_prog ::
  "(addr list \<Rightarrow> addr) \<Rightarrow> (addr \<Rightarrow> node) \<Rightarrow> nat \<Rightarrow> nat \<Rightarrow> ((which \<Rightarrow> addr) stack_world, nat \<times> ml_pc) fj_prog" where
  "stack_malloc_prog mallc mem n operations = \<lparr>fj_threads = n,
     body = (\<lambda>i w (k, pc). ml_step mallc (operations div n) i w k pc),
     entry = (\<lambda>_. (0, MLoop)), world0 = \<lparr>heads = (\<lambda>_. NULL), memory = mem, allocated = [], said = []\<rparr>,
     finale = (\<lambda>w. w)\<rparr>"

subsection \<open>The run\<close>

text \<open>
  Threads 0, 1 and 2 push a node each. Thread 0 stops in \<open>pop\<close> before its swap, having read that
  the node on top, that of thread 2, is above that of thread 1. Threads 1 and 2 pop these two; thread 1 puts
  the first back, on top of the node of thread 0. The swap of thread 0 makes the node that
  thread 2 holds the head, and thread 1 pops it.
\<close>

definition turns :: "nat \<Rightarrow> tid \<Rightarrow> (tid option \<times> nat) list" where
  "turns k i = replicate k (Some i, 0)"

definition aba_run :: "(tid option \<times> nat) list" where
  "aba_run = replicate 3 (None, 0) @ turns 10 0 @ turns 10 1 @ turns 10 2 @ turns 2 0 @ turns 3 1 @ turns 3 2 @
     turns 15 1 @ turns 1 0 @ turns 3 1"

definition aba_run_malloc :: "(tid option \<times> nat) list" where
  "aba_run_malloc = replicate 3 (None, 0) @ turns 8 0 @ turns 8 1 @ turns 8 2 @ turns 2 0 @ turns 3 1 @ turns 3 2 @
     turns 10 1 @ turns 1 0 @ turns 3 1"

lemmas run_defs = fj_init_def fj_main_def fj_thread_def after_act_def cas_test_def set_next_def links_def
  NULL_def above_all_def Let_def

lemma aba_run_turns: "aba_run = map (\<lambda>w. (w, 0)) [None, None, None,
    Some 0, Some 0, Some 0, Some 0, Some 0, Some 0, Some 0, Some 0, Some 0, Some 0,
    Some 1, Some 1, Some 1, Some 1, Some 1, Some 1, Some 1, Some 1, Some 1, Some 1,
    Some 2, Some 2, Some 2, Some 2, Some 2, Some 2, Some 2, Some 2, Some 2, Some 2,
    Some 0, Some 0, Some 1, Some 1, Some 1, Some 2, Some 2, Some 2,
    Some 1, Some 1, Some 1, Some 1, Some 1, Some 1, Some 1, Some 1, Some 1, Some 1, Some 1, Some 1, Some 1, Some 1, Some 1,
    Some 0, Some 1, Some 1, Some 1]"
  by (simp add: aba_run_def turns_def numeral_eq_Suc)

lemma freelist_run:
  "\<exists>s. fj_run (stack_freelist_prog above_all mem 4 10000000) aba_run (fj_init (stack_freelist_prog above_all mem 4 10000000)) = Some s \<and>
    status s 1 = Live (1, EClear 2) \<and> status s 2 = Live (0, EClear 2)"
  unfolding aba_run_turns by (simp add: stack_freelist_prog_def run_defs)

lemma aba_run_malloc_turns: "aba_run_malloc = map (\<lambda>w. (w, 0)) [None, None, None,
    Some 0, Some 0, Some 0, Some 0, Some 0, Some 0, Some 0, Some 0,
    Some 1, Some 1, Some 1, Some 1, Some 1, Some 1, Some 1, Some 1,
    Some 2, Some 2, Some 2, Some 2, Some 2, Some 2, Some 2, Some 2,
    Some 0, Some 0, Some 1, Some 1, Some 1, Some 2, Some 2, Some 2,
    Some 1, Some 1, Some 1, Some 1, Some 1, Some 1, Some 1, Some 1, Some 1, Some 1,
    Some 0, Some 1, Some 1, Some 1]"
  by (simp add: aba_run_malloc_def turns_def numeral_eq_Suc)

lemma malloc_run:
  "\<exists>s. fj_run (stack_malloc_prog above_all mem 4 10000000) aba_run_malloc (fj_init (stack_malloc_prog above_all mem 4 10000000)) = Some s \<and>
    status s 1 = Live (1, MClear 2) \<and> status s 2 = Live (0, MClear 2)"
  unfolding aba_run_malloc_turns by (simp add: stack_malloc_prog_def run_defs)

subsection \<open>Properties\<close>

text \<open>C22: the stack with tagged heads and the stack on load-link and store-conditional are correct for
  every \<open>malloc\<close> that returns addresses not in use, whatever they hold: in every reachable state
  the two heads stand for lists that operations on lists give, every node is in one list or with
  one thread, there are never more nodes than threads, no thread finds the stack empty
  after its push, and every reachable state can finish. The 64-bit tag must not wrap; a
  reservation is lost with every store to the head and needs no bound.\<close>

theorem stacks_correct:
  assumes "malloc_fresh mallc" and "2 * (n * (operations div n)) < 2 ^ 64"
  shows "stack_correct tag_top (stack_tagged_prog mallc mem n operations) \<and>
    stack_correct ptr (stack_llsc_prog mallc mem k ops)"
  using stack_program.program_safe [OF tagged_program [OF assms] refl]
    stack_program.program_safe [OF llsc_program [OF assms(1)] refl]
  by (simp add: stack_tagged_prog_def stack_llsc_prog_def)

theorem stacks_correct_witness:
  "malloc_fresh above_all \<and> stack_correct tag_top (stack_tagged_prog above_all zeroed 4 10000000) \<and>
    stack_correct ptr (stack_llsc_prog above_all zeroed 4 10000000)"
  using stacks_correct [OF above_all_fresh, of 4 10000000 zeroed 4 10000000] above_all_fresh by simp

text \<open>C23: the two stacks without a tag are not correct: with the macros of the files and a \<open>malloc\<close> that
  returns addresses not in use, a reachable state has one node in the hands of two threads,
  with the free list as well as with \<open>malloc\<close> and \<open>free\<close>.\<close>

theorem stack_aba:
  "malloc_fresh above_all \<and>
   \<not> stack_correct (\<lambda>hs. hs) (stack_freelist_prog above_all mem 4 10000000) \<and>
   (\<exists>s e. fj_reach (stack_freelist_prog above_all mem 4 10000000) s \<and> e \<in># held (status s 1) \<and> e \<in># held (status s 2)) \<and>
   (\<exists>s e k k'. fj_reach (stack_malloc_prog above_all mem 4 10000000) s \<and>
      status s 1 = Live (k, MClear e) \<and> status s 2 = Live (k', MClear e))"
proof (intro conjI)
  let ?P = "stack_freelist_prog above_all mem 4 10000000"
  obtain s where s: "fj_reach ?P s" "status s 1 = Live (1, EClear 2)" "status s 2 = Live (0, EClear 2)"
    using freelist_run fj_run_reaches by blast
  then have both: "2 \<in># held (status s 1)" "2 \<in># held (status s 2)" by simp_all
  then show "\<exists>s e. fj_reach ?P s \<and> e \<in># held (status s 1) \<and> e \<in># held (status s 2)" using s(1) by blast
  have "\<not> kept (fj_threads ?P) (heads (world s)) (world s) (status s) L" for L
  proof
    assume "kept (fj_threads ?P) (heads (world s)) (world s) (status s) L"
    then have "kept 4 (heads (world s)) (world s) (status s) L" by (simp add: stack_freelist_prog_def)
    from kept_once(4) [OF this, of 1 2 2] both show False by simp
  qed
  then show "\<not> stack_correct (\<lambda>hs. hs) ?P" using s(1) unfolding stack_correct_def by blast
  show "\<exists>s e k k'. fj_reach (stack_malloc_prog above_all mem 4 10000000) s \<and>
      status s 1 = Live (k, MClear e) \<and> status s 2 = Live (k', MClear e)"
    using malloc_run fj_run_reaches by blast
qed (rule above_all_fresh)

text \<open>C40: without interference a pop gives back what was pushed and leaves the stack as it was, in each
  of the three implementations of \<open>push\<close> and \<open>pop\<close>: the node pushed is returned, the head is the
  old one again, and no other node has been written.\<close>

theorem push_pop_roundtrip:
  assumes "e \<noteq> NULL"
  shows "(\<exists>w1 w2. run_call (tagged_push i h e) 3 w TLoad = Some (w1, ()) \<and> tag_top (heads w1) h = e \<and>
      run_call (tagged_pop j h) 3 w1 TPLoad = Some (w2, e) \<and>
      tag_top (heads w2) = tag_top (heads w) \<and> (\<forall>a. a \<noteq> e \<longrightarrow> memory w2 a = memory w a)) \<and>
    (\<exists>v1 v2. run_call (llsc_push i h e) 4 v LLoad = Some (v1, ()) \<and> ptr (heads v1) h = e \<and>
      run_call (llsc_pop j h) 3 v1 LPExcl = Some (v2, e) \<and>
      ptr (heads v2) = ptr (heads v) \<and> (\<forall>a. a \<noteq> e \<longrightarrow> memory v2 a = memory v a)) \<and>
    (\<exists>u1 u2. run_call (cas_push i h e) 4 u CLoad = Some (u1, ()) \<and> heads u1 h = e \<and>
      run_call (cas_pop j h) 3 u1 CPLoad = Some (u2, e) \<and>
      heads u2 = heads u \<and> (\<forall>a. a \<noteq> e \<longrightarrow> memory u2 a = memory u a))"
proof (intro conjI)
  show "\<exists>w1 w2. run_call (tagged_push i h e) 3 w TLoad = Some (w1, ()) \<and> tag_top (heads w1) h = e \<and>
      run_call (tagged_pop j h) 3 w1 TPLoad = Some (w2, e) \<and>
      tag_top (heads w2) = tag_top (heads w) \<and> (\<forall>a. a \<noteq> e \<longrightarrow> memory w2 a = memory w a)"
    using assms by (auto simp: numeral_eq_Suc tagged_test_def tag_top_def set_next_def links_def)
  show "\<exists>v1 v2. run_call (llsc_push i h e) 4 v LLoad = Some (v1, ()) \<and> ptr (heads v1) h = e \<and>
      run_call (llsc_pop j h) 3 v1 LPExcl = Some (v2, e) \<and>
      ptr (heads v2) = ptr (heads v) \<and> (\<forall>a. a \<noteq> e \<longrightarrow> memory v2 a = memory v a)"
    using assms by (auto simp: numeral_eq_Suc set_next_def links_def reserve_def store_exclusive_def)
  show "\<exists>u1 u2. run_call (cas_push i h e) 4 u CLoad = Some (u1, ()) \<and> heads u1 h = e \<and>
      run_call (cas_pop j h) 3 u1 CPLoad = Some (u2, e) \<and>
      heads u2 = heads u \<and> (\<forall>a. a \<noteq> e \<longrightarrow> memory u2 a = memory u a)"
    using assms by (auto simp: numeral_eq_Suc cas_test_def set_next_def links_def)
qed

theorem push_pop_roundtrip_witness:
  "(5 :: addr) \<noteq> NULL \<and> (\<exists>u1 u2. run_call (cas_push 0 Stack 5) 4 (empty_world (\<lambda>_. NULL)) CLoad = Some (u1, ()) \<and>
      run_call (cas_pop 1 Stack) 3 u1 CPLoad = Some (u2, 5) \<and> heads u2 = (\<lambda>_. NULL))"
proof
  show five: "(5 :: addr) \<noteq> NULL" by (simp add: NULL_def)
  have "heads (empty_world (\<lambda>_. NULL)) = (\<lambda>_. NULL)" by (simp add: empty_world_def)
  then show "\<exists>u1 u2. run_call (cas_push 0 Stack 5) 4 (empty_world (\<lambda>_. NULL)) CLoad = Some (u1, ()) \<and>
      run_call (cas_pop 1 Stack) 3 u1 CPLoad = Some (u2, 5) \<and> heads u2 = (\<lambda>_. NULL)"
    using push_pop_roundtrip [OF five, of 0 Stack "empty_world no_heads" 1 "empty_world llsc_empty" "empty_world (\<lambda>_. NULL)"]
    by metis
qed

end
