(* ===== verification/Transactions.thy ===== *)
theory Transactions
  imports Fork_Join
begin

section \<open>Memory with transactions\<close>

text \<open>
  What the programs with hardware transactions (\<open>transactional/intel/*_rtm.c\<close>,
  \<open>intel/array_rtm_tinystm.c\<close>) ask of the processor, and the last one of the STM library too, by
  their documentation (the programs that use the library alone are on its code, in \<open>STM_Programs\<close>): a transaction reads the memory and its own writes, keeps its writes to
  itself until it commits, and commits at once, unless somebody has stored to a word
  it has touched; then it is doomed, and can only abort. It may also abort for no reason.
  An abort gives up the writes and goes back to where the transaction was started: \<open>_xbegin\<close>
  returns a status, \<open>stm_start\<close> begins again.

  A hardware transaction is doomed by every store of another thread; a transaction of the STM
  only by the commits of other STM transactions, since it does not see plain stores nor the
  commits of the hardware. The stores of both dooms hardware transactions.
\<close>

datatype loc = Mutex | InStm | Cell nat

record tx =
  hardware :: bool
  rset :: "loc list"
  writes :: "(loc \<times> cint) list"
  doomed :: bool

record tm_world =
  vals :: "loc \<Rightarrow> cint"
  txs :: "tid \<Rightarrow> tx option"
  tm_lines :: "message list"

definition touches :: "tx \<Rightarrow> loc \<Rightarrow> bool" where
  "touches t x \<longleftrightarrow> x \<in> set (rset t) \<or> x \<in> fst ` set (writes t)"

definition doom :: "(tx \<Rightarrow> bool) \<Rightarrow> tx option \<Rightarrow> tx option" where
  "doom Q = map_option (\<lambda>t. if Q t then t\<lparr>doomed := True\<rparr> else t)"

text \<open>A store outside transactions.\<close>

definition plain_store :: "loc \<Rightarrow> cint \<Rightarrow> tm_world \<Rightarrow> tm_world" where
  "plain_store x v w = w\<lparr>vals := (vals w)(x := v),
     txs := (\<lambda>j. doom (\<lambda>t. hardware t \<and> touches t x) (txs w j))\<rparr>"

definition tx_begin :: "bool \<Rightarrow> tid \<Rightarrow> tm_world \<Rightarrow> tm_world" where
  "tx_begin hw i w = w\<lparr>txs := (txs w)(i \<mapsto> \<lparr>hardware = hw, rset = [], writes = [], doomed = False\<rparr>)\<rparr>"

definition tx_abort :: "tid \<Rightarrow> tm_world \<Rightarrow> tm_world" where
  "tx_abort i w = w\<lparr>txs := (txs w)(i := None)\<rparr>"

text \<open>The steps of a transaction that is not doomed: none are possible in one that is.\<close>

definition in_tx :: "tid \<Rightarrow> tm_world \<Rightarrow> (tx \<Rightarrow> 'a list) \<Rightarrow> 'a list" where
  "in_tx i w f = (case txs w i of None \<Rightarrow> [] | Some t \<Rightarrow> if doomed t then [] else f t)"

definition tx_value :: "tx \<Rightarrow> loc \<Rightarrow> tm_world \<Rightarrow> cint" where
  "tx_value t x w = (case map_of (writes t) x of Some v \<Rightarrow> v | None \<Rightarrow> vals w x)"

definition tx_read :: "tid \<Rightarrow> tx \<Rightarrow> loc \<Rightarrow> tm_world \<Rightarrow> tm_world" where
  "tx_read i t x w = w\<lparr>txs := (txs w)(i \<mapsto> t\<lparr>rset := x # rset t\<rparr>)\<rparr>"

definition tx_write :: "tid \<Rightarrow> tx \<Rightarrow> loc \<Rightarrow> cint \<Rightarrow> tm_world \<Rightarrow> tm_world" where
  "tx_write i t x v w = w\<lparr>txs := (txs w)(i \<mapsto> t\<lparr>writes := (x, v) # writes t\<rparr>)\<rparr>"

definition tx_commit :: "tid \<Rightarrow> tx \<Rightarrow> tm_world \<Rightarrow> tm_world" where
  "tx_commit i t w = w\<lparr>vals := (\<lambda>x. tx_value t x w),
     txs := (\<lambda>j. if j = i then None
        else doom (\<lambda>u. (hardware t \<longrightarrow> hardware u) \<and> list_ex (touches u) (map fst (writes t))) (txs w j))\<rparr>"

lemma tx_simps [simp]:
  "vals (tx_begin hw i w) = vals w" "tm_lines (tx_begin hw i w) = tm_lines w"
  "vals (tx_abort i w) = vals w" "tm_lines (tx_abort i w) = tm_lines w"
  "vals (tx_read i t x w) = vals w" "tm_lines (tx_read i t x w) = tm_lines w"
  "vals (tx_write i t x v w) = vals w" "tm_lines (tx_write i t x v w) = tm_lines w"
  "vals (plain_store x v w) = (vals w)(x := v)" "tm_lines (plain_store x v w) = tm_lines w"
  "tm_lines (tx_commit i t w) = tm_lines w"
  "txs (tx_begin hw i w) = (txs w)(i \<mapsto> \<lparr>hardware = hw, rset = [], writes = [], doomed = False\<rparr>)"
  "txs (tx_abort i w) = (txs w)(i := None)"
  "txs (tx_read i t x w) = (txs w)(i \<mapsto> t\<lparr>rset := x # rset t\<rparr>)"
  "txs (tx_write i t x v w) = (txs w)(i \<mapsto> t\<lparr>writes := (x, v) # writes t\<rparr>)"
  by (simp_all add: tx_begin_def tx_abort_def tx_read_def tx_write_def plain_store_def tx_commit_def)

lemma in_tx_set: "x \<in> set (in_tx i w f) \<longleftrightarrow> (\<exists>t. txs w i = Some t \<and> \<not> doomed t \<and> x \<in> set (f t))"
  by (cases "txs w i") (simp_all add: in_tx_def)

subsection \<open>What a transaction knows\<close>

text \<open>
  Unless it is doomed, the words of \<open>rs\<close> still have the values it has read and \<open>ws\<close> is what
  it has written.
\<close>

definition clean :: "(loc \<Rightarrow> cint) \<Rightarrow> tx \<Rightarrow> (loc \<times> cint) list \<Rightarrow> (loc \<times> cint) list \<Rightarrow> bool" where
  "clean C t rs ws \<longleftrightarrow> (doomed t \<or> (\<forall>(x, v) \<in> set rs. x \<in> set (rset t) \<and> C x = v) \<and> writes t = ws)"

text \<open>A change of the memory that dooms the transactions it concerns.\<close>

definition safe_change :: "(loc \<Rightarrow> cint) \<Rightarrow> (loc \<Rightarrow> cint) \<Rightarrow> tx \<Rightarrow> tx \<Rightarrow> bool" where
  "safe_change C C' t t' \<longleftrightarrow> (t' = t\<lparr>doomed := True\<rparr> \<or> t' = t \<and> (\<forall>x. touches t x \<longrightarrow> C' x = C x))"

lemma clean_safe: "clean C t rs ws \<Longrightarrow> safe_change C C' t t' \<Longrightarrow> clean C' t' rs ws"
  by (fastforce simp: clean_def safe_change_def touches_def)

lemma safe_refl [simp]: "safe_change C C t t"
  by (simp add: safe_change_def)

lemma store_safe:
  assumes "hardware t \<or> \<not> touches t x \<or> v = vals w x" "txs w j = Some t"
  shows "\<exists>t'. txs (plain_store x v w) j = Some t' \<and> safe_change (vals w) ((vals w)(x := v)) t t'"
  using assms by (auto simp: plain_store_def doom_def safe_change_def)

lemma commit_vals: "writes t = [] \<Longrightarrow> vals (tx_commit i t w) = vals w"
  "writes t = [(x, v)] \<Longrightarrow> vals (tx_commit i t w) = (vals w)(x := v)"
  by (auto simp: tx_commit_def tx_value_def)

lemma tx_value_clean [simp]: "writes t = [] \<Longrightarrow> tx_value t x w = vals w x"
  by (simp add: tx_value_def)

lemma commit_safe:
  assumes "hardware u \<or> \<not> hardware t" "txs w j = Some u" "j \<noteq> i"
  shows "\<exists>u'. txs (tx_commit i t w) j = Some u' \<and> safe_change (vals w) (vals (tx_commit i t w)) u u'"
proof (cases "list_ex (touches u) (map fst (writes t))")
  case True
  then show ?thesis using assms by (auto simp: tx_commit_def doom_def safe_change_def)
next
  case False
  have "tx_value t x w = vals w x" if "touches u x" for x
  proof -
    have "x \<notin> fst ` set (writes t)" using False that by (auto simp: list_ex_iff)
    then have "map_of (writes t) x = None" by (simp add: map_of_eq_None_iff)
    then show ?thesis by (simp add: tx_value_def)
  qed
  then show ?thesis using assms False by (auto simp: tx_commit_def doom_def safe_change_def)
qed

lemma doom_None [simp]: "doom Q x = None \<longleftrightarrow> x = None"
  by (simp add: doom_def)

lemma txs_None_store [simp]: "txs (plain_store x v w) j = None \<longleftrightarrow> txs w j = None"
  by (simp add: plain_store_def)

lemma txs_None_commit: "txs (tx_commit i t w) j = None \<longleftrightarrow> j = i \<or> txs w j = None"
  by (simp add: tx_commit_def)

text \<open>A step of thread \<open>i\<close> that dooms the transactions of the others where it must.\<close>

definition others_safe :: "nat \<Rightarrow> tid \<Rightarrow> tm_world \<Rightarrow> tm_world \<Rightarrow> bool" where
  "others_safe n i w w' \<longleftrightarrow> (\<forall>j<n. j \<noteq> i \<longrightarrow> (txs w j = None \<longrightarrow> txs w' j = None) \<and>
     (\<forall>t. txs w j = Some t \<longrightarrow> (\<exists>t'. txs w' j = Some t' \<and> safe_change (vals w) (vals w') t t')))"

lemma others_own: "vals w' = vals w \<Longrightarrow> (\<And>j. j \<noteq> i \<Longrightarrow> txs w' j = txs w j) \<Longrightarrow> others_safe n i w w'"
  by (auto simp: others_safe_def)

lemma others_store:
  assumes "\<And>j t. j < n \<Longrightarrow> j \<noteq> i \<Longrightarrow> txs w j = Some t \<Longrightarrow> hardware t \<or> \<not> touches t x"
  shows "others_safe n i w (plain_store x v w)"
proof -
  have "\<exists>t'. txs (plain_store x v w) j = Some t' \<and> safe_change (vals w) (vals (plain_store x v w)) t t'"
    if "j < n" "j \<noteq> i" "txs w j = Some t" for j t
    using store_safe [of t x v w j] assms [OF that] that(3) by auto
  then show ?thesis by (simp add: others_safe_def)
qed

lemma others_commit:
  assumes "\<And>j u. j < n \<Longrightarrow> j \<noteq> i \<Longrightarrow> txs w j = Some u \<Longrightarrow> hardware u \<or> \<not> hardware t"
  shows "others_safe n i w (tx_commit i t w)"
  using assms commit_safe [of _ t w _ i] by (auto simp: others_safe_def txs_None_commit)

subsection \<open>The counter\<close>

text \<open>The parameters of a program: the size of the counter, the word a round is about, and whether it writes.\<close>

record shape =
  words :: nat
  word_of :: "nat \<Rightarrow> nat"
  adds :: "nat \<Rightarrow> bool"

definition one_word :: "(nat \<Rightarrow> bool) \<Rightarrow> shape" where
  "one_word wr = \<lparr>words = 1, word_of = (\<lambda>_. 0), adds = wr\<rparr>"

definition an_array :: "nat \<Rightarrow> shape" where
  "an_array len = \<lparr>words = len, word_of = (\<lambda>k. k mod len), adds = (\<lambda>_. True)\<rparr>"


text \<open>The sum of \<open>ARRAY_SIZE\<close> words, one word for a plain counter.\<close>

definition tm_sum :: "nat \<Rightarrow> tm_world \<Rightarrow> cint" where
  "tm_sum len w = (\<Sum>c<len. vals w (Cell c))"

lemma tm_sum_add: "c < len \<Longrightarrow> (\<Sum>d<len. (C(Cell c := C (Cell c) + 1)) (Cell d)) = (\<Sum>d<len. C (Cell d)) + (1 :: cint)"
proof -
  assume c: "c < len"
  have "(\<Sum>d<len. (C(Cell c := C (Cell c) + 1)) (Cell d)) = C (Cell c) + 1 + (\<Sum>d\<in>{..<len} - {c}. C (Cell d))"
    using c by (subst sum.remove [of _ c]) auto
  moreover have "(\<Sum>d<len. C (Cell d)) = C (Cell c) + (\<Sum>d\<in>{..<len} - {c}. C (Cell d))"
    using c by (intro sum.remove) auto
  ultimately show ?thesis by simp
qed

lemma tm_sum_other: "(\<And>c. x \<noteq> Cell c) \<Longrightarrow> (\<Sum>d<len. (C(x := v)) (Cell d)) = (\<Sum>d<len. C (Cell d))"
  by (intro sum.cong) auto

lemma tm_sum_inc:
  assumes "c < len" "vals w' = (vals w)(Cell c := vals w (Cell c) + 1)"
  shows "tm_sum (len) w' = tm_sum (len) w + 1"
  unfolding tm_sum_def assms(2) by (rule tm_sum_add [OF assms(1)])

text \<open>The increments of the first \<open>k\<close> rounds.\<close>

fun increments_of :: "(nat \<Rightarrow> bool) \<Rightarrow> nat \<Rightarrow> nat" where
  "increments_of wr 0 = 0"
| "increments_of wr (Suc k) = increments_of wr k + (if wr k then 1 else 0)"

lemma increments_all: "increments_of (\<lambda>_. True) k = k"
  by (induction k) auto

lemma increments_tenth: "increments_of (\<lambda>k. k mod 10 = 0) k = (k + 9) div 10"
proof (induction k)
  case (Suc k)
  have "(k + 10) mod 10 = k mod 10" by (rule mod_add_self2)
  then have "(Suc k + 9) div 10 = (k + 9) div 10 + (if k mod 10 = 0 then 1 else 0)"
    using div_Suc [of "k + 9" 10] by (simp split: if_splits)
  then show ?case using Suc by simp
qed simp

text \<open>\<open>main\<close> prints the sum and what it expects.\<close>

definition tm_report :: "nat \<Rightarrow> nat \<Rightarrow> tm_world \<Rightarrow> tm_world" where
  "tm_report len expected w = w\<lparr>tm_lines := tm_lines w @ [ValueMsg (tm_sum len w) expected]\<rparr>"

definition tm_start :: tm_world where
  "tm_start = \<lparr>vals = (\<lambda>_. 0), txs = (\<lambda>_. None), tm_lines = []\<rparr>"

text \<open>A correct program prints the increments of all its threads, and can finish from everywhere.\<close>

definition tm_counts :: "(tm_world, 'l) fj_prog \<Rightarrow> nat \<Rightarrow> nat \<Rightarrow> bool" where
  "tm_counts P counted expected \<longleftrightarrow> fj_can_finish P \<and>
     (\<forall>s. fj_reach P s \<and> main_at s = MainDone \<longrightarrow>
        tm_lines (world s) \<noteq> [] \<and> last (tm_lines (world s)) = ValueMsg (of_nat counted) expected)"

lemma tm_report_prints:
  "tm_lines (tm_report len expected w) \<noteq> []" "last (tm_lines (tm_report len expected w)) = ValueMsg (tm_sum len w) expected"
  by (simp_all add: tm_report_def)

end
