(* ===== verification/RTM_Lock.thy ===== *)
theory RTM_Lock
  imports Transactions
begin

unbundle bit_operations_syntax

section \<open>The lock elided by hardware transactions\<close>

text \<open>
  \<open>transactional/intel/mutex_rtm.c\<close>, \<open>rw_rtm.c\<close> and \<open>array_rtm.c\<close>. \<open>rtm_lock\<close> starts a hardware
  transaction and looks at the mutex in it; if it is free, the critical section runs in the
  transaction, which the store of any thread that takes the mutex dooms. After ten attempts, or
  an abort that gives no hope, the thread takes the mutex with an exchange. \<open>rtm_unlock\<close> tells the two cases
  apart by the mutex. The three programs differ in the counter: one word that every round
  increments, one that a round in ten increments, an array.

  The statuses aborts may come with are a parameter, the macros that take a status apart
  are those of \<open>immintrin.h\<close>.
\<close>

datatype rtm_pc = XLoop | XTry | XBegin | XTest | XAbort | XRead | XWrite cint | XTestEnd | XEnd
  | LLock | LRead | LWrite cint | LTestEnd | LStoreZero | XFault | XSum nat cint

record rtm_local =
  round :: nat
  tries :: nat
  abort_status :: cint
  xpc :: rtm_pc

definition XABORT_CODE :: "cint \<Rightarrow> cint" where
  "XABORT_CODE s = drop_bit 24 s AND 0xff"

definition XABORT_RETRY :: cint where "XABORT_RETRY = 2"

text \<open>The status of \<open>_xabort(0xff)\<close>: explicit, with the code.\<close>

definition explicit_status :: cint where "explicit_status = 0xff000001"

definition try_again :: "rtm_local \<Rightarrow> bool" where
  "try_again l \<longleftrightarrow> tries l < 10 \<and>
     (abort_status l = 0 \<or> XABORT_CODE (abort_status l) \<noteq> 0 \<or> abort_status l AND XABORT_RETRY \<noteq> 0)"

definition rtm_aborts :: "cint list \<Rightarrow> tid \<Rightarrow> tm_world \<Rightarrow> rtm_local \<Rightarrow> (tm_world, rtm_local) act list" where
  "rtm_aborts reasons i w l =
     map (\<lambda>s. Go (tx_abort i w) (l\<lparr>tries := tries l + 1, abort_status := s, xpc := XTry\<rparr>)) reasons"

definition next_round :: "rtm_local \<Rightarrow> rtm_local" where
  "next_round l = l\<lparr>round := Suc (round l), xpc := XLoop\<rparr>"

definition rtm_step :: "shape \<Rightarrow> cint list \<Rightarrow> nat \<Rightarrow> tid \<Rightarrow> tm_world \<Rightarrow> rtm_local \<Rightarrow> (tm_world, rtm_local) act list" where
  "rtm_step P reasons lim i w l = (let x = Cell (word_of P (round l)) in case xpc l of
       XLoop \<Rightarrow> [Go w (if round l < lim then l\<lparr>tries := 0, abort_status := 0, xpc := XTry\<rparr> else l\<lparr>xpc := XSum 0 0\<rparr>)]
     | XTry \<Rightarrow> [Go w (l\<lparr>xpc := if try_again l then XBegin else LLock\<rparr>)]
     | XBegin \<Rightarrow> Go (tx_begin True i w) (l\<lparr>xpc := XTest\<rparr>) # rtm_aborts reasons i w l
     | XTest \<Rightarrow> in_tx i w (\<lambda>t. [Go (tx_read i t Mutex w) (l\<lparr>xpc := if tx_value t Mutex w = 0 then XRead else XAbort\<rparr>)])
         @ rtm_aborts reasons i w l
     | XAbort \<Rightarrow> rtm_aborts (explicit_status # reasons) i w l
     | XRead \<Rightarrow> in_tx i w (\<lambda>t. [Go (tx_read i t x w)
         (l\<lparr>xpc := if adds P (round l) then XWrite (tx_value t x w) else XTestEnd\<rparr>)]) @ rtm_aborts reasons i w l
     | XWrite v \<Rightarrow> in_tx i w (\<lambda>t. [Go (tx_write i t x (v + 1) w) (l\<lparr>xpc := XTestEnd\<rparr>)]) @ rtm_aborts reasons i w l
     | XTestEnd \<Rightarrow> in_tx i w (\<lambda>t. [Go (tx_read i t Mutex w) (l\<lparr>xpc := if tx_value t Mutex w = 0 then XEnd else XFault\<rparr>)])
         @ rtm_aborts reasons i w l
     | XEnd \<Rightarrow> in_tx i w (\<lambda>t. [Go (tx_commit i t w) (next_round l)]) @ rtm_aborts reasons i w l
     | LLock \<Rightarrow> [Go (plain_store Mutex 1 w) (l\<lparr>xpc := if vals w Mutex = 0 then LRead else LLock\<rparr>)]
     | LRead \<Rightarrow> [Go w (l\<lparr>xpc := if adds P (round l) then LWrite (vals w x) else LTestEnd\<rparr>)]
     | LWrite v \<Rightarrow> [Go (plain_store x (v + 1) w) (l\<lparr>xpc := LTestEnd\<rparr>)]
     | LTestEnd \<Rightarrow> [Go w (l\<lparr>xpc := if vals w Mutex = 0 then XFault else LStoreZero\<rparr>)]
     | LStoreZero \<Rightarrow> [Go (plain_store Mutex 0 w) (next_round l)]
     | XFault \<Rightarrow> []
     | XSum c v \<Rightarrow> [if c < words P then Go w (l\<lparr>xpc := XSum (Suc c) (v + vals w (Cell c))\<rparr>)
                  else Exit (w\<lparr>tm_lines := tm_lines w @ [EndMsg i v]\<rparr>)])"

definition rtm_prog :: "shape \<Rightarrow> cint list \<Rightarrow> nat \<Rightarrow> nat \<Rightarrow> nat \<Rightarrow> (tm_world, rtm_local) fj_prog" where
  "rtm_prog P reasons n lim expected = \<lparr>fj_threads = n, body = rtm_step P reasons lim,
     entry = (\<lambda>_. \<lparr>round = 0, tries = 0, abort_status = 0, xpc = XLoop\<rparr>), world0 = tm_start,
     finale = tm_report (words P) expected\<rparr>"

lemma rtm_prog_simps [simp]:
  "fj_threads (rtm_prog P reasons n lim expected) = n" "body (rtm_prog P reasons n lim expected) = rtm_step P reasons lim"
  "entry (rtm_prog P reasons n lim expected) = (\<lambda>_. \<lparr>round = 0, tries = 0, abort_status = 0, xpc = XLoop\<rparr>)"
  "world0 (rtm_prog P reasons n lim expected) = tm_start" "finale (rtm_prog P reasons n lim expected) = tm_report (words P) expected"
  by (simp_all add: rtm_prog_def)

text \<open>The three programs, with the macros of \<open>defs.h\<close> as parameters.\<close>

definition mutex_rtm_prog :: "cint list \<Rightarrow> nat \<Rightarrow> nat \<Rightarrow> (tm_world, rtm_local) fj_prog" where
  "mutex_rtm_prog reasons n m = rtm_prog (one_word (\<lambda>_. True)) reasons n (m div n) m"

definition rw_rtm_prog :: "cint list \<Rightarrow> nat \<Rightarrow> nat \<Rightarrow> (tm_world, rtm_local) fj_prog" where
  "rw_rtm_prog reasons n m = rtm_prog (one_word (\<lambda>k. k mod 10 = 0)) reasons n (m div n) (m div 10)"

definition array_rtm_prog :: "nat \<Rightarrow> cint list \<Rightarrow> nat \<Rightarrow> nat \<Rightarrow> (tm_world, rtm_local) fj_prog" where
  "array_rtm_prog len reasons n m = rtm_prog (an_array len) reasons n (m div n) m"

subsection \<open>The invariant\<close>

fun pc_of :: "rtm_local status \<Rightarrow> rtm_pc option" where
  "pc_of (Live l) = Some (xpc l)"
| "pc_of _ = None"

definition holds_mutex :: "rtm_local status \<Rightarrow> bool" where
  "holds_mutex s \<longleftrightarrow> (\<exists>l. s = Live l \<and> (case xpc l of LRead \<Rightarrow> True | LWrite v \<Rightarrow> True | LTestEnd \<Rightarrow> True | LStoreZero \<Rightarrow> True | _ \<Rightarrow> False))"

text \<open>What the transaction of a thread knows at each control point.\<close>

fun rtm_knows :: "shape \<Rightarrow> (loc \<Rightarrow> cint) \<Rightarrow> tx \<Rightarrow> nat \<Rightarrow> rtm_pc \<Rightarrow> bool" where
  "rtm_knows P C t k XTest = clean C t [] []"
| "rtm_knows P C t k XAbort = clean C t [] []"
| "rtm_knows P C t k XRead = clean C t [(Mutex, 0)] []"
| "rtm_knows P C t k (XWrite v) = (adds P k \<and> clean C t [(Mutex, 0), (Cell (word_of P k), v)] [])"
| "rtm_knows P C t k pc = ((pc = XTestEnd \<or> pc = XEnd) \<and>
     (if adds P k then \<exists>v. clean C t [(Mutex, 0), (Cell (word_of P k), v)] [(Cell (word_of P k), v + 1)]
      else clean C t [(Mutex, 0)] []))"

fun in_hardware :: "rtm_pc \<Rightarrow> bool" where
  "in_hardware (XWrite v) = True"
| "in_hardware pc = (pc \<in> {XTest, XAbort, XRead, XTestEnd, XEnd})"

definition rtm_fits :: "shape \<Rightarrow> nat \<Rightarrow> tm_world \<Rightarrow> tid \<Rightarrow> rtm_local status \<Rightarrow> bool" where
  "rtm_fits P lim w i s \<longleftrightarrow> (case s of
       Live l \<Rightarrow> xpc l \<noteq> XFault \<and>
         (case xpc l of XLoop \<Rightarrow> round l \<le> lim | XSum c v \<Rightarrow> round l = lim | _ \<Rightarrow> round l < lim) \<and>
         (if in_hardware (xpc l) then \<exists>t. txs w i = Some t \<and> hardware t \<and> rtm_knows P (vals w) t (round l) (xpc l)
          else txs w i = None) \<and>
         (\<forall>v. xpc l = LWrite v \<longrightarrow> adds P (round l) \<and> v = vals w (Cell (word_of P (round l))))
     | _ \<Rightarrow> txs w i = None)"

fun rtm_added :: "shape \<Rightarrow> nat \<Rightarrow> rtm_local status \<Rightarrow> nat" where
  "rtm_added P lim Unborn = 0"
| "rtm_added P lim (Live l) = increments_of (adds P) (round l) +
     (if (xpc l = LTestEnd \<or> xpc l = LStoreZero) \<and> adds P (round l) then 1 else 0)"
| "rtm_added P lim Dead = increments_of (adds P) lim"

definition rtm_J :: "shape \<Rightarrow> nat \<Rightarrow> nat \<Rightarrow> tm_world \<Rightarrow> (tid \<Rightarrow> rtm_local status) \<Rightarrow> bool" where
  "rtm_J P n lim w st \<longleftrightarrow>
     owned (vals w Mutex \<noteq> 0) {i. i < n \<and> holds_mutex (st i)} \<and>
     (\<forall>i<n. rtm_fits P lim w i (st i)) \<and>
     tm_sum (words P) w = of_nat (\<Sum>i<n. rtm_added P lim (st i))"

lemma rtm_knows_safe:
  assumes "rtm_knows P C t k pc" "safe_change C C' t t'"
  shows "rtm_knows P C' t' k pc"
proof -
  have c: "clean C t rs ws \<Longrightarrow> clean C' t' rs ws" for rs ws using assms(2) clean_safe by blast
  show ?thesis using assms(1) by (cases "(P, C, t, k, pc)" rule: rtm_knows.cases) (auto intro: c split: if_splits)
qed

lemma fits_other:
  assumes fits: "rtm_fits P lim w j s" and "others_safe n i w w'" "j < n" "j \<noteq> i"
    and cells: "holds_mutex s \<Longrightarrow> \<forall>c. vals w' (Cell c) = vals w (Cell c)"
  shows "rtm_fits P lim w' j s"
proof (cases s)
  case (Live l)
  have safe: "txs w j = None \<Longrightarrow> txs w' j = None"
    "txs w j = Some t \<Longrightarrow> \<exists>t'. txs w' j = Some t' \<and> safe_change (vals w) (vals w') t t'" for t
    using assms(2-4) by (auto simp: others_safe_def)
  have "\<exists>t. txs w' j = Some t \<and> hardware t \<and> rtm_knows P (vals w') t (round l) (xpc l)" if h: "in_hardware (xpc l)"
  proof -
    obtain t where t: "txs w j = Some t" "hardware t" "rtm_knows P (vals w) t (round l) (xpc l)"
      using fits Live h by (auto simp: rtm_fits_def)
    obtain t' where t': "txs w' j = Some t'" "safe_change (vals w) (vals w') t t'" using safe(2) [OF t(1)] by blast
    then show ?thesis using t(2) rtm_knows_safe [OF t(3)] by (auto simp: safe_change_def)
  qed
  moreover have "v = vals w' (Cell (word_of P (round l)))" if "xpc l = LWrite v" for v
    using that fits Live cells by (simp add: rtm_fits_def holds_mutex_def)
  ultimately show ?thesis using fits Live safe(1) by (auto simp: rtm_fits_def split: if_splits)
qed (use assms in \<open>auto simp: rtm_fits_def others_safe_def\<close>)

lemma rtm_move:
  assumes J: "rtm_J P n lim w st" and i: "i < n"
    and safe: "others_safe n i w w'" and fits: "rtm_fits P lim w' i x"
    and lock: "holds_mutex x = holds_mutex (st i) \<and> (vals w' Mutex = 0) = (vals w Mutex = 0) \<or>
      holds_mutex x \<and> vals w Mutex = 0 \<and> vals w' Mutex \<noteq> 0 \<or>
      \<not> holds_mutex x \<and> holds_mutex (st i) \<and> vals w' Mutex = 0"
    and cells: "(\<forall>c. vals w' (Cell c) = vals w (Cell c)) \<or> holds_mutex (st i) \<or> vals w Mutex = 0"
    and sum: "tm_sum (words P) w' + of_nat (rtm_added P lim (st i)) = tm_sum (words P) w + of_nat (rtm_added P lim x)"
  shows "rtm_J P n lim w' (st(i := x))"
proof -
  let ?H = "{j. j < n \<and> holds_mutex (st j)}" and ?H' = "{j. j < n \<and> holds_mutex ((st(i := x)) j)}"
  have own: "owned (vals w Mutex \<noteq> 0) ?H" using J by (simp add: rtm_J_def)
  have own': "owned (vals w' Mutex \<noteq> 0) ?H'"
    by (rule owned_change [OF own, of _ i]) (use lock i in auto)
  have "rtm_fits P lim w' j ((st(i := x)) j)" if j: "j < n" for j
  proof (cases "j = i")
    case False
    have "\<forall>c. vals w' (Cell c) = vals w (Cell c)" if h: "holds_mutex (st j)"
    proof -
      have "j \<in> ?H" using j h by simp
      then have "vals w Mutex \<noteq> 0" "\<not> holds_mutex (st i)"
        using owned_holds [OF own] owned_unique [OF own, of j i] i False by auto
      then show ?thesis using cells by blast
    qed
    then show ?thesis using fits_other [OF _ safe] J j False by (simp add: rtm_J_def)
  qed (use fits in simp)
  moreover have "tm_sum (words P) w' = of_nat (\<Sum>j<n. rtm_added P lim ((st(i := x)) j))"
  proof -
    have "(of_nat (\<Sum>j<n. rtm_added P lim ((st(i := x)) j)) + of_nat (rtm_added P lim (st i)) :: cint) =
        of_nat (\<Sum>j<n. rtm_added P lim (st j)) + of_nat (rtm_added P lim x)"
      using sum_at [OF i, of "rtm_added P lim" st x] by (metis of_nat_add)
    moreover have "tm_sum (words P) w = of_nat (\<Sum>j<n. rtm_added P lim (st j))" using J by (simp add: rtm_J_def)
    ultimately show ?thesis using sum by (metis add_right_cancel)
  qed
  ultimately show ?thesis using own' by (simp add: rtm_J_def)
qed

text \<open>A step that changes at most the thread's own transaction, and adds nothing.\<close>

lemma rtm_quiet:
  assumes J: "rtm_J P n lim w st" and i: "i < n"
    and "vals w' = vals w" "\<And>j. j \<noteq> i \<Longrightarrow> txs w' j = txs w j" "rtm_fits P lim w' i x"
    and "holds_mutex x = holds_mutex (st i)" "rtm_added P lim x = rtm_added P lim (st i)"
  shows "rtm_J P n lim w' (st(i := x))"
  using assms by (intro rtm_move [OF J i others_own]) (auto simp: tm_sum_def)

lemma rtm_facts:
  assumes J: "rtm_J P n lim w st" and i: "i < n" and at: "st i = Live l"
  shows "xpc l \<noteq> XFault"
    and "case xpc l of XLoop \<Rightarrow> round l \<le> lim | XSum c v \<Rightarrow> round l = lim | _ \<Rightarrow> round l < lim"
    and "in_hardware (xpc l) \<Longrightarrow> \<exists>t. txs w i = Some t \<and> hardware t \<and> rtm_knows P (vals w) t (round l) (xpc l)"
    and "\<not> in_hardware (xpc l) \<Longrightarrow> txs w i = None"
    and "xpc l = LWrite v \<Longrightarrow> adds P (round l) \<and> v = vals w (Cell (word_of P (round l)))"
    and "holds_mutex (st i) \<Longrightarrow> vals w Mutex \<noteq> 0"
    and "txs w j = Some t \<Longrightarrow> j < n \<Longrightarrow> hardware t"
proof -
  have "rtm_fits P lim w i (Live l)" using J i at by (metis rtm_J_def)
  then show "xpc l \<noteq> XFault" "case xpc l of XLoop \<Rightarrow> round l \<le> lim | XSum c v \<Rightarrow> round l = lim | _ \<Rightarrow> round l < lim"
    "in_hardware (xpc l) \<Longrightarrow> \<exists>t. txs w i = Some t \<and> hardware t \<and> rtm_knows P (vals w) t (round l) (xpc l)"
    "\<not> in_hardware (xpc l) \<Longrightarrow> txs w i = None"
    "xpc l = LWrite v \<Longrightarrow> adds P (round l) \<and> v = vals w (Cell (word_of P (round l)))"
    by (simp_all add: rtm_fits_def)
  show "vals w Mutex \<noteq> 0" if "holds_mutex (st i)"
  proof -
    have "owned (vals w Mutex \<noteq> 0) {i. i < n \<and> holds_mutex (st i)}" using J by (simp add: rtm_J_def)
    from owned_holds [OF this, of i] show ?thesis using i that by simp
  qed
  show "hardware t" if "txs w j = Some t" "j < n"
  proof -
    have "rtm_fits P lim w j (st j)" using J that(2) by (simp add: rtm_J_def)
    then show ?thesis using that(1) by (auto simp: rtm_fits_def split: status.splits if_splits)
  qed
qed

lemma rtm_aborted:
  assumes J: "rtm_J P n lim w st" and i: "i < n" and at: "st i = Live l" and pc: "in_hardware (xpc l) \<or> xpc l = XBegin"
    and x: "Go w' l' \<in> set (rtm_aborts reasons i w l)"
  shows "rtm_J P n lim w' (st(i := Live l'))"
proof -
  note facts = rtm_facts [OF J i at]
  have "round l < lim" "\<not> holds_mutex (Live l)" "xpc l \<noteq> LTestEnd" "xpc l \<noteq> LStoreZero"
    using pc facts(2) by (cases "xpc l"; simp add: holds_mutex_def)+
  then show ?thesis
    using x at by (intro rtm_quiet [OF J i]) (auto simp: rtm_aborts_def rtm_fits_def holds_mutex_def)
qed

lemma rtm_commits:
  assumes J: "rtm_J P n lim w st" and i: "i < n" and at: "st i = Live l" and pc: "xpc l = XEnd"
    and t: "txs w i = Some t" "\<not> doomed t" and shape: "word_of P (round l) < words P"
  shows "rtm_J P n lim (tx_commit i t w) (st(i := Live (next_round l)))"
proof -
  note facts = rtm_facts [OF J i at]
  let ?x = "Cell (word_of P (round l))"
  have know: "hardware t" "rtm_knows P (vals w) t (round l) XEnd" "round l < lim"
    using facts(2,3) pc t(1) by auto
  have free: "vals w Mutex = 0" using know(2) t(2) by (auto simp: clean_def split: if_splits)
  have vals: "vals (tx_commit i t w) = (if adds P (round l) then (vals w)(?x := vals w ?x + 1) else vals w)"
  proof (cases "adds P (round l)")
    case True
    then obtain v where "clean (vals w) t [(Mutex, 0), (?x, v)] [(?x, v + 1)]" using know(2) by auto
    then have "writes t = [(?x, v + 1)]" "v = vals w ?x" using t(2) by (auto simp: clean_def)
    then show ?thesis using commit_vals(2) True by simp
  next
    case False
    then have "writes t = []" using know(2) t(2) by (auto simp: clean_def)
    then show ?thesis using commit_vals(1) False by simp
  qed
  have mutex: "vals (tx_commit i t w) Mutex = 0" using vals free by auto
  show ?thesis
  proof (rule rtm_move [OF J i])
    show "others_safe n i w (tx_commit i t w)" using facts(7) by (intro others_commit) blast
    show "rtm_fits P lim (tx_commit i t w) i (Live (next_round l))"
      using know(3) by (simp add: rtm_fits_def next_round_def tx_commit_def)
    show "tm_sum (words P) (tx_commit i t w) + of_nat (rtm_added P lim (st i)) =
        tm_sum (words P) w + of_nat (rtm_added P lim (Live (next_round l)))"
    proof (cases "adds P (round l)")
      case True
      then show ?thesis using at pc vals tm_sum_inc [OF shape] by (simp add: next_round_def)
    next
      case False
      then show ?thesis using at pc vals by (simp add: next_round_def tm_sum_def)
    qed
  qed (use free mutex at pc in \<open>auto simp: holds_mutex_def next_round_def\<close>)
qed

lemma rtm_go:
  assumes J: "rtm_J P n lim w st" and i: "i < n" and at: "st i = Live l"
    and shape: "\<And>k. word_of P k < words P"
    and step: "Go w' l' \<in> set (rtm_step P reasons lim i w l)"
  shows "rtm_J P n lim w' (st(i := Live l'))"
proof -
  note facts = rtm_facts [OF J i at]
  let ?x = "Cell (word_of P (round l))"
  note quiet = rtm_quiet [OF J i] and aborted = rtm_aborted [OF J i at]
  have tx: "\<exists>t. txs w i = Some t \<and> hardware t \<and> \<not> doomed t \<and> rtm_knows P (vals w) t (round l) (xpc l) \<and> Go w' l' \<in> set (f t)"
    if "Go w' l' \<in> set (in_tx i w f)" "in_hardware (xpc l)" for f
    using that facts(3) by (auto simp: in_tx_set)
  have hard: "\<And>j t. j < n \<Longrightarrow> j \<noteq> i \<Longrightarrow> txs w j = Some t \<Longrightarrow> hardware t" using facts(7) by blast
  show ?thesis
  proof (cases "xpc l")
    case XLoop
    then show ?thesis using step at facts(2,4)
      by (intro quiet) (auto simp: rtm_step_def rtm_fits_def holds_mutex_def Let_def)
  next
    case XTry
    then show ?thesis using step at facts(2,4)
      by (intro quiet) (auto simp: rtm_step_def rtm_fits_def holds_mutex_def Let_def)
  next
    case XBegin
    then consider "w' = tx_begin True i w" "l' = l\<lparr>xpc := XTest\<rparr>" | "Go w' l' \<in> set (rtm_aborts reasons i w l)"
      using step by (auto simp: rtm_step_def Let_def)
    then show ?thesis
    proof cases
      case 1
      then show ?thesis using at XBegin facts(2)
        by (intro quiet) (auto simp: rtm_fits_def holds_mutex_def clean_def)
    qed (use aborted XBegin in blast)
  next
    case XTest
    then consider "Go w' l' \<in> set (in_tx i w (\<lambda>t. [Go (tx_read i t Mutex w) (l\<lparr>xpc := if tx_value t Mutex w = 0 then XRead else XAbort\<rparr>)]))"
      | "Go w' l' \<in> set (rtm_aborts reasons i w l)"
      using step by (auto simp: rtm_step_def Let_def)
    then show ?thesis
    proof cases
      case 1
      obtain t where t: "txs w i = Some t" "hardware t" "\<not> doomed t" "rtm_knows P (vals w) t (round l) (xpc l)"
        and go: "w' = tx_read i t Mutex w" "l' = l\<lparr>xpc := if tx_value t Mutex w = 0 then XRead else XAbort\<rparr>"
        using tx [OF 1] XTest by auto
      show ?thesis using at facts(2) XTest t unfolding go
        by (intro quiet) (auto simp: rtm_fits_def holds_mutex_def clean_def)
    qed (use aborted XTest in force)
  next
    case XAbort
    then show ?thesis using step aborted [of w' l' "explicit_status # reasons"] by (simp add: rtm_step_def Let_def)
  next
    case XRead
    then consider "Go w' l' \<in> set (in_tx i w (\<lambda>t. [Go (tx_read i t ?x w)
         (l\<lparr>xpc := if adds P (round l) then XWrite (tx_value t ?x w) else XTestEnd\<rparr>)]))"
      | "Go w' l' \<in> set (rtm_aborts reasons i w l)"
      using step by (auto simp: rtm_step_def Let_def)
    then show ?thesis
    proof cases
      case 1
      obtain t where t: "txs w i = Some t" "hardware t" "\<not> doomed t" "rtm_knows P (vals w) t (round l) (xpc l)"
        and go: "w' = tx_read i t ?x w" "l' = l\<lparr>xpc := if adds P (round l) then XWrite (tx_value t ?x w) else XTestEnd\<rparr>"
        using tx [OF 1] XRead by auto
      show ?thesis using at facts(2) XRead t unfolding go
        by (intro quiet) (auto simp: rtm_fits_def holds_mutex_def clean_def)
    qed (use aborted XRead in force)
  next
    case (XWrite v)
    then consider "Go w' l' \<in> set (in_tx i w (\<lambda>t. [Go (tx_write i t ?x (v + 1) w) (l\<lparr>xpc := XTestEnd\<rparr>)]))"
      | "Go w' l' \<in> set (rtm_aborts reasons i w l)"
      using step by (auto simp: rtm_step_def Let_def)
    then show ?thesis
    proof cases
      case 1
      obtain t where t: "txs w i = Some t" "hardware t" "\<not> doomed t" "rtm_knows P (vals w) t (round l) (xpc l)"
        and go: "w' = tx_write i t ?x (v + 1) w" "l' = l\<lparr>xpc := XTestEnd\<rparr>"
        using tx [OF 1] XWrite by auto
      show ?thesis using at facts(2) XWrite t unfolding go
        by (intro quiet) (auto simp: rtm_fits_def holds_mutex_def clean_def)
    qed (use aborted XWrite in force)
  next
    case XTestEnd
    then consider "Go w' l' \<in> set (in_tx i w (\<lambda>t. [Go (tx_read i t Mutex w) (l\<lparr>xpc := if tx_value t Mutex w = 0 then XEnd else XFault\<rparr>)]))"
      | "Go w' l' \<in> set (rtm_aborts reasons i w l)"
      using step by (auto simp: rtm_step_def Let_def)
    then show ?thesis
    proof cases
      case 1
      obtain t where t: "txs w i = Some t" "hardware t" "\<not> doomed t" "rtm_knows P (vals w) t (round l) (xpc l)"
        and go: "w' = tx_read i t Mutex w" "l' = l\<lparr>xpc := if tx_value t Mutex w = 0 then XEnd else XFault\<rparr>"
        using tx [OF 1] XTestEnd by auto
      show ?thesis using at facts(2) XTestEnd t unfolding go
        by (intro quiet) (auto simp: rtm_fits_def holds_mutex_def clean_def tx_value_def split: if_splits)
    qed (use aborted XTestEnd in force)
  next
    case XEnd
    then consider "Go w' l' \<in> set (in_tx i w (\<lambda>t. [Go (tx_commit i t w) (next_round l)]))"
      | "Go w' l' \<in> set (rtm_aborts reasons i w l)"
      using step by (auto simp: rtm_step_def Let_def)
    then show ?thesis
    proof cases
      case 1
      obtain t where t: "txs w i = Some t" "\<not> doomed t" and go: "w' = tx_commit i t w" "l' = next_round l"
        using tx [OF 1] XEnd by auto
      show ?thesis unfolding go by (rule rtm_commits [OF J i at XEnd t shape])
    qed (use aborted XEnd in force)
  next
    case LLock
    then have x: "w' = plain_store Mutex 1 w" "l' = l\<lparr>xpc := if vals w Mutex = 0 then LRead else LLock\<rparr>"
      using step by (auto simp: rtm_step_def Let_def)
    show ?thesis
    proof (rule rtm_move [OF J i])
      show "others_safe n i w w'" unfolding x(1) by (rule others_store) (use hard in blast)
      show "tm_sum (words P) w' + of_nat (rtm_added P lim (st i)) = tm_sum (words P) w + of_nat (rtm_added P lim (Live l'))"
        using x at LLock by (simp add: tm_sum_def)
    qed (use x at LLock facts(2,4) in \<open>auto simp: holds_mutex_def rtm_fits_def\<close>)
  next
    case LRead
    then show ?thesis using step at facts(2,4)
      by (intro quiet) (auto simp: rtm_step_def rtm_fits_def holds_mutex_def Let_def)
  next
    case (LWrite v)
    then have x: "w' = plain_store ?x (v + 1) w" "l' = l\<lparr>xpc := LTestEnd\<rparr>" "v = vals w ?x" "adds P (round l)"
      using step facts(5) by (auto simp: rtm_step_def Let_def)
    show ?thesis
    proof (rule rtm_move [OF J i])
      show "others_safe n i w w'" unfolding x(1) by (rule others_store) (use hard in blast)
      have "tm_sum (words P) w' = tm_sum (words P) w + 1" using x(1,3) by (intro tm_sum_inc [OF shape]) simp
      then show "tm_sum (words P) w' + of_nat (rtm_added P lim (st i)) = tm_sum (words P) w + of_nat (rtm_added P lim (Live l'))"
        using x at LWrite by simp
    qed (use x at LWrite facts(2,4) in \<open>auto simp: holds_mutex_def rtm_fits_def\<close>)
  next
    case LTestEnd
    moreover have "vals w Mutex \<noteq> 0" using facts(6) at LTestEnd by (simp add: holds_mutex_def)
    ultimately show ?thesis using step at facts(2,4)
      by (intro quiet) (auto simp: rtm_step_def rtm_fits_def holds_mutex_def Let_def)
  next
    case LStoreZero
    then have x: "w' = plain_store Mutex 0 w" "l' = next_round l"
      using step by (auto simp: rtm_step_def Let_def)
    show ?thesis
    proof (rule rtm_move [OF J i])
      show "others_safe n i w w'" unfolding x(1) by (rule others_store) (use hard in blast)
      show "tm_sum (words P) w' + of_nat (rtm_added P lim (st i)) = tm_sum (words P) w + of_nat (rtm_added P lim (Live l'))"
        using x at LStoreZero by (simp add: tm_sum_def next_round_def)
    qed (use x at LStoreZero facts(2,4) in \<open>auto simp: holds_mutex_def rtm_fits_def next_round_def\<close>)
  next
    case (XSum c v)
    then show ?thesis using step at facts(2,4)
      by (intro quiet) (auto simp: rtm_step_def rtm_fits_def holds_mutex_def Let_def split: if_splits)
  qed (use step facts(1) in \<open>simp_all add: rtm_step_def Let_def\<close>)
qed

lemma rtm_exit:
  assumes J: "rtm_J P n lim w st" and i: "i < n" and at: "st i = Live l"
    and step: "Exit w' \<in> set (rtm_step P reasons lim i w l)"
  shows "rtm_J P n lim w' (st(i := Dead))"
proof -
  note facts = rtm_facts [OF J i at]
  have "\<exists>c v. xpc l = XSum c v" using step
    by (cases "xpc l") (auto simp: rtm_step_def rtm_aborts_def in_tx_set Let_def split: if_splits)
  then obtain c v where pc: "xpc l = XSum c v" by blast
  then have "w' = w\<lparr>tm_lines := tm_lines w @ [EndMsg i v]\<rparr>" using step
    by (auto simp: rtm_step_def Let_def split: if_splits)
  then show ?thesis using at facts(2,4) pc
    by (intro rtm_quiet [OF J i]) (auto simp: rtm_fits_def holds_mutex_def)
qed

lemma rtm_created:
  assumes J: "rtm_J P n lim w st" and i: "i < n" and at: "st i = Unborn"
  shows "rtm_J P n lim w (st(i := Live \<lparr>round = 0, tries = 0, abort_status = 0, xpc = XLoop\<rparr>))"
proof -
  have "txs w i = None" using J i at by (auto simp: rtm_J_def rtm_fits_def dest!: spec [of _ i])
  then show ?thesis using at by (intro rtm_quiet [OF J i]) (auto simp: rtm_fits_def holds_mutex_def)
qed

lemma rtm_started: "rtm_J P n lim tm_start (\<lambda>_. Unborn)"
  by (simp add: rtm_J_def tm_start_def rtm_fits_def holds_mutex_def owned_def tm_sum_def)

subsection \<open>Progress\<close>

text \<open>A thread whose transactions all abort takes the mutex in the end.\<close>

fun rtm_rank :: "rtm_local \<Rightarrow> nat" where
  "rtm_rank l = (case xpc l of XLoop \<Rightarrow> 50 | XTry \<Rightarrow> 13 + 3 * (10 - tries l)
     | LLock \<Rightarrow> 5 | LRead \<Rightarrow> 4 | LWrite v \<Rightarrow> 3 | LTestEnd \<Rightarrow> 2 | LStoreZero \<Rightarrow> 1
     | _ \<Rightarrow> 14 + 3 * (9 - tries l))"

definition rtm_left :: "nat \<Rightarrow> nat \<Rightarrow> rtm_local status \<Rightarrow> nat" where
  "rtm_left len lim s = (case s of Live l \<Rightarrow>
       (case xpc l of XSum c v \<Rightarrow> Suc (len - c) | _ \<Rightarrow> 2 + len + 100 * (lim - round l) + rtm_rank l)
     | _ \<Rightarrow> 0)"

lemma rtm_moves_on:
  assumes J: "rtm_J P n lim w st" and i: "i < n" and at: "st i = Live l" and reasons: "reasons \<noteq> []"
    and free: "vals w Mutex = 0 \<or> holds_mutex (st i)"
  shows "(\<exists>w' l'. Go w' l' \<in> set (rtm_step P reasons lim i w l) \<and>
      rtm_left (words P) lim (Live l') < rtm_left (words P) lim (Live l)) \<or>
    (\<exists>w'. Exit w' \<in> set (rtm_step P reasons lim i w l))"
proof -
  note facts = rtm_facts [OF J i at]
  let ?less = "\<lambda>l'. rtm_left (words P) lim (Live l') < rtm_left (words P) lim (Live l)"
  have aborts: "Go (tx_abort i w) (l\<lparr>tries := tries l + 1, abort_status := r, xpc := XTry\<rparr>) \<in> set (rtm_aborts rs i w l)"
    if "r \<in> set rs" for rs r using that by (auto simp: rtm_aborts_def)
  obtain r where r: "r \<in> set reasons" using reasons by (cases reasons) auto
  show ?thesis
  proof (cases "in_hardware (xpc l) \<or> xpc l = XBegin")
    case True
    have "Go (tx_abort i w) (l\<lparr>tries := tries l + 1, abort_status := r, xpc := XTry\<rparr>) \<in> set (rtm_step P reasons lim i w l)"
      using True aborts [OF r] aborts [of r "explicit_status # reasons"] r
      by (cases "xpc l") (auto simp: rtm_step_def Let_def)
    moreover have "?less (l\<lparr>tries := tries l + 1, abort_status := r, xpc := XTry\<rparr>)"
      using True by (cases "xpc l") (auto simp: rtm_left_def)
    ultimately show ?thesis by blast
  next
    case False
    have "vals w Mutex \<noteq> 0" if "holds_mutex (st i)" using facts(6) that by simp
    then show ?thesis using False facts(1,2) free at
      by (cases "xpc l") (auto simp: rtm_step_def rtm_left_def try_again_def next_round_def holds_mutex_def Let_def)
  qed
qed

lemma rtm_live:
  assumes shape: "\<And>k. word_of P k < words P" and reasons: "reasons \<noteq> []"
  shows "fj_live (rtm_prog P reasons n lim expected) (rtm_J P n lim)
    (\<lambda>w st. \<Sum>i<n. rtm_left (words P) lim (st i))"
proof unfold_locales
  fix w st i
  assume J: "rtm_J P n lim w st" and born: "\<forall>i<fj_threads (rtm_prog P reasons n lim expected). st i \<noteq> Unborn"
    and i: "i < fj_threads (rtm_prog P reasons n lim expected)" "st i \<noteq> Dead"
  have mutex: "owned (vals w Mutex \<noteq> 0) {i. i < n \<and> holds_mutex (st i)}" using J by (simp add: rtm_J_def)
  obtain k where k: "k < n" "st k \<noteq> Dead" "vals w Mutex = 0 \<or> holds_mutex (st k)"
  proof (cases "vals w Mutex = 0")
    case False
    then obtain k where "k < n" "holds_mutex (st k)" using mutex by (auto simp: owned_def)
    then show ?thesis using that by (auto simp: holds_mutex_def)
  qed (use i that in auto)
  obtain l where l: "st k = Live l" using k(1,2) born by (cases "st k") auto
  have down: "(\<Sum>j<n. rtm_left (words P) lim ((st(k := x)) j)) < (\<Sum>j<n. rtm_left (words P) lim (st j))"
    if "rtm_left (words P) lim x < rtm_left (words P) lim (st k)" for x
    using k(1) that by (intro sum_update_less [of k]) auto
  have dead: "rtm_left (words P) lim Dead < rtm_left (words P) lim (st k)"
    using l by (auto simp: rtm_left_def split: rtm_pc.splits)
  from rtm_moves_on [OF J k(1) l reasons k(3)]
  show "\<exists>k<fj_threads (rtm_prog P reasons n lim expected). \<exists>l. st k = Live l \<and>
      ((\<exists>g' l'. Go g' l' \<in> set (body (rtm_prog P reasons n lim expected) k w l) \<and>
          (\<Sum>i<n. rtm_left (words P) lim ((st(k := Live l')) i)) < (\<Sum>i<n. rtm_left (words P) lim (st i))) \<or>
       (\<exists>g'. Exit g' \<in> set (body (rtm_prog P reasons n lim expected) k w l) \<and>
          (\<Sum>i<n. rtm_left (words P) lim ((st(k := Dead)) i)) < (\<Sum>i<n. rtm_left (words P) lim (st i))))"
  proof (elim disjE exE conjE)
    fix w' l'
    assume "Go w' l' \<in> set (rtm_step P reasons lim k w l)" "rtm_left (words P) lim (Live l') < rtm_left (words P) lim (Live l)"
    then show ?thesis using down [of "Live l'"] l k(1) by (intro exI [of _ k] conjI exI [of _ l] disjI1 exI) simp_all
  next
    fix w'
    assume "Exit w' \<in> set (rtm_step P reasons lim k w l)"
    then show ?thesis using down [OF dead] l k(1) by (intro exI [of _ k] conjI exI [of _ l] disjI2 exI) simp_all
  qed
next
  let ?P = "rtm_prog P reasons n lim expected"
  show "rtm_J P n lim (world0 ?P) (\<lambda>_. Unborn)" using rtm_started by simp
  show "rtm_J P n lim w (st(i := Live (entry ?P i)))" if "rtm_J P n lim w st" "i < fj_threads ?P" "st i = Unborn" for w st i
    using that rtm_created by simp
  show "rtm_J P n lim w' (st(i := Live l'))" if "rtm_J P n lim w st" "i < fj_threads ?P" "st i = Live l" "Go w' l' \<in> set (body ?P i w l)"
    for w st i l w' l'
    using that by (simp add: rtm_go [OF _ _ _ shape])
  show "rtm_J P n lim w' (st(i := Dead))" if "rtm_J P n lim w st" "i < fj_threads ?P" "st i = Live l" "Exit w' \<in> set (body ?P i w l)"
    for w st i l w'
    using that by (simp add: rtm_exit)
qed

lemma rtm_counts:
  assumes shape: "\<And>k. word_of P k < words P" and reasons: "reasons \<noteq> []"
  shows "tm_counts (rtm_prog P reasons n lim expected) (n * increments_of (adds P) lim) expected"
proof -
  note live = rtm_live [OF shape reasons, of n lim expected]
  let ?P = "rtm_prog P reasons n lim expected"
  have "tm_lines (world s) \<noteq> [] \<and>
      last (tm_lines (world s)) = ValueMsg (of_nat (n * increments_of (adds P) lim)) expected"
    if "fj_reach ?P s" "main_at s = MainDone" for s
  proof -
    note ended = that
    obtain w st where w: "rtm_J P n lim w st" "\<forall>i<n. st i = Dead" "world s = tm_report (words P) expected w"
      using fj_invariant.fj_finished [OF fj_live.axioms(1) [OF live] ended] by auto
    have "(\<Sum>i<n. rtm_added P lim (st i)) = (\<Sum>i<n. increments_of (adds P) lim)"
      using w(2) by (intro sum.cong) auto
    then show ?thesis using w(1,3) by (simp add: rtm_J_def tm_report_prints)
  qed
  then show ?thesis using fj_live.live_finishes [OF live] by (simp add: tm_counts_def)
qed

lemma rtm_no_fault:
  assumes shape: "\<And>k. word_of P k < words P" and reasons: "reasons \<noteq> []"
    and s: "fj_reach (rtm_prog P reasons n lim expected) s" "i < n" "status s i = Live l"
  shows "xpc l \<noteq> XFault"
proof -
  have "fj_invariant (rtm_prog P reasons n lim expected) (rtm_J P n lim)"
    using fj_live.axioms(1) [OF rtm_live [OF shape reasons]] .
  from fj_invariant.fj_always [OF this s(1)] obtain w where w: "rtm_J P n lim w (status s)" by blast
  show ?thesis using rtm_facts(1) [OF w s(2,3)] .
qed

interpretation array_rtm: fj_live "rtm_prog (an_array 128) [0] n lim expected" "rtm_J (an_array 128) n lim"
    "\<lambda>w st. \<Sum>i<n. rtm_left (words (an_array 128)) lim (st i)" for n lim expected
  by (rule rtm_live) (simp_all add: an_array_def)

subsection \<open>Properties\<close>

definition rtm_ok :: "(tm_world, rtm_local) fj_prog \<Rightarrow> nat \<Rightarrow> nat \<Rightarrow> bool" where
  "rtm_ok P counted expected \<longleftrightarrow> tm_counts P counted expected \<and>
     (\<forall>s i l. fj_reach P s \<and> i < fj_threads P \<and> status s i = Live l \<longrightarrow> xpc l \<noteq> XFault)"

lemma rtm_ok_prog:
  assumes "\<And>k. word_of P k < words P" "reasons \<noteq> []"
  shows "rtm_ok (rtm_prog P reasons n lim expected) (n * increments_of (adds P) lim) expected"
  using rtm_counts [OF assms] rtm_no_fault [OF assms] by (auto simp: rtm_ok_def)

text \<open>C24: the three programs with an elided lock count every increment, whatever transactions the
  processor aborts and with whatever statuses: each of the \<open>n\<close> threads adds one per round in
  \<open>mutex_rtm.c\<close> and \<open>array_rtm.c\<close>, and one per ten rounds, rounded up, in \<open>rw_rtm.c\<close>; the
  transactions and the threads that hold the mutex never lose an increment of each other;
  \<open>rtm_unlock\<close> never commits outside a transaction nor unlocks inside one; and
  every reachable state can finish, even if no transaction ever commits.\<close>

theorem rtm_programs_correct:
  assumes "reasons \<noteq> []" "0 < len"
  shows "rtm_ok (mutex_rtm_prog reasons n m) (n * (m div n)) m \<and>
    rtm_ok (rw_rtm_prog reasons n m) (n * ((m div n + 9) div 10)) (m div 10) \<and>
    rtm_ok (array_rtm_prog len reasons n m) (n * (m div n)) m"
  using rtm_ok_prog [of "one_word (\<lambda>_. True)", OF _ assms(1), of n "m div n" m]
    rtm_ok_prog [of "one_word (\<lambda>k. k mod 10 = 0)", OF _ assms(1), of n "m div n" "m div 10"]
    rtm_ok_prog [of "an_array len", OF _ assms(1), of n "m div n" m] assms(2)
  by (simp add: mutex_rtm_prog_def rw_rtm_prog_def array_rtm_prog_def one_word_def an_array_def
      increments_all increments_tenth)

theorem rtm_programs_correct_witness:
  "[0, 2, 8 :: cint] \<noteq> [] \<and> (0 :: nat) < 128 \<and> rtm_ok (mutex_rtm_prog [0, 2, 8] 4 10000000) 10000000 10000000 \<and>
    rtm_ok (rw_rtm_prog [0, 2, 8] 4 10000000) 1000000 1000000 \<and>
    rtm_ok (array_rtm_prog 128 [0, 2, 8] 4 10000000) 10000000 10000000"
  using rtm_programs_correct [of "[0, 2, 8]" 128 4 10000000] by simp

end
