(* ===== verification/STM_Counter.thy ===== *)
theory STM_Counter
  imports Transactions
begin

section \<open>Software transactions behind hardware transactions\<close>

text \<open>
  \<open>transactional/intel/array_rtm_tinystm.c\<close>, whose rounds are hardware transactions first; a thread whose hardware
  transaction aborts says so in \<open>in_stm\<close>, which every hardware transaction reads, and goes on with a transaction of tinySTM. The counters are as in \<open>RTM_Lock\<close>.

  Transactions of both kinds are those of \<open>Transactions\<close>: isolated, and free to abort at every step. For tinySTM this is an assumption: that
  the library is set up, which this program, without a call of \<open>stm_init\<close>, does not see to, and that its transactions
  are serializable (\<open>stm_serializable\<close>) also beside hardware transactions. So the theory is about the protocol with \<open>in_stm\<close>
  and not about the program as it is; the programs on the code of tinySTM are in \<open>STM_Programs\<close>. An STM transaction that aborts jumps
  back behind \<open>stm_start\<close>, so that \<open>TLoad\<close> is where it begins again.
\<close>

datatype stm_pc = TLoop | HBegin | HTest | HXAbort | HRead | HWrite cint | HEnd
  | HAdd | TStart | TLoad | TStore cint | TCommit | HSub | TSum nat cint

record stm_local =
  turns :: nat
  tpc :: stm_pc

definition next_turn :: "stm_local \<Rightarrow> stm_local" where
  "next_turn l = l\<lparr>turns := Suc (turns l), tpc := TLoop\<rparr>"

definition stm_step :: "shape \<Rightarrow> nat \<Rightarrow> tid \<Rightarrow> tm_world \<Rightarrow> stm_local \<Rightarrow> (tm_world, stm_local) act list" where
  "stm_step P lim i w l = (let x = Cell (word_of P (turns l));
         aborted = [Go (tx_abort i w) (l\<lparr>tpc := HAdd\<rparr>)];
         again = [Go (tx_begin False i w) (l\<lparr>tpc := TLoad\<rparr>)] in
     case tpc l of
       TLoop \<Rightarrow> [Go w (l\<lparr>tpc := if turns l < lim then HBegin else TSum 0 0\<rparr>)]
     | HBegin \<Rightarrow> Go (tx_begin True i w) (l\<lparr>tpc := HTest\<rparr>) # aborted
     | HTest \<Rightarrow> in_tx i w (\<lambda>t. [Go (tx_read i t InStm w) (l\<lparr>tpc := if tx_value t InStm w \<noteq> 0 then HXAbort else HRead\<rparr>)]) @ aborted
     | HXAbort \<Rightarrow> aborted
     | HRead \<Rightarrow> in_tx i w (\<lambda>t. [Go (tx_read i t x w) (l\<lparr>tpc := HWrite (tx_value t x w)\<rparr>)]) @ aborted
     | HWrite v \<Rightarrow> in_tx i w (\<lambda>t. [Go (tx_write i t x (v + 1) w) (l\<lparr>tpc := HEnd\<rparr>)]) @ aborted
     | HEnd \<Rightarrow> in_tx i w (\<lambda>t. [Go (tx_commit i t w) (next_turn l)]) @ aborted
     | HAdd \<Rightarrow> [Go (plain_store InStm (vals w InStm + 1) w) (l\<lparr>tpc := TStart\<rparr>)]
     | TStart \<Rightarrow> again
     | TLoad \<Rightarrow> in_tx i w (\<lambda>t. [Go (tx_read i t x w)
         (l\<lparr>tpc := TStore (tx_value t x w + 1)\<rparr>)]) @ again
     | TStore v \<Rightarrow> in_tx i w (\<lambda>t. [Go (tx_write i t x v w) (l\<lparr>tpc := TCommit\<rparr>)]) @ again
     | TCommit \<Rightarrow> in_tx i w (\<lambda>t. [Go (tx_commit i t w) (l\<lparr>tpc := HSub\<rparr>)]) @ again
     | HSub \<Rightarrow> [Go (plain_store InStm (vals w InStm - 1) w) (next_turn l)]
     | TSum c v \<Rightarrow> [if c < words P then Go w (l\<lparr>tpc := TSum (Suc c) (v + vals w (Cell c))\<rparr>)
                  else Exit (w\<lparr>tm_lines := tm_lines w @ [EndMsg i v]\<rparr>)])"

definition stm_prog :: "shape \<Rightarrow> nat \<Rightarrow> nat \<Rightarrow> nat \<Rightarrow> (tm_world, stm_local) fj_prog" where
  "stm_prog P n lim expected = \<lparr>fj_threads = n, body = stm_step P lim,
     entry = (\<lambda>_. \<lparr>turns = 0, tpc = TLoop\<rparr>), world0 = tm_start, finale = tm_report (words P) expected\<rparr>"

lemma stm_prog_simps [simp]:
  "fj_threads (stm_prog P n lim expected) = n" "body (stm_prog P n lim expected) = stm_step P lim"
  "entry (stm_prog P n lim expected) = (\<lambda>_. \<lparr>turns = 0, tpc = TLoop\<rparr>)"
  "world0 (stm_prog P n lim expected) = tm_start"
  "finale (stm_prog P n lim expected) = tm_report (words P) expected"
  by (simp_all add: stm_prog_def)

definition array_rtm_stm_prog :: "nat \<Rightarrow> nat \<Rightarrow> nat \<Rightarrow> (tm_world, stm_local) fj_prog" where
  "array_rtm_stm_prog len n m = stm_prog (an_array len) n (m div n) m"

subsection \<open>The invariant\<close>

fun stm_in_hw :: "stm_pc \<Rightarrow> bool" where
  "stm_in_hw (HWrite v) = True"
| "stm_in_hw pc = (pc \<in> {HTest, HXAbort, HRead, HEnd})"

fun in_stm_tx :: "stm_pc \<Rightarrow> bool" where
  "in_stm_tx (TStore v) = True"
| "in_stm_tx pc = (pc \<in> {TLoad, TCommit})"

text \<open>The threads that \<open>in_stm\<close> counts.\<close>

definition in_region :: "stm_local status \<Rightarrow> bool" where
  "in_region s \<longleftrightarrow> (\<exists>l. s = Live l \<and> (in_stm_tx (tpc l) \<or> tpc l = TStart \<or> tpc l = HSub))"

fun stm_knows :: "shape \<Rightarrow> (loc \<Rightarrow> cint) \<Rightarrow> tx \<Rightarrow> nat \<Rightarrow> stm_pc \<Rightarrow> bool" where
  "stm_knows P C t k HTest = clean C t [] []"
| "stm_knows P C t k HXAbort = clean C t [] []"
| "stm_knows P C t k HRead = clean C t [(InStm, 0)] []"
| "stm_knows P C t k (HWrite v) = clean C t [(InStm, 0), (Cell (word_of P k), v)] []"
| "stm_knows P C t k HEnd = (\<exists>v. clean C t [(InStm, 0), (Cell (word_of P k), v)] [(Cell (word_of P k), v + 1)])"
| "stm_knows P C t k TLoad = clean C t [] []"
| "stm_knows P C t k (TStore v) = (adds P k \<and> clean C t [(Cell (word_of P k), v - 1)] [])"
| "stm_knows P C t k pc = (pc = TCommit \<and> (if adds P k
     then \<exists>v. clean C t [(Cell (word_of P k), v)] [(Cell (word_of P k), v + 1)] else clean C t [] []))"

definition stm_fits :: "shape \<Rightarrow> nat \<Rightarrow> tm_world \<Rightarrow> tid \<Rightarrow> stm_local status \<Rightarrow> bool" where
  "stm_fits P lim w i s \<longleftrightarrow> (case s of
       Live l \<Rightarrow>
         (case tpc l of TLoop \<Rightarrow> turns l \<le> lim | TSum c v \<Rightarrow> turns l = lim | _ \<Rightarrow> turns l < lim) \<and>
         (if stm_in_hw (tpc l) then \<exists>t. txs w i = Some t \<and> hardware t \<and> stm_knows P (vals w) t (turns l) (tpc l)
          else if in_stm_tx (tpc l)
          then \<exists>t. txs w i = Some t \<and> \<not> hardware t \<and> \<not> touches t InStm \<and> stm_knows P (vals w) t (turns l) (tpc l)
          else txs w i = None)
     | _ \<Rightarrow> txs w i = None)"

fun stm_added :: "shape \<Rightarrow> nat \<Rightarrow> stm_local status \<Rightarrow> nat" where
  "stm_added P lim Unborn = 0"
| "stm_added P lim (Live l) = increments_of (adds P) (turns l) + (if tpc l = HSub \<and> adds P (turns l) then 1 else 0)"
| "stm_added P lim Dead = increments_of (adds P) lim"

abbreviation stm_region :: "stm_local status \<Rightarrow> nat" where
  "stm_region s \<equiv> (if in_region s then 1 else 0)"

definition stm_J :: "shape \<Rightarrow> nat \<Rightarrow> nat \<Rightarrow> tm_world \<Rightarrow> (tid \<Rightarrow> stm_local status) \<Rightarrow> bool" where
  "stm_J P n lim w st \<longleftrightarrow>
     vals w InStm = of_nat (\<Sum>i<n. stm_region (st i)) \<and>
     (\<forall>i<n. stm_fits P lim w i (st i)) \<and>
     tm_sum (words P) w = of_nat (\<Sum>i<n. stm_added P lim (st i))"

lemma stm_knows_safe:
  assumes "stm_knows P C t k pc" "safe_change C C' t t'"
  shows "stm_knows P C' t' k pc"
proof -
  have c: "clean C t rs ws \<Longrightarrow> clean C' t' rs ws" for rs ws using assms(2) clean_safe by blast
  show ?thesis using assms(1) by (cases "(P, C, t, k, pc)" rule: stm_knows.cases) (auto intro: c split: if_splits)
qed

lemma stm_fits_other:
  assumes fits: "stm_fits P lim w j s" and safe: "others_safe n i w w'" "j < n" "j \<noteq> i"
  shows "stm_fits P lim w' j s"
proof (cases s)
  case (Live l)
  have none: "txs w j = None \<Longrightarrow> txs w' j = None" using safe by (auto simp: others_safe_def)
  have some: "\<exists>t'. txs w' j = Some t' \<and> hardware t' = hardware t \<and> touches t' InStm = touches t InStm \<and>
      stm_knows P (vals w') t' (turns l) (tpc l)"
    if "txs w j = Some t" "stm_knows P (vals w) t (turns l) (tpc l)" for t
  proof -
    note now = that
    obtain t' where t': "txs w' j = Some t'" "safe_change (vals w) (vals w') t t'"
      using safe now(1) by (auto simp: others_safe_def)
    then show ?thesis using stm_knows_safe [OF now(2) t'(2)] by (auto simp: safe_change_def touches_def)
  qed
  show ?thesis
  proof (cases "stm_in_hw (tpc l) \<or> in_stm_tx (tpc l)")
    case True
    then obtain t where "txs w j = Some t" "stm_knows P (vals w) t (turns l) (tpc l)"
      using fits Live by (auto simp: stm_fits_def split: if_splits)
    from some [OF this] this show ?thesis using fits Live by (auto simp: stm_fits_def split: if_splits)
  next
    case False
    then show ?thesis using fits Live none by (auto simp: stm_fits_def)
  qed
qed (use assms in \<open>auto simp: stm_fits_def others_safe_def\<close>)

lemma stm_move:
  assumes J: "stm_J P n lim w st" and i: "i < n"
    and safe: "others_safe n i w w'" and fits: "stm_fits P lim w' i x"
    and region: "vals w' InStm + of_nat (stm_region (st i)) = vals w InStm + of_nat (stm_region x)"
    and sum: "tm_sum (words P) w' + of_nat (stm_added P lim (st i)) = tm_sum (words P) w + of_nat (stm_added P lim x)"
  shows "stm_J P n lim w' (st(i := x))"
proof -
  have total: "a' = of_nat (\<Sum>j<n. f ((st(i := x)) j))"
    if "a = (of_nat (\<Sum>j<n. f (st j)) :: cint)" "a' + of_nat (f (st i)) = a + of_nat (f x)" for f :: "stm_local status \<Rightarrow> nat" and a a' :: cint
  proof -
    have "(of_nat (\<Sum>j<n. f ((st(i := x)) j)) + of_nat (f (st i)) :: cint) = of_nat (\<Sum>j<n. f (st j)) + of_nat (f x)"
      using sum_at [OF i, of f st x] by (metis of_nat_add)
    then show ?thesis using that by (metis add_right_cancel)
  qed
  have "stm_fits P lim w' j ((st(i := x)) j)" if "j < n" for j
    using that fits stm_fits_other [OF _ safe that] J by (auto simp: stm_J_def)
  then show ?thesis
    using J total [of _ "stm_region", OF _ region] total [of _ "stm_added P lim", OF _ sum] by (simp add: stm_J_def)
qed

lemma stm_quiet:
  assumes J: "stm_J P n lim w st" and i: "i < n"
    and "vals w' = vals w" "\<And>j. j \<noteq> i \<Longrightarrow> txs w' j = txs w j" "stm_fits P lim w' i x"
    and "in_region x = in_region (st i)" "stm_added P lim x = stm_added P lim (st i)"
  shows "stm_J P n lim w' (st(i := x))"
  using assms by (intro stm_move [OF J i others_own]) (auto simp: tm_sum_def)

lemma stm_facts:
  assumes J: "stm_J P n lim w st" and i: "i < n" and at: "st i = Live l"
  shows "case tpc l of TLoop \<Rightarrow> turns l \<le> lim | TSum c v \<Rightarrow> turns l = lim | _ \<Rightarrow> turns l < lim"
    and "stm_in_hw (tpc l) \<Longrightarrow> \<exists>t. txs w i = Some t \<and> hardware t \<and> stm_knows P (vals w) t (turns l) (tpc l)"
    and "in_stm_tx (tpc l) \<Longrightarrow> \<exists>t. txs w i = Some t \<and> \<not> hardware t \<and> \<not> touches t InStm \<and> stm_knows P (vals w) t (turns l) (tpc l)"
    and "\<not> stm_in_hw (tpc l) \<Longrightarrow> \<not> in_stm_tx (tpc l) \<Longrightarrow> txs w i = None"
proof -
  have "stm_fits P lim w i (Live l)" using J i at by (metis stm_J_def)
  moreover have "\<not> (stm_in_hw pc \<and> in_stm_tx pc)" for pc by (cases pc) auto
  ultimately show "case tpc l of TLoop \<Rightarrow> turns l \<le> lim | TSum c v \<Rightarrow> turns l = lim | _ \<Rightarrow> turns l < lim"
    "stm_in_hw (tpc l) \<Longrightarrow> \<exists>t. txs w i = Some t \<and> hardware t \<and> stm_knows P (vals w) t (turns l) (tpc l)"
    "in_stm_tx (tpc l) \<Longrightarrow> \<exists>t. txs w i = Some t \<and> \<not> hardware t \<and> \<not> touches t InStm \<and> stm_knows P (vals w) t (turns l) (tpc l)"
    "\<not> stm_in_hw (tpc l) \<Longrightarrow> \<not> in_stm_tx (tpc l) \<Longrightarrow> txs w i = None"
    by (auto simp: stm_fits_def split: if_splits)
qed

text \<open>A transaction of another thread is of the STM only if that thread is in the region.\<close>

lemma stm_other_tx:
  assumes J: "stm_J P n lim w st" and j: "j < n" and t: "txs w j = Some t"
  shows "hardware t \<or> \<not> touches t InStm \<and> in_region (st j)"
proof -
  have "stm_fits P lim w j (st j)" using J j by (simp add: stm_J_def)
  then show ?thesis using t by (auto simp: stm_fits_def in_region_def split: status.splits if_splits)
qed

lemma stm_region_empty:
  assumes J: "stm_J P n lim w st" and n: "n < 2 ^ 32" and "vals w InStm = 0" "j < n"
  shows "\<not> in_region (st j)"
proof
  assume r: "in_region (st j)"
  let ?s = "\<Sum>i<n. stm_region (st i)"
  have "?s \<le> (\<Sum>i<n. 1)" by (rule sum_mono) simp
  then have "?s < 2 ^ 32" using n by simp
  moreover have "(of_nat ?s :: cint) = 0" using J assms(3) by (simp add: stm_J_def)
  moreover have "unat (of_nat ?s :: cint) = ?s mod 2 ^ 32" by (simp add: unat_of_nat del: of_nat_sum)
  ultimately have "?s = 0" by (metis mod_less unat_0)
  moreover have "stm_region (st j) \<le> ?s" using assms(4) by (intro member_le_sum) auto
  ultimately show False using r by simp
qed

lemma stm_commits:
  assumes J: "stm_J P n lim w st" and i: "i < n" and at: "st i = Live l" and n: "n < 2 ^ 32"
    and wr: "adds P (turns l)"
    and pc: "tpc l = HEnd \<and> l' = next_turn l \<or> tpc l = TCommit \<and> l' = (l\<lparr>tpc := HSub\<rparr>)"
    and t: "txs w i = Some t" "\<not> doomed t" and shape: "word_of P (turns l) < words P"
  shows "stm_J P n lim (tx_commit i t w) (st(i := Live l'))"
proof -
  note facts = stm_facts [OF J i at]
  let ?x = "Cell (word_of P (turns l))"
  have know: "stm_knows P (vals w) t (turns l) (tpc l)" "turns l < lim"
    using facts(1,2,3) pc t(1) by auto
  have kind: "tpc l = HEnd \<Longrightarrow> hardware t" "tpc l = TCommit \<Longrightarrow> \<not> hardware t"
    using facts(2,3) t(1) by auto
  have vals: "vals (tx_commit i t w) = (if adds P (turns l) then (vals w)(?x := vals w ?x + 1) else vals w)"
  proof (cases "adds P (turns l)")
    case True
    then obtain v where "writes t = [(?x, v + 1)]" "v = vals w ?x"
      using know(1) pc t(2) by (auto simp: clean_def)
    then show ?thesis using commit_vals(2) True by simp
  next
    case False
    then have "writes t = []" using know(1) kind(1) wr pc t(2) by (auto simp: clean_def)
    then show ?thesis using commit_vals(1) False by simp
  qed
  show ?thesis
  proof (rule stm_move [OF J i])
    have "hardware u \<or> \<not> hardware t" if "j < n" "txs w j = Some u" for j u
    proof (cases "tpc l = HEnd")
      case True
      then have "vals w InStm = 0" using know(1) t(2) by (auto simp: clean_def)
      then show ?thesis
        using True kind(1) stm_other_tx [OF J that] stm_region_empty [OF J n _ that(1)] by blast
    qed (use kind(2) pc in blast)
    then show "others_safe n i w (tx_commit i t w)" by (intro others_commit) blast
    show "stm_fits P lim (tx_commit i t w) i (Live l')"
      using know(2) pc by (auto simp: stm_fits_def next_turn_def tx_commit_def split: if_splits)
    show "tm_sum (words P) (tx_commit i t w) + of_nat (stm_added P lim (st i)) =
        tm_sum (words P) w + of_nat (stm_added P lim (Live l'))"
    proof (cases "adds P (turns l)")
      case True
      then show ?thesis using at pc vals tm_sum_inc [OF shape] by (auto simp: next_turn_def split: if_splits)
    next
      case False
      then show ?thesis using at pc vals by (auto simp: next_turn_def tm_sum_def split: if_splits)
    qed
    have "in_region (Live l') = in_region (st i)" using at pc kind(1) by (auto simp: in_region_def next_turn_def)
    then show "vals (tx_commit i t w) InStm + of_nat (stm_region (st i)) =
        vals w InStm + of_nat (stm_region (Live l'))" using vals by auto
  qed
qed

lemma stm_go:
  assumes J: "stm_J P n lim w st" and i: "i < n" and at: "st i = Live l" and n: "n < 2 ^ 32"
    and wr: "\<And>k. adds P k" and shape: "\<And>k. word_of P k < words P"
    and step: "Go w' l' \<in> set (stm_step P lim i w l)"
  shows "stm_J P n lim w' (st(i := Live l'))"
proof -
  note facts = stm_facts [OF J i at]
  let ?x = "Cell (word_of P (turns l))"
  note quiet = stm_quiet [OF J i]
  note commits = stm_commits [OF J i at n wr _ _ _ shape]
  have hw: "\<exists>t. txs w i = Some t \<and> hardware t \<and> \<not> doomed t \<and> stm_knows P (vals w) t (turns l) (tpc l) \<and> Go w' l' \<in> set (f t)"
    if "Go w' l' \<in> set (in_tx i w f)" "stm_in_hw (tpc l)" for f
    using that facts(2) by (auto simp: in_tx_set)
  have sw: "\<exists>t. txs w i = Some t \<and> \<not> hardware t \<and> \<not> touches t InStm \<and> \<not> doomed t \<and>
      stm_knows P (vals w) t (turns l) (tpc l) \<and> Go w' l' \<in> set (f t)"
    if "Go w' l' \<in> set (in_tx i w f)" "in_stm_tx (tpc l)" for f
    using that facts(3) by (auto simp: in_tx_set)
  have aborted: ?thesis if "stm_in_hw (tpc l) \<or> tpc l = HBegin" "w' = tx_abort i w" "l' = l\<lparr>tpc := HAdd\<rparr>"
    unfolding that(2,3)
    by (rule quiet; use that(1) at facts(1) in \<open>cases "tpc l"; simp add: stm_fits_def in_region_def\<close>)
  have again: ?thesis if "in_stm_tx (tpc l) \<or> tpc l = TStart" "w' = tx_begin False i w" "l' = l\<lparr>tpc := TLoad\<rparr>"
    unfolding that(2,3)
    by (rule quiet; use that(1) at facts(1) in \<open>cases "tpc l"; simp add: stm_fits_def in_region_def clean_def touches_def\<close>)
  have stored: ?thesis if "w' = plain_store InStm v w" "\<not> stm_in_hw (tpc l)" "\<not> in_stm_tx (tpc l)" "stm_fits P lim w' i (Live l')"
    "v + of_nat (stm_region (Live l)) = vals w InStm + of_nat (stm_region (Live l'))"
    "stm_added P lim (Live l') = stm_added P lim (Live l)" for v
  proof (rule stm_move [OF J i _ that(4)])
    show "others_safe n i w w'" unfolding that(1) using stm_other_tx [OF J] by (intro others_store) blast
  qed (use that at in \<open>simp_all add: tm_sum_def\<close>)
  show ?thesis
  proof (cases "tpc l")
    case TLoop
    then show ?thesis using step at facts(1,4)
      by (intro quiet) (auto simp: stm_step_def stm_fits_def in_region_def Let_def)
  next
    case HBegin
    then consider "w' = tx_begin True i w" "l' = l\<lparr>tpc := HTest\<rparr>" | "w' = tx_abort i w" "l' = l\<lparr>tpc := HAdd\<rparr>"
      using step by (auto simp: stm_step_def Let_def)
    then show ?thesis
    proof cases
      case 1
      then show ?thesis using at HBegin facts(1) by (intro quiet) (auto simp: stm_fits_def in_region_def clean_def)
    qed (use aborted HBegin in blast)
  next
    case HTest
    then consider "Go w' l' \<in> set (in_tx i w (\<lambda>t. [Go (tx_read i t InStm w) (l\<lparr>tpc := if tx_value t InStm w \<noteq> 0 then HXAbort else HRead\<rparr>)]))"
      | "w' = tx_abort i w" "l' = l\<lparr>tpc := HAdd\<rparr>"
      using step by (auto simp: stm_step_def Let_def)
    then show ?thesis
    proof cases
      case 1
      obtain t where t: "txs w i = Some t" "hardware t" "\<not> doomed t" "stm_knows P (vals w) t (turns l) (tpc l)"
        and go: "w' = tx_read i t InStm w" "l' = l\<lparr>tpc := if tx_value t InStm w \<noteq> 0 then HXAbort else HRead\<rparr>"
        using hw [OF 1] HTest by auto
      show ?thesis using at facts(1) HTest t unfolding go by (intro quiet) (auto simp: stm_fits_def in_region_def clean_def)
    qed (use aborted HTest in simp)
  next
    case HXAbort
    then show ?thesis using step aborted by (simp add: stm_step_def Let_def)
  next
    case HRead
    then consider "Go w' l' \<in> set (in_tx i w (\<lambda>t. [Go (tx_read i t ?x w) (l\<lparr>tpc := HWrite (tx_value t ?x w)\<rparr>)]))"
      | "w' = tx_abort i w" "l' = l\<lparr>tpc := HAdd\<rparr>"
      using step by (auto simp: stm_step_def Let_def)
    then show ?thesis
    proof cases
      case 1
      obtain t where t: "txs w i = Some t" "hardware t" "\<not> doomed t" "stm_knows P (vals w) t (turns l) (tpc l)"
        and go: "w' = tx_read i t ?x w" "l' = l\<lparr>tpc := HWrite (tx_value t ?x w)\<rparr>"
        using hw [OF 1] HRead by auto
      show ?thesis using at facts(1) HRead t unfolding go by (intro quiet) (auto simp: stm_fits_def in_region_def clean_def)
    qed (use aborted HRead in simp)
  next
    case (HWrite v)
    then consider "Go w' l' \<in> set (in_tx i w (\<lambda>t. [Go (tx_write i t ?x (v + 1) w) (l\<lparr>tpc := HEnd\<rparr>)]))"
      | "w' = tx_abort i w" "l' = l\<lparr>tpc := HAdd\<rparr>"
      using step by (auto simp: stm_step_def Let_def)
    then show ?thesis
    proof cases
      case 1
      obtain t where t: "txs w i = Some t" "hardware t" "\<not> doomed t" "stm_knows P (vals w) t (turns l) (tpc l)"
        and go: "w' = tx_write i t ?x (v + 1) w" "l' = l\<lparr>tpc := HEnd\<rparr>"
        using hw [OF 1] HWrite by auto
      show ?thesis using at facts(1) HWrite t unfolding go by (intro quiet) (auto simp: stm_fits_def in_region_def clean_def)
    qed (use aborted HWrite in simp)
  next
    case HEnd
    then consider "Go w' l' \<in> set (in_tx i w (\<lambda>t. [Go (tx_commit i t w) (next_turn l)]))" | "w' = tx_abort i w" "l' = l\<lparr>tpc := HAdd\<rparr>"
      using step by (auto simp: stm_step_def Let_def)
    then show ?thesis
    proof cases
      case 1
      obtain t where t: "txs w i = Some t" "\<not> doomed t" and go: "w' = tx_commit i t w" "l' = next_turn l"
        using hw [OF 1] HEnd by auto
      show ?thesis unfolding go by (rule commits [OF _ t]) (simp_all add: HEnd)
    qed (use aborted HEnd in simp)
  next
    case HAdd
    then have "w' = plain_store InStm (vals w InStm + 1) w" "l' = l\<lparr>tpc := TStart\<rparr>"
      using step by (auto simp: stm_step_def Let_def)
    then show ?thesis using HAdd facts(1,4) by (intro stored) (auto simp: stm_fits_def in_region_def)
  next
    case TStart
    then show ?thesis using step again by (simp add: stm_step_def Let_def)
  next
    case TLoad
    then consider "Go w' l' \<in> set (in_tx i w (\<lambda>t. [Go (tx_read i t ?x w)
         (l\<lparr>tpc := TStore (tx_value t ?x w + 1)\<rparr>)]))"
      | "w' = tx_begin False i w" "l' = l\<lparr>tpc := TLoad\<rparr>"
      using step by (auto simp: stm_step_def Let_def)
    then show ?thesis
    proof cases
      case 1
      obtain t where t: "txs w i = Some t" "\<not> hardware t" "\<not> touches t InStm" "\<not> doomed t" "stm_knows P (vals w) t (turns l) (tpc l)"
        and go: "w' = tx_read i t ?x w" "l' = l\<lparr>tpc := TStore (tx_value t ?x w + 1)\<rparr>"
        using sw [OF 1] TLoad by auto
      show ?thesis using at facts(1) TLoad t wr unfolding go
        by (intro quiet) (auto simp: stm_fits_def in_region_def clean_def touches_def)
    qed (use again TLoad in simp)
  next
    case (TStore v)
    then consider "Go w' l' \<in> set (in_tx i w (\<lambda>t. [Go (tx_write i t ?x v w) (l\<lparr>tpc := TCommit\<rparr>)]))"
      | "w' = tx_begin False i w" "l' = l\<lparr>tpc := TLoad\<rparr>"
      using step by (auto simp: stm_step_def Let_def)
    then show ?thesis
    proof cases
      case 1
      obtain t where t: "txs w i = Some t" "\<not> hardware t" "\<not> touches t InStm" "\<not> doomed t" "stm_knows P (vals w) t (turns l) (tpc l)"
        and go: "w' = tx_write i t ?x v w" "l' = l\<lparr>tpc := TCommit\<rparr>"
        using sw [OF 1] TStore by auto
      show ?thesis using at facts(1) TStore t unfolding go
        by (intro quiet) (auto simp: stm_fits_def in_region_def clean_def touches_def)
    qed (use again TStore in simp)
  next
    case TCommit
    then consider "Go w' l' \<in> set (in_tx i w (\<lambda>t. [Go (tx_commit i t w) (l\<lparr>tpc := HSub\<rparr>)]))"
      | "w' = tx_begin False i w" "l' = l\<lparr>tpc := TLoad\<rparr>"
      using step by (auto simp: stm_step_def Let_def)
    then show ?thesis
    proof cases
      case 1
      obtain t where t: "txs w i = Some t" "\<not> doomed t" and go: "w' = tx_commit i t w" "l' = (l\<lparr>tpc := HSub\<rparr>)"
        using sw [OF 1] TCommit by auto
      show ?thesis unfolding go(1) by (rule commits [OF _ t]) (simp_all add: TCommit go(2))
    qed (use again TCommit in simp)
  next
    case HSub
    then have "w' = plain_store InStm (vals w InStm - 1) w" "l' = next_turn l"
      using step by (auto simp: stm_step_def Let_def)
    then show ?thesis using HSub facts(1,4) by (intro stored) (auto simp: stm_fits_def in_region_def next_turn_def)
  next
    case (TSum c v)
    then show ?thesis using step at facts(1,4)
      by (intro quiet) (auto simp: stm_step_def stm_fits_def in_region_def Let_def split: if_splits)
  qed
qed

lemma stm_exit:
  assumes J: "stm_J P n lim w st" and i: "i < n" and at: "st i = Live l"
    and step: "Exit w' \<in> set (stm_step P lim i w l)"
  shows "stm_J P n lim w' (st(i := Dead))"
proof -
  note facts = stm_facts [OF J i at]
  have "\<exists>c v. tpc l = TSum c v" using step
    by (cases "tpc l") (auto simp: stm_step_def in_tx_set Let_def split: if_splits)
  then obtain c v where pc: "tpc l = TSum c v" by blast
  then have "w' = w\<lparr>tm_lines := tm_lines w @ [EndMsg i v]\<rparr>" using step
    by (auto simp: stm_step_def Let_def split: if_splits)
  then show ?thesis using at facts(1,4) pc
    by (intro stm_quiet [OF J i]) (auto simp: stm_fits_def in_region_def)
qed

lemma stm_created:
  assumes J: "stm_J P n lim w st" and i: "i < n" and at: "st i = Unborn"
  shows "stm_J P n lim w (st(i := Live \<lparr>turns = 0, tpc = TLoop\<rparr>))"
proof -
  have "txs w i = None" using J i at by (auto simp: stm_J_def stm_fits_def dest!: spec [of _ i])
  then show ?thesis using at by (intro stm_quiet [OF J i]) (auto simp: stm_fits_def in_region_def)
qed

lemma stm_started: "stm_J P n lim tm_start (\<lambda>_. Unborn)"
  by (simp add: stm_J_def tm_start_def stm_fits_def in_region_def tm_sum_def)

subsection \<open>Progress\<close>

text \<open>
  \<open>stm_big\<close> goes down with every store and commit, the only steps that may doom the
  transactions of other threads; \<open>stm_small\<close> looks at the thread's own transaction.
\<close>

definition stm_big :: "nat \<Rightarrow> stm_local status \<Rightarrow> nat" where
  "stm_big lim s = (case s of Live l \<Rightarrow> (case tpc l of
       TSum c v \<Rightarrow> 0
     | _ \<Rightarrow> 4 * (lim - turns l) + (if in_stm_tx (tpc l) \<or> tpc l = TStart then 2 else if tpc l = HSub then 1 else 3))
   | _ \<Rightarrow> 0)"

definition stm_small :: "nat \<Rightarrow> tx option \<Rightarrow> stm_local status \<Rightarrow> nat" where
  "stm_small len t s = (case s of Live l \<Rightarrow> (case tpc l of
       TLoop \<Rightarrow> 9 | HBegin \<Rightarrow> 8 | HAdd \<Rightarrow> 6 | TStart \<Rightarrow> 5 | HSub \<Rightarrow> 1
     | TLoad \<Rightarrow> if doomed (the t) then 5 else 4
     | TStore v \<Rightarrow> if doomed (the t) then 5 else 3
     | TCommit \<Rightarrow> if doomed (the t) then 5 else 2
     | TSum c v \<Rightarrow> Suc (len - c)
     | _ \<Rightarrow> 7) | _ \<Rightarrow> 0)"

definition stm_closer :: "nat \<Rightarrow> nat \<Rightarrow> tid \<Rightarrow> tm_world \<Rightarrow> stm_local status \<Rightarrow> (tm_world, stm_local) act \<Rightarrow> bool" where
  "stm_closer len lim i w s x \<longleftrightarrow> (let w' = act_world x; s' = act_status x in
     stm_big lim s' < stm_big lim s \<or>
     stm_big lim s' = stm_big lim s \<and> (\<forall>j. j \<noteq> i \<longrightarrow> txs w' j = txs w j) \<and>
     stm_small len (txs w' i) s' < stm_small len (txs w i) s)"

lemma stm_moves_on:
  assumes J: "stm_J P n lim w st" and i: "i < n" and at: "st i = Live l"
  shows "\<exists>x \<in> set (stm_step P lim i w l). stm_closer (words P) lim i w (Live l) x"
proof -
  note facts = stm_facts [OF J i at]
  note ds = stm_closer_def stm_big_def stm_small_def
  have via: ?thesis if "x \<in> set (stm_step P lim i w l)" "stm_closer (words P) lim i w (Live l) x" for x
    using that by blast
  have again: ?thesis if "in_stm_tx (tpc l)" "doomed (the (txs w i))"
    using that by (intro via [of "Go (tx_begin False i w) (l\<lparr>tpc := TLoad\<rparr>)"]; cases "tpc l"; simp add: stm_step_def Let_def ds)
  have aborted: ?thesis if "stm_in_hw (tpc l) \<or> tpc l = HBegin"
    using that by (intro via [of "Go (tx_abort i w) (l\<lparr>tpc := HAdd\<rparr>)"]; cases "tpc l"; simp add: stm_step_def Let_def ds)
  have inside: "in_stm_tx (tpc l) \<Longrightarrow> \<exists>t. txs w i = Some t" using facts(3) by blast
  show ?thesis
  proof (cases "in_stm_tx (tpc l) \<and> \<not> doomed (the (txs w i))")
    case True
    then obtain t where t: "txs w i = Some t" "\<not> doomed t" using inside by auto
    show ?thesis using True t facts(1)
      by (cases "tpc l") (auto simp: stm_step_def Let_def ds in_tx_def next_turn_def)
  next
    case False
    then show ?thesis using again aborted facts(1)
      by (cases "tpc l") (auto simp: stm_step_def Let_def ds next_turn_def)
  qed
qed

lemma stm_drains:
  assumes n: "n < 2 ^ 32" and wr: "\<And>k. adds P k" and shape: "\<And>k. word_of P k < words P"
  shows "fj_drains (stm_prog P n lim expected) (stm_J P n lim)
    (\<lambda>w st. \<Sum>i<n. stm_big lim (st i)) (\<lambda>w st. \<Sum>i<n. stm_small (words P) (txs w i) (st i))"
proof unfold_locales
  let ?P = "stm_prog P n lim expected"
  show "stm_J P n lim (world0 ?P) (\<lambda>_. Unborn)" using stm_started by simp
  show "stm_J P n lim w (st(i := Live (entry ?P i)))" if "stm_J P n lim w st" "i < fj_threads ?P" "st i = Unborn" for w st i
    using that stm_created by simp
  show "stm_J P n lim w' (st(i := Live l'))"
    if "stm_J P n lim w st" "i < fj_threads ?P" "st i = Live l" "Go w' l' \<in> set (body ?P i w l)" for w st i l w' l'
    using that stm_go [OF _ _ _ n wr shape] by simp
  show "stm_J P n lim w' (st(i := Dead))"
    if "stm_J P n lim w st" "i < fj_threads ?P" "st i = Live l" "Exit w' \<in> set (body ?P i w l)" for w st i l w'
    using that stm_exit by simp
  show "\<exists>k<fj_threads ?P. \<exists>l x. st k = Live l \<and> x \<in> set (body ?P k w l) \<and>
      (let w' = act_world x; st' = st(k := act_status x)
       in (\<Sum>i<n. stm_big lim (st' i)) < (\<Sum>i<n. stm_big lim (st i)) \<or>
         (\<Sum>i<n. stm_big lim (st' i)) = (\<Sum>i<n. stm_big lim (st i)) \<and>
         (\<Sum>i<n. stm_small (words P) (txs w' i) (st' i)) < (\<Sum>i<n. stm_small (words P) (txs w i) (st i)))"
    if J: "stm_J P n lim w st" and born: "\<forall>i<fj_threads ?P. st i \<noteq> Unborn" "i < fj_threads ?P" "st i \<noteq> Dead" for w st i
  proof -
    obtain l where l: "st i = Live l" "i < n" using born by (cases "st i") auto
    from stm_moves_on [OF J l(2,1)] obtain x where x: "x \<in> set (stm_step P lim i w l)" "stm_closer (words P) lim i w (Live l) x"
      by blast
    let ?st = "st(i := act_status x)"
    from x(2) consider "stm_big lim (act_status x) < stm_big lim (st i)"
      | "stm_big lim (act_status x) = stm_big lim (st i)" "\<forall>j. j \<noteq> i \<longrightarrow> txs (act_world x) j = txs w j"
        "stm_small (words P) (txs (act_world x) i) (act_status x) < stm_small (words P) (txs w i) (st i)"
      using l(1) by (auto simp: stm_closer_def Let_def)
    then have "(\<Sum>j<n. stm_big lim (?st j)) < (\<Sum>j<n. stm_big lim (st j)) \<or>
        (\<Sum>j<n. stm_big lim (?st j)) = (\<Sum>j<n. stm_big lim (st j)) \<and>
        (\<Sum>j<n. stm_small (words P) (txs (act_world x) j) (?st j)) < (\<Sum>j<n. stm_small (words P) (txs w j) (st j))"
    proof cases
      case 1
      then have "(\<Sum>j<n. stm_big lim (?st j)) < (\<Sum>j<n. stm_big lim (st j))"
        using l(2) by (intro sum_update_less [of i]) auto
      then show ?thesis by blast
    next
      case 2
      have "(\<Sum>j<n. stm_big lim (?st j)) = (\<Sum>j<n. stm_big lim (st j))" using 2(1) by (rule sum_at_same)
      moreover have "(\<Sum>j<n. stm_small (words P) (txs (act_world x) j) (?st j)) < (\<Sum>j<n. stm_small (words P) (txs w j) (st j))"
        using l(2) 2 by (intro sum_update_less [of i]) auto
      ultimately show ?thesis by blast
    qed
    then show ?thesis using x(1) l by (intro exI [of _ i]) (auto simp: Let_def)
  qed
qed

lemma stm_counts:
  assumes n: "n < 2 ^ 32" and wr: "\<And>k. adds P k" and shape: "\<And>k. word_of P k < words P"
  shows "tm_counts (stm_prog P n lim expected) (n * increments_of (adds P) lim) expected"
proof -
  note drains = stm_drains [of n P lim expected, OF n wr shape]
  let ?P = "stm_prog P n lim expected"
  have "tm_lines (world s) \<noteq> [] \<and>
      last (tm_lines (world s)) = ValueMsg (of_nat (n * increments_of (adds P) lim)) expected"
    if "fj_reach ?P s" "main_at s = MainDone" for s
  proof -
    note ended = that
    obtain w st where w: "stm_J P n lim w st" "\<forall>i<n. st i = Dead" "world s = tm_report (words P) expected w"
      using fj_invariant.fj_finished [OF fj_drains.axioms(1) [OF drains] ended] by auto
    have "(\<Sum>i<n. stm_added P lim (st i)) = (\<Sum>i<n. increments_of (adds P) lim)"
      using w(2) by (intro sum.cong) auto
    then show ?thesis using w(1,3) by (simp add: stm_J_def tm_report_prints)
  qed
  then show ?thesis using fj_drains.fj_finishes [OF drains] by (simp add: tm_counts_def)
qed

interpretation array_rtm_stm: fj_drains "stm_prog (an_array 1024) 4 lim expected" "stm_J (an_array 1024) 4 lim"
    "\<lambda>w st. \<Sum>i<4. stm_big lim (st i)" "\<lambda>w st. \<Sum>i<4. stm_small (words (an_array 1024)) (txs w i) (st i)" for lim expected
  by (rule stm_drains) (simp_all add: an_array_def)

text \<open>\<open>in_stm\<close>, which every hardware transaction reads, keeps hardware transactions from committing under an STM transaction,
  which would not notice, as long as it does not wrap; every increment counts, and every reachable state can finish.\<close>

lemma array_rtm_stm_correct:
  assumes "n < 2 ^ 32" "0 < len"
  shows "tm_counts (array_rtm_stm_prog len n m) (n * (m div n)) m"
  using stm_counts [of n "an_array len" "m div n" m] assms
  by (simp add: array_rtm_stm_prog_def an_array_def increments_all)

end
