(* ===== verification/STM_Wrappers.thy ===== *)
theory STM_Wrappers
  imports Prelude
begin

unbundle bit_operations_syntax

section \<open>Loads and stores of all sizes on a transactional memory of words\<close>

text \<open>
  \<open>transactional/tinySTM/src/wrappers.c\<close>, through which the programs reach the STM: an
  \<open>int\<close> or a byte is a part of a word the STM loads or stores under a mask, an unaligned value
  or a buffer is copied in up to three pieces. A memory is what the transaction sees, a word
  per word index; \<open>'w\<close> is the word of the machine, of 4 or 8 bytes, of which the file has one
  branch each. An address is the number of a byte, without wrap-around, and the layout is little
  endian. What the unions leave undefined is a parameter (\<open>junk\<close>).

  The reference is a memory of bytes, of which each function reads or overwrites a segment.
\<close>

type_synonym 'w memory = "nat \<Rightarrow> 'w word"

text \<open>The arrays of the unions: element \<open>i\<close> of the view of a word as an array of \<open>'v\<close>.\<close>

definition field :: "'w::len word \<Rightarrow> nat \<Rightarrow> 'v::len word" where
  "field w i = ucast (drop_bit (LENGTH('v) * i) w)"

definition set_field :: "'w::len word \<Rightarrow> nat \<Rightarrow> 'v::len word \<Rightarrow> 'w word" where
  "set_field w i v = (w AND NOT (push_bit (LENGTH('v) * i) (mask LENGTH('v)))) OR push_bit (LENGTH('v) * i) (ucast v)"

text \<open>\<open>sizeof\<close>\<close>

definition bytes_in :: "'w::len word itself \<Rightarrow> nat" where
  "bytes_in T = LENGTH('w) div 8"

abbreviation W :: "'w::len memory \<Rightarrow> nat" where
  "W M \<equiv> bytes_in TYPE('w word)"

text \<open>The bytes of a value in a buffer, and the value of the bytes in a buffer.\<close>

definition to_bytes :: "'v::len word \<Rightarrow> u8 list" where
  "to_bytes v = map (field v) [0..<bytes_in TYPE('v word)]"

fun set_bytes_from :: "'v::len word \<Rightarrow> nat \<Rightarrow> u8 list \<Rightarrow> 'v word" where
  "set_bytes_from v i [] = v"
| "set_bytes_from v i (b # bs) = set_bytes_from (set_field v i b) (Suc i) bs"

definition of_bytes :: "u8 list \<Rightarrow> 'v::len word" where
  "of_bytes bs = set_bytes_from 0 0 bs"

definition TM_STORE2 :: "'w::len memory \<Rightarrow> nat \<Rightarrow> 'w word \<Rightarrow> 'w word \<Rightarrow> 'w memory" where
  "TM_STORE2 M a v m = M(a := (M a AND NOT m) OR (v AND m))"

definition TM_STORE :: "'w::len memory \<Rightarrow> nat \<Rightarrow> 'w word \<Rightarrow> 'w memory" where
  "TM_STORE M a v = TM_STORE2 M a v (NOT 0)"

subsection \<open>Buffers\<close>

text \<open>\<open>for (; i < sizeof(stm_word_t) && size > 0; i++, size--)\<close> of the first word, with what is left of \<open>size\<close>.\<close>

fun load_first :: "'w::len word \<Rightarrow> nat \<Rightarrow> nat \<Rightarrow> u8 list \<times> nat" where
  "load_first w i 0 = ([], 0)"
| "load_first w i (Suc n) =
     (if i < bytes_in TYPE('w word) then let (bs, m) = load_first w (Suc i) n in (field w i # bs, m) else ([], Suc n))"

function load_full :: "'w::len memory \<Rightarrow> nat \<Rightarrow> nat \<Rightarrow> u8 list \<times> nat \<times> nat" where
  "load_full M a n = (if 0 < W M \<and> W M \<le> n
     then let (bs, a', m) = load_full M (a + 1) (n - W M) in (to_bytes (M a) @ bs, a', m) else ([], a, n))"
  by auto
termination by (relation "measure (\<lambda>(M, a, n). n)") auto

fun load_last :: "'w::len word \<Rightarrow> nat \<Rightarrow> nat \<Rightarrow> u8 list" where
  "load_last w i 0 = []"
| "load_last w i (Suc n) = field w i # load_last w (Suc i) n"

definition stm_load_bytes :: "'w::len memory \<Rightarrow> nat \<Rightarrow> nat \<Rightarrow> u8 list" where
  "stm_load_bytes M addr n = (if n = 0 then [] else
     let i = addr mod W M;
         (first, n) = (if i \<noteq> 0 then load_first (M (addr div W M)) i n else ([], n));
         a = addr div W M + (if i \<noteq> 0 then 1 else 0);
         (full, a, n) = load_full M a n
     in first @ full @ (if 0 < n then load_last (M a) 0 n else []))"

text \<open>The value and the mask of a partial word, and what is left of the buffer.\<close>

fun store_first :: "'w::len word \<Rightarrow> 'w word \<Rightarrow> nat \<Rightarrow> u8 list \<Rightarrow> 'w word \<times> 'w word \<times> u8 list" where
  "store_first v m i [] = (v, m, [])"
| "store_first v m i (b # bs) = (if i < bytes_in TYPE('w word)
     then store_first (set_field v i b) (set_field m i (0xFF :: u8)) (Suc i) bs else (v, m, b # bs))"

function store_full :: "'w::len memory \<Rightarrow> nat \<Rightarrow> u8 list \<Rightarrow> 'w memory \<times> nat \<times> u8 list" where
  "store_full M a bs = (if 0 < W M \<and> W M \<le> length bs
     then store_full (TM_STORE M a (of_bytes (take (W M) bs))) (a + 1) (drop (W M) bs) else (M, a, bs))"
  by auto
termination by (relation "measure (\<lambda>(M, a, bs). length bs)") auto

fun store_last :: "'w::len word \<Rightarrow> 'w word \<Rightarrow> nat \<Rightarrow> u8 list \<Rightarrow> 'w word \<times> 'w word" where
  "store_last v m i [] = (v, m)"
| "store_last v m i (b # bs) = store_last (set_field v i b) (set_field m i (0xFF :: u8)) (Suc i) bs"

definition stm_store_bytes :: "'w::len memory \<Rightarrow> nat \<Rightarrow> u8 list \<Rightarrow> 'w memory" where
  "stm_store_bytes M addr bs = (if bs = [] then M else
     let i = addr mod W M; a = addr div W M;
         (M, a, bs) = (if i \<noteq> 0 then let (v, m, rest) = store_first 0 0 i bs in (TM_STORE2 M a v m, a + 1, rest)
           else (M, a, bs));
         (M, a, bs) = store_full M a bs
     in if bs \<noteq> [] then let (v, m) = store_last 0 0 0 bs in TM_STORE2 M a v m else M)"

text \<open>\<open>stm_set_bytes\<close>: the value is the same for all the words, only the masks are built.\<close>

fun mask_first :: "'w::len word \<Rightarrow> nat \<Rightarrow> nat \<Rightarrow> 'w word \<times> nat" where
  "mask_first m i 0 = (m, 0)"
| "mask_first m i (Suc n) = (if i < bytes_in TYPE('w word)
     then mask_first (set_field m i (0xFF :: u8)) (Suc i) n else (m, Suc n))"

function set_full :: "'w::len memory \<Rightarrow> nat \<Rightarrow> 'w word \<Rightarrow> nat \<Rightarrow> 'w memory \<times> nat \<times> nat" where
  "set_full M a v n = (if 0 < W M \<and> W M \<le> n then set_full (TM_STORE M a v) (a + 1) v (n - W M) else (M, a, n))"
  by auto
termination by (relation "measure (\<lambda>(M, a, v, n). n)") auto

fun mask_last :: "'w::len word \<Rightarrow> nat \<Rightarrow> nat \<Rightarrow> 'w word" where
  "mask_last m i 0 = m"
| "mask_last m i (Suc n) = mask_last (set_field m i (0xFF :: u8)) (Suc i) n"

definition stm_set_bytes :: "'w::len memory \<Rightarrow> nat \<Rightarrow> u8 \<Rightarrow> nat \<Rightarrow> 'w memory" where
  "stm_set_bytes M addr byte n = (if n = 0 then M else
     let v = of_bytes (replicate (W M) byte); i = addr mod W M; a = addr div W M;
         (M, a, n) = (if i \<noteq> 0 then let (m, rest) = mask_first 0 i n in (TM_STORE2 M a v m, a + 1, rest) else (M, a, n));
         (M, a, n) = set_full M a v n
     in if 0 < n then TM_STORE2 M a v (mask_last 0 0 n) else M)"

subsection \<open>Values\<close>

definition stm_load_u8 :: "'w::len memory \<Rightarrow> nat \<Rightarrow> u8" where
  "stm_load_u8 M addr = field (M (addr div W M)) (addr mod W M)"

definition stm_load_u16 :: "'w::len memory \<Rightarrow> nat \<Rightarrow> u16" where
  "stm_load_u16 M addr = (if addr mod 2 \<noteq> 0 then of_bytes (stm_load_bytes M addr 2)
     else field (M (addr div W M)) (addr mod W M div 2))"

definition stm_load_u32 :: "'w::len memory \<Rightarrow> nat \<Rightarrow> u32" where
  "stm_load_u32 M addr = (if addr mod 4 \<noteq> 0 then of_bytes (stm_load_bytes M addr 4)
     else if W M = 4 then ucast (M (addr div W M))
     else field (M (addr div W M)) (addr mod W M div 4))"

definition stm_load_u64 :: "'w::len memory \<Rightarrow> nat \<Rightarrow> u64" where
  "stm_load_u64 M addr = (if addr mod 8 \<noteq> 0 then of_bytes (stm_load_bytes M addr 8)
     else if W M = 4
     then set_field (set_field 0 0 (ucast (M (addr div W M)) :: u32)) 1 (ucast (M (addr div W M + 1)) :: u32)
     else ucast (M (addr div W M)))"

text \<open>The part of the word that is not stored has any bits, \<open>junk\<close>.\<close>

definition stm_store_u8 :: "'w::len word \<Rightarrow> 'w memory \<Rightarrow> nat \<Rightarrow> u8 \<Rightarrow> 'w memory" where
  "stm_store_u8 junk M addr val = TM_STORE2 M (addr div W M)
     (set_field junk (addr mod W M) val) (set_field 0 (addr mod W M) (NOT 0 :: u8))"

definition stm_store_u16 :: "'w::len word \<Rightarrow> 'w memory \<Rightarrow> nat \<Rightarrow> u16 \<Rightarrow> 'w memory" where
  "stm_store_u16 junk M addr val = (if addr mod 2 \<noteq> 0 then stm_store_bytes M addr (to_bytes val)
     else TM_STORE2 M (addr div W M)
       (set_field junk (addr mod W M div 2) val) (set_field 0 (addr mod W M div 2) (NOT 0 :: u16)))"

definition stm_store_u32 :: "'w::len word \<Rightarrow> 'w memory \<Rightarrow> nat \<Rightarrow> u32 \<Rightarrow> 'w memory" where
  "stm_store_u32 junk M addr val = (if addr mod 4 \<noteq> 0 then stm_store_bytes M addr (to_bytes val)
     else if W M = 4 then TM_STORE M (addr div W M) (ucast val)
     else TM_STORE2 M (addr div W M)
       (set_field junk (addr mod W M div 4) val) (set_field 0 (addr mod W M div 4) (NOT 0 :: u32)))"

definition stm_store_u64 :: "'w::len memory \<Rightarrow> nat \<Rightarrow> u64 \<Rightarrow> 'w memory" where
  "stm_store_u64 M addr val = (if addr mod 8 \<noteq> 0 then stm_store_bytes M addr (to_bytes val)
     else if W M = 4
     then TM_STORE (TM_STORE M (addr div W M) (ucast (field val 0 :: u32))) (addr div W M + 1) (ucast (field val 1 :: u32))
     else TM_STORE M (addr div W M) (ucast val))"

text \<open>
  The types of C: the unions reinterpret the bits, so that a signed value is stored as its two's
  complement and read back with its sign. A \<open>long\<close> has 4 or 8 bytes; of \<open>float\<close> and \<open>double\<close>
  only the bits matter. A pointer is a word, at the address of a word.
\<close>

definition stm_load_char :: "'w::len memory \<Rightarrow> nat \<Rightarrow> int" where
  "stm_load_char M addr = sint (stm_load_u8 M addr)"

definition stm_load_uchar :: "'w::len memory \<Rightarrow> nat \<Rightarrow> int" where
  "stm_load_uchar M addr = uint (stm_load_u8 M addr)"

definition stm_load_short :: "'w::len memory \<Rightarrow> nat \<Rightarrow> int" where
  "stm_load_short M addr = sint (stm_load_u16 M addr)"

definition stm_load_ushort :: "'w::len memory \<Rightarrow> nat \<Rightarrow> int" where
  "stm_load_ushort M addr = uint (stm_load_u16 M addr)"

definition stm_load_int :: "'w::len memory \<Rightarrow> nat \<Rightarrow> int" where
  "stm_load_int M addr = sint (stm_load_u32 M addr)"

definition stm_load_uint :: "'w::len memory \<Rightarrow> nat \<Rightarrow> int" where
  "stm_load_uint M addr = uint (stm_load_u32 M addr)"

definition stm_load_long :: "nat \<Rightarrow> 'w::len memory \<Rightarrow> nat \<Rightarrow> int" where
  "stm_load_long sizeof_long M addr = (if sizeof_long = 4 then sint (stm_load_u32 M addr) else sint (stm_load_u64 M addr))"

definition stm_load_ulong :: "nat \<Rightarrow> 'w::len memory \<Rightarrow> nat \<Rightarrow> int" where
  "stm_load_ulong sizeof_long M addr = (if sizeof_long = 4 then uint (stm_load_u32 M addr) else uint (stm_load_u64 M addr))"

definition stm_load_float :: "'w::len memory \<Rightarrow> nat \<Rightarrow> u32" where
  "stm_load_float M addr = stm_load_u32 M addr"

definition stm_load_double :: "'w::len memory \<Rightarrow> nat \<Rightarrow> u64" where
  "stm_load_double M addr = stm_load_u64 M addr"

definition stm_load_ptr :: "'w::len memory \<Rightarrow> nat \<Rightarrow> 'w word" where
  "stm_load_ptr M addr = M (addr div W M)"

definition stm_store_char :: "'w::len word \<Rightarrow> 'w memory \<Rightarrow> nat \<Rightarrow> int \<Rightarrow> 'w memory" where
  "stm_store_char junk M addr val = stm_store_u8 junk M addr (word_of_int val)"

definition stm_store_uchar :: "'w::len word \<Rightarrow> 'w memory \<Rightarrow> nat \<Rightarrow> int \<Rightarrow> 'w memory" where
  "stm_store_uchar junk M addr val = stm_store_u8 junk M addr (word_of_int val)"

definition stm_store_short :: "'w::len word \<Rightarrow> 'w memory \<Rightarrow> nat \<Rightarrow> int \<Rightarrow> 'w memory" where
  "stm_store_short junk M addr val = stm_store_u16 junk M addr (word_of_int val)"

definition stm_store_ushort :: "'w::len word \<Rightarrow> 'w memory \<Rightarrow> nat \<Rightarrow> int \<Rightarrow> 'w memory" where
  "stm_store_ushort junk M addr val = stm_store_u16 junk M addr (word_of_int val)"

definition stm_store_int :: "'w::len word \<Rightarrow> 'w memory \<Rightarrow> nat \<Rightarrow> int \<Rightarrow> 'w memory" where
  "stm_store_int junk M addr val = stm_store_u32 junk M addr (word_of_int val)"

definition stm_store_uint :: "'w::len word \<Rightarrow> 'w memory \<Rightarrow> nat \<Rightarrow> int \<Rightarrow> 'w memory" where
  "stm_store_uint junk M addr val = stm_store_u32 junk M addr (word_of_int val)"

definition stm_store_long :: "nat \<Rightarrow> 'w::len word \<Rightarrow> 'w memory \<Rightarrow> nat \<Rightarrow> int \<Rightarrow> 'w memory" where
  "stm_store_long sizeof_long junk M addr val = (if sizeof_long = 4
     then stm_store_u32 junk M addr (word_of_int val) else stm_store_u64 M addr (word_of_int val))"

definition stm_store_ulong :: "nat \<Rightarrow> 'w::len word \<Rightarrow> 'w memory \<Rightarrow> nat \<Rightarrow> int \<Rightarrow> 'w memory" where
  "stm_store_ulong sizeof_long junk M addr val = (if sizeof_long = 4
     then stm_store_u32 junk M addr (word_of_int val) else stm_store_u64 M addr (word_of_int val))"

definition stm_store_float :: "'w::len word \<Rightarrow> 'w memory \<Rightarrow> nat \<Rightarrow> u32 \<Rightarrow> 'w memory" where
  "stm_store_float junk M addr bits = stm_store_u32 junk M addr bits"

definition stm_store_double :: "'w::len memory \<Rightarrow> nat \<Rightarrow> u64 \<Rightarrow> 'w memory" where
  "stm_store_double M addr bits = stm_store_u64 M addr bits"

definition stm_store_ptr :: "'w::len memory \<Rightarrow> nat \<Rightarrow> 'w word \<Rightarrow> 'w memory" where
  "stm_store_ptr M addr p = TM_STORE M (addr div W M) p"

subsection \<open>The reference\<close>

definition byte_of :: "'w::len memory \<Rightarrow> nat \<Rightarrow> u8" where
  "byte_of M x = field (M (x div W M)) (x mod W M)"

definition overwrite :: "(nat \<Rightarrow> u8) \<Rightarrow> nat \<Rightarrow> u8 list \<Rightarrow> nat \<Rightarrow> u8" where
  "overwrite f addr bs x = (if addr \<le> x \<and> x < addr + length bs then bs ! (x - addr) else f x)"

abbreviation segment :: "(nat \<Rightarrow> u8) \<Rightarrow> nat \<Rightarrow> nat \<Rightarrow> u8 list" where
  "segment f addr n \<equiv> map f [addr..<addr + n]"

subsection \<open>Bytes of words\<close>

lemma bit_field: "bit (field w i :: 'v::len word) k \<longleftrightarrow> k < LENGTH('v) \<and> bit w (LENGTH('v) * i + k)"
  by (auto simp: field_def bit_simps ac_simps)

lemma bit_set_field:
  "bit (set_field w i (v :: 'v::len word)) k \<longleftrightarrow> k < LENGTH('w::len) \<and>
    (if LENGTH('v) * i \<le> k \<and> k < LENGTH('v) * i + LENGTH('v) then bit v (k - LENGTH('v) * i) else bit (w :: 'w word) k)"
  by (auto simp: set_field_def bit_simps not_le less_diff_conv2 dest: bit_imp_le_length)

lemma field_simps [simp]:
  "field (a AND b) i = field a i AND field b i" "field (a OR b) i = field a i OR field b i" "field 0 i = 0"
  by (auto simp: bit_eq_iff bit_field bit_simps)

lemma field_NOT: "LENGTH('v) * i + LENGTH('v) \<le> LENGTH('w) \<Longrightarrow> field (NOT (w :: 'w::len word)) i = NOT (field w i :: 'v::len word)"
  by (auto simp: bit_eq_iff bit_field bit_simps)

text \<open>The bytes of a word after an element of one of its views is set.\<close>

lemma byte_set_field:
  fixes w :: "'w::len word" and v :: "'v::len word"
  assumes v: "LENGTH('v) = 8 * s" and inside: "s * k + s \<le> LENGTH('w) div 8"
  shows "(field (set_field w k v) j :: u8) = (if s * k \<le> j \<and> j < s * k + s then field v (j - s * k) else field w j)"
proof (rule bit_word_eqI)
  fix b
  assume b: "b < LENGTH(8)"
  then have b8: "b < 8" by simp
  have range: "8 * s * k \<le> 8 * j + b \<longleftrightarrow> s * k \<le> j" "8 * j + b < 8 * s * k + 8 * s \<longleftrightarrow> j < s * k + s"
    using b8 by (simp_all add: mult.assoc) presburger+
  have len: "8 * (s * k + s) \<le> LENGTH('w)" using inside by simp
  show "bit (field (set_field w k v) j :: u8) b =
      bit (if s * k \<le> j \<and> j < s * k + s then field v (j - s * k) else field w j :: u8) b"
  proof (cases "s * k \<le> j \<and> j < s * k + s")
    case True
    have "8 * j + b - 8 * s * k = 8 * (j - s * k) + b" using True by (simp add: mult.assoc diff_mult_distrib2)
    moreover have "8 * j + b < LENGTH('w)" using True len b8 by simp
    ultimately show ?thesis using True b range by (simp add: bit_field bit_set_field v)
  next
    case False
    then show ?thesis using b range by (auto simp: bit_field bit_set_field v dest: bit_imp_le_length)
  qed
qed

lemma byte_set_byte:
  "i < LENGTH('w::len) div 8 \<Longrightarrow> (field (set_field (w :: 'w word) i (b :: u8)) j :: u8) = (if j = i then b else field w j)"
proof -
  assume "i < LENGTH('w::len) div 8"
  moreover have "field b 0 = b" by (simp add: field_def)
  ultimately show ?thesis using byte_set_field [where s = 1 and k = i and w = w and v = b and j = j] by auto
qed

lemma word_bytes_eqI:
  fixes x y :: "'v::len word"
  assumes v: "LENGTH('v) = 8 * s" and "\<And>j. j < s \<Longrightarrow> field x j = (field y j :: u8)"
  shows "x = y"
proof (rule bit_word_eqI)
  fix p
  assume "p < LENGTH('v)"
  then have "p div 8 < s" using v by simp
  then have "bit (field x (p div 8) :: u8) (p mod 8) = bit (field y (p div 8) :: u8) (p mod 8)" using assms(2) by simp
  then show "bit x p = bit y p" by (simp add: bit_field)
qed

text \<open>Buffers and words.\<close>

lemma byte_set_bytes_from:
  assumes "i + length bs \<le> LENGTH('v::len) div 8"
  shows "(field (set_bytes_from (v :: 'v word) i bs) j :: u8) = (if i \<le> j \<and> j < i + length bs then bs ! (j - i) else field v j)"
  using assms
proof (induction v i bs rule: set_bytes_from.induct)
  case (2 v i b bs)
  then show ?case by (auto simp: byte_set_byte nth_Cons' Suc_diff_le)
qed auto

lemma byte_of_bytes: "length bs \<le> LENGTH('v::len) div 8 \<Longrightarrow> j < length bs \<Longrightarrow> field (of_bytes bs :: 'v word) j = bs ! j"
  by (simp add: of_bytes_def byte_set_bytes_from)

lemma to_bytes_nth: "j < LENGTH('v::len) div 8 \<Longrightarrow> to_bytes (v :: 'v word) ! j = field v j"
  by (simp add: to_bytes_def bytes_in_def)

lemma length_to_bytes [simp]: "length (to_bytes (v :: 'v::len word)) = LENGTH('v) div 8"
  by (simp add: to_bytes_def bytes_in_def)

lemma of_to_bytes: "LENGTH('v::len) = 8 * s \<Longrightarrow> of_bytes (to_bytes (v :: 'v word)) = v"
  by (rule word_bytes_eqI [where s = s]) (simp_all add: byte_of_bytes to_bytes_nth)

lemma of_bytes_eqI:
  fixes x :: "'v::len word"
  assumes "LENGTH('v) = 8 * s" "length bs = s" "\<And>j. j < s \<Longrightarrow> field x j = bs ! j"
  shows "x = of_bytes bs"
proof (rule word_bytes_eqI [OF assms(1)])
  fix j
  assume "j < s"
  then have "field (of_bytes bs :: 'v word) j = bs ! j" using assms(1,2) by (intro byte_of_bytes) simp_all
  then show "(field x j :: u8) = field (of_bytes bs :: 'v word) j" using assms(3) [OF \<open>j < s\<close>] by (simp only:)
qed

lemma byte_ucast:
  "8 * j + 8 \<le> LENGTH('b::len) \<Longrightarrow> field (ucast (w :: 'a::len word) :: 'b word) j = (field w j :: u8)"
  by (rule bit_word_eqI) (auto simp: bit_field bit_simps dest: bit_imp_le_length)

lemma byte_field:
  assumes v: "LENGTH('v::len) = 8 * s" and "j < s"
  shows "(field (field w k :: 'v word) j :: u8) = field w (s * k + j)"
proof (rule bit_word_eqI)
  fix b
  assume b: "b < LENGTH(8)"
  have pos: "8 * s * k + (LENGTH(8) * j + b) = LENGTH(8) * (s * k + j) + b" by (simp add: algebra_simps)
  have "LENGTH(8) * j + b < 8 * s" using assms(2) b by simp
  then show "bit (field (field w k :: 'v word) j :: u8) b = bit (field w (s * k + j) :: u8) b"
    unfolding bit_field v pos using b by blast
qed

subsection \<open>Overwriting\<close>

lemma overwrite_Nil [simp]: "overwrite f a [] = f"
  by (auto simp: overwrite_def fun_eq_iff)

lemma overwrite_append: "overwrite f a (xs @ ys) = overwrite (overwrite f a xs) (a + length xs) ys"
  by (auto simp: overwrite_def nth_append fun_eq_iff)

lemma overwrite_eqI:
  "(\<And>x. a \<le> x \<Longrightarrow> x < a + length bs \<Longrightarrow> g x = bs ! (x - a)) \<Longrightarrow> (\<And>x. \<not> (a \<le> x \<and> x < a + length bs) \<Longrightarrow> g x = f x) \<Longrightarrow>
    g = overwrite f a bs"
  by (auto simp: overwrite_def fun_eq_iff)

subsection \<open>The functions on a machine\<close>

locale machine =
  fixes T :: "'w::len itself"
  assumes word_size: "LENGTH('w) = 32 \<or> LENGTH('w) = 64"
begin

definition wb :: nat where "wb = bytes_in TYPE('w word)"

lemma wb: "W (M :: 'w memory) = wb" "wb = 4 \<or> wb = 8" "LENGTH('w) = 8 * wb" "LENGTH('w) div 8 = wb" "0 < wb"
  using word_size by (auto simp: wb_def bytes_in_def)

text \<open>A segment inside one word.\<close>

lemma in_word:
  assumes "i + k \<le> wb"
  shows "x div wb = a \<and> i \<le> x mod wb \<and> x mod wb < i + k \<longleftrightarrow> a * wb + i \<le> x \<and> x < a * wb + i + k"
proof -
  have x: "x = x div wb * wb + x mod wb" by simp
  have "x mod wb < wb" using wb(5) by simp
  show ?thesis
  proof (cases "x div wb = a")
    case True
    then show ?thesis using x by (metis add.assoc add_le_cancel_left add_less_cancel_left)
  next
    case False
    then consider "Suc (x div wb) \<le> a" | "Suc a \<le> x div wb" by linarith
    then show ?thesis
    proof cases
      case 1
      then have le: "Suc (x div wb) * wb \<le> a * wb" by (rule mult_le_mono1)
      have "x < Suc (x div wb) * wb" using div_mult_mod_eq [of x wb] \<open>x mod wb < wb\<close> by (simp only: mult_Suc)
      then have "x < a * wb" using le by (rule less_le_trans)
      then show ?thesis using False by simp
    next
      case 2
      then have "Suc a * wb \<le> x div wb * wb" by (rule mult_le_mono1)
      then have "a * wb + i + k \<le> x" using assms div_times_less_eq_dividend [of x wb] unfolding mult_Suc by linarith
      then show ?thesis using False by simp
    qed
  qed
qed

lemma byte_in_word: "j < wb \<Longrightarrow> byte_of (M :: 'w memory) (a * wb + j) = field (M a) j"
  by (simp add: byte_of_def wb)

lemma store2_byte:
  fixes v m :: "'w word"
  assumes "field m j = (0 :: u8) \<or> field m j = (0xFF :: u8)" "j < wb"
  shows "(field ((x AND NOT m) OR (v AND m)) j :: u8) = (if field m j = (0 :: u8) then field x j else field v j)"
proof -
  have "8 * j + 8 \<le> LENGTH('w)" using assms(2) wb(3) by simp
  then have "field (NOT m) j = NOT (field m j :: u8)" using field_NOT [where 'v = 8 and i = j and w = m] by simp
  moreover have ff: "(0xFF :: u8) = NOT 0" by simp
  ultimately show ?thesis using assms(1) unfolding ff by auto
qed

lemma store2_bytes:
  fixes v m :: "'w word"
  assumes "i + length bs \<le> wb" "\<And>j. j < wb \<Longrightarrow> field m j = (if i \<le> j \<and> j < i + length bs then 0xFF else 0 :: u8)"
    and "\<And>j. i \<le> j \<Longrightarrow> j < i + length bs \<Longrightarrow> field v j = bs ! (j - i)"
  shows "byte_of (TM_STORE2 M a v m) = overwrite (byte_of M) (a * wb + i) bs"
proof (rule overwrite_eqI)
  fix x
  have j: "x mod wb < wb" using wb(5) by simp
  have at: "byte_of (TM_STORE2 M a v m) x =
      (if x div wb = a then field ((M a AND NOT m) OR (v AND m)) (x mod wb) else byte_of M x)"
    by (simp add: byte_of_def TM_STORE2_def wb)
  have byte: "(field ((M a AND NOT m) OR (v AND m)) (x mod wb) :: u8) =
      (if i \<le> x mod wb \<and> x mod wb < i + length bs then field v (x mod wb) else field (M a) (x mod wb))"
    using store2_byte [OF _ j, of m] assms(2) [OF j] by (simp del: field_simps)
  have old: "x div wb = a \<Longrightarrow> byte_of M x = field (M a) (x mod wb)" by (simp add: byte_of_def wb)
  show "byte_of (TM_STORE2 M a v m) x = bs ! (x - (a * wb + i))" if "a * wb + i \<le> x" "x < a * wb + i + length bs"
  proof -
    have in_it: "x div wb = a" "i \<le> x mod wb" "x mod wb < i + length bs" using in_word [OF assms(1), of x a] that by blast+
    then have "x - (a * wb + i) = x mod wb - i" using div_mult_mod_eq [of x wb] by simp
    then show ?thesis using at byte in_it assms(3) by simp
  qed
  show "byte_of (TM_STORE2 M a v m) x = byte_of M x" if "\<not> (a * wb + i \<le> x \<and> x < a * wb + i + length bs)"
    using in_word [OF assms(1), of x a] that at byte old by auto
qed

lemma store_bytes_full:
  fixes v :: "'w word"
  shows "byte_of (TM_STORE M a v) = overwrite (byte_of M) (a * wb) (to_bytes v)"
proof -
  have "field (NOT 0 :: 'w word) j = (0xFF :: u8)" if "j < wb" for j
  proof -
    have "8 * j + 8 \<le> LENGTH('w)" using that wb(3) by simp
    then show ?thesis using field_NOT [where 'v = 8 and i = j and w = "0 :: 'w word"] by simp
  qed
  then show ?thesis
    using store2_bytes [of 0 "to_bytes v" "NOT 0" v M a] by (simp add: TM_STORE_def wb to_bytes_nth)
qed

subsubsection \<open>Loads of buffers\<close>

lemma load_first_is:
  "i \<le> wb \<Longrightarrow> load_first (w :: 'w word) i n = (map (field w) [i..<min wb (i + n)], n - (wb - i))"
proof (induction w i n rule: load_first.induct)
  case (2 w i n)
  show ?case
  proof (cases "i < wb")
    case True
    then have "[i..<min wb (i + Suc n)] = i # [Suc i..<min wb (Suc i + n)]" by (simp add: upt_conv_Cons)
    then show ?thesis using 2 True by (simp add: wb wb_def [symmetric])
  qed (use 2 in \<open>simp add: wb_def [symmetric]\<close>)
qed simp

lemma load_full_is:
  "load_full (M :: 'w memory) a n = (segment (byte_of M) (a * wb) (n div wb * wb), a + n div wb, n mod wb)"
proof (induction M a n rule: load_full.induct)
  case (1 M a n)
  show ?case
  proof (cases "wb \<le> n")
    case True
    have q: "n div wb = Suc ((n - wb) div wb)" "(n - wb) mod wb = n mod wb"
      using True wb(5) by (simp_all add: le_div_geq le_mod_geq)
    have "[a * wb..<a * wb + n div wb * wb] = [a * wb..<a * wb + wb] @ [(a + 1) * wb..<(a + 1) * wb + (n - wb) div wb * wb]"
      using upt_add_eq_append [of "a * wb" "a * wb + wb" "(n - wb) div wb * wb"] q(1) by (simp add: algebra_simps)
    moreover have "map (byte_of M) [a * wb..<a * wb + wb] = to_bytes (M a)"
      by (rule nth_equalityI) (simp_all add: wb to_bytes_nth byte_in_word)
    ultimately show ?thesis
      using 1 True wb(1,5) q by (subst load_full.simps) (simp add: wb(1) algebra_simps)
  next
    case False
    then show ?thesis using wb(1,5) by (subst load_full.simps) simp
  qed
qed

lemma load_last_is: "load_last (w :: 'w word) i n = map (field w) [i..<i + n]"
  by (induction w i n rule: load_last.induct) (simp_all add: upt_conv_Cons del: upt_Suc)

lemma in_one_word: "i + n \<le> wb \<Longrightarrow> map (field (M a)) [i..<i + n] = segment (byte_of (M :: 'w memory)) (a * wb + i) n"
  by (rule nth_equalityI) (simp_all add: byte_in_word add.assoc)

lemma load_rest:
  "segment (byte_of (M :: 'w memory)) (a * wb) (n div wb * wb) @
      (if 0 < n mod wb then load_last (M (a + n div wb)) 0 (n mod wb) else []) = segment (byte_of M) (a * wb) n"
proof -
  have "load_last (M (a + n div wb)) 0 (n mod wb) = segment (byte_of M) ((a + n div wb) * wb) (n mod wb)"
    using in_one_word [of 0 "n mod wb" M "a + n div wb"] wb(5) by (simp add: load_last_is less_imp_le)
  moreover have "[a * wb..<a * wb + n] = [a * wb..<a * wb + n div wb * wb] @
      [(a + n div wb) * wb..<(a + n div wb) * wb + n mod wb]"
    using upt_add_eq_append [of "a * wb" "a * wb + n div wb * wb" "n mod wb"]
    by (simp add: add.assoc add_mult_distrib)
  ultimately show ?thesis by auto
qed

lemma load_bytes_is: "stm_load_bytes (M :: 'w memory) addr n = segment (byte_of M) addr n"
proof -
  let ?i = "addr mod wb" and ?a = "addr div wb" and ?k = "min (wb - addr mod wb) n" and ?n = "n - (wb - addr mod wb)"
  have i: "?i < wb" using wb(5) by simp
  consider "n = 0" | "n \<noteq> 0" "?i = 0" | "n \<noteq> 0" "?i \<noteq> 0" by blast
  then show ?thesis
  proof cases
    case 2
    then have "stm_load_bytes M addr n = segment (byte_of M) (?a * wb) (n div wb * wb) @
        (if 0 < n mod wb then load_last (M (?a + n div wb)) 0 (n mod wb) else [])"
      by (simp only: stm_load_bytes_def wb(1) load_full_is Let_def prod.case if_False if_True not_True_eq_False append_Nil add_0_right simp_thms)
    moreover have "?a * wb = addr" using 2 div_mult_mod_eq [of addr wb] by (simp only: add_0_right)
    ultimately show ?thesis using load_rest [of M ?a n] by (simp only:)
  next
    case 3
    have "min wb (?i + n) = ?i + ?k" using i by simp
    moreover have "map (field (M ?a)) [?i..<?i + ?k] = segment (byte_of M) addr ?k"
      using in_one_word [of ?i ?k M ?a] i by simp
    ultimately have "load_first (M ?a) ?i n = (segment (byte_of M) addr ?k, ?n)"
      using load_first_is [OF less_imp_le [OF i], of "M ?a" n] by (simp only:)
    then have "stm_load_bytes M addr n = segment (byte_of M) addr ?k @ segment (byte_of M) ((?a + 1) * wb) ?n"
      using 3 load_rest [of M "?a + 1" ?n]
      by (simp only: stm_load_bytes_def wb(1) load_full_is Let_def prod.case if_False if_True not_False_eq_True simp_thms)
    moreover have "segment (byte_of M) addr ?k @ segment (byte_of M) ((?a + 1) * wb) ?n = segment (byte_of M) addr n"
    proof (cases "n \<le> wb - ?i")
      case False
      then have k: "?k = wb - ?i" by simp
      have "(?a + 1) * wb = ?a * wb + wb" by simp
      then have "(?a + 1) * wb = addr + ?k" "n = ?k + ?n" using False i div_mult_mod_eq [of addr wb] unfolding k by linarith+
      then show ?thesis using upt_add_eq_append [of addr "addr + ?k" ?n] by (metis add.assoc le_add1 map_append)
    qed simp
    ultimately show ?thesis by simp
  qed (simp add: stm_load_bytes_def)
qed

subsubsection \<open>Stores of buffers\<close>

lemma store_first_is:
  assumes "store_first (v :: 'w word) m i bs = (v', m', rest)" "i \<le> wb"
  shows "\<exists>part. bs = part @ rest \<and> i + length part \<le> wb \<and> (rest = [] \<or> i + length part = wb) \<and>
    (\<forall>j. field v' j = (if i \<le> j \<and> j < i + length part then part ! (j - i) else field v j)) \<and>
    (\<forall>j. field m' j = (if i \<le> j \<and> j < i + length part then 0xFF else field m j :: u8))"
  using assms
proof (induction v m i bs rule: store_first.induct)
  case (2 v m i b bs)
  show ?case
  proof (cases "i < wb")
    case True
    then have "store_first (set_field v i b) (set_field m i (0xFF :: u8)) (Suc i) bs = (v', m', rest)"
      using 2(2) by (simp add: wb_def)
    from 2(1) [OF _ this] True obtain part where part: "bs = part @ rest" "Suc i + length part \<le> wb"
      "rest = [] \<or> Suc i + length part = wb"
      "\<forall>j. field v' j = (if Suc i \<le> j \<and> j < Suc i + length part then part ! (j - Suc i) else field (set_field v i b) j)"
      "\<forall>j. field m' j = (if Suc i \<le> j \<and> j < Suc i + length part then 0xFF else field (set_field m i (0xFF :: u8)) j :: u8)"
      by (auto simp: wb_def)
    have "field v' j = (if i \<le> j \<and> j < i + length (b # part) then (b # part) ! (j - i) else field v j)" for j
      using part(4) True by (auto simp: byte_set_byte wb nth_Cons' Suc_diff_le)
    moreover have "field m' j = (if i \<le> j \<and> j < i + length (b # part) then 0xFF else field m j :: u8)" for j
      using part(5) True by (auto simp: byte_set_byte wb)
    ultimately show ?thesis using part(1-3) by (intro exI [of _ "b # part"]) simp
  next
    case False
    then show ?thesis using 2(2,3) by (intro exI [of _ "[]"]) (auto simp: wb_def [symmetric])
  qed
qed auto

lemma store_last_is:
  assumes "store_last (v :: 'w word) m i bs = (v', m')" "i + length bs \<le> wb"
  shows "field v' j = (if i \<le> j \<and> j < i + length bs then bs ! (j - i) else field v j)"
    and "field m' j = (if i \<le> j \<and> j < i + length bs then 0xFF else field m j :: u8)"
  using assms
proof (induction v m i bs rule: store_last.induct)
  case (2 v m i b bs)
  { case 1
    then show ?case using 2(1) by (auto simp: byte_set_byte wb nth_Cons' Suc_diff_le)
  next
    case 2
    then show ?case using "2.IH"(2) by (auto simp: byte_set_byte wb)
  }
qed auto

lemma store_full_is:
  assumes "store_full (M :: 'w memory) a bs = (M', a', rest)"
  shows "\<exists>full. bs = full @ rest \<and> length rest < wb \<and> a * wb + length full = a' * wb \<and>
    byte_of M' = overwrite (byte_of M) (a * wb) full"
  using assms
proof (induction M a bs rule: store_full.induct)
  case (1 M a bs)
  show ?case
  proof (cases "wb \<le> length bs")
    case True
    let ?M = "TM_STORE M a (of_bytes (take wb bs))"
    have step: "store_full ?M (a + 1) (drop wb bs) = (M', a', rest)"
      using 1(2) True wb(1,5) by (subst (asm) store_full.simps) simp
    from 1(1) [unfolded wb(1), OF _ step] True wb(5) obtain full where
      full: "drop wb bs = full @ rest" "length rest < wb" "(a + 1) * wb + length full = a' * wb"
      "byte_of M' = overwrite (byte_of ?M) ((a + 1) * wb) full" by auto
    have "to_bytes (of_bytes (take wb bs) :: 'w word) = take wb bs"
      using True by (intro nth_equalityI) (simp_all add: to_bytes_nth byte_of_bytes wb)
    then have "byte_of ?M = overwrite (byte_of M) (a * wb) (take wb bs)" using store_bytes_full by simp
    then have "byte_of M' = overwrite (byte_of M) (a * wb) (take wb bs @ full)"
      using full(4) True by (simp add: overwrite_append algebra_simps)
    moreover have "bs = (take wb bs @ full) @ rest" using full(1) by (metis append_assoc append_take_drop_id)
    ultimately show ?thesis using full(2,3) True by (intro exI [of _ "take wb bs @ full"]) (simp add: algebra_simps)
  next
    case False
    then show ?thesis using 1(2) wb(1,5) by (subst (asm) store_full.simps) auto
  qed
qed

lemma store_bytes_is: "byte_of (stm_store_bytes (M :: 'w memory) addr bs) = overwrite (byte_of M) addr bs"
proof (cases "bs = []")
  case False
  let ?i = "addr mod wb" and ?a = "addr div wb"
  have i: "?i < wb" using wb(5) by simp
  have at: "?a * wb + ?i = addr" by simp
  define head where "head = (if ?i \<noteq> 0 then (case store_first (0 :: 'w word) 0 ?i bs of
      (v, m, rest) \<Rightarrow> (TM_STORE2 M ?a v m, ?a + 1, rest)) else (M, ?a, bs))"
  obtain M1 a1 bs1 where h: "head = (M1, a1, bs1)" by (cases head)
  obtain M2 a2 bs2 where f: "store_full M1 a1 bs1 = (M2, a2, bs2)" by (cases "store_full M1 a1 bs1")
  obtain v m where l: "store_last (0 :: 'w word) 0 0 bs2 = (v, m)" by fastforce
  have run: "stm_store_bytes M addr bs = (if bs2 \<noteq> [] then TM_STORE2 M2 a2 v m else M2)"
    using False h f l unfolding stm_store_bytes_def wb(1) Let_def head_def [symmetric] by simp
  have "\<exists>part. bs = part @ bs1 \<and> byte_of M1 = overwrite (byte_of M) addr part \<and> (bs1 \<noteq> [] \<longrightarrow> a1 * wb = addr + length part)"
  proof (cases "?i = 0")
    case True
    then show ?thesis using h at by (intro exI [of _ "[]"]) (auto simp: head_def)
  next
    case False
    obtain v m rest where s: "store_first (0 :: 'w word) 0 ?i bs = (v, m, rest)" by (metis prod_cases3)
    then have h1: "M1 = TM_STORE2 M ?a v m" "a1 = ?a + 1" "bs1 = rest" using h False by (simp_all add: head_def)
    from store_first_is [OF s less_imp_le [OF i]] obtain part where part: "bs = part @ rest" "?i + length part \<le> wb"
      "rest = [] \<or> ?i + length part = wb"
      "\<forall>j. field v j = (if ?i \<le> j \<and> j < ?i + length part then part ! (j - ?i) else field (0 :: 'w word) j)"
      "\<forall>j. field m j = (if ?i \<le> j \<and> j < ?i + length part then 0xFF else field (0 :: 'w word) j :: u8)"
      by blast
    have "byte_of M1 = overwrite (byte_of M) (?a * wb + ?i) part"
      unfolding h1(1) by (rule store2_bytes [OF part(2)]) (use part(4,5) in simp_all)
    moreover have "a1 * wb = addr + length part" if "bs1 \<noteq> []"
    proof -
      have "a1 * wb = ?a * wb + wb" using h1(2) by simp
      moreover have "?i + length part = wb" using part(3) that h1(3) by blast
      ultimately show ?thesis using at by linarith
    qed
    ultimately show ?thesis using part(1) at h1(3) by (intro exI [of _ part]) simp
  qed
  then obtain part where part: "bs = part @ bs1" "byte_of M1 = overwrite (byte_of M) addr part"
    "bs1 \<noteq> [] \<longrightarrow> a1 * wb = addr + length part" by blast
  from store_full_is [OF f] obtain full where full: "bs1 = full @ bs2" "length bs2 < wb" "a1 * wb + length full = a2 * wb"
    "byte_of M2 = overwrite (byte_of M1) (a1 * wb) full" by blast
  have "byte_of (stm_store_bytes M addr bs) = overwrite (byte_of M2) (a2 * wb) bs2"
  proof (cases "bs2 = []")
    case False
    have "byte_of (TM_STORE2 M2 a2 v m) = overwrite (byte_of M2) (a2 * wb + 0) bs2"
      by (rule store2_bytes) (use full(2) store_last_is [OF l] in simp_all)
    then show ?thesis using run False by simp
  qed (use run in simp)
  then show ?thesis using full part by (cases "bs1 = []") (auto simp: overwrite_append add.assoc)
qed (simp add: stm_store_bytes_def)

subsubsection \<open>Setting bytes\<close>

text \<open>The masks are those of a store of as many bytes.\<close>

lemma mask_first_is:
  assumes "mask_first (m :: 'w word) i n = (m', k)" "i \<le> wb"
  shows "\<exists>p. n = p + k \<and> i + p \<le> wb \<and> (k = 0 \<or> i + p = wb) \<and>
    (\<forall>j. field m' j = (if i \<le> j \<and> j < i + p then 0xFF else field m j :: u8))"
  using assms
proof (induction m i n rule: mask_first.induct)
  case (2 m i n)
  show ?case
  proof (cases "i < wb")
    case True
    then have "mask_first (set_field m i (0xFF :: u8)) (Suc i) n = (m', k)" using 2(2) by (simp add: wb_def)
    from 2(1) [OF _ this] True obtain p where p: "n = p + k" "Suc i + p \<le> wb" "k = 0 \<or> Suc i + p = wb"
      "\<forall>j. field m' j = (if Suc i \<le> j \<and> j < Suc i + p then 0xFF else field (set_field m i (0xFF :: u8)) j :: u8)"
      by (auto simp: wb_def)
    have "field m' j = (if i \<le> j \<and> j < i + Suc p then 0xFF else field m j :: u8)" for j
      using p(4) True by (auto simp: byte_set_byte wb)
    then show ?thesis using p(1-3) by (intro exI [of _ "Suc p"]) simp
  next
    case False
    then show ?thesis using 2(2,3) by (intro exI [of _ 0]) (auto simp: wb_def [symmetric])
  qed
qed auto

lemma mask_last_is:
  "i + n \<le> wb \<Longrightarrow> field (mask_last (m :: 'w word) i n) j = (if i \<le> j \<and> j < i + n then 0xFF else field m j :: u8)"
  by (induction m i n rule: mask_last.induct) (auto simp: byte_set_byte wb)

lemma set_full_is:
  assumes "to_bytes (v :: 'w word) = replicate wb b"
  shows "set_full (M :: 'w memory) a v n = (M', a', k) \<Longrightarrow>
    \<exists>q. n = q + k \<and> k < wb \<and> a * wb + q = a' * wb \<and> byte_of M' = overwrite (byte_of M) (a * wb) (replicate q b)"
  using assms
proof (induction M a v n rule: set_full.induct)
  case (1 M a v n)
  show ?case
  proof (cases "wb \<le> n")
    case True
    let ?M = "TM_STORE M a v"
    have step: "set_full ?M (a + 1) v (n - wb) = (M', a', k)"
      using 1(2) True wb(1,5) by (subst (asm) set_full.simps) simp
    from 1(1) [unfolded wb(1), OF _ step 1(3)] True wb(5) obtain q where q: "n - wb = q + k" "k < wb"
      "(a + 1) * wb + q = a' * wb" "byte_of M' = overwrite (byte_of ?M) ((a + 1) * wb) (replicate q b)" by auto
    have "byte_of ?M = overwrite (byte_of M) (a * wb) (replicate wb b)" using store_bytes_full [of M a v] 1(3) by simp
    then have "byte_of M' = overwrite (byte_of M) (a * wb) (replicate (wb + q) b)"
      unfolding replicate_add using q(4) by (simp add: overwrite_append add.commute)
    then show ?thesis using q(1-3) True by (intro exI [of _ "wb + q"]) (simp add: algebra_simps)
  next
    case False
    then show ?thesis using 1(2) wb(1,5) by (subst (asm) set_full.simps) auto
  qed
qed

lemma byte_replicated: "to_bytes (of_bytes (replicate wb b) :: 'w word) = replicate wb b"
  by (rule nth_equalityI) (simp_all add: to_bytes_nth byte_of_bytes wb)

lemma set_bytes_is: "byte_of (stm_set_bytes (M :: 'w memory) addr b n) = overwrite (byte_of M) addr (replicate n b)"
proof (cases "n = 0")
  case False
  let ?i = "addr mod wb" and ?a = "addr div wb" and ?v = "of_bytes (replicate wb b) :: 'w word"
  have i: "?i < wb" using wb(5) by simp
  have at: "?a * wb + ?i = addr" by simp
  have v: "field ?v j = b" if "j < wb" for j using that by (simp add: byte_of_bytes wb)
  define head where "head = (if ?i \<noteq> 0 then (case mask_first (0 :: 'w word) ?i n of
      (m, rest) \<Rightarrow> (TM_STORE2 M ?a ?v m, ?a + 1, rest)) else (M, ?a, n))"
  obtain M1 a1 n1 where h: "head = (M1, a1, n1)" by (cases head)
  obtain M2 a2 n2 where f: "set_full M1 a1 ?v n1 = (M2, a2, n2)" by (cases "set_full M1 a1 ?v n1")
  have run: "stm_set_bytes M addr b n = (if 0 < n2 then TM_STORE2 M2 a2 ?v (mask_last 0 0 n2) else M2)"
    using False h f unfolding stm_set_bytes_def wb(1) Let_def head_def [symmetric] by simp
  have "\<exists>p. n = p + n1 \<and> byte_of M1 = overwrite (byte_of M) addr (replicate p b) \<and> (n1 \<noteq> 0 \<longrightarrow> a1 * wb = addr + p)"
  proof (cases "?i = 0")
    case True
    then show ?thesis using h at by (intro exI [of _ 0]) (auto simp: head_def)
  next
    case False
    obtain m rest where s: "mask_first (0 :: 'w word) ?i n = (m, rest)" by (metis surj_pair)
    then have h1: "M1 = TM_STORE2 M ?a ?v m" "a1 = ?a + 1" "n1 = rest" using h False by (simp_all add: head_def)
    from mask_first_is [OF s less_imp_le [OF i]] obtain p where p: "n = p + rest" "?i + p \<le> wb" "rest = 0 \<or> ?i + p = wb"
      "\<forall>j. field m j = (if ?i \<le> j \<and> j < ?i + p then 0xFF else field (0 :: 'w word) j :: u8)"
      by blast
    have "byte_of M1 = overwrite (byte_of M) (?a * wb + ?i) (replicate p b)"
      unfolding h1(1) by (rule store2_bytes) (use p(2,4) v in simp_all)
    moreover have "a1 * wb = addr + p" if "n1 \<noteq> 0"
    proof -
      have "a1 * wb = ?a * wb + wb" using h1(2) by simp
      moreover have "?i + p = wb" using p(3) that h1(3) by blast
      ultimately show ?thesis using at by linarith
    qed
    ultimately show ?thesis using p(1) at h1(3) by (intro exI [of _ p]) simp
  qed
  then obtain p where p: "n = p + n1" "byte_of M1 = overwrite (byte_of M) addr (replicate p b)"
    "n1 \<noteq> 0 \<longrightarrow> a1 * wb = addr + p" by blast
  from set_full_is [OF byte_replicated f] obtain q where q: "n1 = q + n2" "n2 < wb" "a1 * wb + q = a2 * wb"
    "byte_of M2 = overwrite (byte_of M1) (a1 * wb) (replicate q b)" by blast
  have "byte_of (stm_set_bytes M addr b n) = overwrite (byte_of M2) (a2 * wb) (replicate n2 b)"
  proof (cases "n2 = 0")
    case False
    have "byte_of (TM_STORE2 M2 a2 ?v (mask_last 0 0 n2)) = overwrite (byte_of M2) (a2 * wb + 0) (replicate n2 b)"
      by (rule store2_bytes) (use q(2) v in \<open>simp_all add: mask_last_is\<close>)
    then show ?thesis using run False by simp
  qed (use run in simp)
  moreover have "replicate n b = replicate p b @ replicate q b @ replicate n2 b"
    using p(1) q(1) by (simp add: replicate_add)
  ultimately show ?thesis using p(2,3) q by (cases "n1 = 0") (auto simp: overwrite_append add.assoc)
qed (simp add: stm_set_bytes_def)

subsubsection \<open>Loads and stores of values\<close>

text \<open>An aligned value lies in one word.\<close>

lemma aligned:
  assumes "s dvd wb" "s dvd addr" "0 < s"
  shows "s * (addr mod wb div s) = addr mod wb" "addr mod wb + s \<le> wb"
proof -
  have "s dvd addr mod wb" using assms by (simp add: dvd_mod)
  then show "s * (addr mod wb div s) = addr mod wb" by simp
  have "s dvd wb - addr mod wb" using assms(1) \<open>s dvd addr mod wb\<close> by (rule dvd_diff_nat)
  moreover have "addr mod wb < wb" using wb(5) by simp
  ultimately have "s \<le> wb - addr mod wb" by (intro dvd_imp_le) simp_all
  then show "addr mod wb + s \<le> wb" using \<open>addr mod wb < wb\<close> by simp
qed

lemma load_aligned:
  assumes v: "LENGTH('v::len) = 8 * s" and s: "s dvd wb" "s dvd addr" "0 < s"
  shows "(field ((M :: 'w memory) (addr div wb)) (addr mod wb div s) :: 'v word) = of_bytes (segment (byte_of M) addr s)"
proof (rule of_bytes_eqI [OF v])
  fix j
  assume j: "j < s"
  let ?i = "addr mod wb"
  have "(field (field (M (addr div wb)) (?i div s) :: 'v word) j :: u8) = field (M (addr div wb)) (?i + j)"
    unfolding byte_field [OF v j] aligned(1) [OF s] by (rule refl)
  also have "\<dots> = byte_of M (addr div wb * wb + (?i + j))" using aligned(2) [OF s] j by (intro byte_in_word [symmetric]) simp
  also have "addr div wb * wb + (?i + j) = addr + j" by (simp add: add.assoc [symmetric])
  finally show "field (field (M (addr div wb)) (?i div s) :: 'v word) j = segment (byte_of M) addr s ! j" using j by simp
qed simp

lemma store_aligned:
  fixes val :: "'v::len word"
  assumes v: "LENGTH('v) = 8 * s" and s: "s dvd wb" "s dvd addr" "0 < s"
  shows "byte_of (TM_STORE2 M (addr div wb) (set_field (junk :: 'w word) (addr mod wb div s) val) (set_field 0 (addr mod wb div s) (NOT 0 :: 'v word)))
    = overwrite (byte_of M) addr (to_bytes val)"
proof -
  let ?i = "addr mod wb"
  have inside: "s * (?i div s) + s \<le> LENGTH('w) div 8" using aligned [OF s] wb by simp
  note set = byte_set_field [OF v inside, unfolded aligned(1) [OF s]]
  have "byte_of (TM_STORE2 M (addr div wb) (set_field junk (?i div s) val) (set_field 0 (?i div s) (NOT 0 :: 'v word)))
    = overwrite (byte_of M) (addr div wb * wb + ?i) (to_bytes val)"
  proof (rule store2_bytes)
    show "?i + length (to_bytes val) \<le> wb" using aligned(2) [OF s] v by simp
    show "field (set_field (0 :: 'w word) (?i div s) (NOT 0 :: 'v word)) j = (if ?i \<le> j \<and> j < ?i + length (to_bytes val) then 0xFF else 0 :: u8)" for j
    proof -
      have "field (NOT 0 :: 'v word) k = (0xFF :: u8)" if "k < s" for k
      proof -
        have "8 * k + 8 \<le> LENGTH('v)" using that v by simp
        then show ?thesis using field_NOT [where 'v = 8 and i = k and w = "0 :: 'v word"] by simp
      qed
      then show ?thesis using v by (auto simp: set)
    qed
    show "field (set_field junk (?i div s) val) j = to_bytes val ! (j - ?i)" if "?i \<le> j" "j < ?i + length (to_bytes val)" for j
      using that v by (simp add: set to_bytes_nth)
  qed
  then show ?thesis by simp
qed

lemma divides: "(1 :: nat) dvd wb" "2 dvd wb" "4 dvd wb"
  using wb(2) by auto

lemma loads_are:
  fixes M :: "'w memory"
  shows "stm_load_u8 M addr = of_bytes (segment (byte_of M) addr 1)"
    and "stm_load_u16 M addr = of_bytes (segment (byte_of M) addr 2)"
    and "stm_load_u32 M addr = of_bytes (segment (byte_of M) addr 4)"
    and "stm_load_u64 M addr = of_bytes (segment (byte_of M) addr 8)"
proof -
  show "stm_load_u8 M addr = of_bytes (segment (byte_of M) addr 1)"
    using load_aligned [where 'v = 8 and s = 1 and M = M and addr = addr] by (simp add: stm_load_u8_def wb)
  show "stm_load_u16 M addr = of_bytes (segment (byte_of M) addr 2)"
  proof (cases "addr mod 2 = 0")
    case True
    then have "2 dvd addr" by (simp add: dvd_eq_mod_eq_0)
    from load_aligned [where 'v = 16 and s = 2 and M = M, OF _ divides(2) this] True show ?thesis
      unfolding stm_load_u16_def wb(1) by (simp only: len_num1) simp
  qed (simp add: stm_load_u16_def load_bytes_is)
  show "stm_load_u32 M addr = of_bytes (segment (byte_of M) addr 4)"
  proof (cases "addr mod 4 = 0")
    case True
    then have "4 dvd addr" by (simp add: dvd_eq_mod_eq_0)
    from load_aligned [where 'v = 32 and s = 4 and M = M, OF _ divides(3) this]
    have "field (M (addr div wb)) (addr mod wb div 4) = (of_bytes (segment (byte_of M) addr 4) :: u32)" by simp
    moreover have "stm_load_u32 M addr = field (M (addr div wb)) (addr mod wb div 4)"
      unfolding stm_load_u32_def wb(1) using True by (auto simp: field_def)
    ultimately show ?thesis by simp
  qed (simp add: stm_load_u32_def load_bytes_is)
  show "stm_load_u64 M addr = of_bytes (segment (byte_of M) addr 8)"
  proof (cases "addr mod 8 = 0")
    case True
    then have d: "8 dvd addr" by (simp add: dvd_eq_mod_eq_0)
    from wb(2) show ?thesis
    proof
      assume w: "wb = 8"
      from load_aligned [where 'v = 64 and s = 8 and M = M, OF _ _ d] w
      have "field (M (addr div wb)) (addr mod wb div 8) = (of_bytes (segment (byte_of M) addr 8) :: u64)" by simp
      moreover have "stm_load_u64 M addr = field (M (addr div wb)) (addr mod wb div 8)"
        unfolding stm_load_u64_def wb(1) using True w by (auto simp: field_def)
      ultimately show ?thesis by simp
    next
      assume w: "wb = 4"
      let ?lo = "ucast (M (addr div 4)) :: u32" and ?hi = "ucast (M (addr div 4 + 1)) :: u32"
      have half: "(field (ucast (M a) :: u32) j :: u8) = byte_of M (a * 4 + j)" if "j < 4" for a j
      proof -
        have "(field (ucast (M a) :: u32) j :: u8) = field (M a) j" using that by (intro byte_ucast) simp
        then show ?thesis using byte_in_word [of j M a] that w by simp
      qed
      have at: "addr div 4 * 4 = addr" using True by presburger
      have "set_field (set_field 0 0 ?lo) 1 ?hi = (of_bytes (segment (byte_of M) addr 8) :: u64)"
      proof (rule of_bytes_eqI [where s = 8])
        fix j :: nat
        assume j: "j < 8"
        have "field (set_field (set_field (0 :: u64) 0 ?lo) 1 ?hi) j = (if 4 \<le> j then field ?hi (j - 4) else field ?lo j :: u8)"
          using j by (auto simp: byte_set_field [where s = 4])
        also have "\<dots> = byte_of M (addr + j)"
        proof (cases "4 \<le> j")
          case True
          then have "field ?hi (j - 4) = byte_of M ((addr div 4 + 1) * 4 + (j - 4))" using j by (intro half) simp
          moreover have "(addr div 4 + 1) * 4 + (j - 4) = addr + j" using at True by simp
          ultimately show ?thesis using True by simp
        next
          case False
          then have "field ?lo j = byte_of M (addr div 4 * 4 + j)" by (intro half) simp
          then show ?thesis using False unfolding at by simp
        qed
        finally show "field (set_field (set_field (0 :: u64) 0 ?lo) 1 ?hi) j = segment (byte_of M) addr 8 ! j" using j by simp
      qed simp_all
      then show ?thesis using True w by (simp add: stm_load_u64_def wb(1))
    qed
  qed (simp add: stm_load_u64_def load_bytes_is)
qed

lemma stores_are:
  fixes M :: "'w memory" and junk :: "'w word"
  shows "byte_of (stm_store_u8 junk M addr b) = overwrite (byte_of M) addr (to_bytes b)"
    and "byte_of (stm_store_u16 junk M addr h) = overwrite (byte_of M) addr (to_bytes h)"
    and "byte_of (stm_store_u32 junk M addr x) = overwrite (byte_of M) addr (to_bytes x)"
    and "byte_of (stm_store_u64 M addr y) = overwrite (byte_of M) addr (to_bytes y)"
proof -
  show "byte_of (stm_store_u8 junk M addr b) = overwrite (byte_of M) addr (to_bytes b)"
    using store_aligned [where 'v = 8 and s = 1 and M = M and addr = addr and junk = junk] by (simp add: stm_store_u8_def wb)
  show "byte_of (stm_store_u16 junk M addr h) = overwrite (byte_of M) addr (to_bytes h)"
  proof (cases "addr mod 2 = 0")
    case True
    then have "2 dvd addr" by (simp add: dvd_eq_mod_eq_0)
    from store_aligned [where 'v = 16 and s = 2 and M = M, OF _ divides(2) this] True show ?thesis
      by (simp add: stm_store_u16_def wb(1))
  qed (simp add: stm_store_u16_def store_bytes_is)
  show "byte_of (stm_store_u32 junk M addr x) = overwrite (byte_of M) addr (to_bytes x)"
  proof (cases "addr mod 4 = 0 \<and> wb \<noteq> 4")
    case True
    then have "4 dvd addr" by (simp add: dvd_eq_mod_eq_0)
    from store_aligned [where 'v = 32 and s = 4 and M = M, OF _ divides(3) this] True show ?thesis
      by (simp add: stm_store_u32_def wb(1))
  next
    case False
    show ?thesis
    proof (cases "addr mod 4 = 0")
      case True
      then have w: "wb = 4" using False by simp
      have "to_bytes (ucast x :: 'w word) = to_bytes x"
        by (rule nth_equalityI) (use w wb(3) in \<open>simp_all add: to_bytes_nth byte_ucast\<close>)
      moreover have "addr div 4 * 4 = addr" using True by presburger
      ultimately show ?thesis using True w by (simp add: stm_store_u32_def wb(1) store_bytes_full)
    qed (simp add: stm_store_u32_def store_bytes_is)
  qed
  show "byte_of (stm_store_u64 M addr y) = overwrite (byte_of M) addr (to_bytes y)"
  proof (cases "addr mod 8 = 0")
    case True
    from wb(2) show ?thesis
    proof
      assume w: "wb = 8"
      have "to_bytes (ucast y :: 'w word) = to_bytes y"
        by (rule nth_equalityI) (use w wb(3) in \<open>simp_all add: to_bytes_nth byte_ucast\<close>)
      moreover have "addr div 8 * 8 = addr" using True by presburger
      ultimately show ?thesis using True w by (simp add: stm_store_u64_def wb(1) store_bytes_full)
    next
      assume w: "wb = 4"
      have at: "addr div 4 * 4 = addr" using True by presburger
      have cat: "to_bytes (ucast (field y 0 :: u32) :: 'w word) @ to_bytes (ucast (field y 1 :: u32) :: 'w word) = to_bytes y"
        by (rule nth_equalityI)
          (use w wb(3) in \<open>auto simp: to_bytes_nth nth_append byte_ucast byte_field [where s = 4]\<close>)
      show ?thesis using True w at unfolding cat [symmetric]
        by (simp add: stm_store_u64_def wb(1) store_bytes_full overwrite_append wb(4) add.commute)
    qed
  qed (simp add: stm_store_u64_def store_bytes_is)
qed

text \<open>A load of what was stored, and of what was not.\<close>

lemma segment_overwritten: "length bs = n \<Longrightarrow> segment (overwrite f addr bs) addr n = bs"
  by (rule nth_equalityI) (simp_all add: overwrite_def)

lemma segment_other: "addr + length bs \<le> a \<or> a + n \<le> addr \<Longrightarrow> segment (overwrite f addr bs) a n = segment f a n"
  by (auto simp: overwrite_def)

lemma load_stored:
  fixes M :: "'w memory" and junk :: "'w word"
  shows "stm_load_u8 (stm_store_u8 junk M addr b) addr = b" "stm_load_u16 (stm_store_u16 junk M addr h) addr = h"
    "stm_load_u32 (stm_store_u32 junk M addr x) addr = x" "stm_load_u64 (stm_store_u64 M addr y) addr = y"
proof -
  have "of_bytes (segment (overwrite f addr (to_bytes v)) addr (LENGTH('v) div 8)) = v" if "8 dvd LENGTH('v)" for f and v :: "'v::len word"
    using that by (elim dvdE) (simp add: segment_overwritten of_to_bytes)
  from this [of "byte_of M" b] this [of "byte_of M" h] this [of "byte_of M" x] this [of "byte_of M" y]
  show "stm_load_u8 (stm_store_u8 junk M addr b) addr = b" "stm_load_u16 (stm_store_u16 junk M addr h) addr = h"
    "stm_load_u32 (stm_store_u32 junk M addr x) addr = x" "stm_load_u64 (stm_store_u64 M addr y) addr = y"
    unfolding loads_are stores_are by (simp_all del: upt_Suc upt_rec_numeral)
qed

lemma load_other:
  fixes M :: "'w memory" and junk :: "'w word"
  assumes "addr + 4 \<le> a \<or> a + 4 \<le> addr"
  shows "stm_load_u32 (stm_store_u32 junk M addr x) a = stm_load_u32 M a"
  unfolding loads_are stores_are using assms by (subst segment_other) simp_all

lemma ptr_stored: "stm_load_ptr (stm_store_ptr (M :: 'w memory) addr p) addr = p"
  by (simp add: stm_load_ptr_def stm_store_ptr_def TM_STORE_def TM_STORE2_def)

end

interpretation machine32: machine "TYPE(32)" by unfold_locales simp

interpretation machine64: machine "TYPE(64)" by unfold_locales simp

subsection \<open>Properties\<close>

text \<open>C35: on machines of 32 and of 64 bits, for every address, aligned or not, each load reads the
  bytes of its value, or of the buffer, from the memory seen as bytes, and each store overwrites
  those bytes and no other, whatever the undefined part of a partial word holds.\<close>

theorem stm_wrappers_are_byte_accesses:
  fixes M :: "'w::len memory" and b :: u8 and h :: u16 and x :: u32 and y :: u64
  assumes "LENGTH('w) = 32 \<or> LENGTH('w) = 64"
  shows "stm_load_bytes M addr n = segment (byte_of M) addr n \<and>
    stm_load_u8 M addr = of_bytes (segment (byte_of M) addr 1) \<and>
    stm_load_u16 M addr = of_bytes (segment (byte_of M) addr 2) \<and>
    stm_load_u32 M addr = of_bytes (segment (byte_of M) addr 4) \<and>
    stm_load_u64 M addr = of_bytes (segment (byte_of M) addr 8) \<and>
    byte_of (stm_store_bytes M addr bs) = overwrite (byte_of M) addr bs \<and>
    byte_of (stm_set_bytes M addr b n) = overwrite (byte_of M) addr (replicate n b) \<and>
    byte_of (stm_store_u8 junk M addr b) = overwrite (byte_of M) addr (to_bytes b) \<and>
    byte_of (stm_store_u16 junk M addr h) = overwrite (byte_of M) addr (to_bytes h) \<and>
    byte_of (stm_store_u32 junk M addr x) = overwrite (byte_of M) addr (to_bytes x) \<and>
    byte_of (stm_store_u64 M addr y) = overwrite (byte_of M) addr (to_bytes y)"
proof -
  have m: "machine TYPE('w)" using assms by unfold_locales
  show ?thesis
    by (intro conjI machine.load_bytes_is [OF m] machine.loads_are [OF m] machine.store_bytes_is [OF m]
        machine.set_bytes_is [OF m] machine.stores_are [OF m])
qed

theorem stm_wrappers_are_byte_accesses_witness:
  "stm_load_bytes (\<lambda>a. if a = 0 then 0x8877665544332211 else 0xaa99 :: 64 word) 6 4 = [0x77, 0x88, 0x99, 0xaa] \<and>
    LENGTH(64) = 64"
proof -
  let ?M = "\<lambda>a. if a = 0 then 0x8877665544332211 else 0xaa99 :: 64 word"
  have "stm_load_bytes ?M 6 4 = segment (byte_of ?M) 6 4"
    using stm_wrappers_are_byte_accesses [of ?M 6 4] by simp
  moreover have "segment (byte_of ?M) 6 4 = [0x77, 0x88, 0x99, 0xaa]" by code_simp
  ultimately show ?thesis by simp
qed

text \<open>C36: a value that is stored is the value that is loaded, for all the types of the interface: the
  integers of C after the conversion to their type, the bits of the floating-point numbers and
  pointers; and the \<open>int\<close>s of an array do not disturb each other although two of them
  may share a word of the STM.\<close>

theorem stm_wrappers_roundtrip:
  fixes M :: "'w::len memory"
  assumes "LENGTH('w) = 32 \<or> LENGTH('w) = 64" "a + 4 \<le> c \<or> c + 4 \<le> a"
  shows "stm_load_char (stm_store_char junk M a v) a = signed_take_bit 7 v \<and>
    stm_load_uchar (stm_store_uchar junk M a v) a = take_bit 8 v \<and>
    stm_load_short (stm_store_short junk M a v) a = signed_take_bit 15 v \<and>
    stm_load_ushort (stm_store_ushort junk M a v) a = take_bit 16 v \<and>
    stm_load_int (stm_store_int junk M a v) a = signed_take_bit 31 v \<and>
    stm_load_uint (stm_store_uint junk M a v) a = take_bit 32 v \<and>
    stm_load_long k (stm_store_long k junk M a v) a = signed_take_bit (if k = 4 then 31 else 63) v \<and>
    stm_load_ulong k (stm_store_ulong k junk M a v) a = take_bit (if k = 4 then 32 else 64) v \<and>
    stm_load_float (stm_store_float junk M a f) a = f \<and>
    stm_load_double (stm_store_double M a d) a = d \<and>
    stm_load_ptr (stm_store_ptr M a p) a = p \<and>
    stm_load_int (stm_store_int junk M a v) c = stm_load_int M c"
proof -
  have m: "machine TYPE('w)" using assms(1) by unfold_locales
  note defs = stm_load_char_def stm_load_uchar_def stm_load_short_def stm_load_ushort_def stm_load_int_def
    stm_load_uint_def stm_load_long_def stm_load_ulong_def stm_load_float_def stm_load_double_def
    stm_store_char_def stm_store_uchar_def stm_store_short_def stm_store_ushort_def stm_store_int_def
    stm_store_uint_def stm_store_long_def stm_store_ulong_def stm_store_float_def stm_store_double_def
  show ?thesis
    using machine.load_other [OF m assms(2)] machine.ptr_stored [OF m]
    by (simp add: defs machine.load_stored [OF m] uint_word_of_int sint_sbintrunc' take_bit_eq_mod)
qed

theorem stm_wrappers_roundtrip_witness:
  "stm_load_int (stm_store_int (0 :: 64 word) (\<lambda>_. 0) 12 (- 7)) 12 = - 7 \<and>
    stm_load_int (stm_store_int (0 :: 64 word) (\<lambda>_. 0) 12 (- 7)) 8 = 0"
proof -
  have m: "LENGTH(64) = 32 \<or> LENGTH(64) = 64" by simp
  have apart: "12 + 4 \<le> 8 \<or> (8 :: nat) + 4 \<le> 12" by simp
  have "stm_load_int (stm_store_int (0 :: 64 word) (\<lambda>_. 0) 12 (- 7)) 12 = signed_take_bit 31 (- 7)"
    "stm_load_int (stm_store_int (0 :: 64 word) (\<lambda>_. 0) 12 (- 7)) 8 = stm_load_int (\<lambda>_. 0 :: 64 word) 8"
    using stm_wrappers_roundtrip [where junk = "0 :: 64 word" and M = "\<lambda>_. 0" and v = "- 7" and k = 8 and f = 0 and d = 0 and p = 0,
        OF m apart] by blast+
  moreover have "stm_load_int (\<lambda>_. 0 :: 64 word) 8 = 0" by code_simp
  moreover have "signed_take_bit 31 (- 7 :: int) = - 7" by code_simp
  ultimately show ?thesis by (simp only:)
qed

end
