(* ===== verification/STM_Programs.thy ===== *)
theory STM_Programs
  imports Transactions STM_Wrappers STM_Serial
begin

unbundle bit_operations_syntax

section \<open>Counters in transactions of tinySTM\<close>

text \<open>
  \<open>transactional/mutex_tinystm.c\<close>, \<open>rw_tinystm.c\<close> and \<open>array_tinystm.c\<close>: a round of a thread is a transaction that
  loads an \<open>int\<close>, and stores it plus one, in \<open>rw_tinystm.c\<close> in every tenth round only. The transactions are those of \<open>STM_ETL\<close>, step by step,
  and the \<open>int\<close> is reached as in \<open>STM_Wrappers\<close>. This theory has the programs and shows what they print;
  that they can finish is in \<open>STM_Progress\<close>.

  \<open>main\<close> calls \<open>stm_init\<close> before it creates the threads. \<open>call\<close> is where the thread is in \<open>count\<close>: while it is in a function of
  the library, which \<open>pc\<close> of its descriptor tells, the place behind the call (the request given to \<open>etl_step\<close> does not
  matter there). A transaction that aborts has its start prepared
  again and jumps behind \<open>TM_START\<close>, to \<open>PLoad\<close>, where the first attempt comes from \<open>stm_start\<close>. The counter begins at the byte
  \<open>b\<close>; the other half of the word that \<open>stm_store_int\<close> hands to \<open>stm_store2\<close> is \<open>junk\<close>. \<open>stm_exit_thread\<close> and \<open>stm_exit\<close>, which free
  the descriptor and the library, are not modelled.
\<close>

subsection \<open>The programs\<close>

record stm_world =
  lib :: stm_globals
  tx_of :: "tid \<Rightarrow> stm_tx"
  stm_lines :: "message list"

datatype call_pc = PInit | PLoop | PStart | PLoad | PGot | PStore cint | PCommit | PNext | PSum nat cint

record stm_count =
  passed :: nat
  call :: call_pc

definition RW_SET_SIZE :: nat where
  "RW_SET_SIZE = 4096"

text \<open>The word of a byte, the half of it where an \<open>int\<close> is, and the \<open>int\<close> in memory.\<close>

definition word_at :: "nat \<Rightarrow> stm_word" where
  "word_at addr = of_nat (8 * (addr div 8))"

definition half_at :: "nat \<Rightarrow> nat" where
  "half_at addr = addr mod 8 div 4"

definition int_mask :: "nat \<Rightarrow> stm_word" where
  "int_mask j = set_field 0 j (NOT 0 :: u32)"

definition int_at :: "(stm_word \<Rightarrow> stm_word) \<Rightarrow> nat \<Rightarrow> cint" where
  "int_at M addr = field (M (word_at addr)) (half_at addr)"

definition TM_ATTR :: stm_tx_attr where
  "TM_ATTR = \<lparr>read_only = False, no_retry = False\<rparr>"

definition lib_step :: "tid \<Rightarrow> stm_request \<Rightarrow> stm_world \<Rightarrow> stm_count \<Rightarrow> (stm_world, stm_count) act list" where
  "lib_step i r w l = (case etl_step i r (lib w) (tx_of w i) of None \<Rightarrow> []
     | Some (g, x) \<Rightarrow> [Go (w\<lparr>lib := g, tx_of := (tx_of w)(i := x)\<rparr>) l])"

definition count_body :: "(tid \<Rightarrow> stm_world \<Rightarrow> stm_word) \<Rightarrow> shape \<Rightarrow> nat \<Rightarrow> nat \<Rightarrow> tid \<Rightarrow> stm_world \<Rightarrow> stm_count \<Rightarrow>
    (stm_world, stm_count) act list" where
  "count_body junk P b lim i w l = (let addr = b + 4 * word_of P (passed l); p = pc (tx_of w i) in
     if p \<noteq> Idle \<and> p \<noteq> Active then lib_step i Commit w (if p = Prepare then l\<lparr>call := PLoad\<rparr> else l)
     else case call l of
       PInit \<Rightarrow> [Go (w\<lparr>tx_of := (tx_of w)(i := int_stm_init_thread RW_SET_SIZE)\<rparr>) (l\<lparr>call := PLoop\<rparr>)]
     | PLoop \<Rightarrow> [Go w (l\<lparr>call := if passed l < lim then PStart else PSum 0 0\<rparr>)]
     | PStart \<Rightarrow> lib_step i (Start TM_ATTR) w (l\<lparr>call := PLoad\<rparr>)
     | PLoad \<Rightarrow> lib_step i (Load (word_at addr)) w (l\<lparr>call := PGot\<rparr>)
     | PGot \<Rightarrow> (let c = stm_load_u32 (\<lambda>_. result (tx_of w i)) addr in
         [Go w (l\<lparr>call := if adds P (passed l) then PStore (c + 1) else PCommit\<rparr>)])
     | PStore c \<Rightarrow> lib_step i (Store2 (word_at addr) (set_field (junk i w) (half_at addr) c) (int_mask (half_at addr))) w (l\<lparr>call := PCommit\<rparr>)
     | PCommit \<Rightarrow> lib_step i Commit w (l\<lparr>call := PNext\<rparr>)
     | PNext \<Rightarrow> [Go w (l\<lparr>passed := Suc (passed l), call := PLoop\<rparr>)]
     | PSum k v \<Rightarrow> [if k < words P then Go w (l\<lparr>call := PSum (Suc k) (v + int_at (mem (lib w)) (b + 4 * k))\<rparr>)
         else Exit (w\<lparr>stm_lines := stm_lines w @ [EndMsg i v]\<rparr>)])"

definition int_sum :: "nat \<Rightarrow> nat \<Rightarrow> (stm_word \<Rightarrow> stm_word) \<Rightarrow> cint" where
  "int_sum b len M = (\<Sum>c<len. int_at M (b + 4 * c))"

definition stm_report :: "nat \<Rightarrow> nat \<Rightarrow> nat \<Rightarrow> stm_world \<Rightarrow> stm_world" where
  "stm_report b len expected w = w\<lparr>stm_lines := stm_lines w @ [ValueMsg (int_sum b len (mem (lib w))) expected]\<rparr>"

definition count_prog :: "(tid \<Rightarrow> stm_world \<Rightarrow> stm_word) \<Rightarrow> shape \<Rightarrow> nat \<Rightarrow> nat \<Rightarrow> nat \<Rightarrow> nat \<Rightarrow> (stm_world, stm_count) fj_prog" where
  "count_prog junk P b n lim expected = \<lparr>fj_threads = n, body = count_body junk P b lim, entry = (\<lambda>_. \<lparr>passed = 0, call = PInit\<rparr>),
     world0 = \<lparr>lib = stm_init (\<lambda>_. 0), tx_of = (\<lambda>_. int_stm_init_thread RW_SET_SIZE), stm_lines = []\<rparr>,
     finale = stm_report b (words P) expected\<rparr>"

definition mutex_stm_prog :: "(tid \<Rightarrow> stm_world \<Rightarrow> stm_word) \<Rightarrow> nat \<Rightarrow> nat \<Rightarrow> nat \<Rightarrow> (stm_world, stm_count) fj_prog" where
  "mutex_stm_prog junk b n m = count_prog junk (one_word (\<lambda>_. True)) b n (m div n) m"

definition rw_stm_prog :: "(tid \<Rightarrow> stm_world \<Rightarrow> stm_word) \<Rightarrow> nat \<Rightarrow> nat \<Rightarrow> nat \<Rightarrow> (stm_world, stm_count) fj_prog" where
  "rw_stm_prog junk b n m = count_prog junk (one_word (\<lambda>k. k mod 10 = 0)) b n (m div n) (m div 10)"

definition array_stm_prog :: "(tid \<Rightarrow> stm_world \<Rightarrow> stm_word) \<Rightarrow> nat \<Rightarrow> nat \<Rightarrow> nat \<Rightarrow> nat \<Rightarrow> (stm_world, stm_count) fj_prog" where
  "array_stm_prog junk b len n m = count_prog junk (an_array len) b n (m div n) m"

lemma count_prog_simps [simp]:
  "fj_threads (count_prog junk P b n lim expected) = n" "body (count_prog junk P b n lim expected) = count_body junk P b lim"
  "entry (count_prog junk P b n lim expected) = (\<lambda>_. \<lparr>passed = 0, call = PInit\<rparr>)"
  "world0 (count_prog junk P b n lim expected) = \<lparr>lib = stm_init (\<lambda>_. 0), tx_of = (\<lambda>_. int_stm_init_thread RW_SET_SIZE), stm_lines = []\<rparr>"
  "finale (count_prog junk P b n lim expected) = stm_report b (words P) expected"
  by (simp_all add: count_prog_def)

text \<open>The value and the mask of the store are those of \<open>stm_store_u32\<close>, and the plain read of an \<open>int\<close> is the \<open>int\<close> of \<open>stm_load_u32\<close>.\<close>

lemma int_store_u32:
  assumes "4 dvd addr"
  shows "stm_store_u32 z M addr c = M(addr div 8 := merge (M (addr div 8)) (set_field z (half_at addr) c) (int_mask (half_at addr)))"
  using assms by (simp add: stm_store_u32_def TM_STORE2_def merge_def bytes_in_def half_at_def int_mask_def)

lemma int_load_u32:
  assumes "4 dvd addr"
  shows "stm_load_u32 (\<lambda>k. M (of_nat (8 * k))) addr = int_at (M :: stm_word \<Rightarrow> stm_word) addr"
  using assms by (simp add: stm_load_u32_def bytes_in_def int_at_def word_at_def half_at_def)

subsection \<open>What a transaction adds\<close>

text \<open>The trace of a round that adds: it loads a word and stores the \<open>int\<close> in it plus one.\<close>

definition adding :: "shape \<Rightarrow> nat \<Rightarrow> event list \<Rightarrow> bool" where
  "adding P b tr \<longleftrightarrow> (\<exists>c<words P. \<exists>y z. let a = word_at (b + 4 * c); j = half_at (b + 4 * c) in
     tr = [Rd a y, Wr a (set_field z j (field y j + 1 :: cint)) (int_mask j)])"

lemma field_set_field:
  assumes "j < 2" "k < 2"
  shows "(field (set_field z j (c :: cint) :: stm_word) k :: cint) = (if k = j then c else field z k)"
proof (rule bit_word_eqI)
  fix n assume n: "n < LENGTH(32)"
  have "bit (field (set_field z j c :: stm_word) k :: cint) n \<longleftrightarrow>
      (if 32 * j \<le> 32 * k + n \<and> 32 * k + n < 32 * j + 32 then bit c (32 * k + n - 32 * j) else bit z (32 * k + n))"
    using assms n by (simp add: bit_field bit_set_field)
  moreover have "32 * j \<le> 32 * k + n \<and> 32 * k + n < 32 * j + 32 \<longleftrightarrow> k = j"
    using n by (cases k j rule: linorder_cases) simp_all
  ultimately show "bit (field (set_field z j c :: stm_word) k :: cint) n = bit (if k = j then c else field z k) n"
    using n by (simp add: bit_field)
qed

lemma field_merge:
  assumes "j < 2" "k < 2"
  shows "(field (merge y (set_field z j (c :: cint)) (int_mask j)) k :: cint) = (if k = j then c else field y k)"
proof -
  have "(field (NOT (int_mask j)) k :: cint) = NOT (field (int_mask j) k)" using assms by (intro field_NOT) simp
  then show ?thesis using assms by (simp add: merge_def int_mask_def field_set_field)
qed

lemma half_less [simp]: "half_at addr < 2"
  by (simp add: half_at_def less_mult_imp_div_less)

lemma int_mask_nonzero: "j < 2 \<Longrightarrow> int_mask j \<noteq> 0"
proof
  assume "j < 2" "int_mask j = 0"
  then have "bit (int_mask j) (32 * j) = False" by simp
  then show False using \<open>j < 2\<close> by (simp add: int_mask_def bit_set_field bit_simps)
qed

text \<open>Different elements of the array are different halves or in different words.\<close>

lemma place_inj:
  assumes "4 dvd u" "4 dvd v" "u < 2 ^ 64" "v < 2 ^ 64" and eq: "word_at u = word_at v" "half_at u = half_at v"
  shows "u = v"
proof -
  have small: "8 * (x div 8) < 2 ^ 64" if "x < 2 ^ 64" for x :: nat using that by (meson le_less_trans times_div_less_eq_dividend)
  have "unat (word_at x) = 8 * (x div 8)" if "x < 2 ^ 64" for x
    using small [OF that] by (simp add: word_at_def unat_of_nat del: of_nat_mult)
  then have "8 * (u div 8) = 8 * (v div 8)" using assms(3,4) eq(1) by metis
  moreover have "x = 8 * (x div 8) + 4 * half_at x" if "4 dvd x" for x using that unfolding half_at_def by presburger
  ultimately show ?thesis using assms(1,2) eq(2) by metis
qed

lemma int_places:
  assumes "4 dvd b" "b + 4 * len \<le> 2 ^ 64" "c < len" "d < len"
    and "word_at (b + 4 * c) = word_at (b + 4 * d)" "half_at (b + 4 * c) = half_at (b + 4 * d)"
  shows "c = d"
proof -
  have "b + 4 * c = b + 4 * d" by (rule place_inj [OF _ _ _ _ assms(5,6)]) (use assms(1-4) in simp_all)
  then show ?thesis by simp
qed

lemma adding_sum:
  assumes b: "4 dvd b" "b + 4 * words P \<le> 2 ^ 64" and tr: "adding P b tr" "replays tr F"
  shows "int_sum b (words P) (effect tr F) = int_sum b (words P) F + 1"
proof -
  obtain c y z where c: "c < words P" and t: "tr = [Rd (word_at (b + 4 * c)) y,
      Wr (word_at (b + 4 * c)) (set_field z (half_at (b + 4 * c)) (field y (half_at (b + 4 * c)) + 1 :: cint)) (int_mask (half_at (b + 4 * c)))]"
    using tr(1) by (auto simp: adding_def Let_def)
  have y: "y = F (word_at (b + 4 * c))" using tr(2) t by simp
  have at: "int_at (effect tr F) (b + 4 * d) = int_at F (b + 4 * d) + (if d = c then 1 else 0)" if "d < words P" for d
    using int_places [OF b that c] by (auto simp: t int_at_def field_merge y)
  show ?thesis using c at by (simp add: int_sum_def sum.distrib)
qed

text \<open>As many as have been decided.\<close>

lemma as_of_sum:
  assumes b: "4 dvd b" "b + 4 * words P \<le> 2 ^ 64" and init: "initial g = (\<lambda>_. 0)"
    and tr: "\<And>t s tr. decided g t = Some (s, tr) \<Longrightarrow> adding P b tr \<and> replays tr (as_of g (t - 1))"
  shows "int_sum b (words P) (as_of g e) = of_nat (card {t \<in> {1..e}. decided g t \<noteq> None})"
proof (induction e)
  case 0
  show ?case by (simp add: int_sum_def int_at_def as_of_def init)
next
  case (Suc e)
  have fin: "finite {t \<in> {1..e}. decided g t \<noteq> None}" by simp
  show ?case
  proof (cases "decided g (Suc e)")
    case None
    then have "{t \<in> {1..Suc e}. decided g t \<noteq> None} = {t \<in> {1..e}. decided g t \<noteq> None}"
      by (auto simp: le_Suc_eq)
    then show ?thesis using Suc None by (simp add: as_of_def)
  next
    case (Some x)
    then obtain s t where x: "decided g (Suc e) = Some (s, t)" by (cases x) auto
    then have "{t \<in> {1..Suc e}. decided g t \<noteq> None} = insert (Suc e) {t \<in> {1..e}. decided g t \<noteq> None}"
      by (auto simp: le_Suc_eq)
    moreover have "as_of g (Suc e) = effect t (as_of g e)" using x by (simp add: as_of_def)
    ultimately show ?thesis using Suc fin adding_sum [OF b, of t "as_of g e"] tr [OF x] by (simp del: Collect_disj_eq)
  qed
qed

subsection \<open>Where a thread is\<close>

text \<open>What the transaction of a round has done: nothing, the load, or the store too; \<open>a\<close> is the word, \<open>j\<close> the half.\<close>

definition untouched :: "stm_tx \<Rightarrow> bool" where
  "untouched x \<longleftrightarrow> trace x = [] \<and> w_set x = [] \<and> r_set x = []"

definition got :: "stm_word \<Rightarrow> stm_word \<Rightarrow> stm_tx \<Rightarrow> bool" where
  "got a y x \<longleftrightarrow> trace x = [Rd a y] \<and> w_set x = [] \<and> length (r_set x) \<le> 1"

definition put :: "stm_word \<Rightarrow> nat \<Rightarrow> stm_tx \<Rightarrow> bool" where
  "put a j x \<longleftrightarrow> (\<exists>y z. trace x = [Rd a y, Wr a (set_field z j (field y j + 1 :: cint)) (int_mask j)]) \<and>
     length (w_set x) = 1 \<and> length (r_set x) \<le> 1"

definition storing_int :: "stm_word \<Rightarrow> nat \<Rightarrow> stm_word \<Rightarrow> stm_word \<Rightarrow> stm_word \<Rightarrow> stm_tx \<Rightarrow> bool" where
  "storing_int a j a' v m x \<longleftrightarrow> a' = a \<and> m = int_mask j \<and> length (r_set x) \<le> 1 \<and>
     (\<exists>y z. trace x = [Rd a y] \<and> v = set_field z j (field y j + 1 :: cint))"

definition body_ok :: "stm_word \<Rightarrow> nat \<Rightarrow> bool \<Rightarrow> call_pc \<Rightarrow> stm_tx \<Rightarrow> bool" where
  "body_ok a j u q x \<longleftrightarrow> (case q of
     PLoad \<Rightarrow> pc x = Active \<and> untouched x
   | PGot \<Rightarrow> (case pc x of Active \<Rightarrow> got a (result x) x | R_lock a' \<Rightarrow> a' = a \<and> untouched x | R_value a' v \<Rightarrow> a' = a \<and> untouched x
       | R_check a' v y \<Rightarrow> a' = a \<and> untouched x | R_extend a' v y \<Rightarrow> a' = a \<and> untouched x
       | R_valid a' v y c k \<Rightarrow> a' = a \<and> untouched x | R_again a' v y \<Rightarrow> a' = a \<and> untouched x | _ \<Rightarrow> False)
   | PStore c \<Rightarrow> u \<and> pc x = Active \<and> (\<exists>y. got a y x \<and> c = field y j + 1)
   | PCommit \<Rightarrow> (case pc x of W_lock a' v m \<Rightarrow> u \<and> w_set x = [] \<and> storing_int a j a' v m x
       | W_cas a' v m ver \<Rightarrow> u \<and> w_set x = [] \<and> storing_int a j a' v m x
       | W_fill a' v m k \<Rightarrow> u \<and> k = 0 \<and> length (w_set x) = 1 \<and> storing_int a j a' v m x
       | Active \<Rightarrow> if u then put a j x else \<exists>y. got a y x
       | _ \<Rightarrow> False)
   | PNext \<Rightarrow> u \<and> put a j x \<and> (case pc x of C_clock \<Rightarrow> True | C_valid t k \<Rightarrow> True | C_store t k \<Rightarrow> True | C_release t k \<Rightarrow> True | _ \<Rightarrow> False)
   | _ \<Rightarrow> False)"

definition retried :: "abort \<Rightarrow> bool" where
  "retried r \<longleftrightarrow> r \<in> {RW_conflict, WW_conflict, Val_read, Val_write, Validate}"

definition call_ok :: "stm_word \<Rightarrow> nat \<Rightarrow> bool \<Rightarrow> call_pc \<Rightarrow> stm_tx \<Rightarrow> bool" where
  "call_ok a j u q x \<longleftrightarrow> attr x = TM_ATTR \<and> w_size x = RW_SET_SIZE \<and> (case pc x of
     Idle \<Rightarrow> nesting x = 0 \<and> (q = PInit \<or> q = PLoop \<or> q = PStart \<or> q = PNext \<or> (\<exists>k v. q = PSum k v))
   | Prepare \<Rightarrow> nesting x = 1 \<and> (q = PLoad \<or> q = PGot \<or> q = PCommit \<or> q = PNext)
   | Rollover \<Rightarrow> q = PLoad
   | K_drop r k \<Rightarrow> retried r \<and> (q = PGot \<or> q = PCommit \<or> q = PNext)
   | _ \<Rightarrow> nesting x = (if q = PNext then 0 else 1) \<and> body_ok a j u q x)"

text \<open>A round counts once its transaction is decided.\<close>

definition is_counted :: "bool \<Rightarrow> call_pc \<Rightarrow> stm_tx \<Rightarrow> bool" where
  "is_counted u q x \<longleftrightarrow> u \<and> q = PNext \<and> (case pc x of Idle \<Rightarrow> True | C_store t k \<Rightarrow> True | C_release t k \<Rightarrow> True | _ \<Rightarrow> False)"

lemmas thread_defs = call_ok_def body_ok_def untouched_def got_def put_def storing_int_def retried_def is_counted_def TM_ATTR_def RW_SET_SIZE_def

text \<open>A step in the library, and the one that decides a transaction.\<close>

definition decides :: "stm_globals \<Rightarrow> stm_tx \<Rightarrow> stm_globals \<Rightarrow> bool" where
  "decides g x g' \<longleftrightarrow> (\<exists>t. stamp x = Some t \<and> decided g' = (decided g)(t \<mapsto> (start x, trace x)))"

lemma own_empty [simp]: "w_set x = [] \<Longrightarrow> \<not> own i j k x"
  by (simp add: own_def)

lemma lib_moves:
  assumes ok: "call_ok a j u q x" and j: "j < 2" and pc: "pc x \<noteq> Idle" "pc x \<noteq> Active"
    and step: "etl_step i r g x = Some (g', x')"
  defines "q' \<equiv> (if pc x = Prepare then PLoad else q)"
  shows "call_ok a j u q' x'"
    and "decided g' = decided g \<and> is_counted u q' x' = is_counted u q x \<or>
      decides g x g' \<and> u \<and> put a j x \<and> \<not> is_counted u q x \<and> is_counted u q' x'"
proof -
  note m = int_mask_nonzero [OF j]
  note code = stm_code read_locked_def resume_def rollback_def fill_def put_value_def loaded_def add_read_def new_entry_def Let_def
    stm_rollback_def committed_def stm_wbetl_rollback_def decides_def stamp_def
  have "call_ok a j u q' x' \<and> (decided g' = decided g \<and> is_counted u q' x' = is_counted u q x \<or>
      decides g x g' \<and> u \<and> put a j x \<and> \<not> is_counted u q x \<and> is_counted u q' x')"
    using ok pc step m unfolding q'_def
    by (cases "pc x") (auto simp: thread_defs code split: call_pc.splits lock.splits if_splits abort.splits)
  then show "call_ok a j u q' x'" "decided g' = decided g \<and> is_counted u q' x' = is_counted u q x \<or>
      decides g x g' \<and> u \<and> put a j x \<and> \<not> is_counted u q x \<and> is_counted u q' x'" by blast+
qed
text \<open>The requests of the program.\<close>

lemma call_moves:
  assumes ok: "call_ok a j u q x" and j: "j < 2" and pc: "pc x = Idle \<or> pc x = Active"
  shows "q = PStart \<Longrightarrow> etl_step i (Start TM_ATTR) g x = Some (g', x') \<Longrightarrow> call_ok a j u PLoad x' \<and> decided g' = decided g"
    and "q = PLoad \<Longrightarrow> etl_step i (Load a) g x = Some (g', x') \<Longrightarrow> call_ok a j u PGot x' \<and> decided g' = decided g"
    and "q = PGot \<Longrightarrow> call_ok a j u (if u then PStore (field (result x) j + 1) else PCommit) x"
    and "q = PStore c \<Longrightarrow> etl_step i (Store2 a (set_field z j c) (int_mask j)) g x = Some (g', x') \<Longrightarrow>
      call_ok a j u PCommit x' \<and> decided g' = decided g"
    and "q = PCommit \<Longrightarrow> etl_step i Commit g x = Some (g', x') \<Longrightarrow> call_ok a j u PNext x' \<and> \<not> is_counted u PNext x' \<and> decided g' = decided g"
    and "q = PInit \<or> q = PLoop \<or> q = PStart \<or> q = PNext \<or> (\<exists>k v. q = PSum k v) \<Longrightarrow> pc x = Idle \<and> nesting x = 0"
  using ok pc by (auto simp: thread_defs stm_code committed_def Let_def split: if_splits) blast+

text \<open>The clock moves with the transactions that commit.\<close>

lemma lib_clock:
  assumes ok: "call_ok a j u q x" and j: "j < 2" and step: "etl_step i r g x = Some (g', x')"
  shows "initial g' = initial g" "clock g' = clock g + (if pc x = C_clock then 1 else 0)" "pc x' = Rollover \<Longrightarrow> VERSION_MAX \<le> clock g'"
proof -
  have "initial g' = initial g \<and> clock g' = clock g + (if pc x = C_clock then 1 else 0)"
    using step by (cases "pc x"; cases r) (auto simp: stm_code Let_def split: if_splits)
  then show "initial g' = initial g" "clock g' = clock g + (if pc x = C_clock then 1 else 0)" by blast+
  assume roll: "pc x' = Rollover"
  have "pc x = Prepare"
  proof (cases "pc x = Idle \<or> pc x = Active")
    case True
    then show ?thesis using step roll by (cases r) (auto simp: stm_code rollback_def committed_def Let_def split: if_splits)
  next
    case False
    then have "call_ok a j u (if pc x = Prepare then PLoad else q) x'" using lib_moves(1) [OF ok j _ _ step] by blast
    then have "pc x = Prepare \<or> q = PLoad" using roll by (auto simp: call_ok_def split: if_splits)
    then show ?thesis using ok False step by (auto simp: call_ok_def body_ok_def etl_step_def split: etl_pc.splits)
  qed
  then show "VERSION_MAX \<le> clock g'" using step roll by (auto simp: stm_code split: if_splits)
qed

subsection \<open>The invariant\<close>

definition at_word :: "shape \<Rightarrow> nat \<Rightarrow> stm_count \<Rightarrow> nat" where
  "at_word P b l = b + 4 * word_of P (passed l)"

definition count_status :: "shape \<Rightarrow> nat \<Rightarrow> nat \<Rightarrow> stm_tx \<Rightarrow> stm_count status \<Rightarrow> bool" where
  "count_status P b lim x s \<longleftrightarrow> (case s of
     Live l \<Rightarrow> call_ok (word_at (at_word P b l)) (half_at (at_word P b l)) (adds P (passed l)) (call l) x \<and>
       (case call l of PInit \<Rightarrow> passed l \<le> lim \<and> x = int_stm_init_thread RW_SET_SIZE | PLoop \<Rightarrow> passed l \<le> lim | PSum k v \<Rightarrow> passed l = lim | _ \<Rightarrow> passed l < lim)
   | Unborn \<Rightarrow> x = int_stm_init_thread RW_SET_SIZE
   | Dead \<Rightarrow> pc x = Idle)"

fun added_by :: "shape \<Rightarrow> nat \<Rightarrow> stm_tx \<Rightarrow> stm_count status \<Rightarrow> nat" where
  "added_by P lim x Unborn = 0"
| "added_by P lim x (Live l) = increments_of (adds P) (passed l) + (if is_counted (adds P (passed l)) (call l) x then 1 else 0)"
| "added_by P lim x Dead = increments_of (adds P) lim"

definition count_J :: "shape \<Rightarrow> nat \<Rightarrow> nat \<Rightarrow> nat \<Rightarrow> stm_world \<Rightarrow> (tid \<Rightarrow> stm_count status) \<Rightarrow> bool" where
  "count_J P b n lim w st \<longleftrightarrow> stm_inv (lib w) (tx_of w) \<and> initial (lib w) = (\<lambda>_. 0) \<and>
     (\<forall>i\<ge>n. pc (tx_of w i) = Idle) \<and> (\<forall>i<n. count_status P b lim (tx_of w i) (st i)) \<and>
     (\<forall>t s tr. decided (lib w) t = Some (s, tr) \<longrightarrow> adding P b tr) \<and>
     card (dom (decided (lib w))) = (\<Sum>i<n. added_by P lim (tx_of w i) (st i)) \<and>
     (\<forall>i. pc (tx_of w i) = Rollover \<longrightarrow> VERSION_MAX \<le> clock (lib w))"

lemma finite_decided: "history_ok g T \<Longrightarrow> dom (decided g) \<subseteq> {1..clock g}"
  by (force simp: history_ok_def)

lemma sum_two:
  fixes f :: "'a \<Rightarrow> 'b \<Rightarrow> nat" and i n :: nat
  assumes "i < n"
  shows "(\<Sum>j<n. f ((T(i := x)) j) ((st(i := s)) j)) + f (T i) (st i) = (\<Sum>j<n. f (T j) (st j)) + f x s"
  using sum_at [OF assms, of "\<lambda>p. f (fst p) (snd p)" "\<lambda>j. (T j, st j)" "(x, s)"]
  by (simp add: fun_upd_def if_distrib if_distribR cong: if_cong)

text \<open>A thread moves, and what is decided is what it has added_by.\<close>

lemma count_move:
  assumes J: "count_J P b n lim w st" and i: "i < n"
    and inv: "stm_inv g' ((tx_of w)(i := x'))" "initial g' = initial (lib w)" and ok: "count_status P b lim x' s'"
    and dec: "decided g' = decided (lib w) \<and> added_by P lim x' s' = added_by P lim (tx_of w i) (st i) \<or>
      decides (lib w) (tx_of w i) g' \<and> adding P b (trace (tx_of w i)) \<and> added_by P lim x' s' = added_by P lim (tx_of w i) (st i) + 1"
    and roll: "clock (lib w) \<le> clock g'" "pc x' = Rollover \<Longrightarrow> VERSION_MAX \<le> clock g'"
  shows "count_J P b n lim (w\<lparr>lib := g', tx_of := (tx_of w)(i := x')\<rparr>) (st(i := s'))"
proof -
  have hist: "history_ok (lib w) (tx_of w)" and st: "stamps_ok (lib w) (tx_of w)"
    using J by (auto simp: count_J_def stm_inv_def)
  note total = sum_two [OF i, of "added_by P lim" "tx_of w" x' st s']
  have "(\<forall>t s tr. decided g' t = Some (s, tr) \<longrightarrow> adding P b tr) \<and>
      card (dom (decided g')) = (\<Sum>j<n. added_by P lim (((tx_of w)(i := x')) j) ((st(i := s')) j))"
    using dec
  proof
    assume d: "decides (lib w) (tx_of w i) g' \<and> adding P b (trace (tx_of w i)) \<and> added_by P lim x' s' = added_by P lim (tx_of w i) (st i) + 1"
    then obtain t where t: "stamp (tx_of w i) = Some t" "decided g' = (decided (lib w))(t \<mapsto> (start (tx_of w i), trace (tx_of w i)))"
      by (auto simp: decides_def)
    have "decided (lib w) t = None" using st t(1) by (auto simp: stamps_ok_def stamp_ok_def)
    moreover have "finite (dom (decided (lib w)))" using finite_decided [OF hist] finite_subset by blast
    ultimately have "card (dom (decided g')) = card (dom (decided (lib w))) + 1" by (simp add: t(2) card_insert_if domIff)
    then show ?thesis using J t(2) d total by (auto simp: count_J_def)
  qed (use J total in \<open>auto simp: count_J_def\<close>)
  moreover have "VERSION_MAX \<le> clock g'" if "pc (((tx_of w)(i := x')) j) = Rollover" for j
  proof (cases "j = i")
    case False
    then have "VERSION_MAX \<le> clock (lib w)" using that J by (auto simp: count_J_def)
    then show ?thesis using roll(1) by simp
  qed (use that roll(2) in simp)
  ultimately show ?thesis using J i inv ok by (auto simp: count_J_def)
qed

lemma lib_step_go:
  "Go w' l' \<in> set (lib_step i r w l) \<longleftrightarrow>
     (\<exists>g x. etl_step i r (lib w) (tx_of w i) = Some (g, x) \<and> w' = w\<lparr>lib := g, tx_of := (tx_of w)(i := x)\<rparr> \<and> l' = l)"
  by (cases "etl_step i r (lib w) (tx_of w i)") (auto simp: lib_step_def fun_upd_def)

lemma lib_step_exit [simp]: "Exit w' \<notin> set (lib_step i r w l)"
  by (auto simp: lib_step_def split: option.splits)

lemma count_quiet:
  assumes J: "count_J P b n lim w st" and i: "i < n" and ok: "count_status P b lim (tx_of w i) s'"
    and "added_by P lim (tx_of w i) s' = added_by P lim (tx_of w i) (st i)" "lib w' = lib w" "tx_of w' = tx_of w"
  shows "count_J P b n lim w' (st(i := s'))"
proof -
  have "count_J P b n lim (w\<lparr>lib := lib w, tx_of := (tx_of w)(i := tx_of w i)\<rparr>) (st(i := s'))"
    using J assms(4) by (intro count_move [OF J i _ _ ok]) (auto simp: count_J_def)
  then show ?thesis using assms(5,6) by (simp add: count_J_def)
qed

lemma proper_calls:
  assumes "call_ok a j u q x"
  shows "proper Commit x" "proper (Start TM_ATTR) x" "proper (Load c) x" "proper (Store2 c v m) x"
  using assms by (simp_all add: proper_def call_ok_def TM_ATTR_def)

lemma count_go:
  assumes J: "count_J P b n lim w st" and i: "i < n" and at: "st i = Live l" and shape: "\<And>k. word_of P k < words P" and b: "4 dvd b"
    and step: "Go w' l' \<in> set (count_body junk P b lim i w l)"
  shows "count_J P b n lim w' (st(i := Live l'))"
proof -
  let ?addr = "at_word P b l" and ?x = "tx_of w i" and ?u = "adds P (passed l)"
  have sok: "count_status P b lim ?x (Live l)" and inv: "stm_inv (lib w) (tx_of w)" using J i at by (auto simp: count_J_def)
  then have ok: "call_ok (word_at ?addr) (half_at ?addr) ?u (call l) ?x" by (simp add: count_status_def)
  have j: "half_at ?addr < 2" by simp
  note proper = proper_calls [OF ok]
  have lib: ?thesis
    if go: "Go w' l' \<in> set (lib_step i r w l0)" and p: "proper r ?x" and later: "passed l0 = passed l" "call l0 \<noteq> PInit" "call l0 \<noteq> PLoop"
      "\<forall>k v. call l0 \<noteq> PSum k v" "passed l < lim" and
      moves: "\<And>g' x'. etl_step i r (lib w) ?x = Some (g', x') \<Longrightarrow> call_ok (word_at ?addr) (half_at ?addr) ?u (call l0) x' \<and>
        (decided g' = decided (lib w) \<and> is_counted ?u (call l0) x' = is_counted ?u (call l) ?x \<or>
         decides (lib w) ?x g' \<and> adding P b (trace ?x) \<and> \<not> is_counted ?u (call l) ?x \<and> is_counted ?u (call l0) x')" for r l0
  proof -
    obtain g' x' where e: "etl_step i r (lib w) ?x = Some (g', x')" and w': "w' = w\<lparr>lib := g', tx_of := (tx_of w)(i := x')\<rparr>" "l' = l0"
      using go by (auto simp: lib_step_go)
    have "count_status P b lim x' (Live l0)"
      using moves [OF e] later by (auto simp: count_status_def at_word_def split: call_pc.split)
    then show ?thesis unfolding w' using moves [OF e] at later step_inv [OF inv p e] lib_clock [OF ok j e]
      by (intro count_move [OF J i]) auto
  qed
  show ?thesis
  proof (cases "pc ?x = Idle \<or> pc ?x = Active")
    case False
    have busy: "passed l < lim" "call l \<noteq> PInit" "call l \<noteq> PLoop" "\<forall>k v. call l \<noteq> PSum k v"
      using ok sok False by (auto simp: call_ok_def body_ok_def count_status_def split: etl_pc.splits call_pc.splits)
    define l0 where "l0 = (if pc ?x = Prepare then l\<lparr>call := PLoad\<rparr> else l)"
    have l0: "passed l0 = passed l" "call l0 = (if pc ?x = Prepare then PLoad else call l)" by (simp_all add: l0_def)
    have go: "Go w' l' \<in> set (lib_step i Commit w l0)" using step False by (simp add: count_body_def Let_def l0_def)
    have "adding P b (trace ?x)" if "put (word_at ?addr) (half_at ?addr) ?x"
      using that shape [of "passed l"] unfolding put_def adding_def at_word_def Let_def by blast
    then have "call_ok (word_at ?addr) (half_at ?addr) ?u (call l0) x' \<and>
        (decided g' = decided (lib w) \<and> is_counted ?u (call l0) x' = is_counted ?u (call l) ?x \<or>
         decides (lib w) ?x g' \<and> adding P b (trace ?x) \<and> \<not> is_counted ?u (call l) ?x \<and> is_counted ?u (call l0) x')"
      if "etl_step i Commit (lib w) ?x = Some (g', x')" for g' x'
      using lib_moves [OF ok j _ _ that] False unfolding l0(2) by blast
    then show ?thesis using busy l0 by (intro lib [OF go proper(1)]) auto
  next
    case True
    note calls = call_moves [OF ok j True]
    have addr: "b + 4 * word_of P (passed l) = ?addr" by (simp add: at_word_def)
    note body = step [unfolded count_body_def Let_def addr] 
    have load: "stm_load_u32 (\<lambda>_. y) ?addr = (field (y :: stm_word) (half_at ?addr) :: cint)" for y
    proof -
      have "4 dvd ?addr" using b by (simp add: at_word_def)
      then show ?thesis by (simp add: stm_load_u32_def bytes_in_def half_at_def)
    qed
    show ?thesis
    proof (cases "call l")
      case PInit
      then show ?thesis using body calls(6) sok at by (intro count_quiet [OF J i]) (auto simp: count_status_def is_counted_def call_ok_def)
    next
      case PLoop
      then show ?thesis using body calls(6) sok at True
        by (intro count_quiet [OF J i]) (auto simp: count_status_def is_counted_def call_ok_def at_word_def)
    next
      case PStart
      then have "Go w' l' \<in> set (lib_step i (Start TM_ATTR) w (l\<lparr>call := PLoad\<rparr>))" using body True by auto
      then show ?thesis
        by (rule lib) (use calls(1) [OF PStart] PStart proper sok in \<open>auto simp: is_counted_def count_status_def\<close>)
    next
      case PLoad
      then have "Go w' l' \<in> set (lib_step i (Load (word_at ?addr)) w (l\<lparr>call := PGot\<rparr>))" using body True by auto
      then show ?thesis
        by (rule lib) (use calls(2) [OF PLoad] PLoad proper sok in \<open>auto simp: is_counted_def count_status_def\<close>)
    next
      case PGot
      then show ?thesis using body calls(3) [OF PGot] sok at True load
        by (intro count_quiet [OF J i]) (auto simp: count_status_def is_counted_def at_word_def split: if_splits)
    next
      case (PStore c)
      then have "Go w' l' \<in> set (lib_step i (Store2 (word_at ?addr) (set_field (junk i w) (half_at ?addr) c) (int_mask (half_at ?addr))) w (l\<lparr>call := PCommit\<rparr>))" using body True by auto
      then show ?thesis
        by (rule lib) (use calls(4) [OF PStore] PStore proper sok in \<open>auto simp: is_counted_def count_status_def\<close>)
    next
      case PCommit
      then have "Go w' l' \<in> set (lib_step i (Commit) w (l\<lparr>call := PNext\<rparr>))" using body True by auto
      then show ?thesis
        by (rule lib) (use calls(5) [OF PCommit] PCommit proper sok in \<open>auto simp: is_counted_def count_status_def\<close>)
    next
      case PNext
      then show ?thesis using body calls(6) sok at True
        by (intro count_quiet [OF J i]) (auto simp: count_status_def is_counted_def call_ok_def at_word_def)
    next
      case (PSum k v)
      then show ?thesis using body calls(6) sok at True
        by (intro count_quiet [OF J i]) (auto simp: count_status_def is_counted_def call_ok_def at_word_def split: if_splits)
    qed
  qed
qed

lemma count_exit:
  assumes J: "count_J P b n lim w st" and i: "i < n" and at: "st i = Live l"
    and step: "Exit w' \<in> set (count_body junk P b lim i w l)"
  shows "count_J P b n lim w' (st(i := Dead))"
proof -
  let ?addr = "at_word P b l" and ?x = "tx_of w i" and ?u = "adds P (passed l)"
  have sok: "count_status P b lim ?x (Live l)" using J i at by (auto simp: count_J_def)
  then have ok: "call_ok (word_at ?addr) (half_at ?addr) ?u (call l) ?x" by (simp add: count_status_def)
  obtain k v where pc: "call l = PSum k v" "pc ?x = Idle \<or> pc ?x = Active" and w': "w' = w\<lparr>stm_lines := stm_lines w @ [EndMsg i v]\<rparr>"
    using step by (cases "call l") (auto simp: count_body_def Let_def split: if_splits)
  have "pc ?x = Idle" using call_moves(6) [OF ok half_less pc(2)] pc(1) by blast
  moreover have "passed l = lim" using sok pc(1) by (simp add: count_status_def)
  ultimately show ?thesis using at pc(1) unfolding w'
    by (intro count_quiet [OF J i]) (auto simp: count_status_def is_counted_def)
qed

lemma count_invariant:
  assumes shape: "\<And>k. word_of P k < words P" and b: "4 dvd b"
  shows "fj_invariant (count_prog junk P b n lim expected) (count_J P b n lim)"
proof (standard, goal_cases)
  case 1
  show ?case
    using begin_inv [of "\<lambda>_. 0" RW_SET_SIZE]
    by (auto simp: count_J_def count_status_def stm_init_def int_stm_init_thread_def)
next
  case (2 w st i)
  then have "count_status P b lim (tx_of w i) Unborn" by (auto simp: count_J_def)
  then have "tx_of w i = int_stm_init_thread RW_SET_SIZE" by (simp add: count_status_def)
  then show ?case using 2
    by (intro count_quiet) (auto simp: count_status_def is_counted_def call_ok_def int_stm_init_thread_def TM_ATTR_def)
next
  case 3
  then show ?case using count_go [OF _ _ _ shape b] by simp
next
  case 4
  then show ?case using count_exit by simp
qed

subsection \<open>What is printed\<close>

lemma rested_memory:
  assumes inv: "stm_inv g T" and "\<And>j. pc (T j) = Idle"
  shows "mem g = now g"
proof
  fix a
  have "held (T j) = {}" for j using assms(2) by (simp add: held_def)
  then have "locks g (LOCK_IDX a) \<noteq> Owned j k" for j k using owned_facts [OF inv] by (auto simp: owner_def)
  then obtain v where "locks g (LOCK_IDX a) = Version v" by (cases "locks g (LOCK_IDX a)") auto
  then show "mem g a = now g a" using version_facts(7) [OF inv] by blast
qed

lemma count_sum:
  assumes J: "count_J P b n lim w st" and dead: "\<forall>i<n. st i = Dead" and b: "4 dvd b" "b + 4 * words P \<le> 2 ^ 64"
  shows "int_sum b (words P) (mem (lib w)) = of_nat (n * increments_of (adds P) lim)"
proof -
  let ?g = "lib w"
  have inv: "stm_inv ?g (tx_of w)" using J by (simp add: count_J_def)
  then have hist: "history_ok ?g (tx_of w)" by (simp add: stm_inv_def)
  have "pc (tx_of w j) = Idle" for j
    using J dead by (cases "j < n") (auto simp: count_J_def count_status_def)
  then have "mem ?g = as_of ?g (clock ?g)" using rested_memory [OF inv] by (simp add: now_def)
  moreover have "int_sum b (words P) (as_of ?g e) = of_nat (card {t \<in> {1..e}. decided ?g t \<noteq> None})" for e
  proof (rule as_of_sum [OF b])
    show "initial ?g = (\<lambda>_. 0)" using J by (simp add: count_J_def)
    fix t s tr assume "decided ?g t = Some (s, tr)"
    then show "adding P b tr \<and> replays tr (as_of ?g (t - 1))"
      using J hist by (auto simp: count_J_def history_ok_def consistent_def)
  qed
  moreover have "{t \<in> {1..clock ?g}. decided ?g t \<noteq> None} = dom (decided ?g)" using finite_decided [OF hist] by auto
  moreover have "card (dom (decided ?g)) = n * increments_of (adds P) lim" using J dead by (simp add: count_J_def)
  ultimately show ?thesis by simp
qed

lemma count_prints:
  assumes shape: "\<And>k. word_of P k < words P" and b: "4 dvd b" "b + 4 * words P \<le> 2 ^ 64"
    and s: "fj_reach (count_prog junk P b n lim expected) s" "main_at s = MainDone"
  shows "stm_lines (world s) \<noteq> [] \<and> last (stm_lines (world s)) = ValueMsg (of_nat (n * increments_of (adds P) lim)) expected"
proof -
  obtain w st where "count_J P b n lim w st" "\<forall>i<n. st i = Dead" "world s = stm_report b (words P) expected w"
    using fj_invariant.fj_finished [OF count_invariant [OF shape b(1)] s] by auto
  then show ?thesis using count_sum [OF _ _ b] by (simp add: stm_report_def)
qed

end
