(* ===== verification/STM_Progress.thy ===== *)
theory STM_Progress
  imports STM_Programs
begin

section \<open>Counters in transactions of tinySTM: the programs can finish\<close>

text \<open>
  A transaction that meets another one aborts itself, so that a thread alone always gets to the end of its attempt, by
  commit or abort (\<open>settles\<close>). Once all threads have done so no lock is taken, and a thread that goes on alone commits at its
  first attempt (\<open>round_alone\<close>). Each of the two takes at most one time from the clock, and \<open>int_stm_prepare\<close> needs it below \<open>VERSION_MAX\<close>. The
  last section has the theorem on the programs, with what \<open>STM_Programs\<close> shows of the lines they print.
\<close>

subsection \<open>Steps that a thread has before it\<close>

text \<open>A thread is at rest outside of transactions and before the next attempt. Until then, \<open>to_rest\<close> becomes less with every step; a
  version that has changed since the thread has read the lock costs another look.\<close>

definition resting :: "stm_tx \<Rightarrow> bool" where
  "resting x \<longleftrightarrow> pc x = Idle \<or> pc x = Prepare"

definition look :: "stm_globals \<Rightarrow> stm_word \<Rightarrow> nat \<Rightarrow> nat \<Rightarrow> nat" where
  "look g a v k = (if locks g (LOCK_IDX a) = Version v then k else k + 20)"

definition to_rest :: "call_pc \<Rightarrow> stm_tx \<Rightarrow> stm_globals \<Rightarrow> nat" where
  "to_rest q x g = (case pc x of
     K_drop r k \<Rightarrow> 1 + (length (w_set x) - k)
   | C_store t k \<Rightarrow> 2 * (length (w_set x) - k) + 1 | C_release t k \<Rightarrow> max 2 (2 * (length (w_set x) - k))
   | C_valid t k \<Rightarrow> 10 + (length (r_set x) - k) | C_clock \<Rightarrow> 12
   | Active \<Rightarrow> (case q of PCommit \<Rightarrow> 15 | PStore c \<Rightarrow> 20 | PGot \<Rightarrow> 21 | _ \<Rightarrow> 60)
   | W_fill a v m k \<Rightarrow> 16 | W_cas a v m ver \<Rightarrow> if locks g (LOCK_IDX a) = Version ver then 17 else 19 | W_lock a v m \<Rightarrow> 18
   | R_again a v y \<Rightarrow> look g a v 22 | R_valid a v y c k \<Rightarrow> look g a v 23 | R_extend a v y \<Rightarrow> look g a v 24
   | R_check a v y \<Rightarrow> look g a v 25 | R_value a v \<Rightarrow> look g a v 26 | R_lock a \<Rightarrow> 50 | Prepare \<Rightarrow> 70
   | _ \<Rightarrow> 0)"

definition may_commit :: "stm_tx \<Rightarrow> nat" where
  "may_commit x = (case pc x of Idle \<Rightarrow> 0 | Prepare \<Rightarrow> 0 | K_drop r k \<Rightarrow> 0 | C_valid t k \<Rightarrow> 0 | C_store t k \<Rightarrow> 0 | C_release t k \<Rightarrow> 0 | _ \<Rightarrow> 1)"

lemmas rest_defs = resting_def look_def to_rest_def may_commit_def

lemma lib_rests:
  assumes ok: "call_ok a j u q x" and j: "j < 2" and pc: "\<not> resting x" "pc x \<noteq> Active" "pc x \<noteq> Rollover"
  shows "\<exists>g' x'. etl_step i Commit g x = Some (g', x') \<and> (resting x' \<or> to_rest q x' g' < to_rest q x g) \<and>
    pc x' \<noteq> Rollover \<and> clock g' + may_commit x' \<le> clock g + may_commit x"
proof -
  note code = stm_code read_locked_def resume_def rollback_def fill_def put_value_def loaded_def add_read_def new_entry_def Let_def
    stm_rollback_def committed_def stm_wbetl_rollback_def
  show ?thesis using ok pc int_mask_nonzero [OF j]
    by (cases "pc x") (auto simp: thread_defs rest_defs code split: call_pc.splits lock.splits if_splits abort.splits)
qed

text \<open>A thread that is alone since its transaction began: nothing it sees is newer than its start, and no lock is another's.\<close>

definition alone :: "call_pc \<Rightarrow> stm_tx \<Rightarrow> stm_globals \<Rightarrow> bool" where
  "alone q x g \<longleftrightarrow> (q = PLoad \<or> q = PGot \<or> (\<exists>c. q = PStore c) \<or> q = PCommit \<or> q = PNext) \<and> (case pc x of
     Prepare \<Rightarrow> True | Idle \<Rightarrow> q = PNext | C_valid t k \<Rightarrow> length (r_set x) \<le> k | C_store t k \<Rightarrow> True | C_release t k \<Rightarrow> True
   | R_value a v \<Rightarrow> locks g (LOCK_IDX a) = Version v \<and> v \<le> start x \<and> start x = clock g \<and> tx_end x = clock g
   | R_check a v y \<Rightarrow> locks g (LOCK_IDX a) = Version v \<and> v \<le> start x \<and> start x = clock g \<and> tx_end x = clock g
   | W_cas a v m ver \<Rightarrow> locks g (LOCK_IDX a) = Version ver \<and> start x = clock g \<and> tx_end x = clock g
   | Rollover \<Rightarrow> False | Undefined \<Rightarrow> False | R_own a \<Rightarrow> False | R_extend a v y \<Rightarrow> False | R_valid a v y c k \<Rightarrow> False | R_again a v y \<Rightarrow> False | K_drop r k \<Rightarrow> False
   | _ \<Rightarrow> start x = clock g \<and> tx_end x = clock g)"

definition clear :: "tid \<Rightarrow> stm_tx \<Rightarrow> stm_globals \<Rightarrow> bool" where
  "clear i x g \<longleftrightarrow> (\<forall>L. case locks g L of Version v \<Rightarrow> v \<le> clock g | Owned j k \<Rightarrow> j = i \<and> k < length (w_set x))"

lemma lib_alone:
  assumes ok: "call_ok a j u q x" and j: "j < 2" and pc: "pc x \<noteq> Idle" "pc x \<noteq> Active" and al: "alone q x g" and cl: "clear i x g"
    and room: "pc x = Prepare \<Longrightarrow> clock g < VERSION_MAX"
  shows "\<exists>g' x'. etl_step i Commit g x = Some (g', x') \<and> alone (if pc x = Prepare then PLoad else q) x' g' \<and> pc x' \<noteq> Prepare \<and>
    to_rest (if pc x = Prepare then PLoad else q) x' g' < to_rest q x g \<and>
    clock g' + may_commit x' \<le> clock g + (if pc x = Prepare then 1 else may_commit x)"
proof -
  note code = stm_code read_locked_def resume_def rollback_def fill_def put_value_def loaded_def add_read_def new_entry_def Let_def
    stm_rollback_def committed_def stm_wbetl_rollback_def
  have "\<exists>v. locks g L = Version v \<and> v \<le> clock g" if "w_set x = []" for L
    using cl that unfolding clear_def by (cases "locks g L") (auto dest: spec [of _ L])
  note clean = this
  note defs = thread_defs rest_defs alone_def code
  show ?thesis
  proof (cases "pc x")
    case (R_lock c)
    then have "w_set x = []" using ok by (auto simp: thread_defs split: call_pc.splits)
    then obtain v where "locks g (LOCK_IDX c) = Version v" "v \<le> clock g" using clean by blast
    then show ?thesis using R_lock ok al by (auto simp: defs split: call_pc.splits)
  next
    case (W_lock c v m)
    then have "w_set x = []" using ok by (auto simp: thread_defs split: call_pc.splits)
    then obtain ver where "locks g (LOCK_IDX c) = Version ver" "ver \<le> clock g" using clean by blast
    then show ?thesis using W_lock ok al by (auto simp: defs split: call_pc.splits)
  qed (use ok pc int_mask_nonzero [OF j] al room in \<open>auto simp: defs split: call_pc.splits\<close>)
qed

subsection \<open>Steps of the program\<close>

definition moved :: "tid \<Rightarrow> stm_globals \<Rightarrow> stm_tx \<Rightarrow> stm_world \<Rightarrow> stm_world" where
  "moved i g x w = w\<lparr>lib := g, tx_of := (tx_of w)(i := x)\<rparr>"

lemma moved_simps [simp]: "lib (moved i g x w) = g" "tx_of (moved i g x w) = (tx_of w)(i := x)"
  by (simp_all add: moved_def)

lemma lib_step_moved: "etl_step i r (lib w) (tx_of w i) = Some (g, x) \<Longrightarrow> lib_step i r w l = [Go (moved i g x w) l]"
  by (simp add: lib_step_def moved_def)

lemma not_moved: "moved i (lib w) (tx_of w i) w = w"
  by (simp add: moved_def)

lemma active_step:
  assumes ok: "count_status P b lim (tx_of w i) (Live l)" and pc: "pc (tx_of w i) = Active"
  shows "\<exists>g x l'. Go (moved i g x w) l' \<in> set (count_body junk P b lim i w l) \<and> passed l' = passed l \<and>
    to_rest (call l') x g < to_rest (call l) (tx_of w i) (lib w) \<and> clock g + may_commit x \<le> clock (lib w) + may_commit (tx_of w i) \<and>
    pc x \<noteq> Rollover \<and> pc x \<noteq> Prepare \<and> (alone (call l) (tx_of w i) (lib w) \<longrightarrow> alone (call l') x g)"
proof -
  let ?a = "word_at (at_word P b l)" and ?j = "half_at (at_word P b l)"
  have ok: "call_ok ?a ?j (adds P (passed l)) (call l) (tx_of w i)" using ok by (simp add: count_status_def)
  consider "call l = PLoad" | "call l = PGot" | c where "call l = PStore c" | "call l = PCommit"
    using ok pc by (cases "call l") (auto simp: call_ok_def body_ok_def)
  then show ?thesis
  proof cases
    case 1
    have "etl_step i (Load (word_at (b + 4 * word_of P (passed l)))) (lib w) (tx_of w i) =
        Some (lib w, (tx_of w i)\<lparr>pc := R_lock (word_at (b + 4 * word_of P (passed l)))\<rparr>)" using pc by (simp add: stm_code)
    note e = lib_step_moved [OF this]
    show ?thesis using 1 pc by (auto simp: count_body_def e rest_defs alone_def Let_def intro!: exI)
  next
    case 2
    then show ?thesis using pc
      by (intro exI [of _ "lib w"] exI [of _ "tx_of w i"]) (auto simp: count_body_def not_moved rest_defs alone_def Let_def intro!: exI)
  next
    case (3 c)
    define r where "r = Store2 (word_at (b + 4 * word_of P (passed l))) (set_field (junk i w) (half_at (b + 4 * word_of P (passed l))) c)
      (int_mask (half_at (b + 4 * word_of P (passed l))))"
    then have "etl_step i r (lib w) (tx_of w i) = Some (lib w, (tx_of w i)\<lparr>pc := W_lock (word_at (b + 4 * word_of P (passed l)))
        (set_field (junk i w) (half_at (b + 4 * word_of P (passed l))) c) (int_mask (half_at (b + 4 * word_of P (passed l))))\<rparr>)"
      using pc by (simp add: stm_code)
    note e = lib_step_moved [OF this]
    show ?thesis using 3 pc by (auto simp: count_body_def e rest_defs alone_def Let_def simp flip: r_def intro!: exI)
  next
    case 4
    have n: "nesting (tx_of w i) = 1" using ok pc 4 by (simp add: call_ok_def)
    obtain g x where e: "etl_step i Commit (lib w) (tx_of w i) = Some (g, x)" "clock g = clock (lib w)"
        "pc x = Idle \<or> pc x = C_clock \<and> start x = start (tx_of w i) \<and> tx_end x = tx_end (tx_of w i)"
      using pc n by (cases "w_set (tx_of w i) = []") (auto simp: stm_code committed_def)
    show ?thesis using 4 pc e(2,3) by (auto simp: count_body_def lib_step_moved [OF e(1)] rest_defs alone_def Let_def intro!: exI)
  qed
qed

subsection \<open>All threads come to rest\<close>

abbreviation thread_of :: "('g, 'l) fj_state \<Rightarrow> tid \<Rightarrow> 'l status" where
  "thread_of \<equiv> fj_state.status"

lemma fj_go:
  assumes "i < fj_threads P" "thread_of s i = Live l" "Go w l' \<in> set (body P i (world s) l)"
  shows "fj_step P s (after_act i s (Go w l'))"
  by (rule fj_thread_moves [OF assms(1)]) (use assms in \<open>force simp: fj_thread_def\<close>)

text \<open>Only thread \<open>i\<close> has moved.\<close>

definition only :: "tid \<Rightarrow> (stm_world, stm_count) fj_state \<Rightarrow> (stm_world, stm_count) fj_state \<Rightarrow> bool" where
  "only i s t \<longleftrightarrow> main_at t = main_at s \<and> (\<forall>j. j \<noteq> i \<longrightarrow> thread_of t j = thread_of s j \<and> tx_of (world t) j = tx_of (world s) j)"

definition call_of :: "stm_count status \<Rightarrow> call_pc" where
  "call_of s = (case s of Live l \<Rightarrow> call l | _ \<Rightarrow> PInit)"

abbreviation rest_left :: "tid \<Rightarrow> (stm_world, stm_count) fj_state \<Rightarrow> nat" where
  "rest_left i u \<equiv> (if resting (tx_of (world u) i) then 0 else Suc (to_rest (call_of (thread_of u i)) (tx_of (world u) i) (lib (world u))))"

abbreviation count_good :: "(tid \<Rightarrow> stm_world \<Rightarrow> stm_word) \<Rightarrow> shape \<Rightarrow> nat \<Rightarrow> nat \<Rightarrow> nat \<Rightarrow> nat \<Rightarrow> (stm_world, stm_count) fj_state \<Rightarrow> bool" where
  "count_good junk P b n lim expected \<equiv> fj_invariant.fj_good (count_prog junk P b n lim expected) (count_J P b n lim)"

lemma count_goodD:
  assumes shape: "\<And>k. word_of P k < words P" and b: "4 dvd b" and s: "count_good junk P b n lim expected s"
  shows "fj_main_ok (main_at s) n (thread_of s)" "main_at s \<noteq> MainDone \<Longrightarrow> count_J P b n lim (world s) (thread_of s)"
    "fj_step (count_prog junk P b n lim expected) s t \<Longrightarrow> count_good junk P b n lim expected t"
proof -
  note inv = count_invariant [OF shape b, of junk n lim expected]
  show "fj_main_ok (main_at s) n (thread_of s)" "main_at s \<noteq> MainDone \<Longrightarrow> count_J P b n lim (world s) (thread_of s)"
    using s by (auto simp: fj_invariant.fj_good_def [OF inv])
  show "fj_step (count_prog junk P b n lim expected) s t \<Longrightarrow> count_good junk P b n lim expected t"
    by (rule fj_invariant.fj_good_step [OF inv s])
qed

lemma settles:
  assumes shape: "\<And>k. word_of P k < words P" and b: "4 dvd b" and s: "count_good junk P b n lim expected s"
    and run: "main_at s \<noteq> MainDone" and i: "i < n" and room: "clock (lib (world s)) < VERSION_MAX"
  shows "\<exists>t. (fj_step (count_prog junk P b n lim expected))\<^sup>*\<^sup>* s t \<and> count_good junk P b n lim expected t \<and> only i s t \<and>
    resting (tx_of (world t) i) \<and> clock (lib (world t)) \<le> clock (lib (world s)) + 1"
proof -
  let ?P = "count_prog junk P b n lim expected"
  note good = count_goodD [OF shape b]
  define I where "I u \<longleftrightarrow> count_good junk P b n lim expected u \<and> only i s u \<and> (resting (tx_of (world u) i) \<or> (\<exists>l. thread_of u i = Live l)) \<and>
    clock (lib (world u)) + may_commit (tx_of (world u) i) \<le> clock (lib (world s)) + 1 \<and> pc (tx_of (world u) i) \<noteq> Rollover" for u
  have J: "count_J P b n lim (world s) (thread_of s)" using good(2) [OF s run] .
  then have st: "count_status P b lim (tx_of (world s) i) (thread_of s i)" using i by (simp add: count_J_def)
  have "wf (measure (rest_left i))" by simp
  moreover have "I s"
  proof -
    have "may_commit x \<le> 1" for x by (simp add: may_commit_def split: etl_pc.split)
    moreover have "pc (tx_of (world s) i) \<noteq> Rollover" using J room by (auto simp: count_J_def)
    moreover have "resting (tx_of (world s) i) \<or> (\<exists>l. thread_of s i = Live l)"
      using st by (auto simp: count_status_def resting_def int_stm_init_thread_def split: status.splits)
    ultimately show ?thesis using s by (simp add: I_def only_def)
  qed
  moreover have "\<exists>v. fj_step ?P u v \<and> I v \<and> (v, u) \<in> measure (rest_left i)"
    if u: "I u" and "\<not> (I u \<and> resting (tx_of (world u) i))" for u
  proof -
    have busy: "\<not> resting (tx_of (world u) i)" using that by blast
    obtain l where l: "thread_of u i = Live l" using u busy by (auto simp: I_def)
    have gu: "count_good junk P b n lim expected u" and "main_at u \<noteq> MainDone" using u run by (simp_all add: I_def only_def)
    then have "count_J P b n lim (world u) (thread_of u)" by (rule good(2))
    then have ok: "count_status P b lim (tx_of (world u) i) (Live l)" using i l by (auto simp: count_J_def)
    have "\<exists>g x l'. Go (moved i g x (world u)) l' \<in> set (count_body junk P b lim i (world u) l) \<and> pc x \<noteq> Rollover \<and>
        (resting x \<or> to_rest (call l') x g < to_rest (call l) (tx_of (world u) i) (lib (world u))) \<and>
        clock g + may_commit x \<le> clock (lib (world u)) + may_commit (tx_of (world u) i)"
    proof (cases "pc (tx_of (world u) i) = Active")
      case True
      show ?thesis using active_step [OF ok True, of junk] by blast
    next
      case False
      then obtain g x where e: "etl_step i Commit (lib (world u)) (tx_of (world u) i) = Some (g, x)" and x:
          "resting x \<or> to_rest (call l) x g < to_rest (call l) (tx_of (world u) i) (lib (world u))"
          "pc x \<noteq> Rollover" "clock g + may_commit x \<le> clock (lib (world u)) + may_commit (tx_of (world u) i)"
        using lib_rests [of _ _ _ "call l" "tx_of (world u) i", OF _ half_less busy False] ok u
        by (fastforce simp: count_status_def I_def)
      have "Go (moved i g x (world u)) l \<in> set (count_body junk P b lim i (world u) l)"
        using False busy by (simp add: count_body_def lib_step_moved [OF e] resting_def Let_def)
      then show ?thesis using x by blast
    qed
    then obtain g x l' where go: "Go (moved i g x (world u)) l' \<in> set (count_body junk P b lim i (world u) l)" and x: "pc x \<noteq> Rollover"
        "resting x \<or> to_rest (call l') x g < to_rest (call l) (tx_of (world u) i) (lib (world u))"
        "clock g + may_commit x \<le> clock (lib (world u)) + may_commit (tx_of (world u) i)" by blast
    let ?v = "after_act i u (Go (moved i g x (world u)) l')"
    have step: "fj_step ?P u ?v" using i l go by (intro fj_go) simp_all
    moreover have "I ?v" using u x good(3) [OF gu step] by (simp add: I_def only_def)
    moreover have "rest_left i ?v < rest_left i u" using x(2) l busy by (auto simp: call_of_def)
    ultimately show ?thesis by (intro exI [of _ ?v]) simp
  qed
  ultimately have "\<exists>t. (fj_step ?P)\<^sup>*\<^sup>* s t \<and> (I t \<and> resting (tx_of (world t) i))"
    by (rule run_reaches) blast
  then show ?thesis by (auto simp: I_def)
qed

lemma all_settle:
  assumes shape: "\<And>k. word_of P k < words P" and b: "4 dvd b" and s: "count_good junk P b n lim expected s"
    and run: "main_at s \<noteq> MainDone" and room: "clock (lib (world s)) + n \<le> VERSION_MAX"
  shows "\<exists>t. (fj_step (count_prog junk P b n lim expected))\<^sup>*\<^sup>* s t \<and> count_good junk P b n lim expected t \<and> main_at t = main_at s \<and>
    (\<forall>j. resting (tx_of (world t) j)) \<and> clock (lib (world t)) \<le> clock (lib (world s)) + n"
proof -
  let ?P = "count_prog junk P b n lim expected"
  have "\<exists>t. (fj_step ?P)\<^sup>*\<^sup>* s t \<and> count_good junk P b n lim expected t \<and> main_at t = main_at s \<and>
      (\<forall>j<k. resting (tx_of (world t) j)) \<and> clock (lib (world t)) \<le> clock (lib (world s)) + k" if "k \<le> n" for k
    using that
  proof (induction k)
    case 0
    show ?case using s by (intro exI [of _ s]) simp
  next
    case (Suc k)
    then obtain u where u: "(fj_step ?P)\<^sup>*\<^sup>* s u" "count_good junk P b n lim expected u" "main_at u = main_at s"
        "\<forall>j<k. resting (tx_of (world u) j)" "clock (lib (world u)) \<le> clock (lib (world s)) + k" by auto
    have "main_at u \<noteq> MainDone" "k < n" "clock (lib (world u)) < VERSION_MAX" using u(3,5) run room Suc.prems by simp_all
    then obtain t where t: "(fj_step ?P)\<^sup>*\<^sup>* u t" "count_good junk P b n lim expected t" "only k u t" "resting (tx_of (world t) k)"
        "clock (lib (world t)) \<le> clock (lib (world u)) + 1"
      using settles [OF shape b u(2)] by blast
    have "resting (tx_of (world t) j)" if "j < Suc k" for j
      using that t(3,4) u(4) by (cases "j = k") (auto simp: only_def)
    moreover have "(fj_step ?P)\<^sup>*\<^sup>* s t" using u(1) t(1) by (rule rtranclp_trans)
    ultimately show ?case using t(2,3,5) u(3,5) by (intro exI [of _ t]) (auto simp: only_def)
  qed
  then obtain t where t: "(fj_step ?P)\<^sup>*\<^sup>* s t" "count_good junk P b n lim expected t" "main_at t = main_at s"
      "\<forall>j<n. resting (tx_of (world t) j)" "clock (lib (world t)) \<le> clock (lib (world s)) + n" by blast
  have "count_J P b n lim (world t) (thread_of t)" using count_goodD(2) [OF shape b t(2)] t(3) run by simp
  then have "resting (tx_of (world t) j)" for j using t(4) by (cases "j < n") (auto simp: count_J_def resting_def)
  then show ?thesis using t by blast
qed

subsection \<open>A round that runs alone\<close>

lemma others_clear:
  assumes inv: "stm_inv g T" and rest: "\<And>j. j \<noteq> i \<Longrightarrow> resting (T j)"
  shows "clear i (T i) g"
  unfolding clear_def
proof (intro allI)
  fix L
  show "case locks g L of Version v \<Rightarrow> v \<le> clock g | Owned j k \<Rightarrow> j = i \<and> k < length (w_set (T i))"
  proof (cases "locks g L")
    case (Owned j k)
    then have o: "L \<in> held (T j)" "k < length (w_set (T j))" using owned_facts [OF inv] by (auto simp: owner_def)
    have "held (T j) = {}" if "j \<noteq> i" using rest [OF that] by (auto simp: resting_def held_def)
    then show ?thesis using o Owned by auto
  qed (use version_facts(5) [OF inv] in simp)
qed

lemma round_alone:
  assumes shape: "\<And>k. word_of P k < words P" and b: "4 dvd b" and s: "count_good junk P b n lim expected s"
    and run: "main_at s \<noteq> MainDone" and i: "i < n" and room: "clock (lib (world s)) < VERSION_MAX"
    and rest: "\<And>j. resting (tx_of (world s) j)" and pc: "pc (tx_of (world s) i) = Prepare" and l: "thread_of s i = Live l"
  shows "\<exists>t l'. (fj_step (count_prog junk P b n lim expected))\<^sup>*\<^sup>* s t \<and> count_good junk P b n lim expected t \<and> only i s t \<and>
    thread_of t i = Live l' \<and> passed l' = passed l \<and> call l' = PNext \<and> pc (tx_of (world t) i) = Idle \<and>
    clock (lib (world t)) \<le> clock (lib (world s)) + 1"
proof -
  let ?P = "count_prog junk P b n lim expected"
  note good = count_goodD [OF shape b]
  define I where "I u \<longleftrightarrow> count_good junk P b n lim expected u \<and> only i s u \<and>
    (\<exists>l'. thread_of u i = Live l' \<and> passed l' = passed l \<and> alone (call l') (tx_of (world u) i) (lib (world u))) \<and>
    clock (lib (world u)) + (if pc (tx_of (world u) i) = Prepare then 1 else may_commit (tx_of (world u) i)) \<le> clock (lib (world s)) + 1" for u
  let ?m = "\<lambda>u. to_rest (call_of (thread_of u i)) (tx_of (world u) i) (lib (world u))"
  have "count_J P b n lim (world s) (thread_of s)" using good(2) [OF s run] .
  then have "count_status P b lim (tx_of (world s) i) (Live l)" using i l by (auto simp: count_J_def)
  then have "alone (call l) (tx_of (world s) i) (lib (world s))" using pc by (auto simp: count_status_def call_ok_def alone_def)
  then have start: "I s" using s l pc by (simp add: I_def only_def)
  have dec: "\<exists>v. fj_step ?P u v \<and> I v \<and> (v, u) \<in> measure ?m" if "I u" "\<not> (I u \<and> pc (tx_of (world u) i) = Idle)" for u
  proof -
    let ?x = "tx_of (world u) i"
    have u: "I u" and busy: "pc ?x \<noteq> Idle" using that by blast+
    then obtain l where l': "thread_of u i = Live l" and al: "alone (call l) ?x (lib (world u))" by (auto simp: I_def)
    have gu: "count_good junk P b n lim expected u" and "main_at u \<noteq> MainDone" using u run by (simp_all add: I_def only_def)
    then have J: "count_J P b n lim (world u) (thread_of u)" by (rule good(2))
    then have ok: "count_status P b lim ?x (Live l)" using i l' by (auto simp: count_J_def)
    have "resting (tx_of (world u) j)" if "j \<noteq> i" for j using u rest [of j] that by (simp add: I_def only_def)
    then have cl: "clear i ?x (lib (world u))" using J by (intro others_clear) (auto simp: count_J_def)
    have room': "pc ?x = Prepare \<Longrightarrow> clock (lib (world u)) < VERSION_MAX" using u room by (auto simp: I_def)
    have "\<exists>g x l'. Go (moved i g x (world u)) l' \<in> set (count_body junk P b lim i (world u) l) \<and> passed l' = passed l \<and>
        to_rest (call l') x g < to_rest (call l) ?x (lib (world u)) \<and> alone (call l') x g \<and> pc x \<noteq> Prepare \<and>
        clock g + may_commit x \<le> clock (lib (world u)) + (if pc ?x = Prepare then 1 else may_commit ?x)"
    proof (cases "pc ?x = Active")
      case True
      show ?thesis using active_step [OF ok True, of junk] al True by auto
    next
      case False
      have ok': "call_ok (word_at (at_word P b l)) (half_at (at_word P b l)) (adds P (passed l)) (call l) ?x" using ok by (simp add: count_status_def)
      obtain g x where e: "etl_step i Commit (lib (world u)) ?x = Some (g, x)" and x:
          "alone (if pc ?x = Prepare then PLoad else call l) x g" "pc x \<noteq> Prepare"
          "to_rest (if pc ?x = Prepare then PLoad else call l) x g < to_rest (call l) ?x (lib (world u))"
          "clock g + may_commit x \<le> clock (lib (world u)) + (if pc ?x = Prepare then 1 else may_commit ?x)"
        using lib_alone [OF ok' half_less busy False al cl room'] by blast
      let ?l = "if pc ?x = Prepare then l\<lparr>call := PLoad\<rparr> else l"
      have "Go (moved i g x (world u)) ?l \<in> set (count_body junk P b lim i (world u) l)"
        using False busy by (simp add: count_body_def lib_step_moved [OF e] Let_def)
      then show ?thesis using x by (intro exI [of _ g] exI [of _ x] exI [of _ ?l]) (auto split: if_splits)
    qed
    then obtain g x l2 where go: "Go (moved i g x (world u)) l2 \<in> set (count_body junk P b lim i (world u) l)" and x: "passed l2 = passed l"
        "to_rest (call l2) x g < to_rest (call l) ?x (lib (world u))" "alone (call l2) x g" "pc x \<noteq> Prepare"
        "clock g + may_commit x \<le> clock (lib (world u)) + (if pc ?x = Prepare then 1 else may_commit ?x)" by blast
    let ?v = "after_act i u (Go (moved i g x (world u)) l2)"
    have step: "fj_step ?P u ?v" using i l' go by (intro fj_go) simp_all
    moreover have "I ?v" using u l' x good(3) [OF gu step] by (simp add: I_def only_def)
    moreover have "?m ?v < ?m u" using x(2) l' by (simp add: call_of_def)
    ultimately show ?thesis by (intro exI [of _ ?v]) simp
  qed
  have "\<exists>t. (fj_step ?P)\<^sup>*\<^sup>* s t \<and> (I t \<and> pc (tx_of (world t) i) = Idle)"
    by (rule run_reaches [where I = I, OF wf_measure start dec])
  then show ?thesis by (auto simp: I_def alone_def may_commit_def split: if_splits)
qed

subsection \<open>The end\<close>

text \<open>From a state where all threads rest \<open>main\<close> goes on, or one thread does to its next rest. A round takes one time from the clock.\<close>

definition rounds_left :: "nat \<Rightarrow> stm_tx \<Rightarrow> stm_count status \<Rightarrow> nat" where
  "rounds_left lim x s = (case s of Unborn \<Rightarrow> lim | Dead \<Rightarrow> 0
     | Live l \<Rightarrow> lim - passed l - (if call l = PNext \<and> pc x = Idle then 1 else 0))"

definition way_left :: "shape \<Rightarrow> nat \<Rightarrow> stm_tx \<Rightarrow> stm_count status \<Rightarrow> nat" where
  "way_left P lim x s = (case s of Unborn \<Rightarrow> 0 | Dead \<Rightarrow> 0
     | Live l \<Rightarrow> (case call l of PSum k v \<Rightarrow> words P - k + 1
         | q \<Rightarrow> words P + 2 + 10 * (lim - passed l) + (if pc x = Prepare then 3 else
             case q of PInit \<Rightarrow> 6 | PLoop \<Rightarrow> 5 | PStart \<Rightarrow> 4 | _ \<Rightarrow> 0)))"

lemma idle_step:
  assumes ok: "count_status P b lim (tx_of w i) (Live l)" and pc: "pc (tx_of w i) = Idle"
  shows "\<exists>y g x. y \<in> set (count_body junk P b lim i w l) \<and> lib (act_world y) = g \<and> tx_of (act_world y) = (tx_of w)(i := x) \<and>
    resting x \<and> clock g = clock (lib w) \<and> rounds_left lim x (act_status y) \<le> rounds_left lim (tx_of w i) (Live l) \<and>
    way_left P lim x (act_status y) < way_left P lim (tx_of w i) (Live l)"
proof -
  note defs = resting_def rounds_left_def way_left_def
  have c: "call_ok (word_at (at_word P b l)) (half_at (at_word P b l)) (adds P (passed l)) (call l) (tx_of w i)"
    using ok by (simp add: count_status_def)
  consider "call l = PInit" | "call l = PLoop" | "call l = PStart" | "call l = PNext" | k v where "call l = PSum k v"
    using c pc by (auto simp: call_ok_def)
  then show ?thesis
  proof cases
    case 1
    then show ?thesis using pc ok by (auto simp: count_body_def count_status_def defs int_stm_init_thread_def)
  next
    case 2
    then show ?thesis using pc ok by (auto simp: count_body_def count_status_def defs intro!: exI [of _ "tx_of w i"])
  next
    case 3
    have n: "nesting (tx_of w i) = 0" using c pc by (simp add: call_ok_def)
    obtain x where "etl_step i (Start TM_ATTR) (lib w) (tx_of w i) = Some (lib w, x)" "pc x = Prepare"
      using pc n by (simp add: stm_code)
    then show ?thesis using 3 pc ok
      by (auto simp: count_body_def count_status_def defs lib_step_moved intro!: exI [of _ x])
  next
    case 4
    then show ?thesis using pc ok by (auto simp: count_body_def count_status_def defs intro!: exI [of _ "tx_of w i"])
  next
    case (5 k v)
    then show ?thesis using pc ok by (auto simp: count_body_def count_status_def defs intro!: exI [of _ "tx_of w i"])
  qed
qed

definition total :: "(stm_tx \<Rightarrow> stm_count status \<Rightarrow> nat) \<Rightarrow> nat \<Rightarrow> (stm_world, stm_count) fj_state \<Rightarrow> nat" where
  "total f n s = (\<Sum>j<n. f (tx_of (world s) j) (thread_of s j))"

lemma total_only:
  assumes "only i s t" "i < n"
  shows "total f n t + f (tx_of (world s) i) (thread_of s i) = total f n s + f (tx_of (world t) i) (thread_of t i)"
proof -
  have "total f n t = (\<Sum>j<n. f (((tx_of (world s))(i := tx_of (world t) i)) j) (((thread_of s)(i := thread_of t i)) j))"
    unfolding total_def using assms(1) by (intro sum.cong) (auto simp: only_def)
  then show ?thesis using sum_two [OF assms(2), of f] by (simp add: total_def)
qed

lemma goes_home:
  assumes shape: "\<And>k. word_of P k < words P" and b: "4 dvd b" and u: "count_good junk P b n lim expected u"
    and run: "main_at u \<noteq> MainDone" and rest: "\<And>j. resting (tx_of (world u) j)"
    and room: "clock (lib (world u)) + total (rounds_left lim) n u \<le> VERSION_MAX"
  shows "\<exists>v. (fj_step (count_prog junk P b n lim expected))\<^sup>*\<^sup>* u v \<and> count_good junk P b n lim expected v \<and>
    (main_at v \<noteq> MainDone \<longrightarrow> (\<forall>j. resting (tx_of (world v) j)) \<and> clock (lib (world v)) + total (rounds_left lim) n v \<le> VERSION_MAX) \<and>
    (mpc_rank n (main_at v) < mpc_rank n (main_at u) \<or>
     mpc_rank n (main_at v) = mpc_rank n (main_at u) \<and> total (way_left P lim) n v < total (way_left P lim) n u)"
proof -
  let ?P = "count_prog junk P b n lim expected"
  note good = count_goodD [OF shape b]
  have main: "fj_main_ok (main_at u) n (thread_of u)" and J: "count_J P b n lim (world u) (thread_of u)"
    using good(1,2) [OF u] run by blast+
  show ?thesis
  proof (cases "fj_main ?P u")
    case (Cons v vs)
    then have "v \<in> set (fj_main ?P u)" by simp
    then have step: "fj_step ?P u v" by (rule fj_main_moves)
    have "mpc_rank n (main_at v) < mpc_rank n (main_at u) \<and> (main_at v \<noteq> MainDone \<longrightarrow> world v = world u \<and>
        total (rounds_left lim) n v = total (rounds_left lim) n u)"
      using \<open>v \<in> set _\<close> main
      by (cases rule: fj_main_cases) (auto simp: total_def rounds_left_def intro!: sum.cong)
    then show ?thesis using step rest room good(3) [OF u step] by (intro exI [of _ v]) auto
  next
    case Nil
    then obtain i where i: "main_at u = Join i" "i < n" "thread_of u i \<noteq> Dead"
      using run by (auto simp: fj_main_def split: mpc.splits if_splits status.splits)
    then obtain l where l: "thread_of u i = Live l" using main by (cases "thread_of u i") auto
    have ok: "count_status P b lim (tx_of (world u) i) (Live l)" using J i l by (auto simp: count_J_def)
    have sum: ?thesis if v: "(fj_step ?P)\<^sup>*\<^sup>* u v" "count_good junk P b n lim expected v" "only i u v" and rest': "resting (tx_of (world v) i)"
      and clock: "clock (lib (world v)) + rounds_left lim (tx_of (world v) i) (thread_of v i) \<le>
        clock (lib (world u)) + rounds_left lim (tx_of (world u) i) (thread_of u i)"
      and way: "way_left P lim (tx_of (world v) i) (thread_of v i) < way_left P lim (tx_of (world u) i) (thread_of u i)" for v
    proof -
      have "resting (tx_of (world v) j)" for j using v(3) rest [of j] rest' by (cases "j = i") (auto simp: only_def)
      moreover have "clock (lib (world v)) + total (rounds_left lim) n v \<le> VERSION_MAX"
        using total_only [OF v(3) i(2), of "rounds_left lim"] clock room by linarith
      moreover have "total (way_left P lim) n v < total (way_left P lim) n u"
        using total_only [OF v(3) i(2), of "way_left P lim"] way by linarith
      ultimately show ?thesis using v by (intro exI [of _ v]) (auto simp: only_def)
    qed
    show ?thesis
    proof (cases "pc (tx_of (world u) i) = Idle")
      case True
      obtain y g x where y: "y \<in> set (count_body junk P b lim i (world u) l)" "tx_of (act_world y) = (tx_of (world u))(i := x)"
          "resting x" "clock (lib (act_world y)) = clock (lib (world u))"
          "rounds_left lim x (act_status y) \<le> rounds_left lim (tx_of (world u) i) (Live l)"
          "way_left P lim x (act_status y) < way_left P lim (tx_of (world u) i) (Live l)"
        using idle_step [OF ok True, of junk] by blast
      have step: "fj_step ?P u (after_act i u y)"
        by (rule fj_thread_moves) (use i l y(1) in \<open>auto simp: fj_thread_def\<close>)
      then show ?thesis using y l good(3) [OF u step] by (intro sum [of "after_act i u y"]) (auto simp: only_def)
    next
      case False
      then have pc: "pc (tx_of (world u) i) = Prepare" using rest [of i] by (simp add: resting_def)
      have less: "passed l < lim" "\<forall>k v. call l \<noteq> PSum k v" using ok pc by (auto simp: count_status_def call_ok_def)
      then have one: "rounds_left lim (tx_of (world u) i) (thread_of u i) = lim - passed l"
        "way_left P lim (tx_of (world u) i) (thread_of u i) = words P + 5 + 10 * (lim - passed l)"
        using l pc by (auto simp: rounds_left_def way_left_def split: call_pc.splits)
      have "lim - passed l \<le> total (rounds_left lim) n u"
        unfolding one(1) [symmetric] total_def using i(2) by (intro member_le_sum) auto
      then have "clock (lib (world u)) < VERSION_MAX" using room less(1) by linarith
      from round_alone [OF shape b u run i(2) this rest pc l] obtain v l' where
        v: "(fj_step ?P)\<^sup>*\<^sup>* u v" "count_good junk P b n lim expected v" "only i u v" "thread_of v i = Live l'" "passed l' = passed l"
          "call l' = PNext" "pc (tx_of (world v) i) = Idle" "clock (lib (world v)) \<le> clock (lib (world u)) + 1" by blast
      show ?thesis
        by (rule sum [OF v(1-3)]) (use v(4-8) less(1) one in \<open>simp_all add: resting_def rounds_left_def way_left_def\<close>)
    qed
  qed
qed

lemma count_finishes:
  assumes shape: "\<And>k. word_of P k < words P" and b: "4 dvd b" and s: "fj_reach (count_prog junk P b n lim expected) s"
    and room: "clock (lib (world s)) + n * (lim + 1) \<le> VERSION_MAX"
  shows "\<exists>t. (fj_step (count_prog junk P b n lim expected))\<^sup>*\<^sup>* s t \<and> main_at t = MainDone"
proof (cases "main_at s = MainDone")
  case False
  let ?P = "count_prog junk P b n lim expected"
  define I where "I u \<longleftrightarrow> count_good junk P b n lim expected u \<and> (main_at u \<noteq> MainDone \<longrightarrow> (\<forall>j. resting (tx_of (world u) j)) \<and>
    clock (lib (world u)) + total (rounds_left lim) n u \<le> VERSION_MAX)" for u
  have "count_good junk P b n lim expected s" using fj_invariant.fj_good_reach [OF count_invariant [OF shape b] s] .
  then obtain u where u: "(fj_step ?P)\<^sup>*\<^sup>* s u" "count_good junk P b n lim expected u" "main_at u = main_at s"
      "\<forall>j. resting (tx_of (world u) j)" "clock (lib (world u)) \<le> clock (lib (world s)) + n"
    using all_settle [OF shape b _ False] room by fastforce
  have "rounds_left lim x st \<le> lim" for x st by (auto simp: rounds_left_def split: status.split)
  then have "total (rounds_left lim) n u \<le> (\<Sum>j<n. lim)" unfolding total_def by (intro sum_mono)
  then have start: "I u" using u room by (simp add: I_def)
  have dec: "\<exists>w. (fj_step ?P)\<^sup>*\<^sup>* v w \<and> I w \<and>
      (w, v) \<in> measures [\<lambda>s. mpc_rank n (main_at s), total (way_left P lim) n]" if "I v" "main_at v \<noteq> MainDone" for v
    using goes_home [OF shape b, of junk n lim expected v] that unfolding I_def by auto
  have "\<exists>t. ((fj_step ?P)\<^sup>*\<^sup>*)\<^sup>*\<^sup>* u t \<and> main_at t = MainDone"
    by (rule run_reaches [where I = I, OF wf_measures start dec])
  then show ?thesis using u(1) by (auto intro: rtranclp_trans)
qed blast

interpretation array_stm: fj_invariant "count_prog (\<lambda>_ _. 0) (an_array 1024) 4096 4 lim expected" "count_J (an_array 1024) 4096 4 lim"
  for lim expected
  by (rule count_invariant) (simp_all add: an_array_def)

subsection \<open>Properties\<close>

text \<open>The last line has the increments of all threads; and a state can finish where the clock has room for the rounds, and one attempt each, of all threads.\<close>

definition stm_prog_correct :: "(stm_world, stm_count) fj_prog \<Rightarrow> nat \<Rightarrow> nat \<Rightarrow> nat \<Rightarrow> bool" where
  "stm_prog_correct P lim count expected \<longleftrightarrow>
     (\<forall>s. fj_reach P s \<and> main_at s = MainDone \<longrightarrow>
        stm_lines (world s) \<noteq> [] \<and> last (stm_lines (world s)) = ValueMsg (of_nat count) expected) \<and>
     (\<forall>s. fj_reach P s \<and> clock (lib (world s)) + fj_threads P * (lim + 1) \<le> VERSION_MAX \<longrightarrow>
        (\<exists>t. (fj_step P)\<^sup>*\<^sup>* s t \<and> main_at t = MainDone))"

lemma count_correct:
  assumes "\<And>k. word_of P k < words P" "4 dvd b" "b + 4 * words P \<le> 2 ^ 64"
  shows "stm_prog_correct (count_prog junk P b n lim expected) lim (n * increments_of (adds P) lim) expected"
  unfolding stm_prog_correct_def count_prog_simps
  using count_prints [OF assms] count_finishes [OF assms(1,2)] by blast

lemma VERSION_MAX_value: "VERSION_MAX = 2 ^ 60 - 8193"
  by (simp add: VERSION_MAX_def LOCK_BITS_def OWNED_BITS_def INCARNATION_BITS_def MAX_THREADS_def mask_eq_exp_minus_1)

text \<open>C25: the three programs whose rounds are transactions of tinySTM, run on the code of the library (\<open>STM_ETL\<close>) with every access to memory,
  locks and clock a step, under every interleaving and every abort: when \<open>main\<close> has returned, its last line has every increment
  of every thread, in the 32 bits of an \<open>int\<close>, whatever \<open>stm_store_int\<close> has in the other half of the word it stores; and
  every reachable state can finish in which the clock has room for it: it is below \<open>VERSION_MAX\<close>, where the library would start its
  roll-over, which is not modelled, by the number of rounds of all threads and one more for each thread. The counter is an \<open>int\<close> at a multiple of 4, or an array of them that does not pass the end
  of the address space. \<open>rw_tinystm.c\<close> adds in the rounds \<open>0\<close>, \<open>10\<close>, \<open>20\<close>, ... of each thread.\<close>

theorem stm_programs_correct:
  assumes "4 dvd b" "0 < len" "b + 4 * len \<le> 2 ^ 64"
  shows "stm_prog_correct (mutex_stm_prog junk b n m) (m div n) (n * (m div n)) m \<and>
    stm_prog_correct (rw_stm_prog junk b n m) (m div n) (n * ((m div n + 9) div 10)) (m div 10) \<and>
    stm_prog_correct (array_stm_prog junk b len n m) (m div n) (n * (m div n)) m"
proof -
  have "b + 4 \<le> 2 ^ 64" using assms(2,3) by linarith
  then show ?thesis
    using count_correct [of "one_word (\<lambda>_. True)" b junk n "m div n" m]
      count_correct [of "one_word (\<lambda>k. k mod 10 = 0)" b junk n "m div n" "m div 10"] count_correct [of "an_array len" b junk n "m div n" m] assms
    by (simp add: mutex_stm_prog_def rw_stm_prog_def array_stm_prog_def one_word_def an_array_def increments_all increments_tenth)
qed

text \<open>At a concrete place all three can finish from the start.\<close>

theorem stm_programs_correct_witness:
  "(4 :: nat) dvd 4096 \<and> (0 :: nat) < 1024 \<and> (4096 :: nat) + 4 * 1024 \<le> 2 ^ 64 \<and>
    (\<exists>t. fj_reach (mutex_stm_prog (\<lambda>_ _. 0) 4096 4 10000000) t \<and> main_at t = MainDone \<and>
      last (stm_lines (world t)) = ValueMsg 10000000 10000000) \<and>
    (\<exists>t. fj_reach (rw_stm_prog (\<lambda>_ _. 0) 4096 4 10000000) t \<and> main_at t = MainDone \<and>
      last (stm_lines (world t)) = ValueMsg 1000000 1000000) \<and>
    (\<exists>t. fj_reach (array_stm_prog (\<lambda>_ _. 0) 4096 1024 4 10000000) t \<and> main_at t = MainDone \<and>
      last (stm_lines (world t)) = ValueMsg 10000000 10000000)"
proof -
  have ends: "\<exists>t. fj_reach P t \<and> main_at t = MainDone \<and> last (stm_lines (world t)) = ValueMsg (of_nat count) expected"
    if "stm_prog_correct P 2500000 count expected" "fj_threads P = 4" "clock (lib (world0 P)) = 0" for P count expected
  proof -
    have "clock (lib (world (fj_init P))) + fj_threads P * (2500000 + 1) \<le> VERSION_MAX"
      using that(2,3) by (simp add: fj_init_def VERSION_MAX_value)
    then show ?thesis using that(1) unfolding stm_prog_correct_def by blast
  qed
  have "fj_threads (mutex_stm_prog junk b n m) = n" "fj_threads (rw_stm_prog junk b n m) = n" "fj_threads (array_stm_prog junk b len n m) = n"
    "clock (lib (world0 (mutex_stm_prog junk b n m))) = 0" "clock (lib (world0 (rw_stm_prog junk b n m))) = 0"
    "clock (lib (world0 (array_stm_prog junk b len n m))) = 0" for junk b len n m
    by (simp_all add: mutex_stm_prog_def rw_stm_prog_def array_stm_prog_def stm_init_def)
  note simps = this
  note correct = stm_programs_correct [of 4096 1024 "\<lambda>_ _. 0" 4 10000000, simplified]
  show ?thesis
    using ends [OF correct [THEN conjunct1]] ends [OF correct [THEN conjunct2, THEN conjunct1]]
      ends [OF correct [THEN conjunct2, THEN conjunct2]] by (simp add: simps)
qed

end
