(* ===== verification/Blocks.thy ===== *)
theory Blocks
  imports Prelude
begin

section \<open>Blocks of memory from malloc\<close>

text \<open>
  What the modules of tinySTM use of \<open>malloc\<close> and \<open>free\<close>, through \<open>xmalloc\<close> and \<open>xfree\<close> of
  \<open>transactional/tinySTM/src/utils.h\<close>: a heap maps the addresses of the blocks in use to what is
  to be known of them. \<open>xmalloc\<close> is a parameter that picks an address; it exits when there is no
  memory, so it never returns null. Freeing null does nothing; freeing an address that
  is not that of a block in use is an error.
\<close>

definition fresh_blocks :: "((nat \<Rightarrow> 'b option) \<Rightarrow> nat) \<Rightarrow> bool" where
  "fresh_blocks xmalloc \<longleftrightarrow> (\<forall>H. finite (dom H) \<longrightarrow> xmalloc H \<noteq> 0 \<and> xmalloc H \<notin> dom H)"

definition xfree :: "(nat \<Rightarrow> 'b option) \<Rightarrow> nat \<Rightarrow> (nat \<Rightarrow> 'b option) option" where
  "xfree H v = (if v = 0 then Some H else if H v = None then None else Some (H(v := None)))"

lemma xfree_block: "v \<noteq> 0 \<Longrightarrow> v \<in> dom H \<Longrightarrow> xfree H v = Some (H |` (- {v}))"
  by (auto simp: xfree_def restrict_map_def fun_eq_iff)

lemma fresh_blocksD: "fresh_blocks xmalloc \<Longrightarrow> finite (dom H) \<Longrightarrow> xmalloc H \<noteq> 0 \<and> xmalloc H \<notin> dom H"
  by (simp add: fresh_blocks_def)

text \<open>A heap in which some blocks have been freed.\<close>

lemma restrict_UNIV [simp]: "H |` UNIV = H"
  by (auto simp: restrict_map_def)

text \<open>One such \<open>xmalloc\<close> takes the first free address.\<close>

definition first_free :: "(nat \<Rightarrow> 'b option) \<Rightarrow> nat" where
  "first_free H = (LEAST v. v \<notin> insert 0 (dom H))"

lemma first_free_fresh: "fresh_blocks first_free"
proof -
  have "first_free H \<notin> insert 0 (dom H)" if "finite (dom H)" for H :: "nat \<Rightarrow> 'b option"
    unfolding first_free_def using ex_new_if_finite [OF infinite_UNIV_nat, of "insert 0 (dom H)"] that
    by (metis (mono_tags, lifting) LeastI_ex finite_insert)
  then show ?thesis by (auto simp: fresh_blocks_def)
qed

end
