(* ===== verification/STM_Log.thy ===== *)
theory STM_Log
  imports STM_Wrappers Blocks
begin

section \<open>The undo log of tinySTM\<close>

text \<open>
  \<open>transactional/tinySTM/src/mod_log.c\<close>: before a transaction writes to memory directly it asks the
  module to note what is there; when the transaction aborts, the module writes the noted values
  back, the last first. The functions \<open>stm_log_*\<close> differ in the type of the location.

  The state is that of one thread: the memory as bytes (little endian, as in \<open>STM_Wrappers\<close>), the
  blocks the module has from \<open>xmalloc\<close> by their addresses, and the write set the thread keeps under
  the module's key. The array of entries has all its \<open>size\<close> slots, of which the first \<open>nb_entries\<close> count;
  what \<open>xrealloc\<close> leaves in new ones is a parameter, as are the addresses \<open>xmalloc\<close> returns and the signedness
  of \<open>char\<close>. \<open>None\<close> is an exit, an abort, a failed \<open>assert\<close>, an integer overflow or a bad \<open>free\<close>.
  A \<open>float\<close> or a \<open>double\<close> is its bit pattern.
\<close>

text \<open>\<open>mod_log_w_entry_t\<close>: the type, the address and the old value, each at the width of its
  field; those of \<open>u8\<close>, \<open>u16\<close>, \<open>u32\<close> and \<open>u64\<close> are all \<open>char\<close>.\<close>

datatype 'a log_entry =
    TYPE_WORD nat 'a | TYPE_U8 nat u8 | TYPE_U16 nat u8 | TYPE_U32 nat u8 | TYPE_U64 nat u8
  | TYPE_CHAR nat u8 | TYPE_UCHAR nat u8 | TYPE_SHORT nat u16 | TYPE_USHORT nat u16 | TYPE_INT nat u32 | TYPE_UINT nat u32
  | TYPE_LONG nat 'a | TYPE_ULONG nat 'a | TYPE_FLOAT nat u32 | TYPE_DOUBLE nat u64 | TYPE_PTR nat 'a
  | TYPE_BYTES nat nat nat

record 'a mod_log_w_set =
  log_entries :: "'a log_entry list"
  nb_entries :: nat
  log_size :: nat
  allocated :: int

type_synonym log_heap = "nat \<Rightarrow> u8 list option"

record 'a log_state =
  bytes :: "nat \<Rightarrow> u8"
  blocks :: log_heap
  write_set :: "'a mod_log_w_set option"
  mod_log_initialized :: bool

text \<open>\<open>*a\<close> and \<open>*a = v\<close> for a location of any width, and the conversions from and to \<open>char\<close>.\<close>

definition peek :: "(nat \<Rightarrow> u8) \<Rightarrow> nat \<Rightarrow> 'v::len word" where
  "peek f a = of_bytes (segment f a (bytes_in TYPE('v word)))"

definition poke :: "(nat \<Rightarrow> u8) \<Rightarrow> nat \<Rightarrow> 'v::len word \<Rightarrow> nat \<Rightarrow> u8" where
  "poke f a v = overwrite f a (to_bytes v)"

definition to_char :: "'v::len word \<Rightarrow> u8" where
  "to_char v = ucast v"

definition from_char :: "bool \<Rightarrow> u8 \<Rightarrow> 'v::len word" where
  "from_char char_signed c = (if char_signed then scast c else ucast c)"

definition LW_SET_SIZE :: nat where
  "LW_SET_SIZE = 1024"

text \<open>\<open>get_entry\<close>, with the store into the slot it returns. \<open>size * 2\<close> is an \<open>int\<close>.\<close>

definition new_size :: "nat \<Rightarrow> nat" where
  "new_size n = (if n < LW_SET_SIZE then LW_SET_SIZE else n * 2)"

definition get_entry :: "(nat \<Rightarrow> ('w::len word) log_entry) \<Rightarrow> 'w word log_state \<Rightarrow> 'w word log_entry \<Rightarrow> 'w word log_state option" where
  "get_entry junk s e = (case write_set s of None \<Rightarrow> None | Some ws \<Rightarrow>
     if \<not> mod_log_initialized s then None
     else let full = nb_entries ws = log_size ws; n = (if full then new_size (log_size ws) else log_size ws) in
       if 2 ^ 31 \<le> n then None
       else let es = (if full then log_entries ws @ map junk [log_size ws..<n] else log_entries ws) in
         Some (s\<lparr>write_set := Some (ws\<lparr>log_entries := es[nb_entries ws := e], nb_entries := nb_entries ws + 1,
           log_size := n\<rparr>)\<rparr>))"

text \<open>\<open>stm_log\<close> and the functions for the other types.\<close>

fun stm_log :: "(nat \<Rightarrow> ('w::len word) log_entry) \<Rightarrow> 'w word log_state \<Rightarrow> nat \<Rightarrow> 'w word log_state option" where
  "stm_log junk s addr = get_entry junk s (TYPE_WORD addr (peek (bytes s) addr))"

fun stm_log_u8 :: "(nat \<Rightarrow> ('w::len word) log_entry) \<Rightarrow> 'w word log_state \<Rightarrow> nat \<Rightarrow> 'w word log_state option" where
  "stm_log_u8 junk s addr = get_entry junk s (TYPE_U8 addr (to_char (peek (bytes s) addr :: u8)))"

fun stm_log_u16 :: "(nat \<Rightarrow> ('w::len word) log_entry) \<Rightarrow> 'w word log_state \<Rightarrow> nat \<Rightarrow> 'w word log_state option" where
  "stm_log_u16 junk s addr = get_entry junk s (TYPE_U16 addr (to_char (peek (bytes s) addr :: u16)))"

fun stm_log_u32 :: "(nat \<Rightarrow> ('w::len word) log_entry) \<Rightarrow> 'w word log_state \<Rightarrow> nat \<Rightarrow> 'w word log_state option" where
  "stm_log_u32 junk s addr = get_entry junk s (TYPE_U32 addr (to_char (peek (bytes s) addr :: u32)))"

fun stm_log_u64 :: "(nat \<Rightarrow> ('w::len word) log_entry) \<Rightarrow> 'w word log_state \<Rightarrow> nat \<Rightarrow> 'w word log_state option" where
  "stm_log_u64 junk s addr = get_entry junk s (TYPE_U64 addr (to_char (peek (bytes s) addr :: u64)))"

fun stm_log_char :: "(nat \<Rightarrow> ('w::len word) log_entry) \<Rightarrow> 'w word log_state \<Rightarrow> nat \<Rightarrow> 'w word log_state option" where
  "stm_log_char junk s addr = get_entry junk s (TYPE_CHAR addr (peek (bytes s) addr))"

fun stm_log_uchar :: "(nat \<Rightarrow> ('w::len word) log_entry) \<Rightarrow> 'w word log_state \<Rightarrow> nat \<Rightarrow> 'w word log_state option" where
  "stm_log_uchar junk s addr = get_entry junk s (TYPE_UCHAR addr (peek (bytes s) addr))"

fun stm_log_short :: "(nat \<Rightarrow> ('w::len word) log_entry) \<Rightarrow> 'w word log_state \<Rightarrow> nat \<Rightarrow> 'w word log_state option" where
  "stm_log_short junk s addr = get_entry junk s (TYPE_SHORT addr (peek (bytes s) addr))"

fun stm_log_ushort :: "(nat \<Rightarrow> ('w::len word) log_entry) \<Rightarrow> 'w word log_state \<Rightarrow> nat \<Rightarrow> 'w word log_state option" where
  "stm_log_ushort junk s addr = get_entry junk s (TYPE_USHORT addr (peek (bytes s) addr))"

fun stm_log_int :: "(nat \<Rightarrow> ('w::len word) log_entry) \<Rightarrow> 'w word log_state \<Rightarrow> nat \<Rightarrow> 'w word log_state option" where
  "stm_log_int junk s addr = get_entry junk s (TYPE_INT addr (peek (bytes s) addr))"

fun stm_log_uint :: "(nat \<Rightarrow> ('w::len word) log_entry) \<Rightarrow> 'w word log_state \<Rightarrow> nat \<Rightarrow> 'w word log_state option" where
  "stm_log_uint junk s addr = get_entry junk s (TYPE_UINT addr (peek (bytes s) addr))"

fun stm_log_long :: "(nat \<Rightarrow> ('w::len word) log_entry) \<Rightarrow> 'w word log_state \<Rightarrow> nat \<Rightarrow> 'w word log_state option" where
  "stm_log_long junk s addr = get_entry junk s (TYPE_LONG addr (peek (bytes s) addr))"

fun stm_log_ulong :: "(nat \<Rightarrow> ('w::len word) log_entry) \<Rightarrow> 'w word log_state \<Rightarrow> nat \<Rightarrow> 'w word log_state option" where
  "stm_log_ulong junk s addr = get_entry junk s (TYPE_ULONG addr (peek (bytes s) addr))"

fun stm_log_float :: "(nat \<Rightarrow> ('w::len word) log_entry) \<Rightarrow> 'w word log_state \<Rightarrow> nat \<Rightarrow> 'w word log_state option" where
  "stm_log_float junk s addr = get_entry junk s (TYPE_FLOAT addr (peek (bytes s) addr))"

fun stm_log_double :: "(nat \<Rightarrow> ('w::len word) log_entry) \<Rightarrow> 'w word log_state \<Rightarrow> nat \<Rightarrow> 'w word log_state option" where
  "stm_log_double junk s addr = get_entry junk s (TYPE_DOUBLE addr (peek (bytes s) addr))"

fun stm_log_ptr :: "(nat \<Rightarrow> ('w::len word) log_entry) \<Rightarrow> 'w word log_state \<Rightarrow> nat \<Rightarrow> 'w word log_state option" where
  "stm_log_ptr junk s addr = get_entry junk s (TYPE_PTR addr (peek (bytes s) addr))"

text \<open>\<open>stm_log_bytes\<close>: the old bytes go into a block of their own, and \<open>allocated\<close> counts the blocks.\<close>

fun stm_log_bytes :: "(log_heap \<Rightarrow> nat) \<Rightarrow> (nat \<Rightarrow> ('w::len word) log_entry) \<Rightarrow> 'w word log_state \<Rightarrow> nat \<Rightarrow> nat \<Rightarrow> 'w word log_state option" where
  "stm_log_bytes xmalloc junk s addr n = (let v = xmalloc (blocks s) in
     case get_entry junk s (TYPE_BYTES addr v n) of None \<Rightarrow> None | Some s' \<Rightarrow>
       Some (s'\<lparr>blocks := (blocks s)(v \<mapsto> segment (bytes s) addr n),
         write_set := map_option (\<lambda>ws. ws\<lparr>allocated := allocated ws + 1\<rparr>) (write_set s')\<rparr>))"

text \<open>\<open>mod_log_on_thread_init\<close>, \<open>mod_log_on_thread_exit\<close> and \<open>mod_log_init\<close>, which registers the
  module; whether that works, and the key, are the library's.\<close>

definition mod_log_on_thread_init :: "'a log_state \<Rightarrow> 'a log_state" where
  "mod_log_on_thread_init s = s\<lparr>write_set := Some \<lparr>log_entries = [], nb_entries = 0, log_size = 0, allocated = 0\<rparr>\<rparr>"

definition mod_log_on_thread_exit :: "'a log_state \<Rightarrow> 'a log_state option" where
  "mod_log_on_thread_exit s = (case write_set s of None \<Rightarrow> None | Some ws \<Rightarrow> Some (s\<lparr>write_set := None\<rparr>))"

definition mod_log_init :: "bool \<Rightarrow> int \<Rightarrow> 'a log_state \<Rightarrow> 'a log_state option" where
  "mod_log_init registered key s = (if mod_log_initialized s then Some s else if \<not> registered then None
     else if key < 0 then None else Some (s\<lparr>mod_log_initialized := True\<rparr>))"

text \<open>The loop of \<open>mod_log_on_commit\<close>, over the entries from the first on.\<close>

fun free_copies :: "'a log_entry list \<Rightarrow> log_heap \<Rightarrow> int \<Rightarrow> (log_heap \<times> int) option" where
  "free_copies [] H k = None"
| "free_copies (w # ws) H k = (case (case w of TYPE_BYTES a v n \<Rightarrow> map_option (\<lambda>H'. (H', k - 1)) (xfree H v) | _ \<Rightarrow> Some (H, k)) of
     None \<Rightarrow> None | Some (H', k') \<Rightarrow> if 0 < k' then free_copies ws H' k' else Some (H', k'))"

definition mod_log_on_commit :: "'a log_state \<Rightarrow> 'a log_state option" where
  "mod_log_on_commit s = (case write_set s of None \<Rightarrow> None | Some ws \<Rightarrow>
     case (if 0 < allocated ws then free_copies (take (nb_entries ws) (log_entries ws)) (blocks s) (allocated ws)
       else Some (blocks s, allocated ws)) of
       None \<Rightarrow> None
     | Some (H, k) \<Rightarrow> Some (s\<lparr>blocks := H, write_set := Some (ws\<lparr>nb_entries := 0, allocated := k\<rparr>)\<rparr>))"

text \<open>\<open>mod_log_on_abort\<close>: one entry, and the loop over the entries from the last on.\<close>

fun undo_entry :: "bool \<Rightarrow> ('w::len word) log_entry \<Rightarrow> (nat \<Rightarrow> u8) \<times> log_heap \<times> int \<Rightarrow> ((nat \<Rightarrow> u8) \<times> log_heap \<times> int) option" where
  "undo_entry cs (TYPE_WORD a v) (f, r) = Some (poke f a v, r)"
| "undo_entry cs (TYPE_U8 a v) (f, r) = Some (poke f a (from_char cs v :: u8), r)"
| "undo_entry cs (TYPE_U16 a v) (f, r) = Some (poke f a (from_char cs v :: u16), r)"
| "undo_entry cs (TYPE_U32 a v) (f, r) = Some (poke f a (from_char cs v :: u32), r)"
| "undo_entry cs (TYPE_U64 a v) (f, r) = Some (poke f a (from_char cs v :: u64), r)"
| "undo_entry cs (TYPE_CHAR a v) (f, r) = Some (poke f a v, r)"
| "undo_entry cs (TYPE_UCHAR a v) (f, r) = Some (poke f a v, r)"
| "undo_entry cs (TYPE_SHORT a v) (f, r) = Some (poke f a v, r)"
| "undo_entry cs (TYPE_USHORT a v) (f, r) = Some (poke f a v, r)"
| "undo_entry cs (TYPE_INT a v) (f, r) = Some (poke f a v, r)"
| "undo_entry cs (TYPE_UINT a v) (f, r) = Some (poke f a v, r)"
| "undo_entry cs (TYPE_LONG a v) (f, r) = Some (poke f a v, r)"
| "undo_entry cs (TYPE_ULONG a v) (f, r) = Some (poke f a v, r)"
| "undo_entry cs (TYPE_FLOAT a v) (f, r) = Some (poke f a v, r)"
| "undo_entry cs (TYPE_DOUBLE a v) (f, r) = Some (poke f a v, r)"
| "undo_entry cs (TYPE_PTR a v) (f, r) = Some (poke f a v, r)"
| "undo_entry cs (TYPE_BYTES a v n) (f, H, k) = (case H v of None \<Rightarrow> None | Some bs \<Rightarrow>
     if length bs < n then None else map_option (\<lambda>H'. (overwrite f a (take n bs), H', k - 1)) (xfree H v))"

fun undo :: "bool \<Rightarrow> ('w::len word) log_entry list \<Rightarrow> (nat \<Rightarrow> u8) \<times> log_heap \<times> int \<Rightarrow> ((nat \<Rightarrow> u8) \<times> log_heap \<times> int) option" where
  "undo cs [] r = Some r"
| "undo cs (w # ws) r = (case undo cs ws r of None \<Rightarrow> None | Some r' \<Rightarrow> undo_entry cs w r')"

definition mod_log_on_abort :: "bool \<Rightarrow> ('w::len word) log_state \<Rightarrow> 'w word log_state option" where
  "mod_log_on_abort cs s = (case write_set s of None \<Rightarrow> None | Some ws \<Rightarrow>
     case (if 0 < nb_entries ws then undo cs (take (nb_entries ws) (log_entries ws)) (bytes s, blocks s, allocated ws)
       else Some (bytes s, blocks s, allocated ws)) of
       None \<Rightarrow> None
     | Some (f, H, k) \<Rightarrow> if k \<noteq> 0 then None else
         Some (s\<lparr>bytes := f, blocks := H, write_set := Some (ws\<lparr>nb_entries := 0, allocated := k\<rparr>)\<rparr>))"

subsection \<open>A transaction that logs before it writes\<close>

datatype log_type = L_word | L_u8 | L_u16 | L_u32 | L_u64 | L_char | L_uchar | L_short | L_ushort | L_int | L_uint | L_long | L_ulong | L_float | L_double | L_ptr

datatype access = Log log_type nat | Log_bytes nat nat | Store nat "u8 list"

fun log_size_of :: "nat \<Rightarrow> log_type \<Rightarrow> nat" where
  "log_size_of wb t = (case t of L_u8 \<Rightarrow> 1 | L_char \<Rightarrow> 1 | L_uchar \<Rightarrow> 1 | L_u16 \<Rightarrow> 2 | L_short \<Rightarrow> 2 | L_ushort \<Rightarrow> 2
     | L_u32 \<Rightarrow> 4 | L_int \<Rightarrow> 4 | L_uint \<Rightarrow> 4 | L_float \<Rightarrow> 4 | L_u64 \<Rightarrow> 8 | L_double \<Rightarrow> 8 | _ \<Rightarrow> wb)"

fun log_call :: "log_type \<Rightarrow> (nat \<Rightarrow> ('w::len word) log_entry) \<Rightarrow> 'w word log_state \<Rightarrow> nat \<Rightarrow> 'w word log_state option" where
  "log_call t = (case t of L_word \<Rightarrow> stm_log | L_u8 \<Rightarrow> stm_log_u8 | L_u16 \<Rightarrow> stm_log_u16 | L_u32 \<Rightarrow> stm_log_u32 | L_u64 \<Rightarrow> stm_log_u64
     | L_char \<Rightarrow> stm_log_char | L_uchar \<Rightarrow> stm_log_uchar | L_short \<Rightarrow> stm_log_short | L_ushort \<Rightarrow> stm_log_ushort
     | L_int \<Rightarrow> stm_log_int | L_uint \<Rightarrow> stm_log_uint | L_long \<Rightarrow> stm_log_long | L_ulong \<Rightarrow> stm_log_ulong
     | L_float \<Rightarrow> stm_log_float | L_double \<Rightarrow> stm_log_double | L_ptr \<Rightarrow> stm_log_ptr)"

fun access_step :: "(log_heap \<Rightarrow> nat) \<Rightarrow> (nat \<Rightarrow> ('w::len word) log_entry) \<Rightarrow> access \<Rightarrow> 'w word log_state \<Rightarrow> 'w word log_state option" where
  "access_step xmalloc junk (Log t a) s = log_call t junk s a"
| "access_step xmalloc junk (Log_bytes a n) s = stm_log_bytes xmalloc junk s a n"
| "access_step xmalloc junk (Store a bs) s = Some (s\<lparr>bytes := overwrite (bytes s) a bs\<rparr>)"

fun accesses :: "(log_heap \<Rightarrow> nat) \<Rightarrow> (nat \<Rightarrow> ('w::len word) log_entry) \<Rightarrow> access list \<Rightarrow> 'w word log_state \<Rightarrow> 'w word log_state option" where
  "accesses xmalloc junk [] s = Some s"
| "accesses xmalloc junk (x # xs) s = (case access_step xmalloc junk x s of None \<Rightarrow> None | Some s' \<Rightarrow> accesses xmalloc junk xs s')"

text \<open>Every byte is logged before it is written, with a type whose entry holds the whole value.\<close>

fun logged_first :: "nat \<Rightarrow> nat set \<Rightarrow> access list \<Rightarrow> bool" where
  "logged_first wb A [] = True"
| "logged_first wb A (Log t a # xs) = logged_first wb (A \<union> {a..<a + log_size_of wb t}) xs"
| "logged_first wb A (Log_bytes a n # xs) = logged_first wb (A \<union> {a..<a + n}) xs"
| "logged_first wb A (Store a bs # xs) = ({a..<a + length bs} \<subseteq> A \<and> logged_first wb A xs)"

definition narrow :: "access \<Rightarrow> bool" where
  "narrow x = (case x of Log t a \<Rightarrow> t \<in> {L_u16, L_u32, L_u64} | _ \<Rightarrow> False)"

subsection \<open>What the log holds\<close>

text \<open>What undoing an entry writes, and where.\<close>

fun region :: "bool \<Rightarrow> log_heap \<Rightarrow> ('w::len word) log_entry \<Rightarrow> nat \<times> u8 list" where
  "region cs H (TYPE_WORD a v) = (a, to_bytes v)"
| "region cs H (TYPE_U8 a v) = (a, to_bytes (from_char cs v :: u8))"
| "region cs H (TYPE_U16 a v) = (a, to_bytes (from_char cs v :: u16))"
| "region cs H (TYPE_U32 a v) = (a, to_bytes (from_char cs v :: u32))"
| "region cs H (TYPE_U64 a v) = (a, to_bytes (from_char cs v :: u64))"
| "region cs H (TYPE_CHAR a v) = (a, to_bytes v)"
| "region cs H (TYPE_UCHAR a v) = (a, to_bytes v)"
| "region cs H (TYPE_SHORT a v) = (a, to_bytes v)"
| "region cs H (TYPE_USHORT a v) = (a, to_bytes v)"
| "region cs H (TYPE_INT a v) = (a, to_bytes v)"
| "region cs H (TYPE_UINT a v) = (a, to_bytes v)"
| "region cs H (TYPE_LONG a v) = (a, to_bytes v)"
| "region cs H (TYPE_ULONG a v) = (a, to_bytes v)"
| "region cs H (TYPE_FLOAT a v) = (a, to_bytes v)"
| "region cs H (TYPE_DOUBLE a v) = (a, to_bytes v)"
| "region cs H (TYPE_PTR a v) = (a, to_bytes v)"
| "region cs H (TYPE_BYTES a v n) = (a, take n (the (H v)))"

definition restore :: "(nat \<times> u8 list) list \<Rightarrow> (nat \<Rightarrow> u8) \<Rightarrow> nat \<Rightarrow> u8" where
  "restore rs f = foldr (\<lambda>(a, bs) f. overwrite f a bs) rs f"

fun copy_of :: "'a log_entry \<Rightarrow> nat list" where
  "copy_of (TYPE_BYTES a v n) = [v]"
| "copy_of w = []"

abbreviation copies :: "'a log_entry list \<Rightarrow> nat list" where
  "copies L \<equiv> concat (map copy_of L)"

fun copy_in :: "log_heap \<Rightarrow> 'a log_entry \<Rightarrow> bool" where
  "copy_in H (TYPE_BYTES a v n) \<longleftrightarrow> v \<noteq> 0 \<and> (\<exists>bs. H v = Some bs \<and> length bs = n)"
| "copy_in H w \<longleftrightarrow> True"

abbreviation copies_in :: "log_heap \<Rightarrow> 'a log_entry list \<Rightarrow> bool" where
  "copies_in H L \<equiv> \<forall>w\<in>set L. copy_in H w"

lemma copy_in_upd: "v \<notin> set (copy_of w) \<Longrightarrow> copy_in (H(v := x)) w \<longleftrightarrow> copy_in H w"
  by (cases w) auto

lemma copies_in_upd: "v \<notin> set (copies L) \<Longrightarrow> copies_in (H(v := x)) L \<longleftrightarrow> copies_in H L"
  using copy_in_upd by fastforce

lemma region_upd: "v \<notin> set (copy_of w) \<Longrightarrow> region cs (H(v := x)) w = region cs H w"
  by (cases w) auto

lemma restore_simps: "restore [] f = f" "restore (r # rs) f = overwrite (restore rs f) (fst r) (snd r)"
  "restore (rs @ rs') f = restore rs (restore rs' f)"
  by (auto simp: restore_def split: prod.split)

lemma undo_entry_region:
  assumes "copy_in H w"
  shows "undo_entry cs w (f, H, k) =
    Some (overwrite f (fst (region cs H w)) (snd (region cs H w)), H |` (- set (copy_of w)), k - int (length (copy_of w)))"
proof (cases w)
  case (TYPE_BYTES a v n)
  then show ?thesis using assms by (auto simp: xfree_def restrict_complement_singleton_eq)
qed (simp_all add: poke_def)

lemma undo_is_restore:
  assumes "copies_in H L" "distinct (copies L)"
  shows "undo cs L (f, H, k) = Some (restore (map (region cs H) L) f, H |` (- set (copies L)), k - int (length (copies L)))"
  using assms
proof (induction L)
  case Nil
  then show ?case by (simp add: restore_simps)
next
  case (Cons w L)
  let ?H = "H |` (- set (copies L))"
  have apart: "v \<notin> set (copies L)" if "v \<in> set (copy_of w)" for v using Cons.prems(2) that by auto
  have same: "copy_in ?H w" "region cs ?H w = region cs H w"
    using Cons.prems(1) apart by (cases w; auto)+
  show ?case using Cons undo_entry_region [OF same(1)] same(2)
    by (simp add: restore_simps Int_commute Compl_Un)
qed

lemma free_copies_all:
  assumes "copies_in H L" "distinct (copies L)" "copies L \<noteq> []"
  shows "free_copies L H (int (length (copies L))) = Some (H |` (- set (copies L)), 0)"
  using assms
proof (induction L arbitrary: H)
  case (Cons w L)
  show ?case
  proof (cases "copy_of w = []")
    case True
    then show ?thesis using Cons by (cases w) auto
  next
    case False
    then obtain a v n where w: "w = TYPE_BYTES a v n" by (cases w) auto
    then have v: "H v \<noteq> None" "v \<noteq> 0" "v \<notin> set (copies L)" "copies_in (H(v := None)) L"
      using Cons.prems copies_in_upd [of v L] by auto
    show ?thesis
    proof (cases "copies L = []")
      case True
      then show ?thesis using w v by (simp add: xfree_def restrict_map_def fun_eq_iff)
    next
      case False
      then have "free_copies L (H(v := None)) (int (length (copies L))) = Some (H(v := None) |` (- set (copies L)), 0)"
        using Cons.prems(2) False by (intro Cons.IH [OF v(4)]) simp_all
      moreover have "H(v := None) |` (- set (copies L)) = H |` (- set (copies (w # L)))"
        using w by (auto simp: restrict_map_def)
      ultimately show ?thesis using w v False by (simp add: xfree_def)
    qed
  qed
qed simp

subsection \<open>The invariant of the write set\<close>

text \<open>\<open>L\<close> are the entries that count; \<open>H0\<close> is the heap without the copies.\<close>

definition holds :: "'a log_entry list \<Rightarrow> 'a mod_log_w_set \<Rightarrow> bool" where
  "holds L ws \<longleftrightarrow> take (length L) (log_entries ws) = L \<and> nb_entries ws = length L \<and> length L \<le> log_size ws \<and>
     length (log_entries ws) = log_size ws \<and> log_size ws \<le> max LW_SET_SIZE (2 * length L)"

definition log_inv :: "log_heap \<Rightarrow> ('w::len word) log_entry list \<Rightarrow> 'w word log_state \<Rightarrow> bool" where
  "log_inv H0 L s \<longleftrightarrow> mod_log_initialized s \<and>
   (\<exists>ws. write_set s = Some ws \<and> holds L ws \<and> allocated ws = int (length (copies L))) \<and>
   distinct (copies L) \<and> copies_in (blocks s) L \<and> blocks s |` (- set (copies L)) = H0"

lemma log_inv_bytes: "log_inv H0 L s \<Longrightarrow> log_inv H0 L (s\<lparr>bytes := f\<rparr>)"
  by (simp add: log_inv_def)

lemma get_entry_holds:
  assumes init: "mod_log_initialized s" and ws: "write_set s = Some ws" "holds L ws" and room: "length L < 2 ^ 30"
  shows "\<exists>ws'. get_entry junk s e = Some (s\<lparr>write_set := Some ws'\<rparr>) \<and> holds (L @ [e]) ws' \<and> allocated ws' = allocated ws"
proof -
  define full where "full \<longleftrightarrow> length L = log_size ws"
  define n where "n = (if full then new_size (log_size ws) else log_size ws)"
  define es where "es = (if full then log_entries ws @ map junk [log_size ws..<n] else log_entries ws)"
  have h: "take (length L) (log_entries ws) = L" "nb_entries ws = length L" "length L \<le> log_size ws"
    "length (log_entries ws) = log_size ws" "log_size ws \<le> max LW_SET_SIZE (2 * length L)"
    using ws(2) by (auto simp: holds_def)
  have n: "length L < n" "n < 2 ^ 31" "n \<le> max LW_SET_SIZE (2 * Suc (length L))"
    using h(3,5) room by (auto simp: n_def full_def new_size_def LW_SET_SIZE_def)
  have len: "length es = n" using h(4) n by (auto simp: es_def n_def full_def)
  have "take (length L) es = L" using h(1,4) by (auto simp: es_def full_def)
  then have take: "take (Suc (length L)) (es[length L := e]) = L @ [e]"
    using n(1) len by (simp add: take_Suc_conv_app_nth)
  have "get_entry junk s e = Some (s\<lparr>write_set := Some (ws\<lparr>log_entries := es[length L := e], nb_entries := length L + 1, log_size := n\<rparr>)\<rparr>)"
    using init ws(1) n(2) h(2)
    unfolding es_def n_def full_def by (cases "length L = log_size ws") (simp_all add: get_entry_def Let_def)
  moreover have "holds (L @ [e]) (ws\<lparr>log_entries := es[length L := e], nb_entries := length L + 1, log_size := n\<rparr>)"
    using take n len by (simp add: holds_def)
  ultimately show ?thesis by auto
qed

lemma get_entry_inv:
  assumes inv: "log_inv H0 L s" and room: "length L < 2 ^ 30" and plain: "copy_of e = []"
  shows "\<exists>s'. get_entry junk s e = Some s' \<and> log_inv H0 (L @ [e]) s' \<and> bytes s' = bytes s \<and> blocks s' = blocks s"
proof -
  obtain ws where ws: "write_set s = Some ws" "holds L ws" "allocated ws = int (length (copies L))" "mod_log_initialized s"
    using inv by (auto simp: log_inv_def)
  obtain ws' where "get_entry junk s e = Some (s\<lparr>write_set := Some ws'\<rparr>)" "holds (L @ [e]) ws'" "allocated ws' = allocated ws"
    using get_entry_holds [OF ws(4,1,2) room] by blast
  moreover have "copy_in H e" for H using plain by (cases e) auto
  ultimately show ?thesis using inv ws(3,4) plain by (simp add: log_inv_def)
qed

lemma copies_dom: "copies_in H L \<Longrightarrow> set (copies L) \<subseteq> dom H"
proof
  fix v
  assume "copies_in H L" "v \<in> set (copies L)"
  then obtain w where "w \<in> set L" "v \<in> set (copy_of w)" by auto
  with \<open>copies_in H L\<close> have "v \<in> set (copy_of w)" "copy_in H w" by blast+
  then show "v \<in> dom H" by (cases w) auto
qed

lemma log_bytes_inv:
  assumes inv: "log_inv H0 L s" and room: "length L < 2 ^ 30" and new: "fresh_blocks xmalloc" "finite (dom H0)"
  defines "v \<equiv> xmalloc (blocks s)"
  shows "\<exists>s'. stm_log_bytes xmalloc junk s a n = Some s' \<and> log_inv H0 (L @ [TYPE_BYTES a v n]) s' \<and> bytes s' = bytes s \<and>
    v \<notin> set (copies L) \<and> blocks s' = (blocks s)(v \<mapsto> segment (bytes s) a n)"
proof -
  obtain ws where ws: "write_set s = Some ws" "holds L ws" "allocated ws = int (length (copies L))" "mod_log_initialized s"
    using inv by (auto simp: log_inv_def)
  have i: "distinct (copies L)" "copies_in (blocks s) L" "blocks s |` (- set (copies L)) = H0"
    using inv by (auto simp: log_inv_def)
  have "dom (blocks s) \<subseteq> set (copies L) \<union> dom H0" unfolding i(3) [symmetric] by (auto simp: restrict_map_def)
  then have "finite (dom (blocks s))" using new(2) by (meson finite_subset finite_Un finite_set)
  then have v: "v \<noteq> 0" "v \<notin> dom (blocks s)" using fresh_blocksD [OF new(1)] by (simp_all add: v_def)
  then have out: "v \<notin> set (copies L)" using copies_dom [OF i(2)] v(2) by blast
  obtain ws' where e: "get_entry junk s (TYPE_BYTES a v n) = Some (s\<lparr>write_set := Some ws'\<rparr>)"
    "holds (L @ [TYPE_BYTES a v n]) ws'" "allocated ws' = allocated ws"
    using get_entry_holds [OF ws(4,1,2) room] by blast
  have "((blocks s)(v \<mapsto> x)) |` (- set (copies (L @ [TYPE_BYTES a v n]))) = H0" for x
    unfolding i(3) [symmetric] using v(2) by (auto simp: restrict_map_def fun_eq_iff domIff)
  moreover have "holds (L @ [TYPE_BYTES a v n]) (ws'\<lparr>allocated := k\<rparr>)" for k using e(2) by (simp add: holds_def)
  ultimately show ?thesis using e i(1) copies_in_upd [OF out] i(2) out v(1) ws(3,4)
    by (simp add: log_inv_def v_def [symmetric])
qed

subsection \<open>Logging, writing, undoing\<close>

lemma to_bytes_peek:
  assumes "LENGTH('v::len) = 8 * k"
  shows "to_bytes (peek f a :: 'v word) = segment f a k"
proof (rule nth_equalityI)
  fix i
  assume "i < length (to_bytes (peek f a :: 'v word))"
  then have i: "i < k" using assms by simp
  have len: "length (segment f a k) \<le> LENGTH('v) div 8" using assms by simp
  show "to_bytes (peek f a :: 'v word) ! i = segment f a k ! i"
    using i assms byte_of_bytes [OF len] by (simp add: to_bytes_nth peek_def bytes_in_def)
qed (use assms in simp)

lemma from_to_char: "from_char cs (to_char (v :: u8)) = v"
  by (simp add: from_char_def to_char_def)

lemma log_call_entry:
  assumes wb: "LENGTH('w::len) = 8 * wb" and t: "t \<notin> {L_u16, L_u32, L_u64}"
  shows "\<exists>e. log_call t junk s a = get_entry junk s (e :: 'w word log_entry) \<and> copy_of e = [] \<and>
    (\<forall>cs H. region cs H e = (a, segment (bytes s) a (log_size_of wb t)))"
proof -
  have w: "to_bytes (peek f a :: 'w word) = segment f a wb" for f by (rule to_bytes_peek [OF wb])
  have u8: "to_bytes (peek f a :: u8) = segment f a 1" for f by (rule to_bytes_peek) simp
  have u16: "to_bytes (peek f a :: u16) = segment f a 2" for f by (rule to_bytes_peek) simp
  have u32: "to_bytes (peek f a :: u32) = segment f a 4" for f by (rule to_bytes_peek) simp
  have u64: "to_bytes (peek f a :: u64) = segment f a 8" for f by (rule to_bytes_peek) simp
  show ?thesis
  proof (cases t)
    case L_word show ?thesis by (rule exI [of _ "TYPE_WORD a (peek (bytes s) a)"]) (simp add: w L_word)
  next
    case L_u8 show ?thesis by (rule exI [of _ "TYPE_U8 a (to_char (peek (bytes s) a :: u8))"]) (simp add: u8 L_u8 from_to_char)
  next
    case L_char show ?thesis by (rule exI [of _ "TYPE_CHAR a (peek (bytes s) a)"]) (simp add: u8 L_char)
  next
    case L_uchar show ?thesis by (rule exI [of _ "TYPE_UCHAR a (peek (bytes s) a)"]) (simp add: u8 L_uchar)
  next
    case L_short show ?thesis by (rule exI [of _ "TYPE_SHORT a (peek (bytes s) a)"]) (simp add: u16 L_short)
  next
    case L_ushort show ?thesis by (rule exI [of _ "TYPE_USHORT a (peek (bytes s) a)"]) (simp add: u16 L_ushort)
  next
    case L_int show ?thesis by (rule exI [of _ "TYPE_INT a (peek (bytes s) a)"]) (simp add: u32 L_int)
  next
    case L_uint show ?thesis by (rule exI [of _ "TYPE_UINT a (peek (bytes s) a)"]) (simp add: u32 L_uint)
  next
    case L_long show ?thesis by (rule exI [of _ "TYPE_LONG a (peek (bytes s) a)"]) (simp add: w L_long)
  next
    case L_ulong show ?thesis by (rule exI [of _ "TYPE_ULONG a (peek (bytes s) a)"]) (simp add: w L_ulong)
  next
    case L_float show ?thesis by (rule exI [of _ "TYPE_FLOAT a (peek (bytes s) a)"]) (simp add: u32 L_float)
  next
    case L_double show ?thesis by (rule exI [of _ "TYPE_DOUBLE a (peek (bytes s) a)"]) (simp add: u64 L_double)
  next
    case L_ptr show ?thesis by (rule exI [of _ "TYPE_PTR a (peek (bytes s) a)"]) (simp add: w L_ptr)
  qed (use t in auto)
qed

text \<open>Undoing forgets what was in the regions that are written back.\<close>

definition bytes_of_regions :: "(nat \<times> u8 list) list \<Rightarrow> nat set" where
  "bytes_of_regions rs = (\<Union>r\<in>set rs. {fst r..<fst r + length (snd r)})"

lemma restore_cong:
  "(\<And>x. x \<notin> bytes_of_regions rs \<Longrightarrow> f x = g x) \<Longrightarrow> restore rs f = restore rs g"
proof (induction rs arbitrary: f g rule: rev_induct)
  case Nil
  then show ?case by (simp add: restore_simps bytes_of_regions_def fun_eq_iff)
next
  case (snoc r rs)
  have "restore rs (overwrite f (fst r) (snd r)) = restore rs (overwrite g (fst r) (snd r))"
    using snoc.prems by (intro snoc.IH) (auto simp: overwrite_def bytes_of_regions_def)
  then show ?case by (simp add: restore_simps)
qed

lemma overwrite_segment: "overwrite f a (segment f a n) = f"
  by (auto simp: overwrite_def fun_eq_iff)

text \<open>What holds while a transaction runs: undoing now gives the memory \<open>f0\<close>; \<open>A\<close> are the bytes logged.\<close>

definition undoes_to :: "bool \<Rightarrow> (nat \<Rightarrow> u8) \<Rightarrow> log_heap \<Rightarrow> nat set \<Rightarrow> ('w::len word) log_entry list \<Rightarrow> 'w word log_state \<Rightarrow> bool" where
  "undoes_to cs f0 H0 A L s \<longleftrightarrow> log_inv H0 L s \<and> restore (map (region cs (blocks s)) L) (bytes s) = f0 \<and>
     A \<subseteq> bytes_of_regions (map (region cs (blocks s)) L)"

lemma regions_upd: "v \<notin> set (copies L) \<Longrightarrow> map (region cs (H(v := x))) L = map (region cs H) L"
  by (induction L) (simp_all add: region_upd)

lemma access_undoes:
  assumes wb: "LENGTH('w::len) = 8 * wb" and new: "fresh_blocks xmalloc" "finite (dom H0)"
    and inv: "undoes_to cs f0 H0 A L (s :: 'w word log_state)" and room: "length L < 2 ^ 30"
    and ok: "logged_first wb A (x # xs)" "\<not> narrow x"
  shows "\<exists>s' L' A'. access_step xmalloc junk x s = Some s' \<and> undoes_to cs f0 H0 A' L' s' \<and> length L' \<le> Suc (length L) \<and>
    logged_first wb A' xs"
proof (cases x)
  case (Log t a)
  have "t \<notin> {L_u16, L_u32, L_u64}" using ok(2) by (auto simp: narrow_def Log)
  from log_call_entry [OF wb this, of junk s a] obtain e where
    e: "log_call t junk s a = get_entry junk s e" "copy_of e = []"
      "region cs H e = (a, segment (bytes s) a (log_size_of wb t))" for H by blast
  have l: "log_inv H0 L s" using inv by (simp add: undoes_to_def)
  obtain s' where s': "get_entry junk s e = Some s'" "log_inv H0 (L @ [e]) s'" "bytes s' = bytes s" "blocks s' = blocks s"
    using get_entry_inv [OF l room e(2)] by blast
  have "undoes_to cs f0 H0 (A \<union> {a..<a + log_size_of wb t}) (L @ [e]) s'"
    using inv s' e(3) by (auto simp: undoes_to_def restore_simps overwrite_segment bytes_of_regions_def)
  moreover have "access_step xmalloc junk x s = Some s'" using e(1) s'(1) Log by simp
  moreover have "logged_first wb (A \<union> {a..<a + log_size_of wb t}) xs" using ok(1) Log by simp
  ultimately show ?thesis by (metis length_append_singleton le_refl)
next
  case (Log_bytes a n)
  have l: "log_inv H0 L s" using inv by (simp add: undoes_to_def)
  let ?v = "xmalloc (blocks s)"
  obtain s' where s': "stm_log_bytes xmalloc junk s a n = Some s'" "log_inv H0 (L @ [TYPE_BYTES a ?v n]) s'" "bytes s' = bytes s"
    "?v \<notin> set (copies L)" "blocks s' = (blocks s)(?v \<mapsto> segment (bytes s) a n)"
    using log_bytes_inv [OF l room new] by blast
  have reg: "map (region cs (blocks s')) (L @ [TYPE_BYTES a ?v n]) = map (region cs (blocks s)) L @ [(a, segment (bytes s) a n)]"
    unfolding s'(5) map_append regions_upd [OF s'(4)] by simp
  have "undoes_to cs f0 H0 (A \<union> {a..<a + n}) (L @ [TYPE_BYTES a ?v n]) s'"
    using inv s'(2,3) unfolding undoes_to_def reg
    by (auto simp: restore_simps overwrite_segment bytes_of_regions_def)
  moreover have "access_step xmalloc junk x s = Some s'" using s'(1) Log_bytes by simp
  moreover have "logged_first wb (A \<union> {a..<a + n}) xs" using ok(1) Log_bytes by simp
  ultimately show ?thesis by (metis length_append_singleton le_refl)
next
  case (Store a bs)
  have "restore (map (region cs (blocks s)) L) (overwrite (bytes s) a bs) = restore (map (region cs (blocks s)) L) (bytes s)"
    using inv ok(1) Store by (intro restore_cong) (auto simp: undoes_to_def overwrite_def)
  then have "undoes_to cs f0 H0 A L (s\<lparr>bytes := overwrite (bytes s) a bs\<rparr>)"
    using inv by (simp add: undoes_to_def log_inv_bytes)
  then show ?thesis using ok(1) Store by fastforce
qed

lemma accesses_undo:
  assumes wb: "LENGTH('w::len) = 8 * wb" and new: "fresh_blocks xmalloc" "finite (dom H0)"
    and "undoes_to cs f0 H0 A L (s :: 'w word log_state)" "length L + length xs \<le> 2 ^ 30"
    and "logged_first wb A xs" "\<not> list_ex narrow xs"
  shows "\<exists>s' L' A'. accesses xmalloc junk xs s = Some s' \<and> undoes_to cs f0 H0 A' L' s'"
  using assms(4-)
proof (induction xs arbitrary: s A L)
  case (Cons x xs)
  then obtain s' L' A' where s': "access_step xmalloc junk x s = Some s'" "undoes_to cs f0 H0 A' L' s'"
    "length L' \<le> Suc (length L)" "logged_first wb A' xs"
    using access_undoes [OF wb new Cons.prems(1) _ Cons.prems(3), where junk = junk] by auto
  then show ?case using Cons.IH [OF s'(2)] Cons.prems(2,4) by auto
qed auto

lemma abort_undoes:
  assumes "undoes_to cs f0 H0 A L s"
  shows "\<exists>ws. write_set s = Some ws \<and> mod_log_on_abort cs s =
    Some (s\<lparr>bytes := f0, blocks := H0, write_set := Some (ws\<lparr>nb_entries := 0, allocated := 0\<rparr>)\<rparr>)"
proof -
  obtain ws where ws: "write_set s = Some ws" "holds L ws" "allocated ws = int (length (copies L))"
    using assms by (auto simp: undoes_to_def log_inv_def)
  have "undo cs L (bytes s, blocks s, allocated ws) = Some (f0, H0, 0)"
    using assms ws(3) undo_is_restore [where H = "blocks s" and L = L and cs = cs] by (simp add: undoes_to_def log_inv_def)
  then show ?thesis using ws by (cases "L = []") (auto simp: mod_log_on_abort_def holds_def)
qed

lemma commit_keeps:
  assumes "log_inv H0 L s"
  shows "\<exists>ws. write_set s = Some ws \<and> mod_log_on_commit s =
    Some (s\<lparr>blocks := H0, write_set := Some (ws\<lparr>nb_entries := 0, allocated := 0\<rparr>)\<rparr>)"
proof -
  obtain ws where ws: "write_set s = Some ws" "holds L ws" "allocated ws = int (length (copies L))"
    and L: "copies_in (blocks s) L" "distinct (copies L)" "blocks s |` (- set (copies L)) = H0"
    using assms by (auto simp: log_inv_def)
  show ?thesis
  proof (cases "copies L = []")
    case True
    then show ?thesis using ws L(3) by (auto simp: mod_log_on_commit_def)
  next
    case False
    then show ?thesis using ws free_copies_all [OF L(1,2) False] L(3) by (simp add: mod_log_on_commit_def holds_def)
  qed
qed

subsection \<open>Properties\<close>

text \<open>A thread that has called \<open>mod_log_init\<close> and just started.\<close>

definition log_start :: "(nat \<Rightarrow> u8) \<Rightarrow> log_heap \<Rightarrow> 'a log_state" where
  "log_start f H = mod_log_on_thread_init \<lparr>bytes = f, blocks = H, write_set = None, mod_log_initialized = True\<rparr>"

lemma log_start_undoes: "undoes_to cs f H {} [] (log_start f H)"
  by (simp add: log_start_def mod_log_on_thread_init_def undoes_to_def log_inv_def holds_def restore_simps)

text \<open>C29: as long as a transaction logs every byte before it writes it, and does not use
  \<open>stm_log_u16\<close>, \<open>stm_log_u32\<close> or \<open>stm_log_u64\<close>, all its calls return, and then an abort puts the
  whole memory back to what it was at the start, while a commit leaves it as written; both free every
  copy that \<open>stm_log_bytes\<close> made and nothing else, and leave the log empty. The log grows by doubling,
  so that up to \<open>2 ^ 30\<close> accesses there is no overflow of its \<open>int\<close> size. Words of 32 or of 64 bits, \<open>char\<close>
  signed or not.\<close>

theorem undo_log_correct:
  assumes "LENGTH('w::len) = 8 * wb" and "fresh_blocks xmalloc" and "finite (dom H)"
    and "logged_first wb {} xs" and "\<not> list_ex narrow xs" and "length xs \<le> 2 ^ 30"
  shows "\<exists>s ws. accesses xmalloc junk xs (log_start f H :: 'w word log_state) = Some s \<and> write_set s = Some ws \<and>
    mod_log_on_abort char_signed s =
      Some (s\<lparr>bytes := f, blocks := H, write_set := Some (ws\<lparr>nb_entries := 0, allocated := 0\<rparr>)\<rparr>) \<and>
    mod_log_on_commit s = Some (s\<lparr>blocks := H, write_set := Some (ws\<lparr>nb_entries := 0, allocated := 0\<rparr>)\<rparr>)"
proof -
  obtain s L A where s: "accesses xmalloc junk xs (log_start f H :: 'w word log_state) = Some s" "undoes_to char_signed f H A L s"
    using accesses_undo [OF assms(1-3) log_start_undoes [of char_signed f H] _ assms(4,5), where junk = junk] assms(6)
    by auto
  then have "log_inv H L s" by (simp add: undoes_to_def)
  from abort_undoes [OF s(2)] commit_keeps [OF this] s(1) show ?thesis by auto
qed

theorem undo_log_correct_witness:
  "\<exists>s. accesses first_free (\<lambda>_. TYPE_CHAR 0 0) [Log L_int 8, Store 9 [1, 2], Log_bytes 100 3, Store 101 [5]]
      (log_start (\<lambda>_. 7) Map.empty :: u64 log_state) = Some s \<and>
    map_option bytes (mod_log_on_abort True s) = Some (\<lambda>_. 7)"
proof -
  have ok: "logged_first 8 {} [Log L_int 8, Store 9 [1, 2], Log_bytes 100 3, Store 101 [5]]"
    "\<not> list_ex narrow [Log L_int 8, Store 9 [1, 2], Log_bytes 100 3, Store 101 [5]]" by (auto simp: narrow_def)
  show ?thesis
    using undo_log_correct [where 'w = 64 and f = "\<lambda>_. 7" and H = Map.empty and char_signed = True
      and junk = "\<lambda>_. TYPE_CHAR 0 0", OF _ first_free_fresh _ ok]
    by (auto simp del: accesses.simps)
qed

lemma log_then_abort:
  assumes "copy_of e = []"
  shows "map_option bytes (Option.bind (get_entry junk (log_start f H) e) (mod_log_on_abort cs)) =
    Some (overwrite f (fst (region cs H e)) (snd (region cs H e)))"
proof -
  have start: "log_inv H [] (log_start f H)" using log_start_undoes [of True] by (auto simp: undoes_to_def)
  obtain s where s: "get_entry junk (log_start f H) e = Some s" "log_inv H [e] s" "bytes s = f" "blocks s = H"
    using get_entry_inv [OF start _ assms, of junk] by (auto simp: log_start_def mod_log_on_thread_init_def)
  then have "undoes_to cs (restore [region cs H e] f) H {} [e] s" by (simp add: undoes_to_def)
  from abort_undoes [OF this] show ?thesis using s(1) by (auto simp: restore_simps)
qed

text \<open>The memory when a transaction logs one location and aborts.\<close>

definition memory_after :: "(('w::len word) log_state \<Rightarrow> nat \<Rightarrow> 'w word log_state option) \<Rightarrow> bool \<Rightarrow> (nat \<Rightarrow> u8) \<Rightarrow> log_heap \<Rightarrow> nat \<Rightarrow>
    (nat \<Rightarrow> u8) option" where
  "memory_after log cs f H a = map_option bytes (Option.bind (log (log_start f H) a) (mod_log_on_abort cs))"

lemma poke_same:
  assumes "LENGTH('v::len) = 8 * k"
  shows "poke f a v = f \<longleftrightarrow> (v :: 'v word) = peek f a"
proof
  assume p: "poke f a v = f"
  have "to_bytes v = segment f a k"
  proof (rule nth_equalityI)
    fix i
    assume i: "i < length (to_bytes v)"
    then have "poke f a v (a + i) = to_bytes v ! i" by (simp add: poke_def overwrite_def)
    then show "to_bytes v ! i = segment f a k ! i" using p i assms by simp
  qed (use assms in simp)
  then have "of_bytes (to_bytes v) = (of_bytes (segment f a k) :: 'v word)" by simp
  then show "v = peek f a" using of_to_bytes [OF assms, of v] assms by (simp add: peek_def bytes_in_def)
next
  assume "v = peek f a"
  then show "poke f a v = f" using to_bytes_peek [OF assms, of f a] by (simp add: poke_def overwrite_segment)
qed

text \<open>C32: \<open>stm_log_u16\<close>, \<open>stm_log_u32\<close> and \<open>stm_log_u64\<close> keep one byte of the old value, the field of the
  entry being a \<open>char\<close>. An abort right after one of them overwrites the location with that byte,
  extended with its sign where \<open>char\<close> is signed, although nobody has written to it; the memory is
  right again exactly when the old value was such an extension.\<close>

theorem narrow_log_truncates:
  "memory_after (stm_log_u16 junk) cs f H a = Some (poke f a (from_char cs (to_char (peek f a :: u16)) :: u16)) \<and>
    (memory_after (stm_log_u16 junk) cs f H a = Some f \<longleftrightarrow> from_char cs (to_char (peek f a :: u16)) = (peek f a :: u16)) \<and>
    memory_after (stm_log_u32 junk) cs f H a = Some (poke f a (from_char cs (to_char (peek f a :: u32)) :: u32)) \<and>
    (memory_after (stm_log_u32 junk) cs f H a = Some f \<longleftrightarrow> from_char cs (to_char (peek f a :: u32)) = (peek f a :: u32)) \<and>
    memory_after (stm_log_u64 junk) cs f H a = Some (poke f a (from_char cs (to_char (peek f a :: u64)) :: u64)) \<and>
    (memory_after (stm_log_u64 junk) cs f H a = Some f \<longleftrightarrow> from_char cs (to_char (peek f a :: u64)) = (peek f a :: u64))"
proof -
  have start: "bytes (log_start f H) = f" by (simp add: log_start_def mod_log_on_thread_init_def)
  have u16: "poke f a v = f \<longleftrightarrow> v = peek f a" for v :: u16 by (rule poke_same [where k = 2]) simp
  have u32: "poke f a v = f \<longleftrightarrow> v = peek f a" for v :: u32 by (rule poke_same [where k = 4]) simp
  have u64: "poke f a v = f \<longleftrightarrow> v = peek f a" for v :: u64 by (rule poke_same [where k = 8]) simp
  have "memory_after (stm_log_u16 junk) cs f H a = Some (poke f a (from_char cs (to_char (peek f a :: u16)) :: u16))"
    "memory_after (stm_log_u32 junk) cs f H a = Some (poke f a (from_char cs (to_char (peek f a :: u32)) :: u32))"
    "memory_after (stm_log_u64 junk) cs f H a = Some (poke f a (from_char cs (to_char (peek f a :: u64)) :: u64))"
    unfolding memory_after_def by (simp_all add: log_then_abort start poke_def)
  then show ?thesis by (simp add: u16 u32 u64)
qed

end
