(* ===== verification/STM_Callbacks.thy ===== *)
theory STM_Callbacks
  imports Blocks
begin

unbundle bit_operations_syntax

section \<open>Callbacks of a transaction, and its memory\<close>

text \<open>
  \<open>transactional/tinySTM/src/mod_cb_mem.c\<close>: a transaction leaves functions to call when it commits
  and functions to call when it aborts. On them rest \<open>stm_malloc\<close> and \<open>stm_calloc\<close>, whose block is
  freed by an abort, and \<open>stm_free\<close>, which frees at the commit only and until then takes the locks of the
  words of the block, with stores under an empty mask.

  The state is that of one thread: the blocks in use with their sizes; the words so stored to, in their order; the blocks
  handed to the epoch collector with the clock at that time (where the library is compiled with \<open>EPOCH_GC\<close>); what the
  callbacks of the user work on (\<open>'u\<close>); and \<open>mod_cb_info_t\<close>, which the thread keeps under the
  module's key. The counters are \<open>unsigned short\<close>, the sizes \<open>size_t\<close> of 64 bits. \<open>None\<close> is an exit or a bad
  \<open>free\<close>; \<open>realloc\<close> to size 0 frees the array and returns null, on which \<open>xrealloc\<close> exits. A callback of the user
  does not leave further callbacks, and \<open>stm_store2\<close> may also abort the transaction: that is an abort with the
  callbacks there were.
\<close>

datatype 'u callback = Free | Epoch_free | User "nat \<Rightarrow> 'u \<Rightarrow> 'u"

record 'u mod_cb_entry =
  cb_f :: "'u callback"
  cb_arg :: nat

record 'u mod_cb_info =
  commit_size :: u16
  commit_nb :: u16
  commit :: "'u mod_cb_entry list"
  abort_size :: u16
  abort_nb :: u16
  abort :: "'u mod_cb_entry list"

record 'u cb_state =
  cb_heap :: "nat \<Rightarrow> u64 option"
  taken :: "u64 list"
  retired :: "(nat \<times> nat) list"
  user :: 'u
  icb :: "'u mod_cb_info option"

definition DEFAULT_CB_SIZE :: u16 where
  "DEFAULT_CB_SIZE = 16"

text \<open>\<open>xrealloc\<close> of an array: the old slots, up to the new size, and new ones of any content.\<close>

definition realloc_array :: "(nat \<Rightarrow> 'e) \<Rightarrow> 'e list \<Rightarrow> u16 \<Rightarrow> 'e list option" where
  "realloc_array junk es n = (if n = 0 then None
     else Some (take (unat n) es @ map junk [length es..<unat n]))"

text \<open>\<open>mod_cb_add_on_abort\<close> and \<open>mod_cb_add_on_commit\<close>; a store behind the array has no outcome.\<close>

definition mod_cb_add_on_abort :: "(nat \<Rightarrow> 'u mod_cb_entry) \<Rightarrow> 'u mod_cb_info \<Rightarrow> 'u callback \<Rightarrow> nat \<Rightarrow> 'u mod_cb_info option" where
  "mod_cb_add_on_abort junk c f arg =
    (case (if abort_size c \<le> abort_nb c
       then map_option (\<lambda>es. c\<lparr>abort_size := abort_size c * 2, abort := es\<rparr>) (realloc_array junk (abort c) (abort_size c * 2))
       else Some c) of None \<Rightarrow> None | Some c \<Rightarrow>
     if length (abort c) \<le> unat (abort_nb c) then None
     else Some (c\<lparr>abort := (abort c)[unat (abort_nb c) := \<lparr>cb_f = f, cb_arg = arg\<rparr>], abort_nb := abort_nb c + 1\<rparr>))"

definition mod_cb_add_on_commit :: "(nat \<Rightarrow> 'u mod_cb_entry) \<Rightarrow> 'u mod_cb_info \<Rightarrow> 'u callback \<Rightarrow> nat \<Rightarrow> 'u mod_cb_info option" where
  "mod_cb_add_on_commit junk c f arg =
    (case (if commit_size c \<le> commit_nb c
       then map_option (\<lambda>es. c\<lparr>commit_size := commit_size c * 2, commit := es\<rparr>) (realloc_array junk (commit c) (commit_size c * 2))
       else Some c) of None \<Rightarrow> None | Some c \<Rightarrow>
     if length (commit c) \<le> unat (commit_nb c) then None
     else Some (c\<lparr>commit := (commit c)[unat (commit_nb c) := \<lparr>cb_f = f, cb_arg = arg\<rparr>], commit_nb := commit_nb c + 1\<rparr>))"

definition stm_on_abort :: "(nat \<Rightarrow> 'u mod_cb_entry) \<Rightarrow> 'u callback \<Rightarrow> nat \<Rightarrow> 'u cb_state \<Rightarrow> 'u cb_state option" where
  "stm_on_abort junk f arg s = (case icb s of None \<Rightarrow> None | Some c \<Rightarrow>
     map_option (\<lambda>c'. s\<lparr>icb := Some c'\<rparr>) (mod_cb_add_on_abort junk c f arg))"

definition stm_on_commit :: "(nat \<Rightarrow> 'u mod_cb_entry) \<Rightarrow> 'u callback \<Rightarrow> nat \<Rightarrow> 'u cb_state \<Rightarrow> 'u cb_state option" where
  "stm_on_commit junk f arg s = (case icb s of None \<Rightarrow> None | Some c \<Rightarrow>
     map_option (\<lambda>c'. s\<lparr>icb := Some c'\<rparr>) (mod_cb_add_on_commit junk c f arg))"

text \<open>\<open>size = (size + 7) & ~7\<close>, or with 3 where words have 32 bits.\<close>

definition round_up :: "nat \<Rightarrow> u64 \<Rightarrow> u64" where
  "round_up wb n = (if wb = 4 then (n + 3) AND NOT 3 else (n + 7) AND NOT 7)"

text \<open>\<open>int_stm_malloc\<close> and \<open>int_stm_calloc\<close>, each with the address. \<open>calloc\<close> fails when the product is
  more than a \<open>size_t\<close> holds.\<close>

definition int_stm_malloc :: "nat \<Rightarrow> ((nat \<Rightarrow> u64 option) \<Rightarrow> nat) \<Rightarrow> (nat \<Rightarrow> 'u mod_cb_entry) \<Rightarrow> u64 \<Rightarrow> 'u cb_state \<Rightarrow> ('u cb_state \<times> nat) option" where
  "int_stm_malloc wb xmalloc junk n s = (case icb s of None \<Rightarrow> None | Some c \<Rightarrow>
     let a = xmalloc (cb_heap s) in
     map_option (\<lambda>c'. (s\<lparr>cb_heap := (cb_heap s)(a \<mapsto> round_up wb n), icb := Some c'\<rparr>, a)) (mod_cb_add_on_abort junk c Free a))"

definition int_stm_calloc :: "nat \<Rightarrow> ((nat \<Rightarrow> u64 option) \<Rightarrow> nat) \<Rightarrow> (nat \<Rightarrow> 'u mod_cb_entry) \<Rightarrow> u64 \<Rightarrow> u64 \<Rightarrow> 'u cb_state \<Rightarrow> ('u cb_state \<times> nat) option" where
  "int_stm_calloc wb xcalloc junk nm n s = (case icb s of None \<Rightarrow> None | Some c \<Rightarrow>
     if 2 ^ 64 \<le> unat nm * unat (round_up wb n) then None else
     let a = xcalloc (cb_heap s) in
     map_option (\<lambda>c'. (s\<lparr>cb_heap := (cb_heap s)(a \<mapsto> nm * round_up wb n), icb := Some c'\<rparr>, a)) (mod_cb_add_on_abort junk c Free a))"

text \<open>\<open>int_stm_free2\<close>: the words from \<open>a\<close> on are stored to, \<open>n\<close> of them.\<close>

definition word_count :: "nat \<Rightarrow> u64 \<Rightarrow> u64" where
  "word_count wb n = (if wb = 4 then drop_bit 2 (n + 3) else drop_bit 3 (n + 7))"

definition word_range :: "nat \<Rightarrow> u64 \<Rightarrow> u64 \<Rightarrow> u64 list" where
  "word_range wb a n = map (\<lambda>k. a + of_nat (wb * k)) [0..<unat n]"

definition int_stm_free2 :: "bool \<Rightarrow> nat \<Rightarrow> (nat \<Rightarrow> 'u mod_cb_entry) \<Rightarrow> nat \<Rightarrow> u64 \<Rightarrow> u64 \<Rightarrow> 'u cb_state \<Rightarrow> 'u cb_state option" where
  "int_stm_free2 epoch_gc wb junk addr idx n s = (case icb s of None \<Rightarrow> None | Some c \<Rightarrow>
     let ws = (if 0 < n then word_range wb (of_nat addr + of_nat wb * word_count wb idx) (word_count wb n) else []) in
     map_option (\<lambda>c'. s\<lparr>taken := taken s @ ws, icb := Some c'\<rparr>)
       (mod_cb_add_on_commit junk c (if epoch_gc then Epoch_free else Free) addr))"

text \<open>The entry points add the current transaction.\<close>

definition stm_malloc :: "nat \<Rightarrow> ((nat \<Rightarrow> u64 option) \<Rightarrow> nat) \<Rightarrow> (nat \<Rightarrow> 'u mod_cb_entry) \<Rightarrow> u64 \<Rightarrow> 'u cb_state \<Rightarrow> ('u cb_state \<times> nat) option" where
  "stm_malloc = int_stm_malloc"

definition stm_calloc :: "nat \<Rightarrow> ((nat \<Rightarrow> u64 option) \<Rightarrow> nat) \<Rightarrow> (nat \<Rightarrow> 'u mod_cb_entry) \<Rightarrow> u64 \<Rightarrow> u64 \<Rightarrow> 'u cb_state \<Rightarrow> ('u cb_state \<times> nat) option" where
  "stm_calloc = int_stm_calloc"

definition stm_free2 :: "bool \<Rightarrow> nat \<Rightarrow> (nat \<Rightarrow> 'u mod_cb_entry) \<Rightarrow> nat \<Rightarrow> u64 \<Rightarrow> u64 \<Rightarrow> 'u cb_state \<Rightarrow> 'u cb_state option" where
  "stm_free2 = int_stm_free2"

definition stm_free :: "bool \<Rightarrow> nat \<Rightarrow> (nat \<Rightarrow> 'u mod_cb_entry) \<Rightarrow> nat \<Rightarrow> u64 \<Rightarrow> 'u cb_state \<Rightarrow> 'u cb_state option" where
  "stm_free epoch_gc wb junk addr n = int_stm_free2 epoch_gc wb junk addr 0 n"

text \<open>A callback is called; \<open>epoch_free\<close> reads the clock of the library.\<close>

definition epoch_free :: "bool \<Rightarrow> nat \<Rightarrow> nat \<Rightarrow> 'u cb_state \<Rightarrow> 'u cb_state option" where
  "epoch_free use_gc clock addr s = (if use_gc then Some (s\<lparr>retired := retired s @ [(addr, clock)]\<rparr>)
     else map_option (\<lambda>H. s\<lparr>cb_heap := H\<rparr>) (xfree (cb_heap s) addr))"

fun call_back :: "bool \<Rightarrow> nat \<Rightarrow> 'u mod_cb_entry \<Rightarrow> 'u cb_state \<Rightarrow> 'u cb_state option" where
  "call_back use_gc clock e s = (case cb_f e of
     Free \<Rightarrow> map_option (\<lambda>H. s\<lparr>cb_heap := H\<rparr>) (xfree (cb_heap s) (cb_arg e))
   | Epoch_free \<Rightarrow> epoch_free use_gc clock (cb_arg e) s
   | User g \<Rightarrow> Some (s\<lparr>user := g (cb_arg e) (user s)\<rparr>))"

text \<open>The loops \<open>while (nb > 0) { nb--; f[nb](arg[nb]); }\<close>, and the two functions the library calls.\<close>

fun call_backs :: "bool \<Rightarrow> nat \<Rightarrow> 'u mod_cb_entry list \<Rightarrow> nat \<Rightarrow> 'u cb_state \<Rightarrow> 'u cb_state option" where
  "call_backs use_gc clock es 0 s = Some s"
| "call_backs use_gc clock es (Suc n) s = (if length es \<le> n then None else
     case call_back use_gc clock (es ! n) s of None \<Rightarrow> None | Some s' \<Rightarrow> call_backs use_gc clock es n s')"

definition mod_cb_on_commit :: "bool \<Rightarrow> nat \<Rightarrow> 'u cb_state \<Rightarrow> 'u cb_state option" where
  "mod_cb_on_commit use_gc clock s = (case icb s of None \<Rightarrow> None | Some c \<Rightarrow>
     map_option (\<lambda>s'. s'\<lparr>icb := Some (c\<lparr>commit_nb := 0, abort_nb := 0\<rparr>)\<rparr>) (call_backs use_gc clock (commit c) (unat (commit_nb c)) s))"

definition mod_cb_on_abort :: "bool \<Rightarrow> nat \<Rightarrow> 'u cb_state \<Rightarrow> 'u cb_state option" where
  "mod_cb_on_abort use_gc clock s = (case icb s of None \<Rightarrow> None | Some c \<Rightarrow>
     map_option (\<lambda>s'. s'\<lparr>icb := Some (c\<lparr>abort_nb := 0, commit_nb := 0\<rparr>)\<rparr>) (call_backs use_gc clock (abort c) (unat (abort_nb c)) s))"

definition mod_cb_on_thread_init :: "(nat \<Rightarrow> 'u mod_cb_entry) \<Rightarrow> 'u cb_state \<Rightarrow> 'u cb_state" where
  "mod_cb_on_thread_init junk s = (let es = map junk [0..<unat DEFAULT_CB_SIZE] in
     s\<lparr>icb := Some \<lparr>commit_size = DEFAULT_CB_SIZE, commit_nb = 0, commit = es,
       abort_size = DEFAULT_CB_SIZE, abort_nb = 0, abort = es\<rparr>\<rparr>)"

definition mod_cb_on_thread_exit :: "'u cb_state \<Rightarrow> 'u cb_state option" where
  "mod_cb_on_thread_exit s = (case icb s of None \<Rightarrow> None | Some c \<Rightarrow> Some (s\<lparr>icb := None\<rparr>))"

text \<open>\<open>mod_cb_mem_init\<close>: the key the library gives, unless there is one.\<close>

definition mod_cb_mem_init :: "bool \<Rightarrow> int \<Rightarrow> int \<Rightarrow> int option" where
  "mod_cb_mem_init registered new_key key = (if 0 \<le> key then Some key else if \<not> registered then None
     else if new_key < 0 then None else Some new_key)"

subsection \<open>A transaction, and what its callbacks do\<close>

datatype 'u request = Malloc u64 | Calloc u64 u64 | Free2 nat u64 u64 | On_abort "nat \<Rightarrow> 'u \<Rightarrow> 'u" nat | On_commit "nat \<Rightarrow> 'u \<Rightarrow> 'u" nat

fun do_request :: "bool \<Rightarrow> nat \<Rightarrow> ((nat \<Rightarrow> u64 option) \<Rightarrow> nat) \<Rightarrow> (nat \<Rightarrow> 'u mod_cb_entry) \<Rightarrow> 'u request \<Rightarrow> 'u cb_state \<Rightarrow> 'u cb_state option" where
  "do_request epoch_gc wb xmalloc junk (Malloc n) s = map_option fst (stm_malloc wb xmalloc junk n s)"
| "do_request epoch_gc wb xmalloc junk (Calloc nm n) s = map_option fst (stm_calloc wb xmalloc junk nm n s)"
| "do_request epoch_gc wb xmalloc junk (Free2 addr idx n) s = stm_free2 epoch_gc wb junk addr idx n s"
| "do_request epoch_gc wb xmalloc junk (On_abort f x) s = stm_on_abort junk (User f) x s"
| "do_request epoch_gc wb xmalloc junk (On_commit f x) s = stm_on_commit junk (User f) x s"

fun do_requests :: "bool \<Rightarrow> nat \<Rightarrow> ((nat \<Rightarrow> u64 option) \<Rightarrow> nat) \<Rightarrow> (nat \<Rightarrow> 'u mod_cb_entry) \<Rightarrow> 'u request list \<Rightarrow> 'u cb_state \<Rightarrow> 'u cb_state option" where
  "do_requests epoch_gc wb xmalloc junk [] s = Some s"
| "do_requests epoch_gc wb xmalloc junk (x # xs) s = (case do_request epoch_gc wb xmalloc junk x s of
     None \<Rightarrow> None | Some s' \<Rightarrow> do_requests epoch_gc wb xmalloc junk xs s')"

definition cb_start :: "(nat \<Rightarrow> 'u mod_cb_entry) \<Rightarrow> (nat \<Rightarrow> u64 option) \<Rightarrow> 'u \<Rightarrow> 'u cb_state" where
  "cb_start junk H u = mod_cb_on_thread_init junk \<lparr>cb_heap = H, taken = [], retired = [], user = u, icb = None\<rparr>"

text \<open>What a list of callbacks frees, retires and runs, in the order of the list.\<close>

fun freed_by :: "bool \<Rightarrow> 'u mod_cb_entry \<Rightarrow> nat list" where
  "freed_by use_gc e = (case cb_f e of Free \<Rightarrow> [cb_arg e] | Epoch_free \<Rightarrow> if use_gc then [] else [cb_arg e] | User g \<Rightarrow> [])"

fun retired_by :: "bool \<Rightarrow> 'u mod_cb_entry \<Rightarrow> nat list" where
  "retired_by use_gc e = (case cb_f e of Epoch_free \<Rightarrow> if use_gc then [cb_arg e] else [] | _ \<Rightarrow> [])"

fun run_by :: "'u mod_cb_entry \<Rightarrow> ('u \<Rightarrow> 'u) list" where
  "run_by e = (case cb_f e of User g \<Rightarrow> [g (cb_arg e)] | _ \<Rightarrow> [])"

abbreviation all_by :: "('e \<Rightarrow> 'a list) \<Rightarrow> 'e list \<Rightarrow> 'a list" where
  "all_by f es \<equiv> concat (map f es)"

fun call_all :: "bool \<Rightarrow> nat \<Rightarrow> 'u mod_cb_entry list \<Rightarrow> 'u cb_state \<Rightarrow> 'u cb_state option" where
  "call_all use_gc clock [] s = Some s"
| "call_all use_gc clock (e # es) s = (case call_back use_gc clock e s of None \<Rightarrow> None | Some s' \<Rightarrow> call_all use_gc clock es s')"

lemma call_backs_rev: "n \<le> length es \<Longrightarrow> call_backs use_gc clock es n s = call_all use_gc clock (rev (take n es)) s"
proof (induction n arbitrary: s)
  case (Suc n)
  then have "rev (take (Suc n) es) = es ! n # rev (take n es)" by (simp add: take_Suc_conv_app_nth)
  then show ?case using Suc by (auto split: option.split)
qed simp

lemma call_all_effect:
  assumes "distinct (all_by (freed_by use_gc) es)" "set (all_by (freed_by use_gc) es) \<subseteq> dom (cb_heap s) - {0}"
  shows "call_all use_gc clock es s = Some (s\<lparr>cb_heap := cb_heap s |` (- set (all_by (freed_by use_gc) es)),
    retired := retired s @ map (\<lambda>a. (a, clock)) (all_by (retired_by use_gc) es),
    user := fold (\<lambda>g. g) (all_by run_by es) (user s)\<rparr>)"
  using assms
proof (induction es arbitrary: s)
  case (Cons e es)
  define s' where "s' = s\<lparr>cb_heap := cb_heap s |` (- set (freed_by use_gc e)),
    retired := retired s @ map (\<lambda>a. (a, clock)) (retired_by use_gc e), user := fold (\<lambda>g. g) (run_by e) (user s)\<rparr>"
  have "call_back use_gc clock e s = Some s'"
    using Cons.prems(2) by (cases "cb_f e")
      (auto simp: s'_def xfree_block epoch_free_def domI split: if_splits)
  moreover have "call_all use_gc clock es s' = Some (s'\<lparr>cb_heap := cb_heap s' |` (- set (all_by (freed_by use_gc) es)),
    retired := retired s' @ map (\<lambda>a. (a, clock)) (all_by (retired_by use_gc) es),
    user := fold (\<lambda>g. g) (all_by run_by es) (user s')\<rparr>)"
    using Cons.prems by (intro Cons.IH) (auto simp: s'_def simp del: freed_by.simps)
  moreover have "cb_heap s' |` (- set (all_by (freed_by use_gc) es)) = cb_heap s |` (- set (all_by (freed_by use_gc) (e # es)))"
    by (simp add: s'_def Int_commute Compl_Un del: freed_by.simps)
  ultimately show ?case by (simp add: s'_def del: freed_by.simps retired_by.simps run_by.simps)
qed simp

subsection \<open>The arrays of callbacks\<close>

text \<open>\<open>L\<close> are the slots that count; the size is 16 doubled some times.\<close>

definition slots :: "u16 \<Rightarrow> u16 \<Rightarrow> 'e list \<Rightarrow> 'e list \<Rightarrow> bool" where
  "slots n k es L \<longleftrightarrow> length es = unat n \<and> unat k = length L \<and> length L \<le> unat n \<and> take (length L) es = L \<and>
     (\<exists>j\<le>11. unat n = 16 * 2 ^ j)"

lemma slots_nil: "length es = 16 \<Longrightarrow> slots 16 0 es []"
  by (auto simp: slots_def intro!: exI [of _ 0])

lemma slots_zero: "slots n k es L \<Longrightarrow> slots n 0 es []"
  by (auto simp: slots_def)

lemma slots_grow:
  assumes "slots n k es L" "length L < 2 ^ 15" "n \<le> k"
  shows "\<exists>es'. realloc_array junk es (n * 2) = Some es' \<and> slots (n * 2) k es' L"
proof -
  from assms(1) obtain j where j: "length es = unat n" "unat k = length L" "length L \<le> unat n" "take (length L) es = L"
    "j \<le> 11" "unat n = 16 * 2 ^ j" by (auto simp: slots_def)
  have full: "length L = unat n" using assms(3) j(2,3) by (simp add: word_le_nat_alt)
  have "j \<noteq> 11" using full assms(2) j(6) by auto
  then have j': "j \<le> 10" using j(5) by simp
  then have "(2 :: nat) ^ j \<le> 2 ^ 10" by (rule power_increasing) simp
  then have n2: "unat (n * 2) = 16 * 2 ^ Suc j" using j(6) by (simp add: unat_word_ariths)
  then have ne: "n * 2 \<noteq> 0" by (metis mult_is_0 power_not_zero unat_0 zero_neq_numeral)
  define es' where "es' = take (unat (n * 2)) es @ map junk [length es..<unat (n * 2)]"
  have "realloc_array junk es (n * 2) = Some es'" using ne by (simp add: realloc_array_def es'_def)
  moreover have "slots (n * 2) k es' L" unfolding slots_def
  proof (intro conjI)
    show "length es' = unat (n * 2)" "length L \<le> unat (n * 2)" using n2 j(1,6) full by (auto simp: es'_def)
    show "take (length L) es' = L" using j(1,4,6) n2 full by (auto simp: es'_def)
    show "\<exists>j\<le>11. unat (n * 2) = 16 * 2 ^ j" using n2 j' by (intro exI [of _ "Suc j"]) simp
  qed (use j(2) in simp)
  ultimately show ?thesis by blast
qed

lemma slots_store:
  assumes "slots n k es L" "\<not> n \<le> k"
  shows "length L < length es" "slots n (k + 1) (es[length L := e]) (L @ [e])"
proof -
  from assms have less: "length L < unat n" by (auto simp: slots_def word_le_nat_alt)
  then show len: "length L < length es" using assms by (simp add: slots_def)
  have lt: "unat n < 2 ^ LENGTH(16)" by (rule unsigned_less)
  have "unat (k + 1) = Suc (length L)"
    using assms(1) less lt by (auto simp: slots_def unat_word_ariths)
  then show "slots n (k + 1) (es[length L := e]) (L @ [e])"
    using assms(1) less len by (auto simp: slots_def take_Suc_conv_app_nth)
qed

lemma slots_full:
  assumes "slots n k es L" "length L = 2 ^ 15"
  shows "n \<le> k" "n * 2 = 0"
proof -
  from assms obtain j where j: "unat k = 2 ^ 15" "2 ^ 15 \<le> unat n" "j \<le> 11" "unat n = 16 * 2 ^ j" by (auto simp: slots_def)
  have "(2 :: nat) ^ j \<le> 2 ^ 11" using j(3) by (rule power_increasing) simp
  then have n: "unat n = 2 ^ 15" using j(2,4) by simp
  then show "n \<le> k" using j(1) by (simp add: word_le_nat_alt)
  have "unat (n * 2) = 0" using n by (simp add: unat_word_ariths)
  then show "n * 2 = 0" by (simp add: unat_eq_zero)
qed

lemma slots_grown: "slots (n * 2) k es' L \<Longrightarrow> length L < 2 ^ 15 \<Longrightarrow> slots n k es L \<Longrightarrow> n \<le> k \<Longrightarrow> \<not> n * 2 \<le> k"
proof -
  assume a: "slots (n * 2) k es' L" "slots n k es L" "n \<le> k" "length L < 2 ^ 15"
  obtain j where j: "unat n = 16 * 2 ^ j" "unat k = length L" "length L \<le> unat n" using a(2) by (auto simp: slots_def)
  have "length L = unat n" using j(2,3) a(3) by (simp add: word_le_nat_alt)
  moreover have "unat (n * 2) = 2 * unat n" using calculation a(4) by (simp add: unat_word_ariths)
  ultimately show "\<not> n * 2 \<le> k" using j by (simp add: word_le_nat_alt)
qed

text \<open>The callbacks that are waiting.\<close>

definition waiting :: "'u mod_cb_info \<Rightarrow> 'u mod_cb_entry list \<Rightarrow> 'u mod_cb_entry list \<Rightarrow> bool" where
  "waiting c as cs \<longleftrightarrow> slots (abort_size c) (abort_nb c) (abort c) as \<and> slots (commit_size c) (commit_nb c) (commit c) cs"

lemma add_on_abort:
  assumes "waiting c as cs" "length as < 2 ^ 15"
  shows "\<exists>c'. mod_cb_add_on_abort junk c f x = Some c' \<and> waiting c' (as @ [\<lparr>cb_f = f, cb_arg = x\<rparr>]) cs"
proof -
  have sl: "slots (abort_size c) (abort_nb c) (abort c) as" and co: "slots (commit_size c) (commit_nb c) (commit c) cs"
    using assms(1) by (auto simp: waiting_def)
  have nb: "unat (abort_nb c) = length as" using sl by (simp add: slots_def)
  show ?thesis
  proof (cases "abort_size c \<le> abort_nb c")
    case True
    obtain es where es: "realloc_array junk (abort c) (abort_size c * 2) = Some es" "slots (abort_size c * 2) (abort_nb c) es as"
      using slots_grow [OF sl assms(2) True] by blast
    then show ?thesis using True slots_store [OF es(2) slots_grown [OF es(2) assms(2) sl True]] co nb
      by (auto simp: mod_cb_add_on_abort_def waiting_def)
  next
    case False
    then show ?thesis using slots_store [OF sl False] co nb by (auto simp: mod_cb_add_on_abort_def waiting_def)
  qed
qed

lemma add_on_commit:
  assumes "waiting c as cs" "length cs < 2 ^ 15"
  shows "\<exists>c'. mod_cb_add_on_commit junk c f x = Some c' \<and> waiting c' as (cs @ [\<lparr>cb_f = f, cb_arg = x\<rparr>])"
proof -
  have sl: "slots (commit_size c) (commit_nb c) (commit c) cs" and ab: "slots (abort_size c) (abort_nb c) (abort c) as"
    using assms(1) by (auto simp: waiting_def)
  have nb: "unat (commit_nb c) = length cs" using sl by (simp add: slots_def)
  show ?thesis
  proof (cases "commit_size c \<le> commit_nb c")
    case True
    obtain es where es: "realloc_array junk (commit c) (commit_size c * 2) = Some es" "slots (commit_size c * 2) (commit_nb c) es cs"
      using slots_grow [OF sl assms(2) True] by blast
    then show ?thesis using True slots_store [OF es(2) slots_grown [OF es(2) assms(2) sl True]] ab nb
      by (auto simp: mod_cb_add_on_commit_def waiting_def)
  next
    case False
    then show ?thesis using slots_store [OF sl False] ab nb by (auto simp: mod_cb_add_on_commit_def waiting_def)
  qed
qed

subsection \<open>The invariant of a transaction\<close>

text \<open>What a list of requests leaves: the functions of the user, the addresses freed, the words taken.\<close>

fun on_aborts :: "'u request \<Rightarrow> ('u \<Rightarrow> 'u) list" where
  "on_aborts (On_abort f x) = [f x]"
| "on_aborts _ = []"

fun on_commits :: "'u request \<Rightarrow> ('u \<Rightarrow> 'u) list" where
  "on_commits (On_commit f x) = [f x]"
| "on_commits _ = []"

fun frees :: "'u request \<Rightarrow> nat list" where
  "frees (Free2 a i n) = [a]"
| "frees _ = []"

fun calloc_fits :: "nat \<Rightarrow> 'u request \<Rightarrow> bool" where
  "calloc_fits wb (Calloc nm n) \<longleftrightarrow> unat nm * unat (round_up wb n) < 2 ^ 64"
| "calloc_fits wb _ \<longleftrightarrow> True"

text \<open>The callbacks that wait for the commit are those of the requests. Those that wait for an
  abort free blocks that are in use; without these blocks the heap is what it was, \<open>H\<close>.\<close>

fun commit_of :: "bool \<Rightarrow> 'u request \<Rightarrow> 'u mod_cb_entry list" where
  "commit_of epoch_gc (Free2 a i n) = [\<lparr>cb_f = if epoch_gc then Epoch_free else Free, cb_arg = a\<rparr>]"
| "commit_of epoch_gc (On_commit f x) = [\<lparr>cb_f = User f, cb_arg = x\<rparr>]"
| "commit_of epoch_gc _ = []"

definition owns :: "(nat \<Rightarrow> u64 option) \<Rightarrow> (nat \<Rightarrow> u64 option) \<Rightarrow> 'u mod_cb_entry list \<Rightarrow> bool" where
  "owns H H' as \<longleftrightarrow> Epoch_free \<notin> cb_f ` set as \<and> distinct (all_by (freed_by True) as) \<and>
     set (all_by (freed_by True) as) \<subseteq> dom H' - {0} \<and> H' |` (- set (all_by (freed_by True) as)) = H"

definition cb_inv :: "bool \<Rightarrow> (nat \<Rightarrow> u64 option) \<Rightarrow> 'u \<Rightarrow> 'u request list \<Rightarrow> 'u mod_cb_entry list \<Rightarrow> 'u cb_state \<Rightarrow> bool" where
  "cb_inv epoch_gc H u xs as s \<longleftrightarrow> user s = u \<and> retired s = [] \<and>
     (\<exists>c. icb s = Some c \<and> waiting c as (all_by (commit_of epoch_gc) xs)) \<and>
     length as \<le> length xs \<and> owns H (cb_heap s) as \<and> all_by run_by as = all_by on_aborts xs"

lemma commit_of_length: "length (all_by (commit_of epoch_gc) xs) \<le> length xs"
proof (induction xs)
  case (Cons x xs)
  then show ?case by (cases x) auto
qed simp

lemma commit_of_effect:
  "all_by (freed_by g) (all_by (commit_of e) xs) = (if e \<and> g then [] else all_by frees xs)"
  "all_by (retired_by g) (all_by (commit_of e) xs) = (if e \<and> g then all_by frees xs else [])"
  "all_by run_by (all_by (commit_of e) xs) = all_by on_commits xs"
proof (induction xs)
  case (Cons x xs)
  { case 1 then show ?case using Cons(1) by (cases x) auto }
  { case 2 then show ?case using Cons(2) by (cases x) auto }
  { case 3 then show ?case using Cons(3) by (cases x) auto }
qed simp_all

lemma owns_user: "owns H H' as \<Longrightarrow> owns H H' (as @ [\<lparr>cb_f = User f, cb_arg = x\<rparr>])"
  by (simp add: owns_def)

lemma owns_malloc:
  assumes "owns H H' as" "a \<noteq> 0" "a \<notin> dom H'"
  shows "owns H (H'(a \<mapsto> n)) (as @ [\<lparr>cb_f = Free, cb_arg = a\<rparr>])"
proof -
  define M where "M = all_by (freed_by True) as"
  have M: "Epoch_free \<notin> cb_f ` set as" "distinct M" "set M \<subseteq> dom H' - {0}" "H' |` (- set M) = H"
    using assms(1) by (simp_all add: owns_def M_def)
  have all: "all_by (freed_by True) (as @ [\<lparr>cb_f = Free, cb_arg = a\<rparr>]) = M @ [a]" by (simp add: M_def)
  have "a \<notin> set M" using M(3) assms(3) by blast
  moreover have "H'(a \<mapsto> n) |` (- set (M @ [a])) = H"
    unfolding M(4) [symmetric] using assms(3) by (auto simp: restrict_map_def fun_eq_iff domIff)
  moreover have "set (M @ [a]) \<subseteq> dom (H'(a \<mapsto> n)) - {0}" using M(3) assms(2) by auto
  ultimately show ?thesis unfolding owns_def all using M(1,2) by simp
qed

lemma owns_finite: "owns H H' as \<Longrightarrow> finite (dom H) \<Longrightarrow> finite (dom H')"
proof -
  assume o: "owns H H' as" and "finite (dom H)"
  have "dom H' \<subseteq> set (all_by (freed_by True) as) \<union> dom H"
    using o by (auto simp: owns_def restrict_map_def simp del: freed_by.simps)
  then show ?thesis using \<open>finite (dom H)\<close> by (meson finite_Un finite_set finite_subset)
qed

lemma cb_start_inv: "cb_inv epoch_gc H u [] [] (cb_start junk H u)"
proof -
  have "slots DEFAULT_CB_SIZE 0 (map junk [0..<unat DEFAULT_CB_SIZE]) []"
    unfolding DEFAULT_CB_SIZE_def by (rule slots_nil) simp
  then show ?thesis
    by (auto simp: cb_inv_def cb_start_def mod_cb_on_thread_init_def waiting_def Let_def owns_def)
qed

lemma request_inv:
  assumes inv: "cb_inv epoch_gc H u xs as s" and room: "length xs < 2 ^ 15"
    and new: "fresh_blocks xmalloc" "finite (dom H)" and fits: "calloc_fits wb x"
  shows "\<exists>s' as'. do_request epoch_gc wb xmalloc junk x s = Some s' \<and> cb_inv epoch_gc H u (xs @ [x]) as' s'"
proof -
  obtain c where c: "icb s = Some c" "waiting c as (all_by (commit_of epoch_gc) xs)" using inv by (auto simp: cb_inv_def)
  have as: "length as < 2 ^ 15" using inv room by (simp add: cb_inv_def)
  have cs: "length (all_by (commit_of epoch_gc) xs) < 2 ^ 15" using commit_of_length room by (rule le_less_trans)
  have own: "owns H (cb_heap s) as" using inv by (simp add: cb_inv_def)
  note block = fresh_blocksD [OF new(1) owns_finite [OF own new(2)]]
  have alloc: "\<exists>c'. mod_cb_add_on_abort junk c Free (xmalloc (cb_heap s)) = Some c' \<and>
      cb_inv epoch_gc H u (xs @ [x]) (as @ [\<lparr>cb_f = Free, cb_arg = xmalloc (cb_heap s)\<rparr>])
        (s\<lparr>cb_heap := (cb_heap s)(xmalloc (cb_heap s) \<mapsto> n), icb := Some c'\<rparr>)"
    if "commit_of epoch_gc x = []" "on_aborts x = []" for n
    using add_on_abort [OF c(2) as, of junk Free "xmalloc (cb_heap s)"] inv owns_malloc [OF own, of "xmalloc (cb_heap s)" n] block that
    by (auto simp: cb_inv_def)
  show ?thesis
  proof (cases x)
    case (Malloc n)
    then show ?thesis using alloc [of "round_up wb n"] c(1) by (auto simp: stm_malloc_def int_stm_malloc_def Let_def)
  next
    case (Calloc nm n)
    then show ?thesis using alloc [of "nm * round_up wb n"] c(1) fits by (auto simp: stm_calloc_def int_stm_calloc_def Let_def)
  next
    case (Free2 a i n)
    then show ?thesis using add_on_commit [OF c(2) cs, of junk "if epoch_gc then Epoch_free else Free" a] c(1) inv
      by (auto simp: stm_free2_def int_stm_free2_def Let_def cb_inv_def intro!: exI [of _ as])
  next
    case (On_abort f a)
    then show ?thesis using add_on_abort [OF c(2) as, of junk "User f" a] c(1) inv owns_user [OF own, of f a]
      by (auto simp: stm_on_abort_def cb_inv_def intro!: exI [of _ "as @ [\<lparr>cb_f = User f, cb_arg = a\<rparr>]"])
  next
    case (On_commit f a)
    then show ?thesis using add_on_commit [OF c(2) cs, of junk "User f" a] c(1) inv
      by (auto simp: stm_on_commit_def cb_inv_def intro!: exI [of _ as])
  qed
qed

lemma requests_inv:
  assumes "fresh_blocks xmalloc" "finite (dom H)"
    and "cb_inv epoch_gc H u ys as s" "list_all (calloc_fits wb) xs" "length ys + length xs \<le> 2 ^ 15"
  shows "\<exists>s' as'. do_requests epoch_gc wb xmalloc junk xs s = Some s' \<and> cb_inv epoch_gc H u (ys @ xs) as' s'"
  using assms(3-)
proof (induction xs arbitrary: ys as s)
  case (Cons x xs)
  then obtain s' as' where "do_request epoch_gc wb xmalloc junk x s = Some s'" "cb_inv epoch_gc H u (ys @ [x]) as' s'"
    using request_inv [OF Cons.prems(1) _ assms(1,2), of wb x junk] by auto
  then show ?case using Cons.IH [of "ys @ [x]" as' s'] Cons.prems(2,3) by auto
qed auto

subsection \<open>Commit and abort\<close>

lemma all_by_rev: "(\<And>e. length (f e) \<le> 1) \<Longrightarrow> all_by f (rev es) = rev (all_by f es)"
proof (induction es)
  case (Cons e es)
  have "rev (f e) = f e" using Cons.prems [of e] by (cases "f e") auto
  then show ?case using Cons by simp
qed simp

lemma by_short: "length (freed_by g e) \<le> 1" "length (retired_by g e) \<le> 1" "length (run_by e) \<le> 1"
  by (simp_all split: callback.split)

lemmas by_rev = all_by_rev [of "freed_by g" for g, OF by_short(1)] all_by_rev [of "retired_by g" for g, OF by_short(2)]
  all_by_rev [of run_by, OF by_short(3)]

lemma no_epoch:
  assumes "Epoch_free \<notin> cb_f ` set as"
  shows "all_by (freed_by g) as = all_by (freed_by True) as" "all_by (retired_by g) as = []"
  using assms by (induction as) (auto split: callback.split)

lemma slots_call: "slots n k es L \<Longrightarrow> call_backs use_gc clock es (unat k) s = call_all use_gc clock (rev L) s"
  by (auto simp: slots_def call_backs_rev)

lemma abort_effect:
  assumes "cb_inv epoch_gc H u xs as s"
  shows "\<exists>c. mod_cb_on_abort use_gc clock s =
    Some (s\<lparr>cb_heap := H, user := fold (\<lambda>g. g) (rev (all_by on_aborts xs)) u, icb := Some c\<rparr>) \<and> abort_nb c = 0 \<and> commit_nb c = 0"
proof -
  obtain c where c: "icb s = Some c" "waiting c as (all_by (commit_of epoch_gc) xs)" using assms by (auto simp: cb_inv_def)
  have own: "owns H (cb_heap s) as" and r: "retired s = []" "user s = u" "all_by run_by as = all_by on_aborts xs"
    using assms by (auto simp: cb_inv_def)
  have "Epoch_free \<notin> cb_f ` set as" using own by (simp add: owns_def)
  note ne = no_epoch [OF this, of use_gc]
  have fr: "all_by (freed_by use_gc) (rev as) = rev (all_by (freed_by True) as)"
    and rt: "all_by (retired_by use_gc) (rev as) = []" and rn: "all_by run_by (rev as) = rev (all_by on_aborts xs)"
    unfolding by_rev ne r(3) by simp_all
  have "call_all use_gc clock (rev as) s = Some (s\<lparr>cb_heap := H, user := fold (\<lambda>g. g) (rev (all_by on_aborts xs)) u\<rparr>)"
    using call_all_effect [of use_gc "rev as" s clock] own r(1,2) unfolding fr rt rn owns_def by simp
  then show ?thesis using c slots_call by (fastforce simp: mod_cb_on_abort_def waiting_def)
qed

lemma commit_effect:
  assumes "cb_inv epoch_gc H u xs as s" "distinct (all_by frees xs)" "set (all_by frees xs) \<subseteq> dom (cb_heap s) - {0}"
    and gc_def: "gc \<longleftrightarrow> epoch_gc \<and> use_gc"
  shows "\<exists>c. mod_cb_on_commit use_gc clock s =
    Some (s\<lparr>cb_heap := (if gc then cb_heap s else cb_heap s |` (- set (all_by frees xs))),
      retired := (if gc then map (\<lambda>a. (a, clock)) (rev (all_by frees xs)) else []),
      user := fold (\<lambda>g. g) (rev (all_by on_commits xs)) u, icb := Some c\<rparr>) \<and> abort_nb c = 0 \<and> commit_nb c = 0"
proof -
  let ?cs = "all_by (commit_of epoch_gc) xs"
  obtain c where c: "icb s = Some c" "waiting c as ?cs" using assms by (auto simp: cb_inv_def)
  have r: "retired s = []" "user s = u" using assms by (auto simp: cb_inv_def)
  have fr: "all_by (freed_by use_gc) (rev ?cs) = (if gc then [] else rev (all_by frees xs))"
    and rt: "all_by (retired_by use_gc) (rev ?cs) = (if gc then rev (all_by frees xs) else [])"
    and rn: "all_by run_by (rev ?cs) = rev (all_by on_commits xs)"
    unfolding by_rev commit_of_effect gc_def by simp_all
  have "call_all use_gc clock (rev ?cs) s = Some (s\<lparr>cb_heap := (if gc then cb_heap s else cb_heap s |` (- set (all_by frees xs))),
      retired := (if gc then map (\<lambda>a. (a, clock)) (rev (all_by frees xs)) else []),
      user := fold (\<lambda>g. g) (rev (all_by on_commits xs)) u\<rparr>)"
    using call_all_effect [of use_gc "rev ?cs" s clock] r assms(2,3) unfolding fr rt rn by (cases gc) simp_all
  then show ?thesis using c slots_call by (fastforce simp: mod_cb_on_commit_def waiting_def)
qed

text \<open>C30: up to \<open>2 ^ 15\<close> requests of a transaction (\<open>stm_malloc\<close>, \<open>stm_calloc\<close>, \<open>stm_free2\<close>, \<open>stm_on_abort\<close>,
  \<open>stm_on_commit\<close>, in any order) all succeed, provided that \<open>xmalloc\<close> returns addresses that are not in use, that finitely many
  are in use at the start, and that each \<open>stm_calloc\<close> asks for a number of bytes, the count times the size rounded up to words, that
  fits into \<open>size_t\<close> (it is below \<open>2 ^ 64\<close>; a larger product makes \<open>stm_calloc\<close> fail). Then an abort calls the functions left for it, the last first, and
  frees what the transaction has allocated, so that the heap is what it was before; a commit
  calls the functions left for it, the last first, and frees what was given to \<open>stm_free2\<close> and nothing else, or, with
  the epoch collector, hands it over at the present clock; provided these are different blocks in use. Either
  leaves both lists empty.\<close>

theorem callbacks_correct:
  assumes "fresh_blocks xmalloc" and "finite (dom H)" and "list_all (calloc_fits wb) xs" and "length xs \<le> 2 ^ 15"
  shows "\<exists>s. do_requests epoch_gc wb xmalloc junk xs (cb_start junk H u) = Some s \<and>
    (\<exists>c. mod_cb_on_abort use_gc clock s =
       Some (s\<lparr>cb_heap := H, user := fold (\<lambda>g. g) (rev (all_by on_aborts xs)) u, icb := Some c\<rparr>) \<and> abort_nb c = 0 \<and> commit_nb c = 0) \<and>
    (distinct (all_by frees xs) \<and> set (all_by frees xs) \<subseteq> dom (cb_heap s) - {0} \<longrightarrow>
     (\<exists>c. mod_cb_on_commit use_gc clock s =
        Some (s\<lparr>cb_heap := (if epoch_gc \<and> use_gc then cb_heap s else cb_heap s |` (- set (all_by frees xs))),
          retired := (if epoch_gc \<and> use_gc then map (\<lambda>a. (a, clock)) (rev (all_by frees xs)) else []),
          user := fold (\<lambda>g. g) (rev (all_by on_commits xs)) u, icb := Some c\<rparr>) \<and> abort_nb c = 0 \<and> commit_nb c = 0))"
proof -
  obtain s as where "do_requests epoch_gc wb xmalloc junk xs (cb_start junk H u) = Some s" "cb_inv epoch_gc H u xs as s"
    using requests_inv [OF assms(1,2) cb_start_inv [of epoch_gc H u junk] assms(3), where junk = junk] assms(4) by auto
  then show ?thesis using abort_effect [of epoch_gc H u xs as s] commit_effect [of epoch_gc H u xs as s, OF _ _ _ refl] by blast
qed

theorem callbacks_correct_witness:
  "\<exists>s c. do_requests False 8 first_free (\<lambda>_. \<lparr>cb_f = Free, cb_arg = 0\<rparr>)
      [Malloc 20, On_abort (\<lambda>x u. x # u) 1, On_abort (\<lambda>x u. x # u) 2, Free2 7 0 16]
      (cb_start (\<lambda>_. \<lparr>cb_f = Free, cb_arg = 0\<rparr>) [7 \<mapsto> 16] []) = Some s \<and>
    mod_cb_on_abort False 0 s = Some (s\<lparr>cb_heap := [7 \<mapsto> 16], user := [1, 2], icb := Some c\<rparr>)"
proof -
  have "list_all (calloc_fits 8) [Malloc 20, On_abort (\<lambda>x u. x # u) 1, On_abort (\<lambda>x u. x # u) 2, Free2 7 0 16]" by simp
  from callbacks_correct [OF first_free_fresh _ this, of "[7 \<mapsto> 16]" False "\<lambda>_. \<lparr>cb_f = Free, cb_arg = 0\<rparr>" "[]" False 0]
  show ?thesis by (auto simp del: do_requests.simps)
qed

text \<open>C33: the sizes of the two arrays are \<open>unsigned short\<close>, doubled when an array is full: from
  32768 that gives 0, and the next callback, allocation or deallocation in the transaction ends the program.\<close>

theorem too_many_callbacks:
  "(\<exists>s. do_requests epoch_gc wb first_free junk (replicate (2 ^ 15) (On_abort f a)) (cb_start junk Map.empty u) = Some s \<and>
      stm_on_abort junk g b s = None \<and> stm_malloc wb first_free junk n s = None \<and> stm_calloc wb first_free junk nm n s = None) \<and>
   (\<exists>s. do_requests epoch_gc wb first_free junk (replicate (2 ^ 15) (On_commit f a)) (cb_start junk Map.empty u) = Some s \<and>
      stm_on_commit junk g b s = None \<and> stm_free epoch_gc wb junk b n s = None)"
proof -
  have run: "\<exists>s as. do_requests epoch_gc wb first_free junk (replicate (2 ^ 15) x) (cb_start junk Map.empty u) = Some s \<and>
      cb_inv epoch_gc Map.empty u (replicate (2 ^ 15) x) as s" if "calloc_fits wb x" for x
    using requests_inv [OF first_free_fresh _ cb_start_inv [of epoch_gc Map.empty u junk], of wb "replicate (2 ^ 15) x"] that
    by (auto simp: list_all_iff)
  obtain s as c where a: "do_requests epoch_gc wb first_free junk (replicate (2 ^ 15) (On_abort f a)) (cb_start junk Map.empty u) = Some s"
    "icb s = Some c" "slots (abort_size c) (abort_nb c) (abort c) as" "all_by run_by as = replicate (2 ^ 15) (f a)"
    "length as \<le> 2 ^ 15"
    using run [of "On_abort f a"] by (auto simp: cb_inv_def waiting_def)
  have "length (all_by run_by as) \<le> length as"
  proof (induction as)
    case (Cons e es)
    then show ?case using by_short(3) [of e] by (simp del: run_by.simps)
  qed simp
  then have "length as = 2 ^ 15" using a(4,5) by simp
  note full = slots_full [OF a(3) this]
  have "mod_cb_add_on_abort junk c h x = None" for h x using full by (simp add: mod_cb_add_on_abort_def realloc_array_def)
  then have one: "stm_on_abort junk g b s = None" "stm_malloc wb first_free junk n s = None" "stm_calloc wb first_free junk nm n s = None"
    using a(2) by (simp_all add: stm_on_abort_def stm_malloc_def int_stm_malloc_def stm_calloc_def int_stm_calloc_def Let_def)
  obtain t d where t: "do_requests epoch_gc wb first_free junk (replicate (2 ^ 15) (On_commit f a)) (cb_start junk Map.empty u) = Some t"
    "icb t = Some d" "slots (commit_size d) (commit_nb d) (commit d) (replicate (2 ^ 15) \<lparr>cb_f = User f, cb_arg = a\<rparr>)"
    using run [of "On_commit f a"] by (auto simp: cb_inv_def waiting_def)
  note full = slots_full [OF t(3)]
  have "mod_cb_add_on_commit junk d h x = None" for h x using full by (simp add: mod_cb_add_on_commit_def realloc_array_def)
  then have "stm_on_commit junk g b t = None" "stm_free epoch_gc wb junk b n t = None"
    using t(2) by (simp_all add: stm_on_commit_def stm_free_def int_stm_free2_def Let_def)
  then show ?thesis using a(1) one t(1) by blast
qed

subsection \<open>Sizes in words\<close>

lemma low_bits: "unat (x AND NOT (mask k) :: u64) = unat x div 2 ^ k * 2 ^ k" if "k < 64"
proof -
  have lt: "unat x < 2 ^ 64" using unsigned_less [of x] by simp
  have "x AND NOT (mask k) = push_bit k (drop_bit k x)" by (rule bit_word_eqI) (auto simp: bit_simps not_less)
  then have "unat (x AND NOT (mask k)) = unat (push_bit k (drop_bit k x))" by simp
  also have "\<dots> = unat x div 2 ^ k * 2 ^ k mod 2 ^ 64"
    using lt unfolding unsigned_push_bit_eq unsigned_drop_bit_eq by (simp add: take_bit_eq_mod push_bit_eq_mult drop_bit_eq_div)
  also have "\<dots> = unat x div 2 ^ k * 2 ^ k"
  proof (rule mod_less)
    have "unat x div 2 ^ k * 2 ^ k \<le> unat x" by (rule div_times_less_eq_dividend)
    also note lt
    finally show "unat x div 2 ^ k * 2 ^ k < 2 ^ 64" .
  qed
  finally show ?thesis .
qed

lemma round_up_is: "unat (round_up 8 n) = (if unat n < 2 ^ 64 - 7 then (unat n + 7) div 8 * 8 else 0)"
proof -
  have "(7 :: u64) = mask 3" by (simp add: mask_eq_exp_minus_1)
  then have r: "unat (round_up 8 n) = unat (n + 7) div 8 * 8" using low_bits [of 3 "n + 7"] by (simp add: round_up_def)
  show ?thesis
  proof (cases "unat n < 2 ^ 64 - 7")
    case True
    then have "unat (n + 7) = unat n + 7" by (simp add: unat_word_ariths)
    then show ?thesis using r True by simp
  next
    case False
    define d where "d = unat n + 7 - 2 ^ 64"
    have "unat n < 2 ^ LENGTH(64)" by (rule unsigned_less)
    then have d: "unat n + 7 = d + 2 ^ 64" "d < 8" using False by (simp_all add: d_def)
    have "unat (n + 7) = (unat n + 7) mod 2 ^ 64" by (simp add: unat_word_ariths)
    also have "\<dots> = d" unfolding d(1) mod_add_self2 using d(2) by simp
    finally have "unat (n + 7) < 8" using d(2) by simp
    then show ?thesis using r False by simp
  qed
qed

lemma word_count_is: "unat n < 2 ^ 64 - 7 \<Longrightarrow> unat (word_count 8 n) = (unat n + 7) div 8"
proof -
  assume n: "unat n < 2 ^ 64 - 7"
  have "word_count 8 n = drop_bit 3 (n + 7)" by (simp add: word_count_def del: drop_bit_numeral_bit0 drop_bit_numeral_bit1)
  then have "unat (word_count 8 n) = drop_bit 3 (unat (n + 7))" by (simp only: unat_drop_bit_eq)
  then have "unat (word_count 8 n) = unat (n + 7) div 8" by (simp add: drop_bit_eq_div)
  then show ?thesis using n by (simp add: unat_word_ariths)
qed

lemma round_up_start: "i div 8 * 8 = (i + 7) div 8 * 8 \<longleftrightarrow> 8 dvd (i :: nat)"
proof -
  define q r where "q = i div 8" and "r = i mod 8"
  have i: "i = r + 8 * q" and r: "r < 8" by (simp_all add: q_def r_def)
  have "(r + 7) div 8 = (if r = 0 then 0 else 1)" using r by (auto simp: div_if)
  moreover have "(r + 8 * q + 7) div 8 = q + (r + 7) div 8" using div_mult_self3 [of 8 q "r + 7"] by (simp add: ac_simps)
  moreover have "(r + 8 * q) div 8 = q" using r by simp
  moreover have "8 dvd r + 8 * q \<longleftrightarrow> r = 0" using r by (auto simp: dvd_eq_mod_eq_0)
  ultimately show ?thesis unfolding i by simp
qed

lemma word_start:
  assumes "0 < (m :: nat)"
  shows "(\<exists>k<m. a + i div 8 * 8 = a + (i + 7) div 8 * 8 + 8 * k) \<longleftrightarrow> 8 dvd (i :: nat)"
proof -
  have "i div 8 * 8 \<le> (i + 7) div 8 * 8" by (simp add: div_le_mono)
  then have "a + i div 8 * 8 = a + (i + 7) div 8 * 8 + 8 * k \<longleftrightarrow> k = 0 \<and> i div 8 * 8 = (i + 7) div 8 * 8" for k by linarith
  then show ?thesis using assms round_up_start [of i] by blast
qed

text \<open>C34: \<open>stm_malloc\<close> asks for its size rounded up to words of 64 bits, or for 0 bytes when that is more than a
  \<open>size_t\<close> holds. \<open>stm_free2\<close> takes the locks of as many words as the bytes to overwrite fill, from the
  first word that starts at \<open>idx\<close> or behind it; so the word that holds the byte
  \<open>idx\<close> is taken exactly when it starts there.\<close>

theorem sizes_in_words:
  assumes "stm_free2 epoch_gc 8 junk addr idx n s = Some s'" and "0 < n" and "addr + unat idx + unat n + 16 < 2 ^ 64"
  shows "unat (round_up 8 m) = (if unat m < 2 ^ 64 - 7 then (unat m + 7) div 8 * 8 else 0) \<and>
    taken s' = taken s @ map (\<lambda>k. of_nat (addr + (unat idx + 7) div 8 * 8 + 8 * k)) [0..<(unat n + 7) div 8] \<and>
    (of_nat (addr + unat idx div 8 * 8) \<in> set (drop (length (taken s)) (taken s')) \<longleftrightarrow> 8 dvd unat idx)"
proof -
  have "unat n < 2 ^ 64 - 7" "unat idx < 2 ^ 64 - 7" using assms(3) by simp_all
  then have c: "unat (word_count 8 n) = (unat n + 7) div 8" "unat (word_count 8 idx) = (unat idx + 7) div 8"
    by (simp_all add: word_count_is)
  have "word_count 8 idx = of_nat (unat (word_count 8 idx))" by simp
  then have idx: "word_count 8 idx = of_nat ((unat idx + 7) div 8)" unfolding c(2) .
  let ?ws = "map (\<lambda>k. of_nat (addr + (unat idx + 7) div 8 * 8 + 8 * k) :: u64) [0..<(unat n + 7) div 8]"
  have ws: "taken s' = taken s @ ?ws"
    using assms(1,2) c(1) idx
    by (auto simp: stm_free2_def int_stm_free2_def word_range_def Let_def ac_simps split: option.splits)
  have "of_nat (addr + unat idx div 8 * 8) \<in> set ?ws \<longleftrightarrow> (\<exists>k<(unat n + 7) div 8. addr + unat idx div 8 * 8 = addr + (unat idx + 7) div 8 * 8 + 8 * k)"
  proof -
    have un: "unat (of_nat x :: u64) = x" if "x < 2 ^ 64" for x using that by (simp add: unat_of_nat)
    have inj: "of_nat x = (of_nat y :: u64) \<longleftrightarrow> x = y" if "x < 2 ^ 64" "y < 2 ^ 64" for x y
      using un [OF that(1)] un [OF that(2)] by metis
    define A m where "A = addr + unat idx div 8 * 8" and "m = (unat n + 7) div 8"
    define B where "B k = addr + (unat idx + 7) div 8 * 8 + 8 * k" for k
    have A: "A < 2 ^ 64" unfolding A_def using assms(3) div_times_less_eq_dividend [of "unat idx" 8] by linarith
    have B: "B k < 2 ^ 64" if "k < m" for k
      using that assms(3) div_times_less_eq_dividend [of "unat idx + 7" 8] div_times_less_eq_dividend [of "unat n + 7" 8]
      unfolding B_def m_def by linarith
    have "of_nat A \<in> set (map (\<lambda>k. of_nat (B k) :: u64) [0..<m]) \<longleftrightarrow> (\<exists>k<m. (of_nat A :: u64) = of_nat (B k))" by auto
    also have "\<dots> \<longleftrightarrow> (\<exists>k<m. A = B k)" using inj [OF A B] by blast
    finally show ?thesis unfolding A_def B_def m_def .
  qed
  also have "\<dots> \<longleftrightarrow> 8 dvd unat idx"
  proof (rule word_start)
    have "0 < unat n" using assms(2) by (simp add: word_less_nat_alt)
    then show "0 < (unat n + 7) div 8" by simp
  qed
  finally show ?thesis using ws round_up_is by simp
qed

theorem sizes_in_words_witness:
  "\<exists>s'. stm_free2 False 8 (\<lambda>_. \<lparr>cb_f = Free, cb_arg = 0\<rparr>) 4096 4 8 (cb_start (\<lambda>_. \<lparr>cb_f = Free, cb_arg = 0\<rparr>) Map.empty ()) = Some s' \<and>
    taken s' = [4104]"
proof -
  let ?junk = "\<lambda>_. \<lparr>cb_f = Free, cb_arg = 0\<rparr>"
  obtain s' where s': "stm_free2 False 8 ?junk 4096 4 8 (cb_start ?junk Map.empty ()) = Some s'"
    using requests_inv [OF first_free_fresh _ cb_start_inv [of False Map.empty "()" ?junk], of 8 "[Free2 4096 4 8]" ?junk]
    by (auto split: option.splits)
  have "taken (cb_start ?junk Map.empty ()) = []" by (simp add: cb_start_def mod_cb_on_thread_init_def Let_def)
  then show ?thesis using sizes_in_words [OF s'] s' by simp
qed

end
