(* ===== verification/Epoch_GC.thy ===== *)
theory Epoch_GC
  imports Prelude "HOL-Library.Multiset"
begin

unbundle bit_operations_syntax

section \<open>The epoch-based collector of tinySTM\<close>

text \<open>
  \<open>transactional/tinySTM/src/gc.c\<close>: memory a transaction has freed may still be read by
  transactions that began before. A thread that frees a block notes it under the present clock, in regions
  of its own slot; each thread keeps in its slot the clock at which its transaction began, a lower bound
  for what it may look at; and a region is returned to the system once its clock is less than
  the minimum of all lower bounds, which \<open>gc_compute_min\<close> finds slot after slot while
  threads come, go and begin transactions.

  A slot is shared memory: each load, store and compare-and-swap of \<open>used\<close> and \<open>ts\<close> is a step. The regions of a slot
  (\<open>head\<close> to \<open>tail\<close>, each with its blocks) are touched by the thread only that has the slot, together with the
  step before or after. What the clients in the library do is part of the model: \<open>epoch_free\<close> of \<open>mod_cb_mem.c\<close>
  reads the clock and calls \<open>gc_free\<close>, a transaction reads the clock and calls \<open>gc_set_epoch\<close>
  (\<open>stm_internal.h\<close>). The clock may move at any time. \<open>given\<close> and \<open>freed\<close> record the blocks passed to
  \<open>gc_free\<close> and to \<open>xfree\<close>, with their clocks. \<open>None\<close> is a failed \<open>assert\<close>.
\<close>

datatype status = GC_NULL | GC_BUSY | GC_FREE_EMPTY | GC_FREE_FULL

type_synonym gc_region = "u64 \<times> nat list"

record gc_slot =
  used :: status
  ts :: u64
  regions :: "gc_region list"
  frees :: u32

record gc_globals =
  slots :: "nat \<Rightarrow> gc_slot"
  nb_active :: u64
  clock :: u64
  given :: "(nat \<times> u64) list"
  freed :: "(nat \<times> u64) list"

definition MAX_GC_THREADS :: nat where
  "MAX_GC_THREADS = 1024"

definition EPOCH_MAX :: u64 where
  "EPOCH_MAX = NOT 0"

definition CLEANUP_FREQUENCY :: u32 where
  "CLEANUP_FREQUENCY = 1"

text \<open>On whose behalf \<open>gc_compute_min\<close> and \<open>gc_cleanup_thread\<close> run: \<open>gc_cleanup\<close>, or \<open>gc_cleanup_all\<close> with the slot it has taken.\<close>

datatype cleaner = Own | All nat

text \<open>Where a thread is: outside of the library; in \<open>gc_init_thread\<close> (\<open>I\<close>), with the transaction it begins (\<open>B\<close>),
  in \<open>epoch_free\<close> and \<open>gc_free\<close> (\<open>F\<close>), \<open>gc_cleanup\<close> (\<open>C\<close>), \<open>gc_compute_min\<close> (\<open>M\<close>), \<open>gc_cleanup_thread\<close>,
  \<open>gc_cleanup_all\<close> (\<open>A\<close>), \<open>gc_exit_thread\<close> (\<open>E\<close>); or registered and in none of them. \<open>Stopped\<close> is \<open>exit(1)\<close>.\<close>

datatype gc_pc = Outside | Stopped | Registered
  | I_inc | I_load nat | I_cas nat status | I_assert nat | I_epoch | I_store u64
  | B_clock | B_set u64
  | F_clock nat | F_call nat u64
  | C_now | M_used cleaner nat u64 | M_ts cleaner nat u64 | Clean cleaner u64
  | A_load nat u64 | A_load2 nat u64 | A_cas nat u64 | A_now nat | A_store nat u64
  | E_ts | E_used | E_dec

record gc_local =
  gpc :: gc_pc
  idx :: nat

text \<open>What a thread asks for next.\<close>

datatype gc_request = Init | Begin | Free nat | Cleanup | Cleanup_all | Exit

subsection \<open>Regions\<close>

text \<open>\<open>gc_free\<close>: a new region at the tail, or one more block in the last one.\<close>

definition add_block :: "nat \<Rightarrow> u64 \<Rightarrow> gc_region list \<Rightarrow> gc_region list option" where
  "add_block a e rs = (if rs = [] \<or> fst (last rs) < e then Some (rs @ [(e, [a])])
     else if fst (last rs) \<noteq> e then None
     else Some (butlast rs @ [(fst (last rs), a # snd (last rs))]))"

text \<open>\<open>gc_clean_blocks\<close>, \<open>gc_clean_regions\<close>, and the loop of \<open>gc_cleanup_thread\<close>: what they free, and what is left.\<close>

definition gc_clean_blocks :: "gc_region \<Rightarrow> (nat \<times> u64) list" where
  "gc_clean_blocks r = map (\<lambda>a. (a, fst r)) (snd r)"

fun gc_clean_regions :: "gc_region list \<Rightarrow> (nat \<times> u64) list" where
  "gc_clean_regions [] = []"
| "gc_clean_regions (r # rs) = gc_clean_blocks r @ gc_clean_regions rs"

fun gc_cleanup_thread :: "u64 \<Rightarrow> gc_region list \<Rightarrow> (nat \<times> u64) list \<times> gc_region list" where
  "gc_cleanup_thread m [] = ([], [])"
| "gc_cleanup_thread m (r # rs) = (if fst r < m
     then let (bs, rs') = gc_cleanup_thread m rs in (gc_clean_blocks r @ bs, rs') else ([], r # rs))"

subsection \<open>The functions\<close>

definition set_slot :: "nat \<Rightarrow> (gc_slot \<Rightarrow> gc_slot) \<Rightarrow> gc_globals \<Rightarrow> gc_globals" where
  "set_slot i f g = g\<lparr>slots := (slots g)(i := f (slots g i))\<rparr>"

definition next_slot :: "nat \<Rightarrow> nat" where
  "next_slot i = (if MAX_GC_THREADS \<le> i + 1 then 0 else i + 1)"

definition gc_init_thread :: "gc_pc \<Rightarrow> gc_globals \<Rightarrow> gc_local \<Rightarrow> (gc_globals \<times> gc_local) option" where
  "gc_init_thread pc g l = (case pc of
     I_inc \<Rightarrow> Some (g\<lparr>nb_active := nb_active g + 1\<rparr>,
       l\<lparr>gpc := if of_nat MAX_GC_THREADS \<le> nb_active g then Stopped else I_load 0\<rparr>)
   | I_load i \<Rightarrow> Some (g, l\<lparr>gpc := if used (slots g i) \<noteq> GC_BUSY then I_cas i (used (slots g i)) else I_load (next_slot i)\<rparr>)
   | I_cas i u \<Rightarrow> if used (slots g i) = u then Some (set_slot i (used_update (\<lambda>_. GC_BUSY)) g, l\<lparr>gpc := I_epoch, idx := i\<rparr>)
       else Some (g, l\<lparr>gpc := I_assert i\<rparr>)
   | I_assert i \<Rightarrow> if used (slots g i) = GC_NULL then None else Some (g, l\<lparr>gpc := I_load (next_slot i)\<rparr>)
   | I_epoch \<Rightarrow> Some (g, l\<lparr>gpc := I_store (clock g)\<rparr>)
   | I_store e \<Rightarrow> Some (set_slot (idx l) (ts_update (\<lambda>_. e)) g, l\<lparr>gpc := Registered\<rparr>)
   | _ \<Rightarrow> None)"

definition gc_exit_thread :: "gc_pc \<Rightarrow> gc_globals \<Rightarrow> gc_local \<Rightarrow> (gc_globals \<times> gc_local) option" where
  "gc_exit_thread pc g l = (case pc of
     E_ts \<Rightarrow> Some (set_slot (idx l) (ts_update (\<lambda>_. EPOCH_MAX)) g, l\<lparr>gpc := E_used\<rparr>)
   | E_used \<Rightarrow> Some (set_slot (idx l) (used_update (\<lambda>_. if regions (slots g (idx l)) = [] then GC_FREE_EMPTY else GC_FREE_FULL)) g,
       l\<lparr>gpc := E_dec\<rparr>)
   | E_dec \<Rightarrow> Some (g\<lparr>nb_active := nb_active g - 1\<rparr>, l\<lparr>gpc := Outside\<rparr>)
   | _ \<Rightarrow> None)"

text \<open>A transaction begins: \<open>tx->start = GET_CLOCK\<close>, then \<open>gc_set_epoch(tx->start)\<close>.\<close>

definition gc_set_epoch :: "u64 \<Rightarrow> gc_globals \<Rightarrow> gc_local \<Rightarrow> gc_globals" where
  "gc_set_epoch e g l = (if EPOCH_MAX \<le> e then g else set_slot (idx l) (ts_update (\<lambda>_. e)) g)"

definition begin_transaction :: "gc_pc \<Rightarrow> gc_globals \<Rightarrow> gc_local \<Rightarrow> (gc_globals \<times> gc_local) option" where
  "begin_transaction pc g l = (case pc of
     B_clock \<Rightarrow> Some (g, l\<lparr>gpc := B_set (clock g)\<rparr>)
   | B_set e \<Rightarrow> Some (gc_set_epoch e g l, l\<lparr>gpc := Registered\<rparr>)
   | _ \<Rightarrow> None)"

definition gc_free :: "nat \<Rightarrow> u64 \<Rightarrow> gc_globals \<Rightarrow> gc_local \<Rightarrow> (gc_globals \<times> gc_local) option" where
  "gc_free a e g l = (case add_block a e (regions (slots g (idx l))) of None \<Rightarrow> None | Some rs \<Rightarrow>
     let f = frees (slots g (idx l)) + 1 in
     Some ((set_slot (idx l) (\<lambda>s. s\<lparr>regions := rs, frees := f\<rparr>) g)\<lparr>given := (a, e) # given g\<rparr>,
       l\<lparr>gpc := if f mod CLEANUP_FREQUENCY = 0 then C_now else Registered\<rparr>))"

text \<open>\<open>epoch_free\<close>: one reading of the clock for each block, where \<open>int_stm_exit_thread\<close> gives back its three with one.\<close>

definition free_at_clock :: "gc_pc \<Rightarrow> gc_globals \<Rightarrow> gc_local \<Rightarrow> (gc_globals \<times> gc_local) option" where
  "free_at_clock pc g l = (case pc of
     F_clock a \<Rightarrow> Some (g, l\<lparr>gpc := F_call a (clock g)\<rparr>)
   | F_call a e \<Rightarrow> gc_free a e g l
   | _ \<Rightarrow> None)"

text \<open>\<open>gc_cleanup\<close> up to the call of \<open>gc_compute_min\<close>.\<close>

definition gc_cleanup :: "gc_globals \<Rightarrow> gc_local \<Rightarrow> (gc_globals \<times> gc_local) option" where
  "gc_cleanup g l = Some (g, l\<lparr>gpc := if regions (slots g (idx l)) = [] then Registered else M_used Own 0 (clock g)\<rparr>)"

definition gc_compute_min :: "gc_pc \<Rightarrow> gc_globals \<Rightarrow> gc_local \<Rightarrow> (gc_globals \<times> gc_local) option" where
  "gc_compute_min pc g l = (case pc of
     M_used c i m \<Rightarrow> Some (g, l\<lparr>gpc := if MAX_GC_THREADS \<le> i then Clean c m else
       (case used (slots g i) of GC_BUSY \<Rightarrow> M_ts c i m | GC_NULL \<Rightarrow> Clean c m | _ \<Rightarrow> M_used c (i + 1) m)\<rparr>)
   | M_ts c i m \<Rightarrow> let e = ts (slots g i) in
       Some (g, l\<lparr>gpc := if e = EPOCH_MAX then M_used c i m else M_used c (i + 1) (if e < m then e else m)\<rparr>)
   | _ \<Rightarrow> None)"

definition clean_slot :: "nat \<Rightarrow> u64 \<Rightarrow> gc_globals \<Rightarrow> gc_globals" where
  "clean_slot i m g = (let (bs, rs) = gc_cleanup_thread m (regions (slots g i)) in
     (set_slot i (regions_update (\<lambda>_. rs)) g)\<lparr>freed := bs @ freed g\<rparr>)"

definition gc_cleanup_all :: "gc_pc \<Rightarrow> gc_globals \<Rightarrow> gc_local \<Rightarrow> (gc_globals \<times> gc_local) option" where
  "gc_cleanup_all pc g l = (case pc of
     A_load i m \<Rightarrow> Some (g, l\<lparr>gpc := if MAX_GC_THREADS \<le> i \<or> used (slots g i) = GC_NULL then Registered else A_load2 i m\<rparr>)
   | A_load2 i m \<Rightarrow> Some (g, l\<lparr>gpc := if used (slots g i) = GC_FREE_FULL then A_cas i m else A_load (i + 1) m\<rparr>)
   | A_cas i m \<Rightarrow> if used (slots g i) = GC_FREE_FULL
       then Some (set_slot i (used_update (\<lambda>_. GC_BUSY)) g, l\<lparr>gpc := if m = EPOCH_MAX then A_now i else Clean (All i) m\<rparr>)
       else Some (g, l\<lparr>gpc := A_load (i + 1) m\<rparr>)
   | A_now i \<Rightarrow> Some (g, l\<lparr>gpc := M_used (All i) 0 (clock g)\<rparr>)
   | A_store i m \<Rightarrow> Some (set_slot i (used_update (\<lambda>_. if regions (slots g i) = [] then GC_FREE_EMPTY else GC_FREE_FULL)) g,
       l\<lparr>gpc := A_load (i + 1) m\<rparr>)
   | _ \<Rightarrow> None)"

text \<open>A step of a thread; the request counts where it has nothing to do.\<close>

definition gc_step :: "gc_request \<Rightarrow> gc_globals \<Rightarrow> gc_local \<Rightarrow> (gc_globals \<times> gc_local) option" where
  "gc_step r g l = (case gpc l of
     Outside \<Rightarrow> if r = Init then Some (g, l\<lparr>gpc := I_inc\<rparr>) else None
   | Stopped \<Rightarrow> None
   | Registered \<Rightarrow> (case r of Init \<Rightarrow> None | Begin \<Rightarrow> Some (g, l\<lparr>gpc := B_clock\<rparr>) | Free a \<Rightarrow> Some (g, l\<lparr>gpc := F_clock a\<rparr>)
       | Cleanup \<Rightarrow> Some (g, l\<lparr>gpc := C_now\<rparr>) | Cleanup_all \<Rightarrow> Some (g, l\<lparr>gpc := A_load 0 EPOCH_MAX\<rparr>)
       | Exit \<Rightarrow> Some (g, l\<lparr>gpc := E_ts\<rparr>))
   | B_clock \<Rightarrow> begin_transaction (gpc l) g l | B_set e \<Rightarrow> begin_transaction (gpc l) g l
   | F_clock a \<Rightarrow> free_at_clock (gpc l) g l | F_call a e \<Rightarrow> free_at_clock (gpc l) g l
   | C_now \<Rightarrow> gc_cleanup g l
   | M_used c i m \<Rightarrow> gc_compute_min (gpc l) g l | M_ts c i m \<Rightarrow> gc_compute_min (gpc l) g l
   | Clean Own m \<Rightarrow> Some (clean_slot (idx l) m g, l\<lparr>gpc := Registered\<rparr>)
   | Clean (All i) m \<Rightarrow> Some (clean_slot i m g, l\<lparr>gpc := A_store i m\<rparr>)
   | A_load i m \<Rightarrow> gc_cleanup_all (gpc l) g l | A_load2 i m \<Rightarrow> gc_cleanup_all (gpc l) g l
   | A_cas i m \<Rightarrow> gc_cleanup_all (gpc l) g l | A_now i \<Rightarrow> gc_cleanup_all (gpc l) g l | A_store i m \<Rightarrow> gc_cleanup_all (gpc l) g l
   | E_ts \<Rightarrow> gc_exit_thread (gpc l) g l | E_used \<Rightarrow> gc_exit_thread (gpc l) g l | E_dec \<Rightarrow> gc_exit_thread (gpc l) g l
   | _ \<Rightarrow> gc_init_thread (gpc l) g l)"

text \<open>\<open>gc_init\<close>, \<open>gc_exit\<close> (with \<open>None\<close> for its \<open>exit(1)\<close>) and \<open>gc_reset\<close>, which run alone.\<close>

definition gc_init :: "u64 \<Rightarrow> gc_globals" where
  "gc_init now = \<lparr>slots = \<lambda>i. \<lparr>used = GC_NULL, ts = EPOCH_MAX, regions = [], frees = 0\<rparr>, nb_active = 0, clock = now,
     given = [], freed = []\<rparr>"

definition all_regions :: "gc_globals \<Rightarrow> gc_region list" where
  "all_regions g = concat (map (\<lambda>i. regions (slots g i)) [0..<MAX_GC_THREADS])"

definition gc_exit :: "gc_globals \<Rightarrow> gc_globals option" where
  "gc_exit g = (if nb_active g \<noteq> 0 then None else Some (g\<lparr>freed := gc_clean_regions (all_regions g) @ freed g\<rparr>))"

fun reset_slots :: "nat \<Rightarrow> nat \<Rightarrow> gc_globals \<Rightarrow> gc_globals" where
  "reset_slots 0 i g = g"
| "reset_slots (Suc n) i g = (if used (slots g i) = GC_NULL then g else
     reset_slots n (i + 1) ((set_slot i (\<lambda>s. s\<lparr>ts := EPOCH_MAX, regions := [], frees := 0\<rparr>) g)
       \<lparr>freed := gc_clean_regions (regions (slots g i)) @ freed g\<rparr>))"

definition gc_reset :: "gc_globals \<Rightarrow> gc_globals" where
  "gc_reset g = reset_slots MAX_GC_THREADS 0 g"

subsection \<open>The system\<close>

text \<open>Any number of threads; a thread makes a step, or the clock moves on, short of \<open>EPOCH_MAX\<close>.\<close>

type_synonym gc_state = "gc_globals \<times> (nat \<Rightarrow> gc_local)"

inductive gc_sys :: "gc_state \<Rightarrow> gc_state \<Rightarrow> bool" where
  thread: "gc_step r g (L t) = Some (g', l') \<Longrightarrow> gc_sys (g, L) (g', L(t := l'))"
| tick: "clock g \<le> now \<Longrightarrow> now < EPOCH_MAX \<Longrightarrow> gc_sys (g, L) (g\<lparr>clock := now\<rparr>, L)"

definition gc_start :: "u64 \<Rightarrow> gc_state" where
  "gc_start now = (gc_init now, \<lambda>t. \<lparr>gpc = Outside, idx = 0\<rparr>)"

lemmas gc_code = gc_step_def gc_init_thread_def gc_exit_thread_def begin_transaction_def gc_set_epoch_def gc_free_def free_at_clock_def
  gc_cleanup_def gc_compute_min_def gc_cleanup_all_def clean_slot_def set_slot_def

subsection \<open>The invariant\<close>

text \<open>The slots a thread has: its own, and the one \<open>gc_cleanup_all\<close> has taken.\<close>

definition holds :: "gc_local \<Rightarrow> nat set" where
  "holds l = (case gpc l of
     Outside \<Rightarrow> {} | Stopped \<Rightarrow> {} | I_inc \<Rightarrow> {} | I_load i \<Rightarrow> {} | I_cas i u \<Rightarrow> {} | I_assert i \<Rightarrow> {} | E_dec \<Rightarrow> {}
   | A_now i \<Rightarrow> {idx l, i} | A_store i m \<Rightarrow> {idx l, i}
   | M_used (All k) i m \<Rightarrow> {idx l, k} | M_ts (All k) i m \<Rightarrow> {idx l, k} | Clean (All k) m \<Rightarrow> {idx l, k}
   | _ \<Rightarrow> {idx l})"

definition owned :: "gc_state \<Rightarrow> bool" where
  "owned s \<longleftrightarrow> (\<forall>i. used (slots (fst s) i) = GC_BUSY \<longleftrightarrow> (\<exists>t. i \<in> holds (snd s t))) \<and>
     (\<forall>t u. t \<noteq> u \<longrightarrow> holds (snd s t) \<inter> holds (snd s u) = {})"

text \<open>\<open>m\<close> is a lower bound for slot \<open>j\<close>, also for the clock a new thread is about to store there.\<close>

definition low :: "gc_state \<Rightarrow> nat \<Rightarrow> u64 \<Rightarrow> bool" where
  "low s j m \<longleftrightarrow> m \<le> ts (slots (fst s) j) \<and> (\<forall>t e. gpc (snd s t) = I_store e \<and> idx (snd s t) = j \<longrightarrow> m \<le> e)"

definition slots_ok :: "gc_globals \<Rightarrow> bool" where
  "slots_ok g \<longleftrightarrow> clock g < EPOCH_MAX \<and>
     (\<forall>i. (used (slots g i) \<noteq> GC_BUSY \<longrightarrow> ts (slots g i) = EPOCH_MAX) \<and>
       (\<forall>r\<in>set (regions (slots g i)). fst r \<le> clock g) \<and> sorted_wrt (<) (map fst (regions (slots g i)))) \<and>
     (\<forall>i j. i \<le> j \<longrightarrow> used (slots g i) = GC_NULL \<longrightarrow> used (slots g j) = GC_NULL)"

fun scanning :: "gc_state \<Rightarrow> cleaner \<Rightarrow> nat \<Rightarrow> u64 \<Rightarrow> bool" where
  "scanning s c i m \<longleftrightarrow> m \<le> clock (fst s) \<and> (\<forall>j<i. low s j m) \<and>
     (case c of Own \<Rightarrow> True | All k \<Rightarrow> i \<le> k \<and> ts (slots (fst s) k) = EPOCH_MAX)"

definition local_ok :: "gc_state \<Rightarrow> gc_local \<Rightarrow> bool" where
  "local_ok s l \<longleftrightarrow> (let g = fst s; own = slots g (idx l) in case gpc l of
     Outside \<Rightarrow> True | Stopped \<Rightarrow> True | I_inc \<Rightarrow> True | I_load i \<Rightarrow> i < MAX_GC_THREADS \<and> (\<forall>k<i. used (slots g k) \<noteq> GC_NULL)
   | I_cas i u \<Rightarrow> i < MAX_GC_THREADS \<and> u \<noteq> GC_BUSY \<and> (u \<noteq> GC_NULL \<longrightarrow> used (slots g i) \<noteq> GC_NULL) \<and>
       (\<forall>k<i. used (slots g k) \<noteq> GC_NULL)
   | I_assert i \<Rightarrow> i < MAX_GC_THREADS \<and> used (slots g i) \<noteq> GC_NULL \<and> (\<forall>k<i. used (slots g k) \<noteq> GC_NULL) | E_dec \<Rightarrow> True
   | I_epoch \<Rightarrow> ts own = EPOCH_MAX | I_store e \<Rightarrow> ts own = EPOCH_MAX \<and> e \<le> clock g | E_used \<Rightarrow> ts own = EPOCH_MAX
   | B_set e \<Rightarrow> ts own \<le> e \<and> e \<le> clock g
   | F_call a e \<Rightarrow> ts own \<le> clock g \<and> e \<le> clock g \<and> (\<forall>r\<in>set (regions own). fst r \<le> e)
   | M_used c i m \<Rightarrow> ts own \<le> clock g \<and> scanning s c i m
   | M_ts c i m \<Rightarrow> ts own \<le> clock g \<and> scanning s c i m \<and> i < MAX_GC_THREADS
   | Clean c m \<Rightarrow> ts own \<le> clock g \<and> c = Own \<and> m \<le> clock g \<and> (\<forall>j. low s j m)
   | A_load i m \<Rightarrow> ts own \<le> clock g \<and> m = EPOCH_MAX | A_load2 i m \<Rightarrow> ts own \<le> clock g \<and> m = EPOCH_MAX \<and> i < MAX_GC_THREADS
   | A_cas i m \<Rightarrow> ts own \<le> clock g \<and> m = EPOCH_MAX \<and> i < MAX_GC_THREADS
   | A_now k \<Rightarrow> ts own \<le> clock g \<and> ts (slots g k) = EPOCH_MAX \<and> k < MAX_GC_THREADS | A_store i m \<Rightarrow> False
   | _ \<Rightarrow> ts own \<le> clock g)"

text \<open>Some lower bound for all slots is greater than the clocks of all blocks freed so far.\<close>

definition freed_ok :: "gc_state \<Rightarrow> bool" where
  "freed_ok s \<longleftrightarrow> (\<forall>(a, e)\<in>set (freed (fst s)). \<exists>m. e < m \<and> m \<le> clock (fst s) \<and> (\<forall>j. low s j m))"

definition gc_inv :: "gc_state \<Rightarrow> bool" where
  "gc_inv s \<longleftrightarrow> slots_ok (fst s) \<and> owned s \<and> (\<forall>t. local_ok s (snd s t)) \<and> freed_ok s \<and>
     (\<forall>i\<ge>MAX_GC_THREADS. used (slots (fst s) i) = GC_NULL)"

lemma gc_start_inv: "now < EPOCH_MAX \<Longrightarrow> gc_inv (gc_start now)"
  by (auto simp: gc_inv_def gc_start_def gc_init_def slots_ok_def owned_def holds_def local_ok_def freed_ok_def)

subsection \<open>Steps\<close>

text \<open>Slots that a thread has neither before nor after its step stay as they are.\<close>

lemma step_frame:
  assumes "gc_step r g l = Some (g', l')" "i \<notin> holds l" "i \<notin> holds l'"
  shows "slots g' i = slots g i"
  using assms by (cases "gpc l") (auto simp: gc_code holds_def Let_def split: gc_request.splits if_splits cleaner.splits prod.splits option.splits status.splits)

lemma step_clock: "gc_step r g l = Some (g', l') \<Longrightarrow> clock g' = clock g"
  by (cases "gpc l") (auto simp: gc_code Let_def split: gc_request.splits if_splits cleaner.splits prod.splits option.splits)

lemmas gc_splits = gc_request.splits if_splits cleaner.splits prod.splits option.splits status.splits

lemma step_held:
  assumes "gc_step r g l = Some (g', l')" and "\<forall>i\<in>holds l. used (slots g i) = GC_BUSY" and "local_ok (g, L) l"
  shows "i \<in> holds l' - holds l \<Longrightarrow> used (slots g i) \<noteq> GC_BUSY"
    and "i \<in> holds l' \<Longrightarrow> used (slots g' i) = GC_BUSY"
    and "i \<in> holds l - holds l' \<Longrightarrow> used (slots g' i) \<noteq> GC_BUSY"
  using assms by (cases "gpc l"; auto simp: gc_code holds_def local_ok_def Let_def split: gc_splits)+

lemma step_owned:
  assumes step: "gc_step r g (L t) = Some (g', l')" and own: "owned (g, L)" and ok: "local_ok (g, L) (L t)"
  shows "owned (g', L(t := l'))"
proof -
  have busy: "\<forall>i\<in>holds (L t). used (slots g i) = GC_BUSY" using own by (auto simp: owned_def)
  note held = step_held [OF step busy ok]
  have new: "holds l' \<inter> holds (L u) = {}" if "u \<noteq> t" for u
  proof -
    have "i \<notin> holds (L u)" if i: "i \<in> holds l'" for i
    proof (cases "i \<in> holds (L t)")
      case True
      then show ?thesis using own \<open>u \<noteq> t\<close> by (fastforce simp: owned_def)
    next
      case False
      then show ?thesis using held(1) [of i] i own by (auto simp: owned_def)
    qed
    then show ?thesis by blast
  qed
  have "used (slots g' i) = GC_BUSY \<longleftrightarrow> (\<exists>u. i \<in> holds ((L(t := l')) u))" for i
  proof (cases "i \<in> holds (L t) \<union> holds l'")
    case True
    have "i \<notin> holds (L u)" if "u \<noteq> t" "i \<notin> holds l'" for u
      using own that True by (fastforce simp: owned_def)
    then show ?thesis using held(2,3) [of i] True by (metis DiffI UnE fun_upd_apply)
  next
    case False
    then have "slots g' i = slots g i" using step_frame [OF step] by simp
    moreover have "(\<exists>u. i \<in> holds ((L(t := l')) u)) \<longleftrightarrow> (\<exists>u. i \<in> holds (L u))" using False by auto
    ultimately show ?thesis using own by (simp add: owned_def)
  qed
  moreover have "\<forall>u v. u \<noteq> v \<longrightarrow> holds ((L(t := l')) u) \<inter> holds ((L(t := l')) v) = {}"
    using new own by (auto simp: owned_def)
  ultimately show ?thesis by (simp add: owned_def)
qed

lemma epoch_max: "e < EPOCH_MAX \<longleftrightarrow> e \<noteq> EPOCH_MAX" "e \<le> EPOCH_MAX"
  by (simp_all add: EPOCH_MAX_def less_le)

text \<open>Lower bounds that are not greater than the clock stay lower bounds.\<close>

lemma step_ts:
  assumes "gc_step r g l = Some (g', l')" "local_ok (g, L) l" "slots_ok g"
  shows "ts (slots g j) \<le> ts (slots g' j) \<or> (\<exists>e. gpc l = I_store e \<and> idx l = j \<and> ts (slots g' j) = e)"
    and "gpc l' = I_store e \<Longrightarrow> e = clock g"
  using assms by (cases "gpc l"; auto simp: gc_code local_ok_def Let_def epoch_max split: gc_splits)+

lemma step_low:
  assumes step: "gc_step r g (L t) = Some (g', l')" and ok: "local_ok (g, L) (L t)" "slots_ok g"
    and low: "low (g, L) j m" and m: "m \<le> clock g"
  shows "low (g', L(t := l')) j m"
proof -
  have "m \<le> ts (slots g' j)" using step_ts(1) [OF step ok, of j] low by (auto simp: low_def)
  moreover have "m \<le> e" if "gpc ((L(t := l')) u) = I_store e" "idx ((L(t := l')) u) = j" for u e
    using that low m step_ts(2) [OF step ok, of e] by (cases "u = t") (auto simp: low_def)
  ultimately show ?thesis unfolding low_def fst_conv snd_conv by blast
qed

text \<open>The slots.\<close>

lemma cleanup_thread_parts:
  assumes "gc_cleanup_thread m rs = (bs, rs')"
  shows "set rs' \<subseteq> set rs" and "\<forall>(a, e)\<in>set bs. e < m" and "sorted_wrt (<) (map fst rs) \<Longrightarrow> sorted_wrt (<) (map fst rs')"
    and "mset bs + mset (gc_clean_regions rs') = mset (gc_clean_regions rs)"
    and "sorted_wrt (<) (map fst rs) \<Longrightarrow> rs' = filter (\<lambda>r. m \<le> fst r) rs"
  using assms
proof (induction rs arbitrary: bs rs')
  case (Cons r rs)
  { case 1 then show ?case using Cons(1) by (force split: if_splits prod.splits) }
  { case 2 then show ?case using Cons(2) by (force simp: gc_clean_blocks_def split: if_splits prod.splits) }
  { case 3 then show ?case using Cons(3) by (force split: if_splits prod.splits) }
  { case 4 then show ?case using Cons(4) by (force split: if_splits prod.splits) }
  { case 5
    show ?case
    proof (cases "fst r < m")
      case True
      then show ?thesis using 5 Cons(5) by (force split: prod.splits)
    next
      case False
      then have "filter (\<lambda>r. m \<le> fst r) rs = rs" using 5(1) by (intro filter_True) auto
      then show ?thesis using False 5(2) by auto
    qed }
qed simp_all

lemma add_block_parts:
  assumes "add_block a e rs = Some rs'" "\<forall>r\<in>set rs. fst r \<le> c" "e \<le> c" "sorted_wrt (<) (map fst rs)"
  shows "\<forall>r\<in>set rs'. fst r \<le> c" and "sorted_wrt (<) (map fst rs')"
    and "mset (gc_clean_regions rs') = {#(a, e)#} + mset (gc_clean_regions rs)"
proof -
  have clean: "gc_clean_regions (xs @ ys) = gc_clean_regions xs @ gc_clean_regions ys" for xs ys
    by (induction xs) simp_all
  consider (new) "rs = []" "rs' = [(e, [a])]"
    | (later) xs t bs where "rs = xs @ [(t, bs)]" "t < e" "rs' = xs @ [(t, bs), (e, [a])]"
    | (old) xs bs where "rs = xs @ [(e, bs)]" "rs' = xs @ [(e, a # bs)]"
    using assms(1) by (cases rs rule: rev_cases) (auto simp: add_block_def split: if_splits)
  then have "(\<forall>r\<in>set rs'. fst r \<le> c) \<and> sorted_wrt (<) (map fst rs') \<and>
      mset (gc_clean_regions rs') = {#(a, e)#} + mset (gc_clean_regions rs)"
  proof cases
    case new
    then show ?thesis using assms(3) by (simp add: gc_clean_blocks_def)
  next
    case (later xs t bs)
    then show ?thesis using assms(2-4) by (auto simp: sorted_wrt_append clean gc_clean_blocks_def)
  next
    case (old xs bs)
    then show ?thesis using assms(2-4) by (auto simp: sorted_wrt_append clean gc_clean_blocks_def)
  qed
  then show "\<forall>r\<in>set rs'. fst r \<le> c" "sorted_wrt (<) (map fst rs')" "mset (gc_clean_regions rs') = {#(a, e)#} + mset (gc_clean_regions rs)"
    by blast+
qed

lemma step_used:
  assumes "gc_step r g l = Some (g', l')"
  shows "used (slots g' i) = used (slots g i) \<or> (\<exists>u. gpc l = I_cas i u) \<and> used (slots g' i) = GC_BUSY \<or>
    used (slots g i) = GC_FREE_FULL \<and> used (slots g' i) = GC_BUSY \<or>
    i \<in> holds l \<and> used (slots g' i) \<in> {GC_FREE_EMPTY, GC_FREE_FULL}"
  using assms(1) by (cases "gpc l"; auto simp: gc_code holds_def Let_def split: gc_splits)

lemma step_null:
  assumes "gc_step r g l = Some (g', l')" "local_ok (g, L) l" "\<forall>i\<in>holds l. used (slots g i) = GC_BUSY"
  shows "used (slots g' i) = GC_NULL \<Longrightarrow> used (slots g i) = GC_NULL"
    and "used (slots g i) = GC_NULL \<Longrightarrow> used (slots g' i) \<noteq> GC_NULL \<Longrightarrow> i < MAX_GC_THREADS \<and> (\<forall>k<i. used (slots g k) \<noteq> GC_NULL)"
  using step_used [OF assms(1), of i] assms(2,3) by (auto simp: local_ok_def)

lemma step_idle_ts:
  assumes "gc_step r g l = Some (g', l')" "local_ok (g, L) l" "slots_ok g" "\<forall>i\<in>holds l. used (slots g i) = GC_BUSY"
  shows "used (slots g' i) \<noteq> GC_BUSY \<Longrightarrow> ts (slots g' i) = EPOCH_MAX"
  using assms by (cases "gpc l"; auto simp: gc_code local_ok_def holds_def slots_ok_def Let_def split: gc_splits)

lemma step_regions:
  assumes "gc_step r g l = Some (g', l')" "local_ok (g, L) l"
  shows "regions (slots g' i) = regions (slots g i) \<or>
    (\<exists>m bs. gc_cleanup_thread m (regions (slots g i)) = (bs, regions (slots g' i))) \<or>
    (\<exists>a e. add_block a e (regions (slots g i)) = Some (regions (slots g' i)) \<and> e \<le> clock g)"
  using assms by (cases "gpc l"; auto simp: gc_code local_ok_def Let_def split: gc_splits)

lemma step_slots:
  assumes step: "gc_step r g l = Some (g', l')" and ok: "local_ok (g, L) l" "slots_ok g"
    and busy: "\<forall>i\<in>holds l. used (slots g i) = GC_BUSY" and top: "\<forall>i\<ge>MAX_GC_THREADS. used (slots g i) = GC_NULL"
  shows "slots_ok g'" "\<forall>i\<ge>MAX_GC_THREADS. used (slots g' i) = GC_NULL"
proof -
  note clock = step_clock [OF step]
  have "(\<forall>r\<in>set (regions (slots g' i)). fst r \<le> clock g) \<and> sorted_wrt (<) (map fst (regions (slots g' i)))" for i
  proof -
    have i: "\<forall>r\<in>set (regions (slots g i)). fst r \<le> clock g" "sorted_wrt (<) (map fst (regions (slots g i)))"
      using ok(2) by (auto simp: slots_ok_def)
    consider "regions (slots g' i) = regions (slots g i)"
      | (clean) m bs where "gc_cleanup_thread m (regions (slots g i)) = (bs, regions (slots g' i))"
      | (add) a e where "add_block a e (regions (slots g i)) = Some (regions (slots g' i))" "e \<le> clock g"
      using step_regions [OF step ok(1), of i] by blast
    then show ?thesis
    proof cases
      case clean
      then show ?thesis using cleanup_thread_parts(1,3) [OF clean] i by blast
    next
      case add
      then show ?thesis using add_block_parts(1,2) [OF add(1) i(1) add(2) i(2)] by blast
    qed (use i in simp)
  qed
  moreover have "used (slots g' j) = GC_NULL" if "i \<le> j" "used (slots g' i) = GC_NULL" for i j
  proof (rule ccontr)
    assume new: "used (slots g' j) \<noteq> GC_NULL"
    have i: "used (slots g i) = GC_NULL" using step_null(1) [OF step ok(1) busy] that(2) by simp
    then have "used (slots g j) = GC_NULL" using ok(2) that(1) by (auto simp: slots_ok_def)
    from step_null(2) [OF step ok(1) busy this new] have "\<not> i < j" using i by blast
    then show False using that new by (cases "i = j") simp_all
  qed
  moreover have "clock g < EPOCH_MAX" using ok(2) by (simp add: slots_ok_def)
  ultimately show "slots_ok g'" using clock step_idle_ts [OF step ok busy] unfolding slots_ok_def by metis
  show "\<forall>i\<ge>MAX_GC_THREADS. used (slots g' i) = GC_NULL" using top step_null(2) [OF step ok(1) busy] by (meson not_less)
qed

subsection \<open>The invariant is kept\<close>

lemma local_ok_other:
  assumes ok: "local_ok (g, L) l" and same: "\<forall>i\<in>holds l. slots g' i = slots g i" and clock: "clock g \<le> clock g'"
    and null: "\<And>i. used (slots g i) \<noteq> GC_NULL \<Longrightarrow> used (slots g' i) \<noteq> GC_NULL"
    and low: "\<And>j m. m \<le> clock g \<Longrightarrow> low (g, L) j m \<Longrightarrow> low (g', L') j m"
  shows "local_ok (g', L') l"
proof -
  have le: "x \<le> clock g \<Longrightarrow> x \<le> clock g'" for x using clock by auto
  have scan: "scanning (g, L) c i m \<Longrightarrow> (\<forall>k. c = All k \<longrightarrow> slots g' k = slots g k) \<Longrightarrow> scanning (g', L') c i m" for c i m
    using le low by (cases c) auto
  show ?thesis
  proof (cases "gpc l")
    case (M_used c i m)
    then have "\<forall>k. c = All k \<longrightarrow> slots g' k = slots g k" "slots g' (idx l) = slots g (idx l)"
      using same by (cases c; simp add: holds_def)+
    then show ?thesis using M_used ok le scan by (simp add: local_ok_def Let_def del: scanning.simps)
  next
    case (M_ts c i m)
    then have "\<forall>k. c = All k \<longrightarrow> slots g' k = slots g k" "slots g' (idx l) = slots g (idx l)"
      using same by (cases c; simp add: holds_def)+
    then show ?thesis using M_ts ok le scan by (simp add: local_ok_def Let_def del: scanning.simps)
  next
    case (Clean c m)
    then show ?thesis using ok same le low by (auto simp: local_ok_def holds_def Let_def)
  qed (use ok same le null in \<open>auto simp: local_ok_def holds_def Let_def\<close>)
qed

text \<open>What the scan has seen: the slot \<open>i\<close> is free, or a thread has a lower bound in it.\<close>

lemma free_slot_low: "gc_inv (g, L) \<Longrightarrow> used (slots g i) \<noteq> GC_BUSY \<Longrightarrow> low (g, L) i m"
proof -
  assume inv: "gc_inv (g, L)" and free: "used (slots g i) \<noteq> GC_BUSY"
  have "ts (slots g i) = EPOCH_MAX" using inv free by (simp add: gc_inv_def slots_ok_def)
  moreover have "\<not> (gpc (L t) = I_store e \<and> idx (L t) = i)" for t e
  proof
    assume "gpc (L t) = I_store e \<and> idx (L t) = i"
    then have "i \<in> holds (L t)" by (simp add: holds_def)
    then show False using inv free unfolding gc_inv_def owned_def by auto
  qed
  ultimately show ?thesis using epoch_max(2) unfolding low_def fst_conv snd_conv by metis
qed

lemma seen_slot_low: "gc_inv (g, L) \<Longrightarrow> ts (slots g i) \<noteq> EPOCH_MAX \<Longrightarrow> m \<le> ts (slots g i) \<Longrightarrow> low (g, L) i m"
proof -
  assume inv: "gc_inv (g, L)" and set: "ts (slots g i) \<noteq> EPOCH_MAX" and m: "m \<le> ts (slots g i)"
  have "\<not> (gpc (L t) = I_store e \<and> idx (L t) = i)" for t e
  proof
    assume "gpc (L t) = I_store e \<and> idx (L t) = i"
    moreover have "local_ok (g, L) (L t)" using inv by (simp add: gc_inv_def)
    ultimately show False using set by (simp add: local_ok_def Let_def)
  qed
  then show ?thesis using m unfolding low_def fst_conv snd_conv by blast
qed

lemma low_mono: "low s j m \<Longrightarrow> m' \<le> m \<Longrightarrow> low s j m'"
proof -
  assume low: "low s j m" and le: "m' \<le> m"
  have "m \<le> x \<Longrightarrow> m' \<le> x" for x using le by (rule order_trans)
  then show ?thesis using low unfolding low_def by blast
qed

lemma scanned_low:
  assumes inv: "gc_inv (g, L)" and pc: "gpc (L t) = M_used c i m" and top: "MAX_GC_THREADS \<le> i \<or> used (slots g i) = GC_NULL"
  shows "low (g, L) j m"
proof -
  have "local_ok (g, L) (L t)" using inv by (simp add: gc_inv_def)
  then have seen: "\<forall>j<i. low (g, L) j m" using pc by (simp add: local_ok_def Let_def)
  show ?thesis
  proof (cases "j < i")
    case False
    have "used (slots g j) = GC_NULL"
      using top
    proof
      assume "MAX_GC_THREADS \<le> i"
      then show ?thesis using False inv by (simp add: gc_inv_def)
    next
      assume "used (slots g i) = GC_NULL"
      then show ?thesis using False inv by (auto simp: gc_inv_def slots_ok_def not_less)
    qed
    then show ?thesis using inv by (intro free_slot_low) simp_all
  qed (use seen in simp)
qed

text \<open>\<open>gc_cleanup_all\<close> never gets past the slot it has taken itself.\<close>

lemma taken_slot_blocks:
  assumes inv: "gc_inv (g, L)" and pc: "gpc (L t) = M_used (All k) i m"
  shows "i \<le> k" "used (slots g k) = GC_BUSY" "ts (slots g k) = EPOCH_MAX" "i < MAX_GC_THREADS" "used (slots g i) \<noteq> GC_NULL"
proof -
  have l: "local_ok (g, L) (L t)" using inv by (simp add: gc_inv_def)
  then show i: "i \<le> k" "ts (slots g k) = EPOCH_MAX" using pc by (simp_all add: local_ok_def Let_def)
  have "k \<in> holds (L t)" using pc by (simp add: holds_def)
  then show k: "used (slots g k) = GC_BUSY" using inv unfolding gc_inv_def owned_def by auto
  have "k < MAX_GC_THREADS" using inv k unfolding gc_inv_def fst_conv by (metis not_less status.distinct(1))
  then show "i < MAX_GC_THREADS" using i(1) by simp
  show "used (slots g i) \<noteq> GC_NULL" using inv i(1) k unfolding gc_inv_def slots_ok_def fst_conv by (metis status.distinct(1))
qed

lemma step_compute_min:
  assumes inv: "gc_inv (g, L)" and step: "gc_compute_min (gpc (L t)) g (L t) = Some (g', l')"
    and pc: "gpc (L t) = M_used c i m \<or> gpc (L t) = M_ts c i m"
  shows "g' = g \<and> local_ok (g, L) l'"
proof -
  have l: "local_ok (g, L) (L t)" using inv by (simp add: gc_inv_def)
  show ?thesis
    using pc
  proof
    assume u: "gpc (L t) = M_used c i m"
    show ?thesis
    proof (cases c)
      case Own
      then show ?thesis
        using l step u scanned_low [OF inv u] free_slot_low [OF inv, of i m]
        by (auto simp: gc_compute_min_def local_ok_def Let_def less_Suc_eq split: if_splits status.splits)
    next
      case (All k)
      note blocks = taken_slot_blocks [OF inv u [unfolded All]]
      have "i \<noteq> k" if "used (slots g i) \<noteq> GC_BUSY" using blocks(2) that by blast
      then show ?thesis
        using l step u All blocks free_slot_low [OF inv, of i m]
        by (auto simp: gc_compute_min_def local_ok_def Let_def less_Suc_eq split: if_splits status.splits)
    qed
  next
    assume u: "gpc (L t) = M_ts c i m"
    have not_k: "i \<noteq> k" if "ts (slots g i) \<noteq> EPOCH_MAX" "c = All k" for k
      using l u that by (auto simp: local_ok_def Let_def)
    define v where "v = (if ts (slots g i) < m then ts (slots g i) else m)"
    have vm: "v \<le> m" by (auto simp: v_def)
    have at: "low (g, L) i v" if "ts (slots g i) \<noteq> EPOCH_MAX"
      using that by (intro seen_slot_low [OF inv]) (auto simp: v_def)
    have "m \<le> clock g" "\<forall>j<i. low (g, L) j m" using l u by (simp_all add: local_ok_def Let_def)
    then have v: "v \<le> clock g" "\<forall>j<i. low (g, L) j v" using vm low_mono by (auto intro: order_trans)
    have "g' = g" "l' = L t\<lparr>gpc := if ts (slots g i) = EPOCH_MAX then M_used c i m else M_used c (i + 1) v\<rparr>"
      using step u by (auto simp: gc_compute_min_def Let_def v_def)
    moreover have "scanning (g, L) c (i + 1) v" if set: "ts (slots g i) \<noteq> EPOCH_MAX"
    proof (cases c)
      case Own
      then show ?thesis using v at [OF set] by (auto simp: less_Suc_eq)
    next
      case (All k)
      then have "i \<le> k" "ts (slots g k) = EPOCH_MAX" using l u by (simp_all add: local_ok_def Let_def)
      then show ?thesis using v at [OF set] not_k [OF set All] All by (auto simp: less_Suc_eq)
    qed
    ultimately show ?thesis using l u by (simp add: local_ok_def Let_def del: scanning.simps)
  qed
qed

lemma local_ok_self:
  assumes inv: "gc_inv (g, L)" and step: "gc_step r g (L t) = Some (g', l')"
  shows "local_ok (g', L(t := l')) l'"
proof -
  have l: "local_ok (g, L) (L t)" and ok: "slots_ok g" using inv by (simp_all add: gc_inv_def)
  show ?thesis
  proof (cases "\<exists>c i m. gpc (L t) = M_used c i m \<or> gpc (L t) = M_ts c i m")
    case True
    then obtain c i m where pc: "gpc (L t) = M_used c i m \<or> gpc (L t) = M_ts c i m" by blast
    then have "gc_compute_min (gpc (L t)) g (L t) = Some (g', l')" using step by (auto simp: gc_step_def)
    from step_compute_min [OF inv this pc] have same: "g' = g" "local_ok (g, L) l'" by simp_all
    from local_ok_other [OF same(2), of g "L(t := l')"] show ?thesis
      using step_low [OF step l ok] unfolding same(1) by blast
  next
    case False
    then show ?thesis using step l ok
      by (cases "gpc (L t)")
        (auto simp: gc_code local_ok_def slots_ok_def next_slot_def MAX_GC_THREADS_def less_Suc_eq Let_def split: gc_splits)
  qed
qed

lemma step_freed:
  assumes inv: "gc_inv (g, L)" and step: "gc_step r g (L t) = Some (g', l')" and x: "(a, e) \<in> set (freed g')"
  shows "(a, e) \<in> set (freed g) \<or> (\<exists>m. e < m \<and> m \<le> clock g \<and> (\<forall>j. low (g, L) j m))"
proof (cases "\<exists>m. gpc (L t) = Clean Own m")
  case True
  then obtain m where pc: "gpc (L t) = Clean Own m" by blast
  obtain bs rs where c: "gc_cleanup_thread m (regions (slots g (idx (L t)))) = (bs, rs)" by force
  have "local_ok (g, L) (L t)" using inv by (simp add: gc_inv_def)
  then have "m \<le> clock g" "\<forall>j. low (g, L) j m" using pc by (simp_all add: local_ok_def Let_def)
  moreover have "e < m" if "(a, e) \<in> set bs" using cleanup_thread_parts(2) [OF c] that by auto
  moreover have "freed g' = bs @ freed g" using step pc c by (auto simp: gc_step_def clean_slot_def set_slot_def)
  ultimately show ?thesis using x by auto
next
  case False
  have "local_ok (g, L) (L t)" using inv by (simp add: gc_inv_def)
  then have "freed g' = freed g" using step False
    by (cases "gpc (L t)") (auto simp: gc_code local_ok_def Let_def split: gc_splits)
  then show ?thesis using x by simp
qed

lemma thread_inv:
  assumes inv: "gc_inv (g, L)" and step: "gc_step r g (L t) = Some (g', l')"
  shows "gc_inv (g', L(t := l'))"
proof -
  have l: "local_ok (g, L) (L u)" for u using inv by (simp add: gc_inv_def)
  have ok: "slots_ok g" and own: "owned (g, L)" and top: "\<forall>i\<ge>MAX_GC_THREADS. used (slots g i) = GC_NULL"
    using inv by (simp_all add: gc_inv_def)
  have busy: "\<forall>i\<in>holds (L t). used (slots g i) = GC_BUSY" using own by (auto simp: owned_def)
  note low = step_low [OF step l ok]
  note clock = step_clock [OF step]
  have own': "owned (g', L(t := l'))" by (rule step_owned [OF step own l])
  have "local_ok (g', L(t := l')) (L u)" if "u \<noteq> t" for u
  proof (rule local_ok_other [OF l])
    show "\<forall>i\<in>holds (L u). slots g' i = slots g i"
    proof
      fix i
      assume i: "i \<in> holds (L u)"
      then have "i \<notin> holds (L t)" using own that by (fastforce simp: owned_def)
      moreover have "i \<notin> holds l'"
      proof
        assume "i \<in> holds l'"
        then have "i \<in> holds ((L(t := l')) t)" "i \<in> holds ((L(t := l')) u)" using i that by simp_all
        then show False using own' that unfolding owned_def snd_conv by blast
      qed
      ultimately show "slots g' i = slots g i" by (rule step_frame [OF step])
    qed
    show "used (slots g i) \<noteq> GC_NULL \<Longrightarrow> used (slots g' i) \<noteq> GC_NULL" for i using step_null(1) [OF step l busy] by blast
  qed (use clock low in simp_all)
  then have "\<forall>u. local_ok (g', L(t := l')) ((L(t := l')) u)" using local_ok_self [OF inv step] by simp
  moreover have "freed_ok (g', L(t := l'))" unfolding freed_ok_def
  proof clarsimp
    fix a e
    assume "(a, e) \<in> set (freed g')"
    then have "\<exists>m. e < m \<and> m \<le> clock g \<and> (\<forall>j. low (g, L) j m)"
      using step_freed [OF inv step] inv unfolding gc_inv_def freed_ok_def by fastforce
    then show "\<exists>m>e. m \<le> clock g' \<and> (\<forall>j. low (g', L(t := l')) j m)" using low clock by auto
  qed
  ultimately show ?thesis using step_slots [OF step l ok busy top] own' by (simp add: gc_inv_def)
qed

lemma gc_sys_inv: "gc_sys s s' \<Longrightarrow> gc_inv s \<Longrightarrow> gc_inv s'"
proof (induction rule: gc_sys.induct)
  case (thread r g L t g' l')
  then show ?case by (intro thread_inv)
next
  case (tick g now L)
  have low: "low (g\<lparr>clock := now\<rparr>, L) j m = low (g, L) j m" for j m by (simp add: low_def)
  have le: "x \<le> clock g \<Longrightarrow> x \<le> now" for x using tick(1) by (rule order_trans [rotated])
  have "local_ok (g\<lparr>clock := now\<rparr>, L) (L t)" for t
    using local_ok_other [of g L "L t" "g\<lparr>clock := now\<rparr>" L] tick low by (simp add: gc_inv_def)
  moreover have "freed_ok (g\<lparr>clock := now\<rparr>, L)" using tick(3) le unfolding gc_inv_def freed_ok_def low by fastforce
  moreover have "slots_ok (g\<lparr>clock := now\<rparr>)" using tick le unfolding gc_inv_def slots_ok_def by auto
  ultimately show ?case using tick(3) by (simp add: gc_inv_def owned_def)
qed

definition gc_reach :: "gc_state \<Rightarrow> bool" where
  "gc_reach s \<longleftrightarrow> (\<exists>now<EPOCH_MAX. gc_sys\<^sup>*\<^sup>* (gc_start now) s)"

lemma gc_reach_inv: "gc_reach s \<Longrightarrow> gc_inv s"
  unfolding gc_reach_def using run_invariant [of gc_sys _ s gc_inv] gc_start_inv gc_sys_inv by blast

subsection \<open>No block is lost, none is freed twice\<close>

definition pending :: "gc_globals \<Rightarrow> nat \<Rightarrow> (nat \<times> u64) multiset" where
  "pending g i = mset (gc_clean_regions (regions (slots g i)))"

definition accounted :: "gc_globals \<Rightarrow> bool" where
  "accounted g \<longleftrightarrow> mset (freed g) + (\<Sum>i<MAX_GC_THREADS. pending g i) = mset (given g)"

lemma clean_regions_append: "gc_clean_regions (xs @ ys) = gc_clean_regions xs @ gc_clean_regions ys"
  by (induction xs) simp_all

lemma all_regions_pending: "mset (gc_clean_regions (all_regions g)) = (\<Sum>i<MAX_GC_THREADS. pending g i)"
proof -
  have "mset (gc_clean_regions (concat (map (\<lambda>i. regions (slots g i)) [0..<n]))) = (\<Sum>i<n. pending g i)" for n
    by (induction n) (simp_all add: clean_regions_append pending_def ac_simps)
  then show ?thesis by (simp add: all_regions_def)
qed

lemma pending_at:
  assumes i: "i < MAX_GC_THREADS" and rest: "\<And>j. j \<noteq> i \<Longrightarrow> pending g' j = pending g j"
  shows "(\<Sum>j<MAX_GC_THREADS. pending g' j) + pending g i = (\<Sum>j<MAX_GC_THREADS. pending g j) + pending g' i"
proof -
  have "(\<Sum>j\<in>{..<MAX_GC_THREADS} - {i}. pending g' j) = (\<Sum>j\<in>{..<MAX_GC_THREADS} - {i}. pending g j)"
    using rest by (intro sum.cong) auto
  then show ?thesis using i by (simp add: sum.remove [of _ i])
qed

lemma step_accounted:
  assumes inv: "gc_inv (g, L)" and step: "gc_step r g (L t) = Some (g', l')" and acc: "accounted g"
  shows "accounted g'"
proof -
  have l: "local_ok (g, L) (L t)" and own: "owned (g, L)" and top: "\<forall>i\<ge>MAX_GC_THREADS. used (slots g i) = GC_NULL"
    using inv by (simp_all add: gc_inv_def)
  let ?i = "idx (L t)"
  consider (free) a e where "gpc (L t) = F_call a e" | (clean) m where "gpc (L t) = Clean Own m"
    | (other) "freed g' = freed g" "given g' = given g" "\<And>i. regions (slots g' i) = regions (slots g i)"
    using step l by (cases "gpc (L t)") (force simp: gc_code local_ok_def Let_def split: gc_splits)+
  then show ?thesis
  proof cases
    case free
    have "?i \<in> holds (L t)" using free by (simp add: holds_def)
    then have "used (slots g ?i) = GC_BUSY" using own unfolding owned_def by auto
    then have i: "?i < MAX_GC_THREADS" using top by (metis not_less status.distinct(1))
    obtain rs where rs: "add_block a e (regions (slots g ?i)) = Some rs" "regions (slots g' ?i) = rs"
      "freed g' = freed g" "given g' = (a, e) # given g" "\<And>j. j \<noteq> ?i \<Longrightarrow> slots g' j = slots g j"
      using step free by (auto simp: gc_code Let_def split: option.splits)
    have "\<forall>r\<in>set (regions (slots g ?i)). fst r \<le> clock g" "sorted_wrt (<) (map fst (regions (slots g ?i)))" "e \<le> clock g"
      using inv l free by (auto simp: gc_inv_def slots_ok_def local_ok_def Let_def)
    then have "pending g' ?i = {#(a, e)#} + pending g ?i" using add_block_parts(3) [OF rs(1)] rs(2) by (simp add: pending_def)
    then have "(\<Sum>j<MAX_GC_THREADS. pending g' j) = {#(a, e)#} + (\<Sum>j<MAX_GC_THREADS. pending g j)"
      using pending_at [OF i, of g' g] rs(5) by (simp add: pending_def)
    then show ?thesis using acc rs(3,4) by (simp add: accounted_def)
  next
    case clean
    have "?i \<in> holds (L t)" using clean by (simp add: holds_def)
    then have "used (slots g ?i) = GC_BUSY" using own unfolding owned_def by auto
    then have i: "?i < MAX_GC_THREADS" using top by (metis not_less status.distinct(1))
    obtain bs rs where c: "gc_cleanup_thread m (regions (slots g ?i)) = (bs, rs)" by force
    then have rs: "regions (slots g' ?i) = rs" "freed g' = bs @ freed g" "given g' = given g"
      "\<And>j. j \<noteq> ?i \<Longrightarrow> slots g' j = slots g j"
      using step clean by (auto simp: gc_step_def clean_slot_def set_slot_def)
    have "mset bs + pending g' ?i = pending g ?i" using cleanup_thread_parts(4) [OF c] rs(1) by (simp add: pending_def)
    moreover have "(\<Sum>j<MAX_GC_THREADS. pending g' j) + pending g ?i = (\<Sum>j<MAX_GC_THREADS. pending g j) + pending g' ?i"
      using rs(4) by (intro pending_at [OF i]) (simp add: pending_def)
    ultimately have "(\<Sum>j<MAX_GC_THREADS. pending g' j) + mset bs + pending g' ?i = (\<Sum>j<MAX_GC_THREADS. pending g j) + pending g' ?i"
      by (simp only: add.assoc)
    then have "(\<Sum>j<MAX_GC_THREADS. pending g' j) + mset bs = (\<Sum>j<MAX_GC_THREADS. pending g j)" by (simp only: add_right_cancel)
    moreover have "mset (bs @ freed g) + (\<Sum>j<MAX_GC_THREADS. pending g' j) =
        mset (freed g) + ((\<Sum>j<MAX_GC_THREADS. pending g' j) + mset bs)" by (simp add: ac_simps)
    ultimately show ?thesis using acc unfolding accounted_def rs(2,3) by (simp only:)
  next
    case other
    then show ?thesis using acc by (simp add: accounted_def pending_def)
  qed
qed

lemma gc_reach_accounted: "gc_reach s \<Longrightarrow> accounted (fst s)"
proof -
  assume "gc_reach s"
  then obtain now where "now < EPOCH_MAX" "gc_sys\<^sup>*\<^sup>* (gc_start now) s" by (auto simp: gc_reach_def)
  moreover have "gc_inv (gc_start now) \<and> accounted (fst (gc_start now))"
    using gc_start_inv calculation(1) by (simp add: gc_start_def gc_init_def accounted_def pending_def)
  moreover have "gc_inv v \<and> accounted (fst v)" if "gc_inv u \<and> accounted (fst u)" "gc_sys u v" for u v
    using that(2,1)
  proof (induction rule: gc_sys.induct)
    case (thread r g L t g' l')
    then show ?case using thread_inv step_accounted by fastforce
  next
    case (tick g now L)
    then have "gc_inv (g\<lparr>clock := now\<rparr>, L)" using gc_sys_inv [OF gc_sys.tick] by blast
    then show ?case using tick by (simp add: accounted_def pending_def)
  qed
  ultimately show ?thesis using run_invariant [of gc_sys _ s "\<lambda>s. gc_inv s \<and> accounted (fst s)"] by blast
qed

subsection \<open>Properties\<close>

lemma add_block_ok: "\<forall>r\<in>set rs. fst r \<le> e \<Longrightarrow> add_block a e rs \<noteq> None"
  by (cases rs rule: rev_cases) (auto simp: add_block_def)

lemma step_not_failed:
  assumes inv: "gc_inv (g, L)" and busy: "gpc (L t) \<notin> {Outside, Stopped, Registered}"
  shows "gc_step r g (L t) \<noteq> None"
proof -
  have l: "local_ok (g, L) (L t)" using inv by (simp add: gc_inv_def)
  show ?thesis
  proof (cases "\<exists>a e. gpc (L t) = F_call a e")
    case True
    then obtain a e where pc: "gpc (L t) = F_call a e" by blast
    then have "add_block a e (regions (slots g (idx (L t)))) \<noteq> None" using l by (intro add_block_ok) (simp add: local_ok_def Let_def)
    then show ?thesis using pc by (auto simp: gc_code Let_def)
  next
    case False
    then show ?thesis using l busy by (cases "gpc (L t)") (auto simp: gc_code local_ok_def Let_def split: gc_splits)
  qed
qed

text \<open>A thread with a slot: from the moment it has taken it until it gives it back.\<close>

definition has_slot :: "gc_local \<Rightarrow> bool" where
  "has_slot l \<longleftrightarrow> idx l \<in> holds l"

text \<open>C28: whatever the threads do and however the clock moves, a block the collector has returned to
  the system was given to \<open>gc_free\<close> at a clock less than the lower bound of every thread with a slot, now and
  from then on; so no transaction can still see it. Every block is returned at most once, and \<open>gc_exit\<close>, when
  it does not find a thread left, returns all the rest. No \<open>assert\<close> of the collector fails: a thread in one
  of its functions always has a next step.\<close>

theorem gc_safe:
  assumes "gc_reach (g, L)"
  shows "(\<forall>(a, e)\<in>set (freed g). \<forall>t. has_slot (L t) \<longrightarrow> e < ts (slots g (idx (L t)))) \<and>
    mset (freed g) + mset (gc_clean_regions (all_regions g)) = mset (given g) \<and>
    (\<forall>g'. gc_exit g = Some g' \<longrightarrow> mset (freed g') = mset (given g)) \<and>
    (\<forall>t r. gpc (L t) \<notin> {Outside, Stopped, Registered} \<longrightarrow> gc_step r g (L t) \<noteq> None)"
proof -
  have inv: "gc_inv (g, L)" using assms by (rule gc_reach_inv)
  have early: "e < ts (slots g j)" if "(a, e) \<in> set (freed g)" for a e j
  proof -
    have "freed_ok (g, L)" using inv by (simp add: gc_inv_def)
    with that have "\<exists>m. e < m \<and> m \<le> clock g \<and> (\<forall>j. low (g, L) j m)" by (auto simp: freed_ok_def)
    then obtain m where m: "e < m" "low (g, L) j m" by blast
    then have "m \<le> ts (slots g j)" by (simp add: low_def)
    with m(1) show ?thesis by (rule less_le_trans)
  qed
  have all: "mset (freed g) + mset (gc_clean_regions (all_regions g)) = mset (given g)"
    using gc_reach_accounted [OF assms] by (simp add: accounted_def all_regions_pending)
  show ?thesis
  proof (intro conjI)
    show "\<forall>(a, e)\<in>set (freed g). \<forall>t. has_slot (L t) \<longrightarrow> e < ts (slots g (idx (L t)))" using early by blast
    show "\<forall>g'. gc_exit g = Some g' \<longrightarrow> mset (freed g') = mset (given g)"
    proof (intro allI impI)
      fix g'
      assume "gc_exit g = Some g'"
      then have "mset (freed g') = mset (freed g) + mset (gc_clean_regions (all_regions g))"
        by (auto simp: gc_exit_def add.commute split: if_splits)
      then show "mset (freed g') = mset (given g)" using all by simp
    qed
    show "\<forall>t r. gpc (L t) \<notin> {Outside, Stopped, Registered} \<longrightarrow> gc_step r g (L t) \<noteq> None"
      using step_not_failed [OF inv] by blast
  qed (rule all)
qed

text \<open>A run of given threads with given requests.\<close>

fun gc_run :: "(nat \<times> gc_request) list \<Rightarrow> gc_state \<Rightarrow> gc_state option" where
  "gc_run [] s = Some s"
| "gc_run ((t, r) # xs) s = (case gc_step r (fst s) (snd s t) of None \<Rightarrow> None
     | Some (g', l') \<Rightarrow> gc_run xs (g', (snd s)(t := l')))"

lemma gc_run_reach: "gc_run xs s = Some s' \<Longrightarrow> gc_sys\<^sup>*\<^sup>* s s'"
proof (induction xs s rule: gc_run.induct)
  case (2 t r xs s)
  then obtain g' l' where step: "gc_step r (fst s) (snd s t) = Some (g', l')" "gc_run xs (g', (snd s)(t := l')) = Some s'"
    by (auto split: option.splits)
  then have "gc_sys s (g', (snd s)(t := l'))" using gc_sys.thread [of r "fst s" "snd s" t g' l'] by simp
  then show ?case using 2(1) [OF step(1) refl step(2)] by (rule converse_rtranclp_into_rtranclp)
qed simp

lemma run_of_start: "now < EPOCH_MAX \<Longrightarrow> gc_run xs (gc_start now) = Some s \<Longrightarrow> gc_reach s"
  using gc_run_reach unfolding gc_reach_def by blast

text \<open>Two threads register; the second frees block 77 and leaves its slot full; the first cleans up all.\<close>

definition two_threads :: "(nat \<times> gc_request) list" where
  "two_threads = replicate 6 (0, Init) @ replicate 7 (1, Init) @ replicate 9 (1, Free 77) @ replicate 4 (1, Exit) @
     replicate 8 (0, Cleanup_all)"

lemma two_threads_run:
  "map_option (\<lambda>s. (gpc (snd s 0), regions (slots (fst s) 1))) (gc_run two_threads (gc_start 5)) = Some (M_ts (All 1) 0 5, [(5, [77])])"
  by code_simp

theorem gc_safe_witness:
  "\<exists>g L. gc_reach (g, L) \<and> mset (freed g) + mset (gc_clean_regions (all_regions g)) = mset (given g) \<and> regions (slots g 1) = [(5, [77])]"
proof -
  obtain g L where s: "gc_run two_threads (gc_start 5) = Some (g, L)" "regions (slots g 1) = [(5, [77])]"
    using two_threads_run by auto
  have "gc_reach (g, L)" using run_of_start [OF _ s(1)] by (simp add: EPOCH_MAX_def)
  then show ?thesis using gc_safe [of g L] s(2) by blast
qed

text \<open>A thread in \<open>gc_compute_min\<close> for \<open>gc_cleanup_all\<close>, which has taken slot \<open>k\<close>.\<close>

definition cleaning_up :: "nat \<Rightarrow> gc_local \<Rightarrow> bool" where
  "cleaning_up k l \<longleftrightarrow> gpc l = A_now k \<or> (\<exists>i m. gpc l = M_used (All k) i m \<or> gpc l = M_ts (All k) i m)"

lemma cleaning_up_step:
  assumes inv: "gc_inv (g, L)" and c: "cleaning_up k (L t)" and step: "gc_step r g (L t) = Some (g', l')"
  shows "cleaning_up k l'"
  using c unfolding cleaning_up_def [of k "L t"]
proof (elim disjE exE)
  fix i m
  assume u: "gpc (L t) = M_used (All k) i m"
  then show ?thesis using step taken_slot_blocks(4,5) [OF inv u]
    by (auto simp: gc_step_def gc_compute_min_def cleaning_up_def split: status.splits)
qed (use step in \<open>auto simp: gc_step_def gc_compute_min_def gc_cleanup_all_def cleaning_up_def Let_def split: if_splits\<close>)

lemma cleaning_up_sys: "gc_sys s s' \<Longrightarrow> gc_inv s \<Longrightarrow> cleaning_up k (snd s t) \<Longrightarrow> cleaning_up k (snd s' t)"
proof (induction rule: gc_sys.induct)
  case (thread r g L u g' l')
  then show ?case using cleaning_up_step [of g L k t r g' l'] by (cases "u = t") auto
qed simp

text \<open>C31: \<open>gc_cleanup_all\<close> does not return once it has found a slot that a thread has left with blocks in it. It makes
  the slot its own by setting it to \<open>GC_BUSY\<close>, and then waits in \<open>gc_compute_min\<close> for every busy slot to
  get a lower bound, this one too, which nobody sets: it loops for ever, whatever the others do, and never frees a
  block; and the slot stays busy without a lower bound, so that nobody else's \<open>gc_compute_min\<close> gets past it.\<close>

theorem gc_cleanup_all_stuck:
  assumes "gc_reach (g, L)" and "cleaning_up k (L t)" and "gc_sys\<^sup>*\<^sup>* (g, L) (g', L')"
  shows "cleaning_up k (L' t) \<and> used (slots g' k) = GC_BUSY \<and> ts (slots g' k) = EPOCH_MAX \<and>
    (\<forall>u j m. gpc (L' u) \<noteq> Clean (All j) m)"
proof -
  have "gc_inv (g', L') \<and> cleaning_up k (snd (g', L') t)"
    using assms(3)
    by (rule run_invariant) (use gc_reach_inv [OF assms(1)] assms(2) gc_sys_inv cleaning_up_sys in auto)
  then have inv: "gc_inv (g', L')" and c: "cleaning_up k (L' t)" by simp_all
  have l: "local_ok (g', L') (L' u)" for u using inv by (simp add: gc_inv_def)
  have "k \<in> holds (L' t)" using c by (auto simp: cleaning_up_def holds_def)
  then have "used (slots g' k) = GC_BUSY" using inv unfolding gc_inv_def owned_def by auto
  moreover have "ts (slots g' k) = EPOCH_MAX" using c l [of t] by (auto simp: cleaning_up_def local_ok_def Let_def)
  moreover have "gpc (L' u) \<noteq> Clean (All j) m" for u j m using l [of u] by (auto simp: local_ok_def Let_def)
  ultimately show ?thesis using c by blast
qed

theorem gc_cleanup_all_stuck_witness:
  "\<exists>g L. gc_reach (g, L) \<and> regions (slots g 1) = [(5, [77])] \<and>
    (\<forall>g' L'. gc_sys\<^sup>*\<^sup>* (g, L) (g', L') \<longrightarrow> cleaning_up 1 (L' 0) \<and> ts (slots g' 1) = EPOCH_MAX)"
proof -
  obtain g L where s: "gc_run two_threads (gc_start 5) = Some (g, L)" "regions (slots g 1) = [(5, [77])]" "gpc (L 0) = M_ts (All 1) 0 5"
    using two_threads_run by auto
  have r: "gc_reach (g, L)" using run_of_start [OF _ s(1)] by (simp add: EPOCH_MAX_def)
  have "cleaning_up 1 (L 0)" using s(3) by (simp add: cleaning_up_def)
  then show ?thesis using gc_cleanup_all_stuck [OF r] r s(2) by blast
qed

end
