(* ===== verification/Spec2Isabelle.thy ===== *)
theory Spec2Isabelle
  imports STM_Results Spin_TAS Spin_Swap Spin_CAS Ticket_Locks Array_Lock CLH_Lock MCS_Lock
    Peterson_Lock Fast_Lock Bakery_Lock RW_Lock Ticket_RW_Lock Section_Locks Counters
    Drepper_Mutex Simple_Mutex Monitors Fair_Mutex Futex_Semaphore_Spin
    Barrier_Semaphore Barrier_Monitor Barrier_Futex Stack_CAS RTM_Lock STM_Counter STM_Progress STM_Log STM_Callbacks Epoch_GC
begin

text \<open>
  A development about the C programs of this repository: small programs with threads, each
  around one way to synchronise them, and the modules of the transactional memory library they use.

  \<^bold>\<open>The programs.\<close> Almost every file is one program. \<open>main\<close> creates \<open>NUM_THREADS\<close> threads and joins them; each
  runs \<open>count\<close>, which repeats a round \<open>MAX_COUNT / NUM_THREADS\<close> times: \<open>lock\<close>, increment the global
  \<open>counter\<close>, \<open>unlock\<close>. At the end the program prints the counter. The files differ in \<open>lock\<close> and \<open>unlock\<close>. Other
  groups have their own \<open>count\<close>: counters without a lock, barriers, stacks, transactions.

  \<^bold>\<open>Memory and steps.\<close> Memory is sequentially consistent. A step of a thread is one access to a shared variable,
  with the local computation that follows it up to the next access; an atomic builtin is one step, \<open>x++\<close> on a
  shared \<open>x\<close> two. Between any two steps any other thread may run. Fences, \<open>sched_yield\<close>, \<open>nanosleep\<close> and the
  \<open>pause\<close> instruction are steps that change no memory. C integers are words of their width, with wrap-around.
  What the environment chooses is an argument of the definitions that use it: the values of \<open>rand\<close>, the bytes
  \<open>malloc\<close> returns and its addresses, the contents of uninitialised locals, whether the kernel wakes
  sleepers spuriously, the statuses of hardware aborts. A step function returns the list of all outcomes,
  so that what may happen (a weak compare-and-swap that fails, an abort) is several members, and a
  blocked call has none.

  \<^bold>\<open>The frame.\<close>
  \<^item> \<open>Prelude\<close>: C types, the collection \<open>lock_code\<close>, invariants and measures of transition relations.
  \<^item> \<open>Lock_System\<close>: the most general client of a lock. A thread is outside, inside \<open>lock\<close>, in the
    critical section, or in \<open>unlock\<close>, and calls when it likes, up to a bound of calls. The locales \<open>lock_invariant\<close>,
    \<open>lock_contract\<close> (mutual exclusion), \<open>rw_contract\<close> (writers exclude everybody), \<open>live_lock\<close> (some thread can always
    make progress, by a measure) are what a lock promises.
  \<^item> \<open>Harness\<close>: \<open>count\<close> and \<open>main\<close> around any lock. Every run of a program is, seen through its lock,
    a run of the general client (\<open>program_refines_lock_system\<close>), and from the contract of the lock alone follow that the
    counter printed is the number of increments, and that every reachable state can finish (\<open>locked_program\<close>,
    \<open>rw_program\<close>, \<open>live_program\<close>).
  \<^item> \<open>Fork_Join\<close>: \<open>main\<close> around any body of a thread, for the programs without \<open>lock\<close> and \<open>unlock\<close>.

  Each program interprets the locale that fits it with its own step functions; its correctness is then a fact of the interpretation.

  \<^bold>\<open>The locks.\<close>
  \<^item> \<open>Flag_Lock\<close> (locks that are a flag), \<open>Spin_Common\<close>, \<open>Spin_TAS\<close>, \<open>Spin_Swap\<close>, \<open>Spin_CAS\<close>: the locks of one word under
    \<open>spinlocks/\<close> and \<open>hardware/counter_*.c\<close>, and the exponential backoff.
  \<^item> \<open>Queue_Lock\<close> (the abstract queue), \<open>Queue_Ticket\<close> (tickets modulo the word), \<open>Ticket_Locks\<close>, \<open>Array_Lock\<close>,
    \<open>CLH_Lock\<close>, \<open>MCS_Lock\<close>: the queue locks of \<open>spinlocks/\<close>, each shown to implement the abstract queue step by step (\<open>follows_queue\<close>), so that
    no thread overtakes one that came before it (\<open>no_overtaking\<close>).
  \<^item> \<open>Peterson_Lock\<close>, \<open>Fast_Lock\<close>, \<open>Bakery_Lock\<close>: the algorithms of \<open>intro/\<close> from reads and writes alone.
  \<^item> \<open>RW_Lock\<close>, \<open>Ticket_RW_Lock\<close>: the readers-writer locks.
  \<^item> \<open>Section_Locks\<close>: programs whose exclusion comes from POSIX (\<open>semaphores/\<close>), from \<open>__transaction_atomic\<close> or from
    elided exchanges (\<open>transactional/\<close>), and the counters in arrays.
  \<^item> \<open>Futex\<close> (the kernel's wait and wake), \<open>Drepper_Mutex\<close>, \<open>Simple_Mutex\<close>, \<open>Fair_Mutex\<close>, \<open>Futex_Semaphore\<close>,
    \<open>Futex_Semaphore_Spin\<close>: \<open>futex/\<close>. No wake-up is lost.
  \<^item> \<open>Monitors\<close>: \<open>monitors/\<close>, with the program that loses a signal.

  \<^bold>\<open>Other programs.\<close>
  \<^item> \<open>Counters\<close>: exactly which values the counters without a lock can print, and that the programs end.
  \<^item> \<open>Barriers\<close> (the shared \<open>run\<close> and the contract of a barrier), \<open>Barrier_Semaphore\<close>, \<open>Barrier_Monitor\<close>, \<open>Barrier_Futex\<close>.
  \<^item> \<open>Stacks\<close> (\<open>add_elements\<close> and the contract of \<open>push\<close> and \<open>pop\<close>), \<open>Stack_Tagged\<close>, \<open>Stack_LLSC\<close>, \<open>Stack_CAS\<close>: linearizable
    stacks on linked nodes, and the ABA failure of the plain compare-and-swap.
  \<^item> \<open>Transactions\<close>, \<open>RTM_Lock\<close>, \<open>STM_Counter\<close>: the programs with hardware transactions, and the one that falls back to tinySTM.

  \<^bold>\<open>tinySTM.\<close>
  \<^item> \<open>STM_Wrappers\<close>: \<open>src/wrappers.c\<close>, loads and stores of every C type on top of those of words.
  \<^item> \<open>Blocks\<close>, \<open>STM_Log\<close>: the undo log of \<open>src/mod_log.c\<close> and the memory blocks it is kept in. An abort puts back every location
    that was logged, whatever was written since; but entries of 16, 32 and 64 bits are kept in a \<open>char\<close>, so what
    these put back is cut off. Stated for logs of up to \<open>2 ^ 30\<close> accesses, where the doubled sizes fit their type.
  \<^item> \<open>STM_Callbacks\<close>: \<open>src/mod_cb_mem.c\<close>, actions for commit and abort and memory allocated and freed in transactions.
    The callbacks of the transaction run, the last first, on the outcome they were registered for, and blocks are freed
    exactly when they should be, up to \<open>2 ^ 15\<close> callbacks; with one more the size of the array wraps to 0. Sizes of up to \<open>2 ^ 64 - 8\<close> bytes
    are rounded up to words; the offset of \<open>stm_free2\<close> is rounded up where it should be rounded down.
  \<^item> \<open>Epoch_GC\<close>: \<open>src/gc.c\<close>, as a relation between states of the 1024 slots, each load and store of a slot a step. No block is freed
    while a transaction runs that began before the block was given back; \<open>gc_cleanup_all\<close> waits for itself for ever once a thread has left blocks behind.
  \<^item> \<open>STM_ETL\<close>: transactions, \<open>src/stm_internal.h\<close> and \<open>src/stm_wbetl.h\<close> with the design and the contention manager of the
    \<open>Makefile\<close>, each access to memory, a lock or the clock a step (\<open>etl_step\<close>). \<open>STM_Traces\<close>: what a transaction
    has read and written, and the memory after each commit. \<open>STM_Serial\<close>: the invariant and its preservation by
    every step. \<open>STM_Runs\<close>: runs evaluated step by step. \<open>STM_Results\<close>: committed transactions are serializable in the order of
    their times; a running one has read a snapshot until it takes its first lock, and not longer; a time fits into the word
    of a lock for up to 8192 threads; and with \<open>no_retry\<close> a commit or a lock can be lost,
    and the reads of a read-only transaction that writes are not validated.
  \<^item> \<open>STM_Programs\<close>, \<open>STM_Progress\<close>: \<open>mutex_tinystm.c\<close>, \<open>rw_tinystm.c\<close> and \<open>array_tinystm.c\<close> on the steps of \<open>STM_ETL\<close>, with the parts of words
    of \<open>STM_Wrappers\<close>. Every decided transaction adds one to the memory of its time, so the invariant of \<open>STM_Serial\<close> gives what is printed; and
    a thread that goes on alone after the others have come to rest commits.

  \<^bold>\<open>Bounds.\<close> The number of threads and \<open>MAX_COUNT\<close> are parameters wherever the program is right for all of them.
  Tickets of 16 bits need fewer than \<open>2 ^ 16\<close> threads, of 32 bits fewer than \<open>2 ^ 32\<close>; a count of type \<open>int\<close> fewer
  than \<open>2 ^ 31\<close>; the numbers of the bakery fewer than \<open>2 ^ 32\<close> calls; the tags of the stack fewer than \<open>2 ^ 64\<close>
  operations; the array locks as many slots as threads, a number that divides 65536. Programs whose arrays have a fixed length have
  their \<open>NUM_THREADS\<close> written out. No fuel is used: runs are relations, and that a program can finish is proved by measures.

  \<^bold>\<open>Not modelled.\<close> Weak memory: the orderings given to the builtins have no meaning here, so a missing fence
  would not show. Failing calls of \<open>pthread_create\<close>, \<open>malloc\<close> and the kernel. The text \<open>printf\<close> makes, except which
  values are printed. Fairness of the scheduler: what is proved is that every reachable state can finish, not that it must.
  Of tinySTM: irrevocable transactions, quiescence and the roll-over of the clock, the statistics; the designs \<open>stm_wbctl.h\<close>
  and \<open>stm_wt.h\<close> and the other contention managers; \<open>atomic.h\<close> and \<open>tls.h\<close>; the modules \<open>mod_ab.c\<close>, \<open>mod_stats.c\<close>, \<open>mod_print.c\<close>,
  \<open>mod_order.c\<close>, the compiler interfaces under \<open>abi/\<close>, the simulated hardware extension under \<open>src/asf/\<close> and the vendored
  portable atomics under \<open>src/atomic_ops/\<close>; the counter programs leave out \<open>stm_exit_thread\<close> and \<open>stm_exit\<close>. Only \<open>array_rtm_tinystm.c\<close>, which never
  calls \<open>stm_init\<close>, is on transactions of the library as its documentation says they are (\<open>Transactions\<close>): what is shown of it is its protocol with \<open>in_stm\<close>.
  The programs in Go, Java and Python say the same in other languages; the measurements, scripts and build files hold no code of the programs.
\<close>

section \<open>Properties that span the components\<close>

text \<open>C1: the fourteen spin locks of one word are correct for any number of threads and any
  \<open>MAX_COUNT\<close>, five with test-and-set, five with an exchange and four with a compare-and-swap:
  no two threads are ever between \<open>lock\<close> and \<open>unlock\<close>, the value printed at the end counts every
  increment, and every reachable state can still finish; whatever \<open>rand()\<close> returns where it
  backs off, and with every spurious failure of the weak compare-and-swap.\<close>

theorem spin_locks_correct:
  "program_correct (counter_tas_prog n m) \<and> program_correct (simple_spinlock_prog n m) \<and>
   program_correct (ttas_prog n m) \<and> program_correct (tas_yield_prog n m) \<and>
   program_correct (tas_backoff_prog rand n m) \<and>
   program_correct (get_and_set_prog n m) \<and> program_correct (counter_swap_prog n m) \<and>
   program_correct (test_swap_prog n m) \<and> program_correct (swap_yield_prog n m) \<and>
   program_correct (swap_backoff_prog rand n m) \<and>
   program_correct (counter_cas_prog n m) \<and> program_correct (test_cas_prog n m) \<and>
   program_correct (cas_yield_prog n m) \<and> program_correct (cas_backoff_prog rand n m)"
  using test_and_set_programs_correct swap_programs_correct cas_programs_correct by blast

text \<open>C15: the two plain futex mutexes are correct, Drepper's for any number of threads and the simple
  one for every number below \<open>2 ^ 31\<close>, with or without spurious wake-ups: mutual exclusion, every
  increment counted, and no wake-up is lost: from every reachable state the program can finish.\<close>

theorem futex_mutexes_correct:
  assumes "n < 2 ^ 31"
  shows "program_correct (drepper_prog spurious k m) \<and> program_correct (simple_mutex_prog spurious n m)"
  using drepper.correct live_program.correct [OF simple_mutex_live [OF assms]] by blast

theorem futex_mutexes_correct_witness:
  "(4 :: nat) < 2 ^ 31 \<and> program_correct (drepper_prog False 4 10000000) \<and>
    program_correct (simple_mutex_prog False 4 10000000)"
  using futex_mutexes_correct [of 4] by simp

text \<open>C12: every reachable state of a test program, seen through its lock, is a reachable state of
  the most general client of that lock with \<open>NUM_THREADS\<close> threads and one call of \<open>lock\<close> per
  round of \<open>count\<close>. This holds for every lock, correct or not.\<close>

theorem program_refines_lock_system:
  assumes "prog_reach P s"
  shows "(lock_sys (impl P) (num_threads P) (num_threads P * rounds P))\<^sup>*\<^sup>*
    (lock_init (globals0 P) (locals0 P)) (lock_view P s)"
  using assms by (rule lock_view_reach)

theorem program_refines_lock_system_witness:
  "\<exists>s. prog_reach (ttas_prog 2 6) s \<and> mpc s = MainDone \<and>
    (lock_sys (impl (ttas_prog 2 6)) (num_threads (ttas_prog 2 6))
      (num_threads (ttas_prog 2 6) * rounds (ttas_prog 2 6)))\<^sup>*\<^sup>*
      (lock_init (globals0 (ttas_prog 2 6)) (locals0 (ttas_prog 2 6))) (lock_view (ttas_prog 2 6) s)"
  using finished_state [OF ttas.finishes [of 2 6]] program_refines_lock_system [of "ttas_prog 2 6"]
  by blast

text \<open>C13: the states of every test program are well formed, whatever its lock: \<open>main\<close> has created
  exactly the threads it has counted and has joined only threads that have returned; no thread has
  made more rounds than its share, nor less when it is done; the lines printed by the threads are one
  for each that has returned, and \<open>main\<close> prints one value, the sum of the elements of the
  counter, as its last action.\<close>

theorem programs_well_formed:
  assumes "prog_reach P s"
  shows "prog_ok P s \<and> output_ok P s"
  using assms by (rule output_ok_reach)

theorem programs_well_formed_witness:
  "\<exists>s. prog_reach (ttas_prog 2 6) s \<and> mpc s = MainDone \<and> prog_ok (ttas_prog 2 6) s \<and> output_ok (ttas_prog 2 6) s"
  using finished_state [OF ttas.finishes [of 2 6]] programs_well_formed [of "ttas_prog 2 6"] by blast

text \<open>C5: the MCS and CLH locks, each also with \<open>sched_yield\<close>, are correct for any number of threads, any \<open>MAX_COUNT\<close>
  and any initial contents of the nodes on the stacks or from \<open>malloc\<close>: mutual exclusion,
  every increment counted, every reachable state can finish; also when \<open>mcs_unlock\<close> finds that a
  successor has exchanged \<open>tail\<close> but not linked itself yet, and although the CLH nodes change hands at every
  \<open>unlock\<close>.\<close>

theorem queue_locks_correct:
  "program_correct (mcs_prog stack n m) \<and> program_correct (mcs_yield_prog stack n m) \<and>
   program_correct (clh_prog heap n m) \<and> program_correct (clh_yield_prog heap n m)"
  using mcs_programs_correct clh_programs_correct by blast

text \<open>C3: the queue locks are first come, first served: the three ticket locks, the array lock, the MCS and the CLH locks with
  and without \<open>sched_yield\<close>, and the three fair futex mutexes. A thread joins when it draws its number or its slot or exchanges
  \<open>tail\<close>. From then on, until its call of \<open>lock\<close> returns, no thread that had not joined at that moment
  gets into the critical section, in any run of the program (\<open>no_overtaking\<close>). And every run of the program is a run of the abstract
  queue: in each state there is a queue of exactly the threads that have joined, the one in the critical section at its
  head, and each step leaves it as it is, adds a thread at the end or takes away the head (\<open>follows_queue\<close>). The queue is
  the one the variables represent: the \<open>k\<close>-th thread holds the ticket \<open>turn + k\<close>; the slots are taken in a row and one flag is raised; the MCS
  nodes from the head to \<open>tail\<close> are linked, but for the links not made yet; or each thread spins on the CLH node of the one
  before it, and no two hold the same node. The bounds keep numbers of different threads different.\<close>

theorem first_come_first_served:
  assumes "n < 2 ^ 16" and "k < 2 ^ 32" and "m < 2 ^ 32" and "a dvd 2 ^ 16" and "a \<le> 2 ^ 11"
  shows "serves_in_order (ticket_lock_prog n j) (ticket_queue tickets.number tickets.turn ticket_local.my_number ticket_stage n) holds_ticket \<and>
    serves_in_order (ticket_yield_prog n j) (ticket_queue tickets.number tickets.turn ticket_local.my_number ticket_stage n) holds_ticket \<and>
    serves_in_order (get_and_add_prog k j) (ticket_queue tickets.number tickets.turn ticket_local.my_number ticket_stage k) holds_ticket \<and>
    serves_in_order (array_lock_prog a j) (array_line a 32) in_queue \<and>
    serves_in_order (mcs_prog stack i j) (mcs_line i False) mcs_joined \<and>
    serves_in_order (mcs_yield_prog stack i j) (mcs_line i True) mcs_joined \<and>
    serves_in_order (clh_prog heap i j) (clh_list i) clh_joined \<and>
    serves_in_order (clh_yield_prog heap i j) (clh_list i) clh_joined \<and>
    serves_in_order (fair_mutex_prog spurious k m) (ticket_queue fair_futex.number fair_futex.turn fair_local.my_number fair_stage k) has_number \<and>
    serves_in_order (fair_bitset_prog spurious k m) (ticket_queue fair_futex.number fair_futex.turn fair_local.my_number fair_stage k) has_number \<and>
    serves_in_order (fair_spin_prog spurious k m) (ticket_queue fair_futex.number fair_futex.turn fair_local.my_number fair_stage k) has_number"
  by (intro conjI ticket_locks_in_order array_lock_in_order mcs.in_order mcs_yield.in_order clh_in_order fair_mutexes_in_order assms)

text \<open>Two threads: thread 0 has drawn its number and thread 1 not; then thread 1 draws too. Thread 0 is first.\<close>

definition zero_draws :: "(tid option \<times> nat) list" where
  "zero_draws = map (\<lambda>w. (w, 0)) [None, None, Some 0, Some 0]"

theorem first_come_first_served_witness:
  "\<exists>u v. prog_reach (ticket_lock_prog 2 4) u \<and> joined_in holds_ticket u 0 \<and> \<not> joined_in holds_ticket u 1 \<and>
    (\<lambda>s t. prog_step (ticket_lock_prog 2 4) s t \<and> cpc (threads t 0) = InLock)\<^sup>*\<^sup>* u v \<and>
    joined_in holds_ticket v 0 \<and> joined_in holds_ticket v 1 \<and> \<not> critical v 1"
proof -
  let ?P = "ticket_lock_prog 2 4" and ?D = "\<lambda>s t. prog_step (ticket_lock_prog 2 4) s t \<and> cpc (threads t 0) = InLock"
  have "\<exists>u w v. run_schedule ?P zero_draws (prog_init ?P) = Some u \<and> cpc (threads u 0) = InLock \<and> joined_in holds_ticket u 0 \<and>
      \<not> joined_in holds_ticket u 1 \<and> w \<in> set (count_step ?P 1 u) \<and> cpc (threads w 0) = InLock \<and> v \<in> set (count_step ?P 1 w) \<and>
      cpc (threads v 0) = InLock \<and> joined_in holds_ticket v 0 \<and> joined_in holds_ticket v 1"
    by (simp add: zero_draws_def ticket_lock_prog_def ticket_lock_lock_def prog_init_def main_step_def count_step_def rounds_def
        joined_in_def holds_ticket_def Let_def)
  then obtain u w v where u: "prog_reach ?P u" "cpc (threads u 0) = InLock" "joined_in holds_ticket u 0" "\<not> joined_in holds_ticket u 1"
    and w: "w \<in> set (count_step ?P 1 u)" "cpc (threads w 0) = InLock"
    and v: "v \<in> set (count_step ?P 1 w)" "cpc (threads v 0) = InLock" "joined_in holds_ticket v 0" "joined_in holds_ticket v 1"
    using run_schedule_reaches by blast
  have n: "0 < num_threads ?P" "1 < num_threads ?P" by (simp_all add: ticket_lock_prog_def)
  then have "?D u w" "?D w v" using w v thread_moves by metis+
  then have run: "?D\<^sup>*\<^sup>* u v" by (intro rtranclp.rtrancl_into_rtrancl [where r = ?D, OF r_into_rtranclp [where r = ?D]])
  have "no_overtaking ?P holds_ticket"
    using first_come_first_served [of 2 4 4 4 4] by (simp add: serves_in_order_def)
  then have "\<not> critical v 1" unfolding no_overtaking_def using u n run by blast
  then show ?thesis using u run v by blast
qed

text \<open>C6: the three algorithms that use no atomic instruction are correct, with every read of an array or of a part of a condition
  a step of its own: Lamport's fast algorithm, on the fast and on the slow path, for every number of threads whose numbers fit an
  \<open>int\<close>, Peterson's for its two threads, the bakery for every number of threads and \<open>MAX_COUNT\<close> below
  \<open>2 ^ 32\<close>, which keeps its \<open>unsigned\<close> numbers from wrapping: mutual exclusion, every increment counted, every
  reachable state can finish.\<close>

theorem read_write_algorithms_correct:
  assumes "n \<le> 2 ^ 31" and "j < 2 ^ 32"
  shows "program_correct (fast_prog n m) \<and> program_correct (peterson_prog m) \<and> program_correct (bakery_prog k j)"
  using fast_correct [OF assms(1)] peterson_correct bakery_correct [OF assms(2)] by blast

theorem read_write_algorithms_correct_witness:
  "program_correct (fast_prog 4 10000000) \<and> program_correct (peterson_prog 10000000) \<and> program_correct (bakery_prog 4 10000000)"
  by (rule read_write_algorithms_correct) simp_all

text \<open>C7: the two readers-writer locks are correct: the one on one word for every number of threads below
  \<open>2 ^ 31\<close>, the room the count of readers has below the writer's bit, the one with tickets for every number below
  65536, although its three 16-bit counters wrap and \<open>reader_lock\<close> advances \<open>reader_turn\<close> with a load and a store.
  A writer is alone, every increment is counted, and every reachable state can finish. Readers do share: two can be
  inside at once.\<close>

theorem rw_locks_correct:
  assumes "n < 2 ^ 31" and "k < 2 ^ 16"
  shows "rw_correct (rw_lock_prog n m) \<and> rw_correct (ticket_rw_prog k m) \<and>
    (\<exists>s. prog_reach (rw_lock_prog 2 4) s \<and> critical s 0 \<and> critical s 1 \<and>
      \<not> writing (rw_lock_prog 2 4) s 0 \<and> \<not> writing (rw_lock_prog 2 4) s 1)"
  using rw_lock_correct [OF assms(1)] ticket_rw_correct [OF assms(2)] by blast

theorem rw_locks_correct_witness: "rw_correct (rw_lock_prog 4 10000000) \<and> rw_correct (ticket_rw_prog 4 10000000)"
  using rw_locks_correct [of 4 4 10000000] by simp

text \<open>C21: the three barriers are correct for every number of phases, the one of two semaphores for every number of threads
  below \<open>2 ^ 31\<close>, the other two below \<open>2 ^ 32\<close>: nobody has returned from its \<open>k\<close>-th call while another
  has not begun its \<open>k\<close>-th, also when a thread comes back before the others have left, and every
  reachable state can finish. A wait of the futex barrier may return without a wake-up, since the phase is tested
  again; that of the monitor may not, since its wait is under an \<open>if\<close>: with two threads one passes the barrier
  before the other has reached it.\<close>

theorem barriers_correct:
  assumes "k < 2 ^ 31" and "n < 2 ^ 32"
  shows "barrier_correct phases (sem_barrier_prog k phases) \<and>
    barrier_correct phases (mon_barrier_prog False n phases) \<and> \<not> separates 20 (mon_barrier_prog True 2 20) \<and>
    barrier_correct phases (fut_barrier_prog False n phases) \<and> separates phases (fut_barrier_prog True n phases)"
  using sem_barrier_correct [OF assms(1)] mon_barrier_correct [OF assms(2)] fut_barrier_correct [OF assms(2)] by blast

theorem barriers_correct_witness:
  "barrier_correct 20 (sem_barrier_prog 10 20) \<and> barrier_correct 20 (mon_barrier_prog False 10 20) \<and>
    barrier_correct 20 (fut_barrier_prog False 10 20)"
  using barriers_correct [of 10 10 20] by simp

end
